(* ===== verification/Prelude.thy ===== *)
theory Prelude
  imports Main "HOL-Library.Word" "HOL-Library.Monad_Syntax"
begin

unbundle bit_operations_syntax

text \<open>
  What every component shares: the machine integers and the error numbers of the C code, the
  result type of a kernel routine, and generic lemmas on lists, functions and options.

  A routine that may stop the kernel (\<open>kassert\<close>, include/klib/kassert.h) or that may never
  return (a spin on a lock that is held) has a result of type \<open>option\<close>, where \<open>None\<close> means
  that it does not return to its caller. A routine that returns an error number has a result of
  type \<open>errno + 'a\<close>: \<open>Inl e\<close> is the return value \<open>-e\<close>, \<open>Inr x\<close> is the return value 0
  with \<open>x\<close> stored through the output parameters.
\<close>

section \<open>Machine integers\<close>

type_synonym u8 = "8 word"
type_synonym u16 = "16 word"
type_synonym u32 = "32 word"
type_synonym u64 = "64 word"

section \<open>Alignment (include/klib/align.h)\<close>

definition truncate_align :: "u64 \<Rightarrow> u64 \<Rightarrow> u64" where
  "truncate_align addr sz = addr AND NOT (sz - 1)"

definition roundup_align :: "u64 \<Rightarrow> u64 \<Rightarrow> u64" where
  "roundup_align addr sz = truncate_align (addr + (sz - 1)) sz"

section \<open>Error numbers and kernel results\<close>

datatype errno =
    EPERM | ENOENT | ESRCH | EINTR | EIO | ENXIO | E2BIG | ENOEXEC | EBADF | ECHILD | EAGAIN
  | ENOMEM | EACCES | EFAULT | ENOTBLK | EBUSY | EEXIST | EXDEV | ENODEV | ENOTDIR | EISDIR
  | EINVAL | ENFILE | EMFILE | ENOTTY | ETXTBSY | EFBIG | ENOSPC | ESPIPE | EROFS | EMLINK
  | EPIPE | EDOM | ERANGE | EDEADLK | ENAMETOOLONG | ENOLCK | ENOSYS

text \<open>\<open>kassert(cond)\<close>: the kernel stops when the condition fails.\<close>

definition kassert :: "bool \<Rightarrow> unit option" where
  "kassert b = (if b then Some () else None)"

lemma kassert_simps [simp]: "kassert True = Some ()" "kassert False = None"
  by (simp_all add: kassert_def)

lemma kassert_eq_Some [simp]: "kassert b = Some u \<longleftrightarrow> b"
  by (simp add: kassert_def)

lemma bind_kassert_eq_Some [simp]: "(kassert b \<bind> (\<lambda>_. f)) = Some y \<longleftrightarrow> b \<and> f = Some y"
  by (cases b) simp_all

section \<open>Collections of rules\<close>

named_theorems queue_laws "what a queue operation does to the lists a store represents"

section \<open>Generic lemmas\<close>

lemma length_remove1_mem: "x \<in> set xs \<Longrightarrow> length (remove1 x xs) = length xs - 1"
  by (simp add: length_remove1)

lemma remove1_append_mid: "x \<notin> set xs \<Longrightarrow> remove1 x (xs @ x # ys) = xs @ ys"
  by (simp add: remove1_append)

lemma split_list_distinct:
  assumes "x \<in> set xs" and "distinct xs"
  obtains ys zs where "xs = ys @ x # zs" and "x \<notin> set ys" and "x \<notin> set zs"
  using assms by (metis distinct.simps(2) distinct_append not_distinct_conv_prefix split_list)

lemma fun_upd_twice_eq: "f a = b \<Longrightarrow> f(a := b) = f"
  by auto

end
