(* ===== verification/Cstring.thy ===== *)
theory Cstring
  imports Prelude
begin

unbundle bit_operations_syntax

text \<open>
  The C string and memory functions of the kernel library (klib/str*.c, klib/mem*.c). Memory is a
  function from addresses to bytes, and address arithmetic wraps. \<open>char\<close> is unsigned on RISC-V. A
  function that stops only at a terminator is a partial function; a loop over a count is a recursion on
  the count that is left. A null pointer is \<open>None\<close>.
\<close>

section \<open>Characters\<close>

definition islower :: "u8 \<Rightarrow> bool" where "islower c \<longleftrightarrow> 97 \<le> c \<and> c \<le> 122"
definition isupper :: "u8 \<Rightarrow> bool" where "isupper c \<longleftrightarrow> 65 \<le> c \<and> c \<le> 90"
definition isdigit :: "u8 \<Rightarrow> bool" where "isdigit c \<longleftrightarrow> 48 \<le> c \<and> c \<le> 57"
definition isblank :: "u8 \<Rightarrow> bool" where "isblank c \<longleftrightarrow> c = 32 \<or> c = 9"
definition iscntrl :: "u8 \<Rightarrow> bool" where "iscntrl c \<longleftrightarrow> 0 \<le> c \<and> c \<le> 0x1f \<or> c = 0x7f"
definition isgraph :: "u8 \<Rightarrow> bool" where "isgraph c \<longleftrightarrow> 0x21 \<le> c \<and> c \<le> 0x7e"
definition isprint :: "u8 \<Rightarrow> bool" where "isprint c \<longleftrightarrow> 0x20 \<le> c \<and> c \<le> 0x7e"
definition ispunct :: "u8 \<Rightarrow> bool" where
  "ispunct c \<longleftrightarrow> 0x21 \<le> c \<and> c \<le> 0x2f \<or> 0x3a \<le> c \<and> c \<le> 0x40 \<or> 0x5b \<le> c \<and> c \<le> 0x60 \<or> 0x7b \<le> c \<and> c \<le> 0x7e"
definition isspace :: "u8 \<Rightarrow> bool" where "isspace c \<longleftrightarrow> c = 12 \<or> c = 10 \<or> c = 13 \<or> c = 11 \<or> isblank c"
definition isxdigit :: "u8 \<Rightarrow> bool" where
  "isxdigit c \<longleftrightarrow> isdigit c \<or> 97 \<le> c \<and> c \<le> 102 \<or> 65 \<le> c \<and> c \<le> 70"
definition isalpha :: "u8 \<Rightarrow> bool" where "isalpha c \<longleftrightarrow> islower c \<or> isupper c"
definition isalnum :: "u8 \<Rightarrow> bool" where "isalnum c \<longleftrightarrow> isalpha c \<or> isdigit c"
definition toupper :: "u8 \<Rightarrow> u8" where "toupper c = (if islower c then c AND 0x5f else c)"
definition tolower :: "u8 \<Rightarrow> u8" where "tolower c = (if isupper c then c OR 0x20 else c)"

section \<open>Strings\<close>

type_synonym bytes = "u64 \<Rightarrow> u8"

partial_function (option) strlen_loop :: "bytes \<Rightarrow> u64 \<Rightarrow> u64 option" where
  "strlen_loop m sp = (if m sp \<noteq> 0 then strlen_loop m (sp + 1) else Some sp)"

definition strlen :: "bytes \<Rightarrow> u64 \<Rightarrow> u64 option" where
  "strlen m s = do { sp \<leftarrow> strlen_loop m s; Some (sp - s) }"

fun strnlen_loop :: "bytes \<Rightarrow> u64 \<Rightarrow> nat \<Rightarrow> u64" where
  "strnlen_loop m sp 0 = sp"
| "strnlen_loop m sp (Suc n) = (if m sp \<noteq> 0 then strnlen_loop m (sp + 1) n else sp)"

definition strnlen :: "bytes \<Rightarrow> u64 \<Rightarrow> u64 \<Rightarrow> u64" where
  "strnlen m s count = strnlen_loop m s (unat count) - s"

text \<open>The difference of two characters as an \<open>int\<close>.\<close>

definition char_diff :: "u8 \<Rightarrow> u8 \<Rightarrow> int" where
  "char_diff a b = uint a - uint b"

partial_function (option) strcmp :: "bytes \<Rightarrow> u64 \<Rightarrow> u64 \<Rightarrow> int option" where
  "strcmp m s1 s2 = (if m s1 \<noteq> 0 \<and> m s1 = m s2 then strcmp m (s1 + 1) (s2 + 1) else Some (char_diff (m s1) (m s2)))"

partial_function (option) strcasecmp :: "bytes \<Rightarrow> u64 \<Rightarrow> u64 \<Rightarrow> int option" where
  "strcasecmp m s1 s2 = (if m s1 \<noteq> 0 \<and> toupper (m s1) = toupper (m s2)
     then strcasecmp m (s1 + 1) (s2 + 1) else Some (char_diff (m s1) (m s2)))"

text \<open>\<open>rc\<close> is a \<open>signed char\<close>.\<close>

fun strncmp_loop :: "(u8 \<Rightarrow> u8) \<Rightarrow> bytes \<Rightarrow> u64 \<Rightarrow> u64 \<Rightarrow> u8 \<Rightarrow> nat \<Rightarrow> u8" where
  "strncmp_loop f m s1 s2 rc 0 = rc"
| "strncmp_loop f m s1 s2 rc (Suc n) =
     (if m s1 \<noteq> 0
      then (let rc = word_of_int (char_diff (f (m s1)) (f (m s2)))
            in if rc \<noteq> 0 then rc else strncmp_loop f m (s1 + 1) (s2 + 1) rc n)
      else rc)"

definition strncmp :: "bytes \<Rightarrow> u64 \<Rightarrow> u64 \<Rightarrow> u64 \<Rightarrow> int" where
  "strncmp m s1 s2 n = sint (strncmp_loop (\<lambda>c. c) m s1 s2 (if m s2 = 0 then 0 else - 1) (unat n))"

definition strncasecmp :: "bytes \<Rightarrow> u64 \<Rightarrow> u64 \<Rightarrow> u64 \<Rightarrow> int" where
  "strncasecmp m s1 s2 n = sint (strncmp_loop toupper m s1 s2 (if m s2 = 0 then 0 else - 1) (unat n))"

partial_function (option) strchr_loop :: "bytes \<Rightarrow> u64 \<Rightarrow> u8 \<Rightarrow> u64 option option" where
  "strchr_loop m s c = (if m s \<noteq> c then (if m s = 0 then Some None else strchr_loop m (s + 1) c) else Some (Some s))"

definition strchr :: "bytes \<Rightarrow> u64 \<Rightarrow> int \<Rightarrow> u64 option option" where
  "strchr m s c = strchr_loop m s (word_of_int c)"

partial_function (option) strrchr_loop :: "bytes \<Rightarrow> u64 \<Rightarrow> int \<Rightarrow> u64 option \<Rightarrow> u64 option option" where
  "strrchr_loop m sp c found = (if m sp \<noteq> 0 then strrchr_loop m (sp + 1) c (if uint (m sp) = c then Some sp else found) else Some found)"

definition strrchr :: "bytes \<Rightarrow> u64 \<Rightarrow> int \<Rightarrow> u64 option option" where
  "strrchr m s c = strrchr_loop m s c (if c \<noteq> 0 then None else Some s)"

text \<open>The functions that write give the address they return and the memory.\<close>

partial_function (option) strcpy_loop :: "bytes \<Rightarrow> u64 \<Rightarrow> u64 \<Rightarrow> (u64 \<times> bytes) option" where
  "strcpy_loop m dest src = do {
     let m = m(dest := m src);
     if m src = 0 then Some (dest, m) else strcpy_loop m (dest + 1) (src + 1)
   }"

definition strcpy :: "bytes \<Rightarrow> u64 \<Rightarrow> u64 \<Rightarrow> (u64 \<times> bytes) option" where
  "strcpy m dest src = do { (_, m) \<leftarrow> strcpy_loop m dest src; Some (dest, m) }"

fun strncpy_loop :: "bytes \<Rightarrow> u64 \<Rightarrow> u64 \<Rightarrow> nat \<Rightarrow> bytes" where
  "strncpy_loop m dest src 0 = m"
| "strncpy_loop m dest src (Suc n) = (if m src = 0 then m else strncpy_loop (m(dest := m src)) (dest + 1) (src + 1) n)"

definition strncpy :: "bytes \<Rightarrow> u64 \<Rightarrow> u64 \<Rightarrow> u64 \<Rightarrow> u64 \<times> bytes" where
  "strncpy m dest src count = (if count = 0 then (dest, m) else (dest, strncpy_loop m dest src (unat count)))"

text \<open>The first loop of \<open>strcat\<close> and \<open>strncat\<close> leaves \<open>dest\<close> one past the terminator.\<close>

partial_function (option) skip_string :: "bytes \<Rightarrow> u64 \<Rightarrow> u64 option" where
  "skip_string m dest = (let c = m dest; dest = dest + 1 in if c \<noteq> 0 then skip_string m dest else Some dest)"

partial_function (option) strcat_loop :: "bytes \<Rightarrow> u64 \<Rightarrow> u64 \<Rightarrow> (u64 \<times> bytes) option" where
  "strcat_loop m dest src = do {
     let m = m(dest := m src);
     if m src = 0 then Some (dest, m(dest := 0)) else strcat_loop m (dest + 1) (src + 1)
   }"

definition strcat :: "bytes \<Rightarrow> u64 \<Rightarrow> u64 \<Rightarrow> (u64 \<times> bytes) option" where
  "strcat m dest src = do { dest \<leftarrow> skip_string m dest; let dest = dest - 1; strcat_loop m dest src }"

fun strncat_loop :: "bytes \<Rightarrow> u64 \<Rightarrow> u64 \<Rightarrow> nat \<Rightarrow> u64 \<times> bytes" where
  "strncat_loop m dest src n =
     (let m = m(dest := m src)
      in if m src = 0 \<or> n = 0 then (dest, m(dest := 0)) else strncat_loop m (dest + 1) (src + 1) (n - 1))"

definition strncat :: "bytes \<Rightarrow> u64 \<Rightarrow> u64 \<Rightarrow> u64 \<Rightarrow> (u64 \<times> bytes) option" where
  "strncat m dest src n = do { dest \<leftarrow> skip_string m dest; let dest = dest - 1; Some (strncat_loop m dest src (unat n)) }"

subsection \<open>Sets of characters\<close>

definition IDX :: "u8 \<Rightarrow> nat" where "IDX c = unat (c div 64)"
definition BIT :: "u8 \<Rightarrow> u64" where "BIT c = push_bit (unat (c mod 64)) 1"

partial_function (option) fill_table :: "bytes \<Rightarrow> u64 \<Rightarrow> u64 list \<Rightarrow> u64 list option" where
  "fill_table m cs tbl = (if m cs \<noteq> 0 then fill_table m (cs + 1) (tbl[IDX (m cs) := tbl ! IDX (m cs) OR BIT (m cs)]) else Some tbl)"

partial_function (option) strcspn_loop :: "bytes \<Rightarrow> u64 list \<Rightarrow> u64 \<Rightarrow> u64 option" where
  "strcspn_loop m tbl s1 = (if tbl ! IDX (m s1) AND BIT (m s1) \<noteq> 0 then Some s1 else strcspn_loop m tbl (s1 + 1))"

definition strcspn :: "bytes \<Rightarrow> u64 \<Rightarrow> u64 \<Rightarrow> u64 option" where
  "strcspn m s reject = (if m s = 0 then Some 0 else do {
     tbl \<leftarrow> fill_table m reject [1, 0, 0, 0];
     s1 \<leftarrow> strcspn_loop m tbl s;
     Some (s1 - s)
   })"

partial_function (option) strspn_loop :: "bytes \<Rightarrow> u64 list \<Rightarrow> u64 \<Rightarrow> u64 option" where
  "strspn_loop m tbl s1 = (if tbl ! IDX (m s1) AND BIT (m s1) = 0 then Some s1 else strspn_loop m tbl (s1 + 1))"

definition strspn :: "bytes \<Rightarrow> u64 \<Rightarrow> u64 \<Rightarrow> u64 option" where
  "strspn m s accept = (if m s = 0 then Some 0 else do {
     tbl \<leftarrow> fill_table m accept [0, 0, 0, 0];
     s1 \<leftarrow> strspn_loop m tbl s;
     Some (s1 - s)
   })"

text \<open>The argument \<open>str\<close> is only tested. \<open>saveptr\<close> is the value of the variable it points to.\<close>

definition strtok_r :: "bytes \<Rightarrow> u64 option \<Rightarrow> u64 \<Rightarrow> u64 option \<Rightarrow> (u64 option \<times> u64 option \<times> bytes) option" where
  "strtok_r m str delim saveptr =
     (if str = None \<and> saveptr = None then Some (None, saveptr, m)
      else do {
        str \<leftarrow> saveptr;
        n \<leftarrow> strspn m str delim;
        let str = str + n;
        if m str = 0 then Some (None, None, m)
        else do {
          n \<leftarrow> strcspn m str delim;
          let p = str + n;
          if m p \<noteq> 0 then Some (Some str, Some (p + 1), m(p := 0)) else Some (Some str, None, m)
        }
      })"

subsection \<open>Substrings\<close>

partial_function (option) strstr_match :: "bytes \<Rightarrow> u64 \<Rightarrow> u64 \<Rightarrow> u64 option" where
  "strstr_match m cq cr = (if m cq \<noteq> 0 \<and> m cr \<noteq> 0
     then (if m cq \<noteq> m cr then Some cr else strstr_match m (cq + 1) (cr + 1)) else Some cr)"

partial_function (option) strstr :: "bytes \<Rightarrow> u64 \<Rightarrow> u64 \<Rightarrow> u64 option option" where
  "strstr m haystack needle =
     (if m haystack = 0 then Some None
      else if m haystack = m needle then do {
        cr \<leftarrow> strstr_match m haystack needle;
        if m cr = 0 then Some (Some haystack) else strstr m (haystack + 1) needle
      } else strstr m (haystack + 1) needle)"

section \<open>Memory\<close>

fun memchr_loop :: "bytes \<Rightarrow> u64 \<Rightarrow> u8 \<Rightarrow> nat \<Rightarrow> u64 option" where
  "memchr_loop m s c 0 = None"
| "memchr_loop m s c (Suc n) = (if m s = c then Some s else memchr_loop m (s + 1) c n)"

definition memchr :: "bytes \<Rightarrow> u64 \<Rightarrow> int \<Rightarrow> u64 \<Rightarrow> u64 option" where
  "memchr m s c count = memchr_loop m s (word_of_int c) (unat count)"

fun memcmp_loop :: "bytes \<Rightarrow> u64 \<Rightarrow> u64 \<Rightarrow> u8 \<Rightarrow> nat \<Rightarrow> u8" where
  "memcmp_loop m s1 s2 rc 0 = rc"
| "memcmp_loop m s1 s2 rc (Suc n) =
     (let rc = word_of_int (char_diff (m s1) (m s2)) in if rc \<noteq> 0 then rc else memcmp_loop m (s1 + 1) (s2 + 1) rc n)"

definition memcmp :: "bytes \<Rightarrow> u64 \<Rightarrow> u64 \<Rightarrow> u64 \<Rightarrow> int" where
  "memcmp m s1 s2 count = sint (memcmp_loop m s1 s2 0 (unat count))"

fun copy_up :: "bytes \<Rightarrow> u64 \<Rightarrow> u64 \<Rightarrow> nat \<Rightarrow> bytes" where
  "copy_up m d s 0 = m"
| "copy_up m d s (Suc n) = copy_up (m(d := m s)) (d + 1) (s + 1) n"

fun copy_down :: "bytes \<Rightarrow> u64 \<Rightarrow> u64 \<Rightarrow> nat \<Rightarrow> bytes" where
  "copy_down m d s 0 = m"
| "copy_down m d s (Suc n) = (let d = d - 1; s = s - 1 in copy_down (m(d := m s)) d s n)"

definition memcpy :: "bytes \<Rightarrow> u64 \<Rightarrow> u64 \<Rightarrow> u64 \<Rightarrow> u64 \<times> bytes" where
  "memcpy m dest src count = (dest, copy_up m dest src (unat count))"

definition memmove :: "bytes \<Rightarrow> u64 \<Rightarrow> u64 \<Rightarrow> u64 \<Rightarrow> u64 \<times> bytes" where
  "memmove m dest src count =
     (if dest = src then (dest, m)
      else if src < dest \<and> dest < src + count
      then (dest, copy_down m (dest + count) (src + count) (unat count))
      else (dest, copy_up m dest src (unat count)))"

subsection \<open>memset\<close>

text \<open>A store of a word of \<open>k\<close> bytes, the lowest byte first.\<close>

definition store_word :: "nat \<Rightarrow> u64 \<Rightarrow> u64 \<Rightarrow> bytes \<Rightarrow> bytes" where
  "store_word k v p m = (\<lambda>a. if unat (a - p) < k then ucast (drop_bit (8 * unat (a - p)) v) else m a)"

text \<open>The three loops. The result of \<open>fill32\<close> tells whether it is left through the jump to \<open>retry64\<close>.\<close>

fun fill64 :: "u64 \<Rightarrow> bytes \<Rightarrow> u64 \<Rightarrow> nat \<Rightarrow> bytes \<times> u64 \<times> nat" where
  "fill64 c64 m cp64 len = (if 8 \<le> len then fill64 c64 (store_word 8 c64 cp64 m) (cp64 + 8) (len - 8) else (m, cp64, len))"

fun fill32 :: "u64 \<Rightarrow> u64 \<Rightarrow> bytes \<Rightarrow> u64 \<Rightarrow> nat \<Rightarrow> bool \<times> bytes \<times> u64 \<times> nat" where
  "fill32 c32 cp8 m cp32 len =
     (if 4 \<le> len then
        (let m = store_word 4 c32 cp32 m; cp32 = cp32 + 4
         in if cp8 AND 7 = 0 \<and> 8 \<le> len then (True, m, cp32, len) else fill32 c32 cp8 m cp32 (len - 4))
      else (False, m, cp32, len))"

declare strncat_loop.simps [simp del] fill64.simps [simp del] fill32.simps [simp del]

datatype memset_pc = Start | Retry64 | Test32 | Retry32 | FillBytes

function memset_run :: "memset_pc \<Rightarrow> u64 \<Rightarrow> u64 \<Rightarrow> u8 \<Rightarrow> bytes \<Rightarrow> u64 \<Rightarrow> nat \<Rightarrow> bytes" where
  "memset_run Start c32 c64 c m cp8 len = memset_run (if cp8 AND 7 = 0 \<and> 8 \<le> len then Retry64 else Test32) c32 c64 c m cp8 len"
| "memset_run Retry64 c32 c64 c m cp8 len =
     (case fill64 c64 m cp8 len of (m, cp64, len) \<Rightarrow> memset_run Test32 c32 c64 c m cp64 len)"
| "memset_run Test32 c32 c64 c m cp8 len = memset_run (if cp8 AND 3 = 0 \<and> 4 \<le> len then Retry32 else FillBytes) c32 c64 c m cp8 len"
| "memset_run Retry32 c32 c64 c m cp8 len =
     (case fill32 c32 cp8 m cp8 len of (jump, m, cp32, len) \<Rightarrow>
        if jump then memset_run Retry64 c32 c64 c m cp32 len else memset_run FillBytes c32 c64 c m cp8 len)"
| "memset_run FillBytes c32 c64 c m cp8 len =
     (if 0 < len
      then (let len = len - 1; m = m(cp8 := c); cp8 = cp8 + 1
            in if cp8 AND 7 = 0 \<and> 8 \<le> len then memset_run Retry64 c32 c64 c m cp8 len
               else if cp8 AND 3 = 0 \<and> 4 \<le> len then memset_run Retry32 c32 c64 c m cp8 len
               else memset_run FillBytes c32 c64 c m cp8 len)
      else m)"
  by pat_completeness auto

text \<open>The loops over words end with less than a word left, and a jump needs at least eight bytes.\<close>

lemma fill64_left: "fill64 c64 m p len = (m', p', len') \<Longrightarrow> len' = len mod 8"
proof (induction c64 m p len rule: fill64.induct)
  case (1 c64 m p len)
  then show ?case by (simp add: fill64.simps [of c64 m p len] le_mod_geq split: if_splits)
qed

lemma fill32_left: "fill32 c32 cp8 m p len = (jump, m', p', len') \<Longrightarrow> len' \<le> len \<and> (jump \<longrightarrow> 8 \<le> len')"
proof (induction c32 cp8 m p len rule: fill32.induct)
  case (1 c32 cp8 m p len)
  have "fill32 c32 cp8 (store_word 4 c32 p m) (p + 4) (len - 4) = (jump, m', p', len') \<Longrightarrow> \<not> (cp8 AND 7 = 0 \<and> 8 \<le> len) \<Longrightarrow> 4 \<le> len \<Longrightarrow>
      len' \<le> len - 4 \<and> (jump \<longrightarrow> 8 \<le> len')"
    by (rule 1(1)) simp_all
  with 1(2) show ?case by (auto simp add: fill32.simps [of c32 cp8 m p len] Let_def split: if_splits)
qed

fun memset_rank :: "memset_pc \<Rightarrow> nat \<Rightarrow> nat" where
  "memset_rank Start n = 5"
| "memset_rank Retry64 n = (if 8 \<le> n then 2 else 4)"
| "memset_rank Test32 n = (if 8 \<le> n then 4 else 3)"
| "memset_rank Retry32 n = (if 8 \<le> n then 3 else 2)"
| "memset_rank FillBytes n = 1"

termination memset_run
  apply (relation "measures [\<lambda>(pc, _, _, _, _, _, n). n, \<lambda>(pc, _, _, _, _, _, n). memset_rank pc n]")
        apply simp_all
  subgoal for c64 m cp8 len
    using fill64_left [of c64 m cp8 len]
    by (cases "fill64 c64 m cp8 len") (auto intro: order.strict_trans1 [OF _ mod_less_divisor] simp: not_le)
  subgoal for c32 m cp8 len
    using fill32_left [of c32 cp8 m cp8 len] by (cases "fill32 c32 cp8 m cp8 len") (auto simp: le_less)
  subgoal for c32 m cp8 len
    using fill32_left [of c32 cp8 m cp8 len] by (cases "fill32 c32 cp8 m cp8 len") (auto simp: le_less)
  done

definition memset :: "bytes \<Rightarrow> u64 \<Rightarrow> int \<Rightarrow> u64 \<Rightarrow> u64 \<times> bytes" where
  "memset m s c n =
     (let val = (word_of_int c :: u64) AND 0xff;
          c32 = (push_bit 24 val OR push_bit 16 val OR push_bit 8 val OR val) AND 0xffffffff;
          c64 = push_bit 32 c32 OR c32 in
     (s, memset_run Start c32 c64 (ucast (word_of_int c AND 0xff :: u64)) m s (unat n)))"

end
