(* ===== verification/CstringMemory.thy ===== *)
theory CstringMemory
  imports Cstring
begin

unbundle bit_operations_syntax

text \<open>
  The memory functions: what \<open>memset\<close> sets, with its loops over words and bytes, the copies with and
  without overlap, the comparison and the search.
\<close>

lemma addr_Suc: "(p :: u64) + of_nat (Suc n) = p + 1 + of_nat n"
  by (simp add: algebra_simps)

lemma char_diff_simps:
  "char_diff a b = 0 \<longleftrightarrow> a = b" "char_diff a b < 0 \<longleftrightarrow> a < b"
proof -
  show "char_diff a b = 0 \<longleftrightarrow> a = b" "char_diff a b < 0 \<longleftrightarrow> a < b"
    by (auto simp: char_diff_def word_less_def word_uint_eq_iff)
qed

lemma sint_zero: "sint (w :: 'a::len word) = 0 \<longleftrightarrow> w = 0"
  by (metis signed_0 signed_word_eqI)

lemma char_diff_byte: "(word_of_int (char_diff a b) :: u8) = a - b"
  by (simp add: char_diff_def wi_hom_sub)

section \<open>Comparison and search\<close>

lemma memcmp_at:
  "memcmp m s1 s2 n = 0 \<longleftrightarrow> (\<forall>i<unat n. m (s1 + of_nat i) = m (s2 + of_nat i))"
  "(\<And>i. i < k \<Longrightarrow> m (s1 + of_nat i) = m (s2 + of_nat i)) \<Longrightarrow> k < unat n \<Longrightarrow> m (s1 + of_nat k) \<noteq> m (s2 + of_nat k) \<Longrightarrow>
     memcmp m s1 s2 n = sint (m (s1 + of_nat k) - m (s2 + of_nat k))"
proof -
  have loop: "memcmp_loop m s1 s2 0 j =
      (if \<forall>i<j. m (s1 + of_nat i) = m (s2 + of_nat i) then 0
       else let i = (LEAST i. m (s1 + of_nat i) \<noteq> m (s2 + of_nat i)) in m (s1 + of_nat i) - m (s2 + of_nat i))" for j
  proof (induction j arbitrary: s1 s2)
    case (Suc j)
    show ?case
    proof (cases "m s1 = m s2")
      case True
      have all: "(\<forall>i<Suc j. m (s1 + of_nat i) = m (s2 + of_nat i)) \<longleftrightarrow> (\<forall>i<j. m (s1 + 1 + of_nat i) = m (s2 + 1 + of_nat i))"
        using True by (auto simp: less_Suc_eq_0_disj addr_Suc simp del: of_nat_Suc)
      have "(LEAST i. m (s1 + of_nat i) \<noteq> m (s2 + of_nat i)) = Suc (LEAST i. m (s1 + 1 + of_nat i) \<noteq> m (s2 + 1 + of_nat i))"
        if "\<not> (\<forall>i<j. m (s1 + 1 + of_nat i) = m (s2 + 1 + of_nat i))"
      proof -
        from that obtain i where "m (s1 + of_nat (Suc i)) \<noteq> m (s2 + of_nat (Suc i))" unfolding addr_Suc by blast
        then have "(LEAST i. m (s1 + of_nat i) \<noteq> m (s2 + of_nat i)) = Suc (LEAST i. m (s1 + of_nat (Suc i)) \<noteq> m (s2 + of_nat (Suc i)))"
          using True by (intro Least_Suc [where n = "Suc i"]) auto
        then show ?thesis by (simp only: addr_Suc)
      qed
      then show ?thesis
        using True Suc.IH [of "s1 + 1" "s2 + 1"] unfolding all by (auto simp add: char_diff_byte Let_def addr_Suc simp del: of_nat_Suc)
    next
      case False
      then have "(LEAST i. m (s1 + of_nat i) \<noteq> m (s2 + of_nat i)) = 0" by (intro Least_eq_0) simp
      moreover have "\<not> (\<forall>i<Suc j. m (s1 + of_nat i) = m (s2 + of_nat i))" using False by auto
      ultimately show ?thesis using False by (simp add: char_diff_byte Let_def)
    qed
  qed simp
  define eq where "eq = (\<forall>i<unat n. m (s1 + of_nat i) = m (s2 + of_nat i))"
  define k0 where "k0 = (LEAST i. m (s1 + of_nat i) \<noteq> m (s2 + of_nat i))"
  have run: "memcmp m s1 s2 n = sint (if eq then 0 else m (s1 + of_nat k0) - m (s2 + of_nat k0))"
    unfolding memcmp_def loop eq_def k0_def Let_def by (rule refl)
  have "m (s1 + of_nat k0) \<noteq> m (s2 + of_nat k0)" if "\<not> eq"
    unfolding k0_def by (rule LeastI_ex) (use that in \<open>auto simp: eq_def\<close>)
  then show "memcmp m s1 s2 n = 0 \<longleftrightarrow> (\<forall>i<unat n. m (s1 + of_nat i) = m (s2 + of_nat i))"
    unfolding eq_def [symmetric] run sint_zero by simp
  show "memcmp m s1 s2 n = sint (m (s1 + of_nat k) - m (s2 + of_nat k))"
    if "\<And>i. i < k \<Longrightarrow> m (s1 + of_nat i) = m (s2 + of_nat i)" "k < unat n" "m (s1 + of_nat k) \<noteq> m (s2 + of_nat k)"
  proof -
    have "k0 = k"
      unfolding k0_def using that(1,3) by (intro Least_equality) (auto simp: not_less [symmetric])
    moreover have "\<not> eq" using that(2,3) by (auto simp: eq_def)
    ultimately show ?thesis unfolding run by simp
  qed
qed

lemma memchr_loop_at:
  "case memchr_loop m s c n of None \<Rightarrow> \<forall>i<n. m (s + of_nat i) \<noteq> c
   | Some a \<Rightarrow> \<exists>i<n. a = s + of_nat i \<and> m a = c \<and> (\<forall>j<i. m (s + of_nat j) \<noteq> c)"
proof (induction n arbitrary: s)
  case (Suc n)
  have all: "(\<forall>i<Suc k. m (s + of_nat i) \<noteq> c) \<longleftrightarrow> m s \<noteq> c \<and> (\<forall>i<k. m (s + 1 + of_nat i) \<noteq> c)" for k
    unfolding addr_Suc [symmetric] by (auto simp: less_Suc_eq_0_disj simp del: of_nat_Suc)
  show ?case
  proof (cases "m s = c")
    case True
    then show ?thesis by (auto intro: exI [of _ 0])
  next
    case False
    show ?thesis
    proof (cases "memchr_loop m (s + 1) c n")
      case None
      then show ?thesis using Suc [of "s + 1"] False by (simp add: all)
    next
      case (Some a)
      then obtain i where "i < n" "a = s + 1 + of_nat i" "m a = c" "\<forall>j<i. m (s + 1 + of_nat j) \<noteq> c"
        using Suc [of "s + 1"] by auto
      then have "Suc i < Suc n \<and> a = s + of_nat (Suc i) \<and> m a = c \<and> (\<forall>j<Suc i. m (s + of_nat j) \<noteq> c)"
        unfolding all using False by simp
      then show ?thesis using Some False by auto
    qed
  qed
qed simp

section \<open>Copies\<close>

lemma addr_offset: obtains k where "(a :: u64) = p + of_nat k" "unat (a - p) = k" "k < 2 ^ 64"
proof
  show "a = p + of_nat (unat (a - p))" by simp
  show "unat (a - p) < 2 ^ 64" using unsigned_less [of "a - p"] by simp
qed simp

lemma unat_offset: "k < 2 ^ 64 \<Longrightarrow> unat (of_nat k :: u64) = k"
  by (simp add: unat_of_nat)

lemma offset_Suc:
  assumes "Suc n \<le> 2 ^ 64"
  shows "unat (a - (p + 1)) < n \<longleftrightarrow> a \<noteq> p \<and> unat (a - p :: u64) < Suc n"
proof (cases "a = p")
  case True
  then have "a - (p + 1) = - 1" by simp
  moreover have "unat (- 1 :: u64) = 2 ^ 64 - 1" by (simp add: unsigned_minus_1_eq_mask mask_eq_exp_minus_1)
  ultimately have "unat (a - (p + 1)) = 2 ^ 64 - 1" by simp
  then show ?thesis using True assms by simp
next
  case False
  then have "unat (a - p - 1) = unat (a - p) - 1" "0 < unat (a - p)"
    by (simp_all add: unat_minus_one word_neq_0_conv [symmetric] unat_gt_0)
  then show ?thesis using False by (simp add: algebra_simps) arith
qed

lemma copy_up_eq:
  assumes "n \<le> 2 ^ 64" and "\<And>i j. j < i \<Longrightarrow> i < n \<Longrightarrow> s + of_nat i \<noteq> d + of_nat j"
  shows "copy_up m d s n = (\<lambda>a. if unat (a - d) < n then m (s + (a - d)) else m a)"
  using assms
proof (induction n arbitrary: m d s)
  case (Suc n)
  have apart: "s + 1 + of_nat i \<noteq> d + 1 + of_nat j" if "j < i" "i < n" for i j
    using Suc.prems(2) [of "Suc j" "Suc i"] that by (simp add: addr_Suc del: of_nat_Suc)
  have "copy_up m d s (Suc n) = (\<lambda>a. if unat (a - (d + 1)) < n then (m(d := m s)) (s + 1 + (a - (d + 1))) else (m(d := m s)) a)"
    unfolding copy_up.simps by (rule Suc.IH) (use Suc.prems(1) apart in simp_all)
  also have "\<dots> = (\<lambda>a. if unat (a - d) < Suc n then m (s + (a - d)) else m a)"
  proof
    fix a
    obtain k where k: "a = d + of_nat k" "unat (a - d) = k" "k < 2 ^ 64" by (rule addr_offset)
    have "s + 1 + (a - (d + 1)) = s + (a - d)" by simp
    moreover have "s + (a - d) \<noteq> d" if "a \<noteq> d" "k < Suc n"
    proof -
      have "0 < k" using that(1) k(1) by (cases k) auto
      then show ?thesis using Suc.prems(2) [of 0 k] that(2) k(1) by simp
    qed
    ultimately show "(if unat (a - (d + 1)) < n then (m(d := m s)) (s + 1 + (a - (d + 1))) else (m(d := m s)) a) =
        (if unat (a - d) < Suc n then m (s + (a - d)) else m a)"
      using k(2) Suc.prems(1) by (auto simp: offset_Suc)
  qed
  finally show ?case .
qed simp

lemma copy_down_eq:
  assumes "n \<le> 2 ^ 64" and "\<And>i j. i < j \<Longrightarrow> j < n \<Longrightarrow> s + of_nat i \<noteq> d + of_nat j"
  shows "copy_down m (d + of_nat n) (s + of_nat n) n = (\<lambda>a. if unat (a - d) < n then m (s + (a - d)) else m a)"
  using assms
proof (induction n arbitrary: m)
  case (Suc n)
  let ?m = "m(d + of_nat n := m (s + of_nat n))"
  have "copy_down m (d + of_nat (Suc n)) (s + of_nat (Suc n)) (Suc n) = copy_down ?m (d + of_nat n) (s + of_nat n) n"
    by (simp add: Let_def algebra_simps)
  also have "\<dots> = (\<lambda>a. if unat (a - d) < n then ?m (s + (a - d)) else ?m a)"
    by (rule Suc.IH) (use Suc.prems in simp_all)
  also have "\<dots> = (\<lambda>a. if unat (a - d) < Suc n then m (s + (a - d)) else m a)"
  proof
    fix a
    obtain k where k: "a = d + of_nat k" "unat (a - d) = k" "k < 2 ^ 64" by (rule addr_offset)
    have at: "a = d + of_nat n \<longleftrightarrow> k = n"
    proof
      have "unat (d + of_nat n - d) = n" using Suc.prems(1) by (simp add: unat_of_nat)
      then show "k = n" if "a = d + of_nat n" using that k(2) by blast
    qed (use k(1) in blast)
    have "s + (a - d) \<noteq> d + of_nat n" if "k < n"
      using Suc.prems(2) [of k n] that k(1) by simp
    then show "(if unat (a - d) < n then ?m (s + (a - d)) else ?m a) = (if unat (a - d) < Suc n then m (s + (a - d)) else m a)"
      unfolding k(2) using at by (auto simp: less_Suc_eq)
  qed
  finally show ?case .
qed simp

text \<open>The bytes from \<open>dest\<close> on are those that were at \<open>src\<close>.\<close>

definition moved :: "bytes \<Rightarrow> u64 \<Rightarrow> u64 \<Rightarrow> u64 \<Rightarrow> bytes" where
  "moved m dest src n = (\<lambda>a. if a - dest < n then m (src + (a - dest)) else m a)"

lemma no_wrap: "unat (p :: u64) + k < 2 ^ 64 \<Longrightarrow> unat (p + of_nat k) = unat p + k"
  by (simp add: unat_word_ariths unat_of_nat)

lemma copy_up_moved:
  assumes "unat src + unat n < 2 ^ 64" "unat dest + unat n < 2 ^ 64" and "dest \<le> src \<or> src + n \<le> dest"
  shows "copy_up m dest src (unat n) = moved m dest src n"
proof -
  have "src + of_nat i \<noteq> dest + of_nat j" if "j < i" "i < unat n" for i j
  proof -
    have "unat (src + of_nat i) = unat src + i" "unat (dest + of_nat j) = unat dest + j" "unat (src + n) = unat src + unat n"
      using assms(1,2) that no_wrap [of src i] no_wrap [of dest j] no_wrap [of src "unat n"] by simp_all
    then show ?thesis using assms(3) that by (auto simp: word_le_nat_alt dest!: arg_cong [where f = unat])
  qed
  then show ?thesis
    unfolding moved_def word_less_nat_alt
    by (intro copy_up_eq) (use unsigned_less [of n, where ?'a = nat] in auto)
qed

lemma copy_down_moved:
  assumes "unat src + unat n < 2 ^ 64" "unat dest + unat n < 2 ^ 64" and "src \<le> dest"
  shows "copy_down m (dest + n) (src + n) (unat n) = moved m dest src n"
proof -
  have "src + of_nat i \<noteq> dest + of_nat j" if "i < j" "j < unat n" for i j
  proof -
    have "unat (src + of_nat i) = unat src + i" "unat (dest + of_nat j) = unat dest + j"
      using assms(1,2) that no_wrap [of src i] no_wrap [of dest j] by simp_all
    then show ?thesis using assms(3) that by (auto simp: word_le_nat_alt dest!: arg_cong [where f = unat])
  qed
  then show ?thesis
    using copy_down_eq [of "unat n" src dest m] unsigned_less [of n, where ?'a = nat] unfolding moved_def word_less_nat_alt by auto
qed

section \<open>memset\<close>

text \<open>\<open>k\<close> bytes from \<open>p\<close> on are \<open>c\<close>.\<close>

definition filled :: "u64 \<Rightarrow> nat \<Rightarrow> u8 \<Rightarrow> bytes \<Rightarrow> bytes" where
  "filled p k c m = (\<lambda>a. if unat (a - p) < k then c else m a)"

lemma filled_0 [simp]: "filled p 0 c m = m"
  by (simp add: filled_def)

lemma filled_le: "j \<le> k \<Longrightarrow> filled p j c (filled p k c m) = filled p k c m"
  by (auto simp: filled_def)

lemma filled_more:
  assumes "k + j \<le> 2 ^ 64"
  shows "filled (p + of_nat k) j c (filled p k c m) = filled p (k + j) c m"
proof
  fix a
  obtain i where i: "a = p + of_nat i" "unat (a - p) = i" "i < 2 ^ 64" by (rule addr_offset)
  show "filled (p + of_nat k) j c (filled p k c m) a = filled p (k + j) c m a"
  proof (cases "i < k")
    case True
    then show ?thesis by (simp add: filled_def i(2))
  next
    case False
    then have "a - (p + of_nat k) = of_nat (i - k)" by (simp add: i(1))
    then have "unat (a - (p + of_nat k)) = i - k" using i(3) by (simp add: unat_offset)
    then show ?thesis using False i(2) by (auto simp: filled_def)
  qed
qed

lemma filled_Suc: "Suc k \<le> 2 ^ 64 \<Longrightarrow> filled (p + 1) k c (m(p := c)) = filled p (Suc k) c m"
proof -
  assume k: "Suc k \<le> 2 ^ 64"
  have "m(p := c) = filled p 1 c m" by (auto simp: filled_def unat_eq_0)
  then show ?thesis using filled_more [of 1 k p c m] k by simp
qed

lemma word_bytes:
  fixes c :: int
  defines "val \<equiv> (word_of_int c :: u64) AND 0xff"
  defines "c32 \<equiv> (push_bit 24 val OR push_bit 16 val OR push_bit 8 val OR val) AND 0xffffffff"
  shows "store_word 4 c32 p m = filled p 4 (ucast val) m" "store_word 8 (push_bit 32 c32 OR c32) p m = filled p 8 (ucast val) m"
proof -
  have ff: "(0xff :: u64) = mask 8" "(0xffffffff :: u64) = mask 32" by (simp_all add: mask_eq_exp_minus_1)
  have four: "ucast (drop_bit (8 * i) c32) = (ucast val :: u8)" if "i < 4" for i
  proof -
    have "i = 0 \<or> i = 1 \<or> i = 2 \<or> i = 3" using that by arith
    then consider "i = 0" | "i = 1" | "i = 2" | "i = 3" by blast
    then show ?thesis
      unfolding c32_def val_def ff by cases (intro bit_word_eqI; auto simp: bit_simps)+
  qed
  show "store_word 4 c32 p m = filled p 4 (ucast val) m"
    by (auto simp: store_word_def filled_def four)
  have "ucast (drop_bit (8 * i) (push_bit 32 c32 OR c32)) = (ucast val :: u8)" if "i < 8" for i
  proof (cases "i < 4")
    case True
    have "ucast (drop_bit (8 * i) (push_bit 32 c32 OR c32)) = (ucast (drop_bit (8 * i) c32) :: u8)"
      using True by (intro bit_word_eqI) (auto simp: bit_simps)
    then show ?thesis using four [OF True] by simp
  next
    case False
    then have "8 * i = 8 * (i - 4) + 32" by simp
    moreover have "drop_bit 32 (push_bit 32 c32 OR c32) = c32"
      unfolding c32_def ff by (rule bit_word_eqI) (auto simp add: bit_simps)
    ultimately have "drop_bit (8 * i) (push_bit 32 c32 OR c32) = drop_bit (8 * (i - 4)) c32"
      by (simp only: drop_bit_drop_bit [symmetric])
    then show ?thesis using four [of "i - 4"] False that by simp
  qed
  then show "store_word 8 (push_bit 32 c32 OR c32) p m = filled p 8 (ucast val) m"
    by (auto simp: store_word_def filled_def)
qed

lemma memmove_moves:
  assumes "unat src + unat n < 2 ^ 64" "unat dest + unat n < 2 ^ 64"
  shows "memmove m dest src n = (dest, moved m dest src n)"
proof -
  have "moved m src src n = m" by (auto simp: moved_def)
  moreover have "dest \<le> src \<or> src + n \<le> dest" if "\<not> (src < dest \<and> dest < src + n)" using that by auto
  ultimately show ?thesis
    using copy_up_moved [OF assms] copy_down_moved [OF assms] by (auto simp: memmove_def)
qed

lemma memcpy_moves:
  assumes "unat src + unat n < 2 ^ 64" "unat dest + unat n < 2 ^ 64" and "dest \<le> src \<or> src + n \<le> dest"
  shows "memcpy m dest src n = (dest, moved m dest src n)"
  using copy_up_moved [OF assms] by (simp add: memcpy_def)

section \<open>memset\<close>

lemma aligned_iff: "(p :: u64) AND 7 = 0 \<longleftrightarrow> 8 dvd unat p" "(p :: u64) AND 3 = 0 \<longleftrightarrow> 4 dvd unat p"
proof -
  have "unat (p AND mask n) = unat p mod 2 ^ n" for n
    by (metis take_bit_eq_mask take_bit_eq_mod unsigned_take_bit_eq)
  from this [of 3] this [of 2] show "(p :: u64) AND 7 = 0 \<longleftrightarrow> 8 dvd unat p" "(p :: u64) AND 3 = 0 \<longleftrightarrow> 4 dvd unat p"
    by (simp_all add: mask_eq_exp_minus_1 dvd_eq_mod_eq_0 unat_eq_0 [symmetric])
qed

lemma aligned_add:
  assumes "8 dvd unat p" "8 dvd k"
  shows "(p + of_nat k :: u64) AND 7 = 0" "(p + of_nat k :: u64) AND 3 = 0"
proof -
  have "unat (p + of_nat k :: u64) = (unat p + k) mod 2 ^ 64" by (simp add: unat_word_ariths unat_of_nat mod_simps)
  then have "8 dvd unat (p + of_nat k :: u64)" using assms by (simp add: dvd_mod_iff)
  moreover have "(4 :: nat) dvd 8" by (rule dvdI [of _ _ 2]) simp
  ultimately show "(p + of_nat k :: u64) AND 7 = 0" "(p + of_nat k :: u64) AND 3 = 0"
    unfolding aligned_iff by (blast intro: dvd_trans)+
qed

lemma fill64_run:
  assumes st: "\<And>p m. store_word 8 c64 p m = filled p 8 c m" and "r < 8" "8 * q + r \<le> 2 ^ 64"
  shows "fill64 c64 m p (8 * q + r) = (filled p (8 * q) c m, p + of_nat (8 * q), r)"
  using assms(3)
proof (induction q arbitrary: m p)
  case 0
  then show ?case using assms(2) by (simp add: fill64.simps [of c64 m p r])
next
  case (Suc q)
  have "fill64 c64 m p (8 * Suc q + r) = fill64 c64 (filled p 8 c m) (p + 8) (8 * q + r)"
    by (subst fill64.simps) (simp add: st)
  also have "\<dots> = (filled (p + 8) (8 * q) c (filled p 8 c m), p + 8 + of_nat (8 * q), r)"
    by (rule Suc.IH) (use Suc.prems in simp)
  also have "filled (p + 8) (8 * q) c (filled p 8 c m) = filled p (8 + 8 * q) c m"
    using filled_more [of 8 "8 * q" p c m] Suc.prems by simp
  finally show ?case by (simp add: algebra_simps)
qed

lemma fill32_run:
  assumes st: "\<And>p m. store_word 4 c32 p m = filled p 4 c m" and "r < 4" "4 * q + r \<le> 2 ^ 64"
    and no_jump: "\<not> (cp8 AND 7 = 0 \<and> 8 \<le> 4 * q + r)"
  shows "fill32 c32 cp8 m p (4 * q + r) = (False, filled p (4 * q) c m, p + of_nat (4 * q), r)"
  using assms(3,4)
proof (induction q arbitrary: m p)
  case 0
  then show ?case using assms(2) by (simp add: fill32.simps [of c32 cp8 m p r])
next
  case (Suc q)
  have "fill32 c32 cp8 m p (4 * Suc q + r) = fill32 c32 cp8 (filled p 4 c m) (p + 4) (4 * q + r)"
    using Suc.prems(2) by (subst fill32.simps) (auto simp add: st Let_def)
  also have "\<dots> = (False, filled (p + 4) (4 * q) c (filled p 4 c m), p + 4 + of_nat (4 * q), r)"
    by (rule Suc.IH) (use Suc.prems in auto)
  also have "filled (p + 4) (4 * q) c (filled p 4 c m) = filled p (4 + 4 * q) c m"
    using filled_more [of 4 "4 * q" p c m] Suc.prems by simp
  finally show ?case by (simp add: algebra_simps)
qed

text \<open>Less than four bytes at the end.\<close>

lemma fill_bytes_run: "len < 4 \<Longrightarrow> memset_run FillBytes c32 c64 c m p len = filled p len c m"
proof (induction len arbitrary: m p)
  case (Suc len)
  then show ?case by (simp add: Let_def filled_Suc)
qed simp

declare memset_run.simps(5) [simp del]

text \<open>
  The number of bytes that are set from a multiple of 4 on: the bytes that are left after a loop over
  4-byte words are written again at its beginning.
\<close>

definition set_from_word :: "u64 \<Rightarrow> nat \<Rightarrow> nat" where
  "set_from_word p len =
     (if p AND 7 = 0 \<and> 8 \<le> len then 8 * (len div 8) + (if len mod 8 < 4 then len mod 8 else 4)
      else if len < 4 then len else 4 * (len div 4))"

definition words_of :: "u8 \<Rightarrow> u64 \<Rightarrow> u64 \<Rightarrow> bool" where
  "words_of c c32 c64 \<longleftrightarrow> (\<forall>p m. store_word 4 c32 p m = filled p 4 c m \<and> store_word 8 c64 p m = filled p 8 c m)"

lemma retry32_run:
  assumes st: "words_of c c32 c64" and "4 \<le> len" "len \<le> 2 ^ 64" "\<not> (p AND 7 = 0 \<and> 8 \<le> len)"
  shows "memset_run Retry32 c32 c64 c m p len = filled p (4 * (len div 4)) c m"
proof -
  have "fill32 c32 p m p len = (False, filled p (4 * (len div 4)) c m, p + of_nat (4 * (len div 4)), len mod 4)"
    using fill32_run [of c32 c "len mod 4" "len div 4" p m p] assms by (simp add: words_of_def)
  moreover have "len mod 4 \<le> 4 * (len div 4)" using assms(2) by presburger
  ultimately show ?thesis by (simp add: fill_bytes_run filled_le)
qed

lemma retry64_run:
  assumes st: "words_of c c32 c64" and "8 \<le> len" "len \<le> 2 ^ 64" "p AND 7 = 0"
  shows "memset_run Retry64 c32 c64 c m p len = filled p (set_from_word p len) c m"
proof -
  let ?k = "8 * (len div 8)" let ?q = "p + of_nat ?k"
  have run: "fill64 c64 m p len = (filled p ?k c m, ?q, len mod 8)"
    using fill64_run [of c64 c "len mod 8" "len div 8" m p] assms by (simp add: words_of_def)
  have len: "?k + len mod 8 = len" "len mod 8 < 8" by simp_all
  have al: "?q AND 7 = 0" "?q AND 3 = 0" using aligned_add [of p ?k] assms(4) unfolding aligned_iff by simp_all
  show ?thesis
  proof (cases "len mod 8 < 4")
    case True
    then have "memset_run Retry64 c32 c64 c m p len = filled ?q (len mod 8) c (filled p ?k c m)"
      using run by (simp add: fill_bytes_run)
    then show ?thesis using True assms len filled_more [of ?k "len mod 8" p c m] by (simp add: set_from_word_def)
  next
    case False
    then have "memset_run Retry64 c32 c64 c m p len = memset_run Retry32 c32 c64 c (filled p ?k c m) ?q (len mod 8)"
      using run al by simp
    also have "\<dots> = filled ?q (4 * (len mod 8 div 4)) c (filled p ?k c m)"
      by (rule retry32_run [OF st]) (use False len(2) in auto)
    also have "len mod 8 div 4 = 1" using False len(2) by (intro div_nat_eqI) auto
    finally have "memset_run Retry64 c32 c64 c m p len = filled ?q 4 c (filled p ?k c m)" by simp
    also have "\<dots> = filled p (?k + 4) c m" by (rule filled_more) (use False len assms(3) in linarith)
    finally show ?thesis using False assms(2,4) by (simp add: set_from_word_def)
  qed
qed

lemma test32_run:
  assumes st: "words_of c c32 c64" and "len \<le> 2 ^ 64" "p AND 3 = 0" "\<not> (p AND 7 = 0 \<and> 8 \<le> len)"
  shows "memset_run Test32 c32 c64 c m p len = filled p (set_from_word p len) c m"
proof (cases "4 \<le> len")
  case True
  then have "set_from_word p len = 4 * (len div 4)" using assms(4) by (auto simp: set_from_word_def)
  then show ?thesis using retry32_run [OF st True assms(2,4)] assms(3) True by (simp del: memset_run.simps(4))
next
  case False
  then show ?thesis using assms by (simp add: set_from_word_def fill_bytes_run)
qed

text \<open>Up to the first multiple of 4 the bytes are set one by one.\<close>

definition bytes_set :: "u64 \<Rightarrow> nat \<Rightarrow> nat" where
  "bytes_set p n = (let d = min n (unat (- p AND 3)) in d + set_from_word (p + of_nat d) (n - d))"

lemma low_bits: "unat (w AND 3 :: u64) = unat w mod 4"
proof -
  have "unat (w AND mask 2) = unat w mod 2 ^ 2"
    by (metis take_bit_eq_mask take_bit_eq_mod unsigned_take_bit_eq)
  then show ?thesis by (simp add: mask_eq_exp_minus_1)
qed

lemma neg_aligned: "(- p :: u64) AND 3 = 0 \<longleftrightarrow> p AND 3 = 0"
proof -
  have "unat (p + - p) = (unat p + unat (- p)) mod 2 ^ 64" by (simp only: unat_word_ariths len_num1 len_bit0 len_num0) simp
  then have "2 ^ 64 dvd unat p + unat (- p)" by (simp add: dvd_eq_mod_eq_0)
  moreover have "(4 :: nat) dvd 2 ^ 64" by simp
  ultimately have "4 dvd unat p + unat (- p)" by (rule dvd_trans [rotated])
  then have "(unat p + unat (- p)) mod 4 = 0" by (simp only: dvd_eq_mod_eq_0)
  then show ?thesis unfolding aligned_iff dvd_eq_mod_eq_0 by presburger
qed

lemma set_from_word_le: "set_from_word p n \<le> n"
proof -
  have n: "8 * (n div 8) + n mod 8 = n" "4 * (n div 4) + n mod 4 = n" by simp_all
  then have "4 * (n div 4) \<le> n" "n mod 8 < 4 \<or> 8 * (n div 8) + 4 \<le> n" by linarith+
  then show ?thesis unfolding set_from_word_def using n by auto
qed

lemma bytes_set_le: "bytes_set p n \<le> n"
proof -
  have "min n d + set_from_word q (n - min n d) \<le> n" for d q
    using set_from_word_le [of q "n - min n d"] by linarith
  then show ?thesis unfolding bytes_set_def Let_def .
qed

lemma bytes_set_aligned:
  assumes "p AND 3 = 0"
  shows "bytes_set p n = set_from_word p n"
proof -
  have "- p AND 3 = 0" using assms by (simp only: neg_aligned)
  then have "unat (- p AND 3) = 0" by (simp only: unat_0)
  then show ?thesis unfolding bytes_set_def Let_def by (simp only: min_0R of_nat_0 semiring_1_class.of_nat_0 add_0_right add_0 diff_zero)
qed

lemma mod_4_step: "x mod 4 \<noteq> 0 \<Longrightarrow> x mod 4 = Suc ((x - 1) mod (4 :: nat))"
  by (cases x) (auto simp: mod_Suc)

lemma step_to_word:
  assumes "p AND 3 \<noteq> (0 :: u64)"
  shows "unat (- p AND 3) = Suc (unat (- (p + 1) AND 3))"
proof -
  have "unat (- p AND 3) \<noteq> 0" using assms neg_aligned [of p] by (simp only: unat_eq_0 not_False_eq_True)
  then have low: "unat (- p) mod 4 \<noteq> 0" by (simp only: low_bits not_False_eq_True)
  then have "- p \<noteq> 0" by (metis mod_0 unat_0)
  then have "unat (- p - 1) = unat (- p) - 1" by (rule unat_minus_one)
  moreover have "- (p + 1) = - p - 1" by simp
  ultimately have "unat (- (p + 1) AND 3) = (unat (- p) - 1) mod 4" by (simp only: low_bits)
  then show ?thesis unfolding low_bits [of "- p"] using mod_4_step [OF low] by (simp only:)
qed

lemma bytes_set_unaligned:
  assumes "p AND 3 \<noteq> 0"
  shows "bytes_set p (Suc n) = Suc (bytes_set (p + 1) n)"
  unfolding bytes_set_def Let_def step_to_word [OF assms] min_Suc_Suc addr_Suc diff_Suc_Suc add_Suc ..

lemma memset_start:
  assumes st: "words_of c c32 c64" and "n < 2 ^ 64"
  shows "memset_run Start c32 c64 c m p n = filled p (bytes_set p n) c m"
  using assms(2)
proof (induction n arbitrary: m p)
  case 0
  then show ?case by (simp add: memset_run.simps(5) bytes_set_def set_from_word_def)
next
  case (Suc n)
  show ?case
  proof (cases "p AND 3 = 0")
    case al: True
    then have set: "bytes_set p (Suc n) = set_from_word p (Suc n)" by (rule bytes_set_aligned)
    show ?thesis
    proof (cases "p AND 7 = 0 \<and> 8 \<le> Suc n")
      case True
      then show ?thesis using retry64_run [OF st, of "Suc n" p m] Suc.prems set by (simp del: memset_run.simps(2))
    next
      case False
      then have "memset_run Start c32 c64 c m p (Suc n) = memset_run Test32 c32 c64 c m p (Suc n)"
        by (simp only: memset_run.simps(1) if_False)
      then show ?thesis using test32_run [OF st _ al False] Suc.prems set by simp
    qed
  next
    case False
    have "(4 :: nat) dvd 8" by (rule dvdI [of _ _ 2]) simp
    then have "p AND 7 \<noteq> 0" using False unfolding aligned_iff by (blast intro: dvd_trans)
    then have "memset_run Start c32 c64 c m p (Suc n) = memset_run FillBytes c32 c64 c m p (Suc n)"
      using False by simp
    also have "\<dots> = memset_run Start c32 c64 c (m(p := c)) (p + 1) n"
      by (simp add: memset_run.simps(5) [of _ _ _ _ p] Let_def del: memset_run.simps(2,4))
    also have "\<dots> = filled (p + 1) (bytes_set (p + 1) n) c (m(p := c))"
      by (rule Suc.IH) (use Suc.prems in simp)
    also have "\<dots> = filled p (bytes_set p (Suc n)) c m"
    proof -
      have "bytes_set (p + 1) n \<le> n" by (rule bytes_set_le)
      then show ?thesis using False Suc.prems filled_Suc [of "bytes_set (p + 1) n" p c m] by (simp add: bytes_set_unaligned)
    qed
    finally show ?thesis .
  qed
qed

lemma memset_sets: "memset m s c n = (s, filled s (bytes_set s (unat n)) (word_of_int c) m)"
proof -
  let ?val = "(word_of_int c :: u64) AND 0xff"
  let ?c32 = "(push_bit 24 ?val OR push_bit 16 ?val OR push_bit 8 ?val OR ?val) AND 0xffffffff"
  have "words_of (ucast ?val) ?c32 (push_bit 32 ?c32 OR ?c32)"
    unfolding words_of_def using word_bytes [of c] by blast
  moreover have "unat n < 2 ^ 64" using unsigned_less [of n, where ?'a = nat] by simp
  moreover have "ucast ?val = (word_of_int c :: u8)"
  proof (rule bit_word_eqI)
    have "(0xff :: u64) = mask 8" by (simp add: mask_eq_exp_minus_1)
    then show "bit (ucast ?val :: u8) i = bit (word_of_int c :: u8) i" if "i < LENGTH(8)" for i
      using that by (simp only: bit_simps) simp
  qed
  ultimately show ?thesis unfolding memset_def Let_def by (simp only: memset_start)
qed

section \<open>The memory functions\<close>

lemma set_from_word_ge: "n \<le> set_from_word p n + 3"
proof -
  have "8 * (n div 8) + n mod 8 = n" "4 * (n div 4) + n mod 4 = n" "n mod 4 < 4" "n mod 8 < 8" by simp_all
  then have "n \<le> 8 * (n div 8) + 4 + 3" "n \<le> 4 * (n div 4) + 3" "n mod 8 < 4 \<Longrightarrow> n \<le> 8 * (n div 8) + n mod 8" by linarith+
  then show ?thesis by (auto simp: set_from_word_def simp del: mult_div_mod_eq)
qed

lemma bytes_set_ge: "n \<le> bytes_set p n + 3"
proof -
  have "n \<le> min n d + set_from_word q (n - min n d) + 3" for d q
    using set_from_word_ge [of "n - min n d" q] by linarith
  then show ?thesis unfolding bytes_set_def Let_def .
qed

lemma set_from_word_all: "4 dvd n \<Longrightarrow> set_from_word p n = n"
proof -
  assume "4 dvd n"
  then obtain k where k: "n = 4 * k" ..
  have "n mod 8 = 0 \<or> n mod 8 = 4" unfolding k by presburger
  then show ?thesis using k minus_mod_eq_mult_div [of n 8] mod_less_eq_dividend [of n 8]
    by (auto simp: set_from_word_def)
qed

lemma memchr_at:
  "case memchr m s c n of
      None \<Rightarrow> \<forall>i<unat n. m (s + of_nat i) \<noteq> word_of_int c
    | Some a \<Rightarrow> \<exists>i<unat n. a = s + of_nat i \<and> m a = word_of_int c \<and> (\<forall>j<i. m (s + of_nat j) \<noteq> word_of_int c)"
  unfolding memchr_def by (rule memchr_loop_at)

lemma bytes_set_all: "s AND 3 = 0 \<and> 4 dvd k \<Longrightarrow> bytes_set s k = k"
  by (simp only: bytes_set_aligned set_from_word_all)

text \<open>
  C2: \<open>memset\<close> writes nothing but the byte, from the start on and inside the area, and leaves at most
  three bytes of its end unset; from a word boundary and for a multiple of a word it sets them all. \<open>memmove\<close> gives
  the bytes of the source as they were, whether the areas overlap or not, \<open>memcpy\<close> the same when the
  destination does not start inside the source. \<open>memcmp\<close> is zero exactly for equal areas and otherwise the
  difference of the first two bytes that differ as a signed character, and \<open>memchr\<close> finds the first byte.
\<close>

theorem memory_functions:
  "memset m s c n = (s, filled s (bytes_set s (unat n)) (word_of_int c) m) \<and>
   bytes_set s k \<le> k \<and> k \<le> bytes_set s k + 3 \<and> (s AND 3 = 0 \<and> 4 dvd k \<longrightarrow> bytes_set s k = k) \<and>
   (unat src + unat n < 2 ^ 64 \<and> unat dest + unat n < 2 ^ 64 \<longrightarrow>
      memmove m dest src n = (dest, moved m dest src n) \<and>
      (dest \<le> src \<or> src + n \<le> dest \<longrightarrow> memcpy m dest src n = (dest, moved m dest src n))) \<and>
   (memcmp m s t n = 0 \<longleftrightarrow> (\<forall>i<unat n. m (s + of_nat i) = m (t + of_nat i))) \<and>
   ((\<forall>i<k. m (s + of_nat i) = m (t + of_nat i)) \<and> k < unat n \<and> m (s + of_nat k) \<noteq> m (t + of_nat k) \<longrightarrow>
      memcmp m s t n = sint (m (s + of_nat k) - m (t + of_nat k))) \<and>
   (case memchr m s c n of
      None \<Rightarrow> \<forall>i<unat n. m (s + of_nat i) \<noteq> word_of_int c
    | Some a \<Rightarrow> \<exists>i<unat n. a = s + of_nat i \<and> m a = word_of_int c \<and> (\<forall>j<i. m (s + of_nat j) \<noteq> word_of_int c))"
  by (intro conjI impI memset_sets bytes_set_le bytes_set_ge bytes_set_all memcmp_at(1) memchr_at)
    (auto intro!: memmove_moves memcpy_moves memcmp_at(2))

text \<open>The memory after \<open>cs\<close> and its terminator are stored at \<open>p\<close>.\<close>

definition put_str :: "u64 \<Rightarrow> u8 list \<Rightarrow> bytes \<Rightarrow> bytes" where
  "put_str p cs m = (\<lambda>a. if unat (a - p) \<le> length cs then (cs @ [0]) ! unat (a - p) else m a)"

text \<open>A comma between two letters, and a comma.\<close>

definition sample_bytes :: bytes where
  "sample_bytes = put_str 0x100 [97, 44, 98] (put_str 0x200 [44] (\<lambda>_. 1))"

theorem memory_functions_witness:
  "snd (memset sample_bytes 0x100 7 14) 0x10b = 7 \<and> snd (memset sample_bytes 0x100 7 14) 0x10c = 1 \<and>
   snd (memmove sample_bytes 0x101 0x100 3) 0x103 = 98"
proof -
  have "memset sample_bytes 0x100 7 14 = (0x100, filled 0x100 (bytes_set 0x100 14) 7 sample_bytes)"
    using memory_functions [of sample_bytes "0x100" 7 14 0 0 0 0] by simp
  moreover have "memmove sample_bytes 0x101 0x100 3 = (0x101, moved sample_bytes 0x101 0x100 3)"
    using memory_functions [of sample_bytes 0 0 3 0 "0x100" "0x101" 0] by simp
  ultimately show ?thesis
    by (simp add: bytes_set_def set_from_word_def filled_def moved_def sample_bytes_def put_str_def)
qed

end
