(* ===== verification/CstringLaws.thy ===== *)
theory CstringLaws
  imports CstringMemory "HOL-Library.List_Lexorder" "HOL-Library.Sublist"
begin

unbundle bit_operations_syntax

text \<open>
  The string functions on the lists of characters that the memory holds: lengths, comparisons, copies,
  searches, sets of characters, tokens and substrings.
\<close>

text \<open>The string \<open>cs\<close>, without its terminator, is at address \<open>p\<close>.\<close>

primrec str_at :: "bytes \<Rightarrow> u64 \<Rightarrow> u8 list \<Rightarrow> bool" where
  "str_at m p [] \<longleftrightarrow> m p = 0"
| "str_at m p (c # cs) \<longleftrightarrow> m p = c \<and> c \<noteq> 0 \<and> str_at m (p + 1) cs"

lemma str_at_nz: "str_at m p cs \<Longrightarrow> 0 \<notin> set cs"
  by (induction cs arbitrary: p) auto

lemma str_at_nth: "str_at m p cs \<Longrightarrow> i < length cs \<Longrightarrow> m (p + of_nat i) = cs ! i"
proof (induction cs arbitrary: p i)
  case (Cons c cs)
  then show ?case by (cases i) (simp_all add: addr_Suc del: of_nat_Suc)
qed simp

lemma str_at_end: "str_at m p cs \<Longrightarrow> m (p + of_nat (length cs)) = 0"
  by (induction cs arbitrary: p) (simp_all add: addr_Suc del: of_nat_Suc)

lemma str_at_drop: "str_at m p cs \<Longrightarrow> k \<le> length cs \<Longrightarrow> str_at m (p + of_nat k) (drop k cs)"
proof (induction k arbitrary: p cs)
  case (Suc k)
  then show ?case by (cases cs) (simp_all add: addr_Suc del: of_nat_Suc)
qed simp

section \<open>Lengths and comparisons\<close>

lemma strlen_at: "str_at m s cs \<Longrightarrow> strlen m s = Some (of_nat (length cs))"
proof -
  assume "str_at m s cs"
  then have "strlen_loop m s = Some (s + of_nat (length cs))"
    by (induction cs arbitrary: s) (subst strlen_loop.simps; simp add: algebra_simps)+
  then show ?thesis by (simp add: strlen_def)
qed

lemma strnlen_at:
  assumes "str_at m s cs"
  shows "strnlen m s n = of_nat (min (length cs) (unat n))"
proof -
  have "strnlen_loop m s k = s + of_nat (min (length cs) k)" for k
    using assms
  proof (induction cs arbitrary: s k)
    case Nil then show ?case by (cases k) simp_all
  next
    case (Cons c cs)
    then show ?case by (cases k) (simp_all add: algebra_simps)
  qed
  then show ?thesis by (simp add: strnlen_def)
qed

lemma strcmp_at:
  assumes "str_at m s1 as" and "str_at m s2 bs"
  shows "\<exists>d. strcmp m s1 s2 = Some d \<and> (d = 0 \<longleftrightarrow> as = bs) \<and> (d < 0 \<longleftrightarrow> as < bs)"
  using assms
proof (induction as arbitrary: s1 s2 bs)
  case Nil
  then show ?case
    by (subst strcmp.simps) (cases bs; auto simp: char_diff_simps word_neq_0_conv)
next
  case (Cons a as)
  show ?case
  proof (cases bs)
    case Nil
    with Cons.prems show ?thesis
      by (subst strcmp.simps) (auto simp: char_diff_simps)
  next
    case bs: (Cons b bs')
    show ?thesis
    proof (cases "a = b")
      case True
      with Cons.prems bs have "strcmp m s1 s2 = strcmp m (s1 + 1) (s2 + 1)"
        by (subst strcmp.simps) simp
      with Cons.IH [of "s1 + 1" "s2 + 1" bs'] Cons.prems bs True show ?thesis by simp
    next
      case False
      with Cons.prems bs show ?thesis
        by (subst strcmp.simps) (auto simp: char_diff_simps)
    qed
  qed
qed

text \<open>\<open>strncmp\<close> compares the characters of the first string only.\<close>

lemma strncmp_loop_zero:
  assumes "str_at m s1 as" and "str_at m s2 bs"
  shows "strncmp_loop (\<lambda>c. c) m s1 s2 rc n = 0 \<longleftrightarrow> (if n = 0 \<or> as = [] then rc = 0 else prefix (take n as) bs)"
  using assms
proof (induction n arbitrary: s1 s2 as bs rc)
  case (Suc n)
  show ?case
  proof (cases as)
    case Nil with Suc.prems show ?thesis by simp
  next
    case as: (Cons a as')
    show ?thesis
    proof (cases bs)
      case Nil
      with Suc.prems as show ?thesis by (simp add: char_diff_byte Let_def)
    next
      case bs: (Cons b bs')
      have "strncmp_loop (\<lambda>c. c) m (s1 + 1) (s2 + 1) 0 n = 0 \<longleftrightarrow> prefix (take n as') bs'"
        using Suc.IH [of "s1 + 1" as' "s2 + 1" bs' 0] Suc.prems as bs by auto
      with Suc.prems as bs show ?thesis by (cases "a = b") (simp_all add: char_diff_byte Let_def)
    qed
  qed
qed simp

lemma strncmp_zero:
  assumes "str_at m s1 as" and "str_at m s2 bs"
  shows "strncmp m s1 s2 n = 0 \<longleftrightarrow> (if n = 0 \<or> as = [] then bs = [] else prefix (take (unat n) as) bs)"
proof -
  have rc: "(if m s2 = 0 then 0 else - 1 :: u8) = 0 \<longleftrightarrow> bs = []"
    using assms(2) by (cases bs) auto
  then show ?thesis
    unfolding strncmp_def sint_zero strncmp_loop_zero [OF assms] rc by (simp add: unat_eq_0)
qed

section \<open>Copies of strings\<close>

text \<open>No character of the source is overwritten before it is read.\<close>

definition apart :: "u64 \<Rightarrow> u64 \<Rightarrow> nat \<Rightarrow> bool" where
  "apart src dest n \<longleftrightarrow> (\<forall>i\<le>n. \<forall>j\<le>n. src + of_nat i \<noteq> dest + of_nat j)"

lemma apart_tl: "apart src dest (Suc n) \<Longrightarrow> apart (src + 1) (dest + 1) n"
  unfolding apart_def addr_Suc [symmetric] by auto

lemma str_at_upd: "str_at m p cs \<Longrightarrow> (\<And>i. i \<le> length cs \<Longrightarrow> p + of_nat i \<noteq> a) \<Longrightarrow> str_at (m(a := v)) p cs"
proof (induction cs arbitrary: p)
  case Nil
  then show ?case using Nil(2) [of 0] by simp
next
  case (Cons c cs)
  have "p + 1 + of_nat i \<noteq> a" if "i \<le> length cs" for i
    using Cons.prems(2) [of "Suc i"] that by (simp add: addr_Suc del: of_nat_Suc)
  then show ?case using Cons Cons.prems(2) [of 0] by simp
qed

lemma str_at_src:
  assumes "str_at m src (c # cs)" "apart src dest (Suc (length cs))"
  shows "str_at (m(dest := v)) (src + 1) cs"
proof (rule str_at_upd)
  show "src + 1 + of_nat i \<noteq> dest" if "i \<le> length cs" for i
    using assms(2) [unfolded apart_def, rule_format, of "Suc i" 0] that by (simp add: addr_Suc del: of_nat_Suc)
qed (use assms in simp)

lemma strcpy_loop_at:
  "str_at m src cs \<Longrightarrow> apart src dest (length cs) \<Longrightarrow>
    strcpy_loop m dest src = Some (dest + of_nat (length cs), copy_up m dest src (Suc (length cs)))"
proof (induction cs arbitrary: m src dest)
  case Nil
  then show ?case by (subst strcpy_loop.simps) simp
next
  case (Cons c cs)
  have "strcpy_loop (m(dest := m src)) (dest + 1) (src + 1) =
      Some (dest + 1 + of_nat (length cs), copy_up (m(dest := m src)) (dest + 1) (src + 1) (Suc (length cs)))"
    by (rule Cons.IH) (use str_at_src [OF Cons.prems(1)] apart_tl Cons.prems(2) in \<open>simp_all del: fun_upd_apply\<close>)
  moreover have "strcpy_loop m dest src = strcpy_loop (m(dest := m src)) (dest + 1) (src + 1)"
    using Cons.prems(1) by (subst strcpy_loop.simps) simp
  ultimately show ?case by (simp only: list.size addr_Suc copy_up.simps add_Suc_right add_0_right)
qed

lemma strcat_loop_at:
  "str_at m src cs \<Longrightarrow> apart src dest (length cs) \<Longrightarrow>
    strcat_loop m dest src = Some (dest + of_nat (length cs), copy_up m dest src (Suc (length cs)))"
proof (induction cs arbitrary: m src dest)
  case Nil
  then show ?case by (subst strcat_loop.simps) simp
next
  case (Cons c cs)
  have "strcat_loop (m(dest := m src)) (dest + 1) (src + 1) =
      Some (dest + 1 + of_nat (length cs), copy_up (m(dest := m src)) (dest + 1) (src + 1) (Suc (length cs)))"
    by (rule Cons.IH) (use str_at_src [OF Cons.prems(1)] apart_tl Cons.prems(2) in \<open>simp_all del: fun_upd_apply\<close>)
  moreover have "strcat_loop m dest src = strcat_loop (m(dest := m src)) (dest + 1) (src + 1)"
    using Cons.prems(1) by (subst strcat_loop.simps) simp
  ultimately show ?case by (simp only: list.size addr_Suc copy_up.simps add_Suc_right add_0_right)
qed

lemma str_at_all: "str_at m p cs \<Longrightarrow> i \<le> length cs \<Longrightarrow> m (p + of_nat i) = (cs @ [0]) ! i"
  using str_at_nth [of m p cs i] str_at_end [of m p cs] by (cases "i = length cs") (auto simp: nth_append)

lemma copy_up_str:
  assumes "str_at m src cs" "apart src dest (length cs)" "length cs < 2 ^ 64"
  shows "copy_up m dest src (Suc (length cs)) = put_str dest cs m"
proof -
  have "copy_up m dest src (Suc (length cs)) = (\<lambda>a. if unat (a - dest) < Suc (length cs) then m (src + (a - dest)) else m a)"
    by (rule copy_up_eq) (use assms(2,3) in \<open>auto simp: apart_def\<close>)
  also have "\<dots> = put_str dest cs m"
  proof
    fix a
    obtain k where "a = dest + of_nat k" "unat (a - dest) = k" by (rule addr_offset)
    then show "(if unat (a - dest) < Suc (length cs) then m (src + (a - dest)) else m a) = put_str dest cs m a"
      using str_at_all [OF assms(1), of k] by (simp add: put_str_def less_Suc_eq_le)
  qed
  finally show ?thesis .
qed

lemma put_str_at: "0 \<notin> set cs \<Longrightarrow> length cs < 2 ^ 64 \<Longrightarrow> str_at (put_str p cs m) p cs"
proof -
  assume cs: "0 \<notin> set cs" "length cs < 2 ^ 64"
  have "str_at m' q ds" if "0 \<notin> set ds" "\<And>i. i \<le> length ds \<Longrightarrow> m' (q + of_nat i) = (ds @ [0]) ! i" for m' q ds
    using that
  proof (induction ds arbitrary: q)
    case (Cons d ds)
    have "m' (q + 1 + of_nat i) = (ds @ [0]) ! i" if "i \<le> length ds" for i
      using Cons.prems(2) [of "Suc i"] that by (simp add: addr_Suc del: of_nat_Suc)
    then show ?case using Cons Cons.prems(2) [of 0] by simp
  qed (use that in force)
  then show ?thesis using cs by (simp add: put_str_def unat_offset)
qed

lemma strcpy_at:
  assumes "str_at m src cs" "apart src dest (length cs)" "length cs < 2 ^ 64"
  shows "strcpy m dest src = Some (dest, put_str dest cs m)"
  using strcpy_loop_at [OF assms(1,2)] copy_up_str [OF assms] by (simp add: strcpy_def)

lemma skip_string_at: "str_at m p cs \<Longrightarrow> skip_string m p = Some (p + of_nat (length cs) + 1)"
  by (induction cs arbitrary: p) (subst skip_string.simps; simp add: algebra_simps)+

lemma strcat_at:
  assumes "str_at m dest as" "str_at m src bs" "apart src (dest + of_nat (length as)) (length bs)" "length bs < 2 ^ 64"
  shows "strcat m dest src =
    Some (dest + of_nat (length as) + of_nat (length bs), put_str (dest + of_nat (length as)) bs m)"
  using skip_string_at [OF assms(1)] strcat_loop_at [OF assms(2,3)] copy_up_str [OF assms(2-4)] by (simp add: strcat_def)

section \<open>Searching\<close>

lemma strchr_at:
  assumes "str_at m s cs"
  shows "strchr m s c = Some (if word_of_int c = (0 :: u8) then Some (s + of_nat (length cs))
    else if word_of_int c \<in> set cs then Some (s + of_nat (length (takeWhile (\<lambda>d. d \<noteq> word_of_int c) cs))) else None)"
  unfolding strchr_def using assms
proof (induction cs arbitrary: s)
  case Nil
  then show ?case by (subst strchr_loop.simps) auto
next
  case (Cons d cs)
  then show ?case by (subst strchr_loop.simps) (auto simp: algebra_simps)
qed

section \<open>Sets of characters\<close>

definition in_table :: "u64 list \<Rightarrow> u8 \<Rightarrow> bool" where
  "in_table tbl c \<longleftrightarrow> tbl ! IDX c AND BIT c \<noteq> 0"

lemma char_index: "IDX c = unat c div 64" "BIT c = push_bit (unat c mod 64) 1"
  by (simp_all add: IDX_def BIT_def unat_div unat_mod)

lemma IDX_less: "IDX c < 4"
  using unsigned_less [of c, where ?'a = nat] by (simp add: char_index less_mult_imp_div_less)

lemma and_bit: "w AND push_bit n 1 \<noteq> (0 :: u64) \<longleftrightarrow> bit w n"
proof -
  have "bit (w AND push_bit n 1) i \<longleftrightarrow> i = n \<and> bit w n" for i
    using bit_imp_le_length [of w n] by (auto simp: bit_and_iff bit_exp_iff)
  moreover have "x = 0 \<longleftrightarrow> (\<forall>i. \<not> bit x i)" for x :: u64 by (auto intro!: bit_word_eqI)
  ultimately show ?thesis by blast
qed

lemma in_table_bit: "in_table tbl c \<longleftrightarrow> bit (tbl ! (unat c div 64)) (unat c mod 64)"
  by (simp only: in_table_def char_index and_bit)

lemma in_table_add:
  assumes "length tbl = 4"
  shows "in_table (tbl[IDX a := tbl ! IDX a OR BIT a]) c \<longleftrightarrow> c = a \<or> in_table tbl c"
proof -
  have "c = a \<longleftrightarrow> unat c div 64 = unat a div 64 \<and> unat c mod 64 = unat a mod 64"
    by (metis div_mult_mod_eq word_unat_eq_iff)
  moreover have "unat a div 64 < length tbl" using IDX_less [of a] assms by (simp only: char_index)
  ultimately show ?thesis
    by (cases "unat a div 64 = unat c div 64") (auto simp: in_table_bit char_index bit_simps)
qed

lemma fill_table_at:
  assumes "str_at m p cs" "length tbl = 4"
  shows "\<exists>tbl'. fill_table m p tbl = Some tbl' \<and> (\<forall>c. in_table tbl' c \<longleftrightarrow> c \<in> set cs \<or> in_table tbl c)"
  using assms
proof (induction cs arbitrary: p tbl)
  case Nil
  then show ?case by (subst fill_table.simps) simp
next
  case (Cons c cs)
  then have "fill_table m p tbl = fill_table m (p + 1) (tbl[IDX c := tbl ! IDX c OR BIT c])"
    by (subst fill_table.simps) auto
  with Cons.IH [of "p + 1" "tbl[IDX c := tbl ! IDX c OR BIT c]"] Cons.prems show ?case by (auto simp: in_table_add)
qed

lemma in_empty: "\<not> in_table [0, 0, 0, 0] c" "in_table [1, 0, 0, 0] c \<longleftrightarrow> c = 0"
proof -
  have "unat c div 64 < 4" using IDX_less [of c] by (simp add: char_index)
  then have i: "unat c div 64 \<in> {0, 1, 2, 3}" by auto
  then show "\<not> in_table [0, 0, 0, 0] c" by (auto simp: in_table_bit)
  have "unat c div 64 = 0 \<and> unat c mod 64 = 0 \<longleftrightarrow> c = 0" by (metis div_0 div_mult_mod_eq mod_0 mult_0 add_0 unat_0 unat_eq_zero)
  then show "in_table [1, 0, 0, 0] c \<longleftrightarrow> c = 0" using i by (auto simp: in_table_bit bit_1_iff)
qed

lemma strspn_at:
  assumes "str_at m s cs" "str_at m accept as"
  shows "strspn m s accept = Some (of_nat (length (takeWhile (\<lambda>c. c \<in> set as) cs)))"
proof -
  obtain tbl where tbl: "fill_table m accept [0, 0, 0, 0] = Some tbl" "\<And>c. in_table tbl c \<longleftrightarrow> c \<in> set as"
    using fill_table_at [OF assms(2), of "[0, 0, 0, 0]"] by (auto simp: in_empty)
  have "strspn_loop m tbl s = Some (s + of_nat (length (takeWhile (\<lambda>c. c \<in> set as) cs)))"
    using assms(1)
  proof (induction cs arbitrary: s)
    case Nil
    then show ?case using tbl(2) [of 0] str_at_nz [OF assms(2)] by (subst strspn_loop.simps) (auto simp: in_table_def)
  next
    case (Cons c cs)
    then show ?case using tbl(2) [of c] by (subst strspn_loop.simps) (auto simp: in_table_def algebra_simps)
  qed
  moreover have "m s = 0 \<Longrightarrow> cs = []" using assms(1) by (cases cs) auto
  ultimately show ?thesis using tbl(1) by (auto simp: strspn_def)
qed

lemma strcspn_at:
  assumes "str_at m s cs" "str_at m reject rs"
  shows "strcspn m s reject = Some (of_nat (length (takeWhile (\<lambda>c. c \<notin> set rs) cs)))"
proof -
  obtain tbl where tbl: "fill_table m reject [1, 0, 0, 0] = Some tbl" "\<And>c. in_table tbl c \<longleftrightarrow> c \<in> set rs \<or> c = 0"
    using fill_table_at [OF assms(2), of "[1, 0, 0, 0]"] by (auto simp: in_empty)
  have "strcspn_loop m tbl s = Some (s + of_nat (length (takeWhile (\<lambda>c. c \<notin> set rs) cs)))"
    using assms(1)
  proof (induction cs arbitrary: s)
    case Nil
    then show ?case using tbl(2) [of 0] by (subst strcspn_loop.simps) (auto simp: in_table_def)
  next
    case (Cons c cs)
    then show ?case using tbl(2) [of c] by (subst strcspn_loop.simps) (auto simp: in_table_def algebra_simps)
  qed
  moreover have "m s = 0 \<Longrightarrow> cs = []" using assms(1) by (cases cs) auto
  ultimately show ?thesis using tbl(1) by (auto simp: strcspn_def)
qed

section \<open>Tokens\<close>

lemma str_at_cut: "str_at m p cs \<Longrightarrow> k < length cs \<Longrightarrow> length cs < 2 ^ 64 \<Longrightarrow> str_at (m(p + of_nat k := 0)) p (take k cs)"
proof (induction cs arbitrary: p k)
  case (Cons c cs)
  show ?case
  proof (cases k)
    case 0
    then show ?thesis by simp
  next
    case (Suc j)
    have "p \<noteq> p + of_nat k" using Suc Cons.prems(2,3) unat_offset [of k] by auto
    then show ?thesis using Cons.IH [of "p + 1" j] Cons.prems Suc by (simp add: addr_Suc del: of_nat_Suc)
  qed
qed simp

lemma strtok_r_at:
  assumes "str_at m p cs" "str_at m delim ds" "length cs < 2 ^ 64"
    and "rest = dropWhile (\<lambda>c. c \<in> set ds) cs" and "token = takeWhile (\<lambda>c. c \<notin> set ds) rest"
  shows "strtok_r m str delim (Some p) =
    (if rest = [] then Some (None, None, m)
     else (let q = p + of_nat (length cs - length rest); e = q + of_nat (length token)
           in if token = rest then Some (Some q, None, m) else Some (Some q, Some (e + 1), m(e := 0))))"
proof -
  let ?k = "length (takeWhile (\<lambda>c. c \<in> set ds) cs)"
  have rest: "rest = drop ?k cs" using assms(4) by (simp add: dropWhile_eq_drop)
  have k: "?k \<le> length cs" by (rule length_takeWhile_le)
  then have at: "str_at m (p + of_nat ?k) rest" using str_at_drop [OF assms(1)] rest by simp
  have "length cs - length rest = ?k" using rest k by simp
  moreover have "m (p + of_nat ?k) = 0 \<longleftrightarrow> rest = []" using at by (cases rest) auto
  moreover have "strcspn m (p + of_nat ?k) delim = Some (of_nat (length token))" using strcspn_at [OF at assms(2)] assms(5) by simp
  moreover have "m (p + of_nat ?k + of_nat (length token)) = 0 \<longleftrightarrow> token = rest"
  proof (cases "token = rest")
    case True
    then show ?thesis using str_at_end [OF at] by simp
  next
    case False
    have "length token \<noteq> length rest" using False assms(5) by (metis append_Nil2 append_eq_conv_conj takeWhile_dropWhile_id takeWhile_eq_take take_all_iff le_refl)
    then have l: "length token < length rest" using assms(5) by (simp add: le_neq_implies_less length_takeWhile_le)
    have "rest ! length token \<noteq> 0" using str_at_nz [OF at] nth_mem [OF l] by metis
    then show ?thesis using False str_at_nth [OF at l] by simp
  qed
  ultimately show ?thesis using strspn_at [OF assms(1,2)] by (auto simp: strtok_r_def Let_def)
qed

section \<open>Substrings\<close>

lemma strstr_match_at:
  assumes "str_at m h hs" "str_at m n ns"
  shows "\<exists>cr. strstr_match m h n = Some cr \<and> (m cr = 0 \<longleftrightarrow> prefix ns hs)"
  using assms
proof (induction ns arbitrary: h hs n)
  case Nil
  then show ?case by (subst strstr_match.simps) simp
next
  case (Cons c ns)
  show ?case
  proof (cases hs)
    case Nil
    then show ?thesis using Cons.prems by (subst strstr_match.simps) simp
  next
    case (Cons d hs')
    then show ?thesis using Cons.prems Cons.IH [of "h + 1" hs' "n + 1"] by (subst strstr_match.simps) auto
  qed
qed

text \<open>The first position at which \<open>ns\<close> starts.\<close>

primrec sub_index :: "'a list \<Rightarrow> 'a list \<Rightarrow> nat option" where
  "sub_index ns [] = None"
| "sub_index ns (h # hs) = (if prefix ns (h # hs) then Some 0 else map_option Suc (sub_index ns hs))"

lemma sub_index_None: "ns \<noteq> [] \<Longrightarrow> sub_index ns hs = None \<longleftrightarrow> \<not> sublist ns hs"
  by (induction hs) (auto simp: sublist_Cons_right)

lemma sub_index_Some: "sub_index ns hs = Some i \<Longrightarrow> prefix ns (drop i hs) \<and> (\<forall>j<i. \<not> prefix ns (drop j hs))"
proof (induction hs arbitrary: i)
  case (Cons h hs)
  then show ?case by (auto simp: less_Suc_eq_0_disj split: if_splits)
qed simp

lemma strstr_at:
  assumes "str_at m h hs" "str_at m n ns"
  shows "strstr m h n = Some (if ns = [] then None else map_option (\<lambda>i. h + of_nat i) (sub_index ns hs))"
  using assms(1)
proof (induction hs arbitrary: h)
  case Nil
  then show ?case by (subst strstr.simps) simp
next
  case (Cons d hs)
  have ns: "m n = 0 \<longleftrightarrow> ns = []" "ns \<noteq> [] \<Longrightarrow> m n = hd ns" using assms(2) by (cases ns; simp)+
  obtain cr where cr: "strstr_match m h n = Some cr" "m cr = 0 \<longleftrightarrow> prefix ns (d # hs)"
    using strstr_match_at [OF Cons.prems assms(2)] by blast
  have "strstr m h n = (if ns \<noteq> [] \<and> prefix ns (d # hs) then Some (Some h) else strstr m (h + 1) n)"
    by (subst strstr.simps) (use Cons.prems cr ns in \<open>cases ns; auto\<close>)
  then show ?case using Cons.IH [of "h + 1"] Cons.prems
    by (cases "sub_index ns hs") (auto simp: algebra_simps)
qed

section \<open>The tokens of a string\<close>

text \<open>The maximal runs of characters that are not delimiters.\<close>

function split_at :: "'a set \<Rightarrow> 'a list \<Rightarrow> 'a list list" where
  "split_at D cs = (let rest = dropWhile (\<lambda>c. c \<in> D) cs
     in if rest = [] then [] else takeWhile (\<lambda>c. c \<notin> D) rest # split_at D (dropWhile (\<lambda>c. c \<notin> D) rest))"
  by pat_completeness auto

lemma split_at_less:
  assumes "dropWhile (\<lambda>c. c \<in> D) cs \<noteq> []"
  shows "length (dropWhile (\<lambda>c. c \<notin> D) (dropWhile (\<lambda>c. c \<in> D) cs)) < length cs"
proof -
  obtain d ds where d: "dropWhile (\<lambda>c. c \<in> D) cs = d # ds" using assms by (cases "dropWhile (\<lambda>c. c \<in> D) cs") auto
  then have "d \<notin> D" by (auto simp: dropWhile_eq_Cons_conv)
  moreover have "length (d # ds) \<le> length cs" unfolding d [symmetric] by (rule length_dropWhile_le)
  moreover have "length (dropWhile (\<lambda>c. c \<notin> D) ds) \<le> length ds" by (rule length_dropWhile_le)
  ultimately show ?thesis using d by simp
qed

termination split_at
  by (relation "measure (\<lambda>(D, cs). length cs)") (auto simp: split_at_less)

declare split_at.simps [simp del]

lemma split_at_skip: "d \<in> D \<Longrightarrow> split_at D (d # cs) = split_at D cs"
  by (simp add: split_at.simps [of D "d # cs"] split_at.simps [of D cs])

text \<open>
  C11: \<open>strtok_r\<close> gives the tokens of a string, the maximal runs of characters that are not delimiters. When there
  is none it returns the null pointer and changes nothing. Otherwise it returns the first one, terminated in place,
  leaves the delimiters as they are, and the saved pointer is null after the last token and else the
  address of a rest of the string that has the other tokens, so that the next call continues with them. The argument \<open>str\<close> has no influence.
\<close>

theorem string_tokens:
  assumes "str_at m p cs" "str_at m delim ds" "length cs < 2 ^ 64"
    and apart: "\<And>i j. i \<le> length cs \<Longrightarrow> j \<le> length ds \<Longrightarrow> p + of_nat i \<noteq> delim + of_nat j"
  shows "case split_at (set ds) cs of
      [] \<Rightarrow> strtok_r m str delim (Some p) = Some (None, None, m)
    | t # ts \<Rightarrow> \<exists>q save m'. strtok_r m str delim (Some p) = Some (Some q, save, m') \<and>
        str_at m' q t \<and> str_at m' delim ds \<and>
        (case save of None \<Rightarrow> ts = []
         | Some p' \<Rightarrow> \<exists>k. k \<le> length cs \<and> p' = p + of_nat k \<and> str_at m' p' (drop k cs) \<and> split_at (set ds) (drop k cs) = ts)"
proof -
  let ?D = "set ds"
  define rest where "rest = dropWhile (\<lambda>c. c \<in> ?D) cs"
  define token where "token = takeWhile (\<lambda>c. c \<notin> ?D) rest"
  define left where "left = dropWhile (\<lambda>c. c \<notin> ?D) rest"
  define k where "k = length cs - length rest"
  have split: "split_at ?D cs = (if rest = [] then [] else token # split_at ?D left)"
    unfolding split_at.simps [of ?D cs] Let_def rest_def token_def left_def by (rule refl)
  have run: "strtok_r m str delim (Some p) = (if rest = [] then Some (None, None, m)
     else if token = rest then Some (Some (p + of_nat k), None, m)
     else Some (Some (p + of_nat k), Some (p + of_nat k + of_nat (length token) + 1), m(p + of_nat k + of_nat (length token) := 0)))"
    using strtok_r_at [OF assms(1-3) rest_def token_def] by (simp add: k_def Let_def)
  have "rest = drop (length (takeWhile (\<lambda>c. c \<in> ?D) cs)) cs" by (simp add: rest_def dropWhile_eq_drop)
  then have k: "rest = drop k cs" "k \<le> length cs" by (auto simp: k_def length_takeWhile_le)
  have at: "str_at m (p + of_nat k) rest" using str_at_drop [OF assms(1) k(2)] k(1) by simp
  have parts: "rest = token @ left" by (simp add: token_def left_def)
  show ?thesis
  proof (cases "rest = [] \<or> left = []")
    case True
    then show ?thesis using split run parts at assms(2) by (auto simp: split_at.simps [of ?D "[]"])
  next
    case False
    then obtain d left' where l: "left = d # left'" by (cases left) auto
    then have d: "d \<in> ?D" unfolding left_def by (auto simp: dropWhile_eq_Cons_conv)
    define e where "e = k + length token"
    have e: "e < length cs" "drop (Suc e) cs = left'"
    proof -
      have "length cs - k = length token + length left" using k(1) parts by (metis length_append length_drop)
      then show "e < length cs" using k(2) l by (simp add: e_def)
      have "drop (Suc e) cs = drop (Suc (length token)) (drop k cs)" by (simp add: e_def add.commute)
      then show "drop (Suc e) cs = left'" unfolding k(1) [symmetric] parts l by simp
    qed
    have pos: "p + of_nat k + of_nat (length token) = p + of_nat e" by (simp add: e_def algebra_simps)
    have good1: "str_at (m(p + of_nat e := 0)) (p + of_nat k) token"
    proof -
      have "length rest < 2 ^ 64" unfolding k(1) length_drop using assms(3) by (rule less_imp_diff_less)
      moreover have "length token < length rest" "take (length token) rest = token" unfolding parts l by simp_all
      ultimately show ?thesis using str_at_cut [OF at, of "length token"] unfolding pos by metis
    qed
    have good2: "str_at (m(p + of_nat e := 0)) delim ds"
      by (rule str_at_upd [OF assms(2)]) (use apart [of e] e(1) in force)
    have good3: "str_at (m(p + of_nat e := 0)) (p + of_nat (Suc e)) left'"
    proof (rule str_at_upd)
      show "str_at m (p + of_nat (Suc e)) left'" using str_at_drop [OF assms(1), of "Suc e"] e by simp
      show "p + of_nat (Suc e) + of_nat i \<noteq> p + of_nat e" if "i \<le> length left'" for i
      proof -
        have "Suc i < 2 ^ 64" using that e assms(3) by auto
        then have "unat (of_nat (Suc i) :: u64) = Suc i" by (rule unat_offset)
        then have "of_nat (Suc i) \<noteq> (0 :: u64)" by (metis nat.distinct(1) unat_0)
        then show ?thesis by (simp add: algebra_simps)
      qed
    qed
    note goods = good1 good2 good3
    have "p + of_nat k + of_nat (length token) + 1 = p + of_nat (Suc e)" using pos by simp
    moreover have "token \<noteq> rest" using parts l by simp
    ultimately have "strtok_r m str delim (Some p) = Some (Some (p + of_nat k), Some (p + of_nat (Suc e)), m(p + of_nat e := 0))"
      using run False unfolding pos by simp
    moreover have "split_at ?D cs = token # split_at ?D (drop (Suc e) cs)"
      using split False split_at_skip [OF d, of left'] unfolding l e(2) by simp
    moreover have "Suc e \<le> length cs" using e(1) by simp
    ultimately show ?thesis using goods unfolding e(2) [symmetric]
      by (auto intro!: exI [of _ "Suc e"] simp del: of_nat_Suc)
  qed
qed

section \<open>The string functions\<close>

lemma sample_strings: "str_at sample_bytes 0x100 [97, 44, 98]" "str_at sample_bytes 0x200 [44]"
  by (simp_all add: sample_bytes_def put_str_def)

text \<open>
  C8: the string functions on strings that are in memory: they return, \<open>strlen\<close> and \<open>strnlen\<close> give the
  length, \<open>strcmp\<close> the lexicographic order, \<open>strchr\<close> the first occurrence, \<open>strspn\<close> and \<open>strcspn\<close> the
  length of the prefix inside and outside a set, \<open>strstr\<close> the first occurrence of a string that is not
  empty (none for the empty one). \<open>strcpy\<close> and \<open>strcat\<close> store the
  source with its terminator when the areas do not overlap, but \<open>strcat\<close> returns the address of the new
  terminator. \<open>strncmp\<close> is zero when the first string, cut after \<open>n\<close> characters, is a prefix of the second, however long that is.
\<close>

theorem string_functions:
  assumes "str_at m s as" "str_at m t bs"
  shows "strlen m s = Some (of_nat (length as)) \<and> strnlen m s n = of_nat (min (length as) (unat n)) \<and>
    (\<exists>d. strcmp m s t = Some d \<and> (d = 0 \<longleftrightarrow> as = bs) \<and> (d < 0 \<longleftrightarrow> as < bs)) \<and>
    (strncmp m s t n = 0 \<longleftrightarrow> (if n = 0 \<or> as = [] then bs = [] else prefix (take (unat n) as) bs)) \<and>
    strchr m s c = Some (if word_of_int c = (0 :: u8) then Some (s + of_nat (length as))
      else if word_of_int c \<in> set as then Some (s + of_nat (length (takeWhile (\<lambda>d. d \<noteq> word_of_int c) as))) else None) \<and>
    strspn m s t = Some (of_nat (length (takeWhile (\<lambda>c. c \<in> set bs) as))) \<and>
    strcspn m s t = Some (of_nat (length (takeWhile (\<lambda>c. c \<notin> set bs) as))) \<and>
    strstr m s t = Some (if bs = [] then None else map_option (\<lambda>i. s + of_nat i) (sub_index bs as)) \<and>
    (apart s d (length as) \<and> length as < 2 ^ 64 \<longrightarrow> strcpy m d s = Some (d, put_str d as m)) \<and>
    (let e = t + of_nat (length bs) in apart s e (length as) \<and> length as < 2 ^ 64 \<longrightarrow>
      strcat m t s = Some (e + of_nat (length as), put_str e as m))"
  using strcpy_at [OF assms(1)] strcat_at [OF assms(2,1)]
  by (simp only: strlen_at [OF assms(1)] strnlen_at [OF assms(1)] strcmp_at [OF assms] strncmp_zero [OF assms]
      strchr_at [OF assms(1)] strspn_at [OF assms] strcspn_at [OF assms] strstr_at [OF assms] Let_def) simp

theorem string_functions_witness:
  "strlen sample_bytes 0x100 = Some 3 \<and> strcspn sample_bytes 0x100 0x200 = Some 1 \<and>
   strstr sample_bytes 0x100 0x200 = Some (Some 0x101)"
  using string_functions [OF sample_strings, of 0 0 0] by simp

theorem string_tokens_witness:
  "\<exists>q p' m' k. strtok_r sample_bytes None 0x200 (Some 0x100) = Some (Some q, Some p', m') \<and> str_at m' q [97] \<and>
    str_at m' p' (drop k [97, 44, 98]) \<and> split_at {44} (drop k [97, 44, 98]) = [[98 :: u8]]"
proof -
  have "0x100 + of_nat i \<noteq> (0x200 + of_nat j :: u64)" if "i \<le> 3" "j \<le> 1" for i j
  proof -
    have "i \<in> {0, 1, 2, 3}" "j \<in> {0, 1}" using that by auto
    then show ?thesis by auto
  qed
  moreover have "split_at {44} [97, 44, 98] = [[97], [98 :: u8]]"
    by (simp add: split_at.simps)
  ultimately show ?thesis
    using string_tokens [OF sample_strings, of None] by (auto split: option.splits)
qed

end
