(* ===== verification/Queue.thy ===== *)
theory Queue
  imports Prelude
begin

text \<open>
  The doubly linked lists and queues of the kernel library (klib/list.c, klib/queue.c,
  include/klib/queue.h). A node and a queue head are the same pair of pointers in the C code (a
  head is cast to a node), so a store maps addresses of one type to nodes. Every operation is the
  C function's sequence of pointer assignments in its order, so that aliasing (a queue of one
  node, an empty queue) is that of the code.

  The predicate \<open>wf_queues\<close> says which lists a store represents. The locale \<open>queue_ops\<close> states
  the contract the other components rely on, and it is interpreted on the pointer operations.
\<close>

section \<open>Nodes and the store\<close>

record 'a lnode =
  lprev :: 'a
  lnext :: 'a

type_synonym 'a lstore = "'a \<Rightarrow> 'a lnode"

definition set_prev :: "'a \<Rightarrow> 'a \<Rightarrow> 'a lstore \<Rightarrow> 'a lstore" where
  "set_prev a v h = h(a := (h a)\<lparr>lprev := v\<rparr>)"

definition set_next :: "'a \<Rightarrow> 'a \<Rightarrow> 'a lstore \<Rightarrow> 'a lstore" where
  "set_next a v h = h(a := (h a)\<lparr>lnext := v\<rparr>)"

lemma lnode_sel_upd [simp]:
  "lprev (set_prev a v h b) = (if b = a then v else lprev (h b))"
  "lnext (set_prev a v h b) = lnext (h b)"
  "lprev (set_next a v h b) = lprev (h b)"
  "lnext (set_next a v h b) = (if b = a then v else lnext (h b))"
  by (simp_all add: set_prev_def set_next_def)

section \<open>List nodes (klib/list.c)\<close>

definition list_init :: "'a \<Rightarrow> 'a lstore \<Rightarrow> 'a lstore" where
  "list_init node h = set_prev node node (set_next node node h)"

definition list_del :: "'a \<Rightarrow> 'a lstore \<Rightarrow> 'a lstore" where
  "list_del node h =
    (let h1 = set_prev (lnext (h node)) (lprev (h node)) h;
         h2 = set_next (lprev (h1 node)) (lnext (h1 node)) h1
     in list_init node h2)"

definition list_not_linked :: "'a \<Rightarrow> 'a lstore \<Rightarrow> bool" where
  "list_not_linked node h \<longleftrightarrow> lprev (h node) = node \<and> lnext (h node) = node"

section \<open>Queues (klib/queue.c)\<close>

definition queue_init :: "'a \<Rightarrow> 'a lstore \<Rightarrow> 'a lstore" where
  "queue_init head h = set_prev head head (set_next head head h)"

definition queue_is_empty :: "'a \<Rightarrow> 'a lstore \<Rightarrow> bool" where
  "queue_is_empty head h \<longleftrightarrow> lprev (h head) = head \<and> lnext (h head) = head"

definition queue_add :: "'a \<Rightarrow> 'a \<Rightarrow> 'a lstore \<Rightarrow> 'a lstore" where
  "queue_add head node h =
    (let h1 = set_next node head h;
         h2 = set_prev node (lprev (h1 head)) h1;
         h3 = set_next (lprev (h2 head)) node h2
     in set_prev head node h3)"

definition queue_add_top :: "'a \<Rightarrow> 'a \<Rightarrow> 'a lstore \<Rightarrow> 'a lstore" where
  "queue_add_top head node h =
    (let h1 = set_next node (lnext (h head)) h;
         h2 = set_prev node head h1;
         h3 = set_prev (lnext (h2 head)) node h2
     in set_next head node h3)"

definition queue_add_before :: "'a \<Rightarrow> 'a \<Rightarrow> 'a lstore \<Rightarrow> 'a lstore" where
  "queue_add_before target node h =
    (let h1 = set_prev node (lprev (h target)) h;
         h2 = set_next node target h1;
         h3 = set_next (lprev (h2 target)) node h2
     in set_prev target node h3)"

definition queue_add_after :: "'a \<Rightarrow> 'a \<Rightarrow> 'a lstore \<Rightarrow> 'a lstore" where
  "queue_add_after target node h =
    (let h1 = set_next node (lnext (h target)) h;
         h2 = set_prev node target h1;
         h3 = set_prev (lnext (h2 target)) node h2
     in set_next target node h3)"

definition queue_del :: "'a \<Rightarrow> 'a \<Rightarrow> 'a lstore \<Rightarrow> bool \<times> 'a lstore" where
  "queue_del head node h = (let h1 = list_del node h in (queue_is_empty head h1, h1))"

definition queue_ref_top :: "'a \<Rightarrow> 'a lstore \<Rightarrow> 'a" where
  "queue_ref_top head h = lnext (h head)"

definition queue_get_top :: "'a \<Rightarrow> 'a lstore \<Rightarrow> 'a \<times> 'a lstore" where
  "queue_get_top head h = (let top = queue_ref_top head h in (top, list_del top h))"

definition queue_ref_last :: "'a \<Rightarrow> 'a lstore \<Rightarrow> 'a" where
  "queue_ref_last head h = lprev (h head)"

definition queue_get_last :: "'a \<Rightarrow> 'a lstore \<Rightarrow> 'a \<times> 'a lstore" where
  "queue_get_last head h = (let last = queue_ref_last head h in (last, list_del last h))"

definition queue_rotate :: "'a \<Rightarrow> 'a lstore \<Rightarrow> 'a lstore" where
  "queue_rotate head h = (let (top, h1) = queue_get_top head h in queue_add head top h1)"

definition queue_reverse_rotate :: "'a \<Rightarrow> 'a lstore \<Rightarrow> 'a lstore" where
  "queue_reverse_rotate head h =
    (let (last, h1) = queue_get_last head h in queue_add_top head last h1)"

section \<open>The macros that walk a queue (include/klib/queue.h)\<close>

text \<open>
  A walk that reaches the head again stops; on a store that is not a circular list it need not
  stop, so the result is an option and \<open>None\<close> means the loop does not end.
  \<open>queue_walk h q a\<close> is the list of the iterator's values of \<open>queue_for_each\<close> from \<open>a\<close> on.
\<close>

partial_function (option) queue_walk :: "'a lstore \<Rightarrow> 'a \<Rightarrow> 'a \<Rightarrow> 'a list option" where
  "queue_walk h q itr =
     (if itr = q then Some []
      else do { rest \<leftarrow> queue_walk h q (lnext (h itr)); Some (itr # rest) })"

definition queue_for_each :: "'a lstore \<Rightarrow> 'a \<Rightarrow> 'a list option" where
  "queue_for_each h q = queue_walk h q (queue_ref_top q h)"

partial_function (option) queue_reverse_walk :: "'a lstore \<Rightarrow> 'a \<Rightarrow> 'a \<Rightarrow> 'a list option" where
  "queue_reverse_walk h q itr =
     (if itr = q then Some []
      else do { rest \<leftarrow> queue_reverse_walk h q (lprev (h itr)); Some (itr # rest) })"

definition queue_reverse_for_each :: "'a lstore \<Rightarrow> 'a \<Rightarrow> 'a list option" where
  "queue_reverse_for_each h q = queue_reverse_walk h q (queue_ref_last q h)"

text \<open>
  The search stops at the first element the comparison finds equal, so the loop need not reach
  the head. \<open>Some None\<close> is the null pointer, \<open>Some (Some n)\<close> the element found.
\<close>

partial_function (option) queue_find_loop ::
    "('a \<Rightarrow> int) \<Rightarrow> 'a lstore \<Rightarrow> 'a \<Rightarrow> 'a \<Rightarrow> 'a option option" where
  "queue_find_loop cmp h q lp =
     (if lp = q then Some None
      else if cmp lp = 0 then Some (Some lp)
      else queue_find_loop cmp h q (lnext (h lp)))"

definition queue_find_element ::
    "'a \<Rightarrow> ('k \<Rightarrow> 'a \<Rightarrow> int) \<Rightarrow> 'k \<Rightarrow> 'a lstore \<Rightarrow> 'a option option" where
  "queue_find_element q cmp key h = queue_find_loop (cmp key) h q (queue_ref_top q h)"

partial_function (option) queue_reverse_find_loop ::
    "('a \<Rightarrow> int) \<Rightarrow> 'a lstore \<Rightarrow> 'a \<Rightarrow> 'a \<Rightarrow> 'a option option" where
  "queue_reverse_find_loop cmp h q lp =
     (if lp = q then Some None
      else if cmp lp = 0 then Some (Some lp)
      else queue_reverse_find_loop cmp h q (lprev (h lp)))"

definition queue_reverse_find_element ::
    "'a \<Rightarrow> ('k \<Rightarrow> 'a \<Rightarrow> int) \<Rightarrow> 'k \<Rightarrow> 'a lstore \<Rightarrow> 'a option option" where
  "queue_reverse_find_element q cmp key h =
     queue_reverse_find_loop (cmp key) h q (queue_ref_last q h)"

datatype add_how = QUEUE_ADD_ASCENDING | QUEUE_ADD_DESCENDING

partial_function (option) queue_add_sort_loop ::
    "'a \<Rightarrow> 'a \<Rightarrow> ('a \<Rightarrow> 'a \<Rightarrow> int) \<Rightarrow> add_how \<Rightarrow> 'a \<Rightarrow> 'a \<Rightarrow> 'a lstore \<Rightarrow> 'a lstore option"
where
  "queue_add_sort_loop que node cmp how lp nxt h =
     (if nxt = que
         \<or> (how = QUEUE_ADD_ASCENDING \<and> cmp node lp < 0)
         \<or> (how = QUEUE_ADD_DESCENDING \<and> cmp node lp > 0)
      then Some (queue_add_before lp node h)
      else (let lp' = nxt; nxt' = lnext (h lp')
            in if lp' \<noteq> que then queue_add_sort_loop que node cmp how lp' nxt' h else Some h))"

definition queue_add_sort ::
    "'a \<Rightarrow> 'a \<Rightarrow> ('a \<Rightarrow> 'a \<Rightarrow> int) \<Rightarrow> add_how \<Rightarrow> 'a lstore \<Rightarrow> 'a lstore option" where
  "queue_add_sort que node cmp how h =
     (let lp = queue_ref_top que h; nxt = lnext (h lp)
      in queue_add_sort_loop que node cmp how lp nxt h)"


section \<open>Linked segments\<close>

text \<open>
  \<open>seg h p xs q\<close>: from \<open>p\<close> the next pointers lead through \<open>xs\<close> to \<open>q\<close>, and the
  previous pointers lead back. A queue is a segment from its head to itself.
\<close>

fun seg :: "'a lstore \<Rightarrow> 'a \<Rightarrow> 'a list \<Rightarrow> 'a \<Rightarrow> bool" where
  "seg h p [] q \<longleftrightarrow> lnext (h p) = q \<and> lprev (h q) = p"
| "seg h p (x # xs) q \<longleftrightarrow> lnext (h p) = x \<and> lprev (h x) = p \<and> seg h x xs q"

lemma seg_frame:
  assumes "\<And>a. a \<in> insert p (set xs) \<Longrightarrow> lnext (h' a) = lnext (h a)"
    and "\<And>a. a \<in> insert q (set xs) \<Longrightarrow> lprev (h' a) = lprev (h a)"
  shows "seg h' p xs q \<longleftrightarrow> seg h p xs q"
  using assms by (induction xs arbitrary: p) auto

lemma seg_ends:
  assumes "seg h p xs q"
  shows "lnext (h p) = hd (xs @ [q])" and "lprev (h q) = last (p # xs)"
  using assms by (induction xs arbitrary: p) auto

lemma seg_append_Cons: "seg h p (xs @ y # ys) q \<longleftrightarrow> seg h p xs y \<and> seg h y ys q"
  by (induction xs arbitrary: p) auto

definition is_queue :: "'a lstore \<Rightarrow> 'a \<Rightarrow> 'a list \<Rightarrow> bool" where
  "is_queue h q xs \<longleftrightarrow> distinct (q # xs) \<and> seg h q xs q"

lemma is_queue_empty [simp]: "is_queue h q [] \<longleftrightarrow> lnext (h q) = q \<and> lprev (h q) = q"
  by (simp add: is_queue_def)

lemma is_queue_ends:
  assumes "is_queue h q xs"
  shows "lnext (h q) = hd (xs @ [q])" and "lprev (h q) = last (q # xs)"
  using assms seg_ends [of h q xs q] by (auto simp: is_queue_def)

lemma is_queue_frame:
  assumes "\<And>a. a \<in> insert q (set xs) \<Longrightarrow> h' a = h a"
  shows "is_queue h' q xs \<longleftrightarrow> is_queue h q xs"
  using seg_frame [of q xs h' h q] assms by (simp add: is_queue_def)

subsection \<open>Linking a node between two neighbours\<close>

definition link_between :: "'a \<Rightarrow> 'a \<Rightarrow> 'a \<Rightarrow> 'a lstore \<Rightarrow> 'a lstore" where
  "link_between p n s h = set_prev s n (set_next p n (set_prev n p (set_next n s h)))"

lemma link_between_simps:
  "n \<noteq> p \<Longrightarrow> lnext (link_between p n s h a) = (if a = p then n else if a = n then s else lnext (h a))"
  "n \<noteq> s \<Longrightarrow> lprev (link_between p n s h a) = (if a = s then n else if a = n then p else lprev (h a))"
  by (auto simp: link_between_def)

lemma lnode_eqI: "lprev a = lprev b \<Longrightarrow> lnext a = lnext b \<Longrightarrow> (a :: 'a lnode) = b"
  by simp

lemma add_ops_link_between:
  assumes "node \<noteq> a"
  shows "queue_add a node h = link_between (lprev (h a)) node a h"
    and "queue_add_before a node h = link_between (lprev (h a)) node a h"
    and "queue_add_top a node h = link_between a node (lnext (h a)) h"
    and "queue_add_after a node h = link_between a node (lnext (h a)) h"
  using assms
  by (auto simp: queue_add_def queue_add_before_def queue_add_top_def queue_add_after_def
      link_between_def Let_def set_prev_def set_next_def fun_eq_iff)

lemma seg_link:
  assumes "seg h p (xs @ ys) q" and "n \<notin> insert p (insert q (set xs \<union> set ys))"
    and "distinct (p # xs @ ys)" and "q \<notin> set xs \<union> set ys"
  shows "seg (link_between (last (p # xs)) n (hd (ys @ [q])) h) p (xs @ n # ys) q"
  using assms
proof (induction xs arbitrary: p)
  case Nil
  show ?case
  proof (cases ys)
    case Nil
    with Nil.prems \<open>ys = []\<close> show ?thesis
      by (auto simp: link_between_simps)
  next
    case (Cons y ys')
    have "seg (link_between p n y h) y ys' q \<longleftrightarrow> seg h y ys' q"
      using Nil.prems Cons by (intro seg_frame) (auto simp: link_between_simps)
    with Nil.prems Cons show ?thesis
      by (auto simp: link_between_simps)
  qed
next
  case (Cons x xs)
  have IH: "seg (link_between (last (x # xs)) n (hd (ys @ [q])) h) x (xs @ n # ys) q"
    using Cons.prems by (intro Cons.IH) auto
  have "hd (ys @ [q]) \<noteq> x" and "last (x # xs) \<noteq> p" and "n \<noteq> last (x # xs)" and "n \<noteq> hd (ys @ [q])"
    using Cons.prems by (cases ys; auto)+
  with IH Cons.prems show ?case
    by (auto simp: link_between_simps)
qed

lemma is_queue_link:
  assumes "is_queue h q (xs @ ys)" and "n \<notin> insert q (set xs \<union> set ys)"
  shows "is_queue (link_between (last (q # xs)) n (hd (ys @ [q])) h) q (xs @ n # ys)"
  using assms seg_link [of h q xs ys q n] by (auto simp: is_queue_def)

subsection \<open>Unlinking a node\<close>

lemma list_del_simps:
  "lnext (list_del n h a) = (if a = n then n else if a = lprev (h n) then lnext (h n) else lnext (h a))"
  "lprev (list_del n h a) = (if a = n then n else if a = lnext (h n) then lprev (h n) else lprev (h a))"
  by (auto simp: list_del_def list_init_def Let_def)

lemma list_del_not_linked [simp]: "list_not_linked n (list_del n h)"
  by (simp add: list_not_linked_def list_del_simps)

lemma list_del_self: "list_not_linked n h \<Longrightarrow> list_del n h = h"
  by (auto simp: list_not_linked_def fun_eq_iff list_del_simps intro!: lnode_eqI)

lemma list_init_not_linked [simp]: "list_not_linked n (list_init n h)"
  by (simp add: list_not_linked_def list_init_def)

lemma seg_unlink:
  assumes "seg h p (xs @ n # ys) q" and "n \<notin> insert p (insert q (set xs \<union> set ys))"
    and "distinct (p # xs @ ys)" and "q \<notin> set xs \<union> set ys"
  shows "seg (list_del n h) p (xs @ ys) q"
  using assms
proof (induction xs arbitrary: p)
  case Nil
  show ?case
  proof (cases ys)
    case Nil
    with Nil.prems \<open>ys = []\<close> show ?thesis by (auto simp: list_del_simps)
  next
    case (Cons y ys')
    have "seg (list_del n h) y ys' q \<longleftrightarrow> seg h y ys' q"
      using Nil.prems Cons by (intro seg_frame) (auto simp: list_del_simps)
    with Nil.prems Cons show ?thesis by (auto simp: list_del_simps)
  qed
next
  case (Cons x xs)
  have IH: "seg (list_del n h) x (xs @ ys) q"
    using Cons.prems by (intro Cons.IH) auto
  have "seg h x xs n" and "seg h n ys q"
    using Cons.prems by (auto simp: seg_append_Cons)
  then have "lprev (h n) = last (x # xs)" and "lnext (h n) = hd (ys @ [q])"
    by (auto dest: seg_ends)
  moreover have "hd (ys @ [q]) \<noteq> x" and "last (x # xs) \<noteq> p"
    using Cons.prems by (cases ys; auto)+
  ultimately show ?case
    using IH Cons.prems by (auto simp: list_del_simps)
qed

lemma is_queue_unlink:
  assumes "is_queue h q (xs @ n # ys)"
  shows "is_queue (list_del n h) q (xs @ ys)"
  using assms seg_unlink [of h q xs n ys q] by (auto simp: is_queue_def)

section \<open>The queues of a store\<close>

text \<open>
  \<open>wf_queues H N qs h\<close>: in the store \<open>h\<close> each head \<open>q\<close> of \<open>H\<close> is the circular queue of the
  nodes \<open>qs q\<close>, all of them in \<open>N\<close>; no node is in two queues, and a node of \<open>N\<close> that is in
  none points at itself, as \<open>list_init\<close> and \<open>list_del\<close> leave it.
\<close>

definition wf_queues :: "'a set \<Rightarrow> 'a set \<Rightarrow> ('a \<Rightarrow> 'a list) \<Rightarrow> 'a lstore \<Rightarrow> bool" where
  "wf_queues H N qs h \<longleftrightarrow>
     H \<inter> N = {} \<and>
     (\<forall>q \<in> H. is_queue h q (qs q) \<and> set (qs q) \<subseteq> N) \<and>
     (\<forall>q \<in> H. \<forall>r \<in> H. q \<noteq> r \<longrightarrow> set (qs q) \<inter> set (qs r) = {}) \<and>
     (\<forall>n \<in> N. (\<forall>q \<in> H. n \<notin> set (qs q)) \<longrightarrow> list_not_linked n h)"

lemma wf_queues_is_queue: "wf_queues H N qs h \<Longrightarrow> q \<in> H \<Longrightarrow> is_queue h q (qs q)"
  by (simp add: wf_queues_def)

lemma wf_queues_mem: "wf_queues H N qs h \<Longrightarrow> q \<in> H \<Longrightarrow> n \<in> set (qs q) \<Longrightarrow> n \<in> N"
  by (auto simp: wf_queues_def)

lemma wf_queues_unique:
  "wf_queues H N qs h \<Longrightarrow> q \<in> H \<Longrightarrow> r \<in> H \<Longrightarrow> n \<in> set (qs q) \<Longrightarrow> n \<in> set (qs r) \<Longrightarrow> q = r"
  unfolding wf_queues_def by blast

lemma wf_queues_head: "wf_queues H N qs h \<Longrightarrow> q \<in> H \<Longrightarrow> q \<notin> N"
  by (auto simp: wf_queues_def)

lemma wf_queues_unlinked:
  "wf_queues H N qs h \<Longrightarrow> n \<in> N \<Longrightarrow> \<forall>q \<in> H. n \<notin> set (qs q) \<Longrightarrow> list_not_linked n h"
  by (auto simp: wf_queues_def)

lemma wf_queues_frame:
  assumes wf: "wf_queues H N qs h" and q: "q \<in> H"
    and queue: "is_queue h' q xs" and N: "set xs \<subseteq> N"
    and other: "\<And>a. a \<notin> insert q (set (qs q) \<union> set xs) \<Longrightarrow> h' a = h a"
    and new: "\<And>n. n \<in> set xs \<Longrightarrow> n \<notin> set (qs q) \<Longrightarrow> \<forall>r \<in> H. n \<notin> set (qs r)"
    and gone: "\<And>n. n \<in> set (qs q) \<Longrightarrow> n \<notin> set xs \<Longrightarrow> list_not_linked n h'"
  shows "wf_queues H N (qs(q := xs)) h'"
proof -
  have sep: "a \<notin> insert q (set (qs q) \<union> set xs)" if "r \<in> H" "r \<noteq> q" "a \<in> insert r (set (qs r))" for r a
    using that wf_queues_mem [OF wf] wf_queues_head [OF wf] wf_queues_unique [OF wf] q N new by blast
  have "is_queue h' r (qs r)" if "r \<in> H" "r \<noteq> q" for r
  proof -
    have "h' a = h a" if "a \<in> insert r (set (qs r))" for a
      by (rule other [OF sep [OF \<open>r \<in> H\<close> \<open>r \<noteq> q\<close> that]])
    then have "is_queue h' r (qs r) \<longleftrightarrow> is_queue h r (qs r)"
      by (rule is_queue_frame)
    then show ?thesis
      using wf_queues_is_queue [OF wf that(1)] by simp
  qed
  then have queues: "\<forall>r \<in> H. is_queue h' r ((qs(q := xs)) r) \<and> set ((qs(q := xs)) r) \<subseteq> N"
    using queue N wf_queues_mem [OF wf] by (simp add: subset_iff)
  have unlinked: "list_not_linked n h'" if "n \<in> N" "\<forall>r \<in> H. n \<notin> set ((qs(q := xs)) r)" for n
  proof (cases "n \<in> set (qs q)")
    case True
    with that q gone show ?thesis by force
  next
    case False
    have *: "\<forall>r \<in> H. n \<notin> set (qs r)"
      using that(2) False by (metis fun_upd_apply)
    moreover have "n \<notin> set xs"
      using that(2) q by force
    moreover have "n \<noteq> q"
      using that(1) wf_queues_head [OF wf q] by blast
    ultimately have "h' n = h n"
      using False by (intro other) auto
    with wf_queues_unlinked [OF wf that(1) *] show ?thesis
      by (simp add: list_not_linked_def)
  qed
  have "set ((qs(q := xs)) a) \<inter> set ((qs(q := xs)) b) = {}"
    if "a \<in> H" "b \<in> H" "a \<noteq> b" for a b
  proof -
    have disj: "set (qs a) \<inter> set (qs b) = {}"
      using wf_queues_unique [OF wf that(1,2)] that(3) by blast
    show ?thesis
    proof (cases "a = q")
      case True
      with sep [OF that(2)] that(3) show ?thesis by auto
    next
      case False
      with sep [OF that(1)] that(3) disj show ?thesis by auto
    qed
  qed
  moreover have "H \<inter> N = {}"
    using wf by (simp add: wf_queues_def)
  ultimately show ?thesis
    using queues unlinked by (simp add: wf_queues_def)
qed

lemma last_Cons_in: "last (q # xs) \<in> insert q (set xs)"
  by auto

lemma hd_snoc_in: "hd (ys @ [q]) \<in> insert q (set ys)"
  by (cases ys) auto

lemma wf_queues_insert:
  assumes wf: "wf_queues H N qs h" and q: "q \<in> H" and eq: "qs q = xs @ ys"
    and n: "n \<in> N" "\<forall>r \<in> H. n \<notin> set (qs r)"
  shows "wf_queues H N (qs(q := xs @ n # ys)) (link_between (last (q # xs)) n (hd (ys @ [q])) h)"
    (is "wf_queues H N _ ?h'")
proof (rule wf_queues_frame [OF wf q])
  have nq: "n \<notin> insert q (set xs \<union> set ys)"
    using n q wf_queues_head [OF wf q] eq by auto
  show "is_queue ?h' q (xs @ n # ys)"
    using is_queue_link [OF _ nq] wf_queues_is_queue [OF wf q] eq by simp
  show "set (xs @ n # ys) \<subseteq> N"
    using wf_queues_mem [OF wf q] eq n by auto
  show "?h' a = h a" if "a \<notin> insert q (set (qs q) \<union> set (xs @ n # ys))" for a
    using that last_Cons_in [of q xs] hd_snoc_in [of ys q]
    by (auto simp: link_between_def set_prev_def set_next_def eq)
qed (use n eq in auto)

lemma wf_queues_remove:
  assumes wf: "wf_queues H N qs h" and q: "q \<in> H" and eq: "qs q = xs @ n # ys"
  shows "wf_queues H N (qs(q := xs @ ys)) (list_del n h)"
proof (rule wf_queues_frame [OF wf q])
  have queue: "is_queue h q (xs @ n # ys)"
    using wf_queues_is_queue [OF wf q] eq by simp
  then show "is_queue (list_del n h) q (xs @ ys)"
    by (rule is_queue_unlink)
  show "set (xs @ ys) \<subseteq> N"
    using wf_queues_mem [OF wf q] eq by auto
  have "lprev (h n) \<in> insert q (set xs)" and "lnext (h n) \<in> insert q (set ys)"
    using queue seg_ends [of h q xs n] seg_ends [of h n ys q] last_Cons_in [of q xs] hd_snoc_in [of ys q]
    by (auto simp: is_queue_def seg_append_Cons)
  then show "list_del n h a = h a" if "a \<notin> insert q (set (qs q) \<union> set (xs @ ys))" for a
    using that eq by (auto intro!: lnode_eqI simp: list_del_simps)
qed (use eq in auto)

lemma wf_queues_cong:
  "wf_queues H N qs h \<Longrightarrow> (\<And>q. q \<in> H \<Longrightarrow> qs q = qs' q) \<Longrightarrow> wf_queues H N qs' h"
  by (auto simp: wf_queues_def)

lemma wf_queues_del:
  assumes wf: "wf_queues H N qs h" and n: "n \<in> N"
  shows "wf_queues H N (\<lambda>q. remove1 n (qs q)) (list_del n h)"
proof (cases "\<exists>q \<in> H. n \<in> set (qs q)")
  case True
  then obtain q where q: "q \<in> H" "n \<in> set (qs q)" by blast
  moreover have "distinct (qs q)"
    using wf q by (auto simp: wf_queues_def is_queue_def)
  ultimately obtain xs ys where eq: "qs q = xs @ n # ys" "n \<notin> set xs"
    using split_list_distinct by metis
  have "wf_queues H N (qs(q := xs @ ys)) (list_del n h)"
    using wf q(1) eq(1) by (rule wf_queues_remove)
  moreover have "n \<notin> set (qs r)" if "r \<in> H" "r \<noteq> q" for r
    using wf_queues_unique [OF wf q(1) that(1) q(2)] that(2) by blast
  ultimately show ?thesis
    using eq by (auto intro: wf_queues_cong simp: remove1_append_mid remove1_idem)
next
  case False
  with wf n have "list_del n h = h"
    by (auto simp: wf_queues_def list_del_self)
  with False wf show ?thesis
    by (auto intro: wf_queues_cong simp: remove1_idem)
qed

lemma wf_queues_init:
  assumes "H \<inter> N = {}" and "\<forall>a \<in> H \<union> N. lprev (h a) = a \<and> lnext (h a) = a"
  shows "wf_queues H N (\<lambda>_. []) h"
  using assms by (auto simp: wf_queues_def list_not_linked_def)

section \<open>The contract of the queue operations\<close>

text \<open>
  What a client of the queues relies on: \<open>wf H N qs s\<close> relates a state to the lists of its
  queues, and each operation is the list operation of its name. Facts about sequences of
  operations are proved from the contract alone.
\<close>

locale queue_ops =
  fixes wf :: "'a set \<Rightarrow> 'a set \<Rightarrow> ('a \<Rightarrow> 'a list) \<Rightarrow> 's \<Rightarrow> bool"
    and add :: "'a \<Rightarrow> 'a \<Rightarrow> 's \<Rightarrow> 's"
    and add_top :: "'a \<Rightarrow> 'a \<Rightarrow> 's \<Rightarrow> 's"
    and del :: "'a \<Rightarrow> 'a \<Rightarrow> 's \<Rightarrow> bool \<times> 's"
    and get_top :: "'a \<Rightarrow> 's \<Rightarrow> 'a \<times> 's"
    and get_last :: "'a \<Rightarrow> 's \<Rightarrow> 'a \<times> 's"
    and is_empty :: "'a \<Rightarrow> 's \<Rightarrow> bool"
  assumes wf_mem: "wf H N qs s \<Longrightarrow> q \<in> H \<Longrightarrow> n \<in> set (qs q) \<Longrightarrow> n \<in> N"
    and wf_distinct: "wf H N qs s \<Longrightarrow> q \<in> H \<Longrightarrow> distinct (qs q)"
    and wf_unique: "wf H N qs s \<Longrightarrow> q \<in> H \<Longrightarrow> r \<in> H \<Longrightarrow> n \<in> set (qs q) \<Longrightarrow> n \<in> set (qs r) \<Longrightarrow> q = r"
    and add: "wf H N qs s \<Longrightarrow> q \<in> H \<Longrightarrow> n \<in> N \<Longrightarrow> \<forall>r \<in> H. n \<notin> set (qs r) \<Longrightarrow>
      wf H N (qs(q := qs q @ [n])) (add q n s)"
    and add_top: "wf H N qs s \<Longrightarrow> q \<in> H \<Longrightarrow> n \<in> N \<Longrightarrow> \<forall>r \<in> H. n \<notin> set (qs r) \<Longrightarrow>
      wf H N (qs(q := n # qs q)) (add_top q n s)"
    and del: "wf H N qs s \<Longrightarrow> n \<in> N \<Longrightarrow> wf H N (\<lambda>r. remove1 n (qs r)) (snd (del q n s))"
    and del_empty: "wf H N qs s \<Longrightarrow> q \<in> H \<Longrightarrow> n \<in> N \<Longrightarrow> fst (del q n s) \<longleftrightarrow> remove1 n (qs q) = []"
    and get_top: "wf H N qs s \<Longrightarrow> q \<in> H \<Longrightarrow> qs q = n # ns \<Longrightarrow>
      fst (get_top q s) = n \<and> wf H N (qs(q := ns)) (snd (get_top q s))"
    and get_last: "wf H N qs s \<Longrightarrow> q \<in> H \<Longrightarrow> qs q = ns @ [n] \<Longrightarrow>
      fst (get_last q s) = n \<and> wf H N (qs(q := ns)) (snd (get_last q s))"
    and is_empty: "wf H N qs s \<Longrightarrow> q \<in> H \<Longrightarrow> is_empty q s \<longleftrightarrow> qs q = []"
begin

lemma del_from:
  assumes "wf H N qs s" and "q \<in> H" and "n \<in> set (qs q)"
  shows "(\<lambda>r. if r \<in> H then remove1 n (qs r) else qs r) = qs(q := remove1 n (qs q))"
  using assms wf_unique by (fastforce simp: fun_eq_iff remove1_idem)

lemma rotate:
  assumes wf: "wf H N qs s" and q: "q \<in> H" and eq: "qs q = n # ns"
  shows "wf H N (qs(q := ns @ [n])) (add q (fst (get_top q s)) (snd (get_top q s)))"
proof -
  have *: "fst (get_top q s) = n" "wf H N (qs(q := ns)) (snd (get_top q s))"
    using get_top [OF wf q eq] by auto
  have "\<forall>r \<in> H. n \<notin> set ((qs(q := ns)) r)"
  proof
    fix r assume "r \<in> H"
    then show "n \<notin> set ((qs(q := ns)) r)"
      using wf_distinct [OF wf q] wf_unique [OF wf q, of r n] eq by auto
  qed
  then have "wf H N ((qs(q := ns))(q := (qs(q := ns)) q @ [n])) (add q n (snd (get_top q s)))"
    using *(2) q wf_mem [OF wf q, of n] eq by (intro add) auto
  with *(1) show ?thesis by simp
qed

lemma reverse_rotate:
  assumes wf: "wf H N qs s" and q: "q \<in> H" and eq: "qs q = ns @ [n]"
  shows "wf H N (qs(q := n # ns)) (add_top q (fst (get_last q s)) (snd (get_last q s)))"
proof -
  have *: "fst (get_last q s) = n" "wf H N (qs(q := ns)) (snd (get_last q s))"
    using get_last [OF wf q eq] by auto
  have "\<forall>r \<in> H. n \<notin> set ((qs(q := ns)) r)"
  proof
    fix r assume "r \<in> H"
    then show "n \<notin> set ((qs(q := ns)) r)"
      using wf_distinct [OF wf q] wf_unique [OF wf q, of r n] eq by auto
  qed
  then have "wf H N ((qs(q := ns))(q := n # (qs(q := ns)) q)) (add_top q n (snd (get_last q s)))"
    using *(2) q wf_mem [OF wf q, of n] eq by (intro add_top) auto
  with *(1) show ?thesis by simp
qed

lemma add_all:
  assumes "wf H N qs s" and "q \<in> H" and "distinct ns" and "set ns \<subseteq> N"
    and "\<forall>n \<in> set ns. \<forall>r \<in> H. n \<notin> set (qs r)"
  shows "wf H N (qs(q := qs q @ ns)) (fold (add q) ns s)"
  using assms
proof (induction ns arbitrary: qs s)
  case Nil
  then show ?case by simp
next
  case (Cons n ns)
  have new: "wf H N (qs(q := qs q @ [n])) (add q n s)"
    using Cons.prems by (intro add) auto
  have "wf H N ((qs(q := qs q @ [n]))(q := (qs(q := qs q @ [n])) q @ ns)) (fold (add q) ns (add q n s))"
    by (rule Cons.IH [OF new]) (use Cons.prems in auto)
  moreover have "(qs(q := qs q @ [n]))(q := (qs(q := qs q @ [n])) q @ ns) = qs(q := qs q @ n # ns)"
    by simp
  ultimately show ?case by (simp add: fun_upd_def)
qed

end

subsection \<open>The pointer operations meet the contract\<close>

lemma wf_queue_is_empty:
  assumes "wf_queues H N qs h" and "q \<in> H"
  shows "queue_is_empty q h \<longleftrightarrow> qs q = []"
proof -
  note queue = wf_queues_is_queue [OF assms]
  have "distinct (q # qs q)" and "lnext (h q) = hd (qs q @ [q])" and "lprev (h q) = last (q # qs q)"
    using queue is_queue_ends [OF queue] by (simp_all add: is_queue_def)
  then show ?thesis
    by (cases "qs q") (auto simp: queue_is_empty_def)
qed

lemma wf_queue_add_before:
  assumes wf: "wf_queues H N qs h" and q: "q \<in> H" and eq: "qs q = xs @ y # ys"
    and n: "n \<in> N" "\<forall>r \<in> H. n \<notin> set (qs r)"
  shows "wf_queues H N (qs(q := xs @ n # y # ys)) (queue_add_before y n h)"
proof -
  have "seg h q xs y"
    using wf_queues_is_queue [OF wf q] by (simp add: is_queue_def eq seg_append_Cons)
  then have "lprev (h y) = last (q # xs)"
    by (rule seg_ends(2))
  moreover have "n \<noteq> y"
    using n(2) q eq by auto
  ultimately show ?thesis
    using wf_queues_insert [OF wf q eq n] by (simp add: add_ops_link_between)
qed

lemma wf_queue_add_after:
  assumes wf: "wf_queues H N qs h" and q: "q \<in> H" and eq: "qs q = xs @ y # ys"
    and n: "n \<in> N" "\<forall>r \<in> H. n \<notin> set (qs r)"
  shows "wf_queues H N (qs(q := xs @ y # n # ys)) (queue_add_after y n h)"
proof -
  have "seg h y ys q"
    using wf_queues_is_queue [OF wf q] by (simp add: is_queue_def eq seg_append_Cons)
  then have "lnext (h y) = hd (ys @ [q])"
    by (rule seg_ends(1))
  moreover have "n \<noteq> y"
    using n(2) q eq by auto
  moreover have "qs q = (xs @ [y]) @ ys"
    using eq by simp
  ultimately show ?thesis
    using wf_queues_insert [OF wf q _ n, of "xs @ [y]" ys] by (simp add: add_ops_link_between)
qed

lemma wf_queue_add:
  assumes wf: "wf_queues H N qs h" and q: "q \<in> H" and n: "n \<in> N" "\<forall>r \<in> H. n \<notin> set (qs r)"
  shows "wf_queues H N (qs(q := qs q @ [n])) (queue_add q n h)"
    and "wf_queues H N (qs(q := n # qs q)) (queue_add_top q n h)"
proof -
  have "n \<noteq> q"
    using wf_queues_head [OF wf q] n(1) by auto
  moreover have "lnext (h q) = hd (qs q @ [q])" and "lprev (h q) = last (q # qs q)"
    using wf_queues_is_queue [OF wf q] by (auto dest: is_queue_ends)
  ultimately show "wf_queues H N (qs(q := qs q @ [n])) (queue_add q n h)"
    and "wf_queues H N (qs(q := n # qs q)) (queue_add_top q n h)"
    using wf_queues_insert [OF wf q _ n, of "qs q" "[]"] wf_queues_insert [OF wf q _ n, of "[]" "qs q"]
    by (simp_all add: add_ops_link_between)
qed

interpretation kq: queue_ops wf_queues queue_add queue_add_top queue_del queue_get_top
  queue_get_last queue_is_empty
proof unfold_locales
  fix H N :: "'b set" and qs :: "'b \<Rightarrow> 'b list" and h :: "'b lstore" and q n :: 'b
  assume wf: "wf_queues H N qs h"
  {
    assume n: "n \<in> N"
    show "wf_queues H N (\<lambda>r. remove1 n (qs r)) (snd (queue_del q n h))"
      using wf_queues_del [OF wf n] by (simp add: queue_del_def Let_def)
    assume "q \<in> H"
    then show "fst (queue_del q n h) \<longleftrightarrow> remove1 n (qs q) = []"
      using wf_queue_is_empty [OF wf_queues_del [OF wf n]] by (simp add: queue_del_def Let_def)
  }
  assume q: "q \<in> H"
  show "queue_is_empty q h \<longleftrightarrow> qs q = []"
    using wf q by (rule wf_queue_is_empty)
  show "distinct (qs q)"
    using wf_queues_is_queue [OF wf q] by (simp add: is_queue_def)
  {
    fix ns assume eq: "qs q = n # ns"
    have "lnext (h q) = n"
      using is_queue_ends(1) [OF wf_queues_is_queue [OF wf q]] eq by simp
    then show "fst (queue_get_top q h) = n \<and> wf_queues H N (qs(q := ns)) (snd (queue_get_top q h))"
      using wf_queues_remove [OF wf q, of "[]"] eq
      by (simp add: queue_get_top_def queue_ref_top_def Let_def)
  }
  {
    fix ns assume eq: "qs q = ns @ [n]"
    have "lprev (h q) = n"
      using is_queue_ends(2) [OF wf_queues_is_queue [OF wf q]] eq by simp
    then show "fst (queue_get_last q h) = n \<and> wf_queues H N (qs(q := ns)) (snd (queue_get_last q h))"
      using wf_queues_remove [OF wf q, of _ _ "[]"] eq
      by (simp add: queue_get_last_def queue_ref_last_def Let_def)
  }
qed (auto intro: wf_queue_add wf_queues_mem wf_queues_unique)

section \<open>Walking a queue\<close>

lemma queue_walk_seg: "seg h p xs q \<Longrightarrow> q \<notin> set xs \<Longrightarrow> queue_walk h q (lnext (h p)) = Some xs"
  by (induction xs arbitrary: p) (auto simp: queue_walk.simps)

lemma queue_reverse_walk_seg:
  "seg h q xs p \<Longrightarrow> q \<notin> set xs \<Longrightarrow> queue_reverse_walk h q (lprev (h p)) = Some (rev xs)"
proof (induction xs arbitrary: p rule: rev_induct)
  case Nil
  then show ?case by (simp add: queue_reverse_walk.simps)
next
  case (snoc x xs)
  then have "seg h q xs x" and "lprev (h p) = x"
    by (auto simp: seg_append_Cons)
  with snoc show ?case by (auto simp: queue_reverse_walk.simps)
qed

lemma queue_find_loop_seg:
  "seg h p xs q \<Longrightarrow> q \<notin> set xs \<Longrightarrow>
   queue_find_loop cmp h q (lnext (h p)) = Some (find (\<lambda>n. cmp n = 0) xs)"
  by (induction xs arbitrary: p) (auto simp: queue_find_loop.simps)

lemma queue_reverse_find_loop_seg:
  "seg h q xs p \<Longrightarrow> q \<notin> set xs \<Longrightarrow>
   queue_reverse_find_loop cmp h q (lprev (h p)) = Some (find (\<lambda>n. cmp n = 0) (rev xs))"
proof (induction xs arbitrary: p rule: rev_induct)
  case Nil
  then show ?case by (simp add: queue_reverse_find_loop.simps)
next
  case (snoc x xs)
  then have "seg h q xs x" and "lprev (h p) = x"
    by (auto simp: seg_append_Cons)
  with snoc show ?case by (auto simp: queue_reverse_find_loop.simps)
qed

subsection \<open>Sorted insertion\<close>

text \<open>
  What \<open>queue_add_sort\<close> does to the list: the loop stops with \<open>_next == head\<close> when it looks
  at the last node, and inserts before that node without comparing.
\<close>

fun add_sort_list :: "('a \<Rightarrow> 'a \<Rightarrow> int) \<Rightarrow> add_how \<Rightarrow> 'a \<Rightarrow> 'a list \<Rightarrow> 'a list" where
  "add_sort_list cmp how n [] = [n]"
| "add_sort_list cmp how n [x] = [n, x]"
| "add_sort_list cmp how n (x # y # ys) =
     (if (how = QUEUE_ADD_ASCENDING \<and> cmp n x < 0) \<or> (how = QUEUE_ADD_DESCENDING \<and> cmp n x > 0)
      then n # x # y # ys else x # add_sort_list cmp how n (y # ys))"

lemma queue_add_sort_loop_wf:
  assumes wf: "wf_queues H N qs h" and q: "q \<in> H" and n: "n \<in> N" "\<forall>r \<in> H. n \<notin> set (qs r)"
    and "qs q = pre @ x # post"
  shows "\<exists>h'. queue_add_sort_loop q n cmp how x (lnext (h x)) h = Some h' \<and>
    wf_queues H N (qs(q := pre @ add_sort_list cmp how n (x # post))) h'"
  using assms(5)
proof (induction post arbitrary: pre x)
  case Nil
  then have "lnext (h x) = q"
    using wf_queues_is_queue [OF wf q] by (simp add: is_queue_def seg_append_Cons)
  with Nil wf_queue_add_before [OF wf q Nil n] show ?case
    by (simp add: queue_add_sort_loop.simps fun_upd_def)
next
  case (Cons y post)
  have "lnext (h x) = y" and "y \<noteq> q"
    using wf_queues_is_queue [OF wf q] Cons.prems by (auto simp: is_queue_def seg_append_Cons)
  moreover obtain h' where "queue_add_sort_loop q n cmp how y (lnext (h y)) h = Some h'"
    and "wf_queues H N (qs(q := (pre @ [x]) @ add_sort_list cmp how n (y # post))) h'"
    using Cons.IH [of "pre @ [x]" y] Cons.prems by (auto simp: fun_upd_def)
  ultimately show ?case
    using wf_queue_add_before [OF wf q Cons.prems n]
    by (subst queue_add_sort_loop.simps) (auto simp: Let_def fun_upd_def)
qed

lemma queue_add_sort_wf:
  assumes wf: "wf_queues H N qs h" and q: "q \<in> H" and n: "n \<in> N" "\<forall>r \<in> H. n \<notin> set (qs r)"
  shows "\<exists>h'. queue_add_sort q n cmp how h = Some h' \<and>
    wf_queues H N (qs(q := add_sort_list cmp how n (qs q))) h'"
proof (cases "qs q")
  case Nil
  then have "lnext (h q) = q"
    using wf_queues_is_queue [OF wf q] by simp
  moreover have "n \<noteq> q"
    using wf_queues_head [OF wf q] n(1) by auto
  ultimately show ?thesis
    using Nil wf_queue_add(1) [OF wf q n]
    by (simp add: queue_add_sort_def queue_ref_top_def queue_add_sort_loop.simps Let_def add_ops_link_between)
next
  case (Cons x post)
  then have "lnext (h q) = x"
    using is_queue_ends(1) [OF wf_queues_is_queue [OF wf q]] by simp
  with queue_add_sort_loop_wf [OF wf q n, of "[]" x post cmp how] Cons show ?thesis
    by (simp add: queue_add_sort_def queue_ref_top_def Let_def)
qed

lemma set_add_sort_list [simp]: "set (add_sort_list cmp how n xs) = insert n (set xs)"
  by (induction cmp how n xs rule: add_sort_list.induct) auto

lemma add_sort_list_sorted:
  fixes key :: "'a \<Rightarrow> 'k :: linorder"
  assumes "\<And>a b. cmp a b < 0 \<longleftrightarrow> key a < key b" and "sorted (map key xs)"
  shows "sorted (map key (add_sort_list cmp QUEUE_ADD_ASCENDING n xs)) \<longleftrightarrow> xs = [] \<or> key n \<le> key (last xs)"
  using assms
proof (induction xs rule: induct_list012)
  case (3 x y ys)
  show ?case
  proof (cases "cmp n x < 0")
    case True
    have "\<forall>z \<in> set (y # ys). key x \<le> key z"
      using 3(4) by auto
    then have "key x \<le> key (last (y # ys))"
      using last_in_set by blast
    with True 3 show ?thesis by auto
  next
    case False
    have "sorted (map key (x # add_sort_list cmp QUEUE_ADD_ASCENDING n (y # ys))) \<longleftrightarrow>
      sorted (map key (add_sort_list cmp QUEUE_ADD_ASCENDING n (y # ys)))"
      using False 3 by (auto simp del: add_sort_list.simps)
    with False 3 show ?thesis by simp
  qed
qed auto

section \<open>Properties\<close>

text \<open>
  A concrete store for the witnesses: two heads 0 and 1, the nodes 2 to 5; queue 0 holds 2 and 3,
  queue 1 holds 4, and 5 is in no queue.
\<close>

definition sample_heap :: "nat lstore" where
  "sample_heap = queue_add 1 4 (queue_add 0 3 (queue_add 0 2 (\<lambda>a. \<lparr>lprev = a, lnext = a\<rparr>)))"

definition sample_queues :: "nat \<Rightarrow> nat list" where
  "sample_queues = (\<lambda>_. [])(0 := [2, 3], 1 := [4])"

lemma sample_wf: "wf_queues {0, 1} {2, 3, 4, 5} sample_queues sample_heap"
proof -
  let ?H = "{0, 1 :: nat}" and ?N = "{2, 3, 4, 5 :: nat}"
  have "wf_queues ?H ?N (\<lambda>_. []) (\<lambda>a. \<lparr>lprev = a, lnext = a\<rparr>)"
    by (rule wf_queues_init) auto
  then have "wf_queues ?H ?N ((\<lambda>_. [])(0 := [] @ [2])) (queue_add 0 2 (\<lambda>a. \<lparr>lprev = a, lnext = a\<rparr>))"
    by (rule kq.add) auto
  then have "wf_queues ?H ?N (((\<lambda>_. [])(0 := [2]))(0 := [2] @ [3]))
    (queue_add 0 3 (queue_add 0 2 (\<lambda>a. \<lparr>lprev = a, lnext = a\<rparr>)))"
    using kq.add [of ?H ?N "(\<lambda>_. [])(0 := [2])" _ 0 3] by simp
  then show ?thesis
    using kq.add [of ?H ?N "(\<lambda>_. [])(0 := [2, 3])" _ 1 4]
    by (simp add: sample_heap_def sample_queues_def)
qed

text \<open>
  C1: the queue operations of klib/queue.c are the list operations on a well-formed store.
  Adding puts a node that is in no queue at the end (\<open>queue_add\<close>), at the front
  (\<open>queue_add_top\<close>), or next to a given node (\<open>queue_add_before\<close>, \<open>queue_add_after\<close>) of the one
  queue and leaves the other queues as they are; \<open>queue_del\<close> takes the node out of the queue it
  is in, if any, and reports whether the given queue is then empty; the store stays well formed.
\<close>

theorem queue_operations_refine_lists:
  assumes wf: "wf_queues H N qs h" and q: "q \<in> H"
    and n: "n \<in> N" "\<forall>r \<in> H. n \<notin> set (qs r)"
  shows "(queue_is_empty q h \<longleftrightarrow> qs q = []) \<and>
    wf_queues H N (qs(q := qs q @ [n])) (queue_add q n h) \<and>
    wf_queues H N (qs(q := n # qs q)) (queue_add_top q n h) \<and>
    (\<forall>xs y ys. qs q = xs @ y # ys \<longrightarrow>
       wf_queues H N (qs(q := xs @ n # y # ys)) (queue_add_before y n h) \<and>
       wf_queues H N (qs(q := xs @ y # n # ys)) (queue_add_after y n h)) \<and>
    (\<forall>m \<in> N. (fst (queue_del q m h) \<longleftrightarrow> remove1 m (qs q) = []) \<and>
       wf_queues H N (\<lambda>r. remove1 m (qs r)) (snd (queue_del q m h))) \<and>
    (\<forall>m ms. qs q = m # ms \<longrightarrow>
       fst (queue_get_top q h) = m \<and> wf_queues H N (qs(q := ms)) (snd (queue_get_top q h))) \<and>
    (\<forall>m ms. qs q = ms @ [m] \<longrightarrow>
       fst (queue_get_last q h) = m \<and> wf_queues H N (qs(q := ms)) (snd (queue_get_last q h)))"
  using kq.is_empty [OF wf q] wf_queue_add [OF wf q n] wf_queue_add_before [OF wf q _ n]
    wf_queue_add_after [OF wf q _ n] kq.del_empty [OF wf q] kq.del [OF wf]
    kq.get_top [OF wf q] kq.get_last [OF wf q]
  by simp

theorem queue_operations_refine_lists_witness:
  "\<not> queue_is_empty 0 sample_heap \<and>
   wf_queues {0, 1} {2, 3, 4, 5} (sample_queues(0 := [2, 3, 5])) (queue_add 0 5 sample_heap) \<and>
   wf_queues {0, 1} {2, 3, 4, 5} (sample_queues(0 := [5, 2, 3])) (queue_add_top 0 5 sample_heap) \<and>
   fst (queue_get_top 0 sample_heap) = 2 \<and> fst (queue_get_last 0 sample_heap) = 3"
proof -
  have eqs: "sample_queues 0 = [2, 3]" "sample_queues 1 = [4]"
    by (simp_all add: sample_queues_def)
  have fresh: "\<forall>r \<in> {0, 1}. 5 \<notin> set (sample_queues r)"
    by (simp add: sample_queues_def)
  have five: "(5 :: nat) \<in> {2, 3, 4, 5}" and zero: "(0 :: nat) \<in> {0, 1}" by simp_all
  note all = queue_operations_refine_lists [OF sample_wf zero five fresh, unfolded eqs]
  from all have "fst (queue_get_top 0 sample_heap) = 2" by blast
  moreover from all have "fst (queue_get_last 0 sample_heap) = 3"
    by (metis append_Cons append_Nil)
  ultimately show ?thesis using all by simp
qed

text \<open>
  Rotation. \<open>queue_rotate\<close> moves the first node of a nonempty queue to its end,
  \<open>queue_reverse_rotate\<close> the last to the front, and the one undoes the other: the queue is
  what it was, and the store well formed throughout.
\<close>

theorem queue_rotations:
  assumes wf: "wf_queues H N qs h" and q: "q \<in> H" and eq: "qs q = n # ns"
  shows "wf_queues H N (qs(q := ns @ [n])) (queue_rotate q h) \<and>
    wf_queues H N qs (queue_reverse_rotate q (queue_rotate q h))"
proof
  show rot: "wf_queues H N (qs(q := ns @ [n])) (queue_rotate q h)"
    using kq.rotate [OF assms] by (simp add: queue_rotate_def case_prod_beta)
  have "wf_queues H N ((qs(q := ns @ [n]))(q := n # ns)) (queue_reverse_rotate q (queue_rotate q h))"
    using kq.reverse_rotate [OF rot q] by (simp add: queue_reverse_rotate_def case_prod_beta)
  then show "wf_queues H N qs (queue_reverse_rotate q (queue_rotate q h))"
    using eq by (simp add: fun_upd_twice_eq)
qed

theorem queue_rotations_witness:
  "wf_queues {0, 1} {2, 3, 4, 5} (sample_queues(0 := [3, 2])) (queue_rotate 0 sample_heap) \<and>
   wf_queues {0, 1} {2, 3, 4, 5} sample_queues (queue_reverse_rotate 0 (queue_rotate 0 sample_heap))"
  using queue_rotations [OF sample_wf, of 0 2 "[3]"] by (simp add: sample_queues_def)

text \<open>
  C3: the walks of include/klib/queue.h end on every well-formed queue and see its nodes in
  order: \<open>queue_for_each\<close> forwards, \<open>queue_reverse_for_each\<close> backwards, and the searches return
  the first match in their direction, or the null pointer when no node matches.
\<close>

theorem queue_walks_terminate:
  assumes "wf_queues H N qs h" and "q \<in> H"
  shows "queue_for_each h q = Some (qs q) \<and>
    queue_reverse_for_each h q = Some (rev (qs q)) \<and>
    queue_find_element q cmp key h = Some (find (\<lambda>n. cmp key n = 0) (qs q)) \<and>
    queue_reverse_find_element q cmp key h = Some (find (\<lambda>n. cmp key n = 0) (rev (qs q)))"
proof -
  have seg: "seg h q (qs q) q" and new: "q \<notin> set (qs q)"
    using wf_queues_is_queue [OF assms] by (simp_all add: is_queue_def)
  note walks = queue_walk_seg [OF seg new] queue_reverse_walk_seg [OF seg new]
    queue_find_loop_seg [OF seg new] queue_reverse_find_loop_seg [OF seg new]
  show ?thesis
    by (simp add: walks queue_for_each_def queue_reverse_for_each_def queue_find_element_def
        queue_reverse_find_element_def queue_ref_top_def queue_ref_last_def)
qed

theorem queue_walks_terminate_witness:
  "queue_for_each sample_heap 0 = Some [2, 3] \<and> queue_reverse_for_each sample_heap 0 = Some [3, 2] \<and>
   queue_find_element 0 (\<lambda>k n. int k - int n) 3 sample_heap = Some (Some 3) \<and>
   queue_reverse_find_element 0 (\<lambda>k n. int k - int n) 3 sample_heap = Some (Some 3)"
  using queue_walks_terminate [OF sample_wf, of 0 "\<lambda>k n. int k - int n" 3]
  by (simp add: sample_queues_def)

text \<open>
  C4: sorted insertion. \<open>queue_add_sort\<close> returns on every well-formed queue, puts the new node
  into that queue and keeps every other node and queue. In a queue that is in ascending order by
  a key the comparison function compares, the result is in ascending order exactly when the
  queue was empty or the new key is at most the last one: a node with a greater key than every
  other ends up before the last node, because the loop inserts before the last node unseen.
\<close>

theorem queue_add_sort_ascending:
  fixes key :: "'a \<Rightarrow> 'k :: linorder"
  assumes wf: "wf_queues H N qs h" and q: "q \<in> H" and n: "n \<in> N" "\<forall>r \<in> H. n \<notin> set (qs r)"
    and cmp: "\<And>a b. cmp a b < 0 \<longleftrightarrow> key a < key b" and sorted: "sorted (map key (qs q))"
  shows "\<exists>h' ns. queue_add_sort q n cmp QUEUE_ADD_ASCENDING h = Some h' \<and>
    wf_queues H N (qs(q := ns)) h' \<and> set ns = insert n (set (qs q)) \<and>
    (sorted (map key ns) \<longleftrightarrow> qs q = [] \<or> key n \<le> key (last (qs q)))"
proof -
  obtain h' where "queue_add_sort q n cmp QUEUE_ADD_ASCENDING h = Some h'"
    and "wf_queues H N (qs(q := add_sort_list cmp QUEUE_ADD_ASCENDING n (qs q))) h'"
    using queue_add_sort_wf [OF wf q n] by blast
  with add_sort_list_sorted [of cmp key, OF cmp sorted] show ?thesis
    by (intro exI conjI) (assumption | rule set_add_sort_list)+
qed

theorem queue_add_sort_ascending_witness:
  "\<exists>h' ns. queue_add_sort 0 5 (\<lambda>a b. int a - int b) QUEUE_ADD_ASCENDING sample_heap = Some h' \<and>
    wf_queues {0, 1} {2, 3, 4, 5} (sample_queues(0 := ns)) h' \<and> set ns = {2, 3, 5} \<and> \<not> sorted ns"
proof -
  have "\<exists>h' ns. queue_add_sort 0 5 (\<lambda>a b. int a - int b) QUEUE_ADD_ASCENDING sample_heap = Some h' \<and>
    wf_queues {0, 1} {2, 3, 4, 5} (sample_queues(0 := ns)) h' \<and>
    set ns = insert 5 (set (sample_queues 0)) \<and>
    (sorted (map (\<lambda>n. n) ns) \<longleftrightarrow> sample_queues 0 = [] \<or> 5 \<le> last (sample_queues 0))"
    by (rule queue_add_sort_ascending [OF sample_wf]) (auto simp: sample_queues_def)
  moreover have "insert 5 (set (sample_queues 0)) = {2, 3, 5}" "sample_queues 0 = [2, 3]"
    by (auto simp: sample_queues_def)
  ultimately show ?thesis by auto
qed

end
