(* ===== verification/Bitops.thy ===== *)
theory Bitops
  imports Prelude
begin

unbundle bit_operations_syntax

text \<open>
  Bit searches and bitmaps (klib/bitops.c, include/klib/bitops.h). A bitmap \<open>BITMAP_TYPE(, t, n)\<close>
  is an array of words of the type \<open>t\<close> (16, 32 or 64 bits), here a list of words. Bit \<open>n\<close> of
  a bitmap is bit \<open>n mod w\<close> of word \<open>n div w\<close>. Positions returned by the searches count from 1,
  and 0 means that there is none.

  The locale \<open>bitmap_ops\<close> is the contract of a bitmap as a finite set of positions, interpreted
  on the operations of the 64-bit bitmaps, the ones the scheduler and the identifier allocators use.
\<close>

section \<open>Masks (klib/bitops.c)\<close>

text \<open>The masks have the type \<open>uintptr_t\<close>, which is 64 bits wide, whatever the searched type.\<close>

definition BITOPS_LOWER_MASK :: "nat \<Rightarrow> u64" where
  "BITOPS_LOWER_MASK len = push_bit len 1 - 1"

definition BITOPS_UPPER_MASK :: "nat \<Rightarrow> nat \<Rightarrow> u64" where
  "BITOPS_UPPER_MASK w len = push_bit (w - len) (BITOPS_LOWER_MASK len)"

section \<open>First and last set bit of a word\<close>

function ffs_loop :: "'a::len word \<Rightarrow> int \<Rightarrow> nat \<Rightarrow> int" where
  "ffs_loop n v b =
     (if b > 0
      then if ucast n AND BITOPS_LOWER_MASK b = 0
           then ffs_loop (drop_bit b n) (v + int b) (b div 2)
           else ffs_loop n v (b div 2)
      else v)"
  by pat_completeness auto
termination
  by (relation "measure (\<lambda>(n, v, b). b)") auto

declare ffs_loop.simps [simp del]

definition bitops_ffs16 :: "u16 \<Rightarrow> int" where
  "bitops_ffs16 n = (if n = 0 then 0 else ffs_loop n 1 8)"

definition bitops_ffs32 :: "u32 \<Rightarrow> int" where
  "bitops_ffs32 n = (if n = 0 then 0 else ffs_loop n 1 16)"

definition bitops_ffs64 :: "u64 \<Rightarrow> int" where
  "bitops_ffs64 n = (if n = 0 then 0 else ffs_loop n 1 32)"

function fls_loop :: "nat \<Rightarrow> 'a::len word \<Rightarrow> int \<Rightarrow> nat \<Rightarrow> int" where
  "fls_loop w n v b =
     (if b > 0
      then if ucast n AND BITOPS_UPPER_MASK w b = 0
           then fls_loop w (push_bit b n) (v - int b) (b div 2)
           else fls_loop w n v (b div 2)
      else v)"
  by pat_completeness auto
termination
  by (relation "measure (\<lambda>(w, n, v, b). b)") auto

declare fls_loop.simps [simp del]

definition bitops_fls16 :: "u16 \<Rightarrow> int" where
  "bitops_fls16 n = (if n = 0 then 0 else fls_loop 16 n 16 8)"

definition bitops_fls32 :: "u32 \<Rightarrow> int" where
  "bitops_fls32 n = (if n = 0 then 0 else fls_loop 32 n 32 16)"

definition bitops_fls64 :: "u64 \<Rightarrow> int" where
  "bitops_fls64 n = (if n = 0 then 0 else fls_loop 64 n 64 32)"

definition bitops_ilog2 :: "u64 \<Rightarrow> int" where
  "bitops_ilog2 n = bitops_fls64 n - 1"

definition bitops_ilog2_32 :: "u32 \<Rightarrow> int" where
  "bitops_ilog2_32 n = bitops_fls32 n - 1"

definition bitops_ilog2_16 :: "u16 \<Rightarrow> int" where
  "bitops_ilog2_16 n = bitops_fls16 n - 1"

section \<open>Bitmaps as arrays of words\<close>

text \<open>
  The loops over the array: \<open>f\<close> is the search in one word, \<open>i\<close> the index of the first word of
  the list, the element size is that of the words.
\<close>

fun first_in_words :: "('a::len word \<Rightarrow> int) \<Rightarrow> nat \<Rightarrow> 'a word list \<Rightarrow> int" where
  "first_in_words f i [] = 0"
| "first_in_words f i (x # xs) =
     (let off = f x
      in if off \<noteq> 0 then int LENGTH('a) * int i + off else first_in_words f (Suc i) xs)"

text \<open>The backward loops read the element \<open>idx = size / elm_size - i - 1\<close> for \<open>i = 0, 1, \<dots>\<close>.\<close>

fun last_in_words :: "('a::len word \<Rightarrow> int) \<Rightarrow> 'a word list \<Rightarrow> nat \<Rightarrow> int" where
  "last_in_words f xs 0 = 0"
| "last_in_words f xs (Suc idx) =
     (let off = f (xs ! idx)
      in if off \<noteq> 0 then int LENGTH('a) * int idx + off else last_in_words f xs idx)"

datatype bitmap = BM64 "u64 list" | BM32 "u32 list" | BM16 "u16 list"

fun bitops_ffs :: "bitmap \<Rightarrow> int" where
  "bitops_ffs (BM64 b) = first_in_words bitops_ffs64 0 b"
| "bitops_ffs (BM32 b) = first_in_words bitops_ffs32 0 b"
| "bitops_ffs (BM16 b) = first_in_words bitops_ffs16 0 b"

fun bitops_fls :: "bitmap \<Rightarrow> int" where
  "bitops_fls (BM64 b) = last_in_words bitops_fls64 b (length b)"
| "bitops_fls (BM32 b) = last_in_words bitops_fls32 b (length b)"
| "bitops_fls (BM16 b) = last_in_words bitops_fls16 b (length b)"

fun bitops_ffc :: "bitmap \<Rightarrow> int" where
  "bitops_ffc (BM64 b) = first_in_words (\<lambda>x. bitops_ffs64 (NOT x)) 0 b"
| "bitops_ffc (BM32 b) = first_in_words (\<lambda>x. bitops_ffs32 (NOT x)) 0 b"
| "bitops_ffc (BM16 b) = first_in_words (\<lambda>x. bitops_ffs16 (NOT x)) 0 b"

fun bitops_flc :: "bitmap \<Rightarrow> int" where
  "bitops_flc (BM64 b) = last_in_words (\<lambda>x. bitops_fls64 (NOT x)) b (length b)"
| "bitops_flc (BM32 b) = last_in_words (\<lambda>x. bitops_fls32 (NOT x)) b (length b)"
| "bitops_flc (BM16 b) = last_in_words (\<lambda>x. bitops_fls16 (NOT x)) b (length b)"

definition bitops_is_empty :: "bitmap \<Rightarrow> bool" where
  "bitops_is_empty b \<longleftrightarrow> bitops_ffs b = 0"

fun words_equal :: "'a::len word list \<Rightarrow> 'a word list \<Rightarrow> bool" where
  "words_equal (x # xs) (y # ys) = (if x \<noteq> y then False else words_equal xs ys)"
| "words_equal _ _ = True"

definition bitops_eq :: "'a::len word list \<Rightarrow> 'a word list \<Rightarrow> bool" where
  "bitops_eq v1 v2 = (if length v1 \<noteq> length v2 then False else words_equal v1 v2)"

subsection \<open>Setting, clearing and testing one bit\<close>

definition BITMAP_INDEX_SHIFT :: "nat \<Rightarrow> nat" where
  "BITMAP_INDEX_SHIFT bits = nat (bitops_ilog2 (of_nat bits))"

definition BITMAP_INDEX :: "nat \<Rightarrow> 'a::len word list \<Rightarrow> nat" where
  "BITMAP_INDEX n v = drop_bit (BITMAP_INDEX_SHIFT LENGTH('a)) n"

definition BITMAP_OFFSET :: "nat \<Rightarrow> 'a::len word" where
  "BITMAP_OFFSET n = push_bit (n AND (LENGTH('a) - 1)) 1"

definition bitops_set :: "nat \<Rightarrow> 'a::len word list \<Rightarrow> 'a word list" where
  "bitops_set n v = v[BITMAP_INDEX n v := v ! BITMAP_INDEX n v OR BITMAP_OFFSET n]"

definition bitops_clr :: "nat \<Rightarrow> 'a::len word list \<Rightarrow> 'a word list" where
  "bitops_clr n v = v[BITMAP_INDEX n v := v ! BITMAP_INDEX n v AND NOT (BITMAP_OFFSET n)]"

definition bitops_isset :: "nat \<Rightarrow> 'a::len word list \<Rightarrow> bool" where
  "bitops_isset n v \<longleftrightarrow> v ! BITMAP_INDEX n v AND BITMAP_OFFSET n \<noteq> 0"

subsection \<open>Whole bitmaps\<close>

definition bitops_zero :: "'a::len word list \<Rightarrow> 'a word list" where
  "bitops_zero v = map (\<lambda>_. 0) v"

definition bitops_fill :: "'a::len word list \<Rightarrow> 'a word list" where
  "bitops_fill v = map (\<lambda>_. NOT 0) v"

text \<open>The operations on two bitmaps write the words up to the shorter length; the rest of the
  output stays.\<close>

definition bitops_inv :: "'a::len word list \<Rightarrow> 'a word list \<Rightarrow> 'a word list" where
  "bitops_inv v out = (let len = min (length v) (length out)
     in map NOT (take len v) @ drop len out)"

definition bitops_copy :: "'a::len word list \<Rightarrow> 'a word list \<Rightarrow> 'a word list" where
  "bitops_copy dest src = (let len = min (length dest) (length src)
     in take len src @ drop len dest)"

definition bitops_zip ::
    "('a::len word \<Rightarrow> 'a word \<Rightarrow> 'a word) \<Rightarrow> 'a word list \<Rightarrow> 'a word list \<Rightarrow> 'a word list \<Rightarrow> 'a word list"
where
  "bitops_zip f v1 v2 out = (let len = min (min (length v1) (length v2)) (length out)
     in map2 f (take len v1) (take len v2) @ drop len out)"

definition bitops_and :: "'a::len word list \<Rightarrow> 'a word list \<Rightarrow> 'a word list \<Rightarrow> 'a word list" where
  "bitops_and = bitops_zip (AND)"

definition bitops_or :: "'a::len word list \<Rightarrow> 'a word list \<Rightarrow> 'a word list \<Rightarrow> 'a word list" where
  "bitops_or = bitops_zip (OR)"

definition bitops_xor :: "'a::len word list \<Rightarrow> 'a word list \<Rightarrow> 'a word list \<Rightarrow> 'a word list" where
  "bitops_xor = bitops_zip (XOR)"

section \<open>The searches in a word\<close>

definition lowest :: "'a::len word \<Rightarrow> nat \<Rightarrow> bool" where
  "lowest n p \<longleftrightarrow> bit n p \<and> (\<forall>i < p. \<not> bit n i)"

definition highest :: "'a::len word \<Rightarrow> nat \<Rightarrow> bool" where
  "highest n p \<longleftrightarrow> bit n p \<and> (\<forall>i > p. \<not> bit n i)"

lemma ex_lowest: "n \<noteq> 0 \<Longrightarrow> \<exists>p. lowest n p"
  unfolding lowest_def by (metis bit_eqI bit_0_eq bot_apply exists_least_iff bot_bool_def)

lemma ex_highest:
  assumes "(n :: 'a::len word) \<noteq> 0" shows "\<exists>p. highest n p"
proof -
  let ?S = "{i. bit n i}"
  have fin: "finite ?S"
    by (rule finite_subset [of _ "{..<LENGTH('a)}"]) (auto dest: bit_imp_le_length)
  moreover have "?S \<noteq> {}"
    using assms ex_lowest [of n] by (auto simp: lowest_def)
  ultimately have "bit n (Max ?S)" and "\<forall>i. bit n i \<longrightarrow> i \<le> Max ?S"
    using Max_in [of ?S] by auto
  then show ?thesis
    unfolding highest_def by (meson not_le)
qed

lemma lowest_unique: "lowest n p \<Longrightarrow> lowest n q \<Longrightarrow> p = q"
  unfolding lowest_def by (metis linorder_neqE_nat)

lemma highest_unique: "highest n p \<Longrightarrow> highest n q \<Longrightarrow> p = q"
  unfolding highest_def by (metis linorder_neqE_nat)

lemma bit_LOWER_MASK: "bit (BITOPS_LOWER_MASK b) i \<longleftrightarrow> i < 64 \<and> i < b"
  unfolding BITOPS_LOWER_MASK_def by (simp flip: mask_eq_exp_minus_1 add: bit_mask_iff push_bit_eq_mult)

lemma bit_UPPER_MASK: "b \<le> w \<Longrightarrow> w \<le> 64 \<Longrightarrow> bit (BITOPS_UPPER_MASK w b) i \<longleftrightarrow> w - b \<le> i \<and> i < w"
  unfolding BITOPS_UPPER_MASK_def by (auto simp: bit_push_bit_iff bit_LOWER_MASK)

lemma lower_test:
  "ucast (n :: 'a::len word) AND BITOPS_LOWER_MASK b = 0 \<longleftrightarrow> (\<forall>i < b. i < 64 \<longrightarrow> \<not> bit n i)"
  unfolding bit_eq_iff by (auto simp: bit_and_iff bit_ucast_iff bit_LOWER_MASK)

lemma upper_test:
  assumes "b \<le> LENGTH('a)" and "LENGTH('a) \<le> 64"
  shows "ucast (n :: 'a::len word) AND BITOPS_UPPER_MASK LENGTH('a) b = 0 \<longleftrightarrow>
    (\<forall>i \<ge> LENGTH('a) - b. \<not> bit n i)"
proof -
  have "i < 64 \<and> i < LENGTH('a)" if "bit n i" for i
    using bit_imp_le_length [OF that] assms(2) by simp
  then show ?thesis
    unfolding bit_eq_iff using assms
    by (auto simp: bit_and_iff bit_ucast_iff bit_UPPER_MASK)
qed

lemma ffs_loop_step:
  fixes n :: "'a::len word"
  shows "(\<forall>i < 2 ^ j. i < 64 \<longrightarrow> \<not> bit n i) \<Longrightarrow>
      ffs_loop n v (2 ^ Suc j div 2) = ffs_loop (drop_bit (2 ^ j) n) (v + 2 ^ j) (2 ^ j div 2)"
    and "\<not> (\<forall>i < 2 ^ j. i < 64 \<longrightarrow> \<not> bit n i) \<Longrightarrow>
      ffs_loop n v (2 ^ Suc j div 2) = ffs_loop n v (2 ^ j div 2)"
proof -
  have eq: "ffs_loop n v (2 ^ Suc j div 2) =
     (if ucast n AND BITOPS_LOWER_MASK (2 ^ j) = 0
      then ffs_loop (drop_bit (2 ^ j) n) (v + 2 ^ j) (2 ^ j div 2) else ffs_loop n v (2 ^ j div 2))"
    by (simp add: ffs_loop.simps [of n v "2 ^ j"])
  show "(\<forall>i < 2 ^ j. i < 64 \<longrightarrow> \<not> bit n i) \<Longrightarrow>
      ffs_loop n v (2 ^ Suc j div 2) = ffs_loop (drop_bit (2 ^ j) n) (v + 2 ^ j) (2 ^ j div 2)"
    unfolding eq lower_test by (rule if_P)
  show "\<not> (\<forall>i < 2 ^ j. i < 64 \<longrightarrow> \<not> bit n i) \<Longrightarrow>
      ffs_loop n v (2 ^ Suc j div 2) = ffs_loop n v (2 ^ j div 2)"
    unfolding eq lower_test by (rule if_not_P)
qed

lemma fls_loop_step:
  fixes n :: "'a::len word"
  assumes "2 ^ j \<le> LENGTH('a)" and "LENGTH('a) \<le> 64"
  shows "(\<forall>i \<ge> LENGTH('a) - 2 ^ j. \<not> bit n i) \<Longrightarrow> fls_loop LENGTH('a) n v (2 ^ Suc j div 2) =
        fls_loop LENGTH('a) (push_bit (2 ^ j) n) (v - 2 ^ j) (2 ^ j div 2)"
    and "\<not> (\<forall>i \<ge> LENGTH('a) - 2 ^ j. \<not> bit n i) \<Longrightarrow>
      fls_loop LENGTH('a) n v (2 ^ Suc j div 2) = fls_loop LENGTH('a) n v (2 ^ j div 2)"
proof -
  have eq: "fls_loop LENGTH('a) n v (2 ^ Suc j div 2) =
     (if ucast n AND BITOPS_UPPER_MASK LENGTH('a) (2 ^ j) = 0
      then fls_loop LENGTH('a) (push_bit (2 ^ j) n) (v - 2 ^ j) (2 ^ j div 2)
      else fls_loop LENGTH('a) n v (2 ^ j div 2))"
    by (simp add: fls_loop.simps [of "LENGTH('a)" n v "2 ^ j"])
  show "(\<forall>i \<ge> LENGTH('a) - 2 ^ j. \<not> bit n i) \<Longrightarrow> fls_loop LENGTH('a) n v (2 ^ Suc j div 2) =
        fls_loop LENGTH('a) (push_bit (2 ^ j) n) (v - 2 ^ j) (2 ^ j div 2)"
    unfolding eq upper_test [OF assms] by (rule if_P)
  show "\<not> (\<forall>i \<ge> LENGTH('a) - 2 ^ j. \<not> bit n i) \<Longrightarrow>
      fls_loop LENGTH('a) n v (2 ^ Suc j div 2) = fls_loop LENGTH('a) n v (2 ^ j div 2)"
    unfolding eq upper_test [OF assms] by (rule if_not_P)
qed

lemma ffs_loop_lowest:
  assumes "lowest n p" and "p < 2 ^ j" and "p < 64"
  shows "ffs_loop n v (2 ^ j div 2) = v + int p"
  using assms
proof (induction j arbitrary: n v p)
  case 0
  then show ?case by (simp add: ffs_loop.simps)
next
  case (Suc j)
  show ?case
  proof (cases "\<forall>i < 2 ^ j. i < 64 \<longrightarrow> \<not> bit n i")
    case True
    then have "2 ^ j \<le> p"
      using Suc.prems by (meson lowest_def not_le)
    moreover from this have "lowest (drop_bit (2 ^ j) n) (p - 2 ^ j)"
      using Suc.prems(1) by (auto simp: lowest_def bit_drop_bit_eq)
    ultimately have "ffs_loop (drop_bit (2 ^ j) n) (v + 2 ^ j) (2 ^ j div 2) =
        v + 2 ^ j + int (p - 2 ^ j)"
      using Suc.prems by (intro Suc.IH) auto
    with True \<open>2 ^ j \<le> p\<close> show ?thesis
      by (simp only: ffs_loop_step(1) [OF True]) (simp add: of_nat_diff)
  next
    case False
    then have "p < 2 ^ j"
      using Suc.prems(1) by (auto simp: lowest_def not_le intro: ccontr)
    then have "ffs_loop n v (2 ^ j div 2) = v + int p"
      using Suc.prems by (intro Suc.IH)
    with False show ?thesis
      by (simp only: ffs_loop_step(2) [OF False])
  qed
qed

lemma fls_loop_highest:
  fixes n :: "'a::len word"
  assumes "highest n p" and "LENGTH('a) - 1 - p < 2 ^ j" and "2 ^ j div 2 \<le> LENGTH('a)"
    and "LENGTH('a) \<le> 64"
  shows "fls_loop LENGTH('a) n v (2 ^ j div 2) = v - int (LENGTH('a) - 1 - p)"
  using assms
proof (induction j arbitrary: n v p)
  case 0
  then show ?case by (simp add: fls_loop.simps)
next
  case (Suc j)
  have b: "2 ^ j \<le> LENGTH('a)" and half: "(2 ^ j :: nat) div 2 \<le> LENGTH('a)"
    using Suc.prems(3) by (simp_all add: le_trans)
  have p: "p < LENGTH('a)"
    using Suc.prems(1) by (auto simp: highest_def dest: bit_imp_le_length)
  show ?case
  proof (cases "\<forall>i \<ge> LENGTH('a) - 2 ^ j. \<not> bit n i")
    case True
    then have less: "p < LENGTH('a) - 2 ^ j"
      using Suc.prems(1) by (auto simp: highest_def not_le intro: ccontr)
    moreover from this have "highest (push_bit (2 ^ j) n) (p + 2 ^ j)"
      using Suc.prems(1) by (auto simp: highest_def bit_push_bit_iff)
    ultimately have "fls_loop LENGTH('a) (push_bit (2 ^ j) n) (v - 2 ^ j) (2 ^ j div 2) =
        v - 2 ^ j - int (LENGTH('a) - 1 - (p + 2 ^ j))"
      using Suc.prems half by (intro Suc.IH) auto
    also have "\<dots> = v - int (LENGTH('a) - 1 - p)"
      using less by (simp add: of_nat_diff)
    finally show ?thesis
      by (simp only: fls_loop_step(1) [OF b Suc.prems(4) True])
  next
    case False
    then obtain i where "LENGTH('a) - 2 ^ j \<le> i" "bit n i" by blast
    then have "LENGTH('a) - 2 ^ j \<le> p"
      using Suc.prems(1) by (meson highest_def le_trans not_le)
    then have "LENGTH('a) - 1 - p < 2 ^ j"
      using p by linarith
    then have "fls_loop LENGTH('a) n v (2 ^ j div 2) = v - int (LENGTH('a) - 1 - p)"
      using Suc.prems half by (intro Suc.IH)
    then show ?thesis
      by (simp only: fls_loop_step(2) [OF b Suc.prems(4) False])
  qed
qed

lemma lowest_less: "lowest (n :: 'a::len word) p \<Longrightarrow> p < LENGTH('a)"
  by (auto simp: lowest_def dest: bit_imp_le_length)

lemma highest_less: "highest (n :: 'a::len word) p \<Longrightarrow> p < LENGTH('a)"
  by (auto simp: highest_def dest: bit_imp_le_length)

lemma lowest_nonzero: "lowest n p \<Longrightarrow> n \<noteq> 0" "highest n p \<Longrightarrow> n \<noteq> 0"
  by (auto simp: lowest_def highest_def)

lemma bitops_ffs_lowest:
  "lowest n16 p \<Longrightarrow> bitops_ffs16 n16 = int p + 1"
  "lowest n32 p \<Longrightarrow> bitops_ffs32 n32 = int p + 1"
  "lowest n64 p \<Longrightarrow> bitops_ffs64 n64 = int p + 1"
  using ffs_loop_lowest [of n16 p 4 1] ffs_loop_lowest [of n32 p 5 1] ffs_loop_lowest [of n64 p 6 1]
  by (auto simp: bitops_ffs16_def bitops_ffs32_def bitops_ffs64_def dest: lowest_less lowest_nonzero)

lemma bitops_fls_highest:
  "highest n16 p \<Longrightarrow> bitops_fls16 n16 = int p + 1"
  "highest n32 p \<Longrightarrow> bitops_fls32 n32 = int p + 1"
  "highest n64 p \<Longrightarrow> bitops_fls64 n64 = int p + 1"
proof -
  show "highest n16 p \<Longrightarrow> bitops_fls16 n16 = int p + 1"
    using fls_loop_highest [of n16 p 4 16] highest_less [of n16 p] lowest_nonzero(2) [of n16 p]
    by (auto simp: bitops_fls16_def of_nat_diff)
  show "highest n32 p \<Longrightarrow> bitops_fls32 n32 = int p + 1"
    using fls_loop_highest [of n32 p 5 32] highest_less [of n32 p] lowest_nonzero(2) [of n32 p]
    by (auto simp: bitops_fls32_def of_nat_diff)
  show "highest n64 p \<Longrightarrow> bitops_fls64 n64 = int p + 1"
    using fls_loop_highest [of n64 p 6 64] highest_less [of n64 p] lowest_nonzero(2) [of n64 p]
    by (auto simp: bitops_fls64_def of_nat_diff)
qed

lemma bitops_zero_iff:
  "bitops_ffs16 n16 = 0 \<longleftrightarrow> n16 = 0" "bitops_ffs32 n32 = 0 \<longleftrightarrow> n32 = 0" "bitops_ffs64 n64 = 0 \<longleftrightarrow> n64 = 0"
  "bitops_fls16 n16 = 0 \<longleftrightarrow> n16 = 0" "bitops_fls32 n32 = 0 \<longleftrightarrow> n32 = 0" "bitops_fls64 n64 = 0 \<longleftrightarrow> n64 = 0"
proof -
  note zero = bitops_ffs16_def bitops_ffs32_def bitops_ffs64_def bitops_fls16_def bitops_fls32_def bitops_fls64_def
  note pos = bitops_ffs_lowest bitops_fls_highest
  show "bitops_ffs16 n16 = 0 \<longleftrightarrow> n16 = 0" using ex_lowest [of n16] pos(1) [of n16] by (force simp: zero)
  show "bitops_ffs32 n32 = 0 \<longleftrightarrow> n32 = 0" using ex_lowest [of n32] pos(2) [of n32] by (force simp: zero)
  show "bitops_ffs64 n64 = 0 \<longleftrightarrow> n64 = 0" using ex_lowest [of n64] pos(3) [of n64] by (force simp: zero)
  show "bitops_fls16 n16 = 0 \<longleftrightarrow> n16 = 0" using ex_highest [of n16] pos(4) [of n16] by (force simp: zero)
  show "bitops_fls32 n32 = 0 \<longleftrightarrow> n32 = 0" using ex_highest [of n32] pos(5) [of n32] by (force simp: zero)
  show "bitops_fls64 n64 = 0 \<longleftrightarrow> n64 = 0" using ex_highest [of n64] pos(6) [of n64] by (force simp: zero)
qed

section \<open>A bitmap as a set of positions\<close>

definition bits_of :: "'a::len word list \<Rightarrow> nat set" where
  "bits_of v = {n. n < LENGTH('a) * length v \<and> bit (v ! (n div LENGTH('a))) (n mod LENGTH('a))}"

lemma bits_of_Nil [simp]: "bits_of [] = {}"
  by (simp add: bits_of_def)

lemma bits_of_Cons:
  fixes x :: "'a::len word"
  shows "n \<in> bits_of (x # xs) \<longleftrightarrow> (if n < LENGTH('a) then bit x n else n - LENGTH('a) \<in> bits_of xs)"
  by (auto simp: bits_of_def le_div_geq le_mod_geq not_less)

lemma bits_of_snoc:
  fixes x :: "'a::len word"
  shows "n \<in> bits_of (xs @ [x]) \<longleftrightarrow>
    n \<in> bits_of xs \<or> LENGTH('a) * length xs \<le> n \<and> bit x (n - LENGTH('a) * length xs)"
proof (induction xs arbitrary: n)
  case Nil
  then show ?case by (auto simp: bits_of_Cons dest: bit_imp_le_length)
next
  case (Cons y ys)
  show ?case
    using Cons.IH [of "n - LENGTH('a)"] by (auto simp: bits_of_Cons algebra_simps)
qed

definition least_bit :: "nat set \<Rightarrow> int \<Rightarrow> bool" where
  "least_bit B r \<longleftrightarrow> (if B = {} then r = 0 else \<exists>p \<in> B. (\<forall>m \<in> B. p \<le> m) \<and> r = int p + 1)"

definition greatest_bit :: "nat set \<Rightarrow> int \<Rightarrow> bool" where
  "greatest_bit B r \<longleftrightarrow> (if B = {} then r = 0 else \<exists>p \<in> B. (\<forall>m \<in> B. m \<le> p) \<and> r = int p + 1)"

lemma first_in_words_bits:
  fixes v :: "'a::len word list"
  assumes zero: "\<And>x. f x = 0 \<longleftrightarrow> x = 0" and low: "\<And>x p. lowest x p \<Longrightarrow> f x = int p + 1"
  shows "if bits_of v = {} then first_in_words f i v = 0
    else \<exists>p \<in> bits_of v. (\<forall>m \<in> bits_of v. p \<le> m) \<and>
      first_in_words f i v = int LENGTH('a) * int i + int p + 1"
proof (induction v arbitrary: i)
  case Nil
  then show ?case by simp
next
  case (Cons x xs)
  show ?case
  proof (cases "x = 0")
    case True
    then have mem: "n \<in> bits_of (x # xs) \<longleftrightarrow> LENGTH('a) \<le> n \<and> n - LENGTH('a) \<in> bits_of xs" for n
      by (auto simp: bits_of_Cons)
    then have shift: "n + LENGTH('a) \<in> bits_of (x # xs) \<longleftrightarrow> n \<in> bits_of xs" for n
      by simp
    have first: "first_in_words f i (x # xs) = first_in_words f (Suc i) xs"
      using True zero by simp
    show ?thesis
    proof (cases "bits_of xs = {}")
      case True
      with mem have "bits_of (x # xs) = {}" by auto
      with True Cons.IH [of "Suc i"] first show ?thesis by simp
    next
      case False
      with Cons.IH [of "Suc i"] obtain p where p: "p \<in> bits_of xs" "\<forall>m \<in> bits_of xs. p \<le> m"
        and "first_in_words f (Suc i) xs = int LENGTH('a) * int (Suc i) + int p + 1"
        by auto
      then have "first_in_words f i (x # xs) = int LENGTH('a) * int i + int (p + LENGTH('a)) + 1"
        using first by (simp add: algebra_simps)
      moreover have "\<forall>m \<in> bits_of (x # xs). p + LENGTH('a) \<le> m"
        using mem p(2) by (metis le_diff_conv2)
      moreover have "p + LENGTH('a) \<in> bits_of (x # xs)"
        using p(1) shift by blast
      ultimately show ?thesis by auto
    qed
  next
    case False
    then obtain p where p: "lowest x p" using ex_lowest by blast
    then have "p \<in> bits_of (x # xs)" and "\<forall>m \<in> bits_of (x # xs). p \<le> m"
      using lowest_less [OF p] by (auto simp: bits_of_Cons lowest_def not_less split: if_splits
          intro: ccontr)
    moreover have "first_in_words f i (x # xs) = int LENGTH('a) * int i + int p + 1"
      using False zero low [OF p] by (simp add: Let_def)
    ultimately show ?thesis by auto
  qed
qed

lemma least_bit_first:
  assumes "\<And>x. f x = 0 \<longleftrightarrow> x = 0" and "\<And>x p. lowest x p \<Longrightarrow> f x = int p + 1"
  shows "least_bit (bits_of v) (first_in_words f 0 v)"
  using first_in_words_bits [of f v 0, OF assms] by (auto simp: least_bit_def split: if_splits)

lemma greatest_bit_last:
  fixes v :: "'a::len word list"
  assumes zero: "\<And>x. f x = 0 \<longleftrightarrow> x = 0" and high: "\<And>x p. highest x p \<Longrightarrow> f x = int p + 1"
    and "k \<le> length v"
  shows "greatest_bit (bits_of (take k v)) (last_in_words f v k)"
  using assms(3)
proof (induction k)
  case 0
  then show ?case by (simp add: greatest_bit_def)
next
  case (Suc k)
  have take: "take (Suc k) v = take k v @ [v ! k]" and len: "length (take k v) = k"
    using Suc.prems by (simp_all add: take_Suc_conv_app_nth)
  have mem: "n \<in> bits_of (take (Suc k) v) \<longleftrightarrow>
      n \<in> bits_of (take k v) \<or> LENGTH('a) * k \<le> n \<and> bit (v ! k) (n - LENGTH('a) * k)" for n
    unfolding take bits_of_snoc len by simp
  show ?case
  proof (cases "v ! k = 0")
    case True
    then have "bits_of (take (Suc k) v) = bits_of (take k v)" using mem by auto
    with True Suc zero show ?thesis by simp
  next
    case False
    then obtain p where p: "highest (v ! k) p" using ex_highest by blast
    have "last_in_words f v (Suc k) = int (LENGTH('a) * k + p) + 1"
      using False zero high [OF p] by (simp add: Let_def)
    moreover have "LENGTH('a) * k + p \<in> bits_of (take (Suc k) v)"
      using p by (auto simp: mem highest_def)
    moreover have "\<forall>m \<in> bits_of (take (Suc k) v). m \<le> LENGTH('a) * k + p"
    proof
      fix m assume "m \<in> bits_of (take (Suc k) v)"
      then consider "m < LENGTH('a) * k" | "LENGTH('a) * k \<le> m" "bit (v ! k) (m - LENGTH('a) * k)"
        unfolding mem using len by (auto simp: bits_of_def)
      then show "m \<le> LENGTH('a) * k + p"
      proof cases
        case 2
        with p have "m - LENGTH('a) * k \<le> p" by (meson highest_def not_le)
        then show ?thesis by simp
      qed simp
    qed
    ultimately show ?thesis by (auto simp: greatest_bit_def)
  qed
qed

subsection \<open>Complement, setting and clearing\<close>

lemma bits_of_map_NOT:
  "bits_of (map NOT v) = {..<LENGTH('a) * length v} - bits_of (v :: 'a::len word list)"
proof -
  have "n div LENGTH('a) < length v" if "n < LENGTH('a) * length v" for n
    using that by (simp add: less_mult_imp_div_less mult.commute)
  then show ?thesis
    by (auto simp: bits_of_def bit_not_iff)
qed

lemma first_in_words_NOT: "first_in_words (\<lambda>x. f (NOT x)) i v = first_in_words f i (map NOT v)"
  by (induction v arbitrary: i) (auto simp: Let_def)

lemma last_in_words_NOT:
  "k \<le> length v \<Longrightarrow> last_in_words (\<lambda>x. f (NOT x)) v k = last_in_words f (map NOT v) k"
  by (induction k) (auto simp: Let_def)

lemma bitops_fls64_powers: "bitops_fls64 16 = 5" "bitops_fls64 32 = 6" "bitops_fls64 64 = 7"
  by (simp_all add: bitops_fls64_def fls_loop.simps BITOPS_UPPER_MASK_def BITOPS_LOWER_MASK_def)

lemma INDEX_OFFSET:
  fixes v :: "'a::len word list"
  assumes "LENGTH('a) \<in> {16, 32, 64}"
  shows "BITMAP_INDEX n v = n div LENGTH('a)" and "BITMAP_OFFSET n = (push_bit (n mod LENGTH('a)) 1 :: 'a word)"
proof -
  have "n AND 15 = n mod 16" "n AND 31 = n mod 32" "n AND 63 = n mod 64"
    using and_exp_eq_0_iff_not_bit take_bit_eq_mask [of 4 n] take_bit_eq_mask [of 5 n] take_bit_eq_mask [of 6 n]
    by (simp_all add: mask_eq_exp_minus_1 take_bit_eq_mod)
  then show "BITMAP_OFFSET n = (push_bit (n mod LENGTH('a)) 1 :: 'a word)"
    using assms by (auto simp: BITMAP_OFFSET_def)
  show "BITMAP_INDEX n v = n div LENGTH('a)"
    using assms by (auto simp: BITMAP_INDEX_def BITMAP_INDEX_SHIFT_def bitops_ilog2_def
        bitops_fls64_powers drop_bit_eq_div)
qed

lemma bit_OFFSET: "i < LENGTH('a) \<Longrightarrow> j < LENGTH('a) \<Longrightarrow> bit (push_bit j (1 :: 'a::len word)) i \<longleftrightarrow> i = j"
  by (auto simp: bit_simps)

lemma same_div_mod: "m div (w::nat) = n div w \<Longrightarrow> m mod w = n mod w \<Longrightarrow> m = n"
  by (metis div_mult_mod_eq)

lemma bits_of_set:
  fixes v :: "'a::len word list"
  assumes w: "LENGTH('a) \<in> {16, 32, 64}" and n: "n < LENGTH('a) * length v"
  shows "bits_of (bitops_set n v) = insert n (bits_of v)"
    and "bits_of (bitops_clr n v) = bits_of v - {n}"
    and "bitops_isset n v \<longleftrightarrow> n \<in> bits_of v"
proof -
  let ?W = "LENGTH('a)"
  have idx: "n div ?W < length v"
    using n by (simp add: less_mult_imp_div_less mult.commute)
  have off: "bit (push_bit (n mod ?W) (1 :: 'a word)) (m mod ?W) \<longleftrightarrow> m mod ?W = n mod ?W" for m
    by (rule bit_OFFSET) simp_all
  have upd: "bit (v[n div ?W := y] ! (m div ?W)) (m mod ?W) \<longleftrightarrow>
      (if m div ?W = n div ?W then bit y (m mod ?W) else bit (v ! (m div ?W)) (m mod ?W))" for m and y :: "'a word"
    using idx by (simp add: nth_list_update)
  have "bit (v[n div ?W := v ! (n div ?W) OR push_bit (n mod ?W) 1] ! (m div ?W)) (m mod ?W) \<longleftrightarrow>
      m = n \<or> bit (v ! (m div ?W)) (m mod ?W)" for m
    using same_div_mod [of m ?W n] unfolding upd bit_or_iff off by auto
  then show "bits_of (bitops_set n v) = insert n (bits_of v)"
    using n unfolding bits_of_def bitops_set_def INDEX_OFFSET [OF w] length_list_update by blast
  have "bit (v[n div ?W := v ! (n div ?W) AND NOT (push_bit (n mod ?W) 1)] ! (m div ?W)) (m mod ?W) \<longleftrightarrow>
      m \<noteq> n \<and> bit (v ! (m div ?W)) (m mod ?W)" for m
    using same_div_mod [of m ?W n] unfolding upd bit_and_iff bit_not_iff off by auto
  then show "bits_of (bitops_clr n v) = bits_of v - {n}"
    unfolding bits_of_def bitops_clr_def INDEX_OFFSET [OF w] length_list_update by blast
  have "v ! (n div ?W) AND push_bit (n mod ?W) 1 \<noteq> 0 \<longleftrightarrow> bit (v ! (n div ?W)) (n mod ?W)"
    by (simp add: and_exp_eq_0_iff_not_bit)
  then show "bitops_isset n v \<longleftrightarrow> n \<in> bits_of v"
    using n by (simp add: bits_of_def bitops_isset_def INDEX_OFFSET [OF w])
qed

lemma length_bitops [simp]: "length (bitops_set n v) = length v" "length (bitops_clr n v) = length v"
  "length (bitops_zero v) = length v"
  by (simp_all add: bitops_set_def bitops_clr_def bitops_zero_def)

lemma bits_of_zero [simp]: "bits_of (bitops_zero v) = {}"
  by (auto simp: bits_of_def bitops_zero_def less_mult_imp_div_less mult.commute)

section \<open>The contract of a bitmap\<close>

text \<open>
  \<open>wf c s\<close>: the bitmap \<open>s\<close> has \<open>c\<close> positions; \<open>bits s\<close> are the set ones. The first lemmas are
  what an allocator that takes the first clear position, or a scheduler that takes the first set
  one, needs.
\<close>

locale bitmap_ops =
  fixes wf :: "nat \<Rightarrow> 's \<Rightarrow> bool"
    and bits :: "'s \<Rightarrow> nat set"
    and set_bit :: "nat \<Rightarrow> 's \<Rightarrow> 's"
    and clr_bit :: "nat \<Rightarrow> 's \<Rightarrow> 's"
    and zero :: "'s \<Rightarrow> 's"
    and isset :: "nat \<Rightarrow> 's \<Rightarrow> bool"
    and ffs :: "'s \<Rightarrow> int"
    and ffc :: "'s \<Rightarrow> int"
  assumes bits_bound: "wf c s \<Longrightarrow> bits s \<subseteq> {..<c}"
    and set_bit: "wf c s \<Longrightarrow> n < c \<Longrightarrow> wf c (set_bit n s) \<and> bits (set_bit n s) = insert n (bits s)"
    and clr_bit: "wf c s \<Longrightarrow> n < c \<Longrightarrow> wf c (clr_bit n s) \<and> bits (clr_bit n s) = bits s - {n}"
    and zero: "wf c s \<Longrightarrow> wf c (zero s) \<and> bits (zero s) = {}"
    and isset: "wf c s \<Longrightarrow> n < c \<Longrightarrow> isset n s \<longleftrightarrow> n \<in> bits s"
    and ffs: "wf c s \<Longrightarrow> least_bit (bits s) (ffs s)"
    and ffc: "wf c s \<Longrightarrow> least_bit ({..<c} - bits s) (ffc s)"
begin

lemma ffs_zero: "wf c s \<Longrightarrow> ffs s = 0 \<longleftrightarrow> bits s = {}"
  using ffs [of c s] by (auto simp: least_bit_def split: if_splits)

lemma ffs_first:
  assumes "wf c s" and "ffs s \<noteq> 0"
  shows "nat (ffs s - 1) \<in> bits s \<and> nat (ffs s - 1) < c \<and> (\<forall>m \<in> bits s. nat (ffs s - 1) \<le> m)"
  using ffs [of c s] bits_bound [of c s] assms by (auto simp: least_bit_def split: if_splits)

lemma ffc_zero: "wf c s \<Longrightarrow> ffc s = 0 \<longleftrightarrow> bits s = {..<c}"
  using ffc [of c s] bits_bound [of c s] by (auto simp: least_bit_def split: if_splits)

lemma ffc_first:
  assumes "wf c s" and "ffc s \<noteq> 0"
  shows "nat (ffc s - 1) < c \<and> nat (ffc s - 1) \<notin> bits s"
  using ffc [of c s] assms by (auto simp: least_bit_def split: if_splits)

lemma take_first_clear:
  assumes "wf c s" and "ffc s \<noteq> 0"
  shows "bits (set_bit (nat (ffc s - 1)) s) = insert (nat (ffc s - 1)) (bits s) \<and>
    bits (clr_bit (nat (ffc s - 1)) (set_bit (nat (ffc s - 1)) s)) = bits s"
proof -
  let ?n = "nat (ffc s - 1)"
  have "?n < c" and new: "?n \<notin> bits s"
    using ffc_first [OF assms] by simp_all
  with set_bit [OF assms(1)] have "wf c (set_bit ?n s)" and eq: "bits (set_bit ?n s) = insert ?n (bits s)"
    by simp_all
  then have "bits (clr_bit ?n (set_bit ?n s)) = insert ?n (bits s) - {?n}"
    using clr_bit \<open>?n < c\<close> by metis
  with eq new show ?thesis by simp
qed

end

definition bitmap64 :: "nat \<Rightarrow> u64 list \<Rightarrow> bool" where
  "bitmap64 c v \<longleftrightarrow> 64 * length v = c"

lemma least_bit_ffs64: "least_bit (bits_of v) (bitops_ffs (BM64 v))"
  using least_bit_first [of bitops_ffs64] by (simp add: bitops_zero_iff bitops_ffs_lowest)

lemma least_bit_ffc64: "least_bit ({..<64 * length v} - bits_of v) (bitops_ffc (BM64 v))"
  using least_bit_first [of bitops_ffs64 "map NOT v"] bits_of_map_NOT [of v]
  by (simp add: bitops_zero_iff bitops_ffs_lowest first_in_words_NOT)

interpretation bm64: bitmap_ops bitmap64 bits_of bitops_set bitops_clr bitops_zero bitops_isset
  "\<lambda>v. bitops_ffs (BM64 v)" "\<lambda>v. bitops_ffc (BM64 v)"
  by unfold_locales
    (auto simp: bitmap64_def bits_of_set least_bit_ffs64 least_bit_ffc64 simp del: bitops_ffs.simps bitops_ffc.simps,
     auto simp: bits_of_def)

section \<open>Properties\<close>

text \<open>The logarithm of a number, rounded down; -1 for 0.\<close>

definition floor_log2 :: "nat \<Rightarrow> int \<Rightarrow> bool" where
  "floor_log2 m r \<longleftrightarrow> (if m = 0 then r = -1 else \<exists>k. r = int k \<and> 2 ^ k \<le> m \<and> m < 2 ^ (k + 1))"

lemma floor_log2_highest:
  fixes n :: "'a::len word"
  assumes "highest n p"
  shows "floor_log2 (unat n) (int p)"
proof -
  have top: "bit n p" "\<And>m. p < m \<Longrightarrow> \<not> bit n m" using assms by (auto simp: highest_def)
  have "take_bit (p + 1) n = n"
    using top(2) by (intro bit_word_eqI) (metis add.commute bit_take_bit_iff not_less_eq plus_1_eq_Suc)
  then have "unat n = take_bit (p + 1) (unat n)" by (metis unsigned_take_bit_eq)
  then have "unat n < 2 ^ (p + 1)" by (metis take_bit_nat_less_exp)
  moreover have "bit (unat n) p" using top(1) by (simp add: bit_unsigned_iff bit_imp_le_length)
  then have "odd (unat n div 2 ^ p)" by (simp add: bit_iff_odd)
  then have "unat n div 2 ^ p \<noteq> 0" by (metis even_zero)
  then have "2 ^ p \<le> unat n" by (metis div_less not_less)
  moreover have "n \<noteq> 0" using top(1) by auto
  ultimately show ?thesis by (auto simp: floor_log2_def)
qed

text \<open>
  C5: the bit searches of one word. For each width, \<open>bitops_ffs\<close> is one more than the lowest set
  bit and \<open>bitops_fls\<close> one more than the highest, and both are 0 exactly on the word 0: the
  halving search over masks of 64 bits is correct for every word of 16, 32 and 64 bits. The macro
  \<open>bitops_ilog2\<close> is the logarithm rounded down at each width, and -1 for 0.
\<close>

theorem word_searches_correct:
  "least_bit {i. bit n16 i} (bitops_ffs16 n16) \<and> greatest_bit {i. bit n16 i} (bitops_fls16 n16) \<and>
   least_bit {i. bit n32 i} (bitops_ffs32 n32) \<and> greatest_bit {i. bit n32 i} (bitops_fls32 n32) \<and>
   least_bit {i. bit n64 i} (bitops_ffs64 n64) \<and> greatest_bit {i. bit n64 i} (bitops_fls64 n64) \<and>
   floor_log2 (unat n16) (bitops_ilog2_16 n16) \<and> floor_log2 (unat n32) (bitops_ilog2_32 n32) \<and>
   floor_log2 (unat n64) (bitops_ilog2 n64)"
proof -
  have least: "least_bit {i. bit n i} (f n)"
    if "f n = 0 \<longleftrightarrow> n = 0" "\<And>p. lowest n p \<Longrightarrow> f n = int p + 1" for f and n :: "'b::len word"
    using that ex_lowest [of n] by (fastforce simp: least_bit_def lowest_def not_less intro: ccontr)
  have greatest: "greatest_bit {i. bit n i} (f n)"
    if "f n = 0 \<longleftrightarrow> n = 0" "\<And>p. highest n p \<Longrightarrow> f n = int p + 1" for f and n :: "'b::len word"
    using that ex_highest [of n] by (fastforce simp: greatest_bit_def highest_def not_less intro: ccontr)
  have log: "floor_log2 (unat n) (f n - 1)"
    if "f n = 0 \<longleftrightarrow> n = 0" "\<And>p. highest n p \<Longrightarrow> f n = int p + 1" for f and n :: "'b::len word"
  proof (cases "n = 0")
    case False
    then obtain p where "highest n p" using ex_highest by blast
    with that(2) floor_log2_highest show ?thesis by fastforce
  qed (use that(1) in \<open>simp add: floor_log2_def\<close>)
  show ?thesis
    unfolding bitops_ilog2_def bitops_ilog2_32_def bitops_ilog2_16_def
    by (intro conjI; rule least greatest log)
      (simp_all add: bitops_zero_iff bitops_ffs_lowest bitops_fls_highest)
qed

lemma bits_least_greatest:
  fixes v :: "'a::len word list"
  assumes "\<And>x. f x = 0 \<longleftrightarrow> x = 0" and "\<And>x p. lowest x p \<Longrightarrow> f x = int p + 1"
    and "\<And>x. g x = 0 \<longleftrightarrow> x = 0" and "\<And>x p. highest x p \<Longrightarrow> g x = int p + 1"
  shows "least_bit (bits_of v) (first_in_words f 0 v)"
    and "greatest_bit (bits_of v) (last_in_words g v (length v))"
    and "least_bit ({..<LENGTH('a) * length v} - bits_of v) (first_in_words (\<lambda>x. f (NOT x)) 0 v)"
    and "greatest_bit ({..<LENGTH('a) * length v} - bits_of v) (last_in_words (\<lambda>x. g (NOT x)) v (length v))"
  using least_bit_first [of f v, OF assms(1,2)] greatest_bit_last [of g "length v" v, OF assms(3,4)]
    least_bit_first [of f "map NOT v", OF assms(1,2)]
    greatest_bit_last [of g "length (map NOT v)" "map NOT v", OF assms(3,4)]
  by (simp_all add: bits_of_map_NOT first_in_words_NOT last_in_words_NOT)

text \<open>
  C6: the searches of a bitmap. On a bitmap of any of the three element types \<open>bitops_ffs\<close>
  and \<open>bitops_fls\<close> are one more than the least and the greatest set position over the whole
  array, \<open>bitops_ffc\<close> and \<open>bitops_flc\<close> the same of the clear positions, and each is 0 exactly
  when there is no such position.
\<close>

theorem bitmap_searches_correct:
  "least_bit (bits_of v64) (bitops_ffs (BM64 v64)) \<and> greatest_bit (bits_of v64) (bitops_fls (BM64 v64)) \<and>
   least_bit ({..<64 * length v64} - bits_of v64) (bitops_ffc (BM64 v64)) \<and>
   greatest_bit ({..<64 * length v64} - bits_of v64) (bitops_flc (BM64 v64)) \<and>
   least_bit (bits_of v32) (bitops_ffs (BM32 v32)) \<and> greatest_bit (bits_of v32) (bitops_fls (BM32 v32)) \<and>
   least_bit ({..<32 * length v32} - bits_of v32) (bitops_ffc (BM32 v32)) \<and>
   greatest_bit ({..<32 * length v32} - bits_of v32) (bitops_flc (BM32 v32)) \<and>
   least_bit (bits_of v16) (bitops_ffs (BM16 v16)) \<and> greatest_bit (bits_of v16) (bitops_fls (BM16 v16)) \<and>
   least_bit ({..<16 * length v16} - bits_of v16) (bitops_ffc (BM16 v16)) \<and>
   greatest_bit ({..<16 * length v16} - bits_of v16) (bitops_flc (BM16 v16))"
  using bits_least_greatest [OF bitops_zero_iff(3) bitops_ffs_lowest(3) bitops_zero_iff(6) bitops_fls_highest(3), of v64]
    bits_least_greatest [OF bitops_zero_iff(2) bitops_ffs_lowest(2) bitops_zero_iff(5) bitops_fls_highest(2), of v32]
    bits_least_greatest [OF bitops_zero_iff(1) bitops_ffs_lowest(1) bitops_zero_iff(4) bitops_fls_highest(1), of v16]
  by simp

lemma bits_of_fill:
  fixes v :: "'a::len word list"
  shows "bits_of (bitops_fill v) = {..<LENGTH('a) * length v}"
  by (auto simp: bits_of_def bitops_fill_def less_mult_imp_div_less mult.commute bit_not_iff)

lemma bitmap_length:
  "length (bitops_set n v) = length v" "length (bitops_clr n v) = length v"
  "length (bitops_zero v) = length v" "length (bitops_fill v) = length v"
  by (simp_all add: bitops_set_def bitops_clr_def bitops_zero_def bitops_fill_def)

text \<open>
  C7: setting and clearing. On a 64-bit bitmap and a position inside it, \<open>bitops_set\<close> adds the
  position, \<open>bitops_clr\<close> removes it, \<open>bitops_isset\<close> tests it, \<open>bitops_zero\<close> removes all and
  \<open>bitops_fill\<close> sets all; no other position changes and the length stays. Taking the first clear position (\<open>bitops_ffc\<close>, \<open>bitops_set\<close>) and
  clearing it again is the identity on the set.
\<close>

theorem bitmap_updates:
  assumes "n < 64 * length v"
  shows "bits_of (bitops_set n v) = insert n (bits_of v) \<and>
    bits_of (bitops_clr n v) = bits_of v - {n} \<and>
    (bitops_isset n v \<longleftrightarrow> n \<in> bits_of v) \<and> bits_of (bitops_zero v) = {} \<and>
    bits_of (bitops_fill v) = {..<64 * length v} \<and>
    length (bitops_set n v) = length v \<and> length (bitops_clr n v) = length v \<and>
    length (bitops_zero v) = length v \<and> length (bitops_fill v) = length v \<and>
    (bitops_is_empty (BM64 v) \<longleftrightarrow> bits_of v = {}) \<and>
    (let k = nat (bitops_ffc (BM64 v) - 1)
     in bitops_ffc (BM64 v) = 0 \<or> k \<notin> bits_of v \<and> bits_of (bitops_clr k (bitops_set k v)) = bits_of v)"
proof -
  have wf: "bitmap64 (64 * length v) v"
    by (simp add: bitmap64_def)
  show ?thesis
    using bm64.set_bit [OF wf assms] bm64.clr_bit [OF wf assms] bm64.isset [OF wf assms]
      bm64.ffs_zero [OF wf] bm64.ffc_first [OF wf] bm64.take_first_clear [OF wf]
    unfolding bitmap_length bits_of_fill
    by (simp add: bitops_is_empty_def Let_def del: bitops_ffs.simps bitops_ffc.simps) blast
qed

theorem bitmap_updates_witness:
  "bits_of (bitops_set 70 [0, 1 :: u64]) = insert 70 (bits_of [0, 1 :: u64]) \<and>
   bits_of (bitops_clr 70 [0, 1 :: u64]) = bits_of [0, 1 :: u64] - {70}"
proof -
  have inside: "70 < 64 * length [0, 1 :: u64]" by simp
  from bitmap_updates [OF inside] show ?thesis by (elim conjE, intro conjI)
qed

lemma nth_map2_take:
  "i < min (length xs) (length ys) \<Longrightarrow> map2 f xs ys ! i = f (xs ! i) (ys ! i)"
  by simp

lemma bits_of_zip:
  fixes v1 v2 out :: "'a::len word list"
  assumes "length v1 = length out" and "length v2 = length out"
    and "\<And>x y i. i < LENGTH('a) \<Longrightarrow> bit (f x y) i \<longleftrightarrow> g (bit (x :: 'a word) i) (bit (y :: 'a word) i)"
  shows "bits_of (bitops_zip f v1 v2 out) =
    {n. n < LENGTH('a) * length out \<and> g (n \<in> bits_of v1) (n \<in> bits_of v2)}"
  using assms by (auto simp: bits_of_def bitops_zip_def Let_def less_mult_imp_div_less mult.commute)

lemma words_equal_iff: "length v1 = length v2 \<Longrightarrow> words_equal v1 v2 \<longleftrightarrow> v1 = v2"
  by (induction v1 v2 rule: list_induct2) auto

text \<open>
  The algebra of bitmaps of one size. \<open>bitops_and\<close>, \<open>bitops_or\<close> and \<open>bitops_xor\<close> are
  intersection, union and symmetric difference of the sets of positions, \<open>bitops_inv\<close> is the
  complement, \<open>bitops_copy\<close> copies, and \<open>bitops_eq\<close> holds exactly for equal bitmaps (of any two
  sizes).
\<close>

theorem bitmap_algebra:
  fixes v1 v2 out :: "'a::len word list"
  assumes "length v1 = length out" and "length v2 = length out"
  shows "bits_of (bitops_and v1 v2 out) = bits_of v1 \<inter> bits_of v2 \<and>
    bits_of (bitops_or v1 v2 out) = bits_of v1 \<union> bits_of v2 \<and>
    bits_of (bitops_xor v1 v2 out) = (bits_of v1 - bits_of v2) \<union> (bits_of v2 - bits_of v1) \<and>
    bits_of (bitops_inv v1 out) = {..<LENGTH('a) * length v1} - bits_of v1 \<and>
    bitops_copy out v1 = v1 \<and> (bitops_eq v1 w \<longleftrightarrow> v1 = w)"
proof -
  have bound: "bits_of v \<subseteq> {..<LENGTH('a) * length v}" for v :: "'a word list"
    by (auto simp: bits_of_def)
  show ?thesis
    using assms bound [of v1] bound [of v2]
      bits_of_zip [OF assms, of "(AND)" "(\<and>)"] bits_of_zip [OF assms, of "(OR)" "(\<or>)"]
      bits_of_zip [OF assms, of "(XOR)" "(\<noteq>)"]
    by (auto simp: bitops_and_def bitops_or_def bitops_xor_def bitops_inv_def bitops_copy_def
        bitops_eq_def words_equal_iff bits_of_map_NOT bit_and_iff bit_or_iff bit_xor_iff)
qed

theorem bitmap_algebra_witness:
  "bits_of (bitops_and [12, 3] [10, 1] [0, 0 :: u64]) = bits_of [12, 3 :: u64] \<inter> bits_of [10, 1 :: u64] \<and>
   (bitops_eq [12, 3] [12, 3 :: u64] \<longleftrightarrow> [12, 3] = [12, 3 :: u64])"
proof -
  have lengths: "length [12, 3 :: u64] = length [0, 0 :: u64]" "length [10, 1 :: u64] = length [0, 0 :: u64]"
    by simp_all
  from bitmap_algebra [OF lengths, of "[12, 3]"] show ?thesis by (elim conjE, intro conjI)
qed

end
