(* ===== verification/Spinlock.thy ===== *)
theory Spinlock
  imports Prelude
begin

unbundle bit_operations_syntax

text \<open>
  Interrupt masking of a CPU and spinlocks (kern/cpuintr.c, kern/spinlock.c with the RISC-V
  layer hal/riscv64/rv64-cpuintr.c, hal/riscv64/rv64-spinlock.c and rv64-xchg.S). The build has no
  \<open>CONFIG_CHECK_SPINLOCKS\<close> option, so the functions of the \<open>#else\<close> branch are modelled, and
  \<open>CONFIG_HAL\<close> is the kernel build. The back trace a lock records is written for a debugger and
  never read by the code: it is left out of the record.

  Taking a lock that is held spins for ever on one CPU: the loop is a partial function whose
  value is then \<open>None\<close>. The step relation \<open>smp_step\<close> runs the same atomic exchanges interleaved
  on any number of CPUs.
\<close>

section \<open>The interrupt mask of a CPU\<close>

type_synonym intrflags = u64

record cpu =
  sstatus :: u64
  sie :: u64

definition SSTATUS_SIE :: u64 where
  "SSTATUS_SIE = push_bit 1 1"

definition SIE_SEIE :: u64 where
  "SIE_SEIE = push_bit 9 1"

definition rv64_cpu_disable_interrupt :: "cpu \<Rightarrow> cpu" where
  "rv64_cpu_disable_interrupt c = c\<lparr>sstatus := sstatus c AND NOT SSTATUS_SIE\<rparr>"

definition rv64_cpu_enable_interrupt :: "cpu \<Rightarrow> cpu" where
  "rv64_cpu_enable_interrupt c =
     (let c1 = c\<lparr>sie := sie c OR SIE_SEIE\<rparr>
      in c1\<lparr>sstatus := sstatus c1 OR SSTATUS_SIE\<rparr>)"

definition rv64_cpu_restore_flags :: "intrflags \<Rightarrow> cpu \<Rightarrow> cpu" where
  "rv64_cpu_restore_flags iflags c =
     (let cur = sstatus c AND NOT SSTATUS_SIE
      in c\<lparr>sstatus := cur OR (iflags AND SSTATUS_SIE)\<rparr>)"

definition rv64_cpu_save_flags :: "cpu \<Rightarrow> intrflags" where
  "rv64_cpu_save_flags c = sstatus c"

definition hal_intrflags_interrupt_disabled :: "intrflags \<Rightarrow> bool" where
  "hal_intrflags_interrupt_disabled iflags \<longleftrightarrow> iflags AND SSTATUS_SIE = 0"

definition hal_cpu_save_interrupt :: "cpu \<Rightarrow> intrflags" where
  "hal_cpu_save_interrupt c = rv64_cpu_save_flags c"

definition hal_cpu_restore_interrupt :: "intrflags \<Rightarrow> cpu \<Rightarrow> cpu" where
  "hal_cpu_restore_interrupt iflags c = rv64_cpu_restore_flags iflags c"

definition hal_cpu_disable_interrupt :: "cpu \<Rightarrow> cpu" where
  "hal_cpu_disable_interrupt c = rv64_cpu_disable_interrupt c"

definition hal_cpu_enable_interrupt :: "cpu \<Rightarrow> cpu" where
  "hal_cpu_enable_interrupt c = rv64_cpu_enable_interrupt c"

definition hal_cpu_interrupt_disabled :: "cpu \<Rightarrow> bool" where
  "hal_cpu_interrupt_disabled c \<longleftrightarrow> hal_intrflags_interrupt_disabled (rv64_cpu_save_flags c)"

lemmas hal_cpu_defs [simp] =
  hal_cpu_save_interrupt_def hal_cpu_restore_interrupt_def hal_cpu_disable_interrupt_def
  hal_cpu_enable_interrupt_def hal_cpu_interrupt_disabled_def

definition krn_cpu_save_and_disable_interrupt :: "cpu \<Rightarrow> intrflags \<times> cpu" where
  "krn_cpu_save_and_disable_interrupt c = (hal_cpu_save_interrupt c, hal_cpu_disable_interrupt c)"

definition krn_cpu_restore_interrupt :: "intrflags \<Rightarrow> cpu \<Rightarrow> cpu" where
  "krn_cpu_restore_interrupt iflags c = hal_cpu_restore_interrupt iflags c"

definition krn_cpu_disable_interrupt :: "cpu \<Rightarrow> cpu" where
  "krn_cpu_disable_interrupt c = hal_cpu_disable_interrupt c"

definition krn_cpu_enable_interrupt :: "cpu \<Rightarrow> cpu" where
  "krn_cpu_enable_interrupt c = hal_cpu_enable_interrupt c"

definition krn_cpu_interrupt_disabled :: "cpu \<Rightarrow> bool" where
  "krn_cpu_interrupt_disabled c \<longleftrightarrow> hal_cpu_interrupt_disabled c"

section \<open>Spinlocks\<close>

definition SPINLOCK_TYPE_NORMAL :: u32 where
  "SPINLOCK_TYPE_NORMAL = 0"

definition SPINLOCK_TYPE_RECURSIVE :: u32 where
  "SPINLOCK_TYPE_RECURSIVE = 1"

record spinlock =
  locked :: u32
  lock_type :: u32
  depth :: u32
  owner :: "nat option"

definition rv64_xchg :: "u32 \<Rightarrow> spinlock \<Rightarrow> u32 \<times> spinlock" where
  "rv64_xchg newval l = (locked l, l\<lparr>locked := newval\<rparr>)"

partial_function (option) hal_spinlock_lock :: "spinlock \<Rightarrow> spinlock option" where
  "hal_spinlock_lock l =
     (let (old, l') = rv64_xchg 1 l
      in if old \<noteq> 0 then hal_spinlock_lock l' else Some l')"

definition hal_spinlock_unlock :: "spinlock \<Rightarrow> spinlock" where
  "hal_spinlock_unlock l = snd (rv64_xchg 0 l)"

definition check_recursive_locked :: "spinlock \<Rightarrow> bool" where
  "check_recursive_locked l = False"

definition spinlock_locked_by_self :: "spinlock \<Rightarrow> bool" where
  "spinlock_locked_by_self l \<longleftrightarrow> locked l \<noteq> 0"

definition spinlock_init :: "spinlock" where
  "spinlock_init = \<lparr>locked = 0, lock_type = SPINLOCK_TYPE_NORMAL, depth = 0, owner = None\<rparr>"

definition spinlock_raw_lock :: "spinlock \<Rightarrow> spinlock option" where
  "spinlock_raw_lock l = do {
     kassert (lock_type l AND SPINLOCK_TYPE_RECURSIVE \<noteq> 0 \<or> \<not> check_recursive_locked l);
     l' \<leftarrow> hal_spinlock_lock l;
     Some (l'\<lparr>depth := depth l' + 1\<rparr>)
   }"

definition spinlock_raw_unlock :: "spinlock \<Rightarrow> spinlock option" where
  "spinlock_raw_unlock l = do {
     kassert (lock_type l AND SPINLOCK_TYPE_RECURSIVE \<noteq> 0 \<or> depth l = 1);
     Some (hal_spinlock_unlock (l\<lparr>depth := depth l - 1\<rparr>))
   }"

definition spinlock_lock :: "spinlock \<Rightarrow> spinlock option" where
  "spinlock_lock l = spinlock_raw_lock l"

definition spinlock_unlock :: "spinlock \<Rightarrow> spinlock option" where
  "spinlock_unlock l = spinlock_raw_unlock l"

definition spinlock_raw_lock_disable_intr :: "spinlock \<Rightarrow> cpu \<Rightarrow> (intrflags \<times> spinlock \<times> cpu) option" where
  "spinlock_raw_lock_disable_intr l c = do {
     let (flags, c') = krn_cpu_save_and_disable_interrupt c;
     l' \<leftarrow> spinlock_raw_lock l;
     Some (flags, l', c')
   }"

definition spinlock_raw_unlock_restore_intr :: "intrflags \<Rightarrow> spinlock \<Rightarrow> cpu \<Rightarrow> (spinlock \<times> cpu) option" where
  "spinlock_raw_unlock_restore_intr flags l c = do {
     l' \<leftarrow> spinlock_raw_unlock l;
     Some (l', krn_cpu_restore_interrupt flags c)
   }"

definition spinlock_lock_disable_intr :: "spinlock \<Rightarrow> cpu \<Rightarrow> (intrflags \<times> spinlock \<times> cpu) option" where
  "spinlock_lock_disable_intr l c = do {
     let (iflags, c') = krn_cpu_save_and_disable_interrupt c;
     l' \<leftarrow> spinlock_lock l;
     Some (iflags, l', c')
   }"

definition spinlock_unlock_restore_intr :: "intrflags \<Rightarrow> spinlock \<Rightarrow> cpu \<Rightarrow> (spinlock \<times> cpu) option" where
  "spinlock_unlock_restore_intr iflags l c = do {
     l' \<leftarrow> spinlock_unlock l;
     Some (l', krn_cpu_restore_interrupt iflags c)
   }"

section \<open>What the operations do\<close>

text \<open>A lock that nobody holds, and the lock after it has been taken.\<close>

definition lock_free :: "spinlock \<Rightarrow> bool" where
  "lock_free l \<longleftrightarrow> locked l = 0 \<and> depth l = 0"

definition lock_taken :: "spinlock \<Rightarrow> spinlock" where
  "lock_taken l = l\<lparr>locked := 1, depth := 1\<rparr>"

declare hal_spinlock_lock.simps [code]

lemma hal_spinlock_lock_Some:
  "hal_spinlock_lock l = Some l' \<Longrightarrow> locked l = 0 \<and> l' = l\<lparr>locked := 1\<rparr>"
  by (rule hal_spinlock_lock.raw_induct [where P = "\<lambda>l l'. locked l = 0 \<and> l' = l\<lparr>locked := 1\<rparr>"])
    (fastforce simp: rv64_xchg_def split: if_splits)+

lemma hal_spinlock_lock_eq [simp]:
  "hal_spinlock_lock l = (if locked l = 0 then Some (l\<lparr>locked := 1\<rparr>) else None)"
proof (cases "locked l = 0")
  case True
  then show ?thesis by (subst hal_spinlock_lock.simps) (simp add: rv64_xchg_def)
next
  case False
  then show ?thesis using hal_spinlock_lock_Some by (cases "hal_spinlock_lock l") auto
qed

lemma spinlock_raw_lock_free [simp]: "lock_free l \<Longrightarrow> spinlock_raw_lock l = Some (lock_taken l)"
  by (simp add: spinlock_raw_lock_def check_recursive_locked_def lock_free_def lock_taken_def)

lemma spinlock_raw_lock_held: "locked l \<noteq> 0 \<Longrightarrow> spinlock_raw_lock l = None"
  by (simp add: spinlock_raw_lock_def check_recursive_locked_def)

lemma spinlock_raw_unlock_taken [simp]: "lock_free l \<Longrightarrow> spinlock_raw_unlock (lock_taken l) = Some l"
  by (simp add: spinlock_raw_unlock_def hal_spinlock_unlock_def rv64_xchg_def lock_free_def
      lock_taken_def)

lemma locked_lock_taken [simp]: "locked (lock_taken l) = 1"
  by (simp add: lock_taken_def)

lemma lock_taken_held [simp]: "spinlock_locked_by_self (lock_taken l)"
  by (simp add: spinlock_locked_by_self_def lock_taken_def)

lemma lock_init_free [simp]: "lock_free spinlock_init"
  by (simp add: lock_free_def spinlock_init_def)

lemma lock_disable_intr_free [simp]:
  "lock_free l \<Longrightarrow>
   spinlock_lock_disable_intr l c = Some (sstatus c, lock_taken l, rv64_cpu_disable_interrupt c)"
  by (simp add: spinlock_lock_disable_intr_def spinlock_lock_def
      krn_cpu_save_and_disable_interrupt_def rv64_cpu_save_flags_def)

lemma unlock_restore_intr_taken [simp]:
  "lock_free l \<Longrightarrow>
   spinlock_unlock_restore_intr iflags (lock_taken l) c = Some (l, rv64_cpu_restore_flags iflags c)"
  by (simp add: spinlock_unlock_restore_intr_def spinlock_unlock_def krn_cpu_restore_interrupt_def)

lemma restore_after_disable [simp]:
  "rv64_cpu_restore_flags (sstatus c) (rv64_cpu_disable_interrupt c) = c"
proof -
  have "(x AND NOT m AND NOT m) OR (x AND m) = x" for x m :: u64
    by (rule bit_eqI) (auto simp: bit_simps)
  then show ?thesis
    by (simp add: rv64_cpu_restore_flags_def rv64_cpu_disable_interrupt_def Let_def)
qed

lemma restore_disabled [simp]:
  "rv64_cpu_restore_flags (sstatus (rv64_cpu_disable_interrupt c)) c' = rv64_cpu_disable_interrupt c'"
proof -
  have masked: "(x AND NOT m) AND m = 0" for x m :: u64
    by (rule bit_eqI) (auto simp: bit_simps)
  show ?thesis
    by (simp add: masked rv64_cpu_restore_flags_def rv64_cpu_disable_interrupt_def Let_def)
qed

lemma disable_idem [simp]:
  "rv64_cpu_disable_interrupt (rv64_cpu_disable_interrupt c) = rv64_cpu_disable_interrupt c"
  by (simp add: rv64_cpu_disable_interrupt_def and.assoc)

lemma restore_disable_twice [simp]:
  "rv64_cpu_restore_flags f (rv64_cpu_restore_flags g c) = rv64_cpu_restore_flags f c"
proof -
  have "(((x AND NOT m) OR (g AND m)) AND NOT m) OR (f AND m) = (x AND NOT m) OR (f AND m)" for x m :: u64
    by (rule bit_eqI) (auto simp: bit_simps)
  then show ?thesis
    by (simp add: rv64_cpu_restore_flags_def Let_def)
qed

lemma bit_SSTATUS_SIE: "bit SSTATUS_SIE n \<longleftrightarrow> n = 1"
  by (auto simp: SSTATUS_SIE_def bit_simps)

lemma interrupt_disabled_iff: "krn_cpu_interrupt_disabled c \<longleftrightarrow> \<not> bit (sstatus c) 1"
proof -
  have "bit (sstatus c AND SSTATUS_SIE) n \<longleftrightarrow> n = 1 \<and> bit (sstatus c) 1" for n
    by (auto simp: bit_and_iff bit_SSTATUS_SIE)
  then have "sstatus c AND SSTATUS_SIE = 0 \<longleftrightarrow> \<not> bit (sstatus c) 1"
    by (metis bit_0_eq bot_apply bot_bool_def bit_eqI)
  then show ?thesis
    by (simp add: krn_cpu_interrupt_disabled_def hal_intrflags_interrupt_disabled_def
        rv64_cpu_save_flags_def)
qed

lemma interrupt_disabled_simps [simp]:
  "krn_cpu_interrupt_disabled (rv64_cpu_disable_interrupt c)"
  "\<not> krn_cpu_interrupt_disabled (rv64_cpu_enable_interrupt c)"
  "krn_cpu_interrupt_disabled (rv64_cpu_restore_flags f c) \<longleftrightarrow> \<not> bit f 1"
  by (simp_all add: interrupt_disabled_iff rv64_cpu_disable_interrupt_def Let_def
      rv64_cpu_enable_interrupt_def rv64_cpu_restore_flags_def bit_and_iff bit_or_iff bit_not_iff
      bit_SSTATUS_SIE)

section \<open>A state with a lock\<close>

text \<open>
  The interface of a component whose state is guarded by one spinlock that is taken with interrupts
  masked: \<open>enter\<close> and \<open>leave\<close> are the pair of \<open>spinlock_lock_disable_intr\<close> and
  \<open>spinlock_unlock_restore_intr\<close> on the lock in the state. A critical section whose body neither
  reads nor changes the lock and the mask is the body, and leaves the lock free again.
\<close>

locale locked_state =
  fixes lock_of :: "'s \<Rightarrow> spinlock"
    and mask_of :: "'s \<Rightarrow> cpu"
    and put :: "spinlock \<Rightarrow> cpu \<Rightarrow> 's \<Rightarrow> 's"
    and enter :: "'s \<Rightarrow> (intrflags \<times> 's) option"
    and leave :: "intrflags \<Rightarrow> 's \<Rightarrow> 's option"
  assumes enter_code: "enter s =
      do { (f, l, c) \<leftarrow> spinlock_lock_disable_intr (lock_of s) (mask_of s); Some (f, put l c s) }"
    and leave_code: "leave f s =
      do { (l, c) \<leftarrow> spinlock_unlock_restore_intr f (lock_of s) (mask_of s); Some (put l c s) }"
    and lock_put: "lock_of (put l c s) = l"
    and mask_put: "mask_of (put l c s) = c"
    and put_same: "put (lock_of s) (mask_of s) s = s"
    and put_put: "put l c (put l' c' s) = put l c s"
begin

lemma enter_free:
  "lock_free (lock_of s) \<Longrightarrow>
   enter s = Some (sstatus (mask_of s), put (lock_taken (lock_of s)) (rv64_cpu_disable_interrupt (mask_of s)) s)"
  by (simp add: enter_code)

lemma leave_taken:
  "lock_free l \<Longrightarrow> leave f (put (lock_taken l) c s) = Some (put l (rv64_cpu_restore_flags f c) s)"
  by (simp add: leave_code lock_put mask_put put_put)

lemma leave_entered:
  assumes "lock_free (lock_of s)" and "lock_of s' = lock_of s" and "mask_of s' = mask_of s"
  shows "leave (sstatus (mask_of s)) (put (lock_taken (lock_of s)) (rv64_cpu_disable_interrupt (mask_of s)) s') = Some s'"
  using leave_taken [OF assms(1)] put_same [of s'] assms(2,3) by simp

lemma critical_section:
  assumes free: "lock_free (lock_of s)"
    and body: "\<And>l c. b (put l c s) = map_option (\<lambda>(r, s'). (r, put l c s')) (b s)"
    and keeps: "\<And>r s'. b s = Some (r, s') \<Longrightarrow> lock_of s' = lock_of s \<and> mask_of s' = mask_of s"
  shows "do { (f, s1) \<leftarrow> enter s; (r, s2) \<leftarrow> b s1; s3 \<leftarrow> leave f s2; Some (r, s3) } = b s"
proof (cases "b s")
  case None
  then show ?thesis using enter_free [OF free] body by simp
next
  case (Some rs)
  then obtain r s' where rs: "b s = Some (r, s')" by (cases rs) auto
  with keeps leave_entered [OF free] body enter_free [OF free] show ?thesis by simp
qed

end

section \<open>Several CPUs contending for one lock\<close>

text \<open>
  Each CPU runs \<open>spinlock_raw_lock\<close>, its critical section and \<open>spinlock_raw_unlock\<close> over and
  over. A step of one CPU is one access to the lock: the exchange of \<open>hal_spinlock_lock\<close>, the
  increment of the depth, the check and the decrement of the depth, the exchange of
  \<open>hal_spinlock_unlock\<close>. A failed check stops the CPU.
\<close>

datatype phase = Idle | Spinning | Taken | Critical | Leaving | Stopped

record smp =
  smp_lock :: spinlock
  phases :: "nat \<Rightarrow> phase"

inductive smp_step :: "smp \<Rightarrow> smp \<Rightarrow> bool" where
  enter: "phases s c = Idle \<Longrightarrow> smp_step s (s\<lparr>phases := (phases s)(c := Spinning)\<rparr>)"
| exchange: "phases s c = Spinning \<Longrightarrow> rv64_xchg 1 (smp_lock s) = (old, l') \<Longrightarrow>
    smp_step s (s\<lparr>smp_lock := l', phases := (phases s)(c := if old \<noteq> 0 then Spinning else Taken)\<rparr>)"
| deepen: "phases s c = Taken \<Longrightarrow> l = smp_lock s \<Longrightarrow>
    smp_step s (s\<lparr>smp_lock := l\<lparr>depth := depth l + 1\<rparr>, phases := (phases s)(c := Critical)\<rparr>)"
| leave: "phases s c = Critical \<Longrightarrow> l = smp_lock s \<Longrightarrow>
    lock_type l AND SPINLOCK_TYPE_RECURSIVE \<noteq> 0 \<or> depth l = 1 \<Longrightarrow>
    smp_step s (s\<lparr>smp_lock := l\<lparr>depth := depth l - 1\<rparr>, phases := (phases s)(c := Leaving)\<rparr>)"
| stop: "phases s c = Critical \<Longrightarrow> l = smp_lock s \<Longrightarrow>
    \<not> (lock_type l AND SPINLOCK_TYPE_RECURSIVE \<noteq> 0 \<or> depth l = 1) \<Longrightarrow>
    smp_step s (s\<lparr>phases := (phases s)(c := Stopped)\<rparr>)"
| release: "phases s c = Leaving \<Longrightarrow>
    smp_step s (s\<lparr>smp_lock := hal_spinlock_unlock (smp_lock s), phases := (phases s)(c := Idle)\<rparr>)"

inductive_cases smp_stepE: "smp_step s t"

definition smp_init :: smp where
  "smp_init = \<lparr>smp_lock = spinlock_init, phases = \<lambda>_. Idle\<rparr>"

abbreviation smp_reachable :: "smp \<Rightarrow> bool" where
  "smp_reachable s \<equiv> smp_step\<^sup>*\<^sup>* smp_init s"

definition holding :: "phase \<Rightarrow> bool" where
  "holding ph \<longleftrightarrow> ph = Taken \<or> ph = Critical \<or> ph = Leaving"

lemma holding_simps [simp]:
  "\<not> holding Idle" "\<not> holding Spinning" "holding Taken" "holding Critical" "holding Leaving"
  "\<not> holding Stopped"
  by (simp_all add: holding_def)

text \<open>The invariant names the CPU that holds the lock, if there is one.\<close>

definition smp_owned :: "smp \<Rightarrow> nat option \<Rightarrow> bool" where
  "smp_owned s h \<longleftrightarrow>
     (\<forall>c. phases s c \<noteq> Stopped) \<and> (\<forall>c. holding (phases s c) \<longleftrightarrow> h = Some c) \<and>
     locked (smp_lock s) = (if h = None then 0 else 1) \<and>
     depth (smp_lock s) = (case h of Some c \<Rightarrow> if phases s c = Critical then 1 else 0 | None \<Rightarrow> 0)"

definition smp_inv :: "smp \<Rightarrow> bool" where
  "smp_inv s \<longleftrightarrow> (\<exists>h. smp_owned s h)"

lemma smp_inv_init: "smp_inv smp_init"
  by (simp add: smp_inv_def smp_owned_def smp_init_def spinlock_init_def exI [of _ None])

lemma smp_inv_step:
  assumes "smp_step s t" and inv: "smp_inv s"
  shows "smp_inv t"
proof -
  obtain h where h: "smp_owned s h"
    using inv by (auto simp: smp_inv_def)
  have owner: "h = Some c" if "holding (phases s c)" for c
    using h that by (auto simp: smp_owned_def)
  have other: "h \<noteq> Some c" if "\<not> holding (phases s c)" for c
    using h that by (auto simp: smp_owned_def)
  show ?thesis
    using assms(1)
  proof (cases rule: smp_step.cases)
    case (enter c)
    then have "smp_owned t h"
      using h other [of c] by (auto simp: smp_owned_def split: option.splits)
    then show ?thesis by (auto simp: smp_inv_def)
  next
    case (exchange c old l')
    then have "smp_owned t (if h = None then Some c else h)"
      using h other [of c] by (auto simp: smp_owned_def rv64_xchg_def split: option.splits)
    then show ?thesis by (auto simp: smp_inv_def)
  next
    case (deepen c l)
    then have "smp_owned t h"
      using h owner [of c] by (auto simp: smp_owned_def)
    then show ?thesis by (auto simp: smp_inv_def)
  next
    case (leave c l)
    then have "smp_owned t h"
      using h owner [of c] by (auto simp: smp_owned_def)
    then show ?thesis by (auto simp: smp_inv_def)
  next
    case (stop c l)
    then show ?thesis
      using h owner [of c] by (auto simp: smp_owned_def)
  next
    case (release c)
    then have "smp_owned t None"
      using h owner [of c] by (auto simp: smp_owned_def hal_spinlock_unlock_def rv64_xchg_def)
    then show ?thesis by (auto simp: smp_inv_def)
  qed
qed

lemma smp_reachable_inv: "smp_reachable s \<Longrightarrow> smp_inv s"
  by (induction rule: rtranclp_induct) (auto intro: smp_inv_init smp_inv_step)

lemma smp_free_lock_can_be_taken:
  assumes "smp_inv s" and "phases s c = Spinning" and "\<forall>d. \<not> holding (phases s d)"
  shows "\<exists>t. smp_step s t \<and> phases t c = Taken"
proof -
  have "locked (smp_lock s) = 0"
    using assms by (auto simp: smp_inv_def smp_owned_def split: option.splits)
  then have "rv64_xchg 1 (smp_lock s) = (0, (smp_lock s)\<lparr>locked := 1\<rparr>)"
    by (simp add: rv64_xchg_def)
  from smp_step.exchange [OF assms(2) this] show ?thesis
    by (intro exI conjI) (assumption, simp)
qed

section \<open>Properties\<close>

text \<open>
  C9: a critical section of \<open>spinlock_lock_disable_intr\<close> and \<open>spinlock_unlock_restore_intr\<close> on
  a free lock. The lock is taken with interrupts masked on the CPU; releasing it gives back the
  lock and the CPU as they were, whether interrupts were enabled before or not. A lock that is
  held, of the normal or the recursive type, is never obtained: the call does not return.
\<close>

theorem spinlock_critical_section:
  assumes "lock_free l"
  shows "\<exists>f l' c'. spinlock_lock_disable_intr l c = Some (f, l', c') \<and>
      spinlock_locked_by_self l' \<and> krn_cpu_interrupt_disabled c' \<and>
      spinlock_unlock_restore_intr f l' c' = Some (l, c) \<and>
      spinlock_lock_disable_intr (l'\<lparr>lock_type := SPINLOCK_TYPE_RECURSIVE\<rparr>) c' = None \<and>
      spinlock_raw_lock l' = None"
  using assms
  by (simp add: spinlock_raw_lock_held spinlock_lock_disable_intr_def [of "_\<lparr>lock_type := _\<rparr>"]
      krn_cpu_save_and_disable_interrupt_def spinlock_lock_def)

theorem spinlock_critical_section_witness:
  "\<exists>f l' c'. spinlock_lock_disable_intr spinlock_init \<lparr>sstatus = 2, sie = 0\<rparr> = Some (f, l', c') \<and>
      spinlock_unlock_restore_intr f l' c' = Some (spinlock_init, \<lparr>sstatus = 2, sie = 0\<rparr>)"
  using spinlock_critical_section [OF lock_init_free, of "\<lparr>sstatus = 2, sie = 0\<rparr>"] by blast

text \<open>
  C10: mutual exclusion. In every state reachable by any number of CPUs contending for one lock
  from its initialisation, at most one CPU is past \<open>hal_spinlock_lock\<close> and not yet past
  \<open>hal_spinlock_unlock\<close>, no CPU has failed the depth check of \<open>spinlock_raw_unlock\<close>, the lock
  word is 0 exactly when no CPU holds the lock, and a waiting CPU can then take it.
\<close>

theorem spinlock_mutual_exclusion:
  assumes "smp_reachable s"
  shows "(\<forall>c d. holding (phases s c) \<and> holding (phases s d) \<longrightarrow> c = d) \<and>
    (\<forall>c. phases s c \<noteq> Stopped) \<and>
    (locked (smp_lock s) = 0 \<longleftrightarrow> (\<forall>c. \<not> holding (phases s c))) \<and>
    (\<forall>c. phases s c = Spinning \<and> locked (smp_lock s) = 0 \<longrightarrow> (\<exists>t. smp_step s t \<and> phases t c = Taken))"
proof -
  have inv: "smp_inv s" using assms by (rule smp_reachable_inv)
  then obtain h where h: "smp_owned s h" by (auto simp: smp_inv_def)
  then have free: "locked (smp_lock s) = 0 \<longleftrightarrow> (\<forall>c. \<not> holding (phases s c))"
    by (cases h) (auto simp: smp_owned_def)
  with h smp_free_lock_can_be_taken [OF inv] show ?thesis
    by (auto simp: smp_owned_def)
qed

theorem spinlock_mutual_exclusion_witness:
  "\<exists>s. smp_reachable s \<and> phases s 0 = Taken \<and> phases s 1 = Spinning \<and> locked (smp_lock s) \<noteq> 0"
proof -
  define s1 where "s1 = smp_init\<lparr>phases := (phases smp_init)(0 := Spinning)\<rparr>"
  define s2 where "s2 = s1\<lparr>smp_lock := spinlock_init\<lparr>locked := 1\<rparr>, phases := (phases s1)(0 := Taken)\<rparr>"
  define s3 where "s3 = s2\<lparr>phases := (phases s2)(1 := Spinning)\<rparr>"
  have "smp_step smp_init s1"
    unfolding s1_def by (rule enter) (simp add: smp_init_def)
  moreover have "smp_step s1 s2"
    using exchange [of s1 0 0 "spinlock_init\<lparr>locked := 1\<rparr>"]
    by (simp add: s1_def s2_def smp_init_def rv64_xchg_def spinlock_init_def)
  moreover have "smp_step s2 s3"
    unfolding s3_def by (rule enter) (simp add: s2_def s1_def smp_init_def)
  ultimately have "smp_reachable s3"
    by (meson rtranclp.rtrancl_refl rtranclp.rtrancl_into_rtrancl)
  moreover have "phases s3 0 = Taken" "phases s3 1 = Spinning"
    by (simp_all add: s3_def s2_def s1_def)
  ultimately show ?thesis
    using spinlock_mutual_exclusion [of s3] holding_simps(3) by metis
qed

end
