(* ===== verification/Atomic.thy ===== *)
theory Atomic
  imports Spinlock
begin

unbundle bit_operations_syntax

text \<open>
  Atomic variables of 32 and 64 bits (klib/atomic.c, klib/atomic64.c over the instructions of
  hal/riscv64/rv64-atomic.S and rv64-atomic64.S), reference counters (klib/refcount.c) and
  statistics counters (klib/statcnt.c). An atomic variable is its value, a signed integer held as
  a word; an operation returns its result and the new value. One call of a \<open>hal_\<close> operation is
  one atomic access. Negating the least value wraps, as the machine instruction does.

  The step relation \<open>ref_step\<close> interleaves the accesses of several holders of one counter.
\<close>

section \<open>One access (hal/riscv64)\<close>

definition hal_atomic_add_fetch :: "'a::len word \<Rightarrow> 'a word \<Rightarrow> 'a word \<times> 'a word" where
  "hal_atomic_add_fetch incr val = (val, val + incr)"

definition hal_atomic_and_fetch :: "'a::len word \<Rightarrow> 'a word \<Rightarrow> 'a word \<times> 'a word" where
  "hal_atomic_and_fetch v val = (val, val AND v)"

definition hal_atomic_or_fetch :: "'a::len word \<Rightarrow> 'a word \<Rightarrow> 'a word \<times> 'a word" where
  "hal_atomic_or_fetch v val = (val, val OR v)"

definition hal_atomic_xor_fetch :: "'a::len word \<Rightarrow> 'a word \<Rightarrow> 'a word \<times> 'a word" where
  "hal_atomic_xor_fetch v val = (val, val XOR v)"

definition hal_atomic_set_fetch :: "'a::len word \<Rightarrow> 'a word \<Rightarrow> 'a word \<times> 'a word" where
  "hal_atomic_set_fetch set_to val = (val, set_to)"

definition hal_atomic_cmpxchg_fetch :: "'p \<Rightarrow> 'p \<Rightarrow> 'p \<Rightarrow> 'p \<times> 'p" where
  "hal_atomic_cmpxchg_fetch old new val = (val, if val = old then new else val)"

section \<open>Variables of 32 bits (klib/atomic.c)\<close>

definition atomic_add_fetch :: "u32 \<Rightarrow> u32 \<Rightarrow> u32 \<times> u32" where
  "atomic_add_fetch incr val = hal_atomic_add_fetch incr val"

definition atomic_sub_fetch :: "u32 \<Rightarrow> u32 \<Rightarrow> u32 \<times> u32" where
  "atomic_sub_fetch decr val = hal_atomic_add_fetch (- decr) val"

definition atomic_and_fetch :: "u32 \<Rightarrow> u32 \<Rightarrow> u32 \<times> u32" where
  "atomic_and_fetch v val = hal_atomic_and_fetch v val"

definition atomic_or_fetch :: "u32 \<Rightarrow> u32 \<Rightarrow> u32 \<times> u32" where
  "atomic_or_fetch v val = hal_atomic_or_fetch v val"

definition atomic_xor_fetch :: "u32 \<Rightarrow> u32 \<Rightarrow> u32 \<times> u32" where
  "atomic_xor_fetch v val = hal_atomic_xor_fetch v val"

definition atomic_set_fetch :: "u32 \<Rightarrow> u32 \<Rightarrow> u32 \<times> u32" where
  "atomic_set_fetch set_to val = hal_atomic_set_fetch set_to val"

definition atomic_cmpxchg_fetch :: "u32 \<Rightarrow> u32 \<Rightarrow> u32 \<Rightarrow> u32 \<times> u32" where
  "atomic_cmpxchg_fetch old new val = hal_atomic_cmpxchg_fetch old new val"

definition atomic_cmpxchg_ptr_fetch :: "'p \<Rightarrow> 'p \<Rightarrow> 'p \<Rightarrow> 'p \<times> 'p" where
  "atomic_cmpxchg_ptr_fetch old new valp = hal_atomic_cmpxchg_fetch old new valp"

definition atomic_try_cmpxchg_fetch :: "u32 \<Rightarrow> u32 \<Rightarrow> u32 \<Rightarrow> bool \<times> u32 \<times> u32" where
  "atomic_try_cmpxchg_fetch old new val =
     (let (r, val') = hal_atomic_cmpxchg_fetch old new val;
          oldp = (if r \<noteq> old then r else old)
      in (r = old, oldp, val'))"

definition atomic_add_return :: "u32 \<Rightarrow> u32 \<Rightarrow> u32 \<times> u32" where
  "atomic_add_return incr val = (let (r, val') = hal_atomic_add_fetch incr val in (r + incr, val'))"

definition atomic_sub_return :: "u32 \<Rightarrow> u32 \<Rightarrow> u32 \<times> u32" where
  "atomic_sub_return decr val = (let (r, val') = hal_atomic_add_fetch (- decr) val in (r - decr, val'))"

definition atomic_and_return :: "u32 \<Rightarrow> u32 \<Rightarrow> u32 \<times> u32" where
  "atomic_and_return v val = (let (r, val') = hal_atomic_and_fetch v val in (r AND v, val'))"

definition atomic_or_return :: "u32 \<Rightarrow> u32 \<Rightarrow> u32 \<times> u32" where
  "atomic_or_return v val = (let (r, val') = hal_atomic_or_fetch v val in (r OR v, val'))"

definition atomic_xor_return :: "u32 \<Rightarrow> u32 \<Rightarrow> u32 \<times> u32" where
  "atomic_xor_return v val = (let (r, val') = hal_atomic_xor_fetch v val in (r XOR v, val'))"

definition atomic_sub_and_test :: "u32 \<Rightarrow> u32 \<Rightarrow> (bool \<times> u32 \<times> u32) option" where
  "atomic_sub_and_test decr val = do {
     let (new, val') = atomic_sub_return decr val;
     kassert (0 \<le>s new);
     if new = 0 then Some (True, new, val')
     else do { kassert (0 <s new); Some (False, new, val') }
   }"

definition atomic_read :: "u32 \<Rightarrow> u32 \<times> u32" where
  "atomic_read val = atomic_add_fetch 0 val"

definition atomic_set :: "u32 \<Rightarrow> u32 \<Rightarrow> u32" where
  "atomic_set new val = snd (atomic_set_fetch new val)"

partial_function (option) atomic_add_unless_loop :: "u32 \<Rightarrow> u32 \<Rightarrow> u32 \<Rightarrow> u32 \<Rightarrow> (u32 \<times> u32) option" where
  "atomic_add_unless_loop unexpected incr cur val =
     (if cur = unexpected then Some (cur, val)
      else let (ok, cur', val') = atomic_try_cmpxchg_fetch cur (cur + incr) val
           in if \<not> ok then atomic_add_unless_loop unexpected incr cur' val' else Some (cur', val'))"

definition atomic_add_fetch_unless :: "u32 \<Rightarrow> u32 \<Rightarrow> u32 \<Rightarrow> (u32 \<times> u32) option" where
  "atomic_add_fetch_unless unexpected incr val =
     (let (cur, val') = atomic_read val in atomic_add_unless_loop unexpected incr cur val')"

partial_function (option) atomic_sub_unless_loop :: "u32 \<Rightarrow> u32 \<Rightarrow> u32 \<Rightarrow> u32 \<Rightarrow> (u32 \<times> u32) option" where
  "atomic_sub_unless_loop unexpected decr cur val =
     (if cur = unexpected then Some (cur, val)
      else let (ok, cur', val') = atomic_try_cmpxchg_fetch cur (cur - decr) val
           in if \<not> ok then atomic_sub_unless_loop unexpected decr cur' val' else Some (cur', val'))"

definition atomic_sub_fetch_unless :: "u32 \<Rightarrow> u32 \<Rightarrow> u32 \<Rightarrow> (u32 \<times> u32) option" where
  "atomic_sub_fetch_unless unexpected decr val =
     (let (cur, val') = atomic_read val in atomic_sub_unless_loop unexpected decr cur val')"

section \<open>Variables of 64 bits (klib/atomic64.c)\<close>

definition atomic64_add_fetch :: "u64 \<Rightarrow> u64 \<Rightarrow> u64 \<times> u64" where
  "atomic64_add_fetch incr val = hal_atomic_add_fetch incr val"

definition atomic64_sub_fetch :: "u64 \<Rightarrow> u64 \<Rightarrow> u64 \<times> u64" where
  "atomic64_sub_fetch decr val = hal_atomic_add_fetch (- decr) val"

definition atomic64_and_fetch :: "u64 \<Rightarrow> u64 \<Rightarrow> u64 \<times> u64" where
  "atomic64_and_fetch v val = hal_atomic_and_fetch v val"

definition atomic64_or_fetch :: "u64 \<Rightarrow> u64 \<Rightarrow> u64 \<times> u64" where
  "atomic64_or_fetch v val = hal_atomic_or_fetch v val"

definition atomic64_xor_fetch :: "u64 \<Rightarrow> u64 \<Rightarrow> u64 \<times> u64" where
  "atomic64_xor_fetch v val = hal_atomic_xor_fetch v val"

definition atomic64_set_fetch :: "u64 \<Rightarrow> u64 \<Rightarrow> u64 \<times> u64" where
  "atomic64_set_fetch set_to val = hal_atomic_set_fetch set_to val"

definition atomic64_cmpxchg_fetch :: "u64 \<Rightarrow> u64 \<Rightarrow> u64 \<Rightarrow> u64 \<times> u64" where
  "atomic64_cmpxchg_fetch old new val = hal_atomic_cmpxchg_fetch old new val"

definition atomic64_cmpxchg_ptr_fetch :: "'p \<Rightarrow> 'p \<Rightarrow> 'p \<Rightarrow> 'p \<times> 'p" where
  "atomic64_cmpxchg_ptr_fetch old new valp = hal_atomic_cmpxchg_fetch old new valp"

definition atomic64_try_cmpxchg_fetch :: "u64 \<Rightarrow> u64 \<Rightarrow> u64 \<Rightarrow> bool \<times> u64 \<times> u64" where
  "atomic64_try_cmpxchg_fetch old new val =
     (let (r, val') = hal_atomic_cmpxchg_fetch old new val;
          oldp = (if r \<noteq> old then r else old)
      in (r = old, oldp, val'))"

definition atomic64_add_return :: "u64 \<Rightarrow> u64 \<Rightarrow> u64 \<times> u64" where
  "atomic64_add_return incr val = (let (r, val') = hal_atomic_add_fetch incr val in (r + incr, val'))"

definition atomic64_sub_return :: "u64 \<Rightarrow> u64 \<Rightarrow> u64 \<times> u64" where
  "atomic64_sub_return decr val = (let (r, val') = hal_atomic_add_fetch (- decr) val in (r - decr, val'))"

definition atomic64_and_return :: "u64 \<Rightarrow> u64 \<Rightarrow> u64 \<times> u64" where
  "atomic64_and_return v val = (let (r, val') = hal_atomic_and_fetch v val in (r AND v, val'))"

definition atomic64_or_return :: "u64 \<Rightarrow> u64 \<Rightarrow> u64 \<times> u64" where
  "atomic64_or_return v val = (let (r, val') = hal_atomic_or_fetch v val in (r OR v, val'))"

definition atomic64_xor_return :: "u64 \<Rightarrow> u64 \<Rightarrow> u64 \<times> u64" where
  "atomic64_xor_return v val = (let (r, val') = hal_atomic_xor_fetch v val in (r XOR v, val'))"

definition atomic64_sub_and_test :: "u64 \<Rightarrow> u64 \<Rightarrow> (bool \<times> u64 \<times> u64) option" where
  "atomic64_sub_and_test decr val = do {
     let (new, val') = atomic64_sub_return decr val;
     kassert (0 \<le>s new);
     if new = 0 then Some (True, new, val')
     else do { kassert (0 <s new); Some (False, new, val') }
   }"

definition atomic64_read :: "u64 \<Rightarrow> u64 \<times> u64" where
  "atomic64_read val = atomic64_add_fetch 0 val"

definition atomic64_set :: "u64 \<Rightarrow> u64 \<Rightarrow> u64" where
  "atomic64_set new val = snd (atomic64_set_fetch new val)"

partial_function (option) atomic64_add_unless_loop :: "u64 \<Rightarrow> u64 \<Rightarrow> u64 \<Rightarrow> u64 \<Rightarrow> (u64 \<times> u64) option" where
  "atomic64_add_unless_loop unexpected incr cur val =
     (if cur = unexpected then Some (cur, val)
      else let (ok, cur', val') = atomic64_try_cmpxchg_fetch cur (cur + incr) val
           in if \<not> ok then atomic64_add_unless_loop unexpected incr cur' val' else Some (cur', val'))"

definition atomic64_add_fetch_unless :: "u64 \<Rightarrow> u64 \<Rightarrow> u64 \<Rightarrow> (u64 \<times> u64) option" where
  "atomic64_add_fetch_unless unexpected incr val =
     (let (cur, val') = atomic64_read val in atomic64_add_unless_loop unexpected incr cur val')"

partial_function (option) atomic64_sub_unless_loop :: "u64 \<Rightarrow> u64 \<Rightarrow> u64 \<Rightarrow> u64 \<Rightarrow> (u64 \<times> u64) option" where
  "atomic64_sub_unless_loop unexpected decr cur val =
     (if cur = unexpected then Some (cur, val)
      else let (ok, cur', val') = atomic64_try_cmpxchg_fetch cur (cur - decr) val
           in if \<not> ok then atomic64_sub_unless_loop unexpected decr cur' val' else Some (cur', val'))"

definition atomic64_sub_fetch_unless :: "u64 \<Rightarrow> u64 \<Rightarrow> u64 \<Rightarrow> (u64 \<times> u64) option" where
  "atomic64_sub_fetch_unless unexpected decr val =
     (let (cur, val') = atomic64_read val in atomic64_sub_unless_loop unexpected decr cur val')"

section \<open>Reference counters (klib/refcount.c)\<close>

definition REFCNT_INITIAL_VAL :: u32 where
  "REFCNT_INITIAL_VAL = 1"

definition sub_and_test_refcounter :: "u32 \<Rightarrow> u32 \<Rightarrow> (bool \<times> u32 \<times> u32) option" where
  "sub_and_test_refcounter v counter = do {
     (rc, new, counter') \<leftarrow> atomic_sub_and_test v counter;
     kassert (0 \<le>s new);
     Some (rc, new, counter')
   }"

definition refcnt_init_with_value :: "u32 \<Rightarrow> u32 \<Rightarrow> u32" where
  "refcnt_init_with_value val counter = snd (atomic_set_fetch val counter)"

definition refcnt_init :: "u32 \<Rightarrow> u32" where
  "refcnt_init counter = refcnt_init_with_value REFCNT_INITIAL_VAL counter"

definition refcnt_set :: "u32 \<Rightarrow> u32 \<Rightarrow> u32" where
  "refcnt_set val counter = atomic_set val counter"

definition refcnt_read :: "u32 \<Rightarrow> u32 \<times> u32" where
  "refcnt_read counter = atomic_read counter"

definition refcnt_add_if_valid :: "u32 \<Rightarrow> u32 \<Rightarrow> (u32 \<times> u32) option" where
  "refcnt_add_if_valid v counter = do {
     (ret, counter') \<leftarrow> atomic_add_fetch_unless 0 v counter;
     kassert (0 <s ret);
     Some (ret, counter')
   }"

definition refcnt_add :: "u32 \<Rightarrow> u32 \<Rightarrow> u32 \<times> u32" where
  "refcnt_add v counter = atomic_add_fetch v counter"

definition refcnt_inc :: "u32 \<Rightarrow> u32 \<times> u32" where
  "refcnt_inc counter = refcnt_add 1 counter"

definition refcnt_inc_if_valid :: "u32 \<Rightarrow> (u32 \<times> u32) option" where
  "refcnt_inc_if_valid counter = atomic_add_fetch_unless 0 1 counter"

definition refcnt_sub_and_test :: "u32 \<Rightarrow> u32 \<Rightarrow> (bool \<times> u32) option" where
  "refcnt_sub_and_test v counter = do {
     (rc, new, counter') \<leftarrow> sub_and_test_refcounter v counter;
     Some (rc, counter')
   }"

definition refcnt_dec_and_test :: "u32 \<Rightarrow> (bool \<times> u32) option" where
  "refcnt_dec_and_test counter = do {
     (rc, new, counter') \<leftarrow> sub_and_test_refcounter 1 counter;
     Some (rc, counter')
   }"

definition refcnt_dec :: "u32 \<Rightarrow> (u32 \<times> u32) option" where
  "refcnt_dec counter = do {
     (rc, new, counter') \<leftarrow> sub_and_test_refcounter 1 counter;
     Some (new, counter')
   }"

definition refcnt_dec_and_lock :: "u32 \<Rightarrow> spinlock \<Rightarrow> (bool \<times> u32 \<times> spinlock) option" where
  "refcnt_dec_and_lock counter lock = do {
     lock1 \<leftarrow> spinlock_lock lock;
     (rc, counter') \<leftarrow> refcnt_dec_and_test counter;
     if rc then Some (True, counter', lock1)
     else do { lock2 \<leftarrow> spinlock_unlock lock1; Some (False, counter', lock2) }
   }"

definition refcnt_dec_and_lock_disable_intr ::
    "u32 \<Rightarrow> spinlock \<Rightarrow> cpu \<Rightarrow> (bool \<times> u32 \<times> intrflags \<times> spinlock \<times> cpu) option" where
  "refcnt_dec_and_lock_disable_intr counter lock c = do {
     (iflags, lock1, c1) \<leftarrow> spinlock_lock_disable_intr lock c;
     (rc, counter') \<leftarrow> refcnt_dec_and_test counter;
     if rc then Some (True, counter', iflags, lock1, c1)
     else do {
       (lock2, c2) \<leftarrow> spinlock_unlock_restore_intr iflags lock1 c1;
       Some (False, counter', iflags, lock2, c2)
     }
   }"

section \<open>Statistics counters (klib/statcnt.c)\<close>

definition statcnt_set :: "u64 \<Rightarrow> u64 \<Rightarrow> u64" where
  "statcnt_set val cnt = atomic64_set val cnt"

definition statcnt_read :: "u64 \<Rightarrow> u64 \<times> u64" where
  "statcnt_read cnt = atomic64_read cnt"

definition statcnt_add :: "u64 \<Rightarrow> u64 \<Rightarrow> u64 \<times> u64" where
  "statcnt_add val cnt = atomic64_add_return val cnt"

definition statcnt_sub :: "u64 \<Rightarrow> u64 \<Rightarrow> u64 \<times> u64" where
  "statcnt_sub val cnt = atomic64_sub_return val cnt"

definition statcnt_inc :: "u64 \<Rightarrow> u64 \<times> u64" where
  "statcnt_inc cnt = statcnt_add 1 cnt"

definition statcnt_dec :: "u64 \<Rightarrow> u64 \<times> u64" where
  "statcnt_dec cnt = statcnt_sub 1 cnt"

section \<open>What the operations do\<close>

lemmas hal_atomic_defs = hal_atomic_add_fetch_def hal_atomic_and_fetch_def hal_atomic_or_fetch_def
  hal_atomic_xor_fetch_def hal_atomic_set_fetch_def hal_atomic_cmpxchg_fetch_def

lemmas atomic_defs = hal_atomic_defs atomic_add_fetch_def atomic_sub_fetch_def atomic_and_fetch_def
  atomic_or_fetch_def atomic_xor_fetch_def atomic_set_fetch_def atomic_cmpxchg_fetch_def
  atomic_try_cmpxchg_fetch_def atomic_add_return_def atomic_sub_return_def atomic_and_return_def
  atomic_or_return_def atomic_xor_return_def atomic_sub_and_test_def atomic_read_def atomic_set_def

lemmas atomic64_defs = hal_atomic_defs atomic64_add_fetch_def atomic64_sub_fetch_def
  atomic64_and_fetch_def atomic64_or_fetch_def atomic64_xor_fetch_def atomic64_set_fetch_def
  atomic64_cmpxchg_fetch_def atomic64_try_cmpxchg_fetch_def atomic64_add_return_def
  atomic64_sub_return_def atomic64_and_return_def atomic64_or_return_def atomic64_xor_return_def
  atomic64_sub_and_test_def atomic64_read_def atomic64_set_def

lemmas refcnt_defs = sub_and_test_refcounter_def refcnt_init_with_value_def refcnt_init_def
  refcnt_set_def refcnt_read_def refcnt_add_if_valid_def refcnt_add_def refcnt_inc_def
  refcnt_inc_if_valid_def refcnt_sub_and_test_def refcnt_dec_and_test_def refcnt_dec_def

lemma signed_less_iff: "0 <s (n :: 'a::len word) \<longleftrightarrow> 0 \<le>s n \<and> n \<noteq> 0"
  by (simp add: word_sless_alt word_sle_eq order.strict_iff_order) (metis signed_0 signed_word_eqI)

lemma sub_and_test_eq:
  "atomic_sub_and_test decr val =
     (if 0 \<le>s val - decr then Some (val - decr = 0, val - decr, val - decr) else None)"
  "atomic64_sub_and_test decr' val' =
     (if 0 \<le>s val' - decr' then Some (val' - decr' = 0, val' - decr', val' - decr') else None)"
  by (simp_all add: atomic_defs atomic64_defs signed_less_iff)

lemma unless_loops:
  "atomic_add_unless_loop unexpected incr val val = Some (val, if val = unexpected then val else val + incr)"
  "atomic_sub_unless_loop unexpected decr val val = Some (val, if val = unexpected then val else val - decr)"
  "atomic64_add_unless_loop unexpected' incr' val' val' =
     Some (val', if val' = unexpected' then val' else val' + incr')"
  "atomic64_sub_unless_loop unexpected' decr' val' val' =
     Some (val', if val' = unexpected' then val' else val' - decr')"
  by (subst atomic_add_unless_loop.simps atomic_sub_unless_loop.simps
      atomic64_add_unless_loop.simps atomic64_sub_unless_loop.simps;
      simp add: atomic_defs atomic64_defs)+

lemma fetch_unless_eq:
  "atomic_add_fetch_unless unexpected incr val = Some (val, if val = unexpected then val else val + incr)"
  "atomic_sub_fetch_unless unexpected decr val = Some (val, if val = unexpected then val else val - decr)"
  "atomic64_add_fetch_unless unexpected' incr' val' =
     Some (val', if val' = unexpected' then val' else val' + incr')"
  "atomic64_sub_fetch_unless unexpected' decr' val' =
     Some (val', if val' = unexpected' then val' else val' - decr')"
  by (simp_all add: atomic_add_fetch_unless_def atomic_sub_fetch_unless_def
      atomic64_add_fetch_unless_def atomic64_sub_fetch_unless_def atomic_read_def atomic64_read_def
      atomic_add_fetch_def atomic64_add_fetch_def hal_atomic_add_fetch_def unless_loops)

lemma refcnt_eqs [simp]:
  "refcnt_read n = (n, n)" "refcnt_set v n = v" "refcnt_init_with_value v n = v"
  "refcnt_inc_if_valid n = Some (n, if n = 0 then 0 else n + 1)"
  "refcnt_dec_and_test n = (if 0 \<le>s n - 1 then Some (n = 1, n - 1) else None)"
  by (simp_all add: refcnt_defs atomic_read_def atomic_add_fetch_def atomic_set_def
      atomic_set_fetch_def hal_atomic_defs fetch_unless_eq sub_and_test_eq)

section \<open>Holders of one counter, interleaved\<close>

text \<open>
  \<open>n\<close> threads share an object with a reference counter. A thread that holds a reference can pass
  from one access to the next of \<open>refcnt_inc_if_valid\<close> (the read of \<open>atomic_add_fetch_unless\<close>, then
  its exchanges until one succeeds or the counter is seen to be 0), any thread may try the same,
  and a thread that holds a reference can give it up with \<open>refcnt_dec_and_test\<close>, which reports the
  last reference to one caller, who frees the object. \<open>refs t\<close> counts the references of thread
  \<open>t\<close> and \<open>frees\<close> the reports.
\<close>

datatype getter = Resting | Trying u32

record shared_object =
  counter :: u32
  getters :: "nat \<Rightarrow> getter"
  refs :: "nat \<Rightarrow> nat"
  frees :: nat
  asserted :: bool

definition holders :: "nat \<Rightarrow> (nat \<Rightarrow> nat) \<Rightarrow> nat" where
  "holders n r = (\<Sum>t<n. r t)"

inductive ref_step :: "nat \<Rightarrow> shared_object \<Rightarrow> shared_object \<Rightarrow> bool" for n where
  get_read: "t < n \<Longrightarrow> getters s t = Resting \<Longrightarrow> atomic_read (counter s) = (cur, v) \<Longrightarrow>
    ref_step n s (s\<lparr>counter := v, getters := (getters s)(t := Trying cur)\<rparr>)"
| get_dead: "t < n \<Longrightarrow> getters s t = Trying cur \<Longrightarrow> cur = 0 \<Longrightarrow>
    ref_step n s (s\<lparr>getters := (getters s)(t := Resting)\<rparr>)"
| get_taken: "t < n \<Longrightarrow> getters s t = Trying cur \<Longrightarrow> cur \<noteq> 0 \<Longrightarrow>
    atomic_try_cmpxchg_fetch cur (cur + 1) (counter s) = (True, cur', v) \<Longrightarrow>
    ref_step n s (s\<lparr>counter := v, getters := (getters s)(t := Resting),
                  refs := (refs s)(t := refs s t + 1)\<rparr>)"
| get_again: "t < n \<Longrightarrow> getters s t = Trying cur \<Longrightarrow> cur \<noteq> 0 \<Longrightarrow>
    atomic_try_cmpxchg_fetch cur (cur + 1) (counter s) = (False, cur', v) \<Longrightarrow>
    ref_step n s (s\<lparr>counter := v, getters := (getters s)(t := Trying cur')\<rparr>)"
| put: "t < n \<Longrightarrow> 0 < refs s t \<Longrightarrow> refcnt_dec_and_test (counter s) = Some (final, v) \<Longrightarrow>
    ref_step n s (s\<lparr>counter := v, refs := (refs s)(t := refs s t - 1),
                  frees := frees s + (if final then 1 else 0)\<rparr>)"
| put_asserts: "t < n \<Longrightarrow> 0 < refs s t \<Longrightarrow> refcnt_dec_and_test (counter s) = None \<Longrightarrow>
    ref_step n s (s\<lparr>asserted := True\<rparr>)"

text \<open>Steps after which the references do not exceed the positive numbers of 32 bits.\<close>

definition few_holders_step :: "nat \<Rightarrow> shared_object \<Rightarrow> shared_object \<Rightarrow> bool" where
  "few_holders_step n s t \<longleftrightarrow> ref_step n s t \<and> holders n (refs t) < 2 ^ 31"

text \<open>The object as its creator, thread 0, leaves it after \<open>refcnt_init\<close>.\<close>

definition ref_initial :: shared_object where
  "ref_initial = \<lparr>counter = refcnt_init 0, getters = \<lambda>_. Resting, refs = (\<lambda>_. 0)(0 := 1),
                  frees = 0, asserted = False\<rparr>"

definition ref_inv :: "nat \<Rightarrow> shared_object \<Rightarrow> bool" where
  "ref_inv n s \<longleftrightarrow> unat (counter s) = holders n (refs s) \<and> holders n (refs s) < 2 ^ 31 \<and>
     frees s = (if holders n (refs s) = 0 then 1 else 0) \<and> \<not> asserted s"

lemma holders_upd:
  assumes "t < n"
  shows "holders n (r(t := k)) + r t = holders n r + k"
proof -
  have split: "(\<Sum>u<n. f u) = f t + (\<Sum>u\<in>{..<n} - {t}. f u)" for f :: "nat \<Rightarrow> nat"
    using assms by (intro sum.remove) auto
  have "(\<Sum>u<n. (r(t := k)) u) = k + (\<Sum>u\<in>{..<n} - {t}. r u)"
    by (subst split) (auto intro!: sum.cong)
  then show ?thesis
    using split [of r] by (simp only: holders_def)
qed

lemma refs_le_holders: "t < n \<Longrightarrow> r t \<le> holders n r"
  by (simp add: holders_def member_le_sum)

lemma word_pred_nonneg:
  fixes c :: u32
  assumes "unat c = h" and "0 < h" and "h < 2 ^ 31"
  shows "0 \<le>s c - 1 \<and> unat (c - 1) = h - 1 \<and> (c = 1 \<longleftrightarrow> h = 1)"
proof -
  have "c \<noteq> 0" using assms by auto
  then have pred: "unat (c - 1) = h - 1"
    using assms(1) by (simp add: unat_minus_one)
  have "sint (c - 1) = int (h - 1)"
    using assms pred by (subst sint_uint) (simp add: uint_nat signed_take_bit_int_eq_self_iff)
  moreover have "c = 1 \<longleftrightarrow> unat c = 1"
    by (simp add: word_unat_eq_iff)
  ultimately show ?thesis
    using pred assms by (auto simp: word_sle_eq)
qed

lemma sless_unat: "0 <s (n :: u32) \<Longrightarrow> 0 < unat n \<and> unat n < 2 ^ 31"
proof -
  assume "0 <s n"
  then have pos: "0 < sint n" by (simp add: word_sless_alt)
  have eq: "sint n = (uint n + 2 ^ 31) mod 2 ^ 32 - 2 ^ 31"
    by (simp add: sint_uint signed_take_bit_eq_take_bit_shift take_bit_eq_mod)
  have range: "0 \<le> uint n" "uint n < 2 ^ 32"
    using uint_lt2p [of n] by simp_all
  have "uint n < 2 ^ 31"
  proof (rule ccontr)
    assume "\<not> uint n < 2 ^ 31"
    then have "(uint n + 2 ^ 31) mod 2 ^ 32 = uint n + 2 ^ 31 - 2 ^ 32"
      using range by (subst mod_pos_geq) simp_all
    with pos eq range show False by simp
  qed
  then have "int (unat n) < int (2 ^ 31)" by simp
  then have "unat n < 2 ^ 31" by (simp only: of_nat_less_iff)
  moreover have "0 < unat n" using pos by (cases "n = 0") (simp_all add: unat_gt_0)
  ultimately show ?thesis by simp
qed

lemma counter_counts_step:
  assumes "ref_step n s t" and inv: "counter s = of_nat (holders n (refs s))"
  shows "counter t = of_nat (holders n (refs t))"
  using assms(1)
proof (cases rule: ref_step.cases)
  case (get_taken u cur cur' v)
  then have "counter t = counter s + 1" by (auto simp: atomic_defs split: if_splits)
  moreover have "holders n (refs t) = holders n (refs s) + 1"
    using holders_upd [of u n "refs s" "refs s u + 1"] get_taken by simp
  ultimately show ?thesis using inv by simp
next
  case (put u final v)
  have "holders n (refs s) = holders n (refs t) + 1"
    using holders_upd [of u n "refs s" "refs s u - 1"] put by simp
  moreover have "counter t = counter s - 1" using put by (auto split: if_splits)
  ultimately show ?thesis using inv by simp
qed (use inv in \<open>auto simp: atomic_defs split: if_splits\<close>)

lemma ref_inv_step:
  assumes "ref_step n s t" and inv: "ref_inv n s" and few: "holders n (refs t) < 2 ^ 31"
  shows "ref_inv n t"
  using assms(1)
proof (cases rule: ref_step.cases)
  case (get_read u cur v)
  then show ?thesis
    using inv by (auto simp: ref_inv_def holders_def atomic_read_def atomic_add_fetch_def hal_atomic_defs)
next
  case (get_dead u cur)
  then show ?thesis using inv by (simp add: ref_inv_def holders_def)
next
  case (get_taken u cur cur' v)
  then have v: "counter s \<noteq> 0" "v = counter s + 1"
    by (auto simp: atomic_defs split: if_splits)
  have more: "holders n (refs t) = holders n (refs s) + 1"
    using holders_upd [of u n "refs s" "refs s u + 1"] get_taken by simp
  have "0 < holders n (refs s)"
    using v inv by (metis ref_inv_def unat_gt_0)
  then show ?thesis
    using get_taken v more inv few by (simp add: ref_inv_def unat_word_ariths)
next
  case (get_again u cur cur' v)
  then show ?thesis
    using inv by (auto simp: ref_inv_def holders_def atomic_defs split: if_splits)
next
  case (put u final v)
  then have less: "holders n (refs t) = holders n (refs s) - 1" "0 < holders n (refs s)"
    using holders_upd [of u n "refs s" "refs s u - 1"] refs_le_holders [of u n "refs s"] by simp_all
  then show ?thesis
    using put inv word_pred_nonneg [of "counter s" "holders n (refs s)"]
    by (auto simp: ref_inv_def split: if_splits)
next
  case (put_asserts u)
  then show ?thesis
    using inv word_pred_nonneg [of "counter s" "holders n (refs s)"] refs_le_holders [of u n "refs s"]
    by (auto simp: ref_inv_def split: if_splits)
qed

lemma ref_inv_initial: "0 < n \<Longrightarrow> ref_inv n ref_initial"
proof -
  assume "0 < n"
  then have "holders n (refs ref_initial) = 1"
    using holders_upd [of 0 n "\<lambda>_. 0" 1] by (simp add: ref_initial_def holders_def)
  then show ?thesis
    by (simp add: ref_inv_def ref_initial_def refcnt_init_def REFCNT_INITIAL_VAL_def)
qed

lemma counter_counts:
  assumes "(ref_step n)\<^sup>*\<^sup>* ref_initial s" and "0 < n"
  shows "counter s = of_nat (holders n (refs s))"
  using assms
proof (induction rule: rtranclp_induct)
  case base
  have "counter ref_initial = of_nat (unat (counter ref_initial))" by simp
  with base show ?case using ref_inv_initial [of n] by (simp only: ref_inv_def)
qed (rule counter_counts_step)

lemma ref_inv_reachable: "(few_holders_step n)\<^sup>*\<^sup>* ref_initial s \<Longrightarrow> 0 < n \<Longrightarrow> ref_inv n s"
  by (induction rule: rtranclp_induct) (auto simp: few_holders_step_def intro: ref_inv_initial ref_inv_step)

text \<open>A call of \<open>refcnt_inc_if_valid\<close> that no other thread disturbs is one read and one exchange.\<close>

lemma inc_if_valid_steps:
  assumes "t < n" and "getters s t = Resting"
  shows "(ref_step n)\<^sup>*\<^sup>* s (s\<lparr>counter := if counter s = 0 then 0 else counter s + 1,
      refs := (refs s)(t := refs s t + (if counter s = 0 then 0 else 1))\<rparr>)" (is "rtranclp _ _ ?s")
proof -
  let ?t = "s\<lparr>getters := (getters s)(t := Trying (counter s))\<rparr>"
  have rest: "(getters s)(t := Resting) = getters s" using assms(2) by auto
  have "ref_step n s (s\<lparr>counter := counter s, getters := (getters s)(t := Trying (counter s))\<rparr>)"
    by (rule ref_step.get_read) (use assms in \<open>simp_all add: atomic_defs\<close>)
  then have first: "ref_step n s ?t" by simp
  have "ref_step n ?t ?s"
  proof (cases "counter s = 0")
    case True
    have "ref_step n ?t (?t\<lparr>getters := (getters ?t)(t := Resting)\<rparr>)"
      by (rule ref_step.get_dead [OF assms(1), where cur = 0]) (use True in simp_all)
    then have "ref_step n ?t s" using rest by simp
    moreover have same: "?s = s" by (intro shared_object.equality) (simp_all add: True)
    ultimately show ?thesis unfolding same by simp
  next
    case False
    have "ref_step n ?t (?t\<lparr>counter := counter s + 1, getters := (getters ?t)(t := Resting),
        refs := (refs ?t)(t := refs ?t t + 1)\<rparr>)"
      by (rule ref_step.get_taken [OF assms(1), where cur = "counter s" and cur' = "counter s"])
        (use False in \<open>simp_all add: atomic_defs\<close>)
    then show ?thesis using False rest by simp
  qed
  with first show ?thesis by (meson converse_rtranclp_into_rtranclp r_into_rtranclp)
qed

lemma no_holder_stays:
  assumes "ref_step n s t" and "ref_inv n s" and "counter s = 0"
  shows "counter t = 0 \<and> refs t = refs s"
proof -
  have none: "holders n (refs s) = 0"
    using assms(2,3) by (simp add: ref_inv_def)
  show ?thesis
    using assms(1)
  proof (cases rule: ref_step.cases)
    case (get_read u cur v)
    then show ?thesis using assms(3) by (auto simp: atomic_read_def atomic_add_fetch_def hal_atomic_defs)
  next
    case (get_taken u cur cur' v)
    then show ?thesis using assms(3) by (auto simp: atomic_defs split: if_splits)
  next
    case (get_again u cur cur' v)
    then show ?thesis using assms(3) by (auto simp: atomic_defs split: if_splits)
  next
    case (put u final v)
    then show ?thesis using none refs_le_holders [of u n "refs s"] by simp
  qed (use assms(3) in simp_all)
qed

lemma no_holder_for_ever:
  assumes "(ref_step n)\<^sup>*\<^sup>* s t" and "ref_inv n s" and "counter s = 0"
  shows "counter t = 0 \<and> refs t = refs s \<and> ref_inv n t"
  using assms
proof (induction rule: rtranclp_induct)
  case (step t u)
  then have t: "counter t = 0" "refs t = refs s" "ref_inv n t" by simp_all
  have u: "counter u = 0 \<and> refs u = refs t" by (rule no_holder_stays [OF step.hyps(2) t(3,1)])
  moreover have "holders n (refs u) < 2 ^ 31" using u t(3) by (simp add: ref_inv_def)
  ultimately show ?case using ref_inv_step [OF step.hyps(2) t(3)] t(2) by simp
qed simp

section \<open>Properties\<close>

text \<open>
  The atomic operations, on 32 and 64 bits. The \<open>_fetch\<close> operations return the old value and
  the \<open>_return\<close> operations the value stored, in each of add, sub, and, or, xor; the conditional
  additions return the old value and change it exactly when it differs from the excluded one;
  the compare-and-exchange succeeds exactly on the expected value and otherwise reports the
  current one; \<open>sub_and_test\<close> stops the kernel exactly when the result is negative and otherwise
  tells whether it is 0.
\<close>

theorem atomic_operations:
  "atomic_add_fetch v n = (n, n + v) \<and> atomic_sub_fetch v n = (n, n - v) \<and>
   atomic_and_fetch v n = (n, n AND v) \<and> atomic_or_fetch v n = (n, n OR v) \<and>
   atomic_xor_fetch v n = (n, n XOR v) \<and>
   atomic_add_return v n = (n + v, n + v) \<and> atomic_sub_return v n = (n - v, n - v) \<and>
   atomic_and_return v n = (n AND v, n AND v) \<and> atomic_or_return v n = (n OR v, n OR v) \<and>
   atomic_xor_return v n = (n XOR v, n XOR v) \<and>
   atomic_add_fetch_unless u v n = Some (n, if n = u then n else n + v) \<and>
   atomic_sub_fetch_unless u v n = Some (n, if n = u then n else n - v) \<and>
   atomic_try_cmpxchg_fetch u v n = (n = u, n, if n = u then v else n) \<and>
   atomic_sub_and_test v n = (if sint (n - v) < 0 then None else Some (n = v, n - v, n - v)) \<and>
   atomic64_add_fetch v' n' = (n', n' + v') \<and> atomic64_sub_fetch v' n' = (n', n' - v') \<and>
   atomic64_add_return v' n' = (n' + v', n' + v') \<and> atomic64_sub_return v' n' = (n' - v', n' - v') \<and>
   atomic64_add_fetch_unless u' v' n' = Some (n', if n' = u' then n' else n' + v') \<and>
   atomic64_sub_fetch_unless u' v' n' = Some (n', if n' = u' then n' else n' - v') \<and>
   atomic64_try_cmpxchg_fetch u' v' n' = (n' = u', n', if n' = u' then v' else n') \<and>
   atomic64_sub_and_test v' n' = (if sint (n' - v') < 0 then None else Some (n' = v', n' - v', n' - v'))"
  by (simp only: fetch_unless_eq sub_and_test_eq, simp add: atomic_defs atomic64_defs word_sle_eq)

text \<open>
  C12: the life of a counted object shared by \<open>n\<close> threads, whatever the interleaving of their
  accesses. The counter is the number of references modulo its width. A call of
  \<open>refcnt_inc_if_valid\<close> that no other thread disturbs is a run of these steps: it takes a reference
  unless the counter is 0, and then it leaves the counter alone. On a run that never has
  \<open>2 ^ 31\<close> references the counter is the number of references, no assertion of
  \<open>refcnt_dec_and_test\<close> fails, the last reference is reported once, at the moment the counter
  becomes 0, and from then on no thread obtains a reference: the counter is never revived.
\<close>

theorem refcount_lifecycle:
  assumes "0 < n" and "(ref_step n)\<^sup>*\<^sup>* ref_initial s"
  shows "unat (counter s) = (\<Sum>t<n. refs s t) mod 2 ^ 32 \<and>
    (\<forall>t<n. getters s t = Resting \<longrightarrow> (\<exists>v. refcnt_inc_if_valid (counter s) = Some (counter s, v) \<and>
       (counter s = 0 \<longrightarrow> v = 0) \<and>
       (ref_step n)\<^sup>*\<^sup>* s (s\<lparr>counter := v, refs := (refs s)(t := refs s t + (if counter s = 0 then 0 else 1))\<rparr>))) \<and>
    ((few_holders_step n)\<^sup>*\<^sup>* ref_initial s \<longrightarrow>
       unat (counter s) = (\<Sum>t<n. refs s t) \<and> \<not> asserted s \<and>
       frees s = (if \<forall>t<n. refs s t = 0 then 1 else 0) \<and>
       (\<forall>t. (ref_step n)\<^sup>*\<^sup>* s t \<and> counter s = 0 \<longrightarrow> counter t = 0 \<and> (\<forall>u<n. refs t u = 0) \<and> frees t = 1))"
proof (intro conjI allI impI)
  show "unat (counter s) = (\<Sum>t<n. refs s t) mod 2 ^ 32"
    unfolding counter_counts [OF assms(2,1)] holders_def by (simp only: unat_of_nat) simp
  show "\<exists>v. refcnt_inc_if_valid (counter s) = Some (counter s, v) \<and> (counter s = 0 \<longrightarrow> v = 0) \<and>
      (ref_step n)\<^sup>*\<^sup>* s (s\<lparr>counter := v, refs := (refs s)(t := refs s t + (if counter s = 0 then 0 else 1))\<rparr>)"
    if "t < n" "getters s t = Resting" for t
    using inc_if_valid_steps [OF that] by simp
next
  assume "(few_holders_step n)\<^sup>*\<^sup>* ref_initial s"
  then have inv: "ref_inv n s" using assms(1) ref_inv_reachable by blast
  then show "unat (counter s) = (\<Sum>t<n. refs s t)" "\<not> asserted s"
    "frees s = (if \<forall>t<n. refs s t = 0 then 1 else 0)"
    by (auto simp: ref_inv_def holders_def)
  fix t
  assume "(ref_step n)\<^sup>*\<^sup>* s t \<and> counter s = 0"
  then have *: "counter t = 0 \<and> refs t = refs s \<and> ref_inv n t" using no_holder_for_ever [OF _ inv] by blast
  then show "counter t = 0" "frees t = 1" by (auto simp: ref_inv_def)
  from * have "holders n (refs t) = 0" by (simp only: ref_inv_def) (metis unat_0)
  then show "refs t u = 0" if "u < n" for u using that refs_le_holders [of u n "refs t"] by simp
qed

text \<open>Thread 1 takes a reference, thread 0 gives up its own, and thread 1 releases the object.\<close>

definition taken_object :: shared_object where
  "taken_object = ref_initial\<lparr>counter := 2, refs := (\<lambda>_. 0)(0 := 1, 1 := 1)\<rparr>"

definition released_object :: shared_object where
  "released_object = ref_initial\<lparr>counter := 0, refs := (\<lambda>_. 0)(0 := 0, 1 := 0), frees := 1\<rparr>"

lemma released_object_run: "(few_holders_step 2)\<^sup>*\<^sup>* ref_initial released_object"
proof -
  let ?a = "ref_initial\<lparr>getters := (\<lambda>_. Resting)(1 := Trying 1)\<rparr>"
  let ?c = "ref_initial\<lparr>counter := 1, refs := (\<lambda>_. 0)(0 := 0, 1 := 1)\<rparr>"
  have two: "holders 2 r = r 0 + r 1" for r by (simp add: holders_def numeral_2_eq_2)
  have init: "counter ref_initial = 1" "getters ref_initial = (\<lambda>_. Resting)" "refs ref_initial = (\<lambda>_. 0)(0 := 1)"
    "frees ref_initial = 0" "\<not> asserted ref_initial"
    by (simp_all add: ref_initial_def refcnt_init_def REFCNT_INITIAL_VAL_def)
  have "ref_step 2 ref_initial (ref_initial\<lparr>counter := 1, getters := (getters ref_initial)(1 := Trying 1)\<rparr>)"
    by (rule ref_step.get_read) (simp_all add: init atomic_defs)
  also have "ref_initial\<lparr>counter := 1, getters := (getters ref_initial)(1 := Trying 1)\<rparr> = ?a"
    by (intro shared_object.equality) (simp_all add: init)
  finally have 1: "few_holders_step 2 ref_initial ?a" unfolding few_holders_step_def by (rule conjI) (simp add: two init)
  have "ref_step 2 ?a (?a\<lparr>counter := 2, getters := (getters ?a)(1 := Resting), refs := (refs ?a)(1 := refs ?a 1 + 1)\<rparr>)"
    by (rule ref_step.get_taken [where cur = 1 and cur' = 1]) (simp_all add: init atomic_defs)
  also have "?a\<lparr>counter := 2, getters := (getters ?a)(1 := Resting), refs := (refs ?a)(1 := refs ?a 1 + 1)\<rparr> = taken_object"
    by (intro shared_object.equality) (simp_all add: init taken_object_def fun_eq_iff)
  finally have 2: "few_holders_step 2 ?a taken_object" unfolding few_holders_step_def by (rule conjI) (simp add: two taken_object_def)
  have pos: "(0 :: u32) \<le>s 2 - 1" "(0 :: u32) \<le>s 1 - 1" by code_simp+
  have "ref_step 2 taken_object (taken_object\<lparr>counter := 1, refs := (refs taken_object)(0 := refs taken_object 0 - 1),
      frees := frees taken_object + (if False then 1 else 0)\<rparr>)"
    by (rule ref_step.put [where final = False]) (use pos in \<open>simp_all add: taken_object_def\<close>)
  also have "taken_object\<lparr>counter := 1, refs := (refs taken_object)(0 := refs taken_object 0 - 1),
      frees := frees taken_object + (if False then 1 else 0)\<rparr> = ?c"
    by (intro shared_object.equality) (simp_all add: init taken_object_def fun_eq_iff)
  finally have 3: "few_holders_step 2 taken_object ?c" unfolding few_holders_step_def by (rule conjI) (simp add: two)
  have "ref_step 2 ?c (?c\<lparr>counter := 0, refs := (refs ?c)(1 := refs ?c 1 - 1), frees := frees ?c + (if True then 1 else 0)\<rparr>)"
    by (rule ref_step.put [where final = True]) (use pos in simp_all)
  also have "?c\<lparr>counter := 0, refs := (refs ?c)(1 := refs ?c 1 - 1), frees := frees ?c + (if True then 1 else 0)\<rparr> = released_object"
    by (intro shared_object.equality) (simp_all add: init released_object_def fun_eq_iff)
  finally have 4: "few_holders_step 2 ?c released_object" unfolding few_holders_step_def by (rule conjI) (simp add: two released_object_def)
  from 1 2 3 4 show ?thesis by (meson converse_rtranclp_into_rtranclp r_into_rtranclp)
qed

theorem refcount_lifecycle_witness:
  "(ref_step 2)\<^sup>*\<^sup>* ref_initial released_object \<and> unat (counter released_object) = 0 \<and>
   frees released_object = 1 \<and> \<not> asserted released_object"
proof -
  have run: "(ref_step 2)\<^sup>*\<^sup>* ref_initial released_object"
    using released_object_run by (rule rtranclp_mono [THEN predicate2D, rotated]) (auto simp: few_holders_step_def)
  have "unat (counter released_object) = (\<Sum>t<2. refs released_object t)" "\<not> asserted released_object"
    "frees released_object = (if \<forall>t<2. refs released_object t = 0 then 1 else 0)"
    using refcount_lifecycle [OF _ run] released_object_run by simp_all
  then show ?thesis using run by (simp add: released_object_def)
qed

text \<open>
  C13: \<open>refcnt_dec_and_lock\<close> and \<open>refcnt_dec_and_lock_disable_intr\<close> on a live counter and a free
  lock. The caller that drops the last reference comes back with the lock held (and interrupts
  masked, the state to restore being handed out); every other caller finds the lock and the
  interrupt state as they were.
\<close>

theorem refcnt_dec_and_lock_holds:
  assumes "lock_free l" and "0 <s (n :: u32)"
  shows "refcnt_dec_and_lock n l = Some (n = 1, n - 1, if n = 1 then lock_taken l else l) \<and>
    refcnt_dec_and_lock_disable_intr n l c =
      Some (n = 1, n - 1, sstatus c, if n = 1 then lock_taken l else l,
            if n = 1 then rv64_cpu_disable_interrupt c else c) \<and>
    spinlock_unlock_restore_intr (sstatus c) (lock_taken l) (rv64_cpu_disable_interrupt c) = Some (l, c)"
proof -
  have "0 \<le>s n - 1"
    using word_pred_nonneg [OF refl] sless_unat [OF assms(2)] by blast
  then show ?thesis
    using assms by (simp add: refcnt_dec_and_lock_def refcnt_dec_and_lock_disable_intr_def
        spinlock_lock_def spinlock_unlock_def)
qed

theorem refcnt_dec_and_lock_holds_witness:
  "refcnt_dec_and_lock 2 spinlock_init = Some (False, 1, spinlock_init) \<and>
   refcnt_dec_and_lock 1 spinlock_init = Some (True, 0, lock_taken spinlock_init)"
proof -
  have pos: "0 <s (2 :: u32)" "0 <s (1 :: u32)" by code_simp+
  from refcnt_dec_and_lock_holds [OF lock_init_free pos(1)] refcnt_dec_and_lock_holds [OF lock_init_free pos(2)]
  show ?thesis by simp
qed

end
