(* ===== verification/PageFrame.thy ===== *)
theory PageFrame
  imports Prelude
begin

unbundle bit_operations_syntax

text \<open>
  Page frames (include/kern/page-pframe.h): the state flags of a frame and the macros that test
  and change them. The record has the members the page frame database works with; the lock of the
  frame, its queue of virtual addresses, its entry in the LRU list and its pointers to a slab and a
  page cache are initialised with the frame and used by other components only. The back pointer
  \<open>buddyp\<close> is the pool that holds the frame, and \<open>headp\<close> is an index of the pool's array.
\<close>

section \<open>Flags\<close>

definition PAGE_STATE_USED :: u32 where "PAGE_STATE_USED = 0x1"

definition PAGE_STATE_RESERVED :: u32 where "PAGE_STATE_RESERVED = 0x2"

definition PAGE_STATE_CLUSTERED :: u32 where "PAGE_STATE_CLUSTERED = 0x4"

definition PAGE_STATE_UCASE_KERN :: u32 where "PAGE_STATE_UCASE_KERN = 0x10"

definition PAGE_STATE_UCASE_KSTACK :: u32 where "PAGE_STATE_UCASE_KSTACK = 0x20"

definition PAGE_STATE_UCASE_PGTBL :: u32 where "PAGE_STATE_UCASE_PGTBL = 0x40"

definition PAGE_STATE_UCASE_SLAB :: u32 where "PAGE_STATE_UCASE_SLAB = 0x80"

definition PAGE_STATE_UCASE_ANON :: u32 where "PAGE_STATE_UCASE_ANON = 0x100"

definition PAGE_STATE_UCASE_PCACHE :: u32 where "PAGE_STATE_UCASE_PCACHE = 0x200"

definition PAGE_STATE_UCASE_MASK :: u32 where
  "PAGE_STATE_UCASE_MASK =
     PAGE_STATE_UCASE_KERN OR PAGE_STATE_UCASE_KSTACK OR PAGE_STATE_UCASE_PGTBL OR
     PAGE_STATE_UCASE_SLAB OR PAGE_STATE_UCASE_ANON OR PAGE_STATE_UCASE_PCACHE"

text \<open>The usages of include/kern/page-if.h are the flags themselves.\<close>

type_synonym page_usage = u32

section \<open>Frames\<close>

record page_frame =
  pf_state :: u32
  pf_arch_state :: u32
  pf_pfn :: nat
  pf_usecnt :: u32
  pf_mapcnt :: u32
  pf_order :: nat
  pf_headp :: "nat option"

definition PAGE_STATE_NOT_FREED :: "page_frame \<Rightarrow> bool" where
  "PAGE_STATE_NOT_FREED pf \<longleftrightarrow> pf_state pf AND (PAGE_STATE_USED OR PAGE_STATE_RESERVED) \<noteq> 0"

definition PAGE_MARK_RESERVED :: "page_frame \<Rightarrow> page_frame" where
  "PAGE_MARK_RESERVED pf = pf\<lparr>pf_state := pf_state pf OR PAGE_STATE_RESERVED\<rparr>"

definition PAGE_UNMARK_RESERVED :: "page_frame \<Rightarrow> page_frame" where
  "PAGE_UNMARK_RESERVED pf = pf\<lparr>pf_state := pf_state pf AND NOT PAGE_STATE_RESERVED\<rparr>"

definition PAGE_MARK_USED :: "page_frame \<Rightarrow> page_frame" where
  "PAGE_MARK_USED pf = pf\<lparr>pf_state := pf_state pf OR PAGE_STATE_USED\<rparr>"

definition PAGE_UNMARK_USED :: "page_frame \<Rightarrow> page_frame" where
  "PAGE_UNMARK_USED pf = pf\<lparr>pf_state := pf_state pf AND NOT PAGE_STATE_USED\<rparr>"

definition PAGE_IS_USED :: "page_frame \<Rightarrow> bool" where
  "PAGE_IS_USED pf \<longleftrightarrow> pf_state pf AND PAGE_STATE_USED \<noteq> 0"

definition PAGE_MARK_CLUSTERED :: "nat \<Rightarrow> page_frame \<Rightarrow> page_frame" where
  "PAGE_MARK_CLUSTERED head pf =
     pf\<lparr>pf_state := pf_state pf OR PAGE_STATE_CLUSTERED, pf_headp := Some head\<rparr>"

definition PAGE_UNMARK_CLUSTERED :: "page_frame \<Rightarrow> page_frame" where
  "PAGE_UNMARK_CLUSTERED pf =
     pf\<lparr>pf_state := pf_state pf AND NOT PAGE_STATE_CLUSTERED, pf_headp := None\<rparr>"

definition PAGE_IS_CLUSTERED :: "page_frame \<Rightarrow> bool" where
  "PAGE_IS_CLUSTERED pf \<longleftrightarrow> pf_state pf AND PAGE_STATE_CLUSTERED \<noteq> 0"

definition PAGE_IS_RESERVED :: "page_frame \<Rightarrow> bool" where
  "PAGE_IS_RESERVED pf \<longleftrightarrow> pf_state pf AND PAGE_STATE_RESERVED \<noteq> 0"

definition PAGE_MARK_KERN :: "page_frame \<Rightarrow> page_frame" where
  "PAGE_MARK_KERN pf = pf\<lparr>pf_state := pf_state pf OR PAGE_STATE_UCASE_KERN\<rparr>"

definition PAGE_UNMARK_KERN :: "page_frame \<Rightarrow> page_frame" where
  "PAGE_UNMARK_KERN pf = pf\<lparr>pf_state := pf_state pf AND NOT PAGE_STATE_UCASE_KERN\<rparr>"

definition PAGE_USED_BY_KERN :: "page_frame \<Rightarrow> bool" where
  "PAGE_USED_BY_KERN pf \<longleftrightarrow> pf_state pf AND PAGE_STATE_UCASE_KERN \<noteq> 0"

definition PAGE_MARK_PGTBL :: "page_frame \<Rightarrow> page_frame" where
  "PAGE_MARK_PGTBL pf = pf\<lparr>pf_state := pf_state pf OR PAGE_STATE_UCASE_PGTBL\<rparr>"

definition PAGE_UNMARK_PGTBL :: "page_frame \<Rightarrow> page_frame" where
  "PAGE_UNMARK_PGTBL pf = pf\<lparr>pf_state := pf_state pf AND NOT PAGE_STATE_UCASE_PGTBL\<rparr>"

definition PAGE_USED_BY_PGTBL :: "page_frame \<Rightarrow> bool" where
  "PAGE_USED_BY_PGTBL pf \<longleftrightarrow> pf_state pf AND PAGE_STATE_UCASE_PGTBL \<noteq> 0"

definition PAGE_MARK_KSTACK :: "page_frame \<Rightarrow> page_frame" where
  "PAGE_MARK_KSTACK pf = pf\<lparr>pf_state := pf_state pf OR PAGE_STATE_UCASE_KSTACK\<rparr>"

definition PAGE_UNMARK_KSTACK :: "page_frame \<Rightarrow> page_frame" where
  "PAGE_UNMARK_KSTACK pf = pf\<lparr>pf_state := pf_state pf AND NOT PAGE_STATE_UCASE_KSTACK\<rparr>"

definition PAGE_USED_BY_KSTACK :: "page_frame \<Rightarrow> bool" where
  "PAGE_USED_BY_KSTACK pf \<longleftrightarrow> pf_state pf AND PAGE_STATE_UCASE_KSTACK \<noteq> 0"

definition PAGE_MARK_SLAB :: "page_frame \<Rightarrow> page_frame" where
  "PAGE_MARK_SLAB pf = pf\<lparr>pf_state := pf_state pf OR PAGE_STATE_UCASE_SLAB\<rparr>"

definition PAGE_UNMARK_SLAB :: "page_frame \<Rightarrow> page_frame" where
  "PAGE_UNMARK_SLAB pf = pf\<lparr>pf_state := pf_state pf AND NOT PAGE_STATE_UCASE_SLAB\<rparr>"

definition PAGE_USED_BY_SLAB :: "page_frame \<Rightarrow> bool" where
  "PAGE_USED_BY_SLAB pf \<longleftrightarrow> pf_state pf AND PAGE_STATE_UCASE_SLAB \<noteq> 0"

definition PAGE_MARK_ANON :: "page_frame \<Rightarrow> page_frame" where
  "PAGE_MARK_ANON pf = pf\<lparr>pf_state := pf_state pf OR PAGE_STATE_UCASE_ANON\<rparr>"

definition PAGE_UNMARK_ANON :: "page_frame \<Rightarrow> page_frame" where
  "PAGE_UNMARK_ANON pf = pf\<lparr>pf_state := pf_state pf AND NOT PAGE_STATE_UCASE_ANON\<rparr>"

definition PAGE_USED_BY_ANON :: "page_frame \<Rightarrow> bool" where
  "PAGE_USED_BY_ANON pf \<longleftrightarrow> pf_state pf AND PAGE_STATE_UCASE_ANON \<noteq> 0"

definition PAGE_MARK_PCACHE :: "page_frame \<Rightarrow> page_frame" where
  "PAGE_MARK_PCACHE pf = pf\<lparr>pf_state := pf_state pf OR PAGE_STATE_UCASE_PCACHE\<rparr>"

definition PAGE_UNMARK_PCACHE :: "page_frame \<Rightarrow> page_frame" where
  "PAGE_UNMARK_PCACHE pf = pf\<lparr>pf_state := pf_state pf AND NOT PAGE_STATE_UCASE_PCACHE\<rparr>"

definition PAGE_USED_BY_PCACHE :: "page_frame \<Rightarrow> bool" where
  "PAGE_USED_BY_PCACHE pf \<longleftrightarrow> pf_state pf AND PAGE_STATE_UCASE_PCACHE \<noteq> 0"

definition PAGE_CLEAR_USECASE :: "page_frame \<Rightarrow> page_frame" where
  "PAGE_CLEAR_USECASE pf = pf\<lparr>pf_state := pf_state pf AND NOT PAGE_STATE_UCASE_MASK\<rparr>"

section \<open>The flags as bits\<close>

lemma page_state_bits:
  "PAGE_STATE_USED = 2 ^ 0" "PAGE_STATE_RESERVED = 2 ^ 1" "PAGE_STATE_CLUSTERED = 2 ^ 2"
  "PAGE_STATE_UCASE_KERN = 2 ^ 4" "PAGE_STATE_UCASE_KSTACK = 2 ^ 5" "PAGE_STATE_UCASE_PGTBL = 2 ^ 6"
  "PAGE_STATE_UCASE_SLAB = 2 ^ 7" "PAGE_STATE_UCASE_ANON = 2 ^ 8" "PAGE_STATE_UCASE_PCACHE = 2 ^ 9"
  by (simp_all add: PAGE_STATE_USED_def PAGE_STATE_RESERVED_def PAGE_STATE_CLUSTERED_def
      PAGE_STATE_UCASE_KERN_def PAGE_STATE_UCASE_KSTACK_def PAGE_STATE_UCASE_PGTBL_def
      PAGE_STATE_UCASE_SLAB_def PAGE_STATE_UCASE_ANON_def PAGE_STATE_UCASE_PCACHE_def)

lemma bit_flag: "n < 32 \<Longrightarrow> bit ((2::u32) ^ n) m \<longleftrightarrow> m = n"
  by (auto simp: bit_exp_iff)

lemma page_tests:
  "PAGE_IS_USED pf \<longleftrightarrow> bit (pf_state pf) 0"
  "PAGE_IS_RESERVED pf \<longleftrightarrow> bit (pf_state pf) 1"
  "PAGE_IS_CLUSTERED pf \<longleftrightarrow> bit (pf_state pf) 2"
  "PAGE_USED_BY_KERN pf \<longleftrightarrow> bit (pf_state pf) 4"
  "PAGE_USED_BY_KSTACK pf \<longleftrightarrow> bit (pf_state pf) 5"
  "PAGE_USED_BY_PGTBL pf \<longleftrightarrow> bit (pf_state pf) 6"
  "PAGE_USED_BY_SLAB pf \<longleftrightarrow> bit (pf_state pf) 7"
  "PAGE_USED_BY_ANON pf \<longleftrightarrow> bit (pf_state pf) 8"
  "PAGE_USED_BY_PCACHE pf \<longleftrightarrow> bit (pf_state pf) 9"
  by (simp_all only: PAGE_IS_USED_def PAGE_IS_RESERVED_def PAGE_IS_CLUSTERED_def PAGE_USED_BY_KERN_def
      PAGE_USED_BY_KSTACK_def PAGE_USED_BY_PGTBL_def PAGE_USED_BY_SLAB_def PAGE_USED_BY_ANON_def
      PAGE_USED_BY_PCACHE_def page_state_bits and_exp_eq_0_iff_not_bit not_not)

lemma and_or_eq_0: "(a :: u32) AND (b OR c) = 0 \<longleftrightarrow> a AND b = 0 \<and> a AND c = 0"
  by (simp add: bit.conj_disj_distrib or_eq_0_iff)

lemma page_not_freed: "PAGE_STATE_NOT_FREED pf \<longleftrightarrow> PAGE_IS_USED pf \<or> PAGE_IS_RESERVED pf"
  by (auto simp: PAGE_STATE_NOT_FREED_def PAGE_IS_USED_def PAGE_IS_RESERVED_def and_or_eq_0)

definition page_unused :: "page_frame \<Rightarrow> bool" where
  "page_unused pf \<longleftrightarrow> pf_state pf AND PAGE_STATE_UCASE_MASK = 0"

lemma page_unused_bits: "page_unused pf \<longleftrightarrow> (\<forall>k\<in>{4,5,6,7,8,9}. \<not> bit (pf_state pf) k)"
  by (simp add: page_unused_def PAGE_STATE_UCASE_MASK_def and_or_eq_0 page_state_bits(4-)
      and_exp_eq_0_iff_not_bit del: power_numeral)

lemmas page_mark_defs = PAGE_MARK_RESERVED_def PAGE_UNMARK_RESERVED_def PAGE_MARK_USED_def
  PAGE_UNMARK_USED_def PAGE_MARK_CLUSTERED_def PAGE_UNMARK_CLUSTERED_def
  PAGE_MARK_KERN_def PAGE_MARK_KSTACK_def PAGE_MARK_PGTBL_def PAGE_MARK_SLAB_def PAGE_MARK_ANON_def
  PAGE_MARK_PCACHE_def PAGE_UNMARK_KERN_def PAGE_UNMARK_KSTACK_def PAGE_UNMARK_PGTBL_def
  PAGE_UNMARK_SLAB_def PAGE_UNMARK_ANON_def PAGE_UNMARK_PCACHE_def PAGE_CLEAR_USECASE_def

lemmas page_flag_simps = page_mark_defs page_tests page_not_freed page_unused_bits page_state_bits
  bit_or_iff bit_and_iff bit_not_iff bit_flag

lemma page_other_fields [simp]:
  "pf_order (PAGE_MARK_RESERVED pf) = pf_order pf" "pf_pfn (PAGE_MARK_RESERVED pf) = pf_pfn pf"
  "pf_usecnt (PAGE_MARK_RESERVED pf) = pf_usecnt pf" "pf_mapcnt (PAGE_MARK_RESERVED pf) = pf_mapcnt pf"
  "pf_order (PAGE_UNMARK_RESERVED pf) = pf_order pf" "pf_pfn (PAGE_UNMARK_RESERVED pf) = pf_pfn pf"
  "pf_usecnt (PAGE_UNMARK_RESERVED pf) = pf_usecnt pf" "pf_mapcnt (PAGE_UNMARK_RESERVED pf) = pf_mapcnt pf"
  "pf_order (PAGE_MARK_USED pf) = pf_order pf" "pf_pfn (PAGE_MARK_USED pf) = pf_pfn pf"
  "pf_usecnt (PAGE_MARK_USED pf) = pf_usecnt pf" "pf_mapcnt (PAGE_MARK_USED pf) = pf_mapcnt pf"
  "pf_order (PAGE_UNMARK_USED pf) = pf_order pf" "pf_pfn (PAGE_UNMARK_USED pf) = pf_pfn pf"
  "pf_usecnt (PAGE_UNMARK_USED pf) = pf_usecnt pf" "pf_mapcnt (PAGE_UNMARK_USED pf) = pf_mapcnt pf"
  "pf_order (PAGE_MARK_CLUSTERED h pf) = pf_order pf" "pf_pfn (PAGE_MARK_CLUSTERED h pf) = pf_pfn pf"
  "pf_usecnt (PAGE_MARK_CLUSTERED h pf) = pf_usecnt pf" "pf_mapcnt (PAGE_MARK_CLUSTERED h pf) = pf_mapcnt pf"
  "pf_order (PAGE_UNMARK_CLUSTERED pf) = pf_order pf" "pf_pfn (PAGE_UNMARK_CLUSTERED pf) = pf_pfn pf"
  "pf_usecnt (PAGE_UNMARK_CLUSTERED pf) = pf_usecnt pf" "pf_mapcnt (PAGE_UNMARK_CLUSTERED pf) = pf_mapcnt pf"
  "pf_order (PAGE_MARK_KERN pf) = pf_order pf" "pf_pfn (PAGE_MARK_KERN pf) = pf_pfn pf"
  "pf_usecnt (PAGE_MARK_KERN pf) = pf_usecnt pf" "pf_mapcnt (PAGE_MARK_KERN pf) = pf_mapcnt pf"
  "pf_order (PAGE_MARK_KSTACK pf) = pf_order pf" "pf_pfn (PAGE_MARK_KSTACK pf) = pf_pfn pf"
  "pf_usecnt (PAGE_MARK_KSTACK pf) = pf_usecnt pf" "pf_mapcnt (PAGE_MARK_KSTACK pf) = pf_mapcnt pf"
  "pf_order (PAGE_MARK_PGTBL pf) = pf_order pf" "pf_pfn (PAGE_MARK_PGTBL pf) = pf_pfn pf"
  "pf_usecnt (PAGE_MARK_PGTBL pf) = pf_usecnt pf" "pf_mapcnt (PAGE_MARK_PGTBL pf) = pf_mapcnt pf"
  "pf_order (PAGE_MARK_SLAB pf) = pf_order pf" "pf_pfn (PAGE_MARK_SLAB pf) = pf_pfn pf"
  "pf_usecnt (PAGE_MARK_SLAB pf) = pf_usecnt pf" "pf_mapcnt (PAGE_MARK_SLAB pf) = pf_mapcnt pf"
  "pf_order (PAGE_MARK_ANON pf) = pf_order pf" "pf_pfn (PAGE_MARK_ANON pf) = pf_pfn pf"
  "pf_usecnt (PAGE_MARK_ANON pf) = pf_usecnt pf" "pf_mapcnt (PAGE_MARK_ANON pf) = pf_mapcnt pf"
  "pf_order (PAGE_MARK_PCACHE pf) = pf_order pf" "pf_pfn (PAGE_MARK_PCACHE pf) = pf_pfn pf"
  "pf_usecnt (PAGE_MARK_PCACHE pf) = pf_usecnt pf" "pf_mapcnt (PAGE_MARK_PCACHE pf) = pf_mapcnt pf"
  "pf_order (PAGE_UNMARK_KERN pf) = pf_order pf" "pf_pfn (PAGE_UNMARK_KERN pf) = pf_pfn pf"
  "pf_usecnt (PAGE_UNMARK_KERN pf) = pf_usecnt pf" "pf_mapcnt (PAGE_UNMARK_KERN pf) = pf_mapcnt pf"
  "pf_order (PAGE_UNMARK_KSTACK pf) = pf_order pf" "pf_pfn (PAGE_UNMARK_KSTACK pf) = pf_pfn pf"
  "pf_usecnt (PAGE_UNMARK_KSTACK pf) = pf_usecnt pf" "pf_mapcnt (PAGE_UNMARK_KSTACK pf) = pf_mapcnt pf"
  "pf_order (PAGE_UNMARK_PGTBL pf) = pf_order pf" "pf_pfn (PAGE_UNMARK_PGTBL pf) = pf_pfn pf"
  "pf_usecnt (PAGE_UNMARK_PGTBL pf) = pf_usecnt pf" "pf_mapcnt (PAGE_UNMARK_PGTBL pf) = pf_mapcnt pf"
  "pf_order (PAGE_UNMARK_SLAB pf) = pf_order pf" "pf_pfn (PAGE_UNMARK_SLAB pf) = pf_pfn pf"
  "pf_usecnt (PAGE_UNMARK_SLAB pf) = pf_usecnt pf" "pf_mapcnt (PAGE_UNMARK_SLAB pf) = pf_mapcnt pf"
  "pf_order (PAGE_UNMARK_ANON pf) = pf_order pf" "pf_pfn (PAGE_UNMARK_ANON pf) = pf_pfn pf"
  "pf_usecnt (PAGE_UNMARK_ANON pf) = pf_usecnt pf" "pf_mapcnt (PAGE_UNMARK_ANON pf) = pf_mapcnt pf"
  "pf_order (PAGE_UNMARK_PCACHE pf) = pf_order pf" "pf_pfn (PAGE_UNMARK_PCACHE pf) = pf_pfn pf"
  "pf_usecnt (PAGE_UNMARK_PCACHE pf) = pf_usecnt pf" "pf_mapcnt (PAGE_UNMARK_PCACHE pf) = pf_mapcnt pf"
  by (simp_all add: page_mark_defs)

lemma page_tests_after [simp]:
  "PAGE_IS_USED (PAGE_MARK_RESERVED pf) \<longleftrightarrow> PAGE_IS_USED pf"
  "PAGE_IS_RESERVED (PAGE_MARK_RESERVED pf) \<longleftrightarrow> True"
  "PAGE_IS_USED (PAGE_UNMARK_RESERVED pf) \<longleftrightarrow> PAGE_IS_USED pf"
  "PAGE_IS_RESERVED (PAGE_UNMARK_RESERVED pf) \<longleftrightarrow> False"
  "PAGE_IS_USED (PAGE_MARK_USED pf) \<longleftrightarrow> True"
  "PAGE_IS_RESERVED (PAGE_MARK_USED pf) \<longleftrightarrow> PAGE_IS_RESERVED pf"
  "PAGE_IS_USED (PAGE_UNMARK_USED pf) \<longleftrightarrow> False"
  "PAGE_IS_RESERVED (PAGE_UNMARK_USED pf) \<longleftrightarrow> PAGE_IS_RESERVED pf"
  "PAGE_IS_USED (PAGE_MARK_CLUSTERED h pf) \<longleftrightarrow> PAGE_IS_USED pf"
  "PAGE_IS_RESERVED (PAGE_MARK_CLUSTERED h pf) \<longleftrightarrow> PAGE_IS_RESERVED pf"
  "PAGE_IS_USED (PAGE_UNMARK_CLUSTERED pf) \<longleftrightarrow> PAGE_IS_USED pf"
  "PAGE_IS_RESERVED (PAGE_UNMARK_CLUSTERED pf) \<longleftrightarrow> PAGE_IS_RESERVED pf"
  "PAGE_IS_USED (PAGE_MARK_KERN pf) \<longleftrightarrow> PAGE_IS_USED pf"
  "PAGE_IS_RESERVED (PAGE_MARK_KERN pf) \<longleftrightarrow> PAGE_IS_RESERVED pf"
  "PAGE_IS_USED (PAGE_MARK_KSTACK pf) \<longleftrightarrow> PAGE_IS_USED pf"
  "PAGE_IS_RESERVED (PAGE_MARK_KSTACK pf) \<longleftrightarrow> PAGE_IS_RESERVED pf"
  "PAGE_IS_USED (PAGE_MARK_PGTBL pf) \<longleftrightarrow> PAGE_IS_USED pf"
  "PAGE_IS_RESERVED (PAGE_MARK_PGTBL pf) \<longleftrightarrow> PAGE_IS_RESERVED pf"
  "PAGE_IS_USED (PAGE_MARK_SLAB pf) \<longleftrightarrow> PAGE_IS_USED pf"
  "PAGE_IS_RESERVED (PAGE_MARK_SLAB pf) \<longleftrightarrow> PAGE_IS_RESERVED pf"
  "PAGE_IS_USED (PAGE_MARK_ANON pf) \<longleftrightarrow> PAGE_IS_USED pf"
  "PAGE_IS_RESERVED (PAGE_MARK_ANON pf) \<longleftrightarrow> PAGE_IS_RESERVED pf"
  "PAGE_IS_USED (PAGE_MARK_PCACHE pf) \<longleftrightarrow> PAGE_IS_USED pf"
  "PAGE_IS_RESERVED (PAGE_MARK_PCACHE pf) \<longleftrightarrow> PAGE_IS_RESERVED pf"
  "PAGE_IS_USED (PAGE_UNMARK_KERN pf) \<longleftrightarrow> PAGE_IS_USED pf"
  "PAGE_IS_RESERVED (PAGE_UNMARK_KERN pf) \<longleftrightarrow> PAGE_IS_RESERVED pf"
  "PAGE_IS_USED (PAGE_UNMARK_KSTACK pf) \<longleftrightarrow> PAGE_IS_USED pf"
  "PAGE_IS_RESERVED (PAGE_UNMARK_KSTACK pf) \<longleftrightarrow> PAGE_IS_RESERVED pf"
  "PAGE_IS_USED (PAGE_UNMARK_PGTBL pf) \<longleftrightarrow> PAGE_IS_USED pf"
  "PAGE_IS_RESERVED (PAGE_UNMARK_PGTBL pf) \<longleftrightarrow> PAGE_IS_RESERVED pf"
  "PAGE_IS_USED (PAGE_UNMARK_SLAB pf) \<longleftrightarrow> PAGE_IS_USED pf"
  "PAGE_IS_RESERVED (PAGE_UNMARK_SLAB pf) \<longleftrightarrow> PAGE_IS_RESERVED pf"
  "PAGE_IS_USED (PAGE_UNMARK_ANON pf) \<longleftrightarrow> PAGE_IS_USED pf"
  "PAGE_IS_RESERVED (PAGE_UNMARK_ANON pf) \<longleftrightarrow> PAGE_IS_RESERVED pf"
  "PAGE_IS_USED (PAGE_UNMARK_PCACHE pf) \<longleftrightarrow> PAGE_IS_USED pf"
  "PAGE_IS_RESERVED (PAGE_UNMARK_PCACHE pf) \<longleftrightarrow> PAGE_IS_RESERVED pf"
  "page_unused (PAGE_MARK_RESERVED pf) \<longleftrightarrow> page_unused pf"
  "page_unused (PAGE_UNMARK_RESERVED pf) \<longleftrightarrow> page_unused pf"
  "page_unused (PAGE_MARK_USED pf) \<longleftrightarrow> page_unused pf"
  "page_unused (PAGE_UNMARK_USED pf) \<longleftrightarrow> page_unused pf"
  "page_unused (PAGE_MARK_CLUSTERED h pf) \<longleftrightarrow> page_unused pf"
  "page_unused (PAGE_UNMARK_CLUSTERED pf) \<longleftrightarrow> page_unused pf"
  "PAGE_IS_CLUSTERED (PAGE_MARK_CLUSTERED h pf)"
  "\<not> PAGE_IS_CLUSTERED (PAGE_UNMARK_CLUSTERED pf)"
  "pf_headp (PAGE_MARK_CLUSTERED h pf) = Some h"
  by (simp_all add: page_flag_simps del: power_numeral)

end
