(* ===== verification/Buddy.thy ===== *)
theory Buddy
  imports Queue PageFrame Atomic
begin

unbundle bit_operations_syntax

text \<open>
  The buddy pool of one memory area (kern/page-pfdb.c, include/kern/page-pfdb.h): allocation and
  release of blocks of \<open>2 ^ order\<close> page frames. The frames are the list \<open>array\<close>, a frame is
  named by its index; the queues \<open>page_list[order]\<close> and the links of the frames live in the store
  \<open>links\<close> of theory \<open>Queue\<close>, at the addresses \<open>PageList order\<close> and \<open>PageLink index\<close>. Counters are
  64-bit words, indexes and orders natural numbers (an order is less than 11, an index less than
  the number of frames). A failed \<open>kassert\<close> is \<open>None\<close>.
\<close>

section \<open>The pool\<close>

definition PAGE_POOL_MAX_ORDER :: nat where
  "PAGE_POOL_MAX_ORDER = 11"

datatype pool_node = PageList nat | PageLink nat

record page_buddy =
  pool_lock :: spinlock
  free_nr :: "u64 list"
  links :: "pool_node lstore"
  nr_pages :: nat
  available_pages :: u64
  kdata_pages :: u64
  kstack_pages :: u64
  pgtbl_pages :: u64
  slab_pages :: u64
  anon_pages :: u64
  pcache_pages :: u64
  pool_min_pfn :: nat
  array :: "page_frame list"

text \<open>\<open>pool_min_pfn\<close> stands for \<open>pool->pfdb_ent->min_pfn\<close>, reached over the back pointer.\<close>

definition upd_page :: "nat \<Rightarrow> (page_frame \<Rightarrow> page_frame) \<Rightarrow> page_buddy \<Rightarrow> page_buddy" where
  "upd_page i f pool = pool\<lparr>array := (array pool)[i := f (array pool ! i)]\<rparr>"

definition upd_free_nr :: "nat \<Rightarrow> (u64 \<Rightarrow> u64) \<Rightarrow> page_buddy \<Rightarrow> page_buddy" where
  "upd_free_nr k f pool = pool\<lparr>free_nr := (free_nr pool)[k := f (free_nr pool ! k)]\<rparr>"

section \<open>The usage of a page\<close>

definition mark_page_usage :: "nat \<Rightarrow> page_usage \<Rightarrow> page_buddy \<Rightarrow> page_buddy option" where
  "mark_page_usage i usage pool = do {
     kassert (spinlock_locked_by_self (pool_lock pool));
     let pages = push_bit (pf_order (array pool ! i)) 1;
     if usage = PAGE_STATE_UCASE_KERN
     then Some ((upd_page i PAGE_MARK_KERN pool)\<lparr>kdata_pages := kdata_pages pool + pages\<rparr>)
     else if usage = PAGE_STATE_UCASE_KSTACK
     then Some ((upd_page i PAGE_MARK_KSTACK pool)\<lparr>kstack_pages := kstack_pages pool + pages\<rparr>)
     else if usage = PAGE_STATE_UCASE_PGTBL
     then Some ((upd_page i PAGE_MARK_PGTBL pool)\<lparr>pgtbl_pages := pgtbl_pages pool + pages\<rparr>)
     else if usage = PAGE_STATE_UCASE_SLAB
     then Some ((upd_page i PAGE_MARK_SLAB pool)\<lparr>slab_pages := slab_pages pool + pages\<rparr>)
     else if usage = PAGE_STATE_UCASE_ANON
     then Some ((upd_page i PAGE_MARK_ANON pool)\<lparr>anon_pages := anon_pages pool + pages\<rparr>)
     else if usage = PAGE_STATE_UCASE_PCACHE
     then Some ((upd_page i PAGE_MARK_PCACHE pool)\<lparr>pcache_pages := pcache_pages pool + pages\<rparr>)
     else None
   }"

definition unmark_kdata :: "nat \<Rightarrow> u64 \<Rightarrow> page_buddy \<Rightarrow> page_buddy" where
  "unmark_kdata i pages pool =
     (if PAGE_USED_BY_KERN (array pool ! i)
      then (upd_page i PAGE_UNMARK_KERN pool)\<lparr>kdata_pages := kdata_pages pool - pages\<rparr> else pool)"

definition unmark_kstack :: "nat \<Rightarrow> u64 \<Rightarrow> page_buddy \<Rightarrow> page_buddy" where
  "unmark_kstack i pages pool =
     (if PAGE_USED_BY_KSTACK (array pool ! i)
      then (upd_page i PAGE_UNMARK_KSTACK pool)\<lparr>kstack_pages := kstack_pages pool - pages\<rparr> else pool)"

definition unmark_pgtbl :: "nat \<Rightarrow> u64 \<Rightarrow> page_buddy \<Rightarrow> page_buddy" where
  "unmark_pgtbl i pages pool =
     (if PAGE_USED_BY_PGTBL (array pool ! i)
      then (upd_page i PAGE_UNMARK_PGTBL pool)\<lparr>pgtbl_pages := pgtbl_pages pool - pages\<rparr> else pool)"

definition unmark_slab :: "nat \<Rightarrow> u64 \<Rightarrow> page_buddy \<Rightarrow> page_buddy" where
  "unmark_slab i pages pool =
     (if PAGE_USED_BY_SLAB (array pool ! i)
      then (upd_page i PAGE_UNMARK_SLAB pool)\<lparr>slab_pages := slab_pages pool - pages\<rparr> else pool)"

definition unmark_anon :: "nat \<Rightarrow> u64 \<Rightarrow> page_buddy \<Rightarrow> page_buddy" where
  "unmark_anon i pages pool =
     (if PAGE_USED_BY_ANON (array pool ! i)
      then (upd_page i PAGE_UNMARK_ANON pool)\<lparr>anon_pages := anon_pages pool - pages\<rparr> else pool)"

definition unmark_pcache :: "nat \<Rightarrow> u64 \<Rightarrow> page_buddy \<Rightarrow> page_buddy" where
  "unmark_pcache i pages pool =
     (if PAGE_USED_BY_PCACHE (array pool ! i)
      then (upd_page i PAGE_UNMARK_PCACHE pool)\<lparr>pcache_pages := pcache_pages pool - pages\<rparr> else pool)"

definition unmark_page_usage :: "nat \<Rightarrow> page_buddy \<Rightarrow> page_buddy option" where
  "unmark_page_usage i pool = do {
     kassert (spinlock_locked_by_self (pool_lock pool));
     let pages = push_bit (pf_order (array pool ! i)) 1;
     let pool1 = unmark_kdata i pages pool;
     let pool2 = unmark_kstack i pages pool1;
     let pool3 = unmark_pgtbl i pages pool2;
     let pool4 = unmark_slab i pages pool3;
     let pool5 = unmark_anon i pages pool4;
     Some (unmark_pcache i pages pool5)
   }"

section \<open>Clusters\<close>

definition setup_clustered_pages :: "nat \<Rightarrow> page_buddy \<Rightarrow> page_buddy" where
  "setup_clustered_pages i pool =
     (if pf_order (array pool ! i) = 0 then upd_page i PAGE_UNMARK_CLUSTERED pool
      else fold (\<lambda>k. upd_page (i + k) (PAGE_MARK_CLUSTERED i)) [0..<2 ^ pf_order (array pool ! i)] pool)"

definition clear_clustered_pages :: "nat \<Rightarrow> page_buddy \<Rightarrow> page_buddy" where
  "clear_clustered_pages i pool =
     fold (\<lambda>k. upd_page (i + k) PAGE_UNMARK_CLUSTERED) [0..<2 ^ pf_order (array pool ! i)] pool"

section \<open>Splitting a block\<close>

fun adjust_page_order_loop :: "nat \<Rightarrow> nat \<Rightarrow> nat \<Rightarrow> page_buddy \<Rightarrow> page_buddy option" where
  "adjust_page_order_loop idx request_order 0 pool = Some pool"
| "adjust_page_order_loop idx request_order (Suc cur_order) pool =
     (if Suc cur_order > request_order
      then let buddy_idx = idx XOR push_bit cur_order 1
           in if \<not> nr_pages pool > buddy_idx then None
              else let pool1 = upd_page buddy_idx (pf_order_update (\<lambda>_. cur_order)) pool;
                       pool2 = pool1\<lparr>links := queue_add (PageList cur_order) (PageLink buddy_idx) (links pool1)\<rparr>;
                       pool3 = upd_free_nr cur_order (\<lambda>n. n + 1) pool2;
                       pool4 = upd_page idx (pf_order_update (\<lambda>_. cur_order)) pool3
                   in adjust_page_order_loop idx request_order cur_order pool4
      else Some pool)"

definition adjust_page_order :: "bool \<Rightarrow> nat \<Rightarrow> nat \<Rightarrow> page_buddy \<Rightarrow> page_buddy option" where
  "adjust_page_order pfdb_locked i request_order pool = do {
     kassert pfdb_locked;
     kassert (spinlock_locked_by_self (pool_lock pool));
     let idx = pf_pfn (array pool ! i) - pool_min_pfn pool;
     pool' \<leftarrow> adjust_page_order_loop idx request_order (pf_order (array pool ! i)) pool;
     kassert (pf_order (array pool' ! i) = request_order);
     Some pool'
   }"

section \<open>Returning a block\<close>

definition mask_index :: "nat \<Rightarrow> u64 \<Rightarrow> nat" where
  "mask_index i msk = unat (of_nat i AND msk)"

function enqueue_loop :: "u64 \<Rightarrow> nat \<Rightarrow> nat \<Rightarrow> page_buddy \<Rightarrow> (nat \<times> page_buddy) option" where
  "enqueue_loop msk cur_order cur_idx pool =
     (if cur_order < PAGE_POOL_MAX_ORDER
      then if \<not> cur_idx < nr_pages pool then None
      else let pool1 = upd_page cur_idx (pf_order_update (\<lambda>_. cur_order)) pool;
               buddy_idx = cur_idx XOR push_bit cur_order 1;
               buddy_page = array pool1 ! buddy_idx
           in if cur_order \<ge> PAGE_POOL_MAX_ORDER - 1 then Some (cur_idx, pool1)
              else if buddy_idx \<ge> nr_pages pool1 then Some (cur_idx, pool1)
              else if pf_order (array pool1 ! cur_idx) \<noteq> pf_order buddy_page then Some (cur_idx, pool1)
              else if PAGE_STATE_NOT_FREED buddy_page then Some (cur_idx, pool1)
              else let b = pf_order buddy_page;
                       pool2 = pool1\<lparr>links := snd (queue_del (PageList b) (PageLink buddy_idx) (links pool1))\<rparr>;
                       pool3 = upd_free_nr b (\<lambda>n. n - 1) pool2;
                       msk' = push_bit 1 msk
                   in enqueue_loop msk' (cur_order + 1) (mask_index cur_idx msk') pool3
      else Some (cur_idx, pool))"
  by pat_completeness auto
termination
  by (relation "measure (\<lambda>(msk, cur_order, cur_idx, pool). PAGE_POOL_MAX_ORDER - cur_order)")
    (auto simp: PAGE_POOL_MAX_ORDER_def)

declare enqueue_loop.simps [simp del]

definition enqueue_page_to_buddy_pool :: "nat \<Rightarrow> page_buddy \<Rightarrow> page_buddy option" where
  "enqueue_page_to_buddy_pool req_page pool = do {
     kassert (spinlock_locked_by_self (pool_lock pool));
     let order = pf_order (array pool ! req_page);
     kassert (order < PAGE_POOL_MAX_ORDER);
     let msk = (push_bit order (NOT 0) :: u64);
     kassert (mask_index req_page (NOT msk) = 0);
     pool1 \<leftarrow> unmark_page_usage req_page pool;
     let pool2 = upd_page req_page PAGE_UNMARK_USED pool1;
     (cur_idx, pool3) \<leftarrow> enqueue_loop msk order req_page pool2;
     kassert (cur_idx < nr_pages pool3);
     kassert (pf_order (array pool3 ! cur_idx) < PAGE_POOL_MAX_ORDER);
     let area = pf_order (array pool3 ! cur_idx);
     let pool4 = clear_clustered_pages cur_idx pool3;
     let pool5 = pool4\<lparr>links := queue_add (PageList area) (PageLink cur_idx) (links pool4)\<rparr>;
     Some (upd_free_nr (pf_order (array pool5 ! cur_idx)) (\<lambda>n. n + 1) pool5)
   }"

section \<open>Taking a block\<close>

text \<open>\<open>container_of(l, page_frame, link)\<close>: the frame whose link is \<open>l\<close>.\<close>

fun frame_of_link :: "pool_node \<Rightarrow> nat option" where
  "frame_of_link (PageLink i) = Some i"
| "frame_of_link (PageList k) = None"

definition take_page :: "bool \<Rightarrow> nat \<Rightarrow> page_usage \<Rightarrow> nat \<Rightarrow> page_buddy \<Rightarrow> (nat \<times> page_buddy) option" where
  "take_page pfdb_locked order usage cur_order pool = do {
     let (l, links') = queue_get_top (PageList cur_order) (links pool);
     cur_page \<leftarrow> frame_of_link l;
     let pool1 = upd_free_nr cur_order (\<lambda>n. n - 1) (pool\<lparr>links := links'\<rparr>);
     pool2 \<leftarrow> adjust_page_order pfdb_locked cur_page order pool1;
     let pool3 = setup_clustered_pages cur_page pool2;
     pool4 \<leftarrow> mark_page_usage cur_page usage pool3;
     let pool5 = upd_page cur_page PAGE_MARK_USED pool4;
     let pfn = pf_pfn (array pool5 ! cur_page);
     Some (pfn, upd_page cur_page (pf_usecnt_update (refcnt_set REFCNT_INITIAL_VAL)) pool5)
   }"

function dequeue_loop :: "bool \<Rightarrow> nat \<Rightarrow> page_usage \<Rightarrow> nat \<Rightarrow> page_buddy \<Rightarrow> ((errno + nat) \<times> page_buddy) option" where
  "dequeue_loop pfdb_locked order usage cur_order pool =
     (if cur_order < PAGE_POOL_MAX_ORDER
      then if \<not> queue_is_empty (PageList cur_order) (links pool)
           then (case take_page pfdb_locked order usage cur_order pool of
                   None \<Rightarrow> None | Some (pfn, pool') \<Rightarrow> Some (Inr pfn, pool'))
           else dequeue_loop pfdb_locked order usage (cur_order + 1) pool
      else Some (Inl ENOMEM, pool))"
  by pat_completeness auto
termination
  by (relation "measure (\<lambda>(d, order, usage, cur_order, pool). PAGE_POOL_MAX_ORDER - cur_order)")
    (auto simp: PAGE_POOL_MAX_ORDER_def)

declare dequeue_loop.simps [simp del]

definition dequeue_page_from_memory_area ::
    "bool \<Rightarrow> nat \<Rightarrow> page_usage \<Rightarrow> page_buddy \<Rightarrow> cpu \<Rightarrow> ((errno + nat) \<times> page_buddy \<times> cpu) option" where
  "dequeue_page_from_memory_area pfdb_locked order usage pool c =
     (if order \<ge> PAGE_POOL_MAX_ORDER then Some (Inl EINVAL, pool, c)
      else do {
        kassert pfdb_locked;
        (iflags, l1, c1) \<leftarrow> spinlock_lock_disable_intr (pool_lock pool) c;
        (rc, pool2) \<leftarrow> dequeue_loop pfdb_locked order usage order (pool\<lparr>pool_lock := l1\<rparr>);
        (l2, c2) \<leftarrow> spinlock_unlock_restore_intr iflags (pool_lock pool2) c1;
        Some (rc, pool2\<lparr>pool_lock := l2\<rparr>, c2)
      })"

end
