(* ===== verification/Tiling.thy ===== *)
theory Tiling
  imports Prelude
begin

unbundle bit_operations_syntax

text \<open>
  The geometry of buddy blocks: a block of order \<open>k\<close> is \<open>2 ^ k\<close> consecutive indexes that start at a
  multiple of \<open>2 ^ k\<close>; its buddy is found by flipping bit \<open>k\<close> of its first index. \<open>tiles n H ord\<close>
  says that the blocks with the heads \<open>H\<close> and the orders \<open>ord\<close> partition the indexes below \<open>n\<close>;
  splitting a block and joining two buddies keep it.
\<close>

section \<open>Buddies\<close>

definition block :: "nat \<Rightarrow> nat \<Rightarrow> nat set" where
  "block k i = {i..<i + 2 ^ k}"

lemma in_block: "j \<in> block k i \<longleftrightarrow> i \<le> j \<and> j < i + 2 ^ k"
  by (simp add: block_def)

lemma head_in_block [simp]: "i \<in> block k i"
  by (simp add: block_def)

lemma block_Suc: "block (Suc k) i = block k i \<union> block k (i + 2 ^ k)"
  by (auto simp: block_def)

definition buddy :: "nat \<Rightarrow> nat \<Rightarrow> nat" where
  "buddy k i = i XOR push_bit k 1"

lemma buddy_buddy [simp]: "buddy k (buddy k i) = i"
  by (simp add: buddy_def xor.assoc)

lemma buddy_even:
  assumes "2 ^ Suc k dvd i"
  shows "buddy k i = i + 2 ^ k"
proof -
  obtain m where m: "i = 2 ^ Suc k * m" using assms by blast
  have "\<not> bit i k" by (simp add: m bit_iff_odd)
  moreover have "buddy k i = flip_bit k i"
    by (simp add: buddy_def flip_bit_eq_xor)
  ultimately show ?thesis
    by (simp add: flip_bit_eq_if set_bit_eq)
qed

lemma dvd_Suc_sub:
  assumes "2 ^ k dvd (i::nat)" and "\<not> 2 ^ Suc k dvd i"
  shows "2 ^ Suc k dvd i - 2 ^ k" and "2 ^ k \<le> i"
proof -
  obtain m where "i = 2 ^ k * m" "odd m"
    using assms by (auto simp: mult.commute)
  then have "i - 2 ^ k = 2 ^ k * (m - 1)" "even (m - 1)" "0 < m"
    by (simp_all add: diff_mult_distrib2 odd_pos)
  then show "2 ^ Suc k dvd i - 2 ^ k" and "2 ^ k \<le> i"
    using \<open>i = 2 ^ k * m\<close> by (simp_all add: mult.commute)
qed

lemma buddy_eq:
  assumes "2 ^ k dvd i"
  shows "buddy k i = (if 2 ^ Suc k dvd i then i + 2 ^ k else i - 2 ^ k)"
proof (cases "2 ^ Suc k dvd i")
  case False
  note sub = dvd_Suc_sub [OF assms False]
  then have "buddy k (i - 2 ^ k) = i"
    using buddy_even [OF sub(1)] by simp
  with False show ?thesis
    using buddy_buddy [of k "i - 2 ^ k"] by simp
qed (simp add: buddy_even del: power_Suc)

lemma buddy_cases:
  assumes "2 ^ k dvd i"
  obtains (even) "2 ^ Suc k dvd i" "buddy k i = i + 2 ^ k" "min i (buddy k i) = i"
    | (odd) "2 ^ Suc k dvd i - 2 ^ k" "2 ^ k \<le> i" "buddy k i = i - 2 ^ k" "min i (buddy k i) = i - 2 ^ k"
  using buddy_eq [OF assms] dvd_Suc_sub [OF assms] by (cases "2 ^ Suc k dvd i") (simp_all del: power_Suc)

lemma buddy_props:
  assumes "2 ^ k dvd i"
  shows "2 ^ k dvd buddy k i" and "buddy k i \<noteq> i"
    and "block k i \<inter> block k (buddy k i) = {}"
    and "block (Suc k) (min i (buddy k i)) = block k i \<union> block k (buddy k i)"
    and "2 ^ Suc k dvd min i (buddy k i)"
    and "min i (buddy k i) = 2 ^ Suc k * (i div 2 ^ Suc k)"
proof -
  have pos: "(0::nat) < 2 ^ k" by simp
  show "2 ^ k dvd buddy k i"
    using assms buddy_eq [OF assms] by (simp del: power_Suc)
  show "buddy k i \<noteq> i"
    using assms pos by (cases rule: buddy_cases) linarith+
  show "block k i \<inter> block k (buddy k i) = {}"
    using assms pos by (cases rule: buddy_cases) (auto simp: block_def)
  show union: "block (Suc k) (min i (buddy k i)) = block k i \<union> block k (buddy k i)"
    using assms by (cases rule: buddy_cases) (auto simp: block_Suc simp del: power_Suc)
  show least: "2 ^ Suc k dvd min i (buddy k i)"
    using assms by (cases rule: buddy_cases) metis+
  have "i \<in> block (Suc k) (min i (buddy k i))"
    unfolding union by simp
  then have "i div 2 ^ Suc k = min i (buddy k i) div 2 ^ Suc k"
    using least by (auto simp: in_block elim!: dvdE intro!: div_nat_eqI simp del: power_Suc)
  then show "min i (buddy k i) = 2 ^ Suc k * (i div 2 ^ Suc k)"
    using least by (metis dvd_mult_div_cancel)
qed

lemma block_aligned_cases:
  assumes "2 ^ a dvd i" and "2 ^ b dvd j" and "a \<le> b" and "block a i \<inter> block b j \<noteq> {}"
  shows "block a i \<subseteq> block b j"
proof -
  obtain m where m: "i = 2 ^ a * m" using assms(1) by blast
  obtain l where l: "j = 2 ^ b * l" using assms(2) by blast
  obtain d where d: "(2::nat) ^ b = 2 ^ a * 2 ^ d"
    using assms(3) by (metis le_Suc_ex power_add)
  have "2 ^ a * m < 2 ^ a * (2 ^ d * l + 2 ^ d)" and "2 ^ a * (2 ^ d * l) < 2 ^ a * (m + 1)"
    using assms(4) by (auto simp: m l d block_def algebra_simps)
  then have "m + 1 \<le> 2 ^ d * l + 2 ^ d" and "2 ^ d * l < m + 1"
    by (simp_all only: nat_mult_less_cancel1 zero_less_power zero_less_numeral Suc_eq_plus1 [symmetric] Suc_le_eq)
  then have "2 ^ a * (m + 1) \<le> 2 ^ a * (2 ^ d * l + 2 ^ d)" and "2 ^ a * (2 ^ d * l) \<le> 2 ^ a * m"
    using mult_le_mono2 [of "m + 1" "2 ^ d * l + 2 ^ d" "2 ^ a"] mult_le_mono2 [of "2 ^ d * l" m "2 ^ a"]
    by (simp_all del: nat_mult_le_cancel_disj mult_le_cancel1)
  then show ?thesis
    by (auto simp: m l d block_def algebra_simps)
qed

section \<open>Partitions\<close>

definition tiles :: "nat \<Rightarrow> nat set \<Rightarrow> (nat \<Rightarrow> nat) \<Rightarrow> bool" where
  "tiles n H ord \<longleftrightarrow>
     (\<forall>h\<in>H. 2 ^ ord h dvd h \<and> block (ord h) h \<subseteq> {..<n}) \<and>
     (\<forall>h\<in>H. \<forall>g\<in>H. h \<noteq> g \<longrightarrow> block (ord h) h \<inter> block (ord g) g = {}) \<and>
     (\<Union>h\<in>H. block (ord h) h) = {..<n}"

lemma tiles_head: "tiles n H ord \<Longrightarrow> h \<in> H \<Longrightarrow> 2 ^ ord h dvd h"
  by (auto simp: tiles_def)

lemma tiles_block: "tiles n H ord \<Longrightarrow> h \<in> H \<Longrightarrow> block (ord h) h \<subseteq> {..<n}"
  by (simp add: tiles_def)

lemma tiles_less: "tiles n H ord \<Longrightarrow> h \<in> H \<Longrightarrow> h < n"
  using tiles_block [of n H ord h] head_in_block [of h "ord h"] by blast

lemma tiles_bound: "tiles n H ord \<Longrightarrow> h \<in> H \<Longrightarrow> h + 2 ^ ord h \<le> n"
proof -
  assume "tiles n H ord" and "h \<in> H"
  moreover have "h + 2 ^ ord h - 1 \<in> block (ord h) h"
    using zero_less_power [of "2::nat" "ord h"] unfolding in_block by (intro conjI) linarith+
  ultimately have "h + 2 ^ ord h - 1 < n"
    using tiles_block by blast
  then show ?thesis by linarith
qed

lemma tiles_apart:
  "tiles n H ord \<Longrightarrow> h \<in> H \<Longrightarrow> g \<in> H \<Longrightarrow> h \<noteq> g \<Longrightarrow> block (ord h) h \<inter> block (ord g) g = {}"
  by (simp add: tiles_def)

lemma tiles_disjoint:
  "tiles n H ord \<Longrightarrow> h \<in> H \<Longrightarrow> g \<in> H \<Longrightarrow> j \<in> block (ord h) h \<Longrightarrow> j \<in> block (ord g) g \<Longrightarrow> h = g"
  using tiles_apart [of n H ord h g] by blast

lemma tiles_cover:
  assumes "tiles n H ord" and "j < n"
  obtains h where "h \<in> H" and "j \<in> block (ord h) h"
proof -
  have "j \<in> (\<Union>h\<in>H. block (ord h) h)"
    using assms by (simp add: tiles_def)
  then show thesis using that by blast
qed

lemma tiles_cong: "(\<And>h. h \<in> H \<Longrightarrow> ord h = ord' h) \<Longrightarrow> tiles n H ord \<longleftrightarrow> tiles n H ord'"
  by (simp add: tiles_def)

text \<open>The buddy of a block is the head of a block that is not larger.\<close>

lemma tiles_buddy:
  assumes t: "tiles n H ord" and c: "c \<in> H" and b: "buddy (ord c) c < n"
  shows "buddy (ord c) c \<in> H \<and> ord (buddy (ord c) c) \<le> ord c"
proof -
  let ?k = "ord c" and ?b = "buddy (ord c) c"
  note props = buddy_props [OF tiles_head [OF t c]]
  obtain h where h: "h \<in> H" "?b \<in> block (ord h) h"
    using tiles_cover [OF t b] .
  have less: "ord h \<le> ?k"
  proof (rule ccontr)
    assume large: "\<not> ord h \<le> ?k"
    have "block (Suc ?k) (min c ?b) \<subseteq> block (ord h) h"
    proof (rule block_aligned_cases [OF props(5) tiles_head [OF t h(1)]])
      show "block (Suc ?k) (min c ?b) \<inter> block (ord h) h \<noteq> {}"
        using h(2) head_in_block [of ?b ?k] unfolding props(4) by blast
    qed (use large in simp)
    then have "c \<in> block (ord h) h"
      using head_in_block [of c ?k] unfolding props(4) by blast
    then have "h = c"
      using tiles_disjoint [OF t h(1) c] by simp
    with large show False by simp
  qed
  have "block (ord h) h \<subseteq> block ?k ?b"
    using h(2) head_in_block [of ?b ?k]
    by (intro block_aligned_cases [OF tiles_head [OF t h(1)] props(1) less]) blast
  then have "h \<in> block ?k ?b"
    using head_in_block by blast
  then have "h = ?b"
    using h(2) by (simp add: in_block)
  with h less show ?thesis by simp
qed

text \<open>Exchanging some blocks for others that cover the same indexes.\<close>

lemma tiles_exchange:
  assumes t: "tiles n H ord" and old: "old \<subseteq> H"
    and cover: "(\<Union>h\<in>new. block (ord' h) h) = (\<Union>h\<in>old. block (ord h) h)"
    and dvd: "\<forall>h\<in>new. 2 ^ ord' h dvd h"
    and disj: "\<forall>h\<in>new. \<forall>g\<in>new. h \<noteq> g \<longrightarrow> block (ord' h) h \<inter> block (ord' g) g = {}"
    and same: "\<forall>h\<in>H - old. ord' h = ord h"
  shows "tiles n (new \<union> (H - old)) ord'"
proof -
  have apart: "block (ord' h) h \<inter> block (ord' g) g = {}" if "h \<in> new" and "g \<in> H - old" for h g
  proof -
    have "block (ord' h) h \<subseteq> (\<Union>h\<in>old. block (ord h) h)"
      using cover that(1) by blast
    moreover have "block (ord f) f \<inter> block (ord g) g = {}" if "f \<in> old" for f
      using that old \<open>g \<in> H - old\<close> by (intro tiles_apart [OF t]) auto
    then have "(\<Union>h\<in>old. block (ord h) h) \<inter> block (ord g) g = {}"
      by blast
    ultimately show ?thesis using same that(2) by auto
  qed
  have rest: "\<forall>h\<in>H - old. \<forall>g\<in>H - old. h \<noteq> g \<longrightarrow> block (ord' h) h \<inter> block (ord' g) g = {}"
    using tiles_apart [OF t] same by simp
  have all: "(\<Union>h\<in>new \<union> (H - old). block (ord' h) h) = {..<n}"
  proof -
    have "(\<Union>h\<in>H - old. block (ord' h) h) = (\<Union>h\<in>H - old. block (ord h) h)"
      using same by auto
    then have "(\<Union>h\<in>new \<union> (H - old). block (ord' h) h) =
        (\<Union>h\<in>old. block (ord h) h) \<union> (\<Union>h\<in>H - old. block (ord h) h)"
      using cover by (simp only: UN_Un)
    also have "\<dots> = (\<Union>h\<in>H. block (ord h) h)"
      using old by blast
    finally show ?thesis using t by (simp add: tiles_def)
  qed
  have "\<forall>h\<in>new \<union> (H - old). 2 ^ ord' h dvd h"
    using t dvd same by (auto simp: tiles_def)
  moreover have "\<forall>h\<in>new \<union> (H - old). block (ord' h) h \<subseteq> {..<n}"
    using all by blast
  moreover have "\<forall>h\<in>new \<union> (H - old). \<forall>g\<in>new \<union> (H - old). h \<noteq> g \<longrightarrow> block (ord' h) h \<inter> block (ord' g) g = {}"
    using disj rest apart by blast
  ultimately show ?thesis
    using all by (simp add: tiles_def)
qed

lemma tiles_join:
  assumes t: "tiles n H ord" and c: "c \<in> H" and b: "buddy (ord c) c \<in> H" "ord (buddy (ord c) c) = ord c"
  shows "tiles n (insert (min c (buddy (ord c) c)) (H - {c, buddy (ord c) c}))
    (ord(min c (buddy (ord c) c) := Suc (ord c)))"
proof -
  let ?b = "buddy (ord c) c" and ?m = "min c (buddy (ord c) c)"
  note props = buddy_props [OF tiles_head [OF t c]]
  have m: "?m = c \<or> ?m = ?b" by (simp add: min_def)
  have "tiles n ({?m} \<union> (H - {c, ?b})) (ord(?m := Suc (ord c)))"
  proof (rule tiles_exchange [OF t])
    show "(\<Union>h\<in>{?m}. block ((ord(?m := Suc (ord c))) h) h) = (\<Union>h\<in>{c, ?b}. block (ord h) h)"
      using props(4) b(2) by (simp del: min_less_iff_conj)
  qed (use c b m props(5) in auto)
  then show ?thesis by simp
qed

lemma tiles_split:
  assumes t: "tiles n H ord" and h: "h \<in> H" "ord h = Suc k"
  shows "tiles n (insert (h + 2 ^ k) H) (ord(h := k, h + 2 ^ k := k))"
    and "h + 2 ^ k = buddy k h" and "h + 2 ^ k \<notin> H" and "h + 2 ^ k < n"
proof -
  have dvd: "2 ^ Suc k dvd h"
    using tiles_head [OF t h(1)] h(2) by simp
  then have dvd': "2 ^ k dvd h"
    by (rule power_le_dvd) simp
  show eq: "h + 2 ^ k = buddy k h"
    using buddy_even [OF dvd] by simp
  have "h + 2 ^ k \<in> block (ord h) h"
    unfolding h(2) block_Suc by simp
  then show new: "h + 2 ^ k \<notin> H"
    using tiles_disjoint [OF t h(1), of "h + 2 ^ k" "h + 2 ^ k"] by auto
  show "h + 2 ^ k < n"
    using \<open>h + 2 ^ k \<in> block (ord h) h\<close> t h(1) by (auto simp: tiles_def)
  have "tiles n ({h, h + 2 ^ k} \<union> (H - {h})) (ord(h := k, h + 2 ^ k := k))"
  proof (rule tiles_exchange [OF t])
    show "(\<Union>g\<in>{h, h + 2 ^ k}. block ((ord(h := k, h + 2 ^ k := k)) g) g) = (\<Union>g\<in>{h}. block (ord g) g)"
      by (simp add: h(2) block_Suc)
    show "\<forall>g\<in>{h, h + 2 ^ k}. \<forall>g'\<in>{h, h + 2 ^ k}. g \<noteq> g' \<longrightarrow>
        block ((ord(h := k, h + 2 ^ k := k)) g) g \<inter> block ((ord(h := k, h + 2 ^ k := k)) g') g' = {}"
      by (auto simp: block_def)
  qed (use h(1) new dvd' in auto)
  moreover have "{h, h + 2 ^ k} \<union> (H - {h}) = insert (h + 2 ^ k) H"
    using h(1) by auto
  ultimately show "tiles n (insert (h + 2 ^ k) H) (ord(h := k, h + 2 ^ k := k))"
    by simp
qed

end
