(* ===== verification/BuddyPool.thy ===== *)
theory BuddyPool
  imports Buddy Tiling
begin

unbundle bit_operations_syntax

text \<open>
  The invariant of a buddy pool and what the operations of theory \<open>Buddy\<close> do to it. The blocks of
  the pool, free, in use and reserved, partition the frames; a free block is in the queue of its
  order; two free buddies of one order are always joined; the counters count the queues.
  \<open>pool_inv D fl P\<close> is the invariant with the free lists \<open>fl\<close> (order to indexes) and the blocks \<open>D\<close>
  that an operation has in hand: neither in a queue nor marked.
\<close>

section \<open>The free lists\<close>

abbreviation pool_heads :: "pool_node set" where
  "pool_heads \<equiv> PageList ` {..<PAGE_POOL_MAX_ORDER}"

abbreviation pool_nodes :: "nat \<Rightarrow> pool_node set" where
  "pool_nodes n \<equiv> PageLink ` {..<n}"

fun queues_of :: "(nat \<Rightarrow> nat list) \<Rightarrow> pool_node \<Rightarrow> pool_node list" where
  "queues_of fl (PageList k) = map PageLink (fl k)"
| "queues_of fl (PageLink i) = []"

definition free_lists :: "nat \<Rightarrow> (nat \<Rightarrow> nat list) \<Rightarrow> pool_node lstore \<Rightarrow> bool" where
  "free_lists n fl h \<longleftrightarrow>
     wf_queues pool_heads (pool_nodes n) (queues_of fl) h \<and> (\<forall>k\<ge>PAGE_POOL_MAX_ORDER. fl k = [])"

lemma queues_of_upd: "queues_of (fl(k := is)) = (queues_of fl)(PageList k := map PageLink is)"
proof
  show "queues_of (fl(k := is)) q = ((queues_of fl)(PageList k := map PageLink is)) q" for q
    by (cases q) simp_all
qed

lemma remove1_map_PageLink: "remove1 (PageLink i) (map PageLink is) = map PageLink (remove1 i is)"
  by (induction "is") auto

lemma queues_of_remove: "(\<lambda>q. remove1 (PageLink i) (queues_of fl q)) = queues_of (\<lambda>k. remove1 i (fl k))"
proof
  show "remove1 (PageLink i) (queues_of fl q) = queues_of (\<lambda>k. remove1 i (fl k)) q" for q
    by (cases q) (simp_all add: remove1_map_PageLink)
qed

lemma free_lists_order: "free_lists n fl h \<Longrightarrow> i \<in> set (fl k) \<Longrightarrow> k < PAGE_POOL_MAX_ORDER"
  by (metis empty_iff empty_set free_lists_def leI)

lemma free_lists_bound: "free_lists n fl h \<Longrightarrow> i \<in> set (fl k) \<Longrightarrow> i < n"
proof -
  assume fl: "free_lists n fl h" and i: "i \<in> set (fl k)"
  have "PageLink i \<in> pool_nodes n"
    using kq.wf_mem [of pool_heads "pool_nodes n" "queues_of fl" h "PageList k" "PageLink i"]
      fl i free_lists_order [OF fl i] by (simp add: free_lists_def)
  then show ?thesis by auto
qed

lemma free_lists_distinct: "free_lists n fl h \<Longrightarrow> distinct (fl k)"
proof (cases "k < PAGE_POOL_MAX_ORDER")
  case True
  assume "free_lists n fl h"
  then have "distinct (queues_of fl (PageList k))"
    using True by (intro kq.wf_distinct) (auto simp: free_lists_def)
  then show ?thesis by (simp add: distinct_map)
qed (simp add: free_lists_def)

lemma free_lists_unique:
  assumes fl: "free_lists n fl h" and "i \<in> set (fl k)" and "i \<in> set (fl j)"
  shows "j = k"
proof -
  have "PageList j = PageList k"
    using assms free_lists_order [OF fl]
    by (intro kq.wf_unique [of pool_heads "pool_nodes n" "queues_of fl" h _ _ "PageLink i"])
      (auto simp: free_lists_def)
  then show ?thesis by simp
qed

lemma free_lists_empty:
  "free_lists n fl h \<Longrightarrow> k < PAGE_POOL_MAX_ORDER \<Longrightarrow> queue_is_empty (PageList k) h \<longleftrightarrow> fl k = []"
  using kq.is_empty [of pool_heads "pool_nodes n" "queues_of fl" h "PageList k"]
  by (auto simp: free_lists_def)

lemma free_lists_add:
  assumes fl: "free_lists n fl h" and k: "k < PAGE_POOL_MAX_ORDER" and i: "i < n" "\<forall>j. i \<notin> set (fl j)"
  shows "free_lists n (fl(k := fl k @ [i])) (queue_add (PageList k) (PageLink i) h)"
  using kq.add [of pool_heads "pool_nodes n" "queues_of fl" h "PageList k" "PageLink i"] assms
  by (auto simp: free_lists_def queues_of_upd)

lemma free_lists_top:
  assumes fl: "free_lists n fl h" and k: "k < PAGE_POOL_MAX_ORDER" and eq: "fl k = i # is"
  shows "fst (queue_get_top (PageList k) h) = PageLink i \<and>
    free_lists n (fl(k := is)) (snd (queue_get_top (PageList k) h))"
  using kq.get_top [of pool_heads "pool_nodes n" "queues_of fl" h "PageList k" "PageLink i" "map PageLink is"] assms
  by (auto simp: free_lists_def queues_of_upd)

lemma free_lists_del:
  assumes fl: "free_lists n fl h" and i: "i \<in> set (fl k)"
  shows "free_lists n (fl(k := remove1 i (fl k))) (snd (queue_del q (PageLink i) h))"
proof -
  have eq: "(\<lambda>j. remove1 i (fl j)) = fl(k := remove1 i (fl k))"
  proof -
    have "remove1 i (fl j) = fl j" if "j \<noteq> k" for j
      using free_lists_unique [OF fl i, of j] that by (auto intro: remove1_idem)
    then show ?thesis by (auto simp: fun_eq_iff)
  qed
  have "wf_queues pool_heads (pool_nodes n) (\<lambda>r. remove1 (PageLink i) (queues_of fl r)) (snd (queue_del q (PageLink i) h))"
    using fl free_lists_bound [OF fl i] by (intro kq.del) (auto simp: free_lists_def)
  then show ?thesis
    using fl free_lists_order [OF fl i] by (simp add: free_lists_def queues_of_remove eq)
qed

section \<open>The invariant\<close>

abbreviation page_ord :: "page_buddy \<Rightarrow> nat \<Rightarrow> nat" where
  "page_ord P i \<equiv> pf_order (array P ! i)"

abbreviation page_busy :: "page_buddy \<Rightarrow> nat \<Rightarrow> bool" where
  "page_busy P i \<equiv> PAGE_STATE_NOT_FREED (array P ! i)"

definition clean :: "page_frame \<Rightarrow> bool" where
  "clean pf \<longleftrightarrow> page_unused pf \<and> pf_usecnt pf = 0"

definition free_heads :: "(nat \<Rightarrow> nat list) \<Rightarrow> nat set" where
  "free_heads fl = (\<Union>k. set (fl k))"

definition block_heads :: "nat set \<Rightarrow> (nat \<Rightarrow> nat list) \<Rightarrow> page_buddy \<Rightarrow> nat set" where
  "block_heads D fl P = {i. i < nr_pages P \<and> page_busy P i} \<union> D \<union> free_heads fl"

definition pool_shape :: "page_buddy \<Rightarrow> bool" where
  "pool_shape P \<longleftrightarrow> length (array P) = nr_pages P \<and> nr_pages P \<le> 2 ^ 31 \<and>
     length (free_nr P) = PAGE_POOL_MAX_ORDER \<and>
     (\<forall>i<nr_pages P. pf_pfn (array P ! i) = pool_min_pfn P + i)"

definition pool_inv :: "nat set \<Rightarrow> (nat \<Rightarrow> nat list) \<Rightarrow> page_buddy \<Rightarrow> bool" where
  "pool_inv D fl P \<longleftrightarrow>
     pool_shape P \<and> free_lists (nr_pages P) fl (links P) \<and>
     (\<forall>k. \<forall>i\<in>set (fl k). page_ord P i = k \<and> \<not> page_busy P i \<and> i \<notin> D) \<and>
     (\<forall>i\<in>D. i < nr_pages P \<and> \<not> page_busy P i) \<and>
     (\<forall>i\<in>block_heads D fl P. page_ord P i < PAGE_POOL_MAX_ORDER) \<and>
     tiles (nr_pages P) (block_heads D fl P) (page_ord P) \<and>
     (\<forall>k<PAGE_POOL_MAX_ORDER. free_nr P ! k = of_nat (length (fl k))) \<and>
     (\<forall>k<PAGE_POOL_MAX_ORDER - 1. \<forall>i\<in>set (fl k). buddy k i \<notin> set (fl k)) \<and>
     (\<forall>i<nr_pages P. \<not> PAGE_IS_USED (array P ! i) \<longrightarrow> clean (array P ! i))"

text \<open>The free frames.\<close>

definition free_frames :: "(nat \<Rightarrow> nat list) \<Rightarrow> nat set" where
  "free_frames fl = (\<Union>k. \<Union>i\<in>set (fl k). block k i)"

section \<open>Elementary changes\<close>

definition same_pool :: "page_buddy \<Rightarrow> page_buddy \<Rightarrow> bool" where
  "same_pool P P' \<longleftrightarrow> nr_pages P' = nr_pages P \<and> links P' = links P \<and> free_nr P' = free_nr P \<and>
     pool_min_pfn P' = pool_min_pfn P \<and> length (array P') = length (array P) \<and>
     (\<forall>i<nr_pages P. page_ord P' i = page_ord P i \<and> pf_pfn (array P' ! i) = pf_pfn (array P ! i) \<and>
        PAGE_IS_USED (array P' ! i) = PAGE_IS_USED (array P ! i) \<and>
        PAGE_IS_RESERVED (array P' ! i) = PAGE_IS_RESERVED (array P ! i) \<and>
        clean (array P' ! i) = clean (array P ! i))"

lemma pool_inv_D: "pool_inv D fl P \<Longrightarrow> i \<in> D \<Longrightarrow> i < nr_pages P \<and> \<not> page_busy P i"
  by (simp add: pool_inv_def)

lemma pool_inv_tiles: "pool_inv D fl P \<Longrightarrow> tiles (nr_pages P) (block_heads D fl P) (page_ord P)"
  by (simp add: pool_inv_def)

lemma pool_inv_free_lists: "pool_inv D fl P \<Longrightarrow> free_lists (nr_pages P) fl (links P)"
  by (simp add: pool_inv_def)

lemma pool_inv_shape: "pool_inv D fl P \<Longrightarrow> length (array P) = nr_pages P \<and> length (free_nr P) = PAGE_POOL_MAX_ORDER"
  by (simp add: pool_inv_def pool_shape_def)

lemma pool_inv_free:
  assumes "pool_inv D fl P" and "i \<in> set (fl k)"
  shows "page_ord P i = k \<and> \<not> page_busy P i \<and> i \<notin> D \<and> i < nr_pages P \<and> k < PAGE_POOL_MAX_ORDER"
proof -
  note fl = pool_inv_free_lists [OF assms(1)]
  show ?thesis
    using assms free_lists_bound [OF fl assms(2)] free_lists_order [OF fl assms(2)]
    by (auto simp: pool_inv_def)
qed

lemma pool_inv_head_order: "pool_inv D fl P \<Longrightarrow> i \<in> block_heads D fl P \<Longrightarrow> page_ord P i < PAGE_POOL_MAX_ORDER"
  by (simp add: pool_inv_def)

lemma pool_inv_head_less: "pool_inv D fl P \<Longrightarrow> i \<in> block_heads D fl P \<Longrightarrow> i < nr_pages P"
  using tiles_less [OF pool_inv_tiles] .

lemma pool_inv_D_head: "i \<in> D \<Longrightarrow> i \<in> block_heads D fl P"
  by (simp add: block_heads_def)

lemma pool_inv_same:
  assumes inv: "pool_inv D fl P" and same: "same_pool P P'"
  shows "pool_inv D fl P'"
proof -
  have n: "nr_pages P' = nr_pages P" "links P' = links P" "free_nr P' = free_nr P"
      "pool_min_pfn P' = pool_min_pfn P" "length (array P') = length (array P)"
    using same by (simp_all add: same_pool_def)
  have at: "page_ord P' i = page_ord P i" "page_busy P' i = page_busy P i"
      "PAGE_IS_USED (array P' ! i) = PAGE_IS_USED (array P ! i)"
      "clean (array P' ! i) = clean (array P ! i)" "pf_pfn (array P' ! i) = pf_pfn (array P ! i)"
    if "i < nr_pages P" for i
    using same that by (simp_all add: same_pool_def page_not_freed)
  have heads: "block_heads D fl P' = block_heads D fl P"
    using at(2) by (auto simp: block_heads_def n)
  have less: "i < nr_pages P" if "i \<in> block_heads D fl P" for i
    using pool_inv_head_less [OF inv that] .
  have tiles: "tiles (nr_pages P) (block_heads D fl P) (page_ord P')"
    using pool_inv_tiles [OF inv] at(1) less by (subst tiles_cong [where ord' = "page_ord P"]) simp_all
  have free: "\<forall>k. \<forall>i\<in>set (fl k). page_ord P' i = k \<and> \<not> page_busy P' i \<and> i \<notin> D"
    using pool_inv_free [OF inv] at by simp
  show ?thesis
    using inv tiles free at less
    by (simp add: pool_inv_def heads n pool_shape_def)
qed

lemma free_heads_remove:
  assumes "distinct (fl k)" and "i \<in> set (fl k)"
  shows "insert i (free_heads (fl(k := remove1 i (fl k)))) = free_heads fl"
  using assms by (auto simp: free_heads_def split: if_splits)

lemma free_heads_add: "free_heads (fl(k := fl k @ [i])) = insert i (free_heads fl)"
  by (auto simp: free_heads_def split: if_splits)

text \<open>A block leaves its queue.\<close>

lemma pool_inv_remove:
  assumes inv: "pool_inv D fl P" and i: "i \<in> set (fl k)"
    and links': "free_lists (nr_pages P) (fl(k := remove1 i (fl k))) links'"
  shows "pool_inv (insert i D) (fl(k := remove1 i (fl k)))
    (upd_free_nr k (\<lambda>n. n - 1) (P\<lparr>links := links'\<rparr>))" (is "pool_inv _ ?fl ?P")
proof -
  note facts = pool_inv_free [OF inv i]
  have distinct: "distinct (fl k)"
    using free_lists_distinct [OF pool_inv_free_lists [OF inv]] .
  have heads: "block_heads (insert i D) ?fl ?P = block_heads D fl P"
    using free_heads_remove [of fl k i, OF distinct i] by (auto simp: block_heads_def upd_free_nr_def)
  have count: "free_nr ?P ! j = of_nat (length (?fl j))" if "j < PAGE_POOL_MAX_ORDER" for j
  proof -
    obtain m where "length (fl k) = Suc m" and "length (remove1 i (fl k)) = m"
      using i by (metis One_nat_def Suc_pred length_pos_if_in_set length_remove1_mem)
    then show ?thesis
      using inv that by (simp add: pool_inv_def pool_shape_def upd_free_nr_def nth_list_update)
  qed
  have free: "\<forall>j. \<forall>h\<in>set (?fl j). page_ord P h = j \<and> \<not> page_busy P h \<and> h \<notin> insert i D"
  proof (intro allI ballI)
    fix j h assume h: "h \<in> set (?fl j)"
    then have mem: "h \<in> set (fl j)"
      using set_remove1_subset [of i "fl k"] by (auto split: if_splits)
    have "h \<noteq> i"
      using h distinct free_lists_unique [OF pool_inv_free_lists [OF inv] i, of j] by (auto split: if_splits)
    then show "page_ord P h = j \<and> \<not> page_busy P h \<and> h \<notin> insert i D"
      using pool_inv_free [OF inv mem] by simp
  qed
  have buddies: "\<forall>j<PAGE_POOL_MAX_ORDER - 1. \<forall>h\<in>set (?fl j). buddy j h \<notin> set (?fl j)"
    using inv set_remove1_subset [of i "fl k"] by (auto simp: pool_inv_def)
  show ?thesis
    using inv heads count free buddies links' facts
    by (simp add: pool_inv_def pool_shape_def upd_free_nr_def)
qed

text \<open>A block in hand enters the queue of its order.\<close>

lemma pool_inv_insert:
  assumes inv: "pool_inv D fl P" and i: "i \<in> D" and k: "page_ord P i = k"
    and alone: "k < PAGE_POOL_MAX_ORDER - 1 \<Longrightarrow> buddy k i \<notin> set (fl k)"
  shows "pool_inv (D - {i}) (fl(k := fl k @ [i]))
    (upd_free_nr k (\<lambda>n. n + 1) (P\<lparr>links := queue_add (PageList k) (PageLink i) (links P)\<rparr>))"
    (is "pool_inv _ ?fl ?P")
proof -
  have order: "k < PAGE_POOL_MAX_ORDER"
    using pool_inv_head_order [OF inv pool_inv_D_head [OF i]] k by simp
  have new: "\<forall>j. i \<notin> set (fl j)"
    using inv i by (auto simp: pool_inv_def)
  have links': "free_lists (nr_pages P) ?fl (queue_add (PageList k) (PageLink i) (links P))"
    using free_lists_add [OF pool_inv_free_lists [OF inv] order _ new] pool_inv_D [OF inv i] by simp
  have heads: "block_heads (D - {i}) ?fl ?P = block_heads D fl P"
    using i by (auto simp: block_heads_def upd_free_nr_def free_heads_add)
  have count: "free_nr ?P ! j = of_nat (length (?fl j))" if "j < PAGE_POOL_MAX_ORDER" for j
    using inv that by (simp add: pool_inv_def pool_shape_def upd_free_nr_def nth_list_update)
  have free: "\<forall>j. \<forall>h\<in>set (?fl j). page_ord P h = j \<and> \<not> page_busy P h \<and> h \<notin> D - {i}"
    using inv k pool_inv_D [OF inv i] by (auto simp: pool_inv_def)
  have buddies: "\<forall>j<PAGE_POOL_MAX_ORDER - 1. \<forall>h\<in>set (?fl j). buddy j h \<notin> set (?fl j)"
  proof (intro allI impI ballI)
    fix j h assume j: "j < PAGE_POOL_MAX_ORDER - 1" and h: "h \<in> set (?fl j)"
    have old: "buddy j g \<notin> set (fl j)" if "g \<in> set (fl j)" for g
      using inv j that by (auto simp: pool_inv_def)
    have self: "buddy k i \<noteq> i"
      using buddy_props(2) tiles_head [OF pool_inv_tiles [OF inv] pool_inv_D_head [OF i]] k by simp
    show "buddy j h \<notin> set (?fl j)"
      using h old alone j self by (auto split: if_splits)
  qed
  show ?thesis
    using inv heads count free buddies links'
    by (simp add: pool_inv_def pool_shape_def upd_free_nr_def)
qed

lemma nth_upd_page:
  "i < length (array P) \<Longrightarrow> array (upd_page i f P) ! j = (if j = i then f (array P ! i) else array P ! j)"
  by (simp add: upd_page_def)

lemma upd_page_other [simp]:
  "nr_pages (upd_page i f P) = nr_pages P" "links (upd_page i f P) = links P"
  "free_nr (upd_page i f P) = free_nr P" "pool_min_pfn (upd_page i f P) = pool_min_pfn P"
  "available_pages (upd_page i f P) = available_pages P"
  "length (array (upd_page i f P)) = length (array P)" "pool_lock (upd_page i f P) = pool_lock P"
  by (simp_all add: upd_page_def)

text \<open>A block in hand is split in two.\<close>

lemma pool_inv_split:
  assumes inv: "pool_inv D fl P" and i: "i \<in> D" and k: "page_ord P i = Suc k"
  defines "P' \<equiv> upd_page i (pf_order_update (\<lambda>_. k)) (upd_page (buddy k i) (pf_order_update (\<lambda>_. k)) P)"
  shows "pool_inv (insert (buddy k i) D) fl P'" and "buddy k i < nr_pages P" and "buddy k i \<notin> D"
    and "block (Suc k) i = block k i \<union> block k (buddy k i)"
    and "block k i \<inter> block k (buddy k i) = {}"
    and "\<forall>j<nr_pages P. j \<noteq> i \<longrightarrow> j \<noteq> buddy k i \<longrightarrow> array P' ! j = array P ! j"
proof -
  let ?b = "buddy k i"
  note t = pool_inv_tiles [OF inv] and head = pool_inv_D_head [OF i]
  note split = tiles_split [OF t head k]
  have b: "i + 2 ^ k = ?b" using split(2) .
  note split = split [unfolded b]
  show less: "?b < nr_pages P" and new: "?b \<notin> D"
    using split(3,4) by (simp_all add: block_heads_def)
  have dvd: "2 ^ k dvd i"
    using tiles_head [OF t head] k power_le_dvd [of 2 "Suc k" i k] by simp
  show "block (Suc k) i = block k i \<union> block k (buddy k i)"
    unfolding block_Suc b ..
  show "block k i \<inter> block k (buddy k i) = {}"
    using buddy_props(3) [OF dvd] .
  have ne: "?b \<noteq> i" using buddy_props(2) [OF dvd] .
  have len: "length (array P) = nr_pages P"
    using pool_inv_shape [OF inv] by simp
  have i_less: "i < nr_pages P" using pool_inv_D [OF inv i] by simp
  have at: "array P' ! j = (if j = i \<or> j = ?b then pf_order_update (\<lambda>_. k) (array P ! j) else array P ! j)" for j
    using len less i_less ne by (simp add: P'_def nth_upd_page)
  then show "\<forall>j<nr_pages P. j \<noteq> i \<longrightarrow> j \<noteq> buddy k i \<longrightarrow> array P' ! j = array P ! j"
    by simp
  have flags: "page_busy P' j = page_busy P j" "PAGE_IS_USED (array P' ! j) = PAGE_IS_USED (array P ! j)"
    "clean (array P' ! j) = clean (array P ! j)" "pf_pfn (array P' ! j) = pf_pfn (array P ! j)" for j
    by (simp_all add: at PAGE_STATE_NOT_FREED_def PAGE_IS_USED_def clean_def page_unused_def)
  have nr: "nr_pages P' = nr_pages P" by (simp add: P'_def)
  have ord: "page_ord P' = (page_ord P)(i := k, ?b := k)"
    using at by (auto simp: fun_eq_iff)
  have heads: "block_heads (insert ?b D) fl P' = insert ?b (block_heads D fl P)"
    by (auto simp: block_heads_def flags nr)
  have notbusy: "\<not> page_busy P ?b"
    using split(3) less by (auto simp: block_heads_def)
  have other: "h \<noteq> i \<and> h \<noteq> ?b" if "h \<in> set (fl j)" for h j
    using pool_inv_free [OF inv that] i split(3) that by (auto simp: block_heads_def free_heads_def)
  have small: "k < PAGE_POOL_MAX_ORDER"
    using pool_inv_head_order [OF inv head] k by simp
  show "pool_inv (insert ?b D) fl P'"
    unfolding pool_inv_def heads
  proof (intro conjI)
    show "tiles (nr_pages P') (insert ?b (block_heads D fl P)) (page_ord P')"
      unfolding ord nr using split(1) .
    show "\<forall>j. \<forall>h\<in>set (fl j). page_ord P' h = j \<and> \<not> page_busy P' h \<and> h \<notin> insert ?b D"
      using pool_inv_free [OF inv] other flags at by simp
    show "\<forall>h\<in>insert ?b D. h < nr_pages P' \<and> \<not> page_busy P' h"
      using pool_inv_D [OF inv] less notbusy flags nr by simp
    show "\<forall>h\<in>insert ?b (block_heads D fl P). page_ord P' h < PAGE_POOL_MAX_ORDER"
      using pool_inv_head_order [OF inv] small at by simp
    show "\<forall>j<nr_pages P'. \<not> PAGE_IS_USED (array P' ! j) \<longrightarrow> clean (array P' ! j)"
      using inv flags nr by (simp add: pool_inv_def)
    show "pool_shape P'"
      using inv flags nr by (simp add: pool_inv_def pool_shape_def) (simp add: P'_def)
  qed (use inv in \<open>simp_all add: pool_inv_def P'_def\<close>)
qed

text \<open>Two buddies in hand become one block; the higher one stops being a head.\<close>

lemma pool_inv_join:
  assumes inv: "pool_inv D fl P" and i: "i \<in> D" and b: "buddy k i \<in> D"
    and k: "page_ord P i = k" "page_ord P (buddy k i) = k" "k < PAGE_POOL_MAX_ORDER - 1"
  defines "m \<equiv> min i (buddy k i)"
  defines "P' \<equiv> upd_page m (pf_order_update (\<lambda>_. Suc k)) P"
  shows "pool_inv (insert m (D - {i, buddy k i})) fl P'"
    and "block (Suc k) m = block k i \<union> block k (buddy k i)"
proof -
  let ?b = "buddy k i"
  let ?D = "insert m (D - {i, ?b})"
  note t = pool_inv_tiles [OF inv] and head = pool_inv_D_head [OF i] and bhead = pool_inv_D_head [OF b]
  have dvd: "2 ^ k dvd i"
    using tiles_head [OF t head] k(1) by simp
  show "block (Suc k) m = block k i \<union> block k ?b"
    using buddy_props(4) [OF dvd] by (simp add: m_def)
  have m: "m = i \<or> m = ?b" and mD: "m \<in> D"
    using i b by (auto simp: m_def min_def)
  have len: "length (array P) = nr_pages P" and m_less: "m < nr_pages P"
    using pool_inv_shape [OF inv] pool_inv_D [OF inv mD] by simp_all
  have at: "array P' ! j = (if j = m then pf_order_update (\<lambda>_. Suc k) (array P ! j) else array P ! j)" for j
    using len m_less by (simp add: P'_def nth_upd_page)
  have flags: "page_busy P' j = page_busy P j" "PAGE_IS_USED (array P' ! j) = PAGE_IS_USED (array P ! j)"
    "clean (array P' ! j) = clean (array P ! j)" "pf_pfn (array P' ! j) = pf_pfn (array P ! j)" for j
    by (simp_all add: at PAGE_STATE_NOT_FREED_def PAGE_IS_USED_def clean_def page_unused_def)
  have nr: "nr_pages P' = nr_pages P" by (simp add: P'_def)
  have ord: "page_ord P' = (page_ord P)(m := Suc k)"
    using at by (auto simp: fun_eq_iff)
  have other: "h \<notin> D" if "h \<in> set (fl j)" for h j
    using pool_inv_free [OF inv that] by simp
  have heads: "block_heads ?D fl P' = insert m (block_heads D fl P - {i, ?b})"
    using i b m pool_inv_D [OF inv] other by (auto simp: block_heads_def flags nr free_heads_def)
  show "pool_inv ?D fl P'"
    unfolding pool_inv_def heads
  proof (intro conjI)
    show "tiles (nr_pages P') (insert m (block_heads D fl P - {i, ?b})) (page_ord P')"
      using tiles_join [OF t head] k bhead unfolding ord nr m_def by simp
    show "\<forall>j. \<forall>h\<in>set (fl j). page_ord P' h = j \<and> \<not> page_busy P' h \<and> h \<notin> ?D"
    proof (intro allI ballI)
      fix j h assume h: "h \<in> set (fl j)"
      then have "h \<noteq> m" using other mD by auto
      then show "page_ord P' h = j \<and> \<not> page_busy P' h \<and> h \<notin> ?D"
        using pool_inv_free [OF inv h] flags at by simp
    qed
    show "\<forall>h\<in>?D. h < nr_pages P' \<and> \<not> page_busy P' h"
      using pool_inv_D [OF inv] mD flags nr by auto
    show "\<forall>h\<in>insert m (block_heads D fl P - {i, ?b}). page_ord P' h < PAGE_POOL_MAX_ORDER"
      using pool_inv_head_order [OF inv] k(3) at by auto
    show "\<forall>j<nr_pages P'. \<not> PAGE_IS_USED (array P' ! j) \<longrightarrow> clean (array P' ! j)"
      using inv flags nr by (simp add: pool_inv_def)
    show "pool_shape P'"
      using inv flags nr by (simp add: pool_inv_def pool_shape_def) (simp add: P'_def)
  qed (use inv in \<open>simp_all add: pool_inv_def P'_def\<close>)
qed

text \<open>A frame is marked or unmarked: the block passes from hand to its owner and back.\<close>

lemma pool_inv_mark:
  assumes inv: "pool_inv D fl P" and i: "i < nr_pages P" "i \<in> block_heads D fl P" "i \<notin> free_heads fl"
    and f: "\<And>pf. pf_order (f pf) = pf_order pf" "\<And>pf. pf_pfn (f pf) = pf_pfn pf"
    and D': "D' - {i} = D - {i}" and D'_i: "i \<in> D' \<longleftrightarrow> \<not> PAGE_STATE_NOT_FREED (f (array P ! i))"
    and clean: "PAGE_IS_USED (f (array P ! i)) \<or> clean (f (array P ! i))"
  shows "pool_inv D' fl (upd_page i f P)"
proof -
  let ?P = "upd_page i f P"
  have len: "length (array P) = nr_pages P"
    using pool_inv_shape [OF inv] by simp
  have at: "array ?P ! j = (if j = i then f (array P ! i) else array P ! j)" for j
    using len i(1) by (simp add: nth_upd_page)
  have ord: "page_ord ?P = page_ord P"
    using f at by (auto simp: fun_eq_iff)
  have heads: "block_heads D' fl ?P = block_heads D fl P"
  proof -
    have "j \<in> block_heads D' fl ?P \<longleftrightarrow> j \<in> block_heads D fl P" for j
    proof (cases "j = i")
      case True
      then show ?thesis using i D'_i by (simp add: block_heads_def at)
    next
      case False
      then have "j \<in> D' \<longleftrightarrow> j \<in> D" using D' by blast
      with False show ?thesis by (simp add: block_heads_def at)
    qed
    then show ?thesis by blast
  qed
  have free: "h \<noteq> i" if "h \<in> set (fl j)" for h j
    using i(3) that by (auto simp: free_heads_def)
  show ?thesis
    unfolding pool_inv_def heads
  proof (intro conjI)
    show "tiles (nr_pages ?P) (block_heads D fl P) (page_ord ?P)"
      using pool_inv_tiles [OF inv] unfolding ord by simp
    show "\<forall>j. \<forall>h\<in>set (fl j). page_ord ?P h = j \<and> \<not> page_busy ?P h \<and> h \<notin> D'"
    proof (intro allI ballI)
      fix j h assume h: "h \<in> set (fl j)"
      then have "h \<notin> D'"
        using pool_inv_free [OF inv h] free [OF h] D' by blast
      with pool_inv_free [OF inv h] free [OF h] at
      show "page_ord ?P h = j \<and> \<not> page_busy ?P h \<and> h \<notin> D'" by simp
    qed
    show "\<forall>h\<in>D'. h < nr_pages ?P \<and> \<not> page_busy ?P h"
    proof
      fix h assume h: "h \<in> D'"
      show "h < nr_pages ?P \<and> \<not> page_busy ?P h"
      proof (cases "h = i")
        case False
        then have "h \<in> D" using h D' by blast
        with False show ?thesis using pool_inv_D [OF inv] at by simp
      qed (use h i(1) D'_i at in simp)
    qed
    show "\<forall>h\<in>block_heads D fl P. page_ord ?P h < PAGE_POOL_MAX_ORDER"
      using pool_inv_head_order [OF inv] ord by (simp add: fun_eq_iff)
    show "\<forall>j<nr_pages ?P. \<not> PAGE_IS_USED (array ?P ! j) \<longrightarrow> clean (array ?P ! j)"
      using inv clean at by (auto simp: pool_inv_def)
    show "pool_shape ?P"
      using inv f(2) at by (auto simp: pool_inv_def pool_shape_def)
  qed (use inv in \<open>simp_all add: pool_inv_def\<close>)
qed

section \<open>What the operations keep\<close>

text \<open>Everything of a pool but the free lists and the orders of its frames.\<close>

definition pool_rest :: "page_buddy \<Rightarrow> page_buddy" where
  "pool_rest P = P\<lparr>links := \<lambda>_. \<lparr>lprev = PageList 0, lnext = PageList 0\<rparr>, free_nr := [],
     array := map (pf_order_update (\<lambda>_. 0)) (array P)\<rparr>"

lemma pool_rest_simps [simp]:
  "pool_rest (P\<lparr>links := l\<rparr>) = pool_rest P" "pool_rest (upd_free_nr k f P) = pool_rest P"
  "pool_rest (upd_page i (pf_order_update (\<lambda>_. k)) P) = pool_rest P"
proof -
  have "(map (pf_order_update (\<lambda>_. 0)) xs)[i := (xs ! i)\<lparr>pf_order := 0\<rparr>] = map (pf_order_update (\<lambda>_. 0)) xs"
    for xs :: "page_frame list"
    by (cases "i < length xs") (simp_all add: list_update_same_conv list_update_beyond)
  then show "pool_rest (upd_page i (pf_order_update (\<lambda>_. k)) P) = pool_rest P"
    by (simp add: pool_rest_def upd_page_def map_update)
qed (simp_all add: pool_rest_def upd_free_nr_def)

lemma pool_rest_eq:
  assumes "pool_rest P' = pool_rest P"
  shows "pool_lock P' = pool_lock P" "nr_pages P' = nr_pages P" "pool_min_pfn P' = pool_min_pfn P"
    "available_pages P' = available_pages P" "length (array P') = length (array P)"
    "i < length (array P) \<Longrightarrow> (array P' ! i)\<lparr>pf_order := 0\<rparr> = (array P ! i)\<lparr>pf_order := 0\<rparr>"
proof -
  note fields = arg_cong [OF assms, of pool_lock] arg_cong [OF assms, of nr_pages]
    arg_cong [OF assms, of pool_min_pfn] arg_cong [OF assms, of available_pages]
    arg_cong [OF assms, of "\<lambda>p. length (array p)"] arg_cong [OF assms, of "\<lambda>p. array p ! i"]
  then show "pool_lock P' = pool_lock P" "nr_pages P' = nr_pages P" "pool_min_pfn P' = pool_min_pfn P"
    "available_pages P' = available_pages P" and len: "length (array P') = length (array P)"
    by (simp_all add: pool_rest_def)
  show "(array P' ! i)\<lparr>pf_order := 0\<rparr> = (array P ! i)\<lparr>pf_order := 0\<rparr>" if "i < length (array P)"
    using fields(6) that len by (simp add: pool_rest_def)
qed

lemma free_frames_upd:
  "free_frames (fl(k := is)) = (\<Union>j\<in>- {k}. \<Union>i\<in>set (fl j). block j i) \<union> (\<Union>i\<in>set is. block k i)"
proof -
  have split: "(\<Union>j. f j) = (\<Union>j\<in>- {k}. f j) \<union> f k" for f :: "nat \<Rightarrow> nat set"
    by auto
  have "(\<Union>j\<in>- {k}. \<Union>i\<in>set ((fl(k := is)) j). block j i) = (\<Union>j\<in>- {k}. \<Union>i\<in>set (fl j). block j i)"
    by (rule SUP_cong) auto
  then show ?thesis
    unfolding free_frames_def split [of "\<lambda>j. \<Union>i\<in>set ((fl(k := is)) j). block j i"] by simp
qed

lemma free_frames_split:
  "free_frames fl = (\<Union>j\<in>- {k}. \<Union>i\<in>set (fl j). block j i) \<union> (\<Union>i\<in>set (fl k). block k i)"
  using free_frames_upd [of fl k "fl k"] by simp

lemma free_frames_add: "free_frames (fl(k := fl k @ [i])) = free_frames fl \<union> block k i"
  unfolding free_frames_upd free_frames_split [of fl k] by auto

lemma free_frames_remove:
  assumes "distinct (fl k)" and "i \<in> set (fl k)"
  shows "free_frames fl = free_frames (fl(k := remove1 i (fl k))) \<union> block k i"
proof -
  have "set (fl k) = insert i (set (remove1 i (fl k)))"
    using assms by auto
  then show ?thesis
    unfolding free_frames_upd free_frames_split [of fl k] by auto
qed

lemma free_block: "i \<in> set (fl k) \<Longrightarrow> block k i \<subseteq> free_frames fl"
  by (auto simp: free_frames_def)

lemma pool_inv_free_disjoint:
  assumes inv: "pool_inv D fl P" and i: "i \<in> block_heads D fl P" "i \<notin> free_heads fl"
  shows "block (page_ord P i) i \<inter> free_frames fl = {}"
proof -
  have "block (page_ord P i) i \<inter> block k j = {}" if "j \<in> set (fl k)" for k j
  proof -
    have "page_ord P j = k" "j \<in> block_heads D fl P" "j \<noteq> i"
      using pool_inv_free [OF inv that] that i(2) by (auto simp: block_heads_def free_heads_def)
    then show ?thesis
      using tiles_apart [OF pool_inv_tiles [OF inv] i(1), of j] by auto
  qed
  then show ?thesis by (auto simp: free_frames_def)
qed

lemma pool_inv_D_disjoint:
  assumes "pool_inv D fl P" and "i \<in> D"
  shows "block (page_ord P i) i \<inter> free_frames fl = {}"
  using pool_inv_free_disjoint [OF assms(1) pool_inv_D_head [OF assms(2)]] assms
  by (auto simp: free_heads_def pool_inv_def)

subsection \<open>Splitting\<close>

lemma adjust_loop_spec:
  assumes "pool_inv {i} fl P" and "page_ord P i = cur" and "r \<le> cur"
  shows "\<exists>P' fl'. adjust_page_order_loop i r cur P = Some P' \<and> pool_inv {i} fl' P' \<and>
    page_ord P' i = r \<and> free_frames fl' \<union> block r i = free_frames fl \<union> block cur i \<and>
    pool_rest P' = pool_rest P \<and> (\<forall>j. j \<notin> block cur i \<longrightarrow> array P' ! j = array P ! j)"
  using assms
proof (induction cur arbitrary: fl P)
  case 0
  then show ?case by (intro exI [of _ P] exI [of _ fl]) simp
next
  case (Suc c)
  show ?case
  proof (cases "Suc c > r")
    case False
    then have "r = Suc c" using Suc.prems(3) by simp
    with Suc.prems show ?thesis by (intro exI [of _ P] exI [of _ fl]) simp
  next
    case True
    let ?b = "buddy c i" and ?o = "pf_order_update (\<lambda>_. c)"
    define P1 where "P1 = upd_page i ?o (upd_page ?b ?o P)"
    note split = pool_inv_split [OF Suc.prems(1) _ Suc.prems(2), simplified, folded P1_def]
    have len: "length (array P) = nr_pages P" and i_less: "i < nr_pages P"
      using pool_inv_shape [OF Suc.prems(1)] pool_inv_D [OF Suc.prems(1)] by simp_all
    have b1: "page_ord P1 ?b = c" and i1: "page_ord P1 i = c"
      using len i_less split(2,3) by (simp_all add: P1_def nth_upd_page)
    define P2 where "P2 = upd_free_nr c (\<lambda>n. n + 1)
      (P1\<lparr>links := queue_add (PageList c) (PageLink ?b) (links P1)\<rparr>)"
    have free: "i \<notin> set (fl c)"
      using Suc.prems(1) by (auto simp: pool_inv_def)
    have inv2: "pool_inv {i} (fl(c := fl c @ [?b])) P2"
      using pool_inv_insert [OF split(1) _ b1] free split(3) by (simp add: P2_def insert_Diff_if)
    have i2: "page_ord P2 i = c"
      using i1 by (simp add: P2_def upd_free_nr_def)
    have r_le: "r \<le> c" using True by simp
    obtain P' fl' where IH: "adjust_page_order_loop i r c P2 = Some P'" "pool_inv {i} fl' P'"
      "page_ord P' i = r" "free_frames fl' \<union> block r i = free_frames (fl(c := fl c @ [?b])) \<union> block c i"
      "pool_rest P' = pool_rest P2" "\<forall>j. j \<notin> block c i \<longrightarrow> array P' ! j = array P2 ! j"
      using Suc.IH [OF inv2 i2 r_le] by blast
    have "upd_page i ?o (upd_free_nr c (\<lambda>n. n + 1) (upd_page ?b ?o P
        \<lparr>links := queue_add (PageList c) (PageLink ?b) (links P)\<rparr>)) = P2"
      by (simp add: P2_def P1_def upd_page_def upd_free_nr_def)
    then have run: "adjust_page_order_loop i r (Suc c) P = Some P'"
      using True split(2) IH(1) by (simp add: Let_def buddy_def)
    have frames: "free_frames fl' \<union> block r i = free_frames fl \<union> block (Suc c) i"
      unfolding IH(4) free_frames_add split(4) by blast
    have rest: "pool_rest P' = pool_rest P"
      using IH(5) by (simp add: P2_def P1_def)
    have keep: "array P' ! j = array P ! j" if "j \<notin> block (Suc c) i" for j
    proof -
      have "j \<notin> block c i" "j \<noteq> i" "j \<noteq> ?b"
        using that head_in_block [of i c] head_in_block [of ?b c] unfolding split(4) by auto
      then show ?thesis
        using IH(6) by (simp add: P2_def P1_def upd_page_def upd_free_nr_def)
    qed
    show ?thesis
      using run IH(2,3) frames rest keep by blast
  qed
qed

lemma pool_inv_pfn:
  "pool_inv D fl P \<Longrightarrow> i < nr_pages P \<Longrightarrow> pf_pfn (array P ! i) = pool_min_pfn P + i"
  by (simp add: pool_inv_def pool_shape_def)

lemma adjust_page_order_spec:
  assumes inv: "pool_inv {i} fl P" and r: "r \<le> page_ord P i"
    and held: "spinlock_locked_by_self (pool_lock P)"
  shows "\<exists>P' fl'. adjust_page_order True i r P = Some P' \<and> pool_inv {i} fl' P' \<and>
    page_ord P' i = r \<and> free_frames fl' \<union> block r i = free_frames fl \<union> block (page_ord P i) i \<and>
    pool_rest P' = pool_rest P \<and> (\<forall>j. j \<notin> block (page_ord P i) i \<longrightarrow> array P' ! j = array P ! j)"
proof -
  have "pf_pfn (array P ! i) - pool_min_pfn P = i"
    using pool_inv_pfn [OF inv] pool_inv_D [OF inv] by simp
  then show ?thesis
    using adjust_loop_spec [OF inv refl r] held
    by (auto simp: adjust_page_order_def Let_def)
qed

subsection \<open>Clusters\<close>

lemma fold_upd_page:
  "fold (\<lambda>k. upd_page (i + k) f) ks P = P\<lparr>array := fold (\<lambda>k xs. xs[i + k := f (xs ! (i + k))]) ks (array P)\<rparr>"
  by (induction ks arbitrary: P) (simp_all add: upd_page_def)

lemma fold_range_update:
  assumes "i + m \<le> length xs"
  shows "length (fold (\<lambda>k xs. xs[i + k := f (xs ! (i + k))]) [0..<m] xs) = length xs \<and>
    (\<forall>j. fold (\<lambda>k xs. xs[i + k := f (xs ! (i + k))]) [0..<m] xs ! j =
      (if i \<le> j \<and> j < i + m then f (xs ! j) else xs ! j))"
  using assms
proof (induction m)
  case (Suc m)
  then show ?case by (auto simp: nth_list_update less_Suc_eq)
qed auto

lemma fold_block_update:
  assumes "block k i \<subseteq> {..<length (array P)}"
  defines "Q \<equiv> \<lambda>f. fold (\<lambda>k. upd_page (i + k) f) [0..<2 ^ k] P"
  shows "Q f = P\<lparr>array := array (Q f)\<rparr>" and "length (array (Q f)) = length (array P)"
    and "array (Q f) ! j = (if j \<in> block k i then f (array P ! j) else array P ! j)"
proof -
  have "i + 2 ^ k - 1 \<in> block k i"
    using zero_less_power [of "2::nat" k] unfolding in_block by (intro conjI) linarith+
  then have "i + 2 ^ k - 1 < length (array P)"
    using assms(1) by blast
  then have "i + 2 ^ k \<le> length (array P)" by linarith
  from fold_range_update [OF this, of f]
  show "Q f = P\<lparr>array := array (Q f)\<rparr>" and "length (array (Q f)) = length (array P)"
    and "array (Q f) ! j = (if j \<in> block k i then f (array P ! j) else array P ! j)"
    by (simp_all add: Q_def fold_upd_page in_block)
qed

text \<open>Cluster flags do not matter to the pool.\<close>

lemma clean_cluster [simp]:
  "clean (PAGE_MARK_CLUSTERED h pf) = clean pf" "clean (PAGE_UNMARK_CLUSTERED pf) = clean pf"
  by (simp_all add: clean_def)

lemma clear_clustered_spec:
  assumes "block (page_ord P i) i \<subseteq> {..<length (array P)}"
  defines "P' \<equiv> clear_clustered_pages i P"
  shows "P' = P\<lparr>array := array P'\<rparr>" and "same_pool P P'"
    and "array P' ! j = (if j \<in> block (page_ord P i) i then PAGE_UNMARK_CLUSTERED (array P ! j) else array P ! j)"
proof -
  note fold = fold_block_update [OF assms(1), of PAGE_UNMARK_CLUSTERED,
      folded clear_clustered_pages_def, folded P'_def]
  show "P' = P\<lparr>array := array P'\<rparr>" and at: "array P' ! j =
    (if j \<in> block (page_ord P i) i then PAGE_UNMARK_CLUSTERED (array P ! j) else array P ! j)" for j
    using fold by blast+
  have "links P' = links P" "free_nr P' = free_nr P" "nr_pages P' = nr_pages P" "pool_min_pfn P' = pool_min_pfn P"
    by (subst fold(1), simp)+
  with fold(2) at show "same_pool P P'"
    by (simp add: same_pool_def)
qed

lemma setup_clustered_spec:
  assumes "block (page_ord P i) i \<subseteq> {..<length (array P)}"
  defines "P' \<equiv> setup_clustered_pages i P"
  shows "P' = P\<lparr>array := array P'\<rparr>" and "same_pool P P'"
    and "array P' ! j =
      (if j \<in> block (page_ord P i) i
       then if page_ord P i = 0 then PAGE_UNMARK_CLUSTERED (array P ! j) else PAGE_MARK_CLUSTERED i (array P ! j)
       else array P ! j)"
proof -
  let ?f = "if page_ord P i = 0 then PAGE_UNMARK_CLUSTERED else PAGE_MARK_CLUSTERED i"
  have eq: "P' = fold (\<lambda>k. upd_page (i + k) ?f) [0..<2 ^ page_ord P i] P"
    by (simp add: P'_def setup_clustered_pages_def)
  note fold = fold_block_update [OF assms(1), of ?f, folded eq]
  show "P' = P\<lparr>array := array P'\<rparr>" and at: "array P' ! j =
      (if j \<in> block (page_ord P i) i
       then if page_ord P i = 0 then PAGE_UNMARK_CLUSTERED (array P ! j) else PAGE_MARK_CLUSTERED i (array P ! j)
       else array P ! j)" for j
    using fold by (auto split: if_splits)
  have "links P' = links P" "free_nr P' = free_nr P" "nr_pages P' = nr_pages P" "pool_min_pfn P' = pool_min_pfn P"
    by (subst fold(1), simp)+
  with fold(2) at show "same_pool P P'"
    by (simp add: same_pool_def)
qed

subsection \<open>Usage\<close>

definition page_usages :: "page_usage set" where
  "page_usages = {PAGE_STATE_UCASE_KERN, PAGE_STATE_UCASE_KSTACK, PAGE_STATE_UCASE_PGTBL,
     PAGE_STATE_UCASE_SLAB, PAGE_STATE_UCASE_ANON, PAGE_STATE_UCASE_PCACHE}"

definition same_core :: "page_buddy \<Rightarrow> page_buddy \<Rightarrow> bool" where
  "same_core P P' \<longleftrightarrow> nr_pages P' = nr_pages P \<and> links P' = links P \<and> free_nr P' = free_nr P \<and>
     pool_min_pfn P' = pool_min_pfn P \<and> pool_lock P' = pool_lock P \<and>
     available_pages P' = available_pages P"

lemma same_core_refl [simp]: "same_core P P"
  by (simp add: same_core_def)

lemma same_core_trans [trans]: "same_core P Q \<Longrightarrow> same_core Q R \<Longrightarrow> same_core P R"
  by (simp add: same_core_def)

lemma same_core_upd_page [simp]: "same_core P (upd_page i f P)"
  by (simp add: same_core_def upd_page_def)

lemma pool_inv_core:
  assumes "same_core P P'" and "array P' = array P"
  shows "pool_inv D fl P' \<longleftrightarrow> pool_inv D fl P"
  using assms by (simp add: same_core_def pool_inv_def pool_shape_def block_heads_def)

lemma mark_page_usage_spec:
  assumes "spinlock_locked_by_self (pool_lock P)" and "usage \<in> page_usages"
  shows "\<exists>P'. mark_page_usage i usage P = Some P' \<and> same_core P P' \<and>
    array P' = array (upd_page i (\<lambda>pf. pf\<lparr>pf_state := pf_state pf OR usage\<rparr>) P)"
  using assms unfolding page_usages_def
  by (auto simp: mark_page_usage_def Let_def same_core_def upd_page_def page_mark_defs)

definition unmark_all :: "page_frame \<Rightarrow> page_frame" where
  "unmark_all pf = pf\<lparr>pf_state := pf_state pf AND NOT PAGE_STATE_UCASE_MASK\<rparr>"

lemma unmark_one:
  "PAGE_USED_BY_KERN pf \<or> PAGE_UNMARK_KERN pf = pf" "PAGE_USED_BY_KSTACK pf \<or> PAGE_UNMARK_KSTACK pf = pf"
  "PAGE_USED_BY_PGTBL pf \<or> PAGE_UNMARK_PGTBL pf = pf" "PAGE_USED_BY_SLAB pf \<or> PAGE_UNMARK_SLAB pf = pf"
  "PAGE_USED_BY_ANON pf \<or> PAGE_UNMARK_ANON pf = pf" "PAGE_USED_BY_PCACHE pf \<or> PAGE_UNMARK_PCACHE pf = pf"
proof -
  have "a AND NOT f = a" if "a AND f = 0" for a f :: u32
  proof -
    have "a = (a AND f) OR (a AND NOT f)"
      by (simp flip: bit.conj_disj_distrib)
    with that show ?thesis by simp
  qed
  then show "PAGE_USED_BY_KERN pf \<or> PAGE_UNMARK_KERN pf = pf" "PAGE_USED_BY_KSTACK pf \<or> PAGE_UNMARK_KSTACK pf = pf"
    "PAGE_USED_BY_PGTBL pf \<or> PAGE_UNMARK_PGTBL pf = pf" "PAGE_USED_BY_SLAB pf \<or> PAGE_UNMARK_SLAB pf = pf"
    "PAGE_USED_BY_ANON pf \<or> PAGE_UNMARK_ANON pf = pf" "PAGE_USED_BY_PCACHE pf \<or> PAGE_UNMARK_PCACHE pf = pf"
    by (simp_all add: page_mark_defs PAGE_USED_BY_KERN_def PAGE_USED_BY_KSTACK_def PAGE_USED_BY_PGTBL_def
        PAGE_USED_BY_SLAB_def PAGE_USED_BY_ANON_def PAGE_USED_BY_PCACHE_def)
qed

lemma unmark_steps:
  "same_core P (unmark_kdata i n P) \<and> array (unmark_kdata i n P) = array (upd_page i PAGE_UNMARK_KERN P)"
  "same_core P (unmark_kstack i n P) \<and> array (unmark_kstack i n P) = array (upd_page i PAGE_UNMARK_KSTACK P)"
  "same_core P (unmark_pgtbl i n P) \<and> array (unmark_pgtbl i n P) = array (upd_page i PAGE_UNMARK_PGTBL P)"
  "same_core P (unmark_slab i n P) \<and> array (unmark_slab i n P) = array (upd_page i PAGE_UNMARK_SLAB P)"
  "same_core P (unmark_anon i n P) \<and> array (unmark_anon i n P) = array (upd_page i PAGE_UNMARK_ANON P)"
  "same_core P (unmark_pcache i n P) \<and> array (unmark_pcache i n P) = array (upd_page i PAGE_UNMARK_PCACHE P)"
  using unmark_one [of "array P ! i"]
  by (auto simp: unmark_kdata_def unmark_kstack_def unmark_pgtbl_def unmark_slab_def unmark_anon_def
      unmark_pcache_def same_core_def upd_page_def)

lemma unmark_page_usage_spec:
  assumes "spinlock_locked_by_self (pool_lock P)"
  shows "\<exists>P'. unmark_page_usage i P = Some P' \<and> same_core P P' \<and> array P' = array (upd_page i unmark_all P)"
proof -
  define n where "n = (push_bit (page_ord P i) 1 :: u64)"
  define P' where "P' = unmark_pcache i n (unmark_anon i n (unmark_slab i n (unmark_pgtbl i n
    (unmark_kstack i n (unmark_kdata i n P)))))"
  have run: "unmark_page_usage i P = Some P'"
    using assms by (simp add: unmark_page_usage_def Let_def P'_def n_def)
  have core: "same_core P P'"
    unfolding P'_def using unmark_steps by (meson same_core_trans)
  have "array P' = array (upd_page i PAGE_UNMARK_PCACHE (upd_page i PAGE_UNMARK_ANON
    (upd_page i PAGE_UNMARK_SLAB (upd_page i PAGE_UNMARK_PGTBL (upd_page i PAGE_UNMARK_KSTACK
    (upd_page i PAGE_UNMARK_KERN P))))))"
    unfolding P'_def by (simp add: unmark_steps upd_page_def)
  also have "\<dots> = array (upd_page i unmark_all P)"
  proof (cases "i < length (array P)")
    case True
    then show ?thesis
      by (simp add: upd_page_def unmark_all_def page_mark_defs PAGE_STATE_UCASE_MASK_def
          bit.de_Morgan_disj and.assoc)
  qed (simp add: upd_page_def list_update_beyond)
  finally show ?thesis
    using run core by blast
qed

subsection \<open>Taking a block\<close>

text \<open>What a successful allocation of the block of order \<open>r\<close> at \<open>i\<close> means.\<close>

definition allocated :: "nat \<Rightarrow> page_usage \<Rightarrow> nat \<Rightarrow> page_buddy \<Rightarrow> bool" where
  "allocated r usage i P \<longleftrightarrow> i < nr_pages P \<and> page_ord P i = r \<and> PAGE_IS_USED (array P ! i) \<and>
     \<not> PAGE_IS_RESERVED (array P ! i) \<and> pf_usecnt (array P ! i) = REFCNT_INITIAL_VAL \<and>
     pf_state (array P ! i) AND PAGE_STATE_UCASE_MASK = usage \<and>
     (0 < r \<longrightarrow> (\<forall>j\<in>block r i. PAGE_IS_CLUSTERED (array P ! j) \<and> pf_headp (array P ! j) = Some i)) \<and>
     (r = 0 \<longrightarrow> \<not> PAGE_IS_CLUSTERED (array P ! i))"

lemma usage_flags:
  assumes "usage \<in> page_usages"
  shows "usage AND PAGE_STATE_UCASE_MASK = usage" "usage AND PAGE_STATE_RESERVED = 0"
    "usage AND PAGE_STATE_CLUSTERED = 0" "PAGE_STATE_USED AND PAGE_STATE_UCASE_MASK = 0"
proof -
  have "\<forall>u\<in>page_usages. u AND PAGE_STATE_UCASE_MASK = u \<and> u AND PAGE_STATE_RESERVED = 0 \<and>
      u AND PAGE_STATE_CLUSTERED = 0"
    unfolding page_usages_def by code_simp
  then show "usage AND PAGE_STATE_UCASE_MASK = usage" "usage AND PAGE_STATE_RESERVED = 0"
    "usage AND PAGE_STATE_CLUSTERED = 0" using assms by simp_all
  show "PAGE_STATE_USED AND PAGE_STATE_UCASE_MASK = 0" by code_simp
qed

definition take_flags :: "page_usage \<Rightarrow> page_frame \<Rightarrow> page_frame" where
  "take_flags usage pf = pf_usecnt_update (refcnt_set REFCNT_INITIAL_VAL)
     (PAGE_MARK_USED (pf\<lparr>pf_state := pf_state pf OR usage\<rparr>))"

lemma take_flags_simps [simp]:
  "pf_order (take_flags usage pf) = pf_order pf" "pf_pfn (take_flags usage pf) = pf_pfn pf"
  "pf_usecnt (take_flags usage pf) = REFCNT_INITIAL_VAL" "pf_headp (take_flags usage pf) = pf_headp pf"
  "PAGE_IS_USED (take_flags usage pf)" "PAGE_STATE_NOT_FREED (take_flags usage pf)"
  by (simp_all add: take_flags_def PAGE_MARK_USED_def PAGE_IS_USED_def PAGE_STATE_NOT_FREED_def
      and_or_eq_0 bit.conj_disj_distrib bit.conj_disj_distrib2 or_eq_0_iff PAGE_STATE_USED_def)

lemma take_flags_tests:
  assumes "usage \<in> page_usages"
  shows "PAGE_IS_RESERVED (take_flags usage pf) = PAGE_IS_RESERVED pf"
    "PAGE_IS_CLUSTERED (take_flags usage pf) = PAGE_IS_CLUSTERED pf"
    "page_unused pf \<Longrightarrow> pf_state (take_flags usage pf) AND PAGE_STATE_UCASE_MASK = usage"
proof -
  have "PAGE_STATE_USED AND PAGE_STATE_RESERVED = 0" "PAGE_STATE_USED AND PAGE_STATE_CLUSTERED = 0"
    by code_simp+
  with usage_flags [OF assms]
  show "PAGE_IS_RESERVED (take_flags usage pf) = PAGE_IS_RESERVED pf"
    "PAGE_IS_CLUSTERED (take_flags usage pf) = PAGE_IS_CLUSTERED pf"
    "page_unused pf \<Longrightarrow> pf_state (take_flags usage pf) AND PAGE_STATE_UCASE_MASK = usage"
    by (simp_all add: take_flags_def PAGE_MARK_USED_def PAGE_IS_RESERVED_def PAGE_IS_CLUSTERED_def
        page_unused_def bit.conj_disj_distrib2)
qed

text \<open>The last steps of an allocation, on a block in hand of the order asked for.\<close>

lemma hand_out_spec:
  assumes inv: "pool_inv {i} fl P" and r: "page_ord P i = r"
    and held: "spinlock_locked_by_self (pool_lock P)" and usage: "usage \<in> page_usages"
  shows "\<exists>P4 P'. mark_page_usage i usage (setup_clustered_pages i P) = Some P4 \<and>
    P' = upd_page i (pf_usecnt_update (refcnt_set REFCNT_INITIAL_VAL)) (upd_page i PAGE_MARK_USED P4) \<and>
    pf_pfn (array (upd_page i PAGE_MARK_USED P4) ! i) = pool_min_pfn P + i \<and>
    pool_inv {} fl P' \<and> same_core P P' \<and> allocated r usage i P' \<and>
    (\<forall>j. j \<notin> block r i \<longrightarrow> array P' ! j = array P ! j)"
proof -
  define P3 where "P3 = setup_clustered_pages i P"
  have len: "length (array P) = nr_pages P" and i: "i < nr_pages P" "\<not> page_busy P i"
    using pool_inv_shape [OF inv] pool_inv_D [OF inv] by simp_all
  have head: "i \<in> block_heads {i} fl P"
    by (simp add: pool_inv_D_head)
  have bound: "block (page_ord P i) i \<subseteq> {..<length (array P)}"
    using tiles_block [OF pool_inv_tiles [OF inv] head] len by simp
  note set = setup_clustered_spec [OF bound, folded P3_def]
  have inv3: "pool_inv {i} fl P3" using pool_inv_same [OF inv set(2)] .
  have core3: "same_core P P3" by (subst set(1)) (simp add: same_core_def)
  have lock3: "pool_lock P3 = pool_lock P" using core3 by (simp add: same_core_def)
  have n3: "nr_pages P3 = nr_pages P" and len3: "length (array P3) = nr_pages P"
    using set(2) len by (simp_all add: same_pool_def)
  obtain P4 where P4: "mark_page_usage i usage P3 = Some P4" "same_core P3 P4"
    "array P4 = array (upd_page i (\<lambda>pf. pf\<lparr>pf_state := pf_state pf OR usage\<rparr>) P3)"
    using mark_page_usage_spec [of P3 usage i] held usage lock3 by auto
  define P' where "P' = upd_page i (pf_usecnt_update (refcnt_set REFCNT_INITIAL_VAL)) (upd_page i PAGE_MARK_USED P4)"
  have i3: "i < length (array P3)" using i len3 by simp
  have arr: "array P' = array (upd_page i (take_flags usage) P3)"
    using i3 by (simp add: P'_def upd_page_def P4(3) take_flags_def)
  have core: "same_core P3 P'"
    unfolding P'_def using P4(2) by (meson same_core_trans same_core_upd_page)
  have at: "array P' ! j = (if j = i then take_flags usage (array P3 ! i) else array P3 ! j)" for j
    unfolding arr using i3 by (simp add: nth_upd_page)
  have not_free: "i \<notin> free_heads fl"
    using inv by (auto simp: free_heads_def pool_inv_def)
  have "pool_inv {} fl (upd_page i (take_flags usage) P3)"
    by (rule pool_inv_mark [OF inv3]) (use i n3 not_free in \<open>simp_all add: pool_inv_D_head\<close>)
  moreover have "same_core (upd_page i (take_flags usage) P3) P'"
    using core by (simp add: same_core_def)
  ultimately have inv': "pool_inv {} fl P'"
    using pool_inv_core arr by blast
  have unused: "page_unused (array P ! i)" and not_resv: "\<not> PAGE_IS_RESERVED (array P ! i)"
    using inv i by (auto simp: pool_inv_def clean_def page_not_freed)
  have a3: "array P3 ! i = (if r = 0 then PAGE_UNMARK_CLUSTERED (array P ! i) else PAGE_MARK_CLUSTERED i (array P ! i))"
    using set(3) [of i] r by simp
  have alloc: "allocated r usage i P'"
    unfolding allocated_def
  proof (intro conjI impI ballI)
    show "pf_state (array P' ! i) AND PAGE_STATE_UCASE_MASK = usage"
      using take_flags_tests(3) [OF usage] unused by (simp add: at a3)
    fix j assume "0 < r" and j: "j \<in> block r i"
    then show "PAGE_IS_CLUSTERED (array P' ! j)" "pf_headp (array P' ! j) = Some i"
      using set(3) [of j] r take_flags_tests(2) [OF usage] by (auto simp: at a3)
  next
    assume "r = 0"
    then show "\<not> PAGE_IS_CLUSTERED (array P' ! i)"
      using take_flags_tests(2) [OF usage] by (simp add: at a3)
  qed (use i n3 core not_resv r take_flags_tests(1) [OF usage] in \<open>simp_all add: at a3 same_core_def\<close>)
  have keep: "array P' ! j = array P ! j" if "j \<notin> block r i" for j
  proof -
    have "j \<noteq> i" using that by auto
    then show ?thesis using set(3) [of j] r that by (simp add: at)
  qed
  have pfn: "pf_pfn (array (upd_page i PAGE_MARK_USED P4) ! i) = pool_min_pfn P + i"
  proof -
    have "pf_pfn (array P3 ! i) = pool_min_pfn P + i"
      using pool_inv_pfn [OF inv3] i n3 core3 by (simp add: same_core_def)
    then show ?thesis using i3 by (simp add: P4(3) upd_page_def)
  qed
  show ?thesis
    using P4(1) P'_def inv' same_core_trans [OF core3 core] alloc keep pfn unfolding P3_def by blast
qed

lemma take_page_spec:
  assumes inv: "pool_inv {} fl P" and eq: "fl k = i # is" and k: "k < PAGE_POOL_MAX_ORDER" and r: "r \<le> k"
    and held: "spinlock_locked_by_self (pool_lock P)" and usage: "usage \<in> page_usages"
  shows "\<exists>P' fl'. take_page True r usage k P = Some (pool_min_pfn P + i, P') \<and> pool_inv {} fl' P' \<and>
    allocated r usage i P' \<and> free_frames fl = free_frames fl' \<union> block r i \<and>
    block r i \<inter> free_frames fl' = {} \<and> (\<forall>j. j \<notin> free_frames fl \<longrightarrow> array P' ! j = array P ! j) \<and>
    pool_lock P' = pool_lock P \<and> nr_pages P' = nr_pages P \<and> pool_min_pfn P' = pool_min_pfn P \<and>
    available_pages P' = available_pages P"
proof -
  note fls = pool_inv_free_lists [OF inv]
  obtain links' where top: "queue_get_top (PageList k) (links P) = (PageLink i, links')"
    and links': "free_lists (nr_pages P) (fl(k := is)) links'"
    using free_lists_top [OF fls k eq] by (metis prod.collapse)
  have i: "i \<in> set (fl k)" and rem: "remove1 i (fl k) = is"
    using eq by simp_all
  define P1 where "P1 = upd_free_nr k (\<lambda>n. n - 1) (P\<lparr>links := links'\<rparr>)"
  have inv1: "pool_inv {i} (fl(k := is)) P1"
    using pool_inv_remove [OF inv i] links' rem by (simp add: P1_def)
  have ord1: "page_ord P1 i = k"
    using pool_inv_free [OF inv i] by (simp add: P1_def upd_free_nr_def)
  have rest1: "pool_rest P1 = pool_rest P" by (simp add: P1_def)
  note eqs1 = pool_rest_eq [OF rest1]
  have held1: "spinlock_locked_by_self (pool_lock P1)" using held eqs1(1) by simp
  obtain P2 fl2 where P2: "adjust_page_order True i r P1 = Some P2" "pool_inv {i} fl2 P2"
    "page_ord P2 i = r" "free_frames fl2 \<union> block r i = free_frames (fl(k := is)) \<union> block k i"
    "pool_rest P2 = pool_rest P1" "\<forall>j. j \<notin> block k i \<longrightarrow> array P2 ! j = array P1 ! j"
    using adjust_page_order_spec [OF inv1 _ held1, of r] r ord1 by auto
  note eqs2 = pool_rest_eq [OF P2(5)]
  have held2: "spinlock_locked_by_self (pool_lock P2)" using held1 eqs2(1) by simp
  obtain P4 P' where P': "mark_page_usage i usage (setup_clustered_pages i P2) = Some P4"
    "P' = upd_page i (pf_usecnt_update (refcnt_set REFCNT_INITIAL_VAL)) (upd_page i PAGE_MARK_USED P4)"
    "pf_pfn (array (upd_page i PAGE_MARK_USED P4) ! i) = pool_min_pfn P2 + i"
    "pool_inv {} fl2 P'" "same_core P2 P'" "allocated r usage i P'"
    "\<forall>j. j \<notin> block r i \<longrightarrow> array P' ! j = array P2 ! j"
    using hand_out_spec [OF P2(2,3) held2 usage] by blast
  have frames: "free_frames fl = free_frames fl2 \<union> block r i"
    using free_frames_remove [of fl k i, OF free_lists_distinct [OF fls] i] rem P2(4) by simp
  have disjoint: "block r i \<inter> free_frames fl2 = {}"
    using pool_inv_D_disjoint [OF P2(2)] P2(3) by auto
  have keep: "array P' ! j = array P ! j" if "j \<notin> free_frames fl" for j
  proof -
    have "j \<notin> block k i" and "j \<notin> block r i"
      using that free_block [of i fl k, OF i] frames by blast+
    then show ?thesis
      using P'(7) P2(6) by (simp add: P1_def upd_free_nr_def)
  qed
  have run: "take_page True r usage k P = Some (pool_min_pfn P2 + i, P')"
    using top P2(1) P'(1,2,3) by (simp add: take_page_def P1_def Let_def)
  have "pool_lock P' = pool_lock P \<and> nr_pages P' = nr_pages P \<and> pool_min_pfn P' = pool_min_pfn P \<and>
    available_pages P' = available_pages P"
    using P'(5) eqs1 eqs2 by (simp add: same_core_def)
  then show ?thesis
    using run P'(4,6) frames disjoint keep eqs1(3) eqs2(3) by auto
qed

text \<open>The first order from the one asked for that has a free block.\<close>

lemma dequeue_loop_spec:
  assumes inv: "pool_inv {} fl P" and held: "spinlock_locked_by_self (pool_lock P)"
    and usage: "usage \<in> page_usages" and r: "r \<le> k"
  shows "if \<exists>m\<ge>k. fl m \<noteq> []
    then \<exists>i P' fl'. dequeue_loop True r usage k P = Some (Inr (pool_min_pfn P + i), P') \<and>
      pool_inv {} fl' P' \<and> allocated r usage i P' \<and> free_frames fl = free_frames fl' \<union> block r i \<and>
      block r i \<inter> free_frames fl' = {} \<and> (\<forall>j. j \<notin> free_frames fl \<longrightarrow> array P' ! j = array P ! j) \<and>
      pool_lock P' = pool_lock P \<and> nr_pages P' = nr_pages P \<and> pool_min_pfn P' = pool_min_pfn P \<and>
      available_pages P' = available_pages P
    else dequeue_loop True r usage k P = Some (Inl ENOMEM, P)"
  using r
proof (induction "PAGE_POOL_MAX_ORDER - k" arbitrary: k)
  case 0
  then have "\<not> (\<exists>m\<ge>k. fl m \<noteq> [])"
    using pool_inv_free_lists [OF inv] by (auto simp: free_lists_def)
  with 0 show ?case by (simp add: dequeue_loop.simps)
next
  case (Suc d)
  then have k: "k < PAGE_POOL_MAX_ORDER" by simp
  note empty = free_lists_empty [OF pool_inv_free_lists [OF inv] k]
  show ?case
  proof (cases "fl k")
    case Nil
    have step: "dequeue_loop True r usage k P = dequeue_loop True r usage (k + 1) P"
      using Nil k empty by (subst dequeue_loop.simps) simp
    have more: "(\<exists>m\<ge>k. fl m \<noteq> []) \<longleftrightarrow> (\<exists>m\<ge>k + 1. fl m \<noteq> [])"
      using Nil by (metis Suc_eq_plus1 Suc_leD le_antisym not_less_eq_eq)
    have "d = PAGE_POOL_MAX_ORDER - (k + 1)" and "r \<le> k + 1"
      using Suc.hyps(2) Suc.prems by simp_all
    from Suc.hyps(1) [OF this] show ?thesis
      unfolding step more .
  next
    case (Cons i "is")
    then have "\<exists>m\<ge>k. fl m \<noteq> []" by auto
    moreover obtain P' fl' where "take_page True r usage k P = Some (pool_min_pfn P + i, P')"
      and "pool_inv {} fl' P' \<and> allocated r usage i P' \<and> free_frames fl = free_frames fl' \<union> block r i \<and>
        block r i \<inter> free_frames fl' = {} \<and> (\<forall>j. j \<notin> free_frames fl \<longrightarrow> array P' ! j = array P ! j) \<and>
        pool_lock P' = pool_lock P \<and> nr_pages P' = nr_pages P \<and> pool_min_pfn P' = pool_min_pfn P \<and>
        available_pages P' = available_pages P"
      using take_page_spec [OF inv Cons k Suc.prems held usage] by blast
    moreover have "dequeue_loop True r usage k P = Some (Inr (pool_min_pfn P + i), P')"
      using Cons k empty calculation(2) by (subst dequeue_loop.simps) simp
    ultimately show ?thesis by auto
  qed
qed

subsection \<open>Returning a block\<close>

lemma mask_index_eq:
  assumes "i < 2 ^ 64" and "k \<le> 64"
  shows "mask_index i (push_bit k (NOT 0)) = 2 ^ k * (i div 2 ^ k)"
    and "mask_index i (NOT (push_bit k (NOT 0))) = i mod 2 ^ k"
proof -
  have "take_bit 64 i = i"
    using assms(1) by (simp add: take_bit_nat_eq_self)
  then have high: "bit i n \<Longrightarrow> n < 64" for n
    by (metis bit_take_bit_iff)
  have "mask_index i (push_bit k (NOT 0)) = push_bit k (drop_bit k i)"
    by (rule bit_eqI) (auto simp: mask_index_def bit_unsigned_iff bit_and_iff bit_push_bit_iff bit_of_nat_iff
        bit_not_iff bit_drop_bit_eq bit_mask_iff high)
  then show "mask_index i (push_bit k (NOT 0)) = 2 ^ k * (i div 2 ^ k)"
    by (simp add: push_bit_eq_mult drop_bit_eq_div mult.commute)
  have "mask_index i (NOT (push_bit k (NOT 0))) = take_bit k i"
    by (rule bit_eqI) (auto simp: mask_index_def bit_unsigned_iff bit_and_iff bit_push_bit_iff bit_of_nat_iff
        bit_not_iff bit_take_bit_iff bit_mask_iff high)
  then show "mask_index i (NOT (push_bit k (NOT 0))) = i mod 2 ^ k"
    by (simp add: take_bit_eq_mod)
qed

lemma enqueue_loop_spec:
  assumes "pool_inv {c} fl (upd_page c (pf_order_update (\<lambda>_. k)) P)" and "k < PAGE_POOL_MAX_ORDER"
    and "c < nr_pages P"
  shows "\<exists>c' P' fl'. enqueue_loop (push_bit k (NOT 0)) k c P = Some (c', P') \<and> pool_inv {c'} fl' P' \<and>
    (page_ord P' c' < PAGE_POOL_MAX_ORDER - 1 \<longrightarrow> buddy (page_ord P' c') c' \<notin> set (fl' (page_ord P' c'))) \<and>
    free_frames fl' \<union> block (page_ord P' c') c' = free_frames fl \<union> block k c \<and>
    pool_rest P' = pool_rest P \<and> (\<forall>j. j \<notin> block (page_ord P' c') c' \<longrightarrow> array P' ! j = array P ! j) \<and>
    block k c \<subseteq> block (page_ord P' c') c'"
  using assms
proof (induction "PAGE_POOL_MAX_ORDER - k" arbitrary: k c fl P)
  case 0
  then show ?case by simp
next
  case (Suc d)
  define P1 where "P1 = upd_page c (pf_order_update (\<lambda>_. k)) P"
  let ?b = "buddy k c" and ?B = PAGE_POOL_MAX_ORDER
  note inv = Suc.prems(1)[folded P1_def] and c = Suc.prems(3)
  have n1: "nr_pages P1 = nr_pages P" by (simp add: P1_def)
  have len: "length (array P1) = nr_pages P"
    using pool_inv_shape [OF inv] n1 by simp
  have len0: "length (array P) = nr_pages P"
    using len by (simp add: P1_def)
  have k1: "page_ord P1 c = k"
    using len0 c by (simp add: P1_def nth_upd_page)
  have keep1: "array P1 ! j = array P ! j" if "j \<noteq> c" for j
    using that by (simp add: P1_def upd_page_def)
  have rest1: "pool_rest P1 = pool_rest P" by (simp add: P1_def)
  have head: "c \<in> block_heads {c} fl P1" by (simp add: pool_inv_D_head)
  have stop: ?case
    if run: "enqueue_loop (push_bit k (NOT 0)) k c P = Some (c, P1)"
      and alone: "k < ?B - 1 \<longrightarrow> ?b \<notin> set (fl k)"
  proof -
    have "array P1 ! j = array P ! j" if "j \<notin> block k c" for j
      using keep1 that by (metis head_in_block)
    then show ?thesis
      using run inv alone rest1 k1 by (intro exI [of _ c] exI [of _ P1] exI [of _ fl]) simp
  qed
  note loop = enqueue_loop.simps [of "push_bit k (NOT 0)" k c P, folded P1_def buddy_def, unfolded Let_def]
  show ?case
  proof (cases "k < ?B - 1 \<and> ?b < nr_pages P \<and> page_ord P1 ?b = k \<and> \<not> page_busy P1 ?b")
    case False
    have "k < ?B - 1 \<longrightarrow> ?b \<notin> set (fl k)"
      using False pool_inv_free [OF inv, of ?b k] n1 by auto
    moreover have "enqueue_loop (push_bit k (NOT 0)) k c P = Some (c, P1)"
      using False Suc.prems(2) c k1 n1 by (subst loop) auto
    ultimately show ?thesis using stop by blast
  next
    case True
    have dvd: "2 ^ k dvd c"
      using tiles_head [OF pool_inv_tiles [OF inv] head] k1 by simp
    have ne: "?b \<noteq> c" using buddy_props(2) [OF dvd] .
    have "?b \<in> block_heads {c} fl P1"
      using tiles_buddy [OF pool_inv_tiles [OF inv] head] k1 True n1 by simp
    then obtain j where "?b \<in> set (fl j)"
      using True ne by (auto simp: block_heads_def free_heads_def)
    moreover then have "j = k" using pool_inv_free [OF inv] True by blast
    ultimately have b: "?b \<in> set (fl k)" by simp
    define fl2 where "fl2 = fl(k := remove1 ?b (fl k))"
    define P2 where "P2 = upd_free_nr k (\<lambda>n. n - 1)
      (P1\<lparr>links := snd (queue_del (PageList k) (PageLink ?b) (links P1))\<rparr>)"
    have inv2: "pool_inv {?b, c} fl2 P2"
      unfolding P2_def fl2_def
      by (rule pool_inv_remove [OF inv b free_lists_del [OF pool_inv_free_lists [OF inv] b]])
    have arr2: "array P2 = array P1" and n2: "nr_pages P2 = nr_pages P"
      by (simp_all add: P2_def upd_free_nr_def n1)
    define m where "m = min c ?b"
    have D: "insert m ({?b, c} - {c, ?b}) = {m}" by auto
    note join = pool_inv_join [OF inv2, of c k, folded m_def, unfolded D]
    have inv3: "pool_inv {m} fl2 (upd_page m (pf_order_update (\<lambda>_. Suc k)) P2)"
      and union: "block (Suc k) m = block k c \<union> block k ?b"
      using join k1 True arr2 by simp_all
    have m_less: "m < nr_pages P2" using c n2 by (simp add: m_def)
    have small: "c < 2 ^ 64"
      using inv c n1 by (simp add: pool_inv_def pool_shape_def)
    have index: "mask_index c (push_bit 1 (push_bit k (NOT 0))) = m"
      using mask_index_eq(1) [OF small, of "Suc k"] True buddy_props(6) [OF dvd]
      by (simp add: m_def PAGE_POOL_MAX_ORDER_def del: bit.compl_zero)
    have run: "enqueue_loop (push_bit k (NOT 0)) k c P = enqueue_loop (push_bit (Suc k) (NOT 0)) (Suc k) m P2"
      using True Suc.prems(2) c k1 n1 index by (subst loop) (simp add: P2_def del: bit.compl_zero)
    have "d = ?B - Suc k" and "Suc k < ?B"
      using Suc.hyps(2) True by linarith+
    then obtain c' P' fl' where IH:
      "enqueue_loop (push_bit (Suc k) (NOT 0)) (Suc k) m P2 = Some (c', P')" "pool_inv {c'} fl' P'"
      "page_ord P' c' < ?B - 1 \<longrightarrow> buddy (page_ord P' c') c' \<notin> set (fl' (page_ord P' c'))"
      "free_frames fl' \<union> block (page_ord P' c') c' = free_frames fl2 \<union> block (Suc k) m"
      "pool_rest P' = pool_rest P2" "\<forall>j. j \<notin> block (page_ord P' c') c' \<longrightarrow> array P' ! j = array P2 ! j"
      "block (Suc k) m \<subseteq> block (page_ord P' c') c'"
      using Suc.hyps(1) [OF _ inv3 _ m_less] by blast
    have "free_frames fl = free_frames fl2 \<union> block k ?b"
      using free_frames_remove [of fl k ?b, OF free_lists_distinct [OF pool_inv_free_lists [OF inv]] b]
      by (simp add: fl2_def)
    then have frames: "free_frames fl' \<union> block (page_ord P' c') c' = free_frames fl \<union> block k c"
      using IH(4) union by auto
    have rest: "pool_rest P' = pool_rest P"
      using IH(5) rest1 by (simp add: P2_def)
    have inside: "block k c \<subseteq> block (page_ord P' c') c'"
      using IH(7) union by blast
    have keep: "array P' ! j = array P ! j" if "j \<notin> block (page_ord P' c') c'" for j
    proof -
      have "j \<noteq> c" using inside that head_in_block by blast
      then show ?thesis using IH(6) that keep1 arr2 by simp
    qed
    show ?thesis
      using run IH(1-3) frames rest keep inside by auto
  qed
qed

lemma upd_page_order_id: "page_ord P i = k \<Longrightarrow> upd_page i (pf_order_update (\<lambda>_. k)) P = P"
proof -
  assume "page_ord P i = k"
  then have "pf_order_update (\<lambda>_. k) (array P ! i) = array P ! i" by simp
  then show ?thesis by (simp add: upd_page_def)
qed

definition release_flags :: "page_frame \<Rightarrow> page_frame" where
  "release_flags pf = PAGE_UNMARK_USED (unmark_all pf)"

lemma release_flags_simps [simp]:
  "pf_order (release_flags pf) = pf_order pf" "pf_pfn (release_flags pf) = pf_pfn pf"
  "\<not> PAGE_IS_USED (release_flags pf)" "PAGE_IS_RESERVED (release_flags pf) \<longleftrightarrow> PAGE_IS_RESERVED pf"
  "clean (release_flags pf) \<longleftrightarrow> pf_usecnt pf = 0"
proof -
  have "NOT PAGE_STATE_UCASE_MASK AND PAGE_STATE_RESERVED = PAGE_STATE_RESERVED" by code_simp
  then have "(s AND NOT PAGE_STATE_UCASE_MASK) AND PAGE_STATE_RESERVED = s AND PAGE_STATE_RESERVED" for s
    by (simp add: and.assoc)
  then have "PAGE_IS_RESERVED (unmark_all pf) \<longleftrightarrow> PAGE_IS_RESERVED pf"
    by (simp add: unmark_all_def PAGE_IS_RESERVED_def)
  moreover have "page_unused (unmark_all pf)"
    by (simp add: page_unused_def unmark_all_def and.assoc)
  ultimately show "pf_order (release_flags pf) = pf_order pf" "pf_pfn (release_flags pf) = pf_pfn pf"
    "\<not> PAGE_IS_USED (release_flags pf)" "PAGE_IS_RESERVED (release_flags pf) \<longleftrightarrow> PAGE_IS_RESERVED pf"
    "clean (release_flags pf) \<longleftrightarrow> pf_usecnt pf = 0"
    by (simp_all add: release_flags_def clean_def) (simp_all add: unmark_all_def)
qed

lemma enqueue_spec:
  assumes inv: "pool_inv D fl P" and i: "i < nr_pages P" "i \<in> block_heads D fl P" "i \<notin> free_heads fl"
    and D: "D \<subseteq> {i}" and idle: "\<not> PAGE_IS_RESERVED (array P ! i)" "pf_usecnt (array P ! i) = 0"
    and held: "spinlock_locked_by_self (pool_lock P)"
  shows "\<exists>P' fl'. enqueue_page_to_buddy_pool i P = Some P' \<and> pool_inv {} fl' P' \<and>
    free_frames fl' = free_frames fl \<union> block (page_ord P i) i \<and>
    (\<forall>j. j \<notin> free_frames fl' \<longrightarrow> array P' ! j = array P ! j) \<and>
    pool_lock P' = pool_lock P \<and> nr_pages P' = nr_pages P \<and> pool_min_pfn P' = pool_min_pfn P \<and>
    available_pages P' = available_pages P"
proof -
  define k where "k = page_ord P i"
  have len: "length (array P) = nr_pages P" and k: "k < PAGE_POOL_MAX_ORDER" and dvd: "2 ^ k dvd i"
    using pool_inv_shape [OF inv] pool_inv_head_order [OF inv i(2)] tiles_head [OF pool_inv_tiles [OF inv] i(2)]
    by (simp_all add: k_def)
  have "i < 2 ^ 64"
    using inv i(1) by (simp add: pool_inv_def pool_shape_def)
  then have aligned: "mask_index i (NOT (push_bit k (NOT 0))) = 0"
    using mask_index_eq(2) [of i k] k dvd by (simp add: PAGE_POOL_MAX_ORDER_def del: bit.compl_zero)
  obtain P1 where P1: "unmark_page_usage i P = Some P1" "same_core P P1" "array P1 = array (upd_page i unmark_all P)"
    using unmark_page_usage_spec [OF held] by blast
  define P2 where "P2 = upd_page i PAGE_UNMARK_USED P1"
  have arr2: "array P2 = array (upd_page i release_flags P)"
    using i(1) len by (simp add: P2_def upd_page_def P1(3) release_flags_def)
  have core2: "same_core P P2"
    unfolding P2_def using P1(2) by (meson same_core_trans same_core_upd_page)
  have "pool_inv {i} fl (upd_page i release_flags P)"
    by (rule pool_inv_mark [OF inv i]) (use D idle in \<open>auto simp: page_not_freed\<close>)
  moreover have "same_core (upd_page i release_flags P) P2"
    using core2 by (simp add: same_core_def)
  ultimately have inv2: "pool_inv {i} fl P2"
    using pool_inv_core arr2 by blast
  have n2: "nr_pages P2 = nr_pages P" and len2: "length (array P2) = nr_pages P"
    using core2 len by (simp_all add: same_core_def arr2)
  have k2: "page_ord P2 i = k"
    using i(1) len by (simp add: arr2 nth_upd_page k_def)
  obtain c P3 fl3 where P3: "enqueue_loop (push_bit k (NOT 0)) k i P2 = Some (c, P3)" "pool_inv {c} fl3 P3"
    "page_ord P3 c < PAGE_POOL_MAX_ORDER - 1 \<longrightarrow> buddy (page_ord P3 c) c \<notin> set (fl3 (page_ord P3 c))"
    "free_frames fl3 \<union> block (page_ord P3 c) c = free_frames fl \<union> block k i"
    "pool_rest P3 = pool_rest P2" "\<forall>j. j \<notin> block (page_ord P3 c) c \<longrightarrow> array P3 ! j = array P2 ! j"
    "block k i \<subseteq> block (page_ord P3 c) c"
    using enqueue_loop_spec [of i fl k P2] inv2 upd_page_order_id [OF k2] k i(1) n2 by auto
  note eqs3 = pool_rest_eq [OF P3(5)]
  define k' where "k' = page_ord P3 c"
  have head3: "c \<in> block_heads {c} fl3 P3" by (simp add: pool_inv_D_head)
  have c: "c < nr_pages P3" and k': "k' < PAGE_POOL_MAX_ORDER"
    using pool_inv_D [OF P3(2)] pool_inv_head_order [OF P3(2) head3] by (simp_all add: k'_def)
  define P4 where "P4 = clear_clustered_pages c P3"
  have bound: "block (page_ord P3 c) c \<subseteq> {..<length (array P3)}"
    using tiles_block [OF pool_inv_tiles [OF P3(2)] head3] pool_inv_shape [OF P3(2)] by simp
  note clear = clear_clustered_spec [OF bound, folded P4_def]
  have inv4: "pool_inv {c} fl3 P4"
    using pool_inv_same [OF P3(2) clear(2)] .
  have core4: "same_core P3 P4" by (subst clear(1)) (simp add: same_core_def)
  have k4: "page_ord P4 c = k'"
    using clear(2) c by (simp add: same_pool_def k'_def)
  define P' where "P' = upd_free_nr k' (\<lambda>n. n + 1) (P4\<lparr>links := queue_add (PageList k') (PageLink c) (links P4)\<rparr>)"
  have inv': "pool_inv {} (fl3(k' := fl3 k' @ [c])) P'"
    using pool_inv_insert [OF inv4 _ k4] P3(3) unfolding P'_def k'_def by simp
  have run: "enqueue_page_to_buddy_pool i P = Some P'"
    using held k aligned P1(1) P3(1) c k' k4
    by (simp add: enqueue_page_to_buddy_pool_def Let_def k_def [symmetric] P2_def [symmetric] k'_def [symmetric]
        P4_def [symmetric] P'_def del: bit.compl_zero)
  have frames: "free_frames (fl3(k' := fl3 k' @ [c])) = free_frames fl \<union> block (page_ord P i) i"
    using P3(4) by (simp add: free_frames_add k'_def k_def del: fun_upd_apply)
  have keep: "array P' ! j = array P ! j" if "j \<notin> free_frames (fl3(k' := fl3 k' @ [c]))" for j
  proof -
    have "j \<notin> block k' c" and "j \<noteq> i"
      using that P3(7) head_in_block [of i k] unfolding free_frames_add k'_def by blast+
    then have "array P3 ! j = array P2 ! j" "array P4 ! j = array P3 ! j" "array P2 ! j = array P ! j"
      using P3(6) clear(3) i(1) len by (simp_all add: k'_def arr2 nth_upd_page)
    then show ?thesis by (simp add: P'_def upd_free_nr_def)
  qed
  have "pool_lock P' = pool_lock P \<and> nr_pages P' = nr_pages P \<and> pool_min_pfn P' = pool_min_pfn P \<and>
    available_pages P' = available_pages P"
    using core2 core4 eqs3(1-4) by (simp add: same_core_def P'_def upd_free_nr_def)
  then show ?thesis
    using run inv' frames keep by blast
qed

end
