(* ===== verification/Pfdb.thy ===== *)
theory Pfdb
  imports BuddyPool
begin

unbundle bit_operations_syntax

text \<open>
  The page frame database (kern/page-pfdb.c) over the buddy pools: lookup of a frame by number,
  allocation over all the memory areas, reservation of a physical range, the use and map counts,
  statistics; the conversions between physical addresses, kernel addresses and frame numbers
  (hal/riscv64/rv64-pframe.c, where \<open>base\<close> is the configured \<open>HAL_KERN_VMA_BASE\<close>); and the page
  interface (kern/page-alloc.c).

  The red-black tree of the areas (the macros of include/klib/rbtree.h, a copy of the BSD ones) is
  the list of its entries in the order of \<open>RB_FOREACH\<close>: \<open>_pfdb_ent_cmp\<close> puts the areas with
  higher frame numbers first. \<open>RB_FIND\<close> with the key of one frame compares it with entries until
  one compares equal. A page is a pair of an entry and an index of its array. The record of the CPU
  carries the interrupt mask that the locks save and restore.
\<close>

section \<open>Addresses and frame numbers (hal/riscv64/rv64-pframe.c)\<close>

definition PAGE_SHIFT :: nat where "PAGE_SHIFT = 12"

definition PAGE_SIZE :: u64 where "PAGE_SIZE = 4096"

definition PAGE_TRUNCATE :: "u64 \<Rightarrow> u64" where
  "PAGE_TRUNCATE addr = addr AND NOT (PAGE_SIZE - 1)"

definition PAGE_ROUNDUP :: "u64 \<Rightarrow> u64" where
  "PAGE_ROUNDUP len = PAGE_TRUNCATE (len + (PAGE_SIZE - 1))"

definition HAL_KERN_STRAIGHT_TO_PHY :: "u64 \<Rightarrow> u64 \<Rightarrow> u64" where
  "HAL_KERN_STRAIGHT_TO_PHY base kvaddr = kvaddr - base"

definition HAL_PHY_TO_KERN_STRAIGHT :: "u64 \<Rightarrow> u64 \<Rightarrow> u64" where
  "HAL_PHY_TO_KERN_STRAIGHT base paddr = paddr + base"

definition hal_paddr_to_pfn :: "u64 \<Rightarrow> errno + nat" where
  "hal_paddr_to_pfn paddr = Inr (unat (drop_bit PAGE_SHIFT paddr))"

definition hal_pfn_to_paddr :: "nat \<Rightarrow> errno + u64" where
  "hal_pfn_to_paddr pfn = Inr (push_bit PAGE_SHIFT (of_nat pfn))"

definition hal_kvaddr_to_pfn :: "u64 \<Rightarrow> u64 \<Rightarrow> errno + nat" where
  "hal_kvaddr_to_pfn base kvaddr = hal_paddr_to_pfn (HAL_KERN_STRAIGHT_TO_PHY base kvaddr)"

definition hal_pfn_to_kvaddr :: "u64 \<Rightarrow> nat \<Rightarrow> errno + u64" where
  "hal_pfn_to_kvaddr base pfn =
     (case hal_pfn_to_paddr pfn of
        Inl e \<Rightarrow> Inl e
      | Inr phys_addr \<Rightarrow> Inr (HAL_PHY_TO_KERN_STRAIGHT base phys_addr))"

definition hal_kvaddr_to_phys :: "u64 \<Rightarrow> u64 \<Rightarrow> errno + u64" where
  "hal_kvaddr_to_phys base kvaddr =
     (case hal_kvaddr_to_pfn base kvaddr of
        Inl e \<Rightarrow> Inl e
      | Inr pfn \<Rightarrow> Inr (push_bit PAGE_SHIFT (of_nat pfn)))"

definition hal_phys_to_kvaddr :: "u64 \<Rightarrow> u64 \<Rightarrow> errno + u64" where
  "hal_phys_to_kvaddr base phys_addr =
     (case hal_paddr_to_pfn phys_addr of
        Inl e \<Rightarrow> Inl e
      | Inr pfn \<Rightarrow> hal_pfn_to_kvaddr base pfn)"

definition pfdb_kvaddr_to_paddr :: "u64 \<Rightarrow> u64 \<Rightarrow> errno + u64" where
  "pfdb_kvaddr_to_paddr base kvaddr =
     (case hal_kvaddr_to_pfn base kvaddr of
        Inl _ \<Rightarrow> Inl ESRCH
      | Inr pfn \<Rightarrow> (case hal_pfn_to_paddr pfn of Inl _ \<Rightarrow> Inl ESRCH | Inr paddr \<Rightarrow> Inr paddr))"

definition pfdb_paddr_to_kvaddr :: "u64 \<Rightarrow> u64 \<Rightarrow> errno + u64" where
  "pfdb_paddr_to_kvaddr base paddr =
     (case hal_paddr_to_pfn paddr of
        Inl _ \<Rightarrow> Inl ESRCH
      | Inr pfn \<Rightarrow> (case hal_pfn_to_kvaddr base pfn of Inl _ \<Rightarrow> Inl ESRCH | Inr kvaddr \<Rightarrow> Inr kvaddr))"

definition pfdb_pfn_to_kvaddr :: "u64 \<Rightarrow> nat \<Rightarrow> errno + u64" where
  "pfdb_pfn_to_kvaddr base pfn =
     (case hal_pfn_to_kvaddr base pfn of Inl _ \<Rightarrow> Inl ESRCH | Inr kvaddr \<Rightarrow> Inr kvaddr)"

definition pfdb_kvaddr_to_pfn :: "u64 \<Rightarrow> u64 \<Rightarrow> errno + nat" where
  "pfdb_kvaddr_to_pfn base kvaddr =
     (case hal_kvaddr_to_pfn base kvaddr of Inl _ \<Rightarrow> Inl ESRCH | Inr pfn \<Rightarrow> Inr pfn)"

section \<open>The database\<close>

record pfdb_ent =
  pe_kvaddr :: u64
  pe_length :: u64
  min_pfn :: nat
  max_pfn :: nat
  page_pool :: page_buddy

record page_frame_db =
  db_lock :: spinlock
  dbroot :: "pfdb_ent list"

definition set_pool :: "nat \<Rightarrow> page_buddy \<Rightarrow> page_frame_db \<Rightarrow> page_frame_db" where
  "set_pool e pool db = db\<lparr>dbroot := (dbroot db)[e := (dbroot db ! e)\<lparr>page_pool := pool\<rparr>]\<rparr>"

text \<open>The comparison of a key, given by its bounds, with an entry; a failed assertion is \<open>None\<close>.\<close>

definition pfdb_ent_cmp :: "nat \<times> nat \<Rightarrow> pfdb_ent \<Rightarrow> int option" where
  "pfdb_ent_cmp key ent =
     (let (key_min, key_max) = key
      in if key_max \<le> min_pfn ent then Some 1
         else if max_pfn ent \<le> key_min then Some (- 1)
         else do {
           kassert (min_pfn ent \<le> key_min \<and> key_max < max_pfn ent);
           Some 0
         })"

fun pfdb_tree_find :: "nat \<times> nat \<Rightarrow> pfdb_ent list \<Rightarrow> nat option option" where
  "pfdb_tree_find key [] = Some None"
| "pfdb_tree_find key (ent # ents) =
     (case pfdb_ent_cmp key ent of
        None \<Rightarrow> None
      | Some c \<Rightarrow>
          if c = 0 then Some (Some 0)
          else map_option (map_option Suc) (pfdb_tree_find key ents))"

text \<open>\<open>RB_INSERT\<close> gives the place of the new entry, or none when an equal entry is registered.\<close>

fun pfdb_tree_insert :: "pfdb_ent \<Rightarrow> pfdb_ent list \<Rightarrow> (nat option \<times> pfdb_ent list) option" where
  "pfdb_tree_insert ent [] = Some (Some 0, [ent])"
| "pfdb_tree_insert ent (e # ents) =
     (case pfdb_ent_cmp (min_pfn ent, max_pfn ent) e of
        None \<Rightarrow> None
      | Some c \<Rightarrow>
          if c < 0 then Some (Some 0, ent # e # ents)
          else if c > 0 then map_option (map_prod (map_option Suc) ((#) e)) (pfdb_tree_insert ent ents)
          else Some (None, e # ents))"

definition pfn_to_page_frame :: "nat \<Rightarrow> page_frame_db \<Rightarrow> cpu \<Rightarrow> ((errno + nat \<times> nat) \<times> page_frame_db \<times> cpu) option" where
  "pfn_to_page_frame pfn db c = do {
     (iflags, l1, c1) \<leftarrow> spinlock_lock_disable_intr (db_lock db) c;
     res \<leftarrow> pfdb_tree_find (pfn, pfn + 1) (dbroot db);
     let rc = (case res of None \<Rightarrow> Inl ESRCH | Some e \<Rightarrow> Inr (e, pfn - min_pfn (dbroot db ! e)));
     (l2, c2) \<leftarrow> spinlock_unlock_restore_intr iflags l1 c1;
     Some (rc, db\<lparr>db_lock := l2\<rparr>, c2)
   }"

definition pfdb_pfn_to_page_frame ::
    "nat \<Rightarrow> page_frame_db \<Rightarrow> cpu \<Rightarrow> ((errno + nat \<times> nat) \<times> page_frame_db \<times> cpu) option" where
  "pfdb_pfn_to_page_frame pfn db c = do {
     (rc, db', c') \<leftarrow> pfn_to_page_frame pfn db c;
     Some (case rc of Inl _ \<Rightarrow> Inl ESRCH | Inr pf \<Rightarrow> Inr pf, db', c')
   }"

definition pfdb_kvaddr_to_page_frame ::
    "u64 \<Rightarrow> u64 \<Rightarrow> page_frame_db \<Rightarrow> cpu \<Rightarrow> ((errno + nat \<times> nat) \<times> page_frame_db \<times> cpu) option" where
  "pfdb_kvaddr_to_page_frame base kvaddr db c =
     (case hal_kvaddr_to_pfn base kvaddr of
        Inl _ \<Rightarrow> Some (Inl ESRCH, db, c)
      | Inr pfn \<Rightarrow> do {
          (rc, db', c') \<leftarrow> pfn_to_page_frame pfn db c;
          case rc of Inl _ \<Rightarrow> None | Inr pf \<Rightarrow> Some (Inr pf, db', c')
        })"

definition kcom_is_pfn_valid :: "nat \<Rightarrow> page_frame_db \<Rightarrow> cpu \<Rightarrow> (bool \<times> page_frame_db \<times> cpu) option" where
  "kcom_is_pfn_valid pfn db c = do {
     (rc, db', c') \<leftarrow> pfn_to_page_frame pfn db c;
     Some (\<not> isl rc, db', c')
   }"

section \<open>Allocation over all areas\<close>

text \<open>The loop \<open>RB_FOREACH\<close>, from entry number \<open>e\<close> on.\<close>

function pfdb_buddy_dequeue_loop ::
    "nat \<Rightarrow> page_usage \<Rightarrow> nat \<Rightarrow> page_frame_db \<Rightarrow> cpu \<Rightarrow> ((errno + nat) \<times> page_frame_db \<times> cpu) option" where
  "pfdb_buddy_dequeue_loop order usage e db c =
     (if e < length (dbroot db)
      then case dequeue_page_from_memory_area (spinlock_locked_by_self (db_lock db)) order usage
                  (page_pool (dbroot db ! e)) c of
             None \<Rightarrow> None
           | Some (rc, pool, c') \<Rightarrow>
               let db' = set_pool e pool db
               in if rc \<noteq> Inl ENOMEM then Some (rc, db', c')
                  else pfdb_buddy_dequeue_loop order usage (e + 1) db' c'
      else Some (Inl ENOMEM, db, c))"
  by pat_completeness auto
termination
  by (relation "measure (\<lambda>(order, usage, e, db, c). length (dbroot db) - e)") (auto simp: set_pool_def)

declare pfdb_buddy_dequeue_loop.simps [simp del]

definition pfdb_buddy_dequeue ::
    "nat \<Rightarrow> page_usage \<Rightarrow> page_frame_db \<Rightarrow> cpu \<Rightarrow> ((errno + nat) \<times> page_frame_db \<times> cpu) option" where
  "pfdb_buddy_dequeue order usage db c = do {
     (iflags, l1, c1) \<leftarrow> spinlock_lock_disable_intr (db_lock db) c;
     (rc, db', c2) \<leftarrow> pfdb_buddy_dequeue_loop order usage 0 (db\<lparr>db_lock := l1\<rparr>) c1;
     (l2, c3) \<leftarrow> spinlock_unlock_restore_intr iflags (db_lock db') c2;
     Some (rc, db'\<lparr>db_lock := l2\<rparr>, c3)
   }"

section \<open>Reservation\<close>

definition pool_del_page :: "nat \<Rightarrow> page_buddy \<Rightarrow> page_buddy" where
  "pool_del_page idx pool =
     (let k = pf_order (array pool ! idx);
          pool1 = pool\<lparr>links := snd (queue_del (PageList k) (PageLink idx) (links pool))\<rparr>
      in upd_free_nr k (\<lambda>n. n - 1) pool1)"

text \<open>Both locks save the interrupt state in the one variable \<open>iflags\<close> of the function.\<close>

definition mark_page_frame_reserved ::
    "nat \<Rightarrow> page_frame_db \<Rightarrow> cpu \<Rightarrow> ((errno + unit) \<times> page_frame_db \<times> cpu) option" where
  "mark_page_frame_reserved pfn db c = do {
     (iflags, l1, c1) \<leftarrow> spinlock_lock_disable_intr (db_lock db) c;
     res \<leftarrow> pfdb_tree_find (pfn, pfn + 1) (dbroot db);
     case res of
       None \<Rightarrow> do {
         (l2, c2) \<leftarrow> spinlock_unlock_restore_intr iflags l1 c1;
         Some (Inl ESRCH, db\<lparr>db_lock := l2\<rparr>, c2)
       }
     | Some e \<Rightarrow> do {
         let pool = page_pool (dbroot db ! e);
         let idx = pfn - min_pfn (dbroot db ! e);
         kassert (\<not> PAGE_IS_RESERVED (array pool ! idx));
         (iflags, pl1, c2) \<leftarrow> spinlock_lock_disable_intr (pool_lock pool) c1;
         let pool1 = pool_del_page idx (pool\<lparr>pool_lock := pl1\<rparr>);
         pool2 \<leftarrow> adjust_page_order (spinlock_locked_by_self l1) idx 0 pool1;
         kassert (fst (refcnt_read (pf_usecnt (array pool2 ! idx))) = 0);
         kassert (page_unused (array pool2 ! idx));
         kassert (\<not> PAGE_IS_USED (array pool2 ! idx));
         let pool3 = setup_clustered_pages idx pool2;
         let pool4 = pool3\<lparr>available_pages := available_pages pool3 - 1\<rparr>;
         (pl2, c3) \<leftarrow> spinlock_unlock_restore_intr iflags (pool_lock pool4) c2;
         let pool5 = upd_page idx PAGE_MARK_RESERVED (pool4\<lparr>pool_lock := pl2\<rparr>);
         (l2, c4) \<leftarrow> spinlock_unlock_restore_intr iflags l1 c3;
         Some (Inr (), set_pool e pool5 (db\<lparr>db_lock := l2\<rparr>), c4)
       }
   }"

definition unmark_page_frame_reserved ::
    "nat \<Rightarrow> page_frame_db \<Rightarrow> cpu \<Rightarrow> ((errno + unit) \<times> page_frame_db \<times> cpu) option" where
  "unmark_page_frame_reserved pfn db c = do {
     (iflags, l1, c1) \<leftarrow> spinlock_lock_disable_intr (db_lock db) c;
     res \<leftarrow> pfdb_tree_find (pfn, pfn + 1) (dbroot db);
     case res of
       None \<Rightarrow> do {
         (l2, c2) \<leftarrow> spinlock_unlock_restore_intr iflags l1 c1;
         Some (Inl ESRCH, db\<lparr>db_lock := l2\<rparr>, c2)
       }
     | Some e \<Rightarrow> (
         let pool = page_pool (dbroot db ! e);
             idx = pfn - min_pfn (dbroot db ! e)
         in if \<not> PAGE_IS_RESERVED (array pool ! idx) then do {
              (l2, c2) \<leftarrow> spinlock_unlock_restore_intr iflags l1 c1;
              Some (Inl ENOLCK, db\<lparr>db_lock := l2\<rparr>, c2)
            } else do {
              kassert (fst (refcnt_read (pf_usecnt (array pool ! idx))) = 0);
              kassert (page_unused (array pool ! idx));
              kassert (\<not> PAGE_IS_USED (array pool ! idx));
              let pool1 = upd_page idx PAGE_UNMARK_RESERVED pool;
              (iflags, pl1, c2) \<leftarrow> spinlock_lock_disable_intr (pool_lock pool1) c1;
              pool2 \<leftarrow> enqueue_page_to_buddy_pool idx (pool1\<lparr>pool_lock := pl1\<rparr>);
              let pool3 = pool2\<lparr>available_pages := available_pages pool2 + 1\<rparr>;
              (pl2, c3) \<leftarrow> spinlock_unlock_restore_intr iflags (pool_lock pool3) c2;
              (l2, c4) \<leftarrow> spinlock_unlock_restore_intr iflags l1 c3;
              Some (Inr (), set_pool e (pool3\<lparr>pool_lock := pl2\<rparr>) (db\<lparr>db_lock := l2\<rparr>), c4)
            })
   }"

text \<open>
  The loops over the pages of a physical range. They run from \<open>PAGE_TRUNCATE start\<close> in steps of a
  page while the address is below \<open>PAGE_ROUNDUP end\<close>: the difference counts the pages left.
\<close>

fun mark_pages_reserved :: "nat \<Rightarrow> u64 \<Rightarrow> page_frame_db \<Rightarrow> cpu \<Rightarrow> (page_frame_db \<times> cpu) option" where
  "mark_pages_reserved 0 resv_page db c = Some (db, c)"
| "mark_pages_reserved (Suc n) resv_page db c = do {
     (rc, db', c') \<leftarrow> mark_page_frame_reserved (unat (drop_bit PAGE_SHIFT resv_page)) db c;
     kassert (rc = Inr ());
     mark_pages_reserved n (resv_page + PAGE_SIZE) db' c'
   }"

fun unmark_pages_reserved :: "nat \<Rightarrow> u64 \<Rightarrow> page_frame_db \<Rightarrow> cpu \<Rightarrow> (page_frame_db \<times> cpu) option" where
  "unmark_pages_reserved 0 resv_page db c = Some (db, c)"
| "unmark_pages_reserved (Suc n) resv_page db c = do {
     (rc, db', c') \<leftarrow> unmark_page_frame_reserved (unat (drop_bit PAGE_SHIFT resv_page)) db c;
     kassert (rc = Inr ());
     unmark_pages_reserved n (resv_page + PAGE_SIZE) db' c'
   }"

definition pages_between :: "u64 \<Rightarrow> u64 \<Rightarrow> nat" where
  "pages_between page_start page_end =
     (if page_start < page_end then unat (drop_bit PAGE_SHIFT (page_end - page_start)) else 0)"

definition pfdb_mark_phys_range_reserved :: "u64 \<Rightarrow> u64 \<Rightarrow> page_frame_db \<Rightarrow> cpu \<Rightarrow> (page_frame_db \<times> cpu) option" where
  "pfdb_mark_phys_range_reserved start end' db c =
     mark_pages_reserved (pages_between (PAGE_TRUNCATE start) (PAGE_ROUNDUP end')) (PAGE_TRUNCATE start) db c"

definition pfdb_unmark_phys_range_reserved :: "u64 \<Rightarrow> u64 \<Rightarrow> page_frame_db \<Rightarrow> cpu \<Rightarrow> (page_frame_db \<times> cpu) option" where
  "pfdb_unmark_phys_range_reserved start end' db c =
     unmark_pages_reserved (pages_between (PAGE_TRUNCATE start) (PAGE_ROUNDUP end')) (PAGE_TRUNCATE start) db c"

section \<open>Use and map counts\<close>

definition pfdb_page_map_count_init :: "u32 \<Rightarrow> page_frame \<Rightarrow> page_frame" where
  "pfdb_page_map_count_init val pf = pf\<lparr>pf_mapcnt := refcnt_set val (pf_mapcnt pf)\<rparr>"

definition pfdb_ref_page_map_count :: "page_frame \<Rightarrow> u32" where
  "pfdb_ref_page_map_count pf = fst (refcnt_read (pf_mapcnt pf))"

definition pfdb_inc_page_map_count :: "page_frame \<Rightarrow> (bool \<times> page_frame) option" where
  "pfdb_inc_page_map_count pf = do {
     (old, cnt) \<leftarrow> refcnt_inc_if_valid (pf_mapcnt pf);
     Some (old \<noteq> 0, pf\<lparr>pf_mapcnt := cnt\<rparr>)
   }"

definition pfdb_dec_page_map_count :: "page_frame \<Rightarrow> (bool \<times> page_frame) option" where
  "pfdb_dec_page_map_count pf = do {
     (last_map, cnt) \<leftarrow> refcnt_dec_and_test (pf_mapcnt pf);
     Some (last_map, pf\<lparr>pf_mapcnt := cnt\<rparr>)
   }"

definition pfdb_ref_page_use_count :: "page_frame \<Rightarrow> u32" where
  "pfdb_ref_page_use_count pf = fst (refcnt_read (pf_usecnt pf))"

definition pfdb_inc_page_use_count :: "page_frame \<Rightarrow> (bool \<times> page_frame) option" where
  "pfdb_inc_page_use_count pf = do {
     (old, cnt) \<leftarrow> refcnt_inc_if_valid (pf_usecnt pf);
     Some (old \<noteq> 0, pf\<lparr>pf_usecnt := cnt\<rparr>)
   }"

definition pfdb_dec_page_use_count :: "nat \<Rightarrow> page_buddy \<Rightarrow> cpu \<Rightarrow> (bool \<times> page_buddy \<times> cpu) option" where
  "pfdb_dec_page_use_count i pool c = do {
     (rc, cnt) \<leftarrow> refcnt_dec_and_test (pf_usecnt (array pool ! i));
     let pool1 = upd_page i (pf_usecnt_update (\<lambda>_. cnt)) pool;
     if rc then do {
       kassert (PAGE_IS_USED (array pool1 ! i));
       kassert (pfdb_ref_page_map_count (array pool1 ! i) = 0);
       (iflags, l1, c1) \<leftarrow> spinlock_lock_disable_intr (pool_lock pool1) c;
       pool2 \<leftarrow> enqueue_page_to_buddy_pool i (pool1\<lparr>pool_lock := l1\<rparr>);
       (l2, c2) \<leftarrow> spinlock_unlock_restore_intr iflags (pool_lock pool2) c1;
       Some (True, pool2\<lparr>pool_lock := l2\<rparr>, c2)
     } else Some (False, pool1, c)
   }"

section \<open>Registering and removing an area\<close>

text \<open>
  \<open>pfdb_add\<close> places the entry and the array of frames at the end of the area. \<open>sz_ent\<close> and
  \<open>sz_frame\<close> are the sizes of the two structures; \<open>old_pool\<close> and \<open>old_frames\<close> are what the memory
  holds there before. The code sets the members one by one: the usage counters of the pool and the
  bits of \<open>state\<close> other than \<open>PAGE_STATE_RESERVED\<close> keep what was in memory.
\<close>

definition init_page_frame :: "nat \<Rightarrow> nat \<Rightarrow> page_frame \<Rightarrow> page_frame" where
  "init_page_frame minp i pgf =
     (PAGE_MARK_RESERVED pgf)\<lparr>pf_arch_state := 0, pf_pfn := minp + i,
        pf_usecnt := refcnt_init_with_value 0 (pf_usecnt pgf),
        pf_mapcnt := refcnt_init_with_value 0 (pf_mapcnt pgf), pf_order := 0, pf_headp := None\<rparr>"

definition init_page_pool :: "nat \<Rightarrow> nat \<Rightarrow> page_buddy \<Rightarrow> (nat \<Rightarrow> page_frame) \<Rightarrow> page_buddy" where
  "init_page_pool minp nr old_pool old_frames =
     (let queues = fold (\<lambda>k. queue_init (PageList k)) [0..<PAGE_POOL_MAX_ORDER] (links old_pool);
          ls = fold (\<lambda>i. list_init (PageLink i)) [0..<nr] queues
      in old_pool\<lparr>pool_lock := spinlock_init, nr_pages := nr, pool_min_pfn := minp,
           free_nr := replicate PAGE_POOL_MAX_ORDER 0, links := ls,
           array := map (\<lambda>i. init_page_frame minp i (old_frames i)) [0..<nr]\<rparr>)"

definition release_page :: "nat \<Rightarrow> page_buddy \<Rightarrow> cpu \<Rightarrow> (page_buddy \<times> cpu) option" where
  "release_page i pool c = do {
     let pool1 = upd_page i PAGE_UNMARK_RESERVED pool;
     (iflags, l1, c1) \<leftarrow> spinlock_lock_disable_intr (pool_lock pool1) c;
     pool2 \<leftarrow> enqueue_page_to_buddy_pool i (pool1\<lparr>pool_lock := l1\<rparr>);
     let pool3 = pool2\<lparr>available_pages := available_pages pool2 + 1\<rparr>;
     (l2, c2) \<leftarrow> spinlock_unlock_restore_intr iflags (pool_lock pool3) c1;
     Some (pool3\<lparr>pool_lock := l2\<rparr>, c2)
   }"

fun release_pages :: "(nat \<Rightarrow> bool) \<Rightarrow> nat list \<Rightarrow> page_buddy \<Rightarrow> cpu \<Rightarrow> (page_buddy \<times> cpu) option" where
  "release_pages keep [] pool c = Some (pool, c)"
| "release_pages keep (i # is) pool c =
     (if keep i then release_pages keep is pool c
      else do {
        (pool', c') \<leftarrow> release_page i pool c;
        release_pages keep is pool' c'
      })"

definition pool_bytes :: "page_buddy \<Rightarrow> u64" where
  "pool_bytes pool = (\<Sum>k\<leftarrow>[0..<PAGE_POOL_MAX_ORDER]. free_nr pool ! k * push_bit k PAGE_SIZE)"

definition pfdb_add ::
    "u64 \<Rightarrow> u64 \<Rightarrow> u64 \<Rightarrow> u64 \<Rightarrow> u64 \<Rightarrow> page_buddy \<Rightarrow> (nat \<Rightarrow> page_frame) \<Rightarrow> page_frame_db \<Rightarrow> cpu \<Rightarrow>
     (nat \<times> page_frame_db \<times> cpu) option" where
  "pfdb_add base sz_ent sz_frame phys_start len old_pool old_frames db c =
     (case hal_phys_to_kvaddr base phys_start of Inl _ \<Rightarrow> None | Inr kvaddr \<Rightarrow>
      case hal_kvaddr_to_pfn base kvaddr of Inl _ \<Rightarrow> None | Inr minp \<Rightarrow>
      let area_end = PAGE_ROUNDUP (kvaddr + len - 1) in
      case hal_kvaddr_to_pfn base area_end of Inl _ \<Rightarrow> None | Inr maxp \<Rightarrow> do {
        let pfdb = kvaddr + len - sz_ent;
        let nr = maxp - minp;
        let array_addr = pfdb - of_nat nr * sz_frame;
        let pool = init_page_pool minp nr old_pool old_frames;
        let ent = \<lparr>pe_kvaddr = kvaddr, pe_length = len, min_pfn = minp, max_pfn = maxp, page_pool = pool\<rparr>;
        (iflags, l1, c1) \<leftarrow> spinlock_lock_disable_intr (db_lock db) c;
        (place, ents) \<leftarrow> pfdb_tree_insert ent (dbroot db);
        (l2, c2) \<leftarrow> spinlock_unlock_restore_intr iflags l1 c1;
        e \<leftarrow> place;
        let keep = (\<lambda>i. case hal_pfn_to_kvaddr base (minp + i) of
                       Inl _ \<Rightarrow> False
                     | Inr kaddr \<Rightarrow> PAGE_TRUNCATE array_addr \<le> kaddr \<and> kaddr < area_end);
        (pool', c3) \<leftarrow> release_pages keep [0..<nr] (pool\<lparr>available_pages := 0\<rparr>) c2;
        kassert (pool_bytes pool' + area_end - PAGE_TRUNCATE array_addr = len);
        Some (e, set_pool e pool' (db\<lparr>db_lock := l2, dbroot := ents\<rparr>), c3)
      })"

text \<open>
  \<open>RB_REMOVE\<close> unlinks the entry it is given and returns it: the branch of the code for a null
  result (\<open>-ENOENT\<close>) is never taken. An entry is given by its place in the tree.
\<close>

definition pool_free_pages :: "page_buddy \<Rightarrow> u64" where
  "pool_free_pages pool = (\<Sum>k\<leftarrow>[0..<PAGE_POOL_MAX_ORDER]. push_bit k (free_nr pool ! k))"

definition remove_pfdb_ent_common :: "nat \<Rightarrow> page_frame_db \<Rightarrow> cpu \<Rightarrow> ((errno + unit) \<times> page_frame_db \<times> cpu) option" where
  "remove_pfdb_ent_common e db c = do {
     let pool = page_pool (dbroot db ! e);
     kassert (spinlock_locked_by_self (db_lock db));
     (iflags, l1, c1) \<leftarrow> spinlock_lock_disable_intr (pool_lock pool) c;
     if available_pages pool \<noteq> pool_free_pages pool then do {
       (l2, c2) \<leftarrow> spinlock_unlock_restore_intr iflags l1 c1;
       Some (Inl EBUSY, set_pool e (pool\<lparr>pool_lock := l2\<rparr>) db, c2)
     } else do {
       let ents = take e (dbroot db) @ drop (Suc e) (dbroot db);
       (l2, c2) \<leftarrow> spinlock_unlock_restore_intr iflags l1 c1;
       Some (Inr (), db\<lparr>dbroot := ents\<rparr>, c2)
     }
   }"

definition pfdb_remove :: "nat \<Rightarrow> page_frame_db \<Rightarrow> cpu \<Rightarrow> ((errno + unit) \<times> page_frame_db \<times> cpu) option" where
  "pfdb_remove e db c = do {
     (iflags, l1, c1) \<leftarrow> spinlock_lock_disable_intr (db_lock db) c;
     (rc, db1, c2) \<leftarrow> remove_pfdb_ent_common e (db\<lparr>db_lock := l1\<rparr>) c1;
     (l2, c3) \<leftarrow> spinlock_unlock_restore_intr iflags (db_lock db1) c2;
     Some (rc, db1\<lparr>db_lock := l2\<rparr>, c3)
   }"

text \<open>\<open>RB_FOREACH_SAFE\<close>: the next entry is at the same place when the current one was removed.\<close>

fun pfdb_free_loop :: "nat \<Rightarrow> nat \<Rightarrow> page_frame_db \<Rightarrow> cpu \<Rightarrow> (page_frame_db \<times> cpu) option" where
  "pfdb_free_loop 0 e db c = Some (db, c)"
| "pfdb_free_loop (Suc n) e db c = do {
     (rc, db', c') \<leftarrow> remove_pfdb_ent_common e db c;
     pfdb_free_loop n (if rc = Inr () then e else e + 1) db' c'
   }"

definition pfdb_free :: "page_frame_db \<Rightarrow> cpu \<Rightarrow> (page_frame_db \<times> cpu) option" where
  "pfdb_free db c = do {
     (iflags, l1, c1) \<leftarrow> spinlock_lock_disable_intr (db_lock db) c;
     (db1, c2) \<leftarrow> pfdb_free_loop (length (dbroot db)) 0 (db\<lparr>db_lock := l1\<rparr>) c1;
     (l2, c3) \<leftarrow> spinlock_unlock_restore_intr iflags (db_lock db1) c2;
     Some (db1\<lparr>db_lock := l2\<rparr>, c3)
   }"

section \<open>Statistics\<close>

record pfdb_stat =
  st_nr_pages :: u64
  st_nr_free_pages :: u64
  st_reserved_pages :: u64
  st_available_pages :: u64
  st_free_nr :: "u64 list"
  st_kdata_pages :: u64
  st_kstack_pages :: u64
  st_pgtbl_pages :: u64
  st_slab_pages :: u64
  st_anon_pages :: u64
  st_pcache_pages :: u64

definition pfdb_stat_zero :: pfdb_stat where
  "pfdb_stat_zero = \<lparr>st_nr_pages = 0, st_nr_free_pages = 0, st_reserved_pages = 0, st_available_pages = 0,
     st_free_nr = replicate PAGE_POOL_MAX_ORDER 0, st_kdata_pages = 0, st_kstack_pages = 0,
     st_pgtbl_pages = 0, st_slab_pages = 0, st_anon_pages = 0, st_pcache_pages = 0\<rparr>"

definition stat_add_order :: "page_buddy \<Rightarrow> nat \<Rightarrow> pfdb_stat \<Rightarrow> pfdb_stat" where
  "stat_add_order pool k st = st\<lparr>
     st_nr_free_pages := st_nr_free_pages st + push_bit k (free_nr pool ! k),
     st_free_nr := (st_free_nr st)[k := st_free_nr st ! k + free_nr pool ! k]\<rparr>"

definition stat_add_pool :: "page_buddy \<Rightarrow> pfdb_stat \<Rightarrow> pfdb_stat" where
  "stat_add_pool pool st =
     fold (stat_add_order pool) [0..<PAGE_POOL_MAX_ORDER] (st\<lparr>
       st_nr_pages := st_nr_pages st + of_nat (nr_pages pool),
       st_available_pages := st_available_pages st + available_pages pool,
       st_reserved_pages := st_reserved_pages st + (of_nat (nr_pages pool) - available_pages pool),
       st_kdata_pages := st_kdata_pages st + kdata_pages pool,
       st_kstack_pages := st_kstack_pages st + kstack_pages pool,
       st_pgtbl_pages := st_pgtbl_pages st + pgtbl_pages pool,
       st_slab_pages := st_slab_pages st + slab_pages pool,
       st_anon_pages := st_anon_pages st + anon_pages pool,
       st_pcache_pages := st_pcache_pages st + pcache_pages pool\<rparr>)"

definition kcom_obtain_pfdb_stat :: "page_frame_db \<Rightarrow> cpu \<Rightarrow> (pfdb_stat \<times> page_frame_db \<times> cpu) option" where
  "kcom_obtain_pfdb_stat db c = do {
     (iflags, l1, c1) \<leftarrow> spinlock_lock_disable_intr (db_lock db) c;
     let st = fold (\<lambda>ent. stat_add_pool (page_pool ent)) (dbroot db) pfdb_stat_zero;
     (l2, c2) \<leftarrow> spinlock_unlock_restore_intr iflags l1 c1;
     Some (st, db\<lparr>db_lock := l2\<rparr>, c2)
   }"

section \<open>The page interface (kern/page-alloc.c)\<close>

definition KM_SFLAGS_CLR_NONE :: u32 where "KM_SFLAGS_CLR_NONE = 1"

definition KMALLOC_ATOMIC :: u32 where "KMALLOC_ATOMIC = 2"

fun calc_page_order_loop :: "u64 \<Rightarrow> nat \<Rightarrow> nat \<Rightarrow> errno + nat" where
  "calc_page_order_loop nr 0 order = Inl ESRCH"
| "calc_page_order_loop nr (Suc n) order =
     (if nr AND NOT (push_bit (order + 1) 1 - 1) = 0
      then let order' = (if nr AND (push_bit order 1 - 1) \<noteq> 0 then order + 1 else order)
           in if order' = PAGE_POOL_MAX_ORDER then Inl ESRCH else Inr order'
      else calc_page_order_loop nr n (order + 1))"

text \<open>The loop runs over the orders \<open>0, \<dots>, PAGE_POOL_MAX_ORDER - 1\<close>.\<close>

definition pgif_calc_page_order :: "u64 \<Rightarrow> errno + nat" where
  "pgif_calc_page_order len =
     calc_page_order_loop (drop_bit PAGE_SHIFT (PAGE_ROUNDUP len)) PAGE_POOL_MAX_ORDER 0"

text \<open>
  \<open>memset(kvaddr, 0, PAGE_SIZE << order)\<close> clears the block: memory is a map from addresses to
  bytes. The loop of the code ends in its first iteration, by an error or by success.
\<close>

definition clear_memory :: "u64 \<Rightarrow> u64 \<Rightarrow> (u64 \<Rightarrow> u8) \<Rightarrow> u64 \<Rightarrow> u8" where
  "clear_memory addr len mem = (\<lambda>a. if a - addr < len then 0 else mem a)"

definition pgif_get_free_page_cluster ::
    "u64 \<Rightarrow> nat \<Rightarrow> u32 \<Rightarrow> page_usage \<Rightarrow> page_frame_db \<Rightarrow> (u64 \<Rightarrow> u8) \<Rightarrow> cpu \<Rightarrow>
     ((errno + u64) \<times> page_frame_db \<times> (u64 \<Rightarrow> u8) \<times> cpu) option" where
  "pgif_get_free_page_cluster base order alloc_flags usage db mem c = do {
     (rc, db', c') \<leftarrow> pfdb_buddy_dequeue order usage db c;
     case rc of
       Inl e \<Rightarrow> Some (Inl (if e \<noteq> ESRCH then ENOMEM else e), db', mem, c')
     | Inr pfn \<Rightarrow>
         (case pfdb_pfn_to_kvaddr base pfn of
            Inl _ \<Rightarrow> None
          | Inr kvaddr \<Rightarrow>
              Some (Inr kvaddr, db',
                if alloc_flags AND KM_SFLAGS_CLR_NONE = 0
                then clear_memory kvaddr (push_bit order PAGE_SIZE) mem else mem, c'))
   }"

definition pgif_get_free_page ::
    "u64 \<Rightarrow> u32 \<Rightarrow> page_usage \<Rightarrow> page_frame_db \<Rightarrow> (u64 \<Rightarrow> u8) \<Rightarrow> cpu \<Rightarrow>
     ((errno + u64) \<times> page_frame_db \<times> (u64 \<Rightarrow> u8) \<times> cpu) option" where
  "pgif_get_free_page base alloc_flags usage db mem c =
     pgif_get_free_page_cluster base 0 alloc_flags usage db mem c"

definition pgif_free_page :: "u64 \<Rightarrow> u64 \<Rightarrow> page_frame_db \<Rightarrow> cpu \<Rightarrow> (page_frame_db \<times> cpu) option" where
  "pgif_free_page base addr db c = do {
     (rc, db1, c1) \<leftarrow> pfdb_kvaddr_to_page_frame base addr db c;
     case rc of
       Inl _ \<Rightarrow> None
     | Inr (e, i) \<Rightarrow> do {
         (_, pool, c2) \<leftarrow> pfdb_dec_page_use_count i (page_pool (dbroot db1 ! e)) c1;
         Some (set_pool e pool db1, c2)
       }
   }"

end
