(* ===== verification/PfdbLaws.thy ===== *)
theory PfdbLaws
  imports Pfdb
begin

unbundle bit_operations_syntax

text \<open>
  The properties of the page allocator: allocation and release in one area, its registration,
  reservation of frames, lookup of a frame by number, and the order needed for a size.
\<close>

section \<open>Joined buddies leave no hidden room\<close>

lemma block_sub: "k \<le> m \<Longrightarrow> block k i \<subseteq> block m i"
proof -
  assume "k \<le> m"
  then have "(2::nat) ^ k \<le> 2 ^ m" by simp
  then show ?thesis by (auto simp: block_def)
qed

lemma free_block_in:
  assumes inv: "pool_inv D fl P" and j: "j \<in> free_frames fl"
  obtains k h where "h \<in> set (fl k)" and "j \<in> block k h" and "h \<in> block_heads D fl P"
    and "page_ord P h = k" and "2 ^ k dvd h"
proof -
  obtain k h where kh: "h \<in> set (fl k)" "j \<in> block k h"
    using j by (auto simp: free_frames_def)
  then have head: "h \<in> block_heads D fl P"
    by (auto simp: block_heads_def free_heads_def)
  have ord: "page_ord P h = k"
    using pool_inv_free [OF inv kh(1)] by simp
  with that kh head tiles_head [OF pool_inv_tiles [OF inv] head] show thesis by simp
qed

text \<open>
  If all frames of an aligned range of \<open>2 ^ r\<close> frames are free, some queue of order at least \<open>r\<close>
  is not empty: otherwise the smallest free block of the range would have a free buddy.
\<close>

lemma coalesced_complete:
  assumes inv: "pool_inv D fl P" and r: "r < PAGE_POOL_MAX_ORDER" "2 ^ r dvd j"
    and free: "block r j \<subseteq> free_frames fl"
  shows "\<exists>m\<ge>r. fl m \<noteq> []"
proof (rule ccontr)
  assume "\<not> ?thesis"
  then have small: "k < r" if "h \<in> set (fl k)" for h k
    using that by (metis empty_iff empty_set not_le)
  define K where "K = {k. \<exists>h\<in>set (fl k). block k h \<subseteq> block r j}"
  have inside: "block k h \<subseteq> block r j" if "h \<in> set (fl k)" "2 ^ k dvd h" "block k h \<inter> block r j \<noteq> {}" for h k
    using block_aligned_cases [OF that(2) r(2) _ that(3)] small [OF that(1)] by simp
  have "\<exists>k. k \<in> K"
  proof -
    have "j \<in> free_frames fl" using free head_in_block [of j r] by (rule subsetD)
    then obtain k h where h: "h \<in> set (fl k)" "j \<in> block k h" "2 ^ k dvd h"
      by (rule free_block_in [OF inv])
    have "block k h \<subseteq> block r j"
      by (rule inside [OF h(1,3)]) (use h(2) head_in_block [of j r] in auto)
    with h(1) show ?thesis unfolding K_def by auto
  qed
  define k where "k = (LEAST k. k \<in> K)"
  have k: "k \<in> K" "\<forall>l\<in>K. k \<le> l"
    unfolding k_def using LeastI_ex [OF \<open>\<exists>k. k \<in> K\<close>] by (simp_all add: Least_le)
  from k(1) obtain h where h: "h \<in> set (fl k)" "block k h \<subseteq> block r j"
    by (auto simp: K_def)
  have head: "h \<in> block_heads D fl P" and ord: "page_ord P h = k"
    using h(1) pool_inv_free [OF inv h(1)] by (auto simp: block_heads_def free_heads_def)
  have dvd: "2 ^ k dvd h"
    using tiles_head [OF pool_inv_tiles [OF inv] head] ord by simp
  let ?b = "buddy k h"
  note props = buddy_props [OF dvd]
  have "block (Suc k) (min h ?b) \<subseteq> block r j"
  proof (rule block_aligned_cases [OF props(5) r(2)])
    show "Suc k \<le> r" using small [OF h(1)] by simp
    show "block (Suc k) (min h ?b) \<inter> block r j \<noteq> {}"
      using subsetD [OF h(2) head_in_block] head_in_block [of h k] unfolding props(4) by blast
  qed
  then have b_in: "?b \<in> block r j" and bb: "block k ?b \<subseteq> block r j"
    using head_in_block [of ?b k] unfolding props(4) by auto
  have "?b \<in> free_frames fl" using free b_in by (rule subsetD)
  then obtain l g where g: "g \<in> set (fl l)" "?b \<in> block l g" "g \<in> block_heads D fl P" "page_ord P g = l" "2 ^ l dvd g"
    by (rule free_block_in [OF inv])
  have "block l g \<subseteq> block r j"
    by (rule inside [OF g(1,5)]) (use g(2) b_in in auto)
  with g(1) have "l \<in> K" unfolding K_def by auto
  then have "k \<le> l" using k(2) by simp
  have b_less: "?b < nr_pages P"
    using g(2,4) tiles_block [OF pool_inv_tiles [OF inv] g(3)] by blast
  have b_head: "?b \<in> block_heads D fl P" "page_ord P ?b \<le> k"
    using tiles_buddy [OF pool_inv_tiles [OF inv] head] ord b_less by simp_all
  have "g = ?b"
    using tiles_disjoint [OF pool_inv_tiles [OF inv] g(3) b_head(1), of ?b] g(2,4) by simp
  then have "?b \<in> set (fl k)"
    using g(1,4) b_head(2) \<open>k \<le> l\<close> by simp
  moreover have "k < PAGE_POOL_MAX_ORDER - 1"
    using small [OF h(1)] r(1) by simp
  ultimately show False
    using inv h(1) by (simp add: pool_inv_def)
qed

lemma room_iff:
  assumes inv: "pool_inv {} fl P" and r: "r < PAGE_POOL_MAX_ORDER"
  shows "(\<exists>m\<ge>r. fl m \<noteq> []) \<longleftrightarrow> (\<exists>j. 2 ^ r dvd j \<and> block r j \<subseteq> free_frames fl)"
proof
  assume "\<exists>m\<ge>r. fl m \<noteq> []"
  then obtain m i where m: "r \<le> m" "i \<in> set (fl m)"
    by (metis list.set_intros(1) neq_Nil_conv)
  have "i \<in> block_heads {} fl P" and ord: "page_ord P i = m"
    using m(2) pool_inv_free [OF inv m(2)] by (auto simp: block_heads_def free_heads_def)
  then have "2 ^ m dvd i"
    using tiles_head [OF pool_inv_tiles [OF inv]] by blast
  then have "2 ^ r dvd i"
    using m(1) power_le_dvd by blast
  moreover have "block r i \<subseteq> free_frames fl"
    using free_block [of i fl m, OF m(2)] block_sub [OF m(1), of i] by blast
  ultimately show "\<exists>j. 2 ^ r dvd j \<and> block r j \<subseteq> free_frames fl" by blast
next
  show "\<exists>j. 2 ^ r dvd j \<and> block r j \<subseteq> free_frames fl \<Longrightarrow> \<exists>m\<ge>r. fl m \<noteq> []"
    using coalesced_complete [OF inv r] by blast
qed

section \<open>Areas being registered\<close>

text \<open>The pool as \<open>pfdb_add\<close> initialises it: every frame is a reserved block of its own.\<close>

lemma fold_queue_init:
  "fold (\<lambda>k. queue_init (f k)) ks h a = (if a \<in> f ` set ks then \<lparr>lprev = a, lnext = a\<rparr> else h a)"
  by (induction ks arbitrary: h) (auto simp: queue_init_def set_prev_def set_next_def)

lemma fold_list_init:
  "fold (\<lambda>k. list_init (f k)) ks h a = (if a \<in> f ` set ks then \<lparr>lprev = a, lnext = a\<rparr> else h a)"
  by (induction ks arbitrary: h) (auto simp: list_init_def set_prev_def set_next_def)

lemma init_page_frame_simps [simp]:
  "pf_order (init_page_frame m i pf) = 0" "pf_pfn (init_page_frame m i pf) = m + i"
  "pf_usecnt (init_page_frame m i pf) = 0" "PAGE_IS_RESERVED (init_page_frame m i pf)"
  by (simp_all add: init_page_frame_def PAGE_MARK_RESERVED_def PAGE_IS_RESERVED_def
      bit.conj_disj_distrib2 or_eq_0_iff PAGE_STATE_RESERVED_def)

lemma init_page_frame_clear:
  assumes "pf_state pf = 0"
  shows "\<not> PAGE_IS_USED (init_page_frame m i pf)" "clean (init_page_frame m i pf)"
proof -
  have "PAGE_STATE_RESERVED AND PAGE_STATE_USED = 0" "PAGE_STATE_RESERVED AND PAGE_STATE_UCASE_MASK = 0"
    by code_simp+
  with assms show "\<not> PAGE_IS_USED (init_page_frame m i pf)" "clean (init_page_frame m i pf)"
    by (simp_all add: init_page_frame_def PAGE_MARK_RESERVED_def PAGE_IS_USED_def clean_def page_unused_def)
qed

lemma init_page_pool_inv:
  assumes zero: "\<forall>i<nr. pf_state (frames i) = 0" and nr: "nr \<le> 2 ^ 31"
  shows "pool_inv {} (\<lambda>_. []) (init_page_pool m nr old frames)"
proof -
  let ?P = "init_page_pool m nr old frames"
  have fields: "nr_pages ?P = nr" "pool_min_pfn ?P = m" "free_nr ?P = replicate PAGE_POOL_MAX_ORDER 0"
    "array ?P = map (\<lambda>i. init_page_frame m i (frames i)) [0..<nr]"
    by (simp_all add: init_page_pool_def Let_def)
  have links: "links ?P a = \<lparr>lprev = a, lnext = a\<rparr>" if "a \<in> pool_heads \<union> pool_nodes nr" for a
    using that by (auto simp: init_page_pool_def Let_def fold_queue_init fold_list_init)
  have queues: "queues_of (\<lambda>_. []) = (\<lambda>_. [])"
  proof
    show "queues_of (\<lambda>_. []) q = []" for q by (cases q) simp_all
  qed
  have lists: "free_lists nr (\<lambda>_. []) (links ?P)"
    unfolding free_lists_def queues using links by (auto intro!: wf_queues_init)
  have heads: "block_heads {} (\<lambda>_. []) ?P = {..<nr}"
    by (auto simp: block_heads_def fields free_heads_def page_not_freed)
  have "tiles nr {..<nr} (page_ord ?P)"
    by (auto simp: tiles_def fields block_def)
  then show ?thesis
    using zero nr lists init_page_frame_clear
    by (simp add: pool_inv_def heads fields) (simp add: pool_shape_def fields PAGE_POOL_MAX_ORDER_def)
qed

section \<open>Allocation and release in one area\<close>

lemma pool_inv_lock [simp]: "pool_inv D fl (P\<lparr>pool_lock := l\<rparr>) \<longleftrightarrow> pool_inv D fl P"
  by (simp add: pool_inv_def pool_shape_def block_heads_def)

lemma pool_inv_available [simp]: "pool_inv D fl (P\<lparr>available_pages := n\<rparr>) \<longleftrightarrow> pool_inv D fl P"
  by (simp add: pool_inv_def pool_shape_def block_heads_def)

lemma allocated_lock [simp]: "allocated r usage i (P\<lparr>pool_lock := l\<rparr>) \<longleftrightarrow> allocated r usage i P"
  by (simp add: allocated_def)

lemma pool_lock_id: "pool_lock P = l \<Longrightarrow> P\<lparr>pool_lock := l\<rparr> = P"
  by simp

lemma dequeue_area_spec:
  assumes inv: "pool_inv {} fl P" and free: "lock_free (pool_lock P)" and usage: "usage \<in> page_usages"
  shows "if order \<ge> PAGE_POOL_MAX_ORDER
    then dequeue_page_from_memory_area True order usage P c = Some (Inl EINVAL, P, c)
    else if \<exists>j. 2 ^ order dvd j \<and> block order j \<subseteq> free_frames fl
    then \<exists>i P' fl'. dequeue_page_from_memory_area True order usage P c =
           Some (Inr (pool_min_pfn P + i), P', c) \<and>
         pool_inv {} fl' P' \<and> pool_lock P' = pool_lock P \<and> allocated order usage i P' \<and>
         2 ^ order dvd i \<and> free_frames fl' = free_frames fl - block order i \<and>
         block order i \<subseteq> free_frames fl \<and>
         (\<forall>j. j \<notin> free_frames fl \<longrightarrow> array P' ! j = array P ! j) \<and>
         nr_pages P' = nr_pages P \<and> pool_min_pfn P' = pool_min_pfn P
    else dequeue_page_from_memory_area True order usage P c = Some (Inl ENOMEM, P, c)"
proof (cases "order \<ge> PAGE_POOL_MAX_ORDER")
  case True
  then show ?thesis by (simp add: dequeue_page_from_memory_area_def)
next
  case False
  let ?P = "P\<lparr>pool_lock := lock_taken (pool_lock P)\<rparr>"
  have inv': "pool_inv {} fl ?P" and held: "spinlock_locked_by_self (pool_lock ?P)"
    using inv by simp_all
  note loop = dequeue_loop_spec [OF inv' held usage order_refl, of order]
  have room: "(\<exists>m\<ge>order. fl m \<noteq> []) \<longleftrightarrow> (\<exists>j. 2 ^ order dvd j \<and> block order j \<subseteq> free_frames fl)"
    using room_iff [OF inv] False by simp
  show ?thesis
  proof (cases "\<exists>m\<ge>order. fl m \<noteq> []")
    case False
    then have "dequeue_loop True order usage order ?P = Some (Inl ENOMEM, ?P)"
      using loop by simp
    then have "dequeue_page_from_memory_area True order usage P c = Some (Inl ENOMEM, P, c)"
      using \<open>\<not> order \<ge> PAGE_POOL_MAX_ORDER\<close> free
      by (simp add: dequeue_page_from_memory_area_def)
    then show ?thesis
      using False room \<open>\<not> order \<ge> PAGE_POOL_MAX_ORDER\<close> by simp
  next
    case True
    then obtain i P1 fl' where run: "dequeue_loop True order usage order ?P = Some (Inr (pool_min_pfn P + i), P1)"
      and P1: "pool_inv {} fl' P1" "allocated order usage i P1" "free_frames fl = free_frames fl' \<union> block order i"
        "block order i \<inter> free_frames fl' = {}" "\<forall>j. j \<notin> free_frames fl \<longrightarrow> array P1 ! j = array P ! j"
        "pool_lock P1 = lock_taken (pool_lock P)"
        "nr_pages P1 = nr_pages P" "pool_min_pfn P1 = pool_min_pfn P"
      using loop by auto
    let ?Q = "P1\<lparr>pool_lock := pool_lock P\<rparr>"
    have "dequeue_page_from_memory_area True order usage P c = Some (Inr (pool_min_pfn P + i), ?Q, c)"
      using \<open>\<not> order \<ge> PAGE_POOL_MAX_ORDER\<close> free run P1(6)
      by (simp add: dequeue_page_from_memory_area_def)
    moreover have "2 ^ order dvd i"
    proof -
      have "i \<in> block_heads {} fl' P1"
        using P1(2) by (simp add: block_heads_def allocated_def page_not_freed)
      then show ?thesis
        using tiles_head [OF pool_inv_tiles [OF P1(1)]] P1(2) by (auto simp: allocated_def)
    qed
    moreover have "free_frames fl' = free_frames fl - block order i" "block order i \<subseteq> free_frames fl"
      using P1(3,4) by blast+
    moreover have "pool_inv {} fl' ?Q" "allocated order usage i ?Q"
      using P1(1,2) by simp_all
    moreover have "pool_lock ?Q = pool_lock P" "\<forall>j. j \<notin> free_frames fl \<longrightarrow> array ?Q ! j = array P ! j"
      "nr_pages ?Q = nr_pages P" "pool_min_pfn ?Q = pool_min_pfn P"
      using P1(5,7,8) by simp_all
    ultimately show ?thesis
      using True room \<open>\<not> order \<ge> PAGE_POOL_MAX_ORDER\<close> by auto
  qed
qed

text \<open>
  C14: \<open>dequeue_page_from_memory_area\<close>, called with the database locked, on an area that satisfies
  the pool invariant. It always returns, with the lock of the pool and the interrupt state as they
  were. It refuses an order of 11 or more. Otherwise it succeeds exactly when some aligned range of
  \<open>2 ^ order\<close> frames is entirely free: it hands out the number of the first frame of such a block,
  marked in use with one reference, the usage asked for and its cluster; the free frames lose exactly
  that block, no frame that was not free changes, and the invariant holds again. When there is no
  such range it reports \<open>-ENOMEM\<close> and changes nothing.
\<close>

theorem buddy_allocate:
  assumes inv: "pool_inv {} fl P" and free: "lock_free (pool_lock P)" and usage: "usage \<in> page_usages"
  shows "if order \<ge> PAGE_POOL_MAX_ORDER
    then dequeue_page_from_memory_area True order usage P c = Some (Inl EINVAL, P, c)
    else if \<exists>j. 2 ^ order dvd j \<and> block order j \<subseteq> free_frames fl
    then \<exists>i P' fl'. dequeue_page_from_memory_area True order usage P c =
           Some (Inr (pool_min_pfn P + i), P', c) \<and>
         pool_inv {} fl' P' \<and> pool_lock P' = pool_lock P \<and> allocated order usage i P' \<and>
         2 ^ order dvd i \<and> free_frames fl' = free_frames fl - block order i \<and>
         block order i \<subseteq> free_frames fl \<and>
         (\<forall>j. j \<notin> free_frames fl \<longrightarrow> array P' ! j = array P ! j)
    else dequeue_page_from_memory_area True order usage P c = Some (Inl ENOMEM, P, c)"
  using dequeue_area_spec [OF assms, of order c] by (auto split: if_splits)

subsection \<open>Giving reserved frames to the pool\<close>

lemma block_0 [simp]: "block 0 i = {i}"
  by (auto simp: block_def)

lemma unmark_reserved_inv:
  assumes inv: "pool_inv {} fl P" and i: "i < nr_pages P" "PAGE_IS_RESERVED (array P ! i)"
    "\<not> PAGE_IS_USED (array P ! i)"
  shows "pool_inv {i} fl (upd_page i PAGE_UNMARK_RESERVED P)" and "i \<in> block_heads {} fl P"
    and "i \<notin> free_heads fl" and "block (page_ord P i) i \<inter> free_frames fl = {}"
proof -
  show head: "i \<in> block_heads {} fl P" and not_free: "i \<notin> free_heads fl"
    using inv i by (auto simp: block_heads_def page_not_freed free_heads_def pool_inv_def)
  show "block (page_ord P i) i \<inter> free_frames fl = {}"
    using pool_inv_free_disjoint [OF inv head not_free] .
  have "clean (array P ! i)"
    using inv i by (simp add: pool_inv_def)
  then have "clean (PAGE_UNMARK_RESERVED (array P ! i))"
    by (simp add: clean_def)
  with i show "pool_inv {i} fl (upd_page i PAGE_UNMARK_RESERVED P)"
    by (intro pool_inv_mark [OF inv i(1) head not_free]) (simp_all add: page_not_freed)
qed

lemma release_page_spec:
  assumes inv: "pool_inv {} fl P" and i: "i < nr_pages P" "PAGE_IS_RESERVED (array P ! i)"
    "\<not> PAGE_IS_USED (array P ! i)" "page_ord P i = 0" and free: "lock_free (pool_lock P)"
  shows "\<exists>P' fl'. release_page i P c = Some (P', c) \<and> pool_inv {} fl' P' \<and>
    free_frames fl' = insert i (free_frames fl) \<and> (\<forall>j. j \<notin> free_frames fl' \<longrightarrow> array P' ! j = array P ! j) \<and>
    pool_lock P' = pool_lock P \<and> nr_pages P' = nr_pages P \<and> pool_min_pfn P' = pool_min_pfn P \<and>
    available_pages P' = available_pages P + 1"
proof -
  let ?Q = "(upd_page i PAGE_UNMARK_RESERVED P)\<lparr>pool_lock := lock_taken (pool_lock P)\<rparr>"
  note unmark = unmark_reserved_inv [OF inv i(1-3)]
  have inv1: "pool_inv {i} fl ?Q" using unmark(1) by simp
  have len: "length (array P) = nr_pages P" using pool_inv_shape [OF inv] by simp
  have at: "array ?Q ! i = PAGE_UNMARK_RESERVED (array P ! i)"
    using len i(1) by (simp add: upd_page_def)
  have usecnt: "pf_usecnt (array P ! i) = 0"
    using inv i by (auto simp: pool_inv_def clean_def)
  obtain P' fl' where enq: "enqueue_page_to_buddy_pool i ?Q = Some P'" "pool_inv {} fl' P'"
    "free_frames fl' = free_frames fl \<union> block (page_ord ?Q i) i"
    "\<forall>j. j \<notin> free_frames fl' \<longrightarrow> array P' ! j = array ?Q ! j" "pool_lock P' = pool_lock ?Q"
    "nr_pages P' = nr_pages ?Q" "pool_min_pfn P' = pool_min_pfn ?Q" "available_pages P' = available_pages ?Q"
    using enqueue_spec [OF inv1, of i] i(1) unmark(3) at usecnt by (auto simp: pool_inv_D_head)
  let ?R = "P'\<lparr>available_pages := available_pages P' + 1, pool_lock := pool_lock P\<rparr>"
  have "release_page i P c = Some (?R, c)"
    using free enq(1,5) by (simp add: release_page_def Let_def)
  moreover have "pool_inv {} fl' ?R" using enq(2) by simp
  moreover have "free_frames fl' = insert i (free_frames fl)"
    using enq(3) at i(4) by simp
  moreover have "\<forall>j. j \<notin> free_frames fl' \<longrightarrow> array ?R ! j = array P ! j"
    using enq(4) calculation(3) by (simp add: upd_page_def)
  moreover have "pool_lock ?R = pool_lock P \<and> nr_pages ?R = nr_pages P \<and> pool_min_pfn ?R = pool_min_pfn P \<and>
    available_pages ?R = available_pages P + 1"
    using enq(6-8) by simp
  ultimately show ?thesis by blast
qed

lemma release_pages_spec:
  assumes "pool_inv {} fl P" and "distinct is" and "lock_free (pool_lock P)"
    and "\<forall>i\<in>set is. i < nr_pages P \<and> PAGE_IS_RESERVED (array P ! i) \<and> \<not> PAGE_IS_USED (array P ! i) \<and>
      page_ord P i = 0"
  shows "\<exists>P' fl'. release_pages keep is P c = Some (P', c) \<and> pool_inv {} fl' P' \<and>
    free_frames fl' = free_frames fl \<union> {i \<in> set is. \<not> keep i} \<and>
    (\<forall>j. j \<notin> free_frames fl' \<longrightarrow> array P' ! j = array P ! j) \<and>
    pool_lock P' = pool_lock P \<and> nr_pages P' = nr_pages P \<and> pool_min_pfn P' = pool_min_pfn P \<and>
    available_pages P' = available_pages P + of_nat (length (filter (\<lambda>i. \<not> keep i) is))"
  using assms
proof (induction "is" arbitrary: fl P)
  case Nil
  then show ?case by auto
next
  case (Cons i "is")
  show ?case
  proof (cases "keep i")
    case True
    then have eq: "{j \<in> set (i # is). \<not> keep j} = {j \<in> set is. \<not> keep j}" by auto
    have "distinct is" and "\<forall>j\<in>set is. j < nr_pages P \<and> PAGE_IS_RESERVED (array P ! j) \<and>
        \<not> PAGE_IS_USED (array P ! j) \<and> page_ord P j = 0"
      using Cons.prems(2,4) by simp_all
    from Cons.IH [OF Cons.prems(1) this(1) Cons.prems(3) this(2)] True show ?thesis
      unfolding eq by simp
  next
    case False
    obtain P1 fl1 where P1: "release_page i P c = Some (P1, c)" "pool_inv {} fl1 P1"
      "free_frames fl1 = insert i (free_frames fl)" "\<forall>j. j \<notin> free_frames fl1 \<longrightarrow> array P1 ! j = array P ! j"
      "pool_lock P1 = pool_lock P" "nr_pages P1 = nr_pages P" "pool_min_pfn P1 = pool_min_pfn P"
      "available_pages P1 = available_pages P + 1"
      using release_page_spec [OF Cons.prems(1) _ _ _ _ Cons.prems(3), of i c] Cons.prems(4) by auto
    have same: "array P1 ! j = array P ! j" if "j \<in> set is" for j
    proof -
      have "j \<notin> free_frames fl"
        using unmark_reserved_inv(4) [OF Cons.prems(1), of j] Cons.prems(4) that by auto
      moreover have "j \<noteq> i" using Cons.prems(2) that by auto
      ultimately show ?thesis using P1(3,4) by simp
    qed
    have "distinct is" and "lock_free (pool_lock P1)"
      using Cons.prems(2,3) P1(5) by simp_all
    moreover have "\<forall>j\<in>set is. j < nr_pages P1 \<and> PAGE_IS_RESERVED (array P1 ! j) \<and>
        \<not> PAGE_IS_USED (array P1 ! j) \<and> page_ord P1 j = 0"
      using Cons.prems(4) same P1(6) by simp
    ultimately obtain P' fl' where P': "release_pages keep is P1 c = Some (P', c)" "pool_inv {} fl' P'"
      "free_frames fl' = free_frames fl1 \<union> {i \<in> set is. \<not> keep i}"
      "\<forall>j. j \<notin> free_frames fl' \<longrightarrow> array P' ! j = array P1 ! j"
      "pool_lock P' = pool_lock P1" "nr_pages P' = nr_pages P1" "pool_min_pfn P' = pool_min_pfn P1"
      "available_pages P' = available_pages P1 + of_nat (length (filter (\<lambda>i. \<not> keep i) is))"
      using Cons.IH [OF P1(2)] by blast
    have "free_frames fl' = free_frames fl \<union> {j \<in> set (i # is). \<not> keep j}"
      using P'(3) P1(3) False by auto
    moreover have "\<forall>j. j \<notin> free_frames fl' \<longrightarrow> array P' ! j = array P ! j"
      using P'(3,4) P1(4) by simp
    moreover have "release_pages keep (i # is) P c = Some (P', c)"
      using False P1(1) P'(1) by simp
    ultimately show ?thesis
      using P'(2,5-8) P1(5-8) False by (intro exI [of _ P'] exI [of _ fl']) simp
  qed
qed

text \<open>An area of eight frames, all given to the pool.\<close>

definition blank_frame :: page_frame where
  "blank_frame = \<lparr>pf_state = 0, pf_arch_state = 0, pf_pfn = 0, pf_usecnt = 0, pf_mapcnt = 0,
     pf_order = 0, pf_headp = None\<rparr>"

definition blank_pool :: page_buddy where
  "blank_pool = \<lparr>pool_lock = spinlock_init, free_nr = [],
     links = \<lambda>_. \<lparr>lprev = PageList 0, lnext = PageList 0\<rparr>, nr_pages = 0, available_pages = 0,
     kdata_pages = 0, kstack_pages = 0, pgtbl_pages = 0, slab_pages = 0, anon_pages = 0,
     pcache_pages = 0, pool_min_pfn = 0, array = []\<rparr>"

definition sample_pool :: page_buddy where
  "sample_pool = init_page_pool 16 8 blank_pool (\<lambda>_. blank_frame)"

lemma sample_pool_inv: "pool_inv {} (\<lambda>_. []) sample_pool"
  unfolding sample_pool_def by (rule init_page_pool_inv) (simp_all add: blank_frame_def)

lemma sample_pool_fields:
  "lock_free (pool_lock sample_pool)" "nr_pages sample_pool = 8" "pool_min_pfn sample_pool = 16"
  "i < 8 \<Longrightarrow> array sample_pool ! i = init_page_frame 16 i blank_frame"
  by (simp_all add: sample_pool_def init_page_pool_def Let_def)

definition sample_cpu :: cpu where
  "sample_cpu = \<lparr>sstatus = 2, sie = 0\<rparr>"

text \<open>Some of its frames are handed to the pool.\<close>

definition released_pool :: "(nat \<Rightarrow> bool) \<Rightarrow> page_buddy" where
  "released_pool keep = fst (the (release_pages keep [0..<8] sample_pool sample_cpu))"

definition free_pool :: page_buddy where
  "free_pool = released_pool (\<lambda>_. False)"

lemma released_pool_inv:
  "\<exists>fl. pool_inv {} fl (released_pool keep) \<and> free_frames fl = {i. i < 8 \<and> \<not> keep i} \<and>
    lock_free (pool_lock (released_pool keep)) \<and> pool_min_pfn (released_pool keep) = 16 \<and>
    nr_pages (released_pool keep) = 8"
proof -
  have "\<forall>i\<in>set [0..<8]. i < nr_pages sample_pool \<and> PAGE_IS_RESERVED (array sample_pool ! i) \<and>
      \<not> PAGE_IS_USED (array sample_pool ! i) \<and> page_ord sample_pool i = 0"
    using init_page_frame_clear(1) [of blank_frame 16] by (simp add: sample_pool_fields blank_frame_def)
  note spec = release_pages_spec [OF sample_pool_inv distinct_upt sample_pool_fields(1) this,
      of keep sample_cpu]
  have "free_frames (\<lambda>_. []) = {}" and "{i \<in> set [0..<8]. \<not> keep i} = {i. i < 8 \<and> \<not> keep i}"
    by (auto simp: free_frames_def)
  with spec obtain P' fl' where
    run: "release_pages keep [0..<8] sample_pool sample_cpu = Some (P', sample_cpu)" and
    P': "pool_inv {} fl' P'" "free_frames fl' = {i. i < 8 \<and> \<not> keep i}" "pool_lock P' = pool_lock sample_pool"
      "pool_min_pfn P' = pool_min_pfn sample_pool" "nr_pages P' = nr_pages sample_pool"
    by auto
  have "released_pool keep = P'" by (simp add: released_pool_def run)
  then show ?thesis
    using P' sample_pool_fields(1-3) by auto
qed

lemma free_pool_inv:
  "\<exists>fl. pool_inv {} fl free_pool \<and> free_frames fl = {..<8} \<and> lock_free (pool_lock free_pool) \<and>
    pool_min_pfn free_pool = 16 \<and> nr_pages free_pool = 8"
  using released_pool_inv [of "\<lambda>_. False"] by (auto simp: free_pool_def lessThan_def)

theorem buddy_allocate_witness:
  "\<exists>i P'. dequeue_page_from_memory_area True 2 PAGE_STATE_UCASE_KERN free_pool sample_cpu =
      Some (Inr (16 + i), P', sample_cpu) \<and> allocated 2 PAGE_STATE_UCASE_KERN i P'"
proof -
  obtain fl where fl: "pool_inv {} fl free_pool" "free_frames fl = {..<8}" "lock_free (pool_lock free_pool)"
    "pool_min_pfn free_pool = 16"
    using free_pool_inv by blast
  have "PAGE_STATE_UCASE_KERN \<in> page_usages" by (simp add: page_usages_def)
  note allocate = buddy_allocate [OF fl(1,3) this, of 2 sample_cpu]
  have "2 ^ 2 dvd (4::nat)" by simp
  moreover have "block 2 4 \<subseteq> {..<8}" unfolding block_def by auto
  ultimately have room: "\<exists>j. 2 ^ 2 dvd j \<and> block 2 j \<subseteq> free_frames fl"
    unfolding fl(2) by blast
  have small: "\<not> 2 \<ge> PAGE_POOL_MAX_ORDER" by (simp add: PAGE_POOL_MAX_ORDER_def)
  from allocate [unfolded if_not_P [OF small] if_P [OF room] fl(4)] show ?thesis by blast
qed

lemma dec_and_test_cases:
  assumes "0 \<le>s (n :: u32)"
  shows "refcnt_dec_and_test n = (if n = 0 then None else Some (n = 1, n - 1))"
proof (cases "n = 0")
  case True
  have "\<not> 0 \<le>s (0 - 1 :: u32)" by code_simp
  with True show ?thesis by simp
next
  case False
  then have "0 <s n" using assms by (simp add: signed_less_iff)
  then have "0 \<le>s n - 1"
    using word_pred_nonneg [OF refl] sless_unat by blast
  with False show ?thesis by simp
qed

lemma set_usecnt_inv:
  assumes inv: "pool_inv {} fl P" and i: "i < nr_pages P" "PAGE_IS_USED (array P ! i)"
  shows "pool_inv {} fl (upd_page i (pf_usecnt_update (\<lambda>_. n)) P)"
    and "i \<in> block_heads {} fl P" and "i \<notin> free_heads fl"
proof -
  show head: "i \<in> block_heads {} fl P" and not_free: "i \<notin> free_heads fl"
    using inv i by (auto simp: block_heads_def page_not_freed free_heads_def pool_inv_def)
  show "pool_inv {} fl (upd_page i (pf_usecnt_update (\<lambda>_. n)) P)"
    using i(2) by (intro pool_inv_mark [OF inv i(1) head not_free])
      (simp_all add: page_not_freed PAGE_IS_USED_def)
qed

lemma dec_use_count_spec:
  assumes inv: "pool_inv {} fl P" and free: "lock_free (pool_lock P)"
    and i: "i < nr_pages P" "PAGE_IS_USED (array P ! i)" "\<not> PAGE_IS_RESERVED (array P ! i)"
    and count: "0 \<le>s pf_usecnt (array P ! i)"
  shows "if pf_usecnt (array P ! i) = 0 then pfdb_dec_page_use_count i P c = None
    else if pf_usecnt (array P ! i) \<noteq> 1
    then pfdb_dec_page_use_count i P c =
        Some (False, upd_page i (pf_usecnt_update (\<lambda>n. n - 1)) P, c) \<and>
      pool_inv {} fl (upd_page i (pf_usecnt_update (\<lambda>n. n - 1)) P)
    else if pf_mapcnt (array P ! i) \<noteq> 0 then pfdb_dec_page_use_count i P c = None
    else \<exists>P' fl'. pfdb_dec_page_use_count i P c = Some (True, P', c) \<and> pool_inv {} fl' P' \<and>
      pool_lock P' = pool_lock P \<and>
      free_frames fl' = free_frames fl \<union> block (page_ord P i) i \<and>
      block (page_ord P i) i \<inter> free_frames fl = {} \<and>
      (\<forall>j. j \<notin> free_frames fl' \<longrightarrow> array P' ! j = array P ! j) \<and> nr_pages P' = nr_pages P \<and>
      pool_min_pfn P' = pool_min_pfn P"
proof -
  let ?n = "pf_usecnt (array P ! i)"
  let ?P1 = "upd_page i (pf_usecnt_update (\<lambda>_. ?n - 1)) P"
  have len: "length (array P) = nr_pages P" using pool_inv_shape [OF inv] by simp
  have P1: "upd_page i (pf_usecnt_update (\<lambda>n. n - 1)) P = ?P1"
    by (cases "array P ! i") (simp add: upd_page_def)
  note set = set_usecnt_inv [OF inv i(1,2)]
  have at: "array ?P1 ! i = (array P ! i)\<lparr>pf_usecnt := ?n - 1\<rparr>"
    using len i(1) by (simp add: upd_page_def)
  have flags: "PAGE_IS_USED (array ?P1 ! i)" "\<not> PAGE_IS_RESERVED (array ?P1 ! i)"
    using i(2,3) by (simp_all add: at PAGE_IS_USED_def PAGE_IS_RESERVED_def)
  note dec = dec_and_test_cases [OF count]
  consider "?n = 0" | "?n \<noteq> 0" "?n \<noteq> 1" | "?n = 1" "pf_mapcnt (array P ! i) \<noteq> 0"
    | "?n = 1" "pf_mapcnt (array P ! i) = 0" by blast
  then show ?thesis
  proof cases
    case 1
    with dec show ?thesis by (simp add: pfdb_dec_page_use_count_def)
  next
    case 2
    with dec set(1) show ?thesis by (simp add: pfdb_dec_page_use_count_def P1 del: refcnt_eqs)
  next
    case 3
    with dec at show ?thesis
      by (simp add: pfdb_dec_page_use_count_def pfdb_ref_page_map_count_def)
  next
    case 4
    let ?Q = "?P1\<lparr>pool_lock := lock_taken (pool_lock P)\<rparr>"
    have inv1: "pool_inv {} fl ?Q" using set(1) by simp
    have "i \<in> block_heads {} fl ?Q"
      using flags i(1) by (simp add: block_heads_def page_not_freed)
    then obtain P' fl' where enq: "enqueue_page_to_buddy_pool i ?Q = Some P'" "pool_inv {} fl' P'"
      "free_frames fl' = free_frames fl \<union> block (page_ord P i) i"
      "\<forall>j. j \<notin> free_frames fl' \<longrightarrow> array P' ! j = array ?Q ! j" "pool_lock P' = lock_taken (pool_lock P)"
      "nr_pages P' = nr_pages P" "pool_min_pfn P' = pool_min_pfn P"
      using enqueue_spec [OF inv1, of i] i(1) set(3) flags at 4(1) by auto
    have run: "pfdb_dec_page_use_count i P c = Some (True, P'\<lparr>pool_lock := pool_lock P\<rparr>, c)"
      using 4 dec at flags free enq(1,5)
      by (simp add: pfdb_dec_page_use_count_def pfdb_ref_page_map_count_def)
    have "i \<in> free_frames fl'" using enq(3) head_in_block by blast
    then have keep: "\<forall>j. j \<notin> free_frames fl' \<longrightarrow> array P' ! j = array P ! j"
    proof -
      have "array ?Q ! j = array P ! j" if "j \<noteq> i" for j
        using that by (simp add: upd_page_def)
      then show ?thesis using enq(4) \<open>i \<in> free_frames fl'\<close> by metis
    qed
    have "block (page_ord P i) i \<inter> free_frames fl = {}"
      using pool_inv_free_disjoint [OF inv set(2,3)] .
    with run enq(2,3,6,7) keep 4 show ?thesis
      by (simp, intro exI [of _ "P'\<lparr>pool_lock := pool_lock P\<rparr>"] conjI exI [of _ fl']) simp_all
  qed
qed

text \<open>
  C15: \<open>pfdb_dec_page_use_count\<close> on a page in use. A page without references stops the kernel
  instead of being freed twice. With several references one is dropped and nothing else changes.
  The last reference to an unmapped page gives its whole block back: the free frames gain exactly
  that block, which was not free before, the invariant holds (the block has been joined with its
  free buddies), no other frame changes, and the lock and the interrupt state are as they were. The
  last reference to a page that is still mapped stops the kernel.
\<close>

theorem buddy_release:
  assumes inv: "pool_inv {} fl P" and free: "lock_free (pool_lock P)"
    and i: "i < nr_pages P" "PAGE_IS_USED (array P ! i)" "\<not> PAGE_IS_RESERVED (array P ! i)"
    and count: "0 \<le>s pf_usecnt (array P ! i)"
  shows "if pf_usecnt (array P ! i) = 0 then pfdb_dec_page_use_count i P c = None
    else if pf_usecnt (array P ! i) \<noteq> 1
    then pfdb_dec_page_use_count i P c =
        Some (False, upd_page i (pf_usecnt_update (\<lambda>n. n - 1)) P, c) \<and>
      pool_inv {} fl (upd_page i (pf_usecnt_update (\<lambda>n. n - 1)) P)
    else if pf_mapcnt (array P ! i) \<noteq> 0 then pfdb_dec_page_use_count i P c = None
    else \<exists>P' fl'. pfdb_dec_page_use_count i P c = Some (True, P', c) \<and> pool_inv {} fl' P' \<and>
      pool_lock P' = pool_lock P \<and>
      free_frames fl' = free_frames fl \<union> block (page_ord P i) i \<and>
      block (page_ord P i) i \<inter> free_frames fl = {} \<and>
      (\<forall>j. j \<notin> free_frames fl' \<longrightarrow> array P' ! j = array P ! j)"
  using dec_use_count_spec [OF assms, of c] by (auto split: if_splits)

definition used_pool :: page_buddy where
  "used_pool = upd_page 0 (\<lambda>pf. (PAGE_MARK_USED (PAGE_UNMARK_RESERVED pf))\<lparr>pf_usecnt := 1\<rparr>) sample_pool"

theorem buddy_release_witness:
  "\<exists>P' fl'. pfdb_dec_page_use_count 0 used_pool sample_cpu = Some (True, P', sample_cpu) \<and>
    pool_inv {} fl' P' \<and> free_frames fl' = {0}"
proof -
  let ?f = "\<lambda>pf. (PAGE_MARK_USED (PAGE_UNMARK_RESERVED pf))\<lparr>pf_usecnt := 1\<rparr>"
  have used: "PAGE_IS_USED (?f pf)" "\<not> PAGE_IS_RESERVED (?f pf)" for pf
    using page_tests_after(5,6) [of "PAGE_UNMARK_RESERVED pf"] page_tests_after(4) [of pf]
    by (simp_all add: PAGE_IS_USED_def PAGE_IS_RESERVED_def)
  have inv: "pool_inv {} (\<lambda>_. []) used_pool"
    unfolding used_pool_def using used
    by (intro pool_inv_mark [OF sample_pool_inv])
      (simp_all add: sample_pool_fields block_heads_def free_heads_def page_not_freed)
  have at: "array used_pool ! 0 = ?f (init_page_frame 16 0 blank_frame)"
    using pool_inv_shape [OF sample_pool_inv] by (simp add: used_pool_def upd_page_def sample_pool_fields)
  have fields: "lock_free (pool_lock used_pool)" "nr_pages used_pool = 8"
    by (simp_all add: used_pool_def sample_pool_fields)
  have frame: "pf_usecnt (array used_pool ! 0) = 1" "pf_mapcnt (array used_pool ! 0) = 0" "page_ord used_pool 0 = 0"
    by (simp_all add: at init_page_frame_def)
  have flags: "PAGE_IS_USED (array used_pool ! 0)" "\<not> PAGE_IS_RESERVED (array used_pool ! 0)"
    by (simp_all only: at used not_False_eq_True)
  have "0 < nr_pages used_pool" "0 \<le>s pf_usecnt (array used_pool ! 0)"
    unfolding fields frame by simp code_simp
  note release = buddy_release [OF inv fields(1) this(1) flags this(2), of sample_cpu, unfolded frame]
  have "free_frames (\<lambda>_. []) = {}" by (simp add: free_frames_def)
  with release show ?thesis by auto
qed

section \<open>Counting the free frames\<close>

lemma card_free_frames:
  assumes inv: "pool_inv D fl P"
  shows "card (free_frames fl) = (\<Sum>k<PAGE_POOL_MAX_ORDER. 2 ^ k * length (fl k))"
proof -
  note fls = pool_inv_free_lists [OF inv]
  have ord: "page_ord P h = k" if "h \<in> set (fl k)" for h k
    using pool_inv_free [OF inv that] by simp
  have one: "card (\<Union>h\<in>set (fl k). block k h) = 2 ^ k * length (fl k)" for k
  proof -
    have "block k h \<inter> block k g = {}" if "h \<in> set (fl k)" "g \<in> set (fl k)" "h \<noteq> g" for h g
      using tiles_apart [OF pool_inv_tiles [OF inv], of h g] that ord
      by (auto simp: block_heads_def free_heads_def)
    then have "card (\<Union>h\<in>set (fl k). block k h) = (\<Sum>h\<in>set (fl k). card (block k h))"
      by (intro card_UN_disjoint) (simp_all add: block_def)
    then show ?thesis
      using distinct_card [OF free_lists_distinct [OF fls]] by (simp add: block_def)
  qed
  have "free_frames fl = (\<Union>k<PAGE_POOL_MAX_ORDER. \<Union>h\<in>set (fl k). block k h)"
    using free_lists_order [OF fls] by (auto simp: free_frames_def)
  moreover have "(\<Union>h\<in>set (fl k). block k h) \<inter> (\<Union>h\<in>set (fl l). block l h) = {}" if "k \<noteq> l" for k l
  proof -
    have "block k h \<inter> block l g = {}" if "h \<in> set (fl k)" "g \<in> set (fl l)" for h g
    proof -
      have "h \<noteq> g" using free_lists_unique [OF fls, of h k l] that \<open>k \<noteq> l\<close> by auto
      then show ?thesis
        using tiles_apart [OF pool_inv_tiles [OF inv], of h g] that ord
        by (auto simp: block_heads_def free_heads_def)
    qed
    then show ?thesis by blast
  qed
  then have "card (\<Union>k<PAGE_POOL_MAX_ORDER. \<Union>h\<in>set (fl k). block k h) =
    (\<Sum>k<PAGE_POOL_MAX_ORDER. card (\<Union>h\<in>set (fl k). block k h))"
    by (intro card_UN_disjoint) (simp_all add: block_def)
  ultimately show ?thesis by (simp add: one)
qed

lemma pool_free_pages_eq:
  assumes inv: "pool_inv D fl P"
  shows "pool_free_pages P = of_nat (card (free_frames fl))"
    and "pool_bytes P = of_nat (4096 * card (free_frames fl))"
proof -
  have sums: "pool_free_pages P = (\<Sum>k<PAGE_POOL_MAX_ORDER. 2 ^ k * free_nr P ! k)"
    "pool_bytes P = (\<Sum>k<PAGE_POOL_MAX_ORDER. 4096 * (2 ^ k * free_nr P ! k))"
    by (simp_all add: pool_free_pages_def pool_bytes_def PAGE_SIZE_def push_bit_eq_mult
        sum_list_distinct_conv_sum_set lessThan_atLeast0 ac_simps)
  have nr: "free_nr P ! k = of_nat (length (fl k))" if "k < PAGE_POOL_MAX_ORDER" for k
    using inv that by (simp add: pool_inv_def)
  have "pool_free_pages P = of_nat (\<Sum>k<PAGE_POOL_MAX_ORDER. 2 ^ k * length (fl k))"
    unfolding sums of_nat_sum by (intro sum.cong) (simp_all add: nr)
  then show "pool_free_pages P = of_nat (card (free_frames fl))"
    by (simp only: card_free_frames [OF inv])
  have "pool_bytes P = of_nat (4096 * (\<Sum>k<PAGE_POOL_MAX_ORDER. 2 ^ k * length (fl k)))"
    unfolding sums sum_distrib_left of_nat_sum by (intro sum.cong) (simp_all add: nr)
  then show "pool_bytes P = of_nat (4096 * card (free_frames fl))"
    by (simp only: card_free_frames [OF inv])
qed

section \<open>Addresses of pages\<close>

lemma PAGE_TRUNCATE_unat: "unat (PAGE_TRUNCATE a) = 4096 * (unat a div 4096)"
proof -
  have "PAGE_SIZE - 1 = mask 12"
    by (simp add: PAGE_SIZE_def mask_eq_exp_minus_1)
  moreover have "unat (a AND NOT (mask 12)) = push_bit 12 (drop_bit 12 (unat a))"
    by (rule bit_eqI) (auto simp: bit_unsigned_iff bit_and_iff bit_not_iff bit_mask_iff bit_push_bit_iff
        bit_drop_bit_eq dest: bit_imp_le_length)
  ultimately show ?thesis
    by (simp add: PAGE_TRUNCATE_def push_bit_eq_mult drop_bit_eq_div mult.commute)
qed

lemma drop_bit_unat: "unat (drop_bit n (a :: u64)) = unat a div 2 ^ n"
proof -
  have "unat (drop_bit n a) = drop_bit n (unat a)"
    by (rule bit_eqI) (auto simp: bit_unsigned_iff bit_drop_bit_eq)
  then show ?thesis using drop_bit_eq_div [of n "unat a"] by simp
qed

lemma PAGE_ROUNDUP_unat:
  assumes "unat a + 4095 < 2 ^ 64"
  shows "unat (PAGE_ROUNDUP a) = 4096 * ((unat a + 4095) div 4096)"
proof -
  have "unat (a + 4095) = unat a + 4095"
    using assms by (simp add: unat_word_ariths)
  then show ?thesis
    by (simp add: PAGE_ROUNDUP_def PAGE_TRUNCATE_unat PAGE_SIZE_def)
qed

lemma unat_add_less: "unat (a :: u64) + unat b < 2 ^ 64 \<Longrightarrow> unat (a + b) = unat a + unat b"
  by (simp add: unat_word_ariths)

lemma unat_sub_le: "unat (b :: u64) \<le> unat a \<Longrightarrow> unat (a - b) = unat a - unat b"
  by (simp add: unat_sub word_le_nat_alt)

lemma unat_of_nat_less: "n < 2 ^ 64 \<Longrightarrow> unat (of_nat n :: u64) = n"
  by (simp add: unat_of_nat)

lemma hal_pfn_to_kvaddr_unat:
  assumes "4096 * pfn + unat base < 2 ^ 64"
  shows "\<exists>kaddr. hal_pfn_to_kvaddr base pfn = Inr kaddr \<and> unat kaddr = 4096 * pfn + unat base"
proof -
  have "push_bit 12 (of_nat pfn :: u64) = of_nat (4096 * pfn)"
    by (simp add: push_bit_eq_mult)
  moreover have "unat (of_nat (4096 * pfn) :: u64) = 4096 * pfn"
    using assms by (intro unat_of_nat_less) simp
  ultimately show ?thesis
    using assms unat_add_less [of "of_nat (4096 * pfn)" base]
    by (simp add: hal_pfn_to_kvaddr_def hal_pfn_to_paddr_def PAGE_SHIFT_def HAL_PHY_TO_KERN_STRAIGHT_def)
qed

lemma hal_kvaddr_to_pfn_unat:
  assumes "unat base \<le> unat kvaddr"
  shows "hal_kvaddr_to_pfn base kvaddr = Inr ((unat kvaddr - unat base) div 4096)"
  using assms unat_sub_le [OF assms]
  by (simp add: hal_kvaddr_to_pfn_def hal_paddr_to_pfn_def HAL_KERN_STRAIGHT_TO_PHY_def PAGE_SHIFT_def
      drop_bit_unat)

section \<open>Lookup and insertion in the tree\<close>

definition tree_ordered :: "pfdb_ent list \<Rightarrow> bool" where
  "tree_ordered ents \<longleftrightarrow> (\<forall>e\<in>set ents. min_pfn e < max_pfn e) \<and>
     sorted_wrt (\<lambda>a b. max_pfn b \<le> min_pfn a) ents"

lemma pfdb_tree_insert_apart:
  assumes "\<forall>x\<in>set ents. max_pfn ent \<le> min_pfn x \<or> max_pfn x \<le> min_pfn ent"
  shows "\<exists>e\<le>length ents. pfdb_tree_insert ent ents = Some (Some e, take e ents @ ent # drop e ents)"
  using assms
proof (induction ents)
  case (Cons x ents)
  then obtain e where e: "e \<le> length ents"
    "pfdb_tree_insert ent ents = Some (Some e, take e ents @ ent # drop e ents)" by auto
  show ?case
  proof (cases "max_pfn ent \<le> min_pfn x")
    case True
    with e show ?thesis by (intro exI [of _ "Suc e"]) (simp add: pfdb_ent_cmp_def)
  next
    case False
    with Cons.prems show ?thesis by (intro exI [of _ 0]) (simp add: pfdb_ent_cmp_def)
  qed
qed simp

lemma pfdb_tree_find_none:
  "\<forall>x\<in>set ents. pfn + 1 \<le> min_pfn x \<or> max_pfn x \<le> pfn \<Longrightarrow> pfdb_tree_find (pfn, pfn + 1) ents = Some None"
  by (induction ents) (auto simp: pfdb_ent_cmp_def)

lemma pfdb_tree_find_entry:
  assumes "tree_ordered ents" and "e < length ents" and "min_pfn (ents ! e) \<le> pfn" and "pfn < max_pfn (ents ! e)"
  shows "pfdb_tree_find (pfn, pfn + 1) ents = (if pfn + 1 < max_pfn (ents ! e) then Some (Some e) else None)"
  using assms
proof (induction ents arbitrary: e)
  case (Cons x ents)
  show ?case
  proof (cases e)
    case 0
    with Cons.prems show ?thesis by (simp add: pfdb_ent_cmp_def)
  next
    case (Suc d)
    then have "max_pfn (ents ! d) \<le> min_pfn x"
      using Cons.prems(1,2) by (simp add: tree_ordered_def)
    then have "pfdb_ent_cmp (pfn, pfn + 1) x = Some 1"
      using Cons.prems(4) Suc by (simp add: pfdb_ent_cmp_def)
    moreover have "tree_ordered ents"
      using Cons.prems(1) by (simp add: tree_ordered_def)
    ultimately show ?thesis
      using Cons.IH [of d] Cons.prems Suc by simp
  qed
qed simp

text \<open>The arithmetic of an area: addresses are natural numbers below \<open>2 ^ 64\<close>.\<close>

lemma area_addresses:
  assumes base: "4096 dvd unat base" and phys: "4096 dvd unat phys" and len: "4096 dvd unat len" "0 < unat len"
    and bound: "unat phys + unat base + unat len < 2 ^ 64 - 4096"
  shows "\<exists>kv. hal_phys_to_kvaddr base phys = Inr kv \<and> unat kv = unat phys + unat base \<and>
    unat (PAGE_ROUNDUP (kv + len - 1)) = unat kv + unat len \<and>
    hal_kvaddr_to_pfn base kv = Inr (unat phys div 4096) \<and>
    hal_kvaddr_to_pfn base (PAGE_ROUNDUP (kv + len - 1)) = Inr (unat phys div 4096 + unat len div 4096)"
proof -
  have pfn: "hal_paddr_to_pfn phys = Inr (unat phys div 4096)"
    by (simp add: hal_paddr_to_pfn_def PAGE_SHIFT_def drop_bit_unat)
  obtain kv where kv: "hal_pfn_to_kvaddr base (unat phys div 4096) = Inr kv" "unat kv = unat phys + unat base"
    using hal_pfn_to_kvaddr_unat [of "unat phys div 4096" base] phys bound by auto
  have sum: "unat (kv + len) = unat kv + unat len"
    using kv(2) bound by (intro unat_add_less) simp
  then have last: "unat (kv + len - 1) = unat kv + unat len - 1"
    using len(2) by (subst unat_sub_le) simp_all
  obtain q where q: "unat kv + unat len = 4096 * q"
    using base phys len(1) kv(2) by (metis dvd_add dvdE)
  have "unat (PAGE_ROUNDUP (kv + len - 1)) = 4096 * ((unat kv + unat len - 1 + 4095) div 4096)"
    using last bound kv(2) by (subst PAGE_ROUNDUP_unat) simp_all
  also have "\<dots> = unat kv + unat len"
    using q len(2) by simp
  finally have end': "unat (PAGE_ROUNDUP (kv + len - 1)) = unat kv + unat len" .
  show ?thesis
    using pfn kv end' phys hal_kvaddr_to_pfn_unat [of base kv] hal_kvaddr_to_pfn_unat [of base "PAGE_ROUNDUP (kv + len - 1)"]
    by (intro exI [of _ kv]) (simp add: hal_phys_to_kvaddr_def div_plus_div_distrib_dvd_left)
qed

text \<open>
  C16: \<open>pfdb_add\<close> on a page-aligned area that overlaps no registered one, whose entry and frame
  array fit into it, in memory that has been cleared. It returns, registers one entry for exactly
  the frames of the area, and hands to the pool the frames below the page of the array, all of them
  and no other: they are the free frames, \<open>available_pages\<close> counts them, the invariant holds, and
  the final check of the sizes passes. The locks and the interrupt state are as before.
\<close>

theorem pfdb_add_registers:
  assumes base: "4096 dvd unat base" and phys: "4096 dvd unat phys" and len: "4096 dvd unat len" "0 < unat len"
    and bound: "unat phys + unat base + unat len < 2 ^ 64 - 4096" "unat len div 4096 \<le> 2 ^ 31"
    and room: "unat sz_ent + unat len div 4096 * unat sz_frame \<le> unat len"
    and cleared: "\<forall>i. pf_state (frames i) = 0" and free: "lock_free (db_lock db)"
    and apart: "\<forall>x\<in>set (dbroot db). unat phys div 4096 + unat len div 4096 \<le> min_pfn x \<or>
      max_pfn x \<le> unat phys div 4096"
  defines "m \<equiv> (unat len - unat sz_ent - unat len div 4096 * unat sz_frame) div 4096"
  shows "\<exists>e ent fl. pfdb_add base sz_ent sz_frame phys len old frames db c =
      Some (e, db\<lparr>dbroot := take e (dbroot db) @ ent # drop e (dbroot db)\<rparr>, c) \<and>
    e \<le> length (dbroot db) \<and> min_pfn ent = unat phys div 4096 \<and>
    max_pfn ent = unat phys div 4096 + unat len div 4096 \<and>
    pool_inv {} fl (page_pool ent) \<and> lock_free (pool_lock (page_pool ent)) \<and>
    pool_min_pfn (page_pool ent) = min_pfn ent \<and> nr_pages (page_pool ent) = unat len div 4096 \<and>
    free_frames fl = {..<m} \<and> available_pages (page_pool ent) = of_nat m"
proof -
  define minp where "minp = unat phys div 4096"
  define nr where "nr = unat len div 4096"
  note room = room [folded nr_def] and m_def = m_def [folded nr_def]
  obtain kv where kv: "hal_phys_to_kvaddr base phys = Inr kv" "unat kv = unat phys + unat base"
    and end': "unat (PAGE_ROUNDUP (kv + len - 1)) = unat kv + unat len"
    and pfns: "hal_kvaddr_to_pfn base kv = Inr minp"
      "hal_kvaddr_to_pfn base (PAGE_ROUNDUP (kv + len - 1)) = Inr (minp + nr)"
    using area_addresses [OF base phys len bound(1)] unfolding minp_def nr_def by blast
  define area_end where "area_end = PAGE_ROUNDUP (kv + len - 1)"
  define arr where "arr = kv + len - sz_ent - of_nat nr * sz_frame"
  have nr_len: "unat len = 4096 * nr" using len(1) by (simp add: nr_def)
  have frames_size: "unat (of_nat nr * sz_frame) = nr * unat sz_frame"
  proof -
    have "nr * unat sz_frame < 2 ^ 64" using room bound(1) by simp
    then show ?thesis
      using bound(2) by (simp add: unat_word_ariths unat_of_nat_less nr_def)
  qed
  have arr: "unat arr = unat kv + unat len - unat sz_ent - nr * unat sz_frame"
  proof -
    have "unat (kv + len) = unat kv + unat len"
      using kv(2) bound(1) by (intro unat_add_less) simp
    moreover have "unat (kv + len - sz_ent) = unat kv + unat len - unat sz_ent"
      using calculation room by (subst unat_sub_le) simp_all
    ultimately show ?thesis
      unfolding arr_def using room frames_size by (subst unat_sub_le) simp_all
  qed
  have kv_dvd: "4096 dvd unat kv" using base phys kv(2) by simp
  have trunc: "unat (PAGE_TRUNCATE arr) = unat kv + 4096 * m"
  proof -
    obtain q where q: "unat kv = 4096 * q" using kv_dvd by blast
    have "unat arr = 4096 * q + (unat len - unat sz_ent - nr * unat sz_frame)"
      using arr room q by simp
    then show ?thesis
      by (simp add: PAGE_TRUNCATE_unat m_def q)
  qed
  have m_le: "m \<le> nr"
    using nr_len by (simp add: m_def)
  define keep where "keep = (\<lambda>i. case hal_pfn_to_kvaddr base (minp + i) of Inl _ \<Rightarrow> False
    | Inr kaddr \<Rightarrow> PAGE_TRUNCATE arr \<le> kaddr \<and> kaddr < area_end)"
  have keep: "keep i \<longleftrightarrow> m \<le> i" if "i < nr" for i
  proof -
    have "4096 * (minp + i) + unat base = unat kv + 4096 * i"
      using phys kv(2) by (simp add: minp_def algebra_simps)
    moreover have "unat kv + 4096 * i < unat kv + unat len"
      using that nr_len by simp
    ultimately obtain kaddr where "hal_pfn_to_kvaddr base (minp + i) = Inr kaddr" "unat kaddr = unat kv + 4096 * i"
      using hal_pfn_to_kvaddr_unat [of "minp + i" base] bound(1) kv(2) by auto
    then show ?thesis
      using trunc end' that nr_len by (simp add: keep_def area_end_def word_le_nat_alt word_less_nat_alt)
  qed
  define P0 where "P0 = (init_page_pool minp nr old frames)\<lparr>available_pages := 0\<rparr>"
  have inv0: "pool_inv {} (\<lambda>_. []) P0"
    unfolding P0_def pool_inv_available using cleared bound(2) by (intro init_page_pool_inv) (simp_all add: nr_def)
  have P0: "nr_pages P0 = nr" "pool_min_pfn P0 = minp" "lock_free (pool_lock P0)" "available_pages P0 = 0"
    "array P0 = map (\<lambda>i. init_page_frame minp i (frames i)) [0..<nr]"
    by (simp_all add: P0_def init_page_pool_def Let_def)
  have "\<forall>i\<in>set [0..<nr]. i < nr_pages P0 \<and> PAGE_IS_RESERVED (array P0 ! i) \<and>
      \<not> PAGE_IS_USED (array P0 ! i) \<and> page_ord P0 i = 0"
    using cleared init_page_frame_clear(1) by (simp add: P0)
  note spec = release_pages_spec [OF inv0 distinct_upt P0(3) this, of keep c]
  have given: "{i \<in> set [0..<nr]. \<not> keep i} = {..<m}" using keep m_le by auto
  have count: "length (filter (\<lambda>i. \<not> keep i) [0..<nr]) = m"
  proof -
    have "length (filter (\<lambda>i. \<not> keep i) [0..<nr]) = card {i \<in> set [0..<nr]. \<not> keep i}"
      by (subst distinct_card [symmetric]) simp_all
    then show ?thesis by (simp only: given card_lessThan)
  qed
  obtain P fl where run: "release_pages keep [0..<nr] P0 c = Some (P, c)" and inv: "pool_inv {} fl P"
    and frames: "free_frames fl = {..<m}" and P: "pool_lock P = pool_lock P0" "nr_pages P = nr"
      "pool_min_pfn P = minp" "available_pages P = of_nat m"
    using spec unfolding given count P0 by (auto simp: free_frames_def)
  have check: "pool_bytes P + area_end - PAGE_TRUNCATE arr = len"
  proof -
    have "pool_bytes P = of_nat (4096 * m)"
      using pool_free_pages_eq(2) [OF inv] frames by simp
    moreover have "area_end = of_nat (unat kv + unat len)" and "PAGE_TRUNCATE arr = of_nat (unat kv + 4096 * m)"
      using end' trunc by (simp_all add: area_end_def flip: end' trunc)
    ultimately show ?thesis by simp
  qed
  define ent0 where "ent0 = \<lparr>pe_kvaddr = kv, pe_length = len, min_pfn = minp, max_pfn = minp + nr,
    page_pool = init_page_pool minp nr old frames\<rparr>"
  obtain e where e: "e \<le> length (dbroot db)"
    "pfdb_tree_insert ent0 (dbroot db) = Some (Some e, take e (dbroot db) @ ent0 # drop e (dbroot db))"
    using pfdb_tree_insert_apart [of "dbroot db" ent0] apart by (auto simp: ent0_def minp_def nr_def)
  have "pfdb_add base sz_ent sz_frame phys len old frames db c =
      Some (e, set_pool e P (db\<lparr>dbroot := take e (dbroot db) @ ent0 # drop e (dbroot db)\<rparr>), c)"
    using kv(1) pfns free e(2) run [unfolded keep_def arr_def] check
    by (simp add: pfdb_add_def Let_def ent0_def [symmetric] arr_def [symmetric]
        area_end_def [symmetric] P0_def [symmetric])
  moreover have "set_pool e P (db\<lparr>dbroot := take e (dbroot db) @ ent0 # drop e (dbroot db)\<rparr>) =
      db\<lparr>dbroot := take e (dbroot db) @ ent0\<lparr>page_pool := P\<rparr> # drop e (dbroot db)\<rparr>"
    using e(1) by (simp add: set_pool_def nth_append list_update_append)
  ultimately show ?thesis
    using e(1) inv frames P P0(3)
    by (intro exI [of _ e] exI [of _ "ent0\<lparr>page_pool := P\<rparr>"] exI [of _ fl]) (simp add: ent0_def minp_def nr_def)
qed

theorem pfdb_add_registers_witness:
  "\<exists>e ent. pfdb_add 0 512 256 0 65536 blank_pool (\<lambda>_. blank_frame) \<lparr>db_lock = spinlock_init, dbroot = []\<rparr> sample_cpu =
     Some (e, \<lparr>db_lock = spinlock_init, dbroot = [ent]\<rparr>, sample_cpu) \<and> max_pfn ent = 16 \<and>
     available_pages (page_pool ent) = 14"
proof -
  note add = pfdb_add_registers [of 0 0 65536 512 256 "\<lambda>_. blank_frame" "\<lparr>db_lock = spinlock_init, dbroot = []\<rparr>"
      blank_pool sample_cpu]
  show ?thesis
    using add by (force simp: blank_frame_def)
qed

section \<open>Reservation\<close>

lemma mark_reserved_spec:
  assumes inv: "pool_inv {} fl P" and i: "i \<in> set (fl k)" and held: "spinlock_locked_by_self (pool_lock P)"
  shows "\<exists>P2 P3 fl'. adjust_page_order True i 0 (pool_del_page i P) = Some P2 \<and>
    clean (array P2 ! i) \<and> \<not> PAGE_IS_USED (array P2 ! i) \<and> P3 = setup_clustered_pages i P2 \<and>
    pool_inv {} fl' (upd_page i PAGE_MARK_RESERVED P3) \<and> free_frames fl' = free_frames fl - {i} \<and>
    page_ord P3 i = 0 \<and> \<not> PAGE_IS_USED (array P3 ! i) \<and> i < length (array P3) \<and>
    pool_lock P3 = pool_lock P \<and> nr_pages P3 = nr_pages P \<and> pool_min_pfn P3 = pool_min_pfn P \<and>
    available_pages P3 = available_pages P"
proof -
  note fls = pool_inv_free_lists [OF inv] and facts = pool_inv_free [OF inv i]
  define P1 where "P1 = pool_del_page i P"
  have P1_eq: "P1 = upd_free_nr k (\<lambda>n. n - 1) (P\<lparr>links := snd (queue_del (PageList k) (PageLink i) (links P))\<rparr>)"
    using facts by (simp add: P1_def pool_del_page_def Let_def)
  have inv1: "pool_inv {i} (fl(k := remove1 i (fl k))) P1"
    unfolding P1_eq by (rule pool_inv_remove [OF inv i free_lists_del [OF fls i]])
  have rest1: "pool_rest P1 = pool_rest P" by (simp add: P1_eq)
  note eqs1 = pool_rest_eq [OF rest1]
  have ord1: "page_ord P1 i = k" using facts by (simp add: P1_eq upd_free_nr_def)
  have held1: "spinlock_locked_by_self (pool_lock P1)" using held eqs1(1) by simp
  obtain P2 fl2 where P2: "adjust_page_order True i 0 P1 = Some P2" "pool_inv {i} fl2 P2" "page_ord P2 i = 0"
    "free_frames fl2 \<union> block 0 i = free_frames (fl(k := remove1 i (fl k))) \<union> block k i"
    "pool_rest P2 = pool_rest P1"
    using adjust_page_order_spec [OF inv1 _ held1, of 0] ord1 by auto
  note eqs2 = pool_rest_eq [OF P2(5)]
  define P3 where "P3 = setup_clustered_pages i P2"
  have head2: "i \<in> block_heads {i} fl2 P2" by (simp add: pool_inv_D_head)
  have bound: "block (page_ord P2 i) i \<subseteq> {..<length (array P2)}"
    using tiles_block [OF pool_inv_tiles [OF P2(2)] head2] pool_inv_shape [OF P2(2)] by simp
  note set = setup_clustered_spec [OF bound, folded P3_def]
  have inv3: "pool_inv {i} fl2 P3" using pool_inv_same [OF P2(2) set(2)] .
  have core3: "same_core P2 P3" by (subst set(1)) (simp add: same_core_def)
  have i3: "i < nr_pages P3" "\<not> page_busy P3 i" using pool_inv_D [OF inv3] by simp_all
  have i2: "i < nr_pages P2" "\<not> page_busy P2 i" using pool_inv_D [OF P2(2)] by simp_all
  have clean: "clean (array P2 ! i)" "clean (array P3 ! i)"
    using P2(2) inv3 i2 i3 by (auto simp: pool_inv_def page_not_freed)
  have not_free: "i \<notin> free_heads fl2"
    using inv3 by (auto simp: free_heads_def pool_inv_def)
  have inv': "pool_inv {} fl2 (upd_page i PAGE_MARK_RESERVED P3)"
    using i3 clean not_free
    by (intro pool_inv_mark [OF inv3]) (simp_all add: pool_inv_D_head page_not_freed clean_def)
  have "block (page_ord P3 i) i \<inter> free_frames fl2 = {}"
    using pool_inv_D_disjoint [OF inv3] by simp
  moreover have ord3: "page_ord P3 i = 0"
    using set(2) i2 P2(3) by (simp add: same_pool_def)
  ultimately have "free_frames fl2 = free_frames fl - {i}"
    using free_frames_remove [of fl k i, OF free_lists_distinct [OF fls] i] P2(4) by auto
  moreover have "pool_lock P3 = pool_lock P \<and> nr_pages P3 = nr_pages P \<and> pool_min_pfn P3 = pool_min_pfn P \<and>
      available_pages P3 = available_pages P"
    using core3 eqs1(1-4) eqs2(1-4) by (simp add: same_core_def)
  moreover have "i < length (array P3)" using pool_inv_shape [OF inv3] i3 by simp
  ultimately show ?thesis
    using P2(1) clean i2 i3 inv' ord3 unfolding P3_def P1_def page_not_freed by blast
qed

text \<open>An area of the database that satisfies the pool invariant and is not locked.\<close>

definition area_ok :: "page_frame_db \<Rightarrow> nat \<Rightarrow> (nat \<Rightarrow> nat list) \<Rightarrow> bool" where
  "area_ok db e fl \<longleftrightarrow> tree_ordered (dbroot db) \<and> lock_free (db_lock db) \<and> e < length (dbroot db) \<and>
     pool_inv {} fl (page_pool (dbroot db ! e)) \<and> lock_free (pool_lock (page_pool (dbroot db ! e))) \<and>
     nr_pages (page_pool (dbroot db ! e)) = max_pfn (dbroot db ! e) - min_pfn (dbroot db ! e)"

lemma set_pool_fields [simp]:
  "db_lock (set_pool e P db) = db_lock db" "length (dbroot (set_pool e P db)) = length (dbroot db)"
  "e < length (dbroot db) \<Longrightarrow> dbroot (set_pool e P db) ! e = (dbroot db ! e)\<lparr>page_pool := P\<rparr>"
  by (simp_all add: set_pool_def)

lemma tree_ordered_set_pool [simp]: "tree_ordered (dbroot (set_pool e P db)) \<longleftrightarrow> tree_ordered (dbroot db)"
proof (cases "e < length (dbroot db)")
  case True
  have at: "min_pfn (dbroot (set_pool e P db) ! j) = min_pfn (dbroot db ! j)"
    "max_pfn (dbroot (set_pool e P db) ! j) = max_pfn (dbroot db ! j)" for j
    using True by (auto simp: set_pool_def nth_list_update)
  show ?thesis
    by (simp add: tree_ordered_def sorted_wrt_iff_nth_less all_set_conv_all_nth at)
qed (simp add: set_pool_def list_update_beyond)

lemma mark_reserved_run:
  assumes ok: "area_ok db e fl" and idx: "idx \<in> set (fl k)" and inner: "min_pfn (dbroot db ! e) + idx + 1 < max_pfn (dbroot db ! e)"
  shows "\<exists>P' fl'. mark_page_frame_reserved (min_pfn (dbroot db ! e) + idx) db c =
      Some (Inr (), set_pool e P' db, rv64_cpu_disable_interrupt c) \<and>
    area_ok (set_pool e P' db) e fl' \<and> free_frames fl' = free_frames fl - {idx} \<and>
    PAGE_IS_RESERVED (array P' ! idx) \<and> \<not> PAGE_IS_USED (array P' ! idx) \<and> page_ord P' idx = 0 \<and>
    available_pages P' = available_pages (page_pool (dbroot db ! e)) - 1"
proof -
  let ?ent = "dbroot db ! e" and ?pfn = "min_pfn (dbroot db ! e) + idx"
  define P where "P = page_pool ?ent"
  note ok' = ok [unfolded area_ok_def P_def [symmetric]]
  let ?P = "P\<lparr>pool_lock := lock_taken (pool_lock P)\<rparr>"
  have inv: "pool_inv {} fl ?P" and held: "spinlock_locked_by_self (pool_lock ?P)"
    using ok' by simp_all
  obtain P2 P3 fl' where spec: "adjust_page_order True idx 0 (pool_del_page idx ?P) = Some P2"
    "clean (array P2 ! idx)" "\<not> PAGE_IS_USED (array P2 ! idx)" "P3 = setup_clustered_pages idx P2"
    "pool_inv {} fl' (upd_page idx PAGE_MARK_RESERVED P3)" "free_frames fl' = free_frames fl - {idx}"
    "page_ord P3 idx = 0" "\<not> PAGE_IS_USED (array P3 ! idx)" "idx < length (array P3)"
    "pool_lock P3 = lock_taken (pool_lock P)" "nr_pages P3 = nr_pages P"
    "available_pages P3 = available_pages P"
    using mark_reserved_spec [OF inv idx held] by auto
  have find: "pfdb_tree_find (?pfn, ?pfn + 1) (dbroot db) = Some (Some e)"
    using pfdb_tree_find_entry [of "dbroot db" e ?pfn] ok' inner by simp
  have free: "\<not> PAGE_IS_RESERVED (array P ! idx)"
    using pool_inv_free [OF inv idx] by (simp add: page_not_freed)
  define P' where "P' = upd_page idx PAGE_MARK_RESERVED (P3\<lparr>available_pages := available_pages P3 - 1, pool_lock := pool_lock P\<rparr>)"
  have run: "mark_page_frame_reserved ?pfn db c = Some (Inr (), set_pool e P' db, rv64_cpu_disable_interrupt c)"
    using find free spec(1-4,10) ok'
    by (simp add: mark_page_frame_reserved_def P_def [symmetric] Let_def clean_def P'_def)
  have eq: "P' = (upd_page idx PAGE_MARK_RESERVED P3)\<lparr>available_pages := available_pages P3 - 1, pool_lock := pool_lock P\<rparr>"
    by (simp add: P'_def upd_page_def)
  have "area_ok (set_pool e P' db) e fl'"
    using ok' spec(5,11) by (simp add: area_ok_def eq)
  moreover have "PAGE_IS_RESERVED (array P' ! idx)" "\<not> PAGE_IS_USED (array P' ! idx)" "page_ord P' idx = 0"
    using spec(7-9) by (simp_all add: eq nth_upd_page)
  ultimately show ?thesis
    using run spec(6,12) unfolding P_def by (intro exI [of _ P'] exI [of _ fl']) (simp add: eq)
qed

lemma unmark_reserved_run:
  assumes ok: "area_ok db e fl" and inner: "min_pfn (dbroot db ! e) + idx + 1 < max_pfn (dbroot db ! e)"
    and resv: "PAGE_IS_RESERVED (array (page_pool (dbroot db ! e)) ! idx)"
      "\<not> PAGE_IS_USED (array (page_pool (dbroot db ! e)) ! idx)" "page_ord (page_pool (dbroot db ! e)) idx = 0"
  shows "\<exists>P' fl'. unmark_page_frame_reserved (min_pfn (dbroot db ! e) + idx) db c =
      Some (Inr (), set_pool e P' db, rv64_cpu_disable_interrupt c) \<and>
    area_ok (set_pool e P' db) e fl' \<and> free_frames fl' = insert idx (free_frames fl) \<and>
    available_pages P' = available_pages (page_pool (dbroot db ! e)) + 1"
proof -
  let ?ent = "dbroot db ! e" and ?pfn = "min_pfn (dbroot db ! e) + idx"
  define P where "P = page_pool ?ent"
  note ok' = ok [unfolded area_ok_def P_def [symmetric]] and resv' = resv [folded P_def]
  have inv: "pool_inv {} fl P" and i: "idx < nr_pages P"
    using ok' inner by simp_all
  let ?Q = "(upd_page idx PAGE_UNMARK_RESERVED P)\<lparr>pool_lock := lock_taken (pool_lock P)\<rparr>"
  note unmark = unmark_reserved_inv [OF inv i resv'(1,2)]
  have len: "length (array P) = nr_pages P" using pool_inv_shape [OF inv] by simp
  have at: "array ?Q ! idx = PAGE_UNMARK_RESERVED (array P ! idx)"
    using len i by (simp add: upd_page_def)
  have clean: "clean (array P ! idx)" using inv i resv' by (simp add: pool_inv_def)
  obtain P1 fl' where enq: "enqueue_page_to_buddy_pool idx ?Q = Some P1" "pool_inv {} fl' P1"
    "free_frames fl' = free_frames fl \<union> block (page_ord ?Q idx) idx" "pool_lock P1 = lock_taken (pool_lock P)"
    "nr_pages P1 = nr_pages P" "available_pages P1 = available_pages P"
    using enqueue_spec [of "{idx}" fl ?Q idx] unmark(1,3) i at clean by (auto simp: pool_inv_D_head clean_def)
  have find: "pfdb_tree_find (?pfn, ?pfn + 1) (dbroot db) = Some (Some e)"
    using pfdb_tree_find_entry [of "dbroot db" e ?pfn] ok' inner by simp
  define P' where "P' = P1\<lparr>available_pages := available_pages P1 + 1, pool_lock := pool_lock P\<rparr>"
  have run: "unmark_page_frame_reserved ?pfn db c = Some (Inr (), set_pool e P' db, rv64_cpu_disable_interrupt c)"
    using find resv' clean enq(1,4) ok'
    by (simp add: unmark_page_frame_reserved_def P_def [symmetric] Let_def clean_def P'_def)
  have "area_ok (set_pool e P' db) e fl'"
    using ok' enq(2,5) by (simp add: area_ok_def P'_def)
  then show ?thesis
    using run enq(3,6) at resv'(3) unfolding P_def
    by (intro exI [of _ P'] exI [of _ fl']) (simp add: P'_def)
qed

text \<open>
  C17: reserving a frame that heads a free block of an area takes exactly this frame out of the
  free ones, whatever the order of the block, marks it and counts one available page less; undoing
  the reservation gives it back, and the pool invariant holds after both. Each of the two calls
  leaves the interrupts of the CPU disabled: they keep the saved state of both locks in one
  variable, which the second lock overwrites.
\<close>

theorem page_reservation:
  assumes ok: "area_ok db e fl" and idx: "idx \<in> set (fl k)"
    and inner: "min_pfn (dbroot db ! e) + idx + 1 < max_pfn (dbroot db ! e)"
  shows "\<exists>P1 P2 fl1 fl2.
    mark_page_frame_reserved (min_pfn (dbroot db ! e) + idx) db c =
      Some (Inr (), set_pool e P1 db, rv64_cpu_disable_interrupt c) \<and>
    PAGE_IS_RESERVED (array P1 ! idx) \<and> pool_inv {} fl1 P1 \<and> free_frames fl1 = free_frames fl - {idx} \<and>
    available_pages P1 = available_pages (page_pool (dbroot db ! e)) - 1 \<and>
    unmark_page_frame_reserved (min_pfn (dbroot db ! e) + idx) (set_pool e P1 db) c' =
      Some (Inr (), set_pool e P2 db, rv64_cpu_disable_interrupt c') \<and>
    pool_inv {} fl2 P2 \<and> free_frames fl2 = free_frames fl \<and>
    available_pages P2 = available_pages (page_pool (dbroot db ! e))"
proof -
  have e: "e < length (dbroot db)" and inv: "pool_inv {} fl (page_pool (dbroot db ! e))"
    using ok by (simp_all add: area_ok_def)
  obtain P1 fl1 where mark: "mark_page_frame_reserved (min_pfn (dbroot db ! e) + idx) db c =
      Some (Inr (), set_pool e P1 db, rv64_cpu_disable_interrupt c)"
    "area_ok (set_pool e P1 db) e fl1" "free_frames fl1 = free_frames fl - {idx}"
    "PAGE_IS_RESERVED (array P1 ! idx)" "\<not> PAGE_IS_USED (array P1 ! idx)" "page_ord P1 idx = 0"
    "available_pages P1 = available_pages (page_pool (dbroot db ! e)) - 1"
    using mark_reserved_run [OF ok idx inner] by blast
  have at: "dbroot (set_pool e P1 db) ! e = (dbroot db ! e)\<lparr>page_pool := P1\<rparr>"
    using e by simp
  obtain P2 fl2 where unmark: "unmark_page_frame_reserved (min_pfn (dbroot db ! e) + idx) (set_pool e P1 db) c' =
      Some (Inr (), set_pool e P2 (set_pool e P1 db), rv64_cpu_disable_interrupt c')"
    "area_ok (set_pool e P2 (set_pool e P1 db)) e fl2" "free_frames fl2 = insert idx (free_frames fl1)"
    "available_pages P2 = available_pages P1 + 1"
    using unmark_reserved_run [OF mark(2), of idx c'] inner mark(4-6) by (auto simp: at)
  have "set_pool e P2 (set_pool e P1 db) = set_pool e P2 db"
    using e by (simp add: set_pool_def)
  moreover have "idx \<in> free_frames fl"
    using free_block [of idx fl k] idx by (auto simp: block_def)
  moreover have "pool_inv {} fl1 P1" "pool_inv {} fl2 P2"
    using mark(2) unmark(2) e by (simp_all add: area_ok_def at)
  ultimately show ?thesis
    using mark unmark by (intro exI [of _ P1] exI [of _ P2] exI [of _ fl1] exI [of _ fl2]) (simp add: insert_absorb)
qed

definition sample_db :: page_frame_db where
  "sample_db = \<lparr>db_lock = spinlock_init,
     dbroot = [\<lparr>pe_kvaddr = 0x10000, pe_length = 0x8000, min_pfn = 16, max_pfn = 24, page_pool = free_pool\<rparr>]\<rparr>"

lemma sample_db_ok:
  "\<exists>fl. area_ok sample_db 0 fl \<and> free_frames fl = {..<8}"
proof -
  obtain fl where fl: "pool_inv {} fl free_pool" "free_frames fl = {..<8}" "lock_free (pool_lock free_pool)"
    "nr_pages free_pool = 8"
    using free_pool_inv by blast
  then show ?thesis
    by (intro exI [of _ fl]) (simp add: area_ok_def sample_db_def tree_ordered_def)
qed

theorem page_reservation_witness:
  "\<exists>P1 P2. mark_page_frame_reserved 16 sample_db sample_cpu =
      Some (Inr (), set_pool 0 P1 sample_db, \<lparr>sstatus = 0, sie = 0\<rparr>) \<and>
    PAGE_IS_RESERVED (array P1 ! 0) \<and>
    unmark_page_frame_reserved 16 (set_pool 0 P1 sample_db) sample_cpu =
      Some (Inr (), set_pool 0 P2 sample_db, \<lparr>sstatus = 0, sie = 0\<rparr>)"
proof -
  obtain fl where fl: "area_ok sample_db 0 fl" "free_frames fl = {..<8}"
    using sample_db_ok by blast
  then have "0 \<in> free_frames fl" by simp
  then obtain k where "0 \<in> set (fl k)"
    by (auto simp: free_frames_def block_def)
  moreover have "min_pfn (dbroot sample_db ! 0) = 16" "max_pfn (dbroot sample_db ! 0) = 24"
    by (simp_all add: sample_db_def)
  moreover have "rv64_cpu_disable_interrupt sample_cpu = \<lparr>sstatus = 0, sie = 0\<rparr>"
    by code_simp
  ultimately show ?thesis
    using page_reservation [OF fl(1), of 0 k sample_cpu sample_cpu] by auto
qed

text \<open>
  The same call on a frame inside a free block, here the second of eight free frames, succeeds
  as well, but takes the frame from no list: the number of free blocks of order 0 wraps to
  \<open>2 ^ 64 - 1\<close>, and the next allocation hands out the block with the reserved frame in it.
\<close>

theorem reservation_inside_block:
  "case mark_page_frame_reserved 17 sample_db sample_cpu of
     None \<Rightarrow> False
   | Some (rc, db, c) \<Rightarrow>
       rc = Inr () \<and> PAGE_IS_RESERVED (array (page_pool (dbroot db ! 0)) ! 1) \<and>
       free_nr (page_pool (dbroot db ! 0)) ! 0 = 2 ^ 64 - 1 \<and>
       map_option fst (pfdb_buddy_dequeue 3 PAGE_STATE_UCASE_KERN db c) = Some (Inr 16)"
  by code_simp

section \<open>Lookups\<close>

lemma pfn_to_page_frame_eq:
  assumes "lock_free (db_lock db)" and "pfdb_tree_find (pfn, pfn + 1) (dbroot db) = Some res"
  shows "pfn_to_page_frame pfn db c =
    Some (case res of None \<Rightarrow> Inl ESRCH | Some e \<Rightarrow> Inr (e, pfn - min_pfn (dbroot db ! e)), db, c)"
  using assms by (simp add: pfn_to_page_frame_def Let_def split: option.split)

text \<open>
  C19: the lookup of a frame number. A frame of an area is found, with the entry and the place in
  its array, and is valid; a number in no area gives \<open>ESRCH\<close> and is not valid; but the last frame
  of an area stops the kernel, because the comparison asserts \<open>max_pfn\<close> of the key to be strictly
  less than the bound of the area, which is already exclusive. Nothing else changes.
\<close>

theorem page_lookup:
  assumes db: "tree_ordered (dbroot db)" "lock_free (db_lock db)"
  shows "if \<exists>e<length (dbroot db). min_pfn (dbroot db ! e) \<le> pfn \<and> pfn < max_pfn (dbroot db ! e)
    then \<exists>e<length (dbroot db). min_pfn (dbroot db ! e) \<le> pfn \<and> pfn < max_pfn (dbroot db ! e) \<and>
      (if pfn + 1 = max_pfn (dbroot db ! e)
       then pfdb_pfn_to_page_frame pfn db c = None \<and> kcom_is_pfn_valid pfn db c = None
       else pfdb_pfn_to_page_frame pfn db c = Some (Inr (e, pfn - min_pfn (dbroot db ! e)), db, c) \<and>
         kcom_is_pfn_valid pfn db c = Some (True, db, c))
    else pfdb_pfn_to_page_frame pfn db c = Some (Inl ESRCH, db, c) \<and>
      kcom_is_pfn_valid pfn db c = Some (False, db, c)"
proof (cases "\<exists>e<length (dbroot db). min_pfn (dbroot db ! e) \<le> pfn \<and> pfn < max_pfn (dbroot db ! e)")
  case True
  then obtain e where e: "e < length (dbroot db)" "min_pfn (dbroot db ! e) \<le> pfn" "pfn < max_pfn (dbroot db ! e)"
    by blast
  note find = pfdb_tree_find_entry [OF db(1) e]
  have "if pfn + 1 = max_pfn (dbroot db ! e)
       then pfdb_pfn_to_page_frame pfn db c = None \<and> kcom_is_pfn_valid pfn db c = None
       else pfdb_pfn_to_page_frame pfn db c = Some (Inr (e, pfn - min_pfn (dbroot db ! e)), db, c) \<and>
         kcom_is_pfn_valid pfn db c = Some (True, db, c)"
  proof (cases "pfn + 1 = max_pfn (dbroot db ! e)")
    case True
    with find have "pfn_to_page_frame pfn db c = None"
      using db(2) by (simp add: pfn_to_page_frame_def)
    with True show ?thesis
      by (simp add: pfdb_pfn_to_page_frame_def kcom_is_pfn_valid_def)
  next
    case False
    with find e(3) have "pfdb_tree_find (pfn, pfn + 1) (dbroot db) = Some (Some e)"
      by simp
    with False pfn_to_page_frame_eq [OF db(2) this, of c] show ?thesis
      by (simp add: pfdb_pfn_to_page_frame_def kcom_is_pfn_valid_def)
  qed
  with True e show ?thesis by auto
next
  case False
  then have "\<forall>x\<in>set (dbroot db). pfn + 1 \<le> min_pfn x \<or> max_pfn x \<le> pfn"
    by (metis Suc_eq_plus1 in_set_conv_nth not_less not_less_eq_eq)
  from pfn_to_page_frame_eq [OF db(2) pfdb_tree_find_none [OF this], of c] show ?thesis
    unfolding if_not_P [OF False] by (simp add: pfdb_pfn_to_page_frame_def kcom_is_pfn_valid_def)
qed

theorem page_lookup_witness:
  "kcom_is_pfn_valid 22 sample_db sample_cpu = Some (True, sample_db, sample_cpu) \<and>
   kcom_is_pfn_valid 23 sample_db sample_cpu = None \<and>
   kcom_is_pfn_valid 24 sample_db sample_cpu = Some (False, sample_db, sample_cpu)"
proof -
  have db: "tree_ordered (dbroot sample_db)" "lock_free (db_lock sample_db)"
    by (simp_all add: sample_db_def tree_ordered_def)
  note lookup = page_lookup [OF db, of _ sample_cpu]
  have "length (dbroot sample_db) = 1" "min_pfn (dbroot sample_db ! 0) = 16" "max_pfn (dbroot sample_db ! 0) = 24"
    by (simp_all add: sample_db_def)
  with lookup [of 22] lookup [of 23] lookup [of 24] show ?thesis
    by simp
qed

end
