(* ===== verification/PageAlloc.thy ===== *)
theory PageAlloc
  imports PfdbLaws
begin

unbundle bit_operations_syntax

text \<open>
  The page interface of kern/page-alloc.c, whose definitions are in Pfdb: the order of a size, and
  the life of a cluster of pages from \<open>pgif_get_free_page_cluster\<close> to \<open>pgif_free_page\<close>, through
  the database, the buddy pool and the address conversions.
\<close>

section \<open>The order of a size\<close>

lemma high_bits_clear: "n < 64 \<Longrightarrow> (x :: u64) AND NOT (push_bit n 1 - 1) = 0 \<longleftrightarrow> unat x < 2 ^ n"
proof -
  assume n: "n < 64"
  have "unat (x AND NOT (mask n)) = push_bit n (drop_bit n (unat x))"
    by (rule bit_eqI) (auto simp: bit_unsigned_iff bit_and_iff bit_not_iff bit_mask_iff bit_push_bit_iff
        bit_drop_bit_eq dest: bit_imp_le_length)
  then have "unat (x AND NOT (mask n)) = 0 \<longleftrightarrow> unat x < 2 ^ n"
    by (auto simp: push_bit_eq_mult drop_bit_eq_div div_eq_0_iff)
  then show ?thesis
    by (simp add: mask_eq_exp_minus_1 push_bit_eq_mult unat_eq_0)
qed

lemma low_bits_clear: "n < 64 \<Longrightarrow> (x :: u64) AND (push_bit n 1 - 1) = 0 \<longleftrightarrow> 2 ^ n dvd unat x"
proof -
  assume n: "n < 64"
  have "x AND mask n = take_bit n x"
    by (simp add: take_bit_eq_mask)
  also have "\<dots> = 0 \<longleftrightarrow> take_bit n (unat x) = 0"
    by (metis unsigned_take_bit_eq unat_eq_0)
  finally show ?thesis
    by (simp add: mask_eq_exp_minus_1 push_bit_eq_mult take_bit_eq_mod dvd_eq_mod_eq_0)
qed

lemma calc_page_order_loop_least:
  assumes "n + k = PAGE_POOL_MAX_ORDER" and "k = 0 \<or> 2 ^ k \<le> unat N"
  shows "calc_page_order_loop N n k =
    (if unat N \<le> 2 ^ 10 then Inr (LEAST j. unat N \<le> 2 ^ j) else Inl ESRCH)"
  using assms
proof (induction n arbitrary: k)
  case 0
  then have "2 ^ 11 \<le> unat N" by (auto simp: PAGE_POOL_MAX_ORDER_def)
  then show ?case by simp
next
  case (Suc n)
  then have k: "k \<le> 10" by (simp add: PAGE_POOL_MAX_ORDER_def)
  note high = high_bits_clear [of "k + 1" N] and low = low_bits_clear [of k N]
  show ?case
  proof (cases "unat N < 2 ^ (k + 1)")
    case False
    with Suc.IH [of "k + 1"] Suc.prems k high show ?thesis by simp
  next
    case True
    let ?k = "if 2 ^ k dvd unat N then k else k + 1"
    have fits: "unat N \<le> 2 ^ ?k"
      using True by (auto elim!: dvdE simp: mult_less_cancel1)
    have least: "(LEAST j. unat N \<le> 2 ^ j) = ?k"
    proof (rule Least_equality)
      fix j assume j: "unat N \<le> 2 ^ j"
      show "?k \<le> j"
      proof (rule ccontr)
        assume "\<not> ?k \<le> j"
        then have k': "0 < k" "j \<le> k" by (cases k; auto split: if_splits)+
        with Suc.prems(2) j have "(2::nat) ^ k \<le> 2 ^ j" by (meson order.trans less_numeral_extra(3))
        then have "k \<le> j" by simp
        with k' have "j = k" by simp
        with j k' Suc.prems(2) have "unat N = 2 ^ k" by simp
        with \<open>\<not> ?k \<le> j\<close> \<open>j = k\<close> show False by simp
      qed
    qed (rule fits)
    have "unat N \<le> 2 ^ 10 \<longleftrightarrow> ?k < PAGE_POOL_MAX_ORDER"
    proof
      assume "unat N \<le> 2 ^ 10"
      then have "?k \<le> 10" unfolding least [symmetric] by (rule Least_le)
      then show "?k < PAGE_POOL_MAX_ORDER" by (simp add: PAGE_POOL_MAX_ORDER_def)
    next
      assume "?k < PAGE_POOL_MAX_ORDER"
      then have "(2::nat) ^ ?k \<le> 2 ^ 10" by (intro power_increasing) (auto simp: PAGE_POOL_MAX_ORDER_def)
      with fits show "unat N \<le> 2 ^ 10" by linarith
    qed
    with True k high low show ?thesis
      unfolding least by (auto simp: Let_def PAGE_POOL_MAX_ORDER_def)
  qed
qed

text \<open>
  C20: \<open>pgif_calc_page_order\<close> returns the least order whose block holds the size, and \<open>ESRCH\<close> for
  more than 4 MiB, the largest block. In the last page below \<open>2 ^ 64\<close> the rounding of the size wraps
  to no page at all and the call succeeds with order 0, where its documentation promises \<open>ESRCH\<close>.
\<close>

theorem calc_page_order:
  "pgif_calc_page_order len =
    (if unat len > 2 ^ 64 - 4096 then Inr 0
     else if unat len \<le> 4096 * 2 ^ 10 then Inr (LEAST k. unat len \<le> 4096 * 2 ^ k)
     else Inl ESRCH)"
proof (cases "unat len > 2 ^ 64 - 4096")
  case True
  have "unat (len + 4095) = unat len + 4095 - 2 ^ 64"
  proof -
    have "unat len < 2 ^ 64" using unsigned_less [of len] by simp
    with True have "(unat len + 4095) mod 2 ^ 64 = unat len + 4095 - 2 ^ 64"
      by (subst mod_if) simp
    then show ?thesis by (simp add: unat_word_ariths)
  qed
  moreover have "unat len < 2 ^ 64" using unsigned_less [of len] by simp
  ultimately have "unat (PAGE_ROUNDUP len) = 0"
    by (simp add: PAGE_ROUNDUP_def PAGE_TRUNCATE_unat PAGE_SIZE_def)
  then have "PAGE_ROUNDUP len = 0" by (simp add: unat_eq_0)
  moreover have "(LEAST j. unat (0 :: u64) \<le> 2 ^ j) = 0"
    by (rule Least_eq_0) simp
  ultimately show ?thesis
    using True calc_page_order_loop_least [of PAGE_POOL_MAX_ORDER 0 0]
    by (simp add: pgif_calc_page_order_def)
next
  case False
  define N where "N = drop_bit PAGE_SHIFT (PAGE_ROUNDUP len)"
  have N: "unat N = (unat len + 4095) div 4096"
    using False PAGE_ROUNDUP_unat [of len] by (simp add: N_def drop_bit_unat PAGE_SHIFT_def)
  have le: "unat N \<le> m \<longleftrightarrow> unat len \<le> 4096 * m" for m
    unfolding N by linarith
  show ?thesis
    using False calc_page_order_loop_least [of PAGE_POOL_MAX_ORDER 0 N]
    unfolding le by (simp add: pgif_calc_page_order_def N_def)
qed

section \<open>Map counts\<close>

text \<open>Nothing on the way of an allocation touches the map counts.\<close>

definition map_counts :: "page_buddy \<Rightarrow> u32 list" where
  "map_counts P = map pf_mapcnt (array P)"

lemma upd_page_counts: "(\<And>pf. pf_mapcnt (f pf) = pf_mapcnt pf) \<Longrightarrow> map_counts (upd_page i f P) = map_counts P"
  by (cases "i < length (array P)")
    (simp_all add: map_counts_def upd_page_def map_update list_update_beyond list_update_same_conv)

lemma map_counts_simps [simp]:
  "map_counts (P\<lparr>pool_lock := l\<rparr>) = map_counts P" "map_counts (P\<lparr>links := ls\<rparr>) = map_counts P"
  "map_counts (upd_free_nr k f P) = map_counts P"
  "map_counts (P\<lparr>kdata_pages := n\<rparr>) = map_counts P" "map_counts (P\<lparr>kstack_pages := n\<rparr>) = map_counts P"
  "map_counts (P\<lparr>pgtbl_pages := n\<rparr>) = map_counts P" "map_counts (P\<lparr>slab_pages := n\<rparr>) = map_counts P"
  "map_counts (P\<lparr>anon_pages := n\<rparr>) = map_counts P" "map_counts (P\<lparr>pcache_pages := n\<rparr>) = map_counts P"
  by (simp_all add: map_counts_def upd_free_nr_def)

lemma adjust_page_order_counts:
  "adjust_page_order d i r P = Some P' \<Longrightarrow> map_counts P' = map_counts P"
proof -
  have loop: "adjust_page_order_loop idx r k P = Some P' \<Longrightarrow> map_counts P' = map_counts P" for idx k P P'
    by (induction k arbitrary: P)
      (auto simp: Let_def upd_page_counts split: if_splits dest!: meta_spec)
  show "adjust_page_order d i r P = Some P' \<Longrightarrow> map_counts P' = map_counts P"
    by (auto simp: adjust_page_order_def Let_def loop split: Option.bind_splits)
qed

lemma setup_clustered_counts: "map_counts (setup_clustered_pages i P) = map_counts P"
proof -
  have "map_counts (fold (\<lambda>k. upd_page (i + k) (PAGE_MARK_CLUSTERED i)) ks Q) = map_counts Q" for ks Q
    by (induction ks arbitrary: Q) (simp_all add: upd_page_counts)
  then show ?thesis by (simp add: setup_clustered_pages_def upd_page_counts)
qed

lemma mark_page_usage_counts: "mark_page_usage i usage P = Some P' \<Longrightarrow> map_counts P' = map_counts P"
  by (auto simp: mark_page_usage_def Let_def upd_page_counts split: if_splits)

lemma take_page_counts: "take_page d r usage k P = Some (pfn, P') \<Longrightarrow> map_counts P' = map_counts P"
  by (auto simp: take_page_def Let_def upd_page_counts setup_clustered_counts split: prod.splits Option.bind_splits
      dest!: adjust_page_order_counts mark_page_usage_counts)

lemma dequeue_loop_counts: "dequeue_loop d r usage k P = Some (rc, P') \<Longrightarrow> map_counts P' = map_counts P"
proof (induction d r usage k P rule: dequeue_loop.induct)
  case (1 d r usage k P)
  then show ?case
    by (subst (asm) dequeue_loop.simps)
      (auto split: if_splits option.splits prod.splits dest: take_page_counts)
qed

lemma dequeue_area_counts:
  "dequeue_page_from_memory_area d r usage P c = Some (rc, P', c') \<Longrightarrow> map_counts P' = map_counts P"
  by (auto simp: dequeue_page_from_memory_area_def split: if_splits Option.bind_splits prod.splits
      dest!: dequeue_loop_counts)

lemma unmark_page_usage_counts: "unmark_page_usage i P = Some P' \<Longrightarrow> map_counts P' = map_counts P"
  by (auto simp: unmark_page_usage_def unmark_kdata_def unmark_kstack_def unmark_pgtbl_def unmark_slab_def
      unmark_anon_def unmark_pcache_def Let_def upd_page_counts)

lemma clear_clustered_counts: "map_counts (clear_clustered_pages i P) = map_counts P"
proof -
  have "map_counts (fold (\<lambda>k. upd_page (i + k) PAGE_UNMARK_CLUSTERED) ks Q) = map_counts Q" for ks Q
    by (induction ks arbitrary: Q) (simp_all add: upd_page_counts)
  then show ?thesis by (simp add: clear_clustered_pages_def)
qed

lemma enqueue_loop_counts: "enqueue_loop msk k idx P = Some (idx', P') \<Longrightarrow> map_counts P' = map_counts P"
proof (induction msk k idx P rule: enqueue_loop.induct)
  case (1 msk k idx P)
  then show ?case
    by (subst (asm) enqueue_loop.simps) (auto simp: Let_def upd_page_counts split: if_splits)
qed

lemma enqueue_page_counts: "enqueue_page_to_buddy_pool i P = Some P' \<Longrightarrow> map_counts P' = map_counts P"
  by (auto simp: enqueue_page_to_buddy_pool_def Let_def upd_page_counts clear_clustered_counts split: Option.bind_splits
      dest!: enqueue_loop_counts unmark_page_usage_counts)

lemma dec_use_count_counts: "pfdb_dec_page_use_count i P c = Some (r, P', c') \<Longrightarrow> map_counts P' = map_counts P"
  by (auto simp: pfdb_dec_page_use_count_def Let_def upd_page_counts split: Option.bind_splits if_splits prod.splits
      dest!: enqueue_page_counts)

section \<open>From allocation to release\<close>

lemma area_ok_set_pool:
  assumes "area_ok db e fl" and "pool_inv {} fl' P" and "lock_free (pool_lock P)"
    and "nr_pages P = nr_pages (page_pool (dbroot db ! e))"
  shows "area_ok (set_pool e P db) e fl'"
  using assms by (simp add: area_ok_def)

lemma set_pool_same [simp]: "set_pool e (page_pool (dbroot db ! e)) db = db"
  by (simp add: set_pool_def)

lemma dequeue_single_area:
  assumes ok: "area_ok db 0 fl" and one: "length (dbroot db) = 1"
    and run: "dequeue_page_from_memory_area True order usage (page_pool (dbroot db ! 0)) (rv64_cpu_disable_interrupt c) =
      Some (rc, P, rv64_cpu_disable_interrupt c)"
  shows "pfdb_buddy_dequeue order usage db c = Some (rc, set_pool 0 P db, c)"
proof -
  have "db_lock (set_pool 0 P (db\<lparr>db_lock := l\<rparr>)) = l"
    "set_pool 0 P (db\<lparr>db_lock := l\<rparr>) = set_pool 0 P db\<lparr>db_lock := l\<rparr>" for l
    by (simp_all add: set_pool_def)
  moreover have "pfdb_buddy_dequeue_loop order usage 1 db' c' = Some (Inl ENOMEM, db', c')"
    if "length (dbroot db') = 1" for db' c'
    using that by (subst pfdb_buddy_dequeue_loop.simps) simp
  ultimately show ?thesis
    using ok one run
    by (simp add: pfdb_buddy_dequeue_def area_ok_def pfdb_buddy_dequeue_loop.simps [of _ _ 0] Let_def)
qed

lemma pgif_free_page_run:
  assumes ok: "area_ok db e fl" and inner: "min_pfn (dbroot db ! e) + i + 1 < max_pfn (dbroot db ! e)"
    and addr: "unat kv = unat base + 4096 * (min_pfn (dbroot db ! e) + i)"
    and run: "pfdb_dec_page_use_count i (page_pool (dbroot db ! e)) c = Some (True, P, c)"
  shows "pgif_free_page base kv db c = Some (set_pool e P db, c)"
proof -
  have pfn: "hal_kvaddr_to_pfn base kv = Inr (min_pfn (dbroot db ! e) + i)"
    using hal_kvaddr_to_pfn_unat [of base kv] addr by simp
  have "pfdb_tree_find (min_pfn (dbroot db ! e) + i, min_pfn (dbroot db ! e) + i + 1) (dbroot db) = Some (Some e)"
    using pfdb_tree_find_entry [of "dbroot db" e "min_pfn (dbroot db ! e) + i"] ok inner
    by (simp add: area_ok_def)
  then have "pfn_to_page_frame (min_pfn (dbroot db ! e) + i) db c = Some (Inr (e, i), db, c)"
    using pfn_to_page_frame_eq [of db "min_pfn (dbroot db ! e) + i" "Some e" c] ok by (simp add: area_ok_def)
  then show ?thesis
    using run by (simp add: pgif_free_page_def pfdb_kvaddr_to_page_frame_def pfn)
qed

text \<open>An allocation that finds a free block.\<close>

lemma get_free_cluster_run:
  assumes ok: "area_ok db 0 fl" and one: "length (dbroot db) = 1"
    and ent: "min_pfn (dbroot db ! 0) = minp" "max_pfn (dbroot db ! 0) = maxp"
      "pool_min_pfn (page_pool (dbroot db ! 0)) = minp"
    and last: "maxp - minp - 1 \<notin> free_frames fl" and bound: "4096 * maxp + unat base < 2 ^ 64"
    and usage: "usage \<in> page_usages"
    and room: "order < PAGE_POOL_MAX_ORDER" "\<exists>j. 2 ^ order dvd j \<and> block order j \<subseteq> free_frames fl"
  obtains i kv P fl' where "pgif_get_free_page_cluster base order flags usage db mem c =
      Some (Inr kv, set_pool 0 P db,
        if flags AND KM_SFLAGS_CLR_NONE = 0 then clear_memory kv (push_bit order PAGE_SIZE) mem else mem, c)"
    and "unat kv = unat base + 4096 * (minp + i)" and "minp + i + 1 < maxp"
    and "2 ^ order dvd i" and "block order i \<subseteq> free_frames fl"
    and "area_ok (set_pool 0 P db) 0 fl'" and "free_frames fl' = free_frames fl - block order i"
    and "allocated order usage i P" and "pool_lock P = pool_lock (page_pool (dbroot db ! 0))"
    and "\<forall>j. j \<notin> free_frames fl \<longrightarrow> array P ! j = array (page_pool (dbroot db ! 0)) ! j"
    and "map_counts P = map_counts (page_pool (dbroot db ! 0))" and "pool_min_pfn P = minp"
proof -
  let ?P = "page_pool (dbroot db ! 0)" and ?c = "rv64_cpu_disable_interrupt c"
  have P: "pool_inv {} fl ?P" "lock_free (pool_lock ?P)" "nr_pages ?P = maxp - minp"
    using ok ent by (simp_all add: area_ok_def)
  obtain i P' fl' where run: "dequeue_page_from_memory_area True order usage ?P ?c = Some (Inr (minp + i), P', ?c)"
    and P': "pool_inv {} fl' P'" "pool_lock P' = pool_lock ?P" "allocated order usage i P'" "2 ^ order dvd i"
      "free_frames fl' = free_frames fl - block order i" "block order i \<subseteq> free_frames fl"
      "\<forall>j. j \<notin> free_frames fl \<longrightarrow> array P' ! j = array ?P ! j" "nr_pages P' = nr_pages ?P" "pool_min_pfn P' = minp"
    using dequeue_area_spec [OF P(1,2) usage, of order ?c] room ent(3) by auto
  have "i \<noteq> maxp - minp - 1" using P'(6) last head_in_block by blast
  moreover have "i < nr_pages P'" using P'(3) by (simp add: allocated_def)
  ultimately have inner: "minp + i + 1 < maxp" using P'(8) P(3) by auto
  then obtain kv where kv: "hal_pfn_to_kvaddr base (minp + i) = Inr kv" "unat kv = 4096 * (minp + i) + unat base"
    using hal_pfn_to_kvaddr_unat [of "minp + i" base] bound by force
  have "pgif_get_free_page_cluster base order flags usage db mem c =
      Some (Inr kv, set_pool 0 P' db,
        if flags AND KM_SFLAGS_CLR_NONE = 0 then clear_memory kv (push_bit order PAGE_SIZE) mem else mem, c)"
    using dequeue_single_area [OF ok one run] kv(1) by (simp add: pgif_get_free_page_cluster_def pfdb_pfn_to_kvaddr_def)
  moreover have "area_ok (set_pool 0 P' db) 0 fl'"
    using area_ok_set_pool [OF ok P'(1)] P(2) P'(2,8) by simp
  moreover have "map_counts P' = map_counts ?P"
    using dequeue_area_counts [OF run] .
  ultimately show thesis
    using that P' kv(2) inner by simp
qed

text \<open>The release of the only reference to a frame that is not mapped gives its block back.\<close>

lemma free_last_page_run:
  assumes ok: "area_ok db 0 fl" and i: "min_pfn (dbroot db ! 0) + i + 1 < max_pfn (dbroot db ! 0)"
    "PAGE_IS_USED (array (page_pool (dbroot db ! 0)) ! i)" "\<not> PAGE_IS_RESERVED (array (page_pool (dbroot db ! 0)) ! i)"
    and counts: "pf_usecnt (array (page_pool (dbroot db ! 0)) ! i) = 1" "pf_mapcnt (array (page_pool (dbroot db ! 0)) ! i) = 0"
    and addr: "unat kv = unat base + 4096 * (min_pfn (dbroot db ! 0) + i)"
  obtains P fl' where "pgif_free_page base kv db c = Some (set_pool 0 P db, c)" and "area_ok (set_pool 0 P db) 0 fl'"
    and "free_frames fl' = free_frames fl \<union> block (page_ord (page_pool (dbroot db ! 0)) i) i"
proof -
  let ?P = "page_pool (dbroot db ! 0)"
  have P: "pool_inv {} fl ?P" "lock_free (pool_lock ?P)" "i < nr_pages ?P"
    using ok i(1) by (auto simp: area_ok_def)
  have "0 \<le>s pf_usecnt (array ?P ! i)"
    using counts(1) by (simp add: word_sle_eq)
  then obtain P' fl' where free: "pfdb_dec_page_use_count i ?P c = Some (True, P', c)" "pool_inv {} fl' P'"
    "pool_lock P' = pool_lock ?P" "free_frames fl' = free_frames fl \<union> block (page_ord ?P i) i" "nr_pages P' = nr_pages ?P"
    using dec_use_count_spec [OF P i(2,3), of c] counts by auto
  show thesis
    using that pgif_free_page_run [OF ok i(1) addr free(1)] area_ok_set_pool [OF ok free(2)] free(3-5) P(2) by simp
qed

text \<open>An allocation that finds none changes nothing.\<close>

lemma get_free_cluster_none:
  assumes ok: "area_ok db 0 fl" and one: "length (dbroot db) = 1" and usage: "usage \<in> page_usages"
    and full: "\<not> (order < PAGE_POOL_MAX_ORDER \<and> (\<exists>j. 2 ^ order dvd j \<and> block order j \<subseteq> free_frames fl))"
  shows "pgif_get_free_page_cluster base order flags usage db mem c = Some (Inl ENOMEM, db, mem, c)"
proof -
  let ?P = "page_pool (dbroot db ! 0)" and ?c = "rv64_cpu_disable_interrupt c"
  have "\<exists>e\<in>{EINVAL, ENOMEM}. dequeue_page_from_memory_area True order usage ?P ?c = Some (Inl e, ?P, ?c)"
    using dequeue_area_spec [OF _ _ usage, of fl ?P order ?c] ok full by (auto simp: area_ok_def split: if_splits)
  then show ?thesis
    using dequeue_single_area [OF ok one] by (auto simp: pgif_get_free_page_cluster_def)
qed

text \<open>
  C21: the life of a cluster of pages in a kernel with one memory area, the last frame of which is
  reserved (as \<open>pfdb_add\<close> does). When an aligned range of \<open>2 ^ order\<close> frames is free,
  \<open>pgif_get_free_page_cluster\<close> returns the kernel address of such a block, takes it out of the free
  frames, and unless told otherwise clears exactly its memory; \<open>pgif_free_page\<close> of this address then
  gives the same frames back. Otherwise, also for an order that no block can have, the result is
  \<open>-ENOMEM\<close> and nothing changes.
\<close>

theorem page_alloc_free:
  assumes ok: "area_ok db 0 fl" and one: "length (dbroot db) = 1"
    and ent: "min_pfn (dbroot db ! 0) = minp" "max_pfn (dbroot db ! 0) = maxp"
      "pool_min_pfn (page_pool (dbroot db ! 0)) = minp"
    and last: "maxp - minp - 1 \<notin> free_frames fl" and bound: "4096 * maxp + unat base < 2 ^ 64"
    and usage: "usage \<in> page_usages" and unmapped: "\<forall>i<maxp - minp. pf_mapcnt (array (page_pool (dbroot db ! 0)) ! i) = 0"
  shows "if order < PAGE_POOL_MAX_ORDER \<and> (\<exists>j. 2 ^ order dvd j \<and> block order j \<subseteq> free_frames fl)
    then \<exists>i kv db1 mem1 fl1 db2 fl2.
      pgif_get_free_page_cluster base order flags usage db mem c = Some (Inr kv, db1, mem1, c) \<and>
      unat kv = unat base + 4096 * (minp + i) \<and> 2 ^ order dvd i \<and> block order i \<subseteq> free_frames fl \<and>
      mem1 = (if flags AND KM_SFLAGS_CLR_NONE = 0
              then (\<lambda>a. if a - kv < push_bit order 4096 then 0 else mem a) else mem) \<and>
      area_ok db1 0 fl1 \<and> free_frames fl1 = free_frames fl - block order i \<and>
      pgif_free_page base kv db1 c = Some (db2, c) \<and>
      area_ok db2 0 fl2 \<and> free_frames fl2 = free_frames fl
    else pgif_get_free_page_cluster base order flags usage db mem c = Some (Inl ENOMEM, db, mem, c)"
proof (cases "order < PAGE_POOL_MAX_ORDER \<and> (\<exists>j. 2 ^ order dvd j \<and> block order j \<subseteq> free_frames fl)")
  case False
  show ?thesis
    unfolding if_not_P [OF False] by (rule get_free_cluster_none [OF ok one usage False])
next
  case True
  then obtain i kv P1 fl1 where get: "pgif_get_free_page_cluster base order flags usage db mem c =
        Some (Inr kv, set_pool 0 P1 db,
          if flags AND KM_SFLAGS_CLR_NONE = 0 then clear_memory kv (push_bit order PAGE_SIZE) mem else mem, c)"
    and i: "unat kv = unat base + 4096 * (minp + i)" "minp + i + 1 < maxp" "2 ^ order dvd i" "block order i \<subseteq> free_frames fl"
    and ok1: "area_ok (set_pool 0 P1 db) 0 fl1" "free_frames fl1 = free_frames fl - block order i"
    and P1: "allocated order usage i P1" "map_counts P1 = map_counts (page_pool (dbroot db ! 0))"
    using get_free_cluster_run [OF ok one ent last bound usage] by metis
  let ?db = "set_pool 0 P1 db"
  have at: "dbroot ?db ! 0 = (dbroot db ! 0)\<lparr>page_pool := P1\<rparr>"
    using one by simp
  have len: "length (array P1) = maxp - minp" "length (array (page_pool (dbroot db ! 0))) = maxp - minp"
    using ok ok1(1) ent pool_inv_shape [of "{}"] at by (force simp: area_ok_def)+
  have "map_counts P1 ! i = map_counts (page_pool (dbroot db ! 0)) ! i"
    using P1(2) by simp
  then have count: "pf_mapcnt (array P1 ! i) = 0"
    using unmapped i(2) len by (simp add: map_counts_def)
  obtain P2 fl2 where free: "pgif_free_page base kv ?db c = Some (set_pool 0 P2 ?db, c)"
    "area_ok (set_pool 0 P2 ?db) 0 fl2" "free_frames fl2 = free_frames fl1 \<union> block order i"
    using free_last_page_run [OF ok1(1), of i kv base c] at ent i P1(1) count
    by (auto simp: allocated_def REFCNT_INITIAL_VAL_def)
  have mem: "(if flags AND KM_SFLAGS_CLR_NONE = 0 then clear_memory kv (push_bit order PAGE_SIZE) mem else mem) =
      (if flags AND KM_SFLAGS_CLR_NONE = 0 then (\<lambda>a. if a - kv < push_bit order 4096 then 0 else mem a) else mem)"
    by (simp add: clear_memory_def PAGE_SIZE_def)
  have "free_frames fl2 = free_frames fl"
    using free(3) ok1(2) i(4) by blast
  then show ?thesis
    unfolding if_P [OF True] using get [unfolded mem] i ok1 free(1,2)
    by (intro exI [of _ i] exI [of _ kv] exI [of _ ?db] exI [of _ fl1] exI [of _ "set_pool 0 P2 ?db"] exI [of _ fl2]
        exI [of _ "if flags AND KM_SFLAGS_CLR_NONE = 0 then (\<lambda>a. if a - kv < push_bit order 4096 then 0 else mem a) else mem"])
      simp
qed

text \<open>Seven free frames and a reserved one.\<close>

definition spare_db :: page_frame_db where
  "spare_db = \<lparr>db_lock = spinlock_init,
     dbroot = [\<lparr>pe_kvaddr = 0x80010000, pe_length = 0x8000, min_pfn = 16, max_pfn = 24, page_pool = released_pool (\<lambda>i. i = 7)\<rparr>]\<rparr>"

lemma spare_db_ok: "\<exists>fl. area_ok spare_db 0 fl \<and> free_frames fl = {..<7}"
proof -
  obtain fl where "pool_inv {} fl (released_pool (\<lambda>i. i = 7))" "free_frames fl = {i. i < 8 \<and> i \<noteq> 7}"
    "lock_free (pool_lock (released_pool (\<lambda>i. i = 7)))" "nr_pages (released_pool (\<lambda>i. i = 7)) = 8"
    using released_pool_inv [of "\<lambda>i. i = 7"] by blast
  moreover have "{i. i < 8 \<and> i \<noteq> 7} = {..<7::nat}" by auto
  ultimately show ?thesis
    by (intro exI [of _ fl]) (simp add: area_ok_def spare_db_def tree_ordered_def)
qed

theorem page_alloc_free_witness:
  "\<exists>kv db1 mem1 db2. pgif_get_free_page_cluster 0x80000000 1 0 PAGE_STATE_UCASE_ANON spare_db (\<lambda>_. 7) sample_cpu =
      Some (Inr kv, db1, mem1, sample_cpu) \<and> mem1 kv = 0 \<and>
    pgif_free_page 0x80000000 kv db1 sample_cpu = Some (db2, sample_cpu)"
proof -
  obtain fl where fl: "area_ok spare_db 0 fl" "free_frames fl = {..<7}"
    using spare_db_ok by blast
  have ent: "length (dbroot spare_db) = 1" "min_pfn (dbroot spare_db ! 0) = 16" "max_pfn (dbroot spare_db ! 0) = 24"
    "pool_min_pfn (page_pool (dbroot spare_db ! 0)) = 16"
    "\<forall>i<8. pf_mapcnt (array (page_pool (dbroot spare_db ! 0)) ! i) = 0"
    by code_simp+
  have "24 - 16 - 1 \<notin> free_frames fl" using fl(2) by simp
  moreover have "\<exists>j. (2::nat) ^ 1 dvd j \<and> block 1 j \<subseteq> free_frames fl"
    unfolding fl(2) by (intro exI [of _ 0]) (auto simp: block_def)
  moreover have "PAGE_STATE_UCASE_ANON \<in> page_usages" by (simp add: page_usages_def)
  ultimately show ?thesis
    using page_alloc_free [OF fl(1) ent(1-4), where base = "0x80000000" and usage = PAGE_STATE_UCASE_ANON
        and order = 1 and flags = 0 and mem = "\<lambda>_. 7" and c = sample_cpu] ent(5)
    by (auto simp: PAGE_POOL_MAX_ORDER_def)
qed

end
