(* ===== verification/Pgtbl.thy ===== *)
theory Pgtbl
  imports PageAlloc
begin

unbundle bit_operations_syntax

text \<open>
  The Sv39 page tables of hal/riscv64/rv64-pgtbl.c, with the macros of rv64-pgtbl.h and the page
  allocation of kern/vm-pgtbl.c, over the page frame database and the memory. A table is a page of
  512 entries of 8 bytes in memory, given by its kernel address; its use count is one more than the
  number of its valid entries. \<open>base\<close> is the configured \<open>HAL_KERN_VMA_BASE\<close>. The translation
  look-aside buffer is not part of the state.
\<close>

section \<open>Memory and state\<close>

record pmem =
  pm_db :: page_frame_db
  pm_ram :: "u64 \<Rightarrow> u8"
  pm_cpu :: cpu

text \<open>The part of \<open>vm_pgtbl_type\<close> that the page table code uses.\<close>

record vm_pgtbl_type =
  pgtbl_base :: u64
  tblbase_paddr :: u64
  pgtbl_nr_pages :: u64
  satp :: u64

text \<open>Access to a 64-bit word, in little-endian order.\<close>

definition read64 :: "(u64 \<Rightarrow> u8) \<Rightarrow> u64 \<Rightarrow> u64" where
  "read64 ram a = ucast (ram a) OR push_bit 8 (ucast (ram (a + 1))) OR push_bit 16 (ucast (ram (a + 2)))
     OR push_bit 24 (ucast (ram (a + 3))) OR push_bit 32 (ucast (ram (a + 4))) OR push_bit 40 (ucast (ram (a + 5)))
     OR push_bit 48 (ucast (ram (a + 6))) OR push_bit 56 (ucast (ram (a + 7)))"

definition write64 :: "u64 \<Rightarrow> u64 \<Rightarrow> (u64 \<Rightarrow> u8) \<Rightarrow> u64 \<Rightarrow> u8" where
  "write64 a v ram = (\<lambda>x. if x - a < 8 then ucast (drop_bit (8 * unat (x - a)) v) else ram x)"

definition table_read :: "(u64 \<Rightarrow> u8) \<Rightarrow> u64 \<Rightarrow> nat \<Rightarrow> u64" where
  "table_read ram tbl idx = read64 ram (tbl + 8 * of_nat idx)"

definition table_write :: "u64 \<Rightarrow> nat \<Rightarrow> u64 \<Rightarrow> (u64 \<Rightarrow> u8) \<Rightarrow> u64 \<Rightarrow> u8" where
  "table_write tbl idx pte ram = write64 (tbl + 8 * of_nat idx) pte ram"

section \<open>Layout of addresses and entries (rv64-pgtbl.h)\<close>

definition RV64_PGTBL_LVL_NR :: nat where "RV64_PGTBL_LVL_NR = 3"

definition RV64_PGTBL_INDEX_BITS :: nat where "RV64_PGTBL_INDEX_BITS = 9"

definition RV64_PGTBL_LINER_ADDR_BITS :: nat where "RV64_PGTBL_LINER_ADDR_BITS = 39"

definition rv64_pgtbl_vpn_lvl_to_indexshift :: "nat \<Rightarrow> nat" where
  "rv64_pgtbl_vpn_lvl_to_indexshift lvl =
     RV64_PGTBL_LINER_ADDR_BITS - (RV64_PGTBL_LVL_NR - lvl) * RV64_PGTBL_INDEX_BITS"

definition rv64_pgtbl_vpn_lvl_to_indexmask :: "nat \<Rightarrow> u64" where
  "rv64_pgtbl_vpn_lvl_to_indexmask lvl =
     push_bit (rv64_pgtbl_vpn_lvl_to_indexshift (lvl + 1) - rv64_pgtbl_vpn_lvl_to_indexshift lvl) 1 - 1"

definition rv64_pgtbl_calc_index_val :: "u64 \<Rightarrow> nat \<Rightarrow> nat" where
  "rv64_pgtbl_calc_index_val vaddr lvl =
     unat (drop_bit (rv64_pgtbl_vpn_lvl_to_indexshift lvl) vaddr AND rv64_pgtbl_vpn_lvl_to_indexmask lvl)"

definition rv64_pgtbl_calc_pagesize :: "nat \<Rightarrow> u64" where
  "rv64_pgtbl_calc_pagesize lvl = push_bit (rv64_pgtbl_vpn_lvl_to_indexshift lvl) 1"

definition HAL_PAGE_SIZE_2M :: u64 where "HAL_PAGE_SIZE_2M = push_bit 21 1"

definition HAL_PAGE_SIZE_1G :: u64 where "HAL_PAGE_SIZE_1G = push_bit 30 1"

definition PAGE_ALIGNED_COMMON :: "u64 \<Rightarrow> u64 \<Rightarrow> bool" where
  "PAGE_ALIGNED_COMMON addr pgsiz \<longleftrightarrow> addr AND (pgsiz - 1) = 0"

definition RV64_PPN_MASK :: u64 where "RV64_PPN_MASK = push_bit (55 - 12 + 1) 1 - 1"

definition RV64_PTE_V :: u64 where "RV64_PTE_V = push_bit 0 1"
definition RV64_PTE_R :: u64 where "RV64_PTE_R = push_bit 1 1"
definition RV64_PTE_W :: u64 where "RV64_PTE_W = push_bit 2 1"
definition RV64_PTE_X :: u64 where "RV64_PTE_X = push_bit 3 1"
definition RV64_PTE_U :: u64 where "RV64_PTE_U = push_bit 4 1"
definition RV64_PTE_G :: u64 where "RV64_PTE_G = push_bit 5 1"
definition RV64_PTE_A :: u64 where "RV64_PTE_A = push_bit 6 1"
definition RV64_PTE_D :: u64 where "RV64_PTE_D = push_bit 7 1"

definition PV64_PTE_FLAGS_MASK :: u64 where
  "PV64_PTE_FLAGS_MASK = RV64_PTE_V OR RV64_PTE_R OR RV64_PTE_W OR RV64_PTE_X OR
     RV64_PTE_U OR RV64_PTE_G OR RV64_PTE_A OR RV64_PTE_D"

definition RV64_PTE_PGTBL_FLAGS :: u64 where
  "RV64_PTE_PGTBL_FLAGS = RV64_PTE_A OR RV64_PTE_D"

definition RV64_PTE_PADDR_TO_PPN :: "u64 \<Rightarrow> u64" where
  "RV64_PTE_PADDR_TO_PPN pa = push_bit 10 (RV64_PPN_MASK AND drop_bit PAGE_SHIFT pa)"

definition RV64_PTE_TO_PADDR :: "u64 \<Rightarrow> u64" where
  "RV64_PTE_TO_PADDR pte = push_bit PAGE_SHIFT (RV64_PPN_MASK AND drop_bit 10 pte)"

definition RV64_PTE_FLAGS :: "u64 \<Rightarrow> u64" where
  "RV64_PTE_FLAGS pte = pte AND PV64_PTE_FLAGS_MASK"

definition RV64_PTE_IS_VALID :: "u64 \<Rightarrow> bool" where
  "RV64_PTE_IS_VALID pte \<longleftrightarrow> RV64_PTE_FLAGS pte AND RV64_PTE_V \<noteq> 0"

definition RV64_PTE_IS_LEAF :: "u64 \<Rightarrow> bool" where
  "RV64_PTE_IS_LEAF pte \<longleftrightarrow> RV64_PTE_FLAGS pte AND (RV64_PTE_R OR RV64_PTE_W OR RV64_PTE_X) \<noteq> 0"

definition RV64_SATP_MODE_SV39 :: u64 where "RV64_SATP_MODE_SV39 = push_bit 60 8"

definition RV64_SATP_VAL :: "u64 \<Rightarrow> u64 \<Rightarrow> u64 \<Rightarrow> u64" where
  "RV64_SATP_VAL mode asid ppn = mode OR push_bit 44 asid OR push_bit 0 ppn"

section \<open>Protection and attributes (vm-if.h)\<close>

definition VM_PROT_NONE :: u32 where "VM_PROT_NONE = 0"
definition VM_PROT_READ :: u32 where "VM_PROT_READ = 1"
definition VM_PROT_WRITE :: u32 where "VM_PROT_WRITE = 2"
definition VM_PROT_EXECUTE :: u32 where "VM_PROT_EXECUTE = 4"
definition VM_FLAGS_NONE :: u32 where "VM_FLAGS_NONE = 0"
definition VM_FLAGS_WIRED :: u32 where "VM_FLAGS_WIRED = push_bit 8 0x1"
definition VM_FLAGS_UNMANAGED :: u32 where "VM_FLAGS_UNMANAGED = push_bit 8 0x2"
definition VM_FLAGS_SUPERVISOR :: u32 where "VM_FLAGS_SUPERVISOR = push_bit 8 0x8"
definition VM_FLAGS_DIRTY :: u32 where "VM_FLAGS_DIRTY = push_bit 8 0x100"
definition VM_FLAGS_ACCESSED :: u32 where "VM_FLAGS_ACCESSED = push_bit 8 0x200"

text \<open>The values written through the pointers are the result.\<close>

definition pte_to_vmprot_and_vmflags :: "u64 \<Rightarrow> u32 \<times> u32" where
  "pte_to_vmprot_and_vmflags pte =
     (if \<not> RV64_PTE_IS_VALID pte then (VM_PROT_NONE, VM_FLAGS_NONE)
      else
        (VM_PROT_NONE
           OR (if RV64_PTE_FLAGS pte AND RV64_PTE_R \<noteq> 0 then VM_PROT_READ else 0)
           OR (if RV64_PTE_FLAGS pte AND RV64_PTE_W \<noteq> 0 then VM_PROT_WRITE else 0)
           OR (if RV64_PTE_FLAGS pte AND RV64_PTE_X \<noteq> 0 then VM_PROT_EXECUTE else 0),
         VM_FLAGS_NONE
           OR (if RV64_PTE_FLAGS pte AND RV64_PTE_U = 0 then VM_FLAGS_SUPERVISOR else 0)
           OR (if RV64_PTE_FLAGS pte AND RV64_PTE_A \<noteq> 0 then VM_FLAGS_ACCESSED else 0)
           OR (if RV64_PTE_FLAGS pte AND RV64_PTE_D \<noteq> 0 then VM_FLAGS_DIRTY else 0)))"

definition vmprot_and_vmflags_to_pte :: "u32 \<Rightarrow> u32 \<Rightarrow> u64" where
  "vmprot_and_vmflags_to_pte prot flgs =
     0 OR (if prot AND VM_PROT_READ \<noteq> 0 then RV64_PTE_R else 0)
       OR (if prot AND VM_PROT_WRITE \<noteq> 0 then RV64_PTE_W else 0)
       OR (if prot AND VM_PROT_EXECUTE \<noteq> 0 then RV64_PTE_X else 0)
       OR (if flgs AND VM_FLAGS_SUPERVISOR = 0 then RV64_PTE_U else 0)
       OR (if flgs AND VM_FLAGS_ACCESSED \<noteq> 0 then RV64_PTE_A else 0)
       OR (if flgs AND VM_FLAGS_DIRTY \<noteq> 0 then RV64_PTE_D else 0)"

section \<open>Walking the tables\<close>

type_synonym mapping_info = "u64 \<times> u32 \<times> u32 \<times> u64"

text \<open>The result of the function, and the next table, which is only set for \<open>EAGAIN\<close>.\<close>

definition walk_pgtbl ::
    "u64 \<Rightarrow> (u64 \<Rightarrow> u8) \<Rightarrow> u64 \<Rightarrow> nat \<Rightarrow> u64 \<Rightarrow> ((errno + mapping_info) \<times> u64 option) option" where
  "walk_pgtbl base ram kvtbl lvl vaddr = do {
     kassert (lvl \<le> RV64_PGTBL_LVL_NR - 1);
     let idx = rv64_pgtbl_calc_index_val vaddr lvl;
     let pte = table_read ram kvtbl idx;
     if \<not> RV64_PTE_IS_VALID pte then Some (Inl ENOENT, None)
     else do {
       let paddr = RV64_PTE_TO_PADDR pte;
       case pfdb_paddr_to_kvaddr base paddr of
         Inl _ \<Rightarrow> None
       | Inr kvaddr \<Rightarrow>
           if \<not> RV64_PTE_IS_LEAF pte then Some (Inl EAGAIN, Some kvaddr)
           else (let (prot, flgs) = pte_to_vmprot_and_vmflags pte;
                     pgsize = rv64_pgtbl_calc_pagesize lvl
                 in Some (Inr (paddr, prot, flgs, pgsize), None))
     }
   }"

text \<open>The loop over the levels; \<open>lvl\<close> counts down from \<open>RV64_PGTBL_LVL_NR\<close>.\<close>

fun extract_loop :: "u64 \<Rightarrow> (u64 \<Rightarrow> u8) \<Rightarrow> u64 \<Rightarrow> u64 \<Rightarrow> nat \<Rightarrow> (errno + mapping_info) option" where
  "extract_loop base ram vaddr cur_tbl 0 = Some (Inl EAGAIN)"
| "extract_loop base ram vaddr cur_tbl (Suc lvl) = do {
     (rc, next_tbl) \<leftarrow> walk_pgtbl base ram cur_tbl lvl vaddr;
     if rc \<noteq> Inl EAGAIN then Some rc
     else do { tbl \<leftarrow> next_tbl; extract_loop base ram vaddr tbl lvl }
   }"

definition hal_pgtbl_extract :: "u64 \<Rightarrow> (u64 \<Rightarrow> u8) \<Rightarrow> vm_pgtbl_type \<Rightarrow> u64 \<Rightarrow> (errno + mapping_info) option" where
  "hal_pgtbl_extract base ram pgt vaddr = extract_loop base ram vaddr (pgtbl_base pgt) RV64_PGTBL_LVL_NR"


section \<open>Changing the tables\<close>

text \<open>The frame that contains a kernel address; the use counts of a frame in the database.\<close>

definition frame_of :: "u64 \<Rightarrow> u64 \<Rightarrow> pmem \<Rightarrow> ((nat \<times> nat) \<times> pmem) option" where
  "frame_of base kvaddr pm = do {
     (rc, db, c) \<leftarrow> pfdb_kvaddr_to_page_frame base kvaddr (pm_db pm) (pm_cpu pm);
     case rc of Inl _ \<Rightarrow> None | Inr pf \<Rightarrow> Some (pf, pm\<lparr>pm_db := db, pm_cpu := c\<rparr>)
   }"

definition frame_at :: "nat \<times> nat \<Rightarrow> pmem \<Rightarrow> page_frame" where
  "frame_at pf pm = (case pf of (e, i) \<Rightarrow> array (page_pool (dbroot (pm_db pm) ! e)) ! i)"

definition inc_use_count :: "nat \<times> nat \<Rightarrow> pmem \<Rightarrow> (bool \<times> pmem) option" where
  "inc_use_count pf pm = (case pf of (e, i) \<Rightarrow> do {
     let pool = page_pool (dbroot (pm_db pm) ! e);
     (res, frame) \<leftarrow> pfdb_inc_page_use_count (array pool ! i);
     Some (res, pm\<lparr>pm_db := set_pool e (upd_page i (\<lambda>_. frame) pool) (pm_db pm)\<rparr>)
   })"

definition dec_use_count :: "nat \<times> nat \<Rightarrow> pmem \<Rightarrow> (bool \<times> pmem) option" where
  "dec_use_count pf pm = (case pf of (e, i) \<Rightarrow> do {
     (res, pool, c) \<leftarrow> pfdb_dec_page_use_count i (page_pool (dbroot (pm_db pm) ! e)) (pm_cpu pm);
     Some (res, pm\<lparr>pm_db := set_pool e pool (pm_db pm), pm_cpu := c\<rparr>)
   })"

definition KMALLOC_NORMAL :: u32 where "KMALLOC_NORMAL = 0"

definition pgtbl_alloc_pgtbl_page ::
    "u64 \<Rightarrow> vm_pgtbl_type \<Rightarrow> pmem \<Rightarrow> ((errno + u64 \<times> u64) \<times> vm_pgtbl_type \<times> pmem) option" where
  "pgtbl_alloc_pgtbl_page base pgt pm = do {
     (rc, db, ram, c) \<leftarrow> pgif_get_free_page base KMALLOC_NORMAL PAGE_STATE_UCASE_PGTBL (pm_db pm) (pm_ram pm) (pm_cpu pm);
     let pm' = pm\<lparr>pm_db := db, pm_ram := ram, pm_cpu := c\<rparr>;
     case rc of
       Inl _ \<Rightarrow> Some (Inl ENOMEM, pgt, pm')
     | Inr tbl \<Rightarrow>
         (case hal_kvaddr_to_phys base tbl of
            Inl _ \<Rightarrow> None
          | Inr paddr \<Rightarrow>
              Some (Inr (tbl, paddr), pgt\<lparr>pgtbl_nr_pages := snd (statcnt_inc (pgtbl_nr_pages pgt))\<rparr>, pm'))
   }"

text \<open>The first loop of \<open>remove_table_reference\<close>: the level it ends at and the tables it passes.\<close>

fun find_tables ::
    "u64 \<Rightarrow> (u64 \<Rightarrow> u8) \<Rightarrow> u64 \<Rightarrow> u64 \<Rightarrow> nat \<Rightarrow> (nat \<Rightarrow> u64) \<Rightarrow> (nat \<times> (nat \<Rightarrow> u64)) option" where
  "find_tables base ram vaddr cur_tbl lvl pgtbl = do {
     let pte = table_read ram cur_tbl (rv64_pgtbl_calc_index_val vaddr lvl);
     kassert (RV64_PTE_IS_VALID pte);
     let pgtbl' = pgtbl(lvl := cur_tbl);
     case lvl of
       0 \<Rightarrow> Some (0, pgtbl')
     | Suc l \<Rightarrow>
         if RV64_PTE_IS_LEAF pte then Some (lvl, pgtbl')
         else (case pfdb_paddr_to_kvaddr base (RV64_PTE_TO_PADDR pte) of
                 Inl _ \<Rightarrow> None
               | Inr tbl \<Rightarrow> find_tables base ram vaddr tbl l pgtbl')
   }"

text \<open>The second loop, over the levels that are left.\<close>

fun drop_references ::
    "u64 \<Rightarrow> u64 \<Rightarrow> (nat \<Rightarrow> u64) \<Rightarrow> nat \<Rightarrow> nat list \<Rightarrow> vm_pgtbl_type \<Rightarrow> pmem \<Rightarrow> (vm_pgtbl_type \<times> pmem) option" where
  "drop_references base vaddr pgtbl min_lvl [] pgt pm = Some (pgt, pm)"
| "drop_references base vaddr pgtbl min_lvl (lvl # lvls) pgt pm = do {
     let cur_tbl = pgtbl lvl;
     let idx = rv64_pgtbl_calc_index_val vaddr lvl;
     let pte = table_read (pm_ram pm) cur_tbl idx;
     let low_paddr = RV64_PTE_TO_PADDR pte;
     let pm1 = pm\<lparr>pm_ram := table_write cur_tbl idx (RV64_PTE_PADDR_TO_PPN 0) (pm_ram pm)\<rparr>;
     (tbl_pf, pm2) \<leftarrow> frame_of base cur_tbl pm1;
     (_, pm3) \<leftarrow> dec_use_count tbl_pf pm2;
     if 1 <s pfdb_ref_page_use_count (frame_at tbl_pf pm3) then Some (pgt, pm3)
     else if lvl > min_lvl then
       (case pfdb_paddr_to_kvaddr base low_paddr of
          Inl _ \<Rightarrow> None
        | Inr low_tbl \<Rightarrow> do {
            (low_pf, pm4) \<leftarrow> frame_of base low_tbl pm3;
            (res, pm5) \<leftarrow> dec_use_count low_pf pm4;
            kassert res;
            drop_references base vaddr pgtbl min_lvl lvls
              (pgt\<lparr>pgtbl_nr_pages := snd (statcnt_dec (pgtbl_nr_pages pgt))\<rparr>) pm5
          })
     else drop_references base vaddr pgtbl min_lvl lvls pgt pm3
   }"

definition remove_table_reference :: "u64 \<Rightarrow> u64 \<Rightarrow> vm_pgtbl_type \<Rightarrow> pmem \<Rightarrow> (vm_pgtbl_type \<times> pmem) option" where
  "remove_table_reference base vaddr pgt pm = do {
     (lvl, pgtbl) \<leftarrow> find_tables base (pm_ram pm) vaddr (pgtbl_base pgt) (RV64_PGTBL_LVL_NR - 1) (\<lambda>_. 0);
     drop_references base vaddr pgtbl lvl [lvl..<RV64_PGTBL_LVL_NR] pgt pm
   }"

text \<open>The result, whether a table has changed, and the next table, which is not set for a mapped page.\<close>

definition grow_pgtbl ::
    "u64 \<Rightarrow> u64 \<Rightarrow> nat \<Rightarrow> u64 \<Rightarrow> u64 \<Rightarrow> u32 \<Rightarrow> u32 \<Rightarrow> u64 \<Rightarrow> vm_pgtbl_type \<Rightarrow> pmem \<Rightarrow>
     ((errno + u64 option) \<times> bool \<times> vm_pgtbl_type \<times> pmem) option" where
  "grow_pgtbl base kvtbl lvl vaddr paddr prot flgs pgsize pgt pm = do {
     kassert (lvl \<le> RV64_PGTBL_LVL_NR - 1);
     let idx = rv64_pgtbl_calc_index_val vaddr lvl;
     let cur_pte = table_read (pm_ram pm) kvtbl idx;
     (pf, pm1) \<leftarrow> frame_of base kvtbl pm;
     if RV64_PTE_IS_VALID cur_pte then
       if rv64_pgtbl_calc_pagesize lvl = pgsize then Some (Inl EBUSY, False, pgt, pm1)
       else (case pfdb_paddr_to_kvaddr base (RV64_PTE_TO_PADDR cur_pte) of
               Inl _ \<Rightarrow> None
             | Inr tbl \<Rightarrow> Some (Inr (Some tbl), False, pgt, pm1))
     else if rv64_pgtbl_calc_pagesize lvl = pgsize then do {
       let new_pte = vmprot_and_vmflags_to_pte prot flgs OR (RV64_PTE_V OR RV64_PTE_PADDR_TO_PPN paddr);
       let pm2 = pm1\<lparr>pm_ram := table_write kvtbl idx new_pte (pm_ram pm1)\<rparr>;
       (res, pm3) \<leftarrow> inc_use_count pf pm2;
       kassert res;
       Some (Inr None, True, pgt, pm3)
     }
     else do {
       (rc, pgt2, pm2) \<leftarrow> pgtbl_alloc_pgtbl_page base pgt pm1;
       case rc of
         Inl _ \<Rightarrow> Some (Inl ENOMEM, False, pgt2, pm2)
       | Inr (_, new_paddr) \<Rightarrow> do {
           (res, pm3) \<leftarrow> inc_use_count pf pm2;
           kassert res;
           let new_pte = RV64_PTE_V OR RV64_PTE_PGTBL_FLAGS OR RV64_PTE_PADDR_TO_PPN new_paddr;
           let pm4 = pm3\<lparr>pm_ram := table_write kvtbl idx new_pte (pm_ram pm3)\<rparr>;
           case pfdb_paddr_to_kvaddr base new_paddr of
             Inl _ \<Rightarrow> None
           | Inr tbl \<Rightarrow> Some (Inr (Some tbl), True, pgt2, pm4)
         }
     }
   }"

text \<open>The loop of \<open>map_vaddr_to_paddr\<close>; \<open>lvl\<close> counts down from \<open>RV64_PGTBL_LVL_NR\<close>.\<close>

fun grow_loop ::
    "u64 \<Rightarrow> u64 \<Rightarrow> u64 \<Rightarrow> u64 \<Rightarrow> u32 \<Rightarrow> u32 \<Rightarrow> u64 \<Rightarrow> nat \<Rightarrow> vm_pgtbl_type \<Rightarrow> pmem \<Rightarrow>
     ((errno + unit) \<times> vm_pgtbl_type \<times> pmem) option" where
  "grow_loop base cur_tbl vaddr paddr prot flgs pgsize 0 pgt pm = Some (Inr (), pgt, pm)"
| "grow_loop base cur_tbl vaddr paddr prot flgs pgsize (Suc lvl) pgt pm = do {
     (rc, _, pgt', pm') \<leftarrow> grow_pgtbl base cur_tbl lvl vaddr paddr prot flgs pgsize pgt pm;
     case rc of
       Inl e \<Rightarrow> Some (Inl e, pgt', pm')
     | Inr next_tbl \<Rightarrow>
         if pgsize = rv64_pgtbl_calc_pagesize lvl then Some (Inr (), pgt', pm')
         else do { tbl \<leftarrow> next_tbl; grow_loop base tbl vaddr paddr prot flgs pgsize lvl pgt' pm' }
   }"

definition map_vaddr_to_paddr ::
    "u64 \<Rightarrow> u64 \<Rightarrow> u64 \<Rightarrow> u32 \<Rightarrow> u32 \<Rightarrow> u64 \<Rightarrow> vm_pgtbl_type \<Rightarrow> pmem \<Rightarrow>
     ((errno + unit) \<times> vm_pgtbl_type \<times> pmem) option" where
  "map_vaddr_to_paddr base vaddr paddr prot flgs pgsize pgt pm =
     (if pgsize = HAL_PAGE_SIZE_1G \<and>
         (\<not> PAGE_ALIGNED_COMMON vaddr HAL_PAGE_SIZE_1G \<or> \<not> PAGE_ALIGNED_COMMON paddr HAL_PAGE_SIZE_1G)
      then Some (Inl EINVAL, pgt, pm)
      else if pgsize = HAL_PAGE_SIZE_2M \<and>
         (\<not> PAGE_ALIGNED_COMMON vaddr HAL_PAGE_SIZE_2M \<or> \<not> PAGE_ALIGNED_COMMON paddr HAL_PAGE_SIZE_2M)
      then Some (Inl EINVAL, pgt, pm)
      else if pgsize = PAGE_SIZE \<and>
         (\<not> PAGE_ALIGNED_COMMON vaddr PAGE_SIZE \<or> \<not> PAGE_ALIGNED_COMMON paddr PAGE_SIZE)
      then Some (Inl EINVAL, pgt, pm)
      else do {
        (rc, pgt1, pm1) \<leftarrow>
          grow_loop base (pgtbl_base pgt) vaddr paddr prot flgs pgsize RV64_PGTBL_LVL_NR pgt pm;
        (pgt2, pm2) \<leftarrow> (if rc = Inl ENOMEM then remove_table_reference base vaddr pgt1 pm1 else Some (pgt1, pm1));
        Some (rc, pgt2, pm2)
      })"

section \<open>Ranges of pages\<close>

partial_function (option) remove_loop ::
    "u64 \<Rightarrow> u32 \<Rightarrow> u64 \<Rightarrow> u64 \<Rightarrow> u64 \<Rightarrow> vm_pgtbl_type \<Rightarrow> pmem \<Rightarrow> (vm_pgtbl_type \<times> pmem) option" where
  "remove_loop base flgs vaddr_end cur_vaddr pgsize pgt pm =
     (if cur_vaddr < vaddr_end then do {
        rc \<leftarrow> hal_pgtbl_extract base (pm_ram pm) pgt cur_vaddr;
        let pgsize' = (case rc of Inl _ \<Rightarrow> pgsize | Inr (_, _, _, sz) \<Rightarrow> sz);
        pm1 \<leftarrow> (case rc of
            Inl _ \<Rightarrow> Some pm
          | Inr (paddr, _, _, _) \<Rightarrow>
              if flgs AND VM_FLAGS_UNMANAGED \<noteq> 0 then Some pm
              else (case pfdb_paddr_to_kvaddr base paddr of
                      Inl _ \<Rightarrow> None
                    | Inr kvaddr \<Rightarrow> do {
                        (pf, pm') \<leftarrow> frame_of base kvaddr pm;
                        (_, pm'') \<leftarrow> dec_use_count pf pm';
                        Some pm''
                      }));
        (pgt2, pm2) \<leftarrow> remove_table_reference base cur_vaddr pgt pm1;
        remove_loop base flgs vaddr_end (cur_vaddr + pgsize') pgsize' pgt2 pm2
      }
      else Some (pgt, pm))"

definition hal_pgtbl_remove :: "u64 \<Rightarrow> u64 \<Rightarrow> u32 \<Rightarrow> u64 \<Rightarrow> vm_pgtbl_type \<Rightarrow> pmem \<Rightarrow> (vm_pgtbl_type \<times> pmem) option" where
  "hal_pgtbl_remove base vaddr flgs len pgt pm =
     (if \<not> PAGE_ALIGNED_COMMON vaddr PAGE_SIZE \<or> \<not> PAGE_ALIGNED_COMMON (vaddr + len) PAGE_SIZE
      then Some (pgt, pm)
      else remove_loop base flgs (vaddr + len) vaddr PAGE_SIZE pgt pm)"

partial_function (option) enter_loop ::
    "u64 \<Rightarrow> u32 \<Rightarrow> u32 \<Rightarrow> u64 \<Rightarrow> u64 \<Rightarrow> u64 \<Rightarrow> u64 \<Rightarrow> vm_pgtbl_type \<Rightarrow> pmem \<Rightarrow>
     ((errno + unit) \<times> vm_pgtbl_type \<times> pmem) option" where
  "enter_loop base prot flgs pgsize vaddr_end cur_vaddr cur_paddr pgt pm =
     (if cur_vaddr < vaddr_end then do {
        (rc, pgt', pm') \<leftarrow> map_vaddr_to_paddr base cur_vaddr cur_paddr prot flgs pgsize pgt pm;
        if rc \<noteq> Inr () then Some (rc, pgt', pm')
        else enter_loop base prot flgs pgsize vaddr_end (cur_vaddr + pgsize) (cur_paddr + pgsize) pgt' pm'
      }
      else Some (Inr (), pgt, pm))"

definition all_aligned :: "u64 list \<Rightarrow> u64 \<Rightarrow> bool" where
  "all_aligned addrs pgsize \<longleftrightarrow> (\<forall>a\<in>set addrs. PAGE_ALIGNED_COMMON a pgsize)"

definition enter_pgsize :: "u64 list \<Rightarrow> u64" where
  "enter_pgsize addrs =
     (if all_aligned addrs HAL_PAGE_SIZE_1G then HAL_PAGE_SIZE_1G
      else if all_aligned addrs HAL_PAGE_SIZE_2M then HAL_PAGE_SIZE_2M else PAGE_SIZE)"

definition hal_pgtbl_enter ::
    "u64 \<Rightarrow> u64 \<Rightarrow> u64 \<Rightarrow> u32 \<Rightarrow> u32 \<Rightarrow> u64 \<Rightarrow> vm_pgtbl_type \<Rightarrow> pmem \<Rightarrow>
     ((errno + unit) \<times> vm_pgtbl_type \<times> pmem) option" where
  "hal_pgtbl_enter base vaddr paddr prot flgs len pgt pm = (
     let addrs = [vaddr, paddr, vaddr + len, paddr + len]
     in do {
       kassert (all_aligned addrs PAGE_SIZE);
       enter_loop base prot flgs (enter_pgsize addrs) (vaddr + len) vaddr paddr pgt pm
     })"

section \<open>A new page table\<close>

definition hal_pgtbl_init :: "vm_pgtbl_type \<Rightarrow> vm_pgtbl_type" where
  "hal_pgtbl_init pgt =
     pgt\<lparr>satp := RV64_SATP_VAL RV64_SATP_MODE_SV39 0 (drop_bit PAGE_SHIFT (tblbase_paddr pgt))\<rparr>"

text \<open>\<open>vm_copy_kmap_page\<close> (kern/vm-copy.c) copies a page word by word.\<close>

definition vm_copy_kmap_page :: "u64 \<Rightarrow> u64 \<Rightarrow> (u64 \<Rightarrow> u8) \<Rightarrow> u64 \<Rightarrow> u8" where
  "vm_copy_kmap_page dest src ram =
     fold (\<lambda>i r. table_write (PAGE_TRUNCATE dest) i (table_read r (PAGE_TRUNCATE src) i) r) [0..<4096 div 8] ram"

end
