(* ===== verification/PgtblEntries.thy ===== *)
theory PgtblEntries
  imports Pgtbl
begin

unbundle bit_operations_syntax

text \<open>
  Page table entries: the words of a table in memory, what the flag and address fields of an entry
  hold, and the round trip of protection and flags through an entry.
\<close>

section \<open>Words in memory\<close>

lemma bit_shifted_byte:
  "bit (push_bit (8 * k) (ucast (b :: u8)) :: u64) n \<longleftrightarrow> n < 64 \<and> 8 * k \<le> n \<and> n < 8 * k + 8 \<and> bit b (n - 8 * k)"
  by (auto simp: bit_push_bit_iff bit_unsigned_iff dest: bit_imp_le_length)

lemma bit_read64:
  assumes "n < 64"
  shows "bit (read64 ram a) n \<longleftrightarrow> bit (ram (a + of_nat (n div 8))) (n mod 8)"
proof -
  define q r where "q = n div 8" and "r = n mod 8"
  then have n: "n = 8 * q + r" "r < 8" by auto
  note byte = bit_shifted_byte [of 0, simplified] bit_shifted_byte [of 1, simplified] bit_shifted_byte [of 2, simplified]
    bit_shifted_byte [of 3, simplified] bit_shifted_byte [of 4, simplified] bit_shifted_byte [of 5, simplified]
    bit_shifted_byte [of 6, simplified] bit_shifted_byte [of 7, simplified]
  have "q = 0 \<or> q = 1 \<or> q = 2 \<or> q = 3 \<or> q = 4 \<or> q = 5 \<or> q = 6 \<or> q = 7"
    using assms by (auto simp: q_def)
  then have "bit (read64 ram a) (8 * q + r) \<longleftrightarrow> bit (ram (a + of_nat q)) r"
    using n(2) by (elim disjE) (simp_all add: read64_def bit_or_iff byte)
  then show ?thesis by (simp add: q_def r_def)
qed

lemma read64_write64_same: "read64 (write64 a v ram) a = v"
proof (rule bit_word_eqI)
  fix n assume "n < LENGTH(64)"
  then have n: "n < 64" "n div 8 < 8" by simp_all
  have "unat (of_nat (n div 8) :: u64) = n div 8"
    using n(2) by (simp add: unat_of_nat)
  moreover have "8 * (n div 8) + n mod 8 = n" by simp
  ultimately show "bit (read64 (write64 a v ram) a) n = bit v n"
    using n by (simp add: bit_read64 write64_def word_less_nat_alt bit_unsigned_iff bit_drop_bit_eq)
qed

text \<open>Two words at addresses that are multiples of 8 are the same or apart.\<close>

lemma word_apart:
  assumes "8 dvd unat a" and "8 dvd unat b" and "k < 8"
  shows "b + of_nat k - a < (8 :: u64) \<longleftrightarrow> a = b"
proof -
  define d where "d = b - a"
  have "8 dvd unat d"
    using assms(1,2) unfolding d_def unat_sub_if_size by (auto simp: word_size dvd_diff_nat)
  then obtain q where q: "unat d = 8 * q" by (auto elim: dvdE)
  moreover have "unat d < 2 ^ 64" using unsigned_less [of d] by simp
  ultimately have "unat d + k < 2 ^ 64" using assms(3) by simp
  then have "unat (d + of_nat k) = unat d + k"
    using assms(3) by (simp add: unat_word_ariths unat_of_nat)
  then have "d + of_nat k < 8 \<longleftrightarrow> unat d + k < 8"
    by (simp add: word_less_nat_alt)
  also have "\<dots> \<longleftrightarrow> unat d = 0"
    using q assms(3) by auto
  also have "\<dots> \<longleftrightarrow> a = b"
    unfolding d_def by (auto simp: unat_eq_0)
  finally show ?thesis
    by (simp add: d_def algebra_simps)
qed

lemma read64_cong:
  assumes "\<And>k. k < 8 \<Longrightarrow> ram (a + of_nat k) = ram' (a + of_nat k)"
  shows "read64 ram a = read64 ram' a"
  by (rule bit_word_eqI) (simp add: bit_read64 assms)

lemma read64_write64_other:
  assumes "8 dvd unat a" "8 dvd unat b" "a \<noteq> b"
  shows "read64 (write64 a v ram) b = read64 ram b"
  by (rule read64_cong) (simp add: write64_def word_apart [OF assms(1,2)] assms(3))

text \<open>The entries of tables, which are at page addresses.\<close>

definition page_aligned :: "u64 \<Rightarrow> bool" where
  "page_aligned a \<longleftrightarrow> 4096 dvd unat a"

lemma entry_address:
  assumes "page_aligned t" and "i < 512"
  shows "unat (t + 8 * of_nat i) = unat t + 8 * i"
proof -
  obtain q where q: "unat t = 4096 * q" using assms(1) by (auto simp: page_aligned_def elim: dvdE)
  moreover have "unat t < 2 ^ 64" using unsigned_less [of t] by simp
  ultimately have "unat t + 8 * i < 2 ^ 64" using assms(2) by simp
  moreover have "unat (8 * of_nat i :: u64) = 8 * i"
    using assms(2) by (simp add: unat_word_ariths unat_of_nat)
  ultimately show ?thesis by (simp add: unat_word_ariths)
qed

lemma entry_address_eq:
  assumes "page_aligned t" "page_aligned t'" "i < 512" "i' < 512"
  shows "t + 8 * of_nat i = t' + 8 * of_nat i' \<longleftrightarrow> t = t' \<and> i = i'"
proof
  assume "t + 8 * of_nat i = t' + 8 * of_nat i'"
  then have eq: "unat t + 8 * i = unat t' + 8 * i'"
    using entry_address assms by metis
  obtain q q' where "unat t = 4096 * q" "unat t' = 4096 * q'"
    using assms(1,2) by (auto simp: page_aligned_def elim!: dvdE)
  then have "512 * q + i = 512 * q' + i'" using eq by simp
  then have "(512 * q + i) div 512 = (512 * q' + i') div 512" by simp
  then have "q = q'" using assms(3,4) by simp
  with eq \<open>unat t = _\<close> \<open>unat t' = _\<close> have "unat t = unat t'" "i = i'" by simp_all
  then show "t = t' \<and> i = i'" by (simp only: word_unat_eq_iff)
qed auto

lemma table_read_write:
  assumes "page_aligned t" "page_aligned t'" "i < 512" "i' < 512"
  shows "table_read (table_write t i v ram) t' i' = (if t' = t \<and> i' = i then v else table_read ram t' i')"
proof -
  have dvd: "page_aligned a \<Longrightarrow> j < 512 \<Longrightarrow> 8 dvd unat (a + 8 * of_nat j)" for a j
    by (subst entry_address, simp_all only:, unfold page_aligned_def)
      (intro dvd_add dvd_triv_left dvd_trans [of 8 4096 "unat a"], simp_all)
  have "8 dvd unat (t + 8 * of_nat i)" "8 dvd unat (t' + 8 * of_nat i')"
    by (rule dvd; fact)+
  then show ?thesis
    using read64_write64_other entry_address_eq [OF assms]
    by (auto simp: table_read_def table_write_def read64_write64_same)
qed

text \<open>Clearing a page clears a table there, and no other.\<close>

lemma table_read_clear:
  assumes "page_aligned t" "page_aligned t'" "i < 512"
  shows "table_read (clear_memory t' 4096 ram) t i = (if t = t' then 0 else table_read ram t i)"
proof -
  have off: "t + 8 * of_nat i + of_nat k - t' < 4096 \<longleftrightarrow> t = t'" if "k < 8" for k
  proof -
    obtain q q' where q: "unat t = 4096 * q" "unat t' = 4096 * q'"
      using assms(1,2) by (auto simp: page_aligned_def elim!: dvdE)
    have "unat (t - t') mod 4096 = 0"
      unfolding unat_sub_if_size using q by (auto simp: word_size mod_eq_0_iff_dvd dvd_diff_nat)
    then obtain p where p: "unat (t - t') = 4096 * p" by (auto simp: mod_eq_0_iff_dvd elim: dvdE)
    have "unat (of_nat (8 * i + k) :: u64) = 8 * i + k"
      by (rule unat_of_nat_less) (use assms(3) that in simp)
    moreover have "unat (t - t') < 2 ^ 64" using unsigned_less [of "t - t'"] by simp
    ultimately have "unat (t - t' + of_nat (8 * i + k)) = 4096 * p + (8 * i + k)"
      using p assms(3) that by (simp add: unat_word_ariths)
    moreover have "t + 8 * of_nat i + of_nat k - t' = t - t' + of_nat (8 * i + k)" by simp
    ultimately have "unat (t + 8 * of_nat i + of_nat k - t') = 4096 * p + (8 * i + k)"
      by (simp only:)
    then have "t + 8 * of_nat i + of_nat k - t' < 4096 \<longleftrightarrow> p = 0"
      using assms(3) that unfolding word_less_nat_alt by auto
    also have "\<dots> \<longleftrightarrow> t = t'"
      using p by (auto simp: unat_eq_0)
    finally show ?thesis .
  qed
  show ?thesis
  proof (cases "t = t'")
    case True
    then show ?thesis
      using off by (auto simp: table_read_def clear_memory_def bit_read64 intro!: bit_word_eqI)
  next
    case False
    then show ?thesis
      using off by (auto simp: table_read_def clear_memory_def intro!: read64_cong)
  qed
qed


section \<open>Entries\<close>

lemma pte_consts:
  "RV64_PTE_V = 1" "RV64_PTE_R = 2" "RV64_PTE_W = 4" "RV64_PTE_X = 8" "RV64_PTE_U = 16" "RV64_PTE_G = 32"
  "RV64_PTE_A = 64" "RV64_PTE_D = 128" "PV64_PTE_FLAGS_MASK = mask 8" "RV64_PPN_MASK = mask 44"
  by (simp_all add: RV64_PTE_V_def RV64_PTE_R_def RV64_PTE_W_def RV64_PTE_X_def RV64_PTE_U_def RV64_PTE_G_def
      RV64_PTE_A_def RV64_PTE_D_def PV64_PTE_FLAGS_MASK_def RV64_PPN_MASK_def mask_eq_exp_minus_1 push_bit_eq_mult)

lemma vm_consts:
  "VM_PROT_NONE = 0" "VM_PROT_READ = 1" "VM_PROT_WRITE = 2" "VM_PROT_EXECUTE = 4" "VM_FLAGS_NONE = 0"
  "VM_FLAGS_SUPERVISOR = 0x800" "VM_FLAGS_DIRTY = 0x10000" "VM_FLAGS_ACCESSED = 0x20000"
  by (simp_all add: VM_PROT_NONE_def VM_PROT_READ_def VM_PROT_WRITE_def VM_PROT_EXECUTE_def VM_FLAGS_NONE_def
      VM_FLAGS_SUPERVISOR_def VM_FLAGS_DIRTY_def VM_FLAGS_ACCESSED_def)

lemma pte_flags_ppn:
  assumes "a AND mask 8 = a"
  shows "RV64_PTE_FLAGS (a OR RV64_PTE_PADDR_TO_PPN pa) = a"
proof -
  have "(a OR push_bit 10 x) AND mask 8 = a AND mask 8" for x :: u64
    by (rule bit_word_eqI) (auto simp: bit_and_iff bit_or_iff bit_push_bit_iff bit_mask_iff)
  with assms show ?thesis
    unfolding RV64_PTE_FLAGS_def RV64_PTE_PADDR_TO_PPN_def pte_consts by (simp only:)
qed

lemma page_aligned_bits: "page_aligned pa \<Longrightarrow> n < 12 \<Longrightarrow> \<not> bit pa n"
proof -
  assume "page_aligned pa" "n < 12"
  then have "take_bit 12 (unat pa) = 0"
    by (simp add: page_aligned_def take_bit_eq_mod)
  then have "bit (take_bit 12 (unat pa)) n = False" by simp
  with \<open>n < 12\<close> show ?thesis by (simp add: bit_take_bit_iff bit_unsigned_iff)
qed

lemma high_bits: "unat (pa :: u64) < 2 ^ 56 \<Longrightarrow> bit pa n \<Longrightarrow> n < 56"
proof (rule ccontr)
  assume "unat pa < 2 ^ 56" "bit pa n" "\<not> n < 56"
  then have "take_bit 56 (unat pa) = unat pa" by (simp add: take_bit_nat_eq_self_iff)
  then have "bit (unat pa) n \<longleftrightarrow> bit (take_bit 56 (unat pa)) n" by simp
  with \<open>bit pa n\<close> \<open>\<not> n < 56\<close> show False
    by (simp add: bit_take_bit_iff bit_unsigned_iff)
qed

lemma pte_paddr:
  assumes "a AND mask 8 = a" and "page_aligned pa" and "unat pa < 2 ^ 56"
  shows "RV64_PTE_TO_PADDR (a OR RV64_PTE_PADDR_TO_PPN pa) = pa"
proof (rule bit_word_eqI)
  have a: "\<not> bit a n" if "n \<ge> 8" for n
    using assms(1) that by (metis bit_and_iff bit_mask_iff leD)
  fix n assume n: "n < LENGTH(64)"
  show "bit (RV64_PTE_TO_PADDR (a OR RV64_PTE_PADDR_TO_PPN pa)) n = bit pa n"
  proof (cases "n < 12")
    case True
    then show ?thesis
      using page_aligned_bits [OF assms(2)] by (simp add: RV64_PTE_TO_PADDR_def bit_push_bit_iff bit_and_iff PAGE_SHIFT_def)
  next
    case False
    then obtain m where m: "n = m + 12" by (metis le_add_diff_inverse2 not_less)
    then show ?thesis
      using n high_bits [OF assms(3), of n] a [of "m + 10"]
      by (auto simp: RV64_PTE_TO_PADDR_def RV64_PTE_PADDR_TO_PPN_def pte_consts bit_and_iff bit_or_iff
          bit_push_bit_iff bit_drop_bit_eq bit_mask_iff PAGE_SHIFT_def add.commute)
  qed
qed

text \<open>The entry for a page, and the entry for a table.\<close>

definition leaf_pte :: "u32 \<Rightarrow> u32 \<Rightarrow> u64 \<Rightarrow> u64" where
  "leaf_pte prot flgs paddr = vmprot_and_vmflags_to_pte prot flgs OR (RV64_PTE_V OR RV64_PTE_PADDR_TO_PPN paddr)"

definition table_pte :: "u64 \<Rightarrow> u64" where
  "table_pte paddr = RV64_PTE_V OR RV64_PTE_PGTBL_FLAGS OR RV64_PTE_PADDR_TO_PPN paddr"

lemma attr_bits:
  "(vmprot_and_vmflags_to_pte prot flgs OR RV64_PTE_V) AND mask 8 = vmprot_and_vmflags_to_pte prot flgs OR RV64_PTE_V"
  unfolding vmprot_and_vmflags_to_pte_def pte_consts
  by (simp add: mask_eq_exp_minus_1)

lemma leaf_pte_flags: "RV64_PTE_FLAGS (leaf_pte prot flgs pa) = vmprot_and_vmflags_to_pte prot flgs OR RV64_PTE_V"
  using pte_flags_ppn [OF attr_bits] by (simp add: leaf_pte_def or.assoc)

lemma leaf_pte_paddr: "page_aligned pa \<Longrightarrow> unat pa < 2 ^ 56 \<Longrightarrow> RV64_PTE_TO_PADDR (leaf_pte prot flgs pa) = pa"
  using pte_paddr [OF attr_bits] by (simp add: leaf_pte_def or.assoc)

lemma leaf_pte_valid [simp]: "RV64_PTE_IS_VALID (leaf_pte prot flgs pa)"
  unfolding RV64_PTE_IS_VALID_def leaf_pte_flags
  by (simp add: vmprot_and_vmflags_to_pte_def pte_consts)

lemma leaf_pte_leaf: "RV64_PTE_IS_LEAF (leaf_pte prot flgs pa) \<longleftrightarrow> prot AND 7 \<noteq> 0"
proof -
  have "prot AND 7 = 0 \<longleftrightarrow> prot AND 1 = 0 \<and> prot AND 2 = 0 \<and> prot AND 4 = 0"
  proof -
    have "(7 :: u32) = 1 OR 2 OR 4" by simp
    then show ?thesis by (simp only: bit.conj_disj_distrib or_eq_0_iff)
  qed
  then show ?thesis
    unfolding RV64_PTE_IS_LEAF_def leaf_pte_flags
    by (simp add: vmprot_and_vmflags_to_pte_def pte_consts vm_consts)
qed

lemma table_pte_facts:
  "RV64_PTE_IS_VALID (table_pte pa)" "\<not> RV64_PTE_IS_LEAF (table_pte pa)"
  "page_aligned pa \<Longrightarrow> unat pa < 2 ^ 56 \<Longrightarrow> RV64_PTE_TO_PADDR (table_pte pa) = pa"
proof -
  have a: "(RV64_PTE_V OR RV64_PTE_PGTBL_FLAGS) AND mask 8 = RV64_PTE_V OR RV64_PTE_PGTBL_FLAGS"
    by (simp add: pte_consts RV64_PTE_PGTBL_FLAGS_def mask_eq_exp_minus_1)
  have flags: "RV64_PTE_FLAGS (table_pte pa) = RV64_PTE_V OR RV64_PTE_PGTBL_FLAGS"
    using pte_flags_ppn [OF a] by (simp add: table_pte_def or.assoc)
  then show "RV64_PTE_IS_VALID (table_pte pa)" "\<not> RV64_PTE_IS_LEAF (table_pte pa)"
    by (simp_all add: RV64_PTE_IS_VALID_def RV64_PTE_IS_LEAF_def pte_consts RV64_PTE_PGTBL_FLAGS_def)
  show "page_aligned pa \<Longrightarrow> unat pa < 2 ^ 56 \<Longrightarrow> RV64_PTE_TO_PADDR (table_pte pa) = pa"
    using pte_paddr [OF a] by (simp add: table_pte_def or.assoc)
qed

lemma zero_pte: "\<not> RV64_PTE_IS_VALID 0"
  by (simp add: RV64_PTE_IS_VALID_def RV64_PTE_FLAGS_def)

text \<open>The attributes read back from an entry.\<close>

definition map_attrs :: "u32 \<Rightarrow> u32 \<Rightarrow> u32 \<times> u32" where
  "map_attrs prot flgs =
     (prot AND (VM_PROT_READ OR VM_PROT_WRITE OR VM_PROT_EXECUTE),
      flgs AND (VM_FLAGS_SUPERVISOR OR VM_FLAGS_ACCESSED OR VM_FLAGS_DIRTY))"

lemma select_bit: "(if x AND m \<noteq> 0 then m else 0) = x AND m" if "m = push_bit n (1 :: u32)"
proof (cases "x AND m = 0")
  case False
  then have "bit x n"
    using that by (simp add: bit_iff_and_push_bit_not_eq_0)
  then have "x AND m = m"
    unfolding that by (intro bit_word_eqI) (auto simp: bit_and_iff bit_exp_iff)
  with False show ?thesis by simp
qed simp

lemma leaf_pte_attrs: "pte_to_vmprot_and_vmflags (leaf_pte prot flgs pa) = map_attrs prot flgs"
proof -
  let ?a = "vmprot_and_vmflags_to_pte prot flgs OR RV64_PTE_V"
  have dec: "?a AND RV64_PTE_R \<noteq> 0 \<longleftrightarrow> prot AND VM_PROT_READ \<noteq> 0" "?a AND RV64_PTE_W \<noteq> 0 \<longleftrightarrow> prot AND VM_PROT_WRITE \<noteq> 0"
    "?a AND RV64_PTE_X \<noteq> 0 \<longleftrightarrow> prot AND VM_PROT_EXECUTE \<noteq> 0" "?a AND RV64_PTE_U = 0 \<longleftrightarrow> flgs AND VM_FLAGS_SUPERVISOR \<noteq> 0"
    "?a AND RV64_PTE_A \<noteq> 0 \<longleftrightarrow> flgs AND VM_FLAGS_ACCESSED \<noteq> 0" "?a AND RV64_PTE_D \<noteq> 0 \<longleftrightarrow> flgs AND VM_FLAGS_DIRTY \<noteq> 0"
    unfolding vmprot_and_vmflags_to_pte_def pte_consts by simp_all
  have sel: "(if x AND VM_PROT_READ \<noteq> 0 then VM_PROT_READ else 0) = x AND VM_PROT_READ"
    "(if x AND VM_PROT_WRITE \<noteq> 0 then VM_PROT_WRITE else 0) = x AND VM_PROT_WRITE"
    "(if x AND VM_PROT_EXECUTE \<noteq> 0 then VM_PROT_EXECUTE else 0) = x AND VM_PROT_EXECUTE"
    "(if x AND VM_FLAGS_SUPERVISOR \<noteq> 0 then VM_FLAGS_SUPERVISOR else 0) = x AND VM_FLAGS_SUPERVISOR"
    "(if x AND VM_FLAGS_ACCESSED \<noteq> 0 then VM_FLAGS_ACCESSED else 0) = x AND VM_FLAGS_ACCESSED"
    "(if x AND VM_FLAGS_DIRTY \<noteq> 0 then VM_FLAGS_DIRTY else 0) = x AND VM_FLAGS_DIRTY" for x
    by (rule select_bit [of _ 0] select_bit [of _ 1] select_bit [of _ 2] select_bit [of _ 11]
        select_bit [of _ 17] select_bit [of _ 16]; simp add: vm_consts)+
  show ?thesis
    unfolding pte_to_vmprot_and_vmflags_def leaf_pte_flags dec sel map_attrs_def bit.conj_disj_distrib
    by (simp add: VM_PROT_NONE_def VM_FLAGS_NONE_def or.assoc)
qed

end
