(* ===== verification/PgtblTree.thy ===== *)
theory PgtblTree
  imports PgtblEntries
begin

unbundle bit_operations_syntax

text \<open>
  The page tables of an address space as a tree: the table reached on the way to an address, the
  typing of the tables, what the extraction of an address depends on, what writing an entry
  changes, and the pages of addresses that share a way.
\<close>

section \<open>Indices\<close>

abbreviation vpn :: "u64 \<Rightarrow> nat \<Rightarrow> nat" where
  "vpn v l \<equiv> rv64_pgtbl_calc_index_val v l"

lemma index_less: "l \<le> 2 \<Longrightarrow> vpn v l < 512"
proof -
  assume "l \<le> 2"
  then have "l = 0 \<or> l = 1 \<or> l = 2" by auto
  then have "vpn v l = unat (drop_bit (12 + 9 * l) v AND mask 9)"
    by (auto simp: rv64_pgtbl_calc_index_val_def rv64_pgtbl_vpn_lvl_to_indexmask_def
        rv64_pgtbl_vpn_lvl_to_indexshift_def RV64_PGTBL_LINER_ADDR_BITS_def RV64_PGTBL_LVL_NR_def
        RV64_PGTBL_INDEX_BITS_def mask_eq_exp_minus_1 push_bit_eq_mult)
  also have "\<dots> < 2 ^ 9"
    using take_bit_nat_less_exp [of 9 "unat (drop_bit (12 + 9 * l) v)"]
    by (simp flip: take_bit_eq_mask add: unsigned_take_bit_eq)
  finally show ?thesis by simp
qed

section \<open>The tables as a tree\<close>

text \<open>The table reached after \<open>d\<close> steps from the root, at level \<open>2 - d\<close>, on the way to \<open>v\<close>.\<close>

definition next_table :: "u64 \<Rightarrow> u64 \<Rightarrow> u64 option" where
  "next_table base pte =
     (if RV64_PTE_IS_VALID pte \<and> \<not> RV64_PTE_IS_LEAF pte
      then (case pfdb_paddr_to_kvaddr base (RV64_PTE_TO_PADDR pte) of Inl _ \<Rightarrow> None | Inr kv \<Rightarrow> Some kv)
      else None)"

fun table_at :: "u64 \<Rightarrow> (u64 \<Rightarrow> u8) \<Rightarrow> u64 \<Rightarrow> nat \<Rightarrow> u64 \<Rightarrow> u64 option" where
  "table_at base ram root 0 v = Some root"
| "table_at base ram root (Suc d) v =
     (case table_at base ram root d v of
        None \<Rightarrow> None
      | Some t \<Rightarrow> next_table base (table_read ram t (vpn v (2 - d))))"

text \<open>The entry for \<open>v\<close> in a table at depth \<open>d\<close>.\<close>

definition entry_of :: "(u64 \<Rightarrow> u8) \<Rightarrow> u64 \<Rightarrow> nat \<Rightarrow> u64 \<Rightarrow> u64" where
  "entry_of ram t d v = table_read ram t (vpn v (2 - d))"

definition same_way :: "nat \<Rightarrow> u64 \<Rightarrow> u64 \<Rightarrow> bool" where
  "same_way d v w \<longleftrightarrow> (\<forall>k<d. vpn v (2 - k) = vpn w (2 - k))"

lemma same_way_simps [simp]: "same_way 0 v w" "same_way d v v"
  by (simp_all add: same_way_def)

lemma same_way_Suc: "same_way (Suc d) v w \<longleftrightarrow> same_way d v w \<and> vpn v (2 - d) = vpn w (2 - d)"
  by (auto simp: same_way_def less_Suc_eq)

lemma same_way_sym: "same_way d v w \<Longrightarrow> same_way d w v"
  by (simp add: same_way_def)

lemma table_at_same_way: "same_way d v w \<Longrightarrow> table_at base ram root d v = table_at base ram root d w"
  by (induction d) (auto simp: same_way_Suc split: option.split)

lemma table_at_before: "table_at base ram root (Suc d) v = Some t \<Longrightarrow> \<exists>t'. table_at base ram root d v = Some t'"
  by (auto split: option.splits)

text \<open>
  The typing of the tables: the pages reached are aligned, every page is the table of one place in
  the tree, and the tables of the last level have no entry for a further table.
\<close>

definition tables_ok :: "u64 \<Rightarrow> (u64 \<Rightarrow> u8) \<Rightarrow> u64 \<Rightarrow> bool" where
  "tables_ok base ram root \<longleftrightarrow>
     (\<forall>d\<le>2. \<forall>v t. table_at base ram root d v = Some t \<longrightarrow> page_aligned t) \<and>
     (\<forall>d\<le>2. \<forall>d'\<le>2. \<forall>v w t. table_at base ram root d v = Some t \<and> table_at base ram root d' w = Some t \<longrightarrow>
        d = d' \<and> same_way d v w) \<and>
     (\<forall>v. table_at base ram root 3 v = None)"

lemma tables_ok_aligned: "tables_ok base ram root \<Longrightarrow> d \<le> 2 \<Longrightarrow> table_at base ram root d v = Some t \<Longrightarrow> page_aligned t"
  by (auto simp: tables_ok_def)

lemma tables_ok_unique:
  "tables_ok base ram root \<Longrightarrow> d \<le> 2 \<Longrightarrow> d' \<le> 2 \<Longrightarrow> table_at base ram root d v = Some t \<Longrightarrow>
   table_at base ram root d' w = Some t \<Longrightarrow> d = d' \<and> same_way d v w"
  unfolding tables_ok_def by blast

lemma tables_ok_last: "tables_ok base ram root \<Longrightarrow> table_at base ram root 3 v = None"
  by (simp add: tables_ok_def)

text \<open>Reading the entry of another address sees a change of an entry only on the same way.\<close>

lemma entry_of_write:
  assumes ok: "tables_ok base ram root" and d: "d \<le> 2" "table_at base ram root d v = Some t"
    and d': "d' \<le> 2" "table_at base ram root d' w = Some t'"
  shows "entry_of (table_write t (vpn v (2 - d)) new ram) t' d' w =
    (if d' = d \<and> same_way (Suc d) v w then new else entry_of ram t' d' w)"
proof -
  have "vpn v (2 - d) < 512" "vpn w (2 - d') < 512"
    by (simp_all add: index_less)
  then have "entry_of (table_write t (vpn v (2 - d)) new ram) t' d' w =
      (if t' = t \<and> vpn w (2 - d') = vpn v (2 - d) then new else entry_of ram t' d' w)"
    using table_read_write tables_ok_aligned [OF ok] d d' by (simp add: entry_of_def)
  moreover have "t' = t \<and> vpn w (2 - d') = vpn v (2 - d) \<longleftrightarrow> d' = d \<and> same_way (Suc d) v w"
  proof
    assume "t' = t \<and> vpn w (2 - d') = vpn v (2 - d)"
    then show "d' = d \<and> same_way (Suc d) v w"
      using tables_ok_unique [OF ok d(1) d'(1) d(2)] d'(2) by (auto simp: same_way_Suc)
  next
    assume "d' = d \<and> same_way (Suc d) v w"
    then show "t' = t \<and> vpn w (2 - d') = vpn v (2 - d)"
      using table_at_same_way [of d v w base ram root] d(2) d'(2) by (auto simp: same_way_Suc)
  qed
  ultimately show ?thesis by simp
qed

section \<open>What extraction returns\<close>

definition leaf_info :: "u64 \<Rightarrow> nat \<Rightarrow> mapping_info" where
  "leaf_info pte d =
     (RV64_PTE_TO_PADDR pte, fst (pte_to_vmprot_and_vmflags pte), snd (pte_to_vmprot_and_vmflags pte),
      rv64_pgtbl_calc_pagesize (2 - d))"

lemma kvaddr_total: "\<exists>kv. pfdb_paddr_to_kvaddr base pa = Inr kv"
  by (simp add: pfdb_paddr_to_kvaddr_def hal_paddr_to_pfn_def hal_pfn_to_kvaddr_def hal_pfn_to_paddr_def)

lemma walk_entry:
  assumes "d \<le> 2" and "pte = entry_of ram t d v"
  shows "extract_loop base ram v t (3 - d) =
    (if \<not> RV64_PTE_IS_VALID pte then Some (Inl ENOENT)
     else if RV64_PTE_IS_LEAF pte then Some (Inr (leaf_info pte d))
     else (case next_table base pte of None \<Rightarrow> None | Some t' \<Rightarrow> extract_loop base ram v t' (2 - d)))"
proof -
  have "3 - d = Suc (2 - d)" using assms(1) by simp
  moreover obtain kv where "pfdb_paddr_to_kvaddr base (RV64_PTE_TO_PADDR pte) = Inr kv"
    using kvaddr_total by blast
  ultimately show ?thesis
    using assms
    by (auto simp: walk_pgtbl_def Let_def entry_of_def leaf_info_def next_table_def RV64_PGTBL_LVL_NR_def split: prod.splits)
qed

lemma extract_at:
  assumes "d \<le> 3" and "table_at base ram root d v = Some t"
  shows "extract_loop base ram v root 3 = extract_loop base ram v t (3 - d)"
  using assms
proof (induction d arbitrary: t)
  case (Suc d)
  then obtain t' where t': "table_at base ram root d v = Some t'" "next_table base (entry_of ram t' d v) = Some t"
    by (auto simp: entry_of_def split: option.splits)
  then have "RV64_PTE_IS_VALID (entry_of ram t' d v)" "\<not> RV64_PTE_IS_LEAF (entry_of ram t' d v)"
    by (auto simp: next_table_def split: if_splits)
  with Suc t' walk_entry [OF _ refl, of d base ram v t'] show ?case
    by simp
qed simp

text \<open>Two memories give the same result for an address if they agree on the entries on its way.\<close>

lemma extract_agree:
  assumes "\<And>d t. d \<le> 2 \<Longrightarrow> table_at base ram root d v = Some t \<Longrightarrow> entry_of ram' t d v = entry_of ram t d v"
  shows "extract_loop base ram' v root 3 = extract_loop base ram v root 3"
proof -
  have "extract_loop base ram' v t n = extract_loop base ram v t n"
    if "n \<le> 3" "table_at base ram root (3 - n) v = Some t" for n t
    using that
  proof (induction n arbitrary: t)
    case (Suc n)
    then have d: "3 - Suc n \<le> 2" "3 - (3 - Suc n) = Suc n" "2 - (3 - Suc n) = n" by simp_all
    have same: "entry_of ram' t (3 - Suc n) v = entry_of ram t (3 - Suc n) v"
      using assms d Suc.prems by blast
    have "extract_loop base ram' v t' n = extract_loop base ram v t' n"
      if "next_table base (entry_of ram t (3 - Suc n) v) = Some t'" for t'
    proof (rule Suc.IH)
      have "3 - n = Suc (3 - Suc n)" using Suc.prems by simp
      then show "table_at base ram root (3 - n) v = Some t'"
        using Suc.prems that by (simp add: entry_of_def)
    qed (use Suc.prems in simp)
    then show ?case
      using walk_entry [OF d(1) refl, of base ram' v t] walk_entry [OF d(1) refl, of base ram v t] same
      unfolding d by (auto split: option.split)
  qed simp
  from this [of 3 root] show ?thesis by simp
qed


section \<open>Writing an entry\<close>

text \<open>An entry for a page is written over an invalid one.\<close>

lemma leaf_write_tables:
  assumes ok: "tables_ok base ram root" and d: "d \<le> 2" "table_at base ram root d v = Some t"
    and old: "\<not> RV64_PTE_IS_VALID (entry_of ram t d v)"
    and new: "RV64_PTE_IS_LEAF new" and ram': "ram' = table_write t (vpn v (2 - d)) new ram"
  shows "d' \<le> 3 \<Longrightarrow> table_at base ram' root d' w = table_at base ram root d' w"
proof (induction d')
  case (Suc d')
  show ?case
  proof (cases "table_at base ram root d' w")
    case (Some t')
    have "next_table base (entry_of ram t d v) = None" "next_table base new = None"
      using old new by (simp_all add: next_table_def)
    moreover have "entry_of ram t' d' w = entry_of ram t d v" if "d' = d" "same_way (Suc d) v w"
      using that table_at_same_way [of d v w base ram root] d(2) Some by (simp add: same_way_Suc entry_of_def)
    ultimately have "next_table base (entry_of ram' t' d' w) = next_table base (entry_of ram t' d' w)"
      using entry_of_write [OF ok d _ Some, of new] Suc.prems by (auto simp: ram')
    then show ?thesis using Suc Some by (simp add: entry_of_def)
  qed (use Suc in simp)
qed simp

lemma leaf_write:
  assumes ok: "tables_ok base ram root" and d: "d \<le> 2" "table_at base ram root d v = Some t"
    and old: "\<not> RV64_PTE_IS_VALID (entry_of ram t d v)"
    and new: "RV64_PTE_IS_VALID new" "RV64_PTE_IS_LEAF new"
    and ram': "ram' = table_write t (vpn v (2 - d)) new ram"
  shows "tables_ok base ram' root"
    and "extract_loop base ram' w root 3 =
      (if same_way (Suc d) v w then Some (Inr (leaf_info new d)) else extract_loop base ram w root 3)"
proof -
  note same = leaf_write_tables [OF ok d old new(2) ram']
  show "tables_ok base ram' root"
    using ok by (simp add: tables_ok_def same)
  have entry: "entry_of ram' t' d' w = (if d' = d \<and> same_way (Suc d) v w then new else entry_of ram t' d' w)"
    if "d' \<le> 2" "table_at base ram root d' w = Some t'" for d' t'
    using entry_of_write [OF ok d that] by (simp add: ram')
  show "extract_loop base ram' w root 3 =
      (if same_way (Suc d) v w then Some (Inr (leaf_info new d)) else extract_loop base ram w root 3)"
  proof (cases "same_way (Suc d) v w")
    case True
    then have w: "table_at base ram root d w = Some t"
      using table_at_same_way [of d v w base ram root] d(2) by (simp add: same_way_Suc)
    then show ?thesis
      using extract_at [of d base ram' root w t] walk_entry [OF d(1) refl, of base ram' w t] same [of d w] entry [OF d(1) w] d(1) new True
      by simp
  next
    case False
    then show ?thesis using extract_agree [of base ram root w ram'] entry by simp
  qed
qed

text \<open>An entry for a fresh table is written over an invalid one; the memory of the table is cleared.\<close>

lemma table_write_tables:
  assumes ok: "tables_ok base ram root" and d: "d \<le> 1" "table_at base ram root d v = Some t"
    and old: "\<not> RV64_PTE_IS_VALID (entry_of ram t d v)"
    and fresh: "page_aligned t1" "\<And>d' w. d' \<le> 2 \<Longrightarrow> table_at base ram root d' w \<noteq> Some t1"
    and new: "next_table base new = Some t1"
    and ram': "ram' = table_write t (vpn v (2 - d)) new (clear_memory t1 4096 ram)"
  shows "\<And>d' w t'. d' \<le> 2 \<Longrightarrow> table_at base ram root d' w = Some t' \<Longrightarrow>
      entry_of ram' t' d' w = (if d' = d \<and> same_way (Suc d) v w then new else entry_of ram t' d' w)"
    and "\<And>d' w. entry_of ram' t1 d' w = 0"
    and "d' \<le> 3 \<Longrightarrow> table_at base ram' root d' w =
      (if d' = Suc d \<and> same_way (Suc d) v w then Some t1 else table_at base ram root d' w)"
proof -
  have d2: "d \<le> 2" and t: "page_aligned t" "t \<noteq> t1"
    using d tables_ok_aligned [OF ok _ d(2)] fresh(2) [of d v] by auto
  have clear: "entry_of (clear_memory t1 4096 ram) t' d' w = (if t' = t1 then 0 else entry_of ram t' d' w)"
    if "page_aligned t'" for t' d' w
    using table_read_clear [OF that fresh(1)] by (simp add: entry_of_def index_less)
  show entry: "entry_of ram' t' d' w = (if d' = d \<and> same_way (Suc d) v w then new else entry_of ram t' d' w)"
    if "d' \<le> 2" "table_at base ram root d' w = Some t'" for d' w t'
  proof -
    have "entry_of (table_write t (vpn v (2 - d)) new (clear_memory t1 4096 ram)) t' d' w =
        (if t' = t \<and> vpn w (2 - d') = vpn v (2 - d) then new else entry_of (clear_memory t1 4096 ram) t' d' w)"
      using table_read_write t(1) tables_ok_aligned [OF ok that] by (simp add: entry_of_def index_less)
    moreover have "entry_of (table_write t (vpn v (2 - d)) new ram) t' d' w =
        (if t' = t \<and> vpn w (2 - d') = vpn v (2 - d) then new else entry_of ram t' d' w)"
      using table_read_write t(1) tables_ok_aligned [OF ok that] by (simp add: entry_of_def index_less)
    ultimately show ?thesis
      using entry_of_write [OF ok d2 d(2) that, of new] clear [OF tables_ok_aligned [OF ok that]] fresh(2) [OF that(1), of w] that(2)
      by (auto simp: ram' split: if_splits)
  qed
  show zero: "entry_of ram' t1 d' w = 0" for d' w
    using table_read_write [OF t(1) fresh(1), of "vpn v (2 - d)" "vpn w (2 - d')"] t(2) clear [OF fresh(1)]
    by (simp add: entry_of_def ram' index_less)
  show "d' \<le> 3 \<Longrightarrow> table_at base ram' root d' w =
      (if d' = Suc d \<and> same_way (Suc d) v w then Some t1 else table_at base ram root d' w)"
  proof (induction d')
    case (Suc d')
    have no_old: "table_at base ram root (Suc d) w = None" if "same_way (Suc d) v w"
      using that old d(2) table_at_same_way [of d v w base ram root]
      by (simp add: same_way_Suc entry_of_def next_table_def)
    show ?case
    proof (cases "d' = Suc d \<and> same_way (Suc d) v w")
      case True
      then have "table_at base ram' root (Suc d') w = next_table base (entry_of ram' t1 d' w)"
        using Suc by (simp add: entry_of_def)
      then show ?thesis
        using True no_old zero by (simp add: next_table_def zero_pte)
    next
      case False
      show ?thesis
      proof (cases "table_at base ram root d' w")
        case None
        then have "\<not> (d' = d \<and> same_way (Suc d) v w)"
          using table_at_same_way [of d v w base ram root] d(2) by (auto simp: same_way_Suc)
        then show ?thesis using Suc False None by auto
      next
        case (Some t')
        then show ?thesis
          using Suc False entry [of d' w t'] no_old new by (auto simp: entry_of_def split: if_splits)
      qed
    qed
  qed simp
qed

lemma table_entry_write:
  assumes ok: "tables_ok base ram root" and d: "d \<le> 1" "table_at base ram root d v = Some t"
    and old: "\<not> RV64_PTE_IS_VALID (entry_of ram t d v)"
    and fresh: "page_aligned t1" "\<And>d' w. d' \<le> 2 \<Longrightarrow> table_at base ram root d' w \<noteq> Some t1"
    and new: "next_table base new = Some t1"
    and ram': "ram' = table_write t (vpn v (2 - d)) new (clear_memory t1 4096 ram)"
  shows "tables_ok base ram' root" and "extract_loop base ram' w root 3 = extract_loop base ram w root 3"
proof -
  note tables = table_write_tables [OF ok d old fresh new ram']
  show "tables_ok base ram' root"
    unfolding tables_ok_def
  proof (intro conjI allI impI)
    fix d' w t' assume "d' \<le> 2" "table_at base ram' root d' w = Some t'"
    then show "page_aligned t'"
      using tables(3) [of d' w] fresh(1) tables_ok_aligned [OF ok] by (auto split: if_splits)
  next
    fix d1 d2 v1 v2 t' assume at: "d1 \<le> 2" "d2 \<le> 2"
      "table_at base ram' root d1 v1 = Some t' \<and> table_at base ram' root d2 v2 = Some t'"
    have "d1 = Suc d \<and> same_way (Suc d) v v1 \<longleftrightarrow> d2 = Suc d \<and> same_way (Suc d) v v2"
      using at tables(3) [of d1 v1] tables(3) [of d2 v2] fresh(2) [OF at(1), of v1] fresh(2) [OF at(2), of v2] by (auto split: if_splits)
    then show "d1 = d2" "same_way d1 v1 v2"
      using at tables(3) [of d1 v1] tables(3) [of d2 v2] tables_ok_unique [OF ok at(1,2)]
      by (auto simp: same_way_def split: if_splits)
  next
    show "table_at base ram' root 3 w = None" for w
      using tables(3) [of 3 w] tables_ok_last [OF ok] d(1) by simp
  qed
  show "extract_loop base ram' w root 3 = extract_loop base ram w root 3"
  proof (cases "same_way (Suc d) v w")
    case True
    have w: "table_at base ram root d w = Some t" and e: "entry_of ram t d w = entry_of ram t d v"
      using True table_at_same_way [of d v w base ram root] d(2) by (simp_all add: same_way_Suc entry_of_def)
    have "extract_loop base ram w root 3 = Some (Inl ENOENT)"
      using extract_at [of d base ram root w t] walk_entry [of d _ ram t w base, OF _ refl] w e old d(1) by simp
    moreover have "extract_loop base ram' w root 3 = extract_loop base ram' w t1 (3 - Suc d)"
      using extract_at [of "Suc d" base ram' root w t1] tables(3) [of "Suc d" w] True d(1) by simp
    moreover have "\<dots> = Some (Inl ENOENT)"
      using walk_entry [of "Suc d" _ ram' t1 w base, OF _ refl] tables(2) [of "Suc d" w] d(1) by (simp add: zero_pte)
    ultimately show ?thesis by simp
  next
    case False
    then show ?thesis using extract_agree [of base ram root w ram'] tables(1) by simp
  qed
qed

section \<open>Free places\<close>

text \<open>A page of depth \<open>e\<close> can be entered for \<open>v\<close>: there is no page above it, and its entry is not used.\<close>

definition slot_free :: "u64 \<Rightarrow> (u64 \<Rightarrow> u8) \<Rightarrow> u64 \<Rightarrow> nat \<Rightarrow> u64 \<Rightarrow> bool" where
  "slot_free base ram root e v \<longleftrightarrow>
     (\<forall>d\<le>e. \<forall>t. table_at base ram root d v = Some t \<and> RV64_PTE_IS_VALID (entry_of ram t d v) \<longrightarrow>
        d < e \<and> \<not> RV64_PTE_IS_LEAF (entry_of ram t d v))"

lemma slot_free_step:
  "slot_free base ram root e v \<Longrightarrow> d \<le> e \<Longrightarrow> table_at base ram root d v = Some t \<Longrightarrow>
   RV64_PTE_IS_VALID (entry_of ram t d v) \<Longrightarrow> d < e \<and> \<not> RV64_PTE_IS_LEAF (entry_of ram t d v)"
  unfolding slot_free_def by blast

lemma slot_free_leaf:
  assumes ok: "tables_ok base ram root" and d: "e \<le> 2" "table_at base ram root e v = Some t"
    and old: "\<not> RV64_PTE_IS_VALID (entry_of ram t e v)" and new: "RV64_PTE_IS_LEAF new"
    and w: "\<not> same_way (Suc e) v w" "slot_free base ram root e w"
  shows "slot_free base (table_write t (vpn v (2 - e)) new ram) root e w"
  unfolding slot_free_def
proof (intro allI impI)
  fix d' t' assume d': "d' \<le> e" "table_at base (table_write t (vpn v (2 - e)) new ram) root d' w = Some t' \<and>
      RV64_PTE_IS_VALID (entry_of (table_write t (vpn v (2 - e)) new ram) t' d' w)"
  then have at: "table_at base ram root d' w = Some t'"
    using leaf_write_tables [OF ok d old new refl, of d' w] d(1) by simp
  then show "d' < e \<and> \<not> RV64_PTE_IS_LEAF (entry_of (table_write t (vpn v (2 - e)) new ram) t' d' w)"
    using entry_of_write [OF ok d _ at, of new] slot_free_step [OF w(2) d'(1) at] w(1) d' d(1)
    by (auto split: if_splits)
qed

lemma slot_free_table:
  assumes ok: "tables_ok base ram root" and d: "d \<le> 1" "table_at base ram root d v = Some t"
    and old: "\<not> RV64_PTE_IS_VALID (entry_of ram t d v)"
    and fresh: "page_aligned t1" "\<And>d' w. d' \<le> 2 \<Longrightarrow> table_at base ram root d' w \<noteq> Some t1"
    and new: "next_table base new = Some t1"
    and ram': "ram' = table_write t (vpn v (2 - d)) new (clear_memory t1 4096 ram)"
    and w: "slot_free base ram root e w" "d < e" "e \<le> 2"
  shows "slot_free base ram' root e w"
  unfolding slot_free_def
proof (intro allI impI)
  note tables = table_write_tables [OF ok d old fresh new ram']
  fix d' t' assume d': "d' \<le> e" "table_at base ram' root d' w = Some t' \<and> RV64_PTE_IS_VALID (entry_of ram' t' d' w)"
  show "d' < e \<and> \<not> RV64_PTE_IS_LEAF (entry_of ram' t' d' w)"
  proof (cases "d' = Suc d \<and> same_way (Suc d) v w")
    case True
    then show ?thesis using d' tables(2,3) [of d' w] w by (auto simp: zero_pte)
  next
    case False
    then have at: "table_at base ram root d' w = Some t'"
      using tables(3) [of d' w] d' w by (auto split: if_splits)
    have "\<not> RV64_PTE_IS_LEAF new" using new by (auto simp: next_table_def split: if_splits)
    then show ?thesis
      using tables(1) [of d' w t'] at slot_free_step [OF w(1) d'(1) at] d' w by (auto split: if_splits)
  qed
qed

section \<open>Pages of addresses\<close>

definition same_page :: "u64 \<Rightarrow> u64 \<Rightarrow> u64 \<Rightarrow> bool" where
  "same_page pgsize v w \<longleftrightarrow> unat (take_bit 39 v) div unat pgsize = unat (take_bit 39 w) div unat pgsize"

lemma pagesize_power: "d \<le> 2 \<Longrightarrow> unat (rv64_pgtbl_calc_pagesize (2 - d)) = 2 ^ (30 - 9 * d)"
proof -
  assume "d \<le> 2"
  then have "d = 0 \<or> d = 1 \<or> d = 2" by auto
  then show ?thesis
    by (auto simp: rv64_pgtbl_calc_pagesize_def rv64_pgtbl_vpn_lvl_to_indexshift_def RV64_PGTBL_LINER_ADDR_BITS_def
        RV64_PGTBL_LVL_NR_def RV64_PGTBL_INDEX_BITS_def)
qed

lemma same_page_take_drop:
  "d \<le> 2 \<Longrightarrow> same_page (rv64_pgtbl_calc_pagesize (2 - d)) v w \<longleftrightarrow>
     take_bit (9 + 9 * d) (drop_bit (30 - 9 * d) v) = take_bit (9 + 9 * d) (drop_bit (30 - 9 * d) w)"
proof -
  assume d: "d \<le> 2"
  have "unat (take_bit 39 x) div unat (rv64_pgtbl_calc_pagesize (2 - d)) =
      unat (drop_bit (30 - 9 * d) (take_bit 39 x))" for x :: u64
    by (simp only: pagesize_power [OF d] drop_bit_unat)
  moreover have "drop_bit (30 - 9 * d) (take_bit 39 x) = take_bit (9 + 9 * d) (drop_bit (30 - 9 * d) x)" for x :: u64
    using d by (simp add: drop_bit_take_bit)
  ultimately show ?thesis
    by (simp only: same_page_def word_unat_eq_iff)
qed

lemma same_page_div:
  "d \<le> 2 \<Longrightarrow> same_page (rv64_pgtbl_calc_pagesize (2 - d)) v w \<longleftrightarrow>
     unat v div 2 ^ (30 - 9 * d) mod 2 ^ (9 + 9 * d) = unat w div 2 ^ (30 - 9 * d) mod 2 ^ (9 + 9 * d)"
proof -
  have "unat (take_bit m (drop_bit n x)) = unat x div 2 ^ n mod 2 ^ m" for x :: u64 and m n
    by (subst unsigned_take_bit_eq) (simp only: take_bit_eq_mod drop_bit_unat)
  then show "d \<le> 2 \<Longrightarrow> ?thesis"
    by (simp only: same_page_take_drop word_unat_eq_iff)
qed

text \<open>Different pages of a range of at most \<open>2 ^ 39\<close> bytes.\<close>

lemma pages_differ:
  assumes d: "d \<le> 2" and w: "unat w = unat v + k * 2 ^ (30 - 9 * d)" and k: "0 < k" "k < 2 ^ (9 + 9 * d)"
  shows "\<not> same_page (rv64_pgtbl_calc_pagesize (2 - d)) v w"
proof -
  let ?q = "unat v div 2 ^ (30 - 9 * d)" and ?M = "2 ^ (9 + 9 * d) :: nat"
  have "unat w div 2 ^ (30 - 9 * d) = ?q + k" by (simp add: w)
  moreover have "?q mod ?M \<noteq> (?q + k) mod ?M"
  proof
    assume "?q mod ?M = (?q + k) mod ?M"
    then have "?M dvd k" using mod_eq_dvd_iff_nat [of ?q "?q + k" ?M] by simp
    with k show False by (simp add: dvd_imp_le nat_dvd_not_less)
  qed
  ultimately show ?thesis by (simp add: same_page_div [OF d])
qed

lemma vpn_eq_iff:
  assumes "l \<le> 2"
  shows "vpn v l = vpn w l \<longleftrightarrow> (\<forall>n. 12 + 9 * l \<le> n \<and> n < 21 + 9 * l \<longrightarrow> bit v n = bit w n)"
proof -
  have "l = 0 \<or> l = 1 \<or> l = 2" using assms by auto
  then have vpn: "vpn v l = unat (take_bit 9 (drop_bit (12 + 9 * l) v))" for v
    by (auto simp: rv64_pgtbl_calc_index_val_def rv64_pgtbl_vpn_lvl_to_indexmask_def
        rv64_pgtbl_vpn_lvl_to_indexshift_def RV64_PGTBL_LINER_ADDR_BITS_def RV64_PGTBL_LVL_NR_def
        RV64_PGTBL_INDEX_BITS_def take_bit_eq_mask mask_eq_exp_minus_1 push_bit_eq_mult)
  have "vpn v l = vpn w l \<longleftrightarrow> take_bit 9 (drop_bit (12 + 9 * l) v) = take_bit 9 (drop_bit (12 + 9 * l) w)"
    by (simp only: vpn word_unat_eq_iff)
  also have "\<dots> \<longleftrightarrow> (\<forall>n<9. bit v (12 + 9 * l + n) = bit w (12 + 9 * l + n))"
  proof
    assume eq: "take_bit 9 (drop_bit (12 + 9 * l) v) = take_bit 9 (drop_bit (12 + 9 * l) w)"
    show "\<forall>n<9. bit v (12 + 9 * l + n) = bit w (12 + 9 * l + n)"
    proof (intro allI impI)
      fix n :: nat assume "n < 9"
      then show "bit v (12 + 9 * l + n) = bit w (12 + 9 * l + n)"
        using arg_cong [OF eq, of "\<lambda>x. bit x n"] by (simp add: bit_take_bit_iff bit_drop_bit_eq)
    qed
  next
    assume "\<forall>n<9. bit v (12 + 9 * l + n) = bit w (12 + 9 * l + n)"
    then show "take_bit 9 (drop_bit (12 + 9 * l) v) = take_bit 9 (drop_bit (12 + 9 * l) w)"
      by (intro bit_word_eqI) (auto simp: bit_take_bit_iff bit_drop_bit_eq)
  qed
  also have "\<dots> \<longleftrightarrow> (\<forall>n. 12 + 9 * l \<le> n \<and> n < 21 + 9 * l \<longrightarrow> bit v n = bit w n)"
  proof
    assume l: "\<forall>n<9. bit v (12 + 9 * l + n) = bit w (12 + 9 * l + n)"
    show "\<forall>n. 12 + 9 * l \<le> n \<and> n < 21 + 9 * l \<longrightarrow> bit v n = bit w n"
    proof (intro allI impI)
      fix n assume "12 + 9 * l \<le> n \<and> n < 21 + 9 * l"
      then have "n - (12 + 9 * l) < 9" "12 + 9 * l + (n - (12 + 9 * l)) = n" by arith+
      then show "bit v n = bit w n" using l by metis
    qed
  qed simp
  finally show ?thesis .
qed

lemma same_way_page:
  assumes "d \<le> 2"
  shows "same_way (Suc d) v w \<longleftrightarrow> same_page (rv64_pgtbl_calc_pagesize (2 - d)) v w"
proof -
  have "same_page (rv64_pgtbl_calc_pagesize (2 - d)) v w \<longleftrightarrow>
      (\<forall>n. bit (take_bit (9 + 9 * d) (drop_bit (30 - 9 * d) v)) n = bit (take_bit (9 + 9 * d) (drop_bit (30 - 9 * d) w)) n)"
    unfolding same_page_take_drop [OF assms] by (metis bit_word_eqI)
  also have "\<dots> \<longleftrightarrow> (\<forall>n<9 + 9 * d. bit v (30 - 9 * d + n) = bit w (30 - 9 * d + n))"
    by (auto simp: bit_take_bit_iff bit_drop_bit_eq)
  also have "\<dots> \<longleftrightarrow> (\<forall>n. 30 - 9 * d \<le> n \<and> n < 39 \<longrightarrow> bit v n = bit w n)"
  proof
    assume l: "\<forall>n<9 + 9 * d. bit v (30 - 9 * d + n) = bit w (30 - 9 * d + n)"
    show "\<forall>n. 30 - 9 * d \<le> n \<and> n < 39 \<longrightarrow> bit v n = bit w n"
    proof (intro allI impI)
      fix n assume "30 - 9 * d \<le> n \<and> n < 39"
      then have "n - (30 - 9 * d) < 9 + 9 * d" "30 - 9 * d + (n - (30 - 9 * d)) = n" using assms by arith+
      then show "bit v n = bit w n" using l by metis
    qed
  next
    assume r: "\<forall>n. 30 - 9 * d \<le> n \<and> n < 39 \<longrightarrow> bit v n = bit w n"
    have "30 - 9 * d \<le> 30 - 9 * d + n \<and> 30 - 9 * d + n < 39" if "n < 9 + 9 * d" for n
      using assms that by arith
    then show "\<forall>n<9 + 9 * d. bit v (30 - 9 * d + n) = bit w (30 - 9 * d + n)" using r by blast
  qed
  also have "\<dots> \<longleftrightarrow> (\<forall>k<Suc d. vpn v (2 - k) = vpn w (2 - k))"
  proof
    assume l: "\<forall>n. 30 - 9 * d \<le> n \<and> n < 39 \<longrightarrow> bit v n = bit w n"
    have "vpn v (2 - k) = vpn w (2 - k)" if "k < Suc d" for k
    proof -
      have "30 - 9 * d \<le> 12 + 9 * (2 - k)" "21 + 9 * (2 - k) \<le> 39" using assms that by arith+
      then have "bit v n = bit w n" if "12 + 9 * (2 - k) \<le> n \<and> n < 21 + 9 * (2 - k)" for n
        using l that by (meson le_trans less_le_trans)
      then show ?thesis
        using vpn_eq_iff [of "2 - k" v w] by auto
    qed
    then show "\<forall>k<Suc d. vpn v (2 - k) = vpn w (2 - k)" by blast
  next
    assume r: "\<forall>k<Suc d. vpn v (2 - k) = vpn w (2 - k)"
    show "\<forall>n. 30 - 9 * d \<le> n \<and> n < 39 \<longrightarrow> bit v n = bit w n"
    proof (intro allI impI)
      fix n assume n: "30 - 9 * d \<le> n \<and> n < 39"
      let ?k = "(38 - n) div 9"
      have k: "?k < Suc d" "?k \<le> 2" using n assms by auto
      have "12 + 9 * (2 - ?k) \<le> n" "n < 21 + 9 * (2 - ?k)" using n assms by auto
      then show "bit v n = bit w n"
        using r k vpn_eq_iff [of "2 - ?k" v w] by auto
    qed
  qed
  finally show ?thesis by (simp add: same_way_def)
qed

end
