(* ===== verification/PgtblFrames.thy ===== *)
theory PgtblFrames
  imports PgtblTree
begin

unbundle bit_operations_syntax

text \<open>
  The pages of the tables in the page frame database: the environment of the page table code, the
  invariant \<open>pt_inv\<close> of a page table (its tables are typed, and the use count of the frame of every
  table is one more than the number of its valid entries), and the allocation
  of a frame for a table.
\<close>

section \<open>The frames of the tables\<close>

text \<open>
  One memory area, the last frame of which is reserved; kernel addresses do not wrap. No frame has a
  map count: nothing in the kernel calls \<open>pfdb_inc_page_map_count\<close>.
\<close>

abbreviation the_area :: "pmem \<Rightarrow> pfdb_ent" where
  "the_area pm \<equiv> dbroot (pm_db pm) ! 0"

definition vm_env :: "u64 \<Rightarrow> (nat \<Rightarrow> nat list) \<Rightarrow> pmem \<Rightarrow> bool" where
  "vm_env base fl pm \<longleftrightarrow>
     area_ok (pm_db pm) 0 fl \<and> length (dbroot (pm_db pm)) = 1 \<and>
     pool_min_pfn (page_pool (the_area pm)) = min_pfn (the_area pm) \<and>
     max_pfn (the_area pm) - min_pfn (the_area pm) - 1 \<notin> free_frames fl \<and>
     page_aligned base \<and> unat base + 4096 * max_pfn (the_area pm) < 2 ^ 64 \<and>
     4096 * max_pfn (the_area pm) < 2 ^ 56 \<and> set (map_counts (page_pool (the_area pm))) \<subseteq> {0}"

definition valid_entries :: "(u64 \<Rightarrow> u8) \<Rightarrow> u64 \<Rightarrow> nat" where
  "valid_entries ram t = card {i. i < 512 \<and> RV64_PTE_IS_VALID (table_read ram t i)}"

text \<open>Frame \<open>i\<close> is in use for the table at \<open>t\<close>, with a reference for the table and one for every entry.\<close>

definition in_frame :: "u64 \<Rightarrow> pmem \<Rightarrow> u64 \<Rightarrow> nat \<Rightarrow> bool" where
  "in_frame base pm t i \<longleftrightarrow> unat t = unat base + 4096 * (min_pfn (the_area pm) + i) \<and>
     min_pfn (the_area pm) + i + 1 < max_pfn (the_area pm)"

definition table_frame :: "u64 \<Rightarrow> pmem \<Rightarrow> u64 \<Rightarrow> nat \<Rightarrow> bool" where
  "table_frame base pm t i \<longleftrightarrow> in_frame base pm t i \<and>
     PAGE_IS_USED (frame_at (0, i) pm) \<and> \<not> PAGE_IS_RESERVED (frame_at (0, i) pm) \<and> pf_order (frame_at (0, i) pm) = 0 \<and>
     pf_usecnt (frame_at (0, i) pm) = of_nat (Suc (valid_entries (pm_ram pm) t))"

definition pt_inv :: "u64 \<Rightarrow> (nat \<Rightarrow> nat list) \<Rightarrow> u64 \<Rightarrow> pmem \<Rightarrow> bool" where
  "pt_inv base fl root pm \<longleftrightarrow> vm_env base fl pm \<and> tables_ok base (pm_ram pm) root \<and>
     (\<forall>d\<le>2. \<forall>v t. table_at base (pm_ram pm) root d v = Some t \<longrightarrow> (\<exists>i. table_frame base pm t i))"

lemma in_frame_unique: "in_frame base pm t i \<Longrightarrow> in_frame base pm t j \<Longrightarrow> i = j"
  by (simp add: in_frame_def)

lemma in_frame_same: "in_frame base pm t i \<Longrightarrow> in_frame base pm t' i \<Longrightarrow> t = t'"
  by (simp add: in_frame_def word_unat_eq_iff)

lemma in_frame_aligned: "vm_env base fl pm \<Longrightarrow> in_frame base pm t i \<Longrightarrow> page_aligned t"
  by (simp add: vm_env_def in_frame_def page_aligned_def)

lemma frame_of_run:
  assumes env: "vm_env base fl pm" and t: "in_frame base pm t i"
  shows "frame_of base t pm = Some ((0, i), pm)"
proof -
  have pfn: "hal_kvaddr_to_pfn base t = Inr (min_pfn (the_area pm) + i)"
    using hal_kvaddr_to_pfn_unat [of base t] t by (simp add: in_frame_def)
  have "pfdb_tree_find (min_pfn (the_area pm) + i, min_pfn (the_area pm) + i + 1) (dbroot (pm_db pm)) = Some (Some 0)"
    using pfdb_tree_find_entry [of "dbroot (pm_db pm)" 0 "min_pfn (the_area pm) + i"] env t
    by (simp add: area_ok_def vm_env_def in_frame_def)
  then have "pfn_to_page_frame (min_pfn (the_area pm) + i) (pm_db pm) (pm_cpu pm) = Some (Inr (0, i), pm_db pm, pm_cpu pm)"
    using pfn_to_page_frame_eq [of "pm_db pm" "min_pfn (the_area pm) + i" "Some 0"] env
    by (simp add: area_ok_def vm_env_def)
  then show ?thesis
    by (simp add: frame_of_def pfdb_kvaddr_to_page_frame_def pfn)
qed

section \<open>Use counts\<close>

lemma used_not_free:
  assumes "vm_env base fl pm" and "in_frame base pm t i" and "PAGE_IS_USED (frame_at (0, i) pm)"
  shows "i \<notin> free_frames fl"
proof -
  let ?P = "page_pool (the_area pm)"
  have inv: "pool_inv {} fl ?P" and i: "i < nr_pages ?P" "PAGE_IS_USED (array ?P ! i)"
    using assms by (auto simp: vm_env_def area_ok_def in_frame_def frame_at_def)
  have "block (page_ord ?P i) i \<inter> free_frames fl = {}"
    using pool_inv_free_disjoint [OF inv set_usecnt_inv(2,3) [OF inv i]] .
  then show ?thesis
    using head_in_block by blast
qed

definition set_count :: "nat \<Rightarrow> u32 \<Rightarrow> pmem \<Rightarrow> pmem" where
  "set_count i n pm = pm\<lparr>pm_db :=
     set_pool 0 (upd_page i (pf_usecnt_update (\<lambda>_. n)) (page_pool (the_area pm))) (pm_db pm)\<rparr>"

lemma set_count_env:
  assumes env: "vm_env base fl pm" and i: "in_frame base pm t i" "PAGE_IS_USED (frame_at (0, i) pm)"
  shows "vm_env base fl (set_count i n pm)"
    and "frame_at (0, j) (set_count i n pm) =
      (if j = i then (frame_at (0, i) pm)\<lparr>pf_usecnt := n\<rparr> else frame_at (0, j) pm)"
    and "in_frame base (set_count i n pm) t' j \<longleftrightarrow> in_frame base pm t' j"
    and "pm_ram (set_count i n pm) = pm_ram pm" "pm_cpu (set_count i n pm) = pm_cpu pm"
proof -
  let ?P = "page_pool (the_area pm)"
  have inv: "pool_inv {} fl ?P" and P: "i < nr_pages ?P" "PAGE_IS_USED (array ?P ! i)" "length (array ?P) = nr_pages ?P"
    using env i pool_inv_shape by (auto simp: vm_env_def area_ok_def in_frame_def frame_at_def)
  have one: "length (dbroot (pm_db pm)) = 1"
    using env by (simp add: vm_env_def)
  let ?Q = "upd_page i (pf_usecnt_update (\<lambda>_. n)) ?P"
  have at: "dbroot (pm_db (set_count i n pm)) ! 0 = (the_area pm)\<lparr>page_pool := ?Q\<rparr>"
    using one by (simp add: set_count_def)
  have counts: "map_counts ?Q = map_counts ?P" by (simp add: upd_page_counts)
  have Q: "pool_lock ?Q = pool_lock ?P" "nr_pages ?Q = nr_pages ?P" "pool_min_pfn ?Q = pool_min_pfn ?P"
    by (simp_all add: upd_page_def)
  have "area_ok (pm_db (set_count i n pm)) 0 fl"
    using area_ok_set_pool [of "pm_db pm" 0 fl fl ?Q] set_usecnt_inv(1) [OF inv P(1,2), of n] env Q
    by (simp add: vm_env_def set_count_def area_ok_def)
  then show "vm_env base fl (set_count i n pm)"
    using env at Q one counts by (simp add: vm_env_def set_count_def)
  show "frame_at (0, j) (set_count i n pm) =
      (if j = i then (frame_at (0, i) pm)\<lparr>pf_usecnt := n\<rparr> else frame_at (0, j) pm)"
    using P at by (auto simp: frame_at_def upd_page_def)
  show "in_frame base (set_count i n pm) t' j \<longleftrightarrow> in_frame base pm t' j"
    using at by (simp add: in_frame_def)
  show "pm_ram (set_count i n pm) = pm_ram pm" "pm_cpu (set_count i n pm) = pm_cpu pm"
    by (simp_all add: set_count_def)
qed

lemma valid_entries_le: "valid_entries ram t \<le> 512"
proof -
  have "valid_entries ram t \<le> card {..<512 :: nat}"
    unfolding valid_entries_def by (intro card_mono) auto
  then show ?thesis by simp
qed

lemma small_count: "n \<le> 600 \<Longrightarrow> unat (of_nat n :: u32) = n"
  by (simp add: unat_of_nat)

lemma inc_use_count_run:
  assumes env: "vm_env base fl pm" and t: "pf_usecnt (frame_at (0, i) pm) = of_nat (Suc n)" "n \<le> 512"
  shows "inc_use_count (0, i) pm = Some (True, set_count i (of_nat (Suc (Suc n))) pm)"
proof -
  have "unat (of_nat (Suc n) :: u32) \<noteq> 0"
    using small_count [of "Suc n"] t(2) by simp
  then have "pf_usecnt (frame_at (0, i) pm) \<noteq> 0"
    using t(1) by (simp add: unat_eq_0)
  then have inc: "pfdb_inc_page_use_count (frame_at (0, i) pm) =
      Some (True, (frame_at (0, i) pm)\<lparr>pf_usecnt := of_nat (Suc (Suc n))\<rparr>)"
    using t(1) by (simp add: pfdb_inc_page_use_count_def add.commute)
  then show ?thesis
    by (simp add: inc_use_count_def frame_at_def set_count_def upd_page_def Let_def)
qed

section \<open>Counting entries\<close>

lemma valid_entries_write:
  assumes "page_aligned t" "page_aligned t'" "i < 512"
    and "\<not> RV64_PTE_IS_VALID (table_read ram t i)" "RV64_PTE_IS_VALID new"
  shows "valid_entries (table_write t i new ram) t' = (if t' = t then Suc (valid_entries ram t) else valid_entries ram t')"
proof (cases "t' = t")
  case True
  have "{j. j < 512 \<and> RV64_PTE_IS_VALID (table_read (table_write t i new ram) t j)} =
      insert i {j. j < 512 \<and> RV64_PTE_IS_VALID (table_read ram t j)}"
    using assms table_read_write [OF assms(1,1,3)] by auto
  then show ?thesis
    using True assms(4) by (simp add: valid_entries_def card_insert_disjoint)
next
  case False
  then have "{j. j < 512 \<and> RV64_PTE_IS_VALID (table_read (table_write t i new ram) t' j)} =
      {j. j < 512 \<and> RV64_PTE_IS_VALID (table_read ram t' j)}"
    using table_read_write [OF assms(1-3)] by auto
  with False show ?thesis by (simp add: valid_entries_def)
qed

lemma valid_entries_clear:
  assumes "page_aligned t" "page_aligned t1"
  shows "valid_entries (clear_memory t1 4096 ram) t = (if t = t1 then 0 else valid_entries ram t)"
proof -
  have "i < 512 \<Longrightarrow> RV64_PTE_IS_VALID (table_read (clear_memory t1 4096 ram) t i) \<longleftrightarrow>
      t \<noteq> t1 \<and> RV64_PTE_IS_VALID (table_read ram t i)" for i
    using table_read_clear [OF assms] by (simp add: zero_pte)
  then have "{i. i < 512 \<and> RV64_PTE_IS_VALID (table_read (clear_memory t1 4096 ram) t i)} =
      (if t = t1 then {} else {i. i < 512 \<and> RV64_PTE_IS_VALID (table_read ram t i)})"
    by auto
  then show ?thesis by (simp add: valid_entries_def)
qed

section \<open>A page for a table\<close>

text \<open>The physical address of frame \<open>i\<close> of the area.\<close>

definition frame_paddr :: "pmem \<Rightarrow> nat \<Rightarrow> u64" where
  "frame_paddr pm i = push_bit PAGE_SHIFT (of_nat (min_pfn (the_area pm) + i))"

lemma frame_paddr_facts:
  assumes env: "vm_env base fl pm" and t: "in_frame base pm t i"
  shows "hal_kvaddr_to_phys base t = Inr (frame_paddr pm i)"
    and "pfdb_paddr_to_kvaddr base (frame_paddr pm i) = Inr t"
    and "page_aligned (frame_paddr pm i)" and "unat (frame_paddr pm i) < 2 ^ 56"
proof -
  let ?n = "min_pfn (the_area pm) + i"
  have small: "4096 * ?n + unat base < 2 ^ 64" "4096 * ?n < 2 ^ 56"
    using env t by (auto simp: vm_env_def in_frame_def)
  have "frame_paddr pm i = of_nat (4096 * ?n)"
    by (simp add: frame_paddr_def PAGE_SHIFT_def push_bit_eq_mult)
  then have pa: "unat (frame_paddr pm i) = 4096 * ?n"
    using small unat_of_nat_less [of "4096 * ?n"] by (simp only:)
  then show "page_aligned (frame_paddr pm i)" "unat (frame_paddr pm i) < 2 ^ 56"
    using small(2) by (simp_all add: page_aligned_def)
  show "hal_kvaddr_to_phys base t = Inr (frame_paddr pm i)"
    using hal_kvaddr_to_pfn_unat [of base t] t by (simp add: hal_kvaddr_to_phys_def in_frame_def frame_paddr_def)
  have "hal_paddr_to_pfn (frame_paddr pm i) = Inr ?n"
    using pa by (simp add: hal_paddr_to_pfn_def PAGE_SHIFT_def drop_bit_unat)
  moreover obtain kv where kv: "hal_pfn_to_kvaddr base ?n = Inr kv" "unat kv = 4096 * ?n + unat base"
    using hal_pfn_to_kvaddr_unat small(1) by blast
  moreover have "kv = t"
    using kv(2) t by (simp add: word_unat_eq_iff in_frame_def)
  ultimately show "pfdb_paddr_to_kvaddr base (frame_paddr pm i) = Inr t"
    by (simp add: pfdb_paddr_to_kvaddr_def)
qed

lemma alloc_table_run:
  assumes env: "vm_env base fl pm" and room: "free_frames fl \<noteq> {}"
  obtains t1 i pm' fl' where "pgtbl_alloc_pgtbl_page base pgt pm =
      Some (Inr (t1, frame_paddr pm i), pgt\<lparr>pgtbl_nr_pages := snd (statcnt_inc (pgtbl_nr_pages pgt))\<rparr>, pm')"
    and "vm_env base fl' pm'" and "free_frames fl' = free_frames fl - {i}" and "i \<in> free_frames fl"
    and "in_frame base pm t1 i" and "\<And>t j. in_frame base pm' t j \<longleftrightarrow> in_frame base pm t j"
    and "PAGE_IS_USED (frame_at (0, i) pm')" and "\<not> PAGE_IS_RESERVED (frame_at (0, i) pm')"
    and "pf_order (frame_at (0, i) pm') = 0" and "pf_usecnt (frame_at (0, i) pm') = 1"
    and "\<And>j. j \<notin> free_frames fl \<Longrightarrow> frame_at (0, j) pm' = frame_at (0, j) pm"
    and "pm_ram pm' = clear_memory t1 4096 (pm_ram pm)" and "frame_paddr pm' = frame_paddr pm"
    and "pm_cpu pm' = pm_cpu pm"
proof -
  note env' = env [unfolded vm_env_def]
  obtain j0 where "j0 \<in> free_frames fl" using room by blast
  then have ex: "\<exists>j. (2::nat) ^ 0 dvd j \<and> block 0 j \<subseteq> free_frames fl" by auto
  have usage: "PAGE_STATE_UCASE_PGTBL \<in> page_usages" by (simp add: page_usages_def)
  have ord: "0 < PAGE_POOL_MAX_ORDER" by (simp add: PAGE_POOL_MAX_ORDER_def)
  have bound: "4096 * max_pfn (the_area pm) + unat base < 2 ^ 64" using env' by linarith
  have last: "max_pfn (the_area pm) - min_pfn (the_area pm) - 1 \<notin> free_frames fl" using env' by blast
  obtain i kv P fl' where get: "pgif_get_free_page_cluster base 0 KMALLOC_NORMAL PAGE_STATE_UCASE_PGTBL (pm_db pm) (pm_ram pm) (pm_cpu pm) =
      Some (Inr kv, set_pool 0 P (pm_db pm),
        if KMALLOC_NORMAL AND KM_SFLAGS_CLR_NONE = 0 then clear_memory kv (push_bit 0 PAGE_SIZE) (pm_ram pm) else pm_ram pm, pm_cpu pm)"
    and kv: "unat kv = unat base + 4096 * (min_pfn (the_area pm) + i)" "min_pfn (the_area pm) + i + 1 < max_pfn (the_area pm)"
      "block 0 i \<subseteq> free_frames fl"
    and ok: "area_ok (set_pool 0 P (pm_db pm)) 0 fl'" "free_frames fl' = free_frames fl - block 0 i"
    and P: "allocated 0 PAGE_STATE_UCASE_PGTBL i P" "\<forall>j. j \<notin> free_frames fl \<longrightarrow> array P ! j = array (page_pool (the_area pm)) ! j"
      "pool_min_pfn P = min_pfn (the_area pm)" "map_counts P = map_counts (page_pool (the_area pm))"
    using get_free_cluster_run [OF _ _ refl refl _ last bound usage ord ex] env' by metis
  define pm' where "pm' = pm\<lparr>pm_db := set_pool 0 P (pm_db pm), pm_ram := clear_memory kv 4096 (pm_ram pm)\<rparr>"
  have at: "the_area pm' = (the_area pm)\<lparr>page_pool := P\<rparr>"
    using env' by (simp add: pm'_def)
  have frame: "in_frame base pm kv i" using kv by (simp add: in_frame_def)
  show thesis
  proof (rule that)
    show "pgtbl_alloc_pgtbl_page base pgt pm =
      Some (Inr (kv, frame_paddr pm i), pgt\<lparr>pgtbl_nr_pages := snd (statcnt_inc (pgtbl_nr_pages pgt))\<rparr>, pm')"
      using get frame_paddr_facts(1) [OF env frame]
      by (simp add: pgtbl_alloc_pgtbl_page_def pgif_get_free_page_def KMALLOC_NORMAL_def PAGE_SIZE_def pm'_def)
    show "vm_env base fl' pm'"
      using env' ok P(3,4) at by (simp add: vm_env_def) (simp add: pm'_def)
    show "i \<in> free_frames fl" "free_frames fl' = free_frames fl - {i}"
      using kv(3) ok(2) by simp_all
    show "in_frame base pm' t j \<longleftrightarrow> in_frame base pm t j" for t j
      using at by (simp add: in_frame_def)
    show "PAGE_IS_USED (frame_at (0, i) pm')" "\<not> PAGE_IS_RESERVED (frame_at (0, i) pm')"
      "pf_order (frame_at (0, i) pm') = 0" "pf_usecnt (frame_at (0, i) pm') = 1"
      using P(1) at by (simp_all add: frame_at_def allocated_def REFCNT_INITIAL_VAL_def)
    show "frame_at (0, j) pm' = frame_at (0, j) pm" if "j \<notin> free_frames fl" for j
      using P(2) at that by (simp add: frame_at_def)
    show "frame_paddr pm' = frame_paddr pm"
      using at by (intro ext) (simp add: frame_paddr_def)
  qed (simp_all add: frame pm'_def)
qed

end
