(* ===== verification/PgtblGrow.thy ===== *)
theory PgtblGrow
  imports PgtblFrames
begin

unbundle bit_operations_syntax

text \<open>
  The loop of \<open>map_vaddr_to_paddr\<close>: the three outcomes of \<open>grow_pgtbl\<close>, the entry of one page at
  any depth, and of a row of pages.
\<close>

section \<open>One step of the growth\<close>

lemma pagesize_eq: "d \<le> 2 \<Longrightarrow> e \<le> 2 \<Longrightarrow> rv64_pgtbl_calc_pagesize (2 - d) = rv64_pgtbl_calc_pagesize (2 - e) \<longleftrightarrow> d = e"
proof -
  assume "d \<le> 2" "e \<le> 2"
  then have "d = 0 \<or> d = 1 \<or> d = 2" "e = 0 \<or> e = 1 \<or> e = 2" by auto
  then show ?thesis
    by (auto simp: rv64_pgtbl_calc_pagesize_def rv64_pgtbl_vpn_lvl_to_indexshift_def RV64_PGTBL_LINER_ADDR_BITS_def
        RV64_PGTBL_LVL_NR_def RV64_PGTBL_INDEX_BITS_def)
qed

lemma pt_inv_frame:
  "pt_inv base fl root pm \<Longrightarrow> d \<le> 2 \<Longrightarrow> table_at base (pm_ram pm) root d v = Some t \<Longrightarrow> \<exists>i. table_frame base pm t i"
  by (auto simp: pt_inv_def)

lemma vm_env_ram [simp]: "vm_env base fl (pm\<lparr>pm_ram := r\<rparr>) \<longleftrightarrow> vm_env base fl pm"
  by (simp add: vm_env_def)

lemma in_frame_ram [simp]: "in_frame base (pm\<lparr>pm_ram := r\<rparr>) t i \<longleftrightarrow> in_frame base pm t i"
  by (simp add: in_frame_def)

lemma frame_at_ram [simp]: "frame_at pf (pm\<lparr>pm_ram := r\<rparr>) = frame_at pf pm"
  by (simp add: frame_at_def)

text \<open>A valid entry is followed.\<close>

lemma grow_follow:
  assumes inv: "pt_inv base fl root pm" and d: "d \<le> 2" "table_at base (pm_ram pm) root d v = Some t"
    and valid: "RV64_PTE_IS_VALID (entry_of (pm_ram pm) t d v)"
    and smaller: "rv64_pgtbl_calc_pagesize (2 - d) \<noteq> pgsize"
    and tbl: "pfdb_paddr_to_kvaddr base (RV64_PTE_TO_PADDR (entry_of (pm_ram pm) t d v)) = Inr t'"
  shows "grow_pgtbl base t (2 - d) v paddr prot flgs pgsize pgt pm = Some (Inr (Some t'), False, pgt, pm)"
proof -
  obtain i where "table_frame base pm t i" using pt_inv_frame [OF inv d] by blast
  then have "frame_of base t pm = Some ((0, i), pm)"
    using frame_of_run [of base fl pm t i] inv by (simp add: pt_inv_def table_frame_def)
  then show ?thesis
    using valid smaller tbl d by (simp add: grow_pgtbl_def entry_of_def RV64_PGTBL_LVL_NR_def Let_def)
qed

lemma grow_busy:
  assumes inv: "pt_inv base fl root pm" and d: "d \<le> 2" "table_at base (pm_ram pm) root d v = Some t"
    and valid: "RV64_PTE_IS_VALID (entry_of (pm_ram pm) t d v)"
  shows "grow_pgtbl base t (2 - d) v paddr prot flgs (rv64_pgtbl_calc_pagesize (2 - d)) pgt pm =
    Some (Inl EBUSY, False, pgt, pm)"
proof -
  obtain i where "table_frame base pm t i" using pt_inv_frame [OF inv d] by blast
  then have "frame_of base t pm = Some ((0, i), pm)"
    using frame_of_run [of base fl pm t i] inv by (simp add: pt_inv_def table_frame_def)
  then show ?thesis
    using valid d by (simp add: grow_pgtbl_def entry_of_def RV64_PGTBL_LVL_NR_def Let_def)
qed

text \<open>A page is entered.\<close>

lemma grow_leaf:
  assumes inv: "pt_inv base fl root pm" and d: "d \<le> 2" "table_at base (pm_ram pm) root d v = Some t"
    and old: "\<not> RV64_PTE_IS_VALID (entry_of (pm_ram pm) t d v)" and prot: "prot AND 7 \<noteq> 0"
  obtains pm' where "grow_pgtbl base t (2 - d) v paddr prot flgs (rv64_pgtbl_calc_pagesize (2 - d)) pgt pm =
      Some (Inr None, True, pgt, pm')"
    and "pt_inv base fl root pm'" and "pm_cpu pm' = pm_cpu pm"
    and "\<And>w. extract_loop base (pm_ram pm') w root 3 = (if same_way (Suc d) v w
      then Some (Inr (leaf_info (leaf_pte prot flgs paddr) d)) else extract_loop base (pm_ram pm) w root 3)"
    and "\<And>w. \<not> same_way (Suc d) v w \<Longrightarrow> slot_free base (pm_ram pm) root d w \<Longrightarrow> slot_free base (pm_ram pm') root d w"
proof -
  have env: "vm_env base fl pm" and ok: "tables_ok base (pm_ram pm) root"
    using inv by (simp_all add: pt_inv_def)
  obtain i where i: "table_frame base pm t i" using pt_inv_frame [OF inv d] by blast
  note i' = i [unfolded table_frame_def]
  let ?n = "valid_entries (pm_ram pm) t" and ?new = "leaf_pte prot flgs paddr"
  define ram' where "ram' = table_write t (vpn v (2 - d)) ?new (pm_ram pm)"
  define pm2 where "pm2 = pm\<lparr>pm_ram := ram'\<rparr>"
  define pm' where "pm' = set_count i (of_nat (Suc (Suc ?n))) pm2"
  have env2: "vm_env base fl pm2" and frame2: "in_frame base pm2 t i" "PAGE_IS_USED (frame_at (0, i) pm2)"
    using env i' by (simp_all add: pm2_def)
  note count = set_count_env [OF env2 frame2, where n = "of_nat (Suc (Suc ?n))", folded pm'_def]
  have inc: "inc_use_count (0, i) pm2 = Some (True, pm')"
    unfolding pm'_def using i' by (intro inc_use_count_run [OF env2]) (simp_all add: pm2_def valid_entries_le)
  have leaf: "RV64_PTE_IS_LEAF ?new" using prot leaf_pte_leaf by simp
  note written = leaf_write [OF ok d old leaf_pte_valid leaf ram'_def]
  have al: "page_aligned t" using in_frame_aligned [OF env] i' by blast
  have "table_frame base pm' t' j" if t': "table_frame base pm t' j" for t' j
  proof -
    have "page_aligned t'" using in_frame_aligned [OF env, of t' j] t' by (simp add: table_frame_def)
    then have entries: "valid_entries ram' t' = (if t' = t then Suc ?n else valid_entries (pm_ram pm) t')"
      using valid_entries_write [OF al _ _ _ leaf_pte_valid] old by (simp add: ram'_def index_less entry_of_def)
    have "j = i \<longleftrightarrow> t' = t"
      using in_frame_same [of base pm t i t'] in_frame_unique [of base pm t i j] i' t' by (auto simp: table_frame_def)
    then show ?thesis
      using t' count(2-4) entries
      by (cases "j = i") (simp_all add: table_frame_def PAGE_IS_USED_def PAGE_IS_RESERVED_def pm2_def)
  qed
  then have "pt_inv base fl root pm'"
    using inv count(1,4) written(1) leaf_write_tables [OF ok d old leaf ram'_def]
    by (simp add: pt_inv_def pm2_def) (meson order.trans numeral_le_iff semiring_norm)
  moreover have "frame_of base t pm = Some ((0, i), pm)"
    using frame_of_run [OF env] i' by simp
  then have "grow_pgtbl base t (2 - d) v paddr prot flgs (rv64_pgtbl_calc_pagesize (2 - d)) pgt pm = Some (Inr None, True, pgt, pm')"
    using old d inc by (simp add: grow_pgtbl_def entry_of_def RV64_PGTBL_LVL_NR_def pm2_def ram'_def leaf_pte_def Let_def)
  ultimately show thesis
    using that written(2) slot_free_leaf [OF ok d old leaf] count(4,5) by (simp add: pm2_def ram'_def)
qed

text \<open>A table is added.\<close>

lemma grow_table:
  assumes inv: "pt_inv base fl root pm" and d: "d \<le> 1" "table_at base (pm_ram pm) root d v = Some t"
    and old: "\<not> RV64_PTE_IS_VALID (entry_of (pm_ram pm) t d v)"
    and smaller: "rv64_pgtbl_calc_pagesize (2 - d) \<noteq> pgsize" and room: "free_frames fl \<noteq> {}"
  obtains t1 i pm' fl' where "grow_pgtbl base t (2 - d) v paddr prot flgs pgsize pgt pm =
      Some (Inr (Some t1), True, pgt\<lparr>pgtbl_nr_pages := snd (statcnt_inc (pgtbl_nr_pages pgt))\<rparr>, pm')"
    and "pt_inv base fl' root pm'" and "pm_cpu pm' = pm_cpu pm"
    and "i \<in> free_frames fl" and "free_frames fl' = free_frames fl - {i}"
    and "table_at base (pm_ram pm') root (Suc d) v = Some t1" and "\<And>d' w. entry_of (pm_ram pm') t1 d' w = 0"
    and "\<And>w. extract_loop base (pm_ram pm') w root 3 = extract_loop base (pm_ram pm) w root 3"
    and "\<And>e w. slot_free base (pm_ram pm) root e w \<Longrightarrow> d < e \<Longrightarrow> e \<le> 2 \<Longrightarrow> slot_free base (pm_ram pm') root e w"
proof -
  have env: "vm_env base fl pm" and ok: "tables_ok base (pm_ram pm) root" and d2: "d \<le> 2"
    using inv d by (simp_all add: pt_inv_def)
  obtain i where i: "table_frame base pm t i" using pt_inv_frame [OF inv d2 d(2)] by blast
  note i' = i [unfolded table_frame_def]
  let ?n = "valid_entries (pm_ram pm) t"
  obtain t1 k pm2 fl' where alloc: "pgtbl_alloc_pgtbl_page base pgt pm =
      Some (Inr (t1, frame_paddr pm k), pgt\<lparr>pgtbl_nr_pages := snd (statcnt_inc (pgtbl_nr_pages pgt))\<rparr>, pm2)"
    and pm2: "vm_env base fl' pm2" "free_frames fl' = free_frames fl - {k}" "k \<in> free_frames fl"
      "in_frame base pm t1 k" "\<And>t j. in_frame base pm2 t j \<longleftrightarrow> in_frame base pm t j"
    and frame1: "PAGE_IS_USED (frame_at (0, k) pm2)" "\<not> PAGE_IS_RESERVED (frame_at (0, k) pm2)"
      "pf_order (frame_at (0, k) pm2) = 0" "pf_usecnt (frame_at (0, k) pm2) = 1"
    and keep: "\<And>j. j \<notin> free_frames fl \<Longrightarrow> frame_at (0, j) pm2 = frame_at (0, j) pm"
    and ram2: "pm_ram pm2 = clear_memory t1 4096 (pm_ram pm)" and cpu2: "pm_cpu pm2 = pm_cpu pm"
    using alloc_table_run [OF env room, of pgt] by metis
  note pa = frame_paddr_facts [OF env pm2(4)]
  let ?new = "table_pte (frame_paddr pm k)"
  have new: "next_table base ?new = Some t1"
    using pa(2) table_pte_facts pa(3,4) by (simp add: next_table_def)
  have used: "j \<notin> free_frames fl" if "table_frame base pm t' j" for t' j
    using that used_not_free [OF env, of t' j] by (simp add: table_frame_def)
  have al: "page_aligned t" "page_aligned t1" using in_frame_aligned [OF env] i' pm2(4) by blast+
  have fresh: "table_at base (pm_ram pm) root d' w \<noteq> Some t1" if "d' \<le> 2" for d' w
    using pt_inv_frame [OF inv that, of w t1] in_frame_unique [OF pm2(4)] used pm2(3) by (auto simp: table_frame_def)
  define pm3 where "pm3 = set_count i (of_nat (Suc (Suc ?n))) pm2"
  define ram' where "ram' = table_write t (vpn v (2 - d)) ?new (clear_memory t1 4096 (pm_ram pm))"
  define pm' where "pm' = pm3\<lparr>pm_ram := ram'\<rparr>"
  have at2: "in_frame base pm2 t i" "frame_at (0, i) pm2 = frame_at (0, i) pm"
    using i' pm2(5) keep [OF used [OF i]] by simp_all
  have "PAGE_IS_USED (frame_at (0, i) pm2)" using at2(2) i' by simp
  note count = set_count_env [OF pm2(1) at2(1) this, where n = "of_nat (Suc (Suc ?n))", folded pm3_def]
  have inc: "inc_use_count (0, i) pm2 = Some (True, pm3)"
    unfolding pm3_def using i' at2 by (intro inc_use_count_run [OF pm2(1)]) (simp_all add: valid_entries_le)
  note tables = table_write_tables [OF ok d old al(2) fresh new ram'_def]
  note written = table_entry_write [OF ok d old al(2) fresh new ram'_def]
  have "t \<noteq> t1" using fresh [OF d2] d(2) by auto
  then have ki: "k \<noteq> i" using in_frame_same [OF pm2(4)] i' by blast
  have old_frame: "table_frame base pm' t' j" if t': "table_frame base pm t' j" for t' j
  proof -
    have al': "page_aligned t'" using in_frame_aligned [OF env, of t' j] t' by (simp add: table_frame_def)
    have "t' \<noteq> t1" using in_frame_unique [OF pm2(4)] used [OF t'] pm2(3) t' by (auto simp: table_frame_def)
    then have "valid_entries (clear_memory t1 4096 (pm_ram pm)) t' = valid_entries (pm_ram pm) t'"
      using valid_entries_clear [OF al' al(2)] by simp
    moreover have "valid_entries (clear_memory t1 4096 (pm_ram pm)) t = ?n"
      using valid_entries_clear [OF al] \<open>t \<noteq> t1\<close> by simp
    moreover have "\<not> RV64_PTE_IS_VALID (table_read (clear_memory t1 4096 (pm_ram pm)) t (vpn v (2 - d)))"
      using old \<open>t \<noteq> t1\<close> table_read_clear [OF al] by (simp add: entry_of_def index_less)
    ultimately have entries: "valid_entries ram' t' = (if t' = t then Suc ?n else valid_entries (pm_ram pm) t')"
      using valid_entries_write [OF al(1) al' _ _ table_pte_facts(1)] by (simp add: ram'_def index_less)
    have "j = i \<longleftrightarrow> t' = t"
      using in_frame_same [of base pm t i t'] in_frame_unique [of base pm t i j] i' t' by (auto simp: table_frame_def)
    then show ?thesis
      using t' count(2,3) entries keep [OF used [OF t']] pm2(5) at2
      by (cases "j = i") (simp_all add: table_frame_def PAGE_IS_USED_def PAGE_IS_RESERVED_def pm'_def)
  qed
  have "valid_entries ram' t1 = 0"
    using valid_entries_write [OF al _ _ table_pte_facts(1)] valid_entries_clear [OF al(2) al(2)]
      old \<open>t \<noteq> t1\<close> table_read_clear [OF al] by (simp add: ram'_def index_less entry_of_def)
  then have "table_frame base pm' t1 k"
    using frame1 ki count(2,3) pm2(4,5) by (simp add: table_frame_def pm'_def)
  then have "\<exists>j. table_frame base pm' t' j" if "d' \<le> 2" "table_at base ram' root d' w = Some t'" for d' w t'
    using that tables(3) [of d' w] pt_inv_frame [OF inv that(1), of w t'] old_frame by (auto split: if_splits)
  then have "pt_inv base fl' root pm'"
    using count(1) written(1) by (simp add: pt_inv_def pm'_def)
  moreover have "frame_of base t pm = Some ((0, i), pm)"
    using frame_of_run [OF env] i' by simp
  then have "grow_pgtbl base t (2 - d) v paddr prot flgs pgsize pgt pm =
      Some (Inr (Some t1), True, pgt\<lparr>pgtbl_nr_pages := snd (statcnt_inc (pgtbl_nr_pages pgt))\<rparr>, pm')"
    using old d smaller alloc inc pa(2) count(4) ram2
    by (simp add: grow_pgtbl_def entry_of_def RV64_PGTBL_LVL_NR_def pm'_def ram'_def table_pte_def Let_def)
  ultimately show thesis
    using that [of t1 pm' fl' k] written(2) slot_free_table [OF ok d old al(2) fresh new ram'_def] tables(2) tables(3) [of "Suc d" v] d(1) count(5) cpu2 pm2(2,3) by (simp add: pm'_def)
qed

section \<open>Entering one page\<close>

text \<open>The results of \<open>hal_pgtbl_extract\<close> after a page has been entered at depth \<open>e\<close> for \<open>v\<close>.\<close>

definition page_view :: "u64 \<Rightarrow> (u64 \<Rightarrow> u8) \<Rightarrow> u64 \<Rightarrow> u64 \<Rightarrow> (errno + mapping_info) option" where
  "page_view base ram root w = extract_loop base ram w root 3"

definition entered ::
    "nat \<Rightarrow> u64 \<Rightarrow> u64 \<Rightarrow> u32 \<Rightarrow> u32 \<Rightarrow> (u64 \<Rightarrow> (errno + mapping_info) option) \<Rightarrow> u64 \<Rightarrow> (errno + mapping_info) option" where
  "entered e v paddr prot flgs view w =
     (if same_way (Suc e) v w then Some (Inr (leaf_info (leaf_pte prot flgs paddr) e)) else view w)"

text \<open>\<open>pages\<close> pages have been taken for tables and are counted.\<close>

definition pages_taken :: "(nat \<Rightarrow> nat list) \<Rightarrow> (nat \<Rightarrow> nat list) \<Rightarrow> vm_pgtbl_type \<Rightarrow> vm_pgtbl_type \<Rightarrow> nat \<Rightarrow> bool" where
  "pages_taken fl fl' pgt pgt' m \<longleftrightarrow>
     free_frames fl' \<subseteq> free_frames fl \<and> card (free_frames fl) \<le> card (free_frames fl') + m \<and>
     (\<exists>k\<le>m. card (free_frames fl) = card (free_frames fl') + k \<and>
        pgt' = pgt\<lparr>pgtbl_nr_pages := pgtbl_nr_pages pgt + of_nat k\<rparr>)"

lemma pages_taken_refl [simp]: "pages_taken fl fl pgt pgt m"
  by (auto simp: pages_taken_def intro: exI [of _ 0])

lemma pages_taken_trans:
  "pages_taken fl fl' pgt pgt' m \<Longrightarrow> pages_taken fl' fl'' pgt' pgt'' n \<Longrightarrow> pages_taken fl fl'' pgt pgt'' (m + n)"
proof -
  assume "pages_taken fl fl' pgt pgt' m" and "pages_taken fl' fl'' pgt' pgt'' n"
  then obtain k j where "k \<le> m" "card (free_frames fl) = card (free_frames fl') + k"
      "pgt' = pgt\<lparr>pgtbl_nr_pages := pgtbl_nr_pages pgt + of_nat k\<rparr>"
    and "j \<le> n" "card (free_frames fl') = card (free_frames fl'') + j"
      "pgt'' = pgt'\<lparr>pgtbl_nr_pages := pgtbl_nr_pages pgt' + of_nat j\<rparr>"
    and "free_frames fl'' \<subseteq> free_frames fl' \<and> free_frames fl' \<subseteq> free_frames fl"
    by (auto simp: pages_taken_def)
  then show ?thesis
    unfolding pages_taken_def by (intro conjI exI [of _ "k + j"]) (auto simp: add.assoc)
qed

lemma one_page_taken:
  assumes "i \<in> free_frames fl" "free_frames fl' = free_frames fl - {i}" "0 < card (free_frames fl)"
  shows "pages_taken fl fl' pgt (pgt\<lparr>pgtbl_nr_pages := snd (statcnt_inc (pgtbl_nr_pages pgt))\<rparr>) 1"
proof -
  have "snd (statcnt_inc n) = n + 1" for n
    by (simp add: statcnt_inc_def statcnt_add_def atomic64_add_return_def atomic64_add_fetch_def hal_atomic_defs)
  with assms show ?thesis
    unfolding pages_taken_def by (intro conjI exI [of _ 1]) (auto simp: card_Diff_singleton)
qed

lemma grow_loop_run:
  assumes "pt_inv base fl root pm" and "d \<le> e" "e \<le> 2" and "table_at base (pm_ram pm) root d v = Some t"
    and "slot_free base (pm_ram pm) root e v" and "prot AND 7 \<noteq> 0" and "e - d \<le> card (free_frames fl)"
  shows "\<exists>pgt' pm' fl'. grow_loop base t v paddr prot flgs (rv64_pgtbl_calc_pagesize (2 - e)) (3 - d) pgt pm =
      Some (Inr (), pgt', pm') \<and> pt_inv base fl' root pm' \<and> pages_taken fl fl' pgt pgt' (e - d) \<and> pm_cpu pm' = pm_cpu pm \<and>
      page_view base (pm_ram pm') root = entered e v paddr prot flgs (page_view base (pm_ram pm) root) \<and>
      (\<forall>w. \<not> same_way (Suc e) v w \<longrightarrow> slot_free base (pm_ram pm) root e w \<longrightarrow> slot_free base (pm_ram pm') root e w)"
  using assms
proof (induction "e - d" arbitrary: d t pgt pm fl)
  case 0
  then have "d = e" by simp
  then have old: "\<not> RV64_PTE_IS_VALID (entry_of (pm_ram pm) t e v)" and at: "table_at base (pm_ram pm) root e v = Some t"
    using slot_free_step 0 by blast+
  obtain pm' where step: "grow_pgtbl base t (2 - e) v paddr prot flgs (rv64_pgtbl_calc_pagesize (2 - e)) pgt pm =
      Some (Inr None, True, pgt, pm')" and pm': "pt_inv base fl root pm'" "pm_cpu pm' = pm_cpu pm"
    and view: "\<And>w. extract_loop base (pm_ram pm') w root 3 = (if same_way (Suc e) v w
      then Some (Inr (leaf_info (leaf_pte prot flgs paddr) e)) else extract_loop base (pm_ram pm) w root 3)"
    and free: "\<And>w. \<not> same_way (Suc e) v w \<Longrightarrow> slot_free base (pm_ram pm) root e w \<Longrightarrow> slot_free base (pm_ram pm') root e w"
    using grow_leaf [OF 0(2,4) at old 0(7)] by metis
  have "3 - e = Suc (2 - e)" using 0 by simp
  then have "grow_loop base t v paddr prot flgs (rv64_pgtbl_calc_pagesize (2 - e)) (3 - d) pgt pm = Some (Inr (), pgt, pm')"
    unfolding \<open>d = e\<close> by (simp only: grow_loop.simps step bind.bind_lunit split sum.case simp_thms if_True)
  moreover have "page_view base (pm_ram pm') root = entered e v paddr prot flgs (page_view base (pm_ram pm) root)"
    by (rule ext) (simp only: page_view_def entered_def view)
  ultimately show ?case
    using pm' free pages_taken_refl by blast
next
  case (Suc n)
  then have d: "d < e" "d \<le> 2" "d \<le> 1" "3 - d = Suc (2 - d)" "2 - d = 3 - Suc d" by auto
  have smaller: "rv64_pgtbl_calc_pagesize (2 - d) \<noteq> rv64_pgtbl_calc_pagesize (2 - e)"
    using pagesize_eq [of d e] d(1,2) Suc.prems(3) by simp
  note IH = Suc.hyps(1) [of "Suc d"]
  show ?case
  proof (cases "RV64_PTE_IS_VALID (entry_of (pm_ram pm) t d v)")
    case True
    then have leaf: "\<not> RV64_PTE_IS_LEAF (entry_of (pm_ram pm) t d v)"
      using slot_free_step Suc.prems d by blast
    obtain t' where t': "pfdb_paddr_to_kvaddr base (RV64_PTE_TO_PADDR (entry_of (pm_ram pm) t d v)) = Inr t'"
      using kvaddr_total by blast
    then have at: "table_at base (pm_ram pm) root (Suc d) v = Some t'"
      using True leaf Suc.prems(4) by (simp add: next_table_def entry_of_def)
    obtain pgt' pm' fl' where "grow_loop base t' v paddr prot flgs (rv64_pgtbl_calc_pagesize (2 - e)) (3 - Suc d) pgt pm =
        Some (Inr (), pgt', pm')" "pt_inv base fl' root pm'" "pages_taken fl fl' pgt pgt' (e - Suc d)" "pm_cpu pm' = pm_cpu pm"
        "page_view base (pm_ram pm') root = entered e v paddr prot flgs (page_view base (pm_ram pm) root)"
        "\<forall>w. \<not> same_way (Suc e) v w \<longrightarrow> slot_free base (pm_ram pm) root e w \<longrightarrow> slot_free base (pm_ram pm') root e w"
      using IH [OF _ Suc.prems(1) _ Suc.prems(3) at Suc.prems(5,6), of pgt] Suc.hyps(2) Suc.prems(7) d(1) by force
    moreover have "pages_taken fl fl' pgt pgt' (e - d)"
      using pages_taken_trans [OF pages_taken_refl [of fl pgt 1] \<open>pages_taken fl fl' pgt pgt' (e - Suc d)\<close>] d(1)
      by (simp add: Suc_diff_Suc)
    ultimately show ?thesis
      using grow_follow [OF Suc.prems(1) d(2) Suc.prems(4) True smaller t', of paddr prot flgs pgt] smaller
      by (simp add: d(4) flip: d(5)) blast
  next
    case False
    have room: "0 < card (free_frames fl)" "free_frames fl \<noteq> {}"
    proof -
      show "0 < card (free_frames fl)" using Suc.prems(7) d(1) by linarith
      then show "free_frames fl \<noteq> {}" by force
    qed
    obtain t1 i pm1 fl1 where step: "grow_pgtbl base t (2 - d) v paddr prot flgs (rv64_pgtbl_calc_pagesize (2 - e)) pgt pm =
        Some (Inr (Some t1), True, pgt\<lparr>pgtbl_nr_pages := snd (statcnt_inc (pgtbl_nr_pages pgt))\<rparr>, pm1)"
      and pm1: "pt_inv base fl1 root pm1" "pm_cpu pm1 = pm_cpu pm"
      and fl1: "i \<in> free_frames fl" "free_frames fl1 = free_frames fl - {i}"
      and at: "table_at base (pm_ram pm1) root (Suc d) v = Some t1"
      and same: "\<And>w. extract_loop base (pm_ram pm1) w root 3 = extract_loop base (pm_ram pm) w root 3"
      and free: "\<And>e w. slot_free base (pm_ram pm) root e w \<Longrightarrow> d < e \<Longrightarrow> e \<le> 2 \<Longrightarrow> slot_free base (pm_ram pm1) root e w"
      using grow_table [OF Suc.prems(1) d(3) Suc.prems(4) False smaller room(2)] by metis
    let ?pgt = "pgt\<lparr>pgtbl_nr_pages := snd (statcnt_inc (pgtbl_nr_pages pgt))\<rparr>"
    have taken: "pages_taken fl fl1 pgt ?pgt 1"
      using one_page_taken [OF fl1 room(1)] .
    have "e - Suc d \<le> card (free_frames fl1)"
      using Suc.prems(7) fl1 room(1) d(1) by (simp add: card_Diff_singleton)
    then obtain pgt' pm' fl' where rest: "grow_loop base t1 v paddr prot flgs (rv64_pgtbl_calc_pagesize (2 - e)) (3 - Suc d) ?pgt pm1 =
        Some (Inr (), pgt', pm')" "pt_inv base fl' root pm'" "pages_taken fl1 fl' ?pgt pgt' (e - Suc d)" "pm_cpu pm' = pm_cpu pm1"
        "page_view base (pm_ram pm') root = entered e v paddr prot flgs (page_view base (pm_ram pm1) root)"
        "\<forall>w. \<not> same_way (Suc e) v w \<longrightarrow> slot_free base (pm_ram pm1) root e w \<longrightarrow> slot_free base (pm_ram pm') root e w"
      using IH [OF _ pm1(1) _ Suc.prems(3) at free [OF Suc.prems(5) d(1) Suc.prems(3)] Suc.prems(6), of ?pgt] Suc.hyps(2) d(1)
      by force
    have "page_view base (pm_ram pm1) root = page_view base (pm_ram pm) root"
      by (rule ext) (simp add: page_view_def same)
    moreover have "pages_taken fl fl' pgt pgt' (e - d)"
      using pages_taken_trans [OF taken rest(3)] d(1) by (simp add: Suc_diff_Suc)
    ultimately show ?thesis
      using step rest smaller pm1(2) free d(1) Suc.prems(3)
      by (simp add: d(4) flip: d(5)) blast
  qed
qed

lemma page_sizes:
  "rv64_pgtbl_calc_pagesize (2 - 0) = HAL_PAGE_SIZE_1G" "rv64_pgtbl_calc_pagesize (2 - 1) = HAL_PAGE_SIZE_2M"
  "rv64_pgtbl_calc_pagesize (2 - 2) = PAGE_SIZE"
  by (simp_all add: rv64_pgtbl_calc_pagesize_def rv64_pgtbl_vpn_lvl_to_indexshift_def RV64_PGTBL_LINER_ADDR_BITS_def
      RV64_PGTBL_LVL_NR_def RV64_PGTBL_INDEX_BITS_def HAL_PAGE_SIZE_1G_def HAL_PAGE_SIZE_2M_def PAGE_SIZE_def)

lemma map_aligned:
  assumes "PAGE_ALIGNED_COMMON v pgsize" "PAGE_ALIGNED_COMMON p pgsize"
  shows "map_vaddr_to_paddr base v p prot flgs pgsize pgt pm = do {
      (rc, pgt1, pm1) \<leftarrow> grow_loop base (pgtbl_base pgt) v p prot flgs pgsize RV64_PGTBL_LVL_NR pgt pm;
      (pgt2, pm2) \<leftarrow> (if rc = Inl ENOMEM then remove_table_reference base v pgt1 pm1 else Some (pgt1, pm1));
      Some (rc, pgt2, pm2)
    }"
proof -
  have "\<not> (pgsize = S \<and> (\<not> PAGE_ALIGNED_COMMON v S \<or> \<not> PAGE_ALIGNED_COMMON p S))" for S
    using assms by auto
  then show ?thesis
    by (simp only: map_vaddr_to_paddr_def if_False)
qed

lemma aligned_dvd: "e \<le> 2 \<Longrightarrow> PAGE_ALIGNED_COMMON a (rv64_pgtbl_calc_pagesize (2 - e)) \<longleftrightarrow> 2 ^ (30 - 9 * e) dvd unat a"
proof -
  assume e: "e \<le> 2"
  have "rv64_pgtbl_calc_pagesize (2 - e) = push_bit (30 - 9 * e) 1"
  proof -
    have "e = 0 \<or> e = 1 \<or> e = 2" using e by auto
    then show ?thesis by (auto simp: rv64_pgtbl_calc_pagesize_def rv64_pgtbl_vpn_lvl_to_indexshift_def
        RV64_PGTBL_LINER_ADDR_BITS_def RV64_PGTBL_LVL_NR_def RV64_PGTBL_INDEX_BITS_def)
  qed
  then show ?thesis
    using low_bits_clear [of "30 - 9 * e" a] by (simp add: PAGE_ALIGNED_COMMON_def)
qed

lemma map_page_run:
  assumes inv: "pt_inv base fl (pgtbl_base pgt) pm" and e: "e \<le> 2"
    and al: "PAGE_ALIGNED_COMMON v (rv64_pgtbl_calc_pagesize (2 - e))" "PAGE_ALIGNED_COMMON p (rv64_pgtbl_calc_pagesize (2 - e))"
    and free: "slot_free base (pm_ram pm) (pgtbl_base pgt) e v" and prot: "prot AND 7 \<noteq> 0" and room: "e \<le> card (free_frames fl)"
  obtains pgt' pm' fl' where "map_vaddr_to_paddr base v p prot flgs (rv64_pgtbl_calc_pagesize (2 - e)) pgt pm = Some (Inr (), pgt', pm')"
    and "pt_inv base fl' (pgtbl_base pgt) pm'" and "pages_taken fl fl' pgt pgt' e" and "pm_cpu pm' = pm_cpu pm"
    and "page_view base (pm_ram pm') (pgtbl_base pgt) = entered e v p prot flgs (page_view base (pm_ram pm) (pgtbl_base pgt))"
    and "\<And>w. \<not> same_way (Suc e) v w \<Longrightarrow> slot_free base (pm_ram pm) (pgtbl_base pgt) e w \<Longrightarrow>
      slot_free base (pm_ram pm') (pgtbl_base pgt) e w"
  using grow_loop_run [OF inv le0 e _ free prot, of "pgtbl_base pgt" p flgs pgt] room
    map_aligned [OF al, of base prot flgs pgt pm]
  by (auto simp: RV64_PGTBL_LVL_NR_def)

text \<open>The view after \<open>n\<close> pages have been entered in a row.\<close>

fun entered_pages ::
    "nat \<Rightarrow> nat \<Rightarrow> u64 \<Rightarrow> u64 \<Rightarrow> u32 \<Rightarrow> u32 \<Rightarrow> (u64 \<Rightarrow> (errno + mapping_info) option) \<Rightarrow> u64 \<Rightarrow> (errno + mapping_info) option" where
  "entered_pages e 0 v p prot flgs view = view"
| "entered_pages e (Suc n) v p prot flgs view =
     entered_pages e n (v + rv64_pgtbl_calc_pagesize (2 - e)) (p + rv64_pgtbl_calc_pagesize (2 - e)) prot flgs
       (entered e v p prot flgs view)"

lemma add_pages:
  assumes "e \<le> 2" "unat v + n * 2 ^ (30 - 9 * e) < 2 ^ 64"
  shows "unat (v + of_nat n * rv64_pgtbl_calc_pagesize (2 - e)) = unat v + n * 2 ^ (30 - 9 * e)"
proof -
  let ?P = "rv64_pgtbl_calc_pagesize (2 - e)"
  have "of_nat n * ?P = of_nat (n * unat ?P)" by simp
  moreover have "unat (of_nat (n * unat ?P) :: u64) = n * 2 ^ (30 - 9 * e)"
    unfolding pagesize_power [OF assms(1)] by (rule unat_of_nat_less) (use assms(2) in linarith)
  ultimately show ?thesis
    using assms(2) unat_add_less [of v "of_nat n * ?P"] by (simp only:)
qed

lemma aligned_next:
  assumes "e \<le> 2" "PAGE_ALIGNED_COMMON v (rv64_pgtbl_calc_pagesize (2 - e))"
  shows "PAGE_ALIGNED_COMMON (v + rv64_pgtbl_calc_pagesize (2 - e)) (rv64_pgtbl_calc_pagesize (2 - e))"
proof -
  let ?P = "rv64_pgtbl_calc_pagesize (2 - e)"
  have "2 ^ (30 - 9 * e) dvd (unat v + unat ?P) mod 2 ^ 64"
  proof (rule dvd_mod)
    show "2 ^ (30 - 9 * e) dvd unat v + unat ?P"
      using assms by (simp add: aligned_dvd pagesize_power)
    show "(2::nat) ^ (30 - 9 * e) dvd 2 ^ 64" by (rule le_imp_power_dvd) simp
  qed
  then show ?thesis
    using assms(1) by (simp add: aligned_dvd unat_word_ariths)
qed

lemma enter_loop_run:
  assumes "pt_inv base fl (pgtbl_base pgt) pm" "e \<le> 2" and "unat v + n * 2 ^ (30 - 9 * e) < 2 ^ 64" "n \<le> 2 ^ (9 + 9 * e)"
    and "\<And>k. k < n \<Longrightarrow> slot_free base (pm_ram pm) (pgtbl_base pgt) e (v + of_nat k * rv64_pgtbl_calc_pagesize (2 - e))"
    and "PAGE_ALIGNED_COMMON v (rv64_pgtbl_calc_pagesize (2 - e))" "PAGE_ALIGNED_COMMON p (rv64_pgtbl_calc_pagesize (2 - e))"
    and "prot AND 7 \<noteq> 0" and "n * e \<le> card (free_frames fl)"
  shows "\<exists>pgt' pm' fl'. enter_loop base prot flgs (rv64_pgtbl_calc_pagesize (2 - e))
      (v + of_nat n * rv64_pgtbl_calc_pagesize (2 - e)) v p pgt pm = Some (Inr (), pgt', pm') \<and>
    pt_inv base fl' (pgtbl_base pgt) pm' \<and> pages_taken fl fl' pgt pgt' (n * e) \<and> pm_cpu pm' = pm_cpu pm \<and>
    page_view base (pm_ram pm') (pgtbl_base pgt) = entered_pages e n v p prot flgs (page_view base (pm_ram pm) (pgtbl_base pgt))"
  using assms
proof (induction n arbitrary: v p pgt pm fl)
  case 0
  then show ?case by (subst enter_loop.simps) (auto intro: exI [of _ fl])
next
  case (Suc n)
  let ?P = "rv64_pgtbl_calc_pagesize (2 - e)" and ?root = "pgtbl_base pgt"
  have bound: "unat v + Suc n * 2 ^ (30 - 9 * e) < 2 ^ 64" using Suc.prems(3) .
  have "v < v + of_nat (Suc n) * ?P"
    using add_pages [OF Suc.prems(2) bound] by (simp add: word_less_nat_alt del: of_nat_Suc)
  have room: "e \<le> card (free_frames fl)" using Suc.prems(9) by simp
  have "slot_free base (pm_ram pm) ?root e v"
    using Suc.prems(5) [of 0] by simp
  then obtain pgt1 pm1 fl1 where step: "map_vaddr_to_paddr base v p prot flgs ?P pgt pm = Some (Inr (), pgt1, pm1)"
    and inv1: "pt_inv base fl1 ?root pm1" and taken: "pages_taken fl fl1 pgt pgt1 e" and cpu: "pm_cpu pm1 = pm_cpu pm"
    and view: "page_view base (pm_ram pm1) ?root = entered e v p prot flgs (page_view base (pm_ram pm) ?root)"
    and free: "\<And>w. \<not> same_way (Suc e) v w \<Longrightarrow> slot_free base (pm_ram pm) ?root e w \<Longrightarrow> slot_free base (pm_ram pm1) ?root e w"
    using map_page_run [OF Suc.prems(1,2,6,7) _ Suc.prems(8) room] by metis
  have root: "pgtbl_base pgt1 = ?root" using taken by (auto simp: pages_taken_def)
  have next_page: "unat (v + ?P) = unat v + 2 ^ (30 - 9 * e)"
    using add_pages [of e v 1] Suc.prems(2) bound by simp
  have "slot_free base (pm_ram pm1) ?root e (v + ?P + of_nat k * ?P)" if "k < n" for k
  proof (rule free)
    have "unat v + Suc k * 2 ^ (30 - 9 * e) \<le> unat v + Suc n * 2 ^ (30 - 9 * e)" using that by simp
    then have "unat (v + of_nat (Suc k) * ?P) = unat v + Suc k * 2 ^ (30 - 9 * e)"
      using add_pages [OF Suc.prems(2), of v "Suc k"] bound by linarith
    then show "\<not> same_way (Suc e) v (v + ?P + of_nat k * ?P)"
      using pages_differ [of e "v + ?P + of_nat k * ?P" v "Suc k"] that Suc.prems(2,4) by (simp add: same_way_page algebra_simps)
    show "slot_free base (pm_ram pm) ?root e (v + ?P + of_nat k * ?P)"
      using Suc.prems(5) [of "Suc k"] that by (simp add: algebra_simps)
  qed
  moreover have "unat (v + ?P) + n * 2 ^ (30 - 9 * e) < 2 ^ 64" using bound next_page by simp
  moreover have "n * e \<le> card (free_frames fl1)"
    using Suc.prems(9) taken by (auto simp: pages_taken_def)
  ultimately obtain pgt' pm' fl' where rest: "enter_loop base prot flgs ?P (v + ?P + of_nat n * ?P) (v + ?P) (p + ?P) pgt1 pm1 =
        Some (Inr (), pgt', pm')" "pt_inv base fl' ?root pm'" "pages_taken fl1 fl' pgt1 pgt' (n * e)" "pm_cpu pm' = pm_cpu pm1"
      "page_view base (pm_ram pm') ?root = entered_pages e n (v + ?P) (p + ?P) prot flgs (page_view base (pm_ram pm1) ?root)"
    using Suc.IH [of fl1 pgt1 pm1 "v + ?P" "p + ?P"] inv1 Suc.prems(2,4,8) aligned_next [OF Suc.prems(2,6)] aligned_next [OF Suc.prems(2,7)]
    unfolding root by force
  have "enter_loop base prot flgs ?P (v + of_nat (Suc n) * ?P) v p pgt pm = Some (Inr (), pgt', pm')"
    by (subst enter_loop.simps) (use \<open>v < _\<close> step rest(1) in \<open>simp add: algebra_simps\<close>)
  then show ?case
    using rest cpu view pages_taken_trans [OF taken rest(3)] by auto
qed

end
