(* ===== verification/PgtblEnter.thy ===== *)
theory PgtblEnter
  imports PgtblGrow
begin

unbundle bit_operations_syntax

text \<open>
  \<open>hal_pgtbl_enter\<close> of a range of pages, and the errors of the growth of the tables.
\<close>

lemma entered_pages_other:
  "(\<And>k. k < n \<Longrightarrow> \<not> same_way (Suc e) (v + of_nat k * rv64_pgtbl_calc_pagesize (2 - e)) w) \<Longrightarrow>
   entered_pages e n v p prot flgs view w = view w"
proof (induction n arbitrary: v p view)
  case (Suc n)
  have "\<not> same_way (Suc e) v w" using Suc.prems [of 0] by simp
  moreover have "\<not> same_way (Suc e) (v + rv64_pgtbl_calc_pagesize (2 - e) + of_nat k * rv64_pgtbl_calc_pagesize (2 - e)) w"
    if "k < n" for k
    using Suc.prems [of "Suc k"] that by (simp add: algebra_simps)
  ultimately show ?case
    using Suc.IH [of "v + rv64_pgtbl_calc_pagesize (2 - e)"] by (simp add: entered_def)
qed simp

lemma entered_pages_at:
  assumes "e \<le> 2" "unat v + n * 2 ^ (30 - 9 * e) < 2 ^ 64" "n \<le> 2 ^ (9 + 9 * e)" "k < n"
    and "same_way (Suc e) (v + of_nat k * rv64_pgtbl_calc_pagesize (2 - e)) w"
  shows "entered_pages e n v p prot flgs view w =
    Some (Inr (leaf_info (leaf_pte prot flgs (p + of_nat k * rv64_pgtbl_calc_pagesize (2 - e))) e))"
  using assms
proof (induction n arbitrary: v p view k)
  case (Suc n)
  let ?P = "rv64_pgtbl_calc_pagesize (2 - e)"
  have next_page: "unat (v + ?P) = unat v + 2 ^ (30 - 9 * e)"
    using add_pages [of e v 1] Suc.prems(1,2) by simp
  show ?case
  proof (cases k)
    case 0
    have "\<not> same_way (Suc e) (v + ?P + of_nat j * ?P) w" if "j < n" for j
    proof
      assume "same_way (Suc e) (v + ?P + of_nat j * ?P) w"
      then have same: "same_way (Suc e) v (v + of_nat (Suc j) * ?P)"
        using Suc.prems(5) 0 by (simp add: same_way_def algebra_simps)
      have "unat v + Suc j * 2 ^ (30 - 9 * e) \<le> unat v + Suc n * 2 ^ (30 - 9 * e)" using that by simp
      then have "unat (v + of_nat (Suc j) * ?P) = unat v + Suc j * 2 ^ (30 - 9 * e)"
        using add_pages [OF Suc.prems(1), of v "Suc j"] Suc.prems(2) by linarith
      then show False
        using pages_differ [OF Suc.prems(1), of "v + of_nat (Suc j) * ?P" v "Suc j"] same that Suc.prems(1,3)
        by (simp add: same_way_page)
    qed
    then show ?thesis
      using entered_pages_other [of n e "v + ?P" w "p + ?P" prot flgs "entered e v p prot flgs view"] Suc.prems(5) 0
      by (simp add: entered_def)
  next
    case (Suc j)
    have "unat (v + ?P) + n * 2 ^ (30 - 9 * e) < 2 ^ 64" using Suc.prems(2) next_page by simp
    then show ?thesis
      using Suc.IH [of "v + ?P" j "p + ?P"] Suc.prems \<open>k = Suc j\<close> by (simp add: algebra_simps)
  qed
qed simp

section \<open>Ranges\<close>

lemma enter_pgsize_cases:
  obtains e where "e \<le> 2" "enter_pgsize addrs = rv64_pgtbl_calc_pagesize (2 - e)"
    "e < 2 \<longrightarrow> all_aligned addrs (rv64_pgtbl_calc_pagesize (2 - e))"
proof -
  have "enter_pgsize addrs = HAL_PAGE_SIZE_1G \<and> all_aligned addrs HAL_PAGE_SIZE_1G \<or>
      enter_pgsize addrs = HAL_PAGE_SIZE_2M \<and> all_aligned addrs HAL_PAGE_SIZE_2M \<or> enter_pgsize addrs = PAGE_SIZE"
    by (auto simp: enter_pgsize_def)
  then show thesis
    using that [of 0] that [of 1] that [of 2] unfolding page_sizes [symmetric] by auto
qed

section \<open>An empty page table\<close>

lemma empty_table:
  assumes "\<And>v d. entry_of ram root d v = 0"
  shows "table_at base ram root d v = (if d = 0 then Some root else None)"
    and "extract_loop base ram v root 3 = Some (Inl ENOENT)" and "slot_free base ram root e v"
proof -
  have at: "table_at base ram root d v = (if d = 0 then Some root else None)" for d v
  proof (induction d)
    case (Suc d)
    then show ?case
      using assms [of d v] by (auto simp: entry_of_def next_table_def zero_pte split: option.split)
  qed simp
  then show "table_at base ram root d v = (if d = 0 then Some root else None)" .
  show "extract_loop base ram v root 3 = Some (Inl ENOENT)"
    using walk_entry [of 0 _ ram root v base, OF _ refl] assms [of 0 v] by (simp add: zero_pte)
  show "slot_free base ram root e v"
    using assms by (auto simp: slot_free_def at zero_pte split: if_splits)
qed

lemma new_table_inv:
  assumes env: "vm_env base fl pm" and room: "free_frames fl \<noteq> {}"
  obtains t1 pa pm' fl' i where "pgtbl_alloc_pgtbl_page base pgt pm =
      Some (Inr (t1, pa), pgt\<lparr>pgtbl_nr_pages := snd (statcnt_inc (pgtbl_nr_pages pgt))\<rparr>, pm')"
    and "pt_inv base fl' t1 pm'" and "i \<in> free_frames fl" and "free_frames fl' = free_frames fl - {i}"
    and "\<And>e v. slot_free base (pm_ram pm') t1 e v" and "\<And>v. extract_loop base (pm_ram pm') v t1 3 = Some (Inl ENOENT)"
proof -
  obtain t1 i pm' fl' where alloc: "pgtbl_alloc_pgtbl_page base pgt pm =
      Some (Inr (t1, frame_paddr pm i), pgt\<lparr>pgtbl_nr_pages := snd (statcnt_inc (pgtbl_nr_pages pgt))\<rparr>, pm')"
    and pm': "vm_env base fl' pm'" "free_frames fl' = free_frames fl - {i}" "i \<in> free_frames fl"
      "in_frame base pm t1 i" "\<And>t j. in_frame base pm' t j \<longleftrightarrow> in_frame base pm t j"
    and frame: "PAGE_IS_USED (frame_at (0, i) pm')" "\<not> PAGE_IS_RESERVED (frame_at (0, i) pm')"
      "pf_order (frame_at (0, i) pm') = 0" "pf_usecnt (frame_at (0, i) pm') = 1"
    and ram: "pm_ram pm' = clear_memory t1 4096 (pm_ram pm)"
    using alloc_table_run [OF env room, of pgt] by metis
  have al: "page_aligned t1" using in_frame_aligned [OF env pm'(4)] .
  have zero: "entry_of (pm_ram pm') t1 d v = 0" for d v
    using table_read_clear [OF al al] by (simp add: ram entry_of_def index_less)
  note empty = empty_table [OF zero]
  have "valid_entries (pm_ram pm') t1 = 0"
    using valid_entries_clear [OF al al] ram by simp
  then have "table_frame base pm' t1 i"
    using frame pm'(4,5) by (simp add: table_frame_def)
  moreover have "tables_ok base (pm_ram pm') t1"
    unfolding tables_ok_def empty using al by (auto split: if_splits)
  ultimately have "pt_inv base fl' t1 pm'"
    using pm'(1) unfolding pt_inv_def empty by (auto split: if_splits)
  then show thesis
    using that alloc pm'(2,3) empty(2,3) by blast
qed

lemma spare_env:
  obtains fl where "vm_env 0x80000000 fl \<lparr>pm_db = spare_db, pm_ram = ram, pm_cpu = c\<rparr>" and "free_frames fl = {..<7}"
proof -
  obtain fl where "area_ok spare_db 0 fl" "free_frames fl = {..<7}"
    using spare_db_ok by blast
  moreover have "length (dbroot spare_db) = 1" "min_pfn (dbroot spare_db ! 0) = 16" "max_pfn (dbroot spare_db ! 0) = 24"
    "pool_min_pfn (page_pool (dbroot spare_db ! 0)) = 16" "list_all (\<lambda>n. n = 0) (map_counts (page_pool (dbroot spare_db ! 0)))"
    by code_simp+
  ultimately show thesis
    using that [of fl] by (auto simp: vm_env_def page_aligned_def list_all_iff)
qed

lemma all_aligned_size:
  assumes al: "all_aligned addrs PAGE_SIZE" and e: "e \<le> 2" "enter_pgsize addrs = rv64_pgtbl_calc_pagesize (2 - e)"
  shows "all_aligned addrs (rv64_pgtbl_calc_pagesize (2 - e))"
  using enter_pgsize_cases [of addrs]
proof cases
  case (1 e')
  then have "e' = e" using e pagesize_eq [of e' e] by simp
  then show ?thesis
    using 1 al e(1) page_sizes(3) by (cases "e < 2") auto
qed

lemma range_pages:
  assumes e: "e \<le> 2" and al: "PAGE_ALIGNED_COMMON v (rv64_pgtbl_calc_pagesize (2 - e))"
      "PAGE_ALIGNED_COMMON (v + len) (rv64_pgtbl_calc_pagesize (2 - e))"
    and fits: "unat v + unat len < 2 ^ 64"
  shows "unat len = unat len div unat (rv64_pgtbl_calc_pagesize (2 - e)) * 2 ^ (30 - 9 * e)"
    and "len = of_nat (unat len div unat (rv64_pgtbl_calc_pagesize (2 - e))) * rv64_pgtbl_calc_pagesize (2 - e)"
proof -
  let ?P = "rv64_pgtbl_calc_pagesize (2 - e)"
  have "unat (v + len) = unat v + unat len"
    using fits by (intro unat_add_less) simp
  then have "2 ^ (30 - 9 * e) dvd unat v + unat len" "2 ^ (30 - 9 * e) dvd unat v"
    using al by (simp_all add: aligned_dvd [OF e])
  then have "2 ^ (30 - 9 * e) dvd unat len"
    using dvd_add_right_iff by blast
  then show len: "unat len = unat len div unat ?P * 2 ^ (30 - 9 * e)"
    by (simp add: pagesize_power [OF e])
  have "of_nat (unat len div unat ?P) * ?P = of_nat (unat len div unat ?P * unat ?P)" by simp
  also have "\<dots> = len" using len by (simp add: pagesize_power [OF e])
  finally show "len = of_nat (unat len div unat ?P) * ?P" by simp
qed

lemma page_of_range:
  assumes e: "e \<le> 2" and al: "PAGE_ALIGNED_COMMON p (rv64_pgtbl_calc_pagesize (2 - e))"
    and k: "k < n" "unat p + n * 2 ^ (30 - 9 * e) \<le> 2 ^ 56"
  shows "page_aligned (p + of_nat k * rv64_pgtbl_calc_pagesize (2 - e))"
    and "unat (p + of_nat k * rv64_pgtbl_calc_pagesize (2 - e)) < 2 ^ 56"
proof -
  let ?P = "rv64_pgtbl_calc_pagesize (2 - e)"
  have "Suc k * 2 ^ (30 - 9 * e) \<le> n * 2 ^ (30 - 9 * e)"
    using k(1) by (intro mult_le_mono1) simp
  moreover have "k * 2 ^ (30 - 9 * e) < Suc k * 2 ^ (30 - 9 * e)" by simp
  ultimately have less: "unat p + k * 2 ^ (30 - 9 * e) < 2 ^ 56" using k(2) by linarith
  then have eq: "unat (p + of_nat k * ?P) = unat p + k * 2 ^ (30 - 9 * e)"
    by (intro add_pages [OF e]) simp
  with less show "unat (p + of_nat k * ?P) < 2 ^ 56" by simp
  have "(2::nat) ^ 12 dvd 2 ^ (30 - 9 * e)" using e by (intro le_imp_power_dvd) simp
  then have "(4096::nat) dvd unat p + k * 2 ^ (30 - 9 * e)"
    using al dvd_trans by (force simp: aligned_dvd [OF e])
  then show "page_aligned (p + of_nat k * ?P)"
    by (simp add: page_aligned_def eq)
qed

lemma enter_range_run:
  assumes inv: "pt_inv base fl (pgtbl_base pgt) pm" and e: "e \<le> 2" and n: "n = unat len div unat P"
    and P: "P = enter_pgsize [vaddr, paddr, vaddr + len, paddr + len]" "P = rv64_pgtbl_calc_pagesize (2 - e)"
    and al: "all_aligned [vaddr, paddr, vaddr + len, paddr + len] PAGE_SIZE"
    and fits: "unat vaddr + unat len < 2 ^ 64" "unat len \<le> 2 ^ 39" "unat paddr + unat len \<le> 2 ^ 56"
    and free: "\<And>k. k < n \<Longrightarrow> slot_free base (pm_ram pm) (pgtbl_base pgt) e (vaddr + of_nat k * P)"
    and prot: "prot AND 7 \<noteq> 0" and room: "n * e \<le> card (free_frames fl)"
  obtains pgt' pm' fl' where "hal_pgtbl_enter base vaddr paddr prot flgs len pgt pm = Some (Inr (), pgt', pm')"
    and "pt_inv base fl' (pgtbl_base pgt) pm'" and "pages_taken fl fl' pgt pgt' (n * e)" and "pm_cpu pm' = pm_cpu pm"
    and "page_view base (pm_ram pm') (pgtbl_base pgt) =
      entered_pages e n vaddr paddr prot flgs (page_view base (pm_ram pm) (pgtbl_base pgt))"
    and "unat len = n * 2 ^ (30 - 9 * e)" and "n \<le> 2 ^ (9 + 9 * e)" and "PAGE_ALIGNED_COMMON paddr P"
proof -
  have all: "PAGE_ALIGNED_COMMON vaddr P" "PAGE_ALIGNED_COMMON paddr P" "PAGE_ALIGNED_COMMON (vaddr + len) P"
    using all_aligned_size [OF al e] P by (simp_all add: all_aligned_def)
  have len: "unat len = n * 2 ^ (30 - 9 * e)" "len = of_nat n * P"
    using range_pages [OF e _ _ fits(1)] all(1,3) unfolding n P(2) by blast+
  have nle: "n \<le> 2 ^ (9 + 9 * e)"
  proof (rule ccontr)
    assume "\<not> n \<le> 2 ^ (9 + 9 * e)"
    then have "2 ^ (9 + 9 * e) * 2 ^ (30 - 9 * e) < n * 2 ^ (30 - 9 * e)" by simp
    moreover have "(2::nat) ^ (9 + 9 * e) * 2 ^ (30 - 9 * e) = 2 ^ 39" using e by (simp flip: power_add)
    ultimately show False using fits(2) len(1) by simp
  qed
  have "hal_pgtbl_enter base vaddr paddr prot flgs len pgt pm = enter_loop base prot flgs P (vaddr + of_nat n * P) vaddr paddr pgt pm"
    unfolding len(2) [symmetric] hal_pgtbl_enter_def Let_def using al by (simp add: kassert_def flip: P(1))
  moreover have "\<exists>pgt' pm' fl'. enter_loop base prot flgs P (vaddr + of_nat n * P) vaddr paddr pgt pm = Some (Inr (), pgt', pm') \<and>
      pt_inv base fl' (pgtbl_base pgt) pm' \<and> pages_taken fl fl' pgt pgt' (n * e) \<and> pm_cpu pm' = pm_cpu pm \<and>
      page_view base (pm_ram pm') (pgtbl_base pgt) =
        entered_pages e n vaddr paddr prot flgs (page_view base (pm_ram pm) (pgtbl_base pgt))"
  proof (rule enter_loop_run [OF inv e, folded P(2), OF _ nle _ all(1,2) prot room])
    show "unat vaddr + n * 2 ^ (30 - 9 * e) < 2 ^ 64" using fits(1) len(1) by (simp only:)
  qed (rule free)
  ultimately show thesis
    using that len(1) nle all(2) by metis
qed

text \<open>
  C33: \<open>hal_pgtbl_enter\<close> of a range whose pages are free, with a frame for every table it may need. The
  size of its pages is the largest of 1 GiB, 2 MiB and 4 KiB that divides both ends of both ranges.
  The call cannot get stuck: it succeeds, keeps the typing and the use counts of the tables (the
  invariant \<open>pt_inv\<close>), takes at most one table for each level and page and counts them. Every address in the range
  is then translated to its physical page with the protection and the flags that were asked for, and
  every other address is translated as before. Addresses are compared as the hardware does, by the
  39 bits that Sv39 translates.
\<close>

theorem enter_maps_range:
  assumes "pt_inv base fl (pgtbl_base pgt) pm" and "e \<le> 2" and "n = unat len div unat P"
    and "P = enter_pgsize [vaddr, paddr, vaddr + len, paddr + len]" and "P = rv64_pgtbl_calc_pagesize (2 - e)"
    and "all_aligned [vaddr, paddr, vaddr + len, paddr + len] PAGE_SIZE"
    and "unat vaddr + unat len < 2 ^ 64" and "unat len \<le> 2 ^ 39" and "unat paddr + unat len \<le> 2 ^ 56"
    and "\<And>k. k < n \<Longrightarrow> slot_free base (pm_ram pm) (pgtbl_base pgt) e (vaddr + of_nat k * P)"
    and "prot AND 7 \<noteq> 0" and "n * e \<le> card (free_frames fl)"
  shows "\<exists>pgt' pm' fl'. hal_pgtbl_enter base vaddr paddr prot flgs len pgt pm = Some (Inr (), pgt', pm') \<and>
      pt_inv base fl' (pgtbl_base pgt') pm' \<and> pages_taken fl fl' pgt pgt' (n * e) \<and> pm_cpu pm' = pm_cpu pm \<and>
      (\<forall>k<n. \<forall>w. same_page P (vaddr + of_nat k * P) w \<longrightarrow> hal_pgtbl_extract base (pm_ram pm') pgt' w =
         Some (Inr (paddr + of_nat k * P, fst (map_attrs prot flgs), snd (map_attrs prot flgs), P))) \<and>
      (\<forall>w. (\<forall>k<n. \<not> same_page P (vaddr + of_nat k * P) w) \<longrightarrow>
         hal_pgtbl_extract base (pm_ram pm') pgt' w = hal_pgtbl_extract base (pm_ram pm) pgt w)"
proof -
  obtain pgt' pm' fl' where run: "hal_pgtbl_enter base vaddr paddr prot flgs len pgt pm = Some (Inr (), pgt', pm')"
      "pt_inv base fl' (pgtbl_base pgt) pm'" "pages_taken fl fl' pgt pgt' (n * e)" "pm_cpu pm' = pm_cpu pm"
    and view: "page_view base (pm_ram pm') (pgtbl_base pgt) =
      entered_pages e n vaddr paddr prot flgs (page_view base (pm_ram pm) (pgtbl_base pgt))"
    and len: "unat len = n * 2 ^ (30 - 9 * e)" "n \<le> 2 ^ (9 + 9 * e)" and al: "PAGE_ALIGNED_COMMON paddr P"
    using enter_range_run [OF assms(1-9) _ assms(11,12)] assms(10) by metis
  have root: "pgtbl_base pgt' = pgtbl_base pgt"
    using run(3) by (auto simp: pages_taken_def)
  have looked_up: "hal_pgtbl_extract base (pm_ram pm') pgt' w =
      entered_pages e n vaddr paddr prot flgs (\<lambda>w. hal_pgtbl_extract base (pm_ram pm) pgt w) w" for w
    using fun_cong [OF view, of w] by (simp add: page_view_def [abs_def] hal_pgtbl_extract_def root RV64_PGTBL_LVL_NR_def)
  have "hal_pgtbl_extract base (pm_ram pm') pgt' w =
      Some (Inr (paddr + of_nat k * P, fst (map_attrs prot flgs), snd (map_attrs prot flgs), P))"
    if "k < n" "same_page P (vaddr + of_nat k * P) w" for k w
  proof -
    have "unat paddr + n * 2 ^ (30 - 9 * e) \<le> 2 ^ 56" using assms(9) len(1) by simp
    then have "RV64_PTE_TO_PADDR (leaf_pte prot flgs (paddr + of_nat k * P)) = paddr + of_nat k * P"
      using page_of_range [OF assms(2) _ that(1)] al assms(5) by (intro leaf_pte_paddr) blast+
    then show ?thesis
      using entered_pages_at [OF assms(2) _ len(2) that(1)] assms(5,7) len(1) that(2) looked_up same_way_page [OF assms(2)]
      by (simp add: leaf_info_def leaf_pte_attrs)
  qed
  moreover have "hal_pgtbl_extract base (pm_ram pm') pgt' w = hal_pgtbl_extract base (pm_ram pm) pgt w"
    if "\<forall>k<n. \<not> same_page P (vaddr + of_nat k * P) w" for w
    using entered_pages_other [of n e vaddr w] that looked_up assms(5) same_way_page [OF assms(2)] by simp
  ultimately show ?thesis
    using run root by auto
qed

lemma spare_table:
  obtains pgt :: vm_pgtbl_type and pm fl where "pt_inv 0x80000000 fl (pgtbl_base pgt) pm" and "card (free_frames fl) = 6"
    and "\<And>e v. slot_free 0x80000000 (pm_ram pm) (pgtbl_base pgt) e v"
    and "\<And>v. extract_loop 0x80000000 (pm_ram pm) v (pgtbl_base pgt) 3 = Some (Inl ENOENT)"
proof -
  obtain fl where env: "vm_env 0x80000000 fl \<lparr>pm_db = spare_db, pm_ram = (\<lambda>_. 0), pm_cpu = sample_cpu\<rparr>" and fl: "free_frames fl = {..<7}"
    by (rule spare_env)
  have room: "free_frames fl \<noteq> {}" by (simp add: fl lessThan_empty_iff)
  let ?pgt = "\<lparr>pgtbl_base = 0, tblbase_paddr = 0, pgtbl_nr_pages = 0, satp = 0\<rparr>"
  obtain t1 pm' fl' i where pm': "pt_inv 0x80000000 fl' t1 pm'" "i \<in> free_frames fl" "free_frames fl' = free_frames fl - {i}"
      "\<And>e v. slot_free 0x80000000 (pm_ram pm') t1 e v" "\<And>v. extract_loop 0x80000000 (pm_ram pm') v t1 3 = Some (Inl ENOENT)"
    using new_table_inv [OF env room, of ?pgt] by metis
  moreover have "card (free_frames fl') = 6"
    using pm'(2,3) fl by (simp add: card_Diff_singleton)
  ultimately show thesis
    using that [of fl' "?pgt\<lparr>pgtbl_base := t1\<rparr>" pm'] by (simp only: vm_pgtbl_type.simps)
qed

theorem enter_maps_range_witness:
  "\<exists>pgt pm pgt' pm'. hal_pgtbl_enter 0x80000000 0x400000 0x80010000 3 0 0x2000 pgt pm = Some (Inr (), pgt', pm') \<and>
     hal_pgtbl_extract 0x80000000 (pm_ram pm) pgt 0x401234 = Some (Inl ENOENT) \<and>
     hal_pgtbl_extract 0x80000000 (pm_ram pm') pgt' 0x401234 = Some (Inr (0x80011000, 3, 0, 0x1000)) \<and>
     hal_pgtbl_extract 0x80000000 (pm_ram pm') pgt' 0x402000 = Some (Inl ENOENT)"
proof -
  let ?base = "0x80000000 :: u64" and ?v = "0x400000 :: u64" and ?p = "0x80010000 :: u64" and ?len = "0x2000 :: u64"
  obtain pgt :: vm_pgtbl_type and pm fl where inv: "pt_inv ?base fl (pgtbl_base pgt) pm" and room: "card (free_frames fl) = 6"
    and free: "\<And>e v. slot_free ?base (pm_ram pm) (pgtbl_base pgt) e v"
    and empty: "\<And>v. extract_loop ?base (pm_ram pm) v (pgtbl_base pgt) 3 = Some (Inl ENOENT)"
    using spare_table by metis
  have size: "enter_pgsize [?v, ?p, ?v + ?len, ?p + ?len] = 0x1000" "rv64_pgtbl_calc_pagesize (2 - 2) = 0x1000"
    "all_aligned [?v, ?p, ?v + ?len, ?p + ?len] PAGE_SIZE"
    by code_simp+
  have n: "2 = unat ?len div unat (0x1000 :: u64)" and prot: "(3 :: u32) AND 7 \<noteq> 0"
    and fits: "unat ?v + unat ?len < 2 ^ 64" "unat ?len \<le> 2 ^ 39" "unat ?p + unat ?len \<le> 2 ^ 56"
    by simp_all
  have room': "2 * 2 \<le> card (free_frames fl)" by (simp add: room)
  obtain pgt' pm' where run: "hal_pgtbl_enter ?base ?v ?p 3 0 ?len pgt pm = Some (Inr (), pgt', pm')"
    and mapped: "\<And>k w. k < 2 \<Longrightarrow> same_page 0x1000 (?v + of_nat k * 0x1000) w \<Longrightarrow> hal_pgtbl_extract ?base (pm_ram pm') pgt' w =
         Some (Inr (?p + of_nat k * 0x1000, fst (map_attrs 3 0), snd (map_attrs 3 0), 0x1000))"
    and others: "\<And>w. (\<forall>k<2. \<not> same_page 0x1000 (?v + of_nat k * 0x1000) w) \<Longrightarrow>
         hal_pgtbl_extract ?base (pm_ram pm') pgt' w = hal_pgtbl_extract ?base (pm_ram pm) pgt w"
    using enter_maps_range [OF inv order.refl n size(1) [symmetric] size(2) [symmetric] size(3) fits free prot room', of 0] by metis
  have pages: "same_page 0x1000 (?v + of_nat (Suc 0) * 0x1000) 0x401234" "\<not> same_page 0x1000 (?v + of_nat 0 * 0x1000) 0x402000"
      "\<not> same_page 0x1000 (?v + of_nat (Suc 0) * 0x1000) 0x402000"
    by (simp_all add: same_page_def unsigned_take_bit_eq take_bit_nat_def)
  have "map_attrs 3 0 = (3, 0)" by code_simp
  then have "hal_pgtbl_extract ?base (pm_ram pm') pgt' 0x401234 = Some (Inr (0x80011000, 3, 0, 0x1000))"
    using mapped [OF _ pages(1)] by simp
  moreover have "\<forall>k<2. \<not> same_page 0x1000 (?v + of_nat k * 0x1000) 0x402000"
    using pages(2,3) by (metis less_2_cases)
  ultimately show ?thesis
    using run others empty unfolding hal_pgtbl_extract_def RV64_PGTBL_LVL_NR_def by metis
qed

section \<open>Down to a table\<close>

lemma grow_loop_down:
  assumes inv: "pt_inv base fl root pm" and e: "e \<le> 2"
  shows "d \<le> e \<Longrightarrow> table_at base (pm_ram pm) root d v = Some t \<Longrightarrow>
    grow_loop base root v p prot flgs (rv64_pgtbl_calc_pagesize (2 - e)) 3 pgt pm =
    grow_loop base t v p prot flgs (rv64_pgtbl_calc_pagesize (2 - e)) (3 - d) pgt pm"
proof (induction d arbitrary: t)
  case (Suc d)
  then obtain t0 where t0: "table_at base (pm_ram pm) root d v = Some t0" "next_table base (entry_of (pm_ram pm) t0 d v) = Some t"
    by (auto simp: entry_of_def split: option.splits)
  then have valid: "RV64_PTE_IS_VALID (entry_of (pm_ram pm) t0 d v)"
    and kv: "pfdb_paddr_to_kvaddr base (RV64_PTE_TO_PADDR (entry_of (pm_ram pm) t0 d v)) = Inr t"
    by (auto simp: next_table_def split: if_splits sum.splits)
  have d: "d \<le> 2" "rv64_pgtbl_calc_pagesize (2 - d) \<noteq> rv64_pgtbl_calc_pagesize (2 - e)"
    using Suc.prems(1) e pagesize_eq [of d e] by simp_all
  have "3 - d = Suc (3 - Suc d)" "2 - d = 3 - Suc d" using Suc.prems(1) e by simp_all
  then have "grow_loop base t0 v p prot flgs (rv64_pgtbl_calc_pagesize (2 - e)) (3 - d) pgt pm =
      grow_loop base t v p prot flgs (rv64_pgtbl_calc_pagesize (2 - e)) (3 - Suc d) pgt pm"
    using grow_follow [OF inv d(1) t0(1) valid d(2) kv, of p prot flgs pgt] d(2)
    by (simp only: grow_loop.simps bind.bind_lunit split sum.case if_False eq_commute [of "rv64_pgtbl_calc_pagesize (2 - e)"])
  then show ?case using Suc.IH [OF _ t0(1)] Suc.prems(1) by simp
qed simp

lemma find_tables_step:
  assumes "RV64_PTE_IS_VALID (table_read ram t (vpn v lvl))" "\<not> RV64_PTE_IS_LEAF (table_read ram t (vpn v lvl))"
    and "pfdb_paddr_to_kvaddr base (RV64_PTE_TO_PADDR (table_read ram t (vpn v lvl))) = Inr t'" and "lvl = Suc l"
  shows "find_tables base ram v t lvl acc = find_tables base ram v t' l (acc(lvl := t))"
  using assms by (subst find_tables.simps) (simp add: Let_def)

lemma find_tables_stops:
  assumes "d \<le> 2" "table_at base ram root d v = Some t" "\<not> RV64_PTE_IS_VALID (entry_of ram t d v)"
  shows "find_tables base ram v root 2 acc = None"
proof -
  have "\<exists>acc'. find_tables base ram v root 2 acc = find_tables base ram v t (2 - d) acc'"
    if "d \<le> 2" "table_at base ram root d v = Some t" for d t
    using that
  proof (induction d arbitrary: t)
    case (Suc d)
    then obtain t0 where t0: "table_at base ram root d v = Some t0" "next_table base (entry_of ram t0 d v) = Some t"
      by (auto simp: entry_of_def split: option.splits)
    then have ent: "RV64_PTE_IS_VALID (entry_of ram t0 d v)" "\<not> RV64_PTE_IS_LEAF (entry_of ram t0 d v)"
      "pfdb_paddr_to_kvaddr base (RV64_PTE_TO_PADDR (entry_of ram t0 d v)) = Inr t"
      by (auto simp: next_table_def split: if_splits sum.splits)
    obtain acc' where "find_tables base ram v root 2 acc = find_tables base ram v t0 (2 - d) acc'"
      using Suc.IH [OF _ t0(1)] Suc.prems(1) by auto
    also have "find_tables base ram v t0 (2 - d) acc' = find_tables base ram v t (2 - Suc d) (acc'(2 - d := t0))"
      by (rule find_tables_step) (use ent Suc.prems(1) in \<open>simp_all add: entry_of_def\<close>)
    finally show ?case by blast
  qed auto
  then obtain acc' where "find_tables base ram v root 2 acc = find_tables base ram v t (2 - d) acc'"
    using assms(1,2) by blast
  then show ?thesis
    using assms(3) by (subst (asm) find_tables.simps) (simp add: entry_of_def Let_def)
qed

text \<open>No frame is free.\<close>

lemma alloc_table_none:
  assumes env: "vm_env base fl pm" and full: "free_frames fl = {}"
  shows "pgtbl_alloc_pgtbl_page base pgt pm = Some (Inl ENOMEM, pgt, pm)"
proof -
  have usage: "PAGE_STATE_UCASE_PGTBL \<in> page_usages" by (simp add: page_usages_def)
  have "\<not> (0 < PAGE_POOL_MAX_ORDER \<and> (\<exists>j. (2::nat) ^ 0 dvd j \<and> block 0 j \<subseteq> free_frames fl))"
    using full by simp
  then have "pgif_get_free_page_cluster base 0 KMALLOC_NORMAL PAGE_STATE_UCASE_PGTBL (pm_db pm) (pm_ram pm) (pm_cpu pm) =
      Some (Inl ENOMEM, pm_db pm, pm_ram pm, pm_cpu pm)"
    using env by (intro get_free_cluster_none [OF _ _ usage]) (auto simp: vm_env_def)
  then show ?thesis
    by (simp add: pgtbl_alloc_pgtbl_page_def pgif_get_free_page_def Let_def)
qed

lemma map_stops_without_memory:
  assumes inv: "pt_inv base fl (pgtbl_base pgt) pm" and e: "d < e" "e \<le> 2"
    and at: "table_at base (pm_ram pm) (pgtbl_base pgt) d v = Some t" "\<not> RV64_PTE_IS_VALID (entry_of (pm_ram pm) t d v)"
    and full: "free_frames fl = {}"
    and al: "PAGE_ALIGNED_COMMON v (rv64_pgtbl_calc_pagesize (2 - e))" "PAGE_ALIGNED_COMMON p (rv64_pgtbl_calc_pagesize (2 - e))"
  shows "map_vaddr_to_paddr base v p prot flgs (rv64_pgtbl_calc_pagesize (2 - e)) pgt pm = None"
proof -
  have d: "d \<le> 2" "3 - d = Suc (2 - d)" "rv64_pgtbl_calc_pagesize (2 - d) \<noteq> rv64_pgtbl_calc_pagesize (2 - e)"
    using e pagesize_eq [of d e] by simp_all
  have env: "vm_env base fl pm" using inv by (simp add: pt_inv_def)
  obtain i where "in_frame base pm t i"
    using pt_inv_frame [OF inv d(1) at(1)] by (auto simp: table_frame_def)
  then have "grow_pgtbl base t (2 - d) v p prot flgs (rv64_pgtbl_calc_pagesize (2 - e)) pgt pm = Some (Inl ENOMEM, False, pgt, pm)"
    using frame_of_run [OF env, of t i] alloc_table_none [OF env full, of pgt] at(2) d(1,3)
    by (simp add: grow_pgtbl_def entry_of_def RV64_PGTBL_LVL_NR_def Let_def)
  then have "grow_loop base (pgtbl_base pgt) v p prot flgs (rv64_pgtbl_calc_pagesize (2 - e)) 3 pgt pm = Some (Inl ENOMEM, pgt, pm)"
    using grow_loop_down [OF inv e(2) _ at(1), of p prot flgs pgt] e(1) by (simp add: d(2))
  moreover have "remove_table_reference base v pgt pm = None"
    using find_tables_stops [OF d(1) at] by (simp add: remove_table_reference_def RV64_PGTBL_LVL_NR_def)
  ultimately show ?thesis
    using map_aligned [OF al, of base prot flgs pgt pm] by (simp add: RV64_PGTBL_LVL_NR_def)
qed

lemma map_busy:
  assumes inv: "pt_inv base fl (pgtbl_base pgt) pm" and e: "e \<le> 2"
    and at: "table_at base (pm_ram pm) (pgtbl_base pgt) e v = Some t" "RV64_PTE_IS_VALID (entry_of (pm_ram pm) t e v)"
    and al: "PAGE_ALIGNED_COMMON v (rv64_pgtbl_calc_pagesize (2 - e))" "PAGE_ALIGNED_COMMON p (rv64_pgtbl_calc_pagesize (2 - e))"
  shows "map_vaddr_to_paddr base v p prot flgs (rv64_pgtbl_calc_pagesize (2 - e)) pgt pm = Some (Inl EBUSY, pgt, pm)"
proof -
  have "3 - e = Suc (2 - e)" using e by simp
  then have "grow_loop base (pgtbl_base pgt) v p prot flgs (rv64_pgtbl_calc_pagesize (2 - e)) 3 pgt pm = Some (Inl EBUSY, pgt, pm)"
    using grow_loop_down [OF inv e order.refl at(1), of p prot flgs pgt] grow_busy [OF inv e at, of p prot flgs pgt]
    by (simp only: grow_loop.simps bind.bind_lunit split sum.case)
  then show ?thesis
    using map_aligned [OF al, of base prot flgs pgt pm] by (simp add: RV64_PGTBL_LVL_NR_def)
qed

lemma map_misaligned:
  assumes "e \<le> 2" and "\<not> (PAGE_ALIGNED_COMMON v (rv64_pgtbl_calc_pagesize (2 - e)) \<and>
    PAGE_ALIGNED_COMMON p (rv64_pgtbl_calc_pagesize (2 - e)))"
  shows "map_vaddr_to_paddr base v p prot flgs (rv64_pgtbl_calc_pagesize (2 - e)) pgt pm = Some (Inl EINVAL, pgt, pm)"
proof -
  have "e = 0 \<or> e = 1 \<or> e = 2" using assms(1) by auto
  moreover have "HAL_PAGE_SIZE_1G \<noteq> HAL_PAGE_SIZE_2M" "HAL_PAGE_SIZE_1G \<noteq> PAGE_SIZE" "HAL_PAGE_SIZE_2M \<noteq> PAGE_SIZE"
    by (simp_all add: HAL_PAGE_SIZE_1G_def HAL_PAGE_SIZE_2M_def PAGE_SIZE_def)
  ultimately show ?thesis
    using assms(2) page_sizes by (auto simp: map_vaddr_to_paddr_def)
qed

text \<open>
  A page of 4 KiB inside a page of 2 MiB: the page is taken for a table, and its word at the index
  of the address is overwritten.
\<close>

lemma map_into_large_page:
  assumes inv: "pt_inv base fl (pgtbl_base pgt) pm"
    and at: "table_at base (pm_ram pm) (pgtbl_base pgt) 1 v = Some t" "RV64_PTE_IS_VALID (entry_of (pm_ram pm) t 1 v)"
    and kv: "pfdb_paddr_to_kvaddr base (RV64_PTE_TO_PADDR (entry_of (pm_ram pm) t 1 v)) = Inr kv"
    and page: "in_frame base pm kv i" "PAGE_IS_USED (frame_at (0, i) pm)" "pf_usecnt (frame_at (0, i) pm) = of_nat (Suc n)" "n \<le> 512"
    and word: "\<not> RV64_PTE_IS_VALID (table_read (pm_ram pm) kv (vpn v 0))"
    and al: "PAGE_ALIGNED_COMMON v PAGE_SIZE" "PAGE_ALIGNED_COMMON p PAGE_SIZE"
  obtains pm' where "map_vaddr_to_paddr base v p prot flgs PAGE_SIZE pgt pm = Some (Inr (), pgt, pm')"
    and "pm_ram pm' = table_write kv (vpn v 0) (leaf_pte prot flgs p) (pm_ram pm)"
proof -
  have size: "rv64_pgtbl_calc_pagesize 0 = PAGE_SIZE" "rv64_pgtbl_calc_pagesize 1 \<noteq> PAGE_SIZE"
    using page_sizes pagesize_eq [of 1 2] by simp_all
  have env: "vm_env base fl pm" using inv by (simp add: pt_inv_def)
  define pm2 where "pm2 = pm\<lparr>pm_ram := table_write kv (vpn v 0) (leaf_pte prot flgs p) (pm_ram pm)\<rparr>"
  have "inc_use_count (0, i) pm2 = Some (True, set_count i (of_nat (Suc (Suc n))) pm2)"
    by (rule inc_use_count_run) (use env page in \<open>simp_all add: pm2_def\<close>)
  then have "grow_pgtbl base kv 0 v p prot flgs PAGE_SIZE pgt pm = Some (Inr None, True, pgt, set_count i (of_nat (Suc (Suc n))) pm2)"
    using frame_of_run [OF env page(1)] word size(1)
    by (simp add: grow_pgtbl_def RV64_PGTBL_LVL_NR_def Let_def pm2_def leaf_pte_def)
  moreover have "grow_pgtbl base t 1 v p prot flgs PAGE_SIZE pgt pm = Some (Inr (Some kv), False, pgt, pm)"
    using grow_follow [OF inv _ at _ kv, of PAGE_SIZE p prot flgs pgt] size(2) by simp
  ultimately have "grow_loop base t v p prot flgs PAGE_SIZE 2 pgt pm = Some (Inr (), pgt, set_count i (of_nat (Suc (Suc n))) pm2)"
    using size by (simp add: numeral_2_eq_2 eq_commute [of PAGE_SIZE])
  then have "grow_loop base (pgtbl_base pgt) v p prot flgs PAGE_SIZE 3 pgt pm = Some (Inr (), pgt, set_count i (of_nat (Suc (Suc n))) pm2)"
    using grow_loop_down [OF inv order.refl _ at(1), of p prot flgs pgt] page_sizes(3) by simp
  then have "map_vaddr_to_paddr base v p prot flgs PAGE_SIZE pgt pm = Some (Inr (), pgt, set_count i (of_nat (Suc (Suc n))) pm2)"
    using map_aligned [OF al, of base prot flgs pgt pm] by (simp add: RV64_PGTBL_LVL_NR_def)
  then show thesis
    by (rule that) (simp add: set_count_def pm2_def)
qed

end
