(* ===== verification/PgtblRemove.thy ===== *)
theory PgtblRemove
  imports PgtblEnter
begin

unbundle bit_operations_syntax

text \<open>
  \<open>hal_pgtbl_remove\<close>, with the release of the tables that become empty, and the errors of
  \<open>map_vaddr_to_paddr\<close>.
\<close>

section \<open>Clearing an entry\<close>

lemma clear_write_tables:
  assumes ok: "tables_ok base ram root" and d: "d \<le> 2" "table_at base ram root d v = Some t"
    and ram': "ram' = table_write t (vpn v (2 - d)) 0 ram"
  shows "k \<le> 3 \<Longrightarrow> table_at base ram' root k w =
    (if d < k \<and> same_way (Suc d) v w then None else table_at base ram root k w)"
proof (induction k)
  case (Suc k)
  show ?case
  proof (cases "d < k \<and> same_way (Suc d) v w \<or> table_at base ram root k w = None")
    case False
    then obtain t' where t': "table_at base ram root k w = Some t'" by auto
    have "entry_of ram' t' k w = (if k = d \<and> same_way (Suc d) v w then 0 else entry_of ram t' k w)"
      using entry_of_write [OF ok d _ t', of 0] Suc.prems by (simp add: ram')
    then show ?thesis
      using Suc False t' by (auto simp: entry_of_def next_table_def zero_pte less_Suc_eq)
  next
    case True
    then show ?thesis using Suc by auto
  qed
qed simp

lemma clear_write:
  assumes ok: "tables_ok base ram root" and d: "d \<le> 2" "table_at base ram root d v = Some t"
    and ram': "ram' = table_write t (vpn v (2 - d)) 0 ram"
  shows "tables_ok base ram' root"
    and "extract_loop base ram' w root 3 =
      (if same_way (Suc d) v w then Some (Inl ENOENT) else extract_loop base ram w root 3)"
proof -
  note tables = clear_write_tables [OF ok d ram']
  show "tables_ok base ram' root"
    using ok unfolding tables_ok_def by (auto simp: tables split: if_splits)
  have entry: "entry_of ram' t' d' w = (if d' = d \<and> same_way (Suc d) v w then 0 else entry_of ram t' d' w)"
    if "d' \<le> 2" "table_at base ram root d' w = Some t'" for d' t'
    using entry_of_write [OF ok d that] by (simp add: ram')
  show "extract_loop base ram' w root 3 =
      (if same_way (Suc d) v w then Some (Inl ENOENT) else extract_loop base ram w root 3)"
  proof (cases "same_way (Suc d) v w")
    case True
    then have w: "table_at base ram root d w = Some t"
      using table_at_same_way [of d v w base ram root] d(2) by (simp add: same_way_Suc)
    then show ?thesis
      using extract_at [of d base ram' root w t] walk_entry [OF d(1) refl, of base ram' w t] tables [of d w] entry [OF d(1) w] d(1) True
      by (simp add: zero_pte)
  next
    case False
    then show ?thesis using extract_agree [of base ram root w ram'] entry by simp
  qed
qed

lemma valid_entries_zero:
  assumes "page_aligned t" "page_aligned t'" "i < 512" and "RV64_PTE_IS_VALID (table_read ram t i)"
  shows "valid_entries (table_write t i 0 ram) t' = (if t' = t then valid_entries ram t - 1 else valid_entries ram t')"
    and "0 < valid_entries ram t"
proof -
  have "valid_entries (table_write t i 0 ram) t' = card {j. j < 512 \<and> RV64_PTE_IS_VALID (if t' = t \<and> j = i then 0 else table_read ram t' j)}"
    unfolding valid_entries_def using table_read_write [OF assms(1-3)] by (intro arg_cong [where f = card]) auto
  also have "{j. j < 512 \<and> RV64_PTE_IS_VALID (if t' = t \<and> j = i then 0 else table_read ram t' j)} =
      {j. j < 512 \<and> RV64_PTE_IS_VALID (table_read ram t' j)} - (if t' = t then {i} else {})"
    by (auto simp: zero_pte)
  finally have "valid_entries (table_write t i 0 ram) t' =
      card ({j. j < 512 \<and> RV64_PTE_IS_VALID (table_read ram t' j)} - (if t' = t then {i} else {}))" .
  moreover have in_table: "i \<in> {j. j < 512 \<and> RV64_PTE_IS_VALID (table_read ram t j)}"
    and "finite {j. j < 512 \<and> RV64_PTE_IS_VALID (table_read ram t j)}"
    using assms(3,4) by simp_all
  ultimately show "valid_entries (table_write t i 0 ram) t' = (if t' = t then valid_entries ram t - 1 else valid_entries ram t')"
    by (cases "t' = t") (simp_all only: valid_entries_def card_Diff_singleton simp_thms if_True if_False Diff_empty)
  show "0 < valid_entries ram t"
    unfolding valid_entries_def using in_table by (intro card_gt_0_iff [THEN iffD2]) auto
qed

lemma no_entries:
  assumes "valid_entries ram t = 0" "i < 512"
  shows "\<not> RV64_PTE_IS_VALID (table_read ram t i)"
  using assms by (auto simp: valid_entries_def)

lemma empty_subtable:
  assumes d: "d \<le> 1" "table_at base ram root (Suc d) v = Some t" "valid_entries ram t = 0" and w: "same_way (Suc d) v w"
  shows "extract_loop base ram w root 3 = Some (Inl ENOENT)"
proof -
  have at: "table_at base ram root (Suc d) w = Some t"
    using table_at_same_way [OF w, of base ram root] d(2) by metis
  have "\<not> RV64_PTE_IS_VALID (entry_of ram t (Suc d) w)"
    unfolding entry_of_def by (rule no_entries [OF d(3)]) (simp add: index_less)
  then show ?thesis
    using extract_at [OF _ at] walk_entry [of "Suc d" _ ram t w base, OF _ refl] d(1) by simp
qed

section \<open>Dropping references\<close>

lemma dec_use_count_table:
  assumes env: "vm_env base fl pm" and i: "in_frame base pm t i" "PAGE_IS_USED (frame_at (0, i) pm)" "\<not> PAGE_IS_RESERVED (frame_at (0, i) pm)"
    and n: "pf_usecnt (frame_at (0, i) pm) = of_nat (Suc n)" "0 < n" "n \<le> 512"
  shows "dec_use_count (0, i) pm = Some (False, set_count i (of_nat n) pm)"
proof -
  let ?P = "page_pool (the_area pm)"
  have P: "pool_inv {} fl ?P" "lock_free (pool_lock ?P)" "i < nr_pages ?P"
    using env i(1) by (auto simp: vm_env_def area_ok_def in_frame_def)
  have cnt: "pf_usecnt (array ?P ! i) = of_nat (Suc n)" using n(1) by (simp add: frame_at_def)
  have "unat (of_nat (Suc n) :: u32) \<noteq> unat (1 :: u32)" "unat (of_nat (Suc n) :: u32) \<noteq> unat (0 :: u32)"
    using small_count [of "Suc n"] n by simp_all
  then have ne: "pf_usecnt (array ?P ! i) \<noteq> 1" "pf_usecnt (array ?P ! i) \<noteq> 0"
    unfolding cnt word_unat_eq_iff by blast+
  have "uint (of_nat (Suc n) :: u32) = int (Suc n)"
    using small_count [of "Suc n"] n(3) by (simp only: uint_nat)
  then have "0 \<le>s pf_usecnt (array ?P ! i)"
    unfolding cnt word_sle_eq using n(3) by (simp add: sint_uint signed_take_bit_int_eq_self)
  then have "pfdb_dec_page_use_count i ?P (pm_cpu pm) = Some (False, upd_page i (pf_usecnt_update (\<lambda>n. n - 1)) ?P, pm_cpu pm)"
    using dec_use_count_spec [OF P, of "pm_cpu pm"] i(2,3) ne by (simp add: frame_at_def)
  moreover have "upd_page i (pf_usecnt_update (\<lambda>n. n - 1)) ?P = upd_page i (pf_usecnt_update (\<lambda>_. of_nat n)) ?P"
    using cnt by (cases "array ?P ! i") (simp add: upd_page_def)
  ultimately show ?thesis
    by (simp add: dec_use_count_def set_count_def)
qed

lemma dec_use_count_free:
  assumes env: "vm_env base fl pm" and i: "in_frame base pm t i" "PAGE_IS_USED (frame_at (0, i) pm)" "\<not> PAGE_IS_RESERVED (frame_at (0, i) pm)"
    and one: "pf_order (frame_at (0, i) pm) = 0" "pf_usecnt (frame_at (0, i) pm) = 1"
  obtains pm' fl' where "dec_use_count (0, i) pm = Some (True, pm')" and "vm_env base fl' pm'"
    and "free_frames fl' = insert i (free_frames fl)" and "i \<notin> free_frames fl"
    and "\<And>j. j \<notin> insert i (free_frames fl) \<Longrightarrow> frame_at (0, j) pm' = frame_at (0, j) pm"
    and "\<And>t j. in_frame base pm' t j \<longleftrightarrow> in_frame base pm t j" and "pm_ram pm' = pm_ram pm" and "pm_cpu pm' = pm_cpu pm"
proof -
  let ?P = "page_pool (the_area pm)"
  have P: "pool_inv {} fl ?P" "lock_free (pool_lock ?P)" "i < nr_pages ?P" and len: "length (array ?P) = nr_pages ?P"
    and last: "i + 1 < max_pfn (the_area pm) - min_pfn (the_area pm)"
    using env i(1) pool_inv_shape [of "{}" fl ?P] by (auto simp: vm_env_def area_ok_def in_frame_def)
  have "map_counts ?P ! i = pf_mapcnt (array ?P ! i)" using P(3) len by (simp add: map_counts_def)
  moreover have "map_counts ?P ! i \<in> set (map_counts ?P)" using P(3) len by (simp add: map_counts_def)
  ultimately have mapcnt: "pf_mapcnt (array ?P ! i) = 0"
    using env by (auto simp: vm_env_def)
  have "0 \<le>s pf_usecnt (array ?P ! i)"
    using one(2) by (simp add: word_sle_eq frame_at_def)
  then obtain P' fl' where run: "pfdb_dec_page_use_count i ?P (pm_cpu pm) = Some (True, P', pm_cpu pm)" "pool_inv {} fl' P'"
      "pool_lock P' = pool_lock ?P" "free_frames fl' = insert i (free_frames fl)" "i \<notin> free_frames fl"
      "\<forall>j. j \<notin> free_frames fl' \<longrightarrow> array P' ! j = array ?P ! j" "nr_pages P' = nr_pages ?P" "pool_min_pfn P' = pool_min_pfn ?P"
    using dec_use_count_spec [OF P, of "pm_cpu pm"] i(2,3) one mapcnt by (auto simp: frame_at_def)
  define pm' where "pm' = pm\<lparr>pm_db := set_pool 0 P' (pm_db pm)\<rparr>"
  have at: "the_area pm' = (the_area pm)\<lparr>page_pool := P'\<rparr>"
    using env by (simp add: pm'_def vm_env_def)
  show thesis
  proof (rule that)
    show "dec_use_count (0, i) pm = Some (True, pm')"
      using run(1) by (simp add: dec_use_count_def pm'_def)
    have "area_ok (pm_db pm') 0 fl'"
      using area_ok_set_pool [of "pm_db pm" 0 fl fl' P'] env run P(2) by (simp add: vm_env_def pm'_def)
    then show "vm_env base fl' pm'"
      using env at run(4,8) dec_use_count_counts [OF run(1)] last by (simp add: vm_env_def) (simp add: pm'_def)
    show "frame_at (0, j) pm' = frame_at (0, j) pm" if "j \<notin> insert i (free_frames fl)" for j
      using run(4,6) at that by (simp add: frame_at_def)
    show "in_frame base pm' t j \<longleftrightarrow> in_frame base pm t j" for t j
      using at by (simp add: in_frame_def)
  qed (simp_all add: run pm'_def)
qed

lemma finite_free_frames:
  assumes "pool_inv D fl P"
  shows "finite (free_frames fl)"
proof -
  have "free_frames fl = (\<Union>k<PAGE_POOL_MAX_ORDER. \<Union>h\<in>set (fl k). block k h)"
    using free_lists_order [OF pool_inv_free_lists [OF assms]] by (fastforce simp: free_frames_def)
  then show ?thesis by (simp add: block_def)
qed

lemma small_sless: "n \<le> 600 \<Longrightarrow> (1 :: u32) <s of_nat n \<longleftrightarrow> 1 < n"
proof -
  assume n: "n \<le> 600"
  have "uint (of_nat n :: u32) = int n"
    using small_count [OF n] by (simp only: uint_nat)
  then have "sint (of_nat n :: u32) = int n"
    using n by (simp add: sint_uint signed_take_bit_int_eq_self)
  then show ?thesis by (simp add: word_sless_alt)
qed

lemma clear_entry_run:
  assumes inv: "pt_inv base fl root pm" and d: "d \<le> 2" "table_at base (pm_ram pm) root d v = Some t"
    and valid: "RV64_PTE_IS_VALID (entry_of (pm_ram pm) t d v)"
  obtains i pm' where "frame_of base t (pm\<lparr>pm_ram := table_write t (vpn v (2 - d)) 0 (pm_ram pm)\<rparr>) =
      Some ((0, i), pm\<lparr>pm_ram := table_write t (vpn v (2 - d)) 0 (pm_ram pm)\<rparr>)"
    and "dec_use_count (0, i) (pm\<lparr>pm_ram := table_write t (vpn v (2 - d)) 0 (pm_ram pm)\<rparr>) = Some (False, pm')"
    and "pfdb_ref_page_use_count (frame_at (0, i) pm') = of_nat (valid_entries (pm_ram pm) t)"
    and "pt_inv base fl root pm'" and "pm_ram pm' = table_write t (vpn v (2 - d)) 0 (pm_ram pm)" and "pm_cpu pm' = pm_cpu pm"
    and "\<And>t' j. table_frame base pm t' j \<Longrightarrow> table_frame base pm' t' j"
proof -
  have env: "vm_env base fl pm" and ok: "tables_ok base (pm_ram pm) root"
    using inv by (simp_all add: pt_inv_def)
  obtain i where i: "table_frame base pm t i" using pt_inv_frame [OF inv d] by blast
  note i' = i [unfolded table_frame_def]
  let ?n = "valid_entries (pm_ram pm) t"
  define ram' where "ram' = table_write t (vpn v (2 - d)) 0 (pm_ram pm)"
  define pm2 where "pm2 = pm\<lparr>pm_ram := ram'\<rparr>"
  define pm' where "pm' = set_count i (of_nat ?n) pm2"
  have env2: "vm_env base fl pm2" and frame2: "in_frame base pm2 t i" "PAGE_IS_USED (frame_at (0, i) pm2)"
    using env i' by (simp_all add: pm2_def)
  have al: "page_aligned t" using in_frame_aligned [OF env] i' by blast
  note entries = valid_entries_zero [OF al _ _ valid [unfolded entry_of_def], simplified index_less, folded ram'_def]
  have n: "0 < ?n" using entries(2) [OF al] by (simp add: index_less)
  note count = set_count_env [OF env2 frame2, where n = "of_nat ?n", folded pm'_def]
  have dec: "dec_use_count (0, i) pm2 = Some (False, pm')"
    unfolding pm'_def using i' n by (intro dec_use_count_table [OF env2, of t]) (simp_all add: pm2_def valid_entries_le)
  note written = clear_write [OF ok d ram'_def]
  have frames: "table_frame base pm' t' j" if t': "table_frame base pm t' j" for t' j
  proof -
    have "page_aligned t'" using in_frame_aligned [OF env, of t' j] t' by (simp add: table_frame_def)
    then have entries': "valid_entries ram' t' = (if t' = t then ?n - 1 else valid_entries (pm_ram pm) t')"
      using entries(1) by (simp add: index_less)
    have "j = i \<longleftrightarrow> t' = t"
      using in_frame_same [of base pm t i t'] in_frame_unique [of base pm t i j] i' t' by (auto simp: table_frame_def)
    then show ?thesis
      using t' count(2-4) entries' n
      by (cases "j = i") (simp_all add: table_frame_def PAGE_IS_USED_def PAGE_IS_RESERVED_def pm2_def of_nat_diff)
  qed
  have "pt_inv base fl root pm'"
    unfolding pt_inv_def
  proof (intro conjI allI impI)
    show "vm_env base fl pm'" by (rule count(1))
    show "tables_ok base (pm_ram pm') root" using written(1) count(4) by (simp add: pm2_def)
    fix d' w t' assume "d' \<le> 2" "table_at base (pm_ram pm') root d' w = Some t'"
    then have "table_at base (pm_ram pm) root d' w = Some t'"
      using clear_write_tables [OF ok d ram'_def, of d' w] count(4) by (simp add: pm2_def split: if_splits)
    then show "\<exists>j. table_frame base pm' t' j"
      using pt_inv_frame [OF inv \<open>d' \<le> 2\<close>] frames by blast
  qed
  moreover have "frame_of base t pm2 = Some ((0, i), pm2)"
    using frame_of_run [OF env2 frame2(1)] .
  moreover have "pfdb_ref_page_use_count (frame_at (0, i) pm') = of_nat ?n"
    using count(2) [of i] by (simp add: pfdb_ref_page_use_count_def)
  ultimately show thesis
    using that [of i pm'] dec frames count(4,5) by (simp add: pm2_def ram'_def)
qed

lemma free_table_run:
  assumes inv: "pt_inv base fl root pm" and t1: "table_frame base pm t1 i" "valid_entries (pm_ram pm) t1 = 0"
    and gone: "\<And>d w. d \<le> 2 \<Longrightarrow> table_at base (pm_ram pm) root d w \<noteq> Some t1"
  obtains pm' fl' where "frame_of base t1 pm = Some ((0, i), pm)" and "dec_use_count (0, i) pm = Some (True, pm')"
    and "pt_inv base fl' root pm'" and "free_frames fl' = insert i (free_frames fl)" and "i \<notin> free_frames fl"
    and "pm_ram pm' = pm_ram pm" and "pm_cpu pm' = pm_cpu pm"
proof -
  have env: "vm_env base fl pm" using inv by (simp add: pt_inv_def)
  note i = t1(1) [unfolded table_frame_def]
  obtain pm' fl' where run: "dec_use_count (0, i) pm = Some (True, pm')" "vm_env base fl' pm'"
      "free_frames fl' = insert i (free_frames fl)" "i \<notin> free_frames fl"
      "\<And>j. j \<notin> insert i (free_frames fl) \<Longrightarrow> frame_at (0, j) pm' = frame_at (0, j) pm"
      "\<And>t j. in_frame base pm' t j \<longleftrightarrow> in_frame base pm t j" "pm_ram pm' = pm_ram pm" "pm_cpu pm' = pm_cpu pm"
    using dec_use_count_free [OF env, of t1 i] i t1(2) by auto
  have "table_frame base pm' t j" if t: "table_frame base pm t j" and "t \<noteq> t1" for t j
  proof -
    have "j \<noteq> i" using in_frame_same [of base pm t j t1] t i \<open>t \<noteq> t1\<close> by (auto simp: table_frame_def)
    moreover have "j \<notin> free_frames fl" using used_not_free [OF env, of t j] t by (simp add: table_frame_def)
    ultimately show ?thesis using run(5-7) t by (simp add: table_frame_def)
  qed
  then have "pt_inv base fl' root pm'"
    using inv run(2,7) gone unfolding pt_inv_def by metis
  then show thesis
    using that run frame_of_run [OF env, of t1 i] i by blast
qed

section \<open>Removing a page\<close>

text \<open>\<open>m\<close> table pages have gone back to the pool and are no longer counted.\<close>

definition pages_given :: "(nat \<Rightarrow> nat list) \<Rightarrow> (nat \<Rightarrow> nat list) \<Rightarrow> vm_pgtbl_type \<Rightarrow> vm_pgtbl_type \<Rightarrow> nat \<Rightarrow> bool" where
  "pages_given fl fl' pgt pgt' m \<longleftrightarrow>
     free_frames fl \<subseteq> free_frames fl' \<and> card (free_frames fl') = card (free_frames fl) + m \<and>
     pgt' = pgt\<lparr>pgtbl_nr_pages := pgtbl_nr_pages pgt - of_nat m\<rparr>"

lemma pages_given_none [simp]: "pages_given fl fl pgt pgt 0"
  by (simp add: pages_given_def)

lemma pages_given_Suc:
  assumes "free_frames fl1 = insert i (free_frames fl)" "i \<notin> free_frames fl" "finite (free_frames fl)"
    and "pages_given fl1 fl' (pgt\<lparr>pgtbl_nr_pages := snd (statcnt_dec (pgtbl_nr_pages pgt))\<rparr>) pgt' m"
  shows "pages_given fl fl' pgt pgt' (Suc m)"
proof -
  have "snd (statcnt_dec n) = n - 1" for n
    by (simp add: statcnt_dec_def statcnt_sub_def atomic64_sub_return_def atomic64_sub_fetch_def hal_atomic_defs)
  then show ?thesis
    using assms by (auto simp: pages_given_def)
qed

lemma pages_given_trans:
  assumes "pages_given fl fl1 pgt pgt1 m" "pages_given fl1 fl' pgt1 pgt' n"
  shows "pages_given fl fl' pgt pgt' (m + n)"
  using assms by (auto simp: pages_given_def)

text \<open>The number of table pages that are freed when the entry of depth \<open>k\<close> on the way to a page of depth \<open>d\<close> is cleared.\<close>

fun tables_freed :: "(u64 \<Rightarrow> u8) \<Rightarrow> (nat \<Rightarrow> u64) \<Rightarrow> nat \<Rightarrow> nat \<Rightarrow> nat" where
  "tables_freed ram tbl d k =
     (if 1 < valid_entries ram (tbl (2 - k)) then 0
      else (if k < d then 1 else 0) + (case k of 0 \<Rightarrow> 0 | Suc j \<Rightarrow> tables_freed ram tbl d j))"

declare tables_freed.simps [simp del]

lemma tables_freed_cong:
  "(\<And>j. j \<le> k \<Longrightarrow> valid_entries ram' (tbl (2 - j)) = valid_entries ram (tbl (2 - j))) \<Longrightarrow>
   tables_freed ram' tbl d k = tables_freed ram tbl d k"
proof (induction k)
  case 0
  then show ?case by (simp add: tables_freed.simps [of _ _ _ 0])
next
  case (Suc k)
  from Suc.IH [OF Suc.prems] Suc.prems [of "Suc k"] show ?case by (simp add: tables_freed.simps [of _ _ _ "Suc k"])
qed

lemma zero_ppn: "RV64_PTE_PADDR_TO_PPN 0 = 0"
  by (simp add: RV64_PTE_PADDR_TO_PPN_def)

lemma drop_step:
  assumes inv: "pt_inv base fl root pm" and k: "k \<le> d" "d \<le> 2" and at: "table_at base (pm_ram pm) root k v = Some (tbl (2 - k))"
    and valid: "RV64_PTE_IS_VALID (entry_of (pm_ram pm) (tbl (2 - k)) k v)"
    and low: "k < d \<Longrightarrow> table_at base (pm_ram pm) root (Suc k) v = Some t1 \<and> valid_entries (pm_ram pm) t1 = 0"
  obtains pm' where "1 < valid_entries (pm_ram pm) (tbl (2 - k))"
      and "drop_references base v tbl (2 - d) ((2 - k) # lvls) pgt pm = Some (pgt, pm')" and "pt_inv base fl root pm'"
      and "pm_ram pm' = table_write (tbl (2 - k)) (vpn v (2 - k)) 0 (pm_ram pm)" and "pm_cpu pm' = pm_cpu pm"
  | pm' pgt' fl' where "\<not> 1 < valid_entries (pm_ram pm) (tbl (2 - k))"
      and "drop_references base v tbl (2 - d) ((2 - k) # lvls) pgt pm = drop_references base v tbl (2 - d) lvls pgt' pm'"
      and "pt_inv base fl' root pm'" and "pm_ram pm' = table_write (tbl (2 - k)) (vpn v (2 - k)) 0 (pm_ram pm)"
      and "pm_cpu pm' = pm_cpu pm" and "pages_given fl fl' pgt pgt' (if k < d then 1 else 0)"
proof -
  let ?t = "tbl (2 - k)" and ?ram = "table_write (tbl (2 - k)) (vpn v (2 - k)) 0 (pm_ram pm)"
  have k2: "k \<le> 2" using k by simp
  have env: "vm_env base fl pm" and ok: "tables_ok base (pm_ram pm) root" using inv by (simp_all add: pt_inv_def)
  obtain i pm3 where step: "frame_of base ?t (pm\<lparr>pm_ram := ?ram\<rparr>) = Some ((0, i), pm\<lparr>pm_ram := ?ram\<rparr>)"
      "dec_use_count (0, i) (pm\<lparr>pm_ram := ?ram\<rparr>) = Some (False, pm3)"
      "pfdb_ref_page_use_count (frame_at (0, i) pm3) = of_nat (valid_entries (pm_ram pm) ?t)"
    and pm3: "pt_inv base fl root pm3" "pm_ram pm3 = ?ram" "pm_cpu pm3 = pm_cpu pm"
    and frames: "\<And>t' j. table_frame base pm t' j \<Longrightarrow> table_frame base pm3 t' j"
    by (rule clear_entry_run [OF inv k2 at valid]) blast
  have "(1 :: u32) <s of_nat (valid_entries (pm_ram pm) ?t) \<longleftrightarrow> 1 < valid_entries (pm_ram pm) ?t"
    using valid_entries_le [of "pm_ram pm" ?t] by (intro small_sless) simp
  then have one: "drop_references base v tbl (2 - d) ((2 - k) # lvls) pgt pm =
      (if 1 < valid_entries (pm_ram pm) ?t then Some (pgt, pm3)
       else if k < d then
         (case pfdb_paddr_to_kvaddr base (RV64_PTE_TO_PADDR (entry_of (pm_ram pm) ?t k v)) of
            Inl _ \<Rightarrow> None
          | Inr low_tbl \<Rightarrow> do {
              (low_pf, pm4) \<leftarrow> frame_of base low_tbl pm3;
              (res, pm5) \<leftarrow> dec_use_count low_pf pm4;
              kassert res;
              drop_references base v tbl (2 - d) lvls (pgt\<lparr>pgtbl_nr_pages := snd (statcnt_dec (pgtbl_nr_pages pgt))\<rparr>) pm5
            })
       else drop_references base v tbl (2 - d) lvls pgt pm3)"
    using step k k2 by (simp add: Let_def entry_of_def zero_ppn diff_less_mono2 less_diff_iff)
  consider "1 < valid_entries (pm_ram pm) ?t" | "\<not> 1 < valid_entries (pm_ram pm) ?t" "k = d"
    | "\<not> 1 < valid_entries (pm_ram pm) ?t" "k < d" using k by linarith
  then show thesis
  proof cases
    case 1
    then show ?thesis using that(1) one pm3 by simp
  next
    case 2
    then show ?thesis using that(2) one pm3 by simp
  next
    case 3
    then have t1: "table_at base (pm_ram pm) root (Suc k) v = Some t1" "valid_entries (pm_ram pm) t1 = 0" using low by blast+
    have k1: "Suc k \<le> 2" using 3 k by simp
    have kv: "pfdb_paddr_to_kvaddr base (RV64_PTE_TO_PADDR (entry_of (pm_ram pm) ?t k v)) = Inr t1"
      using t1(1) at by (auto simp: entry_of_def next_table_def split: if_splits sum.splits)
    obtain j where j: "table_frame base pm t1 j" using pt_inv_frame [OF inv k1 t1(1)] by blast
    have ne: "t1 \<noteq> ?t" using tables_ok_unique [OF ok k1 k2 t1(1), of v] at by auto
    have al: "page_aligned ?t" "page_aligned t1"
      using tables_ok_aligned [OF ok k2 at] tables_ok_aligned [OF ok k1 t1(1)] .
    have "valid_entries (pm_ram pm3) t1 = 0"
      using valid_entries_zero(1) [OF al, of "vpn v (2 - k)"] valid ne t1(2) pm3(2) by (simp add: entry_of_def index_less)
    moreover have "table_at base (pm_ram pm3) root d' w \<noteq> Some t1" if "d' \<le> 2" for d' w
    proof
      assume "table_at base (pm_ram pm3) root d' w = Some t1"
      then have at': "table_at base (pm_ram pm) root d' w = Some t1" "\<not> (k < d' \<and> same_way (Suc k) v w)"
        using clear_write_tables [OF ok k2 at pm3(2), of d' w] that by (auto split: if_splits)
      then show False
        using tables_ok_unique [OF ok k1 that t1(1) at'(1)] by auto
    qed
    ultimately obtain pm5 fl' where free: "frame_of base t1 pm3 = Some ((0, j), pm3)" "dec_use_count (0, j) pm3 = Some (True, pm5)"
        "pt_inv base fl' root pm5" "free_frames fl' = insert j (free_frames fl)" "j \<notin> free_frames fl"
        "pm_ram pm5 = pm_ram pm3" "pm_cpu pm5 = pm_cpu pm3"
      using free_table_run [OF pm3(1) frames [OF j]] by blast
    have "finite (free_frames fl)"
      using env finite_free_frames by (auto simp: vm_env_def area_ok_def)
    then have "pages_given fl fl' pgt (pgt\<lparr>pgtbl_nr_pages := snd (statcnt_dec (pgtbl_nr_pages pgt))\<rparr>) 1"
      by (simp add: pages_given_Suc [OF free(4,5), where m = 0, simplified])
    then show ?thesis
      using that(2) one 3 kv free pm3 by (simp add: kassert_def)
  qed
qed

lemma drop_run:
  assumes "pt_inv base fl root pm" and "k \<le> d" "d \<le> 2"
    and "\<And>j. j \<le> k \<Longrightarrow> table_at base (pm_ram pm) root j v = Some (tbl (2 - j))"
    and "RV64_PTE_IS_VALID (entry_of (pm_ram pm) (tbl (2 - k)) k v)"
    and "k < d \<Longrightarrow> table_at base (pm_ram pm) root (Suc k) v = Some t1 \<and> valid_entries (pm_ram pm) t1 = 0"
  shows "\<exists>pgt' pm' fl'. drop_references base v tbl (2 - d) [2 - k..<3] pgt pm = Some (pgt', pm') \<and> pt_inv base fl' root pm' \<and>
    pages_given fl fl' pgt pgt' (tables_freed (pm_ram pm) tbl d k) \<and> pm_cpu pm' = pm_cpu pm \<and>
    (\<forall>w. extract_loop base (pm_ram pm') w root 3 =
      (if same_way (Suc k) v w then Some (Inl ENOENT) else extract_loop base (pm_ram pm) w root 3))"
  using assms
proof (induction k arbitrary: pm fl pgt t1)
  case 0
  have ok: "tables_ok base (pm_ram pm) root" using 0 by (simp add: pt_inv_def)
  have at: "table_at base (pm_ram pm) root 0 v = Some (tbl (2 - 0))" by (rule 0(4)) simp
  note view = clear_write(2) [OF ok le0 at refl]
  have lvls: "[2 - 0..<3] = (2 - 0) # []" by (simp add: upt_rec)
  show ?case
  proof (rule drop_step [where k = 0 and d = d and tbl = tbl and v = v and ?t1.0 = t1 and lvls = "[]" and pgt = pgt, OF 0(1-3) at 0(5,6)], goal_cases)
    case 1
    then show ?case by blast
  next
    case (2 pm')
    then have freed: "tables_freed (pm_ram pm) tbl d 0 = 0" by (simp add: tables_freed.simps [of _ _ _ 0])
    then show ?case
      unfolding lvls freed using 2 view [folded 2(4)] pages_given_none by blast
  next
    case (3 pm' pgt' fl')
    then have freed: "tables_freed (pm_ram pm) tbl d 0 = (if 0 < d then 1 else 0)" by (simp del: One_nat_def add: tables_freed.simps [of _ _ _ 0])
    then show ?case
      unfolding lvls freed using 3 [unfolded drop_references.simps(1)] view [folded 3(4)] by blast
  qed
next
  case (Suc k)
  have ok: "tables_ok base (pm_ram pm) root" using Suc.prems(1) by (simp add: pt_inv_def)
  have k: "Suc k \<le> 2" "k < d" using Suc.prems by simp_all
  have at: "table_at base (pm_ram pm) root (Suc k) v = Some (tbl (2 - Suc k))" by (rule Suc.prems(4)) simp
  note view = clear_write(2) [OF ok k(1) at refl]
  have lvls: "[2 - Suc k..<3] = (2 - Suc k) # [2 - k..<3]"
  proof -
    have "k = 0 \<or> k = 1" using k(1) by auto
    then show ?thesis by (auto simp: upt_rec)
  qed
  show ?case
  proof (rule drop_step [where k = "Suc k" and d = d and tbl = tbl and v = v and ?t1.0 = t1 and lvls = "[2 - k..<3]" and pgt = pgt, OF Suc.prems(1-3) at Suc.prems(5,6)], goal_cases)
    case 1
    then show ?case by blast
  next
    case (2 pm')
    then have freed: "tables_freed (pm_ram pm) tbl d (Suc k) = 0" by (simp add: tables_freed.simps [of _ _ _ "Suc k"])
    then show ?case
      unfolding lvls freed using 2 view [folded 2(4)] pages_given_none by blast
  next
    case (3 pm' pgt1 fl1)
    let ?t = "tbl (2 - Suc k)"
    note tables = clear_write_tables [OF ok k(1) at 3(4)]
    have at': "table_at base (pm_ram pm') root j v = Some (tbl (2 - j))" if "j \<le> Suc k" for j
      using tables [of j v] Suc.prems(4) [OF that] k(1) that by simp
    have al: "page_aligned (tbl (2 - j))" "j \<le> k \<Longrightarrow> tbl (2 - j) \<noteq> ?t" if "j \<le> Suc k" for j
    proof -
      have j: "j \<le> 2" "table_at base (pm_ram pm) root j v = Some (tbl (2 - j))" using that k(1) Suc.prems(4) by simp_all
      show "page_aligned (tbl (2 - j))" by (rule tables_ok_aligned [OF ok j])
      show "j \<le> k \<Longrightarrow> tbl (2 - j) \<noteq> ?t" using tables_ok_unique [OF ok k(1) j(1) at] j(2) by fastforce
    qed
    note entries = valid_entries_zero [OF al(1) [OF order.refl] _ _ Suc.prems(5) [unfolded entry_of_def], folded 3(4)]
    have empty: "valid_entries (pm_ram pm') ?t = 0"
      using entries(1) [OF al(1) [OF order.refl]] 3(1) by (simp add: index_less)
    have "valid_entries (pm_ram pm') (tbl (2 - j)) = valid_entries (pm_ram pm) (tbl (2 - j))" if "j \<le> k" for j
      using entries(1) [OF al(1), of j] al(2) [of j] that by (simp add: index_less)
    then have freed: "tables_freed (pm_ram pm') tbl d k = tables_freed (pm_ram pm) tbl d k"
      by (rule tables_freed_cong)
    have "entry_of (pm_ram pm') (tbl (2 - k)) k v = entry_of (pm_ram pm) (tbl (2 - k)) k v"
      using entry_of_write [OF ok k(1) at, of k v "tbl (2 - k)" 0] Suc.prems(4) [of k] k(1) 3(4) by simp
    moreover have "RV64_PTE_IS_VALID (entry_of (pm_ram pm) (tbl (2 - k)) k v)"
      using Suc.prems(4) [of k] at by (auto simp: entry_of_def next_table_def split: if_splits)
    ultimately have "RV64_PTE_IS_VALID (entry_of (pm_ram pm') (tbl (2 - k)) k v)" by simp
    then obtain pgt' pm'' fl' where rest: "drop_references base v tbl (2 - d) [2 - k..<3] pgt1 pm' = Some (pgt', pm'')"
        "pt_inv base fl' root pm''" "pages_given fl1 fl' pgt1 pgt' (tables_freed (pm_ram pm) tbl d k)" "pm_cpu pm'' = pm_cpu pm'"
      and view': "\<And>w. extract_loop base (pm_ram pm'') w root 3 =
        (if same_way (Suc k) v w then Some (Inl ENOENT) else extract_loop base (pm_ram pm') w root 3)"
      using Suc.IH [where pm = pm' and fl = fl1 and pgt = pgt1 and ?t1.0 = ?t, OF 3(3) _ Suc.prems(3)] at' empty k(2) freed
      by (metis le_SucI less_imp_le order.refl)
    have "extract_loop base (pm_ram pm'') w root 3 =
        (if same_way (Suc (Suc k)) v w then Some (Inl ENOENT) else extract_loop base (pm_ram pm) w root 3)" for w
      using view' [of w] view [of w, folded 3(4)] empty_subtable [OF _ at' [OF order.refl] empty, of w] k(1)
      by (auto simp: same_way_Suc)
    moreover have "pages_given fl fl' pgt pgt' (tables_freed (pm_ram pm) tbl d (Suc k))"
      using pages_given_trans [OF 3(6) rest(3)] 3(1) by (simp add: tables_freed.simps [of _ _ _ "Suc k"])
    ultimately show ?case
      unfolding lvls using 3(2,5) rest by auto
  qed
qed

lemma find_tables_leaf:
  assumes d: "d \<le> 2" "table_at base ram root d v = Some t"
    and leaf: "RV64_PTE_IS_VALID (entry_of ram t d v)" "RV64_PTE_IS_LEAF (entry_of ram t d v)"
  obtains tbl where "find_tables base ram v root 2 acc = Some (2 - d, tbl)"
    and "\<And>j. j \<le> d \<Longrightarrow> table_at base ram root j v = Some (tbl (2 - j))"
proof -
  have "\<exists>acc'. find_tables base ram v root 2 acc = find_tables base ram v t (2 - k) acc' \<and>
      (\<forall>j<k. table_at base ram root j v = Some (acc' (2 - j)))"
    if "k \<le> 2" "table_at base ram root k v = Some t" for k t
    using that
  proof (induction k arbitrary: t)
    case (Suc k)
    then obtain t0 where t0: "table_at base ram root k v = Some t0" "next_table base (entry_of ram t0 k v) = Some t"
      by (auto simp: entry_of_def split: option.splits)
    then have ent: "RV64_PTE_IS_VALID (entry_of ram t0 k v)" "\<not> RV64_PTE_IS_LEAF (entry_of ram t0 k v)"
      "pfdb_paddr_to_kvaddr base (RV64_PTE_TO_PADDR (entry_of ram t0 k v)) = Inr t"
      by (auto simp: next_table_def split: if_splits sum.splits)
    obtain acc' where acc': "find_tables base ram v root 2 acc = find_tables base ram v t0 (2 - k) acc'"
        "\<forall>j<k. table_at base ram root j v = Some (acc' (2 - j))"
      using Suc.IH [OF _ t0(1)] Suc.prems(1) by auto
    have "find_tables base ram v t0 (2 - k) acc' = find_tables base ram v t (2 - Suc k) (acc'(2 - k := t0))"
      by (rule find_tables_step) (use ent Suc.prems(1) in \<open>simp_all add: entry_of_def\<close>)
    moreover have "table_at base ram root j v = Some ((acc'(2 - k := t0)) (2 - j))" if "j < Suc k" for j
    proof (cases "j = k")
      case False
      then have "j < k" "2 - j \<noteq> 2 - k" using that Suc.prems(1) by auto
      then show ?thesis using acc'(2) by simp
    qed (simp add: t0(1))
    ultimately show ?case using acc'(1) by metis
  qed auto
  then obtain acc' where acc': "find_tables base ram v root 2 acc = find_tables base ram v t (2 - d) acc'"
      "\<forall>j<d. table_at base ram root j v = Some (acc' (2 - j))"
    using d by blast
  have "find_tables base ram v t (2 - d) acc' = Some (2 - d, acc'(2 - d := t))"
    using leaf by (subst find_tables.simps, cases "2 - d") (simp_all add: entry_of_def Let_def kassert_def)
  moreover have "table_at base ram root j v = Some ((acc'(2 - d := t)) (2 - j))" if "j \<le> d" for j
  proof (cases "j = d")
    case False
    then have "j < d" "2 - j \<noteq> 2 - d" using that d(1) by auto
    then show ?thesis using acc'(2) by simp
  qed (simp add: d(2))
  ultimately show thesis
    using that acc'(1) by simp
qed

lemma remove_reference_run:
  assumes inv: "pt_inv base fl (pgtbl_base pgt) pm" and d: "d \<le> 2" "table_at base (pm_ram pm) (pgtbl_base pgt) d v = Some t"
    and leaf: "RV64_PTE_IS_VALID (entry_of (pm_ram pm) t d v)" "RV64_PTE_IS_LEAF (entry_of (pm_ram pm) t d v)"
  obtains pgt' pm' fl' tbl where "remove_table_reference base v pgt pm = Some (pgt', pm')"
    and "pt_inv base fl' (pgtbl_base pgt) pm'" and "pm_cpu pm' = pm_cpu pm"
    and "\<And>j. j \<le> d \<Longrightarrow> table_at base (pm_ram pm) (pgtbl_base pgt) j v = Some (tbl (2 - j))"
    and "pages_given fl fl' pgt pgt' (tables_freed (pm_ram pm) tbl d d)"
    and "\<And>w. extract_loop base (pm_ram pm') w (pgtbl_base pgt) 3 =
      (if same_way (Suc d) v w then Some (Inl ENOENT) else extract_loop base (pm_ram pm) w (pgtbl_base pgt) 3)"
proof -
  obtain tbl where find: "find_tables base (pm_ram pm) v (pgtbl_base pgt) 2 (\<lambda>_. 0) = Some (2 - d, tbl)"
    and tbl: "\<And>j. j \<le> d \<Longrightarrow> table_at base (pm_ram pm) (pgtbl_base pgt) j v = Some (tbl (2 - j))"
    by (rule find_tables_leaf [OF d leaf, where acc = "\<lambda>_. 0"]) blast
  have "RV64_PTE_IS_VALID (entry_of (pm_ram pm) (tbl (2 - d)) d v)"
    using tbl [of d] d leaf by simp
  then obtain pgt' pm' fl' where run: "drop_references base v tbl (2 - d) [2 - d..<3] pgt pm = Some (pgt', pm')"
      "pt_inv base fl' (pgtbl_base pgt) pm'" "pages_given fl fl' pgt pgt' (tables_freed (pm_ram pm) tbl d d)" "pm_cpu pm' = pm_cpu pm"
      "\<forall>w. extract_loop base (pm_ram pm') w (pgtbl_base pgt) 3 =
        (if same_way (Suc d) v w then Some (Inl ENOENT) else extract_loop base (pm_ram pm) w (pgtbl_base pgt) 3)"
    using drop_run [OF inv order.refl d(1) tbl, where pgt = pgt] by auto
  show thesis
    using that [of pgt' pm' fl' tbl] run tbl find by (simp add: remove_table_reference_def RV64_PGTBL_LVL_NR_def)
qed

text \<open>What an extraction says about the tables.\<close>

lemma extract_mapped:
  assumes ok: "tables_ok base ram root" and ex: "extract_loop base ram v root 3 = Some (Inr info)"
  obtains d t where "d \<le> 2" and "table_at base ram root d v = Some t" and "RV64_PTE_IS_VALID (entry_of ram t d v)"
    and "RV64_PTE_IS_LEAF (entry_of ram t d v)" and "info = leaf_info (entry_of ram t d v) d"
proof (rule ccontr)
  note found = that
  assume no: "\<not> thesis"
  have "\<exists>t. table_at base ram root d v = Some t" if "d \<le> 3" for d
    using that
  proof (induction d)
    case (Suc d)
    then obtain t where t: "table_at base ram root d v = Some t" by auto
    have d: "d \<le> 2" using Suc.prems by simp
    have "extract_loop base ram v t (3 - d) = Some (Inr info)"
      using extract_at [of d base ram root v t] t d ex by simp
    then show ?case
      using walk_entry [OF d refl, of base ram v t] no found [OF d t] t
      by (auto simp: entry_of_def split: if_splits option.splits)
  qed simp
  from this [of 3] show False using tables_ok_last [OF ok] by simp
qed

lemma extract_unmapped:
  assumes ok: "tables_ok base ram root" and ex: "extract_loop base ram v root 3 = Some (Inl ENOENT)"
  obtains d t where "d \<le> 2" and "table_at base ram root d v = Some t" and "\<not> RV64_PTE_IS_VALID (entry_of ram t d v)"
proof (rule ccontr)
  note found = that
  assume no: "\<not> thesis"
  have "\<exists>t. table_at base ram root d v = Some t" if "d \<le> 3" for d
    using that
  proof (induction d)
    case (Suc d)
    then obtain t where t: "table_at base ram root d v = Some t" by auto
    have d: "d \<le> 2" using Suc.prems by simp
    have "extract_loop base ram v t (3 - d) = Some (Inl ENOENT)"
      using extract_at [of d base ram root v t] t d ex by simp
    then show ?case
      using walk_entry [OF d refl, of base ram v t] no found [OF d t] t
      by (auto simp: entry_of_def split: if_splits option.splits)
  qed simp
  from this [of 3] show False using tables_ok_last [OF ok] by simp
qed

section \<open>Removing a range of one page\<close>

text \<open>
  C34: \<open>hal_pgtbl_remove\<close> of one page that is mapped, of any of the three sizes, whose frame is not
  managed. Its addresses are no longer mapped, all others are translated as before, and the invariant of the
  tables is kept. The tables on the way that are left without entries are given back, \<open>tables_freed\<close>
  of them: the walk upwards ends at the first table that keeps an entry, before the empty table below it is
  freed, so that the page of that table is lost.
\<close>

theorem remove_unmaps_page:
  assumes "pt_inv base fl (pgtbl_base pgt) pm" and "hal_pgtbl_extract base (pm_ram pm) pgt v = Some (Inr (pa, prot, fs, P))"
    and "PAGE_ALIGNED_COMMON v PAGE_SIZE" and "PAGE_ALIGNED_COMMON (v + P) PAGE_SIZE" and "unat v + unat P < 2 ^ 64"
    and "flgs AND VM_FLAGS_UNMANAGED \<noteq> 0"
  shows "\<exists>pgt' pm' fl' d tbl. hal_pgtbl_remove base v flgs P pgt pm = Some (pgt', pm') \<and>
      pt_inv base fl' (pgtbl_base pgt') pm' \<and> pm_cpu pm' = pm_cpu pm \<and>
      (\<forall>w. hal_pgtbl_extract base (pm_ram pm') pgt' w =
        (if same_page P v w then Some (Inl ENOENT) else hal_pgtbl_extract base (pm_ram pm) pgt w)) \<and>
      P = rv64_pgtbl_calc_pagesize (2 - d) \<and> d \<le> 2 \<and>
      (\<forall>j\<le>d. table_at base (pm_ram pm) (pgtbl_base pgt) j v = Some (tbl (2 - j))) \<and>
      pages_given fl fl' pgt pgt' (tables_freed (pm_ram pm) tbl d d)"
proof -
  have ok: "tables_ok base (pm_ram pm) (pgtbl_base pgt)" using assms(1) by (simp add: pt_inv_def)
  have ex: "extract_loop base (pm_ram pm) v (pgtbl_base pgt) 3 = Some (Inr (pa, prot, fs, P))"
    using assms(2) by (simp add: hal_pgtbl_extract_def RV64_PGTBL_LVL_NR_def)
  obtain d t where d: "d \<le> 2" "table_at base (pm_ram pm) (pgtbl_base pgt) d v = Some t"
      "RV64_PTE_IS_VALID (entry_of (pm_ram pm) t d v)" "RV64_PTE_IS_LEAF (entry_of (pm_ram pm) t d v)"
    and P: "P = rv64_pgtbl_calc_pagesize (2 - d)"
    by (rule extract_mapped [OF ok ex]) (simp add: leaf_info_def)
  obtain pgt' pm' fl' tbl where run: "remove_table_reference base v pgt pm = Some (pgt', pm')"
      "pt_inv base fl' (pgtbl_base pgt) pm'" "pm_cpu pm' = pm_cpu pm"
      "\<And>j. j \<le> d \<Longrightarrow> table_at base (pm_ram pm) (pgtbl_base pgt) j v = Some (tbl (2 - j))"
      "pages_given fl fl' pgt pgt' (tables_freed (pm_ram pm) tbl d d)"
    and view: "\<And>w. extract_loop base (pm_ram pm') w (pgtbl_base pgt) 3 =
      (if same_way (Suc d) v w then Some (Inl ENOENT) else extract_loop base (pm_ram pm) w (pgtbl_base pgt) 3)"
    using remove_reference_run [OF assms(1) d] by metis
  have "0 < unat P" by (simp add: P pagesize_power [OF d(1)])
  then have less: "v < v + P" using assms(5) by (simp add: word_less_nat_alt unat_add_less)
  have "hal_pgtbl_remove base v flgs P pgt pm = Some (pgt', pm')"
    using assms(3,4,6) less run(1) ex
    by (simp add: hal_pgtbl_remove_def remove_loop.simps [of _ _ _ v] remove_loop.simps [of _ _ _ "v + P"]
        hal_pgtbl_extract_def RV64_PGTBL_LVL_NR_def)
  moreover have "pgtbl_base pgt' = pgtbl_base pgt"
    using run(5) by (simp add: pages_given_def)
  ultimately show ?thesis
    using run(2-5) view P d(1) same_way_page [OF d(1)]
    by (intro exI [of _ pgt'] exI [of _ pm'] exI [of _ fl'] exI [of _ d] exI [of _ tbl])
      (simp add: hal_pgtbl_extract_def RV64_PGTBL_LVL_NR_def)
qed

lemma remove_unmapped_stops:
  assumes ok: "tables_ok base (pm_ram pm) (pgtbl_base pgt)" and ex: "hal_pgtbl_extract base (pm_ram pm) pgt v = Some (Inl ENOENT)"
    and "PAGE_ALIGNED_COMMON v PAGE_SIZE" "PAGE_ALIGNED_COMMON (v + len) PAGE_SIZE" "v < v + len"
  shows "hal_pgtbl_remove base v flgs len pgt pm = None"
proof -
  have ex': "extract_loop base (pm_ram pm) v (pgtbl_base pgt) 3 = Some (Inl ENOENT)"
    using ex by (simp add: hal_pgtbl_extract_def RV64_PGTBL_LVL_NR_def)
  obtain d t where d: "d \<le> 2" "table_at base (pm_ram pm) (pgtbl_base pgt) d v = Some t" "\<not> RV64_PTE_IS_VALID (entry_of (pm_ram pm) t d v)"
    by (rule extract_unmapped [OF ok ex'])
  have "remove_table_reference base v pgt pm = None"
    using find_tables_stops [OF d] by (simp add: remove_table_reference_def RV64_PGTBL_LVL_NR_def)
  then show ?thesis
    using assms(3-5) ex by (simp add: hal_pgtbl_remove_def remove_loop.simps [of _ _ _ v])
qed

section \<open>Errors\<close>

lemma table_at_less: "d \<le> d' \<Longrightarrow> table_at base ram root d' v \<noteq> None \<Longrightarrow> table_at base ram root d v \<noteq> None"
  by (induction d' rule: dec_induct) (auto dest: table_at_before split: option.splits)

text \<open>
  C35: the errors of \<open>map_vaddr_to_paddr\<close>. A page that is not aligned to its size is refused with
  \<open>EINVAL\<close>, and a page that is already mapped in that size with \<open>EBUSY\<close>, both without any change. When a
  table is needed and no frame is free, the call does not return \<open>-ENOMEM\<close>: the tables are
  unwound through the entry that was not made, and the assertion on it stops the kernel.
\<close>

theorem map_errors:
  assumes "pt_inv base fl (pgtbl_base pgt) pm" and "e \<le> 2" and "P = rv64_pgtbl_calc_pagesize (2 - e)"
  shows "if \<not> (PAGE_ALIGNED_COMMON v P \<and> PAGE_ALIGNED_COMMON p P)
      then map_vaddr_to_paddr base v p prot flgs P pgt pm = Some (Inl EINVAL, pgt, pm)
      else (case hal_pgtbl_extract base (pm_ram pm) pgt v of
          Some (Inr (pa, pr, fs, sz)) \<Rightarrow> sz = P \<longrightarrow> map_vaddr_to_paddr base v p prot flgs P pgt pm = Some (Inl EBUSY, pgt, pm)
        | Some (Inl ENOENT) \<Rightarrow> table_at base (pm_ram pm) (pgtbl_base pgt) e v = None \<longrightarrow> free_frames fl = {} \<longrightarrow>
            map_vaddr_to_paddr base v p prot flgs P pgt pm = None
        | _ \<Rightarrow> True)"
proof (cases "PAGE_ALIGNED_COMMON v P \<and> PAGE_ALIGNED_COMMON p P")
  case True
  have ok: "tables_ok base (pm_ram pm) (pgtbl_base pgt)" using assms(1) by (simp add: pt_inv_def)
  have ex: "hal_pgtbl_extract base (pm_ram pm) pgt v = extract_loop base (pm_ram pm) v (pgtbl_base pgt) 3"
    by (simp add: hal_pgtbl_extract_def RV64_PGTBL_LVL_NR_def)
  have busy: "map_vaddr_to_paddr base v p prot flgs P pgt pm = Some (Inl EBUSY, pgt, pm)"
    if found: "extract_loop base (pm_ram pm) v (pgtbl_base pgt) 3 = Some (Inr (pa, pr, fs, P))" for pa pr fs
  proof -
    obtain d t where d: "d \<le> 2" "table_at base (pm_ram pm) (pgtbl_base pgt) d v = Some t" "RV64_PTE_IS_VALID (entry_of (pm_ram pm) t d v)"
      and info: "(pa, pr, fs, P) = leaf_info (entry_of (pm_ram pm) t d v) d"
      by (rule extract_mapped [OF ok found])
    have "P = rv64_pgtbl_calc_pagesize (2 - d)" using info unfolding leaf_info_def prod.inject by (elim conjE)
    then have "d = e" using pagesize_eq [OF d(1) assms(2)] assms(3) by metis
    then show ?thesis
      using map_busy [OF assms(1,2)] d(2,3) True unfolding assms(3) by blast
  qed
  have none: "map_vaddr_to_paddr base v p prot flgs P pgt pm = None"
    if ex: "extract_loop base (pm_ram pm) v (pgtbl_base pgt) 3 = Some (Inl ENOENT)"
      and no: "table_at base (pm_ram pm) (pgtbl_base pgt) e v = None" "free_frames fl = {}"
  proof -
    obtain d t where d: "d \<le> 2" "table_at base (pm_ram pm) (pgtbl_base pgt) d v = Some t" "\<not> RV64_PTE_IS_VALID (entry_of (pm_ram pm) t d v)"
      by (rule extract_unmapped [OF ok ex])
    have "d < e" using table_at_less [of e d base "pm_ram pm" "pgtbl_base pgt" v] d(2) no(1) by (cases "e \<le> d") auto
    then show ?thesis
      using map_stops_without_memory [OF assms(1) _ assms(2) d(2,3) no(2)] True assms(3) by simp
  qed
  show ?thesis
    using True busy none by (simp add: ex split: option.split sum.split errno.split prod.split)
next
  case False
  then show ?thesis using map_misaligned [OF assms(2)] assms(3) by simp
qed

text \<open>One page of 4 KiB, mapped by a table page on each level.\<close>

lemma spare_mapped:
  obtains pgt :: vm_pgtbl_type and pm fl where "pt_inv 0x80000000 fl (pgtbl_base pgt) pm"
    and "\<And>v. same_page 0x1000 0x400000 v \<Longrightarrow> hal_pgtbl_extract 0x80000000 (pm_ram pm) pgt v = Some (Inr (0x80010000, 3, 0, 0x1000))"
proof -
  obtain pgt :: vm_pgtbl_type and pm fl where inv: "pt_inv 0x80000000 fl (pgtbl_base pgt) pm" and room: "card (free_frames fl) = 6"
    and free: "\<And>e v. slot_free 0x80000000 (pm_ram pm) (pgtbl_base pgt) e v"
    using spare_table by metis
  have size: "rv64_pgtbl_calc_pagesize (2 - 2) = 0x1000" using page_sizes(3) by (simp add: PAGE_SIZE_def)
  obtain pgt' pm' fl' where run: "pt_inv 0x80000000 fl' (pgtbl_base pgt) pm'" "pages_taken fl fl' pgt pgt' 2"
      "page_view 0x80000000 (pm_ram pm') (pgtbl_base pgt) =
        entered 2 0x400000 0x80010000 3 0 (page_view 0x80000000 (pm_ram pm) (pgtbl_base pgt))"
    by (rule map_page_run [OF inv order.refl _ _ free, of "0x400000" "0x80010000" 3])
      (simp_all add: size [simplified] PAGE_ALIGNED_COMMON_def room)
  have "map_attrs 3 0 = (3, 0)" by code_simp
  moreover have "RV64_PTE_TO_PADDR (leaf_pte 3 0 0x80010000) = 0x80010000"
    by (rule leaf_pte_paddr) (simp_all add: page_aligned_def)
  ultimately have "leaf_info (leaf_pte 3 0 0x80010000) 2 = (0x80010000, 3, 0, 0x1000)"
    using size by (simp add: leaf_info_def leaf_pte_attrs)
  moreover have "pgtbl_base pgt' = pgtbl_base pgt" using run(2) by (auto simp: pages_taken_def)
  ultimately show thesis
    using that [of fl' pgt' pm'] run(1) fun_cong [OF run(3)] same_way_page [of 2 "0x400000"] size
    by (simp add: page_view_def entered_def hal_pgtbl_extract_def RV64_PGTBL_LVL_NR_def)
qed

theorem map_errors_witness:
  "\<exists>pgt pm. map_vaddr_to_paddr 0x80000000 0x400000 0x80012000 1 0 0x1000 pgt pm = Some (Inl EBUSY, pgt, pm) \<and>
     map_vaddr_to_paddr 0x80000000 0x400800 0x80012000 1 0 0x1000 pgt pm = Some (Inl EINVAL, pgt, pm)"
proof -
  obtain pgt :: vm_pgtbl_type and pm fl where inv: "pt_inv 0x80000000 fl (pgtbl_base pgt) pm"
    and page: "\<And>v. same_page 0x1000 0x400000 v \<Longrightarrow> hal_pgtbl_extract 0x80000000 (pm_ram pm) pgt v = Some (Inr (0x80010000, 3, 0, 0x1000))"
    using spare_mapped by metis
  have size: "0x1000 = rv64_pgtbl_calc_pagesize (2 - 2)" using page_sizes(3) by (simp add: PAGE_SIZE_def)
  note errors = map_errors [OF inv order.refl size]
  have "map_vaddr_to_paddr 0x80000000 0x400000 0x80012000 1 0 0x1000 pgt pm = Some (Inl EBUSY, pgt, pm)"
    using errors [of "0x400000" "0x80012000" 1 0] page [of "0x400000"] by (simp add: PAGE_ALIGNED_COMMON_def same_page_def)
  moreover have "map_vaddr_to_paddr 0x80000000 0x400800 0x80012000 1 0 0x1000 pgt pm = Some (Inl EINVAL, pgt, pm)"
    using errors [of "0x400800" "0x80012000" 1 0] by (simp add: PAGE_ALIGNED_COMMON_def)
  ultimately show ?thesis by blast
qed

theorem remove_unmaps_page_witness:
  "\<exists>pgt pm pgt' pm'. hal_pgtbl_extract 0x80000000 (pm_ram pm) pgt 0x400123 = Some (Inr (0x80010000, 3, 0, 0x1000)) \<and>
     hal_pgtbl_remove 0x80000000 0x400000 VM_FLAGS_UNMANAGED 0x1000 pgt pm = Some (pgt', pm') \<and>
     hal_pgtbl_extract 0x80000000 (pm_ram pm') pgt' 0x400123 = Some (Inl ENOENT)"
proof -
  obtain pgt :: vm_pgtbl_type and pm fl where inv: "pt_inv 0x80000000 fl (pgtbl_base pgt) pm"
    and page: "\<And>v. same_page 0x1000 0x400000 v \<Longrightarrow> hal_pgtbl_extract 0x80000000 (pm_ram pm) pgt v = Some (Inr (0x80010000, 3, 0, 0x1000))"
    using spare_mapped by metis
  have pages: "same_page 0x1000 0x400000 0x400000" "same_page 0x1000 0x400000 0x400123"
    by (simp_all add: same_page_def unsigned_take_bit_eq take_bit_nat_def)
  have "VM_FLAGS_UNMANAGED AND VM_FLAGS_UNMANAGED \<noteq> 0" "PAGE_ALIGNED_COMMON 0x400000 PAGE_SIZE"
    "PAGE_ALIGNED_COMMON (0x400000 + 0x1000) PAGE_SIZE" "unat (0x400000 :: u64) + unat (0x1000 :: u64) < 2 ^ 64"
    by (simp_all add: VM_FLAGS_UNMANAGED_def PAGE_ALIGNED_COMMON_def PAGE_SIZE_def)
  then obtain pgt' pm' where run: "hal_pgtbl_remove 0x80000000 0x400000 VM_FLAGS_UNMANAGED 0x1000 pgt pm = Some (pgt', pm')"
    and "\<forall>w. hal_pgtbl_extract 0x80000000 (pm_ram pm') pgt' w =
      (if same_page 0x1000 0x400000 w then Some (Inl ENOENT) else hal_pgtbl_extract 0x80000000 (pm_ram pm) pgt w)"
    using remove_unmaps_page [OF inv page [OF pages(1)], of VM_FLAGS_UNMANAGED] by metis
  then have "hal_pgtbl_extract 0x80000000 (pm_ram pm') pgt' 0x400123 = Some (Inl ENOENT)"
    using pages(2) by simp
  then show ?thesis
    using page [OF pages(2)] run by blast
qed

end
