(* ===== verification/Preempt.thy ===== *)
theory Preempt
  imports Atomic
begin

unbundle bit_operations_syntax

text \<open>
  The thread information block and the control of preemption (kern/thr-preempt.c), for the kernel
  without \<open>CONFIG_PREEMPT\<close> (no configuration sets it) on one processor. The block lies at the end of
  the kernel stack and is found from the stack pointer; a thread and its block point to each other,
  so the block is a member of the thread here, and the current one is that of the running thread.
\<close>

section \<open>Threads and their information blocks\<close>

datatype thr_state =
    THR_TSTATE_DORMANT | THR_TSTATE_RUN | THR_TSTATE_RUNABLE | THR_TSTATE_WAIT
  | THR_TSTATE_EXIT | THR_TSTATE_DEAD

record thread_info =
  magic :: u32
  intrcnt :: u32
  preempt :: u32
  flags :: u32
  mdflags :: u32
  ti_cpu :: nat
  kstack :: u64

text \<open>
  What a thread that does not run has on its stack: a context made by \<open>hal_setup_thread_context\<close>,
  with the \<open>sstatus\<close> to return to, or the frame of \<open>sched_schedule\<close> it was switched out in, with
  the interrupt state saved in that function.
\<close>

datatype switch_context = Fresh u64 | InSchedule intrflags

record thread =
  t_lock :: spinlock
  t_refs :: u32
  t_state :: thr_state
  tinfo :: thread_info
  cur_prio :: nat
  ksp :: switch_context

record kernel =
  threads :: "nat \<Rightarrow> thread"
  current :: nat
  this_cpu :: nat
  imask :: cpu

definition TI_PREEMPT_ACTIVE :: u32 where "TI_PREEMPT_ACTIVE = 0x80000000"

definition TI_DISPATCH_DELAYED :: u32 where "TI_DISPATCH_DELAYED = 1"

definition TI_EVENT_PENDING :: u32 where "TI_EVENT_PENDING = 2"

definition TI_MAGIC :: u32 where "TI_MAGIC = 0xabcdfeed"

definition upd_thread :: "nat \<Rightarrow> (thread \<Rightarrow> thread) \<Rightarrow> ('a) kernel_scheme \<Rightarrow> 'a kernel_scheme" where
  "upd_thread t f s = s\<lparr>threads := (threads s)(t := f (threads s t))\<rparr>"

definition upd_ti :: "nat \<Rightarrow> (thread_info \<Rightarrow> thread_info) \<Rightarrow> ('a) kernel_scheme \<Rightarrow> 'a kernel_scheme" where
  "upd_ti t f s = upd_thread t (tinfo_update f) s"

section \<open>The block of the running thread\<close>

definition calc_thread_info_from_kstack_top :: "u64 \<Rightarrow> u64 \<Rightarrow> u64 \<Rightarrow> u64" where
  "calc_thread_info_from_kstack_top stack_size sz_ti kstk_top = kstk_top + stack_size - sz_ti"

text \<open>The address computed by \<open>ti_get_current_thread_info\<close> from the stack pointer.\<close>

definition thread_info_address :: "u64 \<Rightarrow> u64 \<Rightarrow> u64 \<Rightarrow> u64" where
  "thread_info_address stack_size sz_ti sp =
     calc_thread_info_from_kstack_top stack_size sz_ti (truncate_align sp stack_size)"

definition ti_get_current_thread_info :: "('a) kernel_scheme \<Rightarrow> thread_info" where
  "ti_get_current_thread_info s = tinfo (threads s (current s))"

definition ti_get_current_thread :: "('a) kernel_scheme \<Rightarrow> nat" where
  "ti_get_current_thread s = current s"

definition ti_current_cpu_get :: "('a) kernel_scheme \<Rightarrow> nat" where
  "ti_current_cpu_get s = ti_cpu (ti_get_current_thread_info s)"

definition ti_update_current_cpu :: "('a) kernel_scheme \<Rightarrow> 'a kernel_scheme" where
  "ti_update_current_cpu s = upd_ti (current s) (ti_cpu_update (\<lambda>_. this_cpu s)) s"

text \<open>\<open>ti_addr\<close> is the address of the block.\<close>

definition ti_thread_info_init :: "u64 \<Rightarrow> u64 \<Rightarrow> nat \<Rightarrow> ('a) kernel_scheme \<Rightarrow> 'a kernel_scheme" where
  "ti_thread_info_init stack_size ti_addr t s =
     upd_ti t (\<lambda>_. \<lparr>magic = TI_MAGIC, intrcnt = 0, preempt = 0, flags = 0, mdflags = 0,
       ti_cpu = this_cpu s, kstack = truncate_align ti_addr stack_size\<rparr>) s"

section \<open>Nesting of preemption and interrupts\<close>

definition ti_dispatch_disabled :: "('a) kernel_scheme \<Rightarrow> bool" where
  "ti_dispatch_disabled s \<longleftrightarrow>
     (let ti = ti_get_current_thread_info s
      in TI_PREEMPT_ACTIVE AND preempt ti \<noteq> 0 \<or> NOT TI_PREEMPT_ACTIVE AND preempt ti \<noteq> 0 \<or> intrcnt ti \<noteq> 0)"

definition disable_intr :: "('a) kernel_scheme \<Rightarrow> intrflags \<times> 'a kernel_scheme" where
  "disable_intr s = (let (iflags, c) = krn_cpu_save_and_disable_interrupt (imask s) in (iflags, s\<lparr>imask := c\<rparr>))"

definition restore_intr :: "intrflags \<Rightarrow> ('a) kernel_scheme \<Rightarrow> 'a kernel_scheme" where
  "restore_intr iflags s = s\<lparr>imask := krn_cpu_restore_interrupt iflags (imask s)\<rparr>"

definition preempt_dispatch :: "('a) kernel_scheme \<Rightarrow> bool \<times> 'a kernel_scheme" where
  "preempt_dispatch s =
     (let (iflags, s1) = disable_intr s;
          preempted = (flags (ti_get_current_thread_info s1) AND TI_DISPATCH_DELAYED \<noteq> 0 \<and>
                       \<not> ti_dispatch_disabled s1)
      in (preempted, restore_intr iflags s1))"

definition ti_inc_preempt :: "('a) kernel_scheme \<Rightarrow> 'a kernel_scheme" where
  "ti_inc_preempt s =
     (let (iflags, s1) = disable_intr s
      in restore_intr iflags (upd_ti (current s1) (preempt_update (\<lambda>n. n + 1)) s1))"

definition ti_dec_preempt :: "('a) kernel_scheme \<Rightarrow> (bool \<times> 'a kernel_scheme) option" where
  "ti_dec_preempt s = do {
     let (iflags, s1) = disable_intr s;
     kassert (preempt (ti_get_current_thread_info s1) > 0);
     let s2 = upd_ti (current s1) (preempt_update (\<lambda>n. n - 1)) s1;
     let (preempted, s3) = preempt_dispatch s2;
     Some (preempted, restore_intr iflags s3)
   }"

definition ti_inc_intr :: "('a) kernel_scheme \<Rightarrow> 'a kernel_scheme" where
  "ti_inc_intr s =
     (let (iflags, s1) = disable_intr s
      in restore_intr iflags (upd_ti (current s1) (intrcnt_update (\<lambda>n. n + 1)) s1))"

definition ti_dec_intr :: "('a) kernel_scheme \<Rightarrow> (bool \<times> 'a kernel_scheme) option" where
  "ti_dec_intr s = do {
     let (iflags, s1) = disable_intr s;
     kassert (intrcnt (ti_get_current_thread_info s1) > 0);
     let s2 = upd_ti (current s1) (intrcnt_update (\<lambda>n. n - 1)) s1;
     let (preempted, s3) = preempt_dispatch s2;
     Some (preempted, restore_intr iflags s3)
   }"

definition ti_in_intr :: "('a) kernel_scheme \<Rightarrow> bool \<times> 'a kernel_scheme" where
  "ti_in_intr s =
     (let (iflags, s1) = disable_intr s
      in (intrcnt (ti_get_current_thread_info s1) > 0, restore_intr iflags s1))"

definition ti_set_preempt_active :: "('a) kernel_scheme \<Rightarrow> 'a kernel_scheme" where
  "ti_set_preempt_active s = upd_ti (current s) (preempt_update (\<lambda>n. n OR TI_PREEMPT_ACTIVE)) s"

definition ti_clr_preempt_active :: "('a) kernel_scheme \<Rightarrow> 'a kernel_scheme" where
  "ti_clr_preempt_active s = upd_ti (current s) (preempt_update (\<lambda>n. n AND NOT TI_PREEMPT_ACTIVE)) s"

section \<open>Requests: delayed dispatch and events\<close>

text \<open>The lock of a thread, with the interrupt mask.\<close>

definition lock_thread_disable_intr :: "nat \<Rightarrow> ('a) kernel_scheme \<Rightarrow> (intrflags \<times> 'a kernel_scheme) option" where
  "lock_thread_disable_intr t s = do {
     (iflags, l, c) \<leftarrow> spinlock_lock_disable_intr (t_lock (threads s t)) (imask s);
     Some (iflags, (upd_thread t (t_lock_update (\<lambda>_. l)) s)\<lparr>imask := c\<rparr>)
   }"

definition unlock_thread_restore_intr :: "nat \<Rightarrow> intrflags \<Rightarrow> ('a) kernel_scheme \<Rightarrow> 'a kernel_scheme option" where
  "unlock_thread_restore_intr t iflags s = do {
     (l, c) \<leftarrow> spinlock_unlock_restore_intr iflags (t_lock (threads s t)) (imask s);
     Some ((upd_thread t (t_lock_update (\<lambda>_. l)) s)\<lparr>imask := c\<rparr>)
   }"

definition ti_dispatch_delayed :: "('a) kernel_scheme \<Rightarrow> (bool \<times> 'a kernel_scheme) option" where
  "ti_dispatch_delayed s = do {
     kassert (krn_cpu_interrupt_disabled (imask s));
     let cur = ti_get_current_thread s;
     (iflags, s1) \<leftarrow> lock_thread_disable_intr cur s;
     let res = (flags (ti_get_current_thread_info s1) AND TI_DISPATCH_DELAYED \<noteq> 0);
     s2 \<leftarrow> unlock_thread_restore_intr cur iflags s1;
     Some (res, s2)
   }"

definition ti_set_delay_dispatch :: "nat \<Rightarrow> ('a) kernel_scheme \<Rightarrow> 'a kernel_scheme option" where
  "ti_set_delay_dispatch t s = do {
     kassert (krn_cpu_interrupt_disabled (imask s));
     (iflags, s1) \<leftarrow> lock_thread_disable_intr t s;
     let s2 = upd_ti t (flags_update (\<lambda>f. f OR TI_DISPATCH_DELAYED)) s1;
     unlock_thread_restore_intr t iflags s2
   }"

definition ti_clr_delay_dispatch :: "('a) kernel_scheme \<Rightarrow> 'a kernel_scheme option" where
  "ti_clr_delay_dispatch s = do {
     kassert (krn_cpu_interrupt_disabled (imask s));
     let cur = ti_get_current_thread s;
     (iflags, s1) \<leftarrow> lock_thread_disable_intr cur s;
     let s2 = upd_ti (current s1) (flags_update (\<lambda>f. f AND NOT TI_DISPATCH_DELAYED)) s1;
     unlock_thread_restore_intr cur iflags s2
   }"

definition ti_has_events :: "('a) kernel_scheme \<Rightarrow> (bool \<times> 'a kernel_scheme) option" where
  "ti_has_events s = do {
     let cur = ti_get_current_thread s;
     (iflags, s1) \<leftarrow> lock_thread_disable_intr cur s;
     let res = (flags (ti_get_current_thread_info s1) AND TI_EVENT_PENDING \<noteq> 0);
     s2 \<leftarrow> unlock_thread_restore_intr cur iflags s1;
     Some (res, s2)
   }"

text \<open>\<open>ti_set_events\<close> overwrites its argument \<open>ti\<close> with the block of the running thread.\<close>

definition ti_set_events :: "nat \<Rightarrow> ('a) kernel_scheme \<Rightarrow> 'a kernel_scheme option" where
  "ti_set_events t s = do {
     let cur = ti_get_current_thread s;
     (iflags, s1) \<leftarrow> lock_thread_disable_intr cur s;
     let t = current s1;
     let s2 = upd_ti t (flags_update (\<lambda>f. f OR TI_EVENT_PENDING)) s1;
     unlock_thread_restore_intr cur iflags s2
   }"

definition ti_clr_events :: "('a) kernel_scheme \<Rightarrow> 'a kernel_scheme option" where
  "ti_clr_events s = do {
     let cur = ti_get_current_thread s;
     (iflags, s1) \<leftarrow> lock_thread_disable_intr cur s;
     let s2 = upd_ti (current s1) (flags_update (\<lambda>f. f AND NOT TI_EVENT_PENDING)) s1;
     unlock_thread_restore_intr cur iflags s2
   }"

section \<open>Lemmas\<close>

lemma upd_fields [simp]:
  "current (upd_thread t f s) = current s" "this_cpu (upd_thread t f s) = this_cpu s"
  "imask (upd_thread t f s) = imask s"
  "threads (upd_thread t f s) = (threads s)(t := f (threads s t))"
  "current (upd_ti t g s) = current s" "this_cpu (upd_ti t g s) = this_cpu s"
  "imask (upd_ti t g s) = imask s"
  "threads (upd_ti t g s) = (threads s)(t := tinfo_update g (threads s t))"
  by (simp_all add: upd_thread_def upd_ti_def)

lemma upd_more [simp]: "kernel.more (upd_thread t f s) = kernel.more s" "kernel.more (upd_ti t g s) = kernel.more s"
  by (simp_all add: upd_thread_def upd_ti_def)

text \<open>The lock of a thread is a lock of the kernel state.\<close>

interpretation thread_lock: locked_state "\<lambda>s :: ('a) kernel_scheme. t_lock (threads s t)" imask
    "\<lambda>l c s. (upd_thread t (t_lock_update (\<lambda>_. l)) s)\<lparr>imask := c\<rparr>"
    "lock_thread_disable_intr t" "unlock_thread_restore_intr t" for t :: nat
  by unfold_locales (auto simp: lock_thread_disable_intr_def unlock_thread_restore_intr_def
      intro!: kernel.equality ext thread.equality)

lemma kernel_mask_same [simp]: "s\<lparr>imask := imask s\<rparr> = s"
  by simp

lemma masked_section: "restore_intr (fst (disable_intr s)) (upd_ti t g (snd (disable_intr s))) = upd_ti t g s"
  by (simp add: disable_intr_def restore_intr_def krn_cpu_save_and_disable_interrupt_def
      krn_cpu_restore_interrupt_def upd_ti_def upd_thread_def rv64_cpu_save_flags_def)

lemma lock_thread_free:
  "lock_free (t_lock (threads s t)) \<Longrightarrow> lock_thread_disable_intr t s =
    Some (sstatus (imask s), (upd_thread t (t_lock_update lock_taken) s)\<lparr>imask := rv64_cpu_disable_interrupt (imask s)\<rparr>)"
  by (cases "threads s t") (simp add: thread_lock.enter_code upd_thread_def)

lemma unlock_thread_taken:
  "lock_free l \<Longrightarrow> t_lock (threads s t) = lock_taken l \<Longrightarrow> unlock_thread_restore_intr t f s =
    Some ((upd_thread t (t_lock_update (\<lambda>_. l)) s)\<lparr>imask := rv64_cpu_restore_flags f (imask s)\<rparr>)"
  by (simp add: thread_lock.leave_code)

text \<open>What is done under the lock of a thread is done, and nothing else.\<close>

lemma thread_section:
  assumes "lock_free (t_lock (threads s t))"
  shows "unlock_thread_restore_intr t (sstatus (imask s))
      (upd_ti u g ((upd_thread t (t_lock_update lock_taken) s)\<lparr>imask := rv64_cpu_disable_interrupt (imask s)\<rparr>)) =
      Some (upd_ti u g s)"
    and "unlock_thread_restore_intr t (sstatus (imask s))
      ((upd_thread t (t_lock_update lock_taken) s)\<lparr>imask := rv64_cpu_disable_interrupt (imask s)\<rparr>) = Some s"
proof -
  have "(upd_thread t (t_lock_update (\<lambda>_. t_lock (threads s t)))
      (upd_ti u g ((upd_thread t (t_lock_update lock_taken) s)\<lparr>imask := c\<rparr>)))\<lparr>imask := imask s\<rparr> = upd_ti u g s" for c
    by (rule kernel.equality) (auto intro!: ext thread.equality)
  then show "unlock_thread_restore_intr t (sstatus (imask s))
      (upd_ti u g ((upd_thread t (t_lock_update lock_taken) s)\<lparr>imask := rv64_cpu_disable_interrupt (imask s)\<rparr>)) =
      Some (upd_ti u g s)"
    using unlock_thread_taken [OF assms, of "upd_ti u g ((upd_thread t (t_lock_update lock_taken) s)
        \<lparr>imask := rv64_cpu_disable_interrupt (imask s)\<rparr>)" t "sstatus (imask s)"] by simp
  have "(upd_thread t (t_lock_update (\<lambda>_. t_lock (threads s t)))
      ((upd_thread t (t_lock_update lock_taken) s)\<lparr>imask := c\<rparr>))\<lparr>imask := imask s\<rparr> = s" for c
    by (rule kernel.equality) (auto intro!: ext thread.equality)
  then show "unlock_thread_restore_intr t (sstatus (imask s))
      ((upd_thread t (t_lock_update lock_taken) s)\<lparr>imask := rv64_cpu_disable_interrupt (imask s)\<rparr>) = Some s"
    using unlock_thread_taken [OF assms, of "(upd_thread t (t_lock_update lock_taken) s)
        \<lparr>imask := rv64_cpu_disable_interrupt (imask s)\<rparr>" t "sstatus (imask s)"] by simp
qed

lemma masked_update:
  "restore_intr (fst (disable_intr s)) (upd_ti t g (snd (disable_intr s))) = upd_ti t g s"
  "restore_intr (fst (disable_intr s)) (snd (disable_intr s)) = s"
  by (simp_all add: disable_intr_def restore_intr_def krn_cpu_save_and_disable_interrupt_def
      krn_cpu_restore_interrupt_def upd_ti_def upd_thread_def rv64_cpu_save_flags_def)

lemma disable_intr_fields [simp]:
  "current (snd (disable_intr s)) = current s" "threads (snd (disable_intr s)) = threads s"
  "this_cpu (snd (disable_intr s)) = this_cpu s"
  by (simp_all add: disable_intr_def case_prod_beta Let_def)

lemma dispatch_disabled_iff:
  "ti_dispatch_disabled s \<longleftrightarrow> preempt (ti_get_current_thread_info s) \<noteq> 0 \<or> intrcnt (ti_get_current_thread_info s) \<noteq> 0"
proof -
  have "m AND n \<noteq> 0 \<or> NOT m AND n \<noteq> 0 \<longleftrightarrow> n \<noteq> 0" for m n :: u32
  proof -
    have "(m AND n) OR (NOT m AND n) = n"
      by (rule bit_eqI) (auto simp: bit_simps)
    then show ?thesis by (metis and_zero_eq or.left_neutral)
  qed
  from this [of TI_PREEMPT_ACTIVE] show ?thesis
    unfolding ti_dispatch_disabled_def Let_def by blast
qed

lemma preempt_dispatch_eq:
  "preempt_dispatch s = (flags (ti_get_current_thread_info s) AND TI_DISPATCH_DELAYED \<noteq> 0 \<and> \<not> ti_dispatch_disabled s, s)"
  by (simp add: preempt_dispatch_def case_prod_beta Let_def masked_update
      dispatch_disabled_iff ti_get_current_thread_info_def)

lemma counter_ops:
  "ti_inc_preempt s = upd_ti (current s) (preempt_update (\<lambda>n. n + 1)) s"
  "ti_inc_intr s = upd_ti (current s) (intrcnt_update (\<lambda>n. n + 1)) s"
  "ti_in_intr s = (intrcnt (ti_get_current_thread_info s) \<noteq> 0, s)"
  by (simp_all add: ti_inc_preempt_def ti_inc_intr_def ti_in_intr_def case_prod_beta Let_def masked_update
      ti_get_current_thread_info_def word_neq_0_conv)

lemma dec_ops:
  "ti_dec_preempt s = (if preempt (ti_get_current_thread_info s) = 0 then None
    else let s' = upd_ti (current s) (preempt_update (\<lambda>n. n - 1)) s
      in Some (flags (ti_get_current_thread_info s') AND TI_DISPATCH_DELAYED \<noteq> 0 \<and> \<not> ti_dispatch_disabled s', s'))"
  "ti_dec_intr s = (if intrcnt (ti_get_current_thread_info s) = 0 then None
    else let s' = upd_ti (current s) (intrcnt_update (\<lambda>n. n - 1)) s
      in Some (flags (ti_get_current_thread_info s') AND TI_DISPATCH_DELAYED \<noteq> 0 \<and> \<not> ti_dispatch_disabled s', s'))"
  by (simp_all add: ti_dec_preempt_def ti_dec_intr_def case_prod_beta Let_def masked_update preempt_dispatch_eq
      ti_get_current_thread_info_def word_neq_0_conv dispatch_disabled_iff kassert_def)

lemma request_ops:
  assumes "lock_free (t_lock (threads s (current s)))"
  shows "ti_has_events s = Some (flags (ti_get_current_thread_info s) AND TI_EVENT_PENDING \<noteq> 0, s)"
    and "ti_set_events t s = Some (upd_ti (current s) (flags_update (\<lambda>f. f OR TI_EVENT_PENDING)) s)"
    and "ti_clr_events s = Some (upd_ti (current s) (flags_update (\<lambda>f. f AND NOT TI_EVENT_PENDING)) s)"
    and "krn_cpu_interrupt_disabled (imask s) \<Longrightarrow>
      ti_dispatch_delayed s = Some (flags (ti_get_current_thread_info s) AND TI_DISPATCH_DELAYED \<noteq> 0, s)"
    and "krn_cpu_interrupt_disabled (imask s) \<Longrightarrow>
      ti_clr_delay_dispatch s = Some (upd_ti (current s) (flags_update (\<lambda>f. f AND NOT TI_DISPATCH_DELAYED)) s)"
  by (simp_all add: ti_has_events_def ti_set_events_def ti_clr_events_def ti_dispatch_delayed_def
      ti_clr_delay_dispatch_def ti_get_current_thread_def ti_get_current_thread_info_def
      lock_thread_free [OF assms] thread_section [OF assms])

lemma set_delay_dispatch:
  assumes "lock_free (t_lock (threads s t))" and "krn_cpu_interrupt_disabled (imask s)"
  shows "ti_set_delay_dispatch t s = Some (upd_ti t (flags_update (\<lambda>f. f OR TI_DISPATCH_DELAYED)) s)"
  using assms(2) by (simp add: ti_set_delay_dispatch_def lock_thread_free [OF assms(1)] thread_section [OF assms(1)])

lemma truncate_within:
  assumes k: "k < 64" and stk: "truncate_align stk (push_bit k 1) = stk" and off: "off < push_bit k 1"
  shows "truncate_align (stk + off) (push_bit k 1) = stk"
proof -
  have msk: "push_bit k 1 - 1 = (Bit_Operations.mask k :: u64)"
    by (simp add: mask_eq_exp_minus_1 push_bit_eq_mult)
  have "unat off < 2 ^ k"
  proof -
    have "unat ((of_nat (2 ^ k)) :: u64) = 2 ^ k"
      using k by (simp only: unsigned_of_nat) (simp add: take_bit_nat_eq_self)
    then show ?thesis using off by (simp add: word_less_nat_alt push_bit_eq_mult)
  qed
  then have "take_bit k (unat off) = unat off"
    by (simp add: take_bit_nat_eq_self)
  then have low: "take_bit k off = off"
    by (metis unsigned_take_bit_eq word_unat_eq_iff)
  have high: "stk AND NOT (Bit_Operations.mask k) = stk"
    using stk unfolding truncate_align_def msk .
  have "bit stk n \<Longrightarrow> \<not> n < k" "bit off n \<Longrightarrow> n < k" for n
    using arg_cong [OF high, of "\<lambda>x. bit x n"] arg_cong [OF low, of "\<lambda>x. bit x n"]
    by (auto simp: bit_simps)
  then have "\<not> (bit stk n \<and> bit off n)" "bit stk n \<or> bit off n \<Longrightarrow> \<not> n < k \<longleftrightarrow> bit stk n" for n
    by blast+
  then have "stk AND off = 0" "(stk OR off) AND NOT (Bit_Operations.mask k) = stk"
    by (auto simp: bit_eq_iff bit_simps dest: bit_imp_le_length)
  then show ?thesis
    unfolding truncate_align_def msk by (simp add: disjunctive_add_eq_or)
qed

section \<open>Properties\<close>

text \<open>
  C22: the preemption and interrupt counters nest. Entering changes only the counter of the running
  thread and makes dispatch impossible; leaving after entering restores the state, and reports a
  dispatch exactly when one has been requested and no other section, of either kind, is open;
  leaving without entering stops the kernel. A counter of 32 bits that is entered \<open>2 ^ 32 - 1\<close>
  levels deep wraps to 0, which neither notices. The interrupt mask is as before in every case.
\<close>

theorem preemption_nesting:
  "(let ti = ti_get_current_thread_info s;
        allowed = (flags ti AND TI_DISPATCH_DELAYED \<noteq> 0 \<and> preempt ti = 0 \<and> intrcnt ti = 0)
    in threads (ti_inc_preempt s) =
         (threads s)(current s := tinfo_update (preempt_update (\<lambda>n. n + 1)) (threads s (current s))) \<and>
       imask (ti_inc_preempt s) = imask s \<and> imask (ti_inc_intr s) = imask s \<and>
       ti_dec_preempt (ti_inc_preempt s) = (if preempt ti = - 1 then None else Some (allowed, s)) \<and>
       ti_dec_intr (ti_inc_intr s) = (if intrcnt ti = - 1 then None else Some (allowed, s)) \<and>
       (if preempt ti = - 1 then ti_dispatch_disabled (ti_inc_preempt s) = (intrcnt ti \<noteq> 0)
        else ti_dispatch_disabled (ti_inc_preempt s)) \<and>
       (ti_dec_preempt s = None \<longleftrightarrow> preempt ti = 0) \<and> (ti_dec_intr s = None \<longleftrightarrow> intrcnt ti = 0) \<and>
       ti_in_intr (ti_inc_intr s) = (intrcnt ti \<noteq> - 1, ti_inc_intr s))"
proof -
  have wrap: "n + 1 = 0 \<longleftrightarrow> n = - 1" for n :: u32
    by (metis add.commute add_eq_0_iff)
  have same: "upd_ti t g (upd_ti t f s) = s" if "\<And>ti. g (f ti) = ti" for t f g
    by (rule kernel.equality) (auto intro!: ext thread.equality simp: that)
  have undo: "upd_ti (current s) (preempt_update (\<lambda>n. n - 1)) (upd_ti (current s) (preempt_update (\<lambda>n. n + 1)) s) = s"
    "upd_ti (current s) (intrcnt_update (\<lambda>n. n - 1)) (upd_ti (current s) (intrcnt_update (\<lambda>n. n + 1)) s) = s"
    by (rule same, rule thread_info.equality, simp_all)+
  show ?thesis
    by (simp add: Let_def counter_ops dec_ops undo ti_get_current_thread_info_def dispatch_disabled_iff wrap)
qed

text \<open>
  C23: the requests in the flags of a thread information block. The one in use is that at the end
  of the kernel stack the stack pointer is in, wherever in the stack it points. With the thread not
  locked and interrupts masked, a delayed dispatch can be requested for any thread and is seen and
  cleared by the running one; \<open>ti_set_events\<close> instead always notifies the running thread, whatever
  thread it is called for. Each call changes one flag of one thread and leaves the locks and the
  interrupt mask as they were.
\<close>

theorem thread_requests:
  assumes "lock_free (t_lock (threads s (current s)))" and "lock_free (t_lock (threads s t))"
    and "krn_cpu_interrupt_disabled (imask s)"
    and "k < 64" and "stack_size = push_bit k 1" and "truncate_align stk stack_size = stk" and "sp - stk < stack_size"
  shows "thread_info_address stack_size sz_ti sp = stk + stack_size - sz_ti \<and>
    ti_set_delay_dispatch t s = Some (upd_ti t (flags_update (\<lambda>f. f OR TI_DISPATCH_DELAYED)) s) \<and>
    ti_dispatch_delayed s = Some (flags (tinfo (threads s (current s))) AND TI_DISPATCH_DELAYED \<noteq> 0, s) \<and>
    ti_clr_delay_dispatch s = Some (upd_ti (current s) (flags_update (\<lambda>f. f AND NOT TI_DISPATCH_DELAYED)) s) \<and>
    ti_has_events s = Some (flags (tinfo (threads s (current s))) AND TI_EVENT_PENDING \<noteq> 0, s) \<and>
    ti_set_events t s = Some (upd_ti (current s) (flags_update (\<lambda>f. f OR TI_EVENT_PENDING)) s) \<and>
    ti_clr_events s = Some (upd_ti (current s) (flags_update (\<lambda>f. f AND NOT TI_EVENT_PENDING)) s)"
proof -
  have "truncate_align sp stack_size = stk"
    using truncate_within [OF assms(4), of stk "sp - stk"] assms(4-7) by simp
  then show ?thesis
    using request_ops [OF assms(1)] set_delay_dispatch [OF assms(2,3)] assms(3)
    by (simp add: thread_info_address_def calc_thread_info_from_kstack_top_def ti_get_current_thread_info_def)
qed

text \<open>Two threads, the first of which runs with interrupts masked.\<close>

definition sample_thread :: thread where
  "sample_thread = \<lparr>t_lock = spinlock_init, t_refs = 1, t_state = THR_TSTATE_RUN,
     tinfo = \<lparr>magic = TI_MAGIC, intrcnt = 0, preempt = 0, flags = 0, mdflags = 0, ti_cpu = 0, kstack = 0\<rparr>,
     cur_prio = 255, ksp = InSchedule 0\<rparr>"

definition sample_kernel :: kernel where
  "sample_kernel = \<lparr>threads = \<lambda>_. sample_thread, current = 0, this_cpu = 0, imask = \<lparr>sstatus = 0, sie = 0\<rparr>\<rparr>"

theorem thread_requests_witness:
  "map_option (\<lambda>s. (flags (tinfo (threads s 0)), flags (tinfo (threads s 1)))) (ti_set_events 1 sample_kernel) =
     Some (TI_EVENT_PENDING, 0) \<and>
   thread_info_address 0x4000 64 0x87654321 = 0x87657fc0"
proof -
  have free: "lock_free (t_lock (threads sample_kernel n))" for n
    by (simp add: sample_kernel_def sample_thread_def)
  have masked: "krn_cpu_interrupt_disabled (imask sample_kernel)"
    by code_simp
  have stack: "(14 :: nat) < 64" "(0x4000 :: u64) = push_bit 14 1" "truncate_align 0x87654000 0x4000 = 0x87654000"
    "(0x87654321 :: u64) - 0x87654000 < 0x4000"
    by code_simp+
  have "flags (tinfo (threads sample_kernel n)) = 0" "current sample_kernel = 0" for n
    by (simp_all add: sample_kernel_def sample_thread_def)
  with thread_requests [OF free free masked stack, where t = 1 and sz_ti = 64] show ?thesis
    by simp
qed

end
