(* ===== verification/SchedQueue.thy ===== *)
theory SchedQueue
  imports Queue Bitops Preempt
begin

unbundle bit_operations_syntax

text \<open>
  The ready queue and the scheduler (kern/sched-queue.c) of one processor, with the thread switch
  and the references of threads (kern/thr-thread.c) and the context of a new thread
  (hal/riscv64/rv64-thread.c). The state extends that of Preempt by the ready queue: a bitmap of the
  priorities that have a thread, and one queue per priority in a store whose nodes are the heads and
  the links of the threads.

  A switch gives the processor to another thread, which goes on where it left it. A thread that was
  switched out before is in \<open>sched_schedule\<close> and finishes this function with its own copy of the
  saved interrupt state; a new one returns from a trap to its entry. The state after
  \<open>sched_schedule\<close> is that in which the thread that got the processor leaves the function, or starts.
\<close>

section \<open>State\<close>

definition SCHED_PRIO_NR :: nat where "SCHED_PRIO_NR = 256"

datatype sched_node = Ready nat | Thr nat

record sched = kernel +
  rq_lock :: spinlock
  bitmap :: "u64 list"
  rlinks :: "sched_node lstore"
  idle_threads :: "nat \<Rightarrow> nat option"
  thrdb_lock :: spinlock

section \<open>References of a thread (kern/thr-thread.c)\<close>

definition thr_ref_inc :: "nat \<Rightarrow> sched \<Rightarrow> (bool \<times> sched) option" where
  "thr_ref_inc t s = do {
     (old, n) \<leftarrow> refcnt_inc_if_valid (t_refs (threads s t));
     Some (old \<noteq> 0, upd_thread t (t_refs_update (\<lambda>_. n)) s)
   }"

text \<open>
  \<open>last_ref\<close> is what \<open>thr_ref_dec\<close> does for the last reference, with the lock of the thread database
  held and the interrupt state to restore: the removal of the thread from the database and the notice
  to its parent.
\<close>

definition thr_ref_dec ::
    "(nat \<Rightarrow> intrflags \<Rightarrow> sched \<Rightarrow> sched option) \<Rightarrow> nat \<Rightarrow> sched \<Rightarrow> (bool \<times> sched) option" where
  "thr_ref_dec last_ref t s = do {
     (res, n, iflags, l, c) \<leftarrow>
       refcnt_dec_and_lock_disable_intr (t_refs (threads s t)) (thrdb_lock s) (imask s);
     let s1 = (upd_thread t (t_refs_update (\<lambda>_. n)) s)\<lparr>thrdb_lock := l, imask := c\<rparr>;
     if res then do { s2 \<leftarrow> last_ref t iflags s1; Some (True, s2) }
     else Some (False, s1)
   }"

section \<open>The ready queue\<close>

definition link_thread :: "sched_node \<Rightarrow> nat option" where
  "link_thread n = (case n of Thr t \<Rightarrow> Some t | Ready p \<Rightarrow> None)"

text \<open>\<open>container_of\<close> of a head is never taken: the queue of a set bit is not empty.\<close>

definition get_next_thread :: "sched \<Rightarrow> (nat option \<times> sched) option" where
  "get_next_thread s = do {
     (iflags, l, c) \<leftarrow> spinlock_lock_disable_intr (rq_lock s) (imask s);
     let s1 = s\<lparr>rq_lock := l, imask := c\<rparr>;
     let idx = bitops_ffs (BM64 (bitmap s1));
     if idx = 0 then do {
       (l', c') \<leftarrow> spinlock_unlock_restore_intr iflags (rq_lock s1) (imask s1);
       Some (None, s1\<lparr>rq_lock := l', imask := c'\<rparr>)
     } else do {
       let idx = nat (idx - 1);
       let (link, h) = queue_get_top (Ready idx) (rlinks s1);
       thr \<leftarrow> link_thread link;
       let s2 = s1\<lparr>rlinks := h\<rparr>;
       let s3 = (if queue_is_empty (Ready idx) (rlinks s2)
                 then s2\<lparr>bitmap := bitops_clr idx (bitmap s2)\<rparr> else s2);
       kassert (t_state (threads s3 thr) = THR_TSTATE_RUNABLE);
       (l', c') \<leftarrow> spinlock_unlock_restore_intr iflags (rq_lock s3) (imask s3);
       Some (Some thr, s3\<lparr>rq_lock := l', imask := c'\<rparr>)
     }
   }"

definition lock_thread :: "nat \<Rightarrow> sched \<Rightarrow> sched option" where
  "lock_thread t s = do {
     l \<leftarrow> spinlock_lock (t_lock (threads s t));
     Some (upd_thread t (t_lock_update (\<lambda>_. l)) s)
   }"

definition unlock_thread :: "nat \<Rightarrow> sched \<Rightarrow> sched option" where
  "unlock_thread t s = do {
     l \<leftarrow> spinlock_unlock (t_lock (threads s t));
     Some (upd_thread t (t_lock_update (\<lambda>_. l)) s)
   }"

definition sched_thread_add ::
    "(nat \<Rightarrow> intrflags \<Rightarrow> sched \<Rightarrow> sched option) \<Rightarrow> nat \<Rightarrow> sched \<Rightarrow> sched option" where
  "sched_thread_add last_ref thr s = do {
     (tref, s1) \<leftarrow> thr_ref_inc thr s;
     if \<not> tref then Some s1
     else do {
       kassert (list_not_linked (Thr thr) (rlinks s1));
       kassert (t_state (threads s1 thr) = THR_TSTATE_RUNABLE);
       (iflags, l, c) \<leftarrow> spinlock_lock_disable_intr (rq_lock s1) (imask s1);
       let s2 = s1\<lparr>rq_lock := l, imask := c\<rparr>;
       let prio = cur_prio (threads s2 thr);
       let s3 = (if queue_is_empty (Ready prio) (rlinks s2)
                 then s2\<lparr>bitmap := bitops_set prio (bitmap s2)\<rparr> else s2);
       s4 \<leftarrow> lock_thread thr s3;
       let s5 = s4\<lparr>rlinks := queue_add (Ready prio) (Thr thr) (rlinks s4)\<rparr>;
       let own = (ti_cpu (tinfo (threads s5 thr)) = this_cpu s5);
       s6 \<leftarrow> unlock_thread thr s5;
       (_, s7) \<leftarrow> thr_ref_dec last_ref thr s6;
       s8 \<leftarrow> (if own then ti_set_delay_dispatch (current s7) s7 else Some s7);
       (l', c') \<leftarrow> spinlock_unlock_restore_intr iflags (rq_lock s8) (imask s8);
       Some (s8\<lparr>rq_lock := l', imask := c'\<rparr>)
     }
   }"

definition sched_thread_del :: "nat \<Rightarrow> sched \<Rightarrow> sched option" where
  "sched_thread_del thr s = do {
     (iflags, l, c) \<leftarrow> spinlock_lock_disable_intr (rq_lock s) (imask s);
     s1 \<leftarrow> lock_thread thr (s\<lparr>rq_lock := l, imask := c\<rparr>);
     let prio = cur_prio (threads s1 thr);
     let s2 = s1\<lparr>rlinks := snd (queue_del (Ready prio) (Thr thr) (rlinks s1))\<rparr>;
     let s3 = (if queue_is_empty (Ready prio) (rlinks s2)
               then s2\<lparr>bitmap := bitops_clr prio (bitmap s2)\<rparr> else s2);
     s4 \<leftarrow> unlock_thread thr s3;
     (l', c') \<leftarrow> spinlock_unlock_restore_intr iflags (rq_lock s4) (imask s4);
     Some (s4\<lparr>rq_lock := l', imask := c'\<rparr>)
   }"

section \<open>Switching threads\<close>

definition SSTATUS_SPIE :: u64 where "SSTATUS_SPIE = push_bit 5 1"

definition SSTATUS_UPIE :: u64 where "SSTATUS_UPIE = push_bit 4 1"

definition SSTATUS_SPP :: u64 where "SSTATUS_SPP = push_bit 8 1"

definition SSTATUS_SUM :: u64 where "SSTATUS_SUM = push_bit 18 1"

definition THR_THRFLAGS_USER :: u32 where "THR_THRFLAGS_USER = 1"

text \<open>The \<open>sstatus\<close> in the trap context made by \<open>hal_setup_thread_context\<close>.\<close>

definition hal_setup_thread_context :: "u32 \<Rightarrow> switch_context" where
  "hal_setup_thread_context thr_flags =
     (let estatus = 0 AND NOT (SSTATUS_SPP OR SSTATUS_SPIE OR SSTATUS_UPIE)
      in Fresh (if thr_flags AND THR_THRFLAGS_USER \<noteq> 0
                then estatus OR (SSTATUS_SPIE OR SSTATUS_UPIE)
                else estatus OR (SSTATUS_SUM OR SSTATUS_SPP OR SSTATUS_SPIE)))"

text \<open>
  \<open>rv64_return_from_trap\<close> and the \<open>sret\<close> at its end: \<open>SIE\<close> becomes \<open>SPIE\<close>, which becomes 1, and
  \<open>SPP\<close> becomes 0.
\<close>

definition rv64_return_from_trap :: "u64 \<Rightarrow> sched \<Rightarrow> sched" where
  "rv64_return_from_trap estatus s =
     (let st = (if estatus AND SSTATUS_SPP = 0 then estatus OR SSTATUS_SPIE else estatus);
          st1 = (if st AND SSTATUS_SPIE \<noteq> 0 then st OR SSTATUS_SIE else st AND NOT SSTATUS_SIE);
          st2 = (st1 OR SSTATUS_SPIE) AND NOT SSTATUS_SPP
      in s\<lparr>imask := (imask s)\<lparr>sstatus := st2\<rparr>\<rparr>)"

text \<open>The end of \<open>sched_schedule\<close>, from the return of \<open>thr_thread_switch\<close> on.\<close>

definition schedule_tail :: "intrflags \<Rightarrow> sched \<Rightarrow> sched" where
  "schedule_tail iflags s =
     (let cur = ti_get_current_thread s;
          s1 = upd_thread cur (t_state_update (\<lambda>_. THR_TSTATE_RUN)) s
      in restore_intr iflags (ti_clr_preempt_active s1))"

definition thr_thread_switch :: "intrflags \<Rightarrow> nat \<Rightarrow> nat \<Rightarrow> sched \<Rightarrow> sched" where
  "thr_thread_switch iflags prev nxt s =
     (let s1 = (upd_thread prev (ksp_update (\<lambda>_. InSchedule iflags)) s)\<lparr>current := nxt\<rparr>
      in case ksp (threads s1 nxt) of
           Fresh estatus \<Rightarrow> rv64_return_from_trap estatus s1
         | InSchedule iflags' \<Rightarrow> schedule_tail iflags' (ti_update_current_cpu s1))"

definition sched_schedule ::
    "(nat \<Rightarrow> intrflags \<Rightarrow> sched \<Rightarrow> sched option) \<Rightarrow> sched \<Rightarrow> sched option" where
  "sched_schedule last_ref s = do {
     let (iflags, s0) = disable_intr s;
     let prev = ti_get_current_thread s0;
     let cur_cpu = ti_current_cpu_get s0;
     if ti_dispatch_disabled s0 then do {
       s1 \<leftarrow> ti_set_delay_dispatch prev s0;
       Some (restore_intr iflags s1)
     } else do {
       let s1 = ti_set_preempt_active s0;
       (found, s2) \<leftarrow> get_next_thread s1;
       nxt \<leftarrow> (case found of None \<Rightarrow> idle_threads s2 cur_cpu | Some t \<Rightarrow> Some t);
       s3 \<leftarrow> ti_clr_delay_dispatch s2;
       if prev = nxt then Some (restore_intr iflags (ti_clr_preempt_active s3))
       else do {
         s4 \<leftarrow> (if t_state (threads s3 prev) = THR_TSTATE_RUN
               then sched_thread_add last_ref prev
                      (upd_thread prev (t_state_update (\<lambda>_. THR_TSTATE_RUNABLE)) s3)
               else Some s3);
         Some (thr_thread_switch iflags prev nxt s4)
       }
     }
   }"

text \<open>
  The loop of \<open>sched_delay_disptach\<close>. After a switch the loop that goes on is that of the thread that
  got the processor: the function is the processor while the threads it switches between were all
  switched out in this loop.
\<close>

partial_function (option) sched_delay_disptach ::
    "(nat \<Rightarrow> intrflags \<Rightarrow> sched \<Rightarrow> sched option) \<Rightarrow> sched \<Rightarrow> (bool \<times> sched) option" where
  "sched_delay_disptach last_ref s = do {
     (events, s1) \<leftarrow> ti_has_events s;
     if events then Some (True, s1)
     else if ti_dispatch_disabled s1 then Some (False, s1)
     else do {
       (delayed, s2) \<leftarrow> ti_dispatch_delayed s1;
       if \<not> delayed then Some (False, s2)
       else do {
         s3 \<leftarrow> sched_schedule last_ref s2;
         sched_delay_disptach last_ref s3
       }
     }
   }"

section \<open>Initialisation\<close>

text \<open>
  The creation of the idle thread and of the system threads is in kern/thr-thread.c:
  \<open>create_idle\<close> and \<open>create_system\<close> stand for it.
\<close>

definition sched_idlethread_add ::
    "(nat \<Rightarrow> sched \<Rightarrow> ((errno + nat) \<times> sched) option) \<Rightarrow> sched \<Rightarrow> sched option" where
  "sched_idlethread_add create_idle s = do {
     let cpu_no = this_cpu s;
     (rc, s1) \<leftarrow> create_idle cpu_no s;
     case rc of
       Inl _ \<Rightarrow> None
     | Inr thr \<Rightarrow> Some (s1\<lparr>idle_threads := (idle_threads s1)(cpu_no := Some thr)\<rparr>)
   }"

definition sched_init ::
    "(nat \<Rightarrow> sched \<Rightarrow> ((errno + nat) \<times> sched) option) \<Rightarrow> (sched \<Rightarrow> sched option) \<Rightarrow> sched \<Rightarrow> sched option" where
  "sched_init create_idle create_system s = do {
     let s1 = s\<lparr>rq_lock := spinlock_init, bitmap := bitops_zero (bitmap s)\<rparr>;
     let s2 = s1\<lparr>rlinks := fold (\<lambda>i. queue_init (Ready i)) [0..<SCHED_PRIO_NR] (rlinks s1)\<rparr>;
     s3 \<leftarrow> sched_idlethread_add create_idle s2;
     create_system s3
   }"

end
