(* ===== verification/SchedLaws.thy ===== *)
theory SchedLaws
  imports SchedQueue
begin

unbundle bit_operations_syntax

text \<open>
  The ready queue as one list of threads per priority: the invariant that ties the bitmap, the
  pointer queues and the threads to these lists, what each operation does to them, and the properties
  of the scheduler. The lists are handled through the contracts of Queue (\<open>kq\<close>) and Bitops (\<open>bm64\<close>).
\<close>

section \<open>The ready queue as lists\<close>

definition rq_heads :: "sched_node set" where
  "rq_heads = Ready ` {..<SCHED_PRIO_NR}"

definition rq_queues :: "(nat \<Rightarrow> nat list) \<Rightarrow> sched_node \<Rightarrow> sched_node list" where
  "rq_queues rd q = (case q of Ready p \<Rightarrow> map Thr (rd p) | Thr _ \<Rightarrow> [])"

definition in_ready :: "(nat \<Rightarrow> nat list) \<Rightarrow> nat set" where
  "in_ready rd = (\<Union>p<SCHED_PRIO_NR. set (rd p))"

definition rq_inv :: "(nat \<Rightarrow> nat list) \<Rightarrow> sched \<Rightarrow> bool" where
  "rq_inv rd s \<longleftrightarrow>
     wf_queues rq_heads (range Thr) (rq_queues rd) (rlinks s) \<and>
     bitmap64 SCHED_PRIO_NR (bitmap s) \<and>
     bits_of (bitmap s) = {p. p < SCHED_PRIO_NR \<and> rd p \<noteq> []} \<and>
     (\<forall>p<SCHED_PRIO_NR. \<forall>t\<in>set (rd p). cur_prio (threads s t) = p \<and> t_state (threads s t) = THR_TSTATE_RUNABLE)"

lemma rq_queues_simps [simp]:
  "rq_queues rd (Ready p) = map Thr (rd p)" "rq_queues rd (Thr t) = []"
  "(rq_queues rd)(Ready p := map Thr ts) = rq_queues (rd(p := ts))"
  by (auto simp: rq_queues_def split: sched_node.split)

lemma rq_heads_Ready [simp]: "Ready p \<in> rq_heads \<longleftrightarrow> p < SCHED_PRIO_NR"
  by (auto simp: rq_heads_def)

lemma link_thread_Thr [simp]: "link_thread (Thr t) = Some t"
  by (simp add: link_thread_def)

lemma rq_inv_fields [simp]:
  "rq_inv rd (s\<lparr>rq_lock := l\<rparr>) \<longleftrightarrow> rq_inv rd s" "rq_inv rd (s\<lparr>imask := c\<rparr>) \<longleftrightarrow> rq_inv rd s"
  "rq_inv rd (s\<lparr>thrdb_lock := l\<rparr>) \<longleftrightarrow> rq_inv rd s" "rq_inv rd (s\<lparr>current := t\<rparr>) \<longleftrightarrow> rq_inv rd s"
  by (simp_all add: rq_inv_def)

lemma rq_inv_upd_thread:
  assumes "\<And>th. cur_prio (f th) = cur_prio th" and "t \<notin> in_ready rd \<or> (\<forall>th. t_state (f th) = t_state th)"
  shows "rq_inv rd (upd_thread t f s) \<longleftrightarrow> rq_inv rd s"
proof -
  have eq: "cur_prio (threads (upd_thread t f s) u) = cur_prio (threads s u)" for u
    using assms(1) by simp
  have st: "t_state (threads (upd_thread t f s) u) = t_state (threads s u)" if "u \<in> in_ready rd" for u
    using assms(2) that by auto
  have "p < SCHED_PRIO_NR \<Longrightarrow> u \<in> set (rd p) \<Longrightarrow> u \<in> in_ready rd" for p u
    by (auto simp: in_ready_def)
  moreover have "rlinks (upd_thread t f s) = rlinks s" "bitmap (upd_thread t f s) = bitmap s"
    by (simp_all add: upd_thread_def)
  ultimately show ?thesis
    unfolding rq_inv_def eq using st by auto
qed

lemma upd_thread_sched [simp]:
  "rq_lock (upd_thread t f s) = rq_lock s" "bitmap (upd_thread t f s) = bitmap s"
  "rlinks (upd_thread t f s) = rlinks s" "idle_threads (upd_thread t f s) = idle_threads s"
  "thrdb_lock (upd_thread t f s) = thrdb_lock s"
  "rq_lock (upd_ti t g s) = rq_lock s" "bitmap (upd_ti t g s) = bitmap s"
  "rlinks (upd_ti t g s) = rlinks s" "idle_threads (upd_ti t g s) = idle_threads s"
  "thrdb_lock (upd_ti t g s) = thrdb_lock s"
  by (simp_all add: upd_thread_def upd_ti_def)

lemma rq_inv_empty_iff:
  "rq_inv rd s \<Longrightarrow> p < SCHED_PRIO_NR \<Longrightarrow> queue_is_empty (Ready p) (rlinks s) \<longleftrightarrow> rd p = []"
  using kq.is_empty [of rq_heads "range Thr" "rq_queues rd" "rlinks s" "Ready p"] by (simp add: rq_inv_def)

lemma rq_inv_not_linked:
  "rq_inv rd s \<Longrightarrow> t \<notin> in_ready rd \<Longrightarrow> list_not_linked (Thr t) (rlinks s)"
  unfolding rq_inv_def wf_queues_def by (auto simp: rq_heads_def in_ready_def)

text \<open>The first thread of the highest priority that has one.\<close>

lemma get_next_none:
  assumes inv: "rq_inv rd s" and "lock_free (rq_lock s)" and "\<forall>p<SCHED_PRIO_NR. rd p = []"
  shows "get_next_thread s = Some (None, s)"
proof -
  have "bitops_ffs (BM64 (bitmap s)) = 0"
    using inv assms(3) bm64.ffs_zero [of SCHED_PRIO_NR "bitmap s"] by (auto simp: rq_inv_def)
  then show ?thesis
    using assms(2) by (simp add: get_next_thread_def)
qed

lemma get_next_some:
  assumes inv: "rq_inv rd s" and free: "lock_free (rq_lock s)"
    and p: "p < SCHED_PRIO_NR" "rd p = t # ts" "\<forall>q<p. rd q = []"
  shows "\<exists>h b. get_next_thread s = Some (Some t, s\<lparr>rlinks := h, bitmap := b\<rparr>) \<and>
    rq_inv (rd(p := ts)) (s\<lparr>rlinks := h, bitmap := b\<rparr>)"
proof -
  note inv' = inv [unfolded rq_inv_def]
  have ne: "bitops_ffs (BM64 (bitmap s)) \<noteq> 0"
    using inv' p bm64.ffs_zero [of SCHED_PRIO_NR "bitmap s"] by auto
  with inv' have "nat (bitops_ffs (BM64 (bitmap s)) - 1) \<in> bits_of (bitmap s)"
    "\<forall>m \<in> bits_of (bitmap s). nat (bitops_ffs (BM64 (bitmap s)) - 1) \<le> m"
    using bm64.ffs_first [of SCHED_PRIO_NR "bitmap s"] by auto
  then have idx: "nat (bitops_ffs (BM64 (bitmap s)) - 1) = p"
    using inv' p by (metis (mono_tags, lifting) le_neq_implies_less list.distinct(1) mem_Collect_eq)
  define h where "h = snd (queue_get_top (Ready p) (rlinks s))"
  have top: "fst (queue_get_top (Ready p) (rlinks s)) = Thr t"
    and wf: "wf_queues rq_heads (range Thr) (rq_queues (rd(p := ts))) h"
    using kq.get_top [of rq_heads "range Thr" "rq_queues rd" "rlinks s" "Ready p" "Thr t" "map Thr ts"] inv' p
    by (simp_all add: h_def)
  have empty: "queue_is_empty (Ready p) h \<longleftrightarrow> ts = []"
    using kq.is_empty [OF wf, of "Ready p"] p(1) by simp
  define b where "b = (if ts = [] then bitops_clr p (bitmap s) else bitmap s)"
  have run: "t_state (threads s t) = THR_TSTATE_RUNABLE"
    using inv' p by auto
  have "bitmap64 SCHED_PRIO_NR b \<and> bits_of b = {q. q < SCHED_PRIO_NR \<and> (rd(p := ts)) q \<noteq> []}"
    using bm64.clr_bit [of SCHED_PRIO_NR "bitmap s" p] inv' p by (auto simp: b_def)
  then have "rq_inv (rd(p := ts)) (s\<lparr>rlinks := h, bitmap := b\<rparr>)"
    using wf inv' p by (auto simp: rq_inv_def)
  moreover have "get_next_thread s = Some (Some t, s\<lparr>rlinks := h, bitmap := b\<rparr>)"
  proof -
    have "queue_get_top (Ready p) (rlinks s) = (Thr t, h)"
      using top by (simp add: h_def prod_eq_iff)
    then show ?thesis
      using free ne idx empty run by (simp add: get_next_thread_def Let_def b_def del: bitops_ffs.simps)
  qed
  ultimately show ?thesis by blast
qed

text \<open>A queue operation together with the update of the bitmap.\<close>

lemma rq_inv_append:
  assumes inv: "rq_inv rd s" and p: "p < SCHED_PRIO_NR" and t: "t \<notin> in_ready rd"
    and thr: "cur_prio (threads s t) = p" "t_state (threads s t) = THR_TSTATE_RUNABLE"
  shows "rq_inv (rd(p := rd p @ [t])) (s\<lparr>rlinks := queue_add (Ready p) (Thr t) (rlinks s),
    bitmap := (if rd p = [] then bitops_set p (bitmap s) else bitmap s)\<rparr>)"
proof -
  note inv' = inv [unfolded rq_inv_def]
  have "\<forall>r\<in>rq_heads. Thr t \<notin> set (rq_queues rd r)"
    using t by (auto simp: rq_heads_def in_ready_def)
  then have wf: "wf_queues rq_heads (range Thr) (rq_queues (rd(p := rd p @ [t]))) (queue_add (Ready p) (Thr t) (rlinks s))"
    using kq.add [of rq_heads "range Thr" "rq_queues rd" "rlinks s" "Ready p" "Thr t"] inv' p
      rq_queues_simps(3) [of rd p "rd p @ [t]"] by simp
  define b where "b = (if rd p = [] then bitops_set p (bitmap s) else bitmap s)"
  have "bitmap64 SCHED_PRIO_NR b \<and> bits_of b = {q. q < SCHED_PRIO_NR \<and> (rd(p := rd p @ [t])) q \<noteq> []}"
    using bm64.set_bit [of SCHED_PRIO_NR "bitmap s" p] inv' p by (auto simp: b_def)
  then show ?thesis
    using wf inv' p thr unfolding b_def [symmetric] by (auto simp: rq_inv_def)
qed

lemma rq_inv_remove:
  assumes inv: "rq_inv rd s" and p: "p < SCHED_PRIO_NR" and t: "t \<in> set (rd p)"
  defines "h \<equiv> snd (queue_del (Ready p) (Thr t) (rlinks s))"
  shows "rq_inv (rd(p := remove1 t (rd p))) (s\<lparr>rlinks := h,
    bitmap := (if queue_is_empty (Ready p) h then bitops_clr p (bitmap s) else bitmap s)\<rparr>)"
proof -
  note inv' = inv [unfolded rq_inv_def]
  have del: "(\<lambda>r. if r \<in> rq_heads then remove1 (Thr t) (rq_queues rd r) else rq_queues rd r) =
      (rq_queues rd)(Ready p := remove1 (Thr t) (rq_queues rd (Ready p)))"
    using kq.del_from [of rq_heads "range Thr" "rq_queues rd" "rlinks s" "Ready p" "Thr t"] inv' p t by simp
  moreover have "remove1 (Thr t) (map Thr ts) = map Thr (remove1 t ts)" for ts
    by (induction ts) auto
  ultimately have eq: "r \<in> rq_heads \<Longrightarrow> remove1 (Thr t) (rq_queues rd r) = rq_queues (rd(p := remove1 t (rd p))) r" for r
    using fun_cong [OF del, of r] rq_queues_simps(3) [of rd p "remove1 t (rd p)"] by simp
  have "wf_queues rq_heads (range Thr) (\<lambda>r. remove1 (Thr t) (rq_queues rd r)) h"
    unfolding h_def using kq.del [of rq_heads "range Thr" "rq_queues rd" "rlinks s" "Thr t" "Ready p"] inv' by simp
  then have wf: "wf_queues rq_heads (range Thr) (rq_queues (rd(p := remove1 t (rd p)))) h"
    using eq unfolding wf_queues_def by auto
  have empty: "queue_is_empty (Ready p) h \<longleftrightarrow> remove1 t (rd p) = []"
    using kq.is_empty [OF wf, of "Ready p"] p by simp
  define b where "b = (if queue_is_empty (Ready p) h then bitops_clr p (bitmap s) else bitmap s)"
  have "bitmap64 SCHED_PRIO_NR b \<and> bits_of b = {q. q < SCHED_PRIO_NR \<and> (rd(p := remove1 t (rd p))) q \<noteq> []}"
    using bm64.clr_bit [of SCHED_PRIO_NR "bitmap s" p] inv' p t by (auto simp: b_def empty)
  moreover have "u \<in> set (remove1 t (rd p)) \<Longrightarrow> u \<in> set (rd p)" for u
    using set_remove1_subset by fast
  ultimately show ?thesis
    using wf inv' p unfolding b_def [symmetric] by (auto simp: rq_inv_def)
qed

lemma refs_inc_dec:
  fixes n :: u32
  assumes "0 <s n" and "lock_free l"
  shows "refcnt_dec_and_lock_disable_intr (n + 1) l c = Some (False, n, sstatus c, l, c)"
proof -
  have "n \<noteq> 0" "0 \<le>s n"
    using assms(1) by (auto simp: word_sless_alt word_sle_eq)
  then show ?thesis
    using assms(2) by (simp add: refcnt_dec_and_lock_disable_intr_def)
qed

text \<open>A free lock is taken and given back: the thread is as before.\<close>

lemma thread_lock_unlock:
  assumes "lock_free (t_lock (threads s t))"
  shows "lock_thread t s = Some (upd_thread t (t_lock_update lock_taken) s)"
    and "t_lock (threads s' t) = lock_taken (t_lock (threads s t)) \<Longrightarrow>
      unlock_thread t s' = Some (upd_thread t (t_lock_update (\<lambda>_. t_lock (threads s t))) s')"
  using assms
  by (cases "threads s t", simp_all add: lock_thread_def unlock_thread_def spinlock_lock_def
      spinlock_unlock_def upd_thread_def)

lemma sched_thread_add_run:
  assumes inv: "rq_inv rd s" and t: "t \<notin> in_ready rd" "cur_prio (threads s t) < SCHED_PRIO_NR"
      "t_state (threads s t) = THR_TSTATE_RUNABLE" "0 <s t_refs (threads s t)"
    and free: "lock_free (rq_lock s)" "lock_free (thrdb_lock s)" "lock_free (t_lock (threads s t))"
      "lock_free (t_lock (threads s (current s)))"
  defines "p \<equiv> cur_prio (threads s t)"
  defines "s' \<equiv> s\<lparr>rlinks := queue_add (Ready p) (Thr t) (rlinks s),
    bitmap := (if rd p = [] then bitops_set p (bitmap s) else bitmap s)\<rparr>"
  shows "sched_thread_add last_ref t s = Some (if ti_cpu (tinfo (threads s t)) = this_cpu s
      then upd_ti (current s) (flags_update (\<lambda>f. f OR TI_DISPATCH_DELAYED)) s' else s')"
proof -
  let ?n = "t_refs (threads s t)" and ?l = "t_lock (threads s t)" and ?c = "rv64_cpu_disable_interrupt (imask s)"
  define s1 where "s1 = upd_thread t (t_refs_update (\<lambda>_. ?n + 1)) s"
  define s2 where "s2 = s1\<lparr>rq_lock := lock_taken (rq_lock s), imask := ?c\<rparr>"
  define s3 where "s3 = (if rd p = [] then s2\<lparr>bitmap := bitops_set p (bitmap s)\<rparr> else s2)"
  define s4 where "s4 = upd_thread t (t_lock_update lock_taken) s3"
  define s5 where "s5 = s4\<lparr>rlinks := queue_add (Ready p) (Thr t) (rlinks s)\<rparr>"
  define s6 where "s6 = upd_thread t (t_lock_update (\<lambda>_. ?l)) s5"
  define s7 where "s7 = upd_thread t (t_refs_update (\<lambda>_. ?n)) s6"
  define s8 where "s8 = (if ti_cpu (tinfo (threads s t)) = this_cpu s
    then upd_ti (current s) (flags_update (\<lambda>f. f OR TI_DISPATCH_DELAYED)) s7 else s7)"
  have inc: "thr_ref_inc t s = Some (True, s1)"
    using t(4) by (auto simp: thr_ref_inc_def s1_def word_sless_alt)
  have linked: "list_not_linked (Thr t) (rlinks s1)" and empty: "queue_is_empty (Ready p) (rlinks s1) \<longleftrightarrow> rd p = []"
    using rq_inv_not_linked [OF inv t(1)] rq_inv_empty_iff [OF inv, of p] t(2) by (simp_all add: s1_def s2_def p_def)
  have s3: "s3 = s2\<lparr>bitmap := (if rd p = [] then bitops_set p (bitmap s) else bitmap s)\<rparr>"
    by (simp add: s3_def s2_def s1_def)
  note defs = s1_def s2_def s3 s4_def s5_def s6_def s7_def s8_def
  have facts: "t_state (threads s1 t) = THR_TSTATE_RUNABLE" "cur_prio (threads s2 t) = p" "cur_prio (threads s1 t) = p"
    "rq_lock s1 = rq_lock s" "ti_cpu (tinfo (threads s4 t)) = ti_cpu (tinfo (threads s t))" "this_cpu s4 = this_cpu s"
    "imask s1 = imask s" "rlinks s4 = rlinks s" "bitmap s1 = bitmap s"
    "ti_cpu (tinfo (threads s5 t)) = ti_cpu (tinfo (threads s t))" "this_cpu s5 = this_cpu s"
    using t(3) by (simp_all add: s1_def s2_def s3 s4_def s5_def p_def)
  have lock: "lock_thread t s3 = Some s4" "unlock_thread t s5 = Some s6"
    using thread_lock_unlock [of s3 t] thread_lock_unlock(2) [of s3 t s5] free(3)
    by (simp_all add: s4_def s5_def s6_def s3 s2_def s1_def)
  have dec: "thr_ref_dec last_ref t s6 = Some (False, s7)"
    using refs_inc_dec [OF t(4) free(2)] by (simp add: thr_ref_dec_def defs Let_def)
  have "lock_free (t_lock (threads s7 (current s7)))" "imask s7 = ?c" "current s7 = current s"
    using free(3,4) by (simp_all add: defs)
  then have delay: "(if ti_cpu (tinfo (threads s t)) = this_cpu s then ti_set_delay_dispatch (current s7) s7 else Some s7) = Some s8"
    using set_delay_dispatch [of s7 "current s7"] by (simp add: s8_def)
  have unlock: "spinlock_unlock_restore_intr (sstatus (imask s)) (rq_lock s8) (imask s8) = Some (rq_lock s, imask s)"
    using free(1) by (simp add: defs)
  have "sched_thread_add last_ref t s = Some (s8\<lparr>rq_lock := rq_lock s, imask := imask s\<rparr>)"
    using inc linked empty facts free(1) lock dec delay unlock
    by (simp add: sched_thread_add_def Let_def s2_def [symmetric] s3_def [symmetric] s5_def [symmetric] split del: if_split cong: if_cong)
  moreover have "s8\<lparr>rq_lock := rq_lock s, imask := imask s\<rparr> =
      (if ti_cpu (tinfo (threads s t)) = this_cpu s
       then upd_ti (current s) (flags_update (\<lambda>f. f OR TI_DISPATCH_DELAYED)) s' else s')"
    by (rule sched.equality) (auto simp: defs s'_def intro!: ext thread.equality)
  ultimately show ?thesis by simp
qed

lemma sched_thread_del_run:
  assumes inv: "rq_inv rd s" and t: "t \<in> set (rd (cur_prio (threads s t)))" "cur_prio (threads s t) < SCHED_PRIO_NR"
    and free: "lock_free (rq_lock s)" "lock_free (t_lock (threads s t))"
  defines "p \<equiv> cur_prio (threads s t)"
  shows "\<exists>h b. sched_thread_del t s = Some (s\<lparr>rlinks := h, bitmap := b\<rparr>) \<and>
    rq_inv (rd(p := remove1 t (rd p))) (s\<lparr>rlinks := h, bitmap := b\<rparr>)"
proof -
  define h where "h = snd (queue_del (Ready p) (Thr t) (rlinks s))"
  define b where "b = (if queue_is_empty (Ready p) h then bitops_clr p (bitmap s) else bitmap s)"
  define s1 where "s1 = upd_thread t (t_lock_update lock_taken)
    (s\<lparr>rq_lock := lock_taken (rq_lock s), imask := rv64_cpu_disable_interrupt (imask s)\<rparr>)"
  define s3 where "s3 = s1\<lparr>rlinks := h, bitmap := b\<rparr>"
  define s4 where "s4 = upd_thread t (t_lock_update (\<lambda>_. t_lock (threads s t))) s3"
  have lock: "lock_thread t (s\<lparr>rq_lock := lock_taken (rq_lock s), imask := rv64_cpu_disable_interrupt (imask s)\<rparr>) = Some s1"
    "unlock_thread t s3 = Some s4"
    using thread_lock_unlock(1) [of "s\<lparr>rq_lock := lock_taken (rq_lock s), imask := rv64_cpu_disable_interrupt (imask s)\<rparr>" t]
      thread_lock_unlock(2) [of s t s3] free(2)
    by (simp_all add: s1_def s3_def s4_def)
  have facts: "cur_prio (threads s1 t) = p" "rlinks s1 = rlinks s" "bitmap s1 = bitmap s"
    by (simp_all add: s1_def p_def)
  have step: "(if queue_is_empty (Ready p) h then s1\<lparr>rlinks := h, bitmap := bitops_clr p (bitmap s)\<rparr> else s1\<lparr>rlinks := h\<rparr>) = s3"
    by (simp add: s3_def b_def facts)
  have "spinlock_unlock_restore_intr (sstatus (imask s)) (rq_lock s4) (imask s4) = Some (rq_lock s, imask s)"
    using free(1) by (simp add: s4_def s3_def s1_def)
  then have "sched_thread_del t s = Some (s4\<lparr>rq_lock := rq_lock s, imask := imask s\<rparr>)"
    using lock facts free(1) step by (simp add: sched_thread_del_def Let_def h_def [symmetric] split del: if_split cong: if_cong)
  moreover have "s4\<lparr>rq_lock := rq_lock s, imask := imask s\<rparr> = s\<lparr>rlinks := h, bitmap := b\<rparr>"
    by (rule sched.equality) (auto simp: s4_def s3_def s1_def intro!: ext thread.equality)
  ultimately show ?thesis
    using rq_inv_remove [OF inv, of p t] t unfolding h_def [symmetric] b_def [symmetric] by (auto simp: p_def)
qed

text \<open>A reference that is no longer valid: the thread is not added.\<close>

lemma sched_thread_add_stale:
  assumes "t_refs (threads s t) = 0"
  shows "sched_thread_add last_ref t s = Some s"
proof -
  have "upd_thread t (t_refs_update (\<lambda>_. 0)) s = s"
    using assms by (auto intro!: sched.equality ext thread.equality)
  then show ?thesis
    using assms by (simp add: sched_thread_add_def thr_ref_inc_def refcnt_inc_if_valid_def)
qed

section \<open>The abstract ready queue\<close>

definition rq_pop :: "(nat \<Rightarrow> nat list) \<Rightarrow> nat option \<times> (nat \<Rightarrow> nat list)" where
  "rq_pop rd = (case find (\<lambda>p. rd p \<noteq> []) [0..<SCHED_PRIO_NR] of
     None \<Rightarrow> (None, rd)
   | Some p \<Rightarrow> (Some (hd (rd p)), rd(p := tl (rd p))))"

lemma rq_pop_cases:
  obtains (none) "rq_pop rd = (None, rd)" "\<forall>p<SCHED_PRIO_NR. rd p = []"
  | (some) p t ts where "rq_pop rd = (Some t, rd(p := ts))" "p < SCHED_PRIO_NR" "rd p = t # ts" "\<forall>q<p. rd q = []"
proof (cases "find (\<lambda>p. rd p \<noteq> []) [0..<SCHED_PRIO_NR]")
  case None
  then have "rq_pop rd = (None, rd)" "\<forall>p<SCHED_PRIO_NR. rd p = []"
    by (simp add: rq_pop_def) (use None in \<open>auto simp: find_None_iff\<close>)
  then show thesis by (rule none)
next
  case (Some p)
  then obtain i where i: "i < SCHED_PRIO_NR" "rd i \<noteq> []" "p = i" "\<forall>j<i. rd j = []"
    by (auto simp: find_Some_iff)
  then show thesis
    using some [of "hd (rd p)" p "tl (rd p)"] Some by (auto simp: rq_pop_def)
qed

lemma get_next_pop:
  assumes "rq_inv rd s" and "lock_free (rq_lock s)"
  shows "\<exists>h b. get_next_thread s = Some (fst (rq_pop rd), s\<lparr>rlinks := h, bitmap := b\<rparr>) \<and>
    rq_inv (snd (rq_pop rd)) (s\<lparr>rlinks := h, bitmap := b\<rparr>) \<and>
    (fst (rq_pop rd) = None \<longrightarrow> h = rlinks s \<and> b = bitmap s)"
proof (cases rd rule: rq_pop_cases)
  case none
  have "s = s\<lparr>rlinks := rlinks s, bitmap := bitmap s\<rparr>" by simp
  with none get_next_none [OF assms none(2)] assms(1) show ?thesis
    by (metis fst_conv snd_conv)
next
  case (some p t ts)
  with get_next_some [OF assms some(2-4)] show ?thesis by auto
qed

text \<open>The queues and the bitmap made by \<open>sched_init\<close>, from links that are not in use.\<close>

lemma fold_ready_init:
  "fold (\<lambda>i. queue_init (Ready i)) is h n =
    (if n \<in> Ready ` set is then \<lparr>lprev = n, lnext = n\<rparr> else h n)"
proof (induction "is" arbitrary: h)
  case (Cons i "is")
  have "queue_init (Ready i) h n = (if n = Ready i then \<lparr>lprev = n, lnext = n\<rparr> else h n)" for h :: "sched_node lstore"
    by (cases "h (Ready i)") (auto simp: queue_init_def set_prev_def set_next_def)
  then show ?case by (auto simp: Cons.IH)
qed simp

lemma rq_inv_init:
  assumes "length (bitmap s) = 4" and "\<forall>t. list_not_linked (Thr t) (rlinks s)"
  shows "rq_inv (\<lambda>_. []) (s\<lparr>bitmap := bitops_zero (bitmap s),
    rlinks := fold (\<lambda>i. queue_init (Ready i)) [0..<SCHED_PRIO_NR] (rlinks s)\<rparr>)"
proof -
  have "wf_queues rq_heads (range Thr) (\<lambda>_. []) (fold (\<lambda>i. queue_init (Ready i)) [0..<SCHED_PRIO_NR] (rlinks s))"
    by (rule wf_queues_init)
      (use assms(2) in \<open>auto simp: fold_ready_init rq_heads_def list_not_linked_def image_iff\<close>)
  moreover have "rq_queues (\<lambda>_. []) = (\<lambda>_. [])"
    by (simp add: rq_queues_def fun_eq_iff split: sched_node.split)
  ultimately show ?thesis
    using assms(1) by (simp add: rq_inv_def bitmap64_def SCHED_PRIO_NR_def)
qed

text \<open>Threads 1 and 2 can run, thread 0 runs and thread 9 is the idle thread.\<close>

definition sample_sched :: sched where
  "sample_sched = \<lparr>threads = \<lambda>t. if t = 0 then sample_thread
       else sample_thread\<lparr>t_state := THR_TSTATE_RUNABLE, cur_prio := 3\<rparr>,
     current = 0, this_cpu = 0, imask = \<lparr>sstatus = 0, sie = 0\<rparr>,
     rq_lock = spinlock_init, bitmap = [0, 0, 0, 0], rlinks = \<lambda>n. \<lparr>lprev = n, lnext = n\<rparr>,
     idle_threads = \<lambda>_. Some 9, thrdb_lock = spinlock_init\<rparr>"

lemma sample_sched_inv: "rq_inv (\<lambda>_. []) sample_sched"
proof -
  have "sample_sched\<lparr>bitmap := bitops_zero (bitmap sample_sched),
      rlinks := fold (\<lambda>i. queue_init (Ready i)) [0..<SCHED_PRIO_NR] (rlinks sample_sched)\<rparr> = sample_sched"
    by (rule sched.equality) (simp_all add: sample_sched_def bitops_zero_def fold_ready_init fun_eq_iff)
  moreover have "length (bitmap sample_sched) = 4" "list_not_linked (Thr t) (rlinks sample_sched)" for t
    by (simp_all add: sample_sched_def list_not_linked_def)
  ultimately show ?thesis
    using rq_inv_init [of sample_sched] by simp
qed

section \<open>A step of the scheduler\<close>

text \<open>
  \<open>sched_ok rd s\<close>: no lock is held, and the running thread, which is in no list, has a priority in range
  and this processor noted in its block; when it is to go back into the ready queue, it has a reference.
\<close>

definition sched_ok :: "(nat \<Rightarrow> nat list) \<Rightarrow> sched \<Rightarrow> bool" where
  "sched_ok rd s \<longleftrightarrow>
     rq_inv rd s \<and> lock_free (rq_lock s) \<and> lock_free (thrdb_lock s) \<and> (\<forall>t. lock_free (t_lock (threads s t))) \<and>
     current s \<notin> in_ready rd \<and> cur_prio (threads s (current s)) < SCHED_PRIO_NR \<and>
     (t_state (threads s (current s)) = THR_TSTATE_RUN \<longrightarrow> 0 <s t_refs (threads s (current s))) \<and>
     ti_cpu (tinfo (threads s (current s))) = this_cpu s"

definition rq_pick :: "(nat \<Rightarrow> nat list) \<Rightarrow> nat \<Rightarrow> nat \<times> (nat \<Rightarrow> nat list)" where
  "rq_pick rd idle = (case rq_pop rd of (None, rd') \<Rightarrow> (idle, rd') | (Some t, rd') \<Rightarrow> (t, rd'))"

text \<open>What \<open>sched_schedule\<close> makes of a thread it leaves, put back into the ready queue or not.\<close>

definition left_behind :: "bool \<Rightarrow> thread \<Rightarrow> thread" where
  "left_behind put th = th\<lparr>t_state := (if put then THR_TSTATE_RUNABLE else t_state th),
     tinfo := (tinfo th)\<lparr>preempt := preempt (tinfo th) OR TI_PREEMPT_ACTIVE,
       flags := (if put then flags (tinfo th) OR TI_DISPATCH_DELAYED
                 else flags (tinfo th) AND NOT TI_DISPATCH_DELAYED)\<rparr>\<rparr>"

definition rq_put_back :: "bool \<Rightarrow> nat \<Rightarrow> sched \<Rightarrow> (nat \<Rightarrow> nat list) \<Rightarrow> nat \<Rightarrow> nat list" where
  "rq_put_back put t s rd = (if put then rd(cur_prio (threads s t) := rd (cur_prio (threads s t)) @ [t]) else rd)"

lemma in_ready_pop: "rq_pop rd = (r, rd') \<Longrightarrow> t \<in> in_ready rd' \<Longrightarrow> t \<in> in_ready rd"
  by (cases rd rule: rq_pop_cases) (auto simp: in_ready_def split: if_splits)

lemma or_delayed: "((n AND NOT TI_DISPATCH_DELAYED) OR TI_DISPATCH_DELAYED) = (n OR TI_DISPATCH_DELAYED)"
  by (rule bit_eqI) (auto simp: bit_simps)

lemma schedule_run:
  assumes ok: "sched_ok rd s" and enabled: "\<not> ti_dispatch_disabled s"
    and idle: "idle_threads s (this_cpu s) = Some idle"
    and pick: "rq_pick rd idle = (nxt, rd')" and switch: "nxt \<noteq> current s"
  defines "put \<equiv> t_state (threads s (current s)) = THR_TSTATE_RUN"
  shows "\<exists>h b. let s' = upd_thread (current s) (left_behind put)
        (s\<lparr>rlinks := h, bitmap := b, imask := rv64_cpu_disable_interrupt (imask s)\<rparr>)
      in sched_schedule last_ref s = Some (thr_thread_switch (sstatus (imask s)) (current s) nxt s') \<and>
         rq_inv (rq_put_back put (current s) s rd') s'"
proof -
  let ?c = "current s" and ?M = "rv64_cpu_disable_interrupt (imask s)"
  let ?p = "cur_prio (threads s ?c)"
  note ok' = ok [unfolded sched_ok_def]
  define s1 where "s1 = upd_ti ?c (preempt_update (\<lambda>n. n OR TI_PREEMPT_ACTIVE)) (s\<lparr>imask := ?M\<rparr>)"
  have inv1: "rq_inv rd s1" "lock_free (rq_lock s1)"
    using ok' by (simp_all add: s1_def upd_ti_def rq_inv_upd_thread)
  obtain h b where next_thread: "get_next_thread s1 = Some (fst (rq_pop rd), s1\<lparr>rlinks := h, bitmap := b\<rparr>)"
    and inv2: "rq_inv (snd (rq_pop rd)) (s1\<lparr>rlinks := h, bitmap := b\<rparr>)"
    using get_next_pop [OF inv1] by blast
  have rd': "snd (rq_pop rd) = rd'" "(case fst (rq_pop rd) of None \<Rightarrow> Some idle | Some t \<Rightarrow> Some t) = Some nxt"
    using pick by (auto simp: rq_pick_def split: prod.splits option.splits)
  define s3 where "s3 = upd_ti ?c (flags_update (\<lambda>f. f AND NOT TI_DISPATCH_DELAYED)) (s1\<lparr>rlinks := h, bitmap := b\<rparr>)"
  have inv3: "rq_inv rd' s3"
    using inv2 rd' by (simp add: s3_def upd_ti_def rq_inv_upd_thread)
  have c': "?c \<notin> in_ready rd'"
    using in_ready_pop [of rd "fst (rq_pop rd)" rd' ?c] rd' ok' by auto
  have locks: "lock_free (t_lock (threads s3 ?c))" "lock_free (rq_lock s3)" "lock_free (thrdb_lock s3)"
    and fields: "current s3 = ?c" "imask s3 = ?M" "idle_threads s1 = idle_threads s" "current s1 = ?c" "imask s1 = ?M"
      "this_cpu s3 = this_cpu s" "lock_free (t_lock (threads s1 ?c))"
    using ok' by (simp_all add: s3_def s1_def)
  have clr: "ti_clr_delay_dispatch (s1\<lparr>rlinks := h, bitmap := b\<rparr>) = Some s3"
    using request_ops(5) [of "s1\<lparr>rlinks := h, bitmap := b\<rparr>"] fields by (simp add: s3_def)
  have dis: "disable_intr s = (sstatus (imask s), s\<lparr>imask := ?M\<rparr>)"
    by (simp add: disable_intr_def krn_cpu_save_and_disable_interrupt_def rv64_cpu_save_flags_def)
  have active: "ti_set_preempt_active (s\<lparr>imask := ?M\<rparr>) = s1"
    by (simp add: s1_def ti_set_preempt_active_def)
  have cur: "ti_get_current_thread (s\<lparr>imask := ?M\<rparr>) = ?c" "ti_current_cpu_get (s\<lparr>imask := ?M\<rparr>) = this_cpu s"
    "\<not> ti_dispatch_disabled (s\<lparr>imask := ?M\<rparr>)" "t_state (threads s3 ?c) = t_state (threads s ?c)"
    using ok' enabled by (simp_all add: ti_get_current_thread_def ti_current_cpu_get_def
        ti_get_current_thread_info_def dispatch_disabled_iff s3_def s1_def)
  have unfold: "sched_schedule last_ref s =
    (do { s4 \<leftarrow> (if put then sched_thread_add last_ref ?c (upd_thread ?c (t_state_update (\<lambda>_. THR_TSTATE_RUNABLE)) s3) else Some s3);
         Some (thr_thread_switch (sstatus (imask s)) ?c nxt s4) })"
    using next_thread idle rd' clr switch fields
    by (simp add: sched_schedule_def dis active cur put_def Let_def not_sym [OF switch] split: option.splits)
  show ?thesis
  proof (cases put)
    case True
    define s3' where "s3' = upd_thread ?c (t_state_update (\<lambda>_. THR_TSTATE_RUNABLE)) s3"
    have inv': "rq_inv rd' s3'"
      using inv3 c' by (simp add: s3'_def rq_inv_upd_thread)
    have s3': "cur_prio (threads s3' ?c) = ?p" "t_state (threads s3' ?c) = THR_TSTATE_RUNABLE"
      "0 <s t_refs (threads s3' ?c)" "ti_cpu (tinfo (threads s3' ?c)) = this_cpu s3'" "current s3' = ?c"
      "lock_free (rq_lock s3')" "lock_free (thrdb_lock s3')" "lock_free (t_lock (threads s3' ?c))"
      using ok' True by (simp_all add: s3'_def s3_def s1_def put_def)
    define s4 where "s4 = s3'\<lparr>rlinks := queue_add (Ready ?p) (Thr ?c) (rlinks s3'),
      bitmap := (if rd' ?p = [] then bitops_set ?p (bitmap s3') else bitmap s3')\<rparr>"
    have add: "sched_thread_add last_ref ?c s3' = Some (upd_ti ?c (flags_update (\<lambda>f. f OR TI_DISPATCH_DELAYED)) s4)"
      using sched_thread_add_run [OF inv' c', of last_ref] s3' ok' by (simp add: s4_def)
    have "rq_inv (rd'(?p := rd' ?p @ [?c])) s4"
      using rq_inv_append [OF inv' _ c'] s3' ok' unfolding s4_def by simp
    then have inv4: "rq_inv (rd'(?p := rd' ?p @ [?c])) (upd_ti ?c (flags_update (\<lambda>f. f OR TI_DISPATCH_DELAYED)) s4)"
      by (simp add: upd_ti_def rq_inv_upd_thread)
    have eq: "upd_ti ?c (flags_update (\<lambda>f. f OR TI_DISPATCH_DELAYED)) s4 =
        upd_thread ?c (left_behind True) (s\<lparr>rlinks := rlinks s4, bitmap := bitmap s4, imask := ?M\<rparr>)"
      by (rule sched.equality) (auto simp: s4_def s3'_def s3_def s1_def left_behind_def or_delayed
          intro!: ext thread.equality thread_info.equality)
    show ?thesis
      by (rule exI [of _ "rlinks s4"], rule exI [of _ "bitmap s4"])
        (use True add inv4 unfold in \<open>simp add: s3'_def [symmetric] eq [symmetric] rq_put_back_def Let_def\<close>)
  next
    case False
    have eq: "s3 = upd_thread ?c (left_behind False) (s\<lparr>rlinks := h, bitmap := b, imask := ?M\<rparr>)"
      by (rule sched.equality) (auto simp: s3_def s1_def left_behind_def
          intro!: ext thread.equality thread_info.equality)
    show ?thesis
      by (rule exI [of _ h], rule exI [of _ b])
        (use False inv3 unfold in \<open>simp add: eq [symmetric] rq_put_back_def Let_def\<close>)
  qed
qed

lemma pick_not_ready:
  assumes inv: "rq_inv rd s" and pick: "rq_pick rd idle = (nxt, rd')"
  shows "nxt \<notin> in_ready rd'"
proof (cases rd rule: rq_pop_cases)
  case none
  then show ?thesis using pick by (auto simp: rq_pick_def in_ready_def)
next
  case (some p t ts)
  note wf = conjunct1 [OF inv [unfolded rq_inv_def]]
  have "distinct (map Thr (rd p))"
    using kq.wf_distinct [OF wf, of "Ready p"] some(2) by simp
  then have "t \<notin> set ts" using some(3) by (auto simp: image_iff)
  moreover have "t \<notin> set (rd q)" if "q < SCHED_PRIO_NR" "q \<noteq> p" for q
    using kq.wf_unique [OF wf, of "Ready p" "Ready q" "Thr t"] that some(2,3) by auto
  ultimately show ?thesis
    using pick some(1) by (auto simp: rq_pick_def in_ready_def split: if_splits)
qed

text \<open>What becomes of a thread that gets the processor back in \<open>sched_schedule\<close>.\<close>

definition resumed :: "nat \<Rightarrow> thread \<Rightarrow> thread" where
  "resumed cpu th = th\<lparr>t_state := THR_TSTATE_RUN,
     tinfo := (tinfo th)\<lparr>ti_cpu := cpu, preempt := preempt (tinfo th) AND NOT TI_PREEMPT_ACTIVE\<rparr>\<rparr>"

lemma switch_run:
  assumes "nxt \<noteq> prev"
  shows "thr_thread_switch iflags prev nxt s = (let s1 = (upd_thread prev (ksp_update (\<lambda>_. InSchedule iflags)) s)\<lparr>current := nxt\<rparr>
    in case ksp (threads s nxt) of
         Fresh e \<Rightarrow> rv64_return_from_trap e s1
       | InSchedule f \<Rightarrow> restore_intr f (upd_thread nxt (resumed (this_cpu s)) s1))"
proof -
  have "schedule_tail f (ti_update_current_cpu s1) = restore_intr f (upd_thread (current s1) (resumed (this_cpu s1)) s1)" for f s1
    by (rule sched.equality) (auto simp: Let_def schedule_tail_def ti_update_current_cpu_def ti_get_current_thread_def restore_intr_def
        ti_clr_preempt_active_def resumed_def upd_ti_def upd_thread_def intro!: ext thread.equality thread_info.equality)
  then show ?thesis
    using assms by (simp add: thr_thread_switch_def Let_def upd_thread_def split: switch_context.split)
qed

text \<open>
  The interrupt state after a switch, bit by bit. A thread that returns into \<open>sched_schedule\<close> gets the
  interrupt enable bit (bit 1) it had saved. A new thread gets the status word \<open>e\<close> of its trap context
  as \<open>sret\<close> leaves it: interrupts are enabled when the context is one of user mode (bit 8 clear) or had
  them enabled before (bit 5), bit 5 is set and bit 8 cleared.
\<close>

definition mask_restored :: "u64 \<Rightarrow> cpu \<Rightarrow> cpu \<Rightarrow> bool" where
  "mask_restored f c c' \<longleftrightarrow> sie c' = sie c \<and> (\<forall>n<64. bit (sstatus c') n = (if n = 1 then bit f 1 else bit (sstatus c) n))"

definition mask_of_trap_return :: "u64 \<Rightarrow> cpu \<Rightarrow> cpu \<Rightarrow> bool" where
  "mask_of_trap_return e c c' \<longleftrightarrow> sie c' = sie c \<and>
     (\<forall>n<64. bit (sstatus c') n = (if n = 1 then \<not> bit e 8 \<or> bit e 5 else if n = 5 then True else if n = 8 then False else bit e n))"

lemma status_bits:
  "bit SSTATUS_SIE n \<longleftrightarrow> n = 1" "bit SSTATUS_SPIE n \<longleftrightarrow> n = 5" "bit SSTATUS_SPP n \<longleftrightarrow> n = 8"
  "w AND SSTATUS_SPIE = 0 \<longleftrightarrow> \<not> bit w 5" "w AND SSTATUS_SPP = 0 \<longleftrightarrow> \<not> bit w 8" for w :: u64
  unfolding SSTATUS_SIE_def SSTATUS_SPIE_def SSTATUS_SPP_def push_bit_of_1 bit_exp_iff and_exp_eq_0_iff_not_bit
  by auto

lemma mask_restored_enable: "mask_restored f c c' \<Longrightarrow> sstatus c' AND SSTATUS_SIE = f AND SSTATUS_SIE"
  by (rule bit_word_eqI) (auto simp: mask_restored_def bit_and_iff status_bits)

lemma restored_mask: "mask_restored f c (rv64_cpu_restore_flags f (rv64_cpu_disable_interrupt c))"
  by (auto simp: mask_restored_def rv64_cpu_restore_flags_def rv64_cpu_disable_interrupt_def Let_def status_bits
      bit_and_iff bit_or_iff bit_not_iff)

lemma trap_return_mask:
  "imask s = rv64_cpu_disable_interrupt c \<Longrightarrow> mask_of_trap_return e c (imask (rv64_return_from_trap e s))"
  by (auto simp: mask_of_trap_return_def rv64_return_from_trap_def rv64_cpu_disable_interrupt_def Let_def status_bits
      bit_and_iff bit_or_iff bit_not_iff)

lemma schedule_disabled:
  assumes "ti_dispatch_disabled k" and "lock_free (t_lock (threads k (current k)))"
  shows "sched_schedule last_ref k = Some (upd_ti (current k) (flags_update (\<lambda>f. f OR TI_DISPATCH_DELAYED)) k)"
proof -
  let ?k = "k\<lparr>imask := rv64_cpu_disable_interrupt (imask k)\<rparr>"
  have dis: "disable_intr k = (sstatus (imask k), ?k)"
    by (simp add: disable_intr_def krn_cpu_save_and_disable_interrupt_def rv64_cpu_save_flags_def)
  have "ti_dispatch_disabled ?k" "ti_get_current_thread ?k = current k"
    using assms(1) by (simp_all add: dispatch_disabled_iff ti_get_current_thread_info_def ti_get_current_thread_def)
  moreover have "ti_set_delay_dispatch (current k) ?k = Some (upd_ti (current k) (flags_update (\<lambda>f. f OR TI_DISPATCH_DELAYED)) ?k)"
    using set_delay_dispatch [of ?k "current k"] assms(2) by simp
  moreover have "restore_intr (sstatus (imask k)) (upd_ti (current k) g ?k) = upd_ti (current k) g k" for g
    using masked_update(1) [of k "current k" g] dis by simp
  ultimately show ?thesis by (simp add: sched_schedule_def dis)
qed

lemma schedule_cases:
  assumes ok: "sched_ok rd s" and idle: "idle_threads s (this_cpu s) = Some idle" and pick: "rq_pick rd idle = (nxt, rd')"
  defines "put \<equiv> t_state (threads s (current s)) = THR_TSTATE_RUN"
  shows "\<exists>s'. sched_schedule last_ref s = Some s' \<and>
    (if ti_dispatch_disabled s then s' = upd_ti (current s) (flags_update (\<lambda>f. f OR TI_DISPATCH_DELAYED)) s
     else if nxt = current s then s' = upd_ti (current s) (flags_update (\<lambda>f. f AND NOT TI_DISPATCH_DELAYED)) s
     else current s' = nxt \<and> this_cpu s' = this_cpu s \<and> idle_threads s' = idle_threads s \<and>
       rq_lock s' = rq_lock s \<and> thrdb_lock s' = thrdb_lock s \<and> rq_inv (rq_put_back put (current s) s rd') s' \<and> nxt \<notin> in_ready rd' \<and>
       threads s' (current s) = (left_behind put (threads s (current s)))\<lparr>ksp := InSchedule (sstatus (imask s))\<rparr> \<and>
       (case ksp (threads s nxt) of
          Fresh e \<Rightarrow> threads s' nxt = threads s nxt \<and> mask_of_trap_return e (imask s) (imask s')
        | InSchedule f \<Rightarrow> threads s' nxt = resumed (this_cpu s) (threads s nxt) \<and> mask_restored f (imask s) (imask s')) \<and>
       (\<forall>t. t = current s \<or> t = nxt \<or> threads s' t = threads s t))"
proof -
  have dis: "disable_intr s = (sstatus (imask s), s\<lparr>imask := rv64_cpu_disable_interrupt (imask s)\<rparr>)"
    by (simp add: disable_intr_def krn_cpu_save_and_disable_interrupt_def rv64_cpu_save_flags_def)
  note ok' = ok [unfolded sched_ok_def]
  let ?s0 = "s\<lparr>imask := rv64_cpu_disable_interrupt (imask s)\<rparr>"
  have same: "ti_dispatch_disabled ?s0 = ti_dispatch_disabled s" "ti_get_current_thread ?s0 = current s"
    "ti_current_cpu_get ?s0 = this_cpu s"
    using ok' by (simp_all add: dispatch_disabled_iff ti_get_current_thread_info_def ti_get_current_thread_def
        ti_current_cpu_get_def)
  consider "ti_dispatch_disabled s" | "\<not> ti_dispatch_disabled s" "nxt = current s" | "\<not> ti_dispatch_disabled s" "nxt \<noteq> current s"
    by blast
  then show ?thesis
  proof cases
    case 1
    then show ?thesis using schedule_disabled [of s last_ref] ok' by simp
  next
    case 2
    then have none: "rq_pop rd = (None, rd)" "\<forall>p<SCHED_PRIO_NR. rd p = []"
      using pick ok' by (cases rd rule: rq_pop_cases; force simp: rq_pick_def in_ready_def)+
    with 2 pick have idle': "idle = current s" by (simp add: rq_pick_def)
    define s1 where "s1 = upd_ti (current s) (preempt_update (\<lambda>n. n OR TI_PREEMPT_ACTIVE)) ?s0"
    have s1: "rq_inv rd s1" "lock_free (rq_lock s1)" "lock_free (t_lock (threads s1 (current s1)))"
      "krn_cpu_interrupt_disabled (imask s1)" "current s1 = current s" "idle_threads s1 = idle_threads s"
      using ok' by (simp_all add: s1_def upd_ti_def rq_inv_upd_thread)
    have active: "ti_set_preempt_active ?s0 = s1"
      by (simp add: s1_def ti_set_preempt_active_def)
    have zero: "preempt (tinfo (threads s (current s))) = 0"
      using 2 by (simp add: dispatch_disabled_iff ti_get_current_thread_info_def)
    have "TI_PREEMPT_ACTIVE AND NOT TI_PREEMPT_ACTIVE = (0 :: u32)" by simp
    then have restored: "restore_intr (sstatus (imask s)) (ti_clr_preempt_active
        (upd_ti (current s) (flags_update (\<lambda>f. f AND NOT TI_DISPATCH_DELAYED)) s1)) =
        upd_ti (current s) (flags_update (\<lambda>f. f AND NOT TI_DISPATCH_DELAYED)) s"
      using zero by (intro sched.equality) (auto simp: restore_intr_def ti_clr_preempt_active_def s1_def
          krn_cpu_restore_interrupt_def upd_ti_def upd_thread_def intro!: ext thread.equality thread_info.equality)
    show ?thesis
      using 2 idle idle' get_next_none [OF s1(1,2) none(2)] request_ops(5) [OF s1(3,4)] s1(5,6) restored
      by (simp add: sched_schedule_def dis same active Let_def)
  next
    case 3
    obtain h b where run: "let s' = upd_thread (current s) (left_behind put)
        (s\<lparr>rlinks := h, bitmap := b, imask := rv64_cpu_disable_interrupt (imask s)\<rparr>)
      in sched_schedule last_ref s = Some (thr_thread_switch (sstatus (imask s)) (current s) nxt s') \<and>
         rq_inv (rq_put_back put (current s) s rd') s'"
      using schedule_run [OF ok 3(1) idle pick 3(2)] unfolding put_def by blast
    have nr: "nxt \<notin> in_ready rd'" using pick_not_ready [OF _ pick] ok' by blast
    then have nr': "nxt \<notin> in_ready (rq_put_back put (current s) s rd')"
      using 3(2) ok' by (auto simp: rq_put_back_def in_ready_def)
    let ?s1 = "(upd_thread (current s) (ksp_update (\<lambda>_. InSchedule (sstatus (imask s)))) (upd_thread (current s) (left_behind put)
        (s\<lparr>rlinks := h, bitmap := b, imask := rv64_cpu_disable_interrupt (imask s)\<rparr>)))\<lparr>current := nxt\<rparr>"
    have masked: "imask ?s1 = rv64_cpu_disable_interrupt (imask s)" by (simp add: upd_thread_def)
    show ?thesis
    proof (cases "ksp (threads s nxt)")
      case (Fresh e)
      obtain c where c: "rv64_return_from_trap e ?s1 = ?s1\<lparr>imask := c\<rparr>" "mask_of_trap_return e (imask s) c"
        using trap_return_mask [OF masked, of e] by (simp add: rv64_return_from_trap_def Let_def)
      show ?thesis
        using 3 run nr nr' Fresh c by (auto simp: Let_def switch_run rq_inv_upd_thread)
    next
      case (InSchedule f)
      obtain c where c: "rv64_cpu_restore_flags f (rv64_cpu_disable_interrupt (imask s)) = c" "mask_restored f (imask s) c"
        using restored_mask by blast
      show ?thesis
        using 3 run nr nr' InSchedule c
        by (auto simp: Let_def switch_run restore_intr_def krn_cpu_restore_interrupt_def rq_inv_upd_thread resumed_def)
    qed
  qed
qed

section \<open>Delayed dispatching\<close>

text \<open>A thread that was put back into the ready queue by a call of \<open>sched_schedule\<close> in \<open>sched_delay_disptach\<close>.\<close>

definition put_back_in_dispatch :: "thread \<Rightarrow> bool" where
  "put_back_in_dispatch th \<longleftrightarrow>
     preempt (tinfo th) = TI_PREEMPT_ACTIVE \<and> intrcnt (tinfo th) = 0 \<and> 0 <s t_refs th \<and>
     flags (tinfo th) AND TI_DISPATCH_DELAYED \<noteq> 0 \<and> flags (tinfo th) AND TI_EVENT_PENDING = 0 \<and>
     (case ksp th of InSchedule f \<Rightarrow> f AND SSTATUS_SIE = 0 | Fresh _ \<Rightarrow> False)"

definition bouncing :: "(nat \<Rightarrow> nat list) \<Rightarrow> sched \<Rightarrow> bool" where
  "bouncing rd s \<longleftrightarrow>
     sched_ok rd s \<and> idle_threads s (this_cpu s) \<noteq> None \<and> krn_cpu_interrupt_disabled (imask s) \<and> in_ready rd \<noteq> {} \<and>
     (\<forall>t\<in>in_ready rd. put_back_in_dispatch (threads s t)) \<and>
     t_state (threads s (current s)) = THR_TSTATE_RUN \<and>
     (let ti = tinfo (threads s (current s))
      in preempt ti = 0 \<and> intrcnt ti = 0 \<and> flags ti AND TI_DISPATCH_DELAYED \<noteq> 0 \<and> flags ti AND TI_EVENT_PENDING = 0)"

lemma krn_disabled_iff: "krn_cpu_interrupt_disabled c \<longleftrightarrow> sstatus c AND SSTATUS_SIE = 0"
proof -
  have "w AND SSTATUS_SIE = 0 \<longleftrightarrow> \<not> bit w 1" for w :: u64
    by (simp add: SSTATUS_SIE_def and_exp_eq_0_iff_not_bit [of _ 1, simplified])
  then show ?thesis by (simp add: interrupt_disabled_iff)
qed

lemma rq_pick_ready:
  assumes "in_ready rd \<noteq> {}" and "rq_pick rd idle = (nxt, rd')"
  shows "nxt \<in> in_ready rd \<and> in_ready rd' \<subseteq> in_ready rd"
proof (cases rd rule: rq_pop_cases)
  case none
  then show ?thesis using assms by (auto simp: in_ready_def)
next
  case (some p t ts)
  with assms(2) have eq: "nxt = t" "rd' = rd(p := ts)" by (simp_all add: rq_pick_def)
  moreover have "t \<in> set (rd p)" using some(3) by simp
  ultimately have "t \<in> in_ready rd" using some(2) unfolding in_ready_def by blast
  moreover have "in_ready (rd(p := ts)) \<subseteq> in_ready rd"
    using some(3) by (auto simp: in_ready_def split: if_splits)
  ultimately show ?thesis using eq by simp
qed

lemma bouncing_step:
  assumes b: "bouncing rd s"
  shows "\<exists>rd' s'. sched_schedule last_ref s = Some s' \<and> bouncing rd' s'"
proof -
  let ?c = "current s"
  note b' = b [unfolded bouncing_def Let_def]
  from b' obtain idle where idle: "idle_threads s (this_cpu s) = Some idle" and ok: "sched_ok rd s" by blast
  obtain nxt rd' where pick: "rq_pick rd idle = (nxt, rd')" by fastforce
  have nxt: "nxt \<in> in_ready rd" "in_ready rd' \<subseteq> in_ready rd"
    using rq_pick_ready [OF _ pick] b' by blast+
  note ok' = ok [unfolded sched_ok_def]
  have ne: "nxt \<noteq> ?c" using nxt ok' by blast
  have enabled: "\<not> ti_dispatch_disabled s"
    using b' by (simp add: dispatch_disabled_iff ti_get_current_thread_info_def)
  have p: "put_back_in_dispatch (threads s nxt)" using b' nxt by blast
  then obtain f where f: "ksp (threads s nxt) = InSchedule f" "f AND SSTATUS_SIE = 0"
    by (auto simp: put_back_in_dispatch_def split: switch_context.splits)
  let ?rd = "rq_put_back True ?c s rd'"
  obtain s' where s': "sched_schedule last_ref s = Some s'" "current s' = nxt" "this_cpu s' = this_cpu s"
    "idle_threads s' = idle_threads s" "rq_lock s' = rq_lock s" "thrdb_lock s' = thrdb_lock s" "rq_inv ?rd s'"
    "nxt \<notin> in_ready rd'"
    "threads s' ?c = (left_behind True (threads s ?c))\<lparr>ksp := InSchedule (sstatus (imask s))\<rparr>"
    "threads s' nxt = resumed (this_cpu s) (threads s nxt)" "mask_restored f (imask s) (imask s')"
    and other: "\<And>t. t = ?c \<or> t = nxt \<or> threads s' t = threads s t"
    using schedule_cases [OF ok idle pick, of last_ref] enabled ne f(1) b' by auto
  have ready: "in_ready ?rd = insert ?c (in_ready rd')"
    using ok' by (auto simp: in_ready_def rq_put_back_def split: if_splits)
  have "rq_inv rd s" using ok' by blast
  then have prio: "cur_prio (threads s nxt) < SCHED_PRIO_NR"
    using nxt(1) by (auto simp: in_ready_def rq_inv_def)
  have locks: "lock_free (t_lock (threads s' t))" for t
    using s'(9,10) other [of t] ok' by (cases "t = ?c"; cases "t = nxt") (auto simp: left_behind_def resumed_def)
  have ok1: "sched_ok ?rd s'"
    unfolding sched_ok_def
  proof (intro conjI allI impI)
    show "current s' \<notin> in_ready ?rd" using s'(2,8) ready ne by simp
    show "cur_prio (threads s' (current s')) < SCHED_PRIO_NR"
      using prio s'(2,10) by (simp add: resumed_def)
    show "0 <s t_refs (threads s' (current s'))" "ti_cpu (tinfo (threads s' (current s'))) = this_cpu s'"
      using p s'(2,3,10) by (simp_all add: put_back_in_dispatch_def resumed_def)
  qed (use s' ok' locks in simp_all)
  have pb: "put_back_in_dispatch (threads s' t)" if "t \<in> in_ready ?rd" for t
  proof (cases "t = ?c")
    case True
    have "((n OR TI_DISPATCH_DELAYED) AND TI_DISPATCH_DELAYED) = TI_DISPATCH_DELAYED"
      "(n OR TI_DISPATCH_DELAYED) AND TI_EVENT_PENDING = n AND TI_EVENT_PENDING" for n
      by (auto simp: bit_eq_iff bit_simps TI_DISPATCH_DELAYED_def TI_EVENT_PENDING_def)
    moreover have "TI_DISPATCH_DELAYED \<noteq> 0" by (simp add: TI_DISPATCH_DELAYED_def)
    ultimately show ?thesis
      using True s' b' ok' by (simp add: put_back_in_dispatch_def left_behind_def krn_disabled_iff)
  next
    case False
    then show ?thesis
      using that ready s' nxt b' other [of t] by auto
  qed
  have "bouncing ?rd s'"
    using ok1 pb s' mask_restored_enable [OF s'(11)] idle f p ready unfolding bouncing_def Let_def
    by (auto simp: krn_disabled_iff resumed_def put_back_in_dispatch_def)
  then show ?thesis using s'(1) by blast
qed

lemma bouncing_forever:
  assumes "sched_delay_disptach last_ref s = Some r"
  shows "\<not> bouncing rd s"
proof -
  have "\<forall>rd. \<not> bouncing rd s"
  proof (rule sched_delay_disptach.raw_induct [of "\<lambda>_ s _. \<forall>rd. \<not> bouncing rd s", OF _ assms], intro allI notI)
    fix loop last_ref s r rd
    assume IH: "\<And>(last_ref :: nat \<Rightarrow> intrflags \<Rightarrow> sched \<Rightarrow> sched option) s r.
        loop last_ref s = Some r \<Longrightarrow> \<forall>rd. \<not> bouncing rd s"
      and step: "(do {
         (events, s1) \<leftarrow> ti_has_events s;
         if events then Some (True, s1)
         else if ti_dispatch_disabled s1 then Some (False, s1)
         else do {
           (delayed, s2) \<leftarrow> ti_dispatch_delayed s1;
           if \<not> delayed then Some (False, s2)
           else do {
             s3 \<leftarrow> sched_schedule last_ref s2;
             loop last_ref s3
           }
         }
       }) = Some r"
      and b: "bouncing rd s"
    note b' = b [unfolded bouncing_def Let_def sched_ok_def]
    have "ti_has_events s = Some (False, s)" "ti_dispatch_delayed s = Some (True, s)" "\<not> ti_dispatch_disabled s"
      using b' request_ops(1,4) [of s] by (simp_all add: ti_get_current_thread_info_def dispatch_disabled_iff)
    moreover obtain rd' s' where "sched_schedule last_ref s = Some s'" and next_state: "bouncing rd' s'"
      using bouncing_step [OF b] by blast
    ultimately have "loop last_ref s' = Some r"
      using step by simp
    with IH next_state show False by blast
  qed
  then show ?thesis by blast
qed

section \<open>Properties\<close>

text \<open>
  C24: the ready queue refines one list of threads per priority. \<open>get_next_thread\<close> takes the first
  thread of the first priority that has one (priority 0 is the highest) and finds none only when no
  priority has one; \<open>sched_thread_add\<close> appends a thread to the list of its priority and requests a
  delayed dispatch of the running thread when the thread last ran on this processor;
  \<open>sched_thread_del\<close> removes it. The bitmap, the links and the states of the threads agree with the
  lists again after each; locks, references and the interrupt mask are as before.
\<close>

theorem ready_queue_refines:
  assumes "rq_inv rd s" and "lock_free (rq_lock s)" and "lock_free (thrdb_lock s)"
    and "lock_free (t_lock (threads s t))" and "lock_free (t_lock (threads s (current s)))"
    and "cur_prio (threads s t) = p" and "p < SCHED_PRIO_NR"
    and "t_state (threads s t) = THR_TSTATE_RUNABLE" and "0 <s t_refs (threads s t)"
  shows "(\<exists>h b. get_next_thread s = Some (fst (rq_pop rd), s\<lparr>rlinks := h, bitmap := b\<rparr>) \<and>
        rq_inv (snd (rq_pop rd)) (s\<lparr>rlinks := h, bitmap := b\<rparr>)) \<and>
    (if t \<in> in_ready rd
     then \<exists>h b. sched_thread_del t s = Some (s\<lparr>rlinks := h, bitmap := b\<rparr>) \<and>
        rq_inv (rd(p := remove1 t (rd p))) (s\<lparr>rlinks := h, bitmap := b\<rparr>)
     else \<exists>h b. sched_thread_add last_ref t s =
          Some (if ti_cpu (tinfo (threads s t)) = this_cpu s
                then upd_ti (current s) (flags_update (\<lambda>f. f OR TI_DISPATCH_DELAYED)) (s\<lparr>rlinks := h, bitmap := b\<rparr>)
                else s\<lparr>rlinks := h, bitmap := b\<rparr>) \<and>
        rq_inv (rd(p := rd p @ [t])) (s\<lparr>rlinks := h, bitmap := b\<rparr>))"
proof -
  have pop: "\<exists>h b. get_next_thread s = Some (fst (rq_pop rd), s\<lparr>rlinks := h, bitmap := b\<rparr>) \<and>
      rq_inv (snd (rq_pop rd)) (s\<lparr>rlinks := h, bitmap := b\<rparr>)"
    using get_next_pop [OF assms(1,2)] by blast
  have "t \<in> set (rd p)" if "t \<in> in_ready rd"
    using that assms(1,6) by (auto simp: in_ready_def rq_inv_def)
  then have del: "\<exists>h b. sched_thread_del t s = Some (s\<lparr>rlinks := h, bitmap := b\<rparr>) \<and>
      rq_inv (rd(p := remove1 t (rd p))) (s\<lparr>rlinks := h, bitmap := b\<rparr>)" if "t \<in> in_ready rd"
    using that sched_thread_del_run [OF assms(1), of t] assms(2,4,6,7) by blast
  have "\<exists>h b. sched_thread_add last_ref t s =
          Some (if ti_cpu (tinfo (threads s t)) = this_cpu s
                then upd_ti (current s) (flags_update (\<lambda>f. f OR TI_DISPATCH_DELAYED)) (s\<lparr>rlinks := h, bitmap := b\<rparr>)
                else s\<lparr>rlinks := h, bitmap := b\<rparr>) \<and>
        rq_inv (rd(p := rd p @ [t])) (s\<lparr>rlinks := h, bitmap := b\<rparr>)" if "t \<notin> in_ready rd"
    using sched_thread_add_run [OF assms(1) that _ assms(8,9,2,3,4,5), of last_ref]
      rq_inv_append [OF assms(1,7) that assms(6,8)] assms(6,7) by blast
  with pop del show ?thesis by simp
qed

theorem ready_queue_refines_witness:
  "\<exists>h b. sched_thread_add (\<lambda>_ _ _. None) 1 sample_sched =
      Some (upd_ti 0 (flags_update (\<lambda>f. f OR TI_DISPATCH_DELAYED)) (sample_sched\<lparr>rlinks := h, bitmap := b\<rparr>)) \<and>
    rq_inv ((\<lambda>_. [])(3 := [1])) (sample_sched\<lparr>rlinks := h, bitmap := b\<rparr>)"
proof -
  have "lock_free (rq_lock sample_sched)" "lock_free (thrdb_lock sample_sched)"
    "lock_free (t_lock (threads sample_sched n))" "cur_prio (threads sample_sched 1) = 3"
    "(3 :: nat) < SCHED_PRIO_NR" "t_state (threads sample_sched 1) = THR_TSTATE_RUNABLE"
    "0 <s t_refs (threads sample_sched 1)" "ti_cpu (tinfo (threads sample_sched 1)) = this_cpu sample_sched"
    "1 \<notin> in_ready (\<lambda>_. [])" "current sample_sched = 0" for n
    by (simp_all add: sample_sched_def sample_thread_def SCHED_PRIO_NR_def in_ready_def word_sless_alt)
  with ready_queue_refines [OF sample_sched_inv, of 1 3 "\<lambda>_ _ _. None"] show ?thesis by simp
qed

text \<open>
  C25: a call of \<open>sched_schedule\<close>. While dispatching is disabled it only requests a delayed dispatch.
  Otherwise the processor goes to the first thread of the highest priority, or to the idle thread
  when none can run; when that is the running thread only the request is cleared. A running thread
  that is left goes to the end of the list of its priority exactly when its state was
  \<open>THR_TSTATE_RUN\<close>, with a new dispatch request noted in its own block, and its interrupt state is
  saved. A thread that was switched out before gets the state \<open>THR_TSTATE_RUN\<close>, this processor's
  number and the interrupt enable bit it had saved; no other bit of the interrupt state changes. A new
  thread keeps the state \<open>THR_TSTATE_RUNABLE\<close> it had in the ready queue, so that it is not put back
  when it is left, and starts with the status word of its trap context as \<open>sret\<close> leaves it. No other
  thread changes.
\<close>

theorem schedule_step:
  assumes "sched_ok rd s" and "idle_threads s (this_cpu s) = Some idle" and "rq_pick rd idle = (nxt, rd')"
    and "put \<longleftrightarrow> t_state (threads s (current s)) = THR_TSTATE_RUN"
  shows "\<exists>s'. sched_schedule last_ref s = Some s' \<and>
    (if ti_dispatch_disabled s then s' = upd_ti (current s) (flags_update (\<lambda>f. f OR TI_DISPATCH_DELAYED)) s
     else if nxt = current s then s' = upd_ti (current s) (flags_update (\<lambda>f. f AND NOT TI_DISPATCH_DELAYED)) s
     else current s' = nxt \<and> this_cpu s' = this_cpu s \<and> idle_threads s' = idle_threads s \<and>
       rq_lock s' = rq_lock s \<and> thrdb_lock s' = thrdb_lock s \<and> rq_inv (rq_put_back put (current s) s rd') s' \<and> nxt \<notin> in_ready rd' \<and>
       threads s' (current s) = (left_behind put (threads s (current s)))\<lparr>ksp := InSchedule (sstatus (imask s))\<rparr> \<and>
       (case ksp (threads s nxt) of
          Fresh e \<Rightarrow> threads s' nxt = threads s nxt \<and> mask_of_trap_return e (imask s) (imask s')
        | InSchedule f \<Rightarrow> threads s' nxt = resumed (this_cpu s) (threads s nxt) \<and> mask_restored f (imask s) (imask s')) \<and>
       (\<forall>t. t = current s \<or> t = nxt \<or> threads s' t = threads s t))"
  using schedule_cases [OF assms(1-3), of last_ref] unfolding assms(4) by blast

theorem schedule_step_witness:
  "\<exists>s'. sched_schedule (\<lambda>_ _ _. None) sample_sched = Some s' \<and> current s' = 9 \<and> t_state (threads s' 0) = THR_TSTATE_RUNABLE \<and>
     t_state (threads s' 9) = THR_TSTATE_RUN \<and> rq_inv ((\<lambda>_. [])(255 := [0])) s'"
proof -
  have "find (\<lambda>p. ([] :: nat list) \<noteq> []) [0..<SCHED_PRIO_NR] = None"
    by (simp add: find_None_iff)
  then have pick: "rq_pick (\<lambda>_. []) 9 = (9, \<lambda>_. [])"
    by (simp add: rq_pick_def rq_pop_def)
  have ok: "sched_ok (\<lambda>_. []) sample_sched"
    using sample_sched_inv
    by (simp add: sched_ok_def sample_sched_def sample_thread_def in_ready_def SCHED_PRIO_NR_def word_sless_alt)
  have fields: "idle_threads sample_sched (this_cpu sample_sched) = Some 9" "current sample_sched = 0"
    "t_state (threads sample_sched 0) = THR_TSTATE_RUN" "\<not> ti_dispatch_disabled sample_sched"
    "ksp (threads sample_sched 9) = InSchedule 0" "cur_prio (threads sample_sched 0) = 255"
    by (simp_all add: sample_sched_def sample_thread_def dispatch_disabled_iff ti_get_current_thread_info_def)
  obtain s' where s': "sched_schedule (\<lambda>_ _ _. None) sample_sched = Some s'" "current s' = 9"
    "threads s' 0 = (left_behind True (threads sample_sched 0))\<lparr>ksp := InSchedule (sstatus (imask sample_sched))\<rparr>"
    "threads s' 9 = resumed (this_cpu sample_sched) (threads sample_sched 9)"
    "rq_inv (rq_put_back True 0 sample_sched (\<lambda>_. [])) s'"
    using schedule_step [OF ok fields(1) pick, of True "\<lambda>_ _ _. None"] fields by auto
  then show ?thesis
    by (intro exI [of _ s']) (simp add: left_behind_def resumed_def rq_put_back_def fields)
qed

text \<open>
  C26: when \<open>sched_delay_disptach\<close> returns. It returns at once when an event is pending, when dispatching
  is disabled and when no dispatch is requested. It never returns from a state in which the running
  thread has a request and the threads that can run were all switched out in this function: each
  call of \<open>sched_schedule\<close> clears the request of the running thread and sets it again when it puts
  the thread back into the ready queue, so that the threads give the processor to each other forever.
\<close>

theorem delayed_dispatch_returns:
  assumes "lock_free (t_lock (threads s (current s)))" and "krn_cpu_interrupt_disabled (imask s)"
  shows "(flags (tinfo (threads s (current s))) AND TI_EVENT_PENDING \<noteq> 0 \<longrightarrow> sched_delay_disptach last_ref s = Some (True, s)) \<and>
    (flags (tinfo (threads s (current s))) AND TI_EVENT_PENDING = 0 \<and>
      (ti_dispatch_disabled s \<or> flags (tinfo (threads s (current s))) AND TI_DISPATCH_DELAYED = 0) \<longrightarrow>
      sched_delay_disptach last_ref s = Some (False, s)) \<and>
    (bouncing rd s \<longrightarrow> sched_delay_disptach last_ref s = None)"
proof (intro conjI impI)
  note ops = request_ops(1,4) [OF assms(1), unfolded ti_get_current_thread_info_def]
  show "sched_delay_disptach last_ref s = Some (True, s)"
    if "flags (tinfo (threads s (current s))) AND TI_EVENT_PENDING \<noteq> 0"
    using that ops(1) by (subst sched_delay_disptach.simps) simp
  show "sched_delay_disptach last_ref s = Some (False, s)"
    if "flags (tinfo (threads s (current s))) AND TI_EVENT_PENDING = 0 \<and>
      (ti_dispatch_disabled s \<or> flags (tinfo (threads s (current s))) AND TI_DISPATCH_DELAYED = 0)"
    using that ops(1) ops(2) [OF assms(2)] by (subst sched_delay_disptach.simps) auto
  show "sched_delay_disptach last_ref s = None" if "bouncing rd s"
    using bouncing_forever [of last_ref s _ rd] that by (cases "sched_delay_disptach last_ref s") auto
qed

text \<open>Thread 0 runs with a dispatch requested, thread 1 was switched out in \<open>sched_delay_disptach\<close>.\<close>

definition bouncing_threads :: sched where
  "bouncing_threads = sample_sched\<lparr>threads := \<lambda>t.
     if t = 0 then sample_thread\<lparr>tinfo := (tinfo sample_thread)\<lparr>flags := TI_DISPATCH_DELAYED\<rparr>\<rparr>
     else sample_thread\<lparr>t_state := THR_TSTATE_RUNABLE, cur_prio := 3,
       tinfo := (tinfo sample_thread)\<lparr>flags := TI_DISPATCH_DELAYED, preempt := TI_PREEMPT_ACTIVE\<rparr>\<rparr>\<rparr>"

definition bouncing_sched :: sched where
  "bouncing_sched = bouncing_threads\<lparr>rlinks := queue_add (Ready 3) (Thr 1) (rlinks bouncing_threads),
     bitmap := bitops_set 3 (bitmap bouncing_threads)\<rparr>"

lemma bouncing_sched: "bouncing ((\<lambda>_. [])(3 := [1])) bouncing_sched"
proof -
  have "rq_inv (\<lambda>_. []) bouncing_threads"
    using sample_sched_inv by (simp add: rq_inv_def bouncing_threads_def)
  then have "rq_inv ((\<lambda>_. [])(3 := [1])) bouncing_sched"
    using rq_inv_append [of "\<lambda>_. []" bouncing_threads 3 1]
    by (simp add: bouncing_sched_def in_ready_def bouncing_threads_def SCHED_PRIO_NR_def)
  moreover have "in_ready ((\<lambda>_. [])(3 := [1])) = {1}"
    by (auto simp: in_ready_def SCHED_PRIO_NR_def split: if_splits)
  ultimately show ?thesis
    by (simp add: bouncing_def sched_ok_def put_back_in_dispatch_def Let_def krn_disabled_iff word_sless_alt
        bouncing_sched_def bouncing_threads_def sample_sched_def sample_thread_def SCHED_PRIO_NR_def
        TI_DISPATCH_DELAYED_def TI_EVENT_PENDING_def)
qed

theorem delayed_dispatch_returns_witness:
  "sched_delay_disptach (\<lambda>_ _ _. None) bouncing_sched = None \<and>
   sched_delay_disptach (\<lambda>_ _ _. None) sample_sched = Some (False, sample_sched)"
proof -
  have "lock_free (t_lock (threads s (current s)))" "krn_cpu_interrupt_disabled (imask s)"
    if "s \<in> {bouncing_sched, sample_sched}" for s
    using that by (auto simp: bouncing_sched_def bouncing_threads_def sample_sched_def sample_thread_def krn_disabled_iff)
  moreover have "flags (tinfo (threads sample_sched (current sample_sched))) = 0"
    by (simp add: sample_sched_def sample_thread_def)
  ultimately show ?thesis
    using delayed_dispatch_returns [of bouncing_sched "\<lambda>_ _ _. None" "(\<lambda>_. [])(3 := [1])"] bouncing_sched
      delayed_dispatch_returns [of sample_sched "\<lambda>_ _ _. None" "(\<lambda>_. [])"]
    by simp
qed

end
