(* ===== verification/Wqueue.thy ===== *)
theory Wqueue
  imports SchedLaws
begin

unbundle bit_operations_syntax

text \<open>
  Wait queues (kern/wqueue.c) and mutexes (kern/mutex.c) on the scheduler. Wait queues, entries and
  mutexes are numbers; the queue of wait queue \<open>w\<close> has the head \<open>WqHead w\<close> and its queue for priority
  inheritance the head \<open>WqPrio w\<close>, and the link of entry \<open>e\<close> is the node \<open>WqEnt e\<close>. Mutex \<open>m\<close>
  contains wait queue \<open>m\<close>.

  A thread that waits gives the processor away in the middle of a function and goes on there when it
  has been woken: such a function is two definitions, up to the call of \<open>sched_schedule\<close> (\<open>_sleep\<close>)
  and from its return on (\<open>_woken\<close>). An entry is a local variable of the function: what the memory
  holds before it is set is what the state says.
\<close>

section \<open>State\<close>

datatype wque_wakeflag = WQUE_WAKEFLAG_ALL | WQUE_WAKEFLAG_ONE

datatype wque_reason = WQUE_WAIT | WQUE_RELEASED | WQUE_DESTROYED | WQUE_TIMEOUT | WQUE_DELIVEV

datatype wque_node = WqHead nat | WqPrio nat | WqEnt nat

record wque_waitqueue =
  wq_lock :: spinlock
  wqflag :: wque_wakeflag

record wque_entry =
  w_thr :: nat
  w_reason :: wque_reason

record mutex =
  m_lock :: spinlock
  m_owner :: "nat option"
  resources :: u32

record sync =
  krn :: sched
  wqs :: "nat \<Rightarrow> wque_waitqueue"
  wlinks :: "wque_node lstore"
  ents :: "nat \<Rightarrow> wque_entry"
  mutexes :: "nat \<Rightarrow> mutex"

type_synonym last_ref_fn = "nat \<Rightarrow> intrflags \<Rightarrow> sched \<Rightarrow> sched option"

definition upd_ent :: "nat \<Rightarrow> (wque_entry \<Rightarrow> wque_entry) \<Rightarrow> sync \<Rightarrow> sync" where
  "upd_ent e f s = s\<lparr>ents := (ents s)(e := f (ents s e))\<rparr>"

definition upd_mutex :: "nat \<Rightarrow> (mutex \<Rightarrow> mutex) \<Rightarrow> sync \<Rightarrow> sync" where
  "upd_mutex m f s = s\<lparr>mutexes := (mutexes s)(m := f (mutexes s m))\<rparr>"

definition mask_of :: "sync \<Rightarrow> cpu" where
  "mask_of s = imask (krn s)"

definition put_mask :: "cpu \<Rightarrow> sync \<Rightarrow> sync" where
  "put_mask c s = s\<lparr>krn := (krn s)\<lparr>imask := c\<rparr>\<rparr>"

section \<open>Wait queues\<close>

definition lock_wq :: "nat \<Rightarrow> sync \<Rightarrow> (intrflags \<times> sync) option" where
  "lock_wq w s = do {
     (iflags, l, c) \<leftarrow> spinlock_lock_disable_intr (wq_lock (wqs s w)) (mask_of s);
     Some (iflags, put_mask c (s\<lparr>wqs := (wqs s)(w := (wqs s w)\<lparr>wq_lock := l\<rparr>)\<rparr>))
   }"

definition unlock_wq :: "nat \<Rightarrow> intrflags \<Rightarrow> sync \<Rightarrow> sync option" where
  "unlock_wq w iflags s = do {
     (l, c) \<leftarrow> spinlock_unlock_restore_intr iflags (wq_lock (wqs s w)) (mask_of s);
     Some (put_mask c (s\<lparr>wqs := (wqs s)(w := (wqs s w)\<lparr>wq_lock := l\<rparr>)\<rparr>))
   }"

definition enque_wque_entry :: "nat \<Rightarrow> nat \<Rightarrow> sync \<Rightarrow> sync option" where
  "enque_wque_entry w e s = do {
     (iflags, s1) \<leftarrow> lock_wq w s;
     let s2 = upd_ent e (w_reason_update (\<lambda>_. WQUE_WAIT)) s1;
     let s3 = s2\<lparr>wlinks := queue_add (WqHead w) (WqEnt e) (wlinks s2)\<rparr>;
     unlock_wq w iflags s3
   }"

definition init_wque_entry_nolock :: "last_ref_fn \<Rightarrow> nat \<Rightarrow> sync \<Rightarrow> sync option" where
  "init_wque_entry_nolock last_ref e s = do {
     let cur = ti_get_current_thread (krn s);
     (res, k1) \<leftarrow> thr_ref_inc cur (krn s);
     kassert res;
     let s2 = s\<lparr>krn := k1, wlinks := list_init (WqEnt e) (wlinks s)\<rparr>;
     let s3 = upd_ent e (w_reason_update (\<lambda>_. WQUE_WAIT)) s2;
     let s4 = upd_ent e (w_thr_update (\<lambda>_. ti_get_current_thread (krn s3))) s3;
     let k5 = upd_thread (w_thr (ents s4 e)) (t_state_update (\<lambda>_. THR_TSTATE_WAIT)) (krn s4);
     (res', k6) \<leftarrow> thr_ref_dec last_ref cur k5;
     kassert (\<not> res');
     Some (s4\<lparr>krn := k6\<rparr>)
   }"

definition wque_init_wait_queue :: "nat \<Rightarrow> sync \<Rightarrow> sync" where
  "wque_init_wait_queue w s =
     s\<lparr>wqs := (wqs s)(w := \<lparr>wq_lock = spinlock_init, wqflag = WQUE_WAKEFLAG_ALL\<rparr>),
       wlinks := queue_init (WqPrio w) (queue_init (WqHead w) (wlinks s))\<rparr>"

definition wque_is_empty :: "nat \<Rightarrow> sync \<Rightarrow> (bool \<times> sync) option" where
  "wque_is_empty w s = do {
     (iflags, s1) \<leftarrow> lock_wq w s;
     let res = queue_is_empty (WqHead w) (wlinks s1);
     s2 \<leftarrow> unlock_wq w iflags s1;
     Some (res, s2)
   }"

definition wque_init_wque_entry :: "last_ref_fn \<Rightarrow> nat \<Rightarrow> sync \<Rightarrow> sync option" where
  "wque_init_wque_entry last_ref e s = do {
     (iflags, k1) \<leftarrow> lock_thread_disable_intr (w_thr (ents s e)) (krn s);
     s2 \<leftarrow> init_wque_entry_nolock last_ref e (s\<lparr>krn := k1\<rparr>);
     k3 \<leftarrow> unlock_thread_restore_intr (w_thr (ents s2 e)) iflags (krn s2);
     Some (s2\<lparr>krn := k3\<rparr>)
   }"

definition on_krn :: "(sched \<Rightarrow> sched option) \<Rightarrow> sync \<Rightarrow> sync option" where
  "on_krn f s = do { k \<leftarrow> f (krn s); Some (s\<lparr>krn := k\<rparr>) }"

definition wque_wait_for_curthr_sleep :: "last_ref_fn \<Rightarrow> nat \<Rightarrow> nat \<Rightarrow> sync \<Rightarrow> sync option" where
  "wque_wait_for_curthr_sleep last_ref w e s = do {
     let cur = ti_get_current_thread (krn s);
     (res, k1) \<leftarrow> thr_ref_inc cur (krn s);
     kassert res;
     kassert (spinlock_locked_by_self (t_lock (threads k1 cur)));
     s2 \<leftarrow> init_wque_entry_nolock last_ref e (s\<lparr>krn := k1\<rparr>);
     s3 \<leftarrow> enque_wque_entry w e s2;
     s4 \<leftarrow> on_krn (unlock_thread cur) s3;
     (res', k5) \<leftarrow> thr_ref_dec last_ref cur (krn s4);
     kassert (\<not> res');
     on_krn (sched_schedule last_ref) (s4\<lparr>krn := k5\<rparr>)
   }"

definition wque_wait_for_curthr_woken :: "last_ref_fn \<Rightarrow> nat \<Rightarrow> sync \<Rightarrow> (wque_reason \<times> sync) option" where
  "wque_wait_for_curthr_woken last_ref e s = do {
     let cur = ti_get_current_thread (krn s);
     (res, k1) \<leftarrow> thr_ref_inc cur (krn s);
     kassert res;
     k2 \<leftarrow> lock_thread cur k1;
     (res', k3) \<leftarrow> thr_ref_dec last_ref cur k2;
     kassert (\<not> res');
     Some (w_reason (ents s e), s\<lparr>krn := k3\<rparr>)
   }"

text \<open>\<open>unlock_it\<close> and \<open>lock_it\<close> give back and take the lock the function is called with.\<close>

definition wque_wait_on_queue_with_spinlock_sleep ::
    "last_ref_fn \<Rightarrow> (sync \<Rightarrow> sync option) \<Rightarrow> nat \<Rightarrow> nat \<Rightarrow> sync \<Rightarrow> sync option" where
  "wque_wait_on_queue_with_spinlock_sleep last_ref unlock_it w e s = do {
     s1 \<leftarrow> wque_init_wque_entry last_ref e s;
     s2 \<leftarrow> enque_wque_entry w e s1;
     s3 \<leftarrow> unlock_it s2;
     on_krn (sched_schedule last_ref) s3
   }"

definition wque_wait_on_queue_with_spinlock_woken ::
    "(sync \<Rightarrow> sync option) \<Rightarrow> nat \<Rightarrow> sync \<Rightarrow> (wque_reason \<times> sync) option" where
  "wque_wait_on_queue_with_spinlock_woken lock_it e s = do {
     s1 \<leftarrow> lock_it s;
     Some (w_reason (ents s1 e), s1)
   }"

partial_function (option) wakeup_loop :: "last_ref_fn \<Rightarrow> nat \<Rightarrow> wque_reason \<Rightarrow> sync \<Rightarrow> sync option" where
  "wakeup_loop last_ref w reason s =
     (if queue_is_empty (WqHead w) (wlinks s) then Some s
      else (case queue_get_top (WqHead w) (wlinks s) of
              (WqEnt e, h) \<Rightarrow> do {
                let s1 = upd_ent e (w_reason_update (\<lambda>_. reason)) (s\<lparr>wlinks := h\<rparr>);
                let t = w_thr (ents s1 e);
                (res, k1) \<leftarrow> thr_ref_inc t (krn s1);
                if \<not> res then wakeup_loop last_ref w reason (s1\<lparr>krn := k1\<rparr>)
                else do {
                  k2 \<leftarrow> lock_thread t k1;
                  k4 \<leftarrow> unlock_thread t (upd_thread t (t_state_update (\<lambda>_. THR_TSTATE_RUNABLE)) k2);
                  k5 \<leftarrow> sched_thread_add last_ref t k4;
                  (res', k6) \<leftarrow> thr_ref_dec last_ref t k5;
                  kassert (\<not> res');
                  let s2 = s1\<lparr>krn := k6\<rparr>;
                  if wqflag (wqs s2 w) = WQUE_WAKEFLAG_ONE then Some s2
                  else wakeup_loop last_ref w reason s2
                }
              }
            | _ \<Rightarrow> None))"

definition wque_wakeup :: "last_ref_fn \<Rightarrow> nat \<Rightarrow> wque_reason \<Rightarrow> sync \<Rightarrow> sync option" where
  "wque_wakeup last_ref w reason s = do {
     (iflags, s1) \<leftarrow> lock_wq w s;
     s2 \<leftarrow> wakeup_loop last_ref w reason s1;
     unlock_wq w iflags s2
   }"

section \<open>Mutexes\<close>

definition MUTEX_INITIAL_VALUE :: u32 where "MUTEX_INITIAL_VALUE = 1"

definition lock_mutex :: "nat \<Rightarrow> sync \<Rightarrow> (intrflags \<times> sync) option" where
  "lock_mutex m s = do {
     (iflags, l, c) \<leftarrow> spinlock_lock_disable_intr (m_lock (mutexes s m)) (mask_of s);
     Some (iflags, put_mask c (upd_mutex m (m_lock_update (\<lambda>_. l)) s))
   }"

definition unlock_mutex :: "nat \<Rightarrow> intrflags \<Rightarrow> sync \<Rightarrow> sync option" where
  "unlock_mutex m iflags s = do {
     (l, c) \<leftarrow> spinlock_unlock_restore_intr iflags (m_lock (mutexes s m)) (mask_of s);
     Some (put_mask c (upd_mutex m (m_lock_update (\<lambda>_. l)) s))
   }"

definition lock_mutex_common :: "nat \<Rightarrow> sync \<Rightarrow> ((errno + unit) \<times> sync) option" where
  "lock_mutex_common m s = do {
     kassert (spinlock_locked_by_self (m_lock (mutexes s m)));
     if resources (mutexes s m) = 0 then Some (Inl EAGAIN, s)
     else Some (Inr (), upd_mutex m (resources_update (\<lambda>n. n - 1)) s)
   }"

definition mutex_init :: "nat \<Rightarrow> sync \<Rightarrow> sync" where
  "mutex_init m s = wque_init_wait_queue m
     (upd_mutex m (\<lambda>_. \<lparr>m_lock = spinlock_init, m_owner = None, resources = MUTEX_INITIAL_VALUE\<rparr>) s)"

definition mutex_destroy :: "last_ref_fn \<Rightarrow> nat \<Rightarrow> sync \<Rightarrow> sync option" where
  "mutex_destroy last_ref m s = do {
     (iflags, s1) \<leftarrow> lock_mutex m s;
     s2 \<leftarrow> wque_wakeup last_ref m WQUE_DESTROYED s1;
     let s3 = upd_mutex m (\<lambda>mtx. mtx\<lparr>resources := 0, m_owner := None\<rparr>) s2;
     unlock_mutex m iflags s3
   }"

definition mutex_locked_by_self :: "nat \<Rightarrow> sync \<Rightarrow> (bool \<times> sync) option" where
  "mutex_locked_by_self m s = do {
     (iflags, s1) \<leftarrow> lock_mutex m s;
     let rc = (resources (mutexes s1 m) = 0);
     s2 \<leftarrow> unlock_mutex m iflags s1;
     Some (rc, s2)
   }"

definition mutex_try_lock :: "nat \<Rightarrow> sync \<Rightarrow> ((errno + unit) \<times> sync) option" where
  "mutex_try_lock m s = do {
     (iflags, s1) \<leftarrow> lock_mutex m s;
     (rc, s2) \<leftarrow> lock_mutex_common m s1;
     s3 \<leftarrow> unlock_mutex m iflags s2;
     Some (rc, s3)
   }"

text \<open>
  The loop of \<open>mutex_lock\<close>: the result of the function, or the saved interrupt state of a caller that
  sleeps now and goes on in \<open>mutex_lock_woken\<close>.
\<close>

datatype lock_outcome = Returned "errno + unit" | Asleep intrflags

definition mutex_spin_unlock :: "nat \<Rightarrow> sync \<Rightarrow> sync option" where
  "mutex_spin_unlock m s = do {
     l \<leftarrow> spinlock_unlock (m_lock (mutexes s m));
     Some (upd_mutex m (m_lock_update (\<lambda>_. l)) s)
   }"

definition mutex_spin_lock :: "nat \<Rightarrow> sync \<Rightarrow> sync option" where
  "mutex_spin_lock m s = do {
     l \<leftarrow> spinlock_lock (m_lock (mutexes s m));
     Some (upd_mutex m (m_lock_update (\<lambda>_. l)) s)
   }"

definition mutex_lock_attempt :: "last_ref_fn \<Rightarrow> nat \<Rightarrow> nat \<Rightarrow> intrflags \<Rightarrow> sync \<Rightarrow> (lock_outcome \<times> sync) option" where
  "mutex_lock_attempt last_ref m e iflags s = do {
     (rc, s1) \<leftarrow> lock_mutex_common m s;
     case rc of
       Inr _ \<Rightarrow> do { s2 \<leftarrow> unlock_mutex m iflags s1; Some (Returned (Inr ()), s2) }
     | Inl _ \<Rightarrow> do {
         s2 \<leftarrow> wque_wait_on_queue_with_spinlock_sleep last_ref (mutex_spin_unlock m) m e s1;
         Some (Asleep iflags, s2)
       }
   }"

definition mutex_lock :: "last_ref_fn \<Rightarrow> nat \<Rightarrow> nat \<Rightarrow> sync \<Rightarrow> (lock_outcome \<times> sync) option" where
  "mutex_lock last_ref m e s = do {
     (iflags, s1) \<leftarrow> lock_mutex m s;
     mutex_lock_attempt last_ref m e iflags s1
   }"

definition mutex_lock_woken :: "last_ref_fn \<Rightarrow> nat \<Rightarrow> nat \<Rightarrow> intrflags \<Rightarrow> sync \<Rightarrow> (lock_outcome \<times> sync) option" where
  "mutex_lock_woken last_ref m e iflags s = do {
     (reason, s1) \<leftarrow> wque_wait_on_queue_with_spinlock_woken (mutex_spin_lock m) e s;
     if reason = WQUE_DESTROYED then do { s2 \<leftarrow> unlock_mutex m iflags s1; Some (Returned (Inl ENODEV), s2) }
     else if reason = WQUE_DELIVEV then do { s2 \<leftarrow> unlock_mutex m iflags s1; Some (Returned (Inl EINTR), s2) }
     else do {
       kassert (reason = WQUE_RELEASED);
       mutex_lock_attempt last_ref m e iflags s1
     }
   }"

definition mutex_unlock :: "last_ref_fn \<Rightarrow> nat \<Rightarrow> sync \<Rightarrow> sync option" where
  "mutex_unlock last_ref m s = do {
     (iflags, s1) \<leftarrow> lock_mutex m s;
     let s2 = upd_mutex m (\<lambda>mtx. mtx\<lparr>resources := resources mtx + 1, m_owner := None\<rparr>) s1;
     s3 \<leftarrow> wque_wakeup last_ref m WQUE_RELEASED s2;
     unlock_mutex m iflags s3
   }"

section \<open>Waiting for an event with a mutex\<close>

definition wque_wait_on_event_with_mutex_sleep :: "last_ref_fn \<Rightarrow> nat \<Rightarrow> nat \<Rightarrow> nat \<Rightarrow> sync \<Rightarrow> sync option" where
  "wque_wait_on_event_with_mutex_sleep last_ref w m e s = do {
     s1 \<leftarrow> wque_init_wque_entry last_ref e s;
     s2 \<leftarrow> enque_wque_entry w e s1;
     s3 \<leftarrow> mutex_unlock last_ref m s2;
     on_krn (sched_schedule last_ref) s3
   }"

text \<open>Woken, the function takes the mutex again, which may make it sleep once more on the entry \<open>e'\<close>.\<close>

definition wque_wait_on_event_with_mutex_woken ::
    "last_ref_fn \<Rightarrow> nat \<Rightarrow> nat \<Rightarrow> nat \<Rightarrow> sync \<Rightarrow> (lock_outcome \<times> wque_reason \<times> sync) option" where
  "wque_wait_on_event_with_mutex_woken last_ref m e e' s = do {
     (out, s1) \<leftarrow> mutex_lock last_ref m e' s;
     Some (out, w_reason (ents s1 e), s1)
   }"

end
