(* ===== verification/WqueueLaws.thy ===== *)
theory WqueueLaws
  imports Wqueue
begin

unbundle bit_operations_syntax

text \<open>
  What the wait queues and mutexes do: waking threads moves them from the wait queue to the ready
  queue in their order; the fast paths of a mutex; and what becomes of a thread that has to wait.
\<close>

section \<open>Waking one thread\<close>

definition can_wake :: "sched \<Rightarrow> nat \<Rightarrow> bool" where
  "can_wake k t \<longleftrightarrow> cur_prio (threads k t) < SCHED_PRIO_NR \<and>
     0 <s t_refs (threads k t) \<and> 0 <s t_refs (threads k t) + 1 \<and> lock_free (t_lock (threads k t))"

text \<open>The threads after those of \<open>ts\<close> have been woken.\<close>

definition woken :: "nat list \<Rightarrow> sched \<Rightarrow> nat \<Rightarrow> thread" where
  "woken ts k t = (threads k t)\<lparr>
     t_state := (if t \<in> set ts then THR_TSTATE_RUNABLE else t_state (threads k t)),
     tinfo := flags_update (\<lambda>f. if t = current k \<and> (\<exists>u\<in>set ts. ti_cpu (tinfo (threads k u)) = this_cpu k)
       then f OR TI_DISPATCH_DELAYED else f) (tinfo (threads k t))\<rparr>"

definition add_ready :: "sched \<Rightarrow> nat \<Rightarrow> (nat \<Rightarrow> nat list) \<Rightarrow> nat \<Rightarrow> nat list" where
  "add_ready k t rd = rd(cur_prio (threads k t) := rd (cur_prio (threads k t)) @ [t])"

lemma ref_steps:
  assumes "0 <s t_refs (threads k t)"
  shows "thr_ref_inc t k = Some (True, upd_thread t (t_refs_update (\<lambda>n. n + 1)) k)"
    and "lock_free (thrdb_lock k') \<Longrightarrow> t_refs (threads k' t) = t_refs (threads k t) + 1 \<Longrightarrow>
      thr_ref_dec last_ref t k' = Some (False, upd_thread t (t_refs_update (\<lambda>_. t_refs (threads k t))) k')"
proof -
  show "thr_ref_inc t k = Some (True, upd_thread t (t_refs_update (\<lambda>n. n + 1)) k)"
    using assms by (cases "threads k t") (auto simp: thr_ref_inc_def word_sless_alt upd_thread_def)
  assume "lock_free (thrdb_lock k')" "t_refs (threads k' t) = t_refs (threads k t) + 1"
  then show "thr_ref_dec last_ref t k' = Some (False, upd_thread t (t_refs_update (\<lambda>_. t_refs (threads k t))) k')"
    using refs_inc_dec [OF assms, of "thrdb_lock k'" "imask k'"]
    by (simp add: thr_ref_dec_def Let_def upd_thread_def)
qed

lemma wake_one:
  assumes inv: "rq_inv rd k" and t: "t \<notin> in_ready rd" "can_wake k t"
    and free: "lock_free (rq_lock k)" "lock_free (thrdb_lock k)" "lock_free (t_lock (threads k (current k)))"
  shows "\<exists>h b k1 k2 k4 k5. thr_ref_inc t k = Some (True, k1) \<and> lock_thread t k1 = Some k2 \<and>
    unlock_thread t (upd_thread t (t_state_update (\<lambda>_. THR_TSTATE_RUNABLE)) k2) = Some k4 \<and>
    sched_thread_add last_ref t k4 = Some k5 \<and>
    thr_ref_dec last_ref t k5 = Some (False, k\<lparr>threads := woken [t] k, rlinks := h, bitmap := b\<rparr>) \<and>
    rq_inv (add_ready k t rd) (k\<lparr>threads := woken [t] k, rlinks := h, bitmap := b\<rparr>)"
proof -
  let ?n = "t_refs (threads k t)" and ?p = "cur_prio (threads k t)"
  note t' = t(2) [unfolded can_wake_def]
  define k1 where "k1 = upd_thread t (t_refs_update (\<lambda>n. n + 1)) k"
  define k2 where "k2 = upd_thread t (t_lock_update lock_taken) k1"
  define k4 where "k4 = upd_thread t (\<lambda>th. th\<lparr>t_refs := t_refs th + 1, t_state := THR_TSTATE_RUNABLE\<rparr>) k"
  have locks: "lock_thread t k1 = Some k2"
    using thread_lock_unlock(1) [of k1 t] t' by (simp add: k1_def k2_def)
  have "upd_thread t (t_lock_update (\<lambda>_. t_lock (threads k1 t))) (upd_thread t (t_state_update (\<lambda>_. THR_TSTATE_RUNABLE)) k2) = k4"
    by (rule sched.equality) (auto simp: k1_def k2_def k4_def intro!: ext thread.equality)
  then have unlock: "unlock_thread t (upd_thread t (t_state_update (\<lambda>_. THR_TSTATE_RUNABLE)) k2) = Some k4"
    using thread_lock_unlock(2) [of k1 t "upd_thread t (t_state_update (\<lambda>_. THR_TSTATE_RUNABLE)) k2"] t'
    by (simp add: k1_def k2_def)
  have inv4: "rq_inv rd k4"
    unfolding k4_def by (subst rq_inv_upd_thread) (use t(1) inv in auto)
  have k4: "cur_prio (threads k4 t) = ?p" "t_state (threads k4 t) = THR_TSTATE_RUNABLE" "t_refs (threads k4 t) = ?n + 1"
    "lock_free (rq_lock k4)" "lock_free (thrdb_lock k4)" "lock_free (t_lock (threads k4 t))" "lock_free (t_lock (threads k4 (current k4)))"
    "ti_cpu (tinfo (threads k4 t)) = ti_cpu (tinfo (threads k t))" "this_cpu k4 = this_cpu k" "current k4 = current k"
    using t' free by (simp_all add: k4_def)
  define h where "h = queue_add (Ready ?p) (Thr t) (rlinks k4)"
  define b where "b = (if rd ?p = [] then bitops_set ?p (bitmap k4) else bitmap k4)"
  define k5 where "k5 = (if ti_cpu (tinfo (threads k t)) = this_cpu k
    then upd_ti (current k) (flags_update (\<lambda>f. f OR TI_DISPATCH_DELAYED)) (k4\<lparr>rlinks := h, bitmap := b\<rparr>)
    else k4\<lparr>rlinks := h, bitmap := b\<rparr>)"
  have add: "sched_thread_add last_ref t k4 = Some k5"
    using sched_thread_add_run [OF inv4 t(1), of last_ref] k4 t' by (simp add: k5_def h_def b_def)
  have inv5: "rq_inv (add_ready k t rd) (k4\<lparr>rlinks := h, bitmap := b\<rparr>)"
    using rq_inv_append [OF inv4 _ t(1)] k4 t' by (simp add: h_def b_def add_ready_def)
  have dec: "thr_ref_dec last_ref t k5 = Some (False, upd_thread t (t_refs_update (\<lambda>_. ?n)) k5)"
  proof (rule ref_steps(2))
    show "0 <s ?n"
      using t' by simp
    show "lock_free (thrdb_lock k5)" "t_refs (threads k5 t) = ?n + 1"
      using k4 by (auto simp: k5_def)
  qed
  have eq: "upd_thread t (t_refs_update (\<lambda>_. ?n)) k5 = k\<lparr>threads := woken [t] k, rlinks := h, bitmap := b\<rparr>"
    by (rule sched.equality) (auto simp: k5_def k4_def woken_def intro!: ext thread.equality thread_info.equality)
  have "rq_inv (add_ready k t rd) (upd_thread t (t_refs_update (\<lambda>_. ?n)) k5)"
    using inv5 by (simp add: rq_inv_upd_thread k5_def upd_ti_def)
  then show ?thesis
    using ref_steps(1) [of k t] t' locks unlock add dec unfolding eq k1_def [symmetric] by blast
qed

section \<open>The loop over the sleepers\<close>

text \<open>\<open>q\<close> gives the entries of each wait queue, in their order.\<close>

definition wq_queues :: "(nat \<Rightarrow> nat list) \<Rightarrow> wque_node \<Rightarrow> wque_node list" where
  "wq_queues q n = (case n of WqHead w \<Rightarrow> map WqEnt (q w) | _ \<Rightarrow> [])"

definition wq_inv :: "(nat \<Rightarrow> nat list) \<Rightarrow> sync \<Rightarrow> bool" where
  "wq_inv q s \<longleftrightarrow> wf_queues (range WqHead) (range WqEnt) (wq_queues q) (wlinks s)"

lemma wq_queues_simps [simp]:
  "wq_queues q (WqHead w) = map WqEnt (q w)"
  "wq_queues (q(w := es)) = (wq_queues q)(WqHead w := map WqEnt es)"
  by (auto simp: wq_queues_def split: wque_node.splits)

text \<open>The entries that one call wakes up, and those that it leaves.\<close>

definition to_wake :: "wque_wakeflag \<Rightarrow> nat list \<Rightarrow> nat list" where
  "to_wake flag es = (if flag = WQUE_WAKEFLAG_ONE then take 1 es else es)"

definition to_leave :: "wque_wakeflag \<Rightarrow> nat list \<Rightarrow> nat list" where
  "to_leave flag es = (if flag = WQUE_WAKEFLAG_ONE then drop 1 es else [])"

lemma to_wake_Cons:
  "to_wake flag (e # es) = e # (if flag = WQUE_WAKEFLAG_ONE then [] else to_wake flag es)"
  "to_leave flag (e # es) = (if flag = WQUE_WAKEFLAG_ONE then es else to_leave flag es)"
  by (simp_all add: to_wake_def to_leave_def)

definition sleepers_ok :: "(nat \<Rightarrow> nat list) \<Rightarrow> nat list \<Rightarrow> sched \<Rightarrow> bool" where
  "sleepers_ok rd ts k \<longleftrightarrow> distinct ts \<and> (\<forall>t\<in>set ts. t \<notin> in_ready rd \<and> can_wake k t)"

lemma woken_sel [simp]:
  "cur_prio (woken ts k t) = cur_prio (threads k t)" "t_refs (woken ts k t) = t_refs (threads k t)"
  "t_lock (woken ts k t) = t_lock (threads k t)" "ti_cpu (tinfo (woken ts k t)) = ti_cpu (tinfo (threads k t))"
  by (simp_all add: woken_def)

lemma woken_again:
  "woken ts (k\<lparr>threads := woken [t] k, rlinks := h, bitmap := b\<rparr>) = woken (t # ts) k"
  by (rule ext) (auto simp: woken_def or.assoc intro!: thread.equality thread_info.equality)

lemma woken_nil [simp]: "woken [] k = threads k"
  by (rule ext) (simp add: woken_def)

lemma add_ready_again: "add_ready (k\<lparr>threads := woken ts k, rlinks := h, bitmap := b\<rparr>) = add_ready k"
  by (intro ext) (simp add: add_ready_def)

lemma sleepers_step:
  assumes "sleepers_ok rd (t # ts) k"
  shows "sleepers_ok (add_ready k t rd) ts (k\<lparr>threads := woken [t] k, rlinks := h, bitmap := b\<rparr>)"
  using assms by (auto simp: sleepers_ok_def add_ready_def in_ready_def can_wake_def split: if_splits)


text \<open>The entries after the loop: those woken up have the reason.\<close>

definition with_reason :: "nat list \<Rightarrow> wque_reason \<Rightarrow> (nat \<Rightarrow> wque_entry) \<Rightarrow> nat \<Rightarrow> wque_entry" where
  "with_reason es r en e = (if e \<in> set es then (en e)\<lparr>w_reason := r\<rparr> else en e)"

lemma with_reason_again: "with_reason es r (en(e := (en e)\<lparr>w_reason := r\<rparr>)) = with_reason (e # es) r en"
  by (rule ext) (simp add: with_reason_def)

lemma with_reason_nil [simp]: "with_reason [] r en = en"
  by (rule ext) (simp add: with_reason_def)

lemma sync_order: "s\<lparr>wlinks := wl, ents := en, krn := k\<rparr> = s\<lparr>krn := k, wlinks := wl, ents := en\<rparr>"
  by (rule sync.equality) simp_all

lemma wakeup_iteration:
  assumes wq: "wq_inv q s" "q w = e # es" and rq: "rq_inv rd (krn s)"
    and ok: "sleepers_ok rd (map (\<lambda>e. w_thr (ents s e)) (e # es)) (krn s)"
    and free: "lock_free (rq_lock (krn s))" "lock_free (thrdb_lock (krn s))"
      "lock_free (t_lock (threads (krn s) (current (krn s))))"
  shows "\<exists>h b wl. let s' = s\<lparr>krn := (krn s)\<lparr>threads := woken [w_thr (ents s e)] (krn s), rlinks := h, bitmap := b\<rparr>,
      wlinks := wl, ents := (ents s)(e := (ents s e)\<lparr>w_reason := r\<rparr>)\<rparr> in
    wakeup_loop last_ref w r s =
      (if wqflag (wqs s w) = WQUE_WAKEFLAG_ONE then Some s' else wakeup_loop last_ref w r s') \<and>
    wq_inv (q(w := es)) s' \<and> rq_inv (add_ready (krn s) (w_thr (ents s e)) rd) (krn s')"
proof -
  let ?t = "w_thr (ents s e)" and ?k = "krn s"
  obtain wl where get: "queue_get_top (WqHead w) (wlinks s) = (WqEnt e, wl)"
    and wf: "wf_queues (range WqHead) (range WqEnt) (wq_queues (q(w := es))) wl"
    using kq.get_top [of "range WqHead" "range WqEnt" "wq_queues q" "wlinks s" "WqHead w" "WqEnt e" "map WqEnt es"] wq
    by (cases "queue_get_top (WqHead w) (wlinks s)") (auto simp: wq_inv_def)
  have ne: "\<not> queue_is_empty (WqHead w) (wlinks s)"
    using kq.is_empty [of "range WqHead" "range WqEnt" "wq_queues q" "wlinks s" "WqHead w"] wq by (simp add: wq_inv_def)
  have t: "?t \<notin> in_ready rd" "can_wake ?k ?t"
    using ok by (simp_all add: sleepers_ok_def)
  obtain h b k1 k2 k4 k5 where steps: "thr_ref_inc ?t ?k = Some (True, k1)" "lock_thread ?t k1 = Some k2"
    "unlock_thread ?t (upd_thread ?t (t_state_update (\<lambda>_. THR_TSTATE_RUNABLE)) k2) = Some k4"
    "sched_thread_add last_ref ?t k4 = Some k5"
    "thr_ref_dec last_ref ?t k5 = Some (False, ?k\<lparr>threads := woken [?t] ?k, rlinks := h, bitmap := b\<rparr>)"
    and rq': "rq_inv (add_ready ?k ?t rd) (?k\<lparr>threads := woken [?t] ?k, rlinks := h, bitmap := b\<rparr>)"
    using wake_one [OF rq t free] by metis
  show ?thesis
    unfolding Let_def
  proof (intro exI conjI)
    let ?s' = "s\<lparr>krn := ?k\<lparr>threads := woken [?t] ?k, rlinks := h, bitmap := b\<rparr>,
      wlinks := wl, ents := (ents s)(e := (ents s e)\<lparr>w_reason := r\<rparr>)\<rparr>"
    show "wakeup_loop last_ref w r s =
      (if wqflag (wqs s w) = WQUE_WAKEFLAG_ONE then Some ?s' else wakeup_loop last_ref w r ?s')"
      by (subst wakeup_loop.simps) (simp add: ne get steps upd_ent_def sync_order)
    show "wq_inv (q(w := es)) ?s'" "rq_inv (add_ready ?k ?t rd) (krn ?s')"
      using wf rq' by (simp_all add: wq_inv_def)
  qed
qed

lemma wakeup_loop_run:
  assumes "wq_inv q s" "q w = es" "rq_inv rd (krn s)"
    and "sleepers_ok rd (map (\<lambda>e. w_thr (ents s e)) es) (krn s)"
    and "lock_free (rq_lock (krn s))" "lock_free (thrdb_lock (krn s))"
      "lock_free (t_lock (threads (krn s) (current (krn s))))"
  shows "\<exists>h b wl. let es' = to_wake (wqflag (wqs s w)) es; ts = map (\<lambda>e. w_thr (ents s e)) es';
      s' = s\<lparr>krn := (krn s)\<lparr>threads := woken ts (krn s), rlinks := h, bitmap := b\<rparr>, wlinks := wl,
        ents := with_reason es' r (ents s)\<rparr> in
    wakeup_loop last_ref w r s = Some s' \<and> wq_inv (q(w := to_leave (wqflag (wqs s w)) es)) s' \<and>
    rq_inv (fold (add_ready (krn s)) ts rd) (krn s')"
  using assms
proof (induction es arbitrary: s q rd)
  case Nil
  then have "queue_is_empty (WqHead w) (wlinks s)"
    using kq.is_empty [of "range WqHead" "range WqEnt" "wq_queues q" "wlinks s" "WqHead w"] by (simp add: wq_inv_def)
  then have "wakeup_loop last_ref w r s = Some s"
    by (subst wakeup_loop.simps) simp
  moreover have "s\<lparr>krn := (krn s)\<lparr>threads := threads (krn s), rlinks := rlinks (krn s), bitmap := bitmap (krn s)\<rparr>,
      wlinks := wlinks s, ents := with_reason [] r (ents s)\<rparr> = s"
    by simp
  moreover have "q(w := to_leave (wqflag (wqs s w)) []) = q" "to_wake (wqflag (wqs s w)) [] = []"
    using Nil.prems(2) by (auto simp: to_wake_def to_leave_def)
  ultimately show ?case
    using Nil.prems by (intro exI [of _ "rlinks (krn s)"] exI [of _ "bitmap (krn s)"] exI [of _ "wlinks s"]) simp
next
  case (Cons e es)
  let ?k = "krn s" and ?t = "w_thr (ents s e)" and ?f = "wqflag (wqs s w)"
  obtain h b wl s' where s': "s' = s\<lparr>krn := ?k\<lparr>threads := woken [?t] ?k, rlinks := h, bitmap := b\<rparr>,
      wlinks := wl, ents := (ents s)(e := (ents s e)\<lparr>w_reason := r\<rparr>)\<rparr>"
    and step: "wakeup_loop last_ref w r s = (if ?f = WQUE_WAKEFLAG_ONE then Some s' else wakeup_loop last_ref w r s')"
    and inv: "wq_inv (q(w := es)) s'" "rq_inv (add_ready ?k ?t rd) (krn s')"
    using wakeup_iteration [OF Cons.prems] unfolding Let_def by blast
  have thr: "(\<lambda>e. w_thr (ents s' e)) = (\<lambda>e. w_thr (ents s e))"
    by (auto simp: s')
  show ?case
  proof (cases "?f = WQUE_WAKEFLAG_ONE")
    case True
    moreover have "with_reason [e] r (ents s) = (ents s)(e := (ents s e)\<lparr>w_reason := r\<rparr>)"
      by (rule ext) (simp add: with_reason_def)
    moreover have "fold (add_ready ?k) [?t] rd = add_ready ?k ?t rd" by simp
    ultimately show ?thesis
      using step inv unfolding Let_def to_wake_Cons s'
      by (intro exI [of _ h] exI [of _ b] exI [of _ wl]) simp
  next
    case False
    have "sleepers_ok (add_ready ?k ?t rd) (map (\<lambda>e. w_thr (ents s' e)) es) (krn s')"
      unfolding thr using sleepers_step Cons.prems(4) by (simp add: s')
    moreover have "lock_free (rq_lock (krn s'))" "lock_free (thrdb_lock (krn s'))"
      "lock_free (t_lock (threads (krn s') (current (krn s'))))"
      using Cons.prems by (simp_all add: s')
    moreover have "(q(w := es)) w = es" by simp
    ultimately have "\<exists>h b wl. let es' = to_wake (wqflag (wqs s' w)) es; ts = map (\<lambda>e. w_thr (ents s' e)) es';
        s'' = s'\<lparr>krn := (krn s')\<lparr>threads := woken ts (krn s'), rlinks := h, bitmap := b\<rparr>, wlinks := wl,
          ents := with_reason es' r (ents s')\<rparr> in
      wakeup_loop last_ref w r s' = Some s'' \<and>
      wq_inv ((q(w := es))(w := to_leave (wqflag (wqs s' w)) es)) s'' \<and>
      rq_inv (fold (add_ready (krn s')) ts (add_ready ?k ?t rd)) (krn s'')"
      using Cons.IH inv by blast
    then show ?thesis
      using False step unfolding Let_def thr
      by (simp add: s' to_wake_Cons woken_again with_reason_again add_ready_again)
  qed
qed


section \<open>Waking up with the lock of the wait queue\<close>

interpretation wq: locked_state "\<lambda>s. wq_lock (wqs s w)" mask_of
    "\<lambda>l c s. put_mask c (s\<lparr>wqs := (wqs s)(w := (wqs s w)\<lparr>wq_lock := l\<rparr>)\<rparr>)" "lock_wq w" "unlock_wq w" for w :: nat
  by unfold_locales (auto simp: lock_wq_def unlock_wq_def mask_of_def put_mask_def
      intro!: sync.equality ext wque_waitqueue.equality)

interpretation mtx: locked_state "\<lambda>s. m_lock (mutexes s m)" mask_of
    "\<lambda>l c s. put_mask c (upd_mutex m (m_lock_update (\<lambda>_. l)) s)" "lock_mutex m" "unlock_mutex m" for m :: nat
  by unfold_locales (auto simp: lock_mutex_def unlock_mutex_def mask_of_def put_mask_def upd_mutex_def
      intro!: sync.equality ext mutex.equality)

lemma wake_facts_imask [simp]:
  "can_wake (k\<lparr>imask := c\<rparr>) = can_wake k" "woken ts (k\<lparr>imask := c\<rparr>) = woken ts k"
  "add_ready (k\<lparr>imask := c\<rparr>) = add_ready k" "sleepers_ok rd ts (k\<lparr>imask := c\<rparr>) = sleepers_ok rd ts k"
proof -
  show "can_wake (k\<lparr>imask := c\<rparr>) = can_wake k" "woken ts (k\<lparr>imask := c\<rparr>) = woken ts k"
    "add_ready (k\<lparr>imask := c\<rparr>) = add_ready k"
    by (intro ext, simp add: can_wake_def woken_def add_ready_def)+
  then show "sleepers_ok rd ts (k\<lparr>imask := c\<rparr>) = sleepers_ok rd ts k"
    by (simp add: sleepers_ok_def)
qed

text \<open>The locks that \<open>wque_wakeup\<close> takes are free.\<close>

definition wake_locks_free :: "nat \<Rightarrow> sync \<Rightarrow> bool" where
  "wake_locks_free w s \<longleftrightarrow> lock_free (wq_lock (wqs s w)) \<and> lock_free (rq_lock (krn s)) \<and>
     lock_free (thrdb_lock (krn s)) \<and> lock_free (t_lock (threads (krn s) (current (krn s))))"

definition sync_ok :: "(nat \<Rightarrow> nat list) \<Rightarrow> (nat \<Rightarrow> nat list) \<Rightarrow> nat \<Rightarrow> sync \<Rightarrow> bool" where
  "sync_ok q rd w s \<longleftrightarrow> wq_inv q s \<and> rq_inv rd (krn s) \<and>
     sleepers_ok rd (map (\<lambda>e. w_thr (ents s e)) (q w)) (krn s) \<and> wake_locks_free w s"

text \<open>The state after the entries \<open>es\<close> of a wait queue have been woken up for \<open>r\<close>.\<close>

definition after_wakeup ::
    "nat list \<Rightarrow> wque_reason \<Rightarrow> sched_node lstore \<Rightarrow> u64 list \<Rightarrow> wque_node lstore \<Rightarrow> sync \<Rightarrow> sync" where
  "after_wakeup es r h b wl s =
     s\<lparr>krn := (krn s)\<lparr>threads := woken (map (\<lambda>e. w_thr (ents s e)) es) (krn s), rlinks := h, bitmap := b\<rparr>,
       wlinks := wl, ents := with_reason es r (ents s)\<rparr>"

lemma wakeup_run:
  assumes ok: "sync_ok q rd w s"
  shows "\<exists>h b wl. let es = to_wake (wqflag (wqs s w)) (q w); s' = after_wakeup es r h b wl s in
    wque_wakeup last_ref w r s = Some s' \<and> wq_inv (q(w := to_leave (wqflag (wqs s w)) (q w))) s' \<and>
    rq_inv (fold (add_ready (krn s)) (map (\<lambda>e. w_thr (ents s e)) es) rd) (krn s')"
proof -
  let ?es = "to_wake (wqflag (wqs s w)) (q w)" and ?l = "lock_taken (wq_lock (wqs s w))"
    and ?c = "rv64_cpu_disable_interrupt (mask_of s)"
  let ?put = "\<lambda>s. put_mask ?c (s\<lparr>wqs := (wqs s)(w := (wqs s w)\<lparr>wq_lock := ?l\<rparr>)\<rparr>)"
  note ok' = ok [unfolded sync_ok_def wake_locks_free_def]
  define s1 where "s1 = ?put s"
  have enter: "lock_wq w s = Some (sstatus (mask_of s), s1)"
    using wq.enter_free [of s w] ok' by (simp add: s1_def)
  obtain h b wl where loop: "wakeup_loop last_ref w r s1 = Some (s1\<lparr>krn := (krn s1)\<lparr>
      threads := woken (map (\<lambda>e. w_thr (ents s1 e)) ?es) (krn s1), rlinks := h, bitmap := b\<rparr>, wlinks := wl,
      ents := with_reason ?es r (ents s1)\<rparr>)"
    and wf: "wq_inv (q(w := to_leave (wqflag (wqs s w)) (q w))) (s\<lparr>wlinks := wl\<rparr>)"
    and rq: "rq_inv (fold (add_ready (krn s)) (map (\<lambda>e. w_thr (ents s e)) ?es) rd)
      ((krn s)\<lparr>threads := woken (map (\<lambda>e. w_thr (ents s1 e)) ?es) (krn s), rlinks := h, bitmap := b\<rparr>)"
    using wakeup_loop_run [of q s1 w "q w" rd r last_ref] ok'
    by (auto simp: s1_def put_mask_def wq_inv_def rq_inv_def Let_def)
  define s' where "s' = after_wakeup ?es r h b wl s"
  have "wakeup_loop last_ref w r s1 = Some (?put s')"
    unfolding loop
    by (simp, rule sync.equality) (simp_all add: s1_def s'_def after_wakeup_def put_mask_def)
  moreover have "unlock_wq w (sstatus (mask_of s)) (?put s') = Some s'"
    using wq.leave_entered [of s w s'] ok' by (simp add: s'_def after_wakeup_def mask_of_def)
  ultimately have "wque_wakeup last_ref w r s = Some s'"
    by (simp add: wque_wakeup_def enter)
  moreover have "wq_inv (q(w := to_leave (wqflag (wqs s w)) (q w))) s'"
    "rq_inv (fold (add_ready (krn s)) (map (\<lambda>e. w_thr (ents s e)) ?es) rd) (krn s')"
    using wf rq by (simp_all add: s'_def s1_def after_wakeup_def wq_inv_def put_mask_def)
  ultimately show ?thesis
    unfolding Let_def s'_def by blast
qed


section \<open>Mutexes\<close>

lemma upd_mutex_simps [simp]:
  "mutexes (upd_mutex m f s) m = f (mutexes s m)" "upd_mutex m f (upd_mutex m g s) = upd_mutex m (f \<circ> g) s"
  "krn (upd_mutex m f s) = krn s" "wqs (upd_mutex m f s) = wqs s" "wlinks (upd_mutex m f s) = wlinks s"
  "ents (upd_mutex m f s) = ents s" "mask_of (upd_mutex m f s) = mask_of s"
  "put_mask c (upd_mutex m f s) = upd_mutex m f (put_mask c s)"
  by (simp_all add: upd_mutex_def mask_of_def put_mask_def)

text \<open>A critical section of the lock of mutex \<open>m\<close> in which \<open>m\<close> is changed by \<open>f\<close>.\<close>

lemma mutex_section:
  assumes "lock_free (m_lock (mutexes s m))"
    and "\<And>x. m_lock (f x) = m_lock x" and "\<And>x l. f (x\<lparr>m_lock := l\<rparr>) = (f x)\<lparr>m_lock := l\<rparr>"
  obtains s1 where "lock_mutex m s = Some (sstatus (mask_of s), s1)"
    and "mutexes s1 m = (mutexes s m)\<lparr>m_lock := lock_taken (m_lock (mutexes s m))\<rparr>"
    and "unlock_mutex m (sstatus (mask_of s)) (upd_mutex m f s1) = Some (upd_mutex m f s)"
proof -
  let ?l = "lock_taken (m_lock (mutexes s m))" and ?c = "rv64_cpu_disable_interrupt (mask_of s)"
  have "put_mask ?c (upd_mutex m (m_lock_update (\<lambda>_. ?l)) (upd_mutex m f s)) =
      upd_mutex m f (put_mask ?c (upd_mutex m (m_lock_update (\<lambda>_. ?l)) s))"
    using assms(3) by (rule_tac sync.equality) (auto simp: upd_mutex_def put_mask_def)
  then show thesis
    using that [of "put_mask ?c (upd_mutex m (m_lock_update (\<lambda>_. ?l)) s)"] mtx.enter_free [of s m]
      mtx.leave_entered [of s m "upd_mutex m f s"] assms
    by (simp add: put_mask_def)
qed

lemma upd_mutex_id [simp]: "upd_mutex m (\<lambda>x. x) s = s"
  by (simp add: upd_mutex_def)

lemma mutex_try_lock_run:
  assumes "lock_free (m_lock (mutexes s m))"
  shows "mutex_try_lock m s = (if resources (mutexes s m) = 0 then Some (Inl EAGAIN, s)
    else Some (Inr (), upd_mutex m (resources_update (\<lambda>n. n - 1)) s))"
proof (cases "resources (mutexes s m) = 0")
  case True
  obtain s1 where "lock_mutex m s = Some (sstatus (mask_of s), s1)"
    "mutexes s1 m = (mutexes s m)\<lparr>m_lock := lock_taken (m_lock (mutexes s m))\<rparr>"
    "unlock_mutex m (sstatus (mask_of s)) s1 = Some s"
    using mutex_section [OF assms, of "\<lambda>x. x"] by (metis upd_mutex_id)
  with True show ?thesis
    by (simp add: mutex_try_lock_def lock_mutex_common_def)
next
  case False
  obtain s1 where "lock_mutex m s = Some (sstatus (mask_of s), s1)"
    "mutexes s1 m = (mutexes s m)\<lparr>m_lock := lock_taken (m_lock (mutexes s m))\<rparr>"
    "unlock_mutex m (sstatus (mask_of s)) (upd_mutex m (resources_update (\<lambda>n. n - 1)) s1) =
       Some (upd_mutex m (resources_update (\<lambda>n. n - 1)) s)"
    using mutex_section [OF assms, of "resources_update (\<lambda>n. n - 1)"] by auto
  with False show ?thesis
    by (simp add: mutex_try_lock_def lock_mutex_common_def)
qed


lemma mutex_lock_free_run:
  assumes "lock_free (m_lock (mutexes s m))" and "resources (mutexes s m) \<noteq> 0"
  shows "mutex_lock last_ref m e s = Some (Returned (Inr ()), upd_mutex m (resources_update (\<lambda>n. n - 1)) s)"
proof -
  obtain s1 where "lock_mutex m s = Some (sstatus (mask_of s), s1)"
    "mutexes s1 m = (mutexes s m)\<lparr>m_lock := lock_taken (m_lock (mutexes s m))\<rparr>"
    "unlock_mutex m (sstatus (mask_of s)) (upd_mutex m (resources_update (\<lambda>n. n - 1)) s1) =
       Some (upd_mutex m (resources_update (\<lambda>n. n - 1)) s)"
    using mutex_section [OF assms(1), of "resources_update (\<lambda>n. n - 1)"] by auto
  with assms(2) show ?thesis
    by (simp add: mutex_lock_def mutex_lock_attempt_def lock_mutex_common_def)
qed

lemma unlock_free_stops: "lock_free l \<Longrightarrow> lock_type l = SPINLOCK_TYPE_NORMAL \<Longrightarrow> spinlock_unlock l = None"
  by (simp add: spinlock_unlock_def spinlock_raw_unlock_def lock_free_def SPINLOCK_TYPE_NORMAL_def SPINLOCK_TYPE_RECURSIVE_def)

text \<open>
  The entry of a thread that waits is initialised under the lock of the thread that the entry names
  before it is initialised. If that is not the current thread, the lock given back was never taken.
\<close>

lemma init_wque_entry_stops:
  assumes "w_thr (ents s e) \<noteq> current (krn s)" and "lock_free (t_lock (threads (krn s) (current (krn s))))"
    and "lock_type (t_lock (threads (krn s) (current (krn s)))) = SPINLOCK_TYPE_NORMAL"
    and "0 <s t_refs (threads (krn s) (current (krn s)))" and "lock_free (thrdb_lock (krn s))"
  shows "wque_init_wque_entry last_ref e s = None"
proof (cases "lock_thread_disable_intr (w_thr (ents s e)) (krn s)")
  case None
  then show ?thesis by (simp add: wque_init_wque_entry_def)
next
  case (Some fk)
  obtain f k1 where fk: "fk = (f, k1)" by (cases fk)
  let ?cur = "current (krn s)"
  have k1: "current k1 = ?cur" "threads k1 ?cur = threads (krn s) ?cur" "thrdb_lock k1 = thrdb_lock (krn s)"
    using Some fk assms(1) by (auto simp: lock_thread_disable_intr_def split: bind_splits)
  have init: "init_wque_entry_nolock last_ref e (s\<lparr>krn := k1\<rparr>) = Some s2 \<Longrightarrow>
      w_thr (ents s2 e) = ?cur \<and> t_lock (threads (krn s2) ?cur) = t_lock (threads (krn s) ?cur)" for s2
    using ref_steps(1) [of k1 ?cur] k1 assms
    by (auto simp: init_wque_entry_nolock_def Let_def ti_get_current_thread_def upd_ent_def ref_steps(2) [of k1]
        split: bind_splits)
  show ?thesis
    using Some fk init unlock_free_stops [OF assms(2,3)]
    by (auto simp: wque_init_wque_entry_def unlock_thread_restore_intr_def spinlock_unlock_restore_intr_def
        split: bind_splits)
qed


text \<open>A thread that finds a mutex taken stops the kernel, unless its entry names it already.\<close>

lemma mutex_lock_stops:
  assumes "lock_free (m_lock (mutexes s m))" and "resources (mutexes s m) = 0"
    and "w_thr (ents s e) \<noteq> current (krn s)" and "lock_free (t_lock (threads (krn s) (current (krn s))))"
    and "lock_type (t_lock (threads (krn s) (current (krn s)))) = SPINLOCK_TYPE_NORMAL"
    and "0 <s t_refs (threads (krn s) (current (krn s)))" and "lock_free (thrdb_lock (krn s))"
  shows "mutex_lock last_ref m e s = None"
proof -
  define s1 where "s1 = put_mask (rv64_cpu_disable_interrupt (mask_of s))
    (upd_mutex m (m_lock_update (\<lambda>_. lock_taken (m_lock (mutexes s m)))) s)"
  have "lock_mutex m s = Some (sstatus (mask_of s), s1)"
    using mtx.enter_free [OF assms(1)] by (simp add: s1_def)
  moreover have "mutexes s1 m = (mutexes s m)\<lparr>m_lock := lock_taken (m_lock (mutexes s m))\<rparr>"
    by (simp add: s1_def put_mask_def)
  moreover have "wque_init_wque_entry last_ref e s1 = None"
    by (rule init_wque_entry_stops) (use assms in \<open>simp_all add: s1_def put_mask_def\<close>)
  ultimately show ?thesis
    using assms(2)
    by (simp add: mutex_lock_def mutex_lock_attempt_def lock_mutex_common_def wque_wait_on_queue_with_spinlock_sleep_def)
qed

lemma after_wakeup_upd [simp]:
  "mutexes (after_wakeup es r h b wl s) = mutexes s" "mask_of (after_wakeup es r h b wl s) = mask_of s"
  "wqs (after_wakeup es r h b wl s) = wqs s"
  by (simp_all add: after_wakeup_def mask_of_def)

lemma mutex_unlock_run:
  assumes ok: "sync_ok q rd m s" and free: "lock_free (m_lock (mutexes s m))"
  shows "\<exists>h b wl. let es = to_wake (wqflag (wqs s m)) (q m);
      s' = after_wakeup es WQUE_RELEASED h b wl (upd_mutex m (\<lambda>x. x\<lparr>resources := resources x + 1, m_owner := None\<rparr>) s) in
    mutex_unlock last_ref m s = Some s' \<and> wq_inv (q(m := to_leave (wqflag (wqs s m)) (q m))) s' \<and>
    rq_inv (fold (add_ready (krn s)) (map (\<lambda>e. w_thr (ents s e)) es) rd) (krn s')"
proof -
  let ?es = "to_wake (wqflag (wqs s m)) (q m)" and ?l = "lock_taken (m_lock (mutexes s m))"
    and ?c = "rv64_cpu_disable_interrupt (mask_of s)"
  let ?put = "\<lambda>s. put_mask ?c (upd_mutex m (m_lock_update (\<lambda>_. ?l)) s)"
  let ?rel = "upd_mutex m (\<lambda>x. x\<lparr>resources := resources x + 1, m_owner := None\<rparr>)"
  have enter: "lock_mutex m s = Some (sstatus (mask_of s), ?put s)"
    using mtx.enter_free [OF free] .
  have "sync_ok q rd m (?rel (?put s))"
    using ok by (simp add: sync_ok_def wq_inv_def wake_locks_free_def put_mask_def)
  then obtain h b wl where wake: "wque_wakeup last_ref m WQUE_RELEASED (?rel (?put s)) =
        Some (after_wakeup ?es WQUE_RELEASED h b wl (?rel (?put s)))"
    and inv: "wq_inv (q(m := to_leave (wqflag (wqs s m)) (q m))) (after_wakeup ?es WQUE_RELEASED h b wl (?rel s))"
      "rq_inv (fold (add_ready (krn s)) (map (\<lambda>e. w_thr (ents s e)) ?es) rd)
        (krn (after_wakeup ?es WQUE_RELEASED h b wl (?rel s)))"
    using wakeup_run [of q rd m "?rel (?put s)" WQUE_RELEASED last_ref]
    by (auto simp: Let_def put_mask_def after_wakeup_def wq_inv_def rq_inv_def)
  let ?s' = "after_wakeup ?es WQUE_RELEASED h b wl (?rel s)"
  have "after_wakeup ?es WQUE_RELEASED h b wl (?rel (?put s)) = ?put ?s'"
    by (rule sync.equality) (auto simp: after_wakeup_def put_mask_def upd_mutex_def)
  then have "mutex_unlock last_ref m s = Some ?s'"
    using wake mtx.leave_entered [of s m ?s'] free by (simp add: mutex_unlock_def enter)
  then show ?thesis
    using inv unfolding Let_def by blast
qed


section \<open>Sleeping on a mutex\<close>

text \<open>The thread that runs waits on entry \<open>e\<close> at the end of wait queue \<open>w\<close>.\<close>

definition waiting_on :: "nat \<Rightarrow> nat \<Rightarrow> sync \<Rightarrow> sync" where
  "waiting_on w e s =
     s\<lparr>krn := upd_thread (current (krn s)) (t_state_update (\<lambda>_. THR_TSTATE_WAIT)) (krn s),
       wlinks := queue_add (WqHead w) (WqEnt e) (list_init (WqEnt e) (wlinks s)),
       ents := (ents s)(e := \<lparr>w_thr = current (krn s), w_reason = WQUE_WAIT\<rparr>)\<rparr>"

lemma init_wque_entry_run:
  assumes me: "w_thr (ents s e) = current (krn s)"
    and free: "lock_free (t_lock (threads (krn s) (current (krn s))))" "lock_free (thrdb_lock (krn s))"
    and refs: "0 <s t_refs (threads (krn s) (current (krn s)))"
  shows "wque_init_wque_entry last_ref e s =
    Some (s\<lparr>krn := upd_thread (current (krn s)) (t_state_update (\<lambda>_. THR_TSTATE_WAIT)) (krn s),
      wlinks := list_init (WqEnt e) (wlinks s),
      ents := (ents s)(e := \<lparr>w_thr = current (krn s), w_reason = WQUE_WAIT\<rparr>)\<rparr>)"
proof -
  let ?k = "krn s" and ?t = "current (krn s)"
  let ?n = "t_refs (threads ?k ?t)"
  define k1 where "k1 = (upd_thread ?t (t_lock_update lock_taken) ?k)\<lparr>imask := rv64_cpu_disable_interrupt (imask ?k)\<rparr>"
  define k4 where "k4 = upd_thread ?t (\<lambda>th. th\<lparr>t_refs := t_refs th + 1, t_state := THR_TSTATE_WAIT\<rparr>) k1"
  define k5 where "k5 = upd_thread ?t (t_state_update (\<lambda>_. THR_TSTATE_WAIT)) k1"
  have lock: "lock_thread_disable_intr ?t ?k = Some (sstatus (imask ?k), k1)"
    using lock_thread_free [OF free(1)] by (simp add: k1_def)
  have k1: "current k1 = ?t" "t_refs (threads k1 ?t) = ?n" "lock_free (thrdb_lock k1)"
    using free by (simp_all add: k1_def)
  have inc: "thr_ref_inc ?t k1 = Some (True, upd_thread ?t (t_refs_update (\<lambda>n. n + 1)) k1)"
    using ref_steps(1) [of k1 ?t] refs k1 by simp
  have both: "upd_thread ?t (t_state_update (\<lambda>_. THR_TSTATE_WAIT)) (upd_thread ?t (t_refs_update (\<lambda>n. n + 1)) k1) = k4"
    by (rule sched.equality) (auto simp: k4_def upd_thread_def intro!: ext thread.equality)
  have dec: "thr_ref_dec last_ref ?t k4 = Some (False, k5)"
  proof -
    have "thr_ref_dec last_ref ?t k4 = Some (False, upd_thread ?t (t_refs_update (\<lambda>_. t_refs (threads k1 ?t))) k4)"
      by (rule ref_steps(2)) (use refs k1 in \<open>simp_all add: k4_def\<close>)
    moreover have "upd_thread ?t (t_refs_update (\<lambda>_. t_refs (threads k1 ?t))) k4 = k5"
      by (rule sched.equality) (auto simp: k4_def k5_def upd_thread_def intro!: ext thread.equality)
    ultimately show ?thesis by simp
  qed
  have unlock: "unlock_thread_restore_intr ?t (sstatus (imask ?k)) k5 =
      Some (upd_thread ?t (t_state_update (\<lambda>_. THR_TSTATE_WAIT)) ?k)"
  proof -
    have "k5 = (upd_thread ?t (t_lock_update (\<lambda>_. lock_taken (t_lock (threads ?k ?t))))
        (upd_thread ?t (t_state_update (\<lambda>_. THR_TSTATE_WAIT)) ?k))\<lparr>imask := rv64_cpu_disable_interrupt (imask ?k)\<rparr>"
      by (rule sched.equality) (auto simp: k1_def k5_def upd_thread_def intro!: ext thread.equality)
    then show ?thesis
      using thread_lock.leave_entered [of ?k ?t "upd_thread ?t (t_state_update (\<lambda>_. THR_TSTATE_WAIT)) ?k"] free(1) by simp
  qed
  show ?thesis
    unfolding wque_init_wque_entry_def init_wque_entry_nolock_def Let_def
    using lock inc dec unlock both k1 me
    by (simp add: ti_get_current_thread_def upd_ent_def) (auto intro!: sync.equality)
qed

lemma enque_run:
  assumes "lock_free (wq_lock (wqs s w))"
  shows "enque_wque_entry w e s =
    Some (s\<lparr>wlinks := queue_add (WqHead w) (WqEnt e) (wlinks s), ents := (ents s)(e := (ents s e)\<lparr>w_reason := WQUE_WAIT\<rparr>)\<rparr>)"
proof -
  let ?l = "lock_taken (wq_lock (wqs s w))" and ?c = "rv64_cpu_disable_interrupt (mask_of s)"
  let ?put = "\<lambda>s. put_mask ?c (s\<lparr>wqs := (wqs s)(w := (wqs s w)\<lparr>wq_lock := ?l\<rparr>)\<rparr>)"
  define s' where "s' = s\<lparr>wlinks := queue_add (WqHead w) (WqEnt e) (wlinks s), ents := (ents s)(e := (ents s e)\<lparr>w_reason := WQUE_WAIT\<rparr>)\<rparr>"
  have enter: "lock_wq w s = Some (sstatus (mask_of s), ?put s)" by (rule wq.enter_free [OF assms])
  have "(upd_ent e (w_reason_update (\<lambda>_. WQUE_WAIT)) (?put s))\<lparr>wlinks := queue_add (WqHead w) (WqEnt e) (wlinks s)\<rparr> = ?put s'"
    by (rule sync.equality) (auto simp: s'_def upd_ent_def put_mask_def)
  moreover have "wlinks (upd_ent e (w_reason_update (\<lambda>_. WQUE_WAIT)) (?put s)) = wlinks s"
    by (simp add: upd_ent_def put_mask_def)
  moreover have "unlock_wq w (sstatus (mask_of s)) (?put s') = Some s'"
    by (rule wq.leave_entered [OF assms]) (simp_all add: s'_def mask_of_def)
  ultimately show ?thesis unfolding s'_def [symmetric] by (simp add: enque_wque_entry_def enter)
qed

text \<open>A thread that finds the mutex taken and whose entry names it sleeps.\<close>

lemma mutex_sleep_run:
  assumes l: "lock_free l" and m: "m_lock (mutexes s m) = lock_taken l" and none: "resources (mutexes s m) = 0"
    and me: "w_thr (ents s e) = current (krn s)" and free: "wake_locks_free m s"
    and refs: "0 <s t_refs (threads (krn s) (current (krn s)))"
  defines "s1 \<equiv> waiting_on m e (upd_mutex m (m_lock_update (\<lambda>_. l)) s)"
  shows "mutex_lock_attempt last_ref m e f s =
    map_option (\<lambda>k. (Asleep f, s1\<lparr>krn := k\<rparr>)) (sched_schedule last_ref (krn s1))"
proof -
  note free' = free [unfolded wake_locks_free_def]
  have unlock: "spinlock_unlock (lock_taken l) = Some l" using l by (simp add: spinlock_unlock_def)
  have "lock_mutex_common m s = Some (Inl EAGAIN, s)"
    using l m none by (simp add: lock_mutex_common_def)
  moreover obtain s2 where s2: "wque_init_wque_entry last_ref e s = Some s2" "enque_wque_entry m e s2 = Some (waiting_on m e s)"
  proof -
    let ?s2 = "s\<lparr>krn := upd_thread (current (krn s)) (t_state_update (\<lambda>_. THR_TSTATE_WAIT)) (krn s),
      wlinks := list_init (WqEnt e) (wlinks s), ents := (ents s)(e := \<lparr>w_thr = current (krn s), w_reason = WQUE_WAIT\<rparr>)\<rparr>"
    have "wque_init_wque_entry last_ref e s = Some ?s2"
      by (rule init_wque_entry_run) (use me free' refs in simp_all)
    moreover have "enque_wque_entry m e ?s2 = Some (waiting_on m e s)"
      using enque_run [of ?s2 m e] free' by (simp add: waiting_on_def)
    ultimately show thesis by (rule that)
  qed
  moreover have "mutex_spin_unlock m (waiting_on m e s) = Some s1"
  proof -
    have "mutexes (waiting_on m e s) = mutexes s" by (simp add: waiting_on_def)
    moreover have "upd_mutex m (m_lock_update (\<lambda>_. l)) (waiting_on m e s) = s1"
      by (rule sync.equality) (simp_all add: s1_def waiting_on_def upd_mutex_def)
    ultimately show ?thesis using m unlock by (simp add: mutex_spin_unlock_def)
  qed
  ultimately show ?thesis
    by (cases "sched_schedule last_ref (krn s1)")
      (simp_all add: mutex_lock_attempt_def wque_wait_on_queue_with_spinlock_sleep_def on_krn_def)
qed

lemma waiting_on_inv:
  assumes inv: "wq_inv q s" and new: "\<forall>v. e \<notin> set (q v)"
  shows "wq_inv (q(w := q w @ [e])) (waiting_on w e s)"
proof -
  note wf = inv [unfolded wq_inv_def]
  have same: "list_init (WqEnt e) (wlinks s) = wlinks s"
  proof -
    have "list_not_linked (WqEnt e) (wlinks s)"
      by (rule wf_queues_unlinked [OF wf]) (use new in \<open>auto simp: wq_queues_def\<close>)
    then show ?thesis
      by (auto simp: list_init_def set_prev_def set_next_def list_not_linked_def fun_eq_iff intro!: lnode.equality)
  qed
  have "wf_queues (range WqHead) (range WqEnt) ((wq_queues q)(WqHead w := wq_queues q (WqHead w) @ [WqEnt e]))
      (queue_add (WqHead w) (WqEnt e) (wlinks s))"
    by (rule kq.add [OF wf]) (use new in \<open>auto simp: wq_queues_def\<close>)
  then show ?thesis by (simp add: wq_inv_def waiting_on_def same)
qed

lemma waiting_on_sched:
  assumes "sched_ok rd (krn s)"
  shows "sched_ok rd (krn (waiting_on w e s))"
proof -
  have "current (krn s) \<notin> in_ready rd" using assms by (simp add: sched_ok_def)
  then have "rq_inv rd (krn (waiting_on w e s))"
    using assms by (simp add: waiting_on_def rq_inv_upd_thread sched_ok_def)
  then show ?thesis using assms by (auto simp: sched_ok_def waiting_on_def)
qed

text \<open>What \<open>mutex_lock\<close> comes to on a mutex that is taken, \<open>f\<close> being the interrupt state it will restore.\<close>

definition sleep_outcome :: "last_ref_fn \<Rightarrow> nat \<Rightarrow> nat \<Rightarrow> intrflags \<Rightarrow> sync \<Rightarrow> (lock_outcome \<times> sync) option" where
  "sleep_outcome last_ref m e f s =
     (if w_thr (ents s e) \<noteq> current (krn s) then None
      else map_option (\<lambda>k. (Asleep f, (waiting_on m e s)\<lparr>krn := k\<rparr>)) (sched_schedule last_ref (krn (waiting_on m e s))))"

text \<open>A round of \<open>mutex_lock\<close>, entered with the lock of the mutex held.\<close>

lemma mutex_attempt_run:
  assumes free: "wake_locks_free m s" "lock_free (m_lock (mutexes s m))"
    and me: "0 <s t_refs (threads (krn s) (current (krn s)))"
      "lock_type (t_lock (threads (krn s) (current (krn s)))) = SPINLOCK_TYPE_NORMAL"
  shows "mutex_lock_attempt last_ref m e f (upd_mutex m (m_lock_update (\<lambda>_. lock_taken (m_lock (mutexes s m)))) s) =
    (if resources (mutexes s m) \<noteq> 0
     then Some (Returned (Inr ()), put_mask (rv64_cpu_restore_flags f (mask_of s)) (upd_mutex m (resources_update (\<lambda>n. n - 1)) s))
     else sleep_outcome last_ref m e f s)"
proof -
  let ?l = "m_lock (mutexes s m)"
  let ?s = "upd_mutex m (m_lock_update (\<lambda>_. lock_taken ?l)) s"
  have undo: "upd_mutex m (m_lock_update (\<lambda>_. ?l)) ?s = s"
    by (rule sync.equality) (auto simp: upd_mutex_def intro!: ext mutex.equality)
  consider "resources (mutexes s m) \<noteq> 0" | "resources (mutexes s m) = 0" "w_thr (ents s e) \<noteq> current (krn s)"
    | "resources (mutexes s m) = 0" "w_thr (ents s e) = current (krn s)" by blast
  then show ?thesis
  proof cases
    case 1
    let ?d = "upd_mutex m (resources_update (\<lambda>n. n - 1))"
    have eq: "put_mask (mask_of s) (upd_mutex m (m_lock_update (\<lambda>_. lock_taken ?l)) (?d s)) = ?d ?s"
      by (rule sync.equality) (auto simp: upd_mutex_def put_mask_def mask_of_def intro!: ext mutex.equality)
    have "unlock_mutex m f (?d ?s) = Some (put_mask (rv64_cpu_restore_flags f (mask_of s)) (upd_mutex m (m_lock_update (\<lambda>_. ?l)) (?d s)))"
      unfolding eq [symmetric] by (rule mtx.leave_taken [OF free(2)])
    moreover have "upd_mutex m (m_lock_update (\<lambda>_. ?l)) (?d (put_mask c s)) = ?d (put_mask c s)" for c
      by (rule sync.equality) (auto simp: upd_mutex_def put_mask_def intro!: ext mutex.equality)
    ultimately show ?thesis
      using 1 by (simp add: mutex_lock_attempt_def lock_mutex_common_def)
  next
    case 2
    have "wque_init_wque_entry last_ref e ?s = None"
      by (rule init_wque_entry_stops) (use 2 free me in \<open>simp_all add: wake_locks_free_def\<close>)
    then show ?thesis
      using 2 by (simp add: mutex_lock_attempt_def lock_mutex_common_def wque_wait_on_queue_with_spinlock_sleep_def sleep_outcome_def)
  next
    case 3
    have "mutex_lock_attempt last_ref m e f ?s =
        map_option (\<lambda>k. (Asleep f, (waiting_on m e (upd_mutex m (m_lock_update (\<lambda>_. ?l)) ?s))\<lparr>krn := k\<rparr>))
          (sched_schedule last_ref (krn (waiting_on m e (upd_mutex m (m_lock_update (\<lambda>_. ?l)) ?s))))"
      by (rule mutex_sleep_run [OF free(2)]) (use 3 free(1) me in \<open>simp_all add: wake_locks_free_def\<close>)
    then show ?thesis using 3 unfolding undo by (simp add: sleep_outcome_def)
  qed
qed

lemma mutex_lock_run:
  assumes free: "wake_locks_free m s" "lock_free (m_lock (mutexes s m))"
    and me: "0 <s t_refs (threads (krn s) (current (krn s)))"
      "lock_type (t_lock (threads (krn s) (current (krn s)))) = SPINLOCK_TYPE_NORMAL"
  shows "mutex_lock last_ref m e s =
    (if resources (mutexes s m) \<noteq> 0 then Some (Returned (Inr ()), upd_mutex m (resources_update (\<lambda>n. n - 1)) s)
     else sleep_outcome last_ref m e (sstatus (mask_of s)) (put_mask (rv64_cpu_disable_interrupt (mask_of s)) s))"
proof (cases "resources (mutexes s m) = 0")
  case True
  let ?s = "put_mask (rv64_cpu_disable_interrupt (mask_of s)) s"
  have s: "mutexes ?s = mutexes s" "wake_locks_free m ?s" "threads (krn ?s) = threads (krn s)" "current (krn ?s) = current (krn s)"
    using free(1) by (simp_all add: put_mask_def wake_locks_free_def)
  have "lock_mutex m s = Some (sstatus (mask_of s), upd_mutex m (m_lock_update (\<lambda>_. lock_taken (m_lock (mutexes s m)))) ?s)"
    using mtx.enter_free [OF free(2)] by simp
  then show ?thesis
    using mutex_attempt_run [OF s(2), of last_ref e "sstatus (mask_of s)"] free(2) me True s by (simp add: mutex_lock_def)
qed (use mutex_lock_free_run [OF free(2)] in simp)

lemma mutex_lock_woken_run:
  assumes free: "wake_locks_free m s" "lock_free (m_lock (mutexes s m))"
    and me: "0 <s t_refs (threads (krn s) (current (krn s)))"
      "lock_type (t_lock (threads (krn s) (current (krn s)))) = SPINLOCK_TYPE_NORMAL"
  shows "mutex_lock_woken last_ref m e f s =
    (case w_reason (ents s e) of
       WQUE_DESTROYED \<Rightarrow> Some (Returned (Inl ENODEV), put_mask (rv64_cpu_restore_flags f (mask_of s)) s)
     | WQUE_DELIVEV \<Rightarrow> Some (Returned (Inl EINTR), put_mask (rv64_cpu_restore_flags f (mask_of s)) s)
     | WQUE_RELEASED \<Rightarrow>
         if resources (mutexes s m) \<noteq> 0
         then Some (Returned (Inr ()), put_mask (rv64_cpu_restore_flags f (mask_of s)) (upd_mutex m (resources_update (\<lambda>n. n - 1)) s))
         else sleep_outcome last_ref m e f s
     | _ \<Rightarrow> None)"
proof -
  let ?l = "m_lock (mutexes s m)"
  let ?s = "upd_mutex m (m_lock_update (\<lambda>_. lock_taken ?l)) s"
  have lock: "mutex_spin_lock m s = Some ?s" using free(2) by (simp add: mutex_spin_lock_def spinlock_lock_def)
  have eq: "put_mask (mask_of s) ?s = ?s" by (rule sync.equality) (simp_all add: put_mask_def mask_of_def)
  have "unlock_mutex m f (put_mask (mask_of s) ?s) = Some (put_mask (rv64_cpu_restore_flags f (mask_of s)) (upd_mutex m (m_lock_update (\<lambda>_. ?l)) s))"
    by (rule mtx.leave_taken [OF free(2)])
  then have "unlock_mutex m f ?s = Some (put_mask (rv64_cpu_restore_flags f (mask_of s)) (upd_mutex m (m_lock_update (\<lambda>_. ?l)) s))"
    by (simp only: eq)
  moreover have "upd_mutex m (m_lock_update (\<lambda>_. ?l)) (put_mask c s) = put_mask c s" for c
    by (rule sync.equality) (auto simp: upd_mutex_def put_mask_def intro!: ext mutex.equality)
  ultimately show ?thesis
    using lock mutex_attempt_run [OF free me]
    by (simp add: mutex_lock_woken_def wque_wait_on_queue_with_spinlock_woken_def split: wque_reason.split)
qed

section \<open>A sample\<close>

text \<open>Threads 1 and 2 wait, in this order, for mutex 0, which thread 0 has.\<close>

definition sample_sync :: sync where
  "sample_sync = \<lparr>
     krn = sample_sched\<lparr>threads := \<lambda>t. if t = 0 then sample_thread else sample_thread\<lparr>t_state := THR_TSTATE_WAIT\<rparr>\<rparr>,
     wqs = \<lambda>_. \<lparr>wq_lock = spinlock_init, wqflag = WQUE_WAKEFLAG_ALL\<rparr>,
     wlinks = queue_add (WqHead 0) (WqEnt 1) (queue_add (WqHead 0) (WqEnt 0) (\<lambda>n. \<lparr>lprev = n, lnext = n\<rparr>)),
     ents = \<lambda>e. \<lparr>w_thr = e + 1, w_reason = WQUE_WAIT\<rparr>,
     mutexes = \<lambda>_. \<lparr>m_lock = spinlock_init, m_owner = None, resources = 0\<rparr>\<rparr>"

definition sample_waiting :: "nat \<Rightarrow> nat list" where
  "sample_waiting = (\<lambda>_. [])(0 := [0, 1])"

lemma sample_wq: "wq_inv sample_waiting sample_sync"
proof -
  have "wf_queues (range WqHead) (range WqEnt) (wq_queues (\<lambda>_. [])) (\<lambda>n. \<lparr>lprev = n, lnext = n\<rparr>)"
    by (auto simp: wf_queues_def wq_queues_def list_not_linked_def split: wque_node.splits)
  then have "wf_queues (range WqHead) (range WqEnt) ((wq_queues (\<lambda>_. []))(WqHead 0 := [WqEnt 0]))
      (queue_add (WqHead 0) (WqEnt 0) (\<lambda>n. \<lparr>lprev = n, lnext = n\<rparr>))"
    using kq.add [of "range WqHead" "range WqEnt" "wq_queues (\<lambda>_. [])" "\<lambda>n. \<lparr>lprev = n, lnext = n\<rparr>" "WqHead 0" "WqEnt 0"]
    by auto
  then have "wf_queues (range WqHead) (range WqEnt) ((wq_queues (\<lambda>_. []))(WqHead 0 := [WqEnt 0, WqEnt 1])) (wlinks sample_sync)"
    using kq.add [of "range WqHead" "range WqEnt" "(wq_queues (\<lambda>_. []))(WqHead 0 := [WqEnt 0])" _ "WqHead 0" "WqEnt 1"]
    by (auto simp: sample_sync_def)
  then show ?thesis
    by (simp add: wq_inv_def sample_waiting_def)
qed

lemma sample_sync_ok: "sync_ok sample_waiting (\<lambda>_. []) 0 sample_sync"
  unfolding sync_ok_def
proof (intro conjI)
  show "rq_inv (\<lambda>_. []) (krn sample_sync)"
    using sample_sched_inv by (simp add: rq_inv_def sample_sync_def)
  show "wake_locks_free 0 sample_sync"
    by (simp add: wake_locks_free_def sample_sync_def sample_sched_def sample_thread_def)
  show "sleepers_ok (\<lambda>_. []) (map (\<lambda>e. w_thr (ents sample_sync e)) (sample_waiting 0)) (krn sample_sync)"
    by (simp add: sleepers_ok_def sample_waiting_def sample_sync_def in_ready_def can_wake_def sample_thread_def
        SCHED_PRIO_NR_def word_sless_alt)
qed (rule sample_wq)

section \<open>Properties\<close>

text \<open>
  C31. \<open>wque_wakeup\<close> on a wait queue whose sleepers can be woken returns. The entries it wakes, all of
  the queue or the first one, have left the queue, in the order of the queue their threads have joined
  the ready queue, each with its own priority, and they alone have been told the reason and become
  runnable. The running thread is asked to dispatch exactly if it slept itself or some woken thread
  belongs to its processor; locks and interrupt mask are as before.
\<close>

theorem wakeup_moves_sleepers:
  assumes "sync_ok q rd w s"
  shows "\<exists>s'. let es = to_wake (wqflag (wqs s w)) (q w); ts = map (\<lambda>e. w_thr (ents s e)) es; k = krn s; k' = krn s' in
    wque_wakeup last_ref w r s = Some s' \<and>
    wq_inv (q(w := to_leave (wqflag (wqs s w)) (q w))) s' \<and> rq_inv (fold (add_ready k) ts rd) k' \<and>
    (\<forall>e. w_reason (ents s' e) = (if e \<in> set es then r else w_reason (ents s e)) \<and> w_thr (ents s' e) = w_thr (ents s e)) \<and>
    (\<forall>t. t_state (threads k' t) = (if t \<in> set ts then THR_TSTATE_RUNABLE else t_state (threads k t)) \<and>
      t_refs (threads k' t) = t_refs (threads k t) \<and> t_lock (threads k' t) = t_lock (threads k t) \<and>
      flags (tinfo (threads k' t)) =
        (if t = current k \<and> (\<exists>u\<in>set ts. ti_cpu (tinfo (threads k u)) = this_cpu k)
         then flags (tinfo (threads k t)) OR TI_DISPATCH_DELAYED else flags (tinfo (threads k t)))) \<and>
    wqs s' = wqs s \<and> mutexes s' = mutexes s \<and> current k' = current k \<and> rq_lock k' = rq_lock k \<and>
    thrdb_lock k' = thrdb_lock k \<and> mask_of s' = mask_of s"
proof -
  obtain h b wl where run: "let es = to_wake (wqflag (wqs s w)) (q w); s' = after_wakeup es r h b wl s in
      wque_wakeup last_ref w r s = Some s' \<and> wq_inv (q(w := to_leave (wqflag (wqs s w)) (q w))) s' \<and>
      rq_inv (fold (add_ready (krn s)) (map (\<lambda>e. w_thr (ents s e)) es) rd) (krn s')"
    using wakeup_run [OF assms] by blast
  show ?thesis
    by (rule exI [of _ "after_wakeup (to_wake (wqflag (wqs s w)) (q w)) r h b wl s"])
      (use run in \<open>simp add: Let_def, auto simp: after_wakeup_def with_reason_def woken_def\<close>)
qed

theorem wakeup_moves_sleepers_witness:
  "\<exists>s'. wque_wakeup (\<lambda>_ _ _. None) 0 WQUE_RELEASED sample_sync = Some s' \<and>
     rq_inv ((\<lambda>_. [])(cur_prio sample_thread := [1, 2])) (krn s') \<and> w_reason (ents s' 1) = WQUE_RELEASED"
proof -
  have "to_wake (wqflag (wqs sample_sync 0)) (sample_waiting 0) = [0, 1]"
    by (simp add: to_wake_def sample_sync_def sample_waiting_def)
  moreover have "map (\<lambda>e. w_thr (ents sample_sync e)) [0, 1] = [1, 2]"
    by (simp add: sample_sync_def)
  moreover have "fold (add_ready (krn sample_sync)) [1, 2] (\<lambda>_. []) = (\<lambda>_. [])(cur_prio sample_thread := [1, 2])"
    by (rule ext) (simp add: add_ready_def sample_sync_def)
  ultimately show ?thesis
    using wakeup_moves_sleepers [OF sample_sync_ok, of "\<lambda>_ _ _. None" WQUE_RELEASED]
    unfolding Let_def by auto
qed

text \<open>
  C32. The operations of a mutex whose lock is free. On a mutex that is not taken \<open>mutex_try_lock\<close> and
  \<open>mutex_lock\<close> take one resource, whoever calls. On one that is taken \<open>mutex_try_lock\<close> is \<open>EAGAIN\<close> and
  changes nothing; \<open>mutex_lock\<close> stops the kernel if the memory of the entry on its stack names another
  thread than the caller, and otherwise sleeps: the entry is at the end of the wait queue of the
  mutex with the reason \<open>WQUE_WAIT\<close>, the caller has the state \<open>THR_TSTATE_WAIT\<close>, no lock is held,
  interrupts are disabled, and the scheduler is called. A sleeper that runs again returns \<open>ENODEV\<close> or \<open>EINTR\<close> when the reason is
  that the mutex was destroyed or that an event came, takes the mutex or sleeps again when it was
  released, in each case of a return with the interrupt state \<open>f\<close> it had at its call, and stops the kernel for every other
  reason. \<open>mutex_unlock\<close> adds a resource whether the mutex was taken or not, and makes the
  sleepers it wakes runnable, for the reason \<open>WQUE_RELEASED\<close>.
\<close>

theorem mutex_operations:
  assumes ok: "sync_ok q rd m s" and free: "lock_free (m_lock (mutexes s m))"
    and me: "0 <s t_refs (threads (krn s) (current (krn s)))"
      "lock_type (t_lock (threads (krn s) (current (krn s)))) = SPINLOCK_TYPE_NORMAL"
  shows "mutex_try_lock m s = (if resources (mutexes s m) \<noteq> 0
      then Some (Inr (), upd_mutex m (resources_update (\<lambda>n. n - 1)) s) else Some (Inl EAGAIN, s)) \<and>
    mutex_lock last_ref m e s = (if resources (mutexes s m) \<noteq> 0
      then Some (Returned (Inr ()), upd_mutex m (resources_update (\<lambda>n. n - 1)) s)
      else sleep_outcome last_ref m e (sstatus (mask_of s)) (put_mask (rv64_cpu_disable_interrupt (mask_of s)) s)) \<and>
    mutex_lock_woken last_ref m e f s =
      (case w_reason (ents s e) of
         WQUE_DESTROYED \<Rightarrow> Some (Returned (Inl ENODEV), put_mask (rv64_cpu_restore_flags f (mask_of s)) s)
       | WQUE_DELIVEV \<Rightarrow> Some (Returned (Inl EINTR), put_mask (rv64_cpu_restore_flags f (mask_of s)) s)
       | WQUE_RELEASED \<Rightarrow>
           if resources (mutexes s m) \<noteq> 0
           then Some (Returned (Inr ()), put_mask (rv64_cpu_restore_flags f (mask_of s)) (upd_mutex m (resources_update (\<lambda>n. n - 1)) s))
           else sleep_outcome last_ref m e f s
       | _ \<Rightarrow> None) \<and>
    ((\<forall>v. e \<notin> set (q v)) \<longrightarrow> wq_inv (q(m := q m @ [e])) (waiting_on m e s)) \<and>
    (sched_ok rd (krn s) \<longrightarrow> sched_ok rd (krn (waiting_on m e s))) \<and>
    t_state (threads (krn (waiting_on m e s)) (current (krn s))) = THR_TSTATE_WAIT \<and>
    (\<exists>s'. mutex_unlock last_ref m s = Some s' \<and>
      resources (mutexes s' m) = resources (mutexes s m) + 1 \<and> m_owner (mutexes s' m) = None \<and>
      wq_inv (q(m := to_leave (wqflag (wqs s m)) (q m))) s' \<and>
      (\<forall>e\<in>set (to_wake (wqflag (wqs s m)) (q m)). w_reason (ents s' e) = WQUE_RELEASED \<and>
        t_state (threads (krn s') (w_thr (ents s e))) = THR_TSTATE_RUNABLE))"
proof -
  have locks: "wake_locks_free m s" and wq: "wq_inv q s" using ok by (simp_all add: sync_ok_def)
  have unlock: "\<exists>s'. mutex_unlock last_ref m s = Some s' \<and>
      resources (mutexes s' m) = resources (mutexes s m) + 1 \<and> m_owner (mutexes s' m) = None \<and>
      wq_inv (q(m := to_leave (wqflag (wqs s m)) (q m))) s' \<and>
      (\<forall>e\<in>set (to_wake (wqflag (wqs s m)) (q m)). w_reason (ents s' e) = WQUE_RELEASED \<and>
        t_state (threads (krn s') (w_thr (ents s e))) = THR_TSTATE_RUNABLE)"
    using mutex_unlock_run [OF ok free, of last_ref]
    by (auto simp: Let_def) (auto simp: after_wakeup_def with_reason_def woken_def)
  have wait: "t_state (threads (krn (waiting_on m e s)) (current (krn s))) = THR_TSTATE_WAIT"
    by (simp add: waiting_on_def)
  show ?thesis
    by (intro conjI impI mutex_lock_run [OF locks free me] mutex_lock_woken_run [OF locks free me] wait unlock
        waiting_on_inv [OF wq] waiting_on_sched)
      (simp add: mutex_try_lock_run [OF free])
qed

text \<open>Thread 0 asks for the taken mutex with entries that name another thread, and itself.\<close>

definition sample_self :: sync where
  "sample_self = upd_ent 7 (w_thr_update (\<lambda>_. 0)) sample_sync"

lemma sample_self_ok: "sync_ok sample_waiting (\<lambda>_. []) 0 sample_self"
proof -
  have "wq_inv sample_waiting sample_self"
    using sample_wq by (simp add: wq_inv_def sample_self_def upd_ent_def)
  then show ?thesis
    using sample_sync_ok by (auto simp: sync_ok_def wake_locks_free_def sample_self_def upd_ent_def sample_waiting_def)
qed

lemma sample_self_sched: "sched_ok (\<lambda>_. []) (krn sample_self)"
proof -
  have "rq_inv (\<lambda>_. []) (krn sample_self)" using sample_self_ok by (simp add: sync_ok_def)
  then show ?thesis
    by (simp add: sched_ok_def sample_self_def sample_sync_def upd_ent_def sample_sched_def sample_thread_def in_ready_def
        SCHED_PRIO_NR_def word_sless_alt)
qed

theorem mutex_operations_witness:
  "mutex_lock (\<lambda>_ _ _. None) 0 2 sample_self = None \<and>
   (\<exists>s'. mutex_lock (\<lambda>_ _ _. None) 0 7 sample_self = Some (Asleep 0, s') \<and> current (krn s') = 9 \<and>
     t_state (threads (krn s') 0) = THR_TSTATE_WAIT \<and> wq_inv (sample_waiting(0 := [0, 1, 7])) s') \<and>
   (\<exists>s'. mutex_unlock (\<lambda>_ _ _. None) 0 sample_self = Some s' \<and> resources (mutexes s' 0) = 1)"
proof -
  let ?w = "waiting_on 0 7 sample_self"
  have fields: "current (krn sample_self) = 0" "w_thr (ents sample_self 2) = 3" "w_thr (ents sample_self 7) = 0"
    "resources (mutexes sample_self 0) = 0" "mask_of sample_self = \<lparr>sstatus = 0, sie = 0\<rparr>"
    "lock_free (m_lock (mutexes sample_self 0))" "0 <s t_refs (threads (krn sample_self) (current (krn sample_self)))"
    "lock_type (t_lock (threads (krn sample_self) (current (krn sample_self)))) = SPINLOCK_TYPE_NORMAL"
    by (simp_all add: sample_self_def sample_sync_def upd_ent_def sample_sched_def sample_thread_def mask_of_def
        word_sless_alt spinlock_init_def lock_free_def)
  note ops = mutex_operations [OF sample_self_ok fields(6-8), of "\<lambda>_ _ _. None"]
  have mask: "rv64_cpu_disable_interrupt \<lparr>sstatus = 0, sie = 0\<rparr> = \<lparr>sstatus = 0, sie = 0\<rparr>"
    by (simp add: rv64_cpu_disable_interrupt_def)
  have same: "put_mask \<lparr>sstatus = 0, sie = 0\<rparr> sample_self = sample_self"
    by (rule sync.equality) (simp_all add: put_mask_def sample_self_def sample_sync_def upd_ent_def sample_sched_def)
  have ok: "sched_ok (\<lambda>_. []) (krn ?w)" using ops [of 7] sample_self_sched by blast
  have pick: "rq_pick (\<lambda>_. []) 9 = (9, \<lambda>_. [])"
  proof -
    have "find (\<lambda>p. ([] :: nat list) \<noteq> []) [0..<SCHED_PRIO_NR] = None" by (simp add: find_None_iff)
    then show ?thesis by (simp add: rq_pick_def rq_pop_def)
  qed
  have w: "idle_threads (krn ?w) (this_cpu (krn ?w)) = Some 9" "current (krn ?w) = 0" "t_state (threads (krn ?w) 0) = THR_TSTATE_WAIT"
    "\<not> ti_dispatch_disabled (krn ?w)"
    by (simp_all add: waiting_on_def sample_self_def sample_sync_def upd_ent_def sample_sched_def sample_thread_def
        dispatch_disabled_iff ti_get_current_thread_info_def)
  obtain k where k: "sched_schedule (\<lambda>_ _ _. None) (krn ?w) = Some k" "current k = 9"
    "threads k 0 = (left_behind False (threads (krn ?w) 0))\<lparr>ksp := InSchedule (sstatus (imask (krn ?w)))\<rparr>"
    using schedule_cases [OF ok w(1) pick, of "\<lambda>_ _ _. None"] w(2-4) by auto
  have "wq_inv (sample_waiting(0 := sample_waiting 0 @ [7])) ?w"
    using ops [of 7] by (simp add: sample_waiting_def)
  then have wq: "wq_inv (sample_waiting(0 := [0, 1, 7])) (?w\<lparr>krn := k\<rparr>)"
    by (simp add: sample_waiting_def wq_inv_def)
  have "mutex_lock (\<lambda>_ _ _. None) 0 2 sample_self = None"
    using ops [of 2] fields mask same by (simp add: sleep_outcome_def)
  moreover have "mutex_lock (\<lambda>_ _ _. None) 0 7 sample_self = Some (Asleep 0, ?w\<lparr>krn := k\<rparr>)"
    using ops [of 7] fields mask same k(1) by (simp add: sleep_outcome_def)
  moreover have "t_state (threads k 0) = THR_TSTATE_WAIT" using k(3) w(3) by (simp add: left_behind_def)
  moreover have "\<exists>s'. mutex_unlock (\<lambda>_ _ _. None) 0 sample_self = Some s' \<and> resources (mutexes s' 0) = 1"
    using ops [of 2] fields(4) by auto
  ultimately show ?thesis using k(2) wq by force
qed

end
