(* ===== verification/Threads.thy ===== *)
theory Threads
  imports WqueueLaws
begin

unbundle bit_operations_syntax

text \<open>
  The life of a thread (kern/thr-thread.c): its number, its references, the threads it has made, its
  end and the collection of its resources. The state extends that of the wait queues. A thread is
  the number that stands for its address; the tree of the threads is the map from thread numbers it
  represents, and the queues of the children and of the ended children of a thread are lists. The
  member \<open>link\<close> of a thread is in the ready queue or in the queue \<open>waiters\<close> of its parent,
  \<open>children_link\<close> in the queue \<open>children\<close> of its parent or in none: \<open>list_not_linked\<close> looks there.

  The allocators of the thread structures (\<open>slab_kmem_cache_alloc\<close>) and of the kernel stacks
  (\<open>pgif_get_free_page_cluster\<close>) are arguments, and \<open>'m\<close> is their state.
\<close>

section \<open>State\<close>

type_synonym tid = u64

record family =
  t_id :: tid
  t_flags :: u32
  exitcode :: u64
  parent :: "nat option"
  children :: "nat list"
  waiters :: "nat list"
  pque :: nat
  kstack_top :: u64
  ini_prio :: nat
  base_prio :: nat

record 'm thrdb =
  sn :: sync
  idmap :: "u64 list"
  thrtree :: "tid \<Rightarrow> nat option"
  fam :: "nat \<Rightarrow> family"
  pools :: 'm

record 'm allocators =
  thr_alloc :: "'m \<Rightarrow> nat option \<times> 'm"
  thr_free :: "nat \<Rightarrow> 'm \<Rightarrow> 'm"
  stk_alloc :: "'m \<Rightarrow> u64 option \<times> 'm"
  stk_free :: "u64 \<Rightarrow> 'm \<Rightarrow> 'm"

definition SCHED_PRIO_PER_POLICY :: nat where "SCHED_PRIO_PER_POLICY = 64"
definition SCHED_MAX_ITHR_PRIO :: nat where "SCHED_MAX_ITHR_PRIO = 0"
definition SCHED_MIN_ITHR_PRIO :: nat where "SCHED_MIN_ITHR_PRIO = SCHED_MAX_ITHR_PRIO + SCHED_PRIO_PER_POLICY - 1"
definition SCHED_MAX_SYS_PRIO :: nat where "SCHED_MAX_SYS_PRIO = SCHED_MIN_ITHR_PRIO + 1"
definition SCHED_MIN_SYS_PRIO :: nat where "SCHED_MIN_SYS_PRIO = SCHED_MAX_SYS_PRIO + SCHED_PRIO_PER_POLICY - 1"
definition SCHED_MAX_FCFS_PRIO :: nat where "SCHED_MAX_FCFS_PRIO = SCHED_MIN_SYS_PRIO + 1"
definition SCHED_MIN_FCFS_PRIO :: nat where "SCHED_MIN_FCFS_PRIO = SCHED_MAX_FCFS_PRIO + SCHED_PRIO_PER_POLICY - 1"
definition SCHED_MAX_RR_PRIO :: nat where "SCHED_MAX_RR_PRIO = SCHED_MIN_FCFS_PRIO + 1"
definition SCHED_MIN_RR_PRIO :: nat where "SCHED_MIN_RR_PRIO = SCHED_MAX_RR_PRIO + SCHED_PRIO_PER_POLICY - 1"
definition SCHED_MIN_USER_PRIO :: nat where "SCHED_MIN_USER_PRIO = SCHED_MIN_RR_PRIO"
definition SCHED_MAX_USER_PRIO :: nat where "SCHED_MAX_USER_PRIO = SCHED_MAX_FCFS_PRIO"
definition SCHED_MIN_PRIO :: nat where "SCHED_MIN_PRIO = SCHED_MIN_USER_PRIO"
definition SCHED_MAX_PRIO :: nat where "SCHED_MAX_PRIO = SCHED_MAX_ITHR_PRIO"

definition SCHED_VALID_PRIO :: "nat \<Rightarrow> bool" where
  "SCHED_VALID_PRIO p \<longleftrightarrow> SCHED_MAX_PRIO \<le> p \<and> p \<le> SCHED_MIN_PRIO"

definition SCHED_VALID_USER_PRIO :: "nat \<Rightarrow> bool" where
  "SCHED_VALID_USER_PRIO p \<longleftrightarrow> SCHED_MAX_USER_PRIO \<le> p \<and> p \<le> SCHED_MIN_USER_PRIO"

definition THR_THRFLAGS_KERNEL :: u32 where "THR_THRFLAGS_KERNEL = 0"
definition THR_THRFLAGS_MANAGED_STK :: u32 where "THR_THRFLAGS_MANAGED_STK = 2"
definition THR_TID_MAX :: nat where "THR_TID_MAX = 1024"
definition THR_TID_RSV_ID_NR :: tid where "THR_TID_RSV_ID_NR = 32"
definition THR_TID_AUTO :: tid where "THR_TID_AUTO = NOT 0"
definition THR_TID_IDLE :: tid where "THR_TID_IDLE = 0"
definition THR_TID_REAPER :: tid where "THR_TID_REAPER = 2"
definition THR_PRIO_REAPER :: nat where "THR_PRIO_REAPER = SCHED_MAX_SYS_PRIO - 1"

definition thr_of :: "'m thrdb \<Rightarrow> nat \<Rightarrow> thread" where
  "thr_of s t = threads (krn (sn s)) t"

definition upd_thr :: "nat \<Rightarrow> (thread \<Rightarrow> thread) \<Rightarrow> 'm thrdb \<Rightarrow> 'm thrdb" where
  "upd_thr t f s = s\<lparr>sn := (sn s)\<lparr>krn := upd_thread t f (krn (sn s))\<rparr>\<rparr>"

definition upd_fam :: "nat \<Rightarrow> (family \<Rightarrow> family) \<Rightarrow> 'm thrdb \<Rightarrow> 'm thrdb" where
  "upd_fam t f s = s\<lparr>fam := (fam s)(t := f (fam s t))\<rparr>"

definition running :: "'m thrdb \<Rightarrow> nat" where
  "running s = ti_get_current_thread (krn (sn s))"

text \<open>Operations of the scheduler on the state in which they are.\<close>

definition on_sched :: "(sched \<Rightarrow> sched option) \<Rightarrow> 'm thrdb \<Rightarrow> 'm thrdb option" where
  "on_sched f s = do { k \<leftarrow> f (krn (sn s)); Some (s\<lparr>sn := (sn s)\<lparr>krn := k\<rparr>\<rparr>) }"

definition on_sched_res :: "(sched \<Rightarrow> ('a \<times> sched) option) \<Rightarrow> 'm thrdb \<Rightarrow> ('a \<times> 'm thrdb) option" where
  "on_sched_res f s = do { (r, k) \<leftarrow> f (krn (sn s)); Some (r, s\<lparr>sn := (sn s)\<lparr>krn := k\<rparr>\<rparr>) }"

definition lock_db :: "sched \<Rightarrow> (intrflags \<times> sched) option" where
  "lock_db k = do {
     (iflags, l, c) \<leftarrow> spinlock_lock_disable_intr (thrdb_lock k) (imask k);
     Some (iflags, k\<lparr>thrdb_lock := l, imask := c\<rparr>)
   }"

definition unlock_db :: "intrflags \<Rightarrow> sched \<Rightarrow> sched option" where
  "unlock_db iflags k = do {
     (l, c) \<leftarrow> spinlock_unlock_restore_intr iflags (thrdb_lock k) (imask k);
     Some (k\<lparr>thrdb_lock := l, imask := c\<rparr>)
   }"

text \<open>\<open>list_not_linked\<close> of the two links of a thread.\<close>

definition link_free :: "nat \<Rightarrow> 'm thrdb \<Rightarrow> bool" where
  "link_free t s \<longleftrightarrow> list_not_linked (Thr t) (rlinks (krn (sn s))) \<and>
     (case parent (fam s t) of None \<Rightarrow> True | Some p \<Rightarrow> t \<notin> set (waiters (fam s p)))"

definition children_link_free :: "nat \<Rightarrow> 'm thrdb \<Rightarrow> bool" where
  "children_link_free t s \<longleftrightarrow>
     (case parent (fam s t) of None \<Rightarrow> True | Some p \<Rightarrow> t \<notin> set (children (fam s p)))"

section \<open>Thread numbers\<close>

definition thread_cmp :: "tid \<Rightarrow> tid \<Rightarrow> int" where
  "thread_cmp key ent = (if key < ent then 1 else if key > ent then - 1 else 0)"

definition alloc_new_tid_nolock :: "'m thrdb \<Rightarrow> (errno + tid) \<times> 'm thrdb" where
  "alloc_new_tid_nolock s =
     (let newid = bitops_ffc (BM64 (idmap s))
      in if newid = 0 then (Inl ENOSPC, s)
         else let newid = newid - 1
              in (Inr (of_int newid), s\<lparr>idmap := bitops_set (nat newid) (idmap s)\<rparr>))"

definition release_tid_nolock :: "tid \<Rightarrow> 'm thrdb \<Rightarrow> 'm thrdb" where
  "release_tid_nolock i s = s\<lparr>idmap := bitops_clr (unat i) (idmap s)\<rparr>"

definition thr_id_alloc :: "'m thrdb \<Rightarrow> ((errno + tid) \<times> 'm thrdb) option" where
  "thr_id_alloc s = do {
     (iflags, s1) \<leftarrow> on_sched_res lock_db s;
     let (rc, s2) = alloc_new_tid_nolock s1;
     s3 \<leftarrow> on_sched (unlock_db iflags) s2;
     Some (rc, s3)
   }"

definition thr_id_release :: "tid \<Rightarrow> 'm thrdb \<Rightarrow> 'm thrdb option" where
  "thr_id_release i s = do {
     (iflags, s1) \<leftarrow> on_sched_res lock_db s;
     on_sched (unlock_db iflags) (release_tid_nolock i s1)
   }"

section \<open>References\<close>

text \<open>
  The operations on the wait queues and on the ready queue take and give back references of threads
  whose last reference they do not have: there \<open>thr_ref_dec\<close> never gives back the last one.
\<close>

definition no_last :: last_ref_fn where
  "no_last t iflags k = None"

definition ref_dec_and_lock :: "nat \<Rightarrow> sched \<Rightarrow> ((bool \<times> intrflags) \<times> sched) option" where
  "ref_dec_and_lock t k = do {
     (res, n, iflags, l, c) \<leftarrow> refcnt_dec_and_lock_disable_intr (t_refs (threads k t)) (thrdb_lock k) (imask k);
     Some ((res, iflags), (upd_thread t (t_refs_update (\<lambda>_. n)) k)\<lparr>thrdb_lock := l, imask := c\<rparr>)
   }"

text \<open>\<open>notify_parent_child_exit\<close> up to its last line, which is in \<open>thread_ref_dec\<close> below.\<close>

definition notify_parent_child_exit :: "nat \<Rightarrow> 'm thrdb \<Rightarrow> 'm thrdb option" where
  "notify_parent_child_exit t s = do {
     kassert (link_free t s);
     p \<leftarrow> parent (fam s t);
     (iflags, s1) \<leftarrow> on_sched_res (lock_thread_disable_intr p) s;
     s2 \<leftarrow> on_sched (lock_thread t) s1;
     let s3 = upd_fam p (waiters_update (\<lambda>ws. ws @ [t])) s2;
     let s4 = upd_thr t (t_state_update (\<lambda>_. THR_TSTATE_DEAD)) s3;
     s5 \<leftarrow> on_sched (unlock_thread t) s4;
     s6 \<leftarrow> on_sched (unlock_thread_restore_intr p iflags) s5;
     n \<leftarrow> wque_wakeup no_last (pque (fam s6 p)) WQUE_RELEASED (sn s6);
     Some (s6\<lparr>sn := n\<rparr>)
   }"

text \<open>
  \<open>thr_ref_dec\<close>. When the running thread gives back its own last reference, it calls the scheduler. When
  that gives the processor to another thread, the dead one has left for good inside the function: the
  result is \<open>Gone\<close> and the state that in which the other thread goes on. When the scheduler comes back
  instead, because dispatching is disabled, so does the function.
\<close>

datatype ref_result = Kept | Released | Gone

partial_function (option) thread_ref_dec :: "nat \<Rightarrow> 'm thrdb \<Rightarrow> (ref_result \<times> 'm thrdb) option" where
  "thread_ref_dec t s = do {
     ((res, iflags), s1) \<leftarrow> on_sched_res (ref_dec_and_lock t) s;
     if \<not> res then Some (Kept, s1)
     else do {
       let s2 = s1\<lparr>thrtree := (thrtree s1)(t_id (fam s1 t) := None)\<rparr>;
       let s3 = release_tid_nolock (t_id (fam s2 t)) s2;
       s4 \<leftarrow> on_sched (unlock_db iflags) s3;
       kassert (link_free t s4);
       let cur = running s4;
       s5 \<leftarrow> notify_parent_child_exit t s4;
       p \<leftarrow> parent (fam s5 t);
       (r, s6) \<leftarrow> thread_ref_dec p s5;
       if r = Gone then Some (Gone, s6)
       else if cur = t then do {
         s7 \<leftarrow> on_sched (sched_schedule no_last) s6;
         Some (if running s7 = t then Released else Gone, s7)
       }
       else Some (Released, s6)
     }
   }"

text \<open>A call in the middle of another function: it ends there for the model if the thread is gone.\<close>

definition thr_drop :: "nat \<Rightarrow> 'm thrdb \<Rightarrow> (bool \<times> 'm thrdb) option" where
  "thr_drop t s = do {
     (r, s1) \<leftarrow> thread_ref_dec t s;
     kassert (r \<noteq> Gone);
     Some (r = Released, s1)
   }"

section \<open>Children\<close>

definition add_child_thread_nolock :: "nat \<Rightarrow> nat \<Rightarrow> 'm thrdb \<Rightarrow> ((errno + unit) \<times> 'm thrdb) option" where
  "add_child_thread_nolock t par s = do {
     (res, s1) \<leftarrow> on_sched_res (thr_ref_inc par) s;
     if \<not> res then Some (Inl ENOENT, s1)
     else do {
       (res, s2) \<leftarrow> on_sched_res (thr_ref_inc t) s1;
       if \<not> res then do { (_, s3) \<leftarrow> thr_drop par s2; Some (Inl ENOENT, s3) }
       else do {
         kassert (children_link_free t s2);
         let s3 = upd_fam par (children_update (\<lambda>cs. cs @ [t])) s2;
         (res, s4) \<leftarrow> on_sched_res (thr_ref_inc t) s3;
         kassert res;
         let s5 = upd_fam t (parent_update (\<lambda>_. Some par)) s4;
         (res, s6) \<leftarrow> on_sched_res (thr_ref_inc par) s5;
         kassert res;
         (_, s7) \<leftarrow> thr_drop t s6;
         (_, s8) \<leftarrow> thr_drop par s7;
         Some (Inr (), s8)
       }
     }
   }"

definition del_child_thread_nolock :: "nat \<Rightarrow> nat \<Rightarrow> 'm thrdb \<Rightarrow> 'm thrdb option" where
  "del_child_thread_nolock t par s = do {
     (res, s1) \<leftarrow> on_sched_res (thr_ref_inc par) s;
     kassert res;
     (child_res, s2) \<leftarrow> on_sched_res (thr_ref_inc t) s1;
     kassert (\<not> children_link_free t s2);
     kassert (parent (fam s2 t) = Some par);
     let s3 = upd_fam par (children_update (remove1 t)) s2;
     (res, s4) \<leftarrow> thr_drop t s3;
     kassert (\<not> res);
     s5 \<leftarrow> (if child_res then do { (_, s') \<leftarrow> thr_drop t s4; Some s' } else Some s4);
     (_, s6) \<leftarrow> thr_drop par s5;
     Some s6
   }"

text \<open>The loop of \<open>handle_orphan_thread\<close>: every child of the old parent becomes one of the reaper.\<close>

fun adopt_loop :: "nat \<Rightarrow> nat \<Rightarrow> nat list \<Rightarrow> 'm thrdb \<Rightarrow> 'm thrdb option" where
  "adopt_loop reaper old [] s = Some s"
| "adopt_loop reaper old (t # ts) s = do {
     kassert (parent (fam s t) = Some old);
     (res, s1) \<leftarrow> on_sched_res (thr_ref_inc t) s;
     kassert res;
     s2 \<leftarrow> on_sched (lock_thread t) s1;
     s3 \<leftarrow> del_child_thread_nolock t old s2;
     p \<leftarrow> parent (fam s3 t);
     (res, s4) \<leftarrow> thr_drop p s3;
     kassert (\<not> res);
     let s5 = upd_fam t (parent_update (\<lambda>_. None)) s4;
     (_, s6) \<leftarrow> add_child_thread_nolock t reaper s5;
     s7 \<leftarrow> on_sched (unlock_thread t) s6;
     kassert (parent (fam s7 t) = Some reaper);
     (res, s8) \<leftarrow> thr_drop t s7;
     kassert (\<not> res);
     adopt_loop reaper old ts s8
   }"

definition handle_orphan_thread :: "nat \<Rightarrow> 'm thrdb \<Rightarrow> 'm thrdb option" where
  "handle_orphan_thread old s = do {
     kassert (spinlock_locked_by_self (t_lock (thr_of s old)));
     (iflags, s1) \<leftarrow> on_sched_res lock_db s;
     let found = thrtree s1 THR_TID_REAPER;
     s2 \<leftarrow> on_sched (unlock_db iflags) s1;
     reaper \<leftarrow> found;
     (res, s3) \<leftarrow> on_sched_res (thr_ref_inc reaper) s2;
     kassert res;
     (iflags, s4) \<leftarrow> on_sched_res (lock_thread_disable_intr reaper) s3;
     s5 \<leftarrow> adopt_loop reaper old (children (fam s4 old)) s4;
     s6 \<leftarrow> on_sched (unlock_thread_restore_intr reaper iflags) s5;
     (res, s7) \<leftarrow> thr_drop reaper s6;
     kassert (\<not> res);
     Some s7
   }"

section \<open>The end of a thread\<close>

text \<open>
  The result tells whether the function returned to its caller; otherwise the state is that in which
  the next thread goes on. Without the processor having gone to another thread, each call of the
  scheduler comes back.
\<close>

definition thr_thread_exit :: "u64 \<Rightarrow> 'm thrdb \<Rightarrow> (bool \<times> 'm thrdb) option" where
  "thr_thread_exit ec s = do {
     let cur = running s;
     (res, s1) \<leftarrow> on_sched_res (thr_ref_inc cur) s;
     if \<not> res then Some (True, s1)
     else do {
       (iflags, s2) \<leftarrow> on_sched_res (lock_thread_disable_intr cur) s1;
       kassert (link_free cur s2);
       s3 \<leftarrow> handle_orphan_thread cur s2;
       p \<leftarrow> parent (fam s3 cur);
       s4 \<leftarrow> del_child_thread_nolock cur p s3;
       let s5 = upd_fam cur (exitcode_update (\<lambda>_. ec)) s4;
       let s6 = upd_thr cur (t_state_update (\<lambda>_. THR_TSTATE_EXIT)) s5;
       s7 \<leftarrow> on_sched (unlock_thread_restore_intr cur iflags) s6;
       (r, s8) \<leftarrow> thread_ref_dec cur s7;
       if r = Gone then Some (False, s8)
       else do {
         (r, s9) \<leftarrow> thread_ref_dec cur s8;
         if r = Gone then Some (False, s9)
         else do { s10 \<leftarrow> on_sched (sched_schedule no_last) s9; Some (running s10 = cur, s10) }
       }
     }
   }"

definition free_thread :: "'m allocators \<Rightarrow> nat \<Rightarrow> 'm thrdb \<Rightarrow> 'm thrdb option" where
  "free_thread al t s = do {
     kassert (fst (refcnt_read (t_refs (thr_of s t))) = 0);
     kassert (t_state (thr_of s t) = THR_TSTATE_DEAD);
     let s1 = s\<lparr>pools := stk_free al (kstack_top (fam s t)) (pools s)\<rparr>;
     Some (s1\<lparr>pools := thr_free al t (pools s1)\<rparr>)
   }"

text \<open>
  \<open>thr_thread_wait\<close> up to the call that sleeps, and from its return on: \<open>WaitAsleep\<close> has the saved
  interrupt state. \<open>e\<close> is the wait entry on the stack. The variable \<open>rc\<close> that is returned when the
  running thread has no reference is not set; \<open>rc0\<close> is what it holds.
\<close>

datatype wait_outcome = WaitReturned "errno + tid \<times> u64" | WaitAsleep intrflags

definition take_ended_child :: "'m allocators \<Rightarrow> intrflags \<Rightarrow> 'm thrdb \<Rightarrow> (wait_outcome \<times> 'm thrdb) option" where
  "take_ended_child al iflags s = do {
     let cur = running s;
     (t, s1) \<leftarrow> (case waiters (fam s cur) of [] \<Rightarrow> None
                | t # ts \<Rightarrow> Some (t, upd_fam cur (waiters_update (\<lambda>_. ts)) s));
     s2 \<leftarrow> (if t_state (thr_of s1 t) \<noteq> THR_TSTATE_DEAD
            then do { (res, s') \<leftarrow> on_sched_res (thr_ref_inc t) s1; kassert (\<not> res); Some s' }
            else Some s1);
     let resp = (t_id (fam s2 t), exitcode (fam s2 t));
     s3 \<leftarrow> (if t_state (thr_of s2 t) \<noteq> THR_TSTATE_DEAD
            then do { (_, s') \<leftarrow> thr_drop t s2; Some s' } else Some s2);
     s4 \<leftarrow> on_sched (unlock_thread_restore_intr cur iflags) s3;
     (_, s5) \<leftarrow> thr_drop cur s4;
     s6 \<leftarrow> (if t_state (thr_of s5 t) = THR_TSTATE_DEAD then free_thread al t s5 else Some s5);
     Some (WaitReturned (Inr resp), s6)
   }"

definition thr_thread_wait ::
    "'m allocators \<Rightarrow> errno + tid \<times> u64 \<Rightarrow> nat \<Rightarrow> 'm thrdb \<Rightarrow> (wait_outcome \<times> 'm thrdb) option" where
  "thr_thread_wait al rc0 e s = do {
     let cur = running s;
     (res, s1) \<leftarrow> on_sched_res (thr_ref_inc cur) s;
     if \<not> res then Some (WaitReturned rc0, s1)
     else do {
       (iflags, s2) \<leftarrow> on_sched_res (lock_thread_disable_intr cur) s1;
       if waiters (fam s2 cur) = [] then do {
         n \<leftarrow> wque_wait_for_curthr_sleep no_last (pque (fam s2 cur)) e (sn s2);
         Some (WaitAsleep iflags, s2\<lparr>sn := n\<rparr>)
       } else take_ended_child al iflags s2
     }
   }"

definition thr_thread_wait_woken ::
    "'m allocators \<Rightarrow> nat \<Rightarrow> intrflags \<Rightarrow> 'm thrdb \<Rightarrow> (wait_outcome \<times> 'm thrdb) option" where
  "thr_thread_wait_woken al e iflags s = do {
     (reason, n) \<leftarrow> wque_wait_for_curthr_woken no_last e (sn s);
     let s1 = s\<lparr>sn := n\<rparr>;
     if reason = WQUE_DELIVEV then do {
       s2 \<leftarrow> on_sched (unlock_thread_restore_intr (running s1) iflags) s1;
       (_, s3) \<leftarrow> thr_drop (running s2) s2;
       Some (WaitReturned (Inl EINTR), s3)
     } else do {
       kassert (reason = WQUE_RELEASED);
       take_ended_child al iflags s1
     }
   }"

text \<open>One turn of the loop of the reaper, up to where it sleeps.\<close>

definition reap_thread_turn ::
    "'m allocators \<Rightarrow> errno + tid \<times> u64 \<Rightarrow> nat \<Rightarrow> 'm thrdb \<Rightarrow> (wait_outcome \<times> 'm thrdb) option" where
  "reap_thread_turn al rc0 e s = do {
     (iflags, s1) \<leftarrow> on_sched_res (\<lambda>k. Some (disable_intr k)) s;
     (out, s2) \<leftarrow> thr_thread_wait al rc0 e s1;
     case out of
       WaitAsleep f \<Rightarrow> Some (out, s2)
     | WaitReturned _ \<Rightarrow> do { s3 \<leftarrow> on_sched (\<lambda>k. Some (restore_intr iflags k)) s2; Some (out, s3) }
   }"

section \<open>Creation\<close>

text \<open>
  \<open>kstktop\<close> is 0 for a stack to be allocated; \<open>stack_size\<close> and \<open>sz_ti\<close> are the sizes of a kernel stack and
  of the thread information block. The entry and the user stack pointer are in the part of the
  context on the stack that is not in the model. \<open>parent\<close> is \<open>None\<close> after the initialisation of the links:
  the thread is in no queue of children.
\<close>

definition init_thread :: "nat \<Rightarrow> u32 \<Rightarrow> nat \<Rightarrow> 'm thrdb \<Rightarrow> 'm thrdb" where
  "init_thread t fl pr s =
     (let s1 = upd_thr t (\<lambda>th. th\<lparr>t_lock := spinlock_init, t_refs := refcnt_init (t_refs th),
                 t_state := THR_TSTATE_DORMANT, cur_prio := pr\<rparr>) s;
          s2 = s1\<lparr>sn := (sn s1)\<lparr>krn := (krn (sn s1))\<lparr>rlinks := list_init (Thr t) (rlinks (krn (sn s1)))\<rparr>\<rparr>\<rparr>;
          s3 = upd_fam t (\<lambda>f. f\<lparr>t_id := 0, t_flags := fl, exitcode := 0, parent := None, children := [], waiters := [],
                 ini_prio := pr, base_prio := pr\<rparr>) s2
      in s3\<lparr>sn := wque_init_wait_queue (pque (fam s3 t)) (sn s3)\<rparr>)"

definition setup_thread :: "u64 \<Rightarrow> u64 \<Rightarrow> nat \<Rightarrow> u64 \<Rightarrow> 'm thrdb \<Rightarrow> 'm thrdb" where
  "setup_thread stack_size sz_ti t newstk s =
     (let s1 = upd_fam t (kstack_top_update (\<lambda>_. newstk)) s;
          s2 = s1\<lparr>sn := (sn s1)\<lparr>krn := ti_thread_info_init stack_size
                 (calc_thread_info_from_kstack_top stack_size sz_ti newstk) t (krn (sn s1))\<rparr>\<rparr>
      in upd_thr t (\<lambda>th. th\<lparr>ksp := hal_setup_thread_context (t_flags (fam s2 t)),
           t_state := THR_TSTATE_RUNABLE\<rparr>) s2)"

definition register_thread :: "tid \<Rightarrow> nat \<Rightarrow> 'm thrdb \<Rightarrow> ((errno + unit) \<times> 'm thrdb) option" where
  "register_thread i t s = do {
     (iflags, s1) \<leftarrow> on_sched_res lock_db s;
     let (rc, s2) = (if THR_TID_RSV_ID_NR > i then (Inr i, s1) else alloc_new_tid_nolock s1);
     case rc of
       Inl err \<Rightarrow> do { s3 \<leftarrow> on_sched (unlock_db iflags) s2; Some (Inl err, s3) }
     | Inr n \<Rightarrow> do {
         let s3 = upd_fam t (t_id_update (\<lambda>_. n)) s2;
         let res = thrtree s3 n;
         let s4 = (if res = None then s3\<lparr>thrtree := (thrtree s3)(n := Some t)\<rparr> else s3);
         s5 \<leftarrow> on_sched (unlock_db iflags) s4;
         kassert (res = None);
         Some (Inr (), s5)
       }
   }"

definition create_thread_common ::
    "'m allocators \<Rightarrow> u64 \<Rightarrow> u64 \<Rightarrow> tid \<Rightarrow> u64 \<Rightarrow> nat \<Rightarrow> u32 \<Rightarrow> 'm thrdb \<Rightarrow> ((errno + nat) \<times> 'm thrdb) option" where
  "create_thread_common al stack_size sz_ti i kstktop pr fl s =
     (if \<not> SCHED_VALID_PRIO pr then Some (Inl EINVAL, s)
      else if fl AND THR_THRFLAGS_USER \<noteq> 0 \<and> \<not> SCHED_VALID_USER_PRIO pr then Some (Inl EINVAL, s)
      else case thr_alloc al (pools s) of
          (None, m) \<Rightarrow> Some (Inl ENOMEM, s\<lparr>pools := m\<rparr>)
        | (Some t, m) \<Rightarrow>
            (let s1 = init_thread t fl pr (s\<lparr>pools := m\<rparr>);
                 (stk, s2) = (if kstktop \<noteq> 0 then (Some kstktop, s1)
                   else (case stk_alloc al (pools s1) of
                       (None, m) \<Rightarrow> (None, s1\<lparr>pools := m\<rparr>)
                     | (Some a, m) \<Rightarrow> (Some a, upd_fam t (t_flags_update (\<lambda>f. f OR THR_THRFLAGS_MANAGED_STK)) (s1\<lparr>pools := m\<rparr>))))
             in case stk of
                  None \<Rightarrow> Some (Inl ENOMEM, s2\<lparr>pools := thr_free al t (pools s2)\<rparr>)
                | Some newstk \<Rightarrow> do {
                    (rc, s3) \<leftarrow> register_thread i t (setup_thread stack_size sz_ti t newstk s2);
                    case rc of
                      Inl err \<Rightarrow> do {
                        let s4 = (if kstktop = 0 then s3\<lparr>pools := stk_free al newstk (pools s3)\<rparr> else s3);
                        Some (Inl err, s4\<lparr>pools := thr_free al t (pools s4)\<rparr>)
                      }
                    | Inr _ \<Rightarrow> Some (Inr t, s3)
                  }))"

definition thr_thread_create ::
    "'m allocators \<Rightarrow> u64 \<Rightarrow> u64 \<Rightarrow> tid \<Rightarrow> u64 \<Rightarrow> nat \<Rightarrow> u32 \<Rightarrow> 'm thrdb \<Rightarrow> ((errno + nat) \<times> 'm thrdb) option" where
  "thr_thread_create al stack_size sz_ti i kstktop pr fl s =
     (if \<not> SCHED_VALID_PRIO pr then Some (Inl EINVAL, s)
      else if fl AND THR_THRFLAGS_USER \<noteq> 0 \<and> \<not> SCHED_VALID_USER_PRIO pr then Some (Inl EINVAL, s)
      else do {
        (rc, s1) \<leftarrow> create_thread_common al stack_size sz_ti i kstktop pr fl s;
        case rc of
          Inl e \<Rightarrow> Some (Inl e, s1)
        | Inr t \<Rightarrow> do {
            let par = running s1;
            (ref_res, s2) \<leftarrow> on_sched_res (thr_ref_inc par) s1;
            kassert ref_res;
            (_, s3) \<leftarrow> add_child_thread_nolock t par s2;
            (ref_res, s4) \<leftarrow> thr_drop par s3;
            kassert (\<not> ref_res);
            Some (Inr t, s4)
          }
      })"

definition thr_idlethread_create ::
    "'m allocators \<Rightarrow> u64 \<Rightarrow> u64 \<Rightarrow> nat \<Rightarrow> 'm thrdb \<Rightarrow> ((errno + nat) \<times> 'm thrdb) option" where
  "thr_idlethread_create al stack_size sz_ti cpu_no s = do {
     let i = (if cpu_no = 0 then THR_TID_IDLE else THR_TID_AUTO);
     (rc, s1) \<leftarrow> create_thread_common al stack_size sz_ti i (kstack (ti_get_current_thread_info (krn (sn s))))
       SCHED_MIN_RR_PRIO THR_THRFLAGS_KERNEL s;
     case rc of
       Inl e \<Rightarrow> Some (Inl e, s1)
     | Inr t \<Rightarrow> Some (Inr t, upd_fam t (parent_update (\<lambda>_. Some t)) s1)
   }"

definition thr_system_thread_create :: "'m allocators \<Rightarrow> u64 \<Rightarrow> u64 \<Rightarrow> 'm thrdb \<Rightarrow> 'm thrdb option" where
  "thr_system_thread_create al stack_size sz_ti s = do {
     (rc, s1) \<leftarrow> create_thread_common al stack_size sz_ti THR_TID_REAPER 0 THR_PRIO_REAPER THR_THRFLAGS_KERNEL s;
     case rc of
       Inl _ \<Rightarrow> None
     | Inr t \<Rightarrow> on_sched (sched_thread_add no_last t) (upd_fam t (parent_update (\<lambda>_. Some t)) s1)
   }"

text \<open>\<open>created\<close> is the result of \<open>slab_kmem_cache_create\<close>.\<close>

definition thr_init :: "errno + unit \<Rightarrow> 'm thrdb \<Rightarrow> 'm thrdb option" where
  "thr_init created s = do {
     kassert (created = Inr ());
     Some (s\<lparr>idmap := fold bitops_set [0..<unat THR_TID_RSV_ID_NR] (bitops_zero (idmap s))\<rparr>)
   }"

text \<open>One turn of the idle loop; the interrupt state is restored when the idle thread is back.\<close>

definition thr_idle_loop_turn :: "(sched \<Rightarrow> sched) \<Rightarrow> sched \<Rightarrow> sched option" where
  "thr_idle_loop_turn hal_cpu_halt k = do {
     let (iflags, k1) = disable_intr k;
     (delayed, k2) \<leftarrow> ti_dispatch_delayed k1;
     if delayed then sched_schedule no_last k2
     else Some (restore_intr iflags (hal_cpu_halt k2))
   }"

end
