(* ===== verification/ThreadRefs.thy ===== *)
theory ThreadRefs
  imports Threads
begin

unbundle bit_operations_syntax

text \<open>
  What the operations on threads do to the state, step by step: references, locks, the queues of
  children, the adoption of orphans, the notification of the parent and the release of the last
  reference. Each lemma gives the result of one function of \<open>Threads\<close> on a \<open>view\<close> of a state.
\<close>

section \<open>A view of the state\<close>

text \<open>
  What the operations on threads change: the threads without their references, the references as
  numbers, the families and the interrupt mask. \<open>view B N F c s\<close> is \<open>s\<close> with these four replaced.
\<close>

definition view :: "(nat \<Rightarrow> thread) \<Rightarrow> (nat \<Rightarrow> nat) \<Rightarrow> (nat \<Rightarrow> family) \<Rightarrow> cpu \<Rightarrow> 'm thrdb \<Rightarrow> 'm thrdb" where
  "view B N F c s = s\<lparr>sn := (sn s)\<lparr>krn := (krn (sn s))\<lparr>
     threads := (\<lambda>u. (B u)\<lparr>t_refs := of_nat (N u)\<rparr>), imask := c\<rparr>\<rparr>, fam := F\<rparr>"

definition refs_of :: "'m thrdb \<Rightarrow> nat \<Rightarrow> nat" where
  "refs_of s t = unat (t_refs (thr_of s t))"

abbreviation max_refs :: nat where "max_refs \<equiv> 2 ^ 31 - 1"

lemma view_self: "view (thr_of s) (refs_of s) (fam s) (imask (krn (sn s))) s = s"
  by (rule thrdb.equality)
    (auto simp: view_def thr_of_def refs_of_def intro!: sync.equality sched.equality ext)

lemma view_sel [simp]:
  "fam (view B N F c s) = F" "idmap (view B N F c s) = idmap s" "thrtree (view B N F c s) = thrtree s"
  "pools (view B N F c s) = pools s" "imask (krn (sn (view B N F c s))) = c"
  "current (krn (sn (view B N F c s))) = current (krn (sn s))" "running (view B N F c s) = running s"
  "thrdb_lock (krn (sn (view B N F c s))) = thrdb_lock (krn (sn s))"
  "rlinks (krn (sn (view B N F c s))) = rlinks (krn (sn s))" "bitmap (krn (sn (view B N F c s))) = bitmap (krn (sn s))"
  "rq_lock (krn (sn (view B N F c s))) = rq_lock (krn (sn s))" "this_cpu (krn (sn (view B N F c s))) = this_cpu (krn (sn s))"
  "thr_of (view B N F c s) t = (B t)\<lparr>t_refs := of_nat (N t)\<rparr>"
  "threads (krn (sn (view B N F c s))) t = (B t)\<lparr>t_refs := of_nat (N t)\<rparr>"
  "wqs (sn (view B N F c s)) = wqs (sn s)" "wlinks (sn (view B N F c s)) = wlinks (sn s)" "ents (sn (view B N F c s)) = ents (sn s)"
  by (simp_all add: view_def thr_of_def running_def ti_get_current_thread_def)

lemma view_view [simp]: "view B N F c (view B' N' F' c' s) = view B N F c s"
  by (simp add: view_def)

lemma view_cong:
  assumes "\<And>u. N u = N' u" and "\<And>u. F u = F' u"
  shows "view B N F c s = view B N' F' c s"
proof -
  have "N = N'" "F = F'" using assms by auto
  then show ?thesis by simp
qed

lemma view_upd_fam [simp]: "upd_fam t f (view B N F c s) = view B N (F(t := f (F t))) c s"
  by (simp add: view_def upd_fam_def)

lemma krn_view: "krn (sn (view B N F c s)) = (krn (sn s))\<lparr>threads := (\<lambda>u. (B u)\<lparr>t_refs := of_nat (N u)\<rparr>), imask := c\<rparr>"
  by (simp add: view_def)

lemma put_krn_view:
  "(view B N F c s)\<lparr>sn := (sn (view B N F c s))\<lparr>krn := (krn (sn s))\<lparr>threads := (\<lambda>u. (B' u)\<lparr>t_refs := of_nat (N' u)\<rparr>), imask := c'\<rparr>\<rparr>\<rparr>
     = view B' N' F c' s"
  by (simp add: view_def)

lemma small_word: "0 < n \<Longrightarrow> n \<le> max_refs \<Longrightarrow> 0 <s (of_nat n :: u32)"
proof -
  assume n: "0 < n" "n \<le> max_refs"
  then have "unat (of_nat n :: u32) = n" by (simp add: unat_of_nat)
  then have "uint (of_nat n :: u32) = int n" by (simp only: uint_nat)
  then have "sint (of_nat n :: u32) = int n"
    using n by (simp add: sint_uint signed_take_bit_int_eq_self)
  then show ?thesis using n by (simp add: word_sless_alt)
qed

lemma inc_view:
  assumes "0 < N t" and "N t \<le> max_refs"
  shows "on_sched_res (thr_ref_inc t) (view B N F c s) = Some (True, view B (N(t := N t + 1)) F c s)"
proof -
  have eq: "upd_thread t (t_refs_update (\<lambda>n. n + 1)) (krn (sn (view B N F c s))) =
      (krn (sn s))\<lparr>threads := (\<lambda>u. (B u)\<lparr>t_refs := of_nat ((N(t := N t + 1)) u)\<rparr>), imask := c\<rparr>"
    by (simp add: krn_view upd_thread_def) (rule sched.equality, auto)
  have "thr_ref_inc t (krn (sn (view B N F c s))) =
      Some (True, upd_thread t (t_refs_update (\<lambda>n. n + 1)) (krn (sn (view B N F c s))))"
    using ref_steps(1) [of "krn (sn (view B N F c s))" t] small_word [OF assms] by simp
  then show ?thesis
    by (simp only: on_sched_res_def eq bind.bind_lunit split put_krn_view)
qed

lemma inc_none:
  assumes "N t = 0"
  shows "on_sched_res (thr_ref_inc t) (view B N F c s) = Some (False, view B N F c s)"
proof -
  have "upd_thread t (t_refs_update (\<lambda>_. 0)) (krn (sn (view B N F c s))) =
      (krn (sn s))\<lparr>threads := (\<lambda>u. (B u)\<lparr>t_refs := of_nat (N u)\<rparr>), imask := c\<rparr>"
    using assms by (simp add: krn_view upd_thread_def) (rule sched.equality, auto)
  then show ?thesis
    using assms by (simp add: on_sched_res_def thr_ref_inc_def put_krn_view)
qed

lemma dec_view:
  assumes "1 < N t" and "N t \<le> max_refs" and "lock_free (thrdb_lock (krn (sn s)))"
  shows "thread_ref_dec t (view B N F c s) = Some (Kept, view B (N(t := N t - 1)) F c s)"
    and "thr_drop t (view B N F c s) = Some (False, view B (N(t := N t - 1)) F c s)"
proof -
  obtain n where n: "N t = Suc n" "0 < n" "n \<le> max_refs" using assms(1,2) by (cases "N t") auto
  have eq: "(upd_thread t (t_refs_update (\<lambda>_. of_nat n)) (krn (sn (view B N F c s))))\<lparr>
      thrdb_lock := thrdb_lock (krn (sn s)), imask := c\<rparr> =
      (krn (sn s))\<lparr>threads := (\<lambda>u. (B u)\<lparr>t_refs := of_nat ((N(t := N t - 1)) u)\<rparr>), imask := c\<rparr>"
    using n(1) by (simp add: krn_view upd_thread_def) (rule sched.equality, auto)
  have "refcnt_dec_and_lock_disable_intr (t_refs (threads (krn (sn (view B N F c s))) t)) (thrdb_lock (krn (sn (view B N F c s))))
      (imask (krn (sn (view B N F c s)))) = Some (False, of_nat n, sstatus c, thrdb_lock (krn (sn s)), c)"
    using refs_inc_dec [OF small_word [OF n(2,3)] assms(3), of c] n(1) by (simp add: add.commute)
  then have "on_sched_res (ref_dec_and_lock t) (view B N F c s) = Some ((False, sstatus c), view B (N(t := N t - 1)) F c s)"
    by (simp only: on_sched_res_def ref_dec_and_lock_def bind.bind_lunit split eq put_krn_view)
  then show "thread_ref_dec t (view B N F c s) = Some (Kept, view B (N(t := N t - 1)) F c s)"
    by (simp add: thread_ref_dec.simps)
  then show "thr_drop t (view B N F c s) = Some (False, view B (N(t := N t - 1)) F c s)"
    by (simp add: thr_drop_def)
qed

lemma lock_view:
  assumes "lock_free (t_lock (B t))"
  shows "on_sched (lock_thread t) (view B N F c s) = Some (view (B(t := (B t)\<lparr>t_lock := lock_taken (t_lock (B t))\<rparr>)) N F c s)"
    and "on_sched_res (lock_thread_disable_intr t) (view B N F c s) = Some (sstatus c,
      view (B(t := (B t)\<lparr>t_lock := lock_taken (t_lock (B t))\<rparr>)) N F (rv64_cpu_disable_interrupt c) s)"
proof -
  let ?B = "B(t := (B t)\<lparr>t_lock := lock_taken (t_lock (B t))\<rparr>)" and ?k = "krn (sn (view B N F c s))"
  have eq: "(upd_thread t (t_lock_update lock_taken) ?k)\<lparr>imask := c'\<rparr> =
      (krn (sn s))\<lparr>threads := (\<lambda>u. (?B u)\<lparr>t_refs := of_nat (N u)\<rparr>), imask := c'\<rparr>" for c'
    by (rule sched.equality) (auto simp: krn_view upd_thread_def intro!: ext thread.equality)
  have "lock_thread_disable_intr t ?k = Some (sstatus c, (upd_thread t (t_lock_update lock_taken) ?k)\<lparr>imask := rv64_cpu_disable_interrupt c\<rparr>)"
    using assms lock_thread_free [of ?k t] by simp
  then show "on_sched_res (lock_thread_disable_intr t) (view B N F c s) = Some (sstatus c, view ?B N F (rv64_cpu_disable_interrupt c) s)"
    by (simp only: on_sched_res_def bind.bind_lunit split eq put_krn_view)
  have "lock_thread t ?k = Some ((upd_thread t (t_lock_update lock_taken) ?k)\<lparr>imask := c\<rparr>)"
    using assms thread_lock_unlock(1) [of ?k t] by simp
  then show "on_sched (lock_thread t) (view B N F c s) = Some (view ?B N F c s)"
    by (simp only: on_sched_def bind.bind_lunit eq put_krn_view)
qed

lemma unlock_view:
  assumes "t_lock (B t) = lock_taken l" and "lock_free l"
  shows "on_sched (unlock_thread t) (view B N F c s) = Some (view (B(t := (B t)\<lparr>t_lock := l\<rparr>)) N F c s)"
    and "on_sched (unlock_thread_restore_intr t f) (view B N F c s) =
      Some (view (B(t := (B t)\<lparr>t_lock := l\<rparr>)) N F (rv64_cpu_restore_flags f c) s)"
proof -
  let ?B = "B(t := (B t)\<lparr>t_lock := l\<rparr>)" and ?k = "krn (sn (view B N F c s))"
  have eq: "(upd_thread t (t_lock_update (\<lambda>_. l)) ?k)\<lparr>imask := c'\<rparr> =
      (krn (sn s))\<lparr>threads := (\<lambda>u. (?B u)\<lparr>t_refs := of_nat (N u)\<rparr>), imask := c'\<rparr>" for c'
    by (rule sched.equality) (auto simp: krn_view upd_thread_def intro!: ext thread.equality)
  have "unlock_thread_restore_intr t f ?k = Some ((upd_thread t (t_lock_update (\<lambda>_. l)) ?k)\<lparr>imask := rv64_cpu_restore_flags f c\<rparr>)"
    using assms unlock_thread_taken [of l ?k t f] by simp
  then show "on_sched (unlock_thread_restore_intr t f) (view B N F c s) = Some (view ?B N F (rv64_cpu_restore_flags f c) s)"
    by (simp only: on_sched_def bind.bind_lunit eq put_krn_view)
  have "unlock_thread t ?k = Some ((upd_thread t (t_lock_update (\<lambda>_. l)) ?k)\<lparr>imask := c\<rparr>)"
    using assms by (simp add: unlock_thread_def spinlock_unlock_def)
  then show "on_sched (unlock_thread t) (view B N F c s) = Some (view ?B N F c s)"
    by (simp only: on_sched_def bind.bind_lunit eq put_krn_view)
qed

lemma upd_thr_view:
  assumes "\<And>th n. f (th\<lparr>t_refs := n\<rparr>) = (f th)\<lparr>t_refs := n\<rparr>"
  shows "upd_thr t f (view B N F c s) = view (B(t := f (B t))) N F c s"
proof -
  have eq: "upd_thread t f (krn (sn (view B N F c s))) =
      (krn (sn s))\<lparr>threads := (\<lambda>u. ((B(t := f (B t))) u)\<lparr>t_refs := of_nat (N u)\<rparr>), imask := c\<rparr>"
    by (rule sched.equality) (auto simp: krn_view upd_thread_def assms)
  show ?thesis by (simp only: upd_thr_def eq put_krn_view)
qed

lemma db_lock_view:
  assumes "lock_free (thrdb_lock (krn (sn s)))"
  shows "\<exists>s'. on_sched_res lock_db s = Some (sstatus (imask (krn (sn s))), s') \<and> thrtree s' = thrtree s \<and>
    on_sched (unlock_db (sstatus (imask (krn (sn s))))) s' = Some s"
proof -
  have "(krn (sn s))\<lparr>thrdb_lock := thrdb_lock (krn (sn s)), imask := imask (krn (sn s))\<rparr> = krn (sn s)" by simp
  then show ?thesis
    using assms by (simp add: on_sched_res_def lock_db_def on_sched_def unlock_db_def)
qed

section \<open>Children\<close>

lemma children_link_free_view [simp]:
  "children_link_free t (view B N F c s) \<longleftrightarrow> (case parent (F t) of None \<Rightarrow> True | Some q \<Rightarrow> t \<notin> set (children (F q)))"
  by (simp add: children_link_free_def split: option.splits)

lemmas do_steps = bind.bind_lunit split simp_thms if_False if_True kassert_simps Let_def view_upd_fam

lemma add_child_run:
  assumes "t \<noteq> p" and "0 < N t" "N t + 1 < max_refs" "0 < N p" "N p + 1 < max_refs"
    and free: "lock_free (thrdb_lock (krn (sn s)))"
    and link: "case parent (F t) of None \<Rightarrow> True | Some q \<Rightarrow> t \<notin> set (children (F q))"
  shows "add_child_thread_nolock t p (view B N F c s) = Some (Inr (),
    view B (N(p := N p + 1, t := N t + 1))
      (F(p := (F p)\<lparr>children := children (F p) @ [t]\<rparr>, t := (F t)\<lparr>parent := Some p\<rparr>)) c s)"
proof -
  let ?F3 = "F(p := children_update (\<lambda>cs. cs @ [t]) (F p))"
  let ?F5 = "?F3(t := parent_update (\<lambda>_. Some p) (?F3 t))"
  let ?N1 = "N(p := N p + 1)" let ?N2 = "?N1(t := ?N1 t + 1)" let ?N3 = "?N2(t := ?N2 t + 1)"
  let ?N4 = "?N3(p := ?N3 p + 1)" let ?N5 = "?N4(t := ?N4 t - 1)"
  have "on_sched_res (thr_ref_inc p) (view B N F c s) = Some (True, view B ?N1 F c s)"
    "on_sched_res (thr_ref_inc t) (view B ?N1 F c s) = Some (True, view B ?N2 F c s)"
    "on_sched_res (thr_ref_inc t) (view B ?N2 ?F3 c s) = Some (True, view B ?N3 ?F3 c s)"
    "on_sched_res (thr_ref_inc p) (view B ?N3 ?F5 c s) = Some (True, view B ?N4 ?F5 c s)"
    by (rule inc_view; use assms in simp)+
  moreover have "thr_drop t (view B ?N4 ?F5 c s) = Some (False, view B ?N5 ?F5 c s)"
    "thr_drop p (view B ?N5 ?F5 c s) = Some (False, view B (?N5(p := ?N5 p - 1)) ?F5 c s)"
    by (rule dec_view; use assms in simp)+
  moreover have "children_link_free t (view B ?N2 F c s)" using link by simp
  ultimately have "add_child_thread_nolock t p (view B N F c s) = Some (Inr (), view B (?N5(p := ?N5 p - 1)) ?F5 c s)"
    by (simp only: add_child_thread_nolock_def do_steps)
  also have "view B (?N5(p := ?N5 p - 1)) ?F5 c s = view B (N(p := N p + 1, t := N t + 1))
      (F(p := (F p)\<lparr>children := children (F p) @ [t]\<rparr>, t := (F t)\<lparr>parent := Some p\<rparr>)) c s"
    using assms(1) by (intro view_cong) auto
  finally show ?thesis .
qed

lemma del_child_run:
  assumes "t \<noteq> p" and "1 < N t" "N t + 1 < max_refs" "0 < N p" "N p + 1 < max_refs"
    and free: "lock_free (thrdb_lock (krn (sn s)))"
    and link: "parent (F t) = Some p" "t \<in> set (children (F p))"
  shows "del_child_thread_nolock t p (view B N F c s) = Some
    (view B (N(t := N t - 1)) (F(p := (F p)\<lparr>children := remove1 t (children (F p))\<rparr>)) c s)"
proof -
  let ?F = "F(p := children_update (remove1 t) (F p))"
  let ?N1 = "N(p := N p + 1)" let ?N2 = "?N1(t := ?N1 t + 1)" let ?N3 = "?N2(t := ?N2 t - 1)"
  let ?N4 = "?N3(t := ?N3 t - 1)"
  have "on_sched_res (thr_ref_inc p) (view B N F c s) = Some (True, view B ?N1 F c s)"
    "on_sched_res (thr_ref_inc t) (view B ?N1 F c s) = Some (True, view B ?N2 F c s)"
    by (rule inc_view; use assms in simp)+
  moreover have "thr_drop t (view B ?N2 ?F c s) = Some (False, view B ?N3 ?F c s)"
    "thr_drop t (view B ?N3 ?F c s) = Some (False, view B ?N4 ?F c s)"
    "thr_drop p (view B ?N4 ?F c s) = Some (False, view B (?N4(p := ?N4 p - 1)) ?F c s)"
    by (rule dec_view; use assms in simp)+
  moreover have "\<not> children_link_free t (view B ?N2 F c s)" "parent (fam (view B ?N2 F c s) t) = Some p"
    using link by simp_all
  ultimately have "del_child_thread_nolock t p (view B N F c s) = Some (view B (?N4(p := ?N4 p - 1)) ?F c s)"
    by (simp only: del_child_thread_nolock_def do_steps)
  also have "view B (?N4(p := ?N4 p - 1)) ?F c s = view B (N(t := N t - 1)) (F(p := (F p)\<lparr>children := remove1 t (children (F p))\<rparr>)) c s"
  proof (rule view_cong)
    show "(?N4(p := ?N4 p - 1)) u = (N(t := N t - 1)) u" for u using assms(1) by auto
    show "?F u = (F(p := (F p)\<lparr>children := remove1 t (children (F p))\<rparr>)) u" for u
      by (cases "F p") simp
  qed
  finally show ?thesis .
qed

section \<open>Orphans\<close>

text \<open>The families after the children \<open>ts\<close> of \<open>old\<close> went to \<open>r\<close>.\<close>

definition adopted :: "nat \<Rightarrow> nat \<Rightarrow> nat list \<Rightarrow> (nat \<Rightarrow> family) \<Rightarrow> nat \<Rightarrow> family" where
  "adopted r old ts F u =
     (if u = old then (F u)\<lparr>children := []\<rparr>
      else if u = r then (F u)\<lparr>children := children (F u) @ ts\<rparr>
      else if u \<in> set ts then (F u)\<lparr>parent := Some r\<rparr> else F u)"

lemma adopt_one:
  assumes "t \<noteq> old" "t \<noteq> r" "r \<noteq> old" and N: "1 < N t" "N t + 2 < max_refs" "1 < N old" "N old + 1 < max_refs" "0 < N r" "N r + 1 < max_refs"
    and free: "lock_free (thrdb_lock (krn (sn s)))" "lock_free (t_lock (B t))"
    and link: "parent (F t) = Some old" "t \<in> set (children (F old))"
  shows "adopt_loop r old (t # ts) (view B N F c s) = adopt_loop r old ts
    (view B (N(old := N old - 1, r := N r + 1))
      (F(old := (F old)\<lparr>children := remove1 t (children (F old))\<rparr>, r := (F r)\<lparr>children := children (F r) @ [t]\<rparr>,
         t := (F t)\<lparr>parent := Some r\<rparr>)) c s)"
proof -
  let ?l = "t_lock (B t)"
  let ?B = "B(t := (B t)\<lparr>t_lock := lock_taken ?l\<rparr>)"
  let ?F1 = "F(old := (F old)\<lparr>children := remove1 t (children (F old))\<rparr>)"
  let ?F2 = "?F1(t := parent_update (\<lambda>_. None) (?F1 t))"
  let ?F3 = "?F2(r := (?F2 r)\<lparr>children := children (?F2 r) @ [t]\<rparr>, t := (?F2 t)\<lparr>parent := Some r\<rparr>)"
  let ?N1 = "N(t := N t + 1)" let ?N2 = "?N1(t := ?N1 t - 1)" let ?N3 = "?N2(old := ?N2 old - 1)"
  let ?N4 = "?N3(r := ?N3 r + 1, t := ?N3 t + 1)"
  have start: "on_sched_res (thr_ref_inc t) (view B N F c s) = Some (True, view B ?N1 F c s)"
    by (rule inc_view; use N in simp)
  have lock: "on_sched (lock_thread t) (view B ?N1 F c s) = Some (view ?B ?N1 F c s)"
    by (rule lock_view(1)) (use free in simp)
  have del: "del_child_thread_nolock t old (view ?B ?N1 F c s) = Some (view ?B ?N2 ?F1 c s)"
    by (rule del_child_run; use assms in simp)
  have drop: "thr_drop old (view ?B ?N2 ?F1 c s) = Some (False, view ?B ?N3 ?F1 c s)"
    by (rule dec_view(2); use assms in simp)
  have add: "add_child_thread_nolock t r (view ?B ?N3 ?F2 c s) = Some (Inr (), view ?B ?N4 ?F3 c s)"
    by (rule add_child_run; use assms in simp)
  have unlock: "on_sched (unlock_thread t) (view ?B ?N4 ?F3 c s) = Some (view (?B(t := (?B t)\<lparr>t_lock := ?l\<rparr>)) ?N4 ?F3 c s)"
    by (rule unlock_view(1); use free in simp)
  have B: "?B(t := (?B t)\<lparr>t_lock := ?l\<rparr>) = B" by simp
  have final: "thr_drop t (view B ?N4 ?F3 c s) = Some (False, view B (?N4(t := ?N4 t - 1)) ?F3 c s)"
    by (rule dec_view(2); use assms in simp)
  have par: "parent (fam (view B N F c s) t) = Some old" "parent (fam (view ?B ?N2 ?F1 c s) t) = Some old"
    "parent (fam (view B ?N4 ?F3 c s) t) = Some r"
    using assms(1,2) link by simp_all
  have "adopt_loop r old (t # ts) (view B N F c s) = adopt_loop r old ts (view B (?N4(t := ?N4 t - 1)) ?F3 c s)"
    by (simp only: adopt_loop.simps par start lock del drop add unlock B final do_steps)
  also have "view B (?N4(t := ?N4 t - 1)) ?F3 c s = view B (N(old := N old - 1, r := N r + 1))
      (F(old := (F old)\<lparr>children := remove1 t (children (F old))\<rparr>, r := (F r)\<lparr>children := children (F r) @ [t]\<rparr>,
         t := (F t)\<lparr>parent := Some r\<rparr>)) c s"
    using assms(1-3) by (intro view_cong) auto
  finally show ?thesis .
qed

lemma adopt_run:
  assumes "r \<noteq> old" "r \<notin> set ts" "old \<notin> set ts" "distinct ts" "children (F old) = ts" "length ts < N old" "N old + 1 < max_refs"
    and "0 < N r" "N r + length ts < max_refs"
    and "lock_free (thrdb_lock (krn (sn s)))"
    and "\<forall>t\<in>set ts. 1 < N t \<and> N t + 2 < max_refs \<and> lock_free (t_lock (B t)) \<and> parent (F t) = Some old"
  shows "adopt_loop r old ts (view B N F c s) =
    Some (view B (N(old := N old - length ts, r := N r + length ts)) (adopted r old ts F) c s)"
  using assms
proof (induction ts arbitrary: N F)
  case Nil
  have "view B N F c s = view B (N(old := N old - length [], r := N r + length [])) (adopted r old [] F) c s"
    using Nil by (intro view_cong) (auto simp: adopted_def)
  then show ?case by simp
next
  case (Cons t ts)
  let ?N = "N(old := N old - 1, r := N r + 1)"
  let ?F = "F(old := (F old)\<lparr>children := remove1 t (children (F old))\<rparr>, r := (F r)\<lparr>children := children (F r) @ [t]\<rparr>,
         t := (F t)\<lparr>parent := Some r\<rparr>)"
  have "adopt_loop r old (t # ts) (view B N F c s) = adopt_loop r old ts (view B ?N ?F c s)"
    by (rule adopt_one; use Cons.prems in simp)
  also have "\<dots> = Some (view B (?N(old := ?N old - length ts, r := ?N r + length ts)) (adopted r old ts ?F) c s)"
    by (rule Cons.IH; use Cons.prems in auto)
  also have "view B (?N(old := ?N old - length ts, r := ?N r + length ts)) (adopted r old ts ?F) c s =
      view B (N(old := N old - length (t # ts), r := N r + length (t # ts))) (adopted r old (t # ts) F) c s"
    using Cons.prems by (intro view_cong) (auto simp: adopted_def)
  finally show ?case .
qed

lemma orphans_run:
  assumes reaper: "thrtree s THR_TID_REAPER = Some r" and "r \<noteq> old" "r \<notin> set (children (F old))" "old \<notin> set (children (F old))"
      "distinct (children (F old))" "length (children (F old)) < N old" "N old + 1 < max_refs"
    and "0 < N r" "N r + length (children (F old)) + 1 < max_refs"
    and free: "lock_free (thrdb_lock (krn (sn s)))" "lock_free (t_lock (B r))" and held: "spinlock_locked_by_self (t_lock (B old))"
    and "\<forall>t\<in>set (children (F old)). 1 < N t \<and> N t + 2 < max_refs \<and> lock_free (t_lock (B t)) \<and> parent (F t) = Some old"
  shows "handle_orphan_thread old (view B N F c s) =
    Some (view B (N(old := N old - length (children (F old)), r := N r + length (children (F old))))
      (adopted r old (children (F old)) F) c s)"
proof -
  let ?ts = "children (F old)" and ?l = "t_lock (B r)"
  let ?B = "B(r := (B r)\<lparr>t_lock := lock_taken ?l\<rparr>)" and ?c = "rv64_cpu_disable_interrupt c"
  let ?N1 = "N(r := N r + 1)" let ?N2 = "?N1(old := ?N1 old - length ?ts, r := ?N1 r + length ?ts)"
  let ?F = "adopted r old ?ts F"
  obtain s' where db: "on_sched_res lock_db (view B N F c s) = Some (sstatus c, s')" "thrtree s' = thrtree s"
      "on_sched (unlock_db (sstatus c)) s' = Some (view B N F c s)"
    using db_lock_view [of "view B N F c s"] free by auto
  have inc: "on_sched_res (thr_ref_inc r) (view B N F c s) = Some (True, view B ?N1 F c s)"
    by (rule inc_view; use assms in simp)
  have lock: "on_sched_res (lock_thread_disable_intr r) (view B ?N1 F c s) = Some (sstatus c, view ?B ?N1 F ?c s)"
    by (rule lock_view(2)) (use free in simp)
  have loop: "adopt_loop r old ?ts (view ?B ?N1 F ?c s) = Some (view ?B ?N2 ?F ?c s)"
    by (rule adopt_run; use assms in auto)
  have B: "?B(r := (?B r)\<lparr>t_lock := ?l\<rparr>) = B" by simp
  have "on_sched (unlock_thread_restore_intr r (sstatus c)) (view ?B ?N2 ?F ?c s) =
      Some (view (?B(r := (?B r)\<lparr>t_lock := ?l\<rparr>)) ?N2 ?F (rv64_cpu_restore_flags (sstatus c) ?c) s)"
    by (rule unlock_view(2); use free in simp)
  then have unlock: "on_sched (unlock_thread_restore_intr r (sstatus c)) (view ?B ?N2 ?F ?c s) = Some (view B ?N2 ?F c s)"
    unfolding B by simp
  have drop: "thr_drop r (view B ?N2 ?F c s) = Some (False, view B (?N2(r := ?N2 r - 1)) ?F c s)"
    by (rule dec_view(2); use assms in simp)
  have "spinlock_locked_by_self (t_lock (thr_of (view B N F c s) old))" "fam (view ?B ?N1 F ?c s) old = F old"
    using held by simp_all
  then have "handle_orphan_thread old (view B N F c s) = Some (view B (?N2(r := ?N2 r - 1)) ?F c s)"
    by (simp only: handle_orphan_thread_def db reaper inc lock loop unlock drop do_steps)
  also have "view B (?N2(r := ?N2 r - 1)) ?F c s = view B (N(old := N old - length ?ts, r := N r + length ?ts)) ?F c s"
    using assms(2) by (intro view_cong) auto
  finally show ?thesis .
qed

section \<open>The last reference\<close>

definition with_db :: "spinlock \<Rightarrow> 'm thrdb \<Rightarrow> 'm thrdb" where
  "with_db l s = s\<lparr>sn := (sn s)\<lparr>krn := (krn (sn s))\<lparr>thrdb_lock := l\<rparr>\<rparr>\<rparr>"

lemma with_db_same [simp]: "with_db (thrdb_lock (krn (sn s))) s = s" "with_db l (with_db l' s) = with_db l s"
  by (simp_all add: with_db_def)

lemma view_base [simp]:
  "(view B N F c s)\<lparr>thrtree := m\<rparr> = view B N F c (s\<lparr>thrtree := m\<rparr>)"
  "(view B N F c s)\<lparr>idmap := b\<rparr> = view B N F c (s\<lparr>idmap := b\<rparr>)"
  by (simp_all add: view_def)

lemma ref_dec_last:
  assumes "N t = 1" and "lock_free (thrdb_lock (krn (sn s)))"
  shows "on_sched_res (ref_dec_and_lock t) (view B N F c s) = Some ((True, sstatus c),
    view B (N(t := 0)) F (rv64_cpu_disable_interrupt c) (with_db (lock_taken (thrdb_lock (krn (sn s)))) s))"
proof -
  let ?k = "krn (sn (view B N F c s))" and ?l = "thrdb_lock (krn (sn s))"
  have "refcnt_dec_and_lock_disable_intr (t_refs (threads ?k t)) (thrdb_lock ?k) (imask ?k) =
      Some (True, 0, sstatus c, lock_taken ?l, rv64_cpu_disable_interrupt c)"
    using assms by (simp add: refcnt_dec_and_lock_disable_intr_def)
  moreover have "(upd_thread t (t_refs_update (\<lambda>_. 0)) ?k)\<lparr>thrdb_lock := lock_taken ?l, imask := rv64_cpu_disable_interrupt c\<rparr> =
      (krn (sn (with_db (lock_taken ?l) s)))\<lparr>threads := (\<lambda>u. (B u)\<lparr>t_refs := of_nat ((N(t := 0)) u)\<rparr>), imask := rv64_cpu_disable_interrupt c\<rparr>"
    by (rule sched.equality) (auto simp: krn_view upd_thread_def with_db_def)
  ultimately have "on_sched_res (ref_dec_and_lock t) (view B N F c s) = Some ((True, sstatus c),
      (view B N F c s)\<lparr>sn := (sn (view B N F c s))\<lparr>krn := (krn (sn (with_db (lock_taken ?l) s)))\<lparr>
        threads := (\<lambda>u. (B u)\<lparr>t_refs := of_nat ((N(t := 0)) u)\<rparr>), imask := rv64_cpu_disable_interrupt c\<rparr>\<rparr>\<rparr>)"
    by (simp only: on_sched_res_def ref_dec_and_lock_def bind.bind_lunit split)
  then show ?thesis by (simp add: view_def with_db_def)
qed

lemma unlock_db_view:
  assumes "lock_free l"
  shows "on_sched (unlock_db f) (view B N F c (with_db (lock_taken l) s)) = Some (view B N F (rv64_cpu_restore_flags f c) (with_db l s))"
  using assms by (simp add: on_sched_def unlock_db_def view_def with_db_def)

text \<open>The notice to the parent.\<close>

lemma rq_inv_view:
  assumes "\<And>u. u \<in> in_ready rd \<Longrightarrow> cur_prio (B' u) = cur_prio (B u) \<and> t_state (B' u) = t_state (B u)"
    and "rlinks (krn (sn s')) = rlinks (krn (sn s))" "bitmap (krn (sn s')) = bitmap (krn (sn s))"
    and "rq_inv rd (krn (sn (view B N F c s)))"
  shows "rq_inv rd (krn (sn (view B' N' F' c' s')))"
proof -
  have "p < SCHED_PRIO_NR \<Longrightarrow> u \<in> set (rd p) \<Longrightarrow> u \<in> in_ready rd" for p u by (auto simp: in_ready_def)
  then show ?thesis
    using assms by (auto simp: rq_inv_def krn_view)
qed

abbreviation woken_entries :: "(nat \<Rightarrow> nat list) \<Rightarrow> 'm thrdb \<Rightarrow> nat \<Rightarrow> nat list" where
  "woken_entries q s w \<equiv> to_wake (wqflag (wqs (sn s) w)) (q w)"

definition sleepers_of :: "(nat \<Rightarrow> nat list) \<Rightarrow> 'm thrdb \<Rightarrow> nat \<Rightarrow> nat list" where
  "sleepers_of q s w = map (\<lambda>e. w_thr (ents (sn s) e)) (to_wake (wqflag (wqs (sn s) w)) (q w))"

text \<open>
  What the notice to the parent keeps besides: the processor and the lock of the ready queue, and of
  each thread whether it can be switched, its processor and its place of resumption.
\<close>

definition same_cpu :: "sched \<Rightarrow> sched \<Rightarrow> bool" where
  "same_cpu k' k \<longleftrightarrow> rq_lock k' = rq_lock k \<and> idle_threads k' = idle_threads k \<and> this_cpu k' = this_cpu k"

definition same_nesting :: "thread \<Rightarrow> thread \<Rightarrow> bool" where
  "same_nesting a b \<longleftrightarrow> preempt (tinfo a) = preempt (tinfo b) \<and> intrcnt (tinfo a) = intrcnt (tinfo b) \<and>
     ti_cpu (tinfo a) = ti_cpu (tinfo b) \<and> ksp a = ksp b"

text \<open>What waking up the threads of wait queue \<open>w\<close> needs besides free locks.\<close>

definition wakeable :: "(nat \<Rightarrow> nat list) \<Rightarrow> (nat \<Rightarrow> nat list) \<Rightarrow> nat \<Rightarrow> (nat \<Rightarrow> thread) \<Rightarrow> (nat \<Rightarrow> nat) \<Rightarrow> 'm thrdb \<Rightarrow> bool" where
  "wakeable q rd w B N s \<longleftrightarrow> wq_inv q (sn s) \<and> lock_free (wq_lock (wqs (sn s) w)) \<and> lock_free (rq_lock (krn (sn s))) \<and>
     distinct (map (\<lambda>e. w_thr (ents (sn s) e)) (q w)) \<and>
     (\<forall>e\<in>set (q w). let t = w_thr (ents (sn s) e) in t \<notin> in_ready rd \<and> cur_prio (B t) < SCHED_PRIO_NR \<and>
        0 < N t \<and> N t < max_refs \<and> lock_free (t_lock (B t)))"

lemma small_word2: "0 < n \<Longrightarrow> n < max_refs \<Longrightarrow> 0 <s (of_nat n :: u32) \<and> 0 <s (of_nat n + 1 :: u32)"
  using small_word [of n] small_word [of "Suc n"] by (simp add: add.commute)

lemma wakeup_view:
  assumes wake: "wakeable q rd w B N s" and rq: "rq_inv rd (krn (sn (view B N F c s)))"
    and free: "lock_free (thrdb_lock (krn (sn s)))" "lock_free (t_lock (B (running s)))"
  shows "\<exists>n s'. wque_wakeup no_last w r (sn (view B N F c s)) = Some n \<and> (view B N F c s)\<lparr>sn := n\<rparr> = view (thr_of s') N F c s' \<and>
    idmap s' = idmap s \<and> thrtree s' = thrtree s \<and> pools s' = pools s \<and> running s' = running s \<and>
    thrdb_lock (krn (sn s')) = thrdb_lock (krn (sn s)) \<and> same_cpu (krn (sn s')) (krn (sn s)) \<and>
    ents (sn s') = with_reason (woken_entries q s w) r (ents (sn s)) \<and>
    (\<forall>t. t_lock (thr_of s' t) = t_lock (B t) \<and> cur_prio (thr_of s' t) = cur_prio (B t) \<and> same_nesting (thr_of s' t) (B t) \<and>
      t_state (thr_of s' t) = (if t \<in> set (sleepers_of q s w) then THR_TSTATE_RUNABLE else t_state (B t))) \<and>
    rq_inv (fold (add_ready (krn (sn (view B N F c s)))) (sleepers_of q s w) rd) (krn (sn (view (thr_of s') N F c s')))"
proof -
  let ?v = "view B N F c s"
  have ents: "ents (sn ?v) = ents (sn s)" "wqs (sn ?v) = wqs (sn s)" by simp_all
  have "can_wake (krn (sn ?v)) t" if "cur_prio (B t) < SCHED_PRIO_NR" "0 < N t" "N t < max_refs" "lock_free (t_lock (B t))" for t
    using that small_word2 [of "N t"] by (simp add: can_wake_def)
  then have "sleepers_ok rd (map (\<lambda>e. w_thr (ents (sn ?v) e)) (q w)) (krn (sn ?v))"
    using wake by (auto simp: sleepers_ok_def wakeable_def Let_def)
  moreover have "wake_locks_free w (sn ?v)"
    using wake free by (simp add: wake_locks_free_def wakeable_def running_def ti_get_current_thread_def)
  moreover have "wq_inv q (sn ?v)" using wake by (simp add: wq_inv_def wakeable_def)
  ultimately have "sync_ok q rd w (sn ?v)" using rq by (simp add: sync_ok_def)
  from wakeup_run [OF this, of r no_last] obtain h b wl where
    "wque_wakeup no_last w r (sn ?v) = Some (after_wakeup (to_wake (wqflag (wqs (sn s) w)) (q w)) r h b wl (sn ?v)) \<and>
     rq_inv (fold (add_ready (krn (sn ?v))) (sleepers_of q s w) rd) (krn (after_wakeup (to_wake (wqflag (wqs (sn s) w)) (q w)) r h b wl (sn ?v)))"
    unfolding Let_def ents sleepers_of_def by blast
  then obtain n where n: "n = after_wakeup (to_wake (wqflag (wqs (sn s) w)) (q w)) r h b wl (sn ?v)"
    and run: "wque_wakeup no_last w r (sn ?v) = Some n"
    and rq': "rq_inv (fold (add_ready (krn (sn ?v))) (sleepers_of q s w) rd) (krn n)"
    by blast
  let ?s = "?v\<lparr>sn := n\<rparr>"
  have w: "threads (krn n) = woken (sleepers_of q s w) (krn (sn ?v))"
    by (simp add: n after_wakeup_def sleepers_of_def)
  have "?s = view (thr_of ?s) N F c ?s"
    by (rule thrdb.equality)
      (auto simp: n view_def thr_of_def after_wakeup_def woken_def intro!: sync.equality sched.equality ext)
  moreover have "t_lock (thr_of ?s t) = t_lock (B t) \<and> cur_prio (thr_of ?s t) = cur_prio (B t) \<and> same_nesting (thr_of ?s t) (B t) \<and>
      t_state (thr_of ?s t) = (if t \<in> set (sleepers_of q s w) then THR_TSTATE_RUNABLE else t_state (B t))" for t
    by (simp add: thr_of_def w woken_def same_nesting_def)
  moreover have "idmap ?s = idmap s \<and> thrtree ?s = thrtree s \<and> pools ?s = pools s \<and> running ?s = running s \<and>
      thrdb_lock (krn (sn ?s)) = thrdb_lock (krn (sn s)) \<and> same_cpu (krn (sn ?s)) (krn (sn s)) \<and>
      ents (sn ?s) = with_reason (woken_entries q s w) r (ents (sn s))"
    by (simp add: n after_wakeup_def running_def ti_get_current_thread_def same_cpu_def krn_view)
  ultimately show ?thesis
    using run rq' by (intro exI [of _ n] exI [of _ ?s]) simp
qed

lemma link_free_view [simp]:
  "link_free t (view B N F c s) \<longleftrightarrow> list_not_linked (Thr t) (rlinks (krn (sn s))) \<and>
     (case parent (F t) of None \<Rightarrow> True | Some p \<Rightarrow> t \<notin> set (waiters (F p)))"
  by (simp add: link_free_def split: option.splits)

lemma notify_run:
  assumes "t \<noteq> p" and par: "parent (F t) = Some p" and link: "t \<notin> set (waiters (F p))"
    and rq: "rq_inv rd (krn (sn (view B N F c s)))" "t \<notin> in_ready rd"
    and wake: "wakeable q rd (pque (F p)) B N s"
    and free: "lock_free (thrdb_lock (krn (sn s)))" "\<And>u. lock_free (t_lock (B u))"
  defines "F' \<equiv> F(p := (F p)\<lparr>waiters := waiters (F p) @ [t]\<rparr>)"
    and "B' \<equiv> B(t := (B t)\<lparr>t_state := THR_TSTATE_DEAD\<rparr>)"
  shows "\<exists>s'. notify_parent_child_exit t (view B N F c s) = Some (view (thr_of s') N F' c s') \<and>
    idmap s' = idmap s \<and> thrtree s' = thrtree s \<and> pools s' = pools s \<and> running s' = running s \<and>
    thrdb_lock (krn (sn s')) = thrdb_lock (krn (sn s)) \<and> same_cpu (krn (sn s')) (krn (sn s)) \<and>
    ents (sn s') = with_reason (woken_entries q s (pque (F p))) WQUE_RELEASED (ents (sn s)) \<and>
    (\<forall>u. t_lock (thr_of s' u) = t_lock (B u) \<and> cur_prio (thr_of s' u) = cur_prio (B u) \<and> same_nesting (thr_of s' u) (B u) \<and>
      t_state (thr_of s' u) = (if u \<in> set (sleepers_of q s (pque (F p))) then THR_TSTATE_RUNABLE else t_state (B' u))) \<and>
    rq_inv (fold (add_ready (krn (sn (view B N F c s)))) (sleepers_of q s (pque (F p))) rd) (krn (sn (view (thr_of s') N F' c s')))"
proof -
  let ?lp = "t_lock (B p)" and ?lt = "t_lock (B t)" and ?c = "rv64_cpu_disable_interrupt c"
  let ?B1 = "B(p := (B p)\<lparr>t_lock := lock_taken ?lp\<rparr>)"
  let ?B2 = "?B1(t := (?B1 t)\<lparr>t_lock := lock_taken (t_lock (?B1 t))\<rparr>)"
  let ?B3 = "?B2(t := t_state_update (\<lambda>_. THR_TSTATE_DEAD) (?B2 t))"
  let ?B4 = "?B3(t := (?B3 t)\<lparr>t_lock := ?lt\<rparr>)"
  let ?B5 = "?B4(p := (?B4 p)\<lparr>t_lock := ?lp\<rparr>)"
  let ?F = "F(p := waiters_update (\<lambda>ws. ws @ [t]) (F p))"
  have linked: "list_not_linked (Thr t) (rlinks (krn (sn s)))"
    using rq_inv_not_linked [OF rq] by simp
  have l1: "on_sched_res (lock_thread_disable_intr p) (view B N F c s) = Some (sstatus c, view ?B1 N F ?c s)"
    by (rule lock_view(2)) (use free in simp)
  have l2: "on_sched (lock_thread t) (view ?B1 N F ?c s) = Some (view ?B2 N F ?c s)"
    by (rule lock_view(1)) (use assms(1) free in simp)
  have l3: "upd_thr t (t_state_update (\<lambda>_. THR_TSTATE_DEAD)) (view ?B2 N ?F ?c s) = view ?B3 N ?F ?c s"
    by (rule upd_thr_view) simp
  have l4: "on_sched (unlock_thread t) (view ?B3 N ?F ?c s) = Some (view ?B4 N ?F ?c s)"
    by (rule unlock_view(1)) (use assms(1) free in simp_all)
  have "on_sched (unlock_thread_restore_intr p (sstatus c)) (view ?B4 N ?F ?c s) =
      Some (view ?B5 N ?F (rv64_cpu_restore_flags (sstatus c) ?c) s)"
    by (rule unlock_view(2)) (use assms(1) free in simp_all)
  moreover have "?B5 = B'" using assms(1) by (auto simp: B'_def fun_eq_iff)
  moreover have "?F = F'" by (cases "F p") (auto simp: F'_def fun_eq_iff)
  ultimately have l5: "on_sched (unlock_thread_restore_intr p (sstatus c)) (view ?B4 N ?F ?c s) = Some (view B' N F' c s)"
    by simp
  have run: "notify_parent_child_exit t (view B N F c s) = do {
      n \<leftarrow> wque_wakeup no_last (pque (F p)) WQUE_RELEASED (sn (view B' N F' c s)); Some ((view B' N F' c s)\<lparr>sn := n\<rparr>) }"
  proof -
    have "link_free t (view B N F c s)" "parent (fam (view B N F c s) t) = Some p" "pque (fam (view B' N F' c s) p) = pque (F p)"
      using linked par link by (simp_all add: F'_def)
    then show ?thesis by (simp only: notify_parent_child_exit_def l1 l2 l3 l4 l5 do_steps)
  qed
  have B': "t_lock (B' u) = t_lock (B u)" "cur_prio (B' u) = cur_prio (B u)" "u \<in> in_ready rd \<Longrightarrow> t_state (B' u) = t_state (B u)"
    "same_nesting a (B' u) = same_nesting a (B u)" for u a
    using rq(2) by (auto simp: B'_def same_nesting_def)
  have "wakeable q rd (pque (F p)) B' N s" using wake by (simp add: wakeable_def B' Let_def)
  moreover have "rq_inv rd (krn (sn (view B' N F' c s)))"
    by (rule rq_inv_view [OF _ _ _ rq(1)]) (use B' in auto)
  moreover have "lock_free (t_lock (B' (running s)))" using free(2) B' by simp
  ultimately obtain n s' where wake': "wque_wakeup no_last (pque (F p)) WQUE_RELEASED (sn (view B' N F' c s)) = Some n"
      "(view B' N F' c s)\<lparr>sn := n\<rparr> = view (thr_of s') N F' c s'"
    and s': "idmap s' = idmap s" "thrtree s' = thrtree s" "pools s' = pools s" "running s' = running s"
      "thrdb_lock (krn (sn s')) = thrdb_lock (krn (sn s))" "same_cpu (krn (sn s')) (krn (sn s))"
      "ents (sn s') = with_reason (woken_entries q s (pque (F p))) WQUE_RELEASED (ents (sn s))"
      "\<forall>u. t_lock (thr_of s' u) = t_lock (B' u) \<and> cur_prio (thr_of s' u) = cur_prio (B' u) \<and> same_nesting (thr_of s' u) (B' u) \<and>
        t_state (thr_of s' u) = (if u \<in> set (sleepers_of q s (pque (F p))) then THR_TSTATE_RUNABLE else t_state (B' u))"
      "rq_inv (fold (add_ready (krn (sn (view B' N F' c s)))) (sleepers_of q s (pque (F p))) rd) (krn (sn (view (thr_of s') N F' c s')))"
    using wakeup_view [of q rd "pque (F p)" B' N s F' c WQUE_RELEASED] free(1) by blast
  have "notify_parent_child_exit t (view B N F c s) = Some (view (thr_of s') N F' c s')"
    by (simp add: run wake')
  moreover have "add_ready (krn (sn (view B' N F' c s))) = add_ready (krn (sn (view B N F c s)))"
    by (intro ext) (simp add: add_ready_def B')
  ultimately show ?thesis
    using s' B' by (intro exI [of _ s']) simp
qed

lemma with_db_base [simp]:
  "(with_db l s)\<lparr>thrtree := m\<rparr> = with_db l (s\<lparr>thrtree := m\<rparr>)" "(with_db l s)\<lparr>idmap := b\<rparr> = with_db l (s\<lparr>idmap := b\<rparr>)"
  "thrtree (with_db l s) = thrtree s" "idmap (with_db l s) = idmap s"
  by (simp_all add: with_db_def)

text \<open>The running thread gives back its last reference.\<close>

lemma release_run:
  assumes t: "t = running s" "N t = 1" and p: "t \<noteq> p" "parent (F t) = Some p" "t \<notin> set (waiters (F p))" "1 < N p" "N p \<le> max_refs"
    and rq: "rq_inv rd (krn (sn (view B N F c s)))" "t \<notin> in_ready rd"
    and wake: "wakeable q rd (pque (F p)) B N s" "t \<notin> set (map (\<lambda>e. w_thr (ents (sn s) e)) (q (pque (F p))))"
    and free: "lock_free (thrdb_lock (krn (sn s)))" "\<And>u. lock_free (t_lock (B u))"
  defines "F' \<equiv> F(p := (F p)\<lparr>waiters := waiters (F p) @ [t]\<rparr>)"
    and "N' \<equiv> N(t := 0, p := N p - 1)"
  shows "\<exists>s'. thread_ref_dec t (view B N F c s) = do {
      k \<leftarrow> on_sched (sched_schedule no_last) (view (thr_of s') N' F' c s'); Some (if running k = t then Released else Gone, k) } \<and>
    idmap s' = bitops_clr (unat (t_id (F t))) (idmap s) \<and> thrtree s' = (thrtree s)(t_id (F t) := None) \<and>
    pools s' = pools s \<and> running s' = running s \<and> thrdb_lock (krn (sn s')) = thrdb_lock (krn (sn s)) \<and>
    same_cpu (krn (sn s')) (krn (sn s)) \<and> ents (sn s') = with_reason (woken_entries q s (pque (F p))) WQUE_RELEASED (ents (sn s)) \<and>
    (\<forall>u. t_lock (thr_of s' u) = t_lock (B u) \<and> cur_prio (thr_of s' u) = cur_prio (B u) \<and> same_nesting (thr_of s' u) (B u) \<and>
      t_state (thr_of s' u) = (if u \<in> set (sleepers_of q s (pque (F p))) then THR_TSTATE_RUNABLE
        else if u = t then THR_TSTATE_DEAD else t_state (B u))) \<and>
    rq_inv (fold (add_ready (krn (sn (view B N F c s)))) (sleepers_of q s (pque (F p))) rd)
      (krn (sn (view (thr_of s') N' F' c s')))"
proof -
  let ?l = "thrdb_lock (krn (sn s))" and ?N = "N(t := 0)"
  define s2 where "s2 = s\<lparr>thrtree := (thrtree s)(t_id (F t) := None), idmap := bitops_clr (unat (t_id (F t))) (idmap s)\<rparr>"
  have s2: "sn s2 = sn s" "running s2 = running s" "pools s2 = pools s" by (simp_all add: s2_def running_def)
  have dec: "on_sched_res (ref_dec_and_lock t) (view B N F c s) = Some ((True, sstatus c),
      view B ?N F (rv64_cpu_disable_interrupt c) (with_db (lock_taken ?l) s))"
    using ref_dec_last [of N t s B F c] t(2) free(1) by simp
  have tree: "(view B ?N F (rv64_cpu_disable_interrupt c) (with_db (lock_taken ?l) s))\<lparr>
      thrtree := (thrtree s)(t_id (F t) := None)\<rparr>\<lparr>idmap := bitops_clr (unat (t_id (F t))) (idmap s)\<rparr> =
      view B ?N F (rv64_cpu_disable_interrupt c) (with_db (lock_taken ?l) s2)"
    by (simp add: s2_def)
  have db: "with_db ?l s2 = s2"
    using with_db_same(1) [of s2] s2(1) by simp
  have unlock: "on_sched (unlock_db (sstatus c)) (view B ?N F (rv64_cpu_disable_interrupt c) (with_db (lock_taken ?l) s2)) =
      Some (view B ?N F c s2)"
    using unlock_db_view [OF free(1), of "sstatus c" B ?N F "rv64_cpu_disable_interrupt c" s2] db by simp
  have rq2: "rq_inv rd (krn (sn (view B ?N F c s2)))"
    by (rule rq_inv_view [OF _ _ _ rq(1)]) (use s2 in simp_all)
  have wake2: "wakeable q rd (pque (F p)) B ?N s2"
    using wake by (auto simp: wakeable_def s2 Let_def)
  have linked: "link_free t (view B ?N F c s2)"
    using rq_inv_not_linked [OF rq(1,2)] p s2(1) by simp
  have free2: "lock_free (thrdb_lock (krn (sn s2)))" using free(1) s2 by simp
  obtain s' where s': "notify_parent_child_exit t (view B ?N F c s2) = Some (view (thr_of s') ?N F' c s')"
      "idmap s' = idmap s2" "thrtree s' = thrtree s2" "pools s' = pools s2" "running s' = running s2"
      "thrdb_lock (krn (sn s')) = thrdb_lock (krn (sn s2))" "same_cpu (krn (sn s')) (krn (sn s2))"
      "ents (sn s') = with_reason (woken_entries q s2 (pque (F p))) WQUE_RELEASED (ents (sn s2))"
      "\<forall>u. t_lock (thr_of s' u) = t_lock (B u) \<and> cur_prio (thr_of s' u) = cur_prio (B u) \<and> same_nesting (thr_of s' u) (B u) \<and>
        t_state (thr_of s' u) = (if u \<in> set (sleepers_of q s2 (pque (F p))) then THR_TSTATE_RUNABLE
          else t_state ((B(t := (B t)\<lparr>t_state := THR_TSTATE_DEAD\<rparr>)) u))"
      "rq_inv (fold (add_ready (krn (sn (view B ?N F c s2)))) (sleepers_of q s2 (pque (F p))) rd) (krn (sn (view (thr_of s') ?N F' c s')))"
    using notify_run [OF p(1,2,3) rq2 rq(2) wake2 free2 free(2)] unfolding F'_def by blast
  have par: "thread_ref_dec p (view (thr_of s') ?N F' c s') = Some (Kept, view (thr_of s') N' F' c s')"
    using dec_view(1) [of ?N p s' "thr_of s'" F' c] p s'(6) s2 free(1) by (simp add: N'_def)
  have facts: "running (view B ?N F c s2) = t" "parent (fam (view (thr_of s') ?N F' c s') t) = Some p" "Kept \<noteq> Gone"
    "fam (view B ?N F (rv64_cpu_disable_interrupt c) (with_db (lock_taken ?l) s)) t = F t"
    "thrtree (view B ?N F (rv64_cpu_disable_interrupt c) (with_db (lock_taken ?l) s)) = thrtree s"
    using t(1) p s2 by (simp_all add: F'_def)
  have rel: "release_tid_nolock (t_id (fam ((view B ?N F (rv64_cpu_disable_interrupt c) (with_db (lock_taken ?l) s))\<lparr>
      thrtree := (thrtree s)(t_id (F t) := None)\<rparr>) t)) ((view B ?N F (rv64_cpu_disable_interrupt c) (with_db (lock_taken ?l) s))\<lparr>
      thrtree := (thrtree s)(t_id (F t) := None)\<rparr>) = view B ?N F (rv64_cpu_disable_interrupt c) (with_db (lock_taken ?l) s2)"
    unfolding tree [symmetric] by (simp add: release_tid_nolock_def)
  have "thread_ref_dec t (view B N F c s) = do {
      k \<leftarrow> on_sched (sched_schedule no_last) (view (thr_of s') N' F' c s'); Some (if running k = t then Released else Gone, k) }"
    by (subst thread_ref_dec.simps) (use linked facts in \<open>simp only: dec do_steps facts rel unlock s'(1) par\<close>)
  moreover have "sleepers_of q s2 = sleepers_of q s" "add_ready (krn (sn (view B ?N F c s2))) = add_ready (krn (sn (view B N F c s)))"
    by (auto simp: sleepers_of_def s2 add_ready_def fun_eq_iff)
  moreover have "rq_inv rd' (krn (sn (view (thr_of s') ?N F' c s'))) \<Longrightarrow> rq_inv rd' (krn (sn (view (thr_of s') N' F' c s')))" for rd'
    by (erule rq_inv_view [rotated 3]) simp_all
  ultimately show ?thesis
    using s' s2 by (intro exI [of _ s']) (simp add: s2_def)
qed

end
