(* ===== verification/ThreadFamily.thy ===== *)
theory ThreadFamily
  imports ThreadRefs
begin

unbundle bit_operations_syntax

text \<open>
  The invariant of the family of the threads, the run of \<open>thr_thread_exit\<close> and of \<open>thr_thread_wait\<close> under
  it, and that both keep it.
\<close>

section \<open>The family of the threads\<close>

definition root :: "'m thrdb \<Rightarrow> nat \<Rightarrow> bool" where
  "root s t \<longleftrightarrow> parent (fam s t) = Some t"

abbreviation live :: "'m thrdb \<Rightarrow> nat set" where
  "live s \<equiv> ran (thrtree s)"

text \<open>
  A thread in the tree has one reference from the tree, one from its parent's queue, one from each
  child, and \<open>h t\<close> that it holds itself: one while it is inside \<open>thr_thread_wait\<close>, asleep or woken up. The
  ended children in \<open>waiters\<close> have none and are out of the tree.
\<close>

definition member_ok :: "(nat \<Rightarrow> nat) \<Rightarrow> 'm thrdb \<Rightarrow> nat \<Rightarrow> bool" where
  "member_ok h s t \<longleftrightarrow> refs_of s t = (if root s t then 1 else 2) + length (children (fam s t)) + h t \<and> h t \<le> 1 \<and>
     distinct (children (fam s t)) \<and>
     (\<forall>c\<in>set (children (fam s t)). c \<in> live s \<and> c \<noteq> t \<and> parent (fam s c) = Some t) \<and>
     (root s t \<or> (\<exists>p\<in>live s. parent (fam s t) = Some p \<and> t \<in> set (children (fam s p)))) \<and>
     distinct (waiters (fam s t)) \<and>
     (\<forall>z\<in>set (waiters (fam s t)). z \<notin> live s \<and> t_state (thr_of s z) = THR_TSTATE_DEAD \<and> refs_of s z = 0 \<and>
        parent (fam s z) = Some t)"

definition ranked :: "'m thrdb \<Rightarrow> (nat \<Rightarrow> nat) \<Rightarrow> bool" where
  "ranked s rank \<longleftrightarrow> (\<forall>t\<in>live s. \<forall>p. parent (fam s t) = Some p \<and> p \<noteq> t \<longrightarrow> rank p < rank t)"

definition family_inv :: "(nat \<Rightarrow> nat) \<Rightarrow> 'm thrdb \<Rightarrow> bool" where
  "family_inv h s \<longleftrightarrow>
     bitmap64 THR_TID_MAX (idmap s) \<and>
     (\<forall>i t. thrtree s i = Some t \<longrightarrow> t_id (fam s t) = i \<and> unat i \<in> bits_of (idmap s)) \<and>
     (\<exists>r. thrtree s THR_TID_REAPER = Some r \<and> root s r) \<and>
     (\<forall>t\<in>live s. member_ok h s t) \<and> (\<exists>rank. ranked s rank)"

lemma family_live:
  assumes "family_inv h s" and "t \<in> live s"
  shows "refs_of s t = (if root s t then 1 else 2) + length (children (fam s t)) + h t \<and> h t \<le> 1" "distinct (children (fam s t))"
    "\<And>c. c \<in> set (children (fam s t)) \<Longrightarrow> c \<in> live s \<and> c \<noteq> t \<and> parent (fam s c) = Some t"
    "\<not> root s t \<Longrightarrow> \<exists>p\<in>live s. parent (fam s t) = Some p \<and> t \<in> set (children (fam s p))"
    "distinct (waiters (fam s t))"
    "\<And>z. z \<in> set (waiters (fam s t)) \<Longrightarrow> z \<notin> live s \<and> t_state (thr_of s z) = THR_TSTATE_DEAD \<and> refs_of s z = 0 \<and> parent (fam s z) = Some t"
    "thrtree s (t_id (fam s t)) = Some t"
proof -
  have "member_ok h s t" using assms by (simp add: family_inv_def)
  then show "refs_of s t = (if root s t then 1 else 2) + length (children (fam s t)) + h t \<and> h t \<le> 1" "distinct (children (fam s t))"
    "\<And>c. c \<in> set (children (fam s t)) \<Longrightarrow> c \<in> live s \<and> c \<noteq> t \<and> parent (fam s c) = Some t"
    "\<not> root s t \<Longrightarrow> \<exists>p\<in>live s. parent (fam s t) = Some p \<and> t \<in> set (children (fam s p))"
    "distinct (waiters (fam s t))"
    "\<And>z. z \<in> set (waiters (fam s t)) \<Longrightarrow> z \<notin> live s \<and> t_state (thr_of s z) = THR_TSTATE_DEAD \<and> refs_of s z = 0 \<and> parent (fam s z) = Some t"
    unfolding member_ok_def by blast+
  show "thrtree s (t_id (fam s t)) = Some t"
    using assms unfolding family_inv_def ran_def by blast
qed

lemma few_live:
  assumes "family_inv h s"
  shows "finite (live s)" "card (live s) \<le> THR_TID_MAX"
proof -
  let ?g = "\<lambda>t. unat (t_id (fam s t))"
  have "inj_on ?g (live s)"
  proof (rule inj_onI)
    fix t u assume "t \<in> live s" "u \<in> live s" "?g t = ?g u"
    then have "t_id (fam s t) = t_id (fam s u)" by (simp only: word_unat_eq_iff)
    then show "t = u" using family_live(7) [OF assms] \<open>t \<in> live s\<close> \<open>u \<in> live s\<close> by (metis option.inject)
  qed
  moreover have "?g ` live s \<subseteq> {..<THR_TID_MAX}"
  proof -
    have "bits_of (idmap s) \<subseteq> {..<THR_TID_MAX}"
      using assms bm64.bits_bound unfolding family_inv_def by blast
    moreover have "?g t \<in> bits_of (idmap s)" if "t \<in> live s" for t
      using family_live(7) [OF assms that] assms unfolding family_inv_def by blast
    ultimately show ?thesis by blast
  qed
  ultimately show "finite (live s)" "card (live s) \<le> THR_TID_MAX"
    using finite_imageD [of ?g "live s"] finite_subset [of "?g ` live s" "{..<THR_TID_MAX}"]
      card_inj_on_le [of ?g "live s" "{..<THR_TID_MAX}"] by simp_all
qed

lemma few_children:
  assumes "family_inv h s" and "t \<in> live s"
  shows "length (children (fam s t)) \<le> 1024" "refs_of s t \<le> 1027" "0 < refs_of s t"
proof -
  have "set (children (fam s t)) \<subseteq> live s" using family_live(3) [OF assms] by blast
  then have "card (set (children (fam s t))) \<le> card (live s)"
    using few_live(1) [OF assms(1)] by (simp add: card_mono)
  then show "length (children (fam s t)) \<le> 1024"
    using distinct_card [OF family_live(2) [OF assms]] few_live(2) [OF assms(1)] by (simp add: THR_TID_MAX_def)
  then show "refs_of s t \<le> 1027" "0 < refs_of s t"
    using family_live(1) [OF assms] by auto
qed

lemma no_cycle:
  assumes "family_inv h s" and "t \<in> live s" "p \<in> live s" "parent (fam s t) = Some p" "parent (fam s p) = Some t" "p \<noteq> t"
  shows False
proof -
  obtain rank where "ranked s rank"
    using assms(1) unfolding family_inv_def by blast
  then have "rank p < rank t" "rank t < rank p" using assms unfolding ranked_def by blast+
  then show False by simp
qed

text \<open>No lock of a thread or of the tree is held.\<close>

definition thr_locks_free :: "'m thrdb \<Rightarrow> bool" where
  "thr_locks_free s \<longleftrightarrow> lock_free (thrdb_lock (krn (sn s))) \<and> (\<forall>t. lock_free (t_lock (thr_of s t)))"

section \<open>Exit\<close>

text \<open>The families after the running thread \<open>t\<close> with parent \<open>p\<close> has ended, its children having gone to \<open>r\<close>.\<close>

definition exited :: "nat \<Rightarrow> nat \<Rightarrow> nat \<Rightarrow> u64 \<Rightarrow> (nat \<Rightarrow> family) \<Rightarrow> nat \<Rightarrow> family" where
  "exited r p t ec F =
     (let F1 = adopted r t (children (F t)) F;
          F2 = F1(p := (F1 p)\<lparr>children := remove1 t (children (F1 p)), waiters := waiters (F1 p) @ [t]\<rparr>)
      in F2(t := (F2 t)\<lparr>exitcode := ec\<rparr>))"

definition exit_refs :: "nat \<Rightarrow> nat \<Rightarrow> nat \<Rightarrow> nat \<Rightarrow> (nat \<Rightarrow> nat) \<Rightarrow> nat \<Rightarrow> nat" where
  "exit_refs r p t n N = (let N1 = N(r := N r + n) in N1(p := N1 p - 1, t := 0))"

definition exit_ready :: "(nat \<Rightarrow> nat list) \<Rightarrow> (nat \<Rightarrow> nat list) \<Rightarrow> nat \<Rightarrow> 'm thrdb \<Rightarrow> bool" where
  "exit_ready q rd w s \<longleftrightarrow> rq_inv rd (krn (sn s)) \<and> running s \<notin> in_ready rd \<and>
     wakeable q rd w (thr_of s) (refs_of s) s \<and> running s \<notin> set (map (\<lambda>e. w_thr (ents (sn s) e)) (q w))"

lemma refs_view: "N u < 2 ^ 32 \<Longrightarrow> refs_of (view B N F c s) u = N u"
  by (simp add: refs_of_def unat_of_nat)

text \<open>What the invariant says of the running thread \<open>t\<close> that ends, its parent \<open>p\<close> and the reaper \<open>r\<close>.\<close>

lemma exit_facts:
  assumes inv: "family_inv h s" and t_live: "t \<in> live s" and p: "parent (fam s t) = Some p" "p \<noteq> t"
    and r: "thrtree s THR_TID_REAPER = Some r"
  shows "r \<noteq> t" "t \<in> set (children (fam s p))" "distinct (children (fam s t))" "t \<notin> set (waiters (fam s p))"
    and "\<And>u. u \<in> set (children (fam s t)) \<Longrightarrow> u \<in> live s \<and> u \<noteq> t \<and> parent (fam s u) = Some t \<and> 1 < refs_of s u \<and> refs_of s u \<le> 1027"
    and "r \<notin> set (children (fam s t))" "t \<notin> set (children (fam s t))" "p \<notin> set (children (fam s t))"
    and "refs_of s t = 2 + length (children (fam s t)) + h t" "1 < refs_of s p" "0 < refs_of s r" "length (children (fam s t)) \<le> 1024"
      "refs_of s t \<le> 1027" "refs_of s p \<le> 1027" "refs_of s r \<le> 1027"
proof -
  let ?F = "fam s" and ?N = "refs_of s" and ?cs = "children (fam s t)"
  have root_r: "root s r" and r_live: "r \<in> live s" using inv r by (auto simp: family_inv_def ran_def)
  have not_root: "\<not> root s t" using p by (simp add: root_def)
  then show "r \<noteq> t" using root_r by auto
  obtain p' where "p' \<in> live s" "parent (fam s t) = Some p'" "t \<in> set (children (fam s p'))"
    using family_live(4) [OF inv t_live not_root] by blast
  then have p_live: "p \<in> live s" and t_child: "t \<in> set (children (?F p))" using p by simp_all
  show "t \<in> set (children (?F p))" "distinct ?cs" by (rule t_child, rule family_live(2) [OF inv t_live])
  have cs: "\<And>u. u \<in> set ?cs \<Longrightarrow> u \<in> live s \<and> u \<noteq> t \<and> parent (?F u) = Some t"
    using family_live(3) [OF inv t_live] by auto
  then show "r \<notin> set ?cs" "t \<notin> set ?cs" "p \<notin> set ?cs"
    using root_r \<open>r \<noteq> t\<close> no_cycle [OF inv t_live p_live] p by (auto simp: root_def)
  show "?N t = 2 + length ?cs + h t" "1 < ?N p" "0 < ?N r" "length ?cs \<le> 1024" "?N t \<le> 1027" "?N p \<le> 1027" "?N r \<le> 1027"
    using family_live(1) [OF inv t_live] family_live(1) [OF inv p_live] not_root t_child
      few_children [OF inv t_live] few_children [OF inv p_live] few_children [OF inv r_live]
    by (auto simp: length_pos_if_in_set)
  show "u \<in> live s \<and> u \<noteq> t \<and> parent (?F u) = Some t \<and> 1 < ?N u \<and> ?N u \<le> 1027" if "u \<in> set ?cs" for u
  proof -
    have "u \<in> live s" "\<not> root s u" using cs [OF that] by (auto simp: root_def)
    then show ?thesis using cs [OF that] family_live(1) [OF inv, of u] few_children [OF inv, of u] by auto
  qed
  show "t \<notin> set (waiters (?F p))"
    using family_live(6) [OF inv p_live, of t] t_live by blast
qed

text \<open>\<open>thr_thread_exit\<close> up to the call that gives back the last reference of the thread.\<close>

lemma exit_steps:
  assumes inv: "family_inv h s" and live: "t \<in> live s" and run: "running s = t" and p: "parent (fam s t) = Some p" "p \<noteq> t"
    and r: "thrtree s THR_TID_REAPER = Some r" and locks: "thr_locks_free s" and idle_refs: "h t = 0"
    and rq: "rq_inv rd (krn (sn s))" "t \<notin> in_ready rd"
  shows "\<exists>B N F. thr_thread_exit ec s = do { (x, s8) \<leftarrow> thread_ref_dec t (view B N F (imask (krn (sn s))) s);
      if x = Gone then Some (False, s8) else do { s9 \<leftarrow> on_sched (sched_schedule no_last) s8; Some (running s9 = t, s9) } } \<and>
    (\<forall>u. t_lock (B u) = t_lock (thr_of s u) \<and> cur_prio (B u) = cur_prio (thr_of s u) \<and> same_nesting (B u) (thr_of s u) \<and>
      (u \<noteq> t \<longrightarrow> B u = thr_of s u)) \<and>
    N t = 1 \<and> 1 < N p \<and> N p \<le> max_refs \<and> N r = refs_of s r + length (children (fam s t)) \<and>
    (\<forall>u. u \<noteq> t \<longrightarrow> u \<noteq> r \<longrightarrow> N u = refs_of s u) \<and>
    N(t := 0, p := N p - 1) = exit_refs r p t (length (children (fam s t))) (refs_of s) \<and>
    parent (F t) = Some p \<and> waiters (F p) = waiters (fam s p) \<and> pque (F p) = pque (fam s p) \<and> t_id (F t) = t_id (fam s t) \<and>
    F(p := (F p)\<lparr>waiters := waiters (F p) @ [t]\<rparr>) = exited r p t ec (fam s)"
proof -
  let ?F = "fam s" and ?N = "refs_of s" and ?B = "thr_of s" and ?c = "imask (krn (sn s))" and ?cs = "children (fam s t)"
  note facts = exit_facts [OF inv live p r, unfolded idle_refs add_0_right]
  have free: "lock_free (thrdb_lock (krn (sn s)))" "\<And>u. lock_free (t_lock (?B u))"
    using locks by (simp_all add: thr_locks_free_def)
  let ?N1 = "?N(t := ?N t + 1)" and ?B1 = "?B(t := (?B t)\<lparr>t_lock := lock_taken (t_lock (?B t))\<rparr>)" and ?c1 = "rv64_cpu_disable_interrupt ?c"
  let ?N2 = "?N1(t := ?N1 t - length ?cs, r := ?N1 r + length ?cs)" and ?F2 = "adopted r t ?cs ?F"
  let ?N3 = "?N2(t := ?N2 t - 1)" and ?F3 = "?F2(p := (?F2 p)\<lparr>children := remove1 t (children (?F2 p))\<rparr>)"
  let ?F4 = "?F3(t := exitcode_update (\<lambda>_. ec) (?F3 t))" and ?B4 = "?B1(t := t_state_update (\<lambda>_. THR_TSTATE_EXIT) (?B1 t))"
  let ?B5 = "?B4(t := (?B4 t)\<lparr>t_lock := t_lock (?B t)\<rparr>)" and ?N5 = "?N3(t := ?N3 t - 1)"
  have start: "on_sched_res (thr_ref_inc t) s = Some (True, view ?B ?N1 ?F ?c s)"
    using inc_view [of ?N t ?B ?F ?c s] facts by (simp add: view_self)
  have lock: "on_sched_res (lock_thread_disable_intr t) (view ?B ?N1 ?F ?c s) = Some (sstatus ?c, view ?B1 ?N1 ?F ?c1 s)"
    by (rule lock_view(2)) (rule free(2))
  have link: "link_free t (view ?B1 ?N1 ?F ?c1 s)"
    using rq_inv_not_linked [OF rq] facts(4) p by simp
  have orphans: "handle_orphan_thread t (view ?B1 ?N1 ?F ?c1 s) = Some (view ?B1 ?N2 ?F2 ?c1 s)"
  proof (rule orphans_run [OF r])
    show "\<forall>u\<in>set ?cs. 1 < ?N1 u \<and> ?N1 u + 2 < max_refs \<and> lock_free (t_lock (?B1 u)) \<and> parent (?F u) = Some t"
    proof
      fix u assume "u \<in> set ?cs"
      then show "1 < ?N1 u \<and> ?N1 u + 2 < max_refs \<and> lock_free (t_lock (?B1 u)) \<and> parent (?F u) = Some t"
        using facts(5) [of u] free(2) by auto
    qed
  qed (use facts free in simp_all)
  have par: "parent (fam (view ?B1 ?N2 ?F2 ?c1 s) t) = Some p"
    using p by (simp add: adopted_def)
  have del: "del_child_thread_nolock t p (view ?B1 ?N2 ?F2 ?c1 s) = Some (view ?B1 ?N3 ?F3 ?c1 s)"
    by (rule del_child_run) (use facts p free in \<open>auto simp: adopted_def\<close>)
  have state: "upd_thr t (t_state_update (\<lambda>_. THR_TSTATE_EXIT)) (view ?B1 ?N3 ?F4 ?c1 s) = view ?B4 ?N3 ?F4 ?c1 s"
    by (rule upd_thr_view) simp
  have "on_sched (unlock_thread_restore_intr t (sstatus ?c)) (view ?B4 ?N3 ?F4 ?c1 s) =
      Some (view ?B5 ?N3 ?F4 (rv64_cpu_restore_flags (sstatus ?c) ?c1) s)"
    by (rule unlock_view(2)) (use free in simp_all)
  then have unlock: "on_sched (unlock_thread_restore_intr t (sstatus ?c)) (view ?B4 ?N3 ?F4 ?c1 s) = Some (view ?B5 ?N3 ?F4 ?c s)"
    by simp
  have dec: "thread_ref_dec t (view ?B5 ?N3 ?F4 ?c s) = Some (Kept, view ?B5 ?N5 ?F4 ?c s)"
    by (rule dec_view(1)) (use facts free in simp_all)
  have "thr_thread_exit ec s = do { (x, s8) \<leftarrow> thread_ref_dec t (view ?B5 ?N5 ?F4 ?c s);
      if x = Gone then Some (False, s8) else do { s9 \<leftarrow> on_sched (sched_schedule no_last) s8; Some (running s9 = t, s9) } }"
    by (simp only: thr_thread_exit_def run start lock link orphans par del state unlock dec do_steps ref_result.distinct)
  moreover have "\<forall>u. t_lock (?B5 u) = t_lock (?B u) \<and> cur_prio (?B5 u) = cur_prio (?B u) \<and> same_nesting (?B5 u) (?B u) \<and>
      (u \<noteq> t \<longrightarrow> ?B5 u = ?B u)"
    by (simp add: same_nesting_def)
  moreover have "?N5 t = 1" "1 < ?N5 p" "?N5 p \<le> max_refs" "\<forall>u. u \<noteq> t \<longrightarrow> u \<noteq> r \<longrightarrow> ?N5 u = ?N u" "?N5 r = ?N r + length ?cs"
    using facts p(2) by auto
  moreover have "?N5(t := 0, p := ?N5 p - 1) = exit_refs r p t (length ?cs) ?N"
    using facts p(2) by (auto simp: exit_refs_def Let_def fun_eq_iff)
  moreover have "parent (?F4 t) = Some p" "waiters (?F4 p) = waiters (?F p)" "pque (?F4 p) = pque (?F p)" "t_id (?F4 t) = t_id (?F t)"
    using p facts by (auto simp: adopted_def)
  moreover have "?F4(p := (?F4 p)\<lparr>waiters := waiters (?F4 p) @ [t]\<rparr>) = exited r p t ec ?F"
    using p(2) by (auto simp: exited_def Let_def fun_eq_iff)
  ultimately show ?thesis
    by (intro exI [of _ ?B5] exI [of _ ?N5] exI [of _ ?F4] conjI)
qed

text \<open>
  The calls of the scheduler of the dead thread \<open>t\<close>: one in \<open>thr_ref_dec\<close>, and if that comes back, one at
  the end of \<open>thr_thread_exit\<close>.
\<close>

definition leave_processor :: "nat \<Rightarrow> 'm thrdb \<Rightarrow> (bool \<times> 'm thrdb) option" where
  "leave_processor t e = do {
     k \<leftarrow> on_sched (sched_schedule no_last) e;
     if running k \<noteq> t then Some (False, k)
     else do { k' \<leftarrow> on_sched (sched_schedule no_last) k; Some (running k' = t, k') }
   }"

lemma exit_run:
  assumes inv: "family_inv h s" and live: "running s \<in> live s" and p: "parent (fam s (running s)) = Some p" "p \<noteq> running s"
    and r: "thrtree s THR_TID_REAPER = Some r" and locks: "thr_locks_free s" and idle_refs: "h (running s) = 0" and ready: "exit_ready q rd (pque (fam s p)) s"
  defines "t \<equiv> running s"
  shows "\<exists>e. thr_thread_exit ec s = leave_processor t e \<and>
    fam e = exited r p t ec (fam s) \<and> refs_of e = exit_refs r p t (length (children (fam s t))) (refs_of s) \<and>
    idmap e = bitops_clr (unat (t_id (fam s t))) (idmap s) \<and> thrtree e = (thrtree s)(t_id (fam s t) := None) \<and>
    pools e = pools s \<and> running e = t \<and> thr_locks_free e \<and>
    ents (sn e) = with_reason (woken_entries q s (pque (fam s p))) WQUE_RELEASED (ents (sn s)) \<and>
    same_cpu (krn (sn e)) (krn (sn s)) \<and> imask (krn (sn e)) = imask (krn (sn s)) \<and>
    (\<forall>u. cur_prio (thr_of e u) = cur_prio (thr_of s u) \<and> same_nesting (thr_of e u) (thr_of s u)) \<and>
    (\<forall>u. t_state (thr_of e u) = (if u \<in> set (sleepers_of q s (pque (fam s p))) then THR_TSTATE_RUNABLE
      else if u = t then THR_TSTATE_DEAD else t_state (thr_of s u))) \<and>
    rq_inv (fold (add_ready (krn (sn s))) (sleepers_of q s (pque (fam s p))) rd) (krn (sn e))"
proof -
  let ?F = "fam s" and ?N = "refs_of s" and ?B = "thr_of s" and ?c = "imask (krn (sn s))" and ?cs = "children (fam s t)"
    and ?w = "pque (fam s p)"
  note p = p [folded t_def]
  have cur: "running s = t" by (simp add: t_def)
  note facts = exit_facts [OF inv live [folded t_def] p r, unfolded idle_refs [folded t_def] add_0_right]
  note ready' = ready [unfolded exit_ready_def, folded t_def]
  have free: "lock_free (thrdb_lock (krn (sn s)))" "\<And>u. lock_free (t_lock (?B u))"
    using locks by (simp_all add: thr_locks_free_def)
  have rq: "rq_inv rd (krn (sn s))" "t \<notin> in_ready rd" using ready' by blast+
  from exit_steps [OF inv live [folded t_def] cur p r locks idle_refs [folded t_def] rq, of ec]
  obtain B N F where run: "thr_thread_exit ec s = do { (x, s8) \<leftarrow> thread_ref_dec t (view B N F ?c s);
      if x = Gone then Some (False, s8) else do { s9 \<leftarrow> on_sched (sched_schedule no_last) s8; Some (running s9 = t, s9) } }"
    and B: "\<forall>u. t_lock (B u) = t_lock (?B u) \<and> cur_prio (B u) = cur_prio (?B u) \<and> same_nesting (B u) (?B u) \<and> (u \<noteq> t \<longrightarrow> B u = ?B u)"
    and N: "N t = 1" "1 < N p" "N p \<le> max_refs" "N r = ?N r + length ?cs" "\<forall>u. u \<noteq> t \<longrightarrow> u \<noteq> r \<longrightarrow> N u = ?N u"
      "N(t := 0, p := N p - 1) = exit_refs r p t (length ?cs) ?N"
    and F: "parent (F t) = Some p" "waiters (F p) = waiters (?F p)" "pque (F p) = ?w" "t_id (F t) = t_id (?F t)"
      "F(p := (F p)\<lparr>waiters := waiters (F p) @ [t]\<rparr>) = exited r p t ec ?F"
    by blast
  have rqv: "rq_inv rd (krn (sn (view B N F ?c s)))"
  proof (rule rq_inv_view [where B = ?B and N = ?N and F = ?F and c = ?c and s = s])
    show "cur_prio (B u) = cur_prio (?B u) \<and> t_state (B u) = t_state (?B u)" if "u \<in> in_ready rd" for u
      using that rq(2) B by (cases "u = t") simp_all
  qed (use rq view_self [of s] in simp_all)
  have wake: "wakeable q rd ?w B N s"
  proof -
    have "0 < N u \<and> N u < max_refs" if "0 < ?N u" "?N u < max_refs" "u \<noteq> t" for u
      using that N(4,5) facts by (cases "u = r") auto
    moreover have "w_thr (ents (sn s) x) \<noteq> t" if "x \<in> set (q ?w)" for x
      using that ready' by auto
    ultimately show ?thesis
      using ready' B unfolding wakeable_def Let_def by metis
  qed
  have away: "t \<noteq> p" "t \<notin> set (waiters (F p))" "wakeable q rd (pque (F p)) B N s" "\<And>u. lock_free (t_lock (B u))"
    "t \<notin> set (map (\<lambda>e. w_thr (ents (sn s) e)) (q (pque (F p))))"
    using p(2) facts(4) wake free(2) B ready' by (simp_all add: F)
  obtain s' where s': "thread_ref_dec t (view B N F ?c s) = do {
      k \<leftarrow> on_sched (sched_schedule no_last) (view (thr_of s') (exit_refs r p t (length ?cs) ?N) (exited r p t ec ?F) ?c s'); Some (if running k = t then Released else Gone, k) }"
    "idmap s' = bitops_clr (unat (t_id (?F t))) (idmap s)" "thrtree s' = (thrtree s)(t_id (?F t) := None)"
    "pools s' = pools s" "running s' = running s" "thrdb_lock (krn (sn s')) = thrdb_lock (krn (sn s))"
    "\<forall>u. t_lock (thr_of s' u) = t_lock (B u) \<and> cur_prio (thr_of s' u) = cur_prio (B u) \<and> same_nesting (thr_of s' u) (B u) \<and>
      t_state (thr_of s' u) = (if u \<in> set (sleepers_of q s ?w) then THR_TSTATE_RUNABLE
        else if u = t then THR_TSTATE_DEAD else t_state (B u))"
    "rq_inv (fold (add_ready (krn (sn (view B N F ?c s)))) (sleepers_of q s ?w) rd)
      (krn (sn (view (thr_of s') (exit_refs r p t (length ?cs) ?N) (exited r p t ec ?F) ?c s')))"
    "same_cpu (krn (sn s')) (krn (sn s))" "ents (sn s') = with_reason (woken_entries q s ?w) WQUE_RELEASED (ents (sn s))"
    using release_run [OF cur [symmetric] N(1) away(1) F(1) away(2) N(2,3) rqv rq(2) away(3,5) free(1) away(4)]
    unfolding F(3,4,5) N(6) by blast
  let ?e = "view (thr_of s') (exit_refs r p t (length ?cs) ?N) (exited r p t ec ?F) ?c s'"
  have "thr_thread_exit ec s = leave_processor t ?e"
    unfolding run s'(1) leave_processor_def by (cases "on_sched (sched_schedule no_last) ?e") auto
  moreover have "same_cpu (krn (sn ?e)) (krn (sn s))" "cur_prio (thr_of ?e u) = cur_prio (?B u)" "same_nesting (thr_of ?e u) (?B u)" for u
    using s'(7,9) B by (simp_all add: same_cpu_def krn_view same_nesting_def)
  moreover have "refs_of ?e = exit_refs r p t (length ?cs) (refs_of s)"
  proof
    fix u
    have "?N u < 2 ^ 32"
      using unsigned_less [of "t_refs (thr_of s u)"] by (simp add: refs_of_def)
    then have "exit_refs r p t (length ?cs) ?N u < 2 ^ 32"
      using facts by (auto simp: exit_refs_def Let_def less_imp_diff_less)
    then show "refs_of ?e u = exit_refs r p t (length ?cs) (refs_of s) u" by (rule refs_view)
  qed
  moreover have "thr_locks_free ?e" using s'(6,7) free B by (simp add: thr_locks_free_def)
  moreover have "t_state (thr_of ?e u) = (if u \<in> set (sleepers_of q s ?w) then THR_TSTATE_RUNABLE
      else if u = t then THR_TSTATE_DEAD else t_state (thr_of s u))" for u
    using s'(7) B by simp
  moreover have "add_ready (krn (sn (view B N F ?c s))) = add_ready (krn (sn s))"
    using B by (intro ext) (simp add: add_ready_def thr_of_def)
  ultimately show ?thesis
    using s' cur by (intro exI [of _ ?e]) simp
qed

section \<open>The processor of a dead thread\<close>

text \<open>
  While dispatching is disabled the scheduler comes back both times; otherwise the processor goes to the
  thread that the ready queue gives.
\<close>

definition with_request :: "'m thrdb \<Rightarrow> 'm thrdb" where
  "with_request e = e\<lparr>sn := (sn e)\<lparr>krn := upd_ti (running e) (flags_update (\<lambda>f. f OR TI_DISPATCH_DELAYED)) (krn (sn e))\<rparr>\<rparr>"

lemma leave_disabled:
  assumes "ti_dispatch_disabled (krn (sn e))" and "thr_locks_free e"
  shows "leave_processor (running e) e = Some (True, with_request e)"
proof -
  have cur: "current (krn (sn e)) = running e" by (simp add: running_def ti_get_current_thread_def)
  let ?k = "upd_ti (running e) (flags_update (\<lambda>f. f OR TI_DISPATCH_DELAYED)) (krn (sn e))"
  have free: "lock_free (t_lock (threads (krn (sn e)) (running e)))"
    using assms(2) by (simp add: thr_locks_free_def thr_of_def)
  have first: "on_sched (sched_schedule no_last) e = Some (with_request e)"
    using schedule_disabled [of "krn (sn e)" no_last] assms(1) free
    by (simp add: on_sched_def with_request_def cur)
  have k: "ti_dispatch_disabled ?k" "lock_free (t_lock (threads ?k (current ?k)))" "current ?k = running e"
    using assms(1) free by (simp_all add: dispatch_disabled_iff ti_get_current_thread_info_def upd_ti_def cur)
  have "upd_ti (running e) (flags_update (\<lambda>f. f OR TI_DISPATCH_DELAYED)) ?k = ?k"
    by (rule sched.equality) (auto simp: upd_ti_def upd_thread_def intro!: ext thread.equality thread_info.equality)
  then have second: "on_sched (sched_schedule no_last) (with_request e) = Some (with_request e)"
    using schedule_disabled [OF k(1,2), of no_last] k(3) by (simp add: on_sched_def with_request_def)
  have "running (with_request e) = running e"
    using k(3) by (simp add: with_request_def running_def ti_get_current_thread_def)
  then show ?thesis by (simp add: leave_processor_def first second)
qed

lemma leave_enabled:
  assumes ok: "sched_ok rd (krn (sn e))" and enabled: "\<not> ti_dispatch_disabled (krn (sn e))"
    and idle: "idle_threads (krn (sn e)) (this_cpu (krn (sn e))) = Some idle" and pick: "rq_pick rd idle = (nxt, rd')"
    and other: "nxt \<noteq> running e" and dead: "t_state (thr_of e (running e)) = THR_TSTATE_DEAD"
  shows "\<exists>k. leave_processor (running e) e = Some (False, k) \<and> running k = nxt \<and>
    k = e\<lparr>sn := (sn e)\<lparr>krn := krn (sn k)\<rparr>\<rparr> \<and> rq_inv rd' (krn (sn k)) \<and> thr_locks_free k \<and>
    (\<forall>u. u \<noteq> nxt \<longrightarrow> t_state (thr_of k u) = t_state (thr_of e u)) \<and> refs_of k = refs_of e"
proof -
  have cur: "current (krn (sn e)) = running e" by (simp add: running_def ti_get_current_thread_def)
  have put: "\<not> t_state (threads (krn (sn e)) (current (krn (sn e)))) = THR_TSTATE_RUN"
    using dead by (simp add: cur thr_of_def)
  obtain k where k: "sched_schedule no_last (krn (sn e)) = Some k" "current k = nxt" "thrdb_lock k = thrdb_lock (krn (sn e))"
      "rq_inv rd' k" and t: "threads k (running e) = (left_behind False (threads (krn (sn e)) (running e)))\<lparr>ksp := InSchedule (sstatus (imask (krn (sn e))))\<rparr>"
    and n: "threads k nxt = threads (krn (sn e)) nxt \<or> threads k nxt = resumed (this_cpu (krn (sn e))) (threads (krn (sn e)) nxt)"
    and u: "\<forall>u. u = running e \<or> u = nxt \<or> threads k u = threads (krn (sn e)) u"
    using schedule_cases [OF ok idle pick, of no_last] enabled other put
    by (cases "ksp (threads (krn (sn e)) nxt)") (auto simp: cur rq_put_back_def)
  let ?k = "e\<lparr>sn := (sn e)\<lparr>krn := k\<rparr>\<rparr>"
  have "leave_processor (running e) e = Some (False, ?k)"
    using k(1,2) other by (simp add: leave_processor_def on_sched_def running_def ti_get_current_thread_def)
  moreover have same: "t_lock (threads k u) = t_lock (threads (krn (sn e)) u) \<and> t_refs (threads k u) = t_refs (threads (krn (sn e)) u) \<and>
      (u \<noteq> nxt \<longrightarrow> t_state (threads k u) = t_state (threads (krn (sn e)) u))" for u
    using t n u other by (cases "u = running e"; cases "u = nxt") (auto simp: left_behind_def resumed_def)
  moreover have "thr_locks_free ?k"
    using ok same k(3) by (simp add: thr_locks_free_def sched_ok_def thr_of_def)
  ultimately show ?thesis
    using k same by (intro exI [of _ ?k]) (simp add: running_def ti_get_current_thread_def thr_of_def refs_of_def fun_eq_iff)
qed
section \<open>The invariant\<close>

lemma exited_simps:
  assumes "r \<noteq> t" "p \<noteq> t" "p \<notin> set (children (F t))" "r \<notin> set (children (F t))"
  shows "t_id (exited r p t ec F u) = t_id (F u)"
    and "parent (exited r p t ec F u) = (if u \<in> set (children (F t)) \<and> u \<noteq> t then Some r else parent (F u))"
    and "u \<noteq> t \<Longrightarrow> children (exited r p t ec F u) = (if u = p then remove1 t else id) ((if u = r then \<lambda>cs. cs @ children (F t) else id) (children (F u)))"
    and "waiters (exited r p t ec F u) = (if u = p then waiters (F u) @ [t] else waiters (F u))"
    and "exitcode (exited r p t ec F t) = ec" "kstack_top (exited r p t ec F u) = kstack_top (F u)" "pque (exited r p t ec F u) = pque (F u)"
    and "children (exited r p t ec F t) = []"
  using assms by (auto simp: exited_def adopted_def Let_def)

text \<open>\<open>e\<close> is \<open>s\<close> after \<open>t\<close> with parent \<open>p\<close> has ended with code \<open>ec\<close> and its children have gone to \<open>r\<close>.\<close>

definition ended :: "nat \<Rightarrow> nat \<Rightarrow> nat \<Rightarrow> u64 \<Rightarrow> 'm thrdb \<Rightarrow> 'm thrdb \<Rightarrow> bool" where
  "ended r p t ec s e \<longleftrightarrow>
     fam e = exited r p t ec (fam s) \<and> refs_of e = exit_refs r p t (length (children (fam s t))) (refs_of s) \<and>
     idmap e = bitops_clr (unat (t_id (fam s t))) (idmap s) \<and> thrtree e = (thrtree s)(t_id (fam s t) := None) \<and>
     (\<forall>u. t_state (thr_of s u) = THR_TSTATE_DEAD \<longrightarrow> refs_of s u = 0 \<longrightarrow> t_state (thr_of e u) = THR_TSTATE_DEAD) \<and>
     t_state (thr_of e t) = THR_TSTATE_DEAD"

lemma exit_live:
  assumes inv: "family_inv h s" and t: "t \<in> live s" and tree: "thrtree e = (thrtree s)(t_id (fam s t) := None)"
  shows "live e = live s - {t}"
proof (rule set_eqI)
  fix u
  let ?id = "t_id (fam s t)"
  have tid: "thrtree s i = Some u \<Longrightarrow> t_id (fam s u) = i" "thrtree s ?id = Some t" for i u
    using inv family_live(7) [OF inv t] unfolding family_inv_def by blast+
  have "u \<in> live e \<longleftrightarrow> (\<exists>i. i \<noteq> ?id \<and> thrtree s i = Some u)"
    by (simp add: ran_def tree) blast
  also have "\<dots> \<longleftrightarrow> u \<in> live s - {t}"
  proof
    assume "\<exists>i. i \<noteq> ?id \<and> thrtree s i = Some u"
    then obtain i where i: "i \<noteq> ?id" "thrtree s i = Some u" by blast
    have "u \<noteq> t" using tid(1) [OF i(2)] i(1) by blast
    then show "u \<in> live s - {t}" using i(2) by (simp add: ranI)
  next
    assume "u \<in> live s - {t}"
    then have "thrtree s (t_id (fam s u)) = Some u" "u \<noteq> t" using family_live(7) [OF inv] by simp_all
    moreover have "t_id (fam s u) \<noteq> ?id"
      using calculation tid(2) by (metis option.inject)
    ultimately show "\<exists>i. i \<noteq> ?id \<and> thrtree s i = Some u" by blast
  qed
  finally show "u \<in> live e \<longleftrightarrow> u \<in> live s - {t}" .
qed

lemma exit_numbers:
  assumes inv: "family_inv h s" and t: "t \<in> live s"
    and e: "thrtree e = (thrtree s)(t_id (fam s t) := None)" "idmap e = bitops_clr (unat (t_id (fam s t))) (idmap s)"
    and ids: "\<And>u. t_id (fam e u) = t_id (fam s u)"
  shows "bitmap64 THR_TID_MAX (idmap e)" and "thrtree e i = Some u \<Longrightarrow> t_id (fam e u) = i \<and> unat i \<in> bits_of (idmap e)"
proof -
  let ?id = "t_id (fam s t)"
  have bound: "bits_of (idmap s) \<subseteq> {..<THR_TID_MAX}" and map: "bitmap64 THR_TID_MAX (idmap s)"
    and used: "\<And>i u. thrtree s i = Some u \<Longrightarrow> t_id (fam s u) = i \<and> unat i \<in> bits_of (idmap s)"
    using inv bm64.bits_bound unfolding family_inv_def by blast+
  have clr: "bitmap64 THR_TID_MAX (idmap e)" "bits_of (idmap e) = bits_of (idmap s) - {unat ?id}"
    using bm64.clr_bit [OF map, of "unat ?id"] used [OF family_live(7) [OF inv t]] bound unfolding e(2) by auto
  show "bitmap64 THR_TID_MAX (idmap e)" by (rule clr(1))
  show "t_id (fam e u) = i \<and> unat i \<in> bits_of (idmap e)" if "thrtree e i = Some u"
  proof -
    have "i \<noteq> ?id" "thrtree s i = Some u" using that by (auto simp: e(1) split: if_splits)
    moreover have "unat i \<noteq> unat ?id" using \<open>i \<noteq> ?id\<close> by (simp only: word_unat_eq_iff not_False_eq_True)
    ultimately show ?thesis using used [of i u] unfolding ids clr(2) by blast
  qed
qed

text \<open>The children of a thread \<open>u\<close> that stays.\<close>

lemma exit_children:
  assumes inv: "family_inv h s" and t: "t \<in> live s" and p: "parent (fam s t) = Some p" "p \<noteq> t"
    and r: "thrtree s THR_TID_REAPER = Some r" and e: "ended r p t ec s e" and u: "u \<in> live s" "u \<noteq> t"
  shows "refs_of e u = (if root e u then 1 else 2) + length (children (fam e u)) + h u" and "distinct (children (fam e u))"
    and "c \<in> set (children (fam e u)) \<Longrightarrow> c \<in> live e \<and> c \<noteq> u \<and> parent (fam e c) = Some u"
proof -
  let ?F = "fam s" and ?cs = "children (fam s t)"
  note facts = exit_facts [OF inv t p r]
  note fe = e [unfolded ended_def, THEN conjunct1] and re = e [unfolded ended_def, THEN conjunct2, THEN conjunct1]
  note ex = exited_simps [of r t p ?F, OF facts(1) p(2) facts(8,6), where ec = ec, folded fe]
  note kids = ex(3) [OF u(2)] and old = family_live [OF inv u(1)]
  have live_e: "live e = live s - {t}" using exit_live [OF inv t] e unfolding ended_def by blast
  have root_r: "root s r" using inv r by (auto simp: family_inv_def)
  then have root_e: "root e u \<longleftrightarrow> root s u"
    using facts(1) facts(5) [of u] u(2) by (auto simp: root_def ex)
  have apart: "u = r \<Longrightarrow> set (children (?F r)) \<inter> set ?cs = {}"
    using old(3) facts(1,5) by fastforce
  show "refs_of e u = (if root e u then 1 else 2) + length (children (fam e u)) + h u"
    unfolding root_e kids re using old(1) u facts(2) length_pos_if_in_set [OF facts(2)]
    by (auto simp: exit_refs_def Let_def length_remove1)
  show "distinct (children (fam e u))"
    unfolding kids using old(2) apart facts(3) by auto
  show "c \<in> live e \<and> c \<noteq> u \<and> parent (fam e c) = Some u" if "c \<in> set (children (fam e u))"
  proof (cases "c \<in> set ?cs")
    case True
    have "c \<notin> set (children (?F u))" using old(3) [of c] facts(5) [OF True] u by auto
    then have "u = r" using that True unfolding kids by (auto split: if_splits dest!: subsetD [OF set_remove1_subset])
    then show ?thesis using True facts(5) [OF True] facts(6,8) root_r unfolding live_e by (auto simp: ex root_def)
  next
    case False
    then have c: "c \<in> set (children (?F u))" using that unfolding kids by (auto split: if_splits dest!: subsetD [OF set_remove1_subset])
    have "c \<noteq> t"
    proof
      assume "c = t"
      then have "u = p" using old(3) [OF c] p by simp
      moreover have "t \<notin> set (remove1 t ((if u = r then \<lambda>cs. cs @ ?cs else id) (children (?F u))))"
        using old(2) apart facts(3,7) by auto
      ultimately show False using that \<open>c = t\<close> unfolding kids by auto
    qed
    then show ?thesis using old(3) [OF c] False unfolding live_e by (auto simp: ex)
  qed
qed

text \<open>Its parent.\<close>

lemma exit_parent:
  assumes inv: "family_inv h s" and t: "t \<in> live s" and p: "parent (fam s t) = Some p" "p \<noteq> t"
    and r: "thrtree s THR_TID_REAPER = Some r" and e: "ended r p t ec s e" and u: "u \<in> live s" "u \<noteq> t"
  shows "root e u \<or> (\<exists>p\<in>live e. parent (fam e u) = Some p \<and> u \<in> set (children (fam e p)))"
proof -
  let ?F = "fam s" and ?cs = "children (fam s t)"
  note facts = exit_facts [OF inv t p r]
  note fe = e [unfolded ended_def, THEN conjunct1]
  note ex = exited_simps [of r t p ?F, OF facts(1) p(2) facts(8,6), where ec = ec, folded fe]
  have live_e: "live e = live s - {t}" using exit_live [OF inv t] e unfolding ended_def by blast
  have r_live: "r \<in> live s" using r by (rule ranI)
  show ?thesis
  proof (cases "u \<in> set ?cs")
    case True
    have "u \<in> set (children (fam e r))" using True u unfolding ex(3) [OF facts(1)] by (auto simp: in_set_remove1)
    then show ?thesis using True u r_live facts(1) unfolding live_e by (auto simp: ex)
  next
    case False
    show ?thesis
    proof (cases "root s u")
      case True
      then show ?thesis using \<open>u \<notin> set ?cs\<close> by (simp add: root_def ex)
    next
      case False
      then obtain p' where p': "p' \<in> live s" "parent (?F u) = Some p'" "u \<in> set (children (?F p'))"
        using family_live(4) [OF inv u(1)] by blast
      then have "p' \<noteq> t" using \<open>u \<notin> set ?cs\<close> by auto
      moreover have "u \<in> set (children (fam e p'))"
        using p'(3) u(2) unfolding ex(3) [OF \<open>p' \<noteq> t\<close>] by (auto simp: in_set_remove1)
      ultimately show ?thesis using p' \<open>u \<notin> set ?cs\<close> unfolding live_e by (auto simp: ex)
    qed
  qed
qed

text \<open>Its ended children.\<close>

lemma exit_waiters:
  assumes inv: "family_inv h s" and t: "t \<in> live s" and p: "parent (fam s t) = Some p" "p \<noteq> t"
    and r: "thrtree s THR_TID_REAPER = Some r" and e: "ended r p t ec s e" and u: "u \<in> live s" "u \<noteq> t"
  shows "distinct (waiters (fam e u))"
    and "z \<in> set (waiters (fam e u)) \<Longrightarrow>
      z \<notin> live e \<and> t_state (thr_of e z) = THR_TSTATE_DEAD \<and> refs_of e z = 0 \<and> parent (fam e z) = Some u"
proof -
  let ?F = "fam s" and ?cs = "children (fam s t)"
  note facts = exit_facts [OF inv t p r]
  note ed = e [unfolded ended_def]
  note ex = exited_simps [of r t p ?F, OF facts(1) p(2) facts(8,6), where ec = ec, folded ed [THEN conjunct1]]
  have re: "refs_of e = exit_refs r p t (length ?cs) (refs_of s)"
    and dead_e: "\<And>u. t_state (thr_of s u) = THR_TSTATE_DEAD \<Longrightarrow> refs_of s u = 0 \<Longrightarrow> t_state (thr_of e u) = THR_TSTATE_DEAD"
      "t_state (thr_of e t) = THR_TSTATE_DEAD"
    using ed by blast+
  note old = family_live [OF inv u(1)]
  have live_e: "live e = live s - {t}" using exit_live [OF inv t] ed by blast
  have r_live: "r \<in> live s" using r by (rule ranI)
  have p_live: "p \<in> live s"
    using family_live(4) [OF inv t] p by (auto simp: root_def)
  show "distinct (waiters (fam e u))"
    using old(5) old(6) [of t] t by (auto simp: ex)
  show "z \<notin> live e \<and> t_state (thr_of e z) = THR_TSTATE_DEAD \<and> refs_of e z = 0 \<and> parent (fam e z) = Some u"
    if "z \<in> set (waiters (fam e u))"
  proof (cases "z = t")
    case True
    then have "u = p" using that old(6) [of t] t by (auto simp: ex split: if_splits)
    then show ?thesis using True p dead_e(2) facts(7) unfolding live_e by (auto simp: ex re exit_refs_def Let_def)
  next
    case False
    then have z: "z \<in> set (waiters (?F u))" using that by (auto simp: ex split: if_splits)
    note dead = old(6) [OF z]
    then have "z \<noteq> r" "z \<noteq> p" "z \<notin> set ?cs" using r_live p_live facts(5) by auto
    then show ?thesis using dead dead_e(1) [of z] False unfolding live_e by (auto simp: ex re exit_refs_def Let_def)
  qed
qed

lemma exit_ranked:
  assumes inv: "family_inv h s" and t: "t \<in> live s" and p: "parent (fam s t) = Some p" "p \<noteq> t"
    and r: "thrtree s THR_TID_REAPER = Some r" and e: "ended r p t ec s e"
  shows "\<exists>rank. ranked e rank"
proof -
  let ?F = "fam s" and ?cs = "children (fam s t)"
  note facts = exit_facts [OF inv t p r]
  note ex = exited_simps [of r t p ?F, OF facts(1) p(2) facts(8,6), where ec = ec, folded e [unfolded ended_def, THEN conjunct1]]
  have live_e: "live e = live s - {t}" using exit_live [OF inv t] e unfolding ended_def by blast
  have root_r: "root s r" using inv r by (auto simp: family_inv_def)
  obtain rank where rank: "ranked s rank" using inv by (auto simp: family_inv_def)
  have "ranked e (rank(r := 0))"
    unfolding ranked_def
  proof (intro ballI allI impI)
    fix u p' assume u: "u \<in> live e" and p': "parent (fam e u) = Some p' \<and> p' \<noteq> u"
    have u': "u \<in> live s" "u \<noteq> t" using u live_e by auto
    show "(rank(r := 0)) p' < (rank(r := 0)) u"
    proof (cases "u \<in> set ?cs")
      case True
      then have "rank t < rank u" using rank facts(5) [OF True] unfolding ranked_def by auto
      then show ?thesis using True p' u' facts(6,8) by (auto simp: ex)
    next
      case False
      then have "parent (?F u) = Some p'" using p' u' by (simp add: ex)
      then have "rank p' < rank u" "u \<noteq> r" using rank u' p' root_r unfolding ranked_def root_def by auto
      then show ?thesis by auto
    qed
  qed
  then show ?thesis by blast
qed

lemma exit_family:
  assumes inv: "family_inv h s" and t: "t \<in> live s" and p: "parent (fam s t) = Some p" "p \<noteq> t"
    and r: "thrtree s THR_TID_REAPER = Some r" and e: "ended r p t ec s e"
  shows "family_inv h e" and "live e = live s - {t}"
proof -
  let ?F = "fam s"
  note facts = exit_facts [OF inv t p r]
  note ed = e [unfolded ended_def]
  note ex = exited_simps [of r t p ?F, OF facts(1) p(2) facts(8,6), where ec = ec, folded ed [THEN conjunct1]]
  have te: "thrtree e = (thrtree s)(t_id (?F t) := None)" and ie: "idmap e = bitops_clr (unat (t_id (?F t))) (idmap s)"
    using ed by blast+
  show live_e: "live e = live s - {t}" by (rule exit_live [OF inv t te])
  note numbers = exit_numbers [OF inv t te ie ex(1)]
  have "THR_TID_REAPER \<noteq> t_id (?F t)" using r family_live(7) [OF inv t] facts(1) by (metis option.inject)
  then have "thrtree e THR_TID_REAPER = Some r" unfolding te using r by simp
  moreover have "root e r" using inv r facts(6) by (auto simp: family_inv_def root_def ex)
  moreover have "member_ok h e u" if "u \<in> live e" for u
  proof -
    have u: "u \<in> live s" "u \<noteq> t" using that live_e by auto
    show ?thesis
      unfolding member_ok_def
      using family_live(1) [OF inv u(1)] exit_children [OF inv t p r e u] exit_parent [OF inv t p r e u] exit_waiters [OF inv t p r e u] by blast
  qed
  ultimately show "family_inv h e"
    unfolding family_inv_def using numbers exit_ranked [OF inv t p r e] by blast
qed

section \<open>Waiting for a child\<close>

text \<open>The first of the ended children is taken out, with the lock of the running thread held.\<close>

lemma take_ended_run:
  assumes p: "running s = p" "t_lock (B p) = lock_taken l" "lock_free l" "1 < N p" "N p \<le> max_refs"
    and free: "lock_free (thrdb_lock (krn (sn s)))"
    and z: "waiters (F p) = z # zs" "z \<noteq> p" "t_state (B z) = THR_TSTATE_DEAD" "N z = 0"
  shows "take_ended_child al f (view B N F c s) = Some (WaitReturned (Inr (t_id (F z), exitcode (F z))),
    (view (B(p := (B p)\<lparr>t_lock := l\<rparr>)) (N(p := N p - 1)) (F(p := (F p)\<lparr>waiters := zs\<rparr>)) (rv64_cpu_restore_flags f c) s)\<lparr>
      pools := thr_free al z (stk_free al (kstack_top (F z)) (pools s))\<rparr>)"
proof -
  let ?B = "B(p := (B p)\<lparr>t_lock := l\<rparr>)" and ?F = "F(p := waiters_update (\<lambda>_. zs) (F p))" and ?c = "rv64_cpu_restore_flags f c"
  have unlock: "on_sched (unlock_thread_restore_intr p f) (view B N ?F c s) = Some (view ?B N ?F ?c s)"
    by (rule unlock_view(2)) (use p in simp_all)
  have drop: "thr_drop p (view ?B N ?F ?c s) = Some (False, view ?B (N(p := N p - 1)) ?F ?c s)"
    by (rule dec_view(2)) (use p free in simp_all)
  have facts: "waiters (fam (view B N F c s) p) = z # zs" "running (view B N F c s) = p"
    "t_state (thr_of (view B N ?F c s) z) = THR_TSTATE_DEAD" "t_state (thr_of (view ?B (N(p := N p - 1)) ?F ?c s) z) = THR_TSTATE_DEAD"
    "(t_id (fam (view B N ?F c s) z), exitcode (fam (view B N ?F c s) z)) = (t_id (F z), exitcode (F z))"
    using p z by simp_all
  let ?e = "(view ?B (N(p := N p - 1)) ?F ?c s)\<lparr>pools := thr_free al z (stk_free al (kstack_top (F z)) (pools s))\<rparr>"
  have freed: "free_thread al z (view ?B (N(p := N p - 1)) ?F ?c s) = Some ?e"
    using z by (simp add: free_thread_def)
  have "take_ended_child al f (view B N F c s) = Some (WaitReturned (Inr (t_id (F z), exitcode (F z))), ?e)"
    by (simp only: take_ended_child_def facts list.simps unlock drop freed do_steps refl not_True_eq_False)
  moreover have "?F = F(p := (F p)\<lparr>waiters := zs\<rparr>)" by (cases "F p") simp
  ultimately show ?thesis by simp
qed

lemma waiter_facts:
  assumes "family_inv h s" and "p \<in> live s" and "waiters (fam s p) = z # zs"
  shows "z \<noteq> p" "t_state (thr_of s z) = THR_TSTATE_DEAD" "refs_of s z = 0"
  using family_live(6) [OF assms(1,2), of z] assms(2,3) by auto

lemma wait_run:
  assumes inv: "family_inv h s" and live: "running s \<in> live s" and locks: "thr_locks_free s"
    and ws: "waiters (fam s (running s)) = z # zs"
  shows "thr_thread_wait al rc0 e s = Some (WaitReturned (Inr (t_id (fam s z), exitcode (fam s z))),
    s\<lparr>fam := (fam s)(running s := (fam s (running s))\<lparr>waiters := zs\<rparr>),
      pools := thr_free al z (stk_free al (kstack_top (fam s z)) (pools s))\<rparr>)"
proof -
  let ?p = "running s" and ?F = "fam s" and ?N = "refs_of s" and ?B = "thr_of s" and ?c = "imask (krn (sn s))"
  let ?N1 = "?N(?p := ?N ?p + 1)" and ?B1 = "?B(?p := (?B ?p)\<lparr>t_lock := lock_taken (t_lock (?B ?p))\<rparr>)"
    and ?c1 = "rv64_cpu_disable_interrupt ?c" and ?F1 = "?F(?p := (?F ?p)\<lparr>waiters := zs\<rparr>)"
  note z = waiter_facts [OF inv live ws]
  have refs: "0 < ?N ?p" "?N ?p \<le> 1027" using few_children [OF inv live] by simp_all
  have free: "lock_free (thrdb_lock (krn (sn s)))" "lock_free (t_lock (?B u))" for u
    using locks by (simp_all add: thr_locks_free_def)
  have start: "on_sched_res (thr_ref_inc ?p) s = Some (True, view ?B ?N1 ?F ?c s)"
    using inc_view [of ?N ?p ?B ?F ?c s] refs by (simp add: view_self)
  have lock: "on_sched_res (lock_thread_disable_intr ?p) (view ?B ?N1 ?F ?c s) = Some (sstatus ?c, view ?B1 ?N1 ?F ?c1 s)"
    by (rule lock_view(2)) (rule free(2))
  have take: "take_ended_child al (sstatus ?c) (view ?B1 ?N1 ?F ?c1 s) = Some (WaitReturned (Inr (t_id (?F z), exitcode (?F z))),
      (view (?B1(?p := (?B1 ?p)\<lparr>t_lock := t_lock (?B ?p)\<rparr>)) (?N1(?p := ?N1 ?p - 1)) ?F1 (rv64_cpu_restore_flags (sstatus ?c) ?c1) s)\<lparr>
        pools := thr_free al z (stk_free al (kstack_top (?F z)) (pools s))\<rparr>)"
    by (rule take_ended_run) (use z refs free ws in simp_all)
  have facts: "waiters (fam (view ?B1 ?N1 ?F ?c1 s) ?p) = z # zs" using ws by simp
  have same: "view ?B ?N G ?c s = s\<lparr>fam := G\<rparr>" for G
  proof -
    have "view ?B ?N G ?c s = (view ?B ?N ?F ?c s)\<lparr>fam := G\<rparr>" by (simp add: view_def)
    then show ?thesis by (simp add: view_self)
  qed
  have "thr_thread_wait al rc0 e s = take_ended_child al (sstatus ?c) (view ?B1 ?N1 ?F ?c1 s)"
    by (simp only: thr_thread_wait_def start lock facts list.simps do_steps)
  then show ?thesis unfolding take by (simp add: same)
qed

text \<open>The running thread was woken up in \<open>thr_thread_wait\<close>: it holds one reference of its own.\<close>

lemma resume_run:
  assumes refs: "0 < refs_of s p" "refs_of s p < max_refs" and free: "lock_free (thrdb_lock (krn (sn s)))" "lock_free (t_lock (thr_of s p))"
    and p: "running s = p"
  shows "\<exists>n. wque_wait_for_curthr_woken no_last x (sn s) = Some (w_reason (ents (sn s) x), n) \<and>
    s\<lparr>sn := n\<rparr> = view ((thr_of s)(p := (thr_of s p)\<lparr>t_lock := lock_taken (t_lock (thr_of s p))\<rparr>)) (refs_of s) (fam s) (imask (krn (sn s))) s"
proof -
  let ?k = "krn (sn s)" and ?l = "t_lock (thr_of s p)"
  have cur: "ti_get_current_thread ?k = p" using p by (simp add: running_def)
  have pos: "0 <s t_refs (threads ?k p)"
    using small_word [OF refs(1)] refs(2) by (simp add: refs_of_def thr_of_def)
  define k1 where "k1 = upd_thread p (t_refs_update (\<lambda>n. n + 1)) ?k"
  define k2 where "k2 = upd_thread p (t_lock_update lock_taken) k1"
  have inc: "thr_ref_inc p ?k = Some (True, k1)" using ref_steps(1) [OF pos] by (simp add: k1_def)
  have "lock_free (t_lock (threads k1 p))" using free by (simp add: k1_def upd_thread_def thr_of_def)
  then have lock: "lock_thread p k1 = Some k2" using thread_lock_unlock(1) [of k1 p] by (simp add: k2_def)
  have "lock_free (thrdb_lock k2)" "t_refs (threads k2 p) = t_refs (threads ?k p) + 1"
    using free by (simp_all add: k2_def k1_def upd_thread_def)
  then have dec: "thr_ref_dec no_last p k2 = Some (False, upd_thread p (t_refs_update (\<lambda>_. t_refs (threads ?k p))) k2)"
    by (rule ref_steps(2) [OF pos])
  have "wque_wait_for_curthr_woken no_last x (sn s) = Some (w_reason (ents (sn s) x),
      (sn s)\<lparr>krn := upd_thread p (t_refs_update (\<lambda>_. t_refs (threads ?k p))) k2\<rparr>)"
    by (simp add: wque_wait_for_curthr_woken_def Let_def cur inc lock dec)
  moreover have "s\<lparr>sn := (sn s)\<lparr>krn := upd_thread p (t_refs_update (\<lambda>_. t_refs (threads ?k p))) k2\<rparr>\<rparr> =
      view ((thr_of s)(p := (thr_of s p)\<lparr>t_lock := lock_taken ?l\<rparr>)) (refs_of s) (fam s) (imask ?k) s"
    by (rule thrdb.equality)
      (auto simp: view_def thr_of_def refs_of_def k2_def k1_def upd_thread_def intro!: sync.equality sched.equality ext)
  ultimately show ?thesis by blast
qed

lemma wait_woken_run:
  assumes inv: "family_inv h s" and live: "running s \<in> live s" and locks: "thr_locks_free s"
    and ws: "waiters (fam s (running s)) = z # zs" and held: "h (running s) = 1" and reason: "w_reason (ents (sn s) x) = WQUE_RELEASED"
  shows "thr_thread_wait_woken al x f s = Some (WaitReturned (Inr (t_id (fam s z), exitcode (fam s z))),
    (view (thr_of s) ((refs_of s)(running s := refs_of s (running s) - 1)) ((fam s)(running s := (fam s (running s))\<lparr>waiters := zs\<rparr>))
      (rv64_cpu_restore_flags f (imask (krn (sn s)))) s)\<lparr>pools := thr_free al z (stk_free al (kstack_top (fam s z)) (pools s))\<rparr>)"
proof -
  let ?p = "running s" and ?F = "fam s" and ?N = "refs_of s" and ?B = "thr_of s" and ?c = "imask (krn (sn s))"
  let ?B1 = "?B(?p := (?B ?p)\<lparr>t_lock := lock_taken (t_lock (?B ?p))\<rparr>)"
  note z = waiter_facts [OF inv live ws]
  have refs: "1 < ?N ?p" "?N ?p \<le> 1027" using few_children [OF inv live] family_live(1) [OF inv live] held by simp_all
  have free: "lock_free (thrdb_lock (krn (sn s)))" "lock_free (t_lock (?B u))" for u
    using locks by (simp_all add: thr_locks_free_def)
  obtain n where n: "wque_wait_for_curthr_woken no_last x (sn s) = Some (w_reason (ents (sn s) x), n)"
      "s\<lparr>sn := n\<rparr> = view ?B1 ?N ?F ?c s"
    using resume_run [of s ?p x] refs free by auto
  have "take_ended_child al f (view ?B1 ?N ?F ?c s) = Some (WaitReturned (Inr (t_id (?F z), exitcode (?F z))),
      (view (?B1(?p := (?B1 ?p)\<lparr>t_lock := t_lock (?B ?p)\<rparr>)) (?N(?p := ?N ?p - 1)) (?F(?p := (?F ?p)\<lparr>waiters := zs\<rparr>))
        (rv64_cpu_restore_flags f ?c) s)\<lparr>pools := thr_free al z (stk_free al (kstack_top (?F z)) (pools s))\<rparr>)"
    by (rule take_ended_run) (use z refs free ws in simp_all)
  then show ?thesis
    by (simp add: thr_thread_wait_woken_def n reason Let_def)
qed

lemma wait_family:
  assumes inv: "family_inv h s" and p: "p \<in> live s" and ws: "waiters (fam s p) = z # zs"
  shows "family_inv h (s\<lparr>fam := (fam s)(p := (fam s p)\<lparr>waiters := zs\<rparr>), pools := m\<rparr>)" (is "family_inv h ?e")
proof -
  have fam: "parent (fam ?e u) = parent (fam s u)" "children (fam ?e u) = children (fam s u)" "t_id (fam ?e u) = t_id (fam s u)" for u
    by simp_all
  have same: "root ?e u = root s u" "refs_of ?e u = refs_of s u" "thr_of ?e u = thr_of s u" "thrtree ?e = thrtree s" "idmap ?e = idmap s" for u
    by (simp_all add: root_def refs_of_def thr_of_def)
  have w: "set (waiters (fam ?e u)) \<subseteq> set (waiters (fam s u))" "distinct (waiters (fam s u)) \<Longrightarrow> distinct (waiters (fam ?e u))" for u
    using ws by auto
  have "member_ok h ?e u" if "member_ok h s u" for u
    using that w [of u] unfolding member_ok_def same fam by blast
  then show ?thesis
    using inv unfolding family_inv_def ranked_def same fam by blast
qed

lemma woken_family:
  assumes inv: "family_inv h s" and p: "p \<in> live s" and ws: "waiters (fam s p) = z # zs" and held: "h p = 1"
  shows "family_inv (h(p := 0)) ((view (thr_of s) ((refs_of s)(p := refs_of s p - 1))
      ((fam s)(p := (fam s p)\<lparr>waiters := zs\<rparr>)) c s)\<lparr>pools := m\<rparr>)" (is "family_inv ?h ?e")
proof -
  have fam: "parent (fam ?e u) = parent (fam s u)" "children (fam ?e u) = children (fam s u)" "t_id (fam ?e u) = t_id (fam s u)" for u
    by simp_all
  have refs: "refs_of ?e u = (if u = p then refs_of s p - 1 else refs_of s u)" for u
  proof -
    have "refs_of s u < 2 ^ 32" for u using unsigned_less [of "t_refs (thr_of s u)"] by (simp add: refs_of_def)
    then have "((refs_of s)(p := refs_of s p - 1)) u < 2 ^ 32" by (simp add: less_imp_diff_less)
    then show ?thesis using refs_view [of "(refs_of s)(p := refs_of s p - 1)" u "thr_of s" _ c s]
      by (simp add: refs_of_def thr_of_def)
  qed
  have same: "root ?e u = root s u" "t_state (thr_of ?e u) = t_state (thr_of s u)" "thrtree ?e = thrtree s" "idmap ?e = idmap s" for u
    using fam by (simp_all add: root_def thr_of_def krn_view)
  have w: "set (waiters (fam ?e u)) \<subseteq> set (waiters (fam s u))" "distinct (waiters (fam s u)) \<Longrightarrow> distinct (waiters (fam ?e u))" for u
    using ws by auto
  have "member_ok ?h ?e u" if u: "u \<in> live s" for u
  proof -
    have ok: "member_ok h s u" using inv u unfolding family_inv_def by blast
    then have "refs_of ?e u = (if root s u then 1 else 2) + length (children (fam s u)) + ?h u \<and> ?h u \<le> 1"
      unfolding refs member_ok_def using held by auto
    moreover have "z \<noteq> p" if "z \<in> set (waiters (fam s u))" for z
      using ok that p unfolding member_ok_def by blast
    ultimately show ?thesis
      using ok w [of u] refs unfolding member_ok_def same fam by fastforce
  qed
  then show ?thesis
    using inv unfolding family_inv_def ranked_def same fam by blast
qed

end
