(* ===== verification/ThreadLife.thy ===== *)
theory ThreadLife
  imports ThreadFamily
begin

unbundle bit_operations_syntax

text \<open>
  The creation of threads, and the properties of the life of a thread: creation, end and the
  collection of an ended thread by its parent.
\<close>

section \<open>Creation\<close>

text \<open>\<open>x\<close> is \<open>s\<close> with the structure of the thread \<open>t\<close> set up.\<close>

definition new_thread :: "'m thrdb \<Rightarrow> nat \<Rightarrow> u64 \<Rightarrow> 'm thrdb \<Rightarrow> bool" where
  "new_thread s t stk x \<longleftrightarrow> (\<forall>u. u \<noteq> t \<longrightarrow> thr_of x u = thr_of s u \<and> fam x u = fam s u) \<and>
     refs_of x t = 1 \<and> lock_free (t_lock (thr_of x t)) \<and> t_state (thr_of x t) = THR_TSTATE_RUNABLE \<and>
     parent (fam x t) = None \<and> children (fam x t) = [] \<and> waiters (fam x t) = [] \<and> kstack_top (fam x t) = stk \<and>
     idmap x = idmap s \<and> thrtree x = thrtree s \<and> running x = running s \<and>
     thrdb_lock (krn (sn x)) = thrdb_lock (krn (sn s)) \<and> imask (krn (sn x)) = imask (krn (sn s))"

lemma setup_new:
  "new_thread s t a (setup_thread ss sz t a (init_thread t fl pr (s\<lparr>pools := m\<rparr>)))"
  "new_thread s t a (setup_thread ss sz t a (upd_fam t (t_flags_update g) ((init_thread t fl pr (s\<lparr>pools := m\<rparr>))\<lparr>pools := m'\<rparr>)))"
  by (simp_all add: new_thread_def setup_thread_def init_thread_def Let_def upd_thr_def upd_fam_def upd_thread_def
      upd_ti_def thr_of_def refs_of_def wque_init_wait_queue_def ti_thread_info_init_def running_def
      ti_get_current_thread_def refcnt_init_def REFCNT_INITIAL_VAL_def)

lemma setup_pools [simp]:
  "pools (setup_thread ss sz t a s) = pools s" "pools (init_thread t fl pr s) = pools s" "pools (upd_fam t f s) = pools s"
  by (simp_all add: setup_thread_def init_thread_def upd_thr_def upd_fam_def Let_def)

lemma create_common_run:
  assumes "SCHED_VALID_PRIO pr" and "fl AND THR_THRFLAGS_USER \<noteq> 0 \<longrightarrow> SCHED_VALID_USER_PRIO pr"
    and "thr_alloc al (pools s) = (Some t, m)" and "stk_alloc al m = (Some a, m')"
  shows "\<exists>x. new_thread s t a x \<and> pools x = m' \<and> create_thread_common al ss sz i 0 pr fl s = do {
      (rc, s3) \<leftarrow> register_thread i t x;
      case rc of Inl err \<Rightarrow> Some (Inl err, s3\<lparr>pools := thr_free al t (stk_free al a (pools s3))\<rparr>)
      | Inr _ \<Rightarrow> Some (Inr t, s3) }"
proof -
  let ?x = "setup_thread ss sz t a (upd_fam t (t_flags_update (\<lambda>f. f OR THR_THRFLAGS_MANAGED_STK)) ((init_thread t fl pr (s\<lparr>pools := m\<rparr>))\<lparr>pools := m'\<rparr>))"
  have "pools ?x = m'" by simp
  moreover have "create_thread_common al ss sz i 0 pr fl s = do {
      (rc, s3) \<leftarrow> register_thread i t ?x;
      case rc of Inl err \<Rightarrow> Some (Inl err, s3\<lparr>pools := thr_free al t (stk_free al a (pools s3))\<rparr>)
      | Inr _ \<Rightarrow> Some (Inr t, s3) }"
  proof -
    have "(fl AND THR_THRFLAGS_USER \<noteq> 0 \<and> \<not> SCHED_VALID_USER_PRIO pr) = False" using assms(2) by blast
    then show ?thesis using assms(1,3,4)
      by (simp only: create_thread_common_def Let_def if_False simp_thms) (simp cong: sum.case_cong)
  qed
  ultimately show ?thesis using setup_new(2) [of s t a ss sz] by blast
qed

lemma db_section:
  assumes "lock_free (thrdb_lock (krn (sn x)))"
  obtains y where "on_sched_res lock_db x = Some (sstatus (imask (krn (sn x))), y)" "idmap y = idmap x" "thrtree y = thrtree x"
    and "on_sched (unlock_db (sstatus (imask (krn (sn x))))) y = Some x"
    and "\<And>b T f. on_sched (unlock_db (sstatus (imask (krn (sn x))))) ((upd_fam t f (y\<lparr>idmap := b\<rparr>))\<lparr>thrtree := T\<rparr>) =
      Some ((upd_fam t f (x\<lparr>idmap := b\<rparr>))\<lparr>thrtree := T\<rparr>)"
proof
  let ?k = "krn (sn x)"
  let ?y = "x\<lparr>sn := (sn x)\<lparr>krn := ?k\<lparr>thrdb_lock := lock_taken (thrdb_lock ?k), imask := rv64_cpu_disable_interrupt (imask ?k)\<rparr>\<rparr>\<rparr>"
  show "on_sched_res lock_db x = Some (sstatus (imask ?k), ?y)" "idmap ?y = idmap x" "thrtree ?y = thrtree x"
    using assms by (simp_all add: on_sched_res_def lock_db_def)
  have "?k\<lparr>thrdb_lock := thrdb_lock ?k, imask := imask ?k\<rparr> = ?k" by simp
  then show "on_sched (unlock_db (sstatus (imask ?k))) ?y = Some x"
    "on_sched (unlock_db (sstatus (imask ?k))) ((upd_fam t f (?y\<lparr>idmap := b\<rparr>))\<lparr>thrtree := T\<rparr>) =
      Some ((upd_fam t f (x\<lparr>idmap := b\<rparr>))\<lparr>thrtree := T\<rparr>)" for b T f
    using assms by (simp_all add: on_sched_def unlock_db_def upd_fam_def)
qed

lemma register_run:
  assumes free: "lock_free (thrdb_lock (krn (sn x)))" and map: "bitmap64 c (idmap x)" and i: "\<not> i < THR_TID_RSV_ID_NR"
  shows "register_thread i t x =
    (if bits_of (idmap x) = {..<c} then Some (Inl ENOSPC, x)
     else let n = (LEAST n. n \<notin> bits_of (idmap x)) in
       if thrtree x (of_nat n) \<noteq> None then None
       else Some (Inr (), (upd_fam t (t_id_update (\<lambda>_. of_nat n)) (x\<lparr>idmap := bitops_set n (idmap x)\<rparr>))\<lparr>
         thrtree := (thrtree x)(of_nat n := Some t)\<rparr>))"
proof -
  let ?f = "sstatus (imask (krn (sn x)))" and ?new = "bitops_ffc (BM64 (idmap x))" and ?n = "LEAST n. n \<notin> bits_of (idmap x)"
  obtain y where y: "on_sched_res lock_db x = Some (?f, y)" "idmap y = idmap x" "thrtree y = thrtree x" "on_sched (unlock_db ?f) y = Some x"
      "\<And>b T f. on_sched (unlock_db ?f) ((upd_fam t f (y\<lparr>idmap := b\<rparr>))\<lparr>thrtree := T\<rparr>) = Some ((upd_fam t f (x\<lparr>idmap := b\<rparr>))\<lparr>thrtree := T\<rparr>)"
    using db_section [OF free, of t] by metis
  have least: "least_bit ({..<c} - bits_of (idmap x)) ?new" using bm64.ffc [OF map] .
  have zero: "?new = 0 \<longleftrightarrow> bits_of (idmap x) = {..<c}" using bm64.ffc_zero [OF map] .
  show ?thesis
  proof (cases "?new = 0")
    case True
    then show ?thesis using zero i y by (simp add: register_thread_def alloc_new_tid_nolock_def Let_def)
  next
    case False
    then obtain k where k: "?new = int (Suc k)" "k \<in> {..<c} - bits_of (idmap x)" "\<forall>m\<in>{..<c} - bits_of (idmap x). k \<le> m"
      using least by (auto simp: least_bit_def split: if_splits)
    have "?n = k"
    proof (rule Least_equality)
      show "k \<notin> bits_of (idmap x)" using k by simp
      show "k \<le> m" if "m \<notin> bits_of (idmap x)" for m using k that by (cases "m < c") auto
    qed
    moreover have "(of_int (?new - 1) :: tid) = of_nat k" "nat (?new - 1) = k" using k(1) by simp_all
    moreover have "bits_of (idmap x) \<noteq> {..<c}" using False zero by simp
    moreover have "alloc_new_tid_nolock y = (Inr (of_nat k), y\<lparr>idmap := bitops_set k (idmap x)\<rparr>)"
      using False k(1) y(2) calculation(2,3) by (simp add: alloc_new_tid_nolock_def Let_def del: bitops_ffc.simps)
    moreover have "thrtree (upd_fam t f (y\<lparr>idmap := b\<rparr>)) = thrtree x" for f b using y(3) by (simp add: upd_fam_def)
    ultimately show ?thesis
      using i y by (cases "thrtree x (of_nat k)") (simp_all add: register_thread_def Let_def del: bitops_ffc.simps)
  qed
qed

definition fresh :: "'m thrdb \<Rightarrow> nat \<Rightarrow> bool" where
  "fresh s t \<longleftrightarrow> t \<notin> live s \<and> (\<forall>u\<in>live s. t \<notin> set (waiters (fam s u)))"

abbreviation lowest :: "'m thrdb \<Rightarrow> nat" where
  "lowest s \<equiv> LEAST n. n \<notin> bits_of (idmap s)"

text \<open>The families after the running thread \<open>p\<close> has made the thread \<open>t\<close> with number \<open>n\<close>.\<close>

definition created :: "nat \<Rightarrow> nat \<Rightarrow> nat \<Rightarrow> u64 \<Rightarrow> 'm thrdb \<Rightarrow> 'm thrdb \<Rightarrow> bool" where
  "created t p n a s e \<longleftrightarrow>
     idmap e = bitops_set n (idmap s) \<and> thrtree e = (thrtree s)(of_nat n := Some t) \<and> running e = p \<and>
     (\<forall>u. u \<noteq> t \<and> u \<noteq> p \<longrightarrow> fam e u = fam s u \<and> thr_of e u = thr_of s u) \<and>
     fam e p = (fam s p)\<lparr>children := children (fam s p) @ [t]\<rparr> \<and> t_state (thr_of e p) = t_state (thr_of s p) \<and>
     refs_of e p = refs_of s p + 1 \<and>
     t_id (fam e t) = of_nat n \<and> parent (fam e t) = Some p \<and> children (fam e t) = [] \<and> waiters (fam e t) = [] \<and>
     kstack_top (fam e t) = a \<and> refs_of e t = 2 \<and> t_state (thr_of e t) = THR_TSTATE_RUNABLE"

lemma lowest_free:
  assumes "bitmap64 c (idmap s)" and "bits_of (idmap s) \<noteq> {..<c}"
  shows "lowest s < c" "lowest s \<notin> bits_of (idmap s)"
proof -
  obtain k where k: "k < c" "k \<notin> bits_of (idmap s)"
    using assms bm64.bits_bound by blast
  then show "lowest s \<notin> bits_of (idmap s)" by (metis (mono_tags, lifting) LeastI)
  have "lowest s \<le> k" using k(2) by (rule Least_le)
  then show "lowest s < c" using k(1) by simp
qed

lemma unused_number:
  assumes "family_inv h s" and "n < THR_TID_MAX" "n \<notin> bits_of (idmap s)"
  shows "thrtree s (of_nat n) = None"
proof (rule ccontr)
  assume "thrtree s (of_nat n) \<noteq> None"
  then obtain u where "thrtree s (of_nat n) = Some u" by blast
  then have "unat (of_nat n :: tid) \<in> bits_of (idmap s)"
    using assms(1) unfolding family_inv_def by blast
  moreover have "unat (of_nat n :: tid) = n" using assms(2) by (simp add: unat_of_nat THR_TID_MAX_def)
  ultimately show False using assms(3) by simp
qed

lemma create_run:
  assumes inv: "family_inv h s" and live: "running s \<in> live s" and locks: "thr_locks_free s" and fresh: "fresh s t"
    and prio: "SCHED_VALID_PRIO pr" "fl AND THR_THRFLAGS_USER \<noteq> 0 \<longrightarrow> SCHED_VALID_USER_PRIO pr"
    and alloc: "thr_alloc al (pools s) = (Some t, m)" "stk_alloc al m = (Some a, m')"
    and i: "\<not> i < THR_TID_RSV_ID_NR" and room: "bits_of (idmap s) \<noteq> {..<THR_TID_MAX}"
  shows "\<exists>e. thr_thread_create al ss sz i 0 pr fl s = Some (Inr t, e) \<and> pools e = m' \<and> thr_locks_free e \<and>
    imask (krn (sn e)) = imask (krn (sn s)) \<and> created t (running s) (lowest s) a s e"
proof -
  let ?n = "lowest s" and ?p = "running s"
  obtain x where x: "new_thread s t a x" "pools x = m'"
    and run: "create_thread_common al ss sz i 0 pr fl s = do {
      (rc, s3) \<leftarrow> register_thread i t x;
      case rc of Inl err \<Rightarrow> Some (Inl err, s3\<lparr>pools := thr_free al t (stk_free al a (pools s3))\<rparr>)
      | Inr _ \<Rightarrow> Some (Inr t, s3) }"
    using create_common_run [OF prio alloc] by blast
  have x_s: "idmap x = idmap s" "thrtree x = thrtree s" "running x = ?p" "thrdb_lock (krn (sn x)) = thrdb_lock (krn (sn s))"
    "\<And>u. u \<noteq> t \<Longrightarrow> thr_of x u = thr_of s u \<and> fam x u = fam s u" "refs_of x t = 1" "lock_free (t_lock (thr_of x t))"
    "parent (fam x t) = None" "children (fam x t) = []" "waiters (fam x t) = []" "kstack_top (fam x t) = a"
    "t_state (thr_of x t) = THR_TSTATE_RUNABLE" "imask (krn (sn x)) = imask (krn (sn s))"
    using x(1) unfolding new_thread_def by blast+
  have free: "lock_free (thrdb_lock (krn (sn x)))" "\<And>u. lock_free (t_lock (thr_of x u))"
    using locks x_s unfolding thr_locks_free_def by metis+
  have map: "bitmap64 THR_TID_MAX (idmap s)" using inv unfolding family_inv_def by blast
  have "thrtree s (of_nat ?n) = None"
    using unused_number [OF inv lowest_free [OF map room]] .
  define y where "y = (upd_fam t (t_id_update (\<lambda>_. of_nat ?n)) (x\<lparr>idmap := bitops_set ?n (idmap s)\<rparr>))\<lparr>thrtree := (thrtree s)(of_nat ?n := Some t)\<rparr>"
  have "register_thread i t x = Some (Inr (), y)"
    using register_run [OF free(1) _ i, of THR_TID_MAX t] map room \<open>thrtree s (of_nat ?n) = None\<close>
    by (simp add: x_s y_def Let_def)
  then have common: "create_thread_common al ss sz i 0 pr fl s = Some (Inr t, y)" using run by simp
  have y: "idmap y = bitops_set ?n (idmap s)" "thrtree y = (thrtree s)(of_nat ?n := Some t)" "running y = ?p"
    "thrdb_lock (krn (sn y)) = thrdb_lock (krn (sn x))" "thr_of y = thr_of x" "pools y = m'" "refs_of y = refs_of x"
    "fam y = (fam x)(t := (fam x t)\<lparr>t_id := of_nat ?n\<rparr>)" "imask (krn (sn y)) = imask (krn (sn s))"
    using x(2) x_s(3) x_s(13) by (auto simp: y_def upd_fam_def running_def thr_of_def refs_of_def fun_eq_iff)
  have "t \<noteq> ?p" using fresh live by (auto simp: fresh_def)
  then have refs: "refs_of x ?p = refs_of s ?p" "0 < refs_of s ?p" "refs_of s ?p \<le> 1027" "fam x ?p = fam s ?p" "thr_of x ?p = thr_of s ?p"
    using x_s(5) [of ?p] few_children [OF inv live] by (simp_all add: refs_of_def)
  let ?N = "refs_of x" and ?F = "fam y" and ?B = "thr_of x" and ?c = "imask (krn (sn y))"
  let ?N1 = "?N(?p := ?N ?p + 1)" let ?N2 = "?N1(?p := ?N1 ?p + 1, t := ?N1 t + 1)"
  let ?F1 = "?F(?p := (?F ?p)\<lparr>children := children (?F ?p) @ [t]\<rparr>, t := (?F t)\<lparr>parent := Some ?p\<rparr>)"
  let ?e = "view ?B (?N2(?p := ?N2 ?p - 1)) ?F1 ?c y"
  have free_y: "lock_free (thrdb_lock (krn (sn y)))" using free y by simp
  have inc: "on_sched_res (thr_ref_inc ?p) y = Some (True, view ?B ?N1 ?F ?c y)"
    using inc_view [of ?N ?p ?B ?F ?c y] refs view_self [of y] by (simp add: y)
  have add: "add_child_thread_nolock t ?p (view ?B ?N1 ?F ?c y) = Some (Inr (), view ?B ?N2 ?F1 ?c y)"
    by (rule add_child_run) (use \<open>t \<noteq> ?p\<close> refs free_y x_s y in simp_all)
  have drop: "thr_drop ?p (view ?B ?N2 ?F1 ?c y) = Some (False, ?e)"
    by (rule dec_view(2)) (use \<open>t \<noteq> ?p\<close> refs free_y in simp_all)
  have guards: "(\<not> SCHED_VALID_PRIO pr) = False" "(fl AND THR_THRFLAGS_USER \<noteq> 0 \<and> \<not> SCHED_VALID_USER_PRIO pr) = False"
    using prio by blast+
  have "thr_thread_create al ss sz i 0 pr fl s = Some (Inr t, ?e)"
    by (simp only: thr_thread_create_def guards common sum.case y(3) inc add drop do_steps)
  moreover have "thr_locks_free ?e" using free y by (simp add: thr_locks_free_def)
  moreover have "created t ?p ?n a s ?e"
  proof -
    have other: "fam ?e u = fam s u \<and> thr_of ?e u = thr_of s u" if "u \<noteq> t" "u \<noteq> ?p" for u
      using that x_s(5) [of u] by (simp add: y refs_of_def)
    show ?thesis
      unfolding created_def using other \<open>t \<noteq> ?p\<close> refs x_s y(1,2,3) by (simp add: y(8) refs_view)
  qed
  ultimately show ?thesis using y(6,9) by (intro exI [of _ ?e]) simp
qed

lemma create_facts:
  assumes inv: "family_inv h s" and live: "p \<in> live s" and fresh: "fresh s t"
    and n: "n < THR_TID_MAX" "n \<notin> bits_of (idmap s)" and e: "created t p n a s e"
  shows "t \<noteq> p" "t \<notin> live s" and "live e = insert t (live s)"
    and "u \<noteq> t \<Longrightarrow> parent (fam e u) = parent (fam s u) \<and> t_id (fam e u) = t_id (fam s u) \<and> waiters (fam e u) = waiters (fam s u)"
    and "u \<noteq> t \<Longrightarrow> root e u = root s u"
    and "u \<noteq> t \<Longrightarrow> children (fam e u) = (if u = p then children (fam s u) @ [t] else children (fam s u)) \<and>
      refs_of e u = (if u = p then refs_of s u + 1 else refs_of s u)"
proof -
  show "t \<noteq> p" "t \<notin> live s" using fresh live by (auto simp: fresh_def)
  have "thrtree s (of_nat n) = None" by (rule unused_number [OF inv n])
  then show "live e = insert t (live s)" using e unfolding created_def by simp
  show *: "parent (fam e u) = parent (fam s u) \<and> t_id (fam e u) = t_id (fam s u) \<and> waiters (fam e u) = waiters (fam s u)" if "u \<noteq> t"
    using e that unfolding created_def by (cases "u = p") simp_all
  show "root e u = root s u" if "u \<noteq> t" using * [OF that] by (simp add: root_def)
  show "children (fam e u) = (if u = p then children (fam s u) @ [t] else children (fam s u)) \<and>
      refs_of e u = (if u = p then refs_of s u + 1 else refs_of s u)" if "u \<noteq> t"
    using e that unfolding created_def refs_of_def by (cases "u = p") simp_all
qed

text \<open>A thread \<open>u\<close> that was there before.\<close>

lemma create_member:
  assumes inv: "family_inv h s" and live: "p \<in> live s" and fresh: "fresh s t"
    and n: "n < THR_TID_MAX" "n \<notin> bits_of (idmap s)" and e: "created t p n a s e" and u: "u \<in> live s"
  shows "member_ok h e u"
proof -
  note facts = create_facts [OF inv live fresh n e] and f = family_live [OF inv u]
  have "u \<noteq> t" using u facts(2) by blast
  note fu = facts(4-6) [OF this]
  have c: "c \<in> live e \<and> c \<noteq> u \<and> parent (fam e c) = Some u" if "c \<in> set (children (fam s u))" for c
  proof -
    have "c \<in> live s" "c \<noteq> u" "parent (fam s c) = Some u" using f(3) that by blast+
    moreover have "c \<noteq> t" using \<open>c \<in> live s\<close> facts(2) by blast
    ultimately show ?thesis using facts(4) [of c] facts(3) by simp
  qed
  have up: "root e u \<or> (\<exists>q\<in>live e. parent (fam e u) = Some q \<and> u \<in> set (children (fam e q)))"
  proof (cases "root s u")
    case True then show ?thesis using fu by simp
  next
    case False
    then obtain q where q: "q \<in> live s" "parent (fam s u) = Some q" "u \<in> set (children (fam s q))" using f(4) by blast
    then have "q \<noteq> t" using facts(2) by blast
    then have "u \<in> set (children (fam e q))" "q \<in> live e" using q facts(3) facts(6) [of q] by auto
    then show ?thesis using q(2) fu by auto
  qed
  have w: "z \<notin> live e \<and> t_state (thr_of e z) = THR_TSTATE_DEAD \<and> refs_of e z = 0 \<and> parent (fam e z) = Some u"
    if "z \<in> set (waiters (fam s u))" for z
  proof -
    have "z \<notin> live s" "t_state (thr_of s z) = THR_TSTATE_DEAD" "refs_of s z = 0" "parent (fam s z) = Some u" using f(6) [OF that] by blast+
    moreover have "z \<noteq> t" using fresh u that unfolding fresh_def by blast
    moreover have "z \<noteq> p" using \<open>z \<notin> live s\<close> live by blast
    ultimately show ?thesis
      using facts(3) facts(4,6) [of z] e unfolding created_def by simp
  qed
  have "t \<notin> set (children (fam s u))" using f(3) facts(2) by blast
  moreover have "t \<in> live e" "parent (fam e t) = Some p" using facts(3) e unfolding created_def by simp_all
  ultimately have "refs_of e u = (if root e u then 1 else 2) + length (children (fam e u)) + h u \<and> h u \<le> 1 \<and> distinct (children (fam e u)) \<and>
      (\<forall>c\<in>set (children (fam e u)). c \<in> live e \<and> c \<noteq> u \<and> parent (fam e c) = Some u)"
    using f(1,2) c fu \<open>u \<noteq> t\<close> by auto
  then show ?thesis
    unfolding member_ok_def using up w fu f(5) by simp
qed

lemma create_ranked:
  assumes inv: "family_inv h s" and live: "p \<in> live s" and fresh: "fresh s t"
    and n: "n < THR_TID_MAX" "n \<notin> bits_of (idmap s)" and e: "created t p n a s e"
  shows "\<exists>rank. ranked e rank"
proof -
  note facts = create_facts [OF inv live fresh n e]
  obtain rank where rank: "ranked s rank" using inv unfolding family_inv_def by blast
  have "ranked e (rank(t := Suc (rank p)))"
    unfolding ranked_def
  proof (intro ballI allI impI)
    fix u q assume u: "u \<in> live e" and q: "parent (fam e u) = Some q \<and> q \<noteq> u"
    show "(rank(t := Suc (rank p))) q < (rank(t := Suc (rank p))) u"
    proof (cases "u = t")
      case True then show ?thesis using q e facts(1) unfolding created_def by simp
    next
      case False
      then have us: "u \<in> live s" "parent (fam s u) = Some q" "q \<noteq> u" using u q facts(3) facts(4) [of u] by auto
      then have "\<not> root s u" by (simp add: root_def)
      then have "q \<in> live s" using family_live(4) [OF inv us(1)] us(2) by auto
      then have "q \<noteq> t" using facts(2) by blast
      then show ?thesis using False us rank unfolding ranked_def by simp
    qed
  qed
  then show ?thesis by blast
qed

lemma create_numbers:
  assumes inv: "family_inv h s" and live: "p \<in> live s" and fresh: "fresh s t"
    and n: "n < THR_TID_MAX" "n \<notin> bits_of (idmap s)" and e: "created t p n a s e"
  shows "bitmap64 THR_TID_MAX (idmap e)" "thrtree e i = Some u \<Longrightarrow> t_id (fam e u) = i \<and> unat i \<in> bits_of (idmap e)"
proof -
  note facts = create_facts [OF inv live fresh n e]
  have ed: "idmap e = bitops_set n (idmap s)" "thrtree e = (thrtree s)(of_nat n := Some t)" "t_id (fam e t) = of_nat n"
    using e unfolding created_def by blast+
  have map: "bitmap64 THR_TID_MAX (idmap s)" using inv unfolding family_inv_def by blast
  then have map': "bitmap64 THR_TID_MAX (idmap e)" "bits_of (idmap e) = insert n (bits_of (idmap s))"
    using bm64.set_bit [OF map n(1)] ed(1) by simp_all
  then show "bitmap64 THR_TID_MAX (idmap e)" by blast
  show "t_id (fam e u) = i \<and> unat i \<in> bits_of (idmap e)" if "thrtree e i = Some u"
  proof (cases "i = of_nat n")
    case True
    then have "u = t" using that ed(2) by simp
    moreover have "unat (of_nat n :: tid) = n" using n(1) by (simp add: unat_of_nat THR_TID_MAX_def)
    ultimately show ?thesis using True ed(3) map'(2) by simp
  next
    case False
    then have i: "thrtree s i = Some u" using that ed(2) by simp
    then have "u \<noteq> t" using facts(2) ranI by metis
    then show ?thesis using i inv facts(4) map'(2) unfolding family_inv_def by blast
  qed
qed

lemma create_family:
  assumes inv: "family_inv h s" and live: "p \<in> live s" and fresh: "fresh s t"
    and n: "n < THR_TID_MAX" "n \<notin> bits_of (idmap s)" and e: "created t p n a s e"
  shows "family_inv (h(t := 0)) e" "live e = insert t (live s)"
proof -
  note facts = create_facts [OF inv live fresh n e]
  show lv: "live e = insert t (live s)" by (rule facts(3))
  have ed: "thrtree e = (thrtree s)(of_nat n := Some t)" "fam e p = (fam s p)\<lparr>children := children (fam s p) @ [t]\<rparr>"
    "parent (fam e t) = Some p" "children (fam e t) = []" "waiters (fam e t) = []" "refs_of e t = 2"
    using e unfolding created_def by blast+
  have "\<not> root e t" using ed(3) facts(1) by (simp add: root_def)
  moreover have "p \<in> live e" "t \<in> set (children (fam e p))" using lv live ed(2) by simp_all
  ultimately have new: "member_ok (h(t := 0)) e t"
    unfolding member_ok_def using ed(3-6) by auto
  obtain r where r: "thrtree s THR_TID_REAPER = Some r" "root s r" using inv unfolding family_inv_def by blast
  have "THR_TID_REAPER \<noteq> of_nat n" using unused_number [OF inv n] r by auto
  moreover have "r \<noteq> t" using r(1) facts(2) by (metis ranI)
  ultimately have "\<exists>r. thrtree e THR_TID_REAPER = Some r \<and> root e r"
    using r ed(1) facts(5) by auto
  moreover have "member_ok (h(t := 0)) e u" if "u \<in> live e" for u
  proof (cases "u = t")
    case False
    then have "member_ok (h(t := 0)) e u \<longleftrightarrow> member_ok h e u" by (simp add: member_ok_def)
    then show ?thesis using False that create_member [OF inv live fresh n e, of u] by (simp add: lv)
  qed (use new in simp)
  ultimately show "family_inv (h(t := 0)) e"
    unfolding family_inv_def using create_numbers [OF inv live fresh n e] create_ranked [OF inv live fresh n e] by blast
qed

section \<open>Failing to make a thread\<close>

lemma create_fails:
  "\<not> SCHED_VALID_PRIO pr \<Longrightarrow> thr_thread_create al ss sz i k pr fl s = Some (Inl EINVAL, s)"
  "fl AND THR_THRFLAGS_USER \<noteq> 0 \<Longrightarrow> \<not> SCHED_VALID_USER_PRIO pr \<Longrightarrow> thr_thread_create al ss sz i k pr fl s = Some (Inl EINVAL, s)"
  by (simp_all add: thr_thread_create_def)

text \<open>What a failed attempt leaves: all as it was, but for the structure of the thread that was given back.\<close>

definition undone :: "nat \<Rightarrow> 'm thrdb \<Rightarrow> 'm thrdb \<Rightarrow> bool" where
  "undone t s e \<longleftrightarrow> idmap e = idmap s \<and> thrtree e = thrtree s \<and> running e = running s \<and>
     (\<forall>u. u \<noteq> t \<longrightarrow> fam e u = fam s u \<and> thr_of e u = thr_of s u) \<and>
     thrdb_lock (krn (sn e)) = thrdb_lock (krn (sn s)) \<and> imask (krn (sn e)) = imask (krn (sn s)) \<and> thr_locks_free e"

lemma new_thread_undone:
  assumes "new_thread s t a x" and "thr_locks_free s"
  shows "undone t s (x\<lparr>pools := m\<rparr>)" and "thr_locks_free x"
proof -
  have "lock_free (t_lock (thr_of x u))" for u
    using assms unfolding new_thread_def thr_locks_free_def by (cases "u = t") auto
  then show "thr_locks_free x" using assms by (simp add: thr_locks_free_def new_thread_def)
  then show "undone t s (x\<lparr>pools := m\<rparr>)"
    using assms by (simp add: undone_def new_thread_def thr_locks_free_def thr_of_def running_def)
qed

lemma init_undone:
  assumes "thr_locks_free s"
  shows "undone t s ((init_thread t fl pr (s\<lparr>pools := m\<rparr>))\<lparr>pools := m'\<rparr>)"
  using assms by (auto simp: undone_def init_thread_def Let_def upd_thr_def upd_fam_def upd_thread_def thr_of_def
      wque_init_wait_queue_def running_def ti_get_current_thread_def thr_locks_free_def)

lemma create_guards:
  assumes "SCHED_VALID_PRIO pr" and "fl AND THR_THRFLAGS_USER \<noteq> 0 \<longrightarrow> SCHED_VALID_USER_PRIO pr"
    and "create_thread_common al ss sz i k pr fl s = Some (Inl err, e)"
  shows "thr_thread_create al ss sz i k pr fl s = Some (Inl err, e)"
proof -
  have "(\<not> SCHED_VALID_PRIO pr) = False" "(fl AND THR_THRFLAGS_USER \<noteq> 0 \<and> \<not> SCHED_VALID_USER_PRIO pr) = False"
    using assms by blast+
  then show ?thesis by (simp only: thr_thread_create_def assms(3) sum.case do_steps)
qed

lemma create_no_memory:
  assumes prio: "SCHED_VALID_PRIO pr" "fl AND THR_THRFLAGS_USER \<noteq> 0 \<longrightarrow> SCHED_VALID_USER_PRIO pr"
  shows "thr_alloc al (pools s) = (None, m) \<Longrightarrow> thr_thread_create al ss sz i 0 pr fl s = Some (Inl ENOMEM, s\<lparr>pools := m\<rparr>)"
    and "thr_alloc al (pools s) = (Some t, m) \<Longrightarrow> stk_alloc al m = (None, m') \<Longrightarrow>
      thr_thread_create al ss sz i 0 pr fl s =
        Some (Inl ENOMEM, (init_thread t fl pr (s\<lparr>pools := m\<rparr>))\<lparr>pools := thr_free al t m'\<rparr>)"
proof -
  have guards: "(\<not> SCHED_VALID_PRIO pr) = False" "(fl AND THR_THRFLAGS_USER \<noteq> 0 \<and> \<not> SCHED_VALID_USER_PRIO pr) = False"
    using prio by blast+
  show "thr_thread_create al ss sz i 0 pr fl s = Some (Inl ENOMEM, s\<lparr>pools := m\<rparr>)" if "thr_alloc al (pools s) = (None, m)"
    by (rule create_guards [OF prio]) (simp only: create_thread_common_def guards if_False that prod.case option.case)
  show "thr_thread_create al ss sz i 0 pr fl s =
      Some (Inl ENOMEM, (init_thread t fl pr (s\<lparr>pools := m\<rparr>))\<lparr>pools := thr_free al t m'\<rparr>)"
    if "thr_alloc al (pools s) = (Some t, m)" "stk_alloc al m = (None, m')"
    using that by (intro create_guards [OF prio]) (simp add: create_thread_common_def guards Let_def)
qed

lemma create_no_number:
  assumes locks: "thr_locks_free s" and prio: "SCHED_VALID_PRIO pr" "fl AND THR_THRFLAGS_USER \<noteq> 0 \<longrightarrow> SCHED_VALID_USER_PRIO pr"
    and alloc: "thr_alloc al (pools s) = (Some t, m)" "stk_alloc al m = (Some a, m')"
    and i: "\<not> i < THR_TID_RSV_ID_NR" and full: "bitmap64 c (idmap s)" "bits_of (idmap s) = {..<c}"
  shows "\<exists>e. thr_thread_create al ss sz i 0 pr fl s = Some (Inl ENOSPC, e) \<and> undone t s e \<and>
    pools e = thr_free al t (stk_free al a m')"
proof -
  obtain x where x: "new_thread s t a x" "pools x = m'"
    and run: "create_thread_common al ss sz i 0 pr fl s = do {
      (rc, s3) \<leftarrow> register_thread i t x;
      case rc of Inl err \<Rightarrow> Some (Inl err, s3\<lparr>pools := thr_free al t (stk_free al a (pools s3))\<rparr>)
      | Inr _ \<Rightarrow> Some (Inr t, s3) }"
    using create_common_run [OF prio alloc] by blast
  have x_s: "idmap x = idmap s" using x(1) unfolding new_thread_def by blast
  have "register_thread i t x = Some (Inl ENOSPC, x)"
    using register_run [of x c i t] new_thread_undone(2) [OF x(1) locks] full i by (simp add: x_s thr_locks_free_def)
  then have "create_thread_common al ss sz i 0 pr fl s = Some (Inl ENOSPC, x\<lparr>pools := thr_free al t (stk_free al a m')\<rparr>)"
    using run x(2) by simp
  from create_guards [OF prio this] show ?thesis
    using new_thread_undone(1) [OF x(1) locks, of "thr_free al t (stk_free al a m')"]
    by (intro exI [of _ "x\<lparr>pools := thr_free al t (stk_free al a m')\<rparr>"]) simp
qed

lemma undone_family:
  assumes inv: "family_inv h s" and fresh: "fresh s t" and e: "undone t s e"
  shows "family_inv h e"
proof -
  have same: "idmap e = idmap s" "thrtree e = thrtree s" "fam e u = fam s u" "thr_of e u = thr_of s u" "refs_of e u = refs_of s u"
    if "u \<noteq> t" for u
    using e that unfolding undone_def refs_of_def by auto
  have base: "idmap e = idmap s" "thrtree e = thrtree s" using e unfolding undone_def by blast+
  have live: "u \<noteq> t" if "u \<in> live s" for u using fresh that unfolding fresh_def by blast
  have kept: "fam e u = fam s u" if "u \<in> live s" for u using same(3) live that by blast
  have "member_ok h e u" if u: "u \<in> live s" for u
  proof -
    have ok: "member_ok h s u" using inv u unfolding family_inv_def by blast
    note u' = same(3-5) [OF live [OF u]]
    have "\<forall>c\<in>set (children (fam s u)). c \<in> live s \<and> c \<noteq> u \<and> parent (fam e c) = Some u"
      using ok kept unfolding member_ok_def by simp
    moreover have "parent (fam s u) = Some u \<or> (\<exists>p\<in>live s. parent (fam s u) = Some p \<and> u \<in> set (children (fam e p)))"
      using ok kept unfolding member_ok_def root_def by fastforce
    moreover have "z \<noteq> t" if "z \<in> set (waiters (fam s u))" for z using fresh u that unfolding fresh_def by blast
    then have "\<forall>z\<in>set (waiters (fam s u)). z \<notin> live s \<and> t_state (thr_of e z) = THR_TSTATE_DEAD \<and> refs_of e z = 0 \<and>
        parent (fam e z) = Some u"
      using ok same(3-5) unfolding member_ok_def by simp
    ultimately show ?thesis
      using ok unfolding member_ok_def root_def base u' by blast
  qed
  moreover have "\<exists>rank. ranked e rank"
    using inv kept unfolding family_inv_def ranked_def base by simp
  moreover have "thrtree s i = Some u \<Longrightarrow> u \<in> live s" for i u by (rule ranI)
  then have "\<forall>i u. thrtree s i = Some u \<longrightarrow> t_id (fam e u) = i \<and> unat i \<in> bits_of (idmap s)"
    "\<exists>r. thrtree s THR_TID_REAPER = Some r \<and> parent (fam e r) = Some r"
    using inv kept unfolding family_inv_def root_def by metis+
  ultimately show ?thesis
    using inv unfolding family_inv_def root_def base by blast
qed

section \<open>The numbers at start-up\<close>

lemma bits_of_fold_set:
  assumes "bitmap64 c v" and "\<forall>n\<in>set ns. n < c"
  shows "bitmap64 c (fold bitops_set ns v) \<and> bits_of (fold bitops_set ns v) = set ns \<union> bits_of v"
  using assms
proof (induction ns arbitrary: v)
  case (Cons n ns)
  then have "bitmap64 c (bitops_set n v) \<and> bits_of (bitops_set n v) = insert n (bits_of v)"
    using bm64.set_bit [of c v n] by simp
  then show ?case using Cons by simp
qed simp

lemma bits_of_upto:
  assumes "bitmap64 c v" and "bits_of v = {}" and "k \<le> c"
  shows "bitmap64 c (fold bitops_set [0..<k] v)" "bits_of (fold bitops_set [0..<k] v) = {..<k}"
  using bits_of_fold_set [OF assms(1), of "[0..<k]"] assms(2,3) by auto

lemma thr_init_numbers:
  assumes "bitmap64 THR_TID_MAX (idmap s)"
  shows "\<exists>e. thr_init (Inr ()) s = Some e \<and> bitmap64 THR_TID_MAX (idmap e) \<and> bits_of (idmap e) = {..<unat THR_TID_RSV_ID_NR} \<and>
    thrtree e = thrtree s"
proof -
  have zero: "bitmap64 THR_TID_MAX (bitops_zero (idmap s))" "bits_of (bitops_zero (idmap s)) = {}"
    using bm64.zero [OF assms] by simp_all
  have "unat THR_TID_RSV_ID_NR \<le> THR_TID_MAX" by (simp add: THR_TID_RSV_ID_NR_def THR_TID_MAX_def)
  from bits_of_upto [OF zero this] show ?thesis by (simp add: thr_init_def)
qed

section \<open>A sample\<close>

text \<open>
  Thread 0 is the reaper, thread 1 is its child and runs, and thread 3 is the child of thread 1. The
  state of the allocators is the next free thread structure; all the stacks are at one address.
\<close>

definition sample_family :: family where
  "sample_family = \<lparr>t_id = 0, t_flags = 0, exitcode = 0, parent = None, children = [], waiters = [], pque = 0,
     kstack_top = 0, ini_prio = 3, base_prio = 3\<rparr>"

definition sample_numbers :: "u64 list" where
  "sample_numbers = fold bitops_set [0..<34] (replicate 16 0)"

definition sample_threads :: "nat thrdb" where
  "sample_threads = \<lparr>
     sn = sample_sync\<lparr>krn := sample_sched\<lparr>threads := \<lambda>t. sample_thread\<lparr>t_refs := (if t = 0 \<or> t = 3 then 2 else if t = 1 then 3 else 0)\<rparr>,
        current := 1\<rparr>, wlinks := \<lambda>n. \<lparr>lprev = n, lnext = n\<rparr>\<rparr>,
     idmap = sample_numbers,
     thrtree = [2 \<mapsto> 0, 32 \<mapsto> 1, 33 \<mapsto> 3],
     fam = (\<lambda>_. sample_family)(0 := sample_family\<lparr>t_id := 2, parent := Some 0, children := [1]\<rparr>,
        1 := sample_family\<lparr>t_id := 32, parent := Some 0, children := [3]\<rparr>,
        3 := sample_family\<lparr>t_id := 33, parent := Some 1\<rparr>),
     pools = 7\<rparr>"

definition sample_alloc :: "nat allocators" where
  "sample_alloc = \<lparr>thr_alloc = \<lambda>m. (Some m, m + 1), thr_free = \<lambda>_ m. m,
     stk_alloc = \<lambda>m. (Some 0x80004000, m), stk_free = \<lambda>_ m. m\<rparr>"

lemma sample_fields [simp]:
  "running sample_threads = 1" "thrtree sample_threads = [2 \<mapsto> 0, 32 \<mapsto> 1, 33 \<mapsto> 3]" "pools sample_threads = 7"
  "fam sample_threads 0 = sample_family\<lparr>t_id := 2, parent := Some 0, children := [1]\<rparr>"
  "fam sample_threads (Suc 0) = sample_family\<lparr>t_id := 32, parent := Some 0, children := [3]\<rparr>"
  "fam sample_threads 3 = sample_family\<lparr>t_id := 33, parent := Some 1\<rparr>"
  "refs_of sample_threads 0 = 2" "refs_of sample_threads (Suc 0) = 3" "refs_of sample_threads 3 = 2"
  by (simp add: sample_threads_def running_def ti_get_current_thread_def refs_of_def thr_of_def)+

lemma sample_live: "live sample_threads = {0, 1, 3}"
  by (simp add: ran_map_upd insert_commute)

lemma sample_ids: "bitmap64 THR_TID_MAX (idmap sample_threads)" "bits_of (idmap sample_threads) = {..<34}" "lowest sample_threads = 34"
proof -
  have zero: "bitmap64 THR_TID_MAX (replicate 16 0 :: u64 list)" "bits_of (replicate 16 0 :: u64 list) = {}"
    by (auto simp: bitmap64_def THR_TID_MAX_def bits_of_def less_mult_imp_div_less)
  have ids: "idmap sample_threads = fold bitops_set [0..<34] (replicate 16 0)"
    by (simp only: sample_threads_def sample_numbers_def thrdb.simps)
  have "34 \<le> THR_TID_MAX" by (simp add: THR_TID_MAX_def)
  then show "bitmap64 THR_TID_MAX (idmap sample_threads)" and bits: "bits_of (idmap sample_threads) = {..<34}"
    unfolding ids by (rule bits_of_upto [OF zero])+
  show "lowest sample_threads = 34" unfolding bits by (auto intro!: Least_equality)
qed

lemma sample_family_inv: "family_inv (\<lambda>_. 0) sample_threads"
proof -
  have "ranked sample_threads id" by (auto simp: ranked_def sample_live sample_family_def)
  then have "\<exists>rank. ranked sample_threads rank" by blast
  moreover have "\<forall>t\<in>live sample_threads. member_ok (\<lambda>_. 0) sample_threads t"
    unfolding sample_live by (simp add: member_ok_def root_def sample_live sample_family_def)
  moreover have "root sample_threads 0" by (simp add: root_def sample_family_def)
  ultimately show ?thesis
    unfolding family_inv_def using sample_ids
    by (auto simp: THR_TID_REAPER_def sample_family_def split: if_splits)
qed

lemma sample_locks: "thr_locks_free sample_threads"
  by (simp add: thr_locks_free_def thr_of_def sample_threads_def sample_sched_def sample_thread_def lock_free_def spinlock_init_def)

lemma sample_exit_ready: "exit_ready (\<lambda>_. []) (\<lambda>_. []) 0 sample_threads"
proof -
  have "rq_inv (\<lambda>_. []) (krn (sn sample_threads))"
    using sample_sched_inv by (simp add: rq_inv_def sample_threads_def)
  moreover have "wq_inv (\<lambda>_. []) (sn sample_threads)"
    by (auto simp: wq_inv_def sample_threads_def wf_queues_def wq_queues_def list_not_linked_def split: wque_node.splits)
  ultimately show ?thesis
    by (simp add: exit_ready_def in_ready_def wakeable_def sample_threads_def sample_sched_def sample_sync_def lock_free_def spinlock_init_def)
qed

section \<open>Properties\<close>

text \<open>The priorities that a request is refused for.\<close>

definition bad_priority :: "nat \<Rightarrow> u32 \<Rightarrow> bool" where
  "bad_priority pr fl \<longleftrightarrow> \<not> SCHED_VALID_PRIO pr \<or> fl AND THR_THRFLAGS_USER \<noteq> 0 \<and> \<not> SCHED_VALID_USER_PRIO pr"

lemma good_priority:
  "\<not> bad_priority pr fl \<Longrightarrow> SCHED_VALID_PRIO pr" "\<not> bad_priority pr fl \<Longrightarrow> fl AND THR_THRFLAGS_USER \<noteq> 0 \<longrightarrow> SCHED_VALID_USER_PRIO pr"
  by (auto simp: bad_priority_def)

text \<open>
  C38. \<open>thr_thread_create\<close> called by a thread of the tree, with a number that is not one of the 32 reserved
  ones and no stack of the caller's. A priority out of range is refused and changes nothing. Without
  memory for the structure or for the stack the result is \<open>ENOMEM\<close>, and when all 1024 numbers are taken
  it is \<open>ENOSPC\<close>: what had been allocated is given back, and the tree, the numbers, all the other threads,
  the lock of the tree and the interrupt state are as before. Otherwise the new thread \<open>t\<close>
  gets the lowest free number and one reference from the tree and one from the queue of its parent, which is the running
  thread, gets one reference more and has \<open>t\<close> as its last child; no other thread changes. The family of the
  threads is well-formed again, \<open>t\<close> is in the tree besides those that were, and no lock is left held.
  The allocator gives no structure that is in use (\<open>fresh\<close>).
\<close>

theorem thread_creation:
  assumes inv: "family_inv h s" and live: "running s \<in> live s" and locks: "thr_locks_free s"
    and fresh: "\<And>t m. thr_alloc al (pools s) = (Some t, m) \<Longrightarrow> fresh s t" and i: "\<not> i < THR_TID_RSV_ID_NR"
  shows "if bad_priority pr fl then thr_thread_create al ss sz i 0 pr fl s = Some (Inl EINVAL, s)
    else case thr_alloc al (pools s) of
      (None, m) \<Rightarrow> thr_thread_create al ss sz i 0 pr fl s = Some (Inl ENOMEM, s\<lparr>pools := m\<rparr>)
    | (Some t, m) \<Rightarrow> (case stk_alloc al m of
        (None, m') \<Rightarrow> \<exists>e. thr_thread_create al ss sz i 0 pr fl s = Some (Inl ENOMEM, e) \<and> undone t s e \<and>
          family_inv h e \<and> pools e = thr_free al t m'
      | (Some a, m') \<Rightarrow>
          if bits_of (idmap s) = {..<THR_TID_MAX}
          then \<exists>e. thr_thread_create al ss sz i 0 pr fl s = Some (Inl ENOSPC, e) \<and> undone t s e \<and>
            family_inv h e \<and> pools e = thr_free al t (stk_free al a m')
          else \<exists>e. thr_thread_create al ss sz i 0 pr fl s = Some (Inr t, e) \<and> created t (running s) (lowest s) a s e \<and>
            pools e = m' \<and> thr_locks_free e \<and> imask (krn (sn e)) = imask (krn (sn s)) \<and>
            family_inv (h(t := 0)) e \<and> live e = insert t (live s))"
proof (cases "bad_priority pr fl")
  case True
  then have "thr_thread_create al ss sz i 0 pr fl s = Some (Inl EINVAL, s)"
    unfolding bad_priority_def using create_fails by blast
  then show ?thesis using True by simp
next
  case False
  note prio = good_priority [OF False]
  have map: "bitmap64 THR_TID_MAX (idmap s)" using inv unfolding family_inv_def by blast
  obtain st m where st: "thr_alloc al (pools s) = (st, m)" by fastforce
  show ?thesis
  proof (cases st)
    case None
    then show ?thesis using False create_no_memory(1) [OF prio] st by simp
  next
    case (Some t)
    then have t: "thr_alloc al (pools s) = (Some t, m)" using st by simp
    note fr = fresh [OF t]
    obtain sa m' where sa: "stk_alloc al m = (sa, m')" by fastforce
    show ?thesis
    proof (cases sa)
      case None
      let ?e = "(init_thread t fl pr (s\<lparr>pools := m\<rparr>))\<lparr>pools := thr_free al t m'\<rparr>"
      have "undone t s ?e" using init_undone [OF locks] by blast
      moreover have "family_inv h ?e" by (rule undone_family [OF inv fr init_undone [OF locks]])
      moreover have "thr_thread_create al ss sz i 0 pr fl s = Some (Inl ENOMEM, ?e)"
        using create_no_memory(2) [OF prio t] sa None by simp
      ultimately show ?thesis using False t sa None by auto
    next
      case (Some a)
      then have a: "stk_alloc al m = (Some a, m')" using sa by simp
      have full: "\<exists>e. thr_thread_create al ss sz i 0 pr fl s = Some (Inl ENOSPC, e) \<and> undone t s e \<and>
          family_inv h e \<and> pools e = thr_free al t (stk_free al a m')" if "bits_of (idmap s) = {..<THR_TID_MAX}"
        using create_no_number [OF locks prio t a i map that, of ss sz] undone_family [OF inv fr] by blast
      have room: "\<exists>e. thr_thread_create al ss sz i 0 pr fl s = Some (Inr t, e) \<and> created t (running s) (lowest s) a s e \<and>
          pools e = m' \<and> thr_locks_free e \<and> imask (krn (sn e)) = imask (krn (sn s)) \<and> family_inv (h(t := 0)) e \<and>
          live e = insert t (live s)" if "bits_of (idmap s) \<noteq> {..<THR_TID_MAX}"
        using create_run [OF inv live locks fr prio t a i that, of ss sz]
          create_family [OF inv live fr lowest_free [OF map that]] by blast
      show ?thesis using False t a full room by simp
    qed
  qed
qed

theorem thread_creation_witness:
  "\<exists>e. thr_thread_create sample_alloc 0x4000 64 THR_TID_AUTO 0 3 0 sample_threads = Some (Inr 7, e) \<and>
    thrtree e 34 = Some 7 \<and> parent (fam e 7) = Some 1 \<and> children (fam e 1) = [3, 7] \<and> live e = {0, 1, 3, 7}"
proof -
  have "fresh sample_threads 7"
    unfolding fresh_def sample_live by (simp add: sample_family_def)
  moreover have "thr_alloc sample_alloc (pools sample_threads) = (Some 7, 8)" "stk_alloc sample_alloc 8 = (Some 0x80004000, 8)"
    "\<not> THR_TID_AUTO < THR_TID_RSV_ID_NR"
    by (simp add: sample_alloc_def, simp add: sample_alloc_def, code_simp)
  moreover have "bits_of (idmap sample_threads) \<noteq> {..<THR_TID_MAX}"
    unfolding sample_ids(2) by (simp add: THR_TID_MAX_def)
  moreover have "\<not> bad_priority 3 0" by code_simp
  moreover have "running sample_threads \<in> live sample_threads" by (simp add: sample_live)
  ultimately show ?thesis
    using thread_creation [OF sample_family_inv _ sample_locks, where al = sample_alloc
        and i = THR_TID_AUTO and pr = 3 and fl = 0 and ss = "0x4000" and sz = 64]
    unfolding created_def sample_ids(3) sample_live by (auto simp: sample_family_def)
qed

text \<open>The thread \<open>t\<close> after its end, and its parent.\<close>

lemma ended_thread:
  assumes inv: "family_inv h s" and t: "t \<in> live s" and p: "parent (fam s t) = Some p" "p \<noteq> t"
    and r: "thrtree s THR_TID_REAPER = Some r" and e: "ended r p t ec s e"
  shows "t_id (fam e t) = t_id (fam s t)" "exitcode (fam e t) = ec" "waiters (fam e t) = waiters (fam s t)"
    and "waiters (fam e p) = waiters (fam s p) @ [t]"
proof -
  note facts = exit_facts [OF inv t p r]
  note ex = exited_simps [of r t p "fam s", OF facts(1) p(2) facts(8,6), where ec = ec, folded e [unfolded ended_def, THEN conjunct1]]
  show "t_id (fam e t) = t_id (fam s t)" "exitcode (fam e t) = ec" "waiters (fam e t) = waiters (fam s t)"
    "waiters (fam e p) = waiters (fam s p) @ [t]"
    using p(2) by (simp_all add: ex)
qed

lemma exit_ended:
  assumes inv: "family_inv h s" and live: "running s \<in> live s" and p: "parent (fam s (running s)) = Some p" "p \<noteq> running s"
    and r: "thrtree s THR_TID_REAPER = Some r" and locks: "thr_locks_free s" and h: "h (running s) = 0"
    and ready: "exit_ready q rd (pque (fam s p)) s"
  shows "\<exists>e. thr_thread_exit ec s = leave_processor (running s) e \<and>
    ended r p (running s) ec s e \<and> thr_locks_free e \<and> running e = running s \<and> pools e = pools s \<and>
    ents (sn e) = with_reason (woken_entries q s (pque (fam s p))) WQUE_RELEASED (ents (sn s)) \<and>
    same_cpu (krn (sn e)) (krn (sn s)) \<and> imask (krn (sn e)) = imask (krn (sn s)) \<and>
    (\<forall>u. cur_prio (thr_of e u) = cur_prio (thr_of s u) \<and> same_nesting (thr_of e u) (thr_of s u)) \<and>
    (\<forall>u. t_state (thr_of e u) = (if u \<in> set (sleepers_of q s (pque (fam s p))) then THR_TSTATE_RUNABLE
      else if u = running s then THR_TSTATE_DEAD else t_state (thr_of s u))) \<and>
    rq_inv (fold (add_ready (krn (sn s))) (sleepers_of q s (pque (fam s p))) rd) (krn (sn e))"
proof -
  let ?t = "running s" and ?w = "set (sleepers_of q s (pque (fam s p)))"
  obtain e where e: "thr_thread_exit ec s = leave_processor ?t e"
    "fam e = exited r p ?t ec (fam s)" "refs_of e = exit_refs r p ?t (length (children (fam s ?t))) (refs_of s)"
    "idmap e = bitops_clr (unat (t_id (fam s ?t))) (idmap s)" "thrtree e = (thrtree s)(t_id (fam s ?t) := None)"
    and st: "\<forall>u. t_state (thr_of e u) = (if u \<in> ?w then THR_TSTATE_RUNABLE else if u = ?t then THR_TSTATE_DEAD else t_state (thr_of s u))"
    and rest: "pools e = pools s" "running e = ?t" "thr_locks_free e"
      "ents (sn e) = with_reason (woken_entries q s (pque (fam s p))) WQUE_RELEASED (ents (sn s))"
      "same_cpu (krn (sn e)) (krn (sn s))" "imask (krn (sn e)) = imask (krn (sn s))"
      "\<forall>u. cur_prio (thr_of e u) = cur_prio (thr_of s u) \<and> same_nesting (thr_of e u) (thr_of s u)"
      "rq_inv (fold (add_ready (krn (sn s))) (sleepers_of q s (pque (fam s p))) rd) (krn (sn e))"
    using exit_run [OF inv live p r locks h ready, of ec] by blast
  have asleep: "0 < refs_of s u \<and> u \<noteq> ?t" if "u \<in> ?w" for u
    using that ready set_take_subset [of 1 "q (pque (fam s p))"]
    unfolding exit_ready_def wakeable_def sleepers_of_def to_wake_def Let_def by (fastforce split: if_splits)
  have "t_state (thr_of e u) = THR_TSTATE_DEAD" if "t_state (thr_of s u) = THR_TSTATE_DEAD" "refs_of s u = 0" for u
    using that st asleep [of u] by auto
  moreover have "t_state (thr_of e ?t) = THR_TSTATE_DEAD" using st asleep [of ?t] by auto
  ultimately have "ended r p ?t ec s e" unfolding ended_def using e(2-5) by blast
  then show ?thesis
    using e(1) rest st by (intro exI [of _ e]) simp
qed

lemma in_ready_fold:
  assumes "u \<in> in_ready (fold (add_ready k) ts rd)"
  shows "u \<in> in_ready rd \<or> u \<in> set ts"
  using assms
proof (induction ts arbitrary: rd)
  case (Cons t ts)
  then have "u \<in> in_ready (add_ready k t rd) \<or> u \<in> set ts" by simp
  then show ?case by (auto simp: add_ready_def in_ready_def split: if_splits)
qed simp

text \<open>What the scheduler needs of the running thread to let another one have the processor.\<close>

definition can_leave :: "nat \<Rightarrow> 'm thrdb \<Rightarrow> bool" where
  "can_leave idle s \<longleftrightarrow> (let k = krn (sn s); th = thr_of s (running s)
     in idle_threads k (this_cpu k) = Some idle \<and> idle \<noteq> running s \<and> cur_prio th < SCHED_PRIO_NR \<and>
        ti_cpu (tinfo th) = this_cpu k \<and> \<not> ti_dispatch_disabled k)"

lemma same_disabled:
  assumes "running e = running s" and "same_nesting (thr_of e (running s)) (thr_of s (running s))"
  shows "ti_dispatch_disabled (krn (sn e)) \<longleftrightarrow> ti_dispatch_disabled (krn (sn s))"
  using assms by (simp add: dispatch_disabled_iff ti_get_current_thread_info_def same_nesting_def thr_of_def
      running_def ti_get_current_thread_def)

text \<open>The way the dead thread leaves the processor.\<close>

lemma exit_leaves:
  assumes e: "thr_locks_free e" "running e = running s" "same_cpu (krn (sn e)) (krn (sn s))"
      "\<forall>u. cur_prio (thr_of e u) = cur_prio (thr_of s u) \<and> same_nesting (thr_of e u) (thr_of s u)"
      "t_state (thr_of e (running s)) = THR_TSTATE_DEAD" "rq_inv rd' (krn (sn e))" "running s \<notin> in_ready rd'"
    and free: "lock_free (rq_lock (krn (sn s)))"
  shows "(ti_dispatch_disabled (krn (sn s)) \<longrightarrow> leave_processor (running s) e = Some (True, with_request e)) \<and>
    (\<forall>idle nxt rd''. can_leave idle s \<and> rq_pick rd' idle = (nxt, rd'') \<longrightarrow>
      (\<exists>k. leave_processor (running s) e = Some (False, k) \<and> running k = nxt \<and> k = e\<lparr>sn := (sn e)\<lparr>krn := krn (sn k)\<rparr>\<rparr> \<and>
        rq_inv rd'' (krn (sn k)) \<and> thr_locks_free k \<and> refs_of k = refs_of e \<and>
        (\<forall>u. u \<noteq> nxt \<longrightarrow> t_state (thr_of k u) = t_state (thr_of e u))))"
proof (intro conjI impI allI)
  have nest: "same_nesting (thr_of e (running s)) (thr_of s (running s))" using e(4) by blast
  note dis = same_disabled [OF e(2) nest]
  show "leave_processor (running s) e = Some (True, with_request e)" if "ti_dispatch_disabled (krn (sn s))"
    using leave_disabled [of e] that dis e(1,2) by simp
  fix idle nxt rd''
  assume "can_leave idle s \<and> rq_pick rd' idle = (nxt, rd'')"
  then have c: "idle_threads (krn (sn s)) (this_cpu (krn (sn s))) = Some idle" "idle \<noteq> running s"
      "cur_prio (thr_of s (running s)) < SCHED_PRIO_NR" "ti_cpu (tinfo (thr_of s (running s))) = this_cpu (krn (sn s))"
      "\<not> ti_dispatch_disabled (krn (sn e))" and pick: "rq_pick rd' idle = (nxt, rd'')"
    using dis by (simp_all add: can_leave_def Let_def)
  have cur: "current (krn (sn e)) = running s" using e(2) by (simp add: running_def ti_get_current_thread_def)
  have "sched_ok rd' (krn (sn e))"
    using e c nest free by (simp add: sched_ok_def cur thr_locks_free_def thr_of_def same_cpu_def same_nesting_def)
  moreover have "nxt = idle \<or> nxt \<in> in_ready rd'"
  proof (cases "in_ready rd' = {}")
    case True
    then have "fst (rq_pop rd') = None" by (cases rd' rule: rq_pop_cases) (auto simp: in_ready_def)
    then show ?thesis using pick by (auto simp: rq_pick_def split: prod.splits option.splits)
  qed (use rq_pick_ready [OF _ pick] in blast)
  then have "nxt \<noteq> running e" using e(2,7) c(2) by auto
  moreover have "idle_threads (krn (sn e)) (this_cpu (krn (sn e))) = Some idle" using c(1) e(3) by (simp add: same_cpu_def)
  ultimately show "\<exists>k. leave_processor (running s) e = Some (False, k) \<and> running k = nxt \<and> k = e\<lparr>sn := (sn e)\<lparr>krn := krn (sn k)\<rparr>\<rparr> \<and>
      rq_inv rd'' (krn (sn k)) \<and> thr_locks_free k \<and> refs_of k = refs_of e \<and>
      (\<forall>u. u \<noteq> nxt \<longrightarrow> t_state (thr_of k u) = t_state (thr_of e u))"
    using leave_enabled [of rd' e idle nxt rd''] c(5) pick e(2,5) by auto
qed

lemma exit_not_ready:
  assumes "exit_ready q rd w s"
  shows "running s \<notin> in_ready (fold (add_ready (krn (sn s))) (sleepers_of q s w) rd)" "lock_free (rq_lock (krn (sn s)))"
proof -
  have "set (woken_entries q s w) \<subseteq> set (q w)" using set_take_subset [of 1 "q w"] by (auto simp: to_wake_def)
  then have "running s \<notin> set (sleepers_of q s w)" using assms by (auto simp: exit_ready_def sleepers_of_def)
  then show "running s \<notin> in_ready (fold (add_ready (krn (sn s))) (sleepers_of q s w) rd)"
    using assms in_ready_fold unfolding exit_ready_def by blast
  show "lock_free (rq_lock (krn (sn s)))" using assms by (simp add: exit_ready_def wakeable_def)
qed

text \<open>
  C39. The running thread \<open>t\<close>, which is no root and holds no reference of its own, ends. \<open>thr_thread_exit\<close> calls the scheduler
  in a state \<open>e\<close> in which \<open>t\<close> is out of the tree, its number is free, it has no reference left and is dead
  with its exit code, at the end of the ended children of its parent. All of its own children are children of
  the reaper, with their references and the reaper's adjusted. The sleepers of the parent's wait queue
  are runnable and in the ready queue, no lock is held, the interrupt state is that of the call, and the family of the remaining threads is
  well-formed. The ended children that \<open>t\<close> had not waited for remain in its queue. While dispatching is
  disabled the scheduler comes back, both times, and \<open>thr_thread_exit\<close> returns in \<open>t\<close>, with only a dispatch
  request added to \<open>e\<close>. Otherwise it does not return: the processor goes to the first thread of the ready queue or to the
  idle thread, and the state differs from \<open>e\<close> only in what the scheduler changes.
\<close>

theorem thread_exit:
  assumes inv: "family_inv h s" and live: "running s \<in> live s" and p: "parent (fam s (running s)) = Some p" "p \<noteq> running s"
    and r: "thrtree s THR_TID_REAPER = Some r" and locks: "thr_locks_free s" and h: "h (running s) = 0"
    and ready: "exit_ready q rd (pque (fam s p)) s"
    and rd': "rd' = fold (add_ready (krn (sn s))) (sleepers_of q s (pque (fam s p))) rd"
  shows "\<exists>e. thr_thread_exit ec s = leave_processor (running s) e \<and>
    ended r p (running s) ec s e \<and> family_inv h e \<and> live e = live s - {running s} \<and> thr_locks_free e \<and> running e = running s \<and>
    pools e = pools s \<and> waiters (fam e (running s)) = waiters (fam s (running s)) \<and> imask (krn (sn e)) = imask (krn (sn s)) \<and>
    (\<forall>u\<in>set (sleepers_of q s (pque (fam s p))). t_state (thr_of e u) = THR_TSTATE_RUNABLE) \<and> rq_inv rd' (krn (sn e)) \<and>
    (ti_dispatch_disabled (krn (sn s)) \<longrightarrow> thr_thread_exit ec s = Some (True, with_request e)) \<and>
    (\<forall>idle nxt rd''. can_leave idle s \<and> rq_pick rd' idle = (nxt, rd'') \<longrightarrow>
      (\<exists>k. thr_thread_exit ec s = Some (False, k) \<and> running k = nxt \<and> k = e\<lparr>sn := (sn e)\<lparr>krn := krn (sn k)\<rparr>\<rparr> \<and>
        rq_inv rd'' (krn (sn k)) \<and> thr_locks_free k))"
proof -
  obtain e where e: "thr_thread_exit ec s = leave_processor (running s) e" "ended r p (running s) ec s e"
    and same: "thr_locks_free e" "running e = running s" "pools e = pools s" "same_cpu (krn (sn e)) (krn (sn s))"
      "imask (krn (sn e)) = imask (krn (sn s))"
      "\<forall>u. cur_prio (thr_of e u) = cur_prio (thr_of s u) \<and> same_nesting (thr_of e u) (thr_of s u)"
    and st: "\<forall>u. t_state (thr_of e u) = (if u \<in> set (sleepers_of q s (pque (fam s p))) then THR_TSTATE_RUNABLE
      else if u = running s then THR_TSTATE_DEAD else t_state (thr_of s u))"
    and rq: "rq_inv rd' (krn (sn e))"
    using exit_ended [OF inv live p r locks h ready, of ec] unfolding rd' by blast
  have dead: "t_state (thr_of e (running s)) = THR_TSTATE_DEAD" using e(2) unfolding ended_def by blast
  have away: "running s \<notin> in_ready rd'" and free: "lock_free (rq_lock (krn (sn s)))"
    using exit_not_ready [OF ready] unfolding rd' by blast+
  note leaves = exit_leaves [OF same(1,2,4,6) dead rq away free, folded e(1)]
  have "waiters (fam e (running s)) = waiters (fam s (running s))"
    using ended_thread(3) [OF inv live p r e(2)] .
  then show ?thesis
    using exit_family [OF inv live p r e(2)] e same st rq leaves by (intro exI [of _ e]) (simp, blast)
qed

theorem thread_exit_witness:
  "\<exists>k. thr_thread_exit 42 sample_threads = Some (False, k) \<and> running k = 9 \<and>
    live k = {0, 3} \<and> children (fam k 0) = [3] \<and> parent (fam k 3) = Some 0 \<and> waiters (fam k 0) = [1] \<and> exitcode (fam k 1) = 42"
proof -
  have p: "parent (fam sample_threads (running sample_threads)) = Some 0" "0 \<noteq> running sample_threads"
      "thrtree sample_threads THR_TID_REAPER = Some 0" "running sample_threads \<in> live sample_threads" "pque (fam sample_threads 0) = 0"
    by (simp_all add: sample_family_def THR_TID_REAPER_def sample_live)
  have none: "sleepers_of (\<lambda>_. []) sample_threads 0 = []" by (simp add: sleepers_of_def to_wake_def)
  have leave: "can_leave 9 sample_threads"
    by (simp add: can_leave_def thr_of_def dispatch_disabled_iff ti_get_current_thread_info_def ti_get_current_thread_def
        sample_threads_def running_def sample_sched_def sample_thread_def SCHED_PRIO_NR_def)
  have pick: "rq_pick (\<lambda>_. []) 9 = (9, \<lambda>_. [])"
  proof -
    have "find (\<lambda>p. False) [0..<SCHED_PRIO_NR] = None" by (simp add: find_None_iff)
    then show ?thesis by (simp add: rq_pick_def rq_pop_def)
  qed
  from thread_exit [OF sample_family_inv p(4,1,2,3) sample_locks _ _ refl, of "\<lambda>_. []" "\<lambda>_. []" 42]
  obtain e where e: "ended 0 0 1 42 sample_threads e" "live e = live sample_threads - {1}"
    and out: "\<forall>idle nxt rd''. can_leave idle sample_threads \<and> rq_pick (\<lambda>_. []) idle = (nxt, rd'') \<longrightarrow>
      (\<exists>k. thr_thread_exit 42 sample_threads = Some (False, k) \<and> running k = nxt \<and> k = e\<lparr>sn := (sn e)\<lparr>krn := krn (sn k)\<rparr>\<rparr> \<and>
        rq_inv rd'' (krn (sn k)) \<and> thr_locks_free k)"
    using sample_exit_ready unfolding p(5) none by auto
  obtain k where k: "thr_thread_exit 42 sample_threads = Some (False, k)" "running k = 9" "k = e\<lparr>sn := (sn e)\<lparr>krn := krn (sn k)\<rparr>\<rparr>"
    using out leave pick by blast
  have "fam k = fam e" "thrtree k = thrtree e" by (subst k(3), simp)+
  then show ?thesis
    using e k(1,2) by (intro exI [of _ k]) (auto simp: ended_def exited_def adopted_def Let_def sample_live sample_family_def)
qed

text \<open>The family does not depend on what the scheduler changes.\<close>

lemma kept_family:
  assumes inv: "family_inv h e" and same: "fam k = fam e" "thrtree k = thrtree e" "idmap k = idmap e" "refs_of k = refs_of e"
    and dead: "\<And>u. u \<notin> live e \<Longrightarrow> t_state (thr_of k u) = t_state (thr_of e u)"
  shows "family_inv h k"
proof -
  have "member_ok h k u" if "member_ok h e u" for u
    using that dead unfolding member_ok_def root_def same by metis
  then show "family_inv h k"
    using inv unfolding family_inv_def ranked_def root_def same by blast
qed

text \<open>
  The parent \<open>p\<close> runs in \<open>k\<close>, some time after \<open>e\<close>: nobody else has taken from its queue of ended children, to
  which others may have been added, and the dead thread \<open>z\<close> has kept its number, code and stack.
\<close>

definition resumed_by :: "nat \<Rightarrow> nat \<Rightarrow> 'm thrdb \<Rightarrow> 'm thrdb \<Rightarrow> bool" where
  "resumed_by p z e k \<longleftrightarrow> running k = p \<and> p \<in> live k \<and> thr_locks_free k \<and>
     (\<exists>more. waiters (fam k p) = waiters (fam e p) @ more) \<and>
     t_id (fam k z) = t_id (fam e z) \<and> exitcode (fam k z) = exitcode (fam e z) \<and> kstack_top (fam k z) = kstack_top (fam e z)"

lemma collect:
  assumes k: "resumed_by p z e k" "family_inv h k" and ws: "waiters (fam e p) = z # zs"
  shows "\<exists>k'. thr_thread_wait al rc0 w k = Some (WaitReturned (Inr (t_id (fam e z), exitcode (fam e z))), k') \<and>
      waiters (fam k' p) = tl (waiters (fam k p)) \<and> pools k' = thr_free al z (stk_free al (kstack_top (fam e z)) (pools k)) \<and>
      family_inv h k' \<and> live k' = live k"
    and "h p = 1 \<Longrightarrow> w_reason (ents (sn k) x) = WQUE_RELEASED \<Longrightarrow>
      \<exists>k'. thr_thread_wait_woken al x f k = Some (WaitReturned (Inr (t_id (fam e z), exitcode (fam e z))), k') \<and>
      waiters (fam k' p) = tl (waiters (fam k p)) \<and> pools k' = thr_free al z (stk_free al (kstack_top (fam e z)) (pools k)) \<and>
      family_inv (h(p := 0)) k' \<and> live k' = live k"
proof -
  obtain zs' where ws': "waiters (fam k p) = z # zs'" using k(1) ws unfolding resumed_by_def by auto
  have k': "running k = p" "p \<in> live k" "thr_locks_free k" "t_id (fam k z) = t_id (fam e z)"
      "exitcode (fam k z) = exitcode (fam e z)" "kstack_top (fam k z) = kstack_top (fam e z)"
    using k(1) unfolding resumed_by_def by blast+
  show "\<exists>k'. thr_thread_wait al rc0 w k = Some (WaitReturned (Inr (t_id (fam e z), exitcode (fam e z))), k') \<and>
      waiters (fam k' p) = tl (waiters (fam k p)) \<and> pools k' = thr_free al z (stk_free al (kstack_top (fam e z)) (pools k)) \<and>
      family_inv h k' \<and> live k' = live k"
    using wait_run [of h k z zs' al rc0 w] wait_family [OF k(2) k'(2) ws'] k(2) k' ws' by simp
  show "\<exists>k'. thr_thread_wait_woken al x f k = Some (WaitReturned (Inr (t_id (fam e z), exitcode (fam e z))), k') \<and>
      waiters (fam k' p) = tl (waiters (fam k p)) \<and> pools k' = thr_free al z (stk_free al (kstack_top (fam e z)) (pools k)) \<and>
      family_inv (h(p := 0)) k' \<and> live k' = live k"
    if "h p = 1" "w_reason (ents (sn k) x) = WQUE_RELEASED"
    using wait_woken_run [of h k z zs' x al f] woken_family [OF k(2) k'(2) ws' that(1)] k(2) k' ws' that by simp
qed

text \<open>
  C40. A thread \<open>t\<close> ends and its parent \<open>p\<close> collects it. In every later state in which \<open>p\<close> runs, with a
  well-formed family and no lock held, and in which nobody has taken anything from the queue of ended
  children of \<open>p\<close> (others may have been added) or changed the dead thread \<open>z\<close> at its head: a call of
  \<open>thr_thread_wait\<close> returns at once with the number and the code of \<open>z\<close>, takes \<open>z\<close> out of the queue, gives the
  stack and then the structure of \<open>z\<close> back, and leaves the family well-formed; and when \<open>p\<close> was asleep in
  \<open>thr_thread_wait\<close> and has been released, the rest of that call does the same and gives the reference
  back that it had taken. \<open>z\<close> is \<open>t\<close>, with its number and its exit code, when \<open>p\<close> had no ended child before,
  and the oldest of the ended children otherwise. When the ready queue gives the processor to \<open>p\<close>, the state in which
  \<open>thr_thread_exit\<close> leaves it is such a state, and the entry that \<open>p\<close> slept on says that it was released.
\<close>

theorem exit_then_wait:
  assumes inv: "family_inv h s" and live: "running s \<in> live s" and p: "parent (fam s (running s)) = Some p" "p \<noteq> running s"
    and r: "thrtree s THR_TID_REAPER = Some r" and locks: "thr_locks_free s" and h: "h (running s) = 0"
    and ready: "exit_ready q rd (pque (fam s p)) s"
    and rd': "rd' = fold (add_ready (krn (sn s))) (sleepers_of q s (pque (fam s p))) rd"
    and z: "z = hd (waiters (fam s p) @ [running s])"
  shows "\<exists>e. thr_thread_exit ec s = leave_processor (running s) e \<and> live e = live s - {running s} \<and>
    t_id (fam e (running s)) = t_id (fam s (running s)) \<and> exitcode (fam e (running s)) = ec \<and>
    waiters (fam e p) = waiters (fam s p) @ [running s] \<and>
    (\<forall>k g. resumed_by p z e k \<and> family_inv g k \<longrightarrow>
      (\<exists>k'. thr_thread_wait al rc0 w k = Some (WaitReturned (Inr (t_id (fam e z), exitcode (fam e z))), k') \<and>
        waiters (fam k' p) = tl (waiters (fam k p)) \<and> pools k' = thr_free al z (stk_free al (kstack_top (fam e z)) (pools k)) \<and>
        family_inv g k' \<and> live k' = live k) \<and>
      (\<forall>x f. g p = 1 \<and> w_reason (ents (sn k) x) = WQUE_RELEASED \<longrightarrow>
       (\<exists>k'. thr_thread_wait_woken al x f k = Some (WaitReturned (Inr (t_id (fam e z), exitcode (fam e z))), k') \<and>
        waiters (fam k' p) = tl (waiters (fam k p)) \<and> pools k' = thr_free al z (stk_free al (kstack_top (fam e z)) (pools k)) \<and>
        family_inv (g(p := 0)) k' \<and> live k' = live k))) \<and>
    (\<forall>idle rd''. can_leave idle s \<and> rq_pick rd' idle = (p, rd'') \<longrightarrow>
      (\<exists>k. thr_thread_exit ec s = Some (False, k) \<and> resumed_by p z e k \<and> fam k = fam e \<and> family_inv h k \<and>
        (\<forall>x\<in>set (woken_entries q s (pque (fam s p))). w_reason (ents (sn k) x) = WQUE_RELEASED)))"
proof -
  let ?t = "running s"
  obtain e where e: "thr_thread_exit ec s = leave_processor ?t e" "ended r p ?t ec s e"
    and same: "thr_locks_free e" "running e = running s" "pools e = pools s" "same_cpu (krn (sn e)) (krn (sn s))"
      "\<forall>u. cur_prio (thr_of e u) = cur_prio (thr_of s u) \<and> same_nesting (thr_of e u) (thr_of s u)"
      "ents (sn e) = with_reason (woken_entries q s (pque (fam s p))) WQUE_RELEASED (ents (sn s))"
    and rq: "rq_inv rd' (krn (sn e))"
    using exit_ended [OF inv live p r locks h ready, of ec] unfolding rd' by blast
  have dead: "t_state (thr_of e ?t) = THR_TSTATE_DEAD" using e(2) unfolding ended_def by blast
  have away: "?t \<notin> in_ready rd'" and free: "lock_free (rq_lock (krn (sn s)))"
    using exit_not_ready [OF ready] unfolding rd' by blast+
  note leaves = exit_leaves [OF same(1,2,4,5) dead rq away free, folded e(1)]
  note fam = exit_family [OF inv live p r e(2)] and at = ended_thread [OF inv live p r e(2)]
  have p_live: "p \<in> live e"
    using family_live(4) [OF inv live] p unfolding fam(2) by (auto simp: root_def)
  have ws: "waiters (fam e p) = z # tl (waiters (fam s p) @ [?t])" using at(4) by (simp add: z)
  have over: "\<exists>k. thr_thread_exit ec s = Some (False, k) \<and> resumed_by p z e k \<and> fam k = fam e \<and> family_inv h k \<and>
      (\<forall>x\<in>set (woken_entries q s (pque (fam s p))). w_reason (ents (sn k) x) = WQUE_RELEASED)"
    if "can_leave idle s \<and> rq_pick rd' idle = (p, rd'')" for idle rd''
  proof -
    note switch = leaves [THEN conjunct2, rule_format, OF that]
    obtain k where k: "thr_thread_exit ec s = Some (False, k)" "running k = p" "k = e\<lparr>sn := (sn e)\<lparr>krn := krn (sn k)\<rparr>\<rparr>"
        "thr_locks_free k" "refs_of k = refs_of e" "\<forall>u. u \<noteq> p \<longrightarrow> t_state (thr_of k u) = t_state (thr_of e u)"
      using switch by (elim exE conjE)
    have f: "fam k = fam e" "thrtree k = thrtree e" "idmap k = idmap e" "ents (sn k) = ents (sn e)"
      by (subst k(3), simp)+
    have "family_inv h k"
      by (rule kept_family [OF fam(1) f(1-3) k(5)]) (use k(6) p_live in auto)
    moreover have "resumed_by p z e k" using k(2,4) f p_live by (simp add: resumed_by_def)
    ultimately show ?thesis using k(1) f(1,4) same(6) by (auto simp: with_reason_def)
  qed
  show ?thesis
  proof (rule exI [of _ e], intro conjI allI impI, goal_cases)
    case (6 k g)
    then show ?case using collect(1) [OF _ _ ws, of k g] by blast
  next
    case (7 k g x f)
    then show ?case using collect(2) [OF _ _ ws, of k g x] by blast
  next
    case (8 idle rd'')
    then show ?case by (rule over)
  qed (use e(1) fam(2) at(1,2,4) in simp_all)
qed

text \<open>The sample with thread 0 asleep in \<open>thr_thread_wait\<close>, on the entry 5.\<close>

definition sample_asleep :: "nat thrdb" where
  "sample_asleep = sample_threads\<lparr>sn := (sn sample_threads)\<lparr>
     krn := (krn (sn sample_threads))\<lparr>threads := (threads (krn (sn sample_threads)))(0 := sample_thread\<lparr>t_refs := 3, t_state := THR_TSTATE_WAIT, cur_prio := 3\<rparr>)\<rparr>,
     wlinks := queue_add (WqHead 0) (WqEnt 5) (\<lambda>n. \<lparr>lprev = n, lnext = n\<rparr>),
     ents := \<lambda>_. \<lparr>w_thr = 0, w_reason = WQUE_WAIT\<rparr>\<rparr>\<rparr>"

abbreviation asleep_queue :: "nat \<Rightarrow> nat list" where
  "asleep_queue \<equiv> (\<lambda>_. [])(0 := [5])"

abbreviation asleep_refs :: "nat \<Rightarrow> nat" where
  "asleep_refs \<equiv> (\<lambda>_. 0)(0 := 1)"

lemma asleep_fields [simp]:
  "running sample_asleep = 1" "thrtree sample_asleep = [2 \<mapsto> 0, 32 \<mapsto> 1, 33 \<mapsto> 3]" "pools sample_asleep = 7"
  "fam sample_asleep = fam sample_threads" "idmap sample_asleep = idmap sample_threads"
  "refs_of sample_asleep 0 = 3" "refs_of sample_asleep (Suc 0) = 3" "refs_of sample_asleep 3 = 2"
  by (simp add: sample_asleep_def sample_threads_def running_def ti_get_current_thread_def refs_of_def thr_of_def)+

lemma asleep_family_inv: "family_inv asleep_refs sample_asleep"
proof -
  have "ranked sample_asleep id" by (auto simp: ranked_def sample_family_def)
  then have "\<exists>rank. ranked sample_asleep rank" by blast
  moreover have "live sample_asleep = {0, 1, 3}" by (simp add: ran_map_upd insert_commute)
  then have "\<forall>t\<in>live sample_asleep. member_ok asleep_refs sample_asleep t"
    by (simp add: member_ok_def root_def sample_family_def)
  moreover have "root sample_asleep 0" by (simp add: root_def sample_family_def)
  ultimately show ?thesis
    unfolding family_inv_def using sample_ids
    by (auto simp: THR_TID_REAPER_def sample_family_def split: if_splits)
qed

lemma asleep_locks: "thr_locks_free sample_asleep"
  by (simp add: thr_locks_free_def thr_of_def sample_asleep_def sample_threads_def sample_sched_def sample_thread_def lock_free_def spinlock_init_def)

lemma asleep_exit_ready: "exit_ready asleep_queue (\<lambda>_. []) 0 sample_asleep"
proof -
  have "rq_inv (\<lambda>_. []) (krn (sn sample_asleep))"
    using sample_sched_inv by (simp add: rq_inv_def sample_asleep_def sample_threads_def)
  moreover have "wq_inv asleep_queue (sn sample_asleep)"
  proof -
    have "wf_queues (range WqHead) (range WqEnt) (wq_queues (\<lambda>_. [])) (\<lambda>n. \<lparr>lprev = n, lnext = n\<rparr>)"
      by (auto simp: wf_queues_def wq_queues_def list_not_linked_def split: wque_node.splits)
    then show ?thesis
      using kq.add [of "range WqHead" "range WqEnt" "wq_queues (\<lambda>_. [])" "\<lambda>n. \<lparr>lprev = n, lnext = n\<rparr>" "WqHead 0" "WqEnt 5"]
      by (simp add: wq_inv_def sample_asleep_def)
  qed
  moreover have "lock_free (wq_lock (wqs (sn sample_asleep) 0))" "lock_free (rq_lock (krn (sn sample_asleep)))"
    "w_thr (ents (sn sample_asleep) 5) = 0" "cur_prio (thr_of sample_asleep 0) = 3" "lock_free (t_lock (thr_of sample_asleep 0))"
    by (simp_all add: sample_asleep_def sample_threads_def sample_sched_def sample_sync_def lock_free_def spinlock_init_def
        sample_thread_def thr_of_def)
  ultimately show ?thesis
    by (simp add: exit_ready_def in_ready_def wakeable_def SCHED_PRIO_NR_def)
qed

theorem exit_then_wait_witness:
  "\<exists>k k'. thr_thread_exit 42 sample_asleep = Some (False, k) \<and> running k = 0 \<and>
    thr_thread_wait_woken sample_alloc 5 0 k = Some (WaitReturned (Inr (32, 42)), k') \<and> waiters (fam k' 0) = [] \<and>
    family_inv (\<lambda>_. 0) k'"
proof -
  have p: "parent (fam sample_asleep (running sample_asleep)) = Some 0" "0 \<noteq> running sample_asleep"
      "thrtree sample_asleep THR_TID_REAPER = Some 0" "running sample_asleep \<in> live sample_asleep" "pque (fam sample_asleep 0) = 0"
      "asleep_refs (running sample_asleep) = 0"
    by (auto simp: sample_family_def THR_TID_REAPER_def ran_map_upd)
  have woken: "woken_entries asleep_queue sample_asleep 0 = [5]" "sleepers_of asleep_queue sample_asleep 0 = [0]"
    by (simp_all add: sleepers_of_def to_wake_def sample_asleep_def sample_threads_def sample_sync_def)
  have rd': "fold (add_ready (krn (sn sample_asleep))) [0] (\<lambda>_. []) = (\<lambda>_. [])(3 := [0])"
    by (simp add: add_ready_def sample_asleep_def)
  have leave: "can_leave 9 sample_asleep"
    by (simp add: can_leave_def thr_of_def dispatch_disabled_iff ti_get_current_thread_info_def ti_get_current_thread_def
        sample_asleep_def sample_threads_def running_def sample_sched_def sample_thread_def SCHED_PRIO_NR_def)
  obtain rd'' where pick: "rq_pick ((\<lambda>_. [])(3 := [0])) 9 = (0, rd'')"
  proof (cases "(\<lambda>_. [])(3 := [0]) :: nat \<Rightarrow> nat list" rule: rq_pop_cases)
    case none
    have "((\<lambda>_. [])(3 := [0 :: nat])) 3 = []" using none(2) [rule_format, of 3] by (simp add: SCHED_PRIO_NR_def)
    then show ?thesis by simp
  next
    case (some p t ts)
    then have "t = 0" by (simp split: if_splits)
    then show ?thesis using some that by (simp add: rq_pick_def)
  qed
  have z: "hd (waiters (fam sample_asleep 0) @ [1]) = 1" "t_id (fam sample_asleep 1) = 32" "waiters (fam sample_asleep 0) = []"
      "running sample_asleep = 1"
    by (simp_all add: sample_family_def)
  have ready: "exit_ready asleep_queue (\<lambda>_. []) (pque (fam sample_asleep 0)) sample_asleep"
    unfolding p(5) by (rule asleep_exit_ready)
  from exit_then_wait [OF asleep_family_inv p(4,1,2,3) asleep_locks p(6) ready refl refl, of 42 sample_alloc "Inl ENOENT" 0,
      unfolded p(5) z woken rd' append_Nil list.sel]
  show ?thesis
  proof (elim exE conjE, goal_cases)
    case (1 e)
    note code = 1(3,4) and over = 1(7) [rule_format, OF conjI [OF leave pick]]
    from over obtain k where k: "thr_thread_exit 42 sample_asleep = Some (False, k)" "resumed_by 0 1 e k" "family_inv asleep_refs k"
        "w_reason (ents (sn k) 5) = WQUE_RELEASED" "fam k = fam e"
      by auto
    note wait = 1(6) [rule_format, OF conjI [OF k(2,3)], THEN conjunct2, rule_format, of 5 0]
    have "asleep_refs 0 = 1" "asleep_refs(0 := 0) = (\<lambda>_. 0)" by auto
    then obtain k' where k': "thr_thread_wait_woken sample_alloc 5 0 k = Some (WaitReturned (Inr (32, 42)), k')"
        "waiters (fam k' 0) = tl (waiters (fam k 0))" "family_inv (\<lambda>_. 0) k'" "live k' = live k"
      using wait k(4) unfolding code by metis
    have "running k = 0" "waiters (fam k 0) = [1]" using k(2,5) 1(5) by (simp_all add: resumed_by_def)
    then show ?case using k(1) k' by (intro exI [of _ k] exI [of _ k']) simp
  qed
qed

end
