(* ===== verification/Slab.thy ===== *)
theory Slab
  imports PgtblFrames CstringMemory
begin

unbundle bit_operations_syntax

text \<open>
  The slab allocator (kern/page-slab.c) with its singly linked lists (klib/slist.c). A slab is a block of
  pages of the page interface that is divided into objects of one size; a cache keeps its slabs in the
  queues \<open>partial\<close>, \<open>full\<close> and \<open>free\<close>. The structures are in memory that the allocator itself gives out, so
  they are named by their address; each member that is read through an address is a function of the
  state, and a null pointer is 0. The bytes of the objects are the memory of the page interface, which \<open>memset\<close> clears. A
  cache is a number; those of \<open>kmalloc\<close> are 0 to 13.

  The structures are kept apart from the bytes: a structure that is overwritten because an object does not
  fit into its place is not seen here. The objects of caches without alignment end before the next structure.

  The geometry of the data cache that kern/cpuinfo.c reports for the running CPU is an argument.
\<close>

section \<open>Singly linked lists\<close>

text \<open>
  A list is the \<open>next\<close> member \<open>h\<close> of its head and the \<open>next\<close> members \<open>nx\<close> of the nodes. The node
  that refers to another is the head (\<open>None\<close>) or a node.
\<close>

partial_function (option) find_slist_node_referer_loop ::
    "(u64 \<Rightarrow> u64) \<Rightarrow> u64 \<Rightarrow> u64 option \<Rightarrow> u64 \<Rightarrow> (errno + u64 option) option" where
  "find_slist_node_referer_loop nx node ref succ =
     (if succ = 0 then Some (Inl ENOENT)
      else if succ = node then Some (Inr ref)
      else find_slist_node_referer_loop nx node (Some succ) (nx succ))"

definition find_slist_node_referer :: "u64 \<Rightarrow> (u64 \<Rightarrow> u64) \<Rightarrow> u64 \<Rightarrow> (errno + u64 option) option" where
  "find_slist_node_referer h nx node = find_slist_node_referer_loop nx node None h"

definition slist_init_head :: u64 where "slist_init_head = 0"

definition slist_init_node :: "u64 \<Rightarrow> (u64 \<Rightarrow> u64) \<Rightarrow> u64 \<Rightarrow> u64" where
  "slist_init_node node nx = nx(node := 0)"

definition slist_add :: "u64 \<Rightarrow> u64 \<Rightarrow> (u64 \<Rightarrow> u64) \<Rightarrow> u64 \<times> (u64 \<Rightarrow> u64)" where
  "slist_add h node nx = (node, nx(node := h))"

definition slist_del :: "u64 \<Rightarrow> u64 \<Rightarrow> (u64 \<Rightarrow> u64) \<Rightarrow> (u64 \<times> (u64 \<Rightarrow> u64)) option" where
  "slist_del h node nx = do {
     rc \<leftarrow> find_slist_node_referer h nx node;
     case rc of
       Inl _ \<Rightarrow> None
     | Inr None \<Rightarrow> Some (nx node, slist_init_node node nx)
     | Inr (Some ref) \<Rightarrow> Some (h, slist_init_node node (nx(ref := nx node)))
   }"

definition slist_is_empty :: "u64 \<Rightarrow> bool" where "slist_is_empty h \<longleftrightarrow> h = 0"

definition slist_ref_top :: "u64 \<Rightarrow> u64" where "slist_ref_top h = h"

definition slist_get_top :: "u64 \<Rightarrow> (u64 \<Rightarrow> u64) \<Rightarrow> (u64 \<times> u64 \<times> (u64 \<Rightarrow> u64)) option" where
  "slist_get_top h nx =
     (if slist_is_empty h then Some (0, h, nx)
      else do {
        let node = slist_ref_top h;
        (h, nx) \<leftarrow> slist_del h node nx;
        Some (node, h, nx)
      })"

definition slist_not_linked :: "u64 \<Rightarrow> (u64 \<Rightarrow> u64) \<Rightarrow> bool" where
  "slist_not_linked node nx \<longleftrightarrow> nx node = 0"

section \<open>State\<close>

text \<open>A constructor or destructor changes the memory, given the object and its size.\<close>

record kmem_cache =
  kc_lock :: spinlock
  payload_size :: u64
  obj_size :: u64
  kc_order :: nat
  kc_align :: u64
  color_offset :: u64
  color_num :: u64
  color_index :: u64
  limits :: nat
  slab_count :: nat
  objs_per_slab :: nat
  kc_sflags :: u32
  constructor :: "(u64 \<Rightarrow> u64 \<Rightarrow> bytes \<Rightarrow> bytes) option"
  destructor :: "(u64 \<Rightarrow> u64 \<Rightarrow> bytes \<Rightarrow> bytes) option"

record slab =
  sl_lock :: spinlock
  sl_cache :: nat
  sl_objects :: u64
  sl_count :: nat
  sl_page :: u64

text \<open>The heads of the three queues of a cache, and the link of a slab.\<close>

datatype slab_link = Partial nat | Full nat | Free nat | Link u64

text \<open>
  \<open>snext\<close> is the list link of a buffer control structure, \<open>bctl_obj\<close> and \<open>bctl_backlink\<close> the other
  members of a \<open>kmem_bufctl\<close>, \<open>ctl_ptrs\<close> a pointer that is stored before an object, \<open>slabp\<close> the member of
  a page frame.
\<close>

record kmem =
  pm :: pmem
  caches :: "nat \<Rightarrow> kmem_cache"
  slabs :: "u64 \<Rightarrow> slab"
  slinks :: "slab_link lstore"
  snext :: "u64 \<Rightarrow> u64"
  bctl_obj :: "u64 \<Rightarrow> u64"
  bctl_backlink :: "u64 \<Rightarrow> u64"
  ctl_ptrs :: "u64 \<Rightarrow> u64"
  slabp :: "nat \<times> nat \<Rightarrow> u64"

record cpu_dcache =
  l1_dcache_linesize :: u64
  l1_dcache_color_num :: u64
  dcache_size :: u64

definition KM_SFLAGS_DEFAULT :: u32 where "KM_SFLAGS_DEFAULT = 0"
definition KM_SFLAGS_ATOMIC :: u32 where "KM_SFLAGS_ATOMIC = 2"
definition KM_SFLAGS_ALIGN_HW :: u32 where "KM_SFLAGS_ALIGN_HW = 4"
definition KM_SFLAGS_COLORING :: u32 where "KM_SFLAGS_COLORING = 8"
definition KM_SFLAGS_ARGS :: u32 where
  "KM_SFLAGS_ARGS = KM_SFLAGS_CLR_NONE OR KM_SFLAGS_ATOMIC OR KM_SFLAGS_ALIGN_HW OR KM_SFLAGS_COLORING"
definition KM_SLAB_TYPE_DIVISOR :: u64 where "KM_SLAB_TYPE_DIVISOR = 8"
definition KM_SFLAGS_OFF_SLAB :: u32 where "KM_SFLAGS_OFF_SLAB = push_bit 8 1"
definition HAL_CPUCACHE_HW_ALIGN :: u64 where "HAL_CPUCACHE_HW_ALIGN = 16"
definition SLAB_REAP_FORCE :: nat where "SLAB_REAP_FORCE = 1"
definition SLAB_PREALLOC_CACHE_NR :: nat where "SLAB_PREALLOC_CACHE_NR = 14"
definition SLAB_PREALLOC_BASE :: u64 where "SLAB_PREALLOC_BASE = 8"

text \<open>Sizes of pointers and of the structures \<open>slab\<close>, \<open>kmem_s_bufctl\<close> and \<open>kmem_bufctl\<close> on RISC-V with 64 bits.\<close>

definition SLAB_BUFCTL_POINTER_SIZE :: u64 where "SLAB_BUFCTL_POINTER_SIZE = 8"
definition sizeof_slab :: u64 where "sizeof_slab = 200"
definition sizeof_kmem_s_bufctl :: u64 where "sizeof_kmem_s_bufctl = 8"
definition sizeof_kmem_bufctl :: u64 where "sizeof_kmem_bufctl = 24"

definition KMEM_CACHE_SFLAGS_MARK_ON_SLAB :: "u32 \<Rightarrow> u32" where
  "KMEM_CACHE_SFLAGS_MARK_ON_SLAB flags = flags AND NOT KM_SFLAGS_OFF_SLAB"
definition KMEM_CACHE_SFLAGS_MARK_OFF_SLAB :: "u32 \<Rightarrow> u32" where
  "KMEM_CACHE_SFLAGS_MARK_OFF_SLAB flags = flags OR KM_SFLAGS_OFF_SLAB"
definition KMEM_CACHE_IS_OFF_SLAB :: "kmem_cache \<Rightarrow> bool" where
  "KMEM_CACHE_IS_OFF_SLAB cache \<longleftrightarrow> kc_sflags cache AND KM_SFLAGS_OFF_SLAB \<noteq> 0"
definition KMEM_CACHE_IS_ON_SLAB :: "kmem_cache \<Rightarrow> bool" where
  "KMEM_CACHE_IS_ON_SLAB cache \<longleftrightarrow> \<not> KMEM_CACHE_IS_OFF_SLAB cache"
definition KMEM_CACHE_IS_BUSY :: "nat \<Rightarrow> kmem \<Rightarrow> bool" where
  "KMEM_CACHE_IS_BUSY k s \<longleftrightarrow> \<not> queue_is_empty (Partial k) (slinks s) \<or> \<not> queue_is_empty (Full k) (slinks s)"

definition upd_cache :: "nat \<Rightarrow> (kmem_cache \<Rightarrow> kmem_cache) \<Rightarrow> kmem \<Rightarrow> kmem" where
  "upd_cache k f s = s\<lparr>caches := (caches s)(k := f (caches s k))\<rparr>"

definition upd_slab :: "u64 \<Rightarrow> (slab \<Rightarrow> slab) \<Rightarrow> kmem \<Rightarrow> kmem" where
  "upd_slab sl f s = s\<lparr>slabs := (slabs s)(sl := f (slabs s sl))\<rparr>"

definition upd_ram :: "(bytes \<Rightarrow> bytes) \<Rightarrow> kmem \<Rightarrow> kmem" where
  "upd_ram f s = s\<lparr>pm := (pm s)\<lparr>pm_ram := f (pm_ram (pm s))\<rparr>\<rparr>"

text \<open>The locks of a cache and of a slab.\<close>

definition lock_cache :: "nat \<Rightarrow> kmem \<Rightarrow> (intrflags \<times> kmem) option" where
  "lock_cache k s = do {
     (iflags, l, c) \<leftarrow> spinlock_lock_disable_intr (kc_lock (caches s k)) (pm_cpu (pm s));
     Some (iflags, upd_cache k (kc_lock_update (\<lambda>_. l)) (s\<lparr>pm := (pm s)\<lparr>pm_cpu := c\<rparr>\<rparr>))
   }"

definition unlock_cache :: "nat \<Rightarrow> intrflags \<Rightarrow> kmem \<Rightarrow> kmem option" where
  "unlock_cache k iflags s = do {
     (l, c) \<leftarrow> spinlock_unlock_restore_intr iflags (kc_lock (caches s k)) (pm_cpu (pm s));
     Some (upd_cache k (kc_lock_update (\<lambda>_. l)) (s\<lparr>pm := (pm s)\<lparr>pm_cpu := c\<rparr>\<rparr>))
   }"

definition lock_slab :: "u64 \<Rightarrow> kmem \<Rightarrow> (intrflags \<times> kmem) option" where
  "lock_slab sl s = do {
     (iflags, l, c) \<leftarrow> spinlock_lock_disable_intr (sl_lock (slabs s sl)) (pm_cpu (pm s));
     Some (iflags, upd_slab sl (sl_lock_update (\<lambda>_. l)) (s\<lparr>pm := (pm s)\<lparr>pm_cpu := c\<rparr>\<rparr>))
   }"

definition unlock_slab :: "u64 \<Rightarrow> intrflags \<Rightarrow> kmem \<Rightarrow> kmem option" where
  "unlock_slab sl iflags s = do {
     (l, c) \<leftarrow> spinlock_unlock_restore_intr iflags (sl_lock (slabs s sl)) (pm_cpu (pm s));
     Some (upd_slab sl (sl_lock_update (\<lambda>_. l)) (s\<lparr>pm := (pm s)\<lparr>pm_cpu := c\<rparr>\<rparr>))
   }"

section \<open>The layout of a slab\<close>

text \<open>The loop over the orders; \<open>n\<close> orders are left. A division by zero has no value.\<close>

fun cacl_off_slab_loop :: "u64 \<Rightarrow> u64 \<Rightarrow> nat \<Rightarrow> nat \<Rightarrow> nat \<Rightarrow> u64 \<Rightarrow> errno + nat" where
  "cacl_off_slab_loop osize coloring 0 order candidate remains =
     (if remains = push_bit PAGE_POOL_MAX_ORDER PAGE_SIZE then Inl ESRCH else Inr candidate)"
| "cacl_off_slab_loop osize coloring (Suc n) order candidate remains =
     (let slab_size = push_bit order PAGE_SIZE
      in if slab_size < osize + coloring then cacl_off_slab_loop osize coloring n (order + 1) candidate remains
         else
           let data_area_size = slab_size - coloring;
               remain_size = data_area_size - data_area_size div osize * osize
           in if slab_size div KM_SLAB_TYPE_DIVISOR \<ge> remain_size then Inr order
              else if remains > remain_size then cacl_off_slab_loop osize coloring n (order + 1) order remain_size
              else cacl_off_slab_loop osize coloring n (order + 1) candidate remains)"

definition cacl_off_slab_size :: "u64 \<Rightarrow> u64 \<Rightarrow> (errno + nat) option" where
  "cacl_off_slab_size osize coloring = do {
     kassert (osize \<noteq> 0);
     Some (cacl_off_slab_loop osize coloring PAGE_POOL_MAX_ORDER 0 0 (push_bit PAGE_POOL_MAX_ORDER PAGE_SIZE))
   }"

definition calc_slab_size :: "cpu_dcache \<Rightarrow> kmem_cache \<Rightarrow> u64 \<Rightarrow> u64 \<Rightarrow> u32 \<Rightarrow> ((errno + unit) \<times> kmem_cache) option" where
  "calc_slab_size hw cache psize align cache_flags =
     (if align AND 0x1 \<noteq> 0 then Some (Inl EINVAL, cache)
      else
        let sflags = cache_flags AND KM_SFLAGS_ARGS;
            obj_align = (if cache_flags AND KM_SFLAGS_ALIGN_HW \<noteq> 0 then HAL_CPUCACHE_HW_ALIGN
                         else if align > 0 then align else 0);
            osize = (if obj_align > 0
                     then roundup_align (roundup_align (psize + SLAB_BUFCTL_POINTER_SIZE + 1) SLAB_BUFCTL_POINTER_SIZE) obj_align
                     else psize);
            done = (\<lambda>cache flags osize order nr. Some (Inr (),
              cache\<lparr>kc_align := obj_align, kc_sflags := flags, obj_size := osize, kc_order := order, objs_per_slab := nr\<rparr>))
        in if sflags AND KM_SFLAGS_COLORING = 0 \<and> PAGE_SIZE div KM_SLAB_TYPE_DIVISOR > osize then do {
             let osize = roundup_align (osize + sizeof_kmem_s_bufctl) SLAB_BUFCTL_POINTER_SIZE;
             done cache (KMEM_CACHE_SFLAGS_MARK_ON_SLAB sflags) osize 0 (unat ((PAGE_SIZE - sizeof_slab) div osize))
           } else do {
             let colored = (sflags AND KM_SFLAGS_COLORING \<noteq> 0);
             let cache = (if colored then cache\<lparr>color_offset := l1_dcache_linesize hw,
                             color_num := l1_dcache_color_num hw, color_index := 0\<rparr> else cache);
             let coloring_area = (if colored then color_offset cache * color_num cache else 0);
             let osize = (if obj_align = 0 then roundup_align (osize + SLAB_BUFCTL_POINTER_SIZE) SLAB_BUFCTL_POINTER_SIZE else osize);
             rc \<leftarrow> cacl_off_slab_size osize coloring_area;
             case rc of
               Inl e \<Rightarrow> Some (Inl e, cache)
             | Inr order \<Rightarrow>
                 done cache (KMEM_CACHE_SFLAGS_MARK_OFF_SLAB sflags) osize order
                   (unat ((push_bit order PAGE_SIZE - coloring_area) div osize))
           })"

section \<open>Objects of a slab\<close>

definition init_slab_info :: "nat \<Rightarrow> u64 \<Rightarrow> u64 \<Rightarrow> kmem \<Rightarrow> kmem" where
  "init_slab_info k sl kpage_addr s =
     s\<lparr>slabs := (slabs s)(sl := \<lparr>sl_lock = spinlock_init, sl_cache = k, sl_objects = slist_init_head, sl_count = 0, sl_page = kpage_addr\<rparr>),
       slinks := list_init (Link sl) (slinks s)\<rparr>"

text \<open>\<open>slist_get_top\<close> and \<open>slist_add\<close> on the free objects of a slab; reading a member of the null pointer has no value.\<close>

definition get_free_obj :: "u64 \<Rightarrow> kmem \<Rightarrow> (u64 \<times> kmem) option" where
  "get_free_obj sl s = do {
     (node, h, nx) \<leftarrow> slist_get_top (sl_objects (slabs s sl)) (snext s);
     kassert (node \<noteq> 0);
     Some (node, upd_slab sl (sl_objects_update (\<lambda>_. h)) (s\<lparr>snext := nx\<rparr>))
   }"

definition add_free_obj :: "u64 \<Rightarrow> u64 \<Rightarrow> kmem \<Rightarrow> kmem" where
  "add_free_obj sl node s =
     (let (h, nx) = slist_add (sl_objects (slabs s sl)) node (snext s)
      in upd_slab sl (sl_objects_update (\<lambda>_. h)) (s\<lparr>snext := nx\<rparr>))"

definition alloc_slab_obj :: "nat \<Rightarrow> u64 \<Rightarrow> kmem \<Rightarrow> (u64 \<times> kmem) option" where
  "alloc_slab_obj k sl s = do {
     (iflags, s) \<leftarrow> lock_slab sl s;
     (node, s) \<leftarrow> get_free_obj sl s;
     kassert (snext s node = 0);
     let on = KMEM_CACHE_IS_ON_SLAB (caches s k);
     let ptr = (if on then node + sizeof_kmem_s_bufctl else bctl_obj s node);
     s \<leftarrow> unlock_slab sl iflags s;
     let align = kc_align (caches s k);
     let ptr = (if align > 0 then roundup_align (ptr + SLAB_BUFCTL_POINTER_SIZE) align else ptr);
     let s = (if align > 0
              then (let mctl_ptr = truncate_align (ptr - SLAB_BUFCTL_POINTER_SIZE) SLAB_BUFCTL_POINTER_SIZE
                    in s\<lparr>ctl_ptrs := (ctl_ptrs s)(mctl_ptr := node)\<rparr>)
              else s);
     let psize = payload_size (caches s k);
     let s = (case constructor (caches s k) of None \<Rightarrow> s | Some f \<Rightarrow> upd_ram (f ptr psize) s);
     kassert (\<not> on \<or> obj_size (caches s k) \<ge> ptr + psize - node);
     Some (ptr, s)
   }"

definition free_slab_obj :: "u64 \<Rightarrow> u64 \<Rightarrow> kmem \<Rightarrow> kmem option" where
  "free_slab_obj sl bufctl s = do {
     (iflags, s) \<leftarrow> lock_slab sl s;
     kassert (snext s bufctl = 0);
     let s = add_free_obj sl bufctl s;
     unlock_slab sl iflags s
   }"

section \<open>Release of objects\<close>

text \<open>\<open>pf = pf->headp\<close> for a frame of a cluster.\<close>

definition cluster_head :: "nat \<times> nat \<Rightarrow> kmem \<Rightarrow> (nat \<times> nat) option" where
  "cluster_head pf s =
     (if PAGE_IS_CLUSTERED (frame_at pf (pm s)) then do { i \<leftarrow> pf_headp (frame_at pf (pm s)); Some (fst pf, i) }
      else Some pf)"

text \<open>The two sections under the lock of the cache: the object is no longer counted, and a slab without objects goes to the queue \<open>free\<close>.\<close>

definition uncount_obj :: "nat \<Rightarrow> u64 \<Rightarrow> kmem \<Rightarrow> kmem option" where
  "uncount_obj k sl s = do {
     kassert (sl_count (slabs s sl) > 0);
     let q = (if sl_count (slabs s sl) = objs_per_slab (caches s k) then Full k else Partial k);
     let s = s\<lparr>slinks := snd (queue_del q (Link sl) (slinks s))\<rparr>;
     let s = upd_slab sl (sl_count_update (\<lambda>n. n - 1)) s;
     if sl_count (slabs s sl) > 0 then do {
       kassert (list_not_linked (Link sl) (slinks s));
       Some (s\<lparr>slinks := queue_add (Partial k) (Link sl) (slinks s)\<rparr>)
     } else Some s
   }"

definition queue_free_slab :: "nat \<Rightarrow> u64 \<Rightarrow> kmem \<Rightarrow> kmem option" where
  "queue_free_slab k sl s =
     (if sl_count (slabs s sl) = 0 then do {
        kassert (list_not_linked (Link sl) (slinks s));
        Some (s\<lparr>slinks := queue_add (Free k) (Link sl) (slinks s)\<rparr>)
      } else Some s)"

definition slab_kmem_cache_free :: "u64 \<Rightarrow> u64 \<Rightarrow> kmem \<Rightarrow> kmem option" where
  "slab_kmem_cache_free base obj s = do {
     (pf, p) \<leftarrow> frame_of base obj (pm s);
     let s = s\<lparr>pm := p\<rparr>;
     pf \<leftarrow> cluster_head pf s;
     kassert (PAGE_USED_BY_SLAB (frame_at pf (pm s)));
     let sl = slabp s pf;
     let k = sl_cache (slabs s sl);
     (iflags, s) \<leftarrow> lock_cache k s;
     s \<leftarrow> uncount_obj k sl s;
     s \<leftarrow> unlock_cache k iflags s;
     let bufctl = (if kc_align (caches s k) = 0 \<and> KMEM_CACHE_IS_ON_SLAB (caches s k) then obj - sizeof_kmem_s_bufctl
                   else ctl_ptrs s (obj - SLAB_BUFCTL_POINTER_SIZE));
     let s = (case destructor (caches s k) of None \<Rightarrow> s | Some f \<Rightarrow> upd_ram (f obj (payload_size (caches s k))) s);
     s \<leftarrow> free_slab_obj sl bufctl s;
     (iflags, s) \<leftarrow> lock_cache k s;
     s \<leftarrow> queue_free_slab k sl s;
     unlock_cache k iflags s
   }"

definition kfree :: "u64 \<Rightarrow> u64 \<Rightarrow> kmem \<Rightarrow> kmem option" where
  "kfree base m s =
     (if m = 0 then Some s
      else do {
        (rc, db, c) \<leftarrow> pfdb_kvaddr_to_page_frame base m (pm_db (pm s)) (pm_cpu (pm s));
        let s = s\<lparr>pm := (pm s)\<lparr>pm_db := db, pm_cpu := c\<rparr>\<rparr>;
        case rc of
          Inl _ \<Rightarrow> Some s
        | Inr pf \<Rightarrow> do {
            pf \<leftarrow> cluster_head pf s;
            if PAGE_USED_BY_SLAB (frame_at pf (pm s)) then slab_kmem_cache_free base m s else Some s
          }
      })"

definition free_page :: "u64 \<Rightarrow> u64 \<Rightarrow> kmem \<Rightarrow> kmem option" where
  "free_page base addr s = do {
     (db, c) \<leftarrow> pgif_free_page base addr (pm_db (pm s)) (pm_cpu (pm s));
     Some (s\<lparr>pm := (pm s)\<lparr>pm_db := db, pm_cpu := c\<rparr>\<rparr>)
   }"

partial_function (option) free_bufctls :: "u64 \<Rightarrow> u64 \<Rightarrow> kmem \<Rightarrow> kmem option" where
  "free_bufctls base sl s =
     (if slist_is_empty (sl_objects (slabs s sl)) then Some s
      else do {
        (bctl, s) \<leftarrow> get_free_obj sl s;
        kassert (snext s bctl = 0);
        s \<leftarrow> kfree base bctl s;
        free_bufctls base sl s
      })"

definition free_slab_info :: "u64 \<Rightarrow> nat \<Rightarrow> u64 \<Rightarrow> kmem \<Rightarrow> kmem option" where
  "free_slab_info base k sl s = do {
     (pf, p) \<leftarrow> frame_of base (sl_page (slabs s sl)) (pm s);
     let s = s\<lparr>pm := p\<rparr>;
     let objpage = sl_page (slabs s sl);
     s \<leftarrow> (if \<not> KMEM_CACHE_IS_ON_SLAB (caches s k) then do {
              s \<leftarrow> free_bufctls base sl s;
              kfree base sl s
            } else Some s);
     free_page base objpage s
   }"

section \<open>Growth and allocation\<close>

text \<open>
  A cache whose slab data is kept outside of the slab grows with \<open>kmalloc\<close>, which is the argument \<open>km\<close> here; its result is
  0 for a failure.
\<close>

fun fill_on_slab :: "u64 \<Rightarrow> u64 \<Rightarrow> u64 \<Rightarrow> nat \<Rightarrow> nat \<Rightarrow> kmem \<Rightarrow> kmem" where
  "fill_on_slab sl kaddr osize 0 i s = s"
| "fill_on_slab sl kaddr osize (Suc n) i s =
     fill_on_slab sl kaddr osize n (Suc i) (add_free_obj sl (kaddr + osize * of_nat i) s)"

type_synonym kmalloc_fn = "u64 \<Rightarrow> u32 \<Rightarrow> kmem \<Rightarrow> (u64 \<times> kmem) option"

fun fill_off_slab ::
    "kmalloc_fn \<Rightarrow> u64 \<Rightarrow> nat \<Rightarrow> u32 \<Rightarrow> u64 \<Rightarrow> u64 \<Rightarrow> u64 \<Rightarrow> nat \<Rightarrow> nat \<Rightarrow> kmem \<Rightarrow> ((errno + unit) \<times> kmem) option" where
  "fill_off_slab km base k mflags sl kaddr osize 0 i s = Some (Inr (), s)"
| "fill_off_slab km base k mflags sl kaddr osize (Suc n) i s = do {
     (bctl, s) \<leftarrow> km sizeof_kmem_bufctl mflags s;
     if bctl = 0 then do {
       s \<leftarrow> free_slab_info base k sl s;
       Some (Inl ENOMEM, s)
     } else do {
       let off_slab_objp = kaddr + osize * of_nat i;
       let s = s\<lparr>ctl_ptrs := (ctl_ptrs s)(off_slab_objp := bctl),
                 bctl_obj := (bctl_obj s)(bctl := off_slab_objp + SLAB_BUFCTL_POINTER_SIZE),
                 snext := slist_init_node bctl (snext s),
                 bctl_backlink := (bctl_backlink s)(bctl := sl)\<rparr>;
       fill_off_slab km base k mflags sl kaddr osize n (Suc i) (add_free_obj sl bctl s)
     }
   }"

definition slab_kmem_cache_grow ::
    "kmalloc_fn \<Rightarrow> u64 \<Rightarrow> cpu_dcache \<Rightarrow> nat \<Rightarrow> u32 \<Rightarrow> kmem \<Rightarrow> ((errno + u64) \<times> kmem) option" where
  "slab_kmem_cache_grow km base hw k mflags s = do {
     (rc, db, ram, c) \<leftarrow> pgif_get_free_page_cluster base (kc_order (caches s k)) mflags PAGE_STATE_UCASE_SLAB
        (pm_db (pm s)) (pm_ram (pm s)) (pm_cpu (pm s));
     let s = s\<lparr>pm := \<lparr>pm_db = db, pm_ram = ram, pm_cpu = c\<rparr>\<rparr>;
     case rc of
       Inl e \<Rightarrow> Some (Inl e, s)
     | Inr kaddr \<Rightarrow> do {
         (pf, p) \<leftarrow> frame_of base kaddr (pm s);
         let s = s\<lparr>pm := p\<rparr>;
         let slab_size = push_bit (kc_order (caches s k)) PAGE_SIZE;
         let osize = obj_size (caches s k);
         let nr = objs_per_slab (caches s k);
         if KMEM_CACHE_IS_ON_SLAB (caches s k) then do {
           let sl = kaddr + slab_size - sizeof_slab;
           let s = init_slab_info k sl kaddr s;
           let s = s\<lparr>slabp := (slabp s)(pf := sl)\<rparr>;
           Some (Inr sl, fill_on_slab sl kaddr osize nr 0 s)
         } else do {
           (sl, s) \<leftarrow> km sizeof_slab mflags s;
           if sl = 0 then do {
             s \<leftarrow> free_page base kaddr s;
             Some (Inl ENOMEM, s)
           } else do {
             let s = init_slab_info k sl kaddr s;
             let s = s\<lparr>slabp := (slabp s)(pf := sl)\<rparr>;
             let colored = (kc_sflags (caches s k) AND KM_SFLAGS_COLORING \<noteq> 0);
             let this_coloff = (if colored then color_offset (caches s k) * color_index (caches s k) else 0);
             let s = (if colored then upd_cache k (\<lambda>c. c\<lparr>color_index := (color_index c + 1) mod color_num c\<rparr>) s else s);
             kassert (colored \<longrightarrow> dcache_size hw > this_coloff);
             (rc, s) \<leftarrow> fill_off_slab km base k mflags sl (kaddr + this_coloff) osize nr 0 s;
             case rc of Inl e \<Rightarrow> Some (Inl e, s) | Inr _ \<Rightarrow> Some (Inr sl, s)
           }
         }
       }
   }"

text \<open>
  The choice of the slab, with the lock of the cache held; the flags to be restored change when the lock
  is given up for the growth. In case of an error the lock is not held.
\<close>

definition take_slab ::
    "kmalloc_fn \<Rightarrow> u64 \<Rightarrow> cpu_dcache \<Rightarrow> nat \<Rightarrow> u32 \<Rightarrow> intrflags \<Rightarrow> kmem \<Rightarrow> ((errno + slab_link \<times> intrflags) \<times> kmem) option" where
  "take_slab km base hw k mflags iflags s =
     (if \<not> queue_is_empty (Free k) (slinks s)
      then (let (l, lks) = queue_get_top (Free k) (slinks s) in Some (Inr (l, iflags), s\<lparr>slinks := lks\<rparr>))
      else do {
        s \<leftarrow> unlock_cache k iflags s;
        (rc, s) \<leftarrow> slab_kmem_cache_grow km base hw k mflags s;
        case rc of
          Inl e \<Rightarrow> Some (Inl e, s)
        | Inr sl \<Rightarrow> do {
            (iflags, s) \<leftarrow> lock_cache k s;
            Some (Inr (Link sl, iflags), upd_cache k (slab_count_update Suc) s)
          }
      })"

definition ref_slab ::
    "kmalloc_fn \<Rightarrow> u64 \<Rightarrow> cpu_dcache \<Rightarrow> nat \<Rightarrow> u32 \<Rightarrow> intrflags \<Rightarrow> kmem \<Rightarrow> ((errno + slab_link \<times> intrflags) \<times> kmem) option" where
  "ref_slab km base hw k mflags iflags s =
     (if \<not> queue_is_empty (Partial k) (slinks s)
      then Some (Inr (queue_ref_top (Partial k) (slinks s), iflags), s)
      else do {
        (rc, s) \<leftarrow> take_slab km base hw k mflags iflags s;
        case rc of
          Inl e \<Rightarrow> Some (Inl e, s)
        | Inr (l, iflags) \<Rightarrow> do {
            kassert (list_not_linked l (slinks s));
            Some (Inr (l, iflags), s\<lparr>slinks := queue_add (Partial k) l (slinks s)\<rparr>)
          }
      })"

definition count_obj :: "nat \<Rightarrow> u64 \<Rightarrow> kmem \<Rightarrow> kmem option" where
  "count_obj k sl s = do {
     let s = upd_slab sl (sl_count_update Suc) s;
     if sl_count (slabs s sl) = objs_per_slab (caches s k) then do {
       kassert (\<not> list_not_linked (Link sl) (slinks s));
       let s = s\<lparr>slinks := snd (queue_del (Partial k) (Link sl) (slinks s))\<rparr>;
       Some (s\<lparr>slinks := queue_add (Full k) (Link sl) (slinks s)\<rparr>)
     } else Some s
   }"

definition slab_kmem_cache_alloc_with ::
    "kmalloc_fn \<Rightarrow> u64 \<Rightarrow> cpu_dcache \<Rightarrow> nat \<Rightarrow> u32 \<Rightarrow> kmem \<Rightarrow> ((errno + u64) \<times> kmem) option" where
  "slab_kmem_cache_alloc_with km base hw k mflags s = do {
     (iflags, s) \<leftarrow> lock_cache k s;
     (rc, s) \<leftarrow> ref_slab km base hw k mflags iflags s;
     case rc of
       Inl e \<Rightarrow> Some (Inl e, s)
     | Inr (Link sl, iflags) \<Rightarrow> do {
         s \<leftarrow> count_obj k sl s;
         s \<leftarrow> unlock_cache k iflags s;
         (obj, s) \<leftarrow> alloc_slab_obj k sl s;
         let s = (if mflags AND KM_SFLAGS_CLR_NONE = 0 then upd_ram (\<lambda>m. snd (memset m obj 0 (payload_size (caches s k)))) s else s);
         Some (Inr obj, s)
       }
     | Inr _ \<Rightarrow> None
   }"

text \<open>The first cache of \<open>kmalloc\<close> with objects that are large enough.\<close>

fun kmalloc_loop :: "(nat \<Rightarrow> kmem \<Rightarrow> ((errno + u64) \<times> kmem) option) \<Rightarrow> u64 \<Rightarrow> nat \<Rightarrow> nat \<Rightarrow> kmem \<Rightarrow> (u64 \<times> kmem) option" where
  "kmalloc_loop alloc sz 0 i s = Some (0, s)"
| "kmalloc_loop alloc sz (Suc n) i s =
     (if push_bit i SLAB_PREALLOC_BASE \<ge> sz then do {
        (rc, s) \<leftarrow> alloc i s;
        case rc of Inl _ \<Rightarrow> Some (0, s) | Inr m \<Rightarrow> Some (m, s)
      } else kmalloc_loop alloc sz n (Suc i) s)"

text \<open>
  \<open>kmalloc\<close> and \<open>slab_kmem_cache_alloc\<close> call each other through \<open>slab_kmem_cache_grow\<close>, which asks for
  structures of 24 and 200 bytes. The first argument bounds the calls that are nested; without one that suffices there is no result.
\<close>

fun kmalloc_depth :: "nat \<Rightarrow> u64 \<Rightarrow> cpu_dcache \<Rightarrow> kmalloc_fn" where
  "kmalloc_depth 0 base hw sz mflags s = None"
| "kmalloc_depth (Suc nest) base hw sz mflags s =
     kmalloc_loop (\<lambda>i. slab_kmem_cache_alloc_with (kmalloc_depth nest base hw) base hw i mflags) sz SLAB_PREALLOC_CACHE_NR 0 s"

definition kmalloc :: "u64 \<Rightarrow> cpu_dcache \<Rightarrow> kmalloc_fn" where
  "kmalloc = kmalloc_depth 2"

definition slab_kmem_cache_alloc ::
    "u64 \<Rightarrow> cpu_dcache \<Rightarrow> nat \<Rightarrow> u32 \<Rightarrow> kmem \<Rightarrow> ((errno + u64) \<times> kmem) option" where
  "slab_kmem_cache_alloc base hw k mflags s = slab_kmem_cache_alloc_with (kmalloc base hw) base hw k mflags s"

section \<open>Caches\<close>

partial_function (option) reap_loop :: "u64 \<Rightarrow> nat \<Rightarrow> nat \<Rightarrow> intrflags \<Rightarrow> kmem \<Rightarrow> (intrflags \<times> kmem) option" where
  "reap_loop base k reap_flags iflags s =
     (if queue_is_empty (Free k) (slinks s) then Some (iflags, s)
      else if reap_flags AND SLAB_REAP_FORCE = 0 \<and> slab_count (caches s k) \<le> limits (caches s k) then Some (iflags, s)
      else do {
        let top = fst (queue_get_top (Free k) (slinks s));
        let s = s\<lparr>slinks := snd (queue_get_top (Free k) (slinks s))\<rparr>;
        let s = upd_cache k (slab_count_update (\<lambda>n. n - 1)) s;
        s \<leftarrow> unlock_cache k iflags s;
        s \<leftarrow> case_slab_link (\<lambda>_. None) (\<lambda>_. None) (\<lambda>_. None) (\<lambda>sl. free_slab_info base k sl s) top;
        r \<leftarrow> lock_cache k s;
        reap_loop base k reap_flags (fst r) (snd r)
      })"

definition slab_kmem_cache_reap :: "u64 \<Rightarrow> nat \<Rightarrow> nat \<Rightarrow> kmem \<Rightarrow> kmem option" where
  "slab_kmem_cache_reap base k reap_flags s = do {
     (iflags, s) \<leftarrow> lock_cache k s;
     (iflags, s) \<leftarrow> reap_loop base k reap_flags iflags s;
     unlock_cache k iflags s
   }"

partial_function (option) destroy_loop :: "u64 \<Rightarrow> nat \<Rightarrow> intrflags \<Rightarrow> kmem \<Rightarrow> (intrflags \<times> kmem) option" where
  "destroy_loop base k iflags s =
     (if queue_is_empty (Free k) (slinks s) then Some (iflags, s)
      else if KMEM_CACHE_IS_BUSY k s then Some (iflags, s)
      else do {
        s \<leftarrow> unlock_cache k iflags s;
        s \<leftarrow> slab_kmem_cache_reap base k SLAB_REAP_FORCE s;
        r \<leftarrow> lock_cache k s;
        destroy_loop base k (fst r) (snd r)
      })"

definition slab_kmem_cache_destroy :: "u64 \<Rightarrow> nat \<Rightarrow> kmem \<Rightarrow> kmem option" where
  "slab_kmem_cache_destroy base k s = do {
     (iflags, s) \<leftarrow> lock_cache k s;
     (iflags, s) \<leftarrow> destroy_loop base k iflags s;
     unlock_cache k iflags s
   }"

definition slab_kmem_cache_create ::
    "cpu_dcache \<Rightarrow> nat \<Rightarrow> u64 \<Rightarrow> u64 \<Rightarrow> nat \<Rightarrow> u32 \<Rightarrow> (u64 \<Rightarrow> u64 \<Rightarrow> bytes \<Rightarrow> bytes) option \<Rightarrow>
     (u64 \<Rightarrow> u64 \<Rightarrow> bytes \<Rightarrow> bytes) option \<Rightarrow> kmem \<Rightarrow> ((errno + unit) \<times> kmem) option" where
  "slab_kmem_cache_create hw k sz align lim sflags ctor dtor s = do {
     let cache = \<lparr>kc_lock = spinlock_init, payload_size = sz, obj_size = 0, kc_order = 0, kc_align = 0, color_offset = 0,
        color_num = 0, color_index = 0, limits = lim, slab_count = 0, objs_per_slab = 0, kc_sflags = 0,
        constructor = ctor, destructor = dtor\<rparr>;
     (rc, cache) \<leftarrow> calc_slab_size hw cache sz align sflags;
     Some (rc, s\<lparr>caches := (caches s)(k := cache),
       slinks := queue_init (Free k) (queue_init (Full k) (queue_init (Partial k) (slinks s)))\<rparr>)
   }"

text \<open>The loops over the caches of \<open>kmalloc\<close>: from the first and from the last.\<close>

fun prepare_loop :: "cpu_dcache \<Rightarrow> nat \<Rightarrow> nat \<Rightarrow> kmem \<Rightarrow> kmem option" where
  "prepare_loop hw 0 i s = Some s"
| "prepare_loop hw (Suc n) i s = do {
     (rc, s) \<leftarrow> slab_kmem_cache_create hw i (push_bit i SLAB_PREALLOC_BASE) 0 0 KMALLOC_NORMAL None None s;
     kassert (rc = Inr ());
     prepare_loop hw n (Suc i) s
   }"

definition slab_prepare_preallocate_cahches :: "cpu_dcache \<Rightarrow> kmem \<Rightarrow> kmem option" where
  "slab_prepare_preallocate_cahches hw s = prepare_loop hw SLAB_PREALLOC_CACHE_NR 0 s"

fun finalize_loop :: "u64 \<Rightarrow> nat \<Rightarrow> kmem \<Rightarrow> kmem option" where
  "finalize_loop base 0 s = Some s"
| "finalize_loop base (Suc i) s = do { s \<leftarrow> slab_kmem_cache_destroy base i s; finalize_loop base i s }"

definition slab_finalize_preallocate_cahches :: "u64 \<Rightarrow> kmem \<Rightarrow> kmem option" where
  "slab_finalize_preallocate_cahches base s = finalize_loop base SLAB_PREALLOC_CACHE_NR s"

end
