(* ===== verification/SlabInv.thy ===== *)
theory SlabInv
  imports Slab
begin

unbundle bit_operations_syntax

text \<open>
  The singly linked lists and the locks of the slab allocator, the invariant of its caches with slab data
  inside the slab, and that a step that touches one slab keeps it.
\<close>

section \<open>Lists of free objects\<close>

primrec slist_at :: "(u64 \<Rightarrow> u64) \<Rightarrow> u64 \<Rightarrow> u64 list \<Rightarrow> bool" where
  "slist_at nx h [] \<longleftrightarrow> h = 0"
| "slist_at nx h (x # xs) \<longleftrightarrow> h = x \<and> x \<noteq> 0 \<and> slist_at nx (nx x) xs"

lemma slist_at_frame: "slist_at nx h xs \<Longrightarrow> a \<notin> set xs \<Longrightarrow> slist_at (nx(a := v)) h xs"
  by (induction xs arbitrary: h) auto

lemma slist_at_cong: "slist_at nx h xs \<Longrightarrow> (\<And>a. a \<in> set xs \<Longrightarrow> nx' a = nx a) \<Longrightarrow> slist_at nx' h xs"
  by (induction xs arbitrary: h) auto

lemma slist_get_top_at:
  assumes "slist_at nx h (x # xs)" "distinct (x # xs)"
  shows "slist_get_top h nx = Some (x, nx x, nx(x := 0))" "slist_at (nx(x := 0)) (nx x) xs"
proof -
  have "find_slist_node_referer h nx x = Some (Inr None)"
    using assms by (simp add: find_slist_node_referer_def find_slist_node_referer_loop.simps)
  then show "slist_get_top h nx = Some (x, nx x, nx(x := 0))"
    using assms by (simp add: slist_get_top_def slist_is_empty_def slist_ref_top_def slist_del_def slist_init_node_def)
  show "slist_at (nx(x := 0)) (nx x) xs" using assms by (intro slist_at_frame) auto
qed

lemma slist_add_at:
  assumes "slist_at nx h xs" "x \<noteq> 0" "x \<notin> set xs"
  shows "slist_at (nx(x := h)) x (x # xs)"
  using assms by (simp add: slist_at_frame)

text \<open>Only the last node of a list has a null link.\<close>

lemma slist_at_last: "slist_at nx h xs \<Longrightarrow> x \<in> set xs \<Longrightarrow> distinct xs \<Longrightarrow> nx x = 0 \<longleftrightarrow> x = last xs"
proof (induction xs arbitrary: h)
  case (Cons y xs)
  then show ?case by (cases xs) auto
qed simp

section \<open>Locks\<close>

definition put_cache :: "nat \<Rightarrow> spinlock \<Rightarrow> cpu \<Rightarrow> kmem \<Rightarrow> kmem" where
  "put_cache k l c s = upd_cache k (kc_lock_update (\<lambda>_. l)) (s\<lparr>pm := (pm s)\<lparr>pm_cpu := c\<rparr>\<rparr>)"

definition put_slab :: "u64 \<Rightarrow> spinlock \<Rightarrow> cpu \<Rightarrow> kmem \<Rightarrow> kmem" where
  "put_slab sl l c s = upd_slab sl (sl_lock_update (\<lambda>_. l)) (s\<lparr>pm := (pm s)\<lparr>pm_cpu := c\<rparr>\<rparr>)"

interpretation cache_lock: locked_state "\<lambda>s. kc_lock (caches s k)" "\<lambda>s. pm_cpu (pm s)" "put_cache k" "lock_cache k" "unlock_cache k"
  for k
  by unfold_locales (simp_all add: lock_cache_def unlock_cache_def put_cache_def upd_cache_def)

interpretation slab_lock: locked_state "\<lambda>s. sl_lock (slabs s sl)" "\<lambda>s. pm_cpu (pm s)" "put_slab sl" "lock_slab sl" "unlock_slab sl"
  for sl
  by unfold_locales (simp_all add: lock_slab_def unlock_slab_def put_slab_def upd_slab_def)

lemmas slab_state = put_cache_def put_slab_def upd_cache_def upd_slab_def upd_ram_def

lemma fun_upd_val: "a = b \<Longrightarrow> f(x := a) = f(x := b)"
  by simp

lemmas state_eqI = kmem.equality slab.equality kmem_cache.equality pmem.equality fun_upd_val

section \<open>One object\<close>

lemma alloc_slab_obj_on:
  assumes on: "KMEM_CACHE_IS_ON_SLAB (caches s k)" "kc_align (caches s k) = 0" "8 + payload_size (caches s k) \<le> obj_size (caches s k)"
    and free: "lock_free (sl_lock (slabs s sl))"
    and list: "slist_at (snext s) (sl_objects (slabs s sl)) (x # xs)" "distinct (x # xs)"
  defines "s1 \<equiv> upd_slab sl (sl_objects_update (\<lambda>_. snext s x)) (s\<lparr>snext := (snext s)(x := 0)\<rparr>)"
  shows "alloc_slab_obj k sl s = Some (x + 8, case constructor (caches s k) of None \<Rightarrow> s1
    | Some f \<Rightarrow> upd_ram (f (x + 8) (payload_size (caches s k))) s1)"
proof -
  let ?c = "pm_cpu (pm s)" and ?l = "sl_lock (slabs s sl)"
  let ?put = "put_slab sl (lock_taken ?l) (rv64_cpu_disable_interrupt ?c)"
  have x: "x \<noteq> 0" using list(1) by simp
  have lock: "lock_slab sl s = Some (sstatus ?c, ?put s)"
    using slab_lock.enter_free [OF free] by simp
  have get: "get_free_obj sl (?put s) = Some (x, ?put s1)"
    using slist_get_top_at [OF list] x by (auto simp: get_free_obj_def slab_state s1_def intro!: state_eqI)
  have unlock: "unlock_slab sl (sstatus ?c) (?put s1) = Some s1"
    by (rule slab_lock.leave_entered [OF free, of s1]) (simp_all add: s1_def slab_state)
  have sel: "snext (?put s1) x = 0" "caches (?put s1) = caches s" "caches s1 = caches s"
    by (simp_all add: s1_def slab_state)
  have "caches (upd_ram f s1) = caches s" for f by (simp add: sel upd_ram_def)
  then show ?thesis
    using on by (simp add: alloc_slab_obj_def lock get unlock sel sizeof_kmem_s_bufctl_def Let_def split: option.splits)
qed

lemma free_slab_obj_run:
  assumes free: "lock_free (sl_lock (slabs s sl))" and "snext s x = 0"
  shows "free_slab_obj sl x s = Some (upd_slab sl (sl_objects_update (\<lambda>_. x)) (s\<lparr>snext := (snext s)(x := sl_objects (slabs s sl))\<rparr>))"
proof -
  let ?c = "pm_cpu (pm s)" and ?l = "sl_lock (slabs s sl)"
  let ?put = "put_slab sl (lock_taken ?l) (rv64_cpu_disable_interrupt ?c)"
  define s1 where "s1 = upd_slab sl (sl_objects_update (\<lambda>_. x)) (s\<lparr>snext := (snext s)(x := sl_objects (slabs s sl))\<rparr>)"
  have lock: "lock_slab sl s = Some (sstatus ?c, ?put s)"
    using slab_lock.enter_free [OF free] by simp
  have add: "add_free_obj sl x (?put s) = ?put s1"
    by (auto simp: add_free_obj_def slist_add_def slab_state s1_def intro!: state_eqI)
  have unlock: "unlock_slab sl (sstatus ?c) (?put s1) = Some s1"
    by (rule slab_lock.leave_entered [OF free, of s1]) (simp_all add: s1_def slab_state)
  have "snext (?put s) x = 0" using assms(2) by (simp add: slab_state)
  then show ?thesis unfolding s1_def [symmetric] by (simp add: free_slab_obj_def lock add unlock)
qed

section \<open>The invariant of the caches with slab data inside the slab\<close>

text \<open>A cache without alignment whose objects and slab data fit into one page.\<close>

definition on_cache :: "kmem_cache \<Rightarrow> bool" where
  "on_cache c \<longleftrightarrow> lock_free (kc_lock c) \<and> KMEM_CACHE_IS_ON_SLAB c \<and> kc_align c = 0 \<and> kc_order c = 0 \<and>
     unat (payload_size c) + 8 \<le> unat (obj_size c) \<and> 0 < objs_per_slab c \<and>
     objs_per_slab c * unat (obj_size c) + 200 \<le> 4096"

text \<open>The control structure of object \<open>i\<close>; the object follows it.\<close>

definition node_at :: "kmem_cache \<Rightarrow> u64 \<Rightarrow> nat \<Rightarrow> u64" where
  "node_at c p i = p + obj_size c * of_nat i"

definition slab_frame :: "u64 \<Rightarrow> kmem \<Rightarrow> u64 \<Rightarrow> nat \<Rightarrow> bool" where
  "slab_frame base s sl j \<longleftrightarrow> in_frame base (pm s) (sl_page (slabs s sl)) j \<and> slabp s (0, j) = sl \<and>
     PAGE_IS_USED (frame_at (0, j) (pm s)) \<and> \<not> PAGE_IS_RESERVED (frame_at (0, j) (pm s)) \<and>
     \<not> PAGE_IS_CLUSTERED (frame_at (0, j) (pm s)) \<and> PAGE_USED_BY_SLAB (frame_at (0, j) (pm s)) \<and>
     pf_order (frame_at (0, j) (pm s)) = 0 \<and> pf_usecnt (frame_at (0, j) (pm s)) = 1"

text \<open>The objects in \<open>U\<close> are given out, the others are in the list of the slab.\<close>

definition objects_ok :: "kmem \<Rightarrow> nat set \<Rightarrow> u64 \<Rightarrow> bool" where
  "objects_ok s U sl \<longleftrightarrow> (let c = caches s (sl_cache (slabs s sl)); node = node_at c (sl_page (slabs s sl)) in
     U \<subseteq> {..<objs_per_slab c} \<and> sl_count (slabs s sl) = card U \<and> (\<forall>i\<in>U. snext s (node i) = 0) \<and>
     (\<exists>xs. slist_at (snext s) (sl_objects (slabs s sl)) xs \<and> distinct xs \<and>
       set xs = node ` ({..<objs_per_slab c} - U)))"

definition slab_ok :: "u64 \<Rightarrow> kmem \<Rightarrow> nat set \<Rightarrow> u64 \<Rightarrow> bool" where
  "slab_ok base s U sl \<longleftrightarrow> lock_free (sl_lock (slabs s sl)) \<and> sl = sl_page (slabs s sl) + 3896 \<and>
     (\<exists>j. slab_frame base s sl j) \<and> objects_ok s U sl"

definition cache_heads :: "nat set \<Rightarrow> slab_link set" where
  "cache_heads K = Partial ` K \<union> Full ` K \<union> Free ` K"

definition queue_of :: "kmem \<Rightarrow> nat set \<Rightarrow> u64 \<Rightarrow> slab_link" where
  "queue_of s U sl = (let k = sl_cache (slabs s sl) in
     if U = {} then Free k else if card U = objs_per_slab (caches s k) then Full k else Partial k)"

text \<open>
  \<open>A\<close> are the slabs of the caches in \<open>K\<close>, \<open>U\<close> are the objects given out, and \<open>qs\<close> are the queues. In
  the middle of an operation the slabs in \<open>B\<close> may be in a queue that does not fit the number of their objects.
\<close>

definition kmem_inv_but ::
    "u64 set \<Rightarrow> u64 \<Rightarrow> (nat \<Rightarrow> nat list) \<Rightarrow> nat set \<Rightarrow> u64 set \<Rightarrow> (u64 \<Rightarrow> nat set) \<Rightarrow> (slab_link \<Rightarrow> slab_link list) \<Rightarrow> kmem \<Rightarrow> bool" where
  "kmem_inv_but B base fl K A U qs s \<longleftrightarrow> base \<noteq> 0 \<and> vm_env base fl (pm s) \<and> (\<forall>k\<in>K. on_cache (caches s k)) \<and> finite A \<and>
     wf_queues (cache_heads K) (Link ` A) qs (slinks s) \<and>
     (\<forall>sl\<in>A. sl_cache (slabs s sl) \<in> K \<and> slab_ok base s (U sl) sl \<and>
       (sl \<notin> B \<longrightarrow> Link sl \<in> set (qs (queue_of s (U sl) sl)))) \<and>
     (\<forall>k\<in>K. slab_count (caches s k) = card {sl\<in>A. sl_cache (slabs s sl) = k})"

abbreviation kmem_inv ::
    "u64 \<Rightarrow> (nat \<Rightarrow> nat list) \<Rightarrow> nat set \<Rightarrow> u64 set \<Rightarrow> (u64 \<Rightarrow> nat set) \<Rightarrow> (slab_link \<Rightarrow> slab_link list) \<Rightarrow> kmem \<Rightarrow> bool" where
  "kmem_inv \<equiv> kmem_inv_but {}"

lemmas kmem_inv_def = kmem_inv_but_def

section \<open>Addresses\<close>

lemma frame_of_inside:
  assumes env: "vm_env base fl p" and t: "in_frame base p t j" and a: "unat a = unat t + r" "r < 4096"
  shows "frame_of base a p = Some ((0, j), p)"
proof -
  have "hal_kvaddr_to_pfn base a = Inr (min_pfn (the_area p) + j)"
    using hal_kvaddr_to_pfn_unat [of base a] t a by (simp add: in_frame_def)
  moreover have "pfdb_tree_find (min_pfn (the_area p) + j, min_pfn (the_area p) + j + 1) (dbroot (pm_db p)) = Some (Some 0)"
    using pfdb_tree_find_entry [of "dbroot (pm_db p)" 0 "min_pfn (the_area p) + j"] env t
    by (simp add: area_ok_def vm_env_def in_frame_def)
  then have "pfn_to_page_frame (min_pfn (the_area p) + j) (pm_db p) (pm_cpu p) = Some (Inr (0, j), pm_db p, pm_cpu p)"
    using pfn_to_page_frame_eq [of "pm_db p" "min_pfn (the_area p) + j" "Some 0"] env
    by (simp add: area_ok_def vm_env_def)
  ultimately show ?thesis
    by (simp add: frame_of_def pfdb_kvaddr_to_page_frame_def)
qed

lemma page_room: "vm_env base fl p \<Longrightarrow> in_frame base p t j \<Longrightarrow> unat t + 4096 < 2 ^ 64"
  by (auto simp: vm_env_def in_frame_def)

lemma node_unat:
  assumes c: "on_cache c" and i: "i < objs_per_slab c" and p: "unat p + 4096 < 2 ^ 64"
  shows "unat (node_at c p i) = unat p + unat (obj_size c) * i"
    and "unat (obj_size c) * i + unat (obj_size c) + 200 \<le> 4096"
    and "unat (node_at c p i + 8) = unat p + (unat (obj_size c) * i + 8)"
proof -
  have "unat (obj_size c) * Suc i \<le> unat (obj_size c) * objs_per_slab c"
    using i by (intro mult_le_mono2) simp
  then show room: "unat (obj_size c) * i + unat (obj_size c) + 200 \<le> 4096"
    using c by (simp add: on_cache_def mult.commute)
  have le: "8 \<le> unat (obj_size c)" using c by (simp add: on_cache_def)
  have "obj_size c * of_nat i = of_nat (unat (obj_size c) * i)" by simp
  moreover have "unat (of_nat (unat (obj_size c) * i) :: u64) = unat (obj_size c) * i"
    using room by (simp only: unat_of_nat) (intro mod_less, simp)
  ultimately have m: "unat (obj_size c * of_nat i) = unat (obj_size c) * i" by simp
  then show u: "unat (node_at c p i) = unat p + unat (obj_size c) * i"
    unfolding node_at_def using room p by (subst unat_add_lem [THEN iffD1]) simp_all
  show "unat (node_at c p i + 8) = unat p + (unat (obj_size c) * i + 8)"
    using u room p le by (subst unat_add_lem [THEN iffD1]) simp_all
qed

lemma node_at_inj:
  assumes c: "on_cache c" and ij: "i < objs_per_slab c" "j < objs_per_slab c" and p: "unat p + 4096 < 2 ^ 64"
    and eq: "node_at c p i = node_at c p j"
  shows "i = j"
proof -
  have "unat (obj_size c) * i = unat (obj_size c) * j"
    using node_unat(1) [OF c ij(1) p] node_unat(1) [OF c ij(2) p] eq by (metis add_left_cancel)
  moreover have "unat (obj_size c) \<noteq> 0" using c by (simp only: on_cache_def) linarith
  ultimately show ?thesis by (metis mult_cancel1)
qed

lemma node_at_nonzero:
  assumes "on_cache c" "i < objs_per_slab c" "vm_env base fl p" "in_frame base p t j" "base \<noteq> 0"
  shows "node_at c t i \<noteq> 0"
proof -
  have "unat (node_at c t i) = unat t + unat (obj_size c) * i"
    by (rule node_unat(1) [OF assms(1,2) page_room [OF assms(3,4)]])
  moreover have "0 < unat t" using assms(4,5) by (simp add: in_frame_def unat_gt_0)
  ultimately show ?thesis by (metis add_is_0 less_numeral_extra(3) unat_0)
qed

text \<open>Structures in different frames are at different addresses.\<close>

lemma pages_apart:
  assumes "in_frame base p t i" "in_frame base p u j" "unat a = unat t + r" "r < 4096" "unat b = unat u + q" "q < 4096" "a = b"
  shows "i = j"
  using assms by (simp add: in_frame_def)

section \<open>What an operation on one slab keeps\<close>

lemma move_queue:
  assumes wf: "wf_queues H N qs h" and n: "n \<in> N" "q \<in> H" "n \<in> set (qs q)" and q': "q' \<in> H"
  defines "h1 \<equiv> snd (queue_del q n h)"
  shows "list_not_linked n h1"
    and "wf_queues H N ((\<lambda>r. remove1 n (qs r))(q' := remove1 n (qs q') @ [n])) (queue_add q' n h1)"
proof -
  have wf1: "wf_queues H N (\<lambda>r. remove1 n (qs r)) h1"
    using kq.del [OF wf n(1), of q] by (simp add: h1_def)
  have out: "n \<notin> set (remove1 n (qs r))" if "r \<in> H" for r
    using kq.wf_distinct [OF wf that] by simp
  show "list_not_linked n h1" using wf_queues_unlinked [OF wf1 n(1)] out by blast
  show "wf_queues H N ((\<lambda>r. remove1 n (qs r))(q' := remove1 n (qs q') @ [n])) (queue_add q' n h1)"
    using kq.add [OF wf1 q' n(1)] out by blast
qed

lemma objects_ok_cong:
  assumes ok: "objects_ok s V t"
    and same: "slabs s' t = slabs s t"
      "obj_size (caches s' (sl_cache (slabs s t))) = obj_size (caches s (sl_cache (slabs s t)))"
      "objs_per_slab (caches s' (sl_cache (slabs s t))) = objs_per_slab (caches s (sl_cache (slabs s t)))"
    and nx: "\<And>i. i < objs_per_slab (caches s (sl_cache (slabs s t))) \<Longrightarrow>
      snext s' (node_at (caches s (sl_cache (slabs s t))) (sl_page (slabs s t)) i) =
      snext s (node_at (caches s (sl_cache (slabs s t))) (sl_page (slabs s t)) i)"
  shows "objects_ok s' V t"
proof -
  let ?c = "caches s (sl_cache (slabs s t))" and ?p = "sl_page (slabs s t)"
  have node: "node_at (caches s' (sl_cache (slabs s t))) ?p = node_at ?c ?p"
    using same(2) by (simp add: node_at_def fun_eq_iff)
  obtain xs where xs: "slist_at (snext s) (sl_objects (slabs s t)) xs" "distinct xs" "set xs = node_at ?c ?p ` ({..<objs_per_slab ?c} - V)"
    and V: "V \<subseteq> {..<objs_per_slab ?c}" "sl_count (slabs s t) = card V" "\<forall>i\<in>V. snext s (node_at ?c ?p i) = 0"
    using ok by (auto simp: objects_ok_def Let_def)
  have "slist_at (snext s') (sl_objects (slabs s t)) xs"
    by (rule slist_at_cong [OF xs(1)]) (use xs(3) nx in auto)
  moreover have "\<forall>i\<in>V. snext s' (node_at ?c ?p i) = 0" using V(1,3) nx by force
  ultimately show ?thesis
    using xs(2,3) V same node by (auto simp: objects_ok_def Let_def)
qed

lemma slab_ok_cong:
  assumes ok: "slab_ok base s V t"
    and same: "slabs s' t = slabs s t"
      "obj_size (caches s' (sl_cache (slabs s t))) = obj_size (caches s (sl_cache (slabs s t)))"
      "objs_per_slab (caches s' (sl_cache (slabs s t))) = objs_per_slab (caches s (sl_cache (slabs s t)))"
    and frames: "\<And>j. slab_frame base s t j \<Longrightarrow> slab_frame base s' t j"
    and nx: "\<And>i. i < objs_per_slab (caches s (sl_cache (slabs s t))) \<Longrightarrow>
      snext s' (node_at (caches s (sl_cache (slabs s t))) (sl_page (slabs s t)) i) =
      snext s (node_at (caches s (sl_cache (slabs s t))) (sl_page (slabs s t)) i)"
  shows "slab_ok base s' V t"
proof -
  have "objects_ok s V t" using ok by (simp add: slab_ok_def)
  from objects_ok_cong [OF this same nx] show ?thesis
    using ok same(1) frames by (auto simp: slab_ok_def)
qed

text \<open>Nodes of different slabs are different.\<close>

lemma nodes_apart:
  assumes inv: "kmem_inv_but B base fl K A U qs s" and t: "t \<in> A" "u \<in> A" "t \<noteq> u"
    and i: "i < objs_per_slab (caches s (sl_cache (slabs s t)))" "j < objs_per_slab (caches s (sl_cache (slabs s u)))"
  shows "node_at (caches s (sl_cache (slabs s t))) (sl_page (slabs s t)) i \<noteq>
    node_at (caches s (sl_cache (slabs s u))) (sl_page (slabs s u)) j"
proof
  assume eq: "node_at (caches s (sl_cache (slabs s t))) (sl_page (slabs s t)) i =
    node_at (caches s (sl_cache (slabs s u))) (sl_page (slabs s u)) j"
  have env: "vm_env base fl (pm s)" using inv by (simp add: kmem_inv_def)
  have ok: "slab_ok base s (U t) t" "slab_ok base s (U u) u" "on_cache (caches s (sl_cache (slabs s t)))"
    "on_cache (caches s (sl_cache (slabs s u)))"
    using inv t by (simp_all add: kmem_inv_def)
  obtain a b where ab: "slab_frame base s t a" "slab_frame base s u b" using ok by (auto simp: slab_ok_def)
  then have fr: "in_frame base (pm s) (sl_page (slabs s t)) a" "in_frame base (pm s) (sl_page (slabs s u)) b"
    by (simp_all add: slab_frame_def)
  note nt = node_unat [OF ok(3) i(1) page_room [OF env fr(1)]] and nu = node_unat [OF ok(4) i(2) page_room [OF env fr(2)]]
  have "a = b"
    by (rule pages_apart [OF fr nt(1) _ nu(1) _ eq]) (use nt(2) nu(2) in simp_all)
  then have "t = u" using ab by (simp add: slab_frame_def)
  with t(3) show False by simp
qed

text \<open>The state of one slab changes, and the queue it is in.\<close>

lemma kmem_inv_step:
  assumes inv: "kmem_inv_but B base fl K A U qs s" and B: "B \<subseteq> {sl}" "B' \<subseteq> {sl}" and sl: "sl \<in> A"
    and env: "vm_env base fl (pm s')" and c: "\<And>k. k \<in> K \<Longrightarrow> caches s' k = caches s k"
    and slabs: "\<And>t. t \<noteq> sl \<Longrightarrow> slabs s' t = slabs s t" "sl_cache (slabs s' sl) = sl_cache (slabs s sl)"
    and ok: "slab_ok base s' V sl"
    and frames: "\<And>t j. t \<in> A \<Longrightarrow> slab_frame base s t j \<Longrightarrow> t \<noteq> sl \<Longrightarrow> slab_frame base s' t j"
    and nx: "\<And>a. a \<notin> node_at (caches s (sl_cache (slabs s sl))) (sl_page (slabs s sl)) ` {..<objs_per_slab (caches s (sl_cache (slabs s sl)))} \<Longrightarrow>
      snext s' a = snext s a"
    and wf: "wf_queues (cache_heads K) (Link ` A) qs' (slinks s')"
    and here: "sl \<notin> B' \<Longrightarrow> Link sl \<in> set (qs' (queue_of s' V sl))"
    and there: "\<And>t q. t \<noteq> sl \<Longrightarrow> Link t \<in> set (qs q) \<Longrightarrow> Link t \<in> set (qs' q)"
  shows "kmem_inv_but B' base fl K A (U(sl := V)) qs' s'"
proof -
  have K: "sl_cache (slabs s t) \<in> K" if "t \<in> A" for t using inv that by (simp add: kmem_inv_def)
  have cache: "sl_cache (slabs s' t) = sl_cache (slabs s t)" for t using slabs by (cases "t = sl") simp_all
  have other: "slab_ok base s' (U t) t \<and> Link t \<in> set (qs' (queue_of s' (U t) t))" if t: "t \<in> A" "t \<noteq> sl" for t
  proof
    have "slab_ok base s (U t) t" using inv t by (simp add: kmem_inv_def)
    then show "slab_ok base s' (U t) t"
    proof (rule slab_ok_cong)
      show "snext s' (node_at (caches s (sl_cache (slabs s t))) (sl_page (slabs s t)) i) =
          snext s (node_at (caches s (sl_cache (slabs s t))) (sl_page (slabs s t)) i)"
        if i: "i < objs_per_slab (caches s (sl_cache (slabs s t)))" for i
        by (rule nx) (use nodes_apart [OF inv t(1) sl t(2) i] in auto)
    qed (use slabs(1) c K t frames in auto)
    have "queue_of s' (U t) t = queue_of s (U t) t"
      using slabs(1) [OF t(2)] c [OF K [OF t(1)]] by (simp add: queue_of_def Let_def)
    then show "Link t \<in> set (qs' (queue_of s' (U t) t))"
      using inv t there B by (auto simp: kmem_inv_def)
  qed
  have "{t \<in> A. sl_cache (slabs s' t) = k} = {t \<in> A. sl_cache (slabs s t) = k}" for k by (simp add: cache)
  then show ?thesis
    using inv env c ok wf here other K by (simp add: kmem_inv_def cache del: fun_upd_apply) (simp add: cache)
qed

end
