(* ===== verification/SlabFree.thy ===== *)
theory SlabFree
  imports SlabInv
begin

unbundle bit_operations_syntax

text \<open>
  The run of \<open>slab_kmem_cache_free\<close> under the invariant.
\<close>

section \<open>The cache lock around changes\<close>

lemma put_cache_sel [simp]:
  "slabs (put_cache k l c s) = slabs s" "slinks (put_cache k l c s) = slinks s" "snext (put_cache k l c s) = snext s"
  "slabp (put_cache k l c s) = slabp s" "ctl_ptrs (put_cache k l c s) = ctl_ptrs s"
  "objs_per_slab (caches (put_cache k l c s) j) = objs_per_slab (caches s j)"
  "slab_count (caches (put_cache k l c s) j) = slab_count (caches s j)"
  "limits (caches (put_cache k l c s) j) = limits (caches s j)"
  by (simp_all add: slab_state)

lemma put_cache_push:
  "slinks_update f (put_cache k l c s) = put_cache k l c (slinks_update f s)"
  "upd_slab sl g (put_cache k l c s) = put_cache k l c (upd_slab sl g s)"
  "upd_cache k (slab_count_update h) (put_cache k l c s) = put_cache k l c (upd_cache k (slab_count_update h) s)"
  by (auto simp: slab_state intro!: state_eqI)

lemma upd_slab_sel [simp]:
  "slinks (upd_slab sl f s) = slinks s" "caches (upd_slab sl f s) = caches s" "pm (upd_slab sl f s) = pm s"
  "snext (upd_slab sl f s) = snext s" "slabp (upd_slab sl f s) = slabp s" "slabs (upd_slab sl f s) sl = f (slabs s sl)"
  "t \<noteq> sl \<Longrightarrow> slabs (upd_slab sl f s) t = slabs s t"
  by (simp_all add: slab_state)

lemma upd_ram_sel [simp]:
  "slinks (upd_ram f s) = slinks s" "caches (upd_ram f s) = caches s" "slabs (upd_ram f s) = slabs s"
  "snext (upd_ram f s) = snext s" "slabp (upd_ram f s) = slabp s" "ctl_ptrs (upd_ram f s) = ctl_ptrs s"
  "pm_db (pm (upd_ram f s)) = pm_db (pm s)" "pm_cpu (pm (upd_ram f s)) = pm_cpu (pm s)"
  "pm_ram (pm (upd_ram f s)) = f (pm_ram (pm s))"
  by (simp_all add: slab_state)

lemma env_ram: "vm_env base fl (p\<lparr>pm_ram := r\<rparr>) \<longleftrightarrow> vm_env base fl p"
  "in_frame base (p\<lparr>pm_ram := r\<rparr>) t j \<longleftrightarrow> in_frame base p t j" "frame_at pf (p\<lparr>pm_ram := r\<rparr>) = frame_at pf p"
  by (simp_all add: vm_env_def in_frame_def frame_at_def)

lemma kept_env:
  "pm_db p' = pm_db p \<Longrightarrow> vm_env base fl p' \<longleftrightarrow> vm_env base fl p"
  "pm_db p' = pm_db p \<Longrightarrow> in_frame base p' t j \<longleftrightarrow> in_frame base p t j"
  "pm_db p' = pm_db p \<Longrightarrow> frame_at pf p' = frame_at pf p"
  by (simp_all add: vm_env_def in_frame_def frame_at_def)

lemma uncount_obj_put: "uncount_obj k sl (put_cache k l c s) = map_option (put_cache k l c) (uncount_obj k sl s)"
  by (simp add: uncount_obj_def put_cache_push Let_def kassert_def)

lemma queue_free_slab_put: "queue_free_slab k sl (put_cache k l c s) = map_option (put_cache k l c) (queue_free_slab k sl s)"
  by (simp add: queue_free_slab_def put_cache_push Let_def kassert_def)

lemma count_obj_put: "count_obj k sl (put_cache k l c s) = map_option (put_cache k l c) (count_obj k sl s)"
  by (simp add: count_obj_def put_cache_push Let_def kassert_def)

section \<open>Release of an object\<close>

text \<open>The slab of an object that is given out, and its queue.\<close>

lemma given_out:
  assumes inv: "kmem_inv base fl K A U qs s" and sl: "sl \<in> A" and i: "i \<in> U sl"
  defines "k \<equiv> sl_cache (slabs s sl)"
  defines "node \<equiv> node_at (caches s k) (sl_page (slabs s sl)) i"
  obtains j where "frame_of base (node + 8) (pm s) = Some ((0, j), pm s)" and "slab_frame base s sl j"
    and "cluster_head (0, j) s = Some (0, j)" and "PAGE_USED_BY_SLAB (frame_at (0, j) (pm s))" and "slabp s (0, j) = sl"
    and "k \<in> K" and "on_cache (caches s k)" and "snext s node = 0" and "node \<noteq> 0" and "0 < sl_count (slabs s sl)"
    and "sl_count (slabs s sl) = card (U sl)" and "finite (U sl)" and "lock_free (sl_lock (slabs s sl))"
proof -
  have env: "vm_env base fl (pm s)" "base \<noteq> 0" using inv by (simp_all add: kmem_inv_def)
  have k: "k \<in> K" "on_cache (caches s k)" and ok: "slab_ok base s (U sl) sl" using inv sl by (simp_all add: kmem_inv_def k_def)
  then obtain j where j: "slab_frame base s sl j" and o: "objects_ok s (U sl) sl" and l: "lock_free (sl_lock (slabs s sl))"
    by (auto simp: slab_ok_def)
  have U: "U sl \<subseteq> {..<objs_per_slab (caches s k)}" "sl_count (slabs s sl) = card (U sl)" "snext s node = 0"
    using o i by (simp_all add: objects_ok_def Let_def k_def node_def)
  then have i': "i < objs_per_slab (caches s k)" using i by auto
  have fin: "finite (U sl)" using U(1) finite_subset by blast
  have fr: "in_frame base (pm s) (sl_page (slabs s sl)) j" using j by (simp add: slab_frame_def)
  note n = node_unat [OF k(2) i' page_room [OF env(1) fr]]
  have "unat (obj_size (caches s k)) * i + 8 < 4096"
    using n(2) k(2) by (simp add: on_cache_def)
  then have "frame_of base (node + 8) (pm s) = Some ((0, j), pm s)"
    unfolding node_def by (rule frame_of_inside [OF env(1) fr n(3)])
  moreover have "cluster_head (0, j) s = Some (0, j)" "PAGE_USED_BY_SLAB (frame_at (0, j) (pm s))" "slabp s (0, j) = sl"
    using j by (simp_all add: cluster_head_def slab_frame_def)
  moreover have "0 < sl_count (slabs s sl)" using U(2) i fin by (simp add: card_gt_0_iff) blast
  moreover have "node \<noteq> 0" unfolding node_def by (rule node_at_nonzero [OF k(2) i' env(1) fr env(2)])
  ultimately show thesis using that j k U fin l by blast
qed

definition released :: "u64 \<Rightarrow> nat \<Rightarrow> u64 \<Rightarrow> u64 \<Rightarrow> slab_link lstore \<Rightarrow> kmem \<Rightarrow> kmem" where
  "released sl k obj node lks s =
     (let s = (case destructor (caches s k) of None \<Rightarrow> s | Some f \<Rightarrow> upd_ram (f obj (payload_size (caches s k))) s)
      in s\<lparr>slabs := (slabs s)(sl := (slabs s sl)\<lparr>sl_count := sl_count (slabs s sl) - 1, sl_objects := node\<rparr>),
           snext := (snext s)(node := sl_objects (slabs s sl)), slinks := lks\<rparr>)"

lemma cache_free_run:
  assumes inv: "kmem_inv base fl K A U qs s" and sl: "sl \<in> A" and i: "i \<in> U sl"
  defines "k \<equiv> sl_cache (slabs s sl)"
  defines "node \<equiv> node_at (caches s k) (sl_page (slabs s sl)) i"
  defines "q \<equiv> queue_of s (U sl) sl" and "q' \<equiv> queue_of s (U sl - {i}) sl"
  shows "slab_kmem_cache_free base (node + 8) s =
    Some (released sl k (node + 8) node (queue_add q' (Link sl) (snd (queue_del q (Link sl) (slinks s)))) s)"
proof -
  obtain j where j: "frame_of base (node + 8) (pm s) = Some ((0, j), pm s)" "slab_frame base s sl j"
    "cluster_head (0, j) s = Some (0, j)" "PAGE_USED_BY_SLAB (frame_at (0, j) (pm s))" "slabp s (0, j) = sl"
    "k \<in> K" "on_cache (caches s k)" "snext s node = 0" "node \<noteq> 0" "0 < sl_count (slabs s sl)"
    "sl_count (slabs s sl) = card (U sl)" "finite (U sl)" "lock_free (sl_lock (slabs s sl))"
    unfolding k_def node_def by (rule given_out [OF inv sl i]) simp
  have free: "lock_free (kc_lock (caches s k))" and al: "kc_align (caches s k) = 0" "KMEM_CACHE_IS_ON_SLAB (caches s k)"
    using j(7) by (simp_all add: on_cache_def)
  let ?c = "pm_cpu (pm s)" and ?l = "kc_lock (caches s k)"
  let ?P = "put_cache k (lock_taken ?l) (rv64_cpu_disable_interrupt ?c)"
  have lock: "lock_cache k t = Some (sstatus ?c, ?P t)" if "kc_lock (caches t k) = ?l" "pm_cpu (pm t) = ?c" for t
    using cache_lock.enter_free [of t k] free that by simp
  have unlock: "unlock_cache k (sstatus ?c) (?P t) = Some t" if "kc_lock (caches t k) = ?l" "pm_cpu (pm t) = ?c" for t
    using cache_lock.leave_entered [OF free, of t] that by simp
  let ?n = "card (U sl) - 1"
  have n: "card (U sl - {i}) = ?n" "U sl - {i} = {} \<longleftrightarrow> ?n = 0"
  proof -
    show "card (U sl - {i}) = ?n" using i j(12) by simp
    then show "U sl - {i} = {} \<longleftrightarrow> ?n = 0" using card_0_eq [of "U sl - {i}"] j(12) by simp
  qed
  have "U sl \<noteq> {}" using i by blast
  then have q: "q = (if sl_count (slabs s sl) = objs_per_slab (caches s k) then Full k else Partial k)"
    using j(11) by (simp add: q_def queue_of_def k_def Let_def)
  have "objects_ok s (U sl) sl" using inv sl by (simp add: kmem_inv_def slab_ok_def)
  then have "card (U sl) \<le> objs_per_slab (caches s k)"
    using card_mono [of "{..<objs_per_slab (caches s k)}" "U sl"] by (simp add: objects_ok_def Let_def k_def)
  then have q': "q' = (if ?n = 0 then Free k else Partial k)"
    using n j(10,11) by (auto simp: q'_def queue_of_def k_def Let_def)
  let ?links = "snd (queue_del q (Link sl) (slinks s))"
  have wf: "wf_queues (cache_heads K) (Link ` A) qs (slinks s)" "Link sl \<in> set (qs q)"
    using inv sl by (simp_all add: kmem_inv_def q_def)
  have heads: "q \<in> cache_heads K" "q' \<in> cache_heads K" using q q' j(6) by (simp_all add: cache_heads_def)
  have unlinked: "list_not_linked (Link sl) ?links"
    using move_queue(1) [OF wf(1) _ heads(1) wf(2) heads(2)] sl by blast
  let ?s1 = "upd_slab sl (sl_count_update (\<lambda>n. n - 1)) (s\<lparr>slinks := ?links\<rparr>)"
  let ?s2 = "?s1\<lparr>slinks := if 0 < ?n then queue_add (Partial k) (Link sl) ?links else ?links\<rparr>"
  define s2 where "s2 = ?s2"
  have unc: "uncount_obj k sl s = Some s2"
    unfolding uncount_obj_def Let_def q [symmetric] s2_def
    using j(10,11) unlinked by (auto simp: slab_state intro!: state_eqI)
  have s2: "caches s2 = caches s" "pm s2 = pm s" "snext s2 = snext s" "slabs s2 sl = (slabs s sl)\<lparr>sl_count := ?n\<rparr>"
    "slinks s2 = (if 0 < ?n then queue_add (Partial k) (Link sl) ?links else ?links)"
    using j(11) by (simp_all add: s2_def)
  define s3 where "s3 = (case destructor (caches s k) of None \<Rightarrow> s2 | Some f \<Rightarrow> upd_ram (f (node + 8) (payload_size (caches s k))) s2)"
  have s3: "caches s3 = caches s" "pm_cpu (pm s3) = ?c" "snext s3 = snext s" "slabs s3 = slabs s2" "slinks s3 = slinks s2"
    using s2 by (simp_all add: s3_def split: option.split)
  define s4 where "s4 = upd_slab sl (sl_objects_update (\<lambda>_. node)) (s3\<lparr>snext := (snext s3)(node := sl_objects (slabs s3 sl))\<rparr>)"
  have obj: "free_slab_obj sl node s3 = Some s4"
    unfolding s4_def by (rule free_slab_obj_run) (use j(8,13) s2 s3 in simp_all)
  have s4: "slabs s4 sl = (slabs s sl)\<lparr>sl_count := ?n, sl_objects := node\<rparr>" "caches s4 = caches s" "pm_cpu (pm s4) = ?c"
    "slinks s4 = slinks s2"
    using s2 s3 by (simp_all add: s4_def)
  define s5 where "s5 = (if ?n = 0 then s4\<lparr>slinks := queue_add (Free k) (Link sl) ?links\<rparr> else s4)"
  have put: "queue_free_slab k sl s4 = Some s5"
    using s4 s2(5) unlinked by (simp add: queue_free_slab_def s5_def)
  have s5: "caches s5 = caches s" "pm_cpu (pm s5) = ?c" using s4 by (simp_all add: s5_def)
  have fin: "s5 = released sl k (node + 8) node (queue_add q' (Link sl) ?links) s"
    unfolding s5_def s4_def s3_def s2_def q' released_def
    by (auto simp: slab_state j(11) Let_def intro!: state_eqI split: option.split)
  show ?thesis
    unfolding fin [symmetric] slab_kmem_cache_free_def
    using j(1,3-5) al
    by (simp add: lock unlock uncount_obj_put unc queue_free_slab_put put obj s2(1,2) s3(1,2) s4(2,3) s5 k_def [symmetric]
        sizeof_kmem_s_bufctl_def Let_def s3_def [symmetric] cong: option.case_cong)
qed

lemma released_sel:
  fixes sl k obj node lks s
  defines "s' \<equiv> released sl k obj node lks s"
  shows "slabs s' sl = (slabs s sl)\<lparr>sl_count := sl_count (slabs s sl) - 1, sl_objects := node\<rparr>"
    "t \<noteq> sl \<Longrightarrow> slabs s' t = slabs s t" "caches s' = caches s" "slinks s' = lks"
    "snext s' = (snext s)(node := sl_objects (slabs s sl))" "slabp s' = slabp s" "pm_db (pm s') = pm_db (pm s)"
    "pm_cpu (pm s') = pm_cpu (pm s)"
    "pm_ram (pm s') = (case destructor (caches s k) of None \<Rightarrow> id | Some f \<Rightarrow> f obj (payload_size (caches s k))) (pm_ram (pm s))"
  by (simp_all add: s'_def released_def Let_def split: option.split)

lemma slab_frame_cong:
  assumes "pm_db (pm s') = pm_db (pm s)" "sl_page (slabs s' t) = sl_page (slabs s t)" "slabp s' = slabp s"
  shows "slab_frame base s' t j \<longleftrightarrow> slab_frame base s t j"
  using kept_env [OF assms(1)] assms(2,3) by (simp add: slab_frame_def)

lemma objects_ok_released:
  assumes inv: "kmem_inv base fl K A U qs s" and sl: "sl \<in> A" and i: "i \<in> U sl"
  defines "k \<equiv> sl_cache (slabs s sl)"
  defines "node \<equiv> node_at (caches s k) (sl_page (slabs s sl)) i"
  shows "objects_ok (released sl k obj node lks s) (U sl - {i}) sl"
proof -
  let ?s = "released sl k obj node lks s" and ?c = "caches s k" and ?p = "sl_page (slabs s sl)"
  have env: "vm_env base fl (pm s)" "base \<noteq> 0" and k: "on_cache ?c" and o: "objects_ok s (U sl) sl"
    using inv sl by (simp_all add: kmem_inv_def slab_ok_def k_def)
  obtain j where "slab_frame base s sl j" using inv sl by (auto simp: kmem_inv_def slab_ok_def)
  then have fr: "in_frame base (pm s) ?p j" by (simp add: slab_frame_def)
  obtain xs where xs: "slist_at (snext s) (sl_objects (slabs s sl)) xs" "distinct xs" "set xs = node_at ?c ?p ` ({..<objs_per_slab ?c} - U sl)"
    and U: "U sl \<subseteq> {..<objs_per_slab ?c}" "sl_count (slabs s sl) = card (U sl)" "\<forall>a\<in>U sl. snext s (node_at ?c ?p a) = 0"
    using o by (auto simp: objects_ok_def Let_def k_def)
  have i': "i < objs_per_slab ?c" using U(1) i by auto
  note inj = node_at_inj [OF k _ _ page_room [OF env(1) fr]]
  have nz: "node \<noteq> 0" unfolding node_def by (rule node_at_nonzero [OF k i' env(1) fr env(2)])
  have out: "node \<notin> set xs"
  proof
    assume "node \<in> set xs"
    then obtain a where "a < objs_per_slab ?c" "a \<notin> U sl" "node_at ?c ?p i = node_at ?c ?p a"
      unfolding xs(3) node_def by auto
    then show False using inj [OF i' _] i by blast
  qed
  have "slist_at (snext ?s) node (node # xs)"
    unfolding released_sel using slist_add_at [OF xs(1) nz out] .
  moreover have "{..<objs_per_slab ?c} - (U sl - {i}) = insert i ({..<objs_per_slab ?c} - U sl)" using i i' by auto
  then have "set (node # xs) = node_at ?c ?p ` ({..<objs_per_slab ?c} - (U sl - {i}))" using xs(3) by (simp add: node_def)
  moreover have "snext ?s (node_at ?c ?p a) = 0" if "a \<in> U sl - {i}" for a
  proof -
    have "node_at ?c ?p a \<noteq> node"
      using inj [of a i] that U(1) i' unfolding node_def by auto
    then show ?thesis using that U(3) by (simp add: released_sel)
  qed
  moreover have "sl_count (slabs ?s sl) = card (U sl - {i})"
    using U(1,2) i finite_subset [of "U sl"] by (simp add: released_sel)
  moreover have "U sl - {i} \<subseteq> {..<objs_per_slab ?c}" using U(1) by auto
  ultimately show ?thesis
    using xs(2) out unfolding objects_ok_def Let_def by (auto simp: released_sel k_def simp del: slist_at.simps intro!: exI [of _ "node # xs"])
qed

lemma cache_free_inv:
  assumes inv: "kmem_inv base fl K A U qs s" and sl: "sl \<in> A" and i: "i \<in> U sl"
  defines "k \<equiv> sl_cache (slabs s sl)"
  defines "node \<equiv> node_at (caches s k) (sl_page (slabs s sl)) i"
  obtains s' qs' where "slab_kmem_cache_free base (node + 8) s = Some s'"
    and "kmem_inv base fl K A (U(sl := U sl - {i})) qs' s'"
    and "pm_db (pm s') = pm_db (pm s)" and "pm_cpu (pm s') = pm_cpu (pm s)" and "caches s' = caches s"
    and "pm_ram (pm s') = (case destructor (caches s k) of None \<Rightarrow> id | Some f \<Rightarrow> f (node + 8) (payload_size (caches s k))) (pm_ram (pm s))"
    and "\<And>t. sl_page (slabs s' t) = sl_page (slabs s t) \<and> sl_cache (slabs s' t) = sl_cache (slabs s t)"
    and "sl_objects (slabs s' sl) = node"
proof -
  define q where "q = queue_of s (U sl) sl"
  define q' where "q' = queue_of s (U sl - {i}) sl"
  define lks where "lks = queue_add q' (Link sl) (snd (queue_del q (Link sl) (slinks s)))"
  let ?s = "released sl k (node + 8) node lks s"
  let ?qs = "(\<lambda>r. remove1 (Link sl) (qs r))(q' := remove1 (Link sl) (qs q') @ [Link sl])"
  have run: "slab_kmem_cache_free base (node + 8) s = Some ?s"
    using cache_free_run [OF inv sl i] unfolding k_def node_def q_def q'_def lks_def .
  have K: "k \<in> K" and env: "vm_env base fl (pm s)" and ok: "slab_ok base s (U sl) sl"
    and wf: "wf_queues (cache_heads K) (Link ` A) qs (slinks s)" and at: "Link sl \<in> set (qs q)"
    using inv sl by (simp_all add: kmem_inv_def k_def q_def)
  have heads: "q \<in> cache_heads K" "q' \<in> cache_heads K"
    using K by (auto simp: q_def q'_def queue_of_def cache_heads_def k_def Let_def)
  have node: "node \<in> node_at (caches s k) (sl_page (slabs s sl)) ` {..<objs_per_slab (caches s k)}"
    using ok i by (auto simp: node_def k_def slab_ok_def objects_ok_def Let_def)
  have ok': "slab_ok base ?s (U sl - {i}) sl"
  proof -
    have "slab_frame base ?s sl j \<longleftrightarrow> slab_frame base s sl j" for j
      by (rule slab_frame_cong) (simp_all add: released_sel)
    moreover have "sl_page (slabs ?s sl) = sl_page (slabs s sl)" "sl_lock (slabs ?s sl) = sl_lock (slabs s sl)"
      by (simp_all add: released_sel)
    moreover have "objects_ok ?s (U sl - {i}) sl"
      unfolding k_def node_def by (rule objects_ok_released [OF inv sl i])
    ultimately show ?thesis using ok unfolding slab_ok_def by presburger
  qed
  have inv': "kmem_inv base fl K A (U(sl := U sl - {i})) ?qs ?s"
  proof (rule kmem_inv_step [OF inv _ _ sl])
    show "vm_env base fl (pm ?s)" using env by (simp add: kept_env(1) [of "pm ?s" "pm s"] released_sel)
    show "slab_frame base ?s t j" if "slab_frame base s t j" for t j
    proof -
      have "slab_frame base ?s t j \<longleftrightarrow> slab_frame base s t j"
        by (rule slab_frame_cong) (cases "t = sl"; simp add: released_sel)+
      then show ?thesis using that by simp
    qed
    show "wf_queues (cache_heads K) (Link ` A) ?qs (slinks ?s)"
      unfolding released_sel lks_def by (rule move_queue(2) [OF wf _ heads(1) at heads(2)]) (use sl in simp)
    show "Link sl \<in> set (?qs (queue_of ?s (U sl - {i}) sl))"
      by (simp add: queue_of_def q'_def released_sel Let_def)
    show "Link t \<in> set (?qs r)" if "t \<noteq> sl" "Link t \<in> set (qs r)" for t r using that by auto
  qed (use node ok' in \<open>auto simp: released_sel k_def\<close>)
  have "sl_page (slabs ?s t) = sl_page (slabs s t) \<and> sl_cache (slabs ?s t) = sl_cache (slabs s t)" for t
    by (cases "t = sl") (simp_all add: released_sel)
  then show thesis by (intro that [OF run inv']) (simp_all add: released_sel)
qed

end
