(* ===== verification/SlabGrow.thy ===== *)
theory SlabGrow
  imports SlabFree
begin

unbundle bit_operations_syntax

text \<open>
  The growth of a cache by one slab, and the steps of an allocation.
\<close>

section \<open>An object of a slab with a free one\<close>

lemma wf_queues_linked:
  assumes "wf_queues H N qs h" "q \<in> H" "n \<in> set (qs q)"
  shows "\<not> list_not_linked n h"
proof -
  obtain xs ys where eq: "qs q = xs @ n # ys" using assms(3) split_list by metis
  have queue: "is_queue h q (xs @ n # ys)" using wf_queues_is_queue [OF assms(1,2)] eq by simp
  then have "lnext (h n) = hd (ys @ [q])" using seg_ends(1) [of h n ys q] by (simp add: is_queue_def seg_append_Cons)
  moreover have "hd (ys @ [q]) \<noteq> n" using queue by (cases ys) (auto simp: is_queue_def)
  ultimately show ?thesis by (simp add: list_not_linked_def)
qed

definition taken_obj :: "u64 \<Rightarrow> nat \<Rightarrow> u64 \<Rightarrow> slab_link lstore \<Rightarrow> kmem \<Rightarrow> kmem" where
  "taken_obj sl k node lks s =
     (let s = s\<lparr>slabs := (slabs s)(sl := (slabs s sl)\<lparr>sl_count := Suc (sl_count (slabs s sl)), sl_objects := snext s node\<rparr>),
                snext := (snext s)(node := 0), slinks := lks\<rparr>
      in case constructor (caches s k) of None \<Rightarrow> s | Some f \<Rightarrow> upd_ram (f (node + 8) (payload_size (caches s k))) s)"

lemma taken_obj_sel:
  fixes sl k node lks s
  defines "s' \<equiv> taken_obj sl k node lks s"
  shows "slabs s' sl = (slabs s sl)\<lparr>sl_count := Suc (sl_count (slabs s sl)), sl_objects := snext s node\<rparr>"
    "t \<noteq> sl \<Longrightarrow> slabs s' t = slabs s t" "caches s' = caches s" "slinks s' = lks"
    "snext s' = (snext s)(node := 0)" "slabp s' = slabp s" "pm_db (pm s') = pm_db (pm s)"
    "pm_cpu (pm s') = pm_cpu (pm s)"
    "pm_ram (pm s') = (case constructor (caches s k) of None \<Rightarrow> id | Some f \<Rightarrow> f (node + 8) (payload_size (caches s k))) (pm_ram (pm s))"
  by (simp_all add: s'_def taken_obj_def Let_def split: option.split)

lemma objects_ok_taken:
  assumes inv: "kmem_inv_but B base fl K A U qs s" and sl: "sl \<in> A" and i: "i < objs_per_slab (caches s (sl_cache (slabs s sl)))" "i \<notin> U sl"
  defines "k \<equiv> sl_cache (slabs s sl)"
  defines "node \<equiv> node_at (caches s k) (sl_page (slabs s sl)) i"
  assumes xs: "slist_at (snext s) (sl_objects (slabs s sl)) (node # xs)" "distinct (node # xs)"
    "set (node # xs) = node_at (caches s k) (sl_page (slabs s sl)) ` ({..<objs_per_slab (caches s k)} - U sl)"
  shows "objects_ok (taken_obj sl k node lks s) (insert i (U sl)) sl"
proof -
  let ?s = "taken_obj sl k node lks s" and ?c = "caches s k" and ?p = "sl_page (slabs s sl)"
  have env: "vm_env base fl (pm s)" and k: "on_cache ?c" and o: "objects_ok s (U sl) sl"
    using inv sl by (simp_all add: kmem_inv_def slab_ok_def k_def)
  have "slab_ok base s (U sl) sl" using inv sl by (simp add: kmem_inv_def)
  then obtain j where "slab_frame base s sl j" unfolding slab_ok_def by blast
  then have fr: "in_frame base (pm s) ?p j" by (simp add: slab_frame_def)
  have U: "U sl \<subseteq> {..<objs_per_slab ?c}" "sl_count (slabs s sl) = card (U sl)" "\<forall>a\<in>U sl. snext s (node_at ?c ?p a) = 0"
    using o by (auto simp: objects_ok_def Let_def k_def)
  note inj = node_at_inj [OF k _ _ page_room [OF env fr]]
  have "slist_at (snext ?s) (snext s node) xs"
    unfolding taken_obj_sel by (rule slist_get_top_at(2) [OF xs(1,2)])
  moreover have "set xs = node_at ?c ?p ` ({..<objs_per_slab ?c} - insert i (U sl))"
  proof -
    have "node \<notin> set xs" using xs(2) by simp
    then have "set xs = node_at ?c ?p ` ({..<objs_per_slab ?c} - U sl) - {node}" using xs(3) by auto
    also have "\<dots> = node_at ?c ?p ` ({..<objs_per_slab ?c} - insert i (U sl))"
      using inj i unfolding node_def k_def by blast
    finally show ?thesis .
  qed
  moreover have "snext ?s (node_at ?c ?p a) = 0" if "a \<in> insert i (U sl)" for a
    using that U(3) by (auto simp: taken_obj_sel node_def)
  moreover have "sl_count (slabs ?s sl) = card (insert i (U sl))"
    using U(1,2) i finite_subset [of "U sl"] by (simp add: taken_obj_sel)
  moreover have "insert i (U sl) \<subseteq> {..<objs_per_slab ?c}" using U(1) i by (auto simp: k_def)
  ultimately show ?thesis
    using xs(2) unfolding objects_ok_def Let_def by (auto simp: taken_obj_sel k_def intro!: exI [of _ xs])
qed

lemma finish_alloc:
  assumes inv: "kmem_inv_but {sl} base fl K A U qs s" and sl: "sl \<in> A"
  defines "k \<equiv> sl_cache (slabs s sl)"
  assumes at: "Link sl \<in> set (qs (Partial k))" and room: "card (U sl) < objs_per_slab (caches s k)"
  obtains i qs' s1 s2 where "count_obj k sl s = Some s1" and "caches s1 = caches s" and "pm_cpu (pm s1) = pm_cpu (pm s)"
    and "i < objs_per_slab (caches s k)" and "i \<notin> U sl"
    and "alloc_slab_obj k sl s1 = Some (node_at (caches s k) (sl_page (slabs s sl)) i + 8, s2)"
    and "kmem_inv base fl K A (U(sl := insert i (U sl))) qs' s2"
    and "pm_db (pm s2) = pm_db (pm s)" and "pm_cpu (pm s2) = pm_cpu (pm s)" and "caches s2 = caches s"
    and "pm_ram (pm s2) = (case constructor (caches s k) of None \<Rightarrow> id
      | Some f \<Rightarrow> f (node_at (caches s k) (sl_page (slabs s sl)) i + 8) (payload_size (caches s k))) (pm_ram (pm s))"
    and "\<And>t. sl_page (slabs s2 t) = sl_page (slabs s t) \<and> sl_cache (slabs s2 t) = sl_cache (slabs s t)"
proof -
  let ?c = "caches s k" and ?p = "sl_page (slabs s sl)"
  have K: "k \<in> K" and k: "on_cache ?c" and env: "vm_env base fl (pm s)" and ok: "slab_ok base s (U sl) sl"
    and wf: "wf_queues (cache_heads K) (Link ` A) qs (slinks s)"
    using inv sl by (simp_all add: kmem_inv_def k_def)
  then have o: "objects_ok s (U sl) sl" and l: "lock_free (sl_lock (slabs s sl))" by (simp_all add: slab_ok_def)
  obtain zs where zs: "slist_at (snext s) (sl_objects (slabs s sl)) zs" "distinct zs" "set zs = node_at ?c ?p ` ({..<objs_per_slab ?c} - U sl)"
    and U: "U sl \<subseteq> {..<objs_per_slab ?c}" "sl_count (slabs s sl) = card (U sl)"
    using o by (auto simp: objects_ok_def Let_def k_def)
  have fin: "finite (U sl)" using U(1) finite_subset by blast
  have "zs \<noteq> []"
  proof
    assume "zs = []"
    then have "{..<objs_per_slab ?c} \<subseteq> U sl" using zs(3) by auto
    then have "card {..<objs_per_slab ?c} \<le> card (U sl)" by (rule card_mono [OF fin])
    then have "objs_per_slab ?c \<le> card (U sl)" by simp
    then show False using room by simp
  qed
  then obtain x xs where x: "zs = x # xs" by (cases zs) auto
  then obtain i where i: "i < objs_per_slab ?c" "i \<notin> U sl" "x = node_at ?c ?p i" using zs(3) by force
  let ?full = "Suc (card (U sl)) = objs_per_slab ?c"
  define lks where "lks = (if ?full then queue_add (Full k) (Link sl) (snd (queue_del (Partial k) (Link sl) (slinks s))) else slinks s)"
  define qs' where "qs' = (if ?full then (\<lambda>r. remove1 (Link sl) (qs r))(Full k := remove1 (Link sl) (qs (Full k)) @ [Link sl]) else qs)"
  have heads: "Partial k \<in> cache_heads K" "Full k \<in> cache_heads K" using K by (simp_all add: cache_heads_def)
  have linked: "\<not> list_not_linked (Link sl) (slinks s)" by (rule wf_queues_linked [OF wf heads(1) at])
  have wf': "wf_queues (cache_heads K) (Link ` A) qs' lks"
    using wf move_queue(2) [OF wf _ heads(1) at heads(2)] sl by (simp add: qs'_def lks_def)
  define s1 where "s1 = upd_slab sl (sl_count_update Suc) (s\<lparr>slinks := lks\<rparr>)"
  have count: "count_obj k sl s = Some s1"
    using linked U(2) by (auto simp: count_obj_def s1_def lks_def slab_state Let_def intro!: state_eqI)
  let ?s2 = "taken_obj sl k x lks s"
  have s1: "caches s1 = caches s" "pm s1 = pm s" "snext s1 = snext s" "slabs s1 sl = (slabs s sl)\<lparr>sl_count := Suc (sl_count (slabs s sl))\<rparr>"
    by (simp_all add: s1_def)
  have size: "8 + payload_size ?c \<le> obj_size ?c"
  proof -
    have "unat (payload_size ?c) + 8 \<le> unat (obj_size ?c)" using k by (simp add: on_cache_def)
    moreover have "unat (8 + payload_size ?c) = 8 + unat (payload_size ?c)"
      using calculation unsigned_less [of "obj_size ?c", where ?'a = nat] by (subst unat_add_lem [THEN iffD1]) auto
    ultimately show ?thesis by (simp add: word_le_nat_alt)
  qed
  have obj: "alloc_slab_obj k sl s1 = Some (x + 8, ?s2)"
  proof -
    let ?t = "upd_slab sl (sl_objects_update (\<lambda>_. snext s1 x)) (s1\<lparr>snext := (snext s1)(x := 0)\<rparr>)"
    have "alloc_slab_obj k sl s1 = Some (x + 8, case constructor (caches s1 k) of None \<Rightarrow> ?t
        | Some f \<Rightarrow> upd_ram (f (x + 8) (payload_size (caches s1 k))) ?t)"
      by (rule alloc_slab_obj_on) (use k l zs x size s1 in \<open>simp_all add: on_cache_def\<close>)
    also have "?t = s\<lparr>slabs := (slabs s)(sl := (slabs s sl)\<lparr>sl_count := Suc (sl_count (slabs s sl)), sl_objects := snext s x\<rparr>),
                snext := (snext s)(x := 0), slinks := lks\<rparr>"
      by (auto simp: s1_def slab_state intro!: state_eqI)
    finally show ?thesis by (simp add: taken_obj_def Let_def s1 cong: option.case_cong)
  qed
  have "objects_ok ?s2 (insert i (U sl)) sl"
    using objects_ok_taken [OF inv sl, of i xs lks] i zs x by (simp add: k_def)
  moreover have "slab_frame base ?s2 sl j \<longleftrightarrow> slab_frame base s sl j" for j
    by (rule slab_frame_cong) (simp_all add: taken_obj_sel)
  moreover have "sl_page (slabs ?s2 sl) = ?p" "sl_lock (slabs ?s2 sl) = sl_lock (slabs s sl)"
    by (simp_all add: taken_obj_sel)
  ultimately have ok2: "slab_ok base ?s2 (insert i (U sl)) sl" using ok unfolding slab_ok_def by presburger
  have inv2: "kmem_inv base fl K A (U(sl := insert i (U sl))) qs' ?s2"
  proof (rule kmem_inv_step [OF inv _ _ sl])
    show "vm_env base fl (pm ?s2)" using env by (simp add: kept_env(1) [of "pm ?s2" "pm s"] taken_obj_sel)
    show "slab_frame base ?s2 t j" if "slab_frame base s t j" for t j
    proof -
      have "slab_frame base ?s2 t j \<longleftrightarrow> slab_frame base s t j"
        by (rule slab_frame_cong) (cases "t = sl"; simp add: taken_obj_sel)+
      then show ?thesis using that by simp
    qed
    show "wf_queues (cache_heads K) (Link ` A) qs' (slinks ?s2)" using wf' by (simp add: taken_obj_sel)
    have "card (insert i (U sl)) = Suc (card (U sl))" using fin i(2) by simp
    then show "Link sl \<in> set (qs' (queue_of ?s2 (insert i (U sl)) sl))"
      using at by (simp add: queue_of_def qs'_def taken_obj_sel Let_def k_def [symmetric])
    show "Link t \<in> set (qs' r)" if "t \<noteq> sl" "Link t \<in> set (qs r)" for t r using that by (auto simp: qs'_def)
  qed (use ok2 i in \<open>auto simp: taken_obj_sel k_def\<close>)
  have "sl_page (slabs ?s2 t) = sl_page (slabs s t) \<and> sl_cache (slabs ?s2 t) = sl_cache (slabs s t)" for t
    by (cases "t = sl") (simp_all add: taken_obj_sel)
  then show thesis
    by (intro that [OF count _ _ i(1,2) _ inv2]) (simp_all add: s1 obj taken_obj_sel i(3))
qed

section \<open>A page for a slab\<close>

lemma slab_page_run:
  assumes env: "vm_env base fl p" and room: "free_frames fl \<noteq> {}"
  obtains kv i p' fl' where "pgif_get_free_page_cluster base 0 mflags PAGE_STATE_UCASE_SLAB (pm_db p) (pm_ram p) (pm_cpu p) =
      Some (Inr kv, pm_db p', pm_ram p', pm_cpu p)"
    and "vm_env base fl' p'" and "free_frames fl' = free_frames fl - {i}" and "i \<in> free_frames fl"
    and "in_frame base p kv i" and "\<And>t j. in_frame base p' t j \<longleftrightarrow> in_frame base p t j"
    and "PAGE_IS_USED (frame_at (0, i) p')" and "\<not> PAGE_IS_RESERVED (frame_at (0, i) p')"
    and "\<not> PAGE_IS_CLUSTERED (frame_at (0, i) p')" and "PAGE_USED_BY_SLAB (frame_at (0, i) p')"
    and "pf_order (frame_at (0, i) p') = 0" and "pf_usecnt (frame_at (0, i) p') = 1"
    and "\<And>j. j \<notin> free_frames fl \<Longrightarrow> frame_at (0, j) p' = frame_at (0, j) p"
    and "pm_ram p' = (if mflags AND KM_SFLAGS_CLR_NONE = 0 then clear_memory kv 4096 (pm_ram p) else pm_ram p)"
    and "pm_cpu p' = pm_cpu p"
proof -
  note env' = env [unfolded vm_env_def]
  obtain j0 where "j0 \<in> free_frames fl" using room by blast
  then have ex: "\<exists>j. (2::nat) ^ 0 dvd j \<and> block 0 j \<subseteq> free_frames fl" by auto
  have usage: "PAGE_STATE_UCASE_SLAB \<in> page_usages" by (simp add: page_usages_def)
  have ord: "0 < PAGE_POOL_MAX_ORDER" by (simp add: PAGE_POOL_MAX_ORDER_def)
  have bound: "4096 * max_pfn (the_area p) + unat base < 2 ^ 64" using env' by linarith
  have last: "max_pfn (the_area p) - min_pfn (the_area p) - 1 \<notin> free_frames fl" using env' by blast
  let ?ram = "\<lambda>kv. if mflags AND KM_SFLAGS_CLR_NONE = 0 then clear_memory kv (push_bit 0 PAGE_SIZE) (pm_ram p) else pm_ram p"
  obtain i kv P fl' where get: "pgif_get_free_page_cluster base 0 mflags PAGE_STATE_UCASE_SLAB (pm_db p) (pm_ram p) (pm_cpu p) =
      Some (Inr kv, set_pool 0 P (pm_db p), ?ram kv, pm_cpu p)"
    and kv: "unat kv = unat base + 4096 * (min_pfn (the_area p) + i)" "min_pfn (the_area p) + i + 1 < max_pfn (the_area p)"
      "block 0 i \<subseteq> free_frames fl"
    and ok: "area_ok (set_pool 0 P (pm_db p)) 0 fl'" "free_frames fl' = free_frames fl - block 0 i"
    and P: "allocated 0 PAGE_STATE_UCASE_SLAB i P" "\<forall>j. j \<notin> free_frames fl \<longrightarrow> array P ! j = array (page_pool (the_area p)) ! j"
      "pool_min_pfn P = min_pfn (the_area p)" "map_counts P = map_counts (page_pool (the_area p))"
    using get_free_cluster_run [OF _ _ refl refl _ last bound usage ord ex] env' by metis
  define p' where "p' = p\<lparr>pm_db := set_pool 0 P (pm_db p), pm_ram := ?ram kv\<rparr>"
  have at: "the_area p' = (the_area p)\<lparr>page_pool := P\<rparr>"
    using env' by (simp add: p'_def)
  show thesis
  proof (rule that)
    show "pgif_get_free_page_cluster base 0 mflags PAGE_STATE_UCASE_SLAB (pm_db p) (pm_ram p) (pm_cpu p) =
      Some (Inr kv, pm_db p', pm_ram p', pm_cpu p)"
      using get by (simp add: p'_def)
    show "vm_env base fl' p'"
      using env' ok P(3,4) at by (simp add: vm_env_def) (simp add: p'_def)
    show "i \<in> free_frames fl" "free_frames fl' = free_frames fl - {i}"
      using kv(3) ok(2) by simp_all
    show "in_frame base p' t j \<longleftrightarrow> in_frame base p t j" for t j
      using at by (simp add: in_frame_def)
    show "in_frame base p kv i" using kv by (simp add: in_frame_def)
    have "pf_state (array P ! i) AND PAGE_STATE_UCASE_MASK = PAGE_STATE_UCASE_SLAB" using P(1) by (simp add: allocated_def)
    then have "pf_state (array P ! i) AND PAGE_STATE_UCASE_SLAB = PAGE_STATE_UCASE_SLAB"
    proof -
      assume a: "pf_state (array P ! i) AND PAGE_STATE_UCASE_MASK = PAGE_STATE_UCASE_SLAB"
      have "PAGE_STATE_UCASE_MASK AND PAGE_STATE_UCASE_SLAB = PAGE_STATE_UCASE_SLAB" by code_simp
      then show ?thesis using a by (metis and.assoc and.idem)
    qed
    moreover have "PAGE_STATE_UCASE_SLAB \<noteq> 0" by code_simp
    ultimately show "PAGE_USED_BY_SLAB (frame_at (0, i) p')" using at by (simp add: frame_at_def PAGE_USED_BY_SLAB_def)
    show "PAGE_IS_USED (frame_at (0, i) p')" "\<not> PAGE_IS_RESERVED (frame_at (0, i) p')" "\<not> PAGE_IS_CLUSTERED (frame_at (0, i) p')"
      "pf_order (frame_at (0, i) p') = 0" "pf_usecnt (frame_at (0, i) p') = 1"
      using P(1) at by (simp_all add: frame_at_def allocated_def REFCNT_INITIAL_VAL_def)
    show "frame_at (0, j) p' = frame_at (0, j) p" if "j \<notin> free_frames fl" for j
      using P(2) at that by (simp add: frame_at_def)
  qed (simp_all add: p'_def PAGE_SIZE_def)
qed

lemma slab_page_none:
  assumes env: "vm_env base fl p" and full: "free_frames fl = {}"
  shows "pgif_get_free_page_cluster base 0 mflags PAGE_STATE_UCASE_SLAB (pm_db p) (pm_ram p) (pm_cpu p) =
    Some (Inl ENOMEM, pm_db p, pm_ram p, pm_cpu p)"
proof (rule get_free_cluster_none)
  show "PAGE_STATE_UCASE_SLAB \<in> page_usages" by (simp add: page_usages_def)
qed (use env full in \<open>auto simp: vm_env_def block_def\<close>)

section \<open>Growth\<close>

lemma wf_queues_new:
  assumes wf: "wf_queues H N qs h" and n: "n \<notin> N" "n \<notin> H"
  shows "wf_queues H (insert n N) qs (list_init n h)" and "list_not_linked n (list_init n h)"
    and "\<forall>r\<in>H. n \<notin> set (qs r)"
proof -
  show out: "\<forall>r\<in>H. n \<notin> set (qs r)" using wf n by (auto simp: wf_queues_def)
  have other: "list_init n h a = h a" if "a \<noteq> n" for a
    using that by (simp add: list_init_def set_prev_def set_next_def Let_def)
  have "is_queue (list_init n h) q (qs q) \<longleftrightarrow> is_queue h q (qs q)" if "q \<in> H" for q
    by (rule is_queue_frame, rule other) (use that n(2) out in auto)
  moreover have "list_not_linked a (list_init n h) \<longleftrightarrow> list_not_linked a h" if "a \<noteq> n" for a
    using other [OF that] by (simp add: list_not_linked_def)
  ultimately show "wf_queues H (insert n N) qs (list_init n h)"
    using wf n unfolding wf_queues_def by (metis Int_insert_right insert_iff list_init_not_linked subset_insertI2)
qed simp

lemma fill_on_slab_at:
  assumes "slist_at (snext s) (sl_objects (slabs s sl)) xs" and "f = (\<lambda>a. kaddr + osize * of_nat a)"
    and "\<And>a. a \<in> {i..<i + n} \<Longrightarrow> f a \<noteq> 0 \<and> f a \<notin> set xs" and "inj_on f {i..<i + n}"
  defines "s' \<equiv> fill_on_slab sl kaddr osize n i s"
  shows "slist_at (snext s') (sl_objects (slabs s' sl)) (rev (map f [i..<i + n]) @ xs) \<and>
    (\<forall>a. a \<notin> f ` {i..<i + n} \<longrightarrow> snext s' a = snext s a) \<and>
    s' = s\<lparr>slabs := (slabs s)(sl := (slabs s sl)\<lparr>sl_objects := sl_objects (slabs s' sl)\<rparr>), snext := snext s'\<rparr>"
  unfolding s'_def using assms(1,3,4)
proof (induction n arbitrary: i s xs)
  case 0
  then show ?case by (auto intro!: state_eqI)
next
  case (Suc n)
  let ?x = "f i" and ?t = "add_free_obj sl (kaddr + osize * of_nat i) s"
  let ?s = "fill_on_slab sl kaddr osize n (Suc i) ?t"
  have t: "snext ?t = (snext s)(?x := sl_objects (slabs s sl))" "slabs ?t = (slabs s)(sl := (slabs s sl)\<lparr>sl_objects := ?x\<rparr>)"
    by (simp_all add: add_free_obj_def slist_add_def assms(2) upd_slab_def)
  have x: "?x \<noteq> 0" "?x \<notin> set xs" using Suc.prems(2) [of i] by auto
  have "slist_at (snext ?t) (sl_objects (slabs ?t sl)) (?x # xs)"
    unfolding t using slist_add_at [OF Suc.prems(1) x] by simp
  moreover have "f a \<noteq> 0 \<and> f a \<notin> set (?x # xs)" if a: "a \<in> {Suc i..<Suc i + n}" for a
  proof -
    have "f a \<noteq> ?x" using Suc.prems(3) a by (auto dest!: inj_onD [of f _ a i])
    then show ?thesis using Suc.prems(2) [of a] a by auto
  qed
  moreover have "inj_on f {Suc i..<Suc i + n}" using Suc.prems(3) by (rule inj_on_subset) auto
  ultimately have IH: "slist_at (snext ?s) (sl_objects (slabs ?s sl)) (rev (map f [Suc i..<Suc i + n]) @ ?x # xs)"
    "\<forall>a. a \<notin> f ` {Suc i..<Suc i + n} \<longrightarrow> snext ?s a = snext ?t a"
    "?s = ?t\<lparr>slabs := (slabs ?t)(sl := (slabs ?t sl)\<lparr>sl_objects := sl_objects (slabs ?s sl)\<rparr>), snext := snext ?s\<rparr>"
    using Suc.IH [of ?t "?x # xs" "Suc i"] by blast+
  have upt: "[i..<i + Suc n] = i # [Suc i..<Suc i + n]" by (simp add: upt_rec)
  have "snext ?s a = snext s a" if "a \<notin> f ` {i..<i + Suc n}" for a
  proof -
    have "a \<notin> f ` {Suc i..<Suc i + n}" "a \<noteq> ?x" using that by auto
    then show ?thesis using IH(2) t(1) by simp
  qed
  moreover have "?s = s\<lparr>slabs := (slabs s)(sl := (slabs s sl)\<lparr>sl_objects := sl_objects (slabs ?s sl)\<rparr>), snext := snext ?s\<rparr>"
    by (rule trans [OF IH(3)]) (auto simp: add_free_obj_def slist_add_def upd_slab_def intro!: state_eqI)
  moreover have "slist_at (snext ?s) (sl_objects (slabs ?s sl)) (rev (map f [i..<i + Suc n]) @ xs)"
    unfolding upt using IH(1) by simp
  ultimately show ?case unfolding fill_on_slab.simps by blast
qed

lemma slab_frame_used: "slab_frame base s t j \<Longrightarrow> vm_env base fl (pm s) \<Longrightarrow> j \<notin> free_frames fl"
  using used_not_free by (auto simp: slab_frame_def)

lemma spinlock_init_free: "lock_free spinlock_init"
  by (simp add: lock_free_def spinlock_init_def)

text \<open>The state after the growth, with the new slab in the queue \<open>partial\<close>.\<close>

lemma grow_run:
  assumes inv: "kmem_inv base fl K A U qs s" and k: "k \<in> K" and room: "free_frames fl \<noteq> {}"
  obtains sl i s1 fl' where "slab_kmem_cache_grow km base hw k mflags s = Some (Inr sl, s1)"
    and "list_not_linked (Link sl) (slinks s1)" and "caches s1 = caches s" and "pm_cpu (pm s1) = pm_cpu (pm s)"
    and "sl \<notin> A" and "sl_cache (slabs s1 sl) = k" and "i \<in> free_frames fl" and "free_frames fl' = free_frames fl - {i}"
    and "slab_frame base s1 sl i" and "\<And>t. t \<noteq> sl \<Longrightarrow> slabs s1 t = slabs s t"
    and "pm_ram (pm s1) = (if mflags AND KM_SFLAGS_CLR_NONE = 0 then clear_memory (sl_page (slabs s1 sl)) 4096 (pm_ram (pm s)) else pm_ram (pm s))"
    and "kmem_inv_but {sl} base fl' K (insert sl A) (U(sl := {})) (qs(Partial k := qs (Partial k) @ [Link sl]))
      ((upd_cache k (slab_count_update Suc) s1)\<lparr>slinks := queue_add (Partial k) (Link sl) (slinks s1)\<rparr>)"
proof -
  let ?c = "caches s k"
  have env: "vm_env base fl (pm s)" "base \<noteq> 0" and c: "on_cache ?c" and fin: "finite A"
    and wf: "wf_queues (cache_heads K) (Link ` A) qs (slinks s)"
    using inv k by (simp_all add: kmem_inv_def)
  obtain kv i p' fl' where get: "pgif_get_free_page_cluster base 0 mflags PAGE_STATE_UCASE_SLAB (pm_db (pm s)) (pm_ram (pm s)) (pm_cpu (pm s)) =
      Some (Inr kv, pm_db p', pm_ram p', pm_cpu (pm s))"
    and env': "vm_env base fl' p'" and fl': "free_frames fl' = free_frames fl - {i}" "i \<in> free_frames fl"
    and fr: "in_frame base (pm s) kv i" "\<And>t j. in_frame base p' t j \<longleftrightarrow> in_frame base (pm s) t j"
    and pf: "PAGE_IS_USED (frame_at (0, i) p')" "\<not> PAGE_IS_RESERVED (frame_at (0, i) p')"
      "\<not> PAGE_IS_CLUSTERED (frame_at (0, i) p')" "PAGE_USED_BY_SLAB (frame_at (0, i) p')"
      "pf_order (frame_at (0, i) p') = 0" "pf_usecnt (frame_at (0, i) p') = 1"
    and frames: "\<And>j. j \<notin> free_frames fl \<Longrightarrow> frame_at (0, j) p' = frame_at (0, j) (pm s)"
    and ram: "pm_ram p' = (if mflags AND KM_SFLAGS_CLR_NONE = 0 then clear_memory kv 4096 (pm_ram (pm s)) else pm_ram (pm s))"
    and cpu: "pm_cpu p' = pm_cpu (pm s)"
    using slab_page_run [OF env(1) room, of mflags] by metis
  define sl where "sl = kv + 3896"
  define s0 where "s0 = (init_slab_info k sl kv (s\<lparr>pm := p'\<rparr>))\<lparr>slabp := (slabp s)((0, i) := sl)\<rparr>"
  define s1 where "s1 = fill_on_slab sl kv (obj_size ?c) (objs_per_slab ?c) 0 s0"
  have p': "\<lparr>pm_db = pm_db p', pm_ram = pm_ram p', pm_cpu = pm_cpu (pm s)\<rparr> = p'"
    using cpu by (intro pmem.equality) simp_all
  have fr': "in_frame base p' kv i" using fr by simp
  have "kv + push_bit 0 PAGE_SIZE - sizeof_slab = sl" by (simp add: sl_def PAGE_SIZE_def sizeof_slab_def)
  then have run: "slab_kmem_cache_grow km base hw k mflags s = Some (Inr sl, s1)"
    using get c frame_of_run [OF env' fr'] p'
    by (simp add: slab_kmem_cache_grow_def on_cache_def Let_def s1_def s0_def init_slab_info_def)
  let ?node = "node_at ?c kv" and ?n = "objs_per_slab ?c"
  have room: "unat kv + 4096 < 2 ^ 64" by (rule page_room [OF env(1) fr(1)])
  have node: "?node = (\<lambda>a. kv + obj_size ?c * of_nat a)" by (simp add: node_at_def fun_eq_iff)
  have nodes: "?node a \<noteq> 0 \<and> ?node a \<notin> set []" if "a \<in> {0..<0 + ?n}" for a
    using node_at_nonzero [OF c _ env(1) fr(1) env(2)] that by simp
  have inj: "inj_on ?node {0..<0 + ?n}" by (rule inj_onI) (use node_at_inj [OF c _ _ room] in auto)
  have s0: "slabs s0 = (slabs s)(sl := \<lparr>sl_lock = spinlock_init, sl_cache = k, sl_objects = 0, sl_count = 0, sl_page = kv\<rparr>)"
    "slinks s0 = list_init (Link sl) (slinks s)" "caches s0 = caches s" "pm s0 = p'" "snext s0 = snext s"
    "slabp s0 = (slabp s)((0, i) := sl)"
    by (simp_all add: s0_def init_slab_info_def slist_init_head_def)
  have fill: "slist_at (snext s1) (sl_objects (slabs s1 sl)) (rev (map ?node [0..<?n]))"
    "\<And>a. a \<notin> ?node ` {0..<?n} \<Longrightarrow> snext s1 a = snext s a"
    "s1 = s0\<lparr>slabs := (slabs s0)(sl := (slabs s0 sl)\<lparr>sl_objects := sl_objects (slabs s1 sl)\<rparr>), snext := snext s1\<rparr>"
    using fill_on_slab_at [of s0 sl "[]", OF _ node nodes inj] s0 unfolding s1_def by simp_all
  have s1: "slabs s1 = (slabs s)(sl := \<lparr>sl_lock = spinlock_init, sl_cache = k, sl_objects = sl_objects (slabs s1 sl), sl_count = 0, sl_page = kv\<rparr>)"
    "slinks s1 = list_init (Link sl) (slinks s)" "caches s1 = caches s" "pm s1 = p'" "slabp s1 = (slabp s)((0, i) := sl)"
    using s0 by (subst fill(3), simp)+
  then have sl1: "slabs s1 sl = \<lparr>sl_lock = spinlock_init, sl_cache = k, sl_objects = sl_objects (slabs s1 sl), sl_count = 0, sl_page = kv\<rparr>"
    "\<And>t. t \<noteq> sl \<Longrightarrow> slabs s1 t = slabs s t" by (metis fun_upd_same, metis fun_upd_other)
  have sel: "sl_page (slabs s1 sl) = kv" "sl_cache (slabs s1 sl) = k" "sl_lock (slabs s1 sl) = spinlock_init" "sl_count (slabs s1 sl) = 0"
    by (subst sl1(1), simp)+
  have new: "sl \<notin> A"
  proof
    assume "sl \<in> A"
    then have ok: "slab_ok base s (U sl) sl" using inv by (simp add: kmem_inv_def)
    then obtain j where j: "slab_frame base s sl j" "sl = sl_page (slabs s sl) + 3896" by (auto simp: slab_ok_def)
    then have "sl_page (slabs s sl) = kv" by (simp add: sl_def)
    then have "i = j" using in_frame_unique fr(1) j(1) by (metis slab_frame_def)
    then show False using slab_frame_used [OF j(1) env(1)] fl'(2) by simp
  qed
  have frame: "slab_frame base s1 sl i"
    using fr' pf by (simp add: slab_frame_def sel s1(4,5))
  have here: "slab_ok base s1 {} sl"
  proof -
    have "distinct (rev (map ?node [0..<?n]))" using inj by (simp add: distinct_map)
    moreover have "set (rev (map ?node [0..<?n])) = ?node ` ({..<?n} - {})" by (auto simp: atLeast0LessThan)
    ultimately have "objects_ok s1 {} sl"
      using fill(1) by (auto simp: objects_ok_def sel s1(3) Let_def simp del: set_rev intro!: exI [of _ "rev (map ?node [0..<?n])"])
    then show ?thesis using frame unfolding slab_ok_def sel sl_def [symmetric] by (blast intro: spinlock_init_free)
  qed
  have there: "slab_ok base s1 (U t) t" if t: "t \<in> A" for t
  proof (rule slab_ok_cong)
    show ok: "slab_ok base s (U t) t" using inv t by (simp add: kmem_inv_def)
    have ne: "t \<noteq> sl" using t new by blast
    then show "slabs s1 t = slabs s t" by (rule sl1(2))
    have other: "j \<noteq> i" "j \<notin> free_frames fl" if "slab_frame base s t j" for j
      using slab_frame_used [OF that env(1)] fl'(2) by auto
    show "slab_frame base s1 t j" if "slab_frame base s t j" for j
      using that other [OF that] frames fr(2) by (simp add: slab_frame_def sl1(2) [OF ne] s1(4,5))
    let ?d = "caches s (sl_cache (slabs s t))" and ?p = "sl_page (slabs s t)"
    show "snext s1 (node_at ?d ?p a) = snext s (node_at ?d ?p a)" if a: "a < objs_per_slab ?d" for a
    proof (rule fill(2), rule notI)
      assume "node_at ?d ?p a \<in> ?node ` {0..<?n}"
      then obtain b where b: "b < ?n" "node_at ?d ?p a = ?node b" by auto
      obtain j where j: "slab_frame base s t j" using ok by (auto simp: slab_ok_def)
      then have frt: "in_frame base (pm s) ?p j" by (simp add: slab_frame_def)
      have d: "on_cache ?d" using inv t by (simp add: kmem_inv_def)
      note na = node_unat [OF d a page_room [OF env(1) frt]] and nb = node_unat [OF c b(1) room]
      have "j = i" by (rule pages_apart [OF frt fr(1) na(1) _ nb(1) _ b(2)]) (use na(2) nb(2) in simp_all)
      then show False using other(1) [OF j] by simp
    qed
  qed (simp_all add: s1(3))
  let ?s2 = "(upd_cache k (slab_count_update Suc) s1)\<lparr>slinks := queue_add (Partial k) (Link sl) (slinks s1)\<rparr>"
  have s2: "slabs ?s2 = slabs s1" "snext ?s2 = snext s1" "pm ?s2 = p'" "slabp ?s2 = slabp s1"
    "caches ?s2 = (caches s)(k := ?c\<lparr>slab_count := Suc (slab_count ?c)\<rparr>)"
    by (auto simp: upd_cache_def s1(3,4) intro!: fun_upd_val kmem_cache.equality)
  have ok2: "slab_ok base ?s2 V t" if "slab_ok base s1 V t" for V t
    by (rule slab_ok_cong [OF that]) (simp_all add: s2 s1(3) s1(4) slab_frame_def)
  have links: "wf_queues (cache_heads K) (insert (Link sl) (Link ` A)) qs (slinks s1)" "list_not_linked (Link sl) (slinks s1)"
    "\<forall>r\<in>cache_heads K. Link sl \<notin> set (qs r)"
    unfolding s1(2) using wf_queues_new [OF wf, of "Link sl"] new by (auto simp: cache_heads_def)
  have Pk: "Partial k \<in> cache_heads K" using k by (simp add: cache_heads_def)
  have wf2: "wf_queues (cache_heads K) (Link ` insert sl A) (qs(Partial k := qs (Partial k) @ [Link sl])) (slinks ?s2)"
    using kq.add [OF links(1) Pk _ links(3)] by simp
  have count: "slab_count (caches ?s2 k') = card {t \<in> insert sl A. sl_cache (slabs ?s2 t) = k'}" if k': "k' \<in> K" for k'
  proof -
    have "{t \<in> insert sl A. sl_cache (slabs ?s2 t) = k'} = (if k' = k then {sl} else {}) \<union> {t \<in> A. sl_cache (slabs s t) = k'}"
    proof -
      have "sl_cache (slabs ?s2 t) = sl_cache (slabs s t)" if "t \<in> A" for t
      proof -
        have "t \<noteq> sl" using that new by blast
        then show ?thesis using sl1(2) s2(1) by simp
      qed
      moreover have "sl_cache (slabs ?s2 sl) = k" using sel(2) s2(1) by simp
      ultimately show ?thesis using new by auto
    qed
    then show ?thesis using inv k' fin new s2(5) by (auto simp: kmem_inv_def)
  qed
  have "kmem_inv_but {sl} base fl' K (insert sl A) (U(sl := {})) (qs(Partial k := qs (Partial k) @ [Link sl])) ?s2"
    unfolding kmem_inv_but_def
  proof (intro conjI ballI impI)
    show "on_cache (caches ?s2 k')" if "k' \<in> K" for k'
      using inv that s2(5) by (auto simp: kmem_inv_def on_cache_def KMEM_CACHE_IS_ON_SLAB_def KMEM_CACHE_IS_OFF_SLAB_def)
    show "slab_ok base ?s2 ((U(sl := {})) t) t" if "t \<in> insert sl A" for t
      using ok2 here there that new by (cases "t = sl") auto
    show "sl_cache (slabs ?s2 t) \<in> K" if "t \<in> insert sl A" for t
      using that inv k sl1(2) sel(2) s2(1) by (cases "t = sl") (auto simp: kmem_inv_def)
    show "Link t \<in> set ((qs(Partial k := qs (Partial k) @ [Link sl])) (queue_of ?s2 ((U(sl := {})) t) t))"
      if "t \<in> insert sl A" "t \<notin> {sl}" for t
    proof -
      have t: "t \<in> A" "t \<noteq> sl" using that by auto
      have "queue_of ?s2 (U t) t = queue_of s (U t) t"
        using sl1(2) [OF t(2)] s2 by (simp add: queue_of_def Let_def)
      then show ?thesis using inv t by (auto simp: kmem_inv_def)
    qed
  qed (use env env' fin wf2 s2 count in auto)
  then show thesis
    by (intro that [OF run links(2) s1(3) _ new sel(2) fl'(2,1) frame sl1(2)]) (simp_all add: s1(4) cpu ram sel)
qed

end
