(* ===== verification/SlabLaws.thy ===== *)
theory SlabLaws
  imports SlabGrow PgtblEnter
begin

unbundle bit_operations_syntax

text \<open>
  Allocation from a cache, the layout of its slabs, and the properties of the slab allocator.
\<close>

section \<open>The choice of the slab\<close>

lemma queue_member:
  assumes inv: "kmem_inv base fl K A U qs s" and q: "q \<in> cache_heads K" and n: "n \<in> set (qs q)"
  obtains t where "n = Link t" and "t \<in> A" and "queue_of s (U t) t = q"
proof -
  have wf: "wf_queues (cache_heads K) (Link ` A) qs (slinks s)" using inv by (simp add: kmem_inv_def)
  from wf_queues_mem [OF wf q n] obtain t where t: "n = Link t" "t \<in> A" by auto
  have at: "Link t \<in> set (qs (queue_of s (U t) t))" and "sl_cache (slabs s t) \<in> K"
    using inv t(2) by (auto simp: kmem_inv_def)
  then have "queue_of s (U t) t \<in> cache_heads K" by (auto simp: queue_of_def cache_heads_def Let_def)
  from wf_queues_unique [OF wf this q at] n t show thesis by (auto intro: that)
qed

definition has_room :: "u64 set \<Rightarrow> (u64 \<Rightarrow> nat set) \<Rightarrow> nat \<Rightarrow> kmem \<Rightarrow> bool" where
  "has_room A U k s \<longleftrightarrow> (\<exists>sl\<in>A. sl_cache (slabs s sl) = k \<and> card (U sl) < objs_per_slab (caches s k))"

lemma objects_card:
  assumes inv: "kmem_inv_but B base fl K A U qs s" and t: "t \<in> A"
  shows "card (U t) \<le> objs_per_slab (caches s (sl_cache (slabs s t)))" and "finite (U t)"
proof -
  have "objects_ok s (U t) t" using inv t by (simp add: kmem_inv_def slab_ok_def)
  then have "U t \<subseteq> {..<objs_per_slab (caches s (sl_cache (slabs s t)))}" by (simp add: objects_ok_def Let_def)
  then show "card (U t) \<le> objs_per_slab (caches s (sl_cache (slabs s t)))" "finite (U t)"
    using card_mono [of "{..<objs_per_slab (caches s (sl_cache (slabs s t)))}" "U t"] finite_subset by auto
qed

lemma partial_member:
  assumes inv: "kmem_inv base fl K A U qs s" and k: "k \<in> K" and t: "t \<in> A" and q: "queue_of s (U t) t \<in> {Partial k, Free k}"
  shows "sl_cache (slabs s t) = k" and "card (U t) < objs_per_slab (caches s k)"
proof -
  show c: "sl_cache (slabs s t) = k" using q by (auto simp: queue_of_def Let_def split: if_splits)
  have "0 < objs_per_slab (caches s k)" using inv k by (simp add: kmem_inv_def on_cache_def)
  moreover have "card (U t) \<le> objs_per_slab (caches s k)" using objects_card(1) [OF inv t] c by simp
  ultimately show "card (U t) < objs_per_slab (caches s k)"
    using q c by (auto simp: queue_of_def Let_def split: if_splits)
qed

lemma has_room_queues:
  assumes inv: "kmem_inv base fl K A U qs s" and k: "k \<in> K"
  shows "has_room A U k s \<longleftrightarrow> qs (Partial k) \<noteq> [] \<or> qs (Free k) \<noteq> []"
proof
  assume "has_room A U k s"
  then obtain t where t: "t \<in> A" "sl_cache (slabs s t) = k" "card (U t) < objs_per_slab (caches s k)"
    by (auto simp: has_room_def)
  have "Link t \<in> set (qs (queue_of s (U t) t))" using inv t(1) by (simp add: kmem_inv_def)
  then show "qs (Partial k) \<noteq> [] \<or> qs (Free k) \<noteq> []"
    using t by (auto simp: queue_of_def Let_def split: if_splits)
next
  assume "qs (Partial k) \<noteq> [] \<or> qs (Free k) \<noteq> []"
  then obtain q n where q: "q \<in> {Partial k, Free k}" "n \<in> set (qs q)" by (metis insertCI list.set_intros(1) neq_Nil_conv)
  then have "q \<in> cache_heads K" using k by (auto simp: cache_heads_def)
  then obtain t where "t \<in> A" "queue_of s (U t) t = q" by (rule queue_member [OF inv _ q(2)])
  with partial_member [OF inv k] q(1) show "has_room A U k s" unfolding has_room_def by metis
qed

lemma queue_ref_top_at: "wf_queues H N qs h \<Longrightarrow> q \<in> H \<Longrightarrow> qs q = n # ns \<Longrightarrow> queue_ref_top q h = n"
  using kq.get_top [of H N qs h q n ns] by (simp add: queue_get_top_def Let_def)

text \<open>A slab of the cache with a free object.\<close>

lemma ref_slab_here:
  assumes inv: "kmem_inv base fl K A U qs s" and k: "k \<in> K" and room: "has_room A U k s"
  obtains sl qs1 lks where "ref_slab km base hw k mflags iflags (put_cache k l c s) =
      Some (Inr (Link sl, iflags), put_cache k l c (s\<lparr>slinks := lks\<rparr>))"
    and "sl \<in> A" and "sl_cache (slabs s sl) = k" and "card (U sl) < objs_per_slab (caches s k)"
    and "Link sl \<in> set (qs1 (Partial k))" and "kmem_inv_but {sl} base fl K A U qs1 (s\<lparr>slinks := lks\<rparr>)"
proof -
  have wf: "wf_queues (cache_heads K) (Link ` A) qs (slinks s)" using inv by (simp add: kmem_inv_def)
  have H: "Partial k \<in> cache_heads K" "Free k \<in> cache_heads K" using k by (simp_all add: cache_heads_def)
  show thesis
  proof (cases "qs (Partial k)")
    case (Cons n ns)
    then obtain t where t: "n = Link t" "t \<in> A" "queue_of s (U t) t = Partial k"
      using queue_member [OF inv H(1), of n] by auto
    have "queue_ref_top (Partial k) (slinks s) = n" by (rule queue_ref_top_at [OF wf H(1) Cons])
    then have run: "ref_slab km base hw k mflags iflags (put_cache k l c s) = Some (Inr (Link t, iflags), put_cache k l c (s\<lparr>slinks := slinks s\<rparr>))"
      using kq.is_empty [OF wf H(1)] Cons t(1) by (simp add: ref_slab_def)
    have "kmem_inv_but {t} base fl K A U qs (s\<lparr>slinks := slinks s\<rparr>)" using inv by (auto simp: kmem_inv_def)
    then show thesis
      using that [OF run t(2), of qs] partial_member [OF inv k t(2)] t Cons by simp
  next
    case Nil
    then obtain n ns where free: "qs (Free k) = n # ns" using room has_room_queues [OF inv k] by (cases "qs (Free k)") auto
    then obtain t where t: "n = Link t" "t \<in> A" "queue_of s (U t) t = Free k"
      using queue_member [OF inv H(2), of n] by auto
    let ?h = "snd (queue_get_top (Free k) (slinks s))" and ?qs = "qs(Free k := ns)"
    have top: "fst (queue_get_top (Free k) (slinks s)) = n" "wf_queues (cache_heads K) (Link ` A) ?qs ?h"
      using kq.get_top [OF wf H(2) free] by simp_all
    have out: "\<forall>r\<in>cache_heads K. n \<notin> set (?qs r)"
    proof
      fix r assume r: "r \<in> cache_heads K"
      show "n \<notin> set (?qs r)"
        using kq.wf_distinct [OF wf H(2)] wf_queues_unique [OF wf H(2) r, of n] free by auto
    qed
    have n: "n \<in> Link ` A" using t by simp
    have unlinked: "list_not_linked n ?h" by (rule wf_queues_unlinked [OF top(2) n out])
    let ?lks = "queue_add (Partial k) n ?h" and ?qs1 = "?qs(Partial k := ?qs (Partial k) @ [n])"
    have wf1: "wf_queues (cache_heads K) (Link ` A) ?qs1 ?lks" by (rule kq.add [OF top(2) H(1) n out])
    have take: "take_slab km base hw k mflags iflags (put_cache k l c s) = Some (Inr (n, iflags), put_cache k l c (s\<lparr>slinks := ?h\<rparr>))"
      using kq.is_empty [OF wf H(2)] free top(1) put_cache_push(1) [of "\<lambda>_. ?h"]
      by (simp add: take_slab_def case_prod_unfold)
    then have run: "ref_slab km base hw k mflags iflags (put_cache k l c s) =
        Some (Inr (Link t, iflags), put_cache k l c (s\<lparr>slinks := ?lks\<rparr>))"
      using kq.is_empty [OF wf H(1)] Nil unlinked t(1) by (simp add: ref_slab_def put_cache_push)
    have same: "slab_ok base (s\<lparr>slinks := ?lks\<rparr>) V u \<longleftrightarrow> slab_ok base s V u" "queue_of (s\<lparr>slinks := ?lks\<rparr>) V u = queue_of s V u" for V u
      by (simp_all add: slab_ok_def slab_frame_def objects_ok_def queue_of_def Let_def)
    have "Link u \<in> set (?qs1 q)" if "Link u \<in> set (qs q)" "u \<noteq> t" for u q
      using that free t(1) by auto
    then have "kmem_inv_but {t} base fl K A U ?qs1 (s\<lparr>slinks := ?lks\<rparr>)"
      using inv wf1 unfolding kmem_inv_but_def same by simp
    then show thesis
      using that [OF run t(2), of ?qs1] partial_member [OF inv k t(2)] t by simp
  qed
qed

text \<open>No slab has a free object.\<close>

lemma ref_slab_full:
  assumes inv: "kmem_inv base fl K A U qs s" and k: "k \<in> K" and full: "\<not> has_room A U k s"
  defines "f \<equiv> sstatus (pm_cpu (pm s))"
    and "P \<equiv> put_cache k (lock_taken (kc_lock (caches s k))) (rv64_cpu_disable_interrupt (pm_cpu (pm s)))"
  shows "free_frames fl = {} \<Longrightarrow> ref_slab km base hw k mflags f (P s) = Some (Inl ENOMEM, s)"
    and "free_frames fl \<noteq> {} \<Longrightarrow> slab_kmem_cache_grow km base hw k mflags s = Some (Inr sl, s1) \<Longrightarrow>
      caches s1 = caches s \<Longrightarrow> pm_cpu (pm s1) = pm_cpu (pm s) \<Longrightarrow> list_not_linked (Link sl) (slinks s1) \<Longrightarrow>
      ref_slab km base hw k mflags f (P s) =
        Some (Inr (Link sl, f), P ((upd_cache k (slab_count_update Suc) s1)\<lparr>slinks := queue_add (Partial k) (Link sl) (slinks s1)\<rparr>))"
proof -
  have wf: "wf_queues (cache_heads K) (Link ` A) qs (slinks s)" and env: "vm_env base fl (pm s)" and c: "on_cache (caches s k)"
    using inv k by (simp_all add: kmem_inv_def)
  have free: "lock_free (kc_lock (caches s k))" and order: "kc_order (caches s k) = 0" using c by (simp_all add: on_cache_def)
  have H: "Partial k \<in> cache_heads K" "Free k \<in> cache_heads K" using k by (simp_all add: cache_heads_def)
  have empty: "queue_is_empty (Partial k) (slinks s)" "queue_is_empty (Free k) (slinks s)"
    using has_room_queues [OF inv k] full kq.is_empty [OF wf H(1)] kq.is_empty [OF wf H(2)] by simp_all
  have unlock: "unlock_cache k f (P s) = Some s"
    unfolding f_def P_def by (rule cache_lock.leave_entered [OF free]) simp_all
  show "ref_slab km base hw k mflags f (P s) = Some (Inl ENOMEM, s)" if none: "free_frames fl = {}"
  proof -
    have "slab_kmem_cache_grow km base hw k mflags s = Some (Inl ENOMEM, s)"
      using slab_page_none [OF env none] order by (simp add: slab_kmem_cache_grow_def)
    then show ?thesis using empty unlock by (simp add: ref_slab_def take_slab_def P_def)
  qed
  show "ref_slab km base hw k mflags f (P s) =
      Some (Inr (Link sl, f), P ((upd_cache k (slab_count_update Suc) s1)\<lparr>slinks := queue_add (Partial k) (Link sl) (slinks s1)\<rparr>))"
    if grow: "slab_kmem_cache_grow km base hw k mflags s = Some (Inr sl, s1)" and same: "caches s1 = caches s" "pm_cpu (pm s1) = pm_cpu (pm s)"
      and new: "list_not_linked (Link sl) (slinks s1)"
  proof -
    have "lock_cache k s1 = Some (f, P s1)"
      using cache_lock.enter_free [of s1 k] free same by (simp add: f_def P_def)
    then have take: "take_slab km base hw k mflags f (P s) = Some (Inr (Link sl, f), P (upd_cache k (slab_count_update Suc) s1))"
      using empty(2) unlock grow put_cache_push(3) by (simp add: take_slab_def P_def)
    have "slinks (upd_cache k (slab_count_update Suc) s1) = slinks s1" by (simp add: upd_cache_def)
    then show ?thesis
      using empty(1) take new put_cache_push(1) by (simp add: ref_slab_def P_def)
  qed
qed

section \<open>Allocation\<close>

text \<open>What is left when the slab has been chosen: the object is counted and taken, and its memory is cleared.\<close>

definition fresh_object :: "kmem_cache \<Rightarrow> u32 \<Rightarrow> u64 \<Rightarrow> bytes \<Rightarrow> bytes" where
  "fresh_object c mflags obj m =
     (let m = (case constructor c of None \<Rightarrow> m | Some f \<Rightarrow> f obj (payload_size c) m)
      in if mflags AND KM_SFLAGS_CLR_NONE = 0 then filled obj (bytes_set obj (unat (payload_size c))) 0 m else m)"

lemma kmem_inv_ram:
  assumes inv: "kmem_inv_but B base fl K A U qs s"
  shows "kmem_inv_but B base fl K A U qs (upd_ram f s)"
proof -
  have db: "pm_db (pm (upd_ram f s)) = pm_db (pm s)" by simp
  have "slab_frame base (upd_ram f s) t j \<longleftrightarrow> slab_frame base s t j" for t j
    by (rule slab_frame_cong) simp_all
  then have "slab_ok base (upd_ram f s) V t \<longleftrightarrow> slab_ok base s V t" for V t
    by (simp add: slab_ok_def objects_ok_def)
  moreover have "queue_of (upd_ram f s) V t = queue_of s V t" for V t by (simp add: queue_of_def Let_def)
  ultimately show ?thesis using inv kept_env(1) [OF db] unfolding kmem_inv_but_def by simp
qed

lemma alloc_in:
  assumes inv: "kmem_inv_but {sl} base fl K A U qs s1" and sl: "sl \<in> A" and k: "sl_cache (slabs s1 sl) = k"
    and at: "Link sl \<in> set (qs (Partial k))" and room: "card (U sl) < objs_per_slab (caches s1 k)"
    and lock: "lock_cache k s = Some (f, P s)" and unlock: "\<And>t. kc_lock (caches t k) = kc_lock (caches s k) \<Longrightarrow> pm_cpu (pm t) = pm_cpu (pm s) \<Longrightarrow> unlock_cache k f (P t) = Some t"
    and P: "P = put_cache k l c" and ref: "ref_slab km base hw k mflags f (P s) = Some (Inr (Link sl, f), P s1)"
    and same: "kc_lock (caches s1 k) = kc_lock (caches s k)" "pm_cpu (pm s1) = pm_cpu (pm s)"
  obtains i qs' s' where "i < objs_per_slab (caches s1 k)" and "i \<notin> U sl"
    and "slab_kmem_cache_alloc_with km base hw k mflags s = Some (Inr (node_at (caches s1 k) (sl_page (slabs s1 sl)) i + 8), s')"
    and "kmem_inv base fl K A (U(sl := insert i (U sl))) qs' s'"
    and "pm_db (pm s') = pm_db (pm s1)" and "pm_cpu (pm s') = pm_cpu (pm s)" and "caches s' = caches s1"
    and "pm_ram (pm s') = fresh_object (caches s1 k) mflags (node_at (caches s1 k) (sl_page (slabs s1 sl)) i + 8) (pm_ram (pm s1))"
    and "\<And>t. sl_page (slabs s' t) = sl_page (slabs s1 t) \<and> sl_cache (slabs s' t) = sl_cache (slabs s1 t)"
proof -
  let ?obj = "\<lambda>i. node_at (caches s1 k) (sl_page (slabs s1 sl)) i + 8"
  obtain i qs' s2 s3 where i: "i < objs_per_slab (caches s1 k)" "i \<notin> U sl"
    and count: "count_obj k sl s1 = Some s2" "caches s2 = caches s1" "pm_cpu (pm s2) = pm_cpu (pm s1)"
    and obj: "alloc_slab_obj k sl s2 = Some (?obj i, s3)"
    and inv3: "kmem_inv base fl K A (U(sl := insert i (U sl))) qs' s3"
    and s3: "pm_db (pm s3) = pm_db (pm s1)" "pm_cpu (pm s3) = pm_cpu (pm s1)" "caches s3 = caches s1"
      "pm_ram (pm s3) = (case constructor (caches s1 k) of None \<Rightarrow> id | Some f \<Rightarrow> f (?obj i) (payload_size (caches s1 k))) (pm_ram (pm s1))"
      "\<And>t. sl_page (slabs s3 t) = sl_page (slabs s1 t) \<and> sl_cache (slabs s3 t) = sl_cache (slabs s1 t)"
    using finish_alloc [OF inv sl, unfolded k, OF at room] by metis
  let ?set = "\<lambda>m. snd (memset m (?obj i) 0 (payload_size (caches s1 k)))"
  define s' where "s' = (if mflags AND KM_SFLAGS_CLR_NONE = 0 then upd_ram ?set s3 else s3)"
  have "count_obj k sl (P s1) = Some (P s2)" using count(1) by (simp add: P count_obj_put)
  moreover have "unlock_cache k f (P s2) = Some s2" by (rule unlock) (simp_all add: count same)
  ultimately have run: "slab_kmem_cache_alloc_with km base hw k mflags s = Some (Inr (?obj i), s')"
    using lock ref obj s3(3) by (simp add: slab_kmem_cache_alloc_with_def s'_def)
  have inv': "kmem_inv base fl K A (U(sl := insert i (U sl))) qs' s'"
    using inv3 kmem_inv_ram [OF inv3] by (simp add: s'_def)
  have "pm_ram (pm s') = fresh_object (caches s1 k) mflags (?obj i) (pm_ram (pm s1))"
    by (simp add: s'_def fresh_object_def Let_def s3(4) memset_sets split: option.split)
  then show thesis
    by (intro that [OF i run inv']) (simp_all add: s'_def s3 same)
qed

text \<open>
  The object that an allocation gives out: its slab has room, or a page of the pool has become a new slab.
\<close>

definition alloc_result ::
    "u64 \<Rightarrow> (nat \<Rightarrow> nat list) \<Rightarrow> nat set \<Rightarrow> u64 set \<Rightarrow> (u64 \<Rightarrow> nat set) \<Rightarrow> nat \<Rightarrow> u32 \<Rightarrow> kmem \<Rightarrow> u64 \<Rightarrow> kmem \<Rightarrow> bool" where
  "alloc_result base fl K A U k mflags s obj s' \<longleftrightarrow>
     (\<exists>sl i qs' fl' A' V.
        obj = node_at (caches s k) (sl_page (slabs s' sl)) i + 8 \<and> i < objs_per_slab (caches s k) \<and> i \<notin> V \<and>
        kmem_inv base fl' K A' (U(sl := insert i V)) qs' s' \<and> sl \<in> A' \<and> sl_cache (slabs s' sl) = k \<and>
        pm_cpu (pm s') = pm_cpu (pm s) \<and>
        (if has_room A U k s
         then sl \<in> A \<and> V = U sl \<and> A' = A \<and> fl' = fl \<and> caches s' = caches s \<and> pm_db (pm s') = pm_db (pm s) \<and>
           pm_ram (pm s') = fresh_object (caches s k) mflags obj (pm_ram (pm s))
         else sl \<notin> A \<and> V = {} \<and> A' = insert sl A \<and>
           (\<exists>j\<in>free_frames fl. free_frames fl' = free_frames fl - {j} \<and> slab_frame base s' sl j) \<and>
           caches s' = (caches s)(k := (caches s k)\<lparr>slab_count := Suc (slab_count (caches s k))\<rparr>) \<and>
           pm_ram (pm s') = fresh_object (caches s k) mflags obj
             (if mflags AND KM_SFLAGS_CLR_NONE = 0 then clear_memory (sl_page (slabs s' sl)) 4096 (pm_ram (pm s)) else pm_ram (pm s))))"

lemma cache_alloc_inv:
  assumes inv: "kmem_inv base fl K A U qs s" and k: "k \<in> K"
  shows "\<not> has_room A U k s \<Longrightarrow> free_frames fl = {} \<Longrightarrow> slab_kmem_cache_alloc_with km base hw k mflags s = Some (Inl ENOMEM, s)"
    and "has_room A U k s \<or> free_frames fl \<noteq> {} \<Longrightarrow> \<exists>obj s'. slab_kmem_cache_alloc_with km base hw k mflags s = Some (Inr obj, s') \<and>
      alloc_result base fl K A U k mflags s obj s'"
proof -
  let ?f = "sstatus (pm_cpu (pm s))" and ?l = "lock_taken (kc_lock (caches s k))" and ?c = "rv64_cpu_disable_interrupt (pm_cpu (pm s))"
  let ?P = "put_cache k ?l ?c"
  have free: "lock_free (kc_lock (caches s k))" using inv k by (simp add: kmem_inv_def on_cache_def)
  have lock: "lock_cache k s = Some (?f, ?P s)" by (rule cache_lock.enter_free [OF free])
  have unlock: "unlock_cache k ?f (?P t) = Some t" if "kc_lock (caches t k) = kc_lock (caches s k)" "pm_cpu (pm t) = pm_cpu (pm s)" for t
    using cache_lock.leave_entered [OF free] that by simp
  show "slab_kmem_cache_alloc_with km base hw k mflags s = Some (Inl ENOMEM, s)" if "\<not> has_room A U k s" "free_frames fl = {}"
    using lock ref_slab_full(1) [OF inv k that] by (simp add: slab_kmem_cache_alloc_with_def)
  show "\<exists>obj s'. slab_kmem_cache_alloc_with km base hw k mflags s = Some (Inr obj, s') \<and>
      alloc_result base fl K A U k mflags s obj s'" if some: "has_room A U k s \<or> free_frames fl \<noteq> {}"
  proof (cases "has_room A U k s")
    case True
    obtain sl qs1 lks where ref: "ref_slab km base hw k mflags ?f (?P s) = Some (Inr (Link sl, ?f), ?P (s\<lparr>slinks := lks\<rparr>))"
      and sl: "sl \<in> A" "sl_cache (slabs s sl) = k" "card (U sl) < objs_per_slab (caches s k)" "Link sl \<in> set (qs1 (Partial k))"
      and inv1: "kmem_inv_but {sl} base fl K A U qs1 (s\<lparr>slinks := lks\<rparr>)"
      by (rule ref_slab_here [OF inv k True])
    let ?s1 = "s\<lparr>slinks := lks\<rparr>" and ?obj = "\<lambda>i. node_at (caches s k) (sl_page (slabs s sl)) i + 8"
    have s1: "sl_cache (slabs ?s1 sl) = k" "card (U sl) < objs_per_slab (caches ?s1 k)"
      "kc_lock (caches ?s1 k) = kc_lock (caches s k)" "pm_cpu (pm ?s1) = pm_cpu (pm s)"
      using sl by simp_all
    obtain i qs' s' where got: "i < objs_per_slab (caches ?s1 k)" "i \<notin> U sl"
      "slab_kmem_cache_alloc_with km base hw k mflags s = Some (Inr (node_at (caches ?s1 k) (sl_page (slabs ?s1 sl)) i + 8), s')"
      "kmem_inv base fl K A (U(sl := insert i (U sl))) qs' s'"
      "pm_db (pm s') = pm_db (pm ?s1)" "pm_cpu (pm s') = pm_cpu (pm s)" "caches s' = caches ?s1"
      "pm_ram (pm s') = fresh_object (caches ?s1 k) mflags (node_at (caches ?s1 k) (sl_page (slabs ?s1 sl)) i + 8) (pm_ram (pm ?s1))"
      "\<And>t. sl_page (slabs s' t) = sl_page (slabs ?s1 t) \<and> sl_cache (slabs s' t) = sl_cache (slabs ?s1 t)"
      by (rule alloc_in [OF inv1 sl(1) s1(1) sl(4) s1(2) lock unlock refl ref s1(3,4)]) blast+
    then have i: "i < objs_per_slab (caches s k)" "i \<notin> U sl"
      and run: "slab_kmem_cache_alloc_with km base hw k mflags s = Some (Inr (?obj i), s')"
      and inv': "kmem_inv base fl K A (U(sl := insert i (U sl))) qs' s'"
      and s': "pm_db (pm s') = pm_db (pm s)" "pm_cpu (pm s') = pm_cpu (pm s)" "caches s' = caches s"
        "pm_ram (pm s') = fresh_object (caches s k) mflags (?obj i) (pm_ram (pm s))"
        "\<And>t. sl_page (slabs s' t) = sl_page (slabs s t) \<and> sl_cache (slabs s' t) = sl_cache (slabs s t)"
      by simp_all
    have "alloc_result base fl K A U k mflags s (?obj i) s'"
      unfolding alloc_result_def using i inv' s' sl(1,2) True
      by (intro exI [of _ sl] exI [of _ i] exI [of _ qs'] exI [of _ fl] exI [of _ A] exI [of _ "U sl"]) simp
    with run show ?thesis by blast
  next
    case False
    then have room: "free_frames fl \<noteq> {}" using some by simp
    obtain sl j s1 fl' where grow: "slab_kmem_cache_grow km base hw k mflags s = Some (Inr sl, s1)"
      and new: "list_not_linked (Link sl) (slinks s1)" and same: "caches s1 = caches s" "pm_cpu (pm s1) = pm_cpu (pm s)"
      and sl: "sl \<notin> A" "sl_cache (slabs s1 sl) = k" and j: "j \<in> free_frames fl" "free_frames fl' = free_frames fl - {j}"
        "slab_frame base s1 sl j"
      and ram: "pm_ram (pm s1) = (if mflags AND KM_SFLAGS_CLR_NONE = 0 then clear_memory (sl_page (slabs s1 sl)) 4096 (pm_ram (pm s)) else pm_ram (pm s))"
      and inv1: "kmem_inv_but {sl} base fl' K (insert sl A) (U(sl := {})) (qs(Partial k := qs (Partial k) @ [Link sl]))
        ((upd_cache k (slab_count_update Suc) s1)\<lparr>slinks := queue_add (Partial k) (Link sl) (slinks s1)\<rparr>)"
      by (rule grow_run [OF inv k room])
    let ?s2 = "(upd_cache k (slab_count_update Suc) s1)\<lparr>slinks := queue_add (Partial k) (Link sl) (slinks s1)\<rparr>"
    have s2: "slabs ?s2 = slabs s1" "pm ?s2 = pm s1" "slabp ?s2 = slabp s1"
      "caches ?s2 = (caches s)(k := (caches s k)\<lparr>slab_count := Suc (slab_count (caches s k))\<rparr>)"
      by (auto simp: upd_cache_def same intro!: fun_upd_val kmem_cache.equality)
    have ref: "ref_slab km base hw k mflags ?f (?P s) = Some (Inr (Link sl, ?f), ?P ?s2)"
      by (rule ref_slab_full(2) [OF inv k False room grow same new])
    have ck: "objs_per_slab (caches ?s2 k) = objs_per_slab (caches s k)" "kc_lock (caches ?s2 k) = kc_lock (caches s k)"
      "fresh_object (caches ?s2 k) = fresh_object (caches s k)" "node_at (caches ?s2 k) = node_at (caches s k)"
      unfolding s2 by (simp_all add: fresh_object_def node_at_def fun_eq_iff Let_def cong: option.case_cong)
    have pos: "0 < objs_per_slab (caches s k)" using inv k by (simp add: kmem_inv_def on_cache_def)
    let ?obj = "\<lambda>i. node_at (caches s k) (sl_page (slabs s1 sl)) i + 8"
    let ?U = "U(sl := {})"
    have pre: "sl \<in> insert sl A" "sl_cache (slabs ?s2 sl) = k" "Link sl \<in> set ((qs(Partial k := qs (Partial k) @ [Link sl])) (Partial k))"
      "card (?U sl) < objs_per_slab (caches ?s2 k)" "kc_lock (caches ?s2 k) = kc_lock (caches s k)" "pm_cpu (pm ?s2) = pm_cpu (pm s)"
      unfolding ck s2(1,2) using sl(2) pos same by simp_all
    obtain i qs' s' where got: "i < objs_per_slab (caches ?s2 k)" "i \<notin> ?U sl"
      "slab_kmem_cache_alloc_with km base hw k mflags s = Some (Inr (node_at (caches ?s2 k) (sl_page (slabs ?s2 sl)) i + 8), s')"
      "kmem_inv base fl' K (insert sl A) (?U(sl := insert i (?U sl))) qs' s'"
      "pm_db (pm s') = pm_db (pm ?s2)" "pm_cpu (pm s') = pm_cpu (pm s)" "caches s' = caches ?s2"
      "pm_ram (pm s') = fresh_object (caches ?s2 k) mflags (node_at (caches ?s2 k) (sl_page (slabs ?s2 sl)) i + 8) (pm_ram (pm ?s2))"
      "\<And>t. sl_page (slabs s' t) = sl_page (slabs ?s2 t) \<and> sl_cache (slabs s' t) = sl_cache (slabs ?s2 t)"
      by (rule alloc_in [OF inv1 pre(1,2,3,4) lock unlock refl ref pre(5,6)]) blast+
    note got' = got [unfolded ck, unfolded s2]
    have inv': "kmem_inv base fl' K (insert sl A) (U(sl := {i})) qs' s'" using got(4) by simp
    note i = got'(1) and run = got'(3)
    have s': "pm_db (pm s') = pm_db (pm s1)" "pm_cpu (pm s') = pm_cpu (pm s)"
      "caches s' = (caches s)(k := (caches s k)\<lparr>slab_count := Suc (slab_count (caches s k))\<rparr>)"
      "pm_ram (pm s') = fresh_object (caches s k) mflags (?obj i) (pm_ram (pm s1))"
      "\<And>t. sl_page (slabs s' t) = sl_page (slabs s1 t) \<and> sl_cache (slabs s' t) = sl_cache (slabs s1 t)"
      by (rule got'(5-9))+
    have here: "slab_ok base s' {i} sl" using inv' by (simp add: kmem_inv_def)
    then obtain j' where j': "slab_frame base s' sl j'" unfolding slab_ok_def by blast
    have "in_frame base (pm s') (sl_page (slabs s' sl)) j' \<longleftrightarrow> in_frame base (pm s1) (sl_page (slabs s1 sl)) j'"
      using kept_env(2) [OF s'(1)] s'(5) by simp
    then have "j' = j" using j' j(3) in_frame_unique by (metis slab_frame_def)
    then have fr: "slab_frame base s' sl j" using j' by simp
    have "alloc_result base fl K A U k mflags s (?obj i) s'"
      unfolding alloc_result_def using i inv' s' sl fr j(1,2) False ram s2(4)
      by (intro exI [of _ sl] exI [of _ i] exI [of _ qs'] exI [of _ fl'] exI [of _ "insert sl A"] exI [of _ "{}"]) auto
    with run show ?thesis by blast
  qed
qed

section \<open>The layout of a slab with its data inside\<close>

lemma roundup_8: "unat x + 7 < 2 ^ 64 \<Longrightarrow> unat (roundup_align x 8) = (unat x + 7) div 8 * 8" for x :: u64
proof -
  assume room: "unat x + 7 < 2 ^ 64"
  have seven: "(7 :: u64) = mask 3" by (simp add: mask_eq_exp_minus_1)
  have "roundup_align x 8 = (x + 7) AND NOT (mask 3)"
    by (simp add: roundup_align_def truncate_align_def flip: seven)
  also have "\<dots> = push_bit 3 (drop_bit 3 (x + 7))"
    by (rule bit_word_eqI) (auto simp: bit_simps)
  finally have eq: "roundup_align x 8 = push_bit 3 (drop_bit 3 (x + 7))" .
  have "unat (roundup_align x 8) = take_bit 64 (unat (drop_bit 3 (x + 7)) * 8)"
    unfolding eq unsigned_push_bit_eq by (simp add: push_bit_nat_def del: push_bit_of_nat)
  also have "unat (drop_bit 3 (x + 7)) = (unat x + 7) div 8"
    using room by (simp add: unsigned_drop_bit_eq drop_bit_eq_div unat_word_ariths)
  finally show ?thesis using room by (simp add: take_bit_nat_eq_self)
qed

lemma calc_slab_size_on:
  assumes small: "unat psize < 512" and flags: "flags AND KM_SFLAGS_COLORING = 0" "flags AND KM_SFLAGS_ALIGN_HW = 0"
    and c: "lock_free (kc_lock c)" "payload_size c = psize"
  obtains c' where "calc_slab_size hw c psize 0 flags = Some (Inr (), c')" and "on_cache c'" and "payload_size c' = psize"
    and "slab_count c' = slab_count c" and "unat (obj_size c') = (unat psize + 15) div 8 * 8"
    and "objs_per_slab c' = 3896 div unat (obj_size c')"
proof -
  define osize where "osize = roundup_align (psize + 8) 8"
  define fl where "fl = KMEM_CACHE_SFLAGS_MARK_ON_SLAB (flags AND KM_SFLAGS_ARGS)"
  define n where "n = unat ((PAGE_SIZE - sizeof_slab) div osize)"
  have p8: "unat (psize + 8) = unat psize + 8" using small by (subst unat_add_lem [THEN iffD1]) simp_all
  have os: "unat osize = (unat psize + 15) div 8 * 8"
    unfolding osize_def using small p8 by (subst roundup_8) simp_all
  have n: "n = 3896 div unat osize"
    by (simp add: n_def PAGE_SIZE_def sizeof_slab_def unat_div)
  let ?c' = "c\<lparr>kc_align := 0, kc_sflags := fl, obj_size := osize, kc_order := 0, objs_per_slab := n\<rparr>"
  have "(flags AND KM_SFLAGS_ARGS) AND KM_SFLAGS_COLORING = 0"
    using flags(1) by (metis and.assoc and.commute and_zero_eq)
  moreover have "psize < 512" using small by (simp add: word_less_nat_alt)
  ultimately have run: "calc_slab_size hw c psize 0 flags = Some (Inr (), ?c')"
    using flags(2) by (simp add: calc_slab_size_def Let_def PAGE_SIZE_def KM_SLAB_TYPE_DIVISOR_def
        sizeof_kmem_s_bufctl_def SLAB_BUFCTL_POINTER_SIZE_def osize_def fl_def n_def)
  have le: "unat psize + 8 \<le> unat osize" "unat osize \<le> 520" unfolding os using small by presburger+
  then have "0 < n" unfolding n by (simp add: div_greater_zero_iff)
  moreover have "n * unat osize \<le> 3896" unfolding n by (rule div_times_less_eq_dividend)
  moreover have "fl AND KM_SFLAGS_OFF_SLAB = 0"
    by (simp add: fl_def KMEM_CACHE_SFLAGS_MARK_ON_SLAB_def and.assoc)
  ultimately have "on_cache ?c'"
    using c le by (simp add: on_cache_def KMEM_CACHE_IS_ON_SLAB_def KMEM_CACHE_IS_OFF_SLAB_def)
  then show thesis by (intro that [OF run]) (simp_all add: c os n)
qed

section \<open>Creation\<close>

lemma wf_queues_init_head:
  assumes wf: "wf_queues H N qs h" and q: "q \<notin> N" "q \<notin> H"
  shows "wf_queues H N qs (queue_init q h)" and "wf_queues (insert q H) N (qs(q := [])) (queue_init q h)"
proof -
  have other: "queue_init q h a = h a" if "a \<noteq> q" for a
    using that by (simp add: queue_init_def set_prev_def set_next_def Let_def)
  have queues: "is_queue (queue_init q h) r (qs r)" if r: "r \<in> H" for r
  proof -
    have "is_queue (queue_init q h) r (qs r) \<longleftrightarrow> is_queue h r (qs r)"
      by (rule is_queue_frame, rule other) (use r q wf_queues_mem [OF wf r] in auto)
    then show ?thesis using wf_queues_is_queue [OF wf r] by simp
  qed
  have links: "list_not_linked n (queue_init q h) \<longleftrightarrow> list_not_linked n h" if "n \<in> N" for n
    proof -
    have "n \<noteq> q" using that q(1) by blast
    from other [OF this] show ?thesis by (simp add: list_not_linked_def)
  qed
  show wf1: "wf_queues H N qs (queue_init q h)" using wf queues links by (simp add: wf_queues_def)
  have "is_queue (queue_init q h) q []" by (simp add: is_queue_def queue_init_def set_prev_def set_next_def)
  then show "wf_queues (insert q H) N (qs(q := [])) (queue_init q h)"
    using wf1 q unfolding wf_queues_def by auto
qed

text \<open>A new cache without alignment, colouring and objects of 512 bytes or more.\<close>

lemma cache_create_inv:
  assumes inv: "kmem_inv base fl K A U qs s" and k: "k \<notin> K"
    and small: "unat psize < 512" and flags: "flags AND KM_SFLAGS_COLORING = 0" "flags AND KM_SFLAGS_ALIGN_HW = 0"
  obtains s' where "slab_kmem_cache_create hw k psize 0 lim flags ctor dtor s = Some (Inr (), s')"
    and "kmem_inv base fl (insert k K) A U (qs(Partial k := [], Full k := [], Free k := [])) s'"
    and "pm s' = pm s" and "\<And>i. i \<noteq> k \<Longrightarrow> caches s' i = caches s i" and "payload_size (caches s' k) = psize"
    and "obj_size (caches s' k) = of_nat ((unat psize + 15) div 8 * 8)"
    and "objs_per_slab (caches s' k) = 3896 div ((unat psize + 15) div 8 * 8)"
proof -
  let ?c = "\<lparr>kc_lock = spinlock_init, payload_size = psize, obj_size = 0, kc_order = 0, kc_align = 0, color_offset = 0,
        color_num = 0, color_index = 0, limits = lim, slab_count = 0, objs_per_slab = 0, kc_sflags = 0,
        constructor = ctor, destructor = dtor\<rparr>"
  have "lock_free (kc_lock ?c)" "payload_size ?c = psize" by (simp_all add: lock_free_def spinlock_init_def)
  from calc_slab_size_on [OF small flags this, of hw] obtain c' where c': "calc_slab_size hw ?c psize 0 flags = Some (Inr (), c')"
      "on_cache c'" "payload_size c' = psize" "slab_count c' = 0" "unat (obj_size c') = (unat psize + 15) div 8 * 8"
      "objs_per_slab c' = 3896 div unat (obj_size c')"
    by auto
  let ?h = "queue_init (Free k) (queue_init (Full k) (queue_init (Partial k) (slinks s)))"
  let ?qs = "qs(Partial k := [], Full k := [], Free k := [])"
  let ?s = "s\<lparr>caches := (caches s)(k := c'), slinks := ?h\<rparr>"
  have run: "slab_kmem_cache_create hw k psize 0 lim flags ctor dtor s = Some (Inr (), ?s)"
    by (simp add: slab_kmem_cache_create_def Let_def c')
  have wf: "wf_queues (cache_heads K) (Link ` A) qs (slinks s)" using inv by (simp add: kmem_inv_def)
  have new: "Partial k \<notin> cache_heads K" "Full k \<notin> cache_heads K" "Free k \<notin> cache_heads K" using k by (auto simp: cache_heads_def)
  have wf1: "wf_queues (insert (Partial k) (cache_heads K)) (Link ` A) (qs(Partial k := [])) (queue_init (Partial k) (slinks s))"
    by (rule wf_queues_init_head(2) [OF wf]) (use new in auto)
  have wf2: "wf_queues (insert (Full k) (insert (Partial k) (cache_heads K))) (Link ` A) (qs(Partial k := [], Full k := []))
      (queue_init (Full k) (queue_init (Partial k) (slinks s)))"
    by (rule wf_queues_init_head(2) [OF wf1]) (use new in auto)
  have "wf_queues (insert (Free k) (insert (Full k) (insert (Partial k) (cache_heads K)))) (Link ` A) ?qs ?h"
    by (rule wf_queues_init_head(2) [OF wf2]) (use new in auto)
  moreover have "insert (Free k) (insert (Full k) (insert (Partial k) (cache_heads K))) = cache_heads (insert k K)"
    by (auto simp: cache_heads_def)
  ultimately have wf': "wf_queues (cache_heads (insert k K)) (Link ` A) ?qs ?h" by simp
  have old: "sl_cache (slabs s sl) \<in> K" "sl_cache (slabs s sl) \<noteq> k" if "sl \<in> A" for sl
    using inv k that by (auto simp: kmem_inv_def)
  have slab: "slab_ok base ?s (U sl) sl" "Link sl \<in> set (?qs (queue_of ?s (U sl) sl))" if sl: "sl \<in> A" for sl
  proof -
    have "slab_ok base s (U sl) sl" "Link sl \<in> set (qs (queue_of s (U sl) sl))" using inv sl by (auto simp: kmem_inv_def)
    moreover have "objects_ok ?s (U sl) sl \<longleftrightarrow> objects_ok s (U sl) sl" "slab_frame base ?s sl j \<longleftrightarrow> slab_frame base s sl j" for j
      using old(2) [OF sl] by (simp_all add: objects_ok_def slab_frame_def Let_def)
    moreover have "?qs (queue_of ?s (U sl) sl) = qs (queue_of s (U sl) sl)"
      using old(2) [OF sl] by (simp add: queue_of_def Let_def)
    ultimately show "slab_ok base ?s (U sl) sl" "Link sl \<in> set (?qs (queue_of ?s (U sl) sl))"
      by (simp_all add: slab_ok_def)
  qed
  have "{sl \<in> A. sl_cache (slabs s sl) = k} = {}" using old(2) by auto
  then have none: "card {sl \<in> A. sl_cache (slabs s sl) = k} = 0" by simp
  have inv': "kmem_inv base fl (insert k K) A U ?qs ?s"
    using inv wf' slab old c'(2,4) none k unfolding kmem_inv_def by auto
  show thesis
    by (rule that [OF run inv']) (use c'(3,5,6) in \<open>simp_all flip: c'(5)\<close>)
qed

lemma kfree_slab:
  assumes inv: "kmem_inv base fl K A U qs s" and sl: "sl \<in> A" and i: "i \<in> U sl"
  defines "obj \<equiv> node_at (caches s (sl_cache (slabs s sl))) (sl_page (slabs s sl)) i + 8"
  shows "kfree base obj s = slab_kmem_cache_free base obj s"
proof -
  let ?c = "caches s (sl_cache (slabs s sl))" and ?p = "sl_page (slabs s sl)"
  have c: "on_cache ?c" and env: "vm_env base fl (pm s)" and base: "base \<noteq> 0" and ok: "slab_ok base s (U sl) sl"
    using inv sl by (auto simp: kmem_inv_def)
  obtain j where j: "slab_frame base s sl j" and o: "objects_ok s (U sl) sl" using ok by (auto simp: slab_ok_def)
  have fr: "in_frame base (pm s) ?p j" and used: "PAGE_USED_BY_SLAB (frame_at (0, j) (pm s))" "\<not> PAGE_IS_CLUSTERED (frame_at (0, j) (pm s))"
    using j by (simp_all add: slab_frame_def)
  have i': "i < objs_per_slab ?c" using o i by (auto simp: objects_ok_def Let_def)
  note u = node_unat [OF c i' page_room [OF env fr]]
  have a: "unat obj = unat ?p + (unat (obj_size ?c) * i + 8)" unfolding obj_def by (rule u(3))
  have "8 \<le> unat (obj_size ?c)" using c by (simp add: on_cache_def)
  then have at: "frame_of base obj (pm s) = Some ((0, j), pm s)"
    using frame_of_inside [OF env fr a] u(2) by simp
  then obtain rc db cp where g: "pfdb_kvaddr_to_page_frame base obj (pm_db (pm s)) (pm_cpu (pm s)) = Some (rc, db, cp)"
    by (cases "pfdb_kvaddr_to_page_frame base obj (pm_db (pm s)) (pm_cpu (pm s))") (auto simp: frame_of_def)
  then have f: "pfdb_kvaddr_to_page_frame base obj (pm_db (pm s)) (pm_cpu (pm s)) = Some (Inr (0, j), db, cp)"
      "(pm s)\<lparr>pm_db := db, pm_cpu := cp\<rparr> = pm s"
    using at by (cases rc; simp add: frame_of_def)+
  have "obj \<noteq> 0" using a by (metis add_is_0 unat_0 zero_neq_numeral)
  then show ?thesis
    using used by (simp add: kfree_def f(1) Let_def f(2) cluster_head_def)
qed

lemma prealloc_size: "i < SLAB_PREALLOC_CACHE_NR \<Longrightarrow> sz \<le> push_bit i SLAB_PREALLOC_BASE \<longleftrightarrow> unat sz \<le> 8 * 2 ^ i"
proof -
  assume "i < SLAB_PREALLOC_CACHE_NR"
  then have "i < 14" by (simp add: SLAB_PREALLOC_CACHE_NR_def)
  then have "(8 :: nat) * 2 ^ i \<le> 8 * 2 ^ 13" by (intro mult_le_mono2 power_increasing) simp_all
  moreover have "push_bit i SLAB_PREALLOC_BASE = of_nat (8 * 2 ^ i)"
    by (simp add: SLAB_PREALLOC_BASE_def push_bit_eq_mult)
  ultimately have "unat (push_bit i SLAB_PREALLOC_BASE) = 8 * 2 ^ i"
    by (simp only: unat_of_nat) (intro mod_less, simp)
  then show "sz \<le> push_bit i SLAB_PREALLOC_BASE \<longleftrightarrow> unat sz \<le> 8 * 2 ^ i" by (simp add: word_le_nat_alt)
qed

lemma kmalloc_loop_at:
  assumes "i + n = SLAB_PREALLOC_CACHE_NR" "i \<le> m" "m < SLAB_PREALLOC_CACHE_NR" "unat sz \<le> 8 * 2 ^ m" "\<forall>j<m. 8 * 2 ^ j < unat sz"
  shows "kmalloc_loop alloc sz n i s = do { (rc, s) \<leftarrow> alloc m s; case rc of Inl _ \<Rightarrow> Some (0, s) | Inr a \<Rightarrow> Some (a, s) }"
  using assms
proof (induction n arbitrary: i)
  case (Suc n)
  show ?case
  proof (cases "i = m")
    case True
    then show ?thesis using Suc.prems by (simp add: prealloc_size)
  next
    case False
    then have "i < m" using Suc.prems by simp
    moreover have "\<not> unat sz \<le> 8 * 2 ^ i" using Suc.prems(5) \<open>i < m\<close> by (simp add: not_le)
    then have "\<not> sz \<le> push_bit i SLAB_PREALLOC_BASE" using Suc.prems(1) by (simp add: prealloc_size)
    ultimately show ?thesis using Suc.IH [of "Suc i"] Suc.prems by simp
  qed
qed simp

text \<open>\<open>kmalloc\<close> takes an object of the first cache that is large enough.\<close>

lemma kmalloc_inv:
  assumes inv: "kmem_inv base fl K A U qs s" and m: "m \<in> K" "m < SLAB_PREALLOC_CACHE_NR"
    and sz: "unat sz \<le> 8 * 2 ^ m" "\<forall>j<m. 8 * 2 ^ j < unat sz"
  shows "if has_room A U m s \<or> free_frames fl \<noteq> {}
    then \<exists>obj s'. kmalloc base hw sz mflags s = Some (obj, s') \<and> alloc_result base fl K A U m mflags s obj s'
    else kmalloc base hw sz mflags s = Some (0, s)"
proof -
  have run: "kmalloc base hw sz mflags s = do {
      (rc, s) \<leftarrow> slab_kmem_cache_alloc_with (kmalloc_depth 1 base hw) base hw m mflags s;
      case rc of Inl _ \<Rightarrow> Some (0, s) | Inr a \<Rightarrow> Some (a, s) }"
    using kmalloc_loop_at [of 0 SLAB_PREALLOC_CACHE_NR m sz "\<lambda>i. slab_kmem_cache_alloc_with (kmalloc_depth 1 base hw) base hw i mflags" s] m(2) sz
    by (simp add: kmalloc_def numeral_2_eq_2)
  note alloc = cache_alloc_inv [OF inv m(1), of "kmalloc_depth 1 base hw" hw mflags]
  show ?thesis
  proof (cases "has_room A U m s \<or> free_frames fl \<noteq> {}")
    case True
    then obtain obj s' where "slab_kmem_cache_alloc_with (kmalloc_depth 1 base hw) base hw m mflags s = Some (Inr obj, s')"
        "alloc_result base fl K A U m mflags s obj s'"
      using alloc(2) by blast
    then have "kmalloc base hw sz mflags s = Some (obj, s')" "alloc_result base fl K A U m mflags s obj s'"
      unfolding run by simp_all
    then show ?thesis using True by auto
  next
    case False
    then show ?thesis using alloc(1) unfolding run by simp
  qed
qed

section \<open>Properties\<close>

text \<open>
  C18. The objects of the caches with slab data inside the slab (objects of less than 512 bytes without
  alignment or colouring), on a page pool of one area. A call of \<open>slab_kmem_cache_alloc\<close> gives
  out an object that was not given out, of a slab with room when the cache has one, and otherwise of a
  new slab on a free page, which is the only thing it takes from the page pool; the object is cleared or
  as its constructor leaves it, and no other byte changes. It fails, with nothing changed, exactly
  when no slab of the cache has room and no page is free. \<open>kmalloc\<close> does the same with the first of its
  caches whose objects are large enough, and gives 0 for a failure. Every object that is given out can be
  returned with \<open>slab_kmem_cache_free\<close> and, the same, with \<open>kfree\<close>, and is free afterwards; only its destructor changes the
  memory. Both keep the invariant: the lists of free objects, the numbers of objects in use, the
  queues \<open>partial\<close>, \<open>full\<close> and \<open>free\<close> of each cache and the page frames of the slabs agree, and every lock is free.
\<close>

theorem slab_objects:
  assumes inv: "kmem_inv base fl K A U qs s" and k: "k \<in> K"
  shows "(if has_room A U k s \<or> free_frames fl \<noteq> {}
      then \<exists>obj s'. slab_kmem_cache_alloc base hw k mflags s = Some (Inr obj, s') \<and> alloc_result base fl K A U k mflags s obj s'
      else slab_kmem_cache_alloc base hw k mflags s = Some (Inl ENOMEM, s)) \<and>
    (k < SLAB_PREALLOC_CACHE_NR \<and> unat sz \<le> 8 * 2 ^ k \<and> (\<forall>j<k. 8 * 2 ^ j < unat sz) \<longrightarrow>
      (if has_room A U k s \<or> free_frames fl \<noteq> {}
       then \<exists>obj s'. kmalloc base hw sz mflags s = Some (obj, s') \<and> alloc_result base fl K A U k mflags s obj s'
       else kmalloc base hw sz mflags s = Some (0, s))) \<and>
    (\<forall>sl\<in>A. \<forall>i\<in>U sl. let c = caches s (sl_cache (slabs s sl)); obj = node_at c (sl_page (slabs s sl)) i + 8
      in kfree base obj s = slab_kmem_cache_free base obj s \<and>
        (\<exists>s' qs'. slab_kmem_cache_free base obj s = Some s' \<and> kmem_inv base fl K A (U(sl := U sl - {i})) qs' s' \<and>
          pm_db (pm s') = pm_db (pm s) \<and> pm_cpu (pm s') = pm_cpu (pm s) \<and> caches s' = caches s \<and>
          pm_ram (pm s') = (case destructor c of None \<Rightarrow> id | Some f \<Rightarrow> f obj (payload_size c)) (pm_ram (pm s))))"
proof (intro conjI ballI impI)
  show "if has_room A U k s \<or> free_frames fl \<noteq> {}
       then \<exists>obj s'. kmalloc base hw sz mflags s = Some (obj, s') \<and> alloc_result base fl K A U k mflags s obj s'
       else kmalloc base hw sz mflags s = Some (0, s)"
    if "k < SLAB_PREALLOC_CACHE_NR \<and> unat sz \<le> 8 * 2 ^ k \<and> (\<forall>j<k. 8 * 2 ^ j < unat sz)"
    using kmalloc_inv [OF inv k] that by blast
  show "if has_room A U k s \<or> free_frames fl \<noteq> {}
      then \<exists>obj s'. slab_kmem_cache_alloc base hw k mflags s = Some (Inr obj, s') \<and> alloc_result base fl K A U k mflags s obj s'
      else slab_kmem_cache_alloc base hw k mflags s = Some (Inl ENOMEM, s)"
    using cache_alloc_inv [OF inv k, of "kmalloc base hw" hw mflags] by (simp add: slab_kmem_cache_alloc_def)
  fix sl i assume sl: "sl \<in> A" and i: "i \<in> U sl"
  show "let c = caches s (sl_cache (slabs s sl)); obj = node_at c (sl_page (slabs s sl)) i + 8
      in kfree base obj s = slab_kmem_cache_free base obj s \<and>
        (\<exists>s' qs'. slab_kmem_cache_free base obj s = Some s' \<and> kmem_inv base fl K A (U(sl := U sl - {i})) qs' s' \<and>
          pm_db (pm s') = pm_db (pm s) \<and> pm_cpu (pm s') = pm_cpu (pm s) \<and> caches s' = caches s \<and>
          pm_ram (pm s') = (case destructor c of None \<Rightarrow> id | Some f \<Rightarrow> f obj (payload_size c)) (pm_ram (pm s)))"
    unfolding Let_def by (intro conjI kfree_slab [OF inv sl i]; rule cache_free_inv [OF inv sl i]) blast
qed

text \<open>A cache for 32 bytes is made on a page pool with seven free pages; an object is taken and returned.\<close>

definition sample_kmem :: kmem where
  "sample_kmem = \<lparr>pm = \<lparr>pm_db = spare_db, pm_ram = \<lambda>_. 0, pm_cpu = sample_cpu\<rparr>,
     caches = \<lambda>_. \<lparr>kc_lock = spinlock_init, payload_size = 0, obj_size = 0, kc_order = 0, kc_align = 0, color_offset = 0,
        color_num = 0, color_index = 0, limits = 0, slab_count = 0, objs_per_slab = 0, kc_sflags = 0,
        constructor = None, destructor = None\<rparr>,
     slabs = \<lambda>_. \<lparr>sl_lock = spinlock_init, sl_cache = 0, sl_objects = 0, sl_count = 0, sl_page = 0\<rparr>,
     slinks = \<lambda>n. \<lparr>lprev = n, lnext = n\<rparr>, snext = \<lambda>_. 0, bctl_obj = \<lambda>_. 0, bctl_backlink = \<lambda>_. 0, ctl_ptrs = \<lambda>_. 0,
     slabp = \<lambda>_. 0\<rparr>"

definition sample_dcache :: cpu_dcache where
  "sample_dcache = \<lparr>l1_dcache_linesize = 64, l1_dcache_color_num = 64, dcache_size = 4096\<rparr>"

theorem slab_objects_witness:
  "\<exists>s1 obj s2 s3. slab_kmem_cache_create sample_dcache 0 32 0 0 0 None None sample_kmem = Some (Inr (), s1) \<and>
    slab_kmem_cache_alloc 0x80000000 sample_dcache 0 0 s1 = Some (Inr obj, s2) \<and> slab_count (caches s2 0) = 1 \<and>
    kfree 0x80000000 obj s2 = Some s3 \<and> pm_db (pm s3) = pm_db (pm s2)"
proof -
  obtain fl where fl: "vm_env 0x80000000 fl \<lparr>pm_db = spare_db, pm_ram = \<lambda>_. 0, pm_cpu = sample_cpu\<rparr>" "free_frames fl = {..<7}"
    by (rule spare_env)
  have inv0: "kmem_inv 0x80000000 fl {} {} (\<lambda>_. {}) (\<lambda>_. []) sample_kmem"
    using fl(1) by (simp add: kmem_inv_def sample_kmem_def cache_heads_def wf_queues_def)
  obtain s1 qs1 where s1: "slab_kmem_cache_create sample_dcache 0 32 0 0 0 None None sample_kmem = Some (Inr (), s1)"
      "kmem_inv 0x80000000 fl {0} {} (\<lambda>_. {}) qs1 s1"
    by (rule cache_create_inv [OF inv0, of 0 32 0 sample_dcache 0 None None]) auto
  have "free_frames fl \<noteq> {}" using fl(2) lessThan_iff [of "0 :: nat" 7] by (metis empty_iff zero_less_numeral)
  then have alloc: "\<exists>obj s2. slab_kmem_cache_alloc 0x80000000 sample_dcache 0 0 s1 = Some (Inr obj, s2) \<and>
      alloc_result 0x80000000 fl {0} {} (\<lambda>_. {}) 0 0 s1 obj s2"
    using slab_objects [OF s1(2), of 0 sample_dcache 0, THEN conjunct1] by simp
  obtain obj s2 where s2: "slab_kmem_cache_alloc 0x80000000 sample_dcache 0 0 s1 = Some (Inr obj, s2)" "alloc_result 0x80000000 fl {0} {} (\<lambda>_. {}) 0 0 s1 obj s2"
    using alloc by blast
  then obtain sl i qs2 fl2 where a: "obj = node_at (caches s1 0) (sl_page (slabs s2 sl)) i + 8" "sl_cache (slabs s2 sl) = 0"
      "kmem_inv 0x80000000 fl2 {0} {sl} ((\<lambda>_. {})(sl := {i})) qs2 s2"
      "caches s2 = (caches s1)(0 := (caches s1 0)\<lparr>slab_count := Suc (slab_count (caches s1 0))\<rparr>)"
    unfolding alloc_result_def has_room_def by auto
  have "slab_count (caches s1 0) = 0" using s1(2) by (simp add: kmem_inv_def)
  then have one: "slab_count (caches s2 0) = 1" by (simp add: a(4))
  have same: "node_at (caches s2 0) = node_at (caches s1 0)" by (simp add: a(4) node_at_def fun_eq_iff)
  note free = slab_objects [OF a(3), of 0, THEN conjunct2, THEN conjunct2, rule_format, of sl i, unfolded Let_def a(2) same, folded a(1)]
  obtain s3 where "kfree 0x80000000 obj s2 = Some s3" "pm_db (pm s3) = pm_db (pm s2)"
    using free by auto
  then show ?thesis using s1(1) s2(1) one by blast
qed

end
