(* ===== verification/Irq.thy ===== *)
theory Irq
  imports Atomic
begin

unbundle bit_operations_syntax

text \<open>
  Interrupt lines and controllers (kern/irq.c, include/kern/irq-if.h). A line is its number, a
  controller a number that stands for its address; the queues of controllers and of handlers are
  the lists they represent. The tree of the lines is the list of its elements from the left, as
  \<open>RB_FOREACH\<close> passes them. \<open>'d\<close> is the state of the devices. The operations of a controller act on it and
  may be missing, as function pointers may be \<open>NULL\<close>; calling a missing one stops the kernel. What a
  handler returns and does to the devices is the parameter \<open>run\<close>, which also holds the trap context.
\<close>

section \<open>State\<close>

definition IRQ_ATTR_EXCLUSIVE :: u32 where "IRQ_ATTR_EXCLUSIVE = 0x1"
definition IRQ_ATTR_SHARED :: u32 where "IRQ_ATTR_SHARED = 0x0"
definition IRQ_ATTR_NESTABLE :: u32 where "IRQ_ATTR_NESTABLE = 0x2"
definition IRQ_ATTR_LEVEL :: u32 where "IRQ_ATTR_LEVEL = 0x00"
definition IRQ_ATTR_TRIGGER_MASK :: u32 where "IRQ_ATTR_TRIGGER_MASK = 0xf0"
definition IRQ_HANDLED :: int where "IRQ_HANDLED = 0"
definition IRQ_NOT_HANDLED :: int where "IRQ_NOT_HANDLED = 1"
definition NR_IRQS :: nat where "NR_IRQS = 256"

record irq_handler_ent =
  handler :: nat
  handler_private :: u64

record 'd irq_ctrlr =
  min_irq :: u32
  max_irq :: u32
  nr_handlers :: u64
  config_irq :: "(u32 \<Rightarrow> u32 \<Rightarrow> u32 \<Rightarrow> 'd \<Rightarrow> (errno + unit) \<times> 'd) option"
  irq_is_pending :: "(u32 \<Rightarrow> u32 \<Rightarrow> 'd \<Rightarrow> bool \<times> 'd) option"
  enable_irq :: "(u32 \<Rightarrow> 'd \<Rightarrow> 'd) option"
  disable_irq :: "(u32 \<Rightarrow> 'd \<Rightarrow> 'd) option"
  get_priority :: "('d \<Rightarrow> u32) option"
  set_priority :: "(u32 \<Rightarrow> 'd \<Rightarrow> 'd) option"
  eoi :: "(u32 \<Rightarrow> 'd \<Rightarrow> 'd) option"
  initialize :: "('d \<Rightarrow> (errno + unit) \<times> 'd) option"
  finalize :: "('d \<Rightarrow> 'd) option"

record irq_line =
  refs :: u32
  irq :: u32
  prio :: u32
  attr :: u32
  handlers :: "irq_handler_ent list"
  ctrlr :: "nat option"

record 'd irq_info =
  irq_lock :: spinlock
  irq_mask :: cpu
  prio_que :: "nat list"
  ctrlr_que :: "nat list"
  irqs :: "nat \<Rightarrow> irq_line"
  ctrlrs :: "nat \<Rightarrow> 'd irq_ctrlr"
  dev :: 'd

definition IRQ_CTRLR_OPS_HAS_LINEMASK :: "'d irq_ctrlr \<Rightarrow> bool" where
  "IRQ_CTRLR_OPS_HAS_LINEMASK c \<longleftrightarrow> config_irq c \<noteq> None \<and> irq_is_pending c \<noteq> None"

definition IRQ_CTRLR_OPS_HAS_PRIMASK :: "'d irq_ctrlr \<Rightarrow> bool" where
  "IRQ_CTRLR_OPS_HAS_PRIMASK c \<longleftrightarrow> get_priority c \<noteq> None \<and> set_priority c \<noteq> None"

definition IRQ_CTRLR_OPS_IS_VALID :: "'d irq_ctrlr \<Rightarrow> bool" where
  "IRQ_CTRLR_OPS_IS_VALID c \<longleftrightarrow>
     config_irq c \<noteq> None \<and> irq_is_pending c \<noteq> None \<and>
     (IRQ_CTRLR_OPS_HAS_LINEMASK c \<or> IRQ_CTRLR_OPS_HAS_PRIMASK c) \<and>
     eoi c \<noteq> None \<and> initialize c \<noteq> None \<and> finalize c \<noteq> None"

definition lock_irq :: "'d irq_info \<Rightarrow> (intrflags \<times> 'd irq_info) option" where
  "lock_irq s = do {
     (iflags, l, c) \<leftarrow> spinlock_lock_disable_intr (irq_lock s) (irq_mask s);
     Some (iflags, s\<lparr>irq_lock := l, irq_mask := c\<rparr>)
   }"

definition unlock_irq :: "intrflags \<Rightarrow> 'd irq_info \<Rightarrow> 'd irq_info option" where
  "unlock_irq iflags s = do {
     (l, c) \<leftarrow> spinlock_unlock_restore_intr iflags (irq_lock s) (irq_mask s);
     Some (s\<lparr>irq_lock := l, irq_mask := c\<rparr>)
   }"

abbreviation upd_line :: "nat \<Rightarrow> (irq_line \<Rightarrow> irq_line) \<Rightarrow> 'd irq_info \<Rightarrow> 'd irq_info" where
  "upd_line i f s \<equiv> s\<lparr>irqs := (irqs s)(i := f (irqs s i))\<rparr>"

section \<open>Comparisons\<close>

definition irq_line_cmp :: "u32 \<Rightarrow> u32 \<Rightarrow> int" where
  "irq_line_cmp key_prio ent_prio = (if key_prio > ent_prio then - 1 else if key_prio < ent_prio then 1 else 0)"

definition irq_ctrlr_cmp_by_irq :: "u32 \<Rightarrow> 'd irq_ctrlr \<Rightarrow> int option" where
  "irq_ctrlr_cmp_by_irq key_irq ent =
     (if key_irq < min_irq ent then Some (- 1)
      else if key_irq > max_irq ent then Some 1
      else do { kassert (min_irq ent \<le> key_irq \<and> key_irq < max_irq ent); Some 0 })"

definition irq_ctrlr_cmp :: "nat \<Rightarrow> nat \<Rightarrow> int" where
  "irq_ctrlr_cmp key ent = (if key < ent then - 1 else if key > ent then 1 else 0)"

definition irq_handler_cmp :: "nat \<Rightarrow> nat \<Rightarrow> int" where
  "irq_handler_cmp key ent = (if key < ent then - 1 else if key > ent then 1 else 0)"

text \<open>\<open>queue_find_element\<close> with each of them; the first can stop the kernel.\<close>

fun find_ctrlr_by_irq :: "u32 \<Rightarrow> (nat \<Rightarrow> 'd irq_ctrlr) \<Rightarrow> nat list \<Rightarrow> nat option option" where
  "find_ctrlr_by_irq key cs [] = Some None"
| "find_ctrlr_by_irq key cs (c # q) = do {
     r \<leftarrow> irq_ctrlr_cmp_by_irq key (cs c);
     if r = 0 then Some (Some c) else find_ctrlr_by_irq key cs q
   }"

definition find_ctrlr :: "nat \<Rightarrow> nat list \<Rightarrow> nat option" where
  "find_ctrlr key q = find (\<lambda>c. irq_ctrlr_cmp key c = 0) q"

definition find_handler :: "nat \<Rightarrow> irq_handler_ent list \<Rightarrow> irq_handler_ent option" where
  "find_handler key hs = find (\<lambda>h. irq_handler_cmp key (handler h) = 0) hs"

text \<open>
  \<open>RB_INSERT\<close> of line \<open>i\<close> with the given priorities: the element that compares equal, or the new
  list. When the elements are not in order relative to the key, where the descent ends depends on
  the shape of the tree; the parameter \<open>shape\<close> stands for it.
\<close>

definition line_tree_insert ::
    "(nat list \<Rightarrow> nat \<Rightarrow> nat + nat list) \<Rightarrow> (nat \<Rightarrow> u32) \<Rightarrow> nat \<Rightarrow> nat list \<Rightarrow> nat + nat list" where
  "line_tree_insert shape pri i xs =
     (let before = takeWhile (\<lambda>j. irq_line_cmp (pri i) (pri j) > 0) xs;
          rest = dropWhile (\<lambda>j. irq_line_cmp (pri i) (pri j) > 0) xs;
          equal = takeWhile (\<lambda>j. irq_line_cmp (pri i) (pri j) = 0) rest;
          after = dropWhile (\<lambda>j. irq_line_cmp (pri i) (pri j) = 0) rest
      in if list_all (\<lambda>j. irq_line_cmp (pri i) (pri j) < 0) after
         then (case equal of j # _ \<Rightarrow> Inl j | [] \<Rightarrow> Inr (before @ i # after))
         else shape xs i)"

section \<open>References to a line\<close>

definition irqline_get :: "nat \<Rightarrow> 'd irq_info \<Rightarrow> (bool \<times> 'd irq_info) option" where
  "irqline_get i s = do {
     (old, n) \<leftarrow> refcnt_inc_if_valid (refs (irqs s i));
     Some (old \<noteq> 0, upd_line i (refs_update (\<lambda>_. n)) s)
   }"

definition irqline_put :: "nat \<Rightarrow> 'd irq_info \<Rightarrow> (bool \<times> 'd irq_info) option" where
  "irqline_put i s = do {
     k \<leftarrow> ctrlr (irqs s i);
     let c = ctrlrs s k;
     kassert (IRQ_CTRLR_OPS_IS_VALID c);
     (last, n) \<leftarrow> refcnt_dec_and_test (refs (irqs s i));
     let s1 = upd_line i (refs_update (\<lambda>_. n)) s;
     if \<not> last then Some (False, s1)
     else do {
       let s2 = s1\<lparr>prio_que := remove1 i (prio_que s1)\<rparr>;
       s3 \<leftarrow> (if IRQ_CTRLR_OPS_HAS_PRIMASK c then do {
                 getp \<leftarrow> get_priority c;
                 if prio (irqs s2 i) > getp (dev s2)
                 then do { setp \<leftarrow> set_priority c; Some (s2\<lparr>dev := setp (prio (irqs s2 i)) (dev s2)\<rparr>) }
                 else Some s2
               } else Some s2);
       s4 \<leftarrow> (if IRQ_CTRLR_OPS_HAS_LINEMASK c
               then do { dis \<leftarrow> disable_irq c; Some (s3\<lparr>dev := dis (irq (irqs s3 i)) (dev s3)\<rparr>) }
               else Some s3);
       Some (True, s4)
     }
   }"

section \<open>Handling an interrupt\<close>

text \<open>The loop of \<open>invoke_irq_handler\<close> over the handlers of a line; the last result is kept.\<close>

fun call_handlers ::
    "(nat \<Rightarrow> u32 \<Rightarrow> u64 \<Rightarrow> 'd \<Rightarrow> int \<times> 'd) \<Rightarrow> bool \<Rightarrow> u32 \<Rightarrow> irq_handler_ent list \<Rightarrow> int \<Rightarrow> 'd irq_info \<Rightarrow> int \<times> 'd irq_info" where
  "call_handlers run nest n [] is_handled s = (is_handled, s)"
| "call_handlers run nest n (h # hs) is_handled s =
     (let s1 = (if nest then s\<lparr>irq_mask := krn_cpu_enable_interrupt (irq_mask s)\<rparr> else s);
          (r, d) = run (handler h) n (handler_private h) (dev s1);
          s2 = s1\<lparr>dev := d\<rparr>;
          s3 = (if nest then s2\<lparr>irq_mask := krn_cpu_disable_interrupt (irq_mask s2)\<rparr> else s2)
      in if r = IRQ_HANDLED then (r, s3) else call_handlers run nest n hs r s3)"

definition invoke_irq_handler ::
    "(nat \<Rightarrow> u32 \<Rightarrow> u64 \<Rightarrow> 'd \<Rightarrow> int \<times> 'd) \<Rightarrow> nat \<Rightarrow> 'd irq_info \<Rightarrow> ((errno + unit) \<times> 'd irq_info) option" where
  "invoke_irq_handler run i s = do {
     kassert (unat (irq (irqs s i)) < NR_IRQS);
     kassert (krn_cpu_interrupt_disabled (irq_mask s));
     (ok, s1) \<leftarrow> irqline_get i s;
     if \<not> ok then Some (Inl ENOENT, s1)
     else do {
       let (is_handled, s2) = call_handlers run (attr (irqs s1 i) AND IRQ_ATTR_NESTABLE \<noteq> 0) (irq (irqs s1 i))
                                (handlers (irqs s1 i)) IRQ_NOT_HANDLED s1;
       (_, s3) \<leftarrow> irqline_put i s2;
       Some (if is_handled = IRQ_NOT_HANDLED then Inl ESRCH else Inr (), s3)
     }
   }"

definition handle_irq_line ::
    "(nat \<Rightarrow> u32 \<Rightarrow> u64 \<Rightarrow> 'd \<Rightarrow> int \<times> 'd) \<Rightarrow> nat \<Rightarrow> 'd irq_info \<Rightarrow> ((errno + unit) \<times> 'd irq_info) option" where
  "handle_irq_line run i s = do {
     kassert (unat (irq (irqs s i)) < NR_IRQS);
     (ok, s1) \<leftarrow> irqline_get i s;
     if \<not> ok then Some (Inl ENOENT, s1)
     else do {
       k \<leftarrow> ctrlr (irqs s1 i);
       let c = ctrlrs s1 k;
       kassert (IRQ_CTRLR_OPS_IS_VALID c);
       (pr, s2) \<leftarrow> (if IRQ_CTRLR_OPS_HAS_PRIMASK c then do {
                       getp \<leftarrow> get_priority c;
                       setp \<leftarrow> set_priority c;
                       Some (getp (dev s1), s1\<lparr>dev := setp (prio (irqs s1 i)) (dev s1)\<rparr>)
                     } else Some (0, s1));
       s3 \<leftarrow> (if IRQ_CTRLR_OPS_HAS_LINEMASK c
               then do { dis \<leftarrow> disable_irq c; Some (s2\<lparr>dev := dis (irq (irqs s2 i)) (dev s2)\<rparr>) }
               else Some s2);
       e \<leftarrow> eoi c;
       let s4 = s3\<lparr>dev := e (irq (irqs s3 i)) (dev s3)\<rparr>;
       (rc, s5) \<leftarrow> invoke_irq_handler run i s4;
       (_, s6) \<leftarrow> irqline_put i s5;
       s7 \<leftarrow> (if IRQ_CTRLR_OPS_HAS_LINEMASK c
               then do { en \<leftarrow> enable_irq c; Some (s6\<lparr>dev := en (irq (irqs s6 i)) (dev s6)\<rparr>) }
               else Some s6);
       s8 \<leftarrow> (if IRQ_CTRLR_OPS_HAS_PRIMASK c
               then do { setp \<leftarrow> set_priority c; Some (s7\<lparr>dev := setp pr (dev s7)\<rparr>) }
               else Some s7);
       Some (if rc \<noteq> Inr () then Inl ESRCH else Inr (), s8)
     }
   }"

text \<open>The loop of \<open>irq_handle_irq\<close>, with the lock held.\<close>

fun irq_scan ::
    "(nat \<Rightarrow> u32 \<Rightarrow> u64 \<Rightarrow> 'd \<Rightarrow> int \<times> 'd) \<Rightarrow> intrflags \<Rightarrow> nat list \<Rightarrow> 'd irq_info \<Rightarrow> (bool \<times> intrflags \<times> 'd irq_info) option" where
  "irq_scan run iflags [] s = Some (False, iflags, s)"
| "irq_scan run iflags (i # is) s = do {
     (ok, s1) \<leftarrow> irqline_get i s;
     if \<not> ok then irq_scan run iflags is s1
     else do {
       k \<leftarrow> ctrlr (irqs s1 i);
       let c = ctrlrs s1 k;
       kassert (IRQ_CTRLR_OPS_IS_VALID c);
       pend \<leftarrow> irq_is_pending c;
       let (is_found, d) = pend (irq (irqs s1 i)) (prio (irqs s1 i)) (dev s1);
       let s2 = s1\<lparr>dev := d\<rparr>;
       if is_found then do {
         s3 \<leftarrow> unlock_irq iflags s2;
         (_, s4) \<leftarrow> handle_irq_line run i s3;
         (_, s5) \<leftarrow> irqline_put i s4;
         (iflags', s6) \<leftarrow> lock_irq s5;
         Some (True, iflags', s6)
       } else do {
         (_, s3) \<leftarrow> irqline_put i s2;
         irq_scan run iflags is s3
       }
     }
   }"

definition irq_handle_irq ::
    "(nat \<Rightarrow> u32 \<Rightarrow> u64 \<Rightarrow> 'd \<Rightarrow> int \<times> 'd) \<Rightarrow> 'd irq_info \<Rightarrow> ((errno + unit) \<times> 'd irq_info) option" where
  "irq_handle_irq run s = do {
     (iflags, s1) \<leftarrow> lock_irq s;
     (is_found, iflags', s2) \<leftarrow> irq_scan run iflags (rev (prio_que s1)) s1;
     s3 \<leftarrow> unlock_irq iflags' s2;
     Some (if \<not> is_found then Inl ESRCH else Inr (), s3)
   }"

section \<open>Handlers\<close>

text \<open>\<open>alloc\<close> is the result of \<open>slab_kmem_cache_alloc\<close>.\<close>

definition irq_register_handler ::
    "(nat list \<Rightarrow> nat \<Rightarrow> nat + nat list) \<Rightarrow> errno + unit \<Rightarrow> u32 \<Rightarrow> u32 \<Rightarrow> u32 \<Rightarrow> nat \<Rightarrow> u64 \<Rightarrow>
     'd irq_info \<Rightarrow> ((errno + unit) \<times> 'd irq_info) option" where
  "irq_register_handler shape alloc n at pr h priv s =
     (if unat n \<ge> NR_IRQS then Some (Inl EINVAL, s)
      else do {
        (iflags, s1) \<leftarrow> lock_irq s;
        found \<leftarrow> find_ctrlr_by_irq n (ctrlrs s1) (ctrlr_que s1);
        case found of
          None \<Rightarrow> do { s2 \<leftarrow> unlock_irq iflags s1; Some (Inl ENOENT, s2) }
        | Some k \<Rightarrow> do {
            let i = unat n;
            let line = irqs s1 i;
            (rc, s2) \<leftarrow>
              (if handlers line \<noteq> [] then
                 if attr line AND IRQ_ATTR_TRIGGER_MASK \<noteq> at AND IRQ_ATTR_TRIGGER_MASK \<or> prio line \<noteq> pr
                 then Some (Inl EINVAL, s1)
                 else if attr line AND IRQ_ATTR_EXCLUSIVE \<noteq> 0 \<or> at AND IRQ_ATTR_EXCLUSIVE \<noteq> 0
                 then Some (Inl EBUSY, s1)
                 else Some (Inr (), s1)
               else (case line_tree_insert shape (\<lambda>j. prio (irqs s1 j)) i (prio_que s1) of
                   Inl _ \<Rightarrow> None
                 | Inr q \<Rightarrow> do {
                     let s2 = s1\<lparr>prio_que := q\<rparr>;
                     conf \<leftarrow> config_irq (ctrlrs s2 k);
                     let (rc, d) = conf n at pr (dev s2);
                     let s3 = s2\<lparr>dev := d\<rparr>;
                     case rc of
                       Inl e \<Rightarrow> Some (Inl e, s3\<lparr>prio_que := remove1 i (prio_que s3)\<rparr>)
                     | Inr _ \<Rightarrow> Some (Inr (), upd_line i (\<lambda>l. l\<lparr>irq := n, attr := at, prio := pr, ctrlr := Some k,
                                   refs := refcnt_set 1 (refs l)\<rparr>) s3)
                   }));
            case rc of
              Inl e \<Rightarrow> do { s3 \<leftarrow> unlock_irq iflags s2; Some (Inl e, s3) }
            | Inr _ \<Rightarrow> do {
                kassert (ctrlr (irqs s2 i) = Some k);
                kassert (alloc = Inr ());
                let s3 = upd_line i (handlers_update (\<lambda>hs. hs @ [\<lparr>handler = h, handler_private = priv\<rparr>])) s2;
                s4 \<leftarrow> unlock_irq iflags s3;
                Some (Inr (), s4)
              }
          }
      })"

definition irq_unregister_handler :: "u32 \<Rightarrow> nat \<Rightarrow> 'd irq_info \<Rightarrow> ((errno + unit) \<times> 'd irq_info) option" where
  "irq_unregister_handler n h s =
     (if unat n \<ge> NR_IRQS then Some (Inl EINVAL, s)
      else do {
        (iflags, s1) \<leftarrow> lock_irq s;
        let i = unat n;
        k \<leftarrow> ctrlr (irqs s1 i);
        case find_handler h (handlers (irqs s1 i)) of
          None \<Rightarrow> do { s2 \<leftarrow> unlock_irq iflags s1; Some (Inl ENOENT, s2) }
        | Some ent \<Rightarrow> do {
            let s2 = upd_line i (handlers_update (remove1 ent)) s1;
            kassert (IRQ_CTRLR_OPS_IS_VALID (ctrlrs s2 k));
            let s3 = s2\<lparr>ctrlrs := (ctrlrs s2)(k := nr_handlers_update (\<lambda>c. snd (statcnt_dec c)) (ctrlrs s2 k))\<rparr>;
            s4 \<leftarrow> (if handlers (irqs s3 i) = [] then do { (_, s') \<leftarrow> irqline_put i s3; Some s' } else Some s3);
            s5 \<leftarrow> unlock_irq iflags s4;
            Some (Inr (), s5)
          }
      })"

section \<open>Controllers\<close>

text \<open>The test of \<open>irq_register_ctrlr\<close> on a registered controller.\<close>

definition irq_ranges_overlap :: "'d irq_ctrlr \<Rightarrow> 'd irq_ctrlr \<Rightarrow> bool" where
  "irq_ranges_overlap c found \<longleftrightarrow>
     (min_irq c \<le> min_irq found \<and> min_irq found < max_irq c) \<or>
     (min_irq c < max_irq found \<and> max_irq found < max_irq c) \<or>
     (min_irq c \<le> min_irq found \<and> max_irq found < max_irq c) \<or>
     (min_irq found \<le> min_irq c \<and> max_irq c < max_irq found)"

definition irq_register_ctrlr :: "nat \<Rightarrow> 'd irq_info \<Rightarrow> ((errno + unit) \<times> 'd irq_info) option" where
  "irq_register_ctrlr k s =
     (if \<not> IRQ_CTRLR_OPS_IS_VALID (ctrlrs s k) then Some (Inl EINVAL, s)
      else do {
        (iflags, s1) \<leftarrow> lock_irq s;
        if find_ctrlr k (ctrlr_que s1) \<noteq> None then do { s2 \<leftarrow> unlock_irq iflags s1; Some (Inl EBUSY, s2) }
        else if list_ex (\<lambda>f. irq_ranges_overlap (ctrlrs s1 k) (ctrlrs s1 f)) (ctrlr_que s1)
        then do { s2 \<leftarrow> unlock_irq iflags s1; Some (Inl EBUSY, s2) }
        else do {
          init \<leftarrow> initialize (ctrlrs s1 k);
          let (rc, d) = init (dev s1);
          let s2 = s1\<lparr>dev := d\<rparr>;
          case rc of
            Inl e \<Rightarrow> do { s3 \<leftarrow> unlock_irq iflags s2; Some (Inl e, s3) }
          | Inr _ \<Rightarrow> do {
              let s3 = s2\<lparr>ctrlrs := (ctrlrs s2)(k := nr_handlers_update (statcnt_set 0) (ctrlrs s2 k)),
                          ctrlr_que := ctrlr_que s2 @ [k]\<rparr>;
              s4 \<leftarrow> unlock_irq iflags s3;
              Some (Inr (), s4)
            }
        }
      })"

definition irq_unregister_ctrlr :: "nat \<Rightarrow> 'd irq_info \<Rightarrow> 'd irq_info option" where
  "irq_unregister_ctrlr k s = do {
     (iflags, s1) \<leftarrow> lock_irq s;
     if 0 <s fst (statcnt_read (nr_handlers (ctrlrs s1 k))) then unlock_irq iflags s1
     else if find_ctrlr k (ctrlr_que s1) = None then unlock_irq iflags s1
     else do {
       let s2 = s1\<lparr>ctrlr_que := remove1 k (ctrlr_que s1)\<rparr>;
       fin \<leftarrow> finalize (ctrlrs s2 k);
       unlock_irq iflags (s2\<lparr>dev := fin (dev s2)\<rparr>)
     }
   }"

text \<open>\<open>created\<close> is the result of \<open>slab_kmem_cache_create\<close>; the reference counters are not set.\<close>

definition irq_init :: "errno + unit \<Rightarrow> 'd irq_info \<Rightarrow> 'd irq_info option" where
  "irq_init created s = do {
     let s1 = s\<lparr>irq_lock := spinlock_init, prio_que := [], ctrlr_que := [],
                irqs := (\<lambda>i. if i < NR_IRQS
                  then (irqs s i)\<lparr>irq := of_nat i, attr := IRQ_ATTR_SHARED OR IRQ_ATTR_LEVEL, prio := 0,
                                  handlers := [], ctrlr := None\<rparr>
                  else irqs s i)\<rparr>;
     kassert (created = Inr ());
     Some s1
   }"

end
