(* ===== verification/IrqLaws.thy ===== *)
theory IrqLaws
  imports Irq
begin

unbundle bit_operations_syntax

text \<open>
  What a call of \<open>irq_handle_irq\<close> does, from the device side, and the registration of handlers and
  controllers.
\<close>

interpretation irqs: locked_state irq_lock irq_mask "\<lambda>l c s. s\<lparr>irq_lock := l, irq_mask := c\<rparr>" lock_irq unlock_irq
  by unfold_locales (simp_all add: lock_irq_def unlock_irq_def)

section \<open>References\<close>

text \<open>A line in the tree: one reference, its own number, and a controller with the operations on lines.\<close>

definition line_ok :: "'d irq_info \<Rightarrow> nat \<Rightarrow> bool" where
  "line_ok s i \<longleftrightarrow> i < NR_IRQS \<and> refs (irqs s i) = 1 \<and> irq (irqs s i) = of_nat i \<and>
     (\<exists>k. ctrlr (irqs s i) = Some k \<and> IRQ_CTRLR_OPS_IS_VALID (ctrlrs s k) \<and>
       enable_irq (ctrlrs s k) \<noteq> None \<and> disable_irq (ctrlrs s k) \<noteq> None)"

lemma small_refs:
  "0 \<le>s (3 - 1 :: u32)" "0 \<le>s (2 - 1 :: u32)" "0 \<le>s (4 - 1 :: u32)" "0 \<le>s (1 - 1 :: u32)"
  by code_simp+

lemma get_line: "n \<noteq> 0 \<Longrightarrow> refs (irqs s i) = n \<Longrightarrow> irqline_get i s = Some (True, upd_line i (refs_update (\<lambda>_. n + 1)) s)"
  by (simp add: irqline_get_def)

lemma put_line:
  assumes "ctrlr (irqs s i) = Some k" "IRQ_CTRLR_OPS_IS_VALID (ctrlrs s k)" "refs (irqs s i) = n + 1" "n \<in> {1, 2, 3}"
  shows "irqline_put i s = Some (False, upd_line i (refs_update (\<lambda>_. n)) s)"
  using assms small_refs by (auto simp: irqline_put_def)

lemma nested_mask:
  assumes "krn_cpu_interrupt_disabled m"
  shows "krn_cpu_disable_interrupt (krn_cpu_enable_interrupt m) = m\<lparr>sie := sie m OR SIE_SEIE\<rparr>"
    and "krn_cpu_interrupt_disabled (m\<lparr>sie := x\<rparr>)"
proof -
  have "sstatus m AND SSTATUS_SIE = 0"
    using assms by (simp add: krn_cpu_interrupt_disabled_def hal_intrflags_interrupt_disabled_def rv64_cpu_save_flags_def)
  moreover have "sstatus m = (sstatus m AND SSTATUS_SIE) OR (sstatus m AND NOT SSTATUS_SIE)"
    by (simp flip: bit.conj_disj_distrib)
  ultimately have "sstatus m AND NOT SSTATUS_SIE = sstatus m" by simp
  moreover have "(sstatus m OR SSTATUS_SIE) AND NOT SSTATUS_SIE = sstatus m AND NOT SSTATUS_SIE"
    by (simp add: bit.conj_disj_distrib2)
  ultimately show "krn_cpu_disable_interrupt (krn_cpu_enable_interrupt m) = m\<lparr>sie := sie m OR SIE_SEIE\<rparr>"
    by (simp add: krn_cpu_disable_interrupt_def krn_cpu_enable_interrupt_def rv64_cpu_disable_interrupt_def
        rv64_cpu_enable_interrupt_def Let_def)
  show "krn_cpu_interrupt_disabled (m\<lparr>sie := x\<rparr>)"
    using assms by (simp add: krn_cpu_interrupt_disabled_def hal_intrflags_interrupt_disabled_def rv64_cpu_save_flags_def)
qed

section \<open>The devices during a dispatch\<close>

fun run_handlers :: "(nat \<Rightarrow> u32 \<Rightarrow> u64 \<Rightarrow> 'd \<Rightarrow> int \<times> 'd) \<Rightarrow> u32 \<Rightarrow> irq_handler_ent list \<Rightarrow> 'd \<Rightarrow> 'd" where
  "run_handlers run n [] d = d"
| "run_handlers run n (h # hs) d =
     (let (r, d') = run (handler h) n (handler_private h) d in if r = IRQ_HANDLED then d' else run_handlers run n hs d')"

definition serve :: "(nat \<Rightarrow> u32 \<Rightarrow> u64 \<Rightarrow> 'd \<Rightarrow> int \<times> 'd) \<Rightarrow> 'd irq_info \<Rightarrow> nat \<Rightarrow> 'd \<Rightarrow> 'd" where
  "serve run s i d =
     (let c = ctrlrs s (the (ctrlr (irqs s i))); n = of_nat i;
          d1 = (if IRQ_CTRLR_OPS_HAS_PRIMASK c then the (set_priority c) (prio (irqs s i)) d else d);
          d2 = the (eoi c) n (the (disable_irq c) n d1);
          d3 = the (enable_irq c) n (run_handlers run n (handlers (irqs s i)) d2)
      in if IRQ_CTRLR_OPS_HAS_PRIMASK c then the (set_priority c) (the (get_priority c) d) d3 else d3)"

fun first_pending :: "'d irq_info \<Rightarrow> nat list \<Rightarrow> 'd \<Rightarrow> nat option \<times> 'd" where
  "first_pending s [] d = (None, d)"
| "first_pending s (i # is) d =
     (let (b, d') = the (irq_is_pending (ctrlrs s (the (ctrlr (irqs s i))))) (of_nat i) (prio (irqs s i)) d
      in if b then (Some i, d') else first_pending s is d')"

text \<open>Handlers that may be nested open the interrupts from outside.\<close>

definition opened :: "irq_line \<Rightarrow> cpu \<Rightarrow> cpu" where
  "opened l m = (if attr l AND IRQ_ATTR_NESTABLE \<noteq> 0 \<and> handlers l \<noteq> [] then m\<lparr>sie := sie m OR SIE_SEIE\<rparr> else m)"

lemma call_handlers_run:
  "krn_cpu_interrupt_disabled (irq_mask s) \<Longrightarrow> \<exists>r. call_handlers run nest n hs r0 s =
     (r, s\<lparr>dev := run_handlers run n hs (dev s),
          irq_mask := (if nest \<and> hs \<noteq> [] then (irq_mask s)\<lparr>sie := sie (irq_mask s) OR SIE_SEIE\<rparr> else irq_mask s)\<rparr>)"
proof (induction hs arbitrary: s r0)
  case (Cons h hs)
  obtain r d where run: "run (handler h) n (handler_private h) (dev s) = (r, d)" by (cases "run (handler h) n (handler_private h) (dev s)")
  let ?m = "if nest then (irq_mask s)\<lparr>sie := sie (irq_mask s) OR SIE_SEIE\<rparr> else irq_mask s"
  let ?s = "s\<lparr>dev := d, irq_mask := ?m\<rparr>"
  have dis: "krn_cpu_interrupt_disabled (irq_mask ?s)"
    using Cons.prems nested_mask(2) by simp
  have step: "call_handlers run nest n (h # hs) r0 s = (if r = IRQ_HANDLED then (r, ?s) else call_handlers run nest n hs r ?s)"
    using run nested_mask(1) [OF Cons.prems] by (cases nest) (simp_all add: Let_def)
  show ?case
  proof (cases "r = IRQ_HANDLED")
    case True
    then show ?thesis using step run by auto
  next
    case False
    obtain r' where "call_handlers run nest n hs r ?s =
        (r', ?s\<lparr>dev := run_handlers run n hs (dev ?s),
          irq_mask := (if nest \<and> hs \<noteq> [] then (irq_mask ?s)\<lparr>sie := sie (irq_mask ?s) OR SIE_SEIE\<rparr> else irq_mask ?s)\<rparr>)"
      using Cons.IH [OF dis, of r] by blast
    then show ?thesis using step run False by (auto simp: or.assoc)
  qed
qed simp

lemma upd_line_twice [simp]: "upd_line i f (upd_line i g s) = upd_line i (\<lambda>l. f (g l)) s"
  by simp

lemma refs_same: "refs (irqs s i) = n \<Longrightarrow> upd_line i (refs_update (\<lambda>_. n)) s = s"
  by (cases "irqs s i") (auto simp: fun_upd_twice_eq intro!: irq_info.equality)

lemma invoke_run:
  assumes line: "ctrlr (irqs s i) = Some k" "IRQ_CTRLR_OPS_IS_VALID (ctrlrs s k)" "irq (irqs s i) = of_nat i" "i < NR_IRQS"
    and refs: "refs (irqs s i) = 3" and dis: "krn_cpu_interrupt_disabled (irq_mask s)"
  shows "\<exists>rc. invoke_irq_handler run i s = Some (rc, s\<lparr>dev := run_handlers run (of_nat i) (handlers (irqs s i)) (dev s),
      irq_mask := opened (irqs s i) (irq_mask s)\<rparr>)"
proof -
  let ?s = "upd_line i (refs_update (\<lambda>_. 4)) s"
  have small: "unat (irq (irqs s i)) < NR_IRQS"
    using line(3,4) by (simp add: NR_IRQS_def unat_of_nat)
  have get: "irqline_get i s = Some (True, ?s)"
    using get_line [of 3 s i] refs by simp
  let ?t = "?s\<lparr>dev := run_handlers run (of_nat i) (handlers (irqs s i)) (dev s), irq_mask := opened (irqs s i) (irq_mask s)\<rparr>"
  obtain r where call: "call_handlers run (attr (irqs ?s i) AND IRQ_ATTR_NESTABLE \<noteq> 0) (irq (irqs ?s i)) (handlers (irqs ?s i))
      IRQ_NOT_HANDLED ?s = (r, ?t)"
    using call_handlers_run [of ?s run "attr (irqs s i) AND IRQ_ATTR_NESTABLE \<noteq> 0" "irq (irqs s i)" "handlers (irqs s i)" IRQ_NOT_HANDLED]
      dis line(3) by (auto simp: opened_def)
  have put: "irqline_put i ?t = Some (False, upd_line i (refs_update (\<lambda>_. 3)) ?t)"
    by (rule put_line) (use line in simp_all)
  have same: "upd_line i (refs_update (\<lambda>_. 3)) ?t =
      s\<lparr>dev := run_handlers run (of_nat i) (handlers (irqs s i)) (dev s), irq_mask := opened (irqs s i) (irq_mask s)\<rparr>"
    using refs by (cases s, cases "irqs s i") (auto simp: fun_eq_iff)
  show ?thesis
    unfolding invoke_irq_handler_def using small dis
    by (simp only: kassert_simps bind.bind_lunit get split Let_def simp_thms if_False call put same) blast
qed

lemma handle_run:
  assumes line: "ctrlr (irqs s i) = Some k" "IRQ_CTRLR_OPS_IS_VALID (ctrlrs s k)" "irq (irqs s i) = of_nat i" "i < NR_IRQS"
    and ops: "enable_irq (ctrlrs s k) = Some en" "disable_irq (ctrlrs s k) = Some dis"
    and refs: "refs (irqs s i) = 2" and masked: "krn_cpu_interrupt_disabled (irq_mask s)"
  shows "\<exists>rc. handle_irq_line run i s =
    Some (rc, s\<lparr>dev := serve run s i (dev s), irq_mask := opened (irqs s i) (irq_mask s)\<rparr>)"
proof -
  let ?c = "ctrlrs s k" and ?n = "of_nat i :: u32" and ?l = "irqs s i"
  obtain e where e: "eoi ?c = Some e" using line(2) by (auto simp: IRQ_CTRLR_OPS_IS_VALID_def)
  have has: "IRQ_CTRLR_OPS_HAS_LINEMASK ?c"
    using line(2) by (simp add: IRQ_CTRLR_OPS_IS_VALID_def IRQ_CTRLR_OPS_HAS_LINEMASK_def)
  have small: "unat (irq ?l) < NR_IRQS"
    using line(3,4) by (simp add: NR_IRQS_def unat_of_nat)
  define d1 where "d1 = (if IRQ_CTRLR_OPS_HAS_PRIMASK ?c then the (set_priority ?c) (prio ?l) (dev s) else dev s)"
  define d2 where "d2 = e ?n (dis ?n d1)"
  define d3 where "d3 = run_handlers run ?n (handlers ?l) d2"
  let ?s1 = "upd_line i (refs_update (\<lambda>_. 3)) s" and ?m = "opened ?l (irq_mask s)"
  have get: "irqline_get i s = Some (True, ?s1)" using get_line [of 2 s i] refs by simp
  have inv: "\<exists>rc. invoke_irq_handler run i (?s1\<lparr>dev := d2\<rparr>) = Some (rc, ?s1\<lparr>dev := d3, irq_mask := ?m\<rparr>)"
    using invoke_run [of "?s1\<lparr>dev := d2\<rparr>" i k run] line masked by (simp add: d3_def opened_def)
  have put: "irqline_put i (?s1\<lparr>dev := d3, irq_mask := ?m\<rparr>) =
      Some (False, upd_line i (refs_update (\<lambda>_. 2)) (?s1\<lparr>dev := d3, irq_mask := ?m\<rparr>))"
    by (rule put_line) (use line in simp_all)
  have same: "upd_line i (refs_update (\<lambda>_. 2)) (?s1\<lparr>dev := d3, irq_mask := ?m\<rparr>) = s\<lparr>dev := d3, irq_mask := ?m\<rparr>"
    using refs by (cases s, cases "irqs s i") (auto simp: fun_eq_iff)
  show ?thesis
  proof (cases "IRQ_CTRLR_OPS_HAS_PRIMASK ?c")
    case True
    then obtain getp setp where pr: "get_priority ?c = Some getp" "set_priority ?c = Some setp"
      by (auto simp: IRQ_CTRLR_OPS_HAS_PRIMASK_def)
    then have d1: "setp (prio ?l) (dev s) = d1" using True by (simp add: d1_def)
    have "serve run s i (dev s) = setp (getp (dev s)) (en ?n d3)"
      using True pr ops e line(1) by (simp add: serve_def Let_def d3_def d2_def d1_def)
    then show ?thesis
      using inv small get True pr has line ops e put [unfolded same]
      by (force simp: handle_irq_line_def Let_def d1 d2_def)
  next
    case False
    have "serve run s i (dev s) = en ?n d3"
      using False ops e line(1) by (simp add: serve_def Let_def d3_def d2_def d1_def)
    moreover have "d1 = dev s" using False by (simp add: d1_def)
    ultimately show ?thesis
      using inv small get False has line ops e put [unfolded same]
      by (force simp: handle_irq_line_def Let_def d2_def)
  qed
qed

text \<open>With the lock held.\<close>

abbreviation entered_irq :: "'d irq_info \<Rightarrow> 'd irq_info" where
  "entered_irq s \<equiv> s\<lparr>irq_lock := lock_taken (irq_lock s), irq_mask := rv64_cpu_disable_interrupt (irq_mask s)\<rparr>"

lemma dev_irrelevant [simp]:
  "line_ok (s\<lparr>dev := d\<rparr>) i \<longleftrightarrow> line_ok s i" "serve run (s\<lparr>dev := d\<rparr>) i = serve run s i"
  "first_pending (s\<lparr>dev := d\<rparr>) is d' = first_pending s is d'"
proof -
  show "line_ok (s\<lparr>dev := d\<rparr>) i \<longleftrightarrow> line_ok s i" by (simp add: line_ok_def)
  show "serve run (s\<lparr>dev := d\<rparr>) i = serve run s i" by (rule ext) (simp add: serve_def cong: if_cong)
  show "first_pending (s\<lparr>dev := d\<rparr>) is d' = first_pending s is d'"
    by (induction "is" arbitrary: d') (simp_all split: prod.split)
qed

lemma opened_simps:
  "sstatus (opened l m) = sstatus m" "krn_cpu_interrupt_disabled m \<Longrightarrow> krn_cpu_interrupt_disabled (opened l m)"
  using nested_mask(2) by (simp_all add: opened_def)

lemma scan_run:
  assumes "\<forall>i\<in>set is. line_ok s i" and free: "lock_free (irq_lock s)" and masked: "krn_cpu_interrupt_disabled (irq_mask s)"
  shows "irq_scan run (sstatus (irq_mask s)) is (entered_irq s) =
    (case first_pending s is (dev s) of
       (None, d) \<Rightarrow> Some (False, sstatus (irq_mask s), entered_irq (s\<lparr>dev := d\<rparr>))
     | (Some i, d) \<Rightarrow> Some (True, sstatus (irq_mask s),
         entered_irq (s\<lparr>dev := serve run s i d, irq_mask := opened (irqs s i) (irq_mask s)\<rparr>)))"
  using assms
proof (induction "is" arbitrary: s)
  case (Cons i "is")
  obtain k where line: "ctrlr (irqs s i) = Some k" "IRQ_CTRLR_OPS_IS_VALID (ctrlrs s k)" "irq (irqs s i) = of_nat i"
      "i < NR_IRQS" "refs (irqs s i) = 1" and ops: "enable_irq (ctrlrs s k) \<noteq> None" "disable_irq (ctrlrs s k) \<noteq> None"
    using Cons.prems(1) by (auto simp: line_ok_def)
  obtain pend where pend: "irq_is_pending (ctrlrs s k) = Some pend"
    using line(2) by (auto simp: IRQ_CTRLR_OPS_IS_VALID_def)
  obtain b d where poll: "pend (of_nat i) (prio (irqs s i)) (dev s) = (b, d)" by (cases "pend (of_nat i) (prio (irqs s i)) (dev s)")
  let ?s2 = "upd_line i (refs_update (\<lambda>_. 2)) (s\<lparr>dev := d\<rparr>)"
  have get: "irqline_get i (entered_irq s) = Some (True, upd_line i (refs_update (\<lambda>_. 2)) (entered_irq s))"
    using get_line [of 1 "entered_irq s" i] line(5) by simp
  have s1: "(upd_line i (refs_update (\<lambda>_. 2)) (entered_irq s))\<lparr>dev := d\<rparr> = entered_irq ?s2"
      "ctrlr (irqs (upd_line i (refs_update (\<lambda>_. 2)) (entered_irq s)) i) = Some k"
      "ctrlrs (upd_line i (refs_update (\<lambda>_. 2)) (entered_irq s)) k = ctrlrs s k"
      "pend (irq (irqs (upd_line i (refs_update (\<lambda>_. 2)) (entered_irq s)) i)) (prio (irqs (upd_line i (refs_update (\<lambda>_. 2)) (entered_irq s)) i))
        (dev (upd_line i (refs_update (\<lambda>_. 2)) (entered_irq s))) = (b, d)"
    using line poll by simp_all
  note step = irq_scan.simps(2) get bind.bind_lunit split simp_thms if_False if_True Let_def s1 pend line(2) kassert_simps
  show ?case
  proof (cases b)
    case False
    have "irqline_put i (entered_irq ?s2) = Some (False, upd_line i (refs_update (\<lambda>_. 1)) (entered_irq ?s2))"
      by (rule put_line) (use line in simp_all)
    moreover have "upd_line i (refs_update (\<lambda>_. 1)) (entered_irq ?s2) = entered_irq (s\<lparr>dev := d\<rparr>)"
      using line(5) by (cases s, cases "irqs s i") (auto simp: fun_eq_iff)
    ultimately have "irq_scan run (sstatus (irq_mask s)) (i # is) (entered_irq s) = irq_scan run (sstatus (irq_mask s)) is (entered_irq (s\<lparr>dev := d\<rparr>))"
      using False by (simp only: step)
    then show ?thesis
      using Cons.IH [of "s\<lparr>dev := d\<rparr>"] Cons.prems poll pend line False by (simp split: prod.splits option.splits)
  next
    case True
    obtain en dis where ops': "enable_irq (ctrlrs s k) = Some en" "disable_irq (ctrlrs s k) = Some dis" using ops by blast
    have leave: "unlock_irq (sstatus (irq_mask s)) (entered_irq ?s2) = Some ?s2"
      using irqs.leave_entered [of s ?s2] Cons.prems(2) by simp
    let ?m = "opened (irqs s i) (irq_mask s)"
    let ?s4 = "?s2\<lparr>dev := serve run ?s2 i d, irq_mask := ?m\<rparr>"
    obtain rc where handle: "handle_irq_line run i ?s2 = Some (rc, ?s4)"
      using handle_run [of ?s2 i k en dis run] line ops' Cons.prems(3) by (auto simp: opened_def)
    have put: "irqline_put i ?s4 = Some (False, upd_line i (refs_update (\<lambda>_. 1)) ?s4)"
      by (rule put_line) (use line in simp_all)
    have "serve run ?s2 i d = serve run s i d" using line by (simp add: serve_def cong: if_cong)
    then have same: "upd_line i (refs_update (\<lambda>_. 1)) ?s4 = s\<lparr>dev := serve run s i d, irq_mask := ?m\<rparr>" (is "_ = ?s5")
      using line(5) by (cases s, cases "irqs s i") (auto simp: fun_eq_iff)
    have enter: "lock_irq ?s5 = Some (sstatus (irq_mask s), entered_irq ?s5)"
      using irqs.enter_free [of ?s5] Cons.prems(2) opened_simps(1) by simp
    have "irq_scan run (sstatus (irq_mask s)) (i # is) (entered_irq s) = Some (True, sstatus (irq_mask s), entered_irq ?s5)"
      using True by (simp only: step leave handle put [unfolded same] enter)
    then show ?thesis
      using poll pend line True by simp
  qed
qed simp

text \<open>
  C36: \<open>irq_handle_irq\<close> implements a plain dispatch. When every line in the tree has one reference and a
  controller that can switch it, the lock is free and interrupts are off, then it polls the lines from
  the right end of the tree up to the first one whose controller reports it as pending, and serves that
  one line: it raises the priority mask, masks the line, acknowledges it, runs the handlers up to the
  first that takes the interrupt, unmasks the line and restores the priority mask. No other device
  is touched, all references are given back, the lock is free again, and the result is \<open>ESRCH\<close> exactly
  if no line was pending. What the handlers return does not change the result: it is success as well
  when every handler of the pending line has declined the interrupt.
\<close>

theorem irq_dispatch:
  assumes "\<forall>i\<in>set (prio_que s). line_ok s i" and "lock_free (irq_lock s)" and "krn_cpu_interrupt_disabled (irq_mask s)"
  shows "irq_handle_irq run s =
    (case first_pending s (rev (prio_que s)) (dev s) of
       (None, d) \<Rightarrow> Some (Inl ESRCH, s\<lparr>dev := d\<rparr>)
     | (Some i, d) \<Rightarrow> Some (Inr (), s\<lparr>dev := serve run s i d, irq_mask := opened (irqs s i) (irq_mask s)\<rparr>))"
proof -
  have scan: "irq_scan run (sstatus (irq_mask s)) (rev (prio_que s)) (entered_irq s) =
    (case first_pending s (rev (prio_que s)) (dev s) of
       (None, d) \<Rightarrow> Some (False, sstatus (irq_mask s), entered_irq (s\<lparr>dev := d\<rparr>))
     | (Some i, d) \<Rightarrow> Some (True, sstatus (irq_mask s),
         entered_irq (s\<lparr>dev := serve run s i d, irq_mask := opened (irqs s i) (irq_mask s)\<rparr>)))"
    using scan_run [of "rev (prio_que s)" s run] assms by simp
  have leave: "unlock_irq (sstatus (irq_mask s)) (entered_irq t) = Some t"
    if "irq_lock t = irq_lock s" "sstatus (irq_mask t) = sstatus (irq_mask s)" for t
    using irqs.leave_entered [of t t] that assms(2) by simp
  note run = irq_handle_irq_def irqs.enter_free [OF assms(2)] bind.bind_lunit split irq_info.select_convs irq_info.update_convs scan
  obtain p d where first: "first_pending s (rev (prio_que s)) (dev s) = (p, d)" by fastforce
  have enter: "lock_irq s = Some (sstatus (irq_mask s), entered_irq s)" "prio_que (entered_irq s) = prio_que s"
    using irqs.enter_free [OF assms(2)] by simp_all
  show ?thesis
  proof (cases p)
    case None
    then show ?thesis
      using scan first leave [of "s\<lparr>dev := d\<rparr>"] enter by (simp add: irq_handle_irq_def)
  next
    case (Some i)
    let ?t = "s\<lparr>dev := serve run s i d, irq_mask := opened (irqs s i) (irq_mask s)\<rparr>"
    have "irq_scan run (sstatus (irq_mask s)) (rev (prio_que s)) (entered_irq s) = Some (True, sstatus (irq_mask s), entered_irq ?t)"
      using scan first Some by simp
    moreover have "unlock_irq (sstatus (irq_mask s)) (entered_irq ?t) = Some ?t"
      by (rule leave) (simp_all add: opened_simps(1))
    ultimately have "irq_handle_irq run s = Some (Inr (), ?t)"
      by (simp only: irq_handle_irq_def enter bind.bind_lunit split simp_thms if_False)
    then show ?thesis using first Some by simp
  qed
qed

section \<open>Registration of handlers\<close>

lemma insert_unset_line:
  assumes "pri i = 0" and "\<forall>j\<in>set xs. 0 < pri j"
  shows "line_tree_insert shape pri i xs = Inr (xs @ [i])"
proof -
  have "takeWhile (\<lambda>j. irq_line_cmp (pri i) (pri j) > 0) xs = xs" "dropWhile (\<lambda>j. irq_line_cmp (pri i) (pri j) > 0) xs = []"
    using assms by (auto simp: irq_line_cmp_def takeWhile_eq_all_conv dropWhile_eq_Nil_conv)
  then show ?thesis by (simp only: line_tree_insert_def Let_def) simp
qed

lemma last_put:
  assumes "ctrlr (irqs s i) = Some k" "IRQ_CTRLR_OPS_IS_VALID (ctrlrs s k)" "refs (irqs s i) = 1"
    and "disable_irq (ctrlrs s k) = Some dis"
  shows "irqline_put i s = Some (True, s\<lparr>prio_que := remove1 i (prio_que s), irqs := (irqs s)(i := (irqs s i)\<lparr>refs := 0\<rparr>),
    dev := dis (irq (irqs s i)) (if IRQ_CTRLR_OPS_HAS_PRIMASK (ctrlrs s k) \<and> prio (irqs s i) > the (get_priority (ctrlrs s k)) (dev s)
      then the (set_priority (ctrlrs s k)) (prio (irqs s i)) (dev s) else dev s)\<rparr>)"
proof -
  have "IRQ_CTRLR_OPS_HAS_LINEMASK (ctrlrs s k)"
    using assms(2) by (simp add: IRQ_CTRLR_OPS_IS_VALID_def IRQ_CTRLR_OPS_HAS_LINEMASK_def)
  moreover have "irq_info.dev_update f (irqs_update g (prio_que_update h s)) = irqs_update g (prio_que_update h (irq_info.dev_update f s))" for f g h
    by simp
  ultimately show ?thesis
    using assms small_refs by (auto simp: irqline_put_def Let_def IRQ_CTRLR_OPS_HAS_PRIMASK_def intro!: irq_info.equality)
qed

text \<open>
  C37: registering the first handler of a line whose old priority is 0, while every line in the tree has
  a positive priority, configures the line, gives it one reference and puts it at the right end of
  the tree, where \<open>irq_handle_irq\<close> looks first, whatever priority was asked for; unregistering the handler
  takes the line out of the tree, masks it at its controller and leaves the tree as it was. The
  counter of the controller is one less than before.
\<close>

theorem irq_registration:
  fixes s s1 :: "'d irq_info" and h i k :: nat and priv :: u64 and pr at :: u32 and d d2 :: 'd
  assumes "lock_free (irq_lock s)" and "i < NR_IRQS"
    and "find_ctrlr_by_irq (of_nat i) (ctrlrs s) (ctrlr_que s) = Some (Some k)"
    and "IRQ_CTRLR_OPS_IS_VALID (ctrlrs s k)" and "config_irq (ctrlrs s k) = Some conf" and "disable_irq (ctrlrs s k) = Some dis"
    and "conf (of_nat i) at pr (dev s) = (Inr (), d)"
    and "handlers (irqs s i) = []" and "prio (irqs s i) = 0" and "i \<notin> set (prio_que s)"
    and "\<forall>j\<in>set (prio_que s). 0 < prio (irqs s j)"
    and s1: "s1 = s\<lparr>prio_que := prio_que s @ [i],
      irqs := (irqs s)(i := \<lparr>refs = 1, irq = of_nat i, prio = pr, attr = at,
        handlers = [\<lparr>handler = h, handler_private = priv\<rparr>], ctrlr = Some k\<rparr>), dev := d\<rparr>"
    and d2: "d2 = dis (of_nat i) (if IRQ_CTRLR_OPS_HAS_PRIMASK (ctrlrs s k) \<and> pr > the (get_priority (ctrlrs s k)) d
      then the (set_priority (ctrlrs s k)) pr d else d)"
  shows "irq_register_handler shape (Inr ()) (of_nat i) at pr h priv s = Some (Inr (), s1) \<and>
    irq_unregister_handler (of_nat i) h s1 = Some (Inr (), s1\<lparr>prio_que := prio_que s,
      irqs := (irqs s1)(i := (irqs s1 i)\<lparr>refs := 0, handlers := []\<rparr>),
      ctrlrs := (ctrlrs s)(k := (ctrlrs s k)\<lparr>nr_handlers := nr_handlers (ctrlrs s k) - 1\<rparr>), dev := d2\<rparr>)"
proof
  have n: "unat (of_nat i :: u32) = i" using assms(2) by (simp add: NR_IRQS_def unat_of_nat)
  have bound: "\<not> NR_IRQS \<le> unat (of_nat i :: u32)" using n assms(2) by simp
  have enter: "lock_irq t = Some (sstatus (irq_mask t), entered_irq t)" if "irq_lock t = irq_lock s" for t :: "'d irq_info"
    using irqs.enter_free [of t] that assms(1) by simp
  have leave: "unlock_irq (sstatus (irq_mask t)) (entered_irq t) = Some t" if "irq_lock t = irq_lock s" for t :: "'d irq_info"
    using irqs.leave_entered [of t t] that assms(1) by simp
  have tree: "line_tree_insert shape (\<lambda>j. prio (irqs s j)) i (prio_que s) = Inr (prio_que s @ [i])"
    using insert_unset_line [of "\<lambda>j. prio (irqs s j)" i "prio_que s" shape] assms(9,11) by simp
  let ?t = "entered_irq s\<lparr>prio_que := prio_que s @ [i], dev := d, irqs := (irqs s)(i := handlers_update
      (\<lambda>hs. hs @ [\<lparr>handler = h, handler_private = priv\<rparr>])
      (irqs s i\<lparr>irq := of_nat i, attr := at, prio := pr, ctrlr := Some k, irq_line.refs := 1\<rparr>))\<rparr>"
  have "?t = entered_irq s1"
    using assms(8) by (cases s, cases "irqs s i") (auto simp: s1)
  then have u1: "unlock_irq (sstatus (irq_mask s)) ?t = Some s1"
    using leave [of s1] s1 by simp
  show "irq_register_handler shape (Inr ()) (of_nat i) at pr h priv s = Some (Inr (), s1)"
    using assms(2-8) enter [of s] tree u1
    by (simp add: irq_register_handler_def n Let_def)
  show "irq_unregister_handler (of_nat i) h s1 = Some (Inr (), s1\<lparr>prio_que := prio_que s,
      irqs := (irqs s1)(i := (irqs s1 i)\<lparr>refs := 0, handlers := []\<rparr>),
      ctrlrs := (ctrlrs s)(k := (ctrlrs s k)\<lparr>nr_handlers := nr_handlers (ctrlrs s k) - 1\<rparr>), dev := d2\<rparr>)" (is "_ = Some (_, ?s2)")
  proof -
    have line: "ctrlr (irqs s1 i) = Some k" "ctrlrs s1 = ctrlrs s" "handlers (irqs s1 i) = [\<lparr>handler = h, handler_private = priv\<rparr>]"
        "refs (irqs s1 i) = 1" "irq (irqs s1 i) = of_nat i" "prio (irqs s1 i) = pr"
        "remove1 i (prio_que s1) = prio_que s" "dev s1 = d" "irq_lock s1 = irq_lock s" "irq_mask s1 = irq_mask s"
      using assms(10) by (simp_all add: s1 remove1_append)
    let ?t = "entered_irq s1\<lparr>irqs := (irqs s1)(i := (irqs s1 i)\<lparr>handlers := []\<rparr>),
      ctrlrs := (ctrlrs s)(k := (ctrlrs s k)\<lparr>nr_handlers := nr_handlers (ctrlrs s k) - 1\<rparr>)\<rparr>"
    let ?k = "(ctrlrs s k)\<lparr>nr_handlers := nr_handlers (ctrlrs s k) - 1\<rparr>"
    have k: "IRQ_CTRLR_OPS_IS_VALID ?k" "IRQ_CTRLR_OPS_HAS_PRIMASK ?k = IRQ_CTRLR_OPS_HAS_PRIMASK (ctrlrs s k)"
      using assms(4) by (simp_all add: IRQ_CTRLR_OPS_IS_VALID_def IRQ_CTRLR_OPS_HAS_PRIMASK_def IRQ_CTRLR_OPS_HAS_LINEMASK_def)
    have put: "irqline_put i ?t = Some (True, entered_irq ?s2)"
      using last_put [of ?t i k dis] line k assms(6) by (simp add: d2 cong: if_cong) (auto intro!: irq_info.equality irq_line.equality)
    have u2: "unlock_irq (sstatus (irq_mask s)) (entered_irq ?s2) = Some ?s2"
      using leave [of ?s2] line by simp
    have ent: "handlers_update (remove1 \<lparr>handler = h, handler_private = priv\<rparr>) (irqs s1 i) = (irqs s1 i)\<lparr>handlers := []\<rparr>"
      using line(3) by (cases "irqs s1 i") simp
    have nr: "nr_handlers_update (\<lambda>c. snd (statcnt_dec c)) (ctrlrs s k) = ?k"
      by (cases "ctrlrs s k") (simp add: statcnt_dec_def statcnt_sub_def atomic64_sub_return_def hal_atomic_defs)
    show ?thesis
      using line enter [of s1] assms(2,4) put [folded ent] u2 nr
      by (simp add: irq_unregister_handler_def n Let_def find_handler_def irq_handler_cmp_def)
  qed
qed

text \<open>A controller that records what is called, and reports line 5 as pending.\<close>

definition log_ctrlr :: "u32 list irq_ctrlr" where
  "log_ctrlr = \<lparr>min_irq = 1, max_irq = 10, nr_handlers = 0,
     config_irq = Some (\<lambda>n a p d. (Inr (), d @ [1, n])), irq_is_pending = Some (\<lambda>n p d. (n = 5, d @ [2, n])),
     enable_irq = Some (\<lambda>n d. d @ [3, n]), disable_irq = Some (\<lambda>n d. d @ [4, n]),
     get_priority = Some (\<lambda>d. 0), set_priority = Some (\<lambda>p d. d @ [5, p]), eoi = Some (\<lambda>n d. d @ [6, n]),
     initialize = Some (\<lambda>d. (Inr (), d)), finalize = Some (\<lambda>d. d)\<rparr>"

definition log_line :: "nat \<Rightarrow> irq_line" where
  "log_line i = \<lparr>refs = (if i \<in> {5, 7} then 1 else 0), irq = of_nat i, prio = (if i \<in> {5, 7} then 3 else 0), attr = IRQ_ATTR_NESTABLE,
     handlers = (if i \<in> {5, 7} then [\<lparr>handler = 0, handler_private = 8\<rparr>, \<lparr>handler = 1, handler_private = 9\<rparr>] else []), ctrlr = Some 0\<rparr>"

definition log_info :: "u32 list irq_info" where
  "log_info = \<lparr>irq_lock = spinlock_init, irq_mask = \<lparr>sstatus = 0, sie = 0\<rparr>, prio_que = [5, 7], ctrlr_que = [0],
     irqs = log_line, ctrlrs = (\<lambda>_. log_ctrlr), dev = []\<rparr>"

definition log_run :: "nat \<Rightarrow> u32 \<Rightarrow> u64 \<Rightarrow> u32 list \<Rightarrow> int \<times> u32 list" where
  "log_run h n priv d = (if h = 1 then IRQ_HANDLED else IRQ_NOT_HANDLED, d @ [7, ucast priv])"

lemma log_valid: "IRQ_CTRLR_OPS_IS_VALID log_ctrlr" "IRQ_CTRLR_OPS_HAS_PRIMASK log_ctrlr"
  by (simp_all add: IRQ_CTRLR_OPS_IS_VALID_def IRQ_CTRLR_OPS_HAS_LINEMASK_def IRQ_CTRLR_OPS_HAS_PRIMASK_def log_ctrlr_def)

lemma log_free: "lock_free (irq_lock log_info)" "krn_cpu_interrupt_disabled (irq_mask log_info)"
  by (simp_all add: log_info_def krn_cpu_interrupt_disabled_def hal_intrflags_interrupt_disabled_def
      rv64_cpu_save_flags_def spinlock_init_def lock_free_def)

theorem irq_dispatch_witness:
  "irq_handle_irq log_run log_info = Some (Inr (),
     log_info\<lparr>dev := [2, 7, 2, 5, 5, 3, 4, 5, 6, 5, 7, 8, 7, 9, 3, 5, 5, 0], irq_mask := \<lparr>sstatus = 0, sie = SIE_SEIE\<rparr>\<rparr>)"
proof -
  have "\<forall>i\<in>set (prio_que log_info). line_ok log_info i"
    using log_valid(1) by (simp add: line_ok_def log_info_def log_line_def NR_IRQS_def) (simp add: log_ctrlr_def)
  moreover have "first_pending log_info (rev (prio_que log_info)) (dev log_info) = (Some 5, [2, 7, 2, 5])"
    by (simp add: log_info_def log_line_def log_ctrlr_def)
  moreover have "serve log_run log_info 5 [2, 7, 2, 5] = [2, 7, 2, 5, 5, 3, 4, 5, 6, 5, 7, 8, 7, 9, 3, 5, 5, 0]"
    using log_valid(2) by (simp add: serve_def log_info_def log_line_def Let_def log_run_def IRQ_HANDLED_def IRQ_NOT_HANDLED_def)
      (simp add: log_ctrlr_def)
  moreover have "opened (irqs log_info 5) (irq_mask log_info) = \<lparr>sstatus = 0, sie = SIE_SEIE\<rparr>"
    by (simp add: opened_def log_info_def log_line_def IRQ_ATTR_NESTABLE_def)
  ultimately show ?thesis
    using irq_dispatch [of log_info log_run] log_free by simp
qed

theorem irq_registration_witness:
  "\<exists>s1 s2. irq_register_handler (\<lambda>xs i. Inr xs) (Inr ()) 3 0 2 1 0 log_info = Some (Inr (), s1) \<and> prio_que s1 = [5, 7, 3] \<and>
     irq_unregister_handler 3 1 s1 = Some (Inr (), s2) \<and> prio_que s2 = [5, 7] \<and> dev s2 = [1, 3, 5, 2, 4, 3] \<and>
     nr_handlers (ctrlrs s2 0) = - 1"
proof -
  have ops: "config_irq log_ctrlr = Some (\<lambda>n a p d. (Inr (), d @ [1, n]))" "disable_irq log_ctrlr = Some (\<lambda>n d. d @ [4, n])"
      "get_priority log_ctrlr = Some (\<lambda>d. 0)" "set_priority log_ctrlr = Some (\<lambda>p d. d @ [5, p])"
      "min_irq log_ctrlr = 1" "max_irq log_ctrlr = 10" "nr_handlers log_ctrlr = 0"
    by (simp_all add: log_ctrlr_def)
  show ?thesis
    using irq_registration [of log_info 3 0 "\<lambda>n a p d. (Inr (), d @ [1, n])" "\<lambda>n d. d @ [4, n]" 0 2 "[1, 3]" _ 1 0 _ "\<lambda>xs i. Inr xs"]
      log_free(1) log_valid ops
    by (simp add: log_info_def log_line_def NR_IRQS_def irq_ctrlr_cmp_by_irq_def)
qed

section \<open>Registration of controllers\<close>

text \<open>
  The range test is the overlap of the half-open ranges, except that it misses a registered range
  that starts below the new one and ends with it.
\<close>

lemma ranges_overlap_iff:
  assumes "min_irq c < max_irq c" and "min_irq f < max_irq f"
  shows "irq_ranges_overlap c f \<longleftrightarrow> min_irq f < max_irq c \<and> min_irq c < max_irq f \<and> \<not> (min_irq f < min_irq c \<and> max_irq f = max_irq c)"
  using assms unfolding irq_ranges_overlap_def by auto

lemma register_ctrlr_outcome:
  assumes "lock_free (irq_lock s)" and "IRQ_CTRLR_OPS_IS_VALID (ctrlrs s k)" and "initialize (ctrlrs s k) = Some init"
    and "init (dev s) = (rc, d)"
  shows "irq_register_ctrlr k s = Some
    (if k \<in> set (ctrlr_que s) \<or> (\<exists>f\<in>set (ctrlr_que s). irq_ranges_overlap (ctrlrs s k) (ctrlrs s f)) then (Inl EBUSY, s)
     else (case rc of
         Inl e \<Rightarrow> (Inl e, s\<lparr>dev := d\<rparr>)
       | Inr _ \<Rightarrow> (Inr (), s\<lparr>ctrlr_que := ctrlr_que s @ [k], ctrlrs := (ctrlrs s)(k := (ctrlrs s k)\<lparr>nr_handlers := 0\<rparr>), dev := d\<rparr>)))"
proof -
  have enter: "lock_irq s = Some (sstatus (irq_mask s), entered_irq s)"
    using irqs.enter_free [of s] assms(1) by simp
  have leave: "unlock_irq (sstatus (irq_mask t)) (entered_irq t) = Some t" if "irq_lock t = irq_lock s" for t :: "'a irq_info"
    using irqs.leave_entered [of t t] that assms(1) by simp
  have known: "find_ctrlr k q = None \<longleftrightarrow> k \<notin> set q" for q
    by (auto simp: find_ctrlr_def find_None_iff irq_ctrlr_cmp_def)
  let ?t = "s\<lparr>ctrlr_que := ctrlr_que s @ [k], ctrlrs := (ctrlrs s)(k := (ctrlrs s k)\<lparr>nr_handlers := 0\<rparr>), dev := d\<rparr>"
  have e1: "(entered_irq s)\<lparr>dev := d\<rparr> = entered_irq (s\<lparr>dev := d\<rparr>)" by simp
  have l1: "unlock_irq (sstatus (irq_mask s)) ((entered_irq s)\<lparr>dev := d\<rparr>) = Some (s\<lparr>dev := d\<rparr>)"
    unfolding e1 using leave [of "s\<lparr>dev := d\<rparr>"] by simp
  have e2: "(entered_irq s)\<lparr>dev := d, ctrlrs := (ctrlrs s)(k := (ctrlrs s k)\<lparr>nr_handlers := 0\<rparr>), ctrlr_que := ctrlr_que s @ [k]\<rparr> = entered_irq ?t"
    by simp
  have l2: "unlock_irq (sstatus (irq_mask s)) ((entered_irq s)\<lparr>dev := d, ctrlrs := (ctrlrs s)(k := (ctrlrs s k)\<lparr>nr_handlers := 0\<rparr>),
      ctrlr_que := ctrlr_que s @ [k]\<rparr>) = Some ?t"
    unfolding e2 using leave [of ?t] by simp
  have zero: "nr_handlers_update (statcnt_set 0) (ctrlrs s k) = (ctrlrs s k)\<lparr>nr_handlers := 0\<rparr>"
    by (cases "ctrlrs s k") (simp add: statcnt_set_def atomic64_set_def atomic64_set_fetch_def hal_atomic_defs)
  show ?thesis
  proof (cases "k \<in> set (ctrlr_que s) \<or> (\<exists>f\<in>set (ctrlr_que s). irq_ranges_overlap (ctrlrs s k) (ctrlrs s f))")
    case True
    then show ?thesis
      using assms(2) enter leave [of s] by (auto simp: irq_register_ctrlr_def known list_ex_iff)
  next
    case False
    then show ?thesis
      using assms(2-4) enter l1 l2 zero
      by (auto simp: irq_register_ctrlr_def known list_ex_iff split: sum.split)
  qed
qed

end
