(* ===== verification/EpochTime.thy ===== *)
theory EpochTime
  imports Prelude "HOL-Library.Signed_Division"
begin

text \<open>
  Calendar time (klib/epoch_time.c): the conversions between seconds since 1970-01-01 00:00:00 and a
  broken-down time, in the Gregorian calendar. The arithmetic is on 64-bit signed integers and its
  results stay within them for every argument, so it is written on \<open>int\<close>, with the division of C,
  which rounds towards 0 (\<open>sdiv\<close>, \<open>smod\<close>). The name of the time zone, always a null pointer, is
  left out of the record.

  The reference is the calendar itself: which dates exist and how many days they are after 1970-01-01.
\<close>

section \<open>Constants\<close>

definition INT_MIN :: int where "INT_MIN = - (2 ^ 31)"
definition INT_MAX :: int where "INT_MAX = 2 ^ 31 - 1"
definition MILLENNIUM_SECS :: int where "MILLENNIUM_SECS = 946684800"
definition DAYS_PER_YEAR :: int where "DAYS_PER_YEAR = 365"
definition DAYS_PER_LEAP_YEAR :: int where "DAYS_PER_LEAP_YEAR = 366"
definition MONS_PER_YEAR :: int where "MONS_PER_YEAR = 12"
definition MAR2FEB_OFFSET_MON :: int where "MAR2FEB_OFFSET_MON = 2"
definition MAR2FEB_MAX_MON :: int where "MAR2FEB_MAX_MON = MONS_PER_YEAR - MAR2FEB_OFFSET_MON"
definition SECS_PER_MIN :: int where "SECS_PER_MIN = 60"
definition SECS_PER_HOUR :: int where "SECS_PER_HOUR = 60 * SECS_PER_MIN"
definition MINS_PER_HOUR :: int where "MINS_PER_HOUR = 60"
definition SECS_PER_DAY :: int where "SECS_PER_DAY = 24 * SECS_PER_HOUR"
definition SECS_PER_YEAR :: int where "SECS_PER_YEAR = DAYS_PER_YEAR * SECS_PER_DAY"
definition SECS_PER_LEAP_YEAR :: int where "SECS_PER_LEAP_YEAR = DAYS_PER_LEAP_YEAR * SECS_PER_DAY"
definition DAYS_PER_WEEK :: int where "DAYS_PER_WEEK = 7"
definition MDAYS_IN_FEB_LEAP :: int where "MDAYS_IN_FEB_LEAP = 29"
definition MDAYS_IN_FEB :: int where "MDAYS_IN_FEB = 28"
definition MDAYS_IN_JAN :: int where "MDAYS_IN_JAN = 31"
definition YEARS_PER_CENTURY :: int where "YEARS_PER_CENTURY = 100"
definition LEAP_YEAR_PER_400Y :: int where "LEAP_YEAR_PER_400Y = 4 * YEARS_PER_CENTURY"
definition NON_LEAP_YEAR_PER_100Y :: int where "NON_LEAP_YEAR_PER_100Y = 1 * YEARS_PER_CENTURY"
definition LEAP_YEAR_PER_4Y :: int where "LEAP_YEAR_PER_4Y = 4"
definition LEAP_YEAR_PER_4Y_FOR_MOD :: int where "LEAP_YEAR_PER_4Y_FOR_MOD = 4"
definition LEAP_YEARS_PER_400Y :: int where "LEAP_YEARS_PER_400Y = 97"
definition LEAP_YEARS_PER_100Y :: int where "LEAP_YEARS_PER_100Y = 24"
definition DAYS_PER_400Y :: int where "DAYS_PER_400Y = DAYS_PER_YEAR * LEAP_YEAR_PER_400Y + LEAP_YEARS_PER_400Y"
definition DAYS_PER_100Y :: int where "DAYS_PER_100Y = DAYS_PER_YEAR * NON_LEAP_YEAR_PER_100Y + LEAP_YEARS_PER_100Y"
definition DAYS_PER_4Y :: int where "DAYS_PER_4Y = DAYS_PER_YEAR * LEAP_YEAR_PER_4Y + 1"
definition LEAPOCH :: int where "LEAPOCH = MILLENNIUM_SECS + SECS_PER_DAY * (MDAYS_IN_JAN + MDAYS_IN_FEB_LEAP)"
definition LEAPOCH_WDAY :: int where "LEAPOCH_WDAY = 3"
definition UNIXTIME_END_OF_TM_YEAR_FROM_FIRST_LEAP_YEAR :: u64 where
  "UNIXTIME_END_OF_TM_YEAR_FROM_FIRST_LEAP_YEAR = 136"
definition UNIXEAPOCH_OFFSET_TO_FIRST_LEAP_YEAR :: u64 where "UNIXEAPOCH_OFFSET_TO_FIRST_LEAP_YEAR = 2"
definition UNIXEAPOCH_YEAR_IN_TM_YEAR :: int where "UNIXEAPOCH_YEAR_IN_TM_YEAR = 70"
definition UNIXTIME_LAST_LEAP_YEAR_IN_TM_YEAR :: int where "UNIXTIME_LAST_LEAP_YEAR_IN_TM_YEAR = 68"

definition secs_through_month :: "int list" where
  "secs_through_month = map (\<lambda>days. days * SECS_PER_DAY) [0, 31, 59, 90, 120, 151, 181, 212, 243, 273, 304, 334]"

definition mar2feb_days_in_month :: "int list" where
  "mar2feb_days_in_month = [31, 30, 31, 30, 31, 31, 30, 31, 30, 31, 31, 29]"

record kernel_tm =
  tm_sec :: int
  tm_min :: int
  tm_hour :: int
  tm_mday :: int
  tm_mon :: int
  tm_year :: int
  tm_wday :: int
  tm_yday :: int
  tm_isdst :: int
  tm_gmtoff :: int

section \<open>From seconds to the calendar\<close>

text \<open>The loop over the months of a year that starts in March, with the rest of the array.\<close>

fun month_loop :: "int list \<Rightarrow> int \<Rightarrow> int \<Rightarrow> int \<times> int" where
  "month_loop [] months remdays = (months, remdays)"
| "month_loop (d # ds) months remdays =
     (if remdays \<ge> d then month_loop ds (months + 1) (remdays - d) else (months, remdays))"

text \<open>The days and the seconds of the day since 2000-03-01 00:00:00.\<close>

definition days_and_seconds :: "int \<Rightarrow> int \<times> int" where
  "days_and_seconds t =
     (let secs = t - LEAPOCH;
          days = secs sdiv SECS_PER_DAY;
          remsecs = secs smod SECS_PER_DAY
      in if remsecs < 0 then (days - 1, remsecs + SECS_PER_DAY) else (days, remsecs))"

definition day_of_week :: "int \<Rightarrow> int" where
  "day_of_week days =
     (let wday = (LEAPOCH_WDAY + days) smod DAYS_PER_WEEK
      in if wday < 0 then wday + DAYS_PER_WEEK else wday)"

text \<open>The cycles of 400, 100, 4 and 1 years since then, and the rest of the days.\<close>

definition year_cycles :: "int \<Rightarrow> int \<times> int \<times> int \<times> int \<times> int" where
  "year_cycles days =
     (let qc_cycles = days sdiv DAYS_PER_400Y;
          remdays = days smod DAYS_PER_400Y;
          (qc_cycles, remdays) = (if remdays < 0 then (qc_cycles - 1, remdays + DAYS_PER_400Y) else (qc_cycles, remdays));
          c_cycles = remdays sdiv DAYS_PER_100Y;
          c_cycles = (if c_cycles = 4 then c_cycles - 1 else c_cycles);
          remdays = remdays - c_cycles * DAYS_PER_100Y;
          q_cycles = remdays sdiv DAYS_PER_4Y;
          q_cycles = (if q_cycles = 25 then q_cycles - 1 else q_cycles);
          remdays = remdays - q_cycles * DAYS_PER_4Y;
          remyears = remdays sdiv DAYS_PER_YEAR;
          remyears = (if remyears = 4 then remyears - 1 else remyears)
      in (qc_cycles, c_cycles, q_cycles, remyears, remdays - remyears * DAYS_PER_YEAR))"

definition secs_to_tm :: "int \<Rightarrow> kernel_tm \<Rightarrow> errno + kernel_tm" where
  "secs_to_tm t tm =
     (if t < INT_MIN * SECS_PER_LEAP_YEAR \<or> t > INT_MAX * SECS_PER_LEAP_YEAR then Inl EINVAL
      else let
        (days, remsecs) = days_and_seconds t;
        wday = day_of_week days;
        (qc_cycles, c_cycles, q_cycles, remyears, remdays) = year_cycles days;
        leap = (if remyears = 0 \<and> (q_cycles \<noteq> 0 \<or> c_cycles = 0) then 1 else 0);
        yday = remdays + MDAYS_IN_JAN + MDAYS_IN_FEB + leap;
        yday = (if yday \<ge> DAYS_PER_YEAR + leap then yday - (DAYS_PER_YEAR + leap) else yday);
        years = remyears + 4 * q_cycles + YEARS_PER_CENTURY * c_cycles + 4 * YEARS_PER_CENTURY * qc_cycles;
        (months, remdays) = month_loop mar2feb_days_in_month 0 remdays;
        (months, years) = (if months \<ge> MAR2FEB_MAX_MON then (months - MONS_PER_YEAR, years + 1) else (months, years))
      in if years + NON_LEAP_YEAR_PER_100Y > INT_MAX \<or> years + NON_LEAP_YEAR_PER_100Y < INT_MIN then Inl ERANGE
         else Inr (tm\<lparr>
           tm_year := years + YEARS_PER_CENTURY,
           tm_mon := months + MAR2FEB_OFFSET_MON,
           tm_mday := remdays + 1,
           tm_wday := wday,
           tm_yday := yday,
           tm_hour := remsecs sdiv SECS_PER_HOUR,
           tm_min := (remsecs sdiv SECS_PER_MIN) smod MINS_PER_HOUR,
           tm_sec := remsecs smod SECS_PER_MIN\<rparr>))"

section \<open>From the calendar to seconds\<close>

definition month_to_secs :: "int \<Rightarrow> bool \<Rightarrow> int" where
  "month_to_secs month is_leap =
     (let t = secs_through_month ! nat month
      in if is_leap \<and> month \<ge> 2 then t + SECS_PER_DAY else t)"

text \<open>
  The result and what is stored through \<open>is_leap\<close>. The year is compared as an unsigned number, and
  \<open>leaps\<close> and \<open>centuries\<close> get their values in the nested branches.
\<close>

definition year_to_secs :: "int \<Rightarrow> int \<times> bool" where
  "year_to_secs year =
     (if word_of_int year - UNIXEAPOCH_OFFSET_TO_FIRST_LEAP_YEAR \<le> UNIXTIME_END_OF_TM_YEAR_FROM_FIRST_LEAP_YEAR
      then let y = year - UNIXTIME_LAST_LEAP_YEAR_IN_TM_YEAR;
               leaps = y sdiv LEAP_YEAR_PER_4Y;
               (leaps, is_leap) = (if y smod LEAP_YEAR_PER_4Y = 0 then (leaps - 1, True) else (leaps, False))
           in (SECS_PER_YEAR * (year - UNIXEAPOCH_YEAR_IN_TM_YEAR) + SECS_PER_DAY * leaps, is_leap)
      else let cycles = (year - YEARS_PER_CENTURY) sdiv LEAP_YEAR_PER_400Y;
               rem = (year - YEARS_PER_CENTURY) smod LEAP_YEAR_PER_400Y;
               (cycles, rem) = (if rem < 0 then (cycles - 1, rem + LEAP_YEAR_PER_400Y) else (cycles, rem));
               (is_leap, centuries, leaps) =
                 (if rem = 0 then (True, 0, 0)
                  else let (centuries, rem) =
                             (if rem \<ge> 2 * YEARS_PER_CENTURY
                              then if rem \<ge> 3 * YEARS_PER_CENTURY then (3, rem - 3 * YEARS_PER_CENTURY)
                                   else (2, rem - 2 * YEARS_PER_CENTURY)
                              else if rem \<ge> YEARS_PER_CENTURY then (1, rem - YEARS_PER_CENTURY) else (0, rem))
                       in if rem = 0 then (False, centuries, 0)
                          else let leaps = rem sdiv LEAP_YEAR_PER_4Y_FOR_MOD;
                                   rem = rem smod LEAP_YEAR_PER_4Y_FOR_MOD
                               in (rem = 0, centuries, leaps));
               leaps = leaps + LEAP_YEARS_PER_400Y * cycles + LEAP_YEARS_PER_100Y * centuries - of_bool is_leap
           in ((year - YEARS_PER_CENTURY) * SECS_PER_YEAR + leaps * SECS_PER_DAY + MILLENNIUM_SECS + SECS_PER_DAY, is_leap))"

definition tm_to_secs :: "kernel_tm \<Rightarrow> int" where
  "tm_to_secs tm =
     (let year = tm_year tm;
          month = tm_mon tm;
          (year, month) =
            (if month \<ge> MONS_PER_YEAR \<or> month < 0
             then let adj = month sdiv MONS_PER_YEAR;
                      month = month smod MONS_PER_YEAR;
                      (adj, month) = (if month < 0 then (adj - 1, month + MONS_PER_YEAR) else (adj, month))
                  in (year + adj, month)
             else (year, month));
          (t, is_leap) = year_to_secs year;
          t = t + month_to_secs month is_leap;
          t = t + SECS_PER_DAY * (tm_mday tm - 1);
          t = t + SECS_PER_HOUR * tm_hour tm;
          t = t + SECS_PER_MIN * tm_min tm
      in t + tm_sec tm)"

definition tm_zero :: kernel_tm where
  "tm_zero = \<lparr>tm_sec = 0, tm_min = 0, tm_hour = 0, tm_mday = 0, tm_mon = 0, tm_year = 0, tm_wday = 0, tm_yday = 0,
     tm_isdst = 0, tm_gmtoff = 0\<rparr>"

definition clock_mk_epoch_time :: "kernel_tm \<Rightarrow> errno + kernel_tm \<times> int" where
  "clock_mk_epoch_time tmv =
     (let t = tm_to_secs tmv
      in case secs_to_tm t tm_zero of
           Inl _ \<Rightarrow> Inl ERANGE
         | Inr new \<Rightarrow> Inr (new, t))"

definition clock_epoch_time_to_tm :: "int \<Rightarrow> errno + kernel_tm" where
  "clock_epoch_time_to_tm et =
     (case secs_to_tm et tm_zero of
        Inl _ \<Rightarrow> Inl ERANGE
      | Inr new \<Rightarrow> Inr new)"

section \<open>The calendar\<close>

definition leap_year :: "int \<Rightarrow> bool" where
  "leap_year y \<longleftrightarrow> 4 dvd y \<and> (\<not> 100 dvd y \<or> 400 dvd y)"

definition month_lengths :: "int \<Rightarrow> int list" where
  "month_lengths y = [31, if leap_year y then 29 else 28, 31, 30, 31, 30, 31, 31, 30, 31, 30, 31]"

text \<open>The days from 1970-01-01 to the first day of a year and of a month (counted from 0) of it.\<close>

definition leap_days_before :: "int \<Rightarrow> int" where
  "leap_days_before y = (y - 1) div 4 - (y - 1) div 100 + (y - 1) div 400"

definition year_start :: "int \<Rightarrow> int" where
  "year_start y = 365 * (y - 1970) + (leap_days_before y - leap_days_before 1970)"

definition month_start :: "int \<Rightarrow> int \<Rightarrow> int" where
  "month_start y m = year_start y + sum_list (take (nat m) (month_lengths y))"

text \<open>\<open>valid_tm\<close>: the fields are a date of the calendar and a time of the day.\<close>

definition valid_tm :: "kernel_tm \<Rightarrow> bool" where
  "valid_tm tm \<longleftrightarrow>
     0 \<le> tm_mon tm \<and> tm_mon tm < 12 \<and>
     1 \<le> tm_mday tm \<and> tm_mday tm \<le> month_lengths (1900 + tm_year tm) ! nat (tm_mon tm) \<and>
     0 \<le> tm_hour tm \<and> tm_hour tm < 24 \<and> 0 \<le> tm_min tm \<and> tm_min tm < 60 \<and> 0 \<le> tm_sec tm \<and> tm_sec tm < 60"

definition epoch_day :: "kernel_tm \<Rightarrow> int" where
  "epoch_day tm = month_start (1900 + tm_year tm) (tm_mon tm) + tm_mday tm - 1"

definition epoch_secs :: "kernel_tm \<Rightarrow> int" where
  "epoch_secs tm = epoch_day tm * 86400 + tm_hour tm * 3600 + tm_min tm * 60 + tm_sec tm"

section \<open>Arithmetic\<close>

text \<open>The correction of a negative remainder gives the floor.\<close>

lemma floor_pair:
  fixes s d :: int
  assumes "d > 0"
  shows "(if s smod d < 0 then (s sdiv d - 1, s smod d + d) else (s sdiv d, s smod d)) = (s div d, s mod d)"
proof -
  have eq: "s = d * (s sdiv d) + s smod d"
    using sdiv_mult_smod_eq [of s d] by (simp add: mult.commute)
  have b: "- d < s smod d" "s smod d < d"
    using smod_int_range [of d s] assms by auto
  have "s = d * (s sdiv d - 1) + (s smod d + d)" using eq by (simp add: algebra_simps)
  then show ?thesis
    using b int_div_pos_eq [OF eq] int_mod_pos_eq [OF eq]
      int_div_pos_eq [of s d "s sdiv d - 1"] int_mod_pos_eq [of s d "s sdiv d - 1"] by auto
qed

lemma sdiv_nonneg: "0 \<le> s \<Longrightarrow> 0 < d \<Longrightarrow> s sdiv d = s div d" "0 \<le> s \<Longrightarrow> 0 < d \<Longrightarrow> s smod d = s mod d" for s d :: int
  by (auto simp: signed_divide_int_eq_divide_int signed_modulo_int_eq_modulo_int sgn_if)

lemma div_step: "y div k = (y - 1) div k + of_bool (k dvd y)" if "k > 0" for k y :: int
proof -
  define q r where "q = (y - 1) div k" and "r = (y - 1) mod k"
  have y: "y = k * q + (r + 1)" and r: "0 \<le> r" "r < k"
    using mult_div_mod_eq [of k "y - 1"] that by (auto simp: q_def r_def)
  show ?thesis
  proof (cases "r + 1 = k")
    case True
    then have "y = k * (q + 1)" using y by (simp add: algebra_simps)
    then have "y div k = q + 1" "k dvd y" using that by auto
    then show ?thesis by (simp add: q_def)
  next
    case False
    then have "y div k = q" "y mod k = r + 1"
      using int_div_pos_eq [OF y] int_mod_pos_eq [OF y] r by auto
    then show ?thesis
      using r by (simp add: q_def dvd_eq_mod_eq_0)
  qed
qed

lemma year_start_Suc: "year_start (y + 1) = year_start y + (if leap_year y then 366 else 365)"
proof -
  have "400 dvd y \<Longrightarrow> 100 dvd y" "100 dvd y \<Longrightarrow> 4 dvd y"
    using dvd_trans [of 100 400 y] dvd_trans [of 4 100 y] by simp_all
  moreover have "(i + of_bool A) - (j + of_bool B) + (k + of_bool C) = (i - j + k) + of_bool (A \<and> (\<not> B \<or> C))"
    if "C \<longrightarrow> B" "B \<longrightarrow> A" for A B C and i j k :: int
    using that by (cases A; cases B; cases C) simp_all
  ultimately have "(y div 4 - y div 100) + y div 400 =
      ((y - 1) div 4 - (y - 1) div 100 + (y - 1) div 400) + of_bool (leap_year y)"
    unfolding div_step [of 4 y, simplified] div_step [of 100 y, simplified] div_step [of 400 y, simplified] leap_year_def
    by blast
  then have "leap_days_before (y + 1) = leap_days_before y + of_bool (leap_year y)"
    by (simp only: leap_days_before_def add_diff_cancel_right')
  then show ?thesis by (simp add: year_start_def algebra_simps)
qed

text \<open>The cycles of 400, 100, 4 and 1 years since March of the year 2000.\<close>

lemma cycles:
  fixes days :: int
  defines "qc \<equiv> days div 146097" and "r0 \<equiv> days mod 146097"
  defines "c \<equiv> if r0 div 36524 = 4 then r0 div 36524 - 1 else r0 div 36524"
  defines "r1 \<equiv> r0 - c * 36524"
  defines "q \<equiv> if r1 div 1461 = 25 then r1 div 1461 - 1 else r1 div 1461"
  defines "r2 \<equiv> r1 - q * 1461"
  defines "ry \<equiv> if r2 div 365 = 4 then r2 div 365 - 1 else r2 div 365"
  defines "r3 \<equiv> r2 - ry * 365"
  shows "days = 146097 * qc + 36524 * c + 1461 * q + 365 * ry + r3"
    and "0 \<le> c" "c \<le> 3" "0 \<le> q" "q \<le> 24" "0 \<le> ry" "ry \<le> 3" "0 \<le> r3" "r3 \<le> 365"
    and "r3 = 365 \<longrightarrow> ry = 3 \<and> (q \<noteq> 24 \<or> c = 3)"
proof -
  have r0: "0 \<le> r0" "r0 < 146097" by (simp_all add: r0_def)
  show "days = 146097 * qc + 36524 * c + 1461 * q + 365 * ry + r3"
    by (simp add: r3_def r2_def r1_def r0_def qc_def)
  have c: "0 \<le> c" "c \<le> 3" and r1: "0 \<le> r1" "r1 < 36525" "r1 = 36524 \<longrightarrow> c = 3"
    unfolding r1_def c_def using r0 by (auto; linarith)+
  then show "0 \<le> c" "c \<le> 3" by simp_all
  have q: "0 \<le> q" "q \<le> 24" and r2: "0 \<le> r2" "r2 < 1461" "q = 24 \<and> c \<noteq> 3 \<longrightarrow> r2 < 1460"
    unfolding r2_def q_def using r1 by (auto; linarith)+
  then show "0 \<le> q" "q \<le> 24" by simp_all
  show "0 \<le> ry" "ry \<le> 3" "0 \<le> r3" "r3 \<le> 365" "r3 = 365 \<longrightarrow> ry = 3 \<and> (q \<noteq> 24 \<or> c = 3)"
    unfolding r3_def ry_def using r2 by (auto; linarith)+
qed

lemma dvd_next:
  fixes k :: int
  assumes y: "y = k * m + r" and "0 \<le> r" "r < k"
  shows "k dvd y + 1 \<longleftrightarrow> r = k - 1"
proof -
  have "k dvd y + 1 \<longleftrightarrow> k dvd r + 1"
    unfolding y by (metis add.assoc dvd_add_right_iff dvd_triv_left)
  moreover have "k dvd r + 1 \<Longrightarrow> k \<le> r + 1"
    using assms by (intro zdvd_imp_le) simp_all
  ultimately show ?thesis using assms(3) by force
qed

text \<open>The year of given cycles, and the days to the first of March of it.\<close>

lemma year_of_cycles:
  fixes qc c q ry :: int
  assumes b: "0 \<le> c" "c \<le> 3" "0 \<le> q" "q \<le> 24" "0 \<le> ry" "ry \<le> 3"
  defines "Y \<equiv> 2000 + (ry + 4 * q + 100 * c + 400 * qc)"
  shows "leap_year Y \<longleftrightarrow> ry = 0 \<and> (q \<noteq> 0 \<or> c = 0)"
    and "leap_year (Y + 1) \<longleftrightarrow> ry = 3 \<and> (q \<noteq> 24 \<or> c = 3)"
    and "year_start (Y + 1) = 11323 + (146097 * qc + 36524 * c + 1461 * q + 365 * ry)"
proof -
  have Y: "Y = 4 * (500 + q + 25 * c + 100 * qc) + ry" "Y = 100 * (20 + c + 4 * qc) + (ry + 4 * q)"
    "Y = 400 * (5 + qc) + (ry + 4 * q + 100 * c)"
    by (simp_all add: Y_def)
  have divs: "Y div 4 = 500 + q + 25 * c + 100 * qc" "Y div 100 = 20 + c + 4 * qc" "Y div 400 = 5 + qc"
    using int_div_pos_eq [OF Y(1)] int_div_pos_eq [OF Y(2)] int_div_pos_eq [OF Y(3)] b by simp_all
  have mods: "Y mod 4 = ry" "Y mod 100 = ry + 4 * q" "Y mod 400 = ry + 4 * q + 100 * c"
    using int_mod_pos_eq [OF Y(1)] int_mod_pos_eq [OF Y(2)] int_mod_pos_eq [OF Y(3)] b by simp_all
  show leap: "leap_year Y \<longleftrightarrow> ry = 0 \<and> (q \<noteq> 0 \<or> c = 0)"
    unfolding leap_year_def dvd_eq_mod_eq_0 mods using b by auto
  have "leap_days_before (Y + 1) = Y div 4 - Y div 100 + Y div 400"
    by (simp only: leap_days_before_def add_diff_cancel_right')
  moreover have "leap_days_before 1970 = 477" by code_simp
  ultimately show "year_start (Y + 1) = 11323 + (146097 * qc + 36524 * c + 1461 * q + 365 * ry)"
    unfolding year_start_def divs by (simp add: Y_def)
  have "4 dvd Y + 1 \<longleftrightarrow> ry = 3" "100 dvd Y + 1 \<longleftrightarrow> ry + 4 * q = 99" "400 dvd Y + 1 \<longleftrightarrow> ry + 4 * q + 100 * c = 399"
    using dvd_next [OF Y(1)] dvd_next [OF Y(2)] dvd_next [OF Y(3)] b by simp_all
  moreover have "ry + 4 * q = 99 \<longleftrightarrow> ry = 3 \<and> q = 24" "ry + 4 * q + 100 * c = 399 \<longleftrightarrow> ry = 3 \<and> q = 24 \<and> c = 3"
    using b by linarith+
  ultimately show "leap_year (Y + 1) \<longleftrightarrow> ry = 3 \<and> (q \<noteq> 24 \<or> c = 3)"
    unfolding leap_year_def by blast
qed

text \<open>The month and the day in it, from the days since the first of March.\<close>

lemma month_loop_list:
  "0 \<le> r \<Longrightarrow> r < sum_list ds \<Longrightarrow> \<exists>k<length ds. month_loop ds m r = (m + int k, r - sum_list (take k ds)) \<and>
    sum_list (take k ds) \<le> r \<and> r < sum_list (take k ds) + ds ! k"
proof (induction ds arbitrary: m r)
  case (Cons d ds)
  show ?case
  proof (cases "r < d")
    case True
    with Cons.prems show ?thesis by (intro exI [of _ 0]) simp
  next
    case False
    then obtain k where "k < length ds" "month_loop ds (m + 1) (r - d) = (m + 1 + int k, r - d - sum_list (take k ds))"
      "sum_list (take k ds) \<le> r - d" "r - d < sum_list (take k ds) + ds ! k"
      using Cons.IH [of "r - d" "m + 1"] Cons.prems by auto
    with False show ?thesis by (intro exI [of _ "Suc k"]) (auto simp: algebra_simps)
  qed
qed simp

lemmas time_units = SECS_PER_MIN_def SECS_PER_HOUR_def MINS_PER_HOUR_def SECS_PER_DAY_def DAYS_PER_YEAR_def
  DAYS_PER_LEAP_YEAR_def SECS_PER_YEAR_def SECS_PER_LEAP_YEAR_def DAYS_PER_WEEK_def MDAYS_IN_FEB_LEAP_def MDAYS_IN_FEB_def
  MDAYS_IN_JAN_def YEARS_PER_CENTURY_def LEAP_YEAR_PER_400Y_def NON_LEAP_YEAR_PER_100Y_def LEAP_YEAR_PER_4Y_def
  LEAP_YEAR_PER_4Y_FOR_MOD_def LEAP_YEARS_PER_400Y_def LEAP_YEARS_PER_100Y_def DAYS_PER_400Y_def DAYS_PER_100Y_def
  DAYS_PER_4Y_def MILLENNIUM_SECS_def LEAPOCH_def LEAPOCH_WDAY_def MONS_PER_YEAR_def MAR2FEB_OFFSET_MON_def
  MAR2FEB_MAX_MON_def

lemma floor_snd: "d > 0 \<Longrightarrow> (if s smod d < 0 then s smod d + d else s smod d) = s mod d" for s d :: int
  using floor_pair [of d s] by (auto split: if_splits)

lemma days_and_seconds_floor: "days_and_seconds t = (t div 86400 - 11017, t mod 86400)"
proof -
  have "t - 951868800 = 86400 * (t div 86400 - 11017) + t mod 86400" by simp
  from int_div_pos_eq [OF this] int_mod_pos_eq [OF this]
  have "(t - 951868800) div 86400 = t div 86400 - 11017" "(t - 951868800) mod 86400 = t mod 86400"
    by simp_all
  then show ?thesis
    using floor_pair [of 86400 "t - 951868800"] by (auto simp: days_and_seconds_def time_units Let_def split: if_splits)
qed

lemma day_of_week_floor: "day_of_week (d - 11017) = (4 + d) mod 7"
proof -
  have "(d - 11014) mod 7 = (4 + d) mod 7"
    by presburger
  then show ?thesis
    using floor_snd [of 7 "d - 11014"] by (auto simp: day_of_week_def time_units Let_def split: if_splits)
qed

lemma year_cycles_spec:
  obtains qc c q ry r where "year_cycles days = (qc, c, q, ry, r)"
    "days = 146097 * qc + 36524 * c + 1461 * q + 365 * ry + r"
    "0 \<le> c" "c \<le> 3" "0 \<le> q" "q \<le> 24" "0 \<le> ry" "ry \<le> 3" "0 \<le> r" "r \<le> 365"
    "r = 365 \<longrightarrow> ry = 3 \<and> (q \<noteq> 24 \<or> c = 3)"
proof -
  define qc r0 where "qc = days div 146097" and "r0 = days mod 146097"
  define c where "c = (if r0 div 36524 = 4 then r0 div 36524 - 1 else r0 div 36524)"
  define r1 where "r1 = r0 - c * 36524"
  define q where "q = (if r1 div 1461 = 25 then r1 div 1461 - 1 else r1 div 1461)"
  define r2 where "r2 = r1 - q * 1461"
  define ry where "ry = (if r2 div 365 = 4 then r2 div 365 - 1 else r2 div 365)"
  have units: "DAYS_PER_400Y = 146097" "DAYS_PER_100Y = 36524" "DAYS_PER_4Y = 1461" "DAYS_PER_YEAR = 365"
    by (simp_all add: time_units)
  note facts = cycles [of days, folded qc_def r0_def, folded c_def, folded r1_def, folded q_def, folded r2_def, folded ry_def]
  have "0 \<le> r2" using facts(6,8) by simp
  moreover from this have "0 \<le> r1" using facts(4) by (simp add: r2_def)
  moreover have "0 \<le> r0" by (simp add: r0_def)
  ultimately have "year_cycles days = (qc, c, q, ry, r2 - ry * 365)"
    using floor_pair [of 146097 days, folded qc_def r0_def]
    by (simp only: year_cycles_def units Let_def prod.case sdiv_nonneg zero_less_numeral c_def [symmetric] r1_def [symmetric]
        q_def [symmetric] r2_def [symmetric] ry_def [symmetric])
  with facts that show thesis by blast
qed

text \<open>The day numbers of the months of a year that starts in March.\<close>

lemma march_months:
  assumes "k < 12" and ym: "(y', m) = (if int k \<ge> 10 then (y + 1, int k - 10) else (y, int k + 2))"
  shows "0 \<le> m \<and> m < 12 \<and> month_start y' m = year_start (y + 1) - 306 + sum_list (take k mar2feb_days_in_month) \<and>
    month_lengths y' ! nat m = (if k = 11 \<and> \<not> leap_year (y + 1) then 28 else mar2feb_days_in_month ! k)"
proof -
  have "k \<in> {0, 1, 2, 3, 4, 5, 6, 7, 8, 9} \<or> k \<in> {10, 11}"
    using assms(1) by (simp only: insert_iff empty_iff) arith
  then show ?thesis
  proof
    assume k: "k \<in> {0, 1, 2, 3, 4, 5, 6, 7, 8, 9}"
    then have "y' = y" "m = int k + 2" using ym by (auto split: if_splits)
    with k show ?thesis
      unfolding month_start_def year_start_Suc by (auto simp: month_lengths_def mar2feb_days_in_month_def)
  next
    assume k: "k \<in> {10, 11}"
    then have "y' = y + 1" "m = int k - 10" using ym by (auto split: if_splits)
    with k show ?thesis
      unfolding month_start_def by (auto simp: month_lengths_def mar2feb_days_in_month_def)
  qed
qed


lemma yday_of_month:
  assumes "k < 12" and ym: "(y', m) = (if int k \<ge> 10 then (y + 1, int k - 10) else (y, int k + 2))"
    and d: "0 \<le> d" "d < mar2feb_days_in_month ! k" "k = 11 \<longrightarrow> d < (if leap_year (y + 1) then 29 else 28)"
    and r: "r = sum_list (take k mar2feb_days_in_month) + d"
  defines "leap \<equiv> of_bool (leap_year y)"
  shows "(if r + 59 + leap \<ge> 365 + leap then r + 59 + leap - (365 + leap) else r + 59 + leap) =
    month_start y' m + d - year_start y'"
proof -
  have "month_start y' m = year_start (y + 1) - 306 + sum_list (take k mar2feb_days_in_month)"
    using march_months [OF assms(1) ym] by blast
  moreover have "int k \<ge> 10 \<longleftrightarrow> r \<ge> 306"
  proof -
    have "k \<in> {0, 1, 2, 3, 4, 5, 6, 7, 8, 9} \<or> k \<in> {10, 11}"
      using assms(1) by (simp only: insert_iff empty_iff) arith
    then show ?thesis
      using d(1,2) unfolding r by (auto simp: mar2feb_days_in_month_def)
  qed
  ultimately show ?thesis
    using ym year_start_Suc [of y] r by (auto simp: leap_def split: if_splits)
qed

text \<open>The conversion finds the date and the time of the day of the calendar.\<close>

lemma secs_to_tm_calendar:
  assumes "INT_MIN * SECS_PER_LEAP_YEAR \<le> t" and "t \<le> INT_MAX * SECS_PER_LEAP_YEAR"
  shows "\<exists>new. valid_tm new \<and> epoch_secs new = t \<and> tm_wday new = (4 + t div 86400) mod 7 \<and>
    tm_yday new = epoch_day new - year_start (1900 + tm_year new) \<and>
    (\<forall>tm. secs_to_tm t tm = (if INT_MIN \<le> tm_year new \<and> tm_year new \<le> INT_MAX
       then Inr (new\<lparr>tm_isdst := tm_isdst tm, tm_gmtoff := tm_gmtoff tm\<rparr>) else Inl ERANGE))"
proof -
  obtain qc c q ry r where cyc: "year_cycles (t div 86400 - 11017) = (qc, c, q, ry, r)"
    and days: "t div 86400 - 11017 = 146097 * qc + 36524 * c + 1461 * q + 365 * ry + r"
    and b: "0 \<le> c" "c \<le> 3" "0 \<le> q" "q \<le> 24" "0 \<le> ry" "ry \<le> 3" and r: "0 \<le> r" "r \<le> 365"
    and last: "r = 365 \<longrightarrow> ry = 3 \<and> (q \<noteq> 24 \<or> c = 3)"
    by (rule year_cycles_spec [of "t div 86400 - 11017"])
  define y where "y = 2000 + (ry + 4 * q + 100 * c + 400 * qc)"
  note year = year_of_cycles [OF b, of qc, folded y_def]
  obtain k where k: "k < 12" and loop: "month_loop mar2feb_days_in_month 0 r = (int k, r - sum_list (take k mar2feb_days_in_month))"
    and d: "sum_list (take k mar2feb_days_in_month) \<le> r" "r < sum_list (take k mar2feb_days_in_month) + mar2feb_days_in_month ! k"
    using month_loop_list [of r mar2feb_days_in_month 0] r by (auto simp: mar2feb_days_in_month_def)
  define e where "e = r - sum_list (take k mar2feb_days_in_month)"
  obtain y' m where ym: "(y', m) = (if int k \<ge> 10 then (y + 1, int k - 10) else (y, int k + 2))"
    by (metis surj_pair)
  note months = march_months [OF k ym]
  have e: "0 \<le> e" "e < mar2feb_days_in_month ! k" "r = sum_list (take k mar2feb_days_in_month) + e"
    using d by (simp_all add: e_def)
  have feb: "k = 11 \<longrightarrow> e < (if leap_year (y + 1) then 29 else 28)"
  proof (intro impI)
    assume "k = 11"
    then have "r = 337 + e" "e < 29" using e by (auto simp: mar2feb_days_in_month_def)
    then show "e < (if leap_year (y + 1) then 29 else 28)" using last year(2) by auto
  qed
  note yday = yday_of_month [OF k ym e(1,2) feb e(3)]
  let ?s = "t mod 86400"
  define new where "new = \<lparr>tm_sec = ?s mod 60, tm_min = ?s div 60 mod 60, tm_hour = ?s div 3600, tm_mday = e + 1,
    tm_mon = m, tm_year = y' - 1900, tm_wday = (4 + t div 86400) mod 7, tm_yday = month_start y' m + e - year_start y',
    tm_isdst = 0, tm_gmtoff = 0\<rparr>"
  have day: "epoch_day new = t div 86400"
    using months year(3) days e(3) by (simp add: epoch_day_def new_def)
  have s: "0 \<le> ?s" "?s < 86400" by simp_all
  have hour: "?s div 3600 < 24" using s by linarith
  have secs: "epoch_secs new = t"
  proof -
    have sum: "d * 86400 + h * 3600 + m * 60 + u = t"
      if "86400 * d + s = t" "60 * v + u = s" "60 * h + m = v" for d s h m u v :: int
      using that by simp
    have "?s div 60 div 60 = ?s div 3600"
      by (simp add: zdiv_zmult2_eq [symmetric])
    then have clock: "60 * (?s div 3600) + ?s div 60 mod 60 = ?s div 60"
      using mult_div_mod_eq [of 60 "?s div 60"] by metis
    have fields: "tm_hour new = ?s div 3600" "tm_min new = ?s div 60 mod 60" "tm_sec new = ?s mod 60"
      by (simp_all add: new_def)
    show ?thesis
      unfolding epoch_secs_def day fields by (rule sum [OF mult_div_mod_eq mult_div_mod_eq clock])
  qed
  have "valid_tm new"
    using months e(1,2) feb hour s by (auto simp: valid_tm_def new_def)
  moreover have "secs_to_tm t tm = (if INT_MIN \<le> tm_year new \<and> tm_year new \<le> INT_MAX
       then Inr (new\<lparr>tm_isdst := tm_isdst tm, tm_gmtoff := tm_gmtoff tm\<rparr>) else Inl ERANGE)" for tm
  proof -
    have leap: "(if ry = 0 \<and> (q \<noteq> 0 \<or> c = 0) then 1 else 0) = (of_bool (leap_year y) :: int)"
      using year(1) by simp
    have years: "ry + 4 * q + 100 * c + 4 * 100 * qc = y - 2000"
      by (simp add: y_def)
    have pair: "(if int k \<ge> 10 then (int k - 12, y - 2000 + 1) else (int k, y - 2000)) = (m - 2, y' - 2000)"
      using ym by (auto split: if_splits)
    have clock: "?s sdiv 3600 = ?s div 3600" "(?s sdiv 60) smod 60 = ?s div 60 mod 60" "?s smod 60 = ?s mod 60"
      using s(1) by (simp_all add: sdiv_nonneg)
    have units: "MDAYS_IN_JAN = 31" "MDAYS_IN_FEB = 28" "DAYS_PER_YEAR = 365" "YEARS_PER_CENTURY = 100"
      "MAR2FEB_MAX_MON = 10" "MONS_PER_YEAR = 12" "NON_LEAP_YEAR_PER_100Y = 100" "MAR2FEB_OFFSET_MON = 2"
      "SECS_PER_HOUR = 3600" "SECS_PER_MIN = 60" "MINS_PER_HOUR = 60"
      by (simp_all add: time_units)
    have yday': "(if r + 31 + 28 + of_bool (leap_year y) \<ge> 365 + of_bool (leap_year y)
        then r + 31 + 28 + of_bool (leap_year y) - (365 + of_bool (leap_year y)) else r + 31 + 28 + of_bool (leap_year y)) =
        tm_yday new"
      using yday by (auto simp: new_def split: if_splits)
    have in_range: "\<not> (t < INT_MIN * SECS_PER_LEAP_YEAR \<or> t > INT_MAX * SECS_PER_LEAP_YEAR)"
      using assms by simp
    have "secs_to_tm t tm = (if y' - 2000 + 100 > INT_MAX \<or> y' - 2000 + 100 < INT_MIN then Inl ERANGE
      else Inr (tm\<lparr>tm_year := y' - 2000 + 100, tm_mon := m - 2 + 2, tm_mday := e + 1, tm_wday := (4 + t div 86400) mod 7,
        tm_yday := tm_yday new, tm_hour := ?s div 3600, tm_min := ?s div 60 mod 60, tm_sec := ?s mod 60\<rparr>))"
      unfolding secs_to_tm_def units if_not_P [OF in_range] days_and_seconds_floor day_of_week_floor Let_def prod.case cyc
        loop leap years pair clock yday' e_def [symmetric] ..
    moreover have "y' - 2000 + 100 = tm_year new" "m - 2 + 2 = tm_mon new"
      by (simp_all add: new_def)
    moreover have "tm\<lparr>tm_year := tm_year new, tm_mon := tm_mon new, tm_mday := e + 1, tm_wday := (4 + t div 86400) mod 7,
        tm_yday := tm_yday new, tm_hour := ?s div 3600, tm_min := ?s div 60 mod 60, tm_sec := ?s mod 60\<rparr> =
        new\<lparr>tm_isdst := tm_isdst tm, tm_gmtoff := tm_gmtoff tm\<rparr>"
      unfolding new_def by (cases tm) (simp only: kernel_tm.simps)
    ultimately have "secs_to_tm t tm = (if tm_year new > INT_MAX \<or> tm_year new < INT_MIN then Inl ERANGE
      else Inr (new\<lparr>tm_isdst := tm_isdst tm, tm_gmtoff := tm_gmtoff tm\<rparr>))"
      by (simp only:)
    then show ?thesis by (meson not_le)
  qed
  moreover have "tm_wday new = (4 + t div 86400) mod 7" "tm_yday new = epoch_day new - year_start (1900 + tm_year new)"
    by (simp_all add: new_def epoch_day_def)
  ultimately show ?thesis
    using secs by blast
qed

text \<open>
  The years 1902 to 1967, for which the number of leap days is rounded towards 0 and so is one too
  large unless the year is a leap year.
\<close>

definition late_year :: "int \<Rightarrow> bool" where
  "late_year y \<longleftrightarrow> 1902 \<le> y \<and> y < 1968 \<and> \<not> leap_year y"

lemma year_to_secs_near:
  "\<forall>y\<in>set [2..138]. year_to_secs y =
    (86400 * (year_start (1900 + y) + of_bool (late_year (1900 + y))), leap_year (1900 + y))"
  by code_simp

lemma year_to_secs_far:
  assumes "year < 2 \<or> 138 < year" and "\<bar>year\<bar> < 2 ^ 63"
  shows "year_to_secs year = (86400 * year_start (1900 + year), leap_year (1900 + year))"
proof -
  have "uint (word_of_int (year - 2) :: u64) = (if year < 2 then year - 2 + 2 ^ 64 else year - 2)"
  proof -
    have "(year - 2) mod 2 ^ 64 = (if year < 2 then year - 2 + 2 ^ 64 else year - 2)"
      using assms int_mod_pos_eq [of "year - 2" "2 ^ 64" "- 1" "year - 2 + 2 ^ 64"] by auto
    then show ?thesis unfolding uint_word_of_int by simp
  qed
  then have far: "(word_of_int year - UNIXEAPOCH_OFFSET_TO_FIRST_LEAP_YEAR \<le> UNIXTIME_END_OF_TM_YEAR_FROM_FIRST_LEAP_YEAR) = False"
    using assms by (simp add: word_le_def UNIXEAPOCH_OFFSET_TO_FIRST_LEAP_YEAR_def
        UNIXTIME_END_OF_TM_YEAR_FROM_FIRST_LEAP_YEAR_def wi_hom_sub [symmetric] split: if_splits)
  let ?z = "year - 100"
  define qc where "qc = ?z div 400"
  define rem where "rem = ?z mod 400"
  have rem: "0 \<le> rem" "rem < 400" by (simp_all add: rem_def)
  define c where "c = rem div 100"
  define q where "q = rem mod 100 div 4"
  define ry where "ry = rem mod 100 mod 4"
  have parts: "rem = 100 * c + (4 * q + ry)" "0 \<le> c" "c \<le> 3" "0 \<le> q" "q \<le> 24" "0 \<le> ry" "ry \<le> 3"
    using rem by (auto simp: c_def q_def ry_def)
  define y where "y = 2000 + (ry + 4 * q + 100 * c + 400 * qc)"
  note facts = year_of_cycles [OF parts(2-7), of qc, folded y_def]
  have z: "?z = 400 * qc + rem" by (simp add: qc_def rem_def)
  then have y: "y = 1900 + year" using parts(1) by (simp add: y_def)
  have floor: "(if ?z smod 400 < 0 then (?z sdiv 400 - 1, ?z smod 400 + 400) else (?z sdiv 400, ?z smod 400)) = (qc, rem)"
    using floor_pair [of 400 ?z] by (simp add: qc_def rem_def)
  have century: "(if rem \<ge> 2 * 100 then if rem \<ge> 3 * 100 then (3, rem - 3 * 100) else (2, rem - 2 * 100)
      else if rem \<ge> 100 then (1, rem - 100) else (0, rem)) = (c, 4 * q + ry)"
  proof -
    have "c = 0 \<or> c = 1 \<or> c = 2 \<or> c = 3" using parts(2,3) by arith
    then show ?thesis using parts by auto
  qed
  have "(4 * q + ry) sdiv 4 = q" "(4 * q + ry) smod 4 = ry"
    using parts(4-7) by (simp_all add: sdiv_nonneg)
  then have inner: "(if rem = 0 then (True, 0, 0)
      else if 4 * q + ry = 0 then (False, c, 0)
      else ((4 * q + ry) smod 4 = 0, c, (4 * q + ry) sdiv 4)) = (leap_year y, c, q)"
    using parts facts(1) by auto
  have units: "YEARS_PER_CENTURY = 100" "LEAP_YEAR_PER_400Y = 400" "LEAP_YEAR_PER_4Y_FOR_MOD = 4"
    by (simp_all add: time_units)
  have "year_to_secs year = (?z * SECS_PER_YEAR + (q + LEAP_YEARS_PER_400Y * qc + LEAP_YEARS_PER_100Y * c - of_bool (leap_year y)) *
      SECS_PER_DAY + MILLENNIUM_SECS + SECS_PER_DAY, leap_year y)"
    unfolding year_to_secs_def far if_False Let_def units floor prod.case century inner ..
  moreover have "year_start y = 10958 - of_bool (leap_year y) + (146097 * qc + 36524 * c + 1461 * q + 365 * ry)"
    using facts(3) year_start_Suc [of y] by (cases "leap_year y") simp_all
  ultimately show ?thesis
    unfolding y [symmetric] using z parts(1) by (simp add: time_units algebra_simps)
qed

lemma length_month_lengths [simp]: "length (month_lengths y) = 12"
  by (simp add: month_lengths_def)

lemma month_cases:
  fixes m :: int
  assumes "0 \<le> m" "m < 12"
  obtains "m = 0" | "m = 1" | "m = 2" | "m = 3" | "m = 4" | "m = 5" | "m = 6" | "m = 7" | "m = 8" | "m = 9" | "m = 10" | "m = 11"
proof -
  have "m = 0 \<or> m = 1 \<or> m = 2 \<or> m = 3 \<or> m = 4 \<or> m = 5 \<or> m = 6 \<or> m = 7 \<or> m = 8 \<or> m = 9 \<or> m = 10 \<or> m = 11"
    using assms by arith
  then show thesis by (elim disjE) (rule that, assumption)+
qed

lemma month_to_secs_eq:
  assumes "0 \<le> m" "m < 12"
  shows "month_to_secs m (leap_year y) = 86400 * sum_list (take (nat m) (month_lengths y))"
  using assms by (cases m rule: month_cases)
    (simp_all add: month_to_secs_def secs_through_month_def month_lengths_def time_units Let_def)

lemma tm_to_secs_eq:
  assumes "\<bar>tm_year tm\<bar> \<le> 2 ^ 31" and "\<bar>tm_mon tm\<bar> \<le> 2 ^ 31"
  defines "y \<equiv> 1900 + tm_year tm + tm_mon tm div 12"
  shows "tm_to_secs tm = (month_start y (tm_mon tm mod 12) + tm_mday tm - 1 + of_bool (late_year y)) * 86400 +
    tm_hour tm * 3600 + tm_min tm * 60 + tm_sec tm"
proof -
  let ?m = "tm_mon tm mod 12" and ?y = "tm_year tm + tm_mon tm div 12"
  have norm: "(if tm_mon tm \<ge> 12 \<or> tm_mon tm < 0
      then case if tm_mon tm smod 12 < 0 then (tm_mon tm sdiv 12 - 1, tm_mon tm smod 12 + 12) else (tm_mon tm sdiv 12, tm_mon tm smod 12) of
        (adj, month) \<Rightarrow> (tm_year tm + adj, month)
      else (tm_year tm, tm_mon tm)) = (?y, ?m)"
    unfolding floor_pair [of 12 "tm_mon tm", simplified] by (auto simp: not_le)
  have bound: "\<bar>?y\<bar> < 2 ^ 63" using assms(1,2) by simp
  have year: "year_to_secs ?y = (86400 * (year_start y + of_bool (late_year y)), leap_year y)"
  proof (cases "2 \<le> ?y \<and> ?y \<le> 138")
    case True
    then have "?y \<in> set [2..138]" by (simp only: set_upto atLeastAtMost_iff)
    then show ?thesis using bspec [OF year_to_secs_near] by (simp only: y_def add.assoc)
  next
    case False
    then have "\<not> late_year y" by (auto simp: late_year_def y_def)
    with False show ?thesis
      using year_to_secs_far [of ?y] bound by (simp add: y_def add.assoc not_le)
  qed
  have m: "0 \<le> ?m" "?m < 12" by simp_all
  have units: "MONS_PER_YEAR = 12" "SECS_PER_DAY = 86400" "SECS_PER_HOUR = 3600" "SECS_PER_MIN = 60"
    by (simp_all add: time_units)
  have "tm_to_secs tm = 86400 * (year_start y + of_bool (late_year y)) + month_to_secs ?m (leap_year y) +
      86400 * (tm_mday tm - 1) + 3600 * tm_hour tm + 60 * tm_min tm + tm_sec tm"
    unfolding tm_to_secs_def Let_def units norm prod.case year ..
  then show ?thesis
    unfolding month_to_secs_eq [OF m] month_start_def by (simp add: algebra_simps)
qed

section \<open>A day has one date\<close>

lemma month_lengths_pos: "x \<in> set (month_lengths y) \<Longrightarrow> 0 < x"
  by (auto simp: month_lengths_def split: if_splits)

lemma sum_list_take_mono:
  fixes xs :: "int list"
  shows "\<forall>x\<in>set xs. 0 < x \<Longrightarrow> i \<le> j \<Longrightarrow> sum_list (take i xs) \<le> sum_list (take j xs)"
proof (induction xs arbitrary: i j)
  case (Cons x xs)
  have "0 \<le> sum_list (take k xs)" for k
    using Cons.prems(1) by (intro sum_list_nonneg) (auto dest!: in_set_takeD simp: less_imp_le)
  with Cons show ?case
    by (cases i; cases j) (auto simp: add_nonneg_nonneg less_imp_le)
qed simp

lemma take_unique:
  fixes xs :: "int list"
  assumes pos: "\<forall>x\<in>set xs. 0 < x" and "i < length xs" "j < length xs"
    and "1 \<le> d" "d \<le> xs ! i" "1 \<le> e" "e \<le> xs ! j" and eq: "sum_list (take i xs) + d = sum_list (take j xs) + e"
  shows "i = j \<and> d = e"
proof -
  have less: "\<not> i < j" if "i < length xs" "d \<le> xs ! i" "1 \<le> e" "sum_list (take i xs) + d = sum_list (take j xs) + e" for i j d e
    using sum_list_take_mono [OF pos, of "Suc i" j] that by (auto simp: take_Suc_conv_app_nth)
  have "i = j"
    using less [of i d e j] less [of j e d i] assms by force
  then show ?thesis using eq by simp
qed

lemma month_lengths_sum: "year_start y + sum_list (month_lengths y) = year_start (y + 1)"
  unfolding year_start_Suc by (simp add: month_lengths_def)

lemma epoch_day_year:
  assumes "valid_tm tm"
  shows "year_start (1900 + tm_year tm) \<le> epoch_day tm \<and> epoch_day tm < year_start (1900 + tm_year tm + 1)"
proof -
  let ?ls = "month_lengths (1900 + tm_year tm)"
  have m: "nat (tm_mon tm) < 12" and d: "1 \<le> tm_mday tm" "tm_mday tm \<le> ?ls ! nat (tm_mon tm)"
    using assms by (auto simp: valid_tm_def)
  have "sum_list (take 0 ?ls) \<le> sum_list (take (nat (tm_mon tm)) ?ls)"
    by (rule sum_list_take_mono) (simp_all add: month_lengths_pos)
  moreover have "sum_list (take (Suc (nat (tm_mon tm))) ?ls) \<le> sum_list (take 12 ?ls)"
    using m by (intro sum_list_take_mono) (simp_all add: month_lengths_pos)
  ultimately show ?thesis
    using m d month_lengths_sum [of "1900 + tm_year tm"]
    by (simp add: epoch_day_def month_start_def take_Suc_conv_app_nth)
qed

lemma year_start_mono: "a \<le> b \<Longrightarrow> year_start a \<le> year_start b"
  by (induction rule: int_ge_induct) (auto simp: year_start_Suc)

lemma valid_tm_unique:
  assumes a: "valid_tm a" and b: "valid_tm b" and eq: "epoch_secs a = epoch_secs b"
  shows "(tm_year a, tm_mon a, tm_mday a, tm_hour a, tm_min a, tm_sec a) =
    (tm_year b, tm_mon b, tm_mday b, tm_hour b, tm_min b, tm_sec b)"
proof -
  have split: "epoch_secs x = 86400 * epoch_day x + (3600 * tm_hour x + (60 * tm_min x + tm_sec x))" for x
    by (simp add: epoch_secs_def)
  have clock: "0 \<le> 3600 * tm_hour x + (60 * tm_min x + tm_sec x)" "3600 * tm_hour x + (60 * tm_min x + tm_sec x) < 86400"
    if "valid_tm x" for x using that by (auto simp: valid_tm_def)
  have day: "epoch_day a = epoch_day b" and secs: "3600 * tm_hour a + (60 * tm_min a + tm_sec a) = 3600 * tm_hour b + (60 * tm_min b + tm_sec b)"
    using int_div_pos_eq [OF split [of a]] int_div_pos_eq [OF split [of b]]
      int_mod_pos_eq [OF split [of a]] int_mod_pos_eq [OF split [of b]] clock [OF a] clock [OF b] eq by auto
  have "tm_hour a = tm_hour b"
    using secs a b unfolding valid_tm_def by linarith
  with secs have "tm_min a = tm_min b"
    using a b unfolding valid_tm_def by linarith
  with secs \<open>tm_hour a = tm_hour b\<close> have "tm_hour a = tm_hour b \<and> tm_min a = tm_min b \<and> tm_sec a = tm_sec b"
    by simp
  moreover have year: "tm_year a = tm_year b"
  proof (rule ccontr)
    assume "tm_year a \<noteq> tm_year b"
    then consider "tm_year a + 1 \<le> tm_year b" | "tm_year b + 1 \<le> tm_year a" by linarith
    then show False
      using epoch_day_year [OF a] epoch_day_year [OF b] day
        year_start_mono [of "1900 + tm_year a + 1" "1900 + tm_year b"]
        year_start_mono [of "1900 + tm_year b + 1" "1900 + tm_year a"] by cases auto
  qed
  moreover have "nat (tm_mon a) = nat (tm_mon b) \<and> tm_mday a = tm_mday b"
    using a b day year unfolding valid_tm_def epoch_day_def month_start_def
    by (intro take_unique [of "month_lengths (1900 + tm_year a)"]) (auto simp: month_lengths_pos)
  ultimately show ?thesis
    using a b by (auto simp: valid_tm_def)
qed

lemma epoch_secs_fields:
  "valid_tm (new\<lparr>tm_isdst := i, tm_gmtoff := g\<rparr>) \<longleftrightarrow> valid_tm new" "epoch_day (new\<lparr>tm_isdst := i, tm_gmtoff := g\<rparr>) = epoch_day new"
  "epoch_secs (new\<lparr>tm_isdst := i, tm_gmtoff := g\<rparr>) = epoch_secs new"
  by (simp_all add: valid_tm_def epoch_day_def epoch_secs_def)

lemma clock_converted:
  assumes "INT_MIN * SECS_PER_LEAP_YEAR \<le> t" and "t \<le> INT_MAX * SECS_PER_LEAP_YEAR"
  shows "\<exists>new. valid_tm new \<and> epoch_secs new = t \<and> tm_wday new = (4 + t div 86400) mod 7 \<and>
    tm_yday new = epoch_day new - year_start (1900 + tm_year new) \<and>
    clock_epoch_time_to_tm t = (if INT_MIN \<le> tm_year new \<and> tm_year new \<le> INT_MAX then Inr new else Inl ERANGE)"
proof -
  obtain new where new: "valid_tm new" "epoch_secs new = t" "tm_wday new = (4 + t div 86400) mod 7"
    "tm_yday new = epoch_day new - year_start (1900 + tm_year new)"
    and conv: "\<forall>tm. secs_to_tm t tm = (if INT_MIN \<le> tm_year new \<and> tm_year new \<le> INT_MAX
       then Inr (new\<lparr>tm_isdst := tm_isdst tm, tm_gmtoff := tm_gmtoff tm\<rparr>) else Inl ERANGE)"
    using secs_to_tm_calendar [OF assms] by blast
  let ?new = "new\<lparr>tm_isdst := 0, tm_gmtoff := 0\<rparr>"
  have "clock_epoch_time_to_tm t = (if INT_MIN \<le> tm_year ?new \<and> tm_year ?new \<le> INT_MAX then Inr ?new else Inl ERANGE)"
    using conv by (simp add: clock_epoch_time_to_tm_def tm_zero_def)
  moreover have "tm_wday ?new = tm_wday new" "tm_yday ?new = tm_yday new" "tm_year ?new = tm_year new"
    by (cases new; simp)+
  ultimately show ?thesis
    using new epoch_secs_fields [of 0 0 new] by (intro exI [of _ ?new]) (simp only:)
qed

lemma clock_refused:
  "t < INT_MIN * SECS_PER_LEAP_YEAR \<or> INT_MAX * SECS_PER_LEAP_YEAR < t \<Longrightarrow> clock_epoch_time_to_tm t = Inl ERANGE"
  by (auto simp: clock_epoch_time_to_tm_def secs_to_tm_def)

lemma clock_Inr:
  assumes "clock_epoch_time_to_tm t = Inr tm"
  shows "valid_tm tm \<and> epoch_secs tm = t \<and> INT_MIN \<le> tm_year tm \<and> tm_year tm \<le> INT_MAX"
proof -
  have "INT_MIN * SECS_PER_LEAP_YEAR \<le> t" "t \<le> INT_MAX * SECS_PER_LEAP_YEAR"
    using assms clock_refused [of t] by force+
  from clock_converted [OF this] assms show ?thesis by (auto split: if_splits)
qed

lemma clock_mk_eq:
  "clock_mk_epoch_time tm = (case clock_epoch_time_to_tm (tm_to_secs tm) of Inl e \<Rightarrow> Inl e | Inr new \<Rightarrow> Inr (new, tm_to_secs tm))"
  by (simp add: clock_mk_epoch_time_def clock_epoch_time_to_tm_def Let_def split: sum.split)

section \<open>Properties\<close>

text \<open>
  C27: \<open>clock_epoch_time_to_tm\<close> is the inverse of counting the seconds of the Gregorian calendar. For
  every time whose distance from 1970 is at most \<open>2 ^ 31\<close> years of 366 days, positive or negative,
  there is one date and time of the day that is so many seconds from 1970-01-01 00:00:00; it is the
  result, with its day of the week (0 is Sunday; 1970-01-01 was a Thursday) and its day of the year,
  unless the year minus 1900 does not fit into an \<open>int\<close>. All other times are refused.
\<close>

theorem epoch_time_is_calendar:
  "if t < INT_MIN * SECS_PER_LEAP_YEAR \<or> INT_MAX * SECS_PER_LEAP_YEAR < t
   then clock_epoch_time_to_tm t = Inl ERANGE
   else \<exists>new. valid_tm new \<and> epoch_secs new = t \<and>
     (\<forall>tm. valid_tm tm \<and> epoch_secs tm = t \<longrightarrow>
       (tm_year tm, tm_mon tm, tm_mday tm, tm_hour tm, tm_min tm, tm_sec tm) =
       (tm_year new, tm_mon new, tm_mday new, tm_hour new, tm_min new, tm_sec new)) \<and>
     tm_wday new = (4 + t div 86400) mod 7 \<and> tm_yday new = epoch_day new - year_start (1900 + tm_year new) \<and>
     clock_epoch_time_to_tm t = (if INT_MIN \<le> tm_year new \<and> tm_year new \<le> INT_MAX then Inr new else Inl ERANGE)"
proof (cases "t < INT_MIN * SECS_PER_LEAP_YEAR \<or> INT_MAX * SECS_PER_LEAP_YEAR < t")
  case True
  then show ?thesis using clock_refused by simp
next
  case False
  then obtain new where new: "valid_tm new" "epoch_secs new = t" "tm_wday new = (4 + t div 86400) mod 7"
    "tm_yday new = epoch_day new - year_start (1900 + tm_year new)"
    "clock_epoch_time_to_tm t = (if INT_MIN \<le> tm_year new \<and> tm_year new \<le> INT_MAX then Inr new else Inl ERANGE)"
    using clock_converted [of t] by (auto simp: not_less)
  moreover have "(tm_year tm, tm_mon tm, tm_mday tm, tm_hour tm, tm_min tm, tm_sec tm) =
       (tm_year new, tm_mon new, tm_mday new, tm_hour new, tm_min new, tm_sec new)"
    if "valid_tm tm" "epoch_secs tm = t" for tm
    using that new by (intro valid_tm_unique) simp_all
  ultimately show ?thesis unfolding if_not_P [OF False] by blast
qed

text \<open>2000-02-29, a Tuesday, and a time that is out of range.\<close>

theorem epoch_time_is_calendar_witness:
  "(\<exists>new. clock_epoch_time_to_tm 951782400 = Inr new \<and> (tm_year new, tm_mon new, tm_mday new, tm_wday new) = (100, 1, 29, 2)) \<and>
   clock_epoch_time_to_tm (2 ^ 57) = Inl ERANGE"
proof -
  let ?leap_day = "\<lparr>tm_sec = 0, tm_min = 0, tm_hour = 0, tm_mday = 29, tm_mon = 1, tm_year = 100, tm_wday = 0, tm_yday = 0,
    tm_isdst = 0, tm_gmtoff = 0\<rparr>"
  have day: "valid_tm ?leap_day" "epoch_secs ?leap_day = 951782400"
    by code_simp+
  have in_range: "\<not> (951782400 < INT_MIN * SECS_PER_LEAP_YEAR \<or> INT_MAX * SECS_PER_LEAP_YEAR < 951782400)"
    and out: "2 ^ 57 < INT_MIN * SECS_PER_LEAP_YEAR \<or> INT_MAX * SECS_PER_LEAP_YEAR < 2 ^ 57"
    by code_simp+
  obtain new where new: "\<And>tm. valid_tm tm \<Longrightarrow> epoch_secs tm = 951782400 \<Longrightarrow>
       (tm_year tm, tm_mon tm, tm_mday tm, tm_hour tm, tm_min tm, tm_sec tm) =
       (tm_year new, tm_mon new, tm_mday new, tm_hour new, tm_min new, tm_sec new)"
    "tm_wday new = (4 + 951782400 div 86400) mod 7"
    "clock_epoch_time_to_tm 951782400 = (if INT_MIN \<le> tm_year new \<and> tm_year new \<le> INT_MAX then Inr new else Inl ERANGE)"
    using epoch_time_is_calendar [of 951782400] unfolding if_not_P [OF in_range] by blast
  have "(tm_year new, tm_mon new, tm_mday new) = (100, 1, 29)"
    using new(1) [OF day] by simp
  moreover have "clock_epoch_time_to_tm (2 ^ 57) = Inl ERANGE"
    using epoch_time_is_calendar [of "2 ^ 57"] unfolding if_P [OF out] .
  ultimately show ?thesis
    using new(2,3) by (simp add: INT_MIN_def INT_MAX_def)
qed

text \<open>
  C28: \<open>clock_mk_epoch_time\<close> normalises a date and counts its seconds. The month may lie in another
  year, and days, hours, minutes and seconds may be out of their ranges: the result is the time that
  is so far from the first day of the month. A date in 1902 to 1967 whose year is not a leap year comes out one day late.
  Otherwise converting a time to a date and back gives the time and the same date again.
\<close>

theorem calendar_roundtrip:
  assumes "\<bar>tm_year tm\<bar> \<le> 2 ^ 31" and "\<bar>tm_mon tm\<bar> \<le> 2 ^ 31"
  shows "(let y = 1900 + tm_year tm + tm_mon tm div 12;
        t = (month_start y (tm_mon tm mod 12) + tm_mday tm - 1 + of_bool (late_year y)) * 86400 +
          tm_hour tm * 3600 + tm_min tm * 60 + tm_sec tm
     in clock_mk_epoch_time tm = (case clock_epoch_time_to_tm t of Inl e \<Rightarrow> Inl e | Inr new \<Rightarrow> Inr (new, t))) \<and>
    (clock_epoch_time_to_tm t = Inr tm \<longrightarrow>
       clock_mk_epoch_time tm = (if \<not> late_year (1900 + tm_year tm) then Inr (tm, t)
         else case clock_epoch_time_to_tm (t + 86400) of Inl e \<Rightarrow> Inl e | Inr new \<Rightarrow> Inr (new, t + 86400)))"
proof (intro conjI impI)
  show "let y = 1900 + tm_year tm + tm_mon tm div 12;
        t = (month_start y (tm_mon tm mod 12) + tm_mday tm - 1 + of_bool (late_year y)) * 86400 +
          tm_hour tm * 3600 + tm_min tm * 60 + tm_sec tm
     in clock_mk_epoch_time tm = (case clock_epoch_time_to_tm t of Inl e \<Rightarrow> Inl e | Inr new \<Rightarrow> Inr (new, t))"
    unfolding clock_mk_eq tm_to_secs_eq [OF assms] Let_def ..
  assume conv: "clock_epoch_time_to_tm t = Inr tm"
  then have v: "valid_tm tm" "epoch_secs tm = t" using clock_Inr by blast+
  then have m: "tm_mon tm div 12 = 0" "tm_mon tm mod 12 = tm_mon tm" by (simp_all add: valid_tm_def)
  have "tm_to_secs tm = t + 86400 * of_bool (late_year (1900 + tm_year tm))"
    using v(2) unfolding tm_to_secs_eq [OF assms] m epoch_secs_def epoch_day_def by (simp add: algebra_simps)
  then show "clock_mk_epoch_time tm = (if \<not> late_year (1900 + tm_year tm) then Inr (tm, t)
         else case clock_epoch_time_to_tm (t + 86400) of Inl e \<Rightarrow> Inl e | Inr new \<Rightarrow> Inr (new, t + 86400))"
    using conv by (auto simp: clock_mk_eq split: sum.split)
qed

text \<open>The last second of 1967 comes back as that of the next day.\<close>

theorem calendar_roundtrip_witness:
  "map_sum id snd (clock_mk_epoch_time \<lparr>tm_sec = 59, tm_min = 59, tm_hour = 23, tm_mday = 31, tm_mon = 11, tm_year = 67,
      tm_wday = 0, tm_yday = 364, tm_isdst = 0, tm_gmtoff = 0\<rparr>) = Inr (- 63158401 + 86400) \<and>
   map_sum id snd (clock_mk_epoch_time \<lparr>tm_sec = 0, tm_min = 0, tm_hour = 0, tm_mday = 0, tm_mon = 14, tm_year = 99,
      tm_wday = 0, tm_yday = 0, tm_isdst = 0, tm_gmtoff = 0\<rparr>) = Inr 951782400"
proof -
  let ?a = "\<lparr>tm_sec = 59, tm_min = 59, tm_hour = 23, tm_mday = 31, tm_mon = 11, tm_year = 67,
      tm_wday = 0, tm_yday = 364, tm_isdst = 0, tm_gmtoff = 0\<rparr>"
  let ?b = "\<lparr>tm_sec = 0, tm_min = 0, tm_hour = 0, tm_mday = 0, tm_mon = 14, tm_year = 99,
      tm_wday = 0, tm_yday = 0, tm_isdst = 0, tm_gmtoff = 0\<rparr>"
  have conv: "clock_epoch_time_to_tm (- 63158401) = Inr ?a" "late_year (1900 + tm_year ?a)"
    "map_sum id (\<lambda>_. ()) (clock_epoch_time_to_tm (- 63158401 + 86400)) = Inr ()"
    "map_sum id (\<lambda>_. ()) (clock_epoch_time_to_tm 951782400) = Inr ()"
    by code_simp+
  have b: "(month_start (1900 + tm_year ?b + tm_mon ?b div 12) (tm_mon ?b mod 12) + tm_mday ?b - 1 +
      of_bool (late_year (1900 + tm_year ?b + tm_mon ?b div 12))) * 86400 + tm_hour ?b * 3600 + tm_min ?b * 60 + tm_sec ?b = 951782400"
    by code_simp
  have "clock_mk_epoch_time ?a = (case clock_epoch_time_to_tm (- 63158401 + 86400) of Inl e \<Rightarrow> Inl e
      | Inr new \<Rightarrow> Inr (new, - 63158401 + 86400))"
    using calendar_roundtrip [of ?a "- 63158401"] conv(1,2) by simp
  moreover have "clock_mk_epoch_time ?b = (case clock_epoch_time_to_tm 951782400 of Inl e \<Rightarrow> Inl e | Inr new \<Rightarrow> Inr (new, 951782400))"
    using calendar_roundtrip [of ?b 0] unfolding Let_def b by simp
  ultimately show ?thesis
    using conv(3,4) by (auto split: sum.splits)
qed

end
