(* ===== verification/Timer.thy ===== *)
theory Timer
  imports Queue Spinlock "HOL-Library.Product_Lexorder"
begin

unbundle bit_operations_syntax

text \<open>
  The system time and the timer call-outs (kern/timer.c). A call-out entry is a number; the link of
  entry \<open>e\<close> is the node \<open>Entry e\<close> of a list store and the queue head is \<open>WallHead\<close>. Seconds and
  nanoseconds are signed 64-bit integers held as words; the constants are unsigned, so sums that
  meet them are compared and divided without sign, as in C.

  The slab allocator is a parameter: \<open>tim_callout_add\<close> gets the result of \<open>slab_kmem_cache_alloc\<close>,
  and the entries handed to \<open>slab_kmem_cache_free\<close> are collected in \<open>freed_ents\<close>. A call-out function
  and its private data are numbers, and what a function does is the parameter \<open>call\<close> of
  \<open>invoke_callout\<close>.
\<close>

section \<open>State\<close>

record ktimespec =
  tv_sec :: u64
  tv_nsec :: u64

datatype timer_node = WallHead | Entry nat

record call_out_ent =
  expire :: ktimespec
  callout :: nat
  priv_data :: u64

record system_timer =
  wall_lock :: spinlock
  wall_mask :: cpu
  curtime :: ktimespec
  wall_links :: "timer_node lstore"
  entries :: "nat \<Rightarrow> call_out_ent"
  freed_ents :: "nat list"

definition TIMER_NS_PER_US :: u64 where "TIMER_NS_PER_US = 1000"
definition TIMER_US_PER_MS :: u64 where "TIMER_US_PER_MS = 1000"
definition TIMER_MS_PER_SEC :: u64 where "TIMER_MS_PER_SEC = 1000"
definition TIMER_NS_PER_SEC :: u64 where "TIMER_NS_PER_SEC = TIMER_NS_PER_US * TIMER_US_PER_MS * TIMER_MS_PER_SEC"

section \<open>Operations\<close>

definition calloutent_cmp :: "ktimespec \<Rightarrow> ktimespec \<Rightarrow> int" where
  "calloutent_cmp key ent =
     (if tv_sec key <s tv_sec ent then - 1
      else if tv_sec ent <s tv_sec key then 1
      else if tv_nsec key <s tv_nsec ent then - 1
      else if tv_nsec ent <s tv_nsec key then 1
      else 0)"

text \<open>\<open>container_of\<close> of a link; that of the head is never read.\<close>

definition link_expire :: "('a) system_timer_scheme \<Rightarrow> timer_node \<Rightarrow> ktimespec" where
  "link_expire s n = (case n of Entry e \<Rightarrow> expire (entries s e) | WallHead \<Rightarrow> \<lparr>tv_sec = 0, tv_nsec = 0\<rparr>)"

definition lock_wall :: "('a) system_timer_scheme \<Rightarrow> (intrflags \<times> 'a system_timer_scheme) option" where
  "lock_wall s = do {
     (iflags, l, c) \<leftarrow> spinlock_lock_disable_intr (wall_lock s) (wall_mask s);
     Some (iflags, s\<lparr>wall_lock := l, wall_mask := c\<rparr>)
   }"

definition unlock_wall :: "intrflags \<Rightarrow> ('a) system_timer_scheme \<Rightarrow> 'a system_timer_scheme option" where
  "unlock_wall iflags s = do {
     (l, c) \<leftarrow> spinlock_unlock_restore_intr iflags (wall_lock s) (wall_mask s);
     Some (s\<lparr>wall_lock := l, wall_mask := c\<rparr>)
   }"

definition expire_time :: "u32 \<Rightarrow> ktimespec \<Rightarrow> ktimespec" where
  "expire_time rel_expire_ms cur =
     (let sec = ucast rel_expire_ms div TIMER_MS_PER_SEC;
          nsec = (ucast rel_expire_ms mod TIMER_MS_PER_SEC) * TIMER_US_PER_MS * TIMER_NS_PER_US;
          esec = tv_sec cur + sec;
          (esec, nsec) = (if tv_nsec cur + nsec \<ge> TIMER_NS_PER_SEC then (esec + 1, nsec mod TIMER_NS_PER_SEC)
                          else (esec, nsec))
      in \<lparr>tv_sec = esec, tv_nsec = tv_nsec cur + nsec\<rparr>)"

definition tim_callout_add ::
    "errno + nat \<Rightarrow> u32 \<Rightarrow> nat \<Rightarrow> u64 \<Rightarrow> ('a) system_timer_scheme \<Rightarrow> ((errno + nat) \<times> 'a system_timer_scheme) option" where
  "tim_callout_add alloc rel_expire_ms fn priv s =
     (case alloc of
        Inl e \<Rightarrow> Some (Inl e, s)
      | Inr ent \<Rightarrow> do {
          (iflags, s1) \<leftarrow> lock_wall s;
          let s2 = s1\<lparr>wall_links := list_init (Entry ent) (wall_links s1),
                      entries := (entries s1)(ent := \<lparr>expire = expire_time rel_expire_ms (curtime s1),
                                                      callout = fn, priv_data = priv\<rparr>)\<rparr>;
          h \<leftarrow> queue_add_sort WallHead (Entry ent)
                 (\<lambda>a b. calloutent_cmp (link_expire s2 a) (link_expire s2 b)) QUEUE_ADD_ASCENDING (wall_links s2);
          s3 \<leftarrow> unlock_wall iflags (s2\<lparr>wall_links := h\<rparr>);
          Some (Inr ent, s3)
        })"

text \<open>The search stops at the entry, so the links after it are not read.\<close>

definition tim_callout_cancel :: "nat \<Rightarrow> ('a) system_timer_scheme \<Rightarrow> ((errno + unit) \<times> 'a system_timer_scheme) option" where
  "tim_callout_cancel ent s = do {
     (iflags, s1) \<leftarrow> lock_wall s;
     found \<leftarrow> queue_find_loop (\<lambda>n. if n = Entry ent then 0 else 1) (wall_links s1) WallHead
                (queue_ref_top WallHead (wall_links s1));
     case found of
       None \<Rightarrow> do { s2 \<leftarrow> unlock_wall iflags s1; Some (Inl ENOENT, s2) }
     | Some n \<Rightarrow> do {
         let s2 = s1\<lparr>wall_links := snd (queue_del WallHead n (wall_links s1)), freed_ents := ent # freed_ents s1\<rparr>;
         s3 \<leftarrow> unlock_wall iflags s2;
         Some (Inr (), s3)
       }
   }"

text \<open>One entry is not due yet when it expires later than the current time.\<close>

definition not_due :: "ktimespec \<Rightarrow> ktimespec \<Rightarrow> bool" where
  "not_due exp cur \<longleftrightarrow> tv_sec cur <s tv_sec exp \<or> (tv_sec exp = tv_sec cur \<and> tv_nsec cur <s tv_nsec exp)"

text \<open>The loop of \<open>invoke_callout\<close>, with the lock held.\<close>

partial_function (option) invoke_loop ::
    "(nat \<Rightarrow> u64 \<Rightarrow> ('a) system_timer_scheme \<Rightarrow> 'a system_timer_scheme option) \<Rightarrow> intrflags \<Rightarrow>
     'a system_timer_scheme \<Rightarrow> (intrflags \<times> 'a system_timer_scheme) option" where
  "invoke_loop call iflags s =
     (if queue_is_empty WallHead (wall_links s) then Some (iflags, s)
      else if not_due (link_expire s (queue_ref_top WallHead (wall_links s))) (curtime s) then Some (iflags, s)
      else (case queue_get_top WallHead (wall_links s) of
              (WallHead, h) \<Rightarrow> None
            | (Entry ent, h) \<Rightarrow> do {
                s1 \<leftarrow> unlock_wall iflags (s\<lparr>wall_links := h\<rparr>);
                s2 \<leftarrow> call (callout (entries s1 ent)) (priv_data (entries s1 ent)) s1;
                (iflags', s3) \<leftarrow> lock_wall s2;
                invoke_loop call iflags' s3
              }))"

definition invoke_callout ::
    "(nat \<Rightarrow> u64 \<Rightarrow> ('a) system_timer_scheme \<Rightarrow> 'a system_timer_scheme option) \<Rightarrow>
     'a system_timer_scheme \<Rightarrow> 'a system_timer_scheme option" where
  "invoke_callout call s = do {
     (iflags, s1) \<leftarrow> lock_wall s;
     (iflags', s2) \<leftarrow> invoke_loop call iflags s1;
     unlock_wall iflags' s2
   }"

definition add_time :: "ktimespec \<Rightarrow> ktimespec \<Rightarrow> ktimespec" where
  "add_time cur ld =
     (let nsec = tv_nsec cur + tv_nsec ld;
          (sec, nsec) = (if nsec div TIMER_NS_PER_SEC > 0
                         then (tv_sec cur + nsec div TIMER_NS_PER_SEC, nsec mod TIMER_NS_PER_SEC)
                         else (tv_sec cur, nsec))
      in \<lparr>tv_sec = sec + tv_sec ld, tv_nsec = nsec\<rparr>)"

definition tim_update_walltime ::
    "(nat \<Rightarrow> u64 \<Rightarrow> ('a) system_timer_scheme \<Rightarrow> 'a system_timer_scheme option) \<Rightarrow> ktimespec \<Rightarrow>
     'a system_timer_scheme \<Rightarrow> 'a system_timer_scheme option" where
  "tim_update_walltime call diff s = do {
     (iflags, s1) \<leftarrow> lock_wall s;
     let s2 = s1\<lparr>curtime := add_time (curtime s1) diff\<rparr>;
     s3 \<leftarrow> unlock_wall iflags s2;
     invoke_callout call s3
   }"

text \<open>\<open>created\<close> is the result of \<open>slab_kmem_cache_create\<close>.\<close>

definition tim_callout_init :: "errno + unit \<Rightarrow> unit option" where
  "tim_callout_init created = kassert (created = Inr ())"

definition system_timer_initializer :: system_timer where
  "system_timer_initializer =
     \<lparr>wall_lock = spinlock_init, wall_mask = \<lparr>sstatus = 0, sie = 0\<rparr>, curtime = \<lparr>tv_sec = 0, tv_nsec = 0\<rparr>,
      wall_links = \<lambda>n. \<lparr>lprev = n, lnext = n\<rparr>,
      entries = \<lambda>_. \<lparr>expire = \<lparr>tv_sec = 0, tv_nsec = 0\<rparr>, callout = 0, priv_data = 0\<rparr>, freed_ents = []\<rparr>"

section \<open>Times as numbers\<close>

definition stamp :: "ktimespec \<Rightarrow> int" where
  "stamp ts = sint (tv_sec ts) * 10 ^ 9 + sint (tv_nsec ts)"

definition normal_time :: "ktimespec \<Rightarrow> bool" where
  "normal_time ts \<longleftrightarrow> 0 \<le> sint (tv_sec ts) \<and> sint (tv_sec ts) < 2 ^ 62 \<and> 0 \<le> sint (tv_nsec ts) \<and> sint (tv_nsec ts) < 10 ^ 9"

lemma sint_small: "uint w < 2 ^ 63 \<Longrightarrow> sint w = uint w" for w :: u64
  unfolding sint_uint by (rule signed_take_bit_int_eq_self) (simp_all add: order_trans [OF _ uint_ge_0])

lemma uint_nonneg_sint: "0 \<le> sint w \<Longrightarrow> uint w = sint w" for w :: u64
  using sint_lt [of w] by (simp add: uint_sint take_bit_int_eq_self)

lemma milliseconds_split: "m * 10 ^ 6 = (m div 1000) * 10 ^ 9 + m mod 1000 * 10 ^ 6" for m :: int
proof -
  have "(1000 * d + r) * 10 ^ 6 = d * 10 ^ 9 + r * 10 ^ 6" for d r :: int by simp
  from this [of "m div 1000" "m mod 1000"] show ?thesis unfolding mult_div_mod_eq .
qed

lemma stamp_expire_time:
  assumes cur: "normal_time cur"
  shows "stamp (expire_time ms cur) = stamp cur + uint ms * 10 ^ 6 +
      (if sint (tv_nsec cur) + (uint ms mod 1000) * 10 ^ 6 \<ge> 10 ^ 9 then 10 ^ 9 else 0)"
    and "sint (tv_nsec (expire_time ms cur)) = sint (tv_nsec cur) + (uint ms mod 1000) * 10 ^ 6"
proof -
  define m :: u64 where "m = ucast ms"
  have m: "uint m = uint ms" "uint m < 2 ^ 32"
  proof -
    have "uint ms < 2 ^ 32" using uint_lt2p [of ms] by simp
    then show "uint m = uint ms" "uint m < 2 ^ 32"
      by (simp_all add: m_def unsigned_ucast_eq take_bit_int_eq_self)
  qed
  have s: "uint (tv_sec cur) = sint (tv_sec cur)" "uint (tv_nsec cur) = sint (tv_nsec cur)"
    "sint (tv_sec cur) < 2 ^ 62" "sint (tv_nsec cur) < 10 ^ 9"
    using cur uint_nonneg_sint by (auto simp: normal_time_def)
  define ns where "ns = (m mod 1000) * 1000 * 1000"
  have mod: "uint (m mod 1000) = uint m mod 1000" "uint m mod 1000 < 1000" "0 \<le> uint m mod 1000"
    by (simp_all add: uint_mod)
  then have ns: "uint ns = (uint m mod 1000) * 10 ^ 6"
    by (simp add: ns_def uint_word_ariths(3))
  define sec where "sec = tv_sec cur + m div 1000"
  have "uint (m div 1000) = uint m div 1000" by (simp add: uint_div)
  moreover from this have "uint (m div 1000) < 2 ^ 32" using m(2) uint_ge_0 [of m] by linarith
  ultimately have sec: "uint sec = sint (tv_sec cur) + uint m div 1000" "uint sec < 2 ^ 62 + 2 ^ 32"
    using s uint_add_lem [of "tv_sec cur" "m div 1000"] by (simp_all add: sec_def)
  have small: "uint ns < 10 ^ 9" "0 \<le> uint ns"
    using mod(2) by (simp_all add: ns)
  have nsec: "uint (tv_nsec cur + ns) = sint (tv_nsec cur) + (uint m mod 1000) * 10 ^ 6"
  proof -
    have "uint (tv_nsec cur) + uint ns < 2 ^ 64" using s(2,4) small by simp
    then show ?thesis using uint_add_lem [of "tv_nsec cur" ns] s(2) ns by simp
  qed
  have nsec': "sint (tv_nsec cur + ns) = sint (tv_nsec cur) + (uint m mod 1000) * 10 ^ 6"
  proof -
    have "uint (tv_nsec cur + ns) < 2 ^ 63" using nsec s(4) small ns [symmetric] by simp
    then show ?thesis using sint_small nsec by simp
  qed
  from small have same: "ns mod 1000000000 = ns"
    by (simp add: word_uint_eq_iff uint_mod)
  have unfold: "expire_time ms cur = \<lparr>tv_sec = (if tv_nsec cur + ns \<ge> 1000000000 then sec + 1 else sec), tv_nsec = tv_nsec cur + ns\<rparr>"
    using same by (simp add: expire_time_def Let_def TIMER_NS_PER_SEC_def TIMER_NS_PER_US_def TIMER_US_PER_MS_def
        TIMER_MS_PER_SEC_def ns_def sec_def m_def)
  have carry: "tv_nsec cur + ns \<ge> 1000000000 \<longleftrightarrow> sint (tv_nsec cur) + (uint ms mod 1000) * 10 ^ 6 \<ge> 10 ^ 9"
    using nsec m(1) by (simp add: word_le_def)
  have "uint (sec + 1) = uint sec + 1" using sec(2) uint_add_lem [of sec 1] by simp
  then have "sint sec = uint sec" "sint (sec + 1) = uint sec + 1"
    using sec(2) sint_small [of sec] sint_small [of "sec + 1"] by simp_all
  then show "stamp (expire_time ms cur) = stamp cur + uint ms * 10 ^ 6 +
      (if sint (tv_nsec cur) + (uint ms mod 1000) * 10 ^ 6 \<ge> 10 ^ 9 then 10 ^ 9 else 0)"
    using carry nsec' sec(1) m(1) milliseconds_split [of "uint ms"] by (simp add: unfold stamp_def)
  show "sint (tv_nsec (expire_time ms cur)) = sint (tv_nsec cur) + (uint ms mod 1000) * 10 ^ 6"
    using nsec' m(1) by (simp add: unfold)
qed

section \<open>The lock of the system time\<close>

interpretation wall: locked_state wall_lock wall_mask "\<lambda>l c s. s\<lparr>wall_lock := l, wall_mask := c\<rparr>" lock_wall unlock_wall
  by unfold_locales (simp_all add: lock_wall_def unlock_wall_def)

section \<open>The queue of call-outs as a list of entries\<close>

definition wall_qs :: "nat list \<Rightarrow> timer_node \<Rightarrow> timer_node list" where
  "wall_qs q n = (case n of WallHead \<Rightarrow> map Entry q | Entry _ \<Rightarrow> [])"

definition wall_queue :: "nat list \<Rightarrow> ('a) system_timer_scheme \<Rightarrow> bool" where
  "wall_queue q s \<longleftrightarrow> wf_queues {WallHead} (range Entry) (wall_qs q) (wall_links s)"

definition time_key :: "ktimespec \<Rightarrow> int \<times> int" where
  "time_key ts = (sint (tv_sec ts), sint (tv_nsec ts))"

lemma wall_qs_simps [simp]: "wall_qs q WallHead = map Entry q" "(wall_qs q)(WallHead := map Entry q') = wall_qs q'"
  by (auto simp: wall_qs_def fun_eq_iff split: timer_node.split)

lemma wall_queue_same [simp]:
  "wall_queue q (s\<lparr>entries := es\<rparr>) \<longleftrightarrow> wall_queue q s" "wall_queue q (s\<lparr>freed_ents := fs\<rparr>) \<longleftrightarrow> wall_queue q s"
  "wall_queue q (s\<lparr>curtime := t\<rparr>) \<longleftrightarrow> wall_queue q s"
  by (simp_all add: wall_queue_def)

lemma calloutent_cmp_less: "calloutent_cmp a b < 0 \<longleftrightarrow> time_key a < time_key b"
  by (auto simp: calloutent_cmp_def time_key_def less_prod_def word_sless_alt)

lemma wall_empty: "wall_queue q s \<Longrightarrow> queue_is_empty WallHead (wall_links s) \<longleftrightarrow> q = []"
  using kq.is_empty [of "{WallHead}" "range Entry" "wall_qs q" "wall_links s" WallHead] by (simp add: wall_queue_def)

lemma wall_top:
  assumes "wall_queue (e # q) s"
  shows "queue_ref_top WallHead (wall_links s) = Entry e"
    and "\<exists>h. queue_get_top WallHead (wall_links s) = (Entry e, h) \<and> wall_queue q (s\<lparr>wall_links := h\<rparr>)"
proof -
  have "fst (queue_get_top WallHead (wall_links s)) = Entry e \<and>
      wf_queues {WallHead} (range Entry) ((wall_qs (e # q))(WallHead := map Entry q)) (snd (queue_get_top WallHead (wall_links s)))"
    using kq.get_top [of "{WallHead}" "range Entry" "wall_qs (e # q)" "wall_links s" WallHead "Entry e" "map Entry q"] assms
    by (simp add: wall_queue_def)
  then show "queue_ref_top WallHead (wall_links s) = Entry e"
    and "\<exists>h. queue_get_top WallHead (wall_links s) = (Entry e, h) \<and> wall_queue q (s\<lparr>wall_links := h\<rparr>)"
    by (auto simp: queue_get_top_def Let_def wall_queue_def)
qed

lemma more_update_id: "system_timer.more_update (\<lambda>a. a) s = s" "system_timer.more_update id s = s"
  by (cases s, simp)+

text \<open>The loop takes the call-outs at the front that are due, and calls them with the lock given back.\<close>

lemma invoke_loop_run:
  fixes s :: "('a) system_timer_scheme"
  assumes "wall_queue q s" and free: "lock_free (wall_lock s)"
    and "\<And>f p s'. wall_lock s' = wall_lock s \<Longrightarrow> wall_mask s' = wall_mask s \<Longrightarrow> call f p s' = Some (system_timer.more_update (w f p) s')"
  defines "due \<equiv> \<lambda>e. \<not> not_due (expire (entries s e)) (curtime s)"
    and "entered \<equiv> \<lambda>s :: ('a) system_timer_scheme. s\<lparr>wall_lock := lock_taken (wall_lock s), wall_mask := rv64_cpu_disable_interrupt (wall_mask s)\<rparr>"
  shows "\<exists>h. invoke_loop call (sstatus (wall_mask s)) (entered s) =
      Some (sstatus (wall_mask s), entered (system_timer.more_update
        (fold (\<lambda>e. w (callout (entries s e)) (priv_data (entries s e))) (takeWhile due q)) (s\<lparr>wall_links := h\<rparr>))) \<and>
    wall_queue (dropWhile due q) (s\<lparr>wall_links := h\<rparr>)"
  using assms(1-3) unfolding due_def
proof (induction q arbitrary: s)
  case Nil
  have "wall_queue [] (entered s)" using Nil(1) by (simp add: wall_queue_def entered_def)
  then have "invoke_loop call (sstatus (wall_mask s)) (entered s) = Some (sstatus (wall_mask s), entered s)"
    using wall_empty [of "[]" "entered s"] by (subst invoke_loop.simps) simp
  with Nil(1) show ?case by (intro exI [of _ "wall_links s"]) (simp add: more_update_id)
next
  case (Cons e q)
  have top: "queue_ref_top WallHead (wall_links (entered s)) = Entry e" "\<not> queue_is_empty WallHead (wall_links (entered s))"
    using wall_top(1) [OF Cons(2)] wall_empty [OF Cons(2)] by (simp_all add: entered_def)
  show ?case
  proof (cases "not_due (expire (entries s e)) (curtime s)")
    case True
    then have "invoke_loop call (sstatus (wall_mask s)) (entered s) = Some (sstatus (wall_mask s), entered s)"
      using top by (subst invoke_loop.simps) (simp add: link_expire_def entered_def)
    with True Cons(2) show ?thesis by (intro exI [of _ "wall_links s"]) (simp add: more_update_id)
  next
    case False
    obtain h where h: "queue_get_top WallHead (wall_links s) = (Entry e, h)" "wall_queue q (s\<lparr>wall_links := h\<rparr>)"
      using wall_top(2) [OF Cons(2)] by blast
    let ?w = "w (callout (entries s e)) (priv_data (entries s e))"
    let ?s1 = "system_timer.more_update ?w (s\<lparr>wall_links := h\<rparr>)"
    have swap: "(entered s)\<lparr>wall_links := h\<rparr> = entered (s\<lparr>wall_links := h\<rparr>)"
      by (rule system_timer.equality) (simp_all add: entered_def)
    have "unlock_wall (sstatus (wall_mask s)) ((entered s)\<lparr>wall_links := h\<rparr>) = Some (s\<lparr>wall_links := h\<rparr>)"
      unfolding swap using wall.leave_entered [of s "s\<lparr>wall_links := h\<rparr>"] Cons(3) by (simp add: entered_def)
    moreover have "call (callout (entries s e)) (priv_data (entries s e)) (s\<lparr>wall_links := h\<rparr>) = Some ?s1"
      using Cons(4) [of "s\<lparr>wall_links := h\<rparr>"] by simp
    moreover have "lock_wall ?s1 = Some (sstatus (wall_mask s), entered ?s1)"
      using wall.enter_free [of ?s1] Cons(3) by (simp add: entered_def)
    ultimately have "invoke_loop call (sstatus (wall_mask s)) (entered s) = invoke_loop call (sstatus (wall_mask s)) (entered ?s1)"
      using False top h(1) by (subst invoke_loop.simps) (simp add: link_expire_def entered_def)
    moreover have "wall_queue q ?s1" using h(2) by (simp add: wall_queue_def)
    ultimately show ?thesis
      using Cons.IH [of ?s1] Cons(3,4) False by (auto simp: wall_queue_def o_def)
  qed
qed

lemma wall_find:
  assumes "wall_queue q s"
  shows "queue_find_loop (\<lambda>n. if n = Entry e then 0 else 1) (wall_links s) WallHead (queue_ref_top WallHead (wall_links s)) =
    Some (if e \<in> set q then Some (Entry e) else None)"
proof -
  have q: "is_queue (wall_links s) WallHead (map Entry q)"
    using wf_queues_is_queue [of "{WallHead}" "range Entry" "wall_qs q" "wall_links s" WallHead] assms by (simp add: wall_queue_def)
  have find: "find (\<lambda>n. (if n = Entry e then 0 else (1 :: int)) = 0) (map Entry q) = (if e \<in> set q then Some (Entry e) else None)"
    by (induction q) auto
  show ?thesis
    using queue_find_loop_seg [of "wall_links s" WallHead "map Entry q" WallHead] q find
    by (simp add: is_queue_def queue_ref_top_def)
qed

lemma cancel_run:
  assumes q: "wall_queue q s" and free: "lock_free (wall_lock s)"
  shows "\<exists>h. tim_callout_cancel e s =
      Some (if e \<in> set q then (Inr (), s\<lparr>wall_links := h, freed_ents := e # freed_ents s\<rparr>) else (Inl ENOENT, s)) \<and>
    wall_queue (remove1 e q) (s\<lparr>wall_links := h\<rparr>)"
proof (cases "e \<in> set q")
  case False
  let ?s1 = "s\<lparr>wall_lock := lock_taken (wall_lock s), wall_mask := rv64_cpu_disable_interrupt (wall_mask s)\<rparr>"
  have "wall_queue q ?s1" using q by (simp add: wall_queue_def)
  with False have "tim_callout_cancel e s = Some (Inl ENOENT, s)"
    using wall.enter_free [OF free] wall.leave_entered [OF free, of s] wall_find [of q ?s1 e] by (simp add: tim_callout_cancel_def)
  with False q show ?thesis by (intro exI [of _ "wall_links s"]) (simp add: remove1_idem)
next
  case True
  let ?s1 = "s\<lparr>wall_lock := lock_taken (wall_lock s), wall_mask := rv64_cpu_disable_interrupt (wall_mask s)\<rparr>"
  let ?h = "snd (queue_del WallHead (Entry e) (wall_links s))"
  let ?s2 = "s\<lparr>wall_links := ?h, freed_ents := e # freed_ents s\<rparr>"
  have "wall_queue q ?s1" using q by (simp add: wall_queue_def)
  then have "tim_callout_cancel e s = do {
      s3 \<leftarrow> unlock_wall (sstatus (wall_mask s)) (?s1\<lparr>wall_links := ?h, freed_ents := e # freed_ents s\<rparr>); Some (Inr (), s3) }"
    using True wall.enter_free [OF free] wall_find [of q ?s1 e] by (simp add: tim_callout_cancel_def)
  moreover have "?s1\<lparr>wall_links := ?h, freed_ents := e # freed_ents s\<rparr> =
      ?s2\<lparr>wall_lock := lock_taken (wall_lock s), wall_mask := rv64_cpu_disable_interrupt (wall_mask s)\<rparr>"
    by (rule system_timer.equality) simp_all
  ultimately have run: "tim_callout_cancel e s = Some (Inr (), ?s2)"
    using wall.leave_entered [OF free, of ?s2] by simp
  have "(\<lambda>r. remove1 (Entry e) (wall_qs q r)) = wall_qs (remove1 e q)"
  proof
    have "remove1 (Entry e) (map Entry xs) = map Entry (remove1 e xs)" for xs by (induction xs) auto
    then show "remove1 (Entry e) (wall_qs q r) = wall_qs (remove1 e q) r" for r
      by (simp add: wall_qs_def split: timer_node.split)
  qed
  then have "wall_queue (remove1 e q) (s\<lparr>wall_links := ?h\<rparr>)"
    using kq.del [of "{WallHead}" "range Entry" "wall_qs q" "wall_links s" "Entry e" WallHead] q by (simp add: wall_queue_def)
  with run True show ?thesis by (intro exI [of _ ?h]) simp
qed

lemma add_sort_map:
  "add_sort_list (\<lambda>a b. cmp (g a) (g b)) how (Entry n) (map Entry xs) =
   map Entry (add_sort_list (\<lambda>a b. cmp (g (Entry a)) (g (Entry b))) how n xs)"
  by (induction xs rule: induct_list012) auto

lemma add_run:
  fixes s :: "('a) system_timer_scheme" and ms :: u32 and fn :: nat and priv :: u64
  assumes q: "wall_queue q s" and free: "lock_free (wall_lock s)" and e: "e \<notin> set q"
  defines "es \<equiv> (entries s)(e := \<lparr>expire = expire_time ms (curtime s), callout = fn, priv_data = priv\<rparr>)"
  shows "\<exists>h. tim_callout_add (Inr e) ms fn priv s = Some (Inr e, s\<lparr>wall_links := h, entries := es\<rparr>) \<and>
    wall_queue (add_sort_list (\<lambda>a b. calloutent_cmp (expire (es a)) (expire (es b))) QUEUE_ADD_ASCENDING e q)
      (s\<lparr>wall_links := h, entries := es\<rparr>)"
proof -
  let ?enter = "\<lambda>s :: 'a system_timer_scheme. s\<lparr>wall_lock := lock_taken (wall_lock s), wall_mask := rv64_cpu_disable_interrupt (wall_mask s)\<rparr>"
  let ?h0 = "list_init (Entry e) (wall_links s)"
  define s2 where "s2 = (?enter s)\<lparr>wall_links := ?h0, entries := es\<rparr>"
  have nin: "\<forall>r\<in>{WallHead}. Entry e \<notin> set (wall_qs q r)" using e by auto
  have same: "?h0 = wall_links s"
    using q nin unfolding wall_queue_def wf_queues_def list_not_linked_def list_init_def set_prev_def set_next_def
    by (intro ext) (auto simp: lnode_eqI)
  obtain h where h: "queue_add_sort WallHead (Entry e) (\<lambda>a b. calloutent_cmp (link_expire s2 a) (link_expire s2 b))
      QUEUE_ADD_ASCENDING (wall_links s) = Some h"
    and wf: "wf_queues {WallHead} (range Entry) ((wall_qs q)(WallHead :=
      add_sort_list (\<lambda>a b. calloutent_cmp (link_expire s2 a) (link_expire s2 b)) QUEUE_ADD_ASCENDING (Entry e) (wall_qs q WallHead))) h"
    using queue_add_sort_wf [of "{WallHead}" "range Entry" "wall_qs q" "wall_links s" WallHead "Entry e"] q nin
    unfolding wall_queue_def by blast
  have "s2\<lparr>wall_links := h\<rparr> = ?enter (s\<lparr>wall_links := h, entries := es\<rparr>)"
    by (rule system_timer.equality) (simp_all add: s2_def)
  then have leave: "unlock_wall (sstatus (wall_mask s)) (s2\<lparr>wall_links := h\<rparr>) = Some (s\<lparr>wall_links := h, entries := es\<rparr>)"
    using wall.leave_entered [OF free, of "s\<lparr>wall_links := h, entries := es\<rparr>"] by simp
  have "tim_callout_add (Inr e) ms fn priv s = Some (Inr e, s\<lparr>wall_links := h, entries := es\<rparr>)"
  proof -
    have "tim_callout_add (Inr e) ms fn priv s = do {
        h \<leftarrow> queue_add_sort WallHead (Entry e) (\<lambda>a b. calloutent_cmp (link_expire s2 a) (link_expire s2 b))
          QUEUE_ADD_ASCENDING (wall_links s);
        s3 \<leftarrow> unlock_wall (sstatus (wall_mask s)) (s2\<lparr>wall_links := h\<rparr>);
        Some (Inr e, s3) }"
      using wall.enter_free [OF free] same by (simp add: tim_callout_add_def Let_def s2_def es_def)
    then show ?thesis using h leave by simp
  qed
  moreover have "link_expire s2 (Entry a) = expire (es a)" for a
    by (simp add: link_expire_def s2_def)
  with wf have "wall_queue (add_sort_list (\<lambda>a b. calloutent_cmp (expire (es a)) (expire (es b))) QUEUE_ADD_ASCENDING e q)
      (s\<lparr>wall_links := h, entries := es\<rparr>)"
    by (simp add: wall_queue_def add_sort_map [of calloutent_cmp "link_expire s2"])
  ultimately show ?thesis by blast
qed

lemma remove1_add_sort_list: "n \<notin> set xs \<Longrightarrow> remove1 n (add_sort_list cmp how n xs) = xs"
  by (induction cmp how n xs rule: add_sort_list.induct) auto

lemma not_due_key: "not_due ex cur \<longleftrightarrow> time_key cur < time_key ex"
proof -
  have "a = b \<longleftrightarrow> sint a = sint b" for a b :: u64
    by (auto intro: signed_word_eqI)
  then show ?thesis by (auto simp: not_due_def time_key_def less_prod_def word_sless_alt)
qed

text \<open>When an entry becomes due: with nanoseconds beyond a second, only in the next second.\<close>

lemma not_due_stamp:
  assumes "normal_time t" and "0 \<le> sint (tv_nsec ex)" "sint (tv_nsec ex) < 2 * 10 ^ 9"
  shows "not_due ex t \<longleftrightarrow>
    stamp t < (if sint (tv_nsec ex) \<ge> 10 ^ 9 then (sint (tv_sec ex) + 1) * 10 ^ 9 else stamp ex)"
  using assms unfolding not_due_key by (auto simp: time_key_def less_prod_def stamp_def normal_time_def)

lemma stamp_add_time:
  assumes "normal_time cur" and "0 \<le> sint (tv_sec d)" "sint (tv_sec d) < 2 ^ 61" "0 \<le> sint (tv_nsec d)" "sint (tv_nsec d) < 2 ^ 61"
  shows "stamp (add_time cur d) = stamp cur + stamp d"
    and "0 \<le> sint (tv_nsec (add_time cur d)) \<and> sint (tv_nsec (add_time cur d)) < 10 ^ 9"
proof -
  have u: "uint (tv_sec cur) = sint (tv_sec cur)" "uint (tv_nsec cur) = sint (tv_nsec cur)"
    "uint (tv_sec d) = sint (tv_sec d)" "uint (tv_nsec d) = sint (tv_nsec d)"
    and b: "sint (tv_sec cur) < 2 ^ 62" "sint (tv_nsec cur) < 10 ^ 9"
    using assms uint_nonneg_sint by (auto simp: normal_time_def)
  define n where "n = tv_nsec cur + tv_nsec d"
  have n: "uint n = sint (tv_nsec cur) + sint (tv_nsec d)"
    using uint_add_lem [of "tv_nsec cur" "tv_nsec d"] u b assms(5) by (simp add: n_def)
  have q: "uint (n div 1000000000) = uint n div 1000000000" "uint (n mod 1000000000) = uint n mod 1000000000"
    by (simp_all add: uint_div uint_mod)
  have qb: "uint n div 1000000000 < 2 ^ 34" "0 \<le> uint n div 1000000000"
    using n b assms(5) uint_ge_0 [of n] by (simp, metis div_int_pos_iff zero_le_numeral)
  have sec: "uint (tv_sec cur + n div 1000000000) = sint (tv_sec cur) + uint n div 1000000000"
    using uint_add_lem [of "tv_sec cur" "n div 1000000000"] u(1) q(1) qb b(1) by simp
  have total: "uint (tv_sec cur + n div 1000000000 + tv_sec d) = sint (tv_sec cur) + uint n div 1000000000 + sint (tv_sec d)"
    using uint_add_lem [of "tv_sec cur + n div 1000000000" "tv_sec d"] u(3) sec qb b(1) assms(3) by simp
  have zero: "n div 1000000000 = 0 \<Longrightarrow> n mod 1000000000 = n"
    by (metis add.right_neutral add_0 mult_zero_left div_mult_mod_eq)
  have eq: "add_time cur d = \<lparr>tv_sec = tv_sec cur + n div 1000000000 + tv_sec d, tv_nsec = n mod 1000000000\<rparr>"
    using zero by (simp add: add_time_def Let_def n_def [symmetric] TIMER_NS_PER_SEC_def TIMER_NS_PER_US_def TIMER_US_PER_MS_def
        TIMER_MS_PER_SEC_def word_neq_0_conv [symmetric])
  have sints: "sint (tv_sec cur + n div 1000000000 + tv_sec d) = sint (tv_sec cur) + uint n div 1000000000 + sint (tv_sec d)"
    "sint (n mod 1000000000) = uint n mod 1000000000"
    using sint_small [of "tv_sec cur + n div 1000000000 + tv_sec d"] sint_small [of "n mod 1000000000"] total q(2) qb b(1) assms(3)
    by simp_all
  show "stamp (add_time cur d) = stamp cur + stamp d"
  proof -
    have "(x + k + z) * 10 ^ 9 + r = x * 10 ^ 9 + a + (z * 10 ^ 9 + c)" if "1000000000 * k + r = a + c" for x k z r a c :: int
      using that by simp
    from this [OF mult_div_mod_eq [of 1000000000 "uint n", unfolded n]] show ?thesis
      unfolding stamp_def eq ktimespec.simps sints n .
  qed
  show "0 \<le> sint (tv_nsec (add_time cur d)) \<and> sint (tv_nsec (add_time cur d)) < 10 ^ 9"
    by (simp add: eq sints)
qed

lemma callout_due:
  fixes ms :: u32
  assumes time: "normal_time cur" and t: "normal_time t"
  shows "not_due (expire_time ms cur) t \<longleftrightarrow>
     stamp t < (if sint (tv_nsec cur) + uint ms mod 1000 * 10 ^ 6 < 10 ^ 9 then stamp cur + uint ms * 10 ^ 6
                else (sint (tv_sec cur) + uint ms div 1000 + 2) * 10 ^ 9)"
proof -
  let ?n = "sint (tv_nsec cur) + uint ms mod 1000 * 10 ^ 6" and ?ex = "expire_time ms cur"
  have n: "sint (tv_nsec ?ex) = ?n" "0 \<le> ?n" "?n < 2 * 10 ^ 9"
    using stamp_expire_time(2) [OF time, of ms] time pos_mod_bound [of 1000 "uint ms"]
    unfolding normal_time_def by (simp_all, linarith)
  have "?n \<ge> 10 ^ 9 \<Longrightarrow> sint (tv_sec ?ex) = sint (tv_sec cur) + uint ms div 1000 + 1"
    using stamp_expire_time(1) [OF time, of ms] n(1) milliseconds_split [of "uint ms"] by (simp add: stamp_def)
  then show ?thesis
    using not_due_stamp [OF t, of ?ex] n stamp_expire_time(1) [OF time, of ms]
    by (cases "?n < 10 ^ 9") (simp_all add: not_less algebra_simps)
qed

lemma callout_queue:
  fixes ms :: u32
  assumes q: "wall_queue q s" and free: "lock_free (wall_lock s)" and e: "e \<notin> set q"
  defines "ex \<equiv> expire_time ms (curtime s)"
  shows "\<exists>h q' h'. let s' = s\<lparr>wall_links := h, entries := (entries s)(e := \<lparr>expire = ex, callout = fn, priv_data = priv\<rparr>)\<rparr>
     in tim_callout_add (Inr e) ms fn priv s = Some (Inr e, s') \<and> wall_queue q' s' \<and> set q' = insert e (set q) \<and>
        (sorted (map (\<lambda>a. time_key (expire (entries s a))) q) \<longrightarrow>
          (sorted (map (\<lambda>a. time_key (expire (entries s' a))) q') \<longleftrightarrow>
           q = [] \<or> time_key ex \<le> time_key (expire (entries s (last q))))) \<and>
        tim_callout_cancel e s' = Some (Inr (), s'\<lparr>wall_links := h', freed_ents := e # freed_ents s\<rparr>) \<and>
        wall_queue q (s'\<lparr>wall_links := h'\<rparr>)"
proof -
  define es where "es = (entries s)(e := \<lparr>expire = ex, callout = fn, priv_data = priv\<rparr>)"
  define q' where "q' = add_sort_list (\<lambda>a b. calloutent_cmp (expire (es a)) (expire (es b))) QUEUE_ADD_ASCENDING e q"
  obtain h where h: "tim_callout_add (Inr e) ms fn priv s = Some (Inr e, s\<lparr>wall_links := h, entries := es\<rparr>)"
    "wall_queue q' (s\<lparr>wall_links := h, entries := es\<rparr>)"
    using add_run [OF q free e, of ms fn priv] unfolding q'_def es_def ex_def by blast
  let ?s' = "s\<lparr>wall_links := h, entries := es\<rparr>"
  have set: "set q' = insert e (set q)" by (simp add: q'_def)
  have same: "map (\<lambda>a. time_key (expire (es a))) q = map (\<lambda>a. time_key (expire (entries s a))) q"
    using e by (auto simp: es_def)
  have sorted: "sorted (map (\<lambda>a. time_key (expire (es a))) q') \<longleftrightarrow> q = [] \<or> time_key ex \<le> time_key (expire (entries s (last q)))"
    if "sorted (map (\<lambda>a. time_key (expire (entries s a))) q)"
  proof -
    have "q \<noteq> [] \<Longrightarrow> es (last q) = entries s (last q)" "expire (es e) = ex"
      using e last_in_set [of q] by (auto simp: es_def)
    moreover have "sorted (map (\<lambda>a. time_key (expire (es a))) q') \<longleftrightarrow>
        q = [] \<or> time_key (expire (es e)) \<le> time_key (expire (es (last q)))"
      unfolding q'_def by (rule add_sort_list_sorted [OF calloutent_cmp_less]) (use that in \<open>simp only: same\<close>)
    ultimately show ?thesis by (cases "q = []") simp_all
  qed
  have rem: "remove1 e q' = q" unfolding q'_def by (rule remove1_add_sort_list [OF e])
  have free': "lock_free (wall_lock ?s')" using free by simp
  from cancel_run [OF h(2) free', of e] obtain h' where
    run: "tim_callout_cancel e ?s' = Some (if e \<in> set q' then (Inr (), ?s'\<lparr>wall_links := h', freed_ents := e # freed_ents ?s'\<rparr>) else (Inl ENOENT, ?s'))"
    and h'q: "wall_queue (remove1 e q') (?s'\<lparr>wall_links := h'\<rparr>)" by blast
  then have h': "tim_callout_cancel e ?s' = Some (Inr (), ?s'\<lparr>wall_links := h', freed_ents := e # freed_ents s\<rparr>)"
    "wall_queue q (?s'\<lparr>wall_links := h'\<rparr>)"
    using set unfolding rem by simp_all
  show ?thesis
    using h h' set sorted by (intro exI [of _ h] exI [of _ q'] exI [of _ h']) (simp add: Let_def es_def)
qed

text \<open>A timer at 5.999999 seconds, with no call-out and with entry 7 queued for the time 0.\<close>

definition sample_timer :: system_timer where
  "sample_timer = system_timer_initializer\<lparr>curtime := \<lparr>tv_sec = 5, tv_nsec = 999999000\<rparr>\<rparr>"

definition queued_timer :: "nat list system_timer_scheme" where
  "queued_timer = system_timer.extend
     (sample_timer\<lparr>wall_links := queue_add WallHead (Entry 7) (wall_links sample_timer),
        entries := \<lambda>_. \<lparr>expire = \<lparr>tv_sec = 0, tv_nsec = 0\<rparr>, callout = 3, priv_data = 0\<rparr>\<rparr>) []"

lemma sample_timer_queue: "wall_queue [] sample_timer"
proof -
  have "wf_queues {WallHead} (range Entry) (\<lambda>_. []) (wall_links sample_timer)"
    by (rule wf_queues_init) (auto simp: sample_timer_def system_timer_initializer_def)
  moreover have "wall_qs [] = (\<lambda>_. [])"
    by (simp add: wall_qs_def fun_eq_iff split: timer_node.split)
  ultimately show ?thesis by (simp add: wall_queue_def)
qed

lemma queued_timer_queue: "wall_queue [7] queued_timer"
proof -
  have "wf_queues {WallHead} (range Entry) ((wall_qs [])(WallHead := wall_qs [] WallHead @ [Entry 7]))
      (queue_add WallHead (Entry 7) (wall_links sample_timer))"
    using sample_timer_queue by (intro kq.add) (auto simp: wall_queue_def)
  moreover have "(wall_qs [])(WallHead := [Entry 7]) = wall_qs [7]"
    using wall_qs_simps(2) [of "[]" "[7]"] by simp
  ultimately show ?thesis
    by (simp add: wall_queue_def queued_timer_def system_timer.defs)
qed

lemma sample_timer_fields:
  "lock_free (wall_lock sample_timer)" "lock_free (wall_lock queued_timer)"
  "normal_time (curtime sample_timer)" "normal_time (curtime queued_timer)"
  by (simp_all add: sample_timer_def queued_timer_def system_timer_initializer_def system_timer.defs normal_time_def)

section \<open>Properties\<close>

text \<open>
  C29: the life of a call-out. When the allocator fails nothing else happens. Otherwise the new entry
  is put into the queue, with the expiry time \<open>ms\<close> milliseconds after the current time; but when the
  nanoseconds reach a second, the second is carried and not taken off them, so that the entry is only
  due in the next full second. The queue, if it was in the order of the expiry times, stays so
  unless the new entry expires after every other: it is then put before the last one. Cancelling
  the entry takes it out and frees it, and leaves the queue as it was; an entry that is not in the
  queue is not found. The lock and the interrupt mask are as before.
\<close>

theorem callout_lifecycle:
  fixes ms :: u32 and e :: nat
  assumes q: "wall_queue q s" and free: "lock_free (wall_lock s)" and e: "e \<notin> set q" and time: "normal_time (curtime s)"
  defines "ex \<equiv> expire_time ms (curtime s)"
  shows "tim_callout_add (Inl err) ms fn priv s = Some (Inl err, s) \<and>
    tim_callout_cancel e s = Some (Inl ENOENT, s) \<and>
    (\<forall>t. normal_time t \<longrightarrow> (not_due ex t \<longleftrightarrow>
       stamp t < (if sint (tv_nsec (curtime s)) + uint ms mod 1000 * 10 ^ 6 < 10 ^ 9 then stamp (curtime s) + uint ms * 10 ^ 6
                  else (sint (tv_sec (curtime s)) + uint ms div 1000 + 2) * 10 ^ 9))) \<and>
    (\<exists>h q' h'. let s' = s\<lparr>wall_links := h, entries := (entries s)(e := \<lparr>expire = ex, callout = fn, priv_data = priv\<rparr>)\<rparr>
       in tim_callout_add (Inr e) ms fn priv s = Some (Inr e, s') \<and> wall_queue q' s' \<and> set q' = insert e (set q) \<and>
          (sorted (map (\<lambda>a. time_key (expire (entries s a))) q) \<longrightarrow>
            (sorted (map (\<lambda>a. time_key (expire (entries s' a))) q') \<longleftrightarrow>
             q = [] \<or> time_key ex \<le> time_key (expire (entries s (last q))))) \<and>
          tim_callout_cancel e s' = Some (Inr (), s'\<lparr>wall_links := h', freed_ents := e # freed_ents s\<rparr>) \<and>
          wall_queue q (s'\<lparr>wall_links := h'\<rparr>))"
  using callout_due [OF time] callout_queue [OF q free e] cancel_run [OF q free, of e] e
  unfolding ex_def by (simp add: tim_callout_add_def)

theorem callout_lifecycle_witness:
  "tim_callout_add (Inl ENOMEM) 1 0 0 sample_timer = Some (Inl ENOMEM, sample_timer) \<and>
   map_option fst (tim_callout_add (Inr 7) 1 0 0 sample_timer) = Some (Inr 7)"
  using callout_lifecycle [OF sample_timer_queue sample_timer_fields(1) _ sample_timer_fields(3), of 7 ENOMEM 1 0 0]
  by (auto simp: Let_def)

text \<open>
  C30: \<open>tim_update_walltime\<close> adds the difference to the time, with the nanoseconds below a second
  again, and calls the call-outs. For functions that do not touch the timer, these are the entries from the
  front of the queue that are due at the new time, up to the first that is not: an entry behind it
  has to wait even when it is due. Each is called once, in the order of the queue, without the lock
  and with the interrupt mask of the caller, and leaves the queue; none is freed.
\<close>

theorem update_walltime_calls:
  fixes s :: "('a) system_timer_scheme"
  assumes q: "wall_queue q s" and free: "lock_free (wall_lock s)" and time: "normal_time (curtime s)"
    and diff: "0 \<le> sint (tv_sec d)" "sint (tv_sec d) < 2 ^ 61" "0 \<le> sint (tv_nsec d)" "sint (tv_nsec d) < 2 ^ 61"
    and call: "\<And>f p s'. wall_lock s' = wall_lock s \<Longrightarrow> wall_mask s' = wall_mask s \<Longrightarrow>
      call f p s' = Some (system_timer.more_update (w f p) s')"
  shows "\<exists>h now. stamp now = stamp (curtime s) + stamp d \<and> 0 \<le> sint (tv_nsec now) \<and> sint (tv_nsec now) < 10 ^ 9 \<and>
    (let due = (\<lambda>e. \<not> not_due (expire (entries s e)) now)
     in tim_update_walltime call d s = Some (system_timer.more_update
          (fold (\<lambda>e. w (callout (entries s e)) (priv_data (entries s e))) (takeWhile due q)) (s\<lparr>curtime := now, wall_links := h\<rparr>)) \<and>
        wall_queue (dropWhile due q) (s\<lparr>wall_links := h\<rparr>))"
proof -
  let ?now = "add_time (curtime s) d"
  let ?s1 = "s\<lparr>curtime := ?now\<rparr>"
  let ?enter = "\<lambda>s :: 'a system_timer_scheme. s\<lparr>wall_lock := lock_taken (wall_lock s), wall_mask := rv64_cpu_disable_interrupt (wall_mask s)\<rparr>"
  let ?due = "\<lambda>e. \<not> not_due (expire (entries s e)) ?now"
  have swap: "(?enter s)\<lparr>curtime := ?now\<rparr> = ?enter ?s1"
    by (rule system_timer.equality) simp_all
  have "unlock_wall (sstatus (wall_mask s)) ((?enter s)\<lparr>curtime := ?now\<rparr>) = Some ?s1"
    unfolding swap using wall.leave_entered [OF free, of ?s1] by simp
  then have "tim_update_walltime call d s = invoke_callout call ?s1"
    using wall.enter_free [OF free] by (simp add: tim_update_walltime_def Let_def)
  moreover have q1: "wall_queue q ?s1" using q by simp
  obtain h where h: "invoke_loop call (sstatus (wall_mask s)) (?enter ?s1) = Some (sstatus (wall_mask s), ?enter
      (system_timer.more_update (fold (\<lambda>e. w (callout (entries s e)) (priv_data (entries s e))) (takeWhile ?due q)) (?s1\<lparr>wall_links := h\<rparr>)))"
    and q': "wall_queue (dropWhile ?due q) (?s1\<lparr>wall_links := h\<rparr>)"
    using invoke_loop_run [of q ?s1 call w] q1 free call by auto
  let ?final = "system_timer.more_update (fold (\<lambda>e. w (callout (entries s e)) (priv_data (entries s e))) (takeWhile ?due q)) (?s1\<lparr>wall_links := h\<rparr>)"
  have "invoke_callout call ?s1 = Some ?final"
    using wall.enter_free [of ?s1] wall.leave_taken [of "wall_lock s" "sstatus (wall_mask s)" "rv64_cpu_disable_interrupt (wall_mask s)" ?final] h free
    by (simp add: invoke_callout_def)
  moreover have "wall_queue (dropWhile ?due q) (s\<lparr>wall_links := h\<rparr>)" using q' by (simp add: wall_queue_def)
  ultimately show ?thesis
    using stamp_add_time [OF time diff] unfolding Let_def by (intro exI [of _ h] exI [of _ ?now]) simp
qed

text \<open>One microsecond later it is 6 seconds, and the entry has been called and has left the queue.\<close>

theorem update_walltime_calls_witness:
  "map_option system_timer.more (tim_update_walltime (\<lambda>f _ s. Some (system_timer.more_update ((#) f) s))
      \<lparr>tv_sec = 0, tv_nsec = 1000\<rparr> queued_timer) = Some [3]"
proof -
  let ?d = "\<lparr>tv_sec = 0, tv_nsec = 1000\<rparr>"
  have diff: "0 \<le> sint (tv_sec ?d)" "sint (tv_sec ?d) < 2 ^ 61" "0 \<le> sint (tv_nsec ?d)" "sint (tv_nsec ?d) < 2 ^ 61"
    by simp_all
  have "stamp (curtime queued_timer) = 5999999000" "stamp ?d = 1000"
    by (simp_all add: queued_timer_def sample_timer_def system_timer_initializer_def system_timer.defs stamp_def)
  moreover obtain h now where now: "stamp now = stamp (curtime queued_timer) + stamp ?d" "0 \<le> sint (tv_nsec now)" "sint (tv_nsec now) < 10 ^ 9"
    and run: "tim_update_walltime (\<lambda>f _ s. Some (system_timer.more_update ((#) f) s)) ?d queued_timer =
      Some (system_timer.more_update (fold (\<lambda>e. (#) (callout (entries queued_timer e)))
        (takeWhile (\<lambda>e. \<not> not_due (expire (entries queued_timer e)) now) [7])) (queued_timer\<lparr>curtime := now, wall_links := h\<rparr>))"
    using update_walltime_calls [OF queued_timer_queue sample_timer_fields(2,4) diff,
        of "\<lambda>f _ s. Some (system_timer.more_update ((#) f) s)" "\<lambda>f _. (#) f"] by (auto simp: Let_def)
  ultimately have "0 \<le> sint (tv_sec now)"
    by (simp add: stamp_def)
  then have "\<not> not_due (expire (entries queued_timer 7)) now"
    using now(2) by (simp add: queued_timer_def system_timer.defs not_due_def word_sless_alt)
  with run show ?thesis
    by (simp add: queued_timer_def system_timer.defs)
qed

end
