(* ===== verification/Spec2Isabelle.thy ===== *)
theory Spec2Isabelle
  imports CstringLaws Queue Bitops Spinlock Atomic PgtblRemove ThreadLife SlabLaws IrqLaws EpochTime Timer
begin

text \<open>
  A verification library for the core of an operating system kernel for RISC-V (C, the directories
  src/kern, src/klib and src/hal/riscv64). This theory only gathers the others and describes them.

  \<^bold>\<open>The program and its parts.\<close> The kernel library (klib) provides strings, circular lists and
  queues, bit operations and bitmaps, atomic variables and reference counters, and calendar time. On it rest
  the spinlocks with the interrupt mask of a CPU (kern/spinlock.c, kern/cpuintr.c), the page frame
  database with its buddy pools and the page interface (kern/page-pfdb.c, kern/page-alloc.c), the
  slab allocator (kern/page-slab.c), the
  page tables of an address space (hal/riscv64/rv64-pgtbl.c), the control of preemption in the thread
  information block (kern/thr-preempt.c), the ready queue and the scheduler (kern/sched-queue.c), wait
  queues and mutexes (kern/wqueue.c, kern/mutex.c), interrupt lines (kern/irq.c), the timer
  call-outs (kern/timer.c) and the life of the threads (kern/thr-thread.c). A component calls the ones
  before it and shares no state with them but through these calls; almost every operation is
  a critical section under the spinlock of its component, with interrupts masked.

  \<^bold>\<open>Theories.\<close>

  \<^item> \<^theory_text>\<open>Prelude\<close>: error numbers, the results of kernel routines, alignment, generic lemmas. A routine that may stop
    the kernel (\<open>kassert\<close>) or spin for ever has a result of type \<open>option\<close>, one that returns an error
    number a sum.
  \<^item> \<^theory_text>\<open>Queue\<close> (klib/list.c, klib/queue.c, include/klib/queue.h): the pointer operations on a store of
    nodes. \<open>wf_queues\<close> says which lists a store represents; the locale \<open>queue_ops\<close> is the contract,
    interpreted as \<open>kq\<close>. Lemmas: each operation is its list operation, walks end, sorted insertion.
  \<^item> \<^theory_text>\<open>Bitops\<close> (klib/bitops.c, include/klib/bitops.h): searches in words and bitmaps. The locale
    \<open>bitmap_ops\<close> is a bitmap as a set of positions, interpreted as \<open>bm64\<close>.
  \<^item> \<^theory_text>\<open>Spinlock\<close> (kern/spinlock.c, kern/cpuintr.c, hal/riscv64/rv64-spinlock.c, rv64-cpuintr.c, rv64-xchg.S):
    locks and the interrupt mask; an interleaving of the exchanges of several CPUs as a step
    relation with mutual exclusion. The locale \<open>locked_state\<close> is a component state with one lock and
    the mask; its lemmas run a critical section. It is interpreted for threads, the
    interrupt lines and the timer.
  \<^item> \<^theory_text>\<open>Atomic\<close> (klib/atomic.c, atomic64.c, refcount.c, statcnt.c): atomic variables at their width,
    reference counters, and the interleaved accesses of the holders of one counter: the counter is the number
    of references modulo \<open>2 ^ 32\<close>, and the object lives as long as it has one when there are never \<open>2 ^ 31\<close>.
  \<^item> \<^theory_text>\<open>PageFrame\<close>, \<^theory_text>\<open>Buddy\<close>, \<^theory_text>\<open>Tiling\<close>, \<^theory_text>\<open>BuddyPool\<close>: page frames and the buddy pool of one memory area;
    the geometry of blocks; the invariant \<open>pool_inv\<close> (the blocks partition the frames, free buddies are
    joined, the counters count) and that allocation, splitting, joining and release keep it.
  \<^item> \<^theory_text>\<open>Pfdb\<close>, \<^theory_text>\<open>PfdbLaws\<close>, \<^theory_text>\<open>PageAlloc\<close>: the database over all areas, reservation, lookup, counts,
    statistics, address conversions, and the page interface.
  \<^item> \<^theory_text>\<open>Slab\<close> and the laws in \<^theory_text>\<open>SlabInv\<close>, \<^theory_text>\<open>SlabFree\<close>, \<^theory_text>\<open>SlabGrow\<close>, \<^theory_text>\<open>SlabLaws\<close> (kern/page-slab.c, klib/slist.c): caches of
    objects of one size in pages of the page interface, \<open>kmalloc\<close> and \<open>kfree\<close>. \<open>kmem_inv\<close> ties the lists of free
    objects, the counts, the queues of a cache and the page frames together for the caches with slab data
    inside the slab; allocation and release keep it. \<open>kmalloc\<close> and the allocation of a cache call each other;
    the calls nest at most twice, because the structures that a growing cache asks for are of 24 and 200
    bytes, and the caches for these keep their data inside the slab.
  \<^item> \<^theory_text>\<open>Preempt\<close> (kern/thr-preempt.c): preemption and interrupt nesting, delayed dispatch, events.
  \<^item> \<^theory_text>\<open>SchedQueue\<close>, \<^theory_text>\<open>SchedLaws\<close> (kern/sched-queue.c, the switch and the references of kern/thr-thread.c,
    hal/riscv64/rv64-thread.c): the ready queue refines one list of threads per priority
    (\<open>rq_inv\<close>); what one call of the scheduler does; when delayed dispatching ends.
  \<^item> \<^theory_text>\<open>Wqueue\<close>, \<^theory_text>\<open>WqueueLaws\<close> (kern/wqueue.c, kern/mutex.c): threads that sleep on a queue are moved into the ready
    queue, and what each operation of a mutex does, up to the call of the scheduler for one that
    sleeps and from there on when it was woken up. A function that sleeps is split at that call.
  \<^item> \<^theory_text>\<open>Pgtbl\<close> and the laws in \<^theory_text>\<open>PgtblEntries\<close> (words in memory), \<^theory_text>\<open>PgtblTree\<close> (typed tables), \<^theory_text>\<open>PgtblFrames\<close> (the
    frames of the tables and their counts), \<^theory_text>\<open>PgtblGrow\<close>, \<^theory_text>\<open>PgtblEnter\<close>, \<^theory_text>\<open>PgtblRemove\<close> (hal/riscv64/rv64-pgtbl.c,
    kern/vm-pgtbl.c): the three-level tables of an address space with their frames in the page frame
    database; entering, extracting and removing pages of all sizes.
  \<^item> \<^theory_text>\<open>Threads\<close> and the laws in \<^theory_text>\<open>ThreadRefs\<close> (the steps), \<^theory_text>\<open>ThreadFamily\<close> (end and wait), \<^theory_text>\<open>ThreadLife\<close> (creation
    and the properties) (kern/thr-thread.c): numbers, references and families of threads. \<open>family_inv\<close> counts
    the references of every thread and ties the tree, the numbers and the queues of children together. A thread
    that ends calls the scheduler for the last time (\<open>leave_processor\<close>); that call comes back when dispatching is
    disabled, and then so does \<open>thr_thread_exit\<close>.
  \<^item> \<^theory_text>\<open>Irq\<close>, \<^theory_text>\<open>IrqLaws\<close> (kern/irq.c, include/kern/irq-if.h): interrupt lines, handlers and controllers; the poll and
    dispatch of one interrupt refines a plain run over the devices.
  \<^item> \<^theory_text>\<open>Cstring\<close>, \<^theory_text>\<open>CstringMemory\<close>, \<^theory_text>\<open>CstringLaws\<close> (klib/str*.c, klib/mem*.c, include/klib/ctype.h): the C string and
    memory functions on a memory of bytes; \<open>str_at\<close> says which string is at an address, \<open>filled\<close>,
    \<open>moved\<close> and \<open>put_str\<close> what a function leaves in the memory.
  \<^item> \<^theory_text>\<open>EpochTime\<close> (klib/epoch_time.c): the conversions against the Gregorian calendar as reference.
  \<^item> \<^theory_text>\<open>Timer\<close> (kern/timer.c): system time and call-outs.

  \<^bold>\<open>Conventions.\<close> Definitions keep the names of the C code. A structure is a record, an address of a
  list node or an object is an element of an index type, the memory it points to a function or a
  list. Integers are words of their width wherever a result can wrap, and \<open>int\<close> or \<open>nat\<close> where the
  code keeps them in range (indexes, orders, calendar fields). Each state carries the interrupt
  mask of the CPU, because the locks save and restore it. Code outside a component that is not
  modelled is an argument: what a call-out function does, the allocators of thread structures and of
  stacks. The theories below \<^theory_text>\<open>Threads\<close> take what happens to a thread with no reference left as an
  argument; \<^theory_text>\<open>Threads\<close> supplies it (\<open>thread_ref_dec\<close>).

  \<^bold>\<open>Loops and termination.\<close> No fuel is used but for the nesting of \<open>kmalloc\<close>. Loops over words, orders and array suffixes are total
  functions with a measure. Loops that need not end (a spin on a held lock, a walk along pointers,
  the compare-and-exchange loops, delayed dispatching, the loop over due call-outs) are partial
  functions with values in \<open>option\<close>; that they return is proved where they do, and that they do not
  is proved for a held lock and for delayed dispatching.

  \<^bold>\<open>Claims.\<close> The properties are numbered C1, C2 and so on in the theories: queues C1, C3 and C4, memory
  and strings C2, C8 and C11, bit operations C5 to C7, spinlocks C9 and C10, references C12 and C13, page and slab allocator C14 to
  C21, preemption C22 and C23, scheduler C24 to C26, calendar C27 and C28, timer C29 and C30, wait queues
  and mutexes C31 and C32, page tables C33 to C35, interrupt lines C36 and C37, threads C38 to C40.
  Where the code does not do what it means to, the property states what it does.

  \<^bold>\<open>Not modelled.\<close> One processor is modelled except in the step relations of \<^theory_text>\<open>Spinlock\<close> and \<^theory_text>\<open>Atomic\<close>.
  The structures of the slab allocator are kept apart from the bytes of the objects. In \<^theory_text>\<open>EpochTime\<close> the day of
  the month minus one is an integer, which differs from the C code for the least value of \<open>int\<close> only.
  Processes, virtual memory maps,
  the page cache, CPU information and formatted output are not modelled. Device access, assembly start-up code and
  the user-space test platform are I/O. The early heap (a copy of dlmalloc), the tree macros (a copy
  of the BSD ones) and the configuration tools are third-party code.
\<close>

end
